(* ===== verification/Prelude.thy ===== *)
theory Prelude
  imports Main "HOL-Library.Word" "HOL-Library.Monad_Syntax"
begin

text \<open>
  Shared vocabulary of the development: the machine integer types of src/common/defs.hpp,
  the interface that every fixed-width encoding satisfies, the collections of hints, and
  the generic facts about lists, options and words that several components use.

  \<open>size_t\<close> and \<open>uintptr_t\<close> are 64 bits wide throughout (a 64-bit target). A signed
  integer is the word of the same width, read with \<open>sint\<close>.
\<close>

unbundle bit_operations_syntax

type_synonym u8 = "8 word"
type_synonym u16 = "16 word"
type_synonym u32 = "32 word"
type_synonym u64 = "64 word"
type_synonym i64 = "64 word"
type_synonym f64 = "64 word"
type_synonym size_t = "64 word"
type_synonym bytes = "8 word list"

text \<open>Facts that carry the word arithmetic of masks and powers of two.\<close>

named_theorems mask_simps

text \<open>Definitions of simple accessors, unfolded together.\<close>

named_theorems accessor_defs

subsection \<open>Options\<close>

lemma bind_Some_iff [simp]:
  "(Option.bind x f = Some y) \<longleftrightarrow> (\<exists>a. x = Some a \<and> f a = Some y)"
  by (cases x) auto

lemma option_if_Some [simp]:
  "((if P then x else None) = Some y) \<longleftrightarrow> P \<and> x = Some y"
  by auto

lemma option_if_Some' [simp]:
  "((if P then None else x) = Some y) \<longleftrightarrow> \<not> P \<and> x = Some y"
  by auto

subsection \<open>Results: an error or a value\<close>

definition bind_sum :: "'e + 'a \<Rightarrow> ('a \<Rightarrow> 'e + 'b) \<Rightarrow> 'e + 'b" where
  "bind_sum x f = (case x of Inl err \<Rightarrow> Inl err | Inr a \<Rightarrow> f a)"

definition check_that :: "bool \<Rightarrow> 'e \<Rightarrow> 'e + unit" where
  "check_that P err = (if P then Inr () else Inl err)"

lemma bind_sum_simps [simp]: "bind_sum (Inl err) f = Inl err" "bind_sum (Inr a) f = f a"
  by (simp_all add: bind_sum_def)

lemma bind_sum_Inr_iff [simp]: "bind_sum x f = Inr y \<longleftrightarrow> (\<exists>a. x = Inr a \<and> f a = Inr y)"
  by (cases x) auto

lemma check_that_Inr [simp]: "check_that P err = Inr u \<longleftrightarrow> P"
  by (simp add: check_that_def)

lemma check_that_simps [simp]: "check_that True err = Inr ()" "check_that False err = Inl err"
  by (simp_all add: check_that_def)

lemma sum_if_Inr [simp]:
  "((if P then x else Inl err) = Inr y) \<longleftrightarrow> P \<and> x = Inr y"
  "((if P then Inl err else x) = Inr y) \<longleftrightarrow> \<not> P \<and> x = Inr y"
  by auto

subsection \<open>Lists\<close>

lemma nth_append_length_eq [simp]: "(xs @ x # ys) ! length xs = x"
  by (simp add: nth_append)

lemma length_filter_update:
  "i < length xs \<Longrightarrow>
   length (filter P (xs[i := y])) + (if P (xs ! i) then 1 else 0)
   = length (filter P xs) + (if P y then 1 else 0)"
proof (induction xs arbitrary: i)
  case Nil
  then show ?case by simp
next
  case (Cons x xs)
  then show ?case by (cases i) auto
qed

lemma map_update_same: "i < length xs \<Longrightarrow> f y = f (xs ! i) \<Longrightarrow> map f (xs[i := y]) = map f xs"
  by (metis list_update_id map_update)

lemma filter_update_split:
  "i < length xs \<Longrightarrow>
   filter P (xs[i := y]) = filter P (take i xs) @ (if P y then [y] else []) @ filter P (drop (Suc i) xs)"
  by (simp add: upd_conv_take_nth_drop)

lemma filter_nth_split:
  "i < length xs \<Longrightarrow>
   filter P xs = filter P (take i xs) @ (if P (xs ! i) then [xs ! i] else []) @ filter P (drop (Suc i) xs)"
  by (metis filter_update_split list_update_id)

subsection \<open>Powers of two and masks\<close>

lemma unat_and_mask [mask_simps]:
  "unat (x AND mask n :: 'a::len word) = unat x mod 2 ^ n"
  by (simp only: take_bit_eq_mask [symmetric] unsigned_take_bit_eq) (simp add: take_bit_eq_mod)

lemma unat_2p_word [mask_simps]:
  assumes "n < LENGTH('a)"
  shows "unat (2 ^ n :: 'a::len word) = 2 ^ n"
proof -
  have "(2 ^ n :: 'a word) = word_of_nat (2 ^ n)" by simp
  then have "unat (2 ^ n :: 'a word) = 2 ^ n mod 2 ^ LENGTH('a)" by (simp only: unat_of_nat)
  then show ?thesis using assms by simp
qed

lemma unat_mask_word [mask_simps]:
  "n < LENGTH('a) \<Longrightarrow> unat (mask n :: 'a::len word) = 2 ^ n - 1"
  by (simp add: mask_eq_exp_minus_1 unat_minus_one unat_2p_word)

lemma mask_eq_2p_minus_1: "(mask n :: 'a::len word) = 2 ^ n - 1"
  by (simp add: mask_eq_exp_minus_1)

lemma pow2_dvd_pow2_word: "n \<le> LENGTH('a::len) \<Longrightarrow> (2::nat) ^ n dvd 2 ^ LENGTH('a)"
  by (simp add: le_imp_power_dvd)

lemma unat_add_and_mask:
  "n \<le> LENGTH('a) \<Longrightarrow> unat ((x + y) AND mask n :: 'a::len word) = (unat x + unat y) mod 2 ^ n"
  by (simp add: unat_and_mask unat_word_ariths mod_mod_cancel pow2_dvd_pow2_word)

lemma unat_sub_and_mask:
  assumes "n \<le> LENGTH('a)"
  shows "unat ((x - y) AND mask n :: 'a::len word) = (unat x + (2 ^ n - unat y mod 2 ^ n)) mod 2 ^ n"
proof -
  let ?N = "2 ^ n :: int"
  have dvd: "?N dvd 2 ^ LENGTH('a)" using assms by (rule le_imp_power_dvd)
  have "uint ((x - y) AND mask n) = uint (x - y) mod ?N"
    by (simp only: take_bit_eq_mask [symmetric] unsigned_take_bit_eq) (simp add: take_bit_eq_mod)
  also have "\<dots> = (uint x - uint y) mod ?N"
    using dvd by (simp add: uint_word_ariths mod_mod_cancel)
  also have "\<dots> = (uint x + (?N - uint y mod ?N)) mod ?N"
    by (metis add.commute diff_add_eq mod_add_self1 mod_diff_right_eq uminus_add_conv_diff add_diff_eq)
  also have "?N - uint y mod ?N = int (2 ^ n - unat y mod 2 ^ n)"
    by (subst of_nat_diff) (simp_all add: zmod_int less_imp_le)
  also have "(uint x + int (2 ^ n - unat y mod 2 ^ n)) mod ?N
      = int ((unat x + (2 ^ n - unat y mod 2 ^ n)) mod 2 ^ n)"
    unfolding zmod_int of_nat_add by simp
  finally show ?thesis
    by (simp only: uint_nat of_nat_eq_iff)
qed

subsection \<open>Fixed-width encodings\<close>

text \<open>
  The interface between the instruction format and the byte format: an encoder that emits
  a fixed number of bytes and a decoder that reads them back from the front of any input.
\<close>

locale codec =
  fixes enc :: "'a \<Rightarrow> 'b list"
    and dec :: "'b list \<Rightarrow> ('a \<times> 'b list) option"
    and width :: nat
  assumes length_enc: "length (enc x) = width"
    and dec_enc: "dec (enc x @ rest) = Some (x, rest)"
    and dec_short: "length bs < width \<Longrightarrow> dec bs = None"
    and dec_sound: "dec bs = Some (x, rest) \<Longrightarrow> bs = enc x @ rest"
begin

lemma enc_inj: "enc x = enc y \<Longrightarrow> x = y"
  using dec_enc [of x "[]"] dec_enc [of y "[]"] by simp

lemma dec_total: "dec bs = None \<longleftrightarrow> (\<nexists>x rest. bs = enc x @ rest)"
  using dec_enc dec_sound by (metis not_None_eq old.prod.exhaust option.distinct(1))

lemma dec_length: "dec bs = Some (x, rest) \<Longrightarrow> length bs = width + length rest"
  using dec_sound length_enc by (metis length_append)

end

end
