(* ===== verification/Numerics.thy ===== *)
theory Numerics
  imports Prelude "HOL-Library.Signed_Division"
begin

text \<open>
  The integer helpers of src/common/math.hpp and the checked integer class of
  src/common/safe_int.hpp, on words of any width: an unsigned type is a word read with
  \<open>unat\<close>, a signed type the same word read with \<open>sint\<close>. The compiler builtins for
  counting leading zeroes and for overflow checks are modelled by what they document.

  A checked operation that writes its wrapped result even when it overflows (the builtin
  does) returns the pair of its success flag and the value it wrote.
\<close>

lemma unat_drop_bit [mask_simps]: "unat (drop_bit n v :: 'a::len word) = unat v div 2 ^ n"
  by (simp only: unat_drop_bit_eq) (simp only: drop_bit_eq_div)

subsection \<open>Bounds, logarithms and powers of two\<close>

definition range_in_bounds :: "'a::len word \<Rightarrow> 'a word \<Rightarrow> 'a word \<Rightarrow> bool" where
  "range_in_bounds sz offset n \<longleftrightarrow> offset \<le> sz \<and> n \<le> sz - offset"

function log2_loop :: "'a::len word \<Rightarrow> 'a word \<Rightarrow> 'a word" where
  "log2_loop v log = (let v' = drop_bit 1 v in if v' = 0 then log else log2_loop v' (log + 1))"
  by pat_completeness auto
termination
proof (relation "measure (\<lambda>(v, _). unat v)", goal_cases)
  case 1
  show ?case by simp
next
  case (2 v log v')
  then have "unat v' = unat v div 2 ^ 1" by (simp only: unat_drop_bit)
  moreover from 2 have "unat v' \<noteq> 0" by (simp add: unat_eq_zero)
  ultimately show ?case by simp
qed

declare log2_loop.simps [simp del]

definition log2 :: "'a::len word \<Rightarrow> 'a word" where
  "log2 v = log2_loop v 0"

primrec clz_upto :: "'a::len word \<Rightarrow> nat \<Rightarrow> nat" where
  "clz_upto v 0 = 0"
| "clz_upto v (Suc n) = (if bit v n then 0 else Suc (clz_upto v n))"

definition count_leading_zeroes :: "'a::len word \<Rightarrow> nat" where
  "count_leading_zeroes v = clz_upto v LENGTH('a)"

definition log2_fast :: "'a::len word \<Rightarrow> 'a word" where
  "log2_fast v = of_nat LENGTH('a) - of_nat (count_leading_zeroes v) - 1"

definition is_pow2 :: "'a::len word \<Rightarrow> bool" where
  "is_pow2 v \<longleftrightarrow> v \<noteq> 0 \<and> v AND (v - 1) = 0"

definition max_pow2 :: "'a::len word" where
  "max_pow2 = push_bit (unat (log2 (- 1 :: 'a word))) 1"

text \<open>The loop runs for the shifts 1, 2, 4, ... below the width; it is entered with 1.\<close>

function smear :: "'a::len word \<Rightarrow> nat \<Rightarrow> 'a word" where
  "smear v i = (if 0 < i \<and> i < LENGTH('a) then smear (v OR drop_bit i v) (2 * i) else v)"
  by pat_completeness auto
termination
  by (relation "measure (\<lambda>(_ :: 'a::len word, i). LENGTH('a) - i)") auto

declare smear.simps [simp del]

definition ceil_pow2 :: "'a::len word \<Rightarrow> 'a word" where
  "ceil_pow2 v = smear (v - 1) 1 + 1"

definition ceil_pow2_fast :: "'a::len word \<Rightarrow> 'a word" where
  "ceil_pow2_fast v =
     (if v < 2 then v
      else push_bit (LENGTH('a) - count_leading_zeroes (v - 1)) 1)"

definition ceil_mult :: "'a::len word \<Rightarrow> 'a word \<Rightarrow> 'a word" where
  "ceil_mult a b = ((a + b - 1) div b) * b"

definition mod_pow2 :: "'a::len word \<Rightarrow> 'a word \<Rightarrow> 'a word" where
  "mod_pow2 a b = a AND (b - 1)"

definition is_aligned :: "'a::len word \<Rightarrow> 'a word \<Rightarrow> bool" where
  "is_aligned a b \<longleftrightarrow> mod_pow2 a b = 0"

definition ceil_div :: "'a::len word \<Rightarrow> 'a word \<Rightarrow> 'a word" where
  "ceil_div a b = (a + b - 1) div b"

subsection \<open>Checked arithmetic\<close>

definition fits_signed :: "'a::len itself \<Rightarrow> int \<Rightarrow> bool" where
  "fits_signed _ r \<longleftrightarrow> - (2 ^ (LENGTH('a) - 1)) \<le> r \<and> r < 2 ^ (LENGTH('a) - 1)"

definition checked_add_unsigned :: "'a::len word \<Rightarrow> 'a word \<Rightarrow> bool \<times> 'a word" where
  "checked_add_unsigned a b = (unat a + unat b < 2 ^ LENGTH('a), a + b)"

definition checked_add_signed :: "'a::len word \<Rightarrow> 'a word \<Rightarrow> bool \<times> 'a word" where
  "checked_add_signed a b = (fits_signed TYPE('a) (sint a + sint b), a + b)"

definition checked_sub_unsigned :: "'a::len word \<Rightarrow> 'a word \<Rightarrow> bool \<times> 'a word" where
  "checked_sub_unsigned a b = (unat b \<le> unat a, a - b)"

definition checked_mul_unsigned :: "'a::len word \<Rightarrow> 'a word \<Rightarrow> bool \<times> 'a word" where
  "checked_mul_unsigned a b = (unat a * unat b < 2 ^ LENGTH('a), a * b)"

definition checked_div_unsigned :: "'a::len word \<Rightarrow> 'a word \<Rightarrow> 'a word option" where
  "checked_div_unsigned a b = (if b = 0 then None else Some (a div b))"

definition checked_mod_unsigned :: "'a::len word \<Rightarrow> 'a word \<Rightarrow> 'a word option" where
  "checked_mod_unsigned a b = (if b = 0 then None else Some (a mod b))"

definition checked_sub_signed :: "'a::len word \<Rightarrow> 'a word \<Rightarrow> bool \<times> 'a word" where
  "checked_sub_signed a b = (fits_signed TYPE('a) (sint a - sint b), a - b)"

definition checked_mul_signed :: "'a::len word \<Rightarrow> 'a word \<Rightarrow> bool \<times> 'a word" where
  "checked_mul_signed a b = (fits_signed TYPE('a) (sint a * sint b), a * b)"

text \<open>The smallest signed value, \<open>std::numeric_limits<T>::min()\<close>.\<close>

definition signed_min :: "'a::len word" where
  "signed_min = push_bit (LENGTH('a) - 1) 1"

definition checked_div_signed :: "'a::len word \<Rightarrow> 'a word \<Rightarrow> 'a word option" where
  "checked_div_signed a b =
     (if b = 0 \<or> (a = signed_min \<and> b = - 1) then None
      else Some (word_of_int (sint a sdiv sint b)))"

definition checked_mod_signed :: "'a::len word \<Rightarrow> 'a word \<Rightarrow> 'a word option" where
  "checked_mod_signed a b =
     (if b = 0 \<or> (a = signed_min \<and> b = - 1) then None
      else Some (word_of_int (sint a smod sint b)))"

text \<open>\<open>checked_cast\<close> between unsigned types: \<open>None\<close> is the thrown error.\<close>

definition checked_cast_unsigned :: "'a::len word \<Rightarrow> 'b::len word option" where
  "checked_cast_unsigned from =
     (if unat from \<le> unat (- 1 :: 'b word) then Some (ucast from) else None)"

subsection \<open>The class SafeInt over a signed type\<close>

text \<open>
  A failed \<open>try_add\<close>, \<open>try_sub\<close> or \<open>try_mul\<close> leaves the wrapped value in the object;
  a failed \<open>try_div\<close> or \<open>try_mod\<close> leaves the old one. The operators throw when the
  corresponding \<open>try_\<close> function fails.
\<close>

datatype safe_int_error =
    AdditionOverflow
  | SubtractionOverflow
  | DivisionError
  | RemainderError

definition try_add :: "'a::len word \<Rightarrow> 'a word \<Rightarrow> bool \<times> 'a word" where
  "try_add val v = checked_add_signed val v"

definition try_sub :: "'a::len word \<Rightarrow> 'a word \<Rightarrow> bool \<times> 'a word" where
  "try_sub val v = checked_sub_signed val v"

definition try_mul :: "'a::len word \<Rightarrow> 'a word \<Rightarrow> bool \<times> 'a word" where
  "try_mul val v = checked_mul_signed val v"

definition try_div :: "'a::len word \<Rightarrow> 'a word \<Rightarrow> bool \<times> 'a word" where
  "try_div val v = (case checked_div_signed val v of None \<Rightarrow> (False, val) | Some r \<Rightarrow> (True, r))"

definition try_mod :: "'a::len word \<Rightarrow> 'a word \<Rightarrow> bool \<times> 'a word" where
  "try_mod val v = (case checked_mod_signed val v of None \<Rightarrow> (False, val) | Some r \<Rightarrow> (True, r))"

definition add_throws :: "'a::len word \<Rightarrow> 'a word \<Rightarrow> safe_int_error + 'a word" where
  "add_throws val v = (let (ok, r) = try_add val v in if \<not> ok then Inl AdditionOverflow else Inr r)"

definition sub_throws :: "'a::len word \<Rightarrow> 'a word \<Rightarrow> safe_int_error + 'a word" where
  "sub_throws val v = (let (ok, r) = try_sub val v in if \<not> ok then Inl SubtractionOverflow else Inr r)"

text \<open>The message of a failed multiplication is the one of subtraction in the source.\<close>

definition mul_throws :: "'a::len word \<Rightarrow> 'a word \<Rightarrow> safe_int_error + 'a word" where
  "mul_throws val v = (let (ok, r) = try_mul val v in if \<not> ok then Inl SubtractionOverflow else Inr r)"

definition div_throws :: "'a::len word \<Rightarrow> 'a word \<Rightarrow> safe_int_error + 'a word" where
  "div_throws val v = (let (ok, r) = try_div val v in if \<not> ok then Inl DivisionError else Inr r)"

definition mod_throws :: "'a::len word \<Rightarrow> 'a word \<Rightarrow> safe_int_error + 'a word" where
  "mod_throws val v = (let (ok, r) = try_mod val v in if \<not> ok then Inl RemainderError else Inr r)"

text \<open>The same operators of the class over an unsigned type.\<close>

definition add_throws_unsigned :: "'a::len word \<Rightarrow> 'a word \<Rightarrow> safe_int_error + 'a word" where
  "add_throws_unsigned val v =
     (let (ok, r) = checked_add_unsigned val v in if \<not> ok then Inl AdditionOverflow else Inr r)"

definition sub_throws_unsigned :: "'a::len word \<Rightarrow> 'a word \<Rightarrow> safe_int_error + 'a word" where
  "sub_throws_unsigned val v =
     (let (ok, r) = checked_sub_unsigned val v in if \<not> ok then Inl SubtractionOverflow else Inr r)"

definition mul_throws_unsigned :: "'a::len word \<Rightarrow> 'a word \<Rightarrow> safe_int_error + 'a word" where
  "mul_throws_unsigned val v =
     (let (ok, r) = checked_mul_unsigned val v in if \<not> ok then Inl SubtractionOverflow else Inr r)"

definition div_throws_unsigned :: "'a::len word \<Rightarrow> 'a word \<Rightarrow> safe_int_error + 'a word" where
  "div_throws_unsigned val v =
     (case checked_div_unsigned val v of None \<Rightarrow> Inl DivisionError | Some r \<Rightarrow> Inr r)"

definition mod_throws_unsigned :: "'a::len word \<Rightarrow> 'a word \<Rightarrow> safe_int_error + 'a word" where
  "mod_throws_unsigned val v =
     (case checked_mod_unsigned val v of None \<Rightarrow> Inl RemainderError | Some r \<Rightarrow> Inr r)"

subsection \<open>The position of the highest bit\<close>

text \<open>
  \<open>bitlen_bounds v n\<close>: the word \<open>v\<close> has exactly \<open>n\<close> significant bits. The loop
  versions and the hardware versions of the functions above are both characterised by it.
\<close>

definition bitlen_bounds :: "'a::len word \<Rightarrow> nat \<Rightarrow> bool" where
  "bitlen_bounds v n \<longleftrightarrow> n \<le> LENGTH('a) \<and> unat v < 2 ^ n \<and> (0 < n \<longrightarrow> 2 ^ (n - 1) \<le> unat v)"

lemma bit_word_nat: "bit (v :: 'a::len word) k \<longleftrightarrow> odd (unat v div 2 ^ k)"
  by (metis bit_iff_odd bit_unsigned_iff bit_imp_le_length not_less possible_bit_nat)

lemma bitlen_bounds_exists: "\<exists>n. bitlen_bounds (v :: 'a::len word) n"
proof -
  define n where "n = (LEAST n. unat v < 2 ^ n)"
  have ex: "unat v < 2 ^ LENGTH('a)" by (rule unsigned_less)
  then have up: "unat v < 2 ^ n" and le: "n \<le> LENGTH('a)"
    unfolding n_def by (rule LeastI, rule Least_le)
  have "0 < n \<longrightarrow> 2 ^ (n - 1) \<le> unat v"
    by (metis n_def diff_less not_less not_less_Least zero_less_one)
  with up le show ?thesis unfolding bitlen_bounds_def by blast
qed

lemma bitlen_bounds_zero: "bitlen_bounds v 0 \<longleftrightarrow> v = 0"
  by (auto simp: bitlen_bounds_def unat_eq_zero)

lemma bitlen_bounds_pos: "v \<noteq> 0 \<Longrightarrow> bitlen_bounds v n \<Longrightarrow> 0 < n"
  using bitlen_bounds_zero [of v] by (cases n) auto

lemma bitlen_bounds_bit_less:
  fixes v :: "'a::len word"
  assumes "bitlen_bounds v n" and "bit v k"
  shows "k < n"
proof -
  from assms(2) have "unat v div 2 ^ k \<noteq> 0"
    by (metis bit_word_nat even_zero)
  then have "2 ^ k \<le> unat v" by (metis div_less not_less)
  also have "unat v < 2 ^ n" using assms(1) by (simp add: bitlen_bounds_def)
  finally show ?thesis by simp
qed

lemma bitlen_bounds_top_bit:
  fixes v :: "'a::len word"
  assumes "bitlen_bounds v n" and "0 < n"
  shows "bit v (n - 1)"
proof -
  obtain m where m: "n = Suc m" using assms(2) by (cases n) auto
  with assms have "2 ^ (n - 1) * 1 \<le> unat v" "unat v < 2 ^ (n - 1) * Suc 1"
    by (auto simp: bitlen_bounds_def)
  then have "unat v div 2 ^ (n - 1) = 1" by (rule div_nat_eqI)
  then show ?thesis by (simp add: bit_word_nat)
qed

lemma bitlen_bounds_unique:
  "bitlen_bounds v m \<Longrightarrow> bitlen_bounds v n \<Longrightarrow> m = n"
proof (induction m n rule: linorder_wlog)
  case (le m n)
  then show ?case
    using bitlen_bounds_bit_less [of v m "n - 1"] bitlen_bounds_top_bit [of v n]
    by (cases "n = 0") auto
next
  case (sym m n)
  then show ?case by simp
qed

lemma clz_upto_bound:
  assumes "\<And>k. bit v k \<Longrightarrow> k < n" and "0 < n \<longrightarrow> bit v (n - 1)" and "n \<le> l"
  shows "clz_upto v l = l - n"
  using assms(3)
proof (induction l)
  case 0
  then show ?case by simp
next
  case (Suc l)
  show ?case
  proof (cases "n = Suc l")
    case True
    with assms(2) show ?thesis by simp
  next
    case False
    with Suc.prems have "n \<le> l" by simp
    moreover from this have "\<not> bit v l" using assms(1) by (meson not_less)
    ultimately show ?thesis using Suc.IH by (simp add: Suc_diff_le)
  qed
qed

lemma count_leading_zeroes_bitlen:
  assumes "bitlen_bounds (v :: 'a::len word) n"
  shows "count_leading_zeroes v = LENGTH('a) - n"
  unfolding count_leading_zeroes_def
proof (rule clz_upto_bound)
  show "\<And>k. bit v k \<Longrightarrow> k < n" using assms by (rule bitlen_bounds_bit_less)
  show "0 < n \<longrightarrow> bit v (n - 1)" using assms bitlen_bounds_top_bit by blast
  show "n \<le> LENGTH('a)" using assms by (simp add: bitlen_bounds_def)
qed

lemma bitlen_bounds_shift:
  "bitlen_bounds (drop_bit 1 v :: 'a::len word) n \<Longrightarrow> drop_bit 1 v \<noteq> 0 \<Longrightarrow> bitlen_bounds v (Suc n)"
proof -
  assume b: "bitlen_bounds (drop_bit 1 v) n" and nz: "drop_bit 1 v \<noteq> 0"
  have u: "unat (drop_bit 1 v) = unat v div 2" by (simp add: unat_drop_bit)
  with b nz have n: "0 < n" "unat v div 2 < 2 ^ n" "2 ^ (n - 1) \<le> unat v div 2" "n \<le> LENGTH('a)"
    by (auto simp: bitlen_bounds_def bitlen_bounds_zero [symmetric] intro: ccontr)
  have lo: "2 ^ n \<le> unat v"
    using n(1,3) by (cases n) auto
  moreover have "unat v < 2 ^ LENGTH('a)" by (rule unsigned_less)
  ultimately have "(2::nat) ^ n < 2 ^ LENGTH('a)" by linarith
  then have "n < LENGTH('a)" by simp
  with n lo show ?thesis by (auto simp: bitlen_bounds_def)
qed

lemma bitlen_bounds_small: "drop_bit 1 v = 0 \<Longrightarrow> v \<noteq> 0 \<Longrightarrow> bitlen_bounds (v :: 'a::len word) 1"
proof -
  assume "drop_bit 1 v = 0" "v \<noteq> 0"
  then have "unat v div 2 ^ 1 = 0" "unat v \<noteq> 0"
    by (metis unat_drop_bit unsigned_0, simp add: unat_eq_zero)
  then show ?thesis by (auto simp: bitlen_bounds_def Suc_le_eq)
qed

lemma unat_add_one:
  "unat v + 1 < 2 ^ LENGTH('a) \<Longrightarrow> unat (v + 1 :: 'a::len word) = unat v + 1"
  by (simp add: unat_word_ariths)

lemma log2_loop_bitlen:
  assumes "v \<noteq> 0" and "bitlen_bounds (v :: 'a::len word) n" and "unat log + n < 2 ^ LENGTH('a)"
  shows "unat (log2_loop v log) = unat log + n - 1"
  using assms
proof (induction v log arbitrary: n rule: log2_loop.induct)
  case (1 v log)
  show ?case
  proof (cases "drop_bit 1 v = 0")
    case True
    with 1(2) have "bitlen_bounds v 1" by (intro bitlen_bounds_small)
    with 1(3) have "n = 1" by (rule bitlen_bounds_unique)
    with True show ?thesis by (simp add: log2_loop.simps Let_def)
  next
    case False
    obtain m where m: "bitlen_bounds (drop_bit 1 v) m" using bitlen_bounds_exists by blast
    with False have "bitlen_bounds v (Suc m)" by (rule bitlen_bounds_shift [rotated -1])
    with 1(3) have n: "n = Suc m" by (rule bitlen_bounds_unique)
    have m0: "m \<noteq> 0" using bitlen_bounds_pos [OF False m] by simp
    have u: "unat (log + 1) = unat log + 1"
      using 1(4) n by (intro unat_add_one) simp
    have "unat (log2_loop (drop_bit 1 v) (log + 1)) = unat (log + 1) + m - 1"
      using 1(1) [OF refl False False m] 1(4) n u by simp
    with False u n m0 show ?thesis by (subst log2_loop.simps) (simp add: Let_def)
  qed
qed

lemma len_less_exp: "LENGTH('a::len) < 2 ^ LENGTH('a)"
  by (rule less_exp)

lemma log2_bitlen:
  assumes "v \<noteq> 0" and "bitlen_bounds (v :: 'a::len word) n"
  shows "unat (log2 v) = n - 1"
proof -
  have "n \<le> LENGTH('a)" using assms(2) by (simp add: bitlen_bounds_def)
  then have "unat (0 :: 'a word) + n < 2 ^ LENGTH('a)"
    by (simp add: order.strict_trans1 [OF _ len_less_exp])
  with assms show ?thesis unfolding log2_def by (subst log2_loop_bitlen) auto
qed

lemma log2_fast_bitlen:
  assumes "v \<noteq> 0" and "bitlen_bounds (v :: 'a::len word) n"
  shows "unat (log2_fast v) = n - 1"
proof -
  have n: "0 < n" "n \<le> LENGTH('a)"
    using assms bitlen_bounds_pos [OF assms] by (auto simp: bitlen_bounds_def)
  have "log2_fast v = of_nat LENGTH('a) - of_nat (LENGTH('a) - n) - 1"
    unfolding log2_fast_def using assms by (simp add: count_leading_zeroes_bitlen)
  also have "\<dots> = of_nat (n - 1)"
    using n by (simp add: of_nat_diff)
  finally have "unat (log2_fast v) = (n - 1) mod 2 ^ LENGTH('a)"
    by (simp only: unat_of_nat)
  also have "\<dots> = n - 1"
    using n by (intro mod_less order.strict_trans1 [OF _ len_less_exp]) simp
  finally show ?thesis .
qed

lemma log2_bounds:
  assumes "v \<noteq> 0"
  shows "2 ^ unat (log2 v) \<le> unat (v :: 'a::len word)"
    and "unat v < 2 ^ Suc (unat (log2 v))"
    and "unat (log2 v) < LENGTH('a)"
proof -
  obtain n where n: "bitlen_bounds v n" using bitlen_bounds_exists by blast
  with assms have "0 < n" by (intro bitlen_bounds_pos)
  with n show "2 ^ unat (log2 v) \<le> unat v" "unat v < 2 ^ Suc (unat (log2 v))"
    "unat (log2 v) < LENGTH('a)"
    by (auto simp: log2_bitlen [OF assms n] bitlen_bounds_def)
qed

lemma log2_fast_eq: "v \<noteq> 0 \<Longrightarrow> log2_fast v = log2 (v :: 'a::len word)"
  using bitlen_bounds_exists [of v] log2_bitlen log2_fast_bitlen by (metis word_unat_eq_iff)

lemma unat_minus_one_word: "v \<noteq> 0 \<Longrightarrow> unat (v - 1 :: 'a::len word) = unat v - 1"
  by (rule unat_minus_one)

lemma is_pow2_iff: "is_pow2 (v :: 'a::len word) \<longleftrightarrow> (\<exists>k < LENGTH('a). v = 2 ^ k)"
proof
  assume p: "is_pow2 v"
  then have nz: "v \<noteq> 0" and a: "v AND (v - 1) = 0" by (auto simp: is_pow2_def)
  define k where "k = unat (log2 v)"
  have b: "2 ^ k \<le> unat v" "unat v < 2 ^ Suc k" "k < LENGTH('a)"
    unfolding k_def using log2_bounds [OF nz] by auto
  have "unat v = 2 ^ k"
  proof (rule ccontr)
    assume "unat v \<noteq> 2 ^ k"
    with b have "2 ^ k * 1 \<le> unat v - 1" "unat v - 1 < 2 ^ k * Suc 1" by auto
    then have "(unat v - 1) div 2 ^ k = 1" by (rule div_nat_eqI)
    then have "bit (v - 1) k" using nz by (simp add: bit_word_nat unat_minus_one_word)
    moreover have "unat v div 2 ^ k = 1" using b by (intro div_nat_eqI) auto
    then have "bit v k" by (simp add: bit_word_nat)
    ultimately have "bit (v AND (v - 1)) k" by (simp add: bit_and_iff)
    with a show False by simp
  qed
  with b(3) have "v = 2 ^ k" by (simp add: word_unat_eq_iff unat_2p_word)
  with b(3) show "\<exists>k < LENGTH('a). v = 2 ^ k" by blast
next
  assume "\<exists>k < LENGTH('a). v = 2 ^ k"
  then obtain k where k: "k < LENGTH('a)" "v = 2 ^ k" by blast
  have "unat (v AND mask k) = 0"
    using k by (simp add: unat_and_mask unat_2p_word)
  then have "v AND mask k = 0" by (simp only: unat_eq_zero)
  moreover have "v \<noteq> 0" using k by (metis unat_2p_word unsigned_0 power_not_zero zero_neq_numeral)
  ultimately show "is_pow2 v" using k by (simp add: is_pow2_def mask_eq_exp_minus_1)
qed

lemma bit_smear:
  assumes "0 < i" and "\<And>k. bit (w :: 'a word) k \<longleftrightarrow> (\<exists>j < i. bit (v :: 'a::len word) (k + j))"
  shows "bit (smear w i) k \<longleftrightarrow> (\<exists>j. bit v (k + j))"
  using assms
proof (induction w i rule: smear.induct)
  case (1 w i)
  show ?case
  proof (cases "i < LENGTH('a)")
    case True
    have step: "bit (w OR drop_bit i w) m \<longleftrightarrow> (\<exists>j < 2 * i. bit v (m + j))" for m
    proof -
      have "(\<exists>j < 2 * i. bit v (m + j)) \<longleftrightarrow>
          (\<exists>j < i. bit v (m + j)) \<or> (\<exists>j < i. bit v ((i + m) + j))"
        (is "?L \<longleftrightarrow> ?R")
      proof
        assume ?L
        then obtain j where j: "j < 2 * i" "bit v (m + j)" by blast
        show ?R
        proof (cases "j < i")
          case False
          then have "j - i < i" "(i + m) + (j - i) = m + j" using j by auto
          then show ?R using j by metis
        qed (use j in blast)
      next
        assume ?R
        then show ?L
        proof
          assume "\<exists>j < i. bit v (i + m + j)"
          then obtain j where "j < i" "bit v (i + m + j)" by blast
          then show ?L by (intro exI [of _ "i + j"]) (simp add: ac_simps)
        qed (metis less_imp_add_positive mult_2 trans_less_add1)
      qed
      then show ?thesis
        by (simp add: bit_or_iff bit_drop_bit_eq "1.prems"(2))
    qed
    have "bit (smear (w OR drop_bit i w) (2 * i)) k \<longleftrightarrow> (\<exists>j. bit v (k + j))"
      using True "1.prems"(1) step by (intro "1.IH") auto
    with True "1.prems"(1) show ?thesis by (simp add: smear.simps [of w i])
  next
    case False
    then have "bit v (k + j) \<Longrightarrow> j < i" for j
      using bit_imp_le_length [of v "k + j"] by simp
    with False "1.prems" show ?thesis by (auto simp: smear.simps [of w i])
  qed
qed

lemma unat_minus_1: "unat (- 1 :: 'a::len word) = 2 ^ LENGTH('a) - 1"
  by (simp add: unsigned_minus_1_eq_mask mask_eq_exp_minus_1)

lemma smear_mask:
  assumes "bitlen_bounds (v :: 'a::len word) n"
  shows "smear v (Suc 0) = mask n"
proof (rule bit_word_eqI)
  fix k assume "k < LENGTH('a)"
  have "bit (smear v (Suc 0)) k \<longleftrightarrow> (\<exists>j. bit v (k + j))"
    by (rule bit_smear) auto
  also have "\<dots> \<longleftrightarrow> k < n"
  proof
    assume "\<exists>j. bit v (k + j)"
    then show "k < n" using bitlen_bounds_bit_less [OF assms] by fastforce
  next
    assume "k < n"
    then have "bit v (k + (n - 1 - k))" using bitlen_bounds_top_bit [OF assms] by simp
    then show "\<exists>j. bit v (k + j)" by blast
  qed
  also have "\<dots> \<longleftrightarrow> bit (mask n :: 'a word) k"
    using \<open>k < LENGTH('a)\<close> by (simp add: bit_mask_iff)
  finally show "bit (smear v (Suc 0)) k = bit (mask n :: 'a word) k" .
qed

lemma ceil_pow2_bitlen:
  "bitlen_bounds (v - 1 :: 'a::len word) n \<Longrightarrow> ceil_pow2 v = 2 ^ n"
  by (simp add: ceil_pow2_def smear_mask mask_eq_exp_minus_1)

lemma word_less_2_cases:
  assumes "v < (2 :: 'a::len word)"
  shows "v = 0 \<or> v = 1"
proof -
  have "unat v < 2"
  proof (cases "LENGTH('a) = 1")
    case True
    then show ?thesis using unsigned_less [of v, where ?'a = nat] by simp
  next
    case False
    then have "1 < LENGTH('a)" using len_gt_0 [where ?'a = 'a] by linarith
    then have "unat (2 :: 'a word) = 2" using unat_2p_word [of 1, where ?'a = 'a] by simp
    with assms show ?thesis by (simp add: word_less_nat_alt)
  qed
  then show ?thesis by (auto simp: less_2_cases_iff word_unat_eq_iff)
qed

lemma ceil_pow2_fast_eq: "ceil_pow2_fast v = ceil_pow2 (v :: 'a::len word)"
proof -
  obtain n where n: "bitlen_bounds (v - 1) n" using bitlen_bounds_exists by blast
  then have le: "n \<le> LENGTH('a)" by (simp add: bitlen_bounds_def)
  show ?thesis
  proof (cases "v < 2")
    case False
    with n le show ?thesis
      by (simp add: ceil_pow2_fast_def count_leading_zeroes_bitlen ceil_pow2_bitlen push_bit_of_1)
  next
    case True
    have "v = 0 \<or> v = 1" using True by (rule word_less_2_cases)
    then show ?thesis
    proof
      assume v0: "v = 0"
      have "(2::nat) ^ (LENGTH('a) - 1) < 2 ^ LENGTH('a)" by simp
      then have "(2::nat) ^ (LENGTH('a) - 1) \<le> 2 ^ LENGTH('a) - 1" by linarith
      then have "bitlen_bounds (- 1 :: 'a word) LENGTH('a)"
        by (simp add: bitlen_bounds_def unat_minus_1)
      then have "ceil_pow2 v = 0" using v0 by (simp add: ceil_pow2_bitlen)
      then show ?thesis using v0 True by (simp only: ceil_pow2_fast_def if_True)
    next
      assume v1: "v = 1"
      then have "ceil_pow2 v = 2 ^ 0" by (intro ceil_pow2_bitlen) (simp add: bitlen_bounds_zero)
      with v1 True show ?thesis by (simp add: ceil_pow2_fast_def)
    qed
  qed
qed

lemma max_pow2_eq: "(max_pow2 :: 'a::len word) = 2 ^ (LENGTH('a) - 1)"
proof -
  have "(2::nat) ^ (LENGTH('a) - 1) < 2 ^ LENGTH('a)" by simp
  then have "(2::nat) ^ (LENGTH('a) - 1) \<le> 2 ^ LENGTH('a) - 1" by linarith
  then have "bitlen_bounds (- 1 :: 'a word) LENGTH('a)"
    by (simp add: bitlen_bounds_def unat_minus_1)
  then have "unat (log2 (- 1 :: 'a word)) = LENGTH('a) - 1" by (intro log2_bitlen) auto
  then show ?thesis by (simp add: max_pow2_def push_bit_of_1)
qed

lemma unat_max_pow2: "unat (max_pow2 :: 'a::len word) = 2 ^ (LENGTH('a) - 1)"
  by (simp add: max_pow2_eq unat_2p_word)

text \<open>\<open>ceil_pow2\<close> finds the least power of two that is not below its argument.\<close>

lemma ceil_pow2_exponent:
  assumes "0 < v" and "v \<le> (max_pow2 :: 'a::len word)"
  obtains n where "ceil_pow2 v = 2 ^ n" and "n < LENGTH('a)" and "unat (ceil_pow2 v) = 2 ^ n"
    and "unat v \<le> 2 ^ n" and "n = 0 \<or> 2 ^ (n - 1) < unat v"
proof -
  obtain n where n: "bitlen_bounds (v - 1) n" using bitlen_bounds_exists by blast
  from assms(1) have nz: "v \<noteq> 0" by simp
  then have u: "unat (v - 1) = unat v - 1" "0 < unat v"
    by (simp_all add: unat_minus_one_word unat_gt_0)
  have le: "unat v \<le> 2 ^ (LENGTH('a) - 1)"
    using assms(2) by (simp add: word_le_nat_alt unat_max_pow2)
  have nl: "n < LENGTH('a)"
  proof (rule ccontr)
    assume "\<not> n < LENGTH('a)"
    then have "n = LENGTH('a)" using n by (simp add: bitlen_bounds_def)
    then have "2 ^ (LENGTH('a) - 1) \<le> unat v - 1" using n u by (simp add: bitlen_bounds_def)
    with le u show False by linarith
  qed
  moreover have "ceil_pow2 v = 2 ^ n" using n by (rule ceil_pow2_bitlen)
  moreover have "unat v \<le> 2 ^ n" "n = 0 \<or> 2 ^ (n - 1) < unat v"
    using n u by (auto simp: bitlen_bounds_def)
  ultimately show ?thesis using that by (simp add: unat_2p_word)
qed

lemma mod_pow2_eq:
  assumes "is_pow2 b"
  shows "unat (mod_pow2 a b) = unat a mod unat (b :: 'a::len word)"
proof -
  obtain k where "k < LENGTH('a)" "b = 2 ^ k" using assms by (auto simp: is_pow2_iff)
  then show ?thesis
    by (simp add: mod_pow2_def unat_and_mask unat_2p_word flip: mask_eq_exp_minus_1)
qed

lemma is_aligned_iff: "is_pow2 b \<Longrightarrow> is_aligned a b \<longleftrightarrow> unat b dvd unat (a :: 'a::len word)"
  by (simp add: is_aligned_def mod_pow2_eq dvd_eq_mod_eq_0 flip: unat_eq_zero)

lemma ceil_div_eq:
  assumes "0 < unat b" and "unat a + unat b \<le> 2 ^ LENGTH('a)"
  shows "unat (ceil_div a b :: 'a::len word) = (unat a + unat b - 1) div unat b"
proof -
  have "a + b - 1 = a + (b - 1)" by simp
  moreover have "unat (b - 1) = unat b - 1"
    using assms(1) by (intro unat_minus_one_word) auto
  ultimately have "unat (a + b - 1) = (unat a + (unat b - 1)) mod 2 ^ LENGTH('a)"
    by (simp only: unat_word_ariths)
  also have "\<dots> = unat a + unat b - 1" using assms by simp
  finally have "unat (a + b - 1) = unat a + unat b - 1" .
  moreover have "unat (a + b - 1) div unat b < 2 ^ LENGTH('a)"
    by (rule le_less_trans [OF div_le_dividend unsigned_less])
  ultimately show ?thesis by (simp add: ceil_div_def unat_word_ariths)
qed

lemma sint_of_fits:
  assumes "fits_signed TYPE('a) r"
  shows "sint (word_of_int r :: 'a::len word) = r"
proof -
  obtain n where n: "LENGTH('a) = Suc n" by (metis len_gt_0 not0_implies_Suc less_not_refl)
  with assms have "signed_take_bit n r = r"
    by (simp add: fits_signed_def signed_take_bit_int_eq_self)
  then show ?thesis by (simp add: sint_sbintrunc' n)
qed

lemma fits_sint: "fits_signed TYPE('a) (sint (a :: 'a::len word))"
  using sint_greater_eq [of a] sint_less [of a] by (simp add: fits_signed_def)

lemma checked_signed_exact:
  fixes a b :: "'a::len word"
  shows "checked_add_signed a b = (True, r) \<Longrightarrow> sint r = sint a + sint b"
    and "checked_sub_signed a b = (True, r) \<Longrightarrow> sint r = sint a - sint b"
    and "checked_mul_signed a b = (True, r) \<Longrightarrow> sint r = sint a * sint b"
  using sint_of_fits [of "sint a + sint b", where ?'a = 'a]
    sint_of_fits [of "sint a - sint b", where ?'a = 'a]
    sint_of_fits [of "sint a * sint b", where ?'a = 'a]
  by (auto simp: checked_add_signed_def checked_sub_signed_def checked_mul_signed_def)

lemma sint_inject: "sint a = sint b \<longleftrightarrow> a = (b :: 'a::len word)"
  by (rule word_eq_iff_signed [symmetric])

lemma sint_eq_0: "sint a = 0 \<longleftrightarrow> a = (0 :: 'a::len word)"
  using sint_inject [of a 0] by simp

lemma sint_minus_1: "sint (- 1 :: 'a::len word) = - 1"
  by simp

lemma sint_signed_min: "sint (signed_min :: 'a::len word) = - (2 ^ (LENGTH('a) - 1))"
proof -
  obtain n where n: "LENGTH('a) = Suc n" by (metis len_gt_0 not0_implies_Suc less_not_refl)
  have "(2 :: 'a word) ^ Suc n = 0" unfolding n [symmetric] by simp
  then have "(2 :: 'a word) ^ n = - (2 ^ n)" by (simp add: eq_neg_iff_add_eq_0)
  then have "(signed_min :: 'a word) = word_of_int (- (2 ^ n))"
    by (simp add: signed_min_def n push_bit_of_1)
  then show ?thesis
    using sint_of_fits [of "- (2 ^ n)", where ?'a = 'a] by (simp add: fits_signed_def n)
qed

lemma sdiv_fits:
  fixes a b :: "'a::len word"
  assumes "b \<noteq> 0" and "\<not> (a = signed_min \<and> b = - 1)"
  shows "fits_signed TYPE('a) (sint a sdiv sint b)"
proof -
  let ?M = "2 ^ (LENGTH('a) - 1) :: int"
  let ?q = "\<bar>sint a\<bar> div \<bar>sint b\<bar>"
  let ?x = "sgn (sint a) * sgn (sint b) * ?q"
  have bnz: "\<bar>sint b\<bar> \<ge> 1" using assms(1) sint_eq_0 [of b] by linarith
  have a: "- ?M \<le> sint a" "sint a < ?M" using fits_sint [of a] by (auto simp: fits_signed_def)
  have q: "0 \<le> ?q" "?q \<le> \<bar>sint a\<bar>"
    using bnz by (auto simp: zdiv_mono2 [of "\<bar>sint a\<bar>" 1, simplified] pos_imp_zdiv_nonneg_iff)
  have cases: "?x = - ?q \<or> ?x = 0 \<or> ?x = ?q"
    by (simp add: sgn_if)
  have top: "?q = ?M \<Longrightarrow> ?x = - ?q"
  proof -
    assume e: "?q = ?M"
    with q a have am: "sint a = - ?M" by linarith
    have "\<bar>sint b\<bar> = 1"
    proof (rule ccontr)
      assume "\<bar>sint b\<bar> \<noteq> 1"
      with bnz have "2 \<le> \<bar>sint b\<bar>" by linarith
      then have "?q \<le> \<bar>sint a\<bar> div 2" by (intro zdiv_mono2) auto
      moreover have "\<bar>sint a\<bar> div 2 < ?M" using am
        by (simp add: int_div_less_self)
      ultimately show False using e by linarith
    qed
    moreover have "sint b \<noteq> - 1"
    proof
      assume "sint b = - 1"
      then have "b = - 1" by (metis sint_minus_1 sint_inject)
      moreover have "a = signed_min" using am by (metis sint_signed_min sint_inject)
      ultimately show False using assms(2) by blast
    qed
    ultimately have "sint b = 1" by linarith
    moreover have "sint a < 0" using am by simp
    ultimately show ?thesis by simp
  qed
  have "- ?M \<le> ?x \<and> ?x < ?M"
    using cases top q a by linarith
  then show ?thesis by (simp add: fits_signed_def signed_divide_int_def)
qed

lemma smod_fits: "b \<noteq> 0 \<Longrightarrow> fits_signed TYPE('a) (sint a smod sint (b :: 'a::len word))"
proof -
  assume "b \<noteq> 0"
  then have "sint b \<noteq> 0" by (simp add: sint_eq_0)
  then have "0 \<le> \<bar>sint a\<bar> mod \<bar>sint b\<bar>" "\<bar>sint a\<bar> mod \<bar>sint b\<bar> < \<bar>sint b\<bar>" by auto
  moreover have "\<bar>sint b\<bar> \<le> 2 ^ (LENGTH('a) - 1)"
    using fits_sint [of b] by (auto simp: fits_signed_def)
  ultimately show ?thesis
    by (auto simp: fits_signed_def signed_modulo_int_def sgn_if)
qed

subsection \<open>Properties\<close>

text \<open>
  For every nonzero value up to the largest power of two, \<open>ceil_pow2\<close> returns the
  least power of two that is not smaller, and the hardware variant \<open>ceil_pow2_fast\<close>
  computes the same value. The heap and the hash table size themselves by it.
\<close>

lemma ceil_pow2_least:
  assumes "0 < v" and "v \<le> (max_pow2 :: 'a::len word)"
  shows "ceil_pow2_fast v = ceil_pow2 v \<and> is_pow2 (ceil_pow2 v) \<and> v \<le> ceil_pow2 v
    \<and> (\<forall>p. is_pow2 p \<and> v \<le> p \<longrightarrow> ceil_pow2 v \<le> p)"
proof -
  obtain n where n: "ceil_pow2 v = 2 ^ n" "n < LENGTH('a)" "unat (ceil_pow2 v) = 2 ^ n"
      "unat v \<le> 2 ^ n" "n = 0 \<or> 2 ^ (n - 1) < unat v"
    using assms by (rule ceil_pow2_exponent)
  have "ceil_pow2 v \<le> p" if p: "is_pow2 p" and vp: "v \<le> p" for p
  proof -
    obtain k where k: "k < LENGTH('a)" "p = 2 ^ k" using p by (auto simp: is_pow2_iff)
    then have up: "unat p = 2 ^ k" by (simp add: unat_2p_word)
    with vp have "unat v \<le> 2 ^ k" by (simp add: word_le_nat_alt)
    have "n \<le> k"
    proof (cases "n = 0")
      case False
      with n(5) \<open>unat v \<le> 2 ^ k\<close> have "(2::nat) ^ (n - 1) < 2 ^ k" by linarith
      then show ?thesis by simp
    qed simp
    then show ?thesis by (simp add: word_le_nat_alt n(3) up)
  qed
  then show ?thesis
    using n by (auto simp: ceil_pow2_fast_eq is_pow2_iff word_le_nat_alt)
qed

lemma safe_int_signed:
  fixes a b :: "'a::len word"
  shows "add_throws a b = Inr r \<longleftrightarrow> sint r = sint a + sint b"
    and "sub_throws a b = Inr r \<longleftrightarrow> sint r = sint a - sint b"
    and "mul_throws a b = Inr r \<longleftrightarrow> sint r = sint a * sint b"
    and "div_throws a b = Inr r \<longleftrightarrow> b \<noteq> 0 \<and> sint r = sint a sdiv sint b"
    and "mod_throws a b = Inr r \<longleftrightarrow>
      b \<noteq> 0 \<and> \<not> (a = signed_min \<and> b = - 1) \<and> sint r = sint a smod sint b"
proof -
  have fits: "fits_signed TYPE('a) z \<and> r = word_of_int z \<longleftrightarrow> sint r = z" for z
    using fits_sint [of r] sint_of_fits [of z, where ?'a = 'a] by auto
  show "add_throws a b = Inr r \<longleftrightarrow> sint r = sint a + sint b"
    using fits [of "sint a + sint b"]
    by (auto simp: add_throws_def try_add_def checked_add_signed_def)
  show "sub_throws a b = Inr r \<longleftrightarrow> sint r = sint a - sint b"
    using fits [of "sint a - sint b"]
    by (auto simp: sub_throws_def try_sub_def checked_sub_signed_def)
  show "mul_throws a b = Inr r \<longleftrightarrow> sint r = sint a * sint b"
    using fits [of "sint a * sint b"]
    by (auto simp: mul_throws_def try_mul_def checked_mul_signed_def)
  show "div_throws a b = Inr r \<longleftrightarrow> b \<noteq> 0 \<and> sint r = sint a sdiv sint b"
  proof (cases "b = 0 \<or> a = signed_min \<and> b = - 1")
    case True
    have "sint r \<noteq> 2 ^ (LENGTH('a) - 1)" using fits_sint [of r] by (auto simp: fits_signed_def)
    with True show ?thesis
      by (auto simp: div_throws_def try_div_def checked_div_signed_def sint_signed_min signed_divide_int_def)
  next
    case False
    then have "fits_signed TYPE('a) (sint a sdiv sint b)" by (intro sdiv_fits) auto
    then have "word_of_int (sint a sdiv sint b) = r \<longleftrightarrow> sint r = sint a sdiv sint b"
      using fits [of "sint a sdiv sint b"] by auto
    with False show ?thesis
      by (auto simp: div_throws_def try_div_def checked_div_signed_def)
  qed
  have "word_of_int (sint a smod sint b) = r \<longleftrightarrow> sint r = sint a smod sint b" if "b \<noteq> 0"
    using fits [of "sint a smod sint b"] smod_fits [OF that, of a] by auto
  then show "mod_throws a b = Inr r \<longleftrightarrow>
      b \<noteq> 0 \<and> \<not> (a = signed_min \<and> b = - 1) \<and> sint r = sint a smod sint b"
    by (auto simp: mod_throws_def try_mod_def checked_mod_signed_def)
qed

lemma safe_int_unsigned:
  fixes a b :: "'a::len word"
  shows "add_throws_unsigned a b = Inr r \<longleftrightarrow> uint r = uint a + uint b"
    and "sub_throws_unsigned a b = Inr r \<longleftrightarrow> uint r = uint a - uint b"
    and "mul_throws_unsigned a b = Inr r \<longleftrightarrow> uint r = uint a * uint b"
    and "div_throws_unsigned a b = Inr r \<longleftrightarrow> b \<noteq> 0 \<and> uint r = uint a div uint b"
    and "mod_throws_unsigned a b = Inr r \<longleftrightarrow> b \<noteq> 0 \<and> uint r = uint a mod uint b"
proof -
  have eqs: "a + b = r \<longleftrightarrow> word_of_int (uint a + uint b) = r" "a - b = r \<longleftrightarrow> word_of_int (uint a - uint b) = r"
      "a * b = r \<longleftrightarrow> word_of_int (uint a * uint b) = r"
    by simp_all
  have fits: "(0 \<le> z \<and> z < 2 ^ LENGTH('a)) \<and> word_of_int z = r \<longleftrightarrow> uint r = z" for z
    using uint_bounded [of r] by (metis uint_ge_0 word_of_int_uint word_of_int_inverse)
  have less: "uint a - uint b < 2 ^ LENGTH('a)" "0 \<le> uint a + uint b" "0 \<le> uint a * uint b"
    using uint_bounded [of a] uint_ge_0 [of b] by simp_all
  have nats: "unat a + unat b < 2 ^ LENGTH('a) \<longleftrightarrow> uint a + uint b < 2 ^ LENGTH('a)"
      "unat b \<le> unat a \<longleftrightarrow> 0 \<le> uint a - uint b"
      "unat a * unat b < 2 ^ LENGTH('a) \<longleftrightarrow> uint a * uint b < 2 ^ LENGTH('a)"
    by (simp_all only: uint_nat of_nat_add [symmetric] of_nat_mult [symmetric] of_nat_less_numeral_power_cancel_iff
        diff_ge_0_iff_ge of_nat_le_iff)
  show "add_throws_unsigned a b = Inr r \<longleftrightarrow> uint r = uint a + uint b"
    unfolding fits [symmetric] eqs [symmetric] using less
    by (simp add: add_throws_unsigned_def checked_add_unsigned_def nats)
  show "sub_throws_unsigned a b = Inr r \<longleftrightarrow> uint r = uint a - uint b"
    unfolding fits [symmetric] eqs [symmetric] using less
    by (simp add: sub_throws_unsigned_def checked_sub_unsigned_def nats)
  show "mul_throws_unsigned a b = Inr r \<longleftrightarrow> uint r = uint a * uint b"
    unfolding fits [symmetric] eqs [symmetric] using less
    by (simp add: mul_throws_unsigned_def checked_mul_unsigned_def nats)
  show "div_throws_unsigned a b = Inr r \<longleftrightarrow> b \<noteq> 0 \<and> uint r = uint a div uint b"
    by (auto simp: div_throws_unsigned_def checked_div_unsigned_def word_uint_eq_iff uint_div)
  show "mod_throws_unsigned a b = Inr r \<longleftrightarrow> b \<noteq> 0 \<and> uint r = uint a mod uint b"
    by (auto simp: mod_throws_unsigned_def checked_mod_unsigned_def word_uint_eq_iff uint_mod)
qed

text \<open>
  C9: The operators of the checked integer class are exact, over signed and over unsigned types.
  Addition, subtraction, multiplication and division return the mathematical result (truncated
  towards zero) when it exists and is representable, and throw otherwise. The remainder throws
  for the divisor 0 and, over a signed type, also for the smallest value and the divisor -1,
  although the result 0 is representable; otherwise it returns the remainder with the sign of
  the dividend.
\<close>

theorem safe_int_exact:
  fixes a b :: "'a::len word"
  shows "(add_throws a b = Inr r \<longleftrightarrow> sint r = sint a + sint b)
    \<and> (sub_throws a b = Inr r \<longleftrightarrow> sint r = sint a - sint b)
    \<and> (mul_throws a b = Inr r \<longleftrightarrow> sint r = sint a * sint b)
    \<and> (div_throws a b = Inr r \<longleftrightarrow> b \<noteq> 0 \<and> sint r = sint a sdiv sint b)
    \<and> (mod_throws a b = Inr r \<longleftrightarrow>
         b \<noteq> 0 \<and> \<not> (a = signed_min \<and> b = - 1) \<and> sint r = sint a smod sint b)
    \<and> (add_throws_unsigned a b = Inr r \<longleftrightarrow> uint r = uint a + uint b)
    \<and> (sub_throws_unsigned a b = Inr r \<longleftrightarrow> uint r = uint a - uint b)
    \<and> (mul_throws_unsigned a b = Inr r \<longleftrightarrow> uint r = uint a * uint b)
    \<and> (div_throws_unsigned a b = Inr r \<longleftrightarrow> b \<noteq> 0 \<and> uint r = uint a div uint b)
    \<and> (mod_throws_unsigned a b = Inr r \<longleftrightarrow> b \<noteq> 0 \<and> uint r = uint a mod uint b)"
  by (intro conjI) (rule safe_int_signed safe_int_unsigned)+

end
