(* ===== verification/Values.thy ===== *)
theory Values
  imports Numerics
begin

text \<open>
  The values of the virtual machine as far as hashing and equality see them:
  src/vm/hash.cpp, the functions \<open>hash\<close> and \<open>equal\<close> of src/vm/objects/value.cpp, the
  string hash of src/vm/objects/string.cpp and the embedded integers of
  src/vm/objects/primitives.cpp.

  A double is its 64-bit IEEE 754 pattern. A heap value carries its address (64-bit, a
  multiple of the cell size) and the immutable content that hashing and equality read;
  objects compared by reference carry their address and their type tag only. An interned
  string lives where the intern table put the one string of that content, so its address is
  left out (\<open>None\<close>) and its content identifies it. Within one
  heap an address determines the object stored there, so two model values are equal
  exactly when the raw words are (\<open>Value::same\<close>).
\<close>

subsection \<open>Doubles\<close>

definition f64_exponent :: "f64 \<Rightarrow> nat" where
  "f64_exponent f = unat (drop_bit 52 f AND 0x7FF)"

definition f64_fraction :: "f64 \<Rightarrow> nat" where
  "f64_fraction f = unat (f AND mask 52)"

definition f64_negative :: "f64 \<Rightarrow> bool" where
  "f64_negative f \<longleftrightarrow> bit f 63"

definition f64_isfinite :: "f64 \<Rightarrow> bool" where
  "f64_isfinite f \<longleftrightarrow> f64_exponent f \<noteq> 2047"

definition f64_isnan :: "f64 \<Rightarrow> bool" where
  "f64_isnan f \<longleftrightarrow> f64_exponent f = 2047 \<and> f64_fraction f \<noteq> 0"

definition f64_iszero :: "f64 \<Rightarrow> bool" where
  "f64_iszero f \<longleftrightarrow> f AND mask 63 = 0"

text \<open>The C++ operator \<open>==\<close> on doubles.\<close>

definition f64_eq :: "f64 \<Rightarrow> f64 \<Rightarrow> bool" where
  "f64_eq a b \<longleftrightarrow>
     \<not> f64_isnan a \<and> \<not> f64_isnan b \<and> (a = b \<or> (f64_iszero a \<and> f64_iszero b))"

text \<open>The magnitude of a finite double is \<open>significand * 2 ^ (exponent - 1075)\<close>.\<close>

definition f64_significand :: "f64 \<Rightarrow> nat" where
  "f64_significand f = (if f64_exponent f = 0 then f64_fraction f else 2 ^ 52 + f64_fraction f)"

definition f64_trunc :: "f64 \<Rightarrow> int" where
  "f64_trunc f =
     (let e = max 1 (f64_exponent f);
          m = (if 1075 \<le> e then f64_significand f * 2 ^ (e - 1075)
               else f64_significand f div 2 ^ (1075 - e))
      in if f64_negative f then - int m else int m)"

text \<open>
  The conversion of a double to a signed 64-bit integer truncates. The language leaves a
  result out of range undefined; the model takes the x86-64 instruction's answer, the
  smallest integer.
\<close>

definition f64_to_i64 :: "f64 \<Rightarrow> i64" where
  "f64_to_i64 f =
     (if - (2 ^ 63) \<le> f64_trunc f \<and> f64_trunc f < 2 ^ 63 then word_of_int (f64_trunc f)
      else signed_min)"

fun nat_log2 :: "nat \<Rightarrow> nat" where
  "nat_log2 n = (if n < 2 then 0 else Suc (nat_log2 (n div 2)))"

declare nat_log2.simps [simp del]

text \<open>The conversion of a signed integer to a double rounds to nearest, ties to even.\<close>

definition i64_to_f64 :: "i64 \<Rightarrow> f64" where
  "i64_to_f64 v =
     (let m = nat \<bar>sint v\<bar>; k = nat_log2 m in
      if m = 0 then 0
      else
        let s = k - 52;
            q = (if k \<le> 52 then m * 2 ^ (52 - k) else m div 2 ^ s);
            r = m mod 2 ^ s;
            half = 2 ^ (s - 1);
            up = (52 < k \<and> (half < r \<or> (r = half \<and> odd q)));
            bits = (k + 1023) * 2 ^ 52 + (if up then q + 1 else q) - 2 ^ 52
        in (if sint v < 0 then of_nat (bits + 2 ^ 63) else of_nat bits))"

subsection \<open>Hash functions (src/vm/hash.cpp)\<close>

definition fnv1a_64 :: "bytes \<Rightarrow> u64" where
  "fnv1a_64 data = fold (\<lambda>b h. (h XOR ucast b) * 0x00000100000001b3) data 0xcbf29ce484222325"

definition byte_hash :: "bytes \<Rightarrow> size_t" where
  "byte_hash data = fnv1a_64 data"

text \<open>The bytes of an integer in memory order on a little-endian host.\<close>

definition raw_span_u64 :: "u64 \<Rightarrow> bytes" where
  "raw_span_u64 v = map (\<lambda>i. ucast (drop_bit (8 * i) v)) [0..<8]"

definition integer_hash :: "u64 \<Rightarrow> size_t" where
  "integer_hash data = fnv1a_64 (raw_span_u64 data)"

definition canonic_nan :: "f64" where
  "canonic_nan = 0x7FF8000000000000"

definition float_hash :: "f64 \<Rightarrow> size_t" where
  "float_hash data =
     (if f64_eq data 0 then fnv1a_64 (raw_span_u64 0)
      else if f64_isnan data then fnv1a_64 (raw_span_u64 canonic_nan)
      else fnv1a_64 (raw_span_u64 data))"

text \<open>The top bit of a string's hash field marks interned strings.\<close>

definition string_interned_flag :: "size_t" where
  "string_interned_flag = max_pow2"

definition string_hash_mask :: "size_t" where
  "string_hash_mask = NOT string_interned_flag"

definition str_hash :: "bytes \<Rightarrow> size_t" where
  "str_hash str =
     (let hash = byte_hash str;
          hash = (if hash = 0 then 1 else hash)
      in hash AND string_hash_mask)"

subsection \<open>Embedded integers (src/vm/objects/primitives.cpp)\<close>

definition embedded_integer_bits :: nat where
  "embedded_integer_bits = 63"

definition small_integer_max :: "i64" where
  "small_integer_max = push_bit (embedded_integer_bits - 1) 1 - 1"

definition small_integer_min :: "i64" where
  "small_integer_min = - push_bit (embedded_integer_bits - 1) 1"

definition small_integer_fits :: "i64 \<Rightarrow> bool" where
  "small_integer_fits v \<longleftrightarrow> sint small_integer_min \<le> sint v \<and> sint v \<le> sint small_integer_max"

definition small_integer_make :: "i64 \<Rightarrow> u64" where
  "small_integer_make v =
     (let raw = (if 0 \<le> sint v then v else small_integer_max - v)
      in push_bit 1 raw OR 1)"

definition small_integer_value :: "u64 \<Rightarrow> i64" where
  "small_integer_value w =
     (let raw = drop_bit 1 w
      in if raw \<le> small_integer_max then raw else - (raw - small_integer_max))"

subsection \<open>Values, hashing and equality (src/vm/objects/value.cpp)\<close>

type_synonym addr = u64

datatype val =
    Null
  | Undefined addr
  | Boolean addr bool
  | SmallInteger i64
  | HeapInteger addr i64
  | Float addr f64
  | String "addr option" bytes
  | StringSlice addr bytes
  | Symbol addr
  | Object addr nat

fun hash_val :: "val \<Rightarrow> size_t" where
  "hash_val Null = 0"
| "hash_val (Undefined _) = 0"
| "hash_val (Boolean _ b) = (if b then 1 else 0)"
| "hash_val (HeapInteger _ i) = integer_hash i"
| "hash_val (Float _ f) = float_hash f"
| "hash_val (SmallInteger i) = integer_hash i"
| "hash_val (String _ s) = str_hash s"
| "hash_val (StringSlice _ s) = str_hash s"
| "hash_val (Symbol a) = a"
| "hash_val (Object a _) = a"

definition same :: "val \<Rightarrow> val \<Rightarrow> bool" where
  "same a b \<longleftrightarrow> a = b"

definition int_float_equal :: "i64 \<Rightarrow> f64 \<Rightarrow> bool" where
  "int_float_equal lhs rhs =
     (if \<not> f64_isfinite rhs then False
      else let rhs_int = f64_to_i64 rhs; rhs_roundtrip = i64_to_f64 rhs_int
           in f64_eq rhs_roundtrip rhs \<and> lhs = rhs_int)"

fun equal_val :: "val \<Rightarrow> val \<Rightarrow> bool" where
  "equal_val Null b = (b = Null)"
| "equal_val (Undefined _) b = (case b of Undefined _ \<Rightarrow> True | _ \<Rightarrow> False)"
| "equal_val (Boolean _ x) b = (case b of Boolean _ y \<Rightarrow> x = y | _ \<Rightarrow> False)"
| "equal_val (SmallInteger i) b =
     (case b of SmallInteger j \<Rightarrow> i = j | HeapInteger _ j \<Rightarrow> i = j
      | Float _ f \<Rightarrow> int_float_equal i f | _ \<Rightarrow> False)"
| "equal_val (HeapInteger _ i) b =
     (case b of SmallInteger j \<Rightarrow> i = j | HeapInteger _ j \<Rightarrow> i = j
      | Float _ f \<Rightarrow> int_float_equal i f | _ \<Rightarrow> False)"
| "equal_val (Float _ f) b =
     (case b of SmallInteger j \<Rightarrow> int_float_equal j f | HeapInteger _ j \<Rightarrow> int_float_equal j f
      | Float _ g \<Rightarrow> f64_eq f g | _ \<Rightarrow> False)"
| "equal_val (String a s) b =
     (case b of
        String a' t \<Rightarrow> if a = None \<and> a' = None then same (String a s) b else s = t
      | StringSlice _ t \<Rightarrow> s = t
      | _ \<Rightarrow> False)"
| "equal_val (StringSlice _ s) b =
     (case b of String _ t \<Rightarrow> s = t | StringSlice _ t \<Rightarrow> s = t | _ \<Rightarrow> False)"
| "equal_val (Symbol a) b = (case b of Symbol _ \<Rightarrow> same (Symbol a) b | _ \<Rightarrow> False)"
| "equal_val (Object a t) b = same (Object a t) b"

text \<open>Key comparison of the hash table (src/vm/objects/hash_table.hpp).\<close>

definition key_equal :: "val \<Rightarrow> val \<Rightarrow> bool" where
  "key_equal a b \<longleftrightarrow> same a b \<or> equal_val a b"

subsection \<open>The interface that the hash table needs from its keys\<close>

locale key_space =
  fixes khash :: "'k \<Rightarrow> size_t" and keq :: "'k \<Rightarrow> 'k \<Rightarrow> bool"
  assumes keq_refl: "keq a a"
    and keq_sym: "keq a b \<Longrightarrow> keq b a"
    and keq_trans: "keq a b \<Longrightarrow> keq b c \<Longrightarrow> keq a c"
begin

text \<open>The table only compares keys with equal hashes, which keeps the comparison an equivalence.\<close>

definition found_eq :: "'k \<Rightarrow> 'k \<Rightarrow> bool" where
  "found_eq a b \<longleftrightarrow> khash a = khash b \<and> keq a b"

lemma found_eq_equivp: "equivp found_eq"
  unfolding found_eq_def
  by (rule equivpI) (auto intro: reflpI sympI transpI keq_refl keq_sym keq_trans)

end

lemma f64_zero_bits: "f64_iszero f \<Longrightarrow> f64_exponent f = 0 \<and> f64_fraction f = 0"
proof -
  assume z: "f64_iszero f"
  then have b: "\<not> bit f k" if "k < 63" for k
    using that spec [of "\<lambda>n. n < 64 \<longrightarrow> bit f n \<longrightarrow> \<not> n < 63" k]
    by (simp add: f64_iszero_def bit_eq_iff bit_and_iff bit_mask_iff)
  have "drop_bit 52 f AND 0x7FF = 0"
  proof (rule bit_word_eqI)
    fix n assume "n < LENGTH(64)"
    have m: "(0x7FF :: 64 word) = mask 11" by (simp add: mask_eq_exp_minus_1)
    have "\<not> bit f (52 + n)" if "n < 11" using b [of "52 + n"] that by simp
    then show "bit (drop_bit 52 f AND 0x7FF) n = bit (0 :: 64 word) n"
      unfolding m by (auto simp only: bit_and_iff bit_drop_bit_eq comp_def bit_mask_iff bit_0_eq)
  qed
  moreover have "f AND mask 52 = 0"
    by (rule bit_word_eqI) (use b in \<open>auto simp: bit_and_iff bit_mask_iff\<close>)
  ultimately show ?thesis by (simp add: f64_exponent_def f64_fraction_def)
qed

lemma f64_zero_trunc: "f64_iszero f \<Longrightarrow> f64_trunc f = 0"
  by (simp add: f64_trunc_def f64_significand_def f64_zero_bits Let_def)

lemma f64_eq_sym: "f64_eq a b \<Longrightarrow> f64_eq b a"
  by (auto simp: f64_eq_def)

lemma f64_eq_trans: "f64_eq a b \<Longrightarrow> f64_eq b c \<Longrightarrow> f64_eq a c"
  by (auto simp: f64_eq_def)

lemma f64_eq_to_i64: "f64_eq a b \<Longrightarrow> f64_to_i64 a = f64_to_i64 b"
  by (auto simp: f64_eq_def f64_to_i64_def f64_zero_trunc)

lemma f64_eq_finite: "f64_eq a b \<Longrightarrow> f64_isfinite a = f64_isfinite b"
  by (auto simp: f64_eq_def f64_isfinite_def f64_zero_bits)

lemma int_float_equal_unique: "int_float_equal i f \<Longrightarrow> int_float_equal j f \<Longrightarrow> i = j"
  by (auto simp: int_float_equal_def Let_def split: if_splits)

lemma int_float_equal_cong:
  assumes "int_float_equal i f" and "f64_eq f g"
  shows "int_float_equal i g"
  using assms f64_eq_trans [of "i64_to_f64 (f64_to_i64 f)" f g]
  by (auto simp: int_float_equal_def Let_def f64_eq_to_i64 f64_eq_finite split: if_splits)

lemma int_float_equal_floats:
  "int_float_equal i f \<Longrightarrow> int_float_equal i g \<Longrightarrow> f64_eq f g"
  by (auto simp: int_float_equal_def Let_def split: if_splits) (metis f64_eq_sym f64_eq_trans)

lemma equal_val_sym: "equal_val a b \<Longrightarrow> equal_val b a"
  by (cases a; cases b) (auto simp: same_def f64_eq_sym split: if_splits)

lemma equal_val_trans: "equal_val a b \<Longrightarrow> equal_val b c \<Longrightarrow> equal_val a c"
  by (cases a; cases b; cases c)
     (auto simp: same_def split: if_splits
       dest: int_float_equal_unique int_float_equal_cong int_float_equal_floats f64_eq_trans f64_eq_sym)

interpretation val_keys: key_space hash_val key_equal
proof unfold_locales
  show "key_equal a a" for a by (simp add: key_equal_def same_def)
  show "key_equal a b \<Longrightarrow> key_equal b a" for a b
    by (auto simp: key_equal_def same_def intro: equal_val_sym)
  show "key_equal a b \<Longrightarrow> key_equal b c \<Longrightarrow> key_equal a c" for a b c
    by (auto simp: key_equal_def same_def intro: equal_val_trans)
qed

lemma f64_eq_float_hash: "f64_eq a b \<Longrightarrow> float_hash a = float_hash b"
proof -
  assume e: "f64_eq a b"
  then have "f64_eq a 0 = f64_eq b 0" using f64_eq_sym f64_eq_trans by blast
  moreover from e have "a = b \<or> f64_eq a 0"
    by (auto simp: f64_eq_def f64_iszero_def f64_isnan_def f64_exponent_def)
  ultimately show ?thesis using e by (auto simp: float_hash_def f64_eq_def)
qed

fun is_float :: "val \<Rightarrow> bool" where
  "is_float (Float _ _) = True"
| "is_float _ = False"

fun is_integer :: "val \<Rightarrow> bool" where
  "is_integer (SmallInteger _) = True"
| "is_integer (HeapInteger _ _) = True"
| "is_integer _ = False"

lemma drop_push_tag: "drop_bit 1 (push_bit 1 x OR 1) = (x AND mask 63 :: u64)"
proof (rule bit_word_eqI)
  fix n assume "n < LENGTH(64)"
  have "bit (drop_bit 1 (push_bit 1 x OR 1)) n = bit (push_bit 1 x OR 1) (1 + n)"
    by (simp only: bit_drop_bit_eq comp_def)
  also have "\<dots> = (1 + n < 64 \<and> bit x n)"
    by (simp only: bit_or_iff bit_push_bit_iff bit_1_iff) auto
  also have "\<dots> = bit (x AND mask 63) n"
    by (auto simp: bit_and_iff bit_mask_iff)
  finally show "bit (drop_bit 1 (push_bit 1 x OR 1)) n = bit (x AND mask 63) n" .
qed

lemma small_integer_max_val: "small_integer_max = (2 ^ 62 - 1 :: u64)" "unat small_integer_max = 2 ^ 62 - 1"
  "sint small_integer_max = 2 ^ 62 - 1"
  by (simp_all add: small_integer_max_def embedded_integer_bits_def)

lemma small_integer_min_val: "sint small_integer_min = - (2 ^ 62)"
  by (simp add: small_integer_min_def embedded_integer_bits_def)

lemma word_mask_id: "unat (x :: u64) < 2 ^ 63 \<Longrightarrow> x AND mask 63 = x"
  by (simp add: word_unat_eq_iff unat_and_mask)

lemma raw_roundtrip:
  "unat x < 2 ^ 63 \<Longrightarrow> drop_bit 1 (push_bit 1 x OR 1) = (x :: u64)"
  by (simp only: drop_push_tag word_mask_id)

subsection \<open>Properties\<close>

text \<open>
  Every integer that fits is stored in the tagged word representation and read back
  unchanged; the tag bit distinguishes the word from any aligned heap address.
\<close>

lemma small_integer_roundtrip:
  assumes "small_integer_fits v"
  shows "small_integer_value (small_integer_make v) = v \<and> bit (small_integer_make v) 0"
proof
  have tag: "bit (push_bit 1 x OR 1) 0" for x :: u64
    by (simp only: bit_or_iff bit_push_bit_iff bit_1_iff) auto
  then show "bit (small_integer_make v) 0"
    by (simp only: small_integer_make_def Let_def)
  have r: "- (2 ^ 62) \<le> sint v" "sint v \<le> 2 ^ 62 - 1"
    using assms by (auto simp: small_integer_fits_def small_integer_max_val small_integer_min_val)
  show "small_integer_value (small_integer_make v) = v"
  proof (cases "0 \<le> sint v")
    case True
    with r have "uint v = sint v"
      by (simp add: uint_sint take_bit_int_eq_self)
    with r have u: "unat v \<le> 2 ^ 62 - 1" by (simp add: unat_eq_nat_uint nat_le_iff)
    then have "drop_bit 1 (push_bit 1 v OR 1) = v" by (intro raw_roundtrip) simp
    moreover from u have "v \<le> small_integer_max"
      by (simp add: word_le_nat_alt small_integer_max_val)
    ultimately show ?thesis
      using True by (simp only: small_integer_make_def small_integer_value_def Let_def if_True)
  next
    case False
    let ?raw = "small_integer_max - v"
    have uv: "uint v = sint v mod 2 ^ 64" by (simp add: uint_sint take_bit_eq_mod)
    have um: "uint small_integer_max = 2 ^ 62 - 1" by (simp add: small_integer_max_val(1))
    have "uint ?raw = (uint small_integer_max - uint v) mod 2 ^ 64"
      by (simp add: uint_word_ariths)
    also have "\<dots> = (2 ^ 62 - 1 - sint v) mod 2 ^ 64"
      unfolding uv um by (rule mod_diff_right_eq)
    also have "\<dots> = 2 ^ 62 - 1 - sint v"
      using r False by (intro mod_pos_pos_trivial) auto
    finally have "unat ?raw = nat (2 ^ 62 - 1 - sint v)" by (simp add: unat_eq_nat_uint)
    with r False have u: "unat ?raw < 2 ^ 63" "2 ^ 62 \<le> unat ?raw" by auto
    then have "drop_bit 1 (push_bit 1 ?raw OR 1) = ?raw" by (intro raw_roundtrip)
    moreover from u have "\<not> ?raw \<le> small_integer_max"
      by (simp add: word_le_nat_alt small_integer_max_val)
    moreover have "- (?raw - small_integer_max) = v" by simp
    ultimately show ?thesis
      using False by (simp only: small_integer_make_def small_integer_value_def Let_def if_False)
  qed
qed

text \<open>
  C8: equal values hash alike, unless an integer is compared with a double: equality is
  numeric there while the hashes read the two representations.
\<close>

theorem equal_values_hash:
  assumes "equal_val a b" and "\<not> (is_integer a \<and> is_float b) \<and> \<not> (is_float a \<and> is_integer b)"
  shows "hash_val a = hash_val b"
  using assms
  by (cases a; cases b) (auto simp: same_def dest: f64_eq_float_hash split: if_splits)

theorem equal_values_hash_witness:
  "equal_val (String (Some 16) [104, 105]) (StringSlice 32 [104, 105])
    \<and> hash_val (String (Some 16) [104, 105]) = hash_val (StringSlice 32 [104, 105])"
proof -
  have e: "equal_val (String (Some 16) [104, 105]) (StringSlice 32 [104, 105])" by simp
  have n: "\<not> (is_integer (String (Some 16) [104, 105]) \<and> is_float (StringSlice 32 [104, 105]))
      \<and> \<not> (is_float (String (Some 16) [104, 105]) \<and> is_integer (StringSlice 32 [104, 105]))" by simp
  show ?thesis using e equal_values_hash [OF e n] by blast
qed

text \<open>
  The exception is real: the integer 1 and the double 1.0 are equal and hash differently,
  so a table that holds one does not find the other.
\<close>

lemma int_float_hash_differs:
  "equal_val (SmallInteger 1) (Float 16 0x3FF0000000000000)
    \<and> hash_val (SmallInteger 1) \<noteq> hash_val (Float 16 0x3FF0000000000000)"
proof
  have "f64_exponent 0x3FF0000000000000 = 1023" "f64_fraction 0x3FF0000000000000 = 0"
    "\<not> f64_negative 0x3FF0000000000000"
    by (simp_all add: f64_exponent_def f64_fraction_def f64_negative_def mask_eq_exp_minus_1)
  then have "f64_to_i64 0x3FF0000000000000 = 1" "f64_isfinite 0x3FF0000000000000"
    by (simp_all add: f64_to_i64_def f64_trunc_def f64_significand_def f64_isfinite_def)
  moreover have "i64_to_f64 1 = 0x3FF0000000000000"
    by (simp add: i64_to_f64_def nat_log2.simps)
  moreover have "f64_eq 0x3FF0000000000000 0x3FF0000000000000"
    by (simp add: f64_eq_def f64_isnan_def f64_exponent_def)
  ultimately show "equal_val (SmallInteger 1) (Float 16 0x3FF0000000000000)"
    by (simp add: int_float_equal_def)
  show "hash_val (SmallInteger 1) \<noteq> hash_val (Float 16 0x3FF0000000000000)"
    by code_simp
qed

end
