(* ===== verification/HashTable.thy ===== *)
theory HashTable
  imports Prelude Numerics Values
begin

text \<open>
  The hash table of the virtual machine (src/vm/objects/hash_table.cpp and hash_table.hpp)
  with its entry storage (src/vm/objects/array_storage_base.hpp). Entries are kept in
  insertion order; the index is a Robin Hood hash array of entry numbers, stored in cells
  of 8, 16, 32 or 64 bits by capacity.

  A read or write outside of an array, a view of the index at the wrong cell width, the
  value of a null slot and a loop that does not end are the value \<open>None\<close>; the debug
  assertions of the source are not part of the model. Errors that the source reports are
  \<open>Inl\<close> values. An allocation fails only when its size computation overflows.
\<close>

unbundle bit_operations_syntax

datatype table_error = TableTooLarge | ArraySizeTooLarge

type_synonym 'a fallible = "(table_error + 'a) option"

definition bind_fallible :: "'a fallible \<Rightarrow> ('a \<Rightarrow> 'b fallible) \<Rightarrow> 'b fallible" where
  "bind_fallible x f = (case x of None \<Rightarrow> None | Some (Inl err) \<Rightarrow> Some (Inl err) | Some (Inr a) \<Rightarrow> f a)"

subsection \<open>Entries\<close>

record hash_entry =
  entry_hash :: size_t
  entry_key :: val
  entry_value :: val

definition deleted_value :: size_t where
  "deleted_value = - 1"

definition make_hash_raw :: "size_t \<Rightarrow> size_t" where
  "make_hash_raw raw_hash = (if raw_hash = deleted_value then 0 else raw_hash)"

definition make_hash :: "val \<Rightarrow> size_t" where
  "make_hash v = make_hash_raw (hash_val v)"

definition make_deleted :: hash_entry where
  "make_deleted = \<lparr>entry_hash = deleted_value, entry_key = Null, entry_value = Null\<rparr>"

definition is_deleted :: "hash_entry \<Rightarrow> bool" where
  "is_deleted entry \<longleftrightarrow> entry_hash entry = deleted_value"

subsection \<open>Entry storage\<close>

record storage =
  slots :: "hash_entry list"
  slot_capacity :: size_t

text \<open>The overflow-checked size of an array object (src/vm/object_support/layout.hpp).\<close>

definition safe_array_size :: "size_t \<Rightarrow> size_t \<Rightarrow> size_t \<Rightarrow> table_error + size_t" where
  "safe_array_size instance_size element_size element_count =
     (if 2 ^ 64 \<le> unat element_size * unat element_count then Inl ArraySizeTooLarge
      else let total = element_size * element_count
           in if fst (checked_add_unsigned total instance_size)
              then Inr (snd (checked_add_unsigned total instance_size))
              else Inl ArraySizeTooLarge)"

definition storage_make :: "size_t \<Rightarrow> storage fallible" where
  "storage_make cap =
     (case safe_array_size 24 24 cap of
        Inl err \<Rightarrow> Some (Inl err)
      | Inr _ \<Rightarrow> Some (Inr \<lparr>slots = [], slot_capacity = cap\<rparr>))"

definition storage_size :: "storage \<Rightarrow> size_t" where
  "storage_size s = word_of_nat (length (slots s))"

definition storage_full :: "storage \<Rightarrow> bool" where
  "storage_full s \<longleftrightarrow> storage_size s = slot_capacity s"

definition storage_get :: "storage \<Rightarrow> nat \<Rightarrow> hash_entry option" where
  "storage_get s i = (if i < length (slots s) then Some (slots s ! i) else None)"

definition storage_set :: "storage \<Rightarrow> nat \<Rightarrow> hash_entry \<Rightarrow> storage option" where
  "storage_set s i entry =
     (if i < length (slots s) then Some (s\<lparr>slots := (slots s)[i := entry]\<rparr>) else None)"

definition storage_append :: "storage \<Rightarrow> hash_entry \<Rightarrow> storage option" where
  "storage_append s entry =
     (if length (slots s) < unat (slot_capacity s)
      then Some (s\<lparr>slots := slots s @ [entry]\<rparr>) else None)"

definition storage_append_all :: "storage \<Rightarrow> hash_entry list \<Rightarrow> storage option" where
  "storage_append_all s xs =
     (if length (slots s) + length xs \<le> unat (slot_capacity s)
      then Some (s\<lparr>slots := slots s @ xs\<rparr>) else None)"

definition storage_clear :: "storage \<Rightarrow> storage" where
  "storage_clear s = s\<lparr>slots := []\<rparr>"

definition storage_remove_last :: "storage \<Rightarrow> nat \<Rightarrow> storage option" where
  "storage_remove_last s n =
     (if n \<le> length (slots s)
      then Some (s\<lparr>slots := take (length (slots s) - n) (slots s)\<rparr>) else None)"

subsection \<open>The index buffer\<close>

datatype size_class = U8 | U16 | U32 | U64

fun index_bits :: "size_class \<Rightarrow> nat" where
  "index_bits U8 = 8"
| "index_bits U16 = 16"
| "index_bits U32 = 32"
| "index_bits U64 = 64"

definition empty_value :: "size_class \<Rightarrow> nat" where
  "empty_value c = 2 ^ index_bits c - 1"

definition cast_index :: "size_class \<Rightarrow> nat \<Rightarrow> nat" where
  "cast_index c i = i mod 2 ^ index_bits c"

record index_buffer =
  cell_class :: size_class
  cells :: "nat list"

text \<open>
  A buffer of \<open>n\<close> cells filled with the empty marker. The source does not check the
  multiplication of the cell size; when it wraps, the fill writes past the buffer.
\<close>

definition index_buffer_make :: "size_class \<Rightarrow> size_t \<Rightarrow> nat \<Rightarrow> index_buffer fallible" where
  "index_buffer_make c n init =
     (let cell_size = index_bits c div 8;
          size_in_bytes = n * word_of_nat cell_size
      in case safe_array_size 16 1 size_in_bytes of
           Inl err \<Rightarrow> Some (Inl err)
         | Inr _ \<Rightarrow>
             if unat n * cell_size < 2 ^ 64
             then Some (Inr \<lparr>cell_class = c, cells = replicate (unat n) init\<rparr>) else None)"

definition index_values :: "size_class \<Rightarrow> index_buffer \<Rightarrow> nat list option" where
  "index_values c buffer = (if cell_class buffer = c then Some (cells buffer) else None)"

definition size_class_for :: "size_t \<Rightarrow> size_class" where
  "size_class_for entry_count =
     (if unat entry_count \<le> empty_value U8 then U8
      else if unat entry_count \<le> empty_value U16 then U16
      else if unat entry_count \<le> empty_value U32 then U32
      else U64)"

subsection \<open>Capacities\<close>

definition initial_table_capacity :: size_t where
  "initial_table_capacity = 6"

definition initial_index_capacity :: size_t where
  "initial_index_capacity = 8"

definition table_capacity_for_index_capacity :: "size_t \<Rightarrow> size_t" where
  "table_capacity_for_index_capacity index_size = index_size - index_size div 4"

definition index_capacity_for_entries_capacity :: "size_t \<Rightarrow> size_t option" where
  "index_capacity_for_entries_capacity table_size =
     (let (ok, index_size) = checked_add_unsigned table_size 2
      in if \<not> ok then None
         else let (ok, index_size) = checked_add_unsigned (index_size div 3) table_size
              in if \<not> ok then None
                 else if max_pow2 < index_size then None
                 else Some (max initial_index_capacity (ceil_pow2_fast index_size)))"

definition grow_index_capacity :: "size_t \<Rightarrow> size_t option" where
  "grow_index_capacity old_index_size =
     (if max_pow2 \<le> old_index_size then None else Some (push_bit 1 old_index_size))"

subsection \<open>The table\<close>

record hash_table =
  index_slot :: "index_buffer option"
  entries_slot :: "storage option"
  table_size :: size_t
  table_mask :: size_t

definition table_new :: hash_table where
  "table_new = \<lparr>index_slot = None, entries_slot = None, table_size = 0, table_mask = 0\<rparr>"

definition next_bucket :: "size_t \<Rightarrow> size_t \<Rightarrow> size_t" where
  "next_bucket m current_bucket = (current_bucket + 1) AND m"

definition bucket_for_hash :: "size_t \<Rightarrow> size_t \<Rightarrow> size_t" where
  "bucket_for_hash m hash = hash AND m"

definition distance_from_ideal :: "size_t \<Rightarrow> size_t \<Rightarrow> size_t \<Rightarrow> size_t" where
  "distance_from_ideal m hash current_bucket = (current_bucket - bucket_for_hash m hash) AND m"

definition occupied_entries :: "hash_table \<Rightarrow> size_t" where
  "occupied_entries t = (case entries_slot t of None \<Rightarrow> 0 | Some s \<Rightarrow> storage_size s)"

definition entry_capacity :: "hash_table \<Rightarrow> size_t" where
  "entry_capacity t = (case entries_slot t of None \<Rightarrow> 0 | Some s \<Rightarrow> slot_capacity s)"

definition index_size_class :: "hash_table \<Rightarrow> size_class" where
  "index_size_class t = size_class_for (entry_capacity t)"

definition index_capacity :: "hash_table \<Rightarrow> size_t option" where
  "index_capacity t =
     (case index_slot t of None \<Rightarrow> Some 0
      | Some buffer \<Rightarrow> do { xs \<leftarrow> index_values (index_size_class t) buffer; Some (word_of_nat (length xs)) })"

definition table_empty :: "hash_table \<Rightarrow> bool" where
  "table_empty t \<longleftrightarrow> table_size t = 0"

definition is_packed :: "hash_table \<Rightarrow> bool" where
  "is_packed t \<longleftrightarrow> table_empty t \<or> table_size t = occupied_entries t"

subsection \<open>Search\<close>

partial_function (option) find_loop ::
  "size_class \<Rightarrow> hash_entry list \<Rightarrow> size_t \<Rightarrow> val \<Rightarrow> size_t \<Rightarrow> nat list \<Rightarrow> size_t \<Rightarrow> size_t
    \<Rightarrow> (size_t \<times> nat) option option" where [code]:
  "find_loop c es m key key_hash xs bucket_index distance =
     (if unat bucket_index < length xs then
        let ix = xs ! unat bucket_index
        in if ix = empty_value c then Some None
           else if ix < length es then
             let entry = es ! ix
             in if distance > distance_from_ideal m (entry_hash entry) bucket_index then Some None
                else if entry_hash entry = key_hash \<and> key_equal (entry_key entry) key
                then Some (Some (bucket_index, ix))
                else find_loop c es m key key_hash xs (next_bucket m bucket_index) (distance + 1)
           else None
      else None)"

definition find_impl :: "size_class \<Rightarrow> hash_table \<Rightarrow> val \<Rightarrow> (size_t \<times> nat) option option" where
  "find_impl c t key = do {
     buffer \<leftarrow> index_slot t;
     indices \<leftarrow> index_values c buffer;
     entries \<leftarrow> entries_slot t;
     let key_hash = make_hash key;
     find_loop c (slots entries) (table_mask t) key key_hash indices
       (bucket_for_hash (table_mask t) key_hash) 0
   }"

definition contains :: "hash_table \<Rightarrow> val \<Rightarrow> bool option" where
  "contains t key =
     (if table_empty t then Some False
      else do { pos \<leftarrow> find_impl (index_size_class t) t key; Some (pos \<noteq> None) })"

definition table_find :: "hash_table \<Rightarrow> val \<Rightarrow> (val \<times> val) option option" where
  "table_find t key =
     (if table_empty t then Some None
      else do {
        pos \<leftarrow> find_impl (index_size_class t) t key;
        case pos of None \<Rightarrow> Some None
        | Some (_, entry_index) \<Rightarrow> do {
            entries \<leftarrow> entries_slot t;
            entry \<leftarrow> storage_get entries entry_index;
            Some (Some (entry_key entry, entry_value entry)) } })"

definition table_get :: "hash_table \<Rightarrow> val \<Rightarrow> val option option" where
  "table_get t key =
     (if table_empty t then Some None
      else do {
        pos \<leftarrow> find_impl (index_size_class t) t key;
        case pos of None \<Rightarrow> Some None
        | Some (_, entry_index) \<Rightarrow> do {
            entries \<leftarrow> entries_slot t;
            entry \<leftarrow> storage_get entries entry_index;
            Some (Some (entry_value entry)) } })"

subsection \<open>Insertion\<close>

text \<open>How the first loop of an insertion ends: a free bucket was filled, a bucket was
  stolen and its entry has to be placed again, or the key was found.\<close>

datatype slot_result =
    FreeBucket "nat list"
  | StolenBucket "nat list" nat size_t size_t
  | ExistingKey nat

partial_function (option) set_loop ::
  "size_class \<Rightarrow> hash_entry list \<Rightarrow> size_t \<Rightarrow> val \<Rightarrow> size_t \<Rightarrow> nat \<Rightarrow> nat list \<Rightarrow> size_t \<Rightarrow> size_t
    \<Rightarrow> slot_result option" where [code]:
  "set_loop c es m key key_hash index_to_insert xs bucket_index distance =
     (if unat bucket_index < length xs then
        let ix = xs ! unat bucket_index
        in if ix = empty_value c
           then Some (FreeBucket (xs[unat bucket_index := index_to_insert]))
           else if ix < length es then
             let entry = es ! ix;
                 entry_distance = distance_from_ideal m (entry_hash entry) bucket_index
             in if entry_distance < distance
                then Some (StolenBucket (xs[unat bucket_index := index_to_insert]) ix
                             bucket_index entry_distance)
                else if entry_hash entry = key_hash \<and> key_equal (entry_key entry) key
                then Some (ExistingKey ix)
                else set_loop c es m key key_hash index_to_insert xs
                       (next_bucket m bucket_index) (distance + 1)
           else None
      else None)"

partial_function (option) steal_loop ::
  "size_class \<Rightarrow> hash_entry list \<Rightarrow> size_t \<Rightarrow> nat list \<Rightarrow> nat \<Rightarrow> size_t \<Rightarrow> size_t
    \<Rightarrow> nat list option" where [code]:
  "steal_loop c es m xs index_to_insert bucket_index distance =
     (let bucket_index = next_bucket m bucket_index; distance = distance + 1
      in if unat bucket_index < length xs then
           let ix = xs ! unat bucket_index
           in if ix = empty_value c then Some (xs[unat bucket_index := index_to_insert])
              else if ix < length es then
                let entry_distance = distance_from_ideal m (entry_hash (es ! ix)) bucket_index
                in if entry_distance < distance
                   then steal_loop c es m (xs[unat bucket_index := index_to_insert]) ix
                          bucket_index entry_distance
                   else steal_loop c es m xs index_to_insert bucket_index distance
              else None
         else None)"

definition set_impl :: "size_class \<Rightarrow> hash_table \<Rightarrow> val \<Rightarrow> val \<Rightarrow> (bool \<times> hash_table) option" where
  "set_impl c t key v = do {
     buffer \<leftarrow> index_slot t;
     indices \<leftarrow> index_values c buffer;
     entries \<leftarrow> entries_slot t;
     let key_hash = make_hash key;
     let m = table_mask t;
     let index_to_insert = cast_index c (length (slots entries));
     slot \<leftarrow> set_loop c (slots entries) m key key_hash index_to_insert indices
               (bucket_for_hash m key_hash) 0;
     case slot of
       ExistingKey ix \<Rightarrow> do {
         entry \<leftarrow> storage_get entries ix;
         entries \<leftarrow> storage_set entries ix
           \<lparr>entry_hash = key_hash, entry_key = entry_key entry, entry_value = v\<rparr>;
         Some (False, t\<lparr>entries_slot := Some entries\<rparr>) }
     | FreeBucket xs \<Rightarrow> do {
         entries \<leftarrow> storage_append entries
           \<lparr>entry_hash = key_hash, entry_key = key, entry_value = v\<rparr>;
         Some (True, t\<lparr>index_slot := Some (buffer\<lparr>cells := xs\<rparr>), entries_slot := Some entries,
                       table_size := table_size t + 1\<rparr>) }
     | StolenBucket xs ix bucket_index distance \<Rightarrow> do {
         entries \<leftarrow> storage_append entries
           \<lparr>entry_hash = key_hash, entry_key = key, entry_value = v\<rparr>;
         xs \<leftarrow> steal_loop c (slots entries) m xs ix bucket_index distance;
         Some (True, t\<lparr>index_slot := Some (buffer\<lparr>cells := xs\<rparr>), entries_slot := Some entries,
                       table_size := table_size t + 1\<rparr>) }
   }"

subsection \<open>Rehashing, compaction and growth\<close>

partial_function (option) rehash_loop ::
  "size_class \<Rightarrow> hash_entry list \<Rightarrow> size_t \<Rightarrow> nat list \<Rightarrow> nat \<Rightarrow> size_t \<Rightarrow> size_t
    \<Rightarrow> nat list option" where [code]:
  "rehash_loop c es m xs index_to_insert bucket_index distance =
     (if unat bucket_index < length xs then
        let ix = xs ! unat bucket_index
        in if ix = empty_value c then Some (xs[unat bucket_index := index_to_insert])
           else if ix < length es then
             let other_distance = distance_from_ideal m (entry_hash (es ! ix)) bucket_index
             in if other_distance < distance
                then rehash_loop c es m (xs[unat bucket_index := index_to_insert]) ix
                       (next_bucket m bucket_index) (other_distance + 1)
                else rehash_loop c es m xs index_to_insert
                       (next_bucket m bucket_index) (distance + 1)
           else None
      else None)"

fun rehash_entries ::
  "size_class \<Rightarrow> hash_entry list \<Rightarrow> size_t \<Rightarrow> nat list \<Rightarrow> nat list \<Rightarrow> nat list option" where
  "rehash_entries c es m xs [] = Some xs"
| "rehash_entries c es m xs (entry_index # rest) = do {
     xs \<leftarrow> rehash_loop c es m xs (cast_index c entry_index)
             (bucket_for_hash m (entry_hash (es ! entry_index))) 0;
     rehash_entries c es m xs rest
   }"

definition rehash_index :: "size_class \<Rightarrow> hash_table \<Rightarrow> hash_table option" where
  "rehash_index c t = do {
     entries \<leftarrow> entries_slot t;
     buffer \<leftarrow> index_slot t;
     indices \<leftarrow> index_values c buffer;
     xs \<leftarrow> rehash_entries c (slots entries) (table_mask t) indices [0..<length (slots entries)];
     Some (t\<lparr>index_slot := Some (buffer\<lparr>cells := xs\<rparr>)\<rparr>)
   }"

definition recreate_index :: "size_class \<Rightarrow> hash_table \<Rightarrow> size_t \<Rightarrow> hash_table fallible" where
  "recreate_index c t cap =
     bind_fallible (index_buffer_make c cap (empty_value c)) (\<lambda>buffer. do {
       t \<leftarrow> rehash_index c (t\<lparr>index_slot := Some buffer, table_mask := cap - 1\<rparr>);
       Some (Inr t) })"

fun append_live :: "storage \<Rightarrow> hash_entry list \<Rightarrow> storage option" where
  "append_live s [] = Some s"
| "append_live s (entry # rest) =
     (if is_deleted entry then append_live s rest
      else do { s \<leftarrow> storage_append s entry; append_live s rest })"

definition grow_to_capacity :: "hash_table \<Rightarrow> size_t \<Rightarrow> size_t \<Rightarrow> hash_table fallible" where
  "grow_to_capacity t new_entry_capacity new_index_capacity =
     bind_fallible (storage_make new_entry_capacity) (\<lambda>new_entries. do {
       new_entries \<leftarrow>
         (if table_size t = occupied_entries t
          then if 0 < table_size t
               then do { old \<leftarrow> entries_slot t; storage_append_all new_entries (slots old) }
               else Some new_entries
          else do { old \<leftarrow> entries_slot t; append_live new_entries (slots old) });
       recreate_index (size_class_for new_entry_capacity) (t\<lparr>entries_slot := Some new_entries\<rparr>)
         new_index_capacity })"

definition grow :: "hash_table \<Rightarrow> hash_table fallible" where
  "grow t = do {
     cap \<leftarrow> index_capacity t;
     case grow_index_capacity cap of
       None \<Rightarrow> Some (Inl TableTooLarge)
     | Some new_index_cap \<Rightarrow>
         grow_to_capacity t (table_capacity_for_index_capacity new_index_cap) new_index_cap
   }"

definition find_deleted_entry :: "hash_entry list \<Rightarrow> nat option" where
  "find_deleted_entry es = find (\<lambda>i. is_deleted (es ! i)) [0..<length es]"

text \<open>The loop moves every live entry at a reading position down to the writing position.\<close>

fun compact_loop :: "hash_entry list \<Rightarrow> nat \<Rightarrow> nat list \<Rightarrow> hash_entry list \<times> nat" where
  "compact_loop es write_pos [] = (es, write_pos)"
| "compact_loop es write_pos (read_pos # rest) =
     (if is_deleted (es ! read_pos) then compact_loop es write_pos rest
      else compact_loop (es[write_pos := es ! read_pos]) (write_pos + 1) rest)"

definition compact :: "size_class \<Rightarrow> hash_table \<Rightarrow> hash_table option" where
  "compact c t = do {
     entries \<leftarrow> entries_slot t;
     if storage_size entries = table_size t then Some t
     else do {
       hole \<leftarrow> find_deleted_entry (slots entries);
       let entries_size = length (slots entries);
       let (es, write_pos) = compact_loop (slots entries) hole [hole + 1..<entries_size];
       entries \<leftarrow> storage_remove_last (entries\<lparr>slots := es\<rparr>) (entries_size - write_pos);
       buffer \<leftarrow> index_slot t;
       indices \<leftarrow> index_values c buffer;
       rehash_index c (t\<lparr>entries_slot := Some entries,
         index_slot := Some (buffer\<lparr>cells := replicate (length indices) (empty_value c)\<rparr>)\<rparr>) }
   }"

definition init_first :: "hash_table \<Rightarrow> hash_table fallible" where
  "init_first t =
     bind_fallible (storage_make initial_table_capacity) (\<lambda>entries.
     bind_fallible (index_buffer_make U8 initial_index_capacity (empty_value U8)) (\<lambda>buffer.
       Some (Inr (t\<lparr>entries_slot := Some entries, index_slot := Some buffer,
                    table_size := 0, table_mask := initial_index_capacity - 1\<rparr>))))"

definition ensure_free_capacity :: "hash_table \<Rightarrow> hash_table fallible" where
  "ensure_free_capacity t =
     (case entries_slot t of
        None \<Rightarrow> init_first t
      | Some entries \<Rightarrow>
          if storage_full entries then
            if entry_capacity t div 4 \<le> table_size t div 3 then grow t
            else do { t \<leftarrow> compact (index_size_class t) t; Some (Inr t) }
          else Some (Inr t))"

subsection \<open>The operations of the table\<close>

definition table_make :: "size_t \<Rightarrow> hash_table fallible" where
  "table_make initial_capacity =
     (if initial_capacity = 0 then Some (Inr table_new)
      else case index_capacity_for_entries_capacity initial_capacity of
             None \<Rightarrow> Some (Inl TableTooLarge)
           | Some index_cap \<Rightarrow>
               grow_to_capacity table_new (table_capacity_for_index_capacity index_cap) index_cap)"

definition table_set :: "hash_table \<Rightarrow> val \<Rightarrow> val \<Rightarrow> (bool \<times> hash_table) fallible" where
  "table_set t key v =
     bind_fallible (ensure_free_capacity t) (\<lambda>t. do {
       r \<leftarrow> set_impl (index_size_class t) t key v; Some (Inr r) })"

partial_function (option) remove_loop ::
  "size_class \<Rightarrow> hash_entry list \<Rightarrow> size_t \<Rightarrow> size_t \<Rightarrow> nat list \<Rightarrow> size_t \<Rightarrow> nat list option" where [code]:
  "remove_loop c es m erased_bucket xs current_bucket =
     (if unat current_bucket < length xs then
        let ix = xs ! unat current_bucket
        in if ix = empty_value c then Some xs
           else if ix < length es then
             if 0 < distance_from_ideal m (entry_hash (es ! ix)) current_bucket
             then remove_loop c es m erased_bucket
                    ((xs[unat erased_bucket := ix])[unat current_bucket := empty_value c])
                    current_bucket
             else Some xs
           else None
      else None)"

definition remove_from_index :: "size_class \<Rightarrow> hash_table \<Rightarrow> size_t \<Rightarrow> hash_table option" where
  "remove_from_index c t erased_bucket = do {
     buffer \<leftarrow> index_slot t;
     indices \<leftarrow> index_values c buffer;
     entries \<leftarrow> entries_slot t;
     if unat erased_bucket < length indices then do {
       xs \<leftarrow> remove_loop c (slots entries) (table_mask t) erased_bucket
               (indices[unat erased_bucket := empty_value c])
               (next_bucket (table_mask t) erased_bucket);
       Some (t\<lparr>index_slot := Some (buffer\<lparr>cells := xs\<rparr>)\<rparr>) }
     else None
   }"

definition remove_impl :: "size_class \<Rightarrow> hash_table \<Rightarrow> val \<Rightarrow> (bool \<times> hash_table) option" where
  "remove_impl c t key = do {
     found \<leftarrow> find_impl c t key;
     case found of
       None \<Rightarrow> Some (False, t)
     | Some (removed_bucket, removed_entry) \<Rightarrow> do {
         entries \<leftarrow> entries_slot t;
         entries \<leftarrow> (if word_of_nat removed_entry = storage_size entries - 1
                    then storage_remove_last entries 1
                    else storage_set entries removed_entry make_deleted);
         let new_size = table_size t - 1;
         let entries = (if new_size = 0 then storage_clear entries else entries);
         t \<leftarrow> remove_from_index c (t\<lparr>entries_slot := Some entries, table_size := new_size\<rparr>)
                removed_bucket;
         t \<leftarrow> (if table_size t \<le> storage_size entries div 2 then compact c t else Some t);
         Some (True, t) }
   }"

definition table_remove :: "hash_table \<Rightarrow> val \<Rightarrow> (bool \<times> hash_table) option" where
  "table_remove t key =
     (if table_empty t then Some (False, t) else remove_impl (index_size_class t) t key)"

definition clear_impl :: "size_class \<Rightarrow> hash_table \<Rightarrow> hash_table option" where
  "clear_impl c t = do {
     buffer \<leftarrow> index_slot t;
     indices \<leftarrow> index_values c buffer;
     entries \<leftarrow> entries_slot t;
     Some (t\<lparr>entries_slot := Some (storage_clear entries),
             index_slot := Some (buffer\<lparr>cells := replicate (length indices) (empty_value c)\<rparr>),
             table_size := 0\<rparr>)
   }"

definition table_clear :: "hash_table \<Rightarrow> hash_table option" where
  "table_clear t = (if table_empty t then Some t else clear_impl (index_size_class t) t)"

subsection \<open>Iteration\<close>

function scan_entries :: "hash_entry list \<Rightarrow> nat \<Rightarrow> (val \<times> val) option \<times> nat" where
  "scan_entries es i =
     (if i < length es
      then if \<not> is_deleted (es ! i) then (Some (entry_key (es ! i), entry_value (es ! i)), i + 1)
           else scan_entries es (i + 1)
      else (None, i))"
  by pat_completeness auto
termination by (relation "measure (\<lambda>(es, i). length es - i)") auto

declare scan_entries.simps [simp del]

text \<open>One step of an iterator: the next pair, if any, and the iterator's new position.\<close>

definition iterator_next :: "hash_table \<Rightarrow> nat \<Rightarrow> (val \<times> val) option \<times> nat" where
  "iterator_next t entry_index =
     (case entries_slot t of None \<Rightarrow> (None, entry_index)
      | Some entries \<Rightarrow> scan_entries (slots entries) entry_index)"

text \<open>The loop of \<open>for_each\<close>, returning the pairs it passes to its function.\<close>

partial_function (option) for_each_loop :: "hash_table \<Rightarrow> nat \<Rightarrow> (val \<times> val) list option" where [code]:
  "for_each_loop t i =
     (case iterator_next t i of
        (None, _) \<Rightarrow> Some []
      | (Some kv, i) \<Rightarrow> do { rest \<leftarrow> for_each_loop t i; Some (kv # rest) })"

definition for_each :: "hash_table \<Rightarrow> (val \<times> val) list option" where
  "for_each t = for_each_loop t 0"

end
