(* ===== verification/RobinHood.thy ===== *)
theory RobinHood
  imports Prelude "HOL-Library.Multiset"
begin

text \<open>
  Robin Hood probing on a circular array, independent of the integer types and of the
  entry format of src/vm/objects/hash_table.cpp. The array \<open>xs\<close> holds entry numbers, \<open>e\<close>
  marks an empty bucket and \<open>H\<close> gives the hash of an entry. The theory states the probing
  order (the invariant \<open>robin_hood\<close>), the condition under which an entry may be carried
  to a bucket, the gap up to the next empty bucket that bounds every loop, and the steps
  by which an insertion keeps them.
\<close>

definition nxt :: "nat \<Rightarrow> nat \<Rightarrow> nat" where
  "nxt n b = (b + 1) mod n"

definition dist :: "nat \<Rightarrow> nat \<Rightarrow> nat \<Rightarrow> nat" where
  "dist n h b = (b + (n - h mod n)) mod n"

definition probe_dist :: "(nat \<Rightarrow> nat) \<Rightarrow> nat list \<Rightarrow> nat \<Rightarrow> nat" where
  "probe_dist H xs b = dist (length xs) (H (xs ! b)) b"

definition robin_hood :: "nat \<Rightarrow> (nat \<Rightarrow> nat) \<Rightarrow> nat list \<Rightarrow> bool" where
  "robin_hood e H xs \<longleftrightarrow>
     (\<forall>b < length xs. let b' = nxt (length xs) b in
        xs ! b' \<noteq> e \<and> 0 < probe_dist H xs b' \<longrightarrow>
        xs ! b \<noteq> e \<and> probe_dist H xs b' \<le> probe_dist H xs b + 1)"

definition carry_ok :: "nat \<Rightarrow> (nat \<Rightarrow> nat) \<Rightarrow> nat list \<Rightarrow> nat \<Rightarrow> nat \<Rightarrow> bool" where
  "carry_ok e H xs b d \<longleftrightarrow>
     (\<forall>p < length xs. nxt (length xs) p = b \<longrightarrow> 0 < d \<longrightarrow>
        xs ! p \<noteq> e \<and> d \<le> probe_dist H xs p + 1)"

definition gap :: "nat \<Rightarrow> nat list \<Rightarrow> nat \<Rightarrow> nat \<Rightarrow> bool" where
  "gap e xs b g \<longleftrightarrow>
     (\<forall>j < g. xs ! ((b + j) mod length xs) \<noteq> e) \<and> xs ! ((b + g) mod length xs) = e"

definition used :: "nat \<Rightarrow> nat list \<Rightarrow> nat list" where
  "used e xs = filter (\<lambda>i. i \<noteq> e) xs"

subsection \<open>Circular arithmetic\<close>

lemma nxt_less [simp]: "0 < n \<Longrightarrow> nxt n b < n"
  by (simp add: nxt_def)

lemma nxt_inj: "p < n \<Longrightarrow> q < n \<Longrightarrow> nxt n p = nxt n q \<Longrightarrow> p = q"
  by (auto simp: nxt_def mod_Suc split: if_splits)

lemma nxt_neq: "1 < n \<Longrightarrow> b < n \<Longrightarrow> nxt n b \<noteq> b"
  by (auto simp: nxt_def mod_Suc split: if_splits)

lemma nxt_pred_exists: "b < n \<Longrightarrow> \<exists>p < n. nxt n p = b"
  by (rule exI [of _ "(if b = 0 then n - 1 else b - 1)"]) (auto simp: nxt_def)

lemma nxt_add: "nxt n ((b + j) mod n) = (b + Suc j) mod n"
  by (simp add: nxt_def mod_Suc_eq)

lemma add_nxt: "(nxt n b + j) mod n = (b + Suc j) mod n"
  by (simp add: nxt_def mod_add_left_eq)

lemma dist_less [simp]: "0 < n \<Longrightarrow> dist n h b < n"
  by (simp add: dist_def)

lemma dist_home [simp]: "0 < n \<Longrightarrow> dist n h (h mod n) = 0"
  by (simp add: dist_def)

lemma dist_nxt: "dist n h (nxt n b) = (dist n h b + 1) mod n"
  by (simp add: dist_def nxt_def mod_simps)

lemma dist_nxt_Suc: "dist n h b + 1 < n \<Longrightarrow> dist n h (nxt n b) = dist n h b + 1"
  by (simp add: dist_nxt)

lemma home_plus_dist:
  assumes "b < n"
  shows "(h + dist n h b) mod n = b"
proof -
  have "(h + dist n h b) mod n = (h mod n + (b + (n - h mod n))) mod n"
    unfolding dist_def by (metis mod_add_left_eq mod_add_right_eq)
  also have "h mod n + (b + (n - h mod n)) = b + n"
    using assms mod_less_divisor [of n h] by linarith
  finally show ?thesis using assms by simp
qed

lemma dist_shift:
  assumes "j < n"
  shows "dist n h ((h + j) mod n) = j"
proof -
  have "dist n h ((h + j) mod n) = (h mod n + j + (n - h mod n)) mod n"
    unfolding dist_def by (metis mod_add_left_eq)
  also have "h mod n + j + (n - h mod n) = j + n"
    using assms by (simp add: less_imp_le)
  finally show ?thesis using assms by simp
qed

subsection \<open>The gap up to the next empty bucket\<close>

lemma gap_exists:
  assumes "i < length xs" and "xs ! i = e" and "b < length xs"
  shows "\<exists>g < length xs. gap e xs b g"
proof -
  let ?n = "length xs"
  define P where "P j \<longleftrightarrow> xs ! ((b + j) mod ?n) = e" for j
  have "(b + dist ?n b i) mod ?n = i" using assms(1) by (rule home_plus_dist)
  then have "P (dist ?n b i)" using assms(2) by (simp add: P_def)
  then obtain g where g: "P g" "\<forall>j < g. \<not> P j" "g \<le> dist ?n b i"
    using LeastI [of P] Least_le [of P] not_less_Least [of _ P] by metis
  moreover have "dist ?n b i < ?n" using assms(1) by (intro dist_less) auto
  ultimately have "g < ?n" "gap e xs b g"
    by (auto simp: gap_def P_def)
  then show ?thesis by blast
qed

lemma gap_0: "b < length xs \<Longrightarrow> gap e xs b g \<Longrightarrow> xs ! b = e \<longleftrightarrow> g = 0"
  by (cases g) (auto simp: gap_def dest: spec [of _ 0])

lemma gap_next:
  assumes "b < length xs" and "gap e xs b g" and "xs ! b \<noteq> e"
  shows "\<exists>g'. g = Suc g' \<and> gap e xs (nxt (length xs) b) g'"
proof (cases g)
  case 0
  then show ?thesis using assms by (simp add: gap_def)
next
  case (Suc g')
  then show ?thesis using assms(2) by (auto simp: gap_def add_nxt)
qed

lemma gap_update:
  assumes "b < length xs" and "xs ! b \<noteq> e" and "c \<noteq> e"
  shows "gap e (xs[b := c]) b' g = gap e xs b' g"
  using assms by (auto simp: gap_def nth_list_update)

lemma used_length_less:
  "length (used e xs) < length xs \<Longrightarrow> \<exists>i < length xs. xs ! i = e"
  unfolding used_def using filter_True [of xs "\<lambda>i. i \<noteq> e"] by (metis in_set_conv_nth less_irrefl)

lemma mset_used_update:
  assumes "b < length xs"
  shows "mset (used e (xs[b := c])) + (if xs ! b = e then {#} else {#xs ! b#})
    = mset (used e xs) + (if c = e then {#} else {#c#})"
  using assms
  by (simp add: used_def filter_update_split del: mset_filter)
     (simp add: filter_nth_split [of b xs "\<lambda>i. i \<noteq> e"] del: mset_filter)

lemma mset_used_place:
  "b < length xs \<Longrightarrow> xs ! b = e \<Longrightarrow> c \<noteq> e \<Longrightarrow>
   mset (used e (xs[b := c])) = add_mset c (mset (used e xs))"
  using mset_used_update [of b xs e c] by simp

lemma mset_used_swap:
  "b < length xs \<Longrightarrow> xs ! b \<noteq> e \<Longrightarrow> c \<noteq> e \<Longrightarrow>
   add_mset (xs ! b) (mset (used e (xs[b := c]))) = add_mset c (mset (used e xs))"
  using mset_used_update [of b xs e c] by simp

subsection \<open>The probing order\<close>

lemma robin_hoodD:
  "robin_hood e H xs \<Longrightarrow> b < length xs \<Longrightarrow> xs ! nxt (length xs) b \<noteq> e \<Longrightarrow>
   0 < probe_dist H xs (nxt (length xs) b) \<Longrightarrow>
   xs ! b \<noteq> e \<and> probe_dist H xs (nxt (length xs) b) \<le> probe_dist H xs b + 1"
  by (auto simp: robin_hood_def Let_def)

lemma robin_hood_empty: "\<forall>b < length xs. xs ! b = e \<Longrightarrow> robin_hood e H xs"
  by (auto simp: robin_hood_def Let_def) (metis length_pos_if_in_set nth_mem nxt_less)+

lemma robin_hood_cong:
  assumes "robin_hood e H xs" and same: "\<And>i. i \<in> set (used e xs) \<Longrightarrow> H i = H' i"
  shows "robin_hood e H' xs"
  unfolding robin_hood_def Let_def
proof (intro allI impI)
  fix b
  let ?q = "nxt (length xs) b"
  assume b: "b < length xs" and u: "xs ! ?q \<noteq> e \<and> 0 < probe_dist H' xs ?q"
  have pd: "probe_dist H' xs p = probe_dist H xs p" if "p < length xs" "xs ! p \<noteq> e" for p
    using same [of "xs ! p"] that by (simp add: probe_dist_def used_def)
  have "?q < length xs" using b by (intro nxt_less) auto
  with u pd have "0 < probe_dist H xs ?q" "probe_dist H' xs ?q = probe_dist H xs ?q" by auto
  with robin_hoodD [OF assms(1) b] u b pd [of b]
  show "xs ! b \<noteq> e \<and> probe_dist H' xs ?q \<le> probe_dist H' xs b + 1" by auto
qed

lemma carry_ok_0 [simp]: "carry_ok e H xs b 0"
  by (simp add: carry_ok_def)

lemma probe_dist_update_other [simp]:
  "b \<noteq> b' \<Longrightarrow> probe_dist H (xs[b := c]) b' = probe_dist H xs b'"
  by (simp add: probe_dist_def)

lemma probe_dist_update_same [simp]:
  "b < length xs \<Longrightarrow> probe_dist H (xs[b := c]) b = dist (length xs) (H c) b"
  by (simp add: probe_dist_def)

text \<open>An entry that is stored where the entry found there was closer to its home keeps the order.\<close>

lemma robin_hood_store:
  assumes rh: "robin_hood e H xs" and b: "b < length xs" and n: "1 < length xs"
    and c: "c \<noteq> e" and carry: "carry_ok e H xs b (dist (length xs) (H c) b)"
    and worse: "xs ! b \<noteq> e \<Longrightarrow> probe_dist H xs b \<le> dist (length xs) (H c) b"
  shows "robin_hood e H (xs[b := c])"
  unfolding robin_hood_def Let_def
proof (intro allI impI)
  fix p
  let ?n = "length xs" and ?ys = "xs[b := c]"
  let ?q = "nxt ?n p"
  assume p: "p < length ?ys"
    and used: "?ys ! nxt (length ?ys) p \<noteq> e \<and> 0 < probe_dist H ?ys (nxt (length ?ys) p)"
  have q: "?q < ?n" and pq: "?q \<noteq> p" using p n nxt_neq by (auto intro: nxt_less)
  consider "?q = b" | "p = b" "?q \<noteq> b" | "p \<noteq> b" "?q \<noteq> b" by blast
  then show "?ys ! p \<noteq> e
    \<and> probe_dist H ?ys (nxt (length ?ys) p) \<le> probe_dist H ?ys p + 1"
  proof cases
    case 1
    with pq have "p \<noteq> b" by auto
    with 1 used carry p b show ?thesis by (auto simp: carry_ok_def)
  next
    case 2
    with used have "xs ! ?q \<noteq> e" "0 < probe_dist H xs ?q" by auto
    with robin_hoodD [OF rh, of p] p 2 worse b c show ?thesis by auto
  next
    case 3
    with used robin_hoodD [OF rh, of p] p show ?thesis by auto
  qed
qed

text \<open>What is carried on to the next bucket, with and without an exchange.\<close>

lemma carry_ok_next:
  assumes b: "b < length xs" and "xs ! b \<noteq> e" and "d \<le> probe_dist H xs b"
  shows "carry_ok e H xs (nxt (length xs) b) (d + 1)"
  using assms nxt_inj by (fastforce simp: carry_ok_def)

lemma carry_ok_swap:
  assumes "b < length xs" and "c \<noteq> e" and "d \<le> dist (length xs) (H c) b"
  shows "carry_ok e H (xs[b := c]) (nxt (length xs) b) (d + 1)"
  using assms carry_ok_next [of b "xs[b := c]" e d H] by simp

text \<open>
  The fact that makes an unsuccessful search short: between the home of a stored entry and
  its bucket, no bucket is empty or holds an entry that is closer to its own home.
\<close>

lemma robin_hood_run:
  assumes rh: "robin_hood e H xs" and b: "b < length xs" and used: "xs ! b \<noteq> e"
    and j: "j \<le> probe_dist H xs b"
  shows "xs ! ((H (xs ! b) + j) mod length xs) \<noteq> e
    \<and> j \<le> probe_dist H xs ((H (xs ! b) + j) mod length xs)"
  using j
proof (induction j rule: inc_induct)
  case base
  have "(H (xs ! b) + probe_dist H xs b) mod length xs = b"
    using b by (simp add: probe_dist_def home_plus_dist)
  then show ?case using used by simp
next
  case (step j)
  let ?p = "(H (xs ! b) + j) mod length xs"
  have p: "?p < length xs" using b by (intro mod_less_divisor) auto
  have "nxt (length xs) ?p = (H (xs ! b) + Suc j) mod length xs" by (rule nxt_add)
  with robin_hoodD [OF rh p] step.IH show ?case by auto
qed

subsection \<open>Removal with one backward shift\<close>

text \<open>
  The bucket is emptied and the entry of the next bucket, if it is not at its home, moves
  into it. The order survives when the bucket after that holds no displaced entry.
\<close>

definition backshift :: "nat \<Rightarrow> (nat \<Rightarrow> nat) \<Rightarrow> nat list \<Rightarrow> nat \<Rightarrow> nat list" where
  "backshift e H xs b =
     (let q = nxt (length xs) b
      in if xs ! q = e \<or> probe_dist H xs q = 0 then xs[b := e]
         else xs[b := xs ! q, q := e])"

lemma length_backshift [simp]: "length (backshift e H xs b) = length xs"
  by (simp add: backshift_def Let_def)

lemma dist_pred: "0 < dist n h (nxt n b) \<Longrightarrow> dist n h (nxt n b) = dist n h b + 1"
  by (cases "n = 0") (auto simp: dist_nxt mod_Suc dest: dist_less [of n h b] split: if_splits)

lemma mset_used_erase:
  "b < length xs \<Longrightarrow> xs ! b \<noteq> e \<Longrightarrow>
   add_mset (xs ! b) (mset (used e (xs[b := e]))) = mset (used e xs)"
  using mset_used_update [of b xs e e] by simp

lemma distinct_mset_removed:
  assumes "add_mset x (mset ys) = mset zs" and "distinct zs"
  shows "x \<notin> set ys"
proof -
  have "mset (x # ys) = mset zs" using assms(1) by simp
  then have "distinct (x # ys)" using mset_eq_imp_distinct_iff assms(2) by blast
  then show ?thesis by simp
qed

lemma mset_used_backshift:
  assumes "b < length xs" and "xs ! b \<noteq> e" and "1 < length xs"
  shows "add_mset (xs ! b) (mset (used e (backshift e H xs b))) = mset (used e xs)"
proof -
  let ?q = "nxt (length xs) b"
  have q: "?q < length xs" "?q \<noteq> b"
    using assms nxt_neq [of "length xs" b] by (auto intro: nxt_less)
  show ?thesis
  proof (cases "xs ! ?q = e \<or> probe_dist H xs ?q = 0")
    case True
    with assms show ?thesis by (simp add: backshift_def mset_used_erase)
  next
    case False
    let ?ys = "xs[b := xs ! ?q]"
    have "add_mset (?ys ! ?q) (mset (used e (?ys[?q := e]))) = mset (used e ?ys)"
      using False q by (intro mset_used_erase) auto
    moreover have "add_mset (xs ! b) (mset (used e ?ys)) = add_mset (xs ! ?q) (mset (used e xs))"
      using False assms by (intro mset_used_swap) auto
    ultimately have "add_mset (xs ! ?q) (add_mset (xs ! b) (mset (used e (?ys[?q := e]))))
        = add_mset (xs ! ?q) (mset (used e xs))"
      using q by (simp add: add_mset_commute)
    then show ?thesis using False by (simp add: backshift_def Let_def)
  qed
qed

lemma robin_hood_backshift:
  assumes rh: "robin_hood e H xs" and b: "b < length xs" and n: "2 < length xs"
    and run: "xs ! nxt (length xs) b = e \<or> probe_dist H xs (nxt (length xs) b) = 0
      \<or> xs ! nxt (length xs) (nxt (length xs) b) = e
      \<or> probe_dist H xs (nxt (length xs) (nxt (length xs) b)) = 0"
  shows "robin_hood e H (backshift e H xs b)"
  unfolding robin_hood_def Let_def length_backshift
proof (intro allI impI)
  fix p
  let ?n = "length xs" and ?ys = "backshift e H xs b"
  let ?q = "nxt ?n b" and ?r = "nxt ?n p"
  assume p: "p < ?n" and u: "?ys ! ?r \<noteq> e \<and> 0 < probe_dist H ?ys ?r"
  have n0: "0 < ?n" "1 < ?n" using n by linarith+
  have q: "?q < ?n" "?q \<noteq> b" "nxt ?n ?q \<noteq> ?q"
    using n0 nxt_neq [OF n0(2) b] nxt_neq [OF n0(2), of ?q] nxt_less [OF n0(1)] by blast+
  have r: "?r < ?n" "?r \<noteq> p" using nxt_less [OF n0(1)] nxt_neq [OF n0(2) p] by blast+
  have qb: "nxt ?n ?q \<noteq> b" using b n by (auto simp: nxt_def mod_Suc split: if_splits)
  note step = robin_hoodD [OF rh p]
  show "?ys ! p \<noteq> e \<and> probe_dist H ?ys ?r \<le> probe_dist H ?ys p + 1"
  proof (cases "xs ! ?q = e \<or> probe_dist H xs ?q = 0")
    case True
    then have ys: "?ys = xs[b := e]" by (simp add: backshift_def)
    with u b r True have "?r \<noteq> b" "p \<noteq> b" by auto
    with ys u step show ?thesis by auto
  next
    case False
    then have ys: "?ys = xs[b := xs ! ?q, ?q := e]" by (simp add: backshift_def Let_def)
    have "?r \<noteq> ?q" using u ys q by auto
    then have pb: "p \<noteq> b" by auto
    show ?thesis
    proof (cases "?r = b")
      case True
      then have pq: "p \<noteq> ?q" using qb by auto
      have moved: "probe_dist H ?ys b + 1 = probe_dist H xs ?q"
        using dist_pred [of ?n "H (xs ! ?q)" b] False ys q b by (simp add: probe_dist_def)
      have "xs ! b \<noteq> e" "probe_dist H xs ?q \<le> probe_dist H xs b + 1"
        using robin_hoodD [OF rh b] False by auto
      with u moved True have "xs ! ?r \<noteq> e" "0 < probe_dist H xs ?r"
        "probe_dist H ?ys ?r \<le> probe_dist H xs ?r" by auto
      with step pq pb ys show ?thesis by auto
    next
      case rb: False
      have "p \<noteq> ?q" using u ys rb \<open>?r \<noteq> ?q\<close> run False by auto
      with step u ys rb pb \<open>?r \<noteq> ?q\<close> show ?thesis by auto
    qed
  qed
qed

end
