(* ===== verification/TableLoops.thy ===== *)
theory TableLoops
  imports HashTable RobinHood
begin

text \<open>
  The probing loops of the hash table over a well-formed index: each ends, stays inside of
  its arrays and does what the probing order of \<open>RobinHood\<close> promises. The bucket numbers and
  distances are 64-bit words in the loops and naturals in the order; the first lemmas relate
  the two.
\<close>

definition eh :: "hash_entry list \<Rightarrow> nat \<Rightarrow> nat" where
  "eh es i = unat (entry_hash (es ! i))"

definition matches :: "hash_entry list \<Rightarrow> size_t \<Rightarrow> val \<Rightarrow> nat \<Rightarrow> bool" where
  "matches es kh key i \<longleftrightarrow> entry_hash (es ! i) = kh \<and> key_equal (entry_key (es ! i)) key"

text \<open>What the loops need of the index: a power of two of cells, all used ones in range.\<close>

definition index_ok :: "nat \<Rightarrow> nat \<Rightarrow> nat \<Rightarrow> nat list \<Rightarrow> bool" where
  "index_ok k e n xs \<longleftrightarrow>
     0 < k \<and> k < 64 \<and> length xs = 2 ^ k \<and> (\<forall>i \<in> set (used e xs). i < n)"

lemma index_okD:
  assumes "index_ok k e n xs"
  shows "length xs = 2 ^ k" "1 < length xs" "0 < k" "k < 64"
    and "\<And>b. b < length xs \<Longrightarrow> xs ! b \<noteq> e \<Longrightarrow> xs ! b < n"
  using assms one_less_power [of "2::nat" k] by (auto simp: index_ok_def used_def)

lemma index_ok_update:
  "index_ok k e n xs \<Longrightarrow> c < n \<Longrightarrow> index_ok k e n (xs[b := c])"
  by (auto simp: index_ok_def used_def dest: set_update_subset_insert [THEN subsetD])

lemma index_ok_mono: "index_ok k e n xs \<Longrightarrow> n \<le> n' \<Longrightarrow> index_ok k e n' xs"
  by (auto simp: index_ok_def)

lemma unat_next_bucket [mask_simps]:
  "k < 64 \<Longrightarrow> unat (next_bucket (mask k) b) = nxt (2 ^ k) (unat b)"
  by (simp add: next_bucket_def nxt_def unat_add_and_mask)

lemma unat_bucket_for_hash [mask_simps]:
  "unat (bucket_for_hash (mask k) h) = unat h mod 2 ^ k"
  by (simp add: bucket_for_hash_def unat_and_mask)

lemma unat_distance_from_ideal [mask_simps]:
  "k < 64 \<Longrightarrow> unat (distance_from_ideal (mask k) h b) = dist (2 ^ k) (unat h) (unat b)"
  by (simp add: distance_from_ideal_def dist_def unat_sub_and_mask unat_bucket_for_hash)

lemma distance_less_iff:
  "k < 64 \<Longrightarrow> distance_from_ideal (mask k) h b < d \<longleftrightarrow> dist (2 ^ k) (unat h) (unat b) < unat d"
  by (simp add: word_less_nat_alt unat_distance_from_ideal)

lemma unat_next_less: "k < 64 \<Longrightarrow> unat (next_bucket (mask k) b) < 2 ^ k"
  by (simp add: unat_next_bucket)

lemma unat_Suc_small:
  assumes "unat (d :: size_t) + 1 \<le> 2 ^ k" and "k < 64"
  shows "unat (d + 1) = unat d + 1"
proof -
  have "(2::nat) ^ k < 2 ^ 64" using assms(2) by (intro power_strict_increasing) auto
  with assms(1) show ?thesis by (intro unat_add_one) simp
qed

subsection \<open>Placing an entry\<close>

lemma rehash_loop_correct:
  assumes "index_ok k (empty_value c) (length es) xs" and "unat b < 2 ^ k"
    and "gap (empty_value c) xs (unat b) g" and "ins < length es" and "ins \<noteq> empty_value c"
  shows "\<exists>ys. rehash_loop c es (mask k) xs ins b d = Some ys \<and> length ys = length xs
    \<and> mset (used (empty_value c) ys) = add_mset ins (mset (used (empty_value c) xs))
    \<and> (robin_hood (empty_value c) (eh es) xs \<and> carry_ok (empty_value c) (eh es) xs (unat b) (unat d)
        \<and> unat d = dist (2 ^ k) (eh es ins) (unat b) \<and> unat d + g < 2 ^ k
        \<longrightarrow> robin_hood (empty_value c) (eh es) ys)"
  using assms
proof (induction g arbitrary: xs ins b d)
  case 0
  let ?e = "empty_value c"
  note ok = index_okD [OF "0.prems"(1)]
  have b: "unat b < length xs" using 0 ok by simp
  have x: "xs ! unat b = ?e" using gap_0 [OF b "0.prems"(3)] by simp
  have "rehash_loop c es (mask k) xs ins b d = Some (xs[unat b := ins])"
    by (subst rehash_loop.simps) (simp add: b x)
  with b x 0 ok show ?case
    by (auto simp: mset_used_place intro!: robin_hood_store)
next
  case (Suc g)
  let ?e = "empty_value c" and ?H = "eh es"
  let ?ix = "xs ! unat b" and ?b' = "next_bucket (mask k) b"
  let ?ed = "distance_from_ideal (mask k) (entry_hash (es ! ?ix)) b"
  note ok = index_okD [OF Suc.prems(1)]
  have b: "unat b < length xs" using Suc.prems ok by simp
  have x: "?ix \<noteq> ?e" using gap_0 [OF b Suc.prems(3)] by simp
  have ix: "?ix < length es" using ok(5) [OF b x] .
  have nb: "unat ?b' = nxt (length xs) (unat b)" using ok by (simp add: unat_next_bucket)
  have gap': "gap ?e xs (unat ?b') g" using gap_next [OF b Suc.prems(3) x] nb by auto
  have b': "unat ?b' < 2 ^ k" using ok by (simp add: unat_next_less)
  have ed: "unat ?ed = probe_dist ?H xs (unat b)"
    using ok by (simp add: probe_dist_def eh_def unat_distance_from_ideal)
  have ed_less: "unat ?ed < 2 ^ k" using ok by (simp add: unat_distance_from_ideal)
  show ?case
  proof (cases "?ed < d")
    case True
    let ?ys = "xs[unat b := ins]"
    have eq: "rehash_loop c es (mask k) xs ins b d
        = rehash_loop c es (mask k) ?ys ?ix ?b' (?ed + 1)"
      by (subst rehash_loop.simps) (simp add: b x ix True Let_def)
    have "\<exists>zs. rehash_loop c es (mask k) ?ys ?ix ?b' (?ed + 1) = Some zs \<and> length zs = length ?ys
      \<and> mset (used ?e zs) = add_mset ?ix (mset (used ?e ?ys))
      \<and> (robin_hood ?e ?H ?ys \<and> carry_ok ?e ?H ?ys (unat ?b') (unat (?ed + 1))
          \<and> unat (?ed + 1) = dist (2 ^ k) (?H ?ix) (unat ?b') \<and> unat (?ed + 1) + g < 2 ^ k
          \<longrightarrow> robin_hood ?e ?H zs)"
      using Suc.prems ix x b gap' b'
      by (intro Suc.IH) (simp_all add: index_ok_update gap_update)
    then obtain zs where zs: "rehash_loop c es (mask k) ?ys ?ix ?b' (?ed + 1) = Some zs"
      "length zs = length ?ys" "mset (used ?e zs) = add_mset ?ix (mset (used ?e ?ys))"
      and rh: "robin_hood ?e ?H ?ys \<Longrightarrow> carry_ok ?e ?H ?ys (unat ?b') (unat (?ed + 1)) \<Longrightarrow>
        unat (?ed + 1) = dist (2 ^ k) (?H ?ix) (unat ?b') \<Longrightarrow> unat (?ed + 1) + g < 2 ^ k \<Longrightarrow>
        robin_hood ?e ?H zs" by blast
    have "robin_hood ?e ?H zs" if o: "robin_hood ?e ?H xs \<and> carry_ok ?e ?H xs (unat b) (unat d)
        \<and> unat d = dist (2 ^ k) (?H ins) (unat b) \<and> unat d + Suc g < 2 ^ k"
    proof (rule rh)
      have lt: "unat ?ed < unat d" using True by (simp add: word_less_nat_alt)
      with o have s: "unat (?ed + 1) = unat ?ed + 1" using ok
        by (intro unat_Suc_small) auto
      show "robin_hood ?e ?H ?ys"
        using o b ok Suc.prems lt ed by (intro robin_hood_store) auto
      show "carry_ok ?e ?H ?ys (unat ?b') (unat (?ed + 1))"
        unfolding nb s using o b ok Suc.prems lt by (intro carry_ok_swap) auto
      show "unat (?ed + 1) + g < 2 ^ k" using s o lt by simp
      then show "unat (?ed + 1) = dist (2 ^ k) (?H ?ix) (unat ?b')"
        using ok ed by (simp add: s nb probe_dist_def dist_nxt_Suc)
    qed
    with zs eq mset_used_swap [OF b x Suc.prems(5)] show ?thesis by auto
  next
    case False
    have eq: "rehash_loop c es (mask k) xs ins b d
        = rehash_loop c es (mask k) xs ins ?b' (d + 1)"
      by (subst rehash_loop.simps) (simp add: b x ix False Let_def)
    obtain zs where zs: "rehash_loop c es (mask k) xs ins ?b' (d + 1) = Some zs"
      "length zs = length xs" "mset (used ?e zs) = add_mset ins (mset (used ?e xs))"
      and rh: "robin_hood ?e ?H xs \<Longrightarrow> carry_ok ?e ?H xs (unat ?b') (unat (d + 1)) \<Longrightarrow>
        unat (d + 1) = dist (2 ^ k) (?H ins) (unat ?b') \<Longrightarrow> unat (d + 1) + g < 2 ^ k \<Longrightarrow>
        robin_hood ?e ?H zs"
      using Suc.IH [OF Suc.prems(1) b' gap' Suc.prems(4,5), of "d + 1"] by blast
    have "robin_hood ?e ?H zs" if o: "robin_hood ?e ?H xs \<and> carry_ok ?e ?H xs (unat b) (unat d)
        \<and> unat d = dist (2 ^ k) (?H ins) (unat b) \<and> unat d + Suc g < 2 ^ k"
    proof (rule rh)
      have le: "unat d \<le> probe_dist ?H xs (unat b)"
        using False ed by (simp add: word_less_nat_alt)
      from o have s: "unat (d + 1) = unat d + 1" using ok
        by (intro unat_Suc_small) auto
      show "robin_hood ?e ?H xs" using o by blast
      show "carry_ok ?e ?H xs (unat ?b') (unat (d + 1))"
        unfolding nb s using b x le by (intro carry_ok_next) auto
      show "unat (d + 1) + g < 2 ^ k" using s o by simp
      then show "unat (d + 1) = dist (2 ^ k) (?H ins) (unat ?b')"
        using ok o by (simp add: s nb dist_nxt_Suc)
    qed
    with zs eq show ?thesis by auto
  qed
qed

text \<open>The second loop of an insertion is the loop of rehashing, entered one bucket later.\<close>

lemma steal_loop_eq:
  assumes "index_ok k (empty_value c) (length es) xs" and "ins < length es" and "ins \<noteq> empty_value c"
    and "gap (empty_value c) xs (unat (next_bucket (mask k) b)) g"
  shows "steal_loop c es (mask k) xs ins b d
    = rehash_loop c es (mask k) xs ins (next_bucket (mask k) b) (d + 1)"
  using assms
proof (induction g arbitrary: xs ins b d)
  case 0
  let ?b' = "next_bucket (mask k) b"
  note ok = index_okD [OF "0.prems"(1)]
  have b: "unat ?b' < length xs" using ok by (simp add: unat_next_less)
  have x: "xs ! unat ?b' = empty_value c" using gap_0 [OF b "0.prems"(4)] by simp
  show ?case
    by (subst steal_loop.simps, subst rehash_loop.simps) (simp add: b x Let_def)
next
  case (Suc g)
  let ?e = "empty_value c" and ?b' = "next_bucket (mask k) b"
  let ?ix = "xs ! unat ?b'"
  note ok = index_okD [OF Suc.prems(1)]
  have b: "unat ?b' < length xs" using ok by (simp add: unat_next_less)
  have x: "?ix \<noteq> ?e" using gap_0 [OF b Suc.prems(4)] by simp
  have ix: "?ix < length es" using ok(5) [OF b x] .
  have "gap ?e xs (nxt (length xs) (unat ?b')) g" using gap_next [OF b Suc.prems(4) x] by auto
  then have gap': "gap ?e xs (unat (next_bucket (mask k) ?b')) g"
    using ok by (simp add: unat_next_bucket)
  show ?case
    by (subst steal_loop.simps, subst rehash_loop.simps)
       (use Suc.prems in \<open>simp add: b x ix Let_def gap' gap_update index_ok_update Suc.IH\<close>)
qed

definition place_slot ::
  "size_class \<Rightarrow> hash_entry list \<Rightarrow> size_t \<Rightarrow> slot_result \<Rightarrow> nat list option" where
  "place_slot c es m slot =
     (case slot of
        FreeBucket xs \<Rightarrow> Some xs
      | StolenBucket xs ix bucket_index distance \<Rightarrow> steal_loop c es m xs ix bucket_index distance
      | ExistingKey _ \<Rightarrow> None)"

text \<open>
  An insertion either ends at an entry with the key, or leaves the index in the state that
  rehashing the new entry alone would.
\<close>

lemma set_loop_cases:
  assumes "index_ok k (empty_value c) (length es) xs" and "unat b < 2 ^ k"
    and "gap (empty_value c) xs (unat b) g" and "length es \<noteq> empty_value c"
  shows "\<exists>slot. set_loop c es (mask k) key kh (length es) xs b d = Some slot
    \<and> (case slot of ExistingKey i \<Rightarrow> i < length es \<and> matches es kh key i
          \<and> (\<exists>b'. find_loop c es (mask k) key kh xs b d = Some (Some (b', i)))
       | _ \<Rightarrow> place_slot c (es @ [entry]) (mask k) slot
            = rehash_loop c (es @ [entry]) (mask k) xs (length es) b d
          \<and> find_loop c es (mask k) key kh xs b d = Some None)"
  using assms
proof (induction g arbitrary: b d)
  case 0
  let ?e = "empty_value c"
  note ok = index_okD [OF "0.prems"(1)]
  have b: "unat b < length xs" using 0 ok by simp
  have x: "xs ! unat b = ?e" using gap_0 [OF b "0.prems"(3)] by simp
  show ?case
    by (subst set_loop.simps, subst rehash_loop.simps, subst find_loop.simps)
       (simp add: b x place_slot_def)
next
  case (Suc g)
  let ?e = "empty_value c" and ?ix = "xs ! unat b" and ?b' = "next_bucket (mask k) b"
  let ?ed = "distance_from_ideal (mask k) (entry_hash (es ! ?ix)) b"
  note ok = index_okD [OF Suc.prems(1)]
  have b: "unat b < length xs" using Suc.prems ok by simp
  have x: "?ix \<noteq> ?e" using gap_0 [OF b Suc.prems(3)] by simp
  have ix: "?ix < length es" using ok(5) [OF b x] .
  have "gap ?e xs (nxt (length xs) (unat b)) g" using gap_next [OF b Suc.prems(3) x] by auto
  then have gap': "gap ?e xs (unat ?b') g" using ok by (simp add: unat_next_bucket)
  have b': "unat ?b' < 2 ^ k" using ok by (simp add: unat_next_less)
  have nth: "(es @ [entry]) ! ?ix = es ! ?ix" using ix by (simp add: nth_append)
  consider "?ed < d" | "\<not> ?ed < d" "matches es kh key ?ix" | "\<not> ?ed < d" "\<not> matches es kh key ?ix"
    by blast
  then show ?case
  proof cases
    case 1
    have okc: "index_ok k ?e (length (es @ [entry])) (xs[unat b := length es])"
      using index_ok_mono [OF Suc.prems(1), of "Suc (length es)"] by (simp add: index_ok_update)
    have gapc: "gap ?e (xs[unat b := length es]) (unat ?b') g"
      using gap' b x Suc.prems(4) by (simp add: gap_update)
    have st: "steal_loop c (es @ [entry]) (mask k) (xs[unat b := length es]) ?ix b ?ed
        = rehash_loop c (es @ [entry]) (mask k) (xs[unat b := length es]) ?ix ?b' (?ed + 1)"
      using okc gapc ix x by (intro steal_loop_eq) auto
    have re: "rehash_loop c (es @ [entry]) (mask k) xs (length es) b d
        = rehash_loop c (es @ [entry]) (mask k) (xs[unat b := length es]) ?ix ?b' (?ed + 1)"
      by (subst rehash_loop.simps) (use 1 b x ix nth in \<open>simp add: Let_def\<close>)
    have "set_loop c es (mask k) key kh (length es) xs b d
        = Some (StolenBucket (xs[unat b := length es]) ?ix b ?ed)"
      by (subst set_loop.simps) (simp add: b x ix 1 Let_def)
    moreover have "find_loop c es (mask k) key kh xs b d = Some None"
      by (subst find_loop.simps) (simp add: b x ix 1 Let_def)
    ultimately show ?thesis using st re by (simp add: place_slot_def)
  next
    case 2
    then show ?thesis
      by (subst set_loop.simps, subst find_loop.simps)
         (simp add: b x ix Let_def matches_def)
  next
    case 3
    have eqs: "set_loop c es (mask k) key kh (length es) xs b d
        = set_loop c es (mask k) key kh (length es) xs ?b' (d + 1)"
      by (subst set_loop.simps) (use 3 b x ix in \<open>auto simp: Let_def matches_def\<close>)
    have eqf: "find_loop c es (mask k) key kh xs b d
        = find_loop c es (mask k) key kh xs ?b' (d + 1)"
      by (subst find_loop.simps) (use 3 b x ix in \<open>auto simp: Let_def matches_def\<close>)
    have eqr: "rehash_loop c (es @ [entry]) (mask k) xs (length es) b d
        = rehash_loop c (es @ [entry]) (mask k) xs (length es) ?b' (d + 1)"
      by (subst rehash_loop.simps) (use 3 b x ix nth in \<open>simp add: Let_def\<close>)
    show ?thesis
      unfolding eqs eqf eqr by (rule Suc.IH [OF Suc.prems(1) b' gap' Suc.prems(4)])
  qed
qed

subsection \<open>Search\<close>

text \<open>Every search ends, and what it finds is a used bucket with a matching entry.\<close>

lemma find_loop_safe:
  assumes "index_ok k (empty_value c) (length es) xs" and "unat b < 2 ^ k"
    and "gap (empty_value c) xs (unat b) g"
  shows "\<exists>r. find_loop c es (mask k) key kh xs b d = Some r
    \<and> (case r of None \<Rightarrow> True | Some (b', i) \<Rightarrow> unat b' < 2 ^ k \<and> xs ! unat b' = i
         \<and> i \<noteq> empty_value c \<and> i < length es \<and> matches es kh key i)"
  using assms
proof (induction g arbitrary: b d)
  case 0
  then have "unat b < length xs" using index_okD(1) [OF "0.prems"(1)] by simp
  with gap_0 [OF this "0.prems"(3)] show ?case
    by (subst find_loop.simps) simp
next
  case (Suc g)
  let ?ix = "xs ! unat b" and ?b' = "next_bucket (mask k) b"
  note ok = index_okD [OF Suc.prems(1)]
  have b: "unat b < length xs" using Suc.prems ok by simp
  have x: "?ix \<noteq> empty_value c" using gap_0 [OF b Suc.prems(3)] by simp
  have ix: "?ix < length es" using ok(5) [OF b x] .
  have "gap (empty_value c) xs (nxt (length xs) (unat b)) g"
    using gap_next [OF b Suc.prems(3) x] by auto
  then have gap': "gap (empty_value c) xs (unat ?b') g" using ok by (simp add: unat_next_bucket)
  have b': "unat ?b' < 2 ^ k" using ok by (simp add: unat_next_less)
  show ?case
    using Suc.IH [OF Suc.prems(1) b' gap', of "d + 1"]
    by (subst find_loop.simps) (use Suc.prems(2) in \<open>simp add: b x ix Let_def matches_def\<close>)
qed

text \<open>With the probing order, a search finds every entry whose key has the hash it searches for.\<close>

lemma find_loop_complete:
  assumes ok: "index_ok k (empty_value c) (length es) xs"
    and rh: "robin_hood (empty_value c) (eh es) xs"
    and t: "t < 2 ^ k" "xs ! t \<noteq> empty_value c" and hash: "matches es kh key (xs ! t)"
    and uniq: "\<And>i. i \<in> set (used (empty_value c) xs) \<Longrightarrow> matches es kh key i \<Longrightarrow> i = xs ! t"
    and j: "unat d \<le> probe_dist (eh es) xs t"
    and b: "unat b = (unat kh + unat d) mod 2 ^ k"
  shows "\<exists>b'. find_loop c es (mask k) key kh xs b d = Some (Some (b', xs ! t))"
  using j b
proof (induction "probe_dist (eh es) xs t - unat d" arbitrary: b d)
  case 0
  note ok' = index_okD [OF ok]
  have kh: "eh es (xs ! t) = unat kh" using hash by (simp add: eh_def matches_def)
  have "unat d = probe_dist (eh es) xs t" using 0 by simp
  with 0 kh ok' t have bt: "unat b = t" by (simp add: probe_dist_def home_plus_dist)
  have "unat (distance_from_ideal (mask k) (entry_hash (es ! (xs ! t))) b) = unat d"
    using 0 ok' bt by (simp add: unat_distance_from_ideal probe_dist_def eh_def)
  then have "\<not> distance_from_ideal (mask k) (entry_hash (es ! (xs ! t))) b < d"
    by (simp add: word_less_nat_alt)
  with bt t ok' hash show ?case
    by (subst find_loop.simps) (simp add: Let_def matches_def)
next
  case (Suc r)
  note ok' = index_okD [OF ok]
  let ?b' = "next_bucket (mask k) b"
  have kh: "eh es (xs ! t) = unat kh" using hash by (simp add: eh_def matches_def)
  have tl: "t < length xs" using t ok' by simp
  have bl: "unat b < length xs" using Suc.prems ok' by simp
  have run: "xs ! unat b \<noteq> empty_value c" "unat d \<le> probe_dist (eh es) xs (unat b)"
    using robin_hood_run [OF rh tl t(2) Suc.prems(1)] Suc.prems(2) kh ok' by simp_all
  have ix: "xs ! unat b < length es" using ok'(5) [OF bl run(1)] .
  have not_less: "\<not> distance_from_ideal (mask k) (entry_hash (es ! (xs ! unat b))) b < d"
    using run(2) ok' by (simp add: distance_less_iff probe_dist_def eh_def)
  show ?case
  proof (cases "matches es kh key (xs ! unat b)")
    case True
    moreover have "xs ! unat b \<in> set (used (empty_value c) xs)" using run bl by (simp add: used_def)
    ultimately have "xs ! unat b = xs ! t" using uniq by blast
    with True bl run ix not_less show ?thesis
      by (subst find_loop.simps) (simp add: Let_def matches_def)
  next
    case False
    have "unat d + 1 \<le> probe_dist (eh es) xs t" using Suc.hyps(2) by simp
    moreover have "probe_dist (eh es) xs t < 2 ^ k" using ok' by (simp add: probe_dist_def)
    ultimately have s: "unat (d + 1) = unat d + 1" using ok' by (intro unat_Suc_small) auto
    have "unat ?b' = (unat kh + unat (d + 1)) mod 2 ^ k"
      using ok' Suc.prems(2) by (simp add: unat_next_bucket nxt_add s)
    moreover have "r = probe_dist (eh es) xs t - unat (d + 1)"
      "unat (d + 1) \<le> probe_dist (eh es) xs t" using Suc.hyps(2) s by simp_all
    ultimately have "\<exists>b'. find_loop c es (mask k) key kh xs ?b' (d + 1) = Some (Some (b', xs ! t))"
      by (intro Suc.hyps(1))
    with False bl run ix not_less show ?thesis
      by (subst find_loop.simps) (auto simp: Let_def matches_def)
  qed
qed

end
