(* ===== verification/TableInvariant.thy ===== *)
theory TableInvariant
  imports TableLoops
begin

text \<open>
  The invariants of the hash table. \<open>wf_table\<close> is what memory safety and termination need:
  the index is a power of two of cells of the right width and its used cells are exactly the
  positions of the live entries. \<open>ordered_table\<close> adds the probing order and the uniqueness
  of keys, on which the results of a search rest. The lemmas show how rehashing, compaction
  and growth rebuild them and how insertion and removal keep them.
\<close>

subsection \<open>Keys and live entries\<close>

definition same_key :: "val \<Rightarrow> val \<Rightarrow> bool" where
  "same_key a b \<longleftrightarrow> make_hash a = make_hash b \<and> key_equal a b"

interpretation table_keys: key_space make_hash key_equal
  by unfold_locales (fact val_keys.keq_refl, fact val_keys.keq_sym, fact val_keys.keq_trans)

lemma same_key_equivp: "equivp same_key"
proof -
  have "same_key = table_keys.found_eq"
    by (simp add: fun_eq_iff same_key_def table_keys.found_eq_def)
  then show ?thesis using table_keys.found_eq_equivp by simp
qed

lemma same_key_refl [simp]: "same_key a a"
  using same_key_equivp by (rule equivp_reflp)

lemma same_key_sym: "same_key a b \<Longrightarrow> same_key b a"
  using same_key_equivp by (rule equivp_symp)

lemma same_key_trans: "same_key a b \<Longrightarrow> same_key b c \<Longrightarrow> same_key a c"
  using same_key_equivp by (rule equivp_transp)

definition live :: "hash_entry list \<Rightarrow> hash_entry list" where
  "live es = filter (\<lambda>entry. \<not> is_deleted entry) es"

definition live_positions :: "hash_entry list \<Rightarrow> nat list" where
  "live_positions es = filter (\<lambda>i. \<not> is_deleted (es ! i)) [0..<length es]"

lemma filter_positions: "filter P xs = map (nth xs) (filter (\<lambda>i. P (xs ! i)) [0..<length xs])"
proof -
  have "filter P xs = filter P (map (nth xs) [0..<length xs])" by (simp add: map_nth)
  also have "\<dots> = map (nth xs) (filter (\<lambda>i. P (xs ! i)) [0..<length xs])"
    by (simp only: filter_map comp_def)
  finally show ?thesis .
qed

lemma live_eq: "live es = map (nth es) (live_positions es)"
  unfolding live_def live_positions_def by (rule filter_positions)

lemma length_live_positions: "length (live_positions es) = length (live es)"
  by (simp add: live_eq)

lemma length_live_le: "length (live es) \<le> length es"
  by (simp add: live_def)

lemma set_live_positions [simp]:
  "set (live_positions es) = {i. i < length es \<and> \<not> is_deleted (es ! i)}"
  by (auto simp: live_positions_def)

lemma distinct_live_positions [simp]: "distinct (live_positions es)"
  by (simp add: live_positions_def)

lemma live_Nil [simp]: "live [] = []" and live_positions_Nil [simp]: "live_positions [] = []"
  by (simp_all add: live_def live_positions_def)

lemma live_append [simp]: "live (xs @ ys) = live xs @ live ys"
  by (simp add: live_def)

lemma live_live [simp]: "live (live es) = live es"
  by (simp add: live_def)

lemma live_positions_snoc:
  "live_positions (es @ [x]) = live_positions es @ (if is_deleted x then [] else [length es])"
proof -
  have "filter (\<lambda>i. \<not> is_deleted ((es @ [x]) ! i)) [0..<length es]
      = filter (\<lambda>i. \<not> is_deleted (es ! i)) [0..<length es]"
    by (rule filter_cong) (auto simp: nth_append)
  then show ?thesis by (simp add: live_positions_def nth_append)
qed

lemma live_positions_all: "live es = es \<Longrightarrow> live_positions es = [0..<length es]"
  by (auto simp: live_def live_positions_def filter_id_conv)

lemma live_positions_update:
  "i < length es \<Longrightarrow> is_deleted y = is_deleted (es ! i) \<Longrightarrow>
   live_positions (es[i := y]) = live_positions es"
  by (auto simp: live_positions_def nth_list_update intro!: filter_cong)

lemma live_positions_delete:
  assumes "i < length es" and "is_deleted y"
  shows "live_positions (es[i := y]) = remove1 i (live_positions es)"
  using assms
  by (auto simp: distinct_remove1_removeAll removeAll_filter_not_eq live_positions_def
      nth_list_update intro!: filter_cong)

lemma live_nth_split:
  "i < length es \<Longrightarrow> \<not> is_deleted (es ! i) \<Longrightarrow>
   live es = live (take i es) @ es ! i # live (drop (Suc i) es)"
  by (simp add: live_def filter_nth_split [of i es])

lemma live_update_split:
  "i < length es \<Longrightarrow>
   live (es[i := y]) = live (take i es) @ (if is_deleted y then [] else [y]) @ live (drop (Suc i) es)"
  by (simp add: live_def filter_update_split)

lemma live_eq_iff: "live es = es \<longleftrightarrow> length (live es) = length es"
  by (metis live_def filter_id_conv length_filter_less less_irrefl)

subsection \<open>Size classes and capacities\<close>

lemma size_class_for_bound: "unat n \<le> empty_value (size_class_for n)"
  using unsigned_less [of n, where 'a = nat] by (auto simp: size_class_for_def empty_value_def)

lemma empty_value_less: "empty_value c < 2 ^ index_bits c"
  by (simp add: empty_value_def)

lemma cast_index_id: "i \<le> empty_value c \<Longrightarrow> cast_index c i = i"
  using empty_value_less [of c] by (simp add: cast_index_def)

lemma pow2_split: "2 \<le> k \<Longrightarrow> (2::nat) ^ k = 4 * 2 ^ (k - 2)"
  by (auto simp: le_iff_add power_add)

lemma three_quarters_less: "2 \<le> k \<Longrightarrow> (2::nat) ^ k - 2 ^ k div 4 < 2 ^ k"
  by (simp add: pow2_split [of k])

lemma unat_table_capacity:
  "2 \<le> k \<Longrightarrow> k < 64 \<Longrightarrow> n = 2 ^ k \<Longrightarrow>
   unat (table_capacity_for_index_capacity n) = 2 ^ k - 2 ^ k div 4"
  unfolding table_capacity_for_index_capacity_def
  by (subst unat_sub)
     (simp_all add: word_le_nat_alt unat_div unat_2p_word)

subsection \<open>The invariants\<close>

definition wf_parts :: "nat \<Rightarrow> hash_table \<Rightarrow> index_buffer \<Rightarrow> storage \<Rightarrow> bool" where
  "wf_parts k t buffer s \<longleftrightarrow>
     3 \<le> k \<and> k < 64 \<and> table_mask t = mask k \<and> length (cells buffer) = 2 ^ k
     \<and> unat (slot_capacity s) = 2 ^ k - 2 ^ k div 4
     \<and> cell_class buffer = size_class_for (slot_capacity s)
     \<and> length (slots s) \<le> unat (slot_capacity s)
     \<and> unat (table_size t) = length (live (slots s))
     \<and> mset (used (empty_value (cell_class buffer)) (cells buffer)) = mset (live_positions (slots s))
     \<and> (\<forall>entry \<in> set (live (slots s)). entry_hash entry = make_hash (entry_key entry))"

definition wf_table :: "hash_table \<Rightarrow> bool" where
  "wf_table t \<longleftrightarrow>
     (case index_slot t of
        None \<Rightarrow> entries_slot t = None \<and> table_size t = 0
      | Some buffer \<Rightarrow>
          (case entries_slot t of None \<Rightarrow> False
           | Some s \<Rightarrow> \<exists>k \<in> {3..<64}. wf_parts k t buffer s))"

definition distinct_keys :: "(val \<times> val) list \<Rightarrow> bool" where
  "distinct_keys kvs \<longleftrightarrow> sorted_wrt (\<lambda>a b. \<not> same_key (fst a) (fst b)) kvs"

definition entry_pair :: "hash_entry \<Rightarrow> val \<times> val" where
  "entry_pair entry = (entry_key entry, entry_value entry)"

text \<open>The abstract value of a table: its pairs in insertion order.\<close>

definition table_pairs :: "hash_table \<Rightarrow> (val \<times> val) list" where
  "table_pairs t = (case entries_slot t of None \<Rightarrow> [] | Some s \<Rightarrow> map entry_pair (live (slots s)))"

definition probe_order :: "hash_table \<Rightarrow> bool" where
  "probe_order t \<longleftrightarrow>
     (case (index_slot t, entries_slot t) of
        (Some buffer, Some s) \<Rightarrow>
          robin_hood (empty_value (cell_class buffer)) (eh (slots s)) (cells buffer)
      | _ \<Rightarrow> True)"

definition ordered_table :: "hash_table \<Rightarrow> bool" where
  "ordered_table t \<longleftrightarrow> wf_table t \<and> probe_order t \<and> distinct_keys (table_pairs t)"

lemma wf_partsD:
  assumes "wf_parts k t buffer s"
  shows "3 \<le> k" "k < 64" "0 < k" "table_mask t = mask k" "length (cells buffer) = 2 ^ k"
    "unat (slot_capacity s) = 2 ^ k - 2 ^ k div 4"
    "cell_class buffer = size_class_for (slot_capacity s)"
    "length (slots s) \<le> unat (slot_capacity s)"
    "unat (table_size t) = length (live (slots s))"
    "mset (used (empty_value (cell_class buffer)) (cells buffer)) = mset (live_positions (slots s))"
    "\<And>entry. entry \<in> set (live (slots s)) \<Longrightarrow> entry_hash entry = make_hash (entry_key entry)"
  using assms by (auto simp: wf_parts_def)

lemma wf_tableE:
  assumes "wf_table t"
  obtains (null) "index_slot t = None" "entries_slot t = None" "table_size t = 0"
  | (parts) k buffer s where "index_slot t = Some buffer" "entries_slot t = Some s"
      "wf_parts k t buffer s"
  using assms by (auto simp: wf_table_def split: option.splits)

lemma wf_tableI:
  "index_slot t = Some buffer \<Longrightarrow> entries_slot t = Some s \<Longrightarrow> wf_parts k t buffer s \<Longrightarrow> wf_table t"
  by (auto simp: wf_table_def wf_parts_def)

lemma wf_parts_capacity:
  assumes "wf_parts k t buffer s"
  shows "unat (slot_capacity s) < 2 ^ k" "0 < unat (slot_capacity s)"
    and "unat (slot_capacity s) \<le> empty_value (cell_class buffer)"
proof -
  note wf = wf_partsD [OF assms]
  have "(2::nat) ^ k = 4 * 2 ^ (k - 2)" using wf(1) by (intro pow2_split) simp
  then show "unat (slot_capacity s) < 2 ^ k" "0 < unat (slot_capacity s)"
    using wf(6) by auto
  show "unat (slot_capacity s) \<le> empty_value (cell_class buffer)"
    using wf(7) size_class_for_bound by simp
qed

lemma wf_parts_used:
  assumes "wf_parts k t buffer s"
  shows "set (used (empty_value (cell_class buffer)) (cells buffer))
      = {i. i < length (slots s) \<and> \<not> is_deleted (slots s ! i)}"
    and "distinct (used (empty_value (cell_class buffer)) (cells buffer))"
    and "length (used (empty_value (cell_class buffer)) (cells buffer)) = length (live (slots s))"
proof -
  note m = wf_partsD(10) [OF assms]
  show "set (used (empty_value (cell_class buffer)) (cells buffer))
      = {i. i < length (slots s) \<and> \<not> is_deleted (slots s ! i)}"
    using mset_eq_setD [OF m] by simp
  show "distinct (used (empty_value (cell_class buffer)) (cells buffer))"
    using mset_eq_imp_distinct_iff [OF m] by simp
  show "length (used (empty_value (cell_class buffer)) (cells buffer)) = length (live (slots s))"
    using mset_eq_length [OF m] by (simp add: length_live_positions)
qed

lemma wf_parts_index_ok:
  "wf_parts k t buffer s \<Longrightarrow>
   index_ok k (empty_value (cell_class buffer)) (length (slots s)) (cells buffer)"
  using wf_parts_used(1) [of k t buffer s] by (auto simp: index_ok_def wf_parts_def)

lemma wf_parts_gap:
  assumes "wf_parts k t buffer s" and "b < 2 ^ k"
  shows "\<exists>g < 2 ^ k. gap (empty_value (cell_class buffer)) (cells buffer) b g"
proof -
  note wf = wf_partsD [OF assms(1)]
  have "length (used (empty_value (cell_class buffer)) (cells buffer)) < length (cells buffer)"
    using wf_parts_used(3) [OF assms(1)] wf_parts_capacity(1) [OF assms(1)] wf(5,8)
      length_live_le [of "slots s"] by simp
  then obtain i where "i < length (cells buffer)"
    "cells buffer ! i = empty_value (cell_class buffer)"
    using used_length_less by blast
  from gap_exists [OF this] assms(2) wf(5) show ?thesis by auto
qed

lemma table_size_zero:
  "wf_table t \<Longrightarrow> table_empty t \<longleftrightarrow> table_pairs t = []"
  by (erule wf_tableE)
     (auto simp: table_empty_def table_pairs_def wf_parts_def unat_eq_0 [symmetric])

end
