(* ===== verification/TableOps.thy ===== *)
theory TableOps
  imports TableInvariant
begin

text \<open>
  The operations of the hash table preserve its invariants and act on its pairs as the
  operations of an insertion-ordered association list do. One group of lemmas per operation
  of src/vm/objects/hash_table.cpp, from rehashing up to removal.
\<close>

subsection \<open>Rehashing\<close>

lemma rehash_home:
  assumes ok: "index_ok k (empty_value c) (length es) xs" and ins: "ins < length es" "ins \<noteq> empty_value c"
    and room: "length (used (empty_value c) xs) < 2 ^ k"
  shows "\<exists>ys. rehash_loop c es (mask k) xs ins (bucket_for_hash (mask k) (entry_hash (es ! ins))) 0 = Some ys
    \<and> length ys = length xs
    \<and> mset (used (empty_value c) ys) = add_mset ins (mset (used (empty_value c) xs))
    \<and> (robin_hood (empty_value c) (eh es) xs \<longrightarrow> robin_hood (empty_value c) (eh es) ys)"
proof -
  let ?b = "bucket_for_hash (mask k) (entry_hash (es ! ins))"
  note ok' = index_okD [OF ok]
  have b: "unat ?b = eh es ins mod 2 ^ k" by (simp add: unat_bucket_for_hash eh_def)
  then have bl: "unat ?b < 2 ^ k" by simp
  obtain i where "i < length xs" "xs ! i = empty_value c"
    using used_length_less room ok' by metis
  then obtain g where g: "g < 2 ^ k" "gap (empty_value c) xs (unat ?b) g"
    using gap_exists [of i xs "empty_value c" "unat ?b"] bl ok' by auto
  have "dist (2 ^ k) (eh es ins) (unat ?b) = 0" by (simp add: b)
  with rehash_loop_correct [OF ok bl g(2) ins, of 0] g(1) show ?thesis by auto
qed

lemma rehash_entries_correct:
  assumes "index_ok k (empty_value c) (length es) xs"
    and "length (used (empty_value c) xs) + length is < 2 ^ k"
    and "\<forall>i \<in> set is. i < length es" and "length es \<le> empty_value c"
    and "robin_hood (empty_value c) (eh es) xs"
  shows "\<exists>ys. rehash_entries c es (mask k) xs is = Some ys \<and> length ys = length xs
    \<and> mset (used (empty_value c) ys) = mset (used (empty_value c) xs) + mset is
    \<and> robin_hood (empty_value c) (eh es) ys"
  using assms
proof (induction "is" arbitrary: xs)
  case Nil
  then show ?case by simp
next
  case (Cons i rest)
  let ?e = "empty_value c"
  have cast: "cast_index c i = i" using Cons.prems by (intro cast_index_id) auto
  obtain ys where ys: "rehash_loop c es (mask k) xs (cast_index c i)
      (bucket_for_hash (mask k) (entry_hash (es ! i))) 0 = Some ys"
    "length ys = length xs" "mset (used ?e ys) = add_mset i (mset (used ?e xs))"
    "robin_hood ?e (eh es) ys"
    using rehash_home [OF Cons.prems(1), of i] Cons.prems cast by auto
  have "size (mset (used ?e ys)) = size (mset (used ?e xs)) + 1" using ys(3) by simp
  then have "length (used ?e ys) = length (used ?e xs) + 1" by simp
  moreover have "set (used ?e ys) = insert i (set (used ?e xs))"
    using ys(3) by (metis set_mset_add_mset_insert set_mset_mset)
  ultimately obtain zs where "rehash_entries c es (mask k) ys rest = Some zs" "length zs = length ys"
    "mset (used ?e zs) = mset (used ?e ys) + mset rest" "robin_hood ?e (eh es) zs"
    using Cons.IH [of ys] Cons.prems ys by (auto simp: index_ok_def)
  with ys show ?case by auto
qed

lemma used_replicate [simp]: "used e (replicate n e) = []"
  by (simp add: used_def)

text \<open>Rebuilding the index of a table whose entries are packed.\<close>

lemma rehash_index_correct:
  assumes t: "entries_slot t = Some s" "index_slot t = Some buffer"
    and packed: "live (slots s) = slots s"
    and cells: "cells buffer = replicate (2 ^ k) (empty_value (cell_class buffer))"
    and k: "3 \<le> k" "k < 64" and m: "table_mask t = mask k"
    and cap: "unat (slot_capacity s) = 2 ^ k - 2 ^ k div 4"
    and cls: "cell_class buffer = size_class_for (slot_capacity s)"
    and len: "length (slots s) \<le> unat (slot_capacity s)"
    and sz: "unat (table_size t) = length (slots s)"
    and hashes: "\<forall>entry \<in> set (slots s). entry_hash entry = make_hash (entry_key entry)"
  shows "\<exists>t'. rehash_index (cell_class buffer) t = Some t' \<and> wf_table t' \<and> probe_order t'
    \<and> entries_slot t' = Some s \<and> table_pairs t' = table_pairs t"
proof -
  let ?c = "cell_class buffer"
  let ?e = "empty_value ?c"
  have le: "length (slots s) \<le> ?e" using len cls size_class_for_bound [of "slot_capacity s"] by simp
  have lt: "length (slots s) < 2 ^ k"
    using len cap three_quarters_less [of k] k by linarith
  have ok: "index_ok k ?e (length (slots s)) (cells buffer)"
    using k cells by (simp add: index_ok_def)
  have rh: "robin_hood ?e (eh (slots s)) (cells buffer)"
    using cells by (intro robin_hood_empty) simp
  obtain ys where ys: "rehash_entries ?c (slots s) (mask k) (cells buffer) [0..<length (slots s)] = Some ys"
    "length ys = length (cells buffer)" "mset (used ?e ys) = mset [0..<length (slots s)]"
    "robin_hood ?e (eh (slots s)) ys"
    using rehash_entries_correct [OF ok, of "[0..<length (slots s)]"] lt le rh cells by auto
  let ?t = "t\<lparr>index_slot := Some (buffer\<lparr>cells := ys\<rparr>)\<rparr>"
  have "wf_parts k ?t (buffer\<lparr>cells := ys\<rparr>) s"
    using ys k m cap cls len sz hashes packed live_positions_all [OF packed] cells
    by (simp add: wf_parts_def)
  then have "wf_table ?t" using t by (intro wf_tableI) auto
  moreover have "rehash_index ?c t = Some ?t"
    using t ys m by (simp add: rehash_index_def index_values_def)
  ultimately show ?thesis using t ys by (simp add: probe_order_def table_pairs_def)
qed

subsection \<open>Compaction\<close>

lemma compact_loop_correct:
  assumes "w \<le> r" and "r \<le> length es" and "\<forall>entry \<in> set (take w es). \<not> is_deleted entry"
    and "compact_loop es w [r..<length es] = (es', w')"
  shows "length es' = length es \<and> w' \<le> length es
    \<and> take w' es' = take w es @ live (drop r es)"
  using assms
proof (induction "length es - r" arbitrary: es w r)
  case 0
  then show ?case by (auto simp: take_Cons)
next
  case (Suc n)
  then have r: "r < length es" by simp
  then have drop: "drop r es = es ! r # drop (Suc r) es" by (simp add: Cons_nth_drop_Suc)
  have upt: "[r..<length es] = r # [Suc r..<length es]" using r by (rule upt_conv_Cons)
  show ?case
  proof (cases "is_deleted (es ! r)")
    case True
    with Suc.hyps(1) [of es "Suc r" w] Suc.hyps(2) Suc.prems upt drop show ?thesis
      by (simp add: live_def)
  next
    case False
    let ?es = "es[w := es ! r]"
    have w: "w < length es" using Suc.prems(1) r by simp
    have "take (Suc w) ?es = take w es @ [es ! r]"
      using w by (simp add: take_Suc_conv_app_nth)
    moreover have "drop (Suc r) ?es = drop (Suc r) es" using Suc.prems(1) by simp
    moreover have "compact_loop ?es (Suc w) [Suc r..<length ?es] = (es', w')"
      using Suc.prems(4) upt False by simp
    ultimately show ?thesis
      using Suc.hyps(1) [of ?es "Suc r" "Suc w"] Suc.hyps(2) Suc.prems r False drop
      by (auto simp: live_def)
  qed
qed

lemma find_deleted_entry_Some:
  assumes "length (live es) \<noteq> length es"
  shows "\<exists>h. find_deleted_entry es = Some h \<and> h < length es \<and> is_deleted (es ! h)
    \<and> (\<forall>i < h. \<not> is_deleted (es ! i))"
proof (cases "find_deleted_entry es")
  case None
  then have "\<forall>entry \<in> set es. \<not> is_deleted entry"
    by (auto simp: find_deleted_entry_def find_None_iff in_set_conv_nth)
  then have "live es = es" by (simp add: live_def)
  with assms show ?thesis by simp
next
  case (Some h)
  then show ?thesis by (auto simp: find_deleted_entry_def find_Some_iff)
qed

text \<open>The compaction of the entries array leaves its live entries in order.\<close>

lemma compact_entries:
  assumes h: "h < length es" "is_deleted (es ! h)" "\<forall>i < h. \<not> is_deleted (es ! i)"
    and c: "compact_loop es h [h + 1..<length es] = (es', w)"
  shows "length es' = length es \<and> w \<le> length es \<and> take w es' = live es"
proof -
  have front: "\<forall>entry \<in> set (take h es). \<not> is_deleted entry"
    using h by (auto simp: in_set_conv_nth)
  then have "live es = take h es @ live (drop (h + 1) es)"
    using h by (subst id_take_nth_drop [of h es]) (auto simp: live_def)
  with compact_loop_correct [OF _ _ front c] h(1) show ?thesis by simp
qed

lemma storage_size_eq:
  "wf_parts k t buffer s \<Longrightarrow> unat (storage_size s) = length (slots s)"
  using wf_partsD(8) [of k t buffer s] unsigned_less [of "slot_capacity s", where 'a = nat]
  by (simp add: storage_size_def unat_of_nat)

lemma compact_correct:
  assumes wf: "wf_parts k t buffer s" and t: "index_slot t = Some buffer" "entries_slot t = Some s"
  shows "\<exists>t' s'. compact (cell_class buffer) t = Some t' \<and> wf_table t' \<and> entries_slot t' = Some s'
    \<and> slots s' = live (slots s) \<and> slot_capacity s' = slot_capacity s
    \<and> table_pairs t' = table_pairs t \<and> table_size t' = table_size t
    \<and> (if length (live (slots s)) = length (slots s) then t' = t else probe_order t')"
proof -
  note d = wf_partsD [OF wf]
  have packed: "storage_size s = table_size t \<longleftrightarrow> length (live (slots s)) = length (slots s)"
    using d(9) storage_size_eq [OF wf] by (auto simp: word_unat_eq_iff)
  show ?thesis
  proof (cases "length (live (slots s)) = length (slots s)")
    case True
    then have "compact (cell_class buffer) t = Some t"
      using t packed by (simp add: compact_def)
    with True t wf_tableI [OF t wf] show ?thesis by (simp add: live_eq_iff [symmetric])
  next
    case False
    let ?c = "cell_class buffer" and ?es = "slots s"
    obtain h where h: "find_deleted_entry ?es = Some h" "h < length ?es" "is_deleted (?es ! h)"
      "\<forall>i < h. \<not> is_deleted (?es ! i)"
      using find_deleted_entry_Some [OF False] by blast
    obtain es' w where c: "compact_loop ?es h [h + 1..<length ?es] = (es', w)" by fastforce
    note e = compact_entries [OF h(2-4) c]
    define s' where "s' = s\<lparr>slots := live ?es\<rparr>"
    define t1 where "t1 = t\<lparr>entries_slot := Some s',
      index_slot := Some (buffer\<lparr>cells := replicate (2 ^ k) (empty_value ?c)\<rparr>)\<rparr>"
    have rm: "storage_remove_last (s\<lparr>slots := es'\<rparr>) (length ?es - w) = Some s'"
      using e by (simp add: storage_remove_last_def s'_def)
    have run: "compact ?c t = rehash_index ?c t1"
      using t False packed h(1) c rm d(5)
      by (simp add: compact_def index_values_def t1_def split_def)
    obtain t' where t': "rehash_index ?c t1 = Some t'" "wf_table t'" "probe_order t'"
      "entries_slot t' = Some s'" "table_pairs t' = table_pairs t1"
      using rehash_index_correct [of t1 s' "buffer\<lparr>cells := replicate (2 ^ k) (empty_value ?c)\<rparr>" k]
        d length_live_le [of ?es] by (auto simp: t1_def s'_def)
    have "table_size t' = table_size t1"
      using t'(1) by (auto simp: rehash_index_def)
    with t' run t False show ?thesis by (simp add: t1_def s'_def table_pairs_def)
  qed
qed

subsection \<open>Growth\<close>

lemma append_live_correct:
  "length (slots s) + length (live es) \<le> unat (slot_capacity s) \<Longrightarrow>
   append_live s es = Some (s\<lparr>slots := slots s @ live es\<rparr>)"
proof (induction es arbitrary: s)
  case Nil
  then show ?case by simp
next
  case (Cons entry es)
  then show ?case by (auto simp: live_def storage_append_def)
qed

lemma storage_make_cases:
  "storage_make cap = Some (Inl ArraySizeTooLarge) \<and> 2 ^ 59 \<le> unat cap
   \<or> storage_make cap = Some (Inr \<lparr>slots = [], slot_capacity = cap\<rparr>) \<and> 24 * unat cap < 2 ^ 64"
proof (cases "2 ^ 59 \<le> unat cap")
  case True
  then show ?thesis
    by (auto simp: storage_make_def safe_array_size_def Let_def)
next
  case False
  then have "24 * unat cap + 24 < 2 ^ 64" by simp
  moreover from this have "unat (24 * cap) = 24 * unat cap" by (simp add: unat_word_ariths)
  ultimately show ?thesis
    by (simp add: storage_make_def safe_array_size_def checked_add_unsigned_def Let_def)
qed

lemma index_buffer_make_correct:
  assumes "unat n \<le> 2 ^ 60"
  shows "index_buffer_make c n init
    = Some (Inr \<lparr>cell_class = c, cells = replicate (unat n) init\<rparr>)"
proof -
  have bits: "index_bits c div 8 \<in> {1, 2, 4, 8}" by (cases c) auto
  then have le: "unat n * (index_bits c div 8) \<le> 2 ^ 63" using assms by auto
  have "unat (n * word_of_nat (index_bits c div 8)) = unat n * (index_bits c div 8)"
    using le bits by (auto simp: unat_word_ariths)
  with le show ?thesis
    by (simp add: index_buffer_make_def safe_array_size_def checked_add_unsigned_def Let_def)
qed

lemma table_size_packed:
  "wf_parts k t buffer s \<Longrightarrow> entries_slot t = Some s \<Longrightarrow>
   table_size t = occupied_entries t \<longleftrightarrow> live (slots s) = slots s"
  using wf_partsD(9) [of k t buffer s] storage_size_eq [of k t buffer s]
  by (simp add: occupied_entries_def word_unat_eq_iff live_eq_iff)

lemma recreate_index_correct:
  assumes t: "entries_slot t = Some s" and packed: "live (slots s) = slots s"
    and k: "3 \<le> k" "k \<le> 60" and n: "n = 2 ^ k"
    and cap: "slot_capacity s = table_capacity_for_index_capacity n"
    and len: "length (slots s) \<le> unat (slot_capacity s)"
    and sz: "unat (table_size t) = length (slots s)"
    and hashes: "\<forall>entry \<in> set (slots s). entry_hash entry = make_hash (entry_key entry)"
  shows "\<exists>t'. recreate_index (size_class_for (slot_capacity s)) t n = Some (Inr t') \<and> wf_table t'
    \<and> probe_order t' \<and> entries_slot t' = Some s \<and> table_pairs t' = table_pairs t"
proof -
  let ?c = "size_class_for (slot_capacity s)"
  let ?buffer = "\<lparr>cell_class = ?c, cells = replicate (2 ^ k) (empty_value ?c)\<rparr>"
  have un: "unat n = 2 ^ k" using n k by (simp add: unat_2p_word)
  have "(2::nat) ^ k \<le> 2 ^ 60" using k by (intro power_increasing) auto
  then have make: "index_buffer_make ?c n (empty_value ?c) = Some (Inr ?buffer)"
    using un by (simp only: index_buffer_make_correct)
  have "\<exists>t'. rehash_index (cell_class ?buffer) (t\<lparr>index_slot := Some ?buffer, table_mask := n - 1\<rparr>) = Some t'
    \<and> wf_table t' \<and> probe_order t' \<and> entries_slot t' = Some s
    \<and> table_pairs t' = table_pairs (t\<lparr>index_slot := Some ?buffer, table_mask := n - 1\<rparr>)"
    using k t packed len sz hashes unat_table_capacity [of k n] cap n
    by (intro rehash_index_correct [where k = k]) (simp_all add: mask_eq_2p_minus_1)
  then show ?thesis
    using make by (auto simp: recreate_index_def bind_fallible_def table_pairs_def)
qed

lemma grow_to_capacity_correct:
  assumes wf: "wf_table t" and k: "3 \<le> k" "k < 64" and n: "n = 2 ^ k"
    and room: "length (table_pairs t) \<le> 2 ^ k - 2 ^ k div 4"
  shows "\<exists>r. grow_to_capacity t (table_capacity_for_index_capacity n) n = Some r
    \<and> (case r of Inl err \<Rightarrow> err = ArraySizeTooLarge \<and> 60 \<le> k
       | Inr t' \<Rightarrow> wf_table t' \<and> probe_order t' \<and> table_pairs t' = table_pairs t
           \<and> (\<exists>s. entries_slot t' = Some s \<and> length (slots s) = length (table_pairs t)
                \<and> unat (slot_capacity s) = 2 ^ k - 2 ^ k div 4))"
proof -
  let ?cap = "table_capacity_for_index_capacity n"
  define old where "old = (case entries_slot t of None \<Rightarrow> [] | Some s \<Rightarrow> slots s)"
  define new where "new = \<lparr>slots = live old, slot_capacity = ?cap\<rparr>"
  have cap: "unat ?cap = 2 ^ k - 2 ^ k div 4" using k n by (intro unat_table_capacity) auto
  have pairs: "table_pairs t = map entry_pair (live old)"
    by (simp add: table_pairs_def old_def split: option.split)
  then have fits: "length (live old) \<le> unat ?cap" using room cap by simp
  have sz: "unat (table_size t) = length (live old)"
    and hashes: "\<forall>entry \<in> set (live old). entry_hash entry = make_hash (entry_key entry)"
    using wf by (auto elim!: wf_tableE simp: old_def wf_parts_def)
  have fill: "(if table_size t = occupied_entries t
      then if 0 < table_size t
           then do { old \<leftarrow> entries_slot t;
             storage_append_all \<lparr>slots = [], slot_capacity = ?cap\<rparr> (slots old) }
           else Some \<lparr>slots = [], slot_capacity = ?cap\<rparr>
      else do { old \<leftarrow> entries_slot t;
             append_live \<lparr>slots = [], slot_capacity = ?cap\<rparr> (slots old) }) = Some new"
    using wf
  proof (cases rule: wf_tableE)
    case null
    then show ?thesis by (simp add: occupied_entries_def new_def old_def)
  next
    case (parts j buffer s)
    have "live old = []" if "\<not> 0 < table_size t"
      using that sz by (simp add: word_less_nat_alt)
    with parts table_size_packed [OF parts(3,2)] fits show ?thesis
      by (auto simp: old_def new_def storage_append_all_def append_live_correct)
  qed
  consider "storage_make ?cap = Some (Inl ArraySizeTooLarge)" "2 ^ 59 \<le> unat ?cap"
    | "storage_make ?cap = Some (Inr \<lparr>slots = [], slot_capacity = ?cap\<rparr>)" "24 * unat ?cap < 2 ^ 64"
    using storage_make_cases by blast
  then show ?thesis
  proof cases
    case 1
    have "(2::nat) ^ 59 < 2 ^ k" using 1(2) cap three_quarters_less [of k] k by linarith
    then have "59 < k" by (rule power_less_imp_less_exp [rotated]) simp
    then show ?thesis using 1(1) by (simp add: grow_to_capacity_def bind_fallible_def)
  next
    case 2
    have split: "(2::nat) ^ k = 4 * 2 ^ (k - 2)" using k by (intro pow2_split) simp
    then have "unat ?cap = 3 * 2 ^ (k - 2)" using cap by simp
    with 2(2) split have "(2::nat) ^ k < 2 ^ 61" by simp
    then have "k < 61" by (rule power_less_imp_less_exp [rotated]) simp
    then have k60: "k \<le> 60" by simp
    have "\<exists>t'. recreate_index (size_class_for (slot_capacity new)) (t\<lparr>entries_slot := Some new\<rparr>) n = Some (Inr t')
      \<and> wf_table t' \<and> probe_order t' \<and> entries_slot t' = Some new
      \<and> table_pairs t' = table_pairs (t\<lparr>entries_slot := Some new\<rparr>)"
      using k60 k n fits sz hashes
      by (intro recreate_index_correct [where k = k]) (simp_all add: new_def)
    then show ?thesis
      using 2(1) fill cap pairs
      by (auto simp: grow_to_capacity_def bind_fallible_def table_pairs_def new_def)
  qed
qed

lemma index_size_class_eq:
  "wf_parts k t buffer s \<Longrightarrow> entries_slot t = Some s \<Longrightarrow> index_size_class t = cell_class buffer"
  by (simp add: index_size_class_def entry_capacity_def wf_parts_def)

lemma index_capacity_eq:
  "wf_parts k t buffer s \<Longrightarrow> index_slot t = Some buffer \<Longrightarrow> entries_slot t = Some s \<Longrightarrow>
   index_capacity t = Some (2 ^ k)"
  using wf_partsD(5) [of k t buffer s]
  by (simp add: index_capacity_def index_size_class_eq index_values_def)

lemma grow_index_capacity_pow2:
  assumes "k < 64"
  shows "grow_index_capacity (2 ^ k) = (if k = 63 then None else Some (2 ^ (k + 1)))"
proof (cases "k = 63")
  case True
  then show ?thesis by (simp add: grow_index_capacity_def max_pow2_eq)
next
  case False
  then have "(2::nat) ^ k < 2 ^ 63" using assms by (intro power_strict_increasing) auto
  then have "(2 :: size_t) ^ k < 2 ^ 63"
    using assms False by (simp add: word_less_nat_alt unat_2p_word)
  then have "\<not> (max_pow2 :: size_t) \<le> 2 ^ k" by (simp add: max_pow2_eq)
  with False show ?thesis by (simp add: grow_index_capacity_def push_bit_eq_mult)
qed

lemma grow_correct:
  assumes wf: "wf_parts k t buffer s" and t: "index_slot t = Some buffer" "entries_slot t = Some s"
  shows "\<exists>r. grow t = Some r
    \<and> (case r of Inl _ \<Rightarrow> 59 \<le> k
       | Inr t' \<Rightarrow> wf_table t' \<and> probe_order t' \<and> table_pairs t' = table_pairs t
           \<and> (\<exists>s'. entries_slot t' = Some s' \<and> length (slots s') < unat (slot_capacity s')
                \<and> unat (slot_capacity s') = 2 * unat (slot_capacity s)))"
proof (cases "k = 63")
  case True
  have "grow_index_capacity (2 ^ k) = None"
    using grow_index_capacity_pow2 [OF wf_partsD(2) [OF wf]] True by simp
  with wf t True show ?thesis by (simp only: grow_def index_capacity_eq) simp
next
  case False
  let ?n = "2 ^ (k + 1) :: size_t"
  note d = wf_partsD [OF wf]
  have len: "length (table_pairs t) \<le> 2 ^ k - 2 ^ k div 4"
    using t d(6,8) length_live_le [of "slots s"] by (simp add: table_pairs_def)
  have split: "(2::nat) ^ k = 4 * 2 ^ (k - 2)" using d(1) by (intro pow2_split) simp
  then have "(2::nat) ^ k - 2 ^ k div 4 = 3 * 2 ^ (k - 2)"
    "(2::nat) ^ (k + 1) - 2 ^ (k + 1) div 4 = 6 * 2 ^ (k - 2)" by simp_all
  moreover have "(0::nat) < 2 ^ (k - 2)" by simp
  ultimately have bigger: "length (table_pairs t) < 2 ^ (k + 1) - 2 ^ (k + 1) div 4"
    using len by linarith
  have run: "grow t = grow_to_capacity t (table_capacity_for_index_capacity ?n) ?n"
    using wf t d(2) False by (simp add: grow_def index_capacity_eq grow_index_capacity_pow2)
  obtain r where r: "grow_to_capacity t (table_capacity_for_index_capacity ?n) ?n = Some r"
    "case r of Inl err \<Rightarrow> err = ArraySizeTooLarge \<and> 60 \<le> k + 1
       | Inr t' \<Rightarrow> wf_table t' \<and> probe_order t' \<and> table_pairs t' = table_pairs t
           \<and> (\<exists>s. entries_slot t' = Some s \<and> length (slots s) = length (table_pairs t)
                \<and> unat (slot_capacity s) = 2 ^ (k + 1) - 2 ^ (k + 1) div 4)"
    using grow_to_capacity_correct [OF wf_tableI [OF t wf], of "k + 1" ?n] bigger d(1,2) False
    by auto
  moreover have "2 ^ (k + 1) - 2 ^ (k + 1) div 4 = 2 * unat (slot_capacity s)"
    using d(6) split by simp
  ultimately show ?thesis using run bigger by (cases r) auto
qed

lemma entry_capacity_bound:
  assumes "wf_parts k t buffer s" and "entries_slot t = Some s" and "59 \<le> k"
  shows "2 ^ 58 \<le> unat (entry_capacity t)"
proof -
  note d = wf_partsD [OF assms(1)]
  have "(2::nat) ^ k = 4 * 2 ^ (k - 2)" using d(1) by (intro pow2_split) simp
  moreover have "(2::nat) ^ 57 \<le> 2 ^ (k - 2)" using assms(3) by (intro power_increasing) auto
  ultimately show ?thesis using d(6) assms(2) by (simp add: entry_capacity_def)
qed

text \<open>
  A full table whose live entries leave no room is grown; a full table that is not grown has
  holes, which compaction turns into free slots.
\<close>

lemma ensure_free_capacity_correct:
  assumes wf: "wf_table t"
  shows "\<exists>r. ensure_free_capacity t = Some r
    \<and> (case r of Inl _ \<Rightarrow> 2 ^ 58 \<le> unat (entry_capacity t)
       | Inr t' \<Rightarrow> wf_table t' \<and> (probe_order t \<longrightarrow> probe_order t') \<and> table_pairs t' = table_pairs t
           \<and> (\<exists>s'. entries_slot t' = Some s' \<and> length (slots s') < unat (slot_capacity s')))"
  using wf
proof (cases rule: wf_tableE)
  case null
  let ?s = "\<lparr>slots = [], slot_capacity = initial_table_capacity\<rparr>"
  let ?buffer = "\<lparr>cell_class = U8, cells = replicate 8 (empty_value U8)\<rparr>"
  let ?t = "t\<lparr>entries_slot := Some ?s, index_slot := Some ?buffer, table_size := 0,
    table_mask := initial_index_capacity - 1\<rparr>"
  have "storage_make initial_table_capacity = Some (Inr ?s)"
    by (simp add: storage_make_def safe_array_size_def checked_add_unsigned_def
        initial_table_capacity_def)
  moreover have "index_buffer_make U8 initial_index_capacity (empty_value U8) = Some (Inr ?buffer)"
    by (subst index_buffer_make_correct) (simp_all add: initial_index_capacity_def)
  ultimately have "ensure_free_capacity t = Some (Inr ?t)"
    using null by (simp add: ensure_free_capacity_def init_first_def bind_fallible_def)
  moreover have "wf_parts 3 ?t ?buffer ?s"
    by (simp add: wf_parts_def initial_index_capacity_def initial_table_capacity_def
        mask_eq_exp_minus_1 size_class_for_def empty_value_def)
  then have "wf_table ?t" by (intro wf_tableI) auto
  moreover have "probe_order ?t" by (simp add: probe_order_def robin_hood_empty)
  ultimately show ?thesis
    using null by (auto simp: table_pairs_def initial_table_capacity_def)
next
  case (parts k buffer s)
  note d = wf_partsD [OF parts(3)]
  have full: "storage_full s \<longleftrightarrow> length (slots s) = unat (slot_capacity s)"
    using storage_size_eq [OF parts(3)] by (simp add: storage_full_def word_unat_eq_iff)
  show ?thesis
  proof (cases "length (slots s) = unat (slot_capacity s)")
    case False
    then show ?thesis
      using wf parts full d(8) by (auto simp: ensure_free_capacity_def)
  next
    case isfull: True
    show ?thesis
    proof (cases "entry_capacity t div 4 \<le> table_size t div 3")
      case True
      then have "ensure_free_capacity t = grow t"
        using parts full isfull by (simp add: ensure_free_capacity_def)
      moreover obtain r where "grow t = Some r" and
        "case r of Inl _ \<Rightarrow> 59 \<le> k
         | Inr t' \<Rightarrow> wf_table t' \<and> probe_order t' \<and> table_pairs t' = table_pairs t
           \<and> (\<exists>s'. entries_slot t' = Some s' \<and> length (slots s') < unat (slot_capacity s')
                \<and> unat (slot_capacity s') = 2 * unat (slot_capacity s))"
        using grow_correct [OF parts(3,1,2)] by blast
      ultimately show ?thesis
        using entry_capacity_bound [OF parts(3,2)] by (cases r) auto
    next
      case False
      then have "length (live (slots s)) div 3 < length (slots s) div 4"
        using d(9) isfull parts(2)
        by (simp add: word_le_nat_alt unat_div entry_capacity_def)
      then have holes: "length (live (slots s)) < length (slots s)" by linarith
      obtain t' s' where "compact (cell_class buffer) t = Some t'" "wf_table t'"
        "entries_slot t' = Some s'" "slots s' = live (slots s)" "slot_capacity s' = slot_capacity s"
        "table_pairs t' = table_pairs t" "probe_order t'"
        using compact_correct [OF parts(3,1,2)] holes by auto
      then show ?thesis
        using parts full isfull False holes
        by (simp add: ensure_free_capacity_def index_size_class_eq)
    qed
  qed
qed

end
