(* ===== verification/TableSpec.thy ===== *)
theory TableSpec
  imports TableOps
begin

text \<open>
  What the hash table promises: the operations of an association list in insertion order,
  keyed by \<open>same_key\<close>. The lemmas refine search, insertion, removal and iteration of
  src/vm/objects/hash_table.cpp to it, and an interface of finite maps is interpreted on the
  table's own operations.
\<close>

subsection \<open>The specification\<close>

definition pairs_find :: "(val \<times> val) list \<Rightarrow> val \<Rightarrow> (val \<times> val) option" where
  "pairs_find kvs key = find (\<lambda>kv. same_key (fst kv) key) kvs"

definition pairs_set :: "(val \<times> val) list \<Rightarrow> val \<Rightarrow> val \<Rightarrow> (val \<times> val) list" where
  "pairs_set kvs key v =
     (if pairs_find kvs key = None then kvs @ [(key, v)]
      else map (\<lambda>kv. if same_key (fst kv) key then (fst kv, v) else kv) kvs)"

definition pairs_remove :: "(val \<times> val) list \<Rightarrow> val \<Rightarrow> (val \<times> val) list" where
  "pairs_remove kvs key = filter (\<lambda>kv. \<not> same_key (fst kv) key) kvs"

lemma same_key_commute: "same_key a b = same_key b a"
  using same_key_sym by blast

lemma same_key_cong: "same_key a b \<Longrightarrow> same_key a c = same_key b c"
  using same_key_sym same_key_trans by blast

lemma pairs_find_cong: "same_key a b \<Longrightarrow> pairs_find kvs a = pairs_find kvs b"
  unfolding pairs_find_def using same_key_cong same_key_commute
  by (intro find_cong) auto

lemma pairs_find_None:
  "pairs_find kvs key = None \<longleftrightarrow> (\<forall>kv \<in> set kvs. \<not> same_key (fst kv) key)"
  by (auto simp: pairs_find_def find_None_iff)

lemma distinct_keys_nth:
  assumes "distinct_keys kvs" and "i < length kvs" and "j < length kvs"
    and "same_key (fst (kvs ! i)) key" and "same_key (fst (kvs ! j)) key"
  shows "i = j"
proof (rule ccontr)
  assume "i \<noteq> j"
  have s: "same_key (fst (kvs ! i)) (fst (kvs ! j))" "same_key (fst (kvs ! j)) (fst (kvs ! i))"
    using assms(4,5) same_key_sym same_key_trans by blast+
  from \<open>i \<noteq> j\<close> consider "i < j" | "j < i" by linarith
  then show False
    using assms(1-3) s by cases (auto simp: distinct_keys_def sorted_wrt_iff_nth_less)
qed

lemma pairs_find_nth:
  assumes "distinct_keys kvs" and "i < length kvs" and "same_key (fst (kvs ! i)) key"
  shows "pairs_find kvs key = Some (kvs ! i)"
proof -
  have "j < i \<Longrightarrow> \<not> same_key (fst (kvs ! j)) key" for j
    using distinct_keys_nth [OF assms(1,2), of j key] assms(2,3) by auto
  then show ?thesis
    using assms(2,3) by (auto simp: pairs_find_def find_Some_iff intro!: exI [of _ i])
qed

lemma pairs_set_nth:
  assumes "distinct_keys kvs" and "i < length kvs" and "same_key (fst (kvs ! i)) key"
  shows "pairs_set kvs key v = kvs[i := (fst (kvs ! i), v)]"
proof -
  have "pairs_find kvs key \<noteq> None" using pairs_find_nth [OF assms] by simp
  moreover have "map (\<lambda>kv. if same_key (fst kv) key then (fst kv, v) else kv) kvs
      = kvs[i := (fst (kvs ! i), v)]"
    using distinct_keys_nth [OF assms(1,2)] assms(2,3)
    by (intro nth_equalityI) (auto simp: nth_list_update)
  ultimately show ?thesis by (simp only: pairs_set_def if_False)
qed

lemma pairs_remove_nth:
  assumes "distinct_keys kvs" and "kvs = xs @ kv # ys" and "same_key (fst kv) key"
  shows "pairs_remove kvs key = xs @ ys"
proof -
  have "\<not> same_key (fst x) (fst kv) \<and> \<not> same_key (fst kv) (fst y)"
    if "x \<in> set xs" and "y \<in> set ys" for x y
    using that assms(1,2) by (simp add: distinct_keys_def sorted_wrt_append)
  moreover have "\<not> same_key (fst x) (fst kv)" if "x \<in> set xs" for x
    using that assms(1,2) by (simp add: distinct_keys_def sorted_wrt_append)
  moreover have "\<not> same_key (fst kv) (fst y)" if "y \<in> set ys" for y
    using that assms(1,2) by (simp add: distinct_keys_def sorted_wrt_append)
  ultimately have "\<forall>x \<in> set xs. \<not> same_key (fst x) key" "\<forall>y \<in> set ys. \<not> same_key (fst y) key"
    using same_key_cong [OF assms(3)] same_key_sym same_key_commute by metis+
  then have "filter (\<lambda>kv. \<not> same_key (fst kv) key) xs = xs"
    "filter (\<lambda>kv. \<not> same_key (fst kv) key) ys = ys" by (simp_all add: filter_id_conv)
  with assms(2,3) show ?thesis by (simp add: pairs_remove_def)
qed

lemma pairs_remove_absent:
  "\<forall>kv \<in> set kvs. \<not> same_key (fst kv) key \<Longrightarrow> pairs_remove kvs key = kvs"
  by (simp add: pairs_remove_def filter_id_conv)

lemma distinct_keys_remove: "distinct_keys kvs \<Longrightarrow> distinct_keys (pairs_remove kvs key)"
  by (simp add: distinct_keys_def pairs_remove_def sorted_wrt_filter)

lemma distinct_keys_update_value:
  "distinct_keys kvs \<Longrightarrow> i < length kvs \<Longrightarrow> distinct_keys (kvs[i := (fst (kvs ! i), v)])"
  by (auto simp: distinct_keys_def sorted_wrt_iff_nth_less nth_list_update)

lemma distinct_keys_snoc:
  "distinct_keys kvs \<Longrightarrow> pairs_find kvs key = None \<Longrightarrow> distinct_keys (kvs @ [(key, v)])"
  by (auto simp: distinct_keys_def sorted_wrt_append pairs_find_None)

lemma distinct_keys_set: "distinct_keys kvs \<Longrightarrow> distinct_keys (pairs_set kvs key v)"
proof (cases "pairs_find kvs key = None")
  case True
  then show "distinct_keys kvs \<Longrightarrow> ?thesis"
    by (simp add: pairs_set_def distinct_keys_snoc)
next
  case False
  then obtain i where "i < length kvs" "same_key (fst (kvs ! i)) key"
    by (auto simp: in_set_conv_nth pairs_find_None)
  then show "distinct_keys kvs \<Longrightarrow> ?thesis"
    by (simp add: pairs_set_nth distinct_keys_update_value)
qed

lemma pairs_find_append:
  "pairs_find (xs @ ys) key = (case pairs_find xs key of None \<Rightarrow> pairs_find ys key | Some kv \<Rightarrow> Some kv)"
  by (induction xs) (auto simp: pairs_find_def)

lemma pairs_find_map:
  "(\<And>kv. fst (f kv) = fst kv) \<Longrightarrow> pairs_find (map f kvs) key = map_option f (pairs_find kvs key)"
  by (induction kvs) (auto simp: pairs_find_def)

lemma pairs_find_Some: "pairs_find kvs key = Some kv \<Longrightarrow> kv \<in> set kvs \<and> same_key (fst kv) key"
  by (auto simp: pairs_find_def find_Some_iff)

lemma pairs_find_set:
  "pairs_find (pairs_set kvs key v) key' =
     (if same_key key key'
      then (case pairs_find kvs key of None \<Rightarrow> Some (key, v) | Some kv \<Rightarrow> Some (fst kv, v))
      else pairs_find kvs key')"
proof (cases "pairs_find kvs key")
  case None
  then have "pairs_set kvs key v = kvs @ [(key, v)]"
    by (simp add: pairs_set_def)
  then have "pairs_find (pairs_set kvs key v) key' = (case pairs_find kvs key' of
      None \<Rightarrow> if same_key key key' then Some (key, v) else None | Some kv \<Rightarrow> Some kv)"
    by (cases "pairs_find kvs key'") (simp_all add: pairs_find_append pairs_find_def [of "[(key, v)]"])
  with None pairs_find_cong [of key key' kvs] show ?thesis
    by (cases "same_key key key'") (simp_all split: option.split)
next
  case (Some kv)
  let ?f = "\<lambda>kv. if same_key (fst kv) key then (fst kv, v) else kv"
  have set: "pairs_find (pairs_set kvs key v) key' = map_option ?f (pairs_find kvs key')"
    using Some pairs_find_map [of ?f kvs key'] by (simp add: pairs_set_def)
  show ?thesis
  proof (cases "same_key key key'")
    case True
    then show ?thesis
      using set Some pairs_find_cong [OF True, of kvs] pairs_find_Some [OF Some] by simp
  next
    case False
    have "\<not> same_key (fst kv') key" if "pairs_find kvs key' = Some kv'" for kv'
      using pairs_find_Some [OF that] same_key_cong False by blast
    with set False show ?thesis by (cases "pairs_find kvs key'") simp_all
  qed
qed

subsection \<open>Search\<close>

lemma find_impl_eq:
  "wf_parts k t buffer s \<Longrightarrow> index_slot t = Some buffer \<Longrightarrow> entries_slot t = Some s \<Longrightarrow>
   find_impl (cell_class buffer) t key
   = find_loop (cell_class buffer) (slots s) (mask k) key (make_hash key) (cells buffer)
       (bucket_for_hash (mask k) (make_hash key)) 0"
  using wf_partsD(4) [of k t buffer s] by (simp add: find_impl_def index_values_def Let_def)

lemma live_mem: "i < length es \<Longrightarrow> \<not> is_deleted (es ! i) \<Longrightarrow> es ! i \<in> set (live es)"
  by (simp add: live_def)

lemma matches_iff:
  assumes "wf_parts k t buffer s" and "i < length (slots s)" and "\<not> is_deleted (slots s ! i)"
  shows "matches (slots s) (make_hash key) key i \<longleftrightarrow> same_key (entry_key (slots s ! i)) key"
  using wf_partsD(11) [OF assms(1) live_mem [OF assms(2,3)]]
  by (auto simp: matches_def same_key_def)

lemma find_impl_safe:
  assumes wf: "wf_parts k t buffer s" and t: "index_slot t = Some buffer" "entries_slot t = Some s"
  shows "\<exists>r. find_impl (cell_class buffer) t key = Some r
    \<and> (case r of None \<Rightarrow> True
       | Some (b, i) \<Rightarrow> unat b < 2 ^ k \<and> cells buffer ! unat b = i
           \<and> i < length (slots s) \<and> \<not> is_deleted (slots s ! i)
           \<and> same_key (entry_key (slots s ! i)) key)"
proof -
  let ?e = "empty_value (cell_class buffer)"
  let ?b = "bucket_for_hash (mask k) (make_hash key)"
  have b: "unat ?b < 2 ^ k" by (simp add: unat_bucket_for_hash)
  obtain g where g: "gap ?e (cells buffer) (unat ?b) g" using wf_parts_gap [OF wf b] by blast
  obtain r where r: "find_impl (cell_class buffer) t key = Some r"
    "case r of None \<Rightarrow> True | Some (b', i) \<Rightarrow> unat b' < 2 ^ k \<and> cells buffer ! unat b' = i
       \<and> i \<noteq> ?e \<and> i < length (slots s) \<and> matches (slots s) (make_hash key) key i"
    unfolding find_impl_eq [OF wf t]
    using find_loop_safe [OF wf_parts_index_ok [OF wf] b g, of key "make_hash key" 0] by blast
  have "\<not> is_deleted (slots s ! (cells buffer ! j))"
    if "j < 2 ^ k" "cells buffer ! j \<noteq> ?e" for j
  proof -
    have "cells buffer ! j \<in> set (used ?e (cells buffer))"
      using that wf_partsD(5) [OF wf] by (simp add: used_def)
    then show ?thesis using wf_parts_used(1) [OF wf] by simp
  qed
  with r(2) matches_iff [OF wf]
  have "case r of None \<Rightarrow> True | Some (b, i) \<Rightarrow> unat b < 2 ^ k \<and> cells buffer ! unat b = i
      \<and> i < length (slots s) \<and> \<not> is_deleted (slots s ! i)
      \<and> same_key (entry_key (slots s ! i)) key"
    by (cases r) auto
  with r(1) show ?thesis by blast
qed

lemma live_position_index:
  assumes "i < length es" and "\<not> is_deleted (es ! i)"
  shows "\<exists>a < length (live_positions es). live_positions es ! a = i"
proof -
  have "i \<in> set (live_positions es)" using assms by simp
  then show ?thesis by (auto simp: in_set_conv_nth simp del: set_live_positions)
qed

lemma find_impl_complete:
  assumes wf: "wf_parts k t buffer s" and t: "index_slot t = Some buffer" "entries_slot t = Some s"
    and order: "probe_order t" and uniq: "distinct_keys (table_pairs t)"
    and i: "i < length (slots s)" "\<not> is_deleted (slots s ! i)" "same_key (entry_key (slots s ! i)) key"
  shows "\<exists>b. find_impl (cell_class buffer) t key = Some (Some (b, i))"
proof -
  let ?e = "empty_value (cell_class buffer)" and ?es = "slots s"
  have used: "set (used ?e (cells buffer)) = {i. i < length ?es \<and> \<not> is_deleted (?es ! i)}"
    by (rule wf_parts_used(1) [OF wf])
  have "i \<in> set (used ?e (cells buffer))" using used i by simp
  then obtain j where j: "j < 2 ^ k" "cells buffer ! j = i" "i \<noteq> ?e"
    using wf_partsD(5) [OF wf] by (auto simp: used_def in_set_conv_nth)
  have rh: "robin_hood ?e (eh ?es) (cells buffer)" using order t by (simp add: probe_order_def)
  have one: "i' = i" if "i' \<in> set (used ?e (cells buffer))" "matches ?es (make_hash key) key i'" for i'
  proof -
    have i': "i' < length ?es" "\<not> is_deleted (?es ! i')" using that used by auto
    then have s': "same_key (entry_key (?es ! i')) key" using that matches_iff [OF wf] by blast
    obtain a b where ab: "a < length (live_positions ?es)" "live_positions ?es ! a = i'"
      "b < length (live_positions ?es)" "live_positions ?es ! b = i"
      using live_position_index [OF i(1,2)] live_position_index [OF i'] by blast
    have "table_pairs t = map (\<lambda>i. entry_pair (?es ! i)) (live_positions ?es)"
      using t by (simp add: table_pairs_def live_eq)
    with ab i s' have "a = b"
      by (intro distinct_keys_nth [OF uniq, where key = key]) (auto simp: entry_pair_def)
    with ab show ?thesis by simp
  qed
  have m: "matches ?es (make_hash key) key i" using matches_iff [OF wf i(1,2)] i(3) by simp
  have "\<exists>b'. find_loop (cell_class buffer) ?es (mask k) key (make_hash key) (cells buffer)
      (bucket_for_hash (mask k) (make_hash key)) 0 = Some (Some (b', cells buffer ! j))"
    using wf_parts_index_ok [OF wf] rh j m one
    by (intro find_loop_complete) (auto simp: unat_bucket_for_hash)
  with j find_impl_eq [OF wf t] show ?thesis by simp
qed

lemma find_impl_None:
  assumes "wf_parts k t buffer s" and "index_slot t = Some buffer" "entries_slot t = Some s"
    and "probe_order t" and "distinct_keys (table_pairs t)"
    and "find_impl (cell_class buffer) t key = Some None"
  shows "pairs_find (table_pairs t) key = None"
  using find_impl_complete [OF assms(1-5), where key = key] assms(3,6)
  by (fastforce simp: table_pairs_def entry_pair_def live_eq pairs_find_None)

text \<open>An entry that is found has its pair in the abstract list.\<close>

lemma live_pair_nth:
  assumes "i < length es" and "\<not> is_deleted (es ! i)"
  shows "map entry_pair (live es) = map entry_pair (live (take i es)) @ entry_pair (es ! i)
    # map entry_pair (live (drop (Suc i) es))"
  using live_nth_split [OF assms] by simp

lemma table_find_correct:
  assumes "ordered_table t"
  shows "table_find t key = Some (pairs_find (table_pairs t) key)"
proof (cases "table_empty t")
  case True
  then have "table_pairs t = []" using assms table_size_zero by (simp add: ordered_table_def)
  with True show ?thesis by (simp add: table_find_def pairs_find_def)
next
  case False
  from assms have wf: "wf_table t" and o: "probe_order t" "distinct_keys (table_pairs t)"
    by (auto simp: ordered_table_def)
  from wf show ?thesis
  proof (cases rule: wf_tableE)
    case null
    with False show ?thesis by (simp add: table_empty_def)
  next
    case (parts k buffer s)
    obtain r where r: "find_impl (cell_class buffer) t key = Some r"
      "case r of None \<Rightarrow> True | Some (b, i) \<Rightarrow> unat b < 2 ^ k \<and> cells buffer ! unat b = i
         \<and> i < length (slots s) \<and> \<not> is_deleted (slots s ! i) \<and> same_key (entry_key (slots s ! i)) key"
      using find_impl_safe [OF parts(3,1,2)] by blast
    show ?thesis
    proof (cases r)
      case None
      with r have "pairs_find (table_pairs t) key = None"
        by (intro find_impl_None [OF parts(3,1,2) o]) simp
      with None r(1) False parts show ?thesis
        by (simp add: table_find_def index_size_class_eq)
    next
      case (Some bi)
      then obtain b i where bi: "r = Some (b, i)" by (cases bi) auto
      let ?j = "length (map entry_pair (live (take i (slots s))))"
      have i: "i < length (slots s)" "\<not> is_deleted (slots s ! i)" "same_key (entry_key (slots s ! i)) key"
        using r(2) bi by auto
      have "table_pairs t = map entry_pair (live (take i (slots s))) @ entry_pair (slots s ! i)
          # map entry_pair (live (drop (Suc i) (slots s)))"
        using live_pair_nth [OF i(1,2)] parts(2) by (simp add: table_pairs_def)
      then have "table_pairs t ! ?j = entry_pair (slots s ! i)" "?j < length (table_pairs t)"
        by (simp_all only: nth_append_length) simp_all
      with pairs_find_nth [OF o(2), of ?j key] i(3)
      have "pairs_find (table_pairs t) key = Some (entry_pair (slots s ! i))"
        by (simp add: entry_pair_def)
      with False r bi parts i show ?thesis
        by (simp add: table_find_def index_size_class_eq storage_get_def entry_pair_def)
    qed
  qed
qed

lemma table_get_find: "table_get t key = map_option (map_option snd) (table_find t key)"
  by (cases "find_impl (index_size_class t) t key"; cases "entries_slot t")
     (auto simp: table_get_def table_find_def storage_get_def split: option.splits if_splits)

lemma contains_find:
  "table_find t key = Some r \<Longrightarrow> contains t key = Some (r \<noteq> None)"
  by (auto simp: contains_def table_find_def split: option.splits if_splits)

subsection \<open>Insertion\<close>

lemma eh_append: "i < length es \<Longrightarrow> eh (es @ ys) i = eh es i"
  by (simp add: eh_def nth_append)

lemma make_hash_not_deleted: "make_hash v \<noteq> deleted_value"
  by (simp add: make_hash_def make_hash_raw_def deleted_value_def)

text \<open>Overwriting the value of an entry changes one pair and nothing of the index.\<close>

lemma overwrite_correct:
  assumes wf: "wf_parts k t buffer s" and t: "index_slot t = Some buffer" "entries_slot t = Some s"
    and i: "i < length (slots s)" "\<not> is_deleted (slots s ! i)"
    and kh: "entry_hash (slots s ! i) = kh"
    and t': "t' = t\<lparr>entries_slot := Some (s\<lparr>slots := (slots s)[i :=
      \<lparr>entry_hash = kh, entry_key = entry_key (slots s ! i), entry_value = v\<rparr>]\<rparr>)\<rparr>"
  shows "wf_table t' \<and> (probe_order t \<longrightarrow> probe_order t')
    \<and> (\<exists>j < length (table_pairs t). fst (table_pairs t ! j) = entry_key (slots s ! i)
         \<and> table_pairs t' = (table_pairs t)[j := (fst (table_pairs t ! j), v)])"
proof -
  let ?y = "\<lparr>entry_hash = kh, entry_key = entry_key (slots s ! i), entry_value = v\<rparr>"
  let ?s = "s\<lparr>slots := (slots s)[i := ?y]\<rparr>"
  note d = wf_partsD [OF wf]
  have same: "is_deleted ?y = is_deleted (slots s ! i)" using kh by (simp add: is_deleted_def)
  then have y: "\<not> is_deleted ?y" using i by simp
  have old: "live (slots s) = live (take i (slots s)) @ slots s ! i # live (drop (Suc i) (slots s))"
    by (rule live_nth_split [OF i])
  have new: "live ((slots s)[i := ?y]) = live (take i (slots s)) @ ?y # live (drop (Suc i) (slots s))"
    using live_update_split [OF i(1), of ?y] y by simp
  have "entry_hash ?y = make_hash (entry_key ?y)"
    using d(11) [OF live_mem [OF i]] kh by simp
  then have "\<forall>entry \<in> set (live (slots ?s)). entry_hash entry = make_hash (entry_key entry)"
    using d(11) old new by auto
  then have "wf_parts k t' buffer ?s"
    using d old new live_positions_update [OF i(1) same] by (simp add: wf_parts_def t')
  then have "wf_table t'" using t by (intro wf_tableI) (auto simp: t')
  moreover have "eh (slots ?s) = eh (slots s)"
    using i kh by (auto simp: fun_eq_iff eh_def nth_list_update)
  then have "probe_order t \<longrightarrow> probe_order t'" using t by (simp add: probe_order_def t')
  moreover have "table_pairs t' = (table_pairs t)[length (live (take i (slots s))) :=
      (entry_key (slots s ! i), v)]"
    using t old new by (simp add: table_pairs_def t' entry_pair_def list_update_append map_update)
  moreover have "table_pairs t ! length (live (take i (slots s))) = entry_pair (slots s ! i)"
    using t old by (simp add: table_pairs_def nth_append)
  moreover have "length (live (take i (slots s))) < length (table_pairs t)"
    using t old by (simp add: table_pairs_def)
  ultimately show ?thesis by (auto simp: entry_pair_def)
qed

text \<open>Appending a new entry whose index cell has been placed.\<close>

lemma append_correct:
  assumes wf: "wf_parts k t buffer s" and t: "index_slot t = Some buffer" "entries_slot t = Some s"
    and free: "length (slots s) < unat (slot_capacity s)"
    and en: "entry = \<lparr>entry_hash = make_hash key, entry_key = key, entry_value = v\<rparr>"
    and place: "rehash_loop (cell_class buffer) (slots s @ [entry]) (mask k) (cells buffer)
      (length (slots s)) (bucket_for_hash (mask k) (make_hash key)) 0 = Some xs"
    and t': "t' = t\<lparr>index_slot := Some (buffer\<lparr>cells := xs\<rparr>),
      entries_slot := Some (s\<lparr>slots := slots s @ [entry]\<rparr>), table_size := table_size t + 1\<rparr>"
  shows "wf_table t' \<and> (probe_order t \<longrightarrow> probe_order t')
    \<and> table_pairs t' = table_pairs t @ [(key, v)]"
proof -
  let ?e = "empty_value (cell_class buffer)" and ?es = "slots s @ [entry]"
  note d = wf_partsD [OF wf]
  have alive: "\<not> is_deleted entry" using make_hash_not_deleted by (simp add: en is_deleted_def)
  then have one: "live [entry] = [entry]" by (simp add: live_def)
  have en': "entry_hash entry = make_hash key" "entry_key entry = key" "entry_value entry = v"
    by (simp_all add: en)
  have ok: "index_ok k ?e (length ?es) (cells buffer)"
    using index_ok_mono [OF wf_parts_index_ok [OF wf]] by simp
  have less: "length (slots s) < ?e" using free wf_parts_capacity(3) [OF wf] by simp
  have room: "length (used ?e (cells buffer)) < 2 ^ k"
    using wf_parts_used(3) [OF wf] length_live_le [of "slots s"] free wf_parts_capacity(1) [OF wf]
    by simp
  have "entry_hash (?es ! length (slots s)) = make_hash key" by (simp add: en')
  with rehash_home [OF ok _ _ room, of "length (slots s)"] place less
  have xs: "length xs = length (cells buffer)"
    "mset (used ?e xs) = add_mset (length (slots s)) (mset (used ?e (cells buffer)))"
    "robin_hood ?e (eh ?es) (cells buffer) \<Longrightarrow> robin_hood ?e (eh ?es) xs" by auto
  have "length (live (slots s)) < 2 ^ 64 - 1"
    using length_live_le [of "slots s"] free unsigned_less [of "slot_capacity s", where 'a = nat]
    by simp
  then have "unat (table_size t + 1) = length (live (slots s)) + 1"
    using d(9) by (subst unat_add_one) simp_all
  then have "wf_parts k t' (buffer\<lparr>cells := xs\<rparr>) (s\<lparr>slots := ?es\<rparr>)"
    using d xs alive free live_positions_snoc [of "slots s" entry]
    by (auto simp: wf_parts_def t' one en')
  then have "wf_table t'" using t by (intro wf_tableI) (auto simp: t')
  moreover have "probe_order t'" if "probe_order t"
  proof -
    have "robin_hood ?e (eh (slots s)) (cells buffer)" using that t by (simp add: probe_order_def)
    then have "robin_hood ?e (eh ?es) (cells buffer)"
      using wf_parts_used(1) [OF wf] by (rule_tac robin_hood_cong) (auto simp: eh_append)
    with xs(3) show ?thesis by (simp add: probe_order_def t')
  qed
  ultimately show ?thesis
    using t one by (simp add: table_pairs_def t' en' entry_pair_def)
qed

lemma set_impl_correct:
  assumes wf: "wf_parts k t buffer s" and t: "index_slot t = Some buffer" "entries_slot t = Some s"
    and free: "length (slots s) < unat (slot_capacity s)"
  shows "\<exists>fresh t'. set_impl (cell_class buffer) t key v = Some (fresh, t') \<and> wf_table t'
    \<and> (probe_order t \<longrightarrow> probe_order t')
    \<and> (if fresh
       then find_impl (cell_class buffer) t key = Some None \<and> table_pairs t' = table_pairs t @ [(key, v)]
       else \<exists>j < length (table_pairs t). same_key (fst (table_pairs t ! j)) key
              \<and> table_pairs t' = (table_pairs t)[j := (fst (table_pairs t ! j), v)])"
proof -
  let ?c = "cell_class buffer" and ?kh = "make_hash key"
  let ?e = "empty_value ?c" and ?b = "bucket_for_hash (mask k) ?kh"
  let ?entry = "\<lparr>entry_hash = ?kh, entry_key = key, entry_value = v\<rparr>"
  note d = wf_partsD [OF wf] and fi = find_impl_eq [OF wf t]
  have less: "length (slots s) < ?e" using free wf_parts_capacity(3) [OF wf] by simp
  then have cast: "cast_index ?c (length (slots s)) = length (slots s)" by (simp add: cast_index_id)
  have b: "unat ?b < 2 ^ k" by (simp add: unat_bucket_for_hash)
  obtain g where g: "gap ?e (cells buffer) (unat ?b) g" using wf_parts_gap [OF wf b] by blast
  obtain slot where slot: "set_loop ?c (slots s) (mask k) key ?kh (length (slots s)) (cells buffer) ?b 0
      = Some slot"
    "case slot of ExistingKey i \<Rightarrow> i < length (slots s) \<and> matches (slots s) ?kh key i
          \<and> (\<exists>b'. find_loop ?c (slots s) (mask k) key ?kh (cells buffer) ?b 0 = Some (Some (b', i)))
       | _ \<Rightarrow> place_slot ?c (slots s @ [?entry]) (mask k) slot
            = rehash_loop ?c (slots s @ [?entry]) (mask k) (cells buffer) (length (slots s)) ?b 0
          \<and> find_loop ?c (slots s) (mask k) key ?kh (cells buffer) ?b 0 = Some None"
    using set_loop_cases [OF wf_parts_index_ok [OF wf] b g, of key ?kh 0 ?entry] less by auto
  show ?thesis
  proof (cases "\<exists>i. slot = ExistingKey i")
    case True
    then obtain i where i: "slot = ExistingKey i" by blast
    then obtain b' where f: "find_impl ?c t key = Some (Some (b', i))" using slot(2) fi by auto
    then have live: "i < length (slots s)" "\<not> is_deleted (slots s ! i)"
      "same_key (entry_key (slots s ! i)) key"
      using find_impl_safe [OF wf t, of key] by auto
    let ?t = "t\<lparr>entries_slot := Some (s\<lparr>slots := (slots s)[i :=
      \<lparr>entry_hash = ?kh, entry_key = entry_key (slots s ! i), entry_value = v\<rparr>]\<rparr>)\<rparr>"
    have run: "set_impl ?c t key v = Some (False, ?t)"
      using t slot(1) i live(1) cast d(4)
      by (simp add: set_impl_def index_values_def storage_get_def storage_set_def Let_def)
    have "entry_hash (slots s ! i) = ?kh" using slot(2) i by (simp add: matches_def)
    from overwrite_correct [OF wf t live(1,2) this refl, of v]
    have o: "wf_table ?t" "probe_order t \<longrightarrow> probe_order ?t"
      "\<exists>j < length (table_pairs t). same_key (fst (table_pairs t ! j)) key
         \<and> table_pairs ?t = (table_pairs t)[j := (fst (table_pairs t ! j), v)]"
      using live(3) by (blast, blast, metis)
    show ?thesis
      by (rule exI [of _ False], rule exI [of _ ?t], intro conjI run o) (simp only: if_False o)
  next
    case False
    let ?place = "rehash_loop ?c (slots s @ [?entry]) (mask k) (cells buffer) (length (slots s)) ?b 0"
    have p: "place_slot ?c (slots s @ [?entry]) (mask k) slot = ?place"
      and f: "find_impl ?c t key = Some None"
      using False slot(2) fi by (cases slot; simp)+
    have "index_ok k ?e (length (slots s @ [?entry])) (cells buffer)"
      using index_ok_mono [OF wf_parts_index_ok [OF wf]] by simp
    then obtain xs where xs: "?place = Some xs"
      using rehash_loop_correct [OF _ b g, of "slots s @ [?entry]" "length (slots s)" 0] less by auto
    let ?t = "t\<lparr>index_slot := Some (buffer\<lparr>cells := xs\<rparr>),
      entries_slot := Some (s\<lparr>slots := slots s @ [?entry]\<rparr>), table_size := table_size t + 1\<rparr>"
    have "set_impl ?c t key v = Some (True, ?t)"
      using t slot(1) False cast d(4) p xs free
      by (cases slot) (simp_all add: set_impl_def index_values_def storage_append_def Let_def
          place_slot_def)
    with append_correct [OF wf t free refl xs refl] f show ?thesis by auto
  qed
qed

lemma table_set_correct:
  assumes wf: "wf_table t"
  shows "\<exists>r. table_set t key v = Some r
    \<and> (case r of Inl _ \<Rightarrow> 2 ^ 58 \<le> unat (entry_capacity t)
       | Inr (fresh, t') \<Rightarrow> wf_table t'
           \<and> (ordered_table t \<longrightarrow> ordered_table t' \<and> table_pairs t' = pairs_set (table_pairs t) key v
                \<and> fresh = (pairs_find (table_pairs t) key = None)))"
proof -
  obtain r where r: "ensure_free_capacity t = Some r" and
    c: "case r of Inl _ \<Rightarrow> 2 ^ 58 \<le> unat (entry_capacity t)
       | Inr t1 \<Rightarrow> wf_table t1 \<and> (probe_order t \<longrightarrow> probe_order t1) \<and> table_pairs t1 = table_pairs t
           \<and> (\<exists>s'. entries_slot t1 = Some s' \<and> length (slots s') < unat (slot_capacity s'))"
    using ensure_free_capacity_correct [OF wf] by blast
  show ?thesis
  proof (cases r)
    case (Inl err)
    with r c show ?thesis by (simp add: table_set_def bind_fallible_def)
  next
    case (Inr t1)
    with c obtain s where t1: "wf_table t1" "probe_order t \<Longrightarrow> probe_order t1"
      "table_pairs t1 = table_pairs t" "entries_slot t1 = Some s"
      "length (slots s) < unat (slot_capacity s)" by auto
    from t1(1,4) obtain k buffer where p: "index_slot t1 = Some buffer" "wf_parts k t1 buffer s"
      by (auto elim: wf_tableE)
    obtain fresh t' where s: "set_impl (cell_class buffer) t1 key v = Some (fresh, t')"
      "wf_table t'" "probe_order t1 \<longrightarrow> probe_order t'"
      "if fresh
       then find_impl (cell_class buffer) t1 key = Some None \<and> table_pairs t' = table_pairs t1 @ [(key, v)]
       else \<exists>j < length (table_pairs t1). same_key (fst (table_pairs t1 ! j)) key
              \<and> table_pairs t' = (table_pairs t1)[j := (fst (table_pairs t1 ! j), v)]"
      using set_impl_correct [OF p(2,1) t1(4,5)] by blast
    have run: "table_set t key v = Some (Inr (fresh, t'))"
      using r Inr s(1) index_size_class_eq [OF p(2) t1(4)]
      by (simp add: table_set_def bind_fallible_def)
    have abs: "table_pairs t' = pairs_set (table_pairs t) key v
        \<and> fresh = (pairs_find (table_pairs t) key = None)" if o: "ordered_table t"
    proof (cases fresh)
      case True
      then have "pairs_find (table_pairs t) key = None"
        using find_impl_None [OF p(2,1) t1(4)] t1(2,3) s(4) o by (simp add: ordered_table_def)
      with True s(4) t1(3) show ?thesis by (simp add: pairs_set_def)
    next
      case False
      with s(4) t1(3) o pairs_set_nth [of "table_pairs t"] pairs_find_nth [of "table_pairs t"]
      show ?thesis by (auto simp: ordered_table_def)
    qed
    then have "ordered_table t \<longrightarrow> ordered_table t'"
      using s(2,3) t1(2) distinct_keys_set by (simp add: ordered_table_def)
    with run abs s(2) show ?thesis by simp
  qed
qed

end
