(* ===== verification/TableRemove.thy ===== *)
theory TableRemove
  imports TableSpec
begin

text \<open>
  Removal, clearing and iteration of the hash table. The pairs after a removal are always
  those of the specification and the table stays safe to use; the probing order, and with it
  the answers of later searches, is kept when the run of displaced entries behind the removed
  one has length one. The theory ends with the finite map interface of the table.
\<close>

lemma remove_loop_correct:
  assumes ok: "index_ok k (empty_value c) (length es) ys" and b: "unat b < 2 ^ k"
    and ys: "ys = xs[unat b := empty_value c]" and q: "q = next_bucket (mask k) b"
  shows "remove_loop c es (mask k) b ys q = Some (backshift (empty_value c) (eh es) xs (unat b))"
proof -
  let ?e = "empty_value c"
  note ok' = index_okD [OF ok]
  have len: "length xs = 2 ^ k" using ok' ys by simp
  have nq: "unat q = nxt (length xs) (unat b)" using q ok' len by (simp add: unat_next_bucket)
  have one: "(1::nat) < 2 ^ k" using ok' by simp
  have qb: "unat q \<noteq> unat b" "unat q < 2 ^ k"
    using nxt_neq [OF one b] nq len ok' q by (simp_all add: unat_next_less)
  then have at: "ys ! unat q = xs ! unat q" by (simp add: ys)
  show ?thesis
  proof (cases "xs ! unat q = ?e")
    case True
    then show ?thesis
      using at qb ok' nq ys by (subst remove_loop.simps) (simp add: backshift_def)
  next
    case False
    then have ix: "xs ! unat q < length es" using ok'(5) [of "unat q"] at qb ok' by simp
    have d: "0 < distance_from_ideal (mask k) (entry_hash (es ! (xs ! unat q))) q
        \<longleftrightarrow> probe_dist (eh es) xs (unat q) \<noteq> 0"
      using ok' len by (simp add: word_less_nat_alt unat_distance_from_ideal probe_dist_def eh_def)
    have stop: "remove_loop c es (mask k) b zs q = Some zs"
      if "length zs = 2 ^ k" "zs ! unat q = ?e" for zs
      using that qb by (subst remove_loop.simps) simp
    show ?thesis
      using at qb ok' nq ys False ix d len
      by (subst remove_loop.simps) (simp add: backshift_def Let_def stop)
  qed
qed

text \<open>Whether the run of displaced entries behind a bucket ends after the next bucket.\<close>

definition displaced :: "hash_table \<Rightarrow> size_t \<Rightarrow> bool" where
  "displaced t b =
     (case (index_slot t, entries_slot t) of
        (Some buffer, Some s) \<Rightarrow>
          let ix = cells buffer ! unat b
          in ix \<noteq> empty_value (cell_class buffer)
             \<and> 0 < distance_from_ideal (table_mask t) (entry_hash (slots s ! ix)) b
      | _ \<Rightarrow> False)"

definition short_run :: "hash_table \<Rightarrow> size_t \<Rightarrow> bool" where
  "short_run t b =
     (let q = next_bucket (table_mask t) b
      in \<not> (displaced t q \<and> displaced t (next_bucket (table_mask t) q)))"

text \<open>The entries after the deletion of the entry at a position.\<close>

definition entries_without :: "hash_entry list \<Rightarrow> nat \<Rightarrow> hash_entry list" where
  "entries_without es i =
     (let es' = (if i = length es - 1 then take (length es - 1) es else es[i := make_deleted])
      in if length (live es) = 1 then [] else es')"

lemma is_deleted_make_deleted [simp]: "is_deleted make_deleted"
  by (simp add: is_deleted_def make_deleted_def)

lemma entries_without_correct:
  assumes i: "i < length es" "\<not> is_deleted (es ! i)"
  shows "live (entries_without es i) = live (take i es) @ live (drop (Suc i) es)"
    and "add_mset i (mset (live_positions (entries_without es i))) = mset (live_positions es)"
    and "length (entries_without es i) \<le> length es"
    and "\<And>j. j < length (entries_without es i) \<Longrightarrow> j \<noteq> i \<Longrightarrow> entries_without es i ! j = es ! j"
proof -
  let ?es = "if i = length es - 1 then take (length es - 1) es else es[i := make_deleted]"
  have split: "live es = live (take i es) @ es ! i # live (drop (Suc i) es)"
    by (rule live_nth_split [OF i])
  have live': "live ?es = live (take i es) @ live (drop (Suc i) es)"
    using live_update_split [OF i(1), of make_deleted] i(1) by auto
  have pos': "add_mset i (mset (live_positions ?es)) = mset (live_positions es)"
  proof (cases "i = length es - 1")
    case True
    then have "es = take (length es - 1) es @ [es ! i]"
      using i(1) by (metis Suc_pred' length_greater_0_conv less_zeroE list.size(3) take_Suc_conv_app_nth
          take_all order_refl diff_less zero_less_one)
    then have "live_positions es = live_positions (take (length es - 1) es) @ [i]"
      using live_positions_snoc [of "take (length es - 1) es" "es ! i"] i True by simp
    with True show ?thesis by simp
  next
    case False
    then show ?thesis using live_positions_delete [OF i(1), of make_deleted] i by simp
  qed
  have one: "live_positions es = [i]" "live (take i es) = []" "live (drop (Suc i) es) = []"
    if "length (live es) = 1"
  proof -
    have "i \<in> set (live_positions es)" "length (live_positions es) = 1"
      using i that by (simp_all add: length_live_positions)
    then show "live_positions es = [i]" by (auto simp: length_Suc_conv simp del: set_live_positions)
    show "live (take i es) = []" "live (drop (Suc i) es) = []" using that split by simp_all
  qed
  show "live (entries_without es i) = live (take i es) @ live (drop (Suc i) es)"
    using live' one by (auto simp: entries_without_def)
  show "add_mset i (mset (live_positions (entries_without es i))) = mset (live_positions es)"
    using pos' one by (auto simp: entries_without_def)
  show "length (entries_without es i) \<le> length es" by (simp add: entries_without_def Let_def)
  show "entries_without es i ! j = es ! j" if "j < length (entries_without es i)" "j \<noteq> i" for j
    using that by (auto simp: entries_without_def Let_def split: if_splits)
qed

text \<open>The state between the removal from the entries and the compaction.\<close>

definition erase_entry :: "hash_table \<Rightarrow> index_buffer \<Rightarrow> storage \<Rightarrow> nat \<Rightarrow> nat \<Rightarrow> hash_table" where
  "erase_entry t buffer s b i =
     t\<lparr>index_slot := Some (buffer\<lparr>cells :=
         backshift (empty_value (cell_class buffer)) (eh (slots s)) (cells buffer) b\<rparr>),
       entries_slot := Some (s\<lparr>slots := entries_without (slots s) i\<rparr>),
       table_size := table_size t - 1\<rparr>"

lemma backshift_cong:
  assumes "b < length xs" and "\<And>i. i \<in> set (used e xs) \<Longrightarrow> i \<noteq> xs ! b \<Longrightarrow> H i = H' i"
    and "nxt (length xs) b \<noteq> b" and "distinct (used e xs)"
  shows "backshift e H xs b = backshift e H' xs b"
proof (cases "xs ! nxt (length xs) b = e")
  case True
  then show ?thesis by (simp add: backshift_def)
next
  case False
  let ?q = "nxt (length xs) b"
  have q: "?q < length xs" using assms(1) by (intro nxt_less) auto
  have "xs ! ?q \<noteq> xs ! b"
  proof
    assume eq: "xs ! ?q = xs ! b"
    then have "xs ! b \<noteq> e" using False by simp
    then have "add_mset (xs ! b) (mset (used e (xs[b := e]))) = mset (used e xs)"
      using assms(1) by (intro mset_used_erase)
    moreover have "xs ! ?q \<in> set (used e (xs[b := e]))"
      using q assms(3) False nth_mem [of ?q "xs[b := e]"] by (auto simp: used_def)
    ultimately show False using distinct_mset_removed [OF _ assms(4)] eq by metis
  qed
  then have "H (xs ! ?q) = H' (xs ! ?q)" using q False assms(2) by (simp add: used_def)
  then show ?thesis by (simp add: backshift_def probe_dist_def Let_def)
qed

lemma erase_entry_correct:
  assumes wf: "wf_parts k t buffer s" and t: "index_slot t = Some buffer" "entries_slot t = Some s"
    and b: "b < 2 ^ k" "cells buffer ! b = i"
    and i: "i < length (slots s)" "\<not> is_deleted (slots s ! i)"
  shows "\<exists>buffer' s'. index_slot (erase_entry t buffer s b i) = Some buffer'
    \<and> entries_slot (erase_entry t buffer s b i) = Some s'
    \<and> wf_parts k (erase_entry t buffer s b i) buffer' s' \<and> cell_class buffer' = cell_class buffer
    \<and> table_pairs (erase_entry t buffer s b i)
        = map entry_pair (live (take i (slots s)) @ live (drop (Suc i) (slots s)))"
proof -
  let ?e = "empty_value (cell_class buffer)" and ?xs = "cells buffer"
  let ?es = "entries_without (slots s) i"
  let ?buffer = "buffer\<lparr>cells := backshift ?e (eh (slots s)) ?xs b\<rparr>"
  note d = wf_partsD [OF wf] and e = entries_without_correct [OF i]
  have split: "live (slots s) = live (take i (slots s)) @ slots s ! i # live (drop (Suc i) (slots s))"
    by (rule live_nth_split [OF i])
  have "i < ?e" using i(1) d(8) wf_parts_capacity(3) [OF wf] by simp
  then have ne: "?xs ! b \<noteq> ?e" using b(2) by simp
  have "1 < length ?xs" by (rule index_okD(2) [OF wf_parts_index_ok [OF wf]])
  then have "add_mset i (mset (used ?e (backshift ?e (eh (slots s)) ?xs b))) = mset (used ?e ?xs)"
    using mset_used_backshift [of b ?xs ?e "eh (slots s)"] ne b d(5) by simp
  with e(2) d(10) have "mset (used ?e (backshift ?e (eh (slots s)) ?xs b)) = mset (live_positions ?es)"
    by (metis add_mset_add_mset_same_iff)
  moreover have "unat (table_size t - 1) = length (live ?es)"
    using d(9) split e(1) by (subst unat_minus_one_word) (auto simp: unat_eq_0 [symmetric])
  ultimately have "wf_parts k (erase_entry t buffer s b i) ?buffer (s\<lparr>slots := ?es\<rparr>)"
    using d e(1,3) split by (auto simp: wf_parts_def erase_entry_def)
  then show ?thesis by (simp add: erase_entry_def table_pairs_def e(1))
qed

lemma remove_from_index_correct:
  assumes wf: "wf_parts k t buffer s" and t: "index_slot t = Some buffer" "entries_slot t = Some s"
    and b: "unat b < 2 ^ k" "cells buffer ! unat b = i"
    and i: "i < length (slots s)" "\<not> is_deleted (slots s ! i)"
  shows "remove_from_index (cell_class buffer)
      (t\<lparr>entries_slot := Some (s\<lparr>slots := entries_without (slots s) i\<rparr>), table_size := table_size t - 1\<rparr>) b
    = Some (erase_entry t buffer s (unat b) i)"
proof -
  let ?c = "cell_class buffer" and ?xs = "cells buffer"
  let ?e = "empty_value ?c" and ?es = "entries_without (slots s) i"
  let ?ys = "?xs[unat b := ?e]" and ?q = "next_bucket (mask k) b"
  note d = wf_partsD [OF wf] and e = entries_without_correct [OF i]
  have "i < ?e" using i(1) d(8) wf_parts_capacity(3) [OF wf] by simp
  then have ne: "?xs ! unat b \<noteq> ?e" using b(2) by simp
  have "add_mset i (mset (used ?e ?ys)) = mset (used ?e ?xs)"
    using mset_used_erase [of "unat b" ?xs ?e] ne b d(5) by simp
  with e(2) d(10) have m: "mset (used ?e ?ys) = mset (live_positions ?es)"
    by (metis add_mset_add_mset_same_iff)
  have ok: "index_ok k ?e (length ?es) ?ys"
    using d mset_eq_setD [OF m] by (simp add: index_ok_def)
  have run: "remove_loop ?c ?es (mask k) b ?ys ?q = Some (backshift ?e (eh ?es) ?xs (unat b))"
    by (rule remove_loop_correct [OF ok b(1) refl refl])
  have "eh ?es j = eh (slots s) j" if "j \<in> set (used ?e ?xs)" "j \<noteq> i" for j
  proof -
    have "j \<in> set (used ?e ?ys)"
      using that e(2) d(10) m by (metis insertE set_mset_add_mset_insert set_mset_mset)
    then have "j < length ?es" using ok by (simp add: index_ok_def)
    then show ?thesis using e(4) that(2) by (simp add: eh_def)
  qed
  moreover have "1 < length ?xs" by (rule index_okD(2) [OF wf_parts_index_ok [OF wf]])
  ultimately have "backshift ?e (eh ?es) ?xs (unat b) = backshift ?e (eh (slots s)) ?xs (unat b)"
    using b d(5) wf_parts_used(2) [OF wf] nxt_neq by (intro backshift_cong) auto
  with run show ?thesis
    using t b d by (simp add: remove_from_index_def index_values_def erase_entry_def)
qed

lemma probe_order_erase:
  assumes wf: "wf_parts k t buffer s" and t: "index_slot t = Some buffer" "entries_slot t = Some s"
    and b: "unat b < 2 ^ k" "cells buffer ! unat b = i"
    and i: "i < length (slots s)" "\<not> is_deleted (slots s ! i)"
    and order: "probe_order t" and run: "short_run t b"
  shows "probe_order (erase_entry t buffer s (unat b) i)"
proof -
  let ?e = "empty_value (cell_class buffer)" and ?xs = "cells buffer" and ?H = "eh (slots s)"
  let ?es = "entries_without (slots s) i"
  note d = wf_partsD [OF wf] and e = entries_without_correct [OF i]
  obtain buffer' s' where er: "index_slot (erase_entry t buffer s (unat b) i) = Some buffer'"
    "entries_slot (erase_entry t buffer s (unat b) i) = Some s'"
    "wf_parts k (erase_entry t buffer s (unat b) i) buffer' s'"
    using erase_entry_correct [OF wf t b i] by blast
  have eqs: "buffer' = buffer\<lparr>cells := backshift ?e ?H ?xs (unat b)\<rparr>" "s' = s\<lparr>slots := ?es\<rparr>"
    using er by (simp_all add: erase_entry_def)
  have disp: "displaced t q \<longleftrightarrow> ?xs ! unat q \<noteq> ?e \<and> 0 < probe_dist ?H ?xs (unat q)" for q
    using t d by (simp add: displaced_def Let_def word_less_nat_alt unat_distance_from_ideal
        probe_dist_def eh_def)
  have "(2::nat) < 2 ^ k" using d(1) power_increasing [of 3 k "2::nat"] by simp
  then have "robin_hood ?e ?H (backshift ?e ?H ?xs (unat b))"
    using order run t b d disp
    by (intro robin_hood_backshift)
       (auto simp: probe_order_def short_run_def Let_def unat_next_bucket)
  then have "robin_hood ?e (eh ?es) (backshift ?e ?H ?xs (unat b))"
  proof (rule robin_hood_cong)
    fix j assume j: "j \<in> set (used ?e (backshift ?e ?H ?xs (unat b)))"
    then have j': "j < length ?es" "\<not> is_deleted (?es ! j)"
      using wf_parts_used(1) [OF er(3)] eqs by auto
    have "j \<noteq> i"
    proof
      assume "j = i"
      then have "i \<in> set (live_positions ?es)" using j' by simp
      then show False using distinct_mset_removed [OF e(2) distinct_live_positions] by blast
    qed
    with j' show "?H j = eh ?es j" by (simp add: eh_def e(4))
  qed
  then show ?thesis using er eqs by (simp add: probe_order_def)
qed

lemma drop_entry_run:
  assumes wf: "wf_parts k t buffer s" and i: "i < length (slots s)" "\<not> is_deleted (slots s ! i)"
  shows "(do { entries \<leftarrow> (if word_of_nat i = storage_size s - 1 then storage_remove_last s 1
            else storage_set s i make_deleted);
          Some (if table_size t - 1 = 0 then storage_clear entries else entries) })
    = Some (s\<lparr>slots := entries_without (slots s) i\<rparr>)"
proof -
  note d = wf_partsD [OF wf]
  have small: "length (slots s) < 2 ^ 64"
    using d(8) unsigned_less [of "slot_capacity s", where 'a = nat] by simp
  have "storage_size s \<noteq> 0" using storage_size_eq [OF wf] i(1) by (auto simp: unat_eq_0 [symmetric])
  then have "unat (storage_size s - 1) = length (slots s) - 1"
    using storage_size_eq [OF wf] by (simp add: unat_minus_one_word)
  moreover have "unat (word_of_nat i :: size_t) = i" using i(1) small by (simp add: unat_of_nat)
  ultimately have last: "word_of_nat i = storage_size s - 1 \<longleftrightarrow> i = length (slots s) - 1"
    by (simp add: word_unat_eq_iff)
  have zero: "table_size t = 1 \<longleftrightarrow> length (live (slots s)) = 1"
    using d(9) word_unat_eq_iff [of "table_size t" 1] by simp
  show ?thesis
    using i(1)
    by (simp add: last zero entries_without_def storage_remove_last_def storage_set_def
        storage_clear_def Let_def)
qed

lemma remove_impl_correct:
  assumes wf: "wf_parts k t buffer s" and t: "index_slot t = Some buffer" "entries_slot t = Some s"
  shows "\<exists>found. find_impl (cell_class buffer) t key = Some found
    \<and> (case found of None \<Rightarrow> remove_impl (cell_class buffer) t key = Some (False, t)
       | Some (b, _) \<Rightarrow> \<exists>t'. remove_impl (cell_class buffer) t key = Some (True, t') \<and> wf_table t'
           \<and> (\<exists>xs kv ys. table_pairs t = xs @ kv # ys \<and> table_pairs t' = xs @ ys
                \<and> same_key (fst kv) key)
           \<and> (probe_order t \<and> short_run t b \<longrightarrow> probe_order t'))"
proof -
  let ?c = "cell_class buffer"
  obtain found where f: "find_impl ?c t key = Some found" and
    fc: "case found of None \<Rightarrow> True
      | Some (b, i) \<Rightarrow> unat b < 2 ^ k \<and> cells buffer ! unat b = i
           \<and> i < length (slots s) \<and> \<not> is_deleted (slots s ! i) \<and> same_key (entry_key (slots s ! i)) key"
    using find_impl_safe [OF wf t] by blast
  show ?thesis
  proof (cases found)
    case None
    with f show ?thesis by (simp add: remove_impl_def)
  next
    case (Some bi)
    then obtain b i where bi: "found = Some (b, i)" by (cases bi) auto
    with fc have b: "unat b < 2 ^ k" "cells buffer ! unat b = i"
      and i: "i < length (slots s)" "\<not> is_deleted (slots s ! i)"
      and key: "same_key (entry_key (slots s ! i)) key" by auto
    let ?es = "entries_without (slots s) i"
    define t1 where "t1 = erase_entry t buffer s (unat b) i"
    obtain buffer' s' where t1: "index_slot t1 = Some buffer'" "entries_slot t1 = Some s'"
      "wf_parts k t1 buffer' s'" "cell_class buffer' = ?c"
      "table_pairs t1 = map entry_pair (live (take i (slots s)) @ live (drop (Suc i) (slots s)))"
      using erase_entry_correct [OF wf t b i] t1_def by blast
    obtain t2 where t2: "compact ?c t1 = Some t2" "wf_table t2" "table_pairs t2 = table_pairs t1"
      "probe_order t1 \<Longrightarrow> probe_order t2"
      using compact_correct [OF t1(3,1,2)] t1(4) by (auto split: if_splits)
    have t1s: "s' = s\<lparr>slots := ?es\<rparr>" using t1(2) by (simp add: t1_def erase_entry_def)
    have "remove_impl ?c t key = (do {
        entries \<leftarrow> (do {
          entries \<leftarrow> (if word_of_nat i = storage_size s - 1 then storage_remove_last s 1
             else storage_set s i make_deleted);
          Some (if table_size t - 1 = 0 then storage_clear entries else entries) });
        t \<leftarrow> remove_from_index ?c (t\<lparr>entries_slot := Some entries, table_size := table_size t - 1\<rparr>) b;
        t \<leftarrow> (if table_size t \<le> storage_size entries div 2 then compact ?c t else Some t);
        Some (True, t) })"
      using f bi t by (simp add: remove_impl_def Let_def)
    then have run: "remove_impl ?c t key = (do {
        t \<leftarrow> (if table_size t1 \<le> storage_size s' div 2 then compact ?c t1 else Some t1);
        Some (True, t) })"
      unfolding drop_entry_run [OF wf i] t1s t1_def
      by (simp add: remove_from_index_correct [OF wf t b i])
    have "table_pairs t = map entry_pair (live (take i (slots s))) @ entry_pair (slots s ! i)
        # map entry_pair (live (drop (Suc i) (slots s)))"
      using live_pair_nth [OF i] t(2) by (simp add: table_pairs_def)
    with t1(5) key have pairs: "\<exists>xs kv ys. table_pairs t = xs @ kv # ys \<and> table_pairs t1 = xs @ ys
        \<and> same_key (fst kv) key"
      by (metis entry_pair_def fst_conv map_append)
    have order: "probe_order t1" if "probe_order t \<and> short_run t b"
      using probe_order_erase [OF wf t b i] that t1_def by blast
    show ?thesis
    proof (cases "table_size t1 \<le> storage_size s' div 2")
      case True
      with run t2(1) have "remove_impl ?c t key = Some (True, t2)" by simp
      with f bi t2 pairs order show ?thesis by simp
    next
      case False
      with run have "remove_impl ?c t key = Some (True, t1)" by simp
      with f bi wf_tableI [OF t1(1,2,3)] pairs order show ?thesis by simp
    qed
  qed
qed

lemma table_remove_absent:
  assumes "wf_table t" and "table_remove t key = Some (False, t')"
  shows "t' = t"
  using assms(1)
proof (cases rule: wf_tableE)
  case null
  with assms(2) show ?thesis by (simp add: table_remove_def table_empty_def)
next
  case (parts k buffer s)
  then show ?thesis
    using assms(2) remove_impl_correct [OF parts(3,1,2), of key] index_size_class_eq [OF parts(3,2)]
    by (auto simp: table_remove_def split: if_splits option.splits prod.splits)
qed

text \<open>Removal from a table of which only the safety invariant is known.\<close>

lemma table_remove_wf:
  assumes "wf_table t"
  shows "\<exists>r t'. table_remove t key = Some (r, t') \<and> wf_table t'"
proof (cases "table_empty t")
  case True
  with assms show ?thesis by (auto simp: table_remove_def)
next
  case False
  with assms obtain k buffer s where p: "index_slot t = Some buffer" "entries_slot t = Some s"
    "wf_parts k t buffer s" by (auto elim: wf_tableE simp: table_empty_def)
  from remove_impl_correct [OF p(3,1,2), of key] assms
  have "\<exists>r t'. remove_impl (cell_class buffer) t key = Some (r, t') \<and> wf_table t'"
    by (elim exE conjE, case_tac found) auto
  with False index_size_class_eq [OF p(3,2)] show ?thesis by (simp add: table_remove_def)
qed

lemma table_remove_ordered:
  assumes "ordered_table t"
  shows "\<exists>r t'. table_remove t key = Some (r, t') \<and> wf_table t'
    \<and> table_pairs t' = pairs_remove (table_pairs t) key
    \<and> r = (pairs_find (table_pairs t) key \<noteq> None)
    \<and> ((\<forall>b i. find_impl (index_size_class t) t key = Some (Some (b, i)) \<longrightarrow> short_run t b)
        \<longrightarrow> ordered_table t')"
proof -
  from assms have wf: "wf_table t" and o: "probe_order t" "distinct_keys (table_pairs t)"
    by (auto simp: ordered_table_def)
  show ?thesis
  proof (cases "table_empty t")
    case True
    with wf have "table_pairs t = []" by (simp add: table_size_zero)
    with True assms wf show ?thesis by (auto simp: table_remove_def pairs_remove_def pairs_find_def)
  next
    case False
    with wf obtain k buffer s where p: "index_slot t = Some buffer" "entries_slot t = Some s"
      "wf_parts k t buffer s" by (auto elim: wf_tableE simp: table_empty_def)
    note cls = index_size_class_eq [OF p(3,2)]
    have run: "table_remove t key = remove_impl (cell_class buffer) t key"
      using False cls by (simp add: table_remove_def)
    obtain found where f: "find_impl (cell_class buffer) t key = Some found" and
      c: "case found of None \<Rightarrow> remove_impl (cell_class buffer) t key = Some (False, t)
       | Some (b, _) \<Rightarrow> \<exists>t'. remove_impl (cell_class buffer) t key = Some (True, t') \<and> wf_table t'
           \<and> (\<exists>xs kv ys. table_pairs t = xs @ kv # ys \<and> table_pairs t' = xs @ ys
                \<and> same_key (fst kv) key)
           \<and> (probe_order t \<and> short_run t b \<longrightarrow> probe_order t')"
      using remove_impl_correct [OF p(3,1,2)] by blast
    show ?thesis
    proof (cases found)
      case None
      then have "pairs_find (table_pairs t) key = None"
        using find_impl_None [OF p(3,1,2) o] f by simp
      with None c run wf assms show ?thesis by (auto simp: pairs_find_None pairs_remove_absent)
    next
      case (Some bi)
      then obtain b i where bi: "found = Some (b, i)" by (cases bi) auto
      with c obtain t' xs kv ys where r: "remove_impl (cell_class buffer) t key = Some (True, t')"
        "wf_table t'" "table_pairs t = xs @ kv # ys" "table_pairs t' = xs @ ys" "same_key (fst kv) key"
        "probe_order t \<and> short_run t b \<longrightarrow> probe_order t'"
        unfolding bi option.case prod.case by blast
      have rm: "table_pairs t' = pairs_remove (table_pairs t) key"
        using pairs_remove_nth [OF o(2) r(3,5)] r(4) by simp
      have some: "pairs_find (table_pairs t) key \<noteq> None"
        using r(3,5) by (auto simp: pairs_find_None)
      have "ordered_table t'" if "short_run t b"
        using r(2,6) that o rm distinct_keys_remove by (simp add: ordered_table_def)
      with run r(1,2) rm some f bi cls show ?thesis by auto
    qed
  qed
qed

subsection \<open>Clearing and iteration\<close>

lemma table_clear_correct:
  assumes "wf_table t"
  shows "\<exists>t'. table_clear t = Some t' \<and> wf_table t' \<and> table_pairs t' = []
    \<and> (probe_order t \<longrightarrow> ordered_table t')"
proof (cases "table_empty t")
  case True
  with assms table_size_zero show ?thesis
    by (simp add: table_clear_def ordered_table_def distinct_keys_def)
next
  case False
  with assms obtain k buffer s where p: "index_slot t = Some buffer" "entries_slot t = Some s"
    "wf_parts k t buffer s" by (auto elim: wf_tableE simp: table_empty_def)
  let ?buffer = "buffer\<lparr>cells := replicate (length (cells buffer)) (empty_value (cell_class buffer))\<rparr>"
  let ?t = "t\<lparr>entries_slot := Some (storage_clear s), index_slot := Some ?buffer, table_size := 0\<rparr>"
  have "wf_parts k ?t ?buffer (storage_clear s)"
    using wf_partsD [OF p(3)] by (simp add: wf_parts_def storage_clear_def)
  then have "wf_table ?t" by (intro wf_tableI) auto
  moreover have "probe_order ?t" by (simp add: probe_order_def robin_hood_empty)
  moreover have "table_clear t = Some ?t"
    using False p index_size_class_eq [OF p(3,2)]
    by (simp add: table_clear_def clear_impl_def index_values_def)
  ultimately show ?thesis
    by (simp add: ordered_table_def table_pairs_def storage_clear_def distinct_keys_def)
qed

lemma scan_entries_correct:
  "case scan_entries es i of
     (None, j) \<Rightarrow> live (drop i es) = [] \<and> live (drop j es) = []
   | (Some kv, j) \<Rightarrow> i < j \<and> j \<le> length es
       \<and> map entry_pair (live (drop i es)) = kv # map entry_pair (live (drop j es))"
proof (induction es i rule: scan_entries.induct)
  case (1 es i)
  show ?case
  proof (cases "i < length es")
    case True
    then have "drop i es = es ! i # drop (Suc i) es" by (simp add: Cons_nth_drop_Suc)
    with True 1 show ?thesis
      by (subst scan_entries.simps) (auto simp: live_def entry_pair_def split: prod.splits option.splits)
  next
    case False
    then show ?thesis by (subst scan_entries.simps) simp
  qed
qed

lemma for_each_loop_correct:
  assumes "entries_slot t = Some s"
  shows "for_each_loop t i = Some (map entry_pair (live (drop i (slots s))))"
proof (induction "length (slots s) - i" arbitrary: i rule: less_induct)
  case less
  obtain r j where sc: "scan_entries (slots s) i = (r, j)" by fastforce
  show ?case
  proof (cases r)
    case None
    with sc scan_entries_correct [where es = "slots s" and i = i] assms show ?thesis
      by (subst for_each_loop.simps) (simp add: iterator_next_def)
  next
    case (Some kv)
    with sc scan_entries_correct [where es = "slots s" and i = i]
    have j: "i < j" "j \<le> length (slots s)"
      "map entry_pair (live (drop i (slots s))) = kv # map entry_pair (live (drop j (slots s)))" by auto
    with less [of j] sc Some assms show ?thesis
      by (subst for_each_loop.simps) (simp add: iterator_next_def)
  qed
qed

lemma for_each_correct: "for_each t = Some (table_pairs t)"
proof (cases "entries_slot t")
  case None
  then show ?thesis
    by (simp add: for_each_def table_pairs_def for_each_loop.simps [of t 0] iterator_next_def)
next
  case (Some s)
  then show ?thesis by (simp add: for_each_def for_each_loop_correct table_pairs_def)
qed

end
