(* ===== verification/TableProps.thy ===== *)
theory TableProps
  imports TableRemove
begin

text \<open>
  The finite map interface, its interpretation on the hash table, the map literal of the
  interpreter (src/vm/interpreter.cpp) as a client, and the properties of the hash table.
\<close>

subsection \<open>Finite maps with insertion\<close>

text \<open>The loop of a client that inserts pairs one after the other and stops at an error.\<close>

primrec insert_all ::
  "('t \<Rightarrow> 'k \<Rightarrow> 'v \<Rightarrow> ('e + bool \<times> 't) option) \<Rightarrow> 't \<Rightarrow> ('k \<times> 'v) list \<Rightarrow> ('e + 't) option" where
  "insert_all set_op t [] = Some (Inr t)"
| "insert_all set_op t (kv # kvs) =
     (case set_op t (fst kv) (snd kv) of
        None \<Rightarrow> None
      | Some (Inl err) \<Rightarrow> Some (Inl err)
      | Some (Inr (_, t)) \<Rightarrow> insert_all set_op t kvs)"

locale finite_map =
  fixes inv :: "'t \<Rightarrow> bool"
    and find_op :: "'t \<Rightarrow> 'k \<Rightarrow> ('k \<times> 'v) option option"
    and set_op :: "'t \<Rightarrow> 'k \<Rightarrow> 'v \<Rightarrow> ('e + bool \<times> 't) option"
    and same :: "'k \<Rightarrow> 'k \<Rightarrow> bool"
  assumes set_returns: "inv t \<Longrightarrow> set_op t k v \<noteq> None"
    and set_inv: "inv t \<Longrightarrow> set_op t k v = Some (Inr (fresh, t')) \<Longrightarrow> inv t'"
    and find_returns: "inv t \<Longrightarrow> find_op t k \<noteq> None"
    and find_set: "inv t \<Longrightarrow> set_op t k v = Some (Inr (fresh, t')) \<Longrightarrow>
      map_option (map_option snd) (find_op t' k') =
        (if same k k' then Some (Some v) else map_option (map_option snd) (find_op t k'))"
begin

text \<open>The value that the last matching insertion wrote, or the one that was there before.\<close>

definition last_written :: "'t \<Rightarrow> ('k \<times> 'v) list \<Rightarrow> 'k \<Rightarrow> 'v option option" where
  "last_written t kvs k =
     (case find (\<lambda>kv. same (fst kv) k) (rev kvs) of
        Some kv \<Rightarrow> Some (Some (snd kv))
      | None \<Rightarrow> map_option (map_option snd) (find_op t k))"

lemma find_snoc:
  "find P (xs @ [x]) = (case find P xs of None \<Rightarrow> if P x then Some x else None | Some y \<Rightarrow> Some y)"
  by (induction xs) auto

lemma insert_all_inv: "inv t \<Longrightarrow> insert_all set_op t kvs = Some (Inr t') \<Longrightarrow> inv t'"
  by (induction kvs arbitrary: t)
     (auto dest: set_inv split: option.splits sum.splits prod.splits)

lemma insert_all_returns: "inv t \<Longrightarrow> insert_all set_op t kvs \<noteq> None"
proof (induction kvs arbitrary: t)
  case (Cons kv kvs)
  then show ?case
    using set_returns [of t "fst kv" "snd kv"] set_inv [of t "fst kv" "snd kv"]
    by (fastforce split: option.splits sum.splits prod.splits)
qed simp

lemma insert_all_find:
  "inv t \<Longrightarrow> insert_all set_op t kvs = Some (Inr t') \<Longrightarrow>
   map_option (map_option snd) (find_op t' k) = last_written t kvs k"
proof (induction kvs arbitrary: t)
  case Nil
  then show ?case by (simp add: last_written_def)
next
  case (Cons kv kvs)
  then obtain fresh t1 where t1: "set_op t (fst kv) (snd kv) = Some (Inr (fresh, t1))"
    "insert_all set_op t1 kvs = Some (Inr t')"
    by (auto split: option.splits sum.splits prod.splits)
  have "map_option (map_option snd) (find_op t' k) = last_written t1 kvs k"
    using Cons.IH [OF set_inv [OF Cons.prems(1) t1(1)] t1(2)] .
  with find_set [OF Cons.prems(1) t1(1), of k] show ?case
    by (simp add: last_written_def find_snoc split: option.split)
qed

end

lemma table_set_ordered:
  assumes "ordered_table t" and "table_set t key v = Some (Inr (fresh, t'))"
  shows "ordered_table t' \<and> table_pairs t' = pairs_set (table_pairs t) key v"
  using table_set_correct [of t key v] assms by (auto simp: ordered_table_def)

interpretation table_map: finite_map ordered_table table_find table_set same_key
proof unfold_locales
  show "table_set t k v \<noteq> None" if "ordered_table t" for t k v
    using table_set_correct [of t k v] that by (auto simp: ordered_table_def)
  show "ordered_table t'" if "ordered_table t" "table_set t k v = Some (Inr (fresh, t'))"
    for t k v fresh t' using table_set_ordered [OF that] by blast
  show "table_find t k \<noteq> None" if "ordered_table t" for t k
    by (simp add: table_find_correct [OF that])
  show "map_option (map_option snd) (table_find t' k') =
      (if same_key k k' then Some (Some v) else map_option (map_option snd) (table_find t k'))"
    if "ordered_table t" "table_set t k v = Some (Inr (fresh, t'))" for t k v fresh t' k'
    using table_set_ordered [OF that] that(1)
    by (auto simp: table_find_correct pairs_find_set split: option.split)
qed

subsection \<open>Tables with a given capacity\<close>

lemma table_new_ordered: "ordered_table table_new"
  by (simp add: ordered_table_def wf_table_def probe_order_def table_pairs_def distinct_keys_def
      table_new_def)

lemma index_capacity_correct:
  assumes "0 < unat n" and "unat n \<le> 2 ^ 62"
  shows "\<exists>k. index_capacity_for_entries_capacity n = Some (2 ^ k) \<and> 3 \<le> k \<and> k < 64
    \<and> unat n \<le> 2 ^ k - 2 ^ k div 4 \<and> (2 ^ k \<le> 4 * unat n \<or> k = 3)"
proof -
  let ?x = "(n + 2) div 3 + n"
  have ux: "unat ?x = (unat n + 2) div 3 + unat n"
    and u2: "unat (n + 2) = unat n + 2"
    using assms(2) by (simp_all add: unat_word_ariths unat_div)
  have small: "unat ?x \<le> 2 ^ 63" using ux assms(2) by simp
  then have x: "0 < ?x" "?x \<le> max_pow2"
    using assms ux by (simp_all add: word_less_nat_alt word_le_nat_alt unat_max_pow2)
  obtain j where j: "ceil_pow2 ?x = 2 ^ j" "j < 64" "unat (ceil_pow2 ?x) = 2 ^ j"
    "unat ?x \<le> 2 ^ j" "j = 0 \<or> 2 ^ (j - 1) < unat ?x"
    using ceil_pow2_exponent [OF x] by auto
  have run: "index_capacity_for_entries_capacity n = Some (max 8 (2 ^ j))"
    using assms(2) x ux u2 j(1)
    by (simp add: index_capacity_for_entries_capacity_def checked_add_unsigned_def
        initial_index_capacity_def ceil_pow2_fast_eq unat_div word_less_nat_alt [symmetric] not_less)
  show ?thesis
  proof (cases "3 \<le> j")
    case True
    then have "(8 :: size_t) \<le> 2 ^ j"
      using power_increasing [of 3 j "2::nat"] j(2) by (simp add: word_le_nat_alt unat_2p_word)
    then have m: "max 8 (2 ^ j) = (2 ^ j :: size_t)" by (simp add: max_def)
    have s: "(2::nat) ^ j = 4 * 2 ^ (j - 2)" using True by (intro pow2_split) simp
    moreover have "(2::nat) ^ j = 2 * 2 ^ (j - 1)" using True by (cases j) auto
    ultimately have "unat n \<le> 2 ^ j - 2 ^ j div 4" "2 ^ j \<le> 4 * unat n"
      using ux j(4,5) True assms(1) by auto
    with run m True j(2) show ?thesis by auto
  next
    case False
    then have "(2::nat) ^ j \<le> 2 ^ 2" by (intro power_increasing) auto
    then have "unat n \<le> 4" using ux j(4) by simp
    moreover have "(2 ^ j :: size_t) \<le> 8"
      using \<open>(2::nat) ^ j \<le> 2 ^ 2\<close> j(2) by (simp add: word_le_nat_alt unat_2p_word)
    ultimately show ?thesis
      using run by (intro exI [of _ 3]) (simp add: max_def)
  qed
qed

lemma table_make_correct:
  assumes "unat n \<le> 2 ^ 57"
  shows "\<exists>t. table_make n = Some (Inr t) \<and> ordered_table t \<and> table_pairs t = []
    \<and> unat n \<le> unat (entry_capacity t) \<and> unat (occupied_entries t) = 0"
proof (cases "n = 0")
  case True
  then show ?thesis
    using table_new_ordered
    by (simp add: table_make_def table_new_def table_pairs_def occupied_entries_def)
next
  case False
  then have "0 < unat n" by (simp add: unat_gt_0)
  moreover have "unat n \<le> 2 ^ 62" using assms by simp
  ultimately obtain k where k: "index_capacity_for_entries_capacity n = Some (2 ^ k)" "3 \<le> k" "k < 64"
    "unat n \<le> 2 ^ k - 2 ^ k div 4" "2 ^ k \<le> 4 * unat n \<or> k = 3"
    using index_capacity_correct by blast
  have "(2::nat) ^ k < 2 ^ 60" using k(5) assms by auto
  then have k60: "k < 60" by (rule power_less_imp_less_exp [rotated]) simp
  have run: "table_make n = grow_to_capacity table_new (table_capacity_for_index_capacity (2 ^ k)) (2 ^ k)"
    using False k(1) by (simp add: table_make_def)
  have none: "table_pairs table_new = []" by (simp add: table_pairs_def table_new_def)
  have "wf_table table_new" using table_new_ordered by (simp add: ordered_table_def)
  from grow_to_capacity_correct [OF this k(2,3) refl] none
  obtain r where r: "table_make n = Some r"
    "case r of Inl err \<Rightarrow> err = ArraySizeTooLarge \<and> 60 \<le> k
       | Inr t' \<Rightarrow> wf_table t' \<and> probe_order t' \<and> table_pairs t' = table_pairs table_new
           \<and> (\<exists>s. entries_slot t' = Some s \<and> length (slots s) = length (table_pairs table_new)
                \<and> unat (slot_capacity s) = 2 ^ k - 2 ^ k div 4)"
    unfolding run by auto
  then show ?thesis
    using k60 k(4) none
    by (cases r) (auto simp: ordered_table_def distinct_keys_def entry_capacity_def
        occupied_entries_def storage_size_def)
qed

subsection \<open>Map literals (src/vm/interpreter.cpp)\<close>

text \<open>The values on the stack, read as the pairs \<open>(data[i], data[i + 1])\<close>.\<close>

fun pair_up :: "val list \<Rightarrow> (val \<times> val) list option" where
  "pair_up [] = Some []"
| "pair_up [_] = None"
| "pair_up (k # v # rest) = do { kvs \<leftarrow> pair_up rest; Some ((k, v) # kvs) }"

text \<open>
  The instruction \<open>Map\<close>. The source aborts when an insertion reports an error; here the
  error is the result.
\<close>

definition interpret_map :: "val list \<Rightarrow> hash_table fallible" where
  "interpret_map stack_values =
     bind_fallible (table_make (word_of_nat (length stack_values))) (\<lambda>map. do {
       kvs \<leftarrow> pair_up stack_values;
       insert_all table_set map kvs })"

lemma length_pair_up: "pair_up vs = Some kvs \<Longrightarrow> length vs = 2 * length kvs"
  by (induction vs arbitrary: kvs rule: pair_up.induct) auto

lemma set_impl_capacity:
  assumes "set_impl c t key v = Some (fresh, t')"
  shows "entry_capacity t' = entry_capacity t
    \<and> (\<exists>s s'. entries_slot t = Some s \<and> entries_slot t' = Some s' \<and> length (slots s') \<le> length (slots s) + 1)"
proof -
  obtain buffer xs s slot where s: "entries_slot t = Some s" and
    r: "(case slot of
       ExistingKey ix \<Rightarrow> do {
         entry \<leftarrow> storage_get s ix;
         entries \<leftarrow> storage_set s ix
           \<lparr>entry_hash = make_hash key, entry_key = entry_key entry, entry_value = v\<rparr>;
         Some (False, t\<lparr>entries_slot := Some entries\<rparr>) }
     | FreeBucket xs \<Rightarrow> do {
         entries \<leftarrow> storage_append s \<lparr>entry_hash = make_hash key, entry_key = key, entry_value = v\<rparr>;
         Some (True, t\<lparr>index_slot := Some (buffer\<lparr>cells := xs\<rparr>), entries_slot := Some entries,
                       table_size := table_size t + 1\<rparr>) }
     | StolenBucket xs ix bucket_index distance \<Rightarrow> do {
         entries \<leftarrow> storage_append s \<lparr>entry_hash = make_hash key, entry_key = key, entry_value = v\<rparr>;
         xs \<leftarrow> steal_loop c (slots entries) (table_mask t) xs ix bucket_index distance;
         Some (True, t\<lparr>index_slot := Some (buffer\<lparr>cells := xs\<rparr>), entries_slot := Some entries,
                       table_size := table_size t + 1\<rparr>) }) = Some (fresh, t')"
    using assms unfolding set_impl_def Let_def bind_Some_iff by blast
  then show ?thesis
    by (cases slot) (auto simp: storage_append_def storage_set_def entry_capacity_def)
qed

text \<open>A table with a free slot takes an insertion without growing.\<close>

definition free_slots :: "hash_table \<Rightarrow> nat" where
  "free_slots t =
     (case entries_slot t of None \<Rightarrow> 0 | Some s \<Rightarrow> unat (slot_capacity s) - length (slots s))"

lemma table_set_free_slot:
  assumes "ordered_table t" and "0 < free_slots t"
  shows "\<exists>fresh t'. table_set t key v = Some (Inr (fresh, t')) \<and> ordered_table t'
    \<and> free_slots t \<le> free_slots t' + 1"
proof -
  obtain s where s: "entries_slot t = Some s" "length (slots s) < unat (slot_capacity s)"
    using assms(2) by (auto simp: free_slots_def split: option.splits)
  have "\<not> storage_full s"
    using s(2) unsigned_less [of "slot_capacity s", where 'a = nat]
    by (auto simp: storage_full_def storage_size_def word_unat_eq_iff unat_of_nat)
  then have e: "ensure_free_capacity t = Some (Inr t)" by (simp add: ensure_free_capacity_def s(1))
  obtain k buffer where p: "index_slot t = Some buffer" "wf_parts k t buffer s"
    using assms(1) s(1) by (auto simp: ordered_table_def elim: wf_tableE)
  obtain fresh t' where st: "set_impl (cell_class buffer) t key v = Some (fresh, t')"
    using set_impl_correct [OF p(2,1) s] by blast
  then have run: "table_set t key v = Some (Inr (fresh, t'))"
    using e index_size_class_eq [OF p(2) s(1)] by (simp add: table_set_def bind_fallible_def)
  moreover have "free_slots t \<le> free_slots t' + 1"
    using set_impl_capacity [OF st] s by (auto simp: free_slots_def entry_capacity_def)
  ultimately show ?thesis using table_set_ordered [OF assms(1) run] by auto
qed

lemma insert_all_room:
  "ordered_table t \<Longrightarrow> length kvs \<le> free_slots t \<Longrightarrow>
   \<exists>t'. insert_all table_set t kvs = Some (Inr t')"
proof (induction kvs arbitrary: t)
  case (Cons kv kvs)
  then obtain fresh t' where "table_set t (fst kv) (snd kv) = Some (Inr (fresh, t'))"
    "ordered_table t'" "free_slots t \<le> free_slots t' + 1"
    using table_set_free_slot [of t "fst kv" "snd kv"] by auto
  with Cons show ?case by auto
qed simp

text \<open>
  A table grows only when three quarters of its capacity are in use, so the capacity stays
  proportional to the number of its pairs and few pairs never make it too large.
\<close>

lemma ensure_free_capacity_bound:
  assumes wf: "wf_table t" and run: "ensure_free_capacity t = Some (Inr t')"
  shows "unat (entry_capacity t') \<le> max (unat (entry_capacity t)) (3 * length (table_pairs t) + 8)"
  using wf
proof (cases rule: wf_tableE)
  case null
  have "storage_make initial_table_capacity = Some (Inr \<lparr>slots = [], slot_capacity = initial_table_capacity\<rparr>)"
    by (simp add: storage_make_def safe_array_size_def checked_add_unsigned_def initial_table_capacity_def)
  then show ?thesis
    using run null
    by (auto simp: ensure_free_capacity_def init_first_def bind_fallible_def entry_capacity_def
        initial_table_capacity_def split: option.splits sum.splits)
next
  case (parts k buffer s)
  note d = wf_partsD [OF parts(3)]
  have pairs: "length (table_pairs t) = unat (table_size t)"
    using d(9) parts(2) by (simp add: table_pairs_def)
  show ?thesis
  proof (cases "storage_full s")
    case False
    then show ?thesis
      using run parts by (simp add: ensure_free_capacity_def)
  next
    case full: True
    show ?thesis
    proof (cases "entry_capacity t div 4 \<le> table_size t div 3")
      case True
      then have "grow t = Some (Inr t')"
        using run parts full by (simp add: ensure_free_capacity_def)
      then have "unat (entry_capacity t') = 2 * unat (entry_capacity t)"
        using grow_correct [OF parts(3,1,2)] parts(2) by (auto simp: entry_capacity_def)
      moreover have "unat (entry_capacity t) div 4 \<le> unat (table_size t) div 3"
        using True by (simp add: word_le_nat_alt unat_div)
      ultimately show ?thesis
        using pairs by linarith
    next
      case False
      then have "compact (cell_class buffer) t = Some t'"
        using run parts full by (auto simp: ensure_free_capacity_def index_size_class_eq [OF parts(3,2)])
      then show ?thesis
        using compact_correct [OF parts(3,1,2)] parts(2) by (auto simp: entry_capacity_def)
    qed
  qed
qed

lemma table_set_bound:
  assumes "wf_table t" and "table_set t key v = Some (Inr (fresh, t'))"
  shows "unat (entry_capacity t') \<le> max (unat (entry_capacity t)) (3 * length (table_pairs t) + 8)"
proof -
  obtain t1 where t1: "ensure_free_capacity t = Some (Inr t1)"
    "set_impl (index_size_class t1) t1 key v = Some (fresh, t')"
    using assms(2) by (auto simp: table_set_def bind_fallible_def split: option.splits sum.splits)
  show ?thesis
    using ensure_free_capacity_bound [OF assms(1) t1(1)] set_impl_capacity [OF t1(2)] by simp
qed

lemma distinct_keys_distinct: "distinct_keys kvs \<Longrightarrow> distinct (map fst kvs)"
proof (induction kvs)
  case (Cons kv kvs)
  then show ?case
    by (auto simp: distinct_keys_def)
qed simp

lemma pairs_set_keys: "fst ` set (pairs_set kvs key v) \<subseteq> insert key (fst ` set kvs)"
  by (force simp: pairs_set_def split: if_splits)

lemma few_keys:
  assumes "ordered_table t" and "fst ` set (table_pairs t) \<subseteq> K" and "finite K"
  shows "length (table_pairs t) \<le> card K"
proof -
  have "length (table_pairs t) = card (set (map fst (table_pairs t)))"
    using assms(1) distinct_card [OF distinct_keys_distinct] by (simp add: ordered_table_def)
  also have "\<dots> \<le> card K"
    using assms(2,3) by (intro card_mono) auto
  finally show ?thesis .
qed

lemma insert_all_few_keys:
  assumes "finite K" and "card K < 2 ^ 56"
  shows "ordered_table t \<Longrightarrow> fst ` set (table_pairs t) \<subseteq> K \<Longrightarrow> fst ` set kvs \<subseteq> K \<Longrightarrow>
    unat (entry_capacity t) \<le> 3 * card K + 8 \<Longrightarrow> \<exists>t'. insert_all table_set t kvs = Some (Inr t')"
proof (induction kvs arbitrary: t)
  case (Cons kv kvs)
  have wf: "wf_table t"
    using Cons.prems(1) by (simp add: ordered_table_def)
  obtain r where r: "table_set t (fst kv) (snd kv) = Some r"
    "case r of Inl _ \<Rightarrow> 2 ^ 58 \<le> unat (entry_capacity t) | Inr _ \<Rightarrow> True"
  proof -
    obtain r where "table_set t (fst kv) (snd kv) = Some r" and
      "case r of Inl _ \<Rightarrow> 2 ^ 58 \<le> unat (entry_capacity t) | Inr (fresh, t') \<Rightarrow> wf_table t'
         \<and> (ordered_table t \<longrightarrow> ordered_table t' \<and> table_pairs t' = pairs_set (table_pairs t) (fst kv) (snd kv)
              \<and> fresh = (pairs_find (table_pairs t) (fst kv) = None))"
      using table_set_correct [OF wf] by blast
    then show thesis
      by (intro that [of r]) (simp_all split: sum.splits)
  qed
  have "3 * card K + 8 < 2 ^ 58"
    using assms(2) by simp
  then obtain fresh t1 where t1: "table_set t (fst kv) (snd kv) = Some (Inr (fresh, t1))"
    using r Cons.prems(4) by (cases r) auto
  note ord = table_set_ordered [OF Cons.prems(1) t1]
  have "fst ` set (table_pairs t1) \<subseteq> K"
  proof -
    have "insert (fst kv) (fst ` set (table_pairs t)) \<subseteq> K"
      using Cons.prems(2,3) by simp
    then show ?thesis
      using ord order_trans [OF pairs_set_keys] by simp
  qed
  moreover have "unat (entry_capacity t1) \<le> 3 * card K + 8"
    using table_set_bound [OF wf t1] few_keys [OF Cons.prems(1,2) assms(1)] Cons.prems(4) by simp
  ultimately show ?case
    using Cons.IH [of t1] ord Cons.prems(3) t1 by simp
qed simp

lemma free_slots_eq:
  assumes "unat (occupied_entries t) = 0" and "ordered_table t"
  shows "free_slots t = unat (entry_capacity t)"
  using assms storage_size_eq
  by (auto simp: free_slots_def occupied_entries_def entry_capacity_def ordered_table_def
      elim!: wf_tableE)

text \<open>The value that a list of pairs gives to a key: that of its last pair with the key.\<close>

definition last_value :: "(val \<times> val) list \<Rightarrow> val \<Rightarrow> val option" where
  "last_value kvs key = map_option snd (find (\<lambda>kv. same_key (fst kv) key) (rev kvs))"

lemma interpret_map_correct:
  assumes vs: "pair_up vs = Some kvs" and len: "length vs < 2 ^ 32"
  shows "\<exists>t. interpret_map vs = Some (Inr t) \<and> ordered_table t
    \<and> (\<forall>key. table_get t key = Some (last_value kvs key))"
proof -
  have n: "unat (word_of_nat (length vs) :: size_t) = length vs" using len by (simp add: unat_of_nat)
  then obtain t0 where t0: "table_make (word_of_nat (length vs)) = Some (Inr t0)" "ordered_table t0"
    "table_pairs t0 = []" "length vs \<le> unat (entry_capacity t0)" "unat (occupied_entries t0) = 0"
    using table_make_correct [of "word_of_nat (length vs)"] len by auto
  have "length kvs \<le> free_slots t0"
    using t0(4) length_pair_up [OF vs] free_slots_eq [OF t0(5,2)] by simp
  then obtain t where t: "insert_all table_set t0 kvs = Some (Inr t)"
    using insert_all_room [OF t0(2)] by blast
  have "table_get t key = Some (last_value kvs key)" for key
    using table_map.insert_all_find [OF t0(2) t, of key]
    by (simp add: table_get_find table_map.last_written_def last_value_def
        table_find_correct [OF t0(2)] t0(3) pairs_find_def split: option.splits)
  moreover have "interpret_map vs = Some (Inr t)"
    using t0(1) vs t by (simp add: interpret_map_def bind_fallible_def)
  ultimately show ?thesis using table_map.insert_all_inv [OF t0(2) t] by blast
qed

subsection \<open>Example tables\<close>

text \<open>The keys \<open>null\<close>, \<open>undefined\<close> and \<open>false\<close> all have the hash 0.\<close>

definition entry0 :: "val \<Rightarrow> i64 \<Rightarrow> hash_entry" where
  "entry0 key i = \<lparr>entry_hash = 0, entry_key = key, entry_value = SmallInteger i\<rparr>"

definition small_table :: "nat list \<Rightarrow> hash_entry list \<Rightarrow> size_t \<Rightarrow> hash_table" where
  "small_table xs es n =
     \<lparr>index_slot = Some \<lparr>cell_class = U8, cells = xs\<rparr>,
      entries_slot = Some \<lparr>slots = es, slot_capacity = 6\<rparr>, table_size = n, table_mask = 7\<rparr>"

lemma replicate_8: "replicate 8 x = [x, x, x, x, x, x, x, x]"
  by (simp add: eval_nat_numeral)

lemmas table_set_run = table_set_def ensure_free_capacity_def bind_fallible_def storage_full_def
  storage_size_def init_first_def storage_make_def safe_array_size_def checked_add_unsigned_def
  initial_table_capacity_def initial_index_capacity_def index_buffer_make_def empty_value_def
  index_size_class_def entry_capacity_def size_class_for_def set_impl_def index_values_def
  cast_index_def make_hash_def make_hash_raw_def deleted_value_def bucket_for_hash_def
  next_bucket_def distance_from_ideal_def storage_append_def table_new_def key_equal_def same_def
  set_loop.simps steal_loop.simps Let_def small_table_def entry0_def word_le_nat_alt
  word_less_nat_alt replicate_8

lemmas table_remove_run = table_remove_def remove_impl_def table_empty_def find_impl_def
  find_loop.simps storage_remove_last_def storage_set_def storage_clear_def
  remove_from_index_def remove_loop.simps make_deleted_def is_deleted_def storage_size_def
  empty_value_def index_size_class_def entry_capacity_def size_class_for_def index_values_def
  make_hash_def make_hash_raw_def deleted_value_def bucket_for_hash_def next_bucket_def
  distance_from_ideal_def key_equal_def same_def Let_def small_table_def entry0_def
  word_le_nat_alt word_less_nat_alt table_get_def

definition table1 :: hash_table where
  "table1 = small_table [0, 255, 255, 255, 255, 255, 255, 255] [entry0 Null 1] 1"

definition table2 :: hash_table where
  "table2 = small_table [0, 1, 255, 255, 255, 255, 255, 255] [entry0 Null 1, entry0 (Undefined 16) 2] 2"

definition table3 :: hash_table where
  "table3 = small_table [0, 1, 2, 255, 255, 255, 255, 255]
     [entry0 Null 1, entry0 (Undefined 16) 2, entry0 (Boolean 32 False) 3] 3"

lemma set_table1: "table_set table_new Null (SmallInteger 1) = Some (Inr (True, table1))"
  by (simp add: table_set_run table1_def del: bind_Some_iff)

lemma set_table2: "table_set table1 (Undefined 16) (SmallInteger 2) = Some (Inr (True, table2))"
  by (simp add: table_set_run table1_def table2_def del: bind_Some_iff)

lemma set_table3: "table_set table2 (Boolean 32 False) (SmallInteger 3) = Some (Inr (True, table3))"
  by (simp add: table_set_run table2_def table3_def del: bind_Some_iff)

lemma table1_ordered: "ordered_table table1"
  using table_set_ordered [OF table_new_ordered set_table1] by blast

lemma table2_ordered: "ordered_table table2"
  using table_set_ordered [OF table1_ordered set_table2] by blast

lemma table3_ordered: "ordered_table table3"
  using table_set_ordered [OF table2_ordered set_table3] by blast

text \<open>\<open>table3\<close> after the removal of its first key: the third entry is displaced behind a hole.\<close>

definition table3_removed :: hash_table where
  "table3_removed = small_table [1, 255, 2, 255, 255, 255, 255, 255]
     [make_deleted, entry0 (Undefined 16) 2, entry0 (Boolean 32 False) 3] 2"

lemma remove_table3: "table_remove table3 Null = Some (True, table3_removed)"
  by (simp add: table_remove_run table3_def table3_removed_def del: bind_Some_iff)

lemma table3_removed_wf: "wf_table table3_removed"
  using table_remove_wf [of table3 Null] table3_ordered
  by (simp add: remove_table3 ordered_table_def)

lemma table_find_safe:
  assumes "wf_table t"
  shows "\<exists>r. table_find t key = Some r"
proof (cases "table_empty t")
  case True
  then show ?thesis by (simp add: table_find_def)
next
  case False
  with assms obtain k buffer s where p: "index_slot t = Some buffer" "entries_slot t = Some s"
    "wf_parts k t buffer s" by (auto elim: wf_tableE simp: table_empty_def)
  from find_impl_safe [OF p(3,1,2), of key] obtain r where
    "find_impl (cell_class buffer) t key = Some r"
    "case r of None \<Rightarrow> True | Some (b, i) \<Rightarrow> unat b < 2 ^ k \<and> cells buffer ! unat b = i
      \<and> i < length (slots s) \<and> \<not> is_deleted (slots s ! i) \<and> same_key (entry_key (slots s ! i)) key"
    by blast
  with False p index_size_class_eq [OF p(3,2)] show ?thesis
    by (cases r) (auto simp: table_find_def storage_get_def)
qed

subsection \<open>Properties\<close>

text \<open>
  C1: insertion refines the insertion-ordered association list. On a table that satisfies the
  probing order, and as long as the table is not so large that its arrays could overflow,
  \<open>set\<close> returns, keeps the invariant, overwrites the value of an equal key in place or appends
  the new pair at the end, and reports which of the two happened.
\<close>

theorem table_set_refines:
  assumes "ordered_table t" and "unat (entry_capacity t) < 2 ^ 58"
  shows "\<exists>fresh t'. table_set t key v = Some (Inr (fresh, t')) \<and> ordered_table t'
    \<and> table_pairs t' = pairs_set (table_pairs t) key v
    \<and> fresh = (pairs_find (table_pairs t) key = None)"
proof -
  have wf: "wf_table t" using assms(1) by (simp add: ordered_table_def)
  obtain r where r: "table_set t key v = Some r"
    "case r of Inl _ \<Rightarrow> 2 ^ 58 \<le> unat (entry_capacity t)
       | Inr (fresh, t') \<Rightarrow> wf_table t'
           \<and> (ordered_table t \<longrightarrow> ordered_table t' \<and> table_pairs t' = pairs_set (table_pairs t) key v
                \<and> fresh = (pairs_find (table_pairs t) key = None))"
    using table_set_correct [OF wf] by blast
  then show ?thesis using assms by (cases r) auto
qed

theorem table_set_refines_witness:
  "ordered_table table2 \<and> unat (entry_capacity table2) < 2 ^ 58
    \<and> (\<exists>fresh t'. table_set table2 Null (SmallInteger 7) = Some (Inr (fresh, t')) \<and> ordered_table t'
        \<and> table_pairs t' = pairs_set (table_pairs table2) Null (SmallInteger 7))"
proof -
  have c: "unat (entry_capacity table2) < 2 ^ 58"
    by (simp add: entry_capacity_def table2_def small_table_def)
  show ?thesis
    using table_set_refines [OF table2_ordered c, of Null "SmallInteger 7"] table2_ordered c by blast
qed

text \<open>
  C3: on a table that satisfies the probing order, \<open>find\<close>, \<open>get\<close> and \<open>contains\<close> return and
  agree with the association list: the search neither stops early nor returns a wrong entry.
\<close>

theorem table_lookup_refines:
  assumes "ordered_table t"
  shows "table_find t key = Some (pairs_find (table_pairs t) key)
    \<and> table_get t key = Some (map_option snd (pairs_find (table_pairs t) key))
    \<and> contains t key = Some (pairs_find (table_pairs t) key \<noteq> None)"
proof (intro conjI)
  show f: "table_find t key = Some (pairs_find (table_pairs t) key)"
    by (rule table_find_correct [OF assms])
  show "table_get t key = Some (map_option snd (pairs_find (table_pairs t) key))"
    by (simp add: table_get_find f)
  show "contains t key = Some (pairs_find (table_pairs t) key \<noteq> None)"
    by (rule contains_find [OF f])
qed

theorem table_lookup_refines_witness:
  "ordered_table table3 \<and> table_get table3 (Boolean 48 False)
     = Some (map_option snd (pairs_find (table_pairs table3) (Boolean 48 False)))
   \<and> pairs_find (table_pairs table3) (Boolean 48 False) = Some (Boolean 32 False, SmallInteger 3)"
proof -
  have "pairs_find (table_pairs table3) (Boolean 48 False) = Some (Boolean 32 False, SmallInteger 3)"
    by (simp add: table_pairs_def table3_def small_table_def entry0_def live_def is_deleted_def
        deleted_value_def entry_pair_def pairs_find_def same_key_def make_hash_def make_hash_raw_def
        key_equal_def same_def)
  with table_lookup_refines [OF table3_ordered, of "Boolean 48 False"] table3_ordered
  show ?thesis by blast
qed

text \<open>
  C5: removal takes exactly the pair with the key out of the table and reports whether there
  was one. The invariant on which later searches rest is kept when the removed bucket is
  followed by at most one displaced entry.
\<close>

theorem table_remove_refines:
  assumes "ordered_table t"
  shows "\<exists>r t'. table_remove t key = Some (r, t') \<and> wf_table t'
    \<and> table_pairs t' = pairs_remove (table_pairs t) key
    \<and> r = (pairs_find (table_pairs t) key \<noteq> None)
    \<and> ((\<forall>b i. find_impl (index_size_class t) t key = Some (Some (b, i)) \<longrightarrow> short_run t b)
        \<longrightarrow> ordered_table t')"
  using assms by (rule table_remove_ordered)

theorem table_remove_refines_witness:
  "ordered_table table2 \<and> (\<exists>t'. table_remove table2 Null = Some (True, t') \<and> ordered_table t'
     \<and> table_pairs t' = pairs_remove (table_pairs table2) Null)"
proof -
  have f: "find_impl (index_size_class table2) table2 Null = Some (Some (0, 0))"
    by (simp add: table_remove_run table2_def del: bind_Some_iff)
  moreover have "short_run table2 0"
    by (simp add: short_run_def displaced_def next_bucket_def table2_def small_table_def Let_def
        empty_value_def)
  moreover have "pairs_find (table_pairs table2) Null \<noteq> None"
    by (simp add: table_pairs_def table2_def small_table_def entry0_def live_def is_deleted_def
        deleted_value_def entry_pair_def pairs_find_def same_key_def key_equal_def same_def)
  ultimately show ?thesis
    using table_remove_refines [OF table2_ordered, of Null] table2_ordered by auto
qed

text \<open>
  C6: the backward shift of a removal moves only one entry. After three keys with the same
  hash are inserted and the first is removed, a search does not find the third, although
  the table still holds its pair: the condition of the removal property is needed.
\<close>

theorem removal_loses_key:
  "ordered_table table3 \<and> table_remove table3 Null = Some (True, table3_removed)
    \<and> (Boolean 32 False, SmallInteger 3) \<in> set (table_pairs table3_removed)
    \<and> table_get table3_removed (Boolean 32 False) = Some None"
proof (intro conjI)
  show "ordered_table table3" by (rule table3_ordered)
  show "table_remove table3 Null = Some (True, table3_removed)" by (rule remove_table3)
  show "(Boolean 32 False, SmallInteger 3) \<in> set (table_pairs table3_removed)"
    by (simp add: table_pairs_def table3_removed_def small_table_def entry0_def live_def
        make_deleted_def is_deleted_def deleted_value_def entry_pair_def)
  show "table_get table3_removed (Boolean 32 False) = Some None"
    by (simp add: table_remove_run table3_removed_def del: bind_Some_iff)
qed

text \<open>
  C4: every operation is safe on every table that operations can produce, removals with
  their incomplete shift included: it stays inside of its arrays, its loops end, and the
  structural invariant holds afterwards.
\<close>

theorem table_operations_safe:
  assumes "wf_table t"
  shows "(\<exists>r. table_set t key v = Some r \<and> (\<forall>fresh t'. r = Inr (fresh, t') \<longrightarrow> wf_table t'))
    \<and> (\<exists>r t'. table_remove t key = Some (r, t') \<and> wf_table t')
    \<and> (\<exists>t'. table_clear t = Some t' \<and> wf_table t')
    \<and> table_find t key \<noteq> None \<and> table_get t key \<noteq> None \<and> contains t key \<noteq> None"
proof (intro conjI)
  obtain r where "table_find t key = Some r" using table_find_safe [OF assms] by blast
  then show "table_find t key \<noteq> None" "table_get t key \<noteq> None" "contains t key \<noteq> None"
    by (simp_all add: table_get_find contains_find)
  show "\<exists>r t'. table_remove t key = Some (r, t') \<and> wf_table t'" by (rule table_remove_wf [OF assms])
  show "\<exists>t'. table_clear t = Some t' \<and> wf_table t'" using table_clear_correct [OF assms] by blast
  show "\<exists>r. table_set t key v = Some r \<and> (\<forall>fresh t'. r = Inr (fresh, t') \<longrightarrow> wf_table t')"
    using table_set_correct [OF assms, of key v] by auto
qed

theorem table_operations_safe_witness:
  "wf_table table3_removed
    \<and> (\<exists>r t'. table_remove table3_removed (Boolean 32 False) = Some (r, t') \<and> wf_table t')"
  using table_operations_safe [OF table3_removed_wf, of "Boolean 32 False" Null] table3_removed_wf
  by blast

text \<open>
  iterating over a table visits its live pairs in insertion order, once each, and ends.
\<close>

lemma iteration_in_order: "for_each t = Some (table_pairs t)"
  by (rule for_each_correct)

text \<open>
  Clearing a table whose probing order holds leaves an empty table with the full invariant.
\<close>

lemma table_clear_empties:
  assumes "ordered_table t"
  shows "\<exists>t'. table_clear t = Some t' \<and> ordered_table t' \<and> table_pairs t' = []"
  using table_clear_correct [of t] assms by (auto simp: ordered_table_def)

text \<open>
  A table made for a requested number of entries has room for that many; the capacity
  computation neither overflows nor rounds down.
\<close>

lemma table_make_has_room:
  assumes "unat n \<le> 2 ^ 57"
  shows "\<exists>t. table_make n = Some (Inr t) \<and> ordered_table t \<and> table_pairs t = []
    \<and> unat n \<le> unat (entry_capacity t) \<and> unat (occupied_entries t) = 0"
  using assms by (rule table_make_correct)

text \<open>
  C7: a map literal of the interpreter never fails on its preallocated table, and every key
  of the result has the value of its last occurrence in the literal.
\<close>

theorem map_literal_last_value:
  assumes "pair_up vs = Some kvs" and "length vs < 2 ^ 32"
  shows "\<exists>t. interpret_map vs = Some (Inr t) \<and> ordered_table t
    \<and> (\<forall>key. table_get t key = Some (last_value kvs key))"
  using assms by (rule interpret_map_correct)

theorem map_literal_last_value_witness:
  "pair_up [Null, SmallInteger 1, Null, SmallInteger 2]
      = Some [(Null, SmallInteger 1), (Null, SmallInteger 2)]
    \<and> (\<exists>t. interpret_map [Null, SmallInteger 1, Null, SmallInteger 2] = Some (Inr t)
        \<and> table_get t Null = Some (Some (SmallInteger 2)))"
proof -
  have p: "pair_up [Null, SmallInteger 1, Null, SmallInteger 2]
      = Some [(Null, SmallInteger 1), (Null, SmallInteger 2)]" by simp
  have l: "length [Null, SmallInteger 1, Null, SmallInteger 2] < 2 ^ 32" by simp
  have "last_value [(Null, SmallInteger 1), (Null, SmallInteger 2)] Null = Some (SmallInteger 2)"
    by (simp add: last_value_def)
  with map_literal_last_value [OF p l] p show ?thesis by metis
qed

end
