(* ===== verification/Binary.thy ===== *)
theory Binary
  imports Prelude
begin

text \<open>
  Byte order conversion (src/common/memory/byte_order.hpp) and the binary reader and writer
  (src/common/memory/binary.hpp). An integer of \<open>n\<close> bytes in memory is its list of bytes in
  the order of the host; the formats are big endian. The reader's state is the input that
  remains; a failed bounds check (an exception in the source) is the value \<open>None\<close>.
\<close>

unbundle bit_operations_syntax

datatype byte_order = BigEndian | LittleEndian

text \<open>The bytes of a number, most significant first, and the number of such bytes.\<close>

fun nat_to_be :: "nat \<Rightarrow> nat \<Rightarrow> bytes" where
  "nat_to_be 0 x = []"
| "nat_to_be (Suc n) x = nat_to_be n (x div 256) @ [word_of_nat x]"

definition be_to_nat :: "bytes \<Rightarrow> nat" where
  "be_to_nat bs = foldl (\<lambda>a b. a * 256 + unat b) 0 bs"

definition byte_count :: "'a::len itself \<Rightarrow> nat" where
  "byte_count _ = LENGTH('a) div 8"

text \<open>The object representation of an integer, and the integer with a representation.\<close>

definition memory_bytes :: "byte_order \<Rightarrow> 'a::len word \<Rightarrow> bytes" where
  "memory_bytes host v =
     (let bs = nat_to_be (byte_count TYPE('a)) (unat v)
      in case host of BigEndian \<Rightarrow> bs | LittleEndian \<Rightarrow> rev bs)"

definition from_memory :: "byte_order \<Rightarrow> bytes \<Rightarrow> 'a::len word" where
  "from_memory host bs =
     word_of_nat (be_to_nat (case host of BigEndian \<Rightarrow> bs | LittleEndian \<Rightarrow> rev bs))"

definition byteswap :: "'a::len word \<Rightarrow> 'a word" where
  "byteswap v = from_memory BigEndian (rev (memory_bytes BigEndian v))"

definition convert_byte_order :: "byte_order \<Rightarrow> byte_order \<Rightarrow> 'a::len word \<Rightarrow> 'a word" where
  "convert_byte_order source_order target_order v =
     (if byte_count TYPE('a) = 1 then v
      else if source_order \<noteq> target_order then byteswap v else v)"

definition host_to_be :: "byte_order \<Rightarrow> 'a::len word \<Rightarrow> 'a word" where
  "host_to_be host v = convert_byte_order host BigEndian v"

definition be_to_host :: "byte_order \<Rightarrow> 'a::len word \<Rightarrow> 'a word" where
  "be_to_host host v = convert_byte_order BigEndian host v"

text \<open>Writing appends the bytes of the converted value; reading takes them off the front.\<close>

definition emit_raw :: "byte_order \<Rightarrow> 'a::len word \<Rightarrow> bytes" where
  "emit_raw host v = memory_bytes host (host_to_be host v)"

definition overwrite_raw :: "byte_order \<Rightarrow> bytes \<Rightarrow> nat \<Rightarrow> 'a::len word \<Rightarrow> bytes option" where
  "overwrite_raw host out pos v =
     (let bs = memory_bytes host (host_to_be host v)
      in if pos + length bs \<le> length out
         then Some (take pos out @ bs @ drop (pos + length bs) out) else None)"

definition read_raw :: "byte_order \<Rightarrow> bytes \<Rightarrow> ('a::len word \<times> bytes) option" where
  "read_raw host bs =
     (let n = byte_count TYPE('a)
      in if n \<le> length bs
         then Some (be_to_host host (from_memory host (take n bs)), drop n bs) else None)"

subsection \<open>Bytes of numbers\<close>

lemma be_to_nat_snoc: "be_to_nat (bs @ [b]) = be_to_nat bs * 256 + unat b"
  by (simp add: be_to_nat_def)

lemma length_nat_to_be [simp]: "length (nat_to_be n x) = n"
  by (induction n arbitrary: x) auto

lemma be_to_nat_to_be: "be_to_nat (nat_to_be n x) = x mod 256 ^ n"
proof (induction n arbitrary: x)
  case 0
  then show ?case by (simp add: be_to_nat_def)
next
  case (Suc n)
  have "unat (word_of_nat x :: u8) = x mod 256" by (simp add: unat_of_nat)
  with Suc show ?case by (simp add: be_to_nat_snoc mod_mult2_eq)
qed

lemma nat_to_be_to_nat: "nat_to_be (length bs) (be_to_nat bs) = bs"
proof (induction bs rule: rev_induct)
  case Nil
  then show ?case by simp
next
  case (snoc b bs)
  have b: "unat b < 256" using unsigned_less [of b, where 'a = nat] by simp
  then have "(be_to_nat bs * 256 + unat b) div 256 = be_to_nat bs" by simp
  moreover have "(word_of_nat (be_to_nat bs * 256 + unat b) :: u8) = b"
    using b unat_of_nat [where 'a = 8, of "be_to_nat bs * 256 + unat b"]
    by (simp only: word_unat_eq_iff) (simp add: mod_simps del: of_nat_add of_nat_mult)
  ultimately show ?case using snoc by (simp add: be_to_nat_snoc)
qed

lemma be_to_nat_less: "be_to_nat bs < 256 ^ length bs"
proof (induction bs rule: rev_induct)
  case Nil
  then show ?case by (simp add: be_to_nat_def)
next
  case (snoc b bs)
  have "unat b < 256" using unsigned_less [of b, where 'a = nat] by simp
  with snoc show ?case by (simp add: be_to_nat_snoc)
qed

definition whole_bytes :: "'a::len itself \<Rightarrow> bool" where
  "whole_bytes _ \<longleftrightarrow> LENGTH('a) = 8 * byte_count TYPE('a)"

lemma whole_bytes_exp: "whole_bytes TYPE('a::len) \<Longrightarrow> (256::nat) ^ byte_count TYPE('a) = 2 ^ LENGTH('a)"
  by (simp add: whole_bytes_def power_mult)

lemma memory_bytes_roundtrip:
  assumes "whole_bytes TYPE('a::len)"
  shows "from_memory host (memory_bytes host (v :: 'a word)) = v"
proof -
  have "be_to_nat (nat_to_be (byte_count TYPE('a)) (unat v)) = unat v"
    using whole_bytes_exp [OF assms] by (simp add: be_to_nat_to_be)
  then show ?thesis
    by (simp add: from_memory_def memory_bytes_def Let_def split: byte_order.split)
qed

lemma from_memory_roundtrip:
  assumes "whole_bytes TYPE('a::len)" and "length bs = byte_count TYPE('a)"
  shows "memory_bytes host (from_memory host bs :: 'a word) = bs"
proof -
  have u: "unat (word_of_nat (be_to_nat cs) :: 'a word) = be_to_nat cs"
    if "length cs = byte_count TYPE('a)" for cs
    using be_to_nat_less [of cs] that whole_bytes_exp [OF assms(1)] by (simp add: unat_of_nat)
  then show ?thesis
    using assms(2) nat_to_be_to_nat [of bs] nat_to_be_to_nat [of "rev bs"]
    by (cases host) (simp_all add: memory_bytes_def from_memory_def Let_def)
qed

lemma length_memory_bytes [simp]: "length (memory_bytes host (v :: 'a::len word)) = byte_count TYPE('a)"
  by (simp add: memory_bytes_def Let_def split: byte_order.split)

text \<open>The bytes that are written do not depend on the host.\<close>

lemma emit_raw_be:
  assumes "whole_bytes TYPE('a::len)"
  shows "emit_raw host (v :: 'a word) = nat_to_be (byte_count TYPE('a)) (unat v)"
proof (cases host)
  case BigEndian
  then show ?thesis
    by (simp add: emit_raw_def host_to_be_def convert_byte_order_def memory_bytes_def)
next
  case LittleEndian
  show ?thesis
  proof (cases "byte_count TYPE('a) = 1")
    case True
    then show ?thesis
      by (simp add: LittleEndian emit_raw_def host_to_be_def convert_byte_order_def memory_bytes_def)
  next
    case False
    have "memory_bytes BigEndian (byteswap v) = rev (memory_bytes BigEndian v)"
      unfolding byteswap_def using assms by (intro from_memory_roundtrip) auto
    then have "rev (memory_bytes LittleEndian (byteswap v)) = rev (memory_bytes BigEndian v)"
      by (simp add: memory_bytes_def Let_def)
    with False show ?thesis
      by (simp add: LittleEndian emit_raw_def host_to_be_def convert_byte_order_def)
         (simp add: memory_bytes_def)
  qed
qed

lemma byteswap_byteswap: "whole_bytes TYPE('a::len) \<Longrightarrow> byteswap (byteswap (v :: 'a word)) = v"
  using from_memory_roundtrip [where 'a = 'a, of "rev (memory_bytes BigEndian v)" BigEndian]
    memory_bytes_roundtrip [where 'a = 'a, of BigEndian v] by (simp add: byteswap_def)

lemma be_to_host_to_be:
  "whole_bytes TYPE('a::len) \<Longrightarrow> be_to_host host (host_to_be host (v :: 'a word)) = v"
  by (simp add: be_to_host_def host_to_be_def convert_byte_order_def byteswap_byteswap)

lemma host_to_be_to_host:
  "whole_bytes TYPE('a::len) \<Longrightarrow> host_to_be host (be_to_host host (v :: 'a word)) = v"
  by (simp add: be_to_host_def host_to_be_def convert_byte_order_def byteswap_byteswap)

lemma read_emit_raw:
  assumes "whole_bytes TYPE('a::len)"
  shows "read_raw host (emit_raw host (v :: 'a word) @ rest) = Some (v, rest)"
  using memory_bytes_roundtrip [OF assms, of host "host_to_be host v"] be_to_host_to_be [OF assms]
  by (simp add: read_raw_def emit_raw_def)

lemma read_raw_sound:
  assumes "whole_bytes TYPE('a::len)" and "read_raw host bs = Some (v :: 'a word, rest)"
  shows "bs = emit_raw host v @ rest"
proof -
  let ?n = "byte_count TYPE('a)"
  from assms(2) have n: "?n \<le> length bs" and v: "v = be_to_host host (from_memory host (take ?n bs))"
    and r: "rest = drop ?n bs" by (auto simp: read_raw_def Let_def split: if_splits)
  have "emit_raw host v = take ?n bs"
    using host_to_be_to_host [OF assms(1)] from_memory_roundtrip [OF assms(1), of "take ?n bs" host] n
    by (simp add: emit_raw_def v)
  with r show ?thesis by simp
qed

lemma codec_raw:
  "whole_bytes TYPE('a::len) \<Longrightarrow>
   codec (emit_raw host :: 'a word \<Rightarrow> bytes) (read_raw host) (byte_count TYPE('a))"
proof (unfold_locales, goal_cases)
  case (1 x)
  then show ?case by (simp add: emit_raw_def)
next
  case (2 x rest)
  then show ?case by (rule read_emit_raw)
next
  case (3 bs)
  then show ?case by (simp add: read_raw_def)
next
  case (4 bs x rest)
  then show ?case by (rule read_raw_sound)
qed

subsection \<open>The operations of the reader and the writer\<close>

text \<open>
  The bytes are the same on every host, so the formats built on them fix the host; signed
  integers and doubles are stored by their bit pattern.
\<close>

definition host :: byte_order where
  "host = LittleEndian"

definition emit_u8 :: "u8 \<Rightarrow> bytes" where "emit_u8 v = emit_raw host v"
definition emit_u16 :: "u16 \<Rightarrow> bytes" where "emit_u16 v = emit_raw host v"
definition emit_u32 :: "u32 \<Rightarrow> bytes" where "emit_u32 v = emit_raw host v"
definition emit_u64 :: "u64 \<Rightarrow> bytes" where "emit_u64 v = emit_raw host v"
definition emit_i64 :: "i64 \<Rightarrow> bytes" where "emit_i64 v = emit_u64 v"
definition emit_f64 :: "f64 \<Rightarrow> bytes" where "emit_f64 v = emit_u64 v"

definition read_u8 :: "bytes \<Rightarrow> (u8 \<times> bytes) option" where "read_u8 bs = read_raw host bs"
definition read_u16 :: "bytes \<Rightarrow> (u16 \<times> bytes) option" where "read_u16 bs = read_raw host bs"
definition read_u32 :: "bytes \<Rightarrow> (u32 \<times> bytes) option" where "read_u32 bs = read_raw host bs"
definition read_u64 :: "bytes \<Rightarrow> (u64 \<times> bytes) option" where "read_u64 bs = read_raw host bs"
definition read_i64 :: "bytes \<Rightarrow> (i64 \<times> bytes) option" where "read_i64 bs = read_u64 bs"
definition read_f64 :: "bytes \<Rightarrow> (f64 \<times> bytes) option" where "read_f64 bs = read_u64 bs"

interpretation codec_u8: codec emit_u8 read_u8 1
  using codec_raw [where 'a = 8, of host]
  by (simp add: emit_u8_def [abs_def] read_u8_def [abs_def] byte_count_def whole_bytes_def)

interpretation codec_u16: codec emit_u16 read_u16 2
  using codec_raw [where 'a = 16, of host]
  by (simp add: emit_u16_def [abs_def] read_u16_def [abs_def] byte_count_def whole_bytes_def)

interpretation codec_u32: codec emit_u32 read_u32 4
  using codec_raw [where 'a = 32, of host]
  by (simp add: emit_u32_def [abs_def] read_u32_def [abs_def] byte_count_def whole_bytes_def)

interpretation codec_u64: codec emit_u64 read_u64 8
  using codec_raw [where 'a = 64, of host]
  by (simp add: emit_u64_def [abs_def] read_u64_def [abs_def] byte_count_def whole_bytes_def)

subsection \<open>Properties\<close>

text \<open>
  What one host writes, a host of any byte order reads back: the bytes of an integer of
  any whole number of bytes do not depend on the host that wrote them.
\<close>

lemma byte_order_portable:
  assumes "LENGTH('a::len) = 8 * byte_count TYPE('a)"
  shows "emit_raw host1 (v :: 'a word) = emit_raw host2 v
    \<and> read_raw host2 (emit_raw host1 v @ rest) = Some (v, rest)"
proof -
  have w: "whole_bytes TYPE('a)" using assms by (simp add: whole_bytes_def)
  have "emit_raw host1 v = emit_raw host2 v" by (simp add: emit_raw_be [OF w])
  then show ?thesis using read_emit_raw [OF w] by simp
qed

end
