(* ===== verification/Instruction.thy ===== *)
theory Instruction
  imports Binary
begin

text \<open>
  The instruction set: the operation codes of src/bytecode/op.hpp, the instructions of
  src/bytecode/instruction.hpp with their typed operands (src/bytecode/entities.hpp), and
  the classification of src/bytecode/op.cpp. An entity id is a 32-bit number whose largest
  value is reserved as invalid.
\<close>

subsection \<open>Entity ids\<close>

datatype bytecode_register = Register (register_id: u32)
datatype bytecode_param = Param (param_id: u32)
datatype bytecode_member = MemberId (member_id: u32)
datatype bytecode_offset = Offset (offset_value: u32)

definition invalid_value :: u32 where
  "invalid_value = - 1"

fun valid_member :: "bytecode_member \<Rightarrow> bool" where
  "valid_member (MemberId i) = (i \<noteq> invalid_value)"

fun valid_offset :: "bytecode_offset \<Rightarrow> bool" where
  "valid_offset (Offset i) = (i \<noteq> invalid_value)"

subsection \<open>Operation codes and instructions\<close>

text \<open>The enumeration starts at 1; the code of an operation is its position.\<close>

datatype (plugins only: code) bytecode_op =
    OpLoadNull | OpLoadFalse | OpLoadTrue | OpLoadInt | OpLoadFloat | OpLoadParam | OpStoreParam
  | OpLoadModule | OpStoreModule | OpLoadMember | OpStoreMember | OpLoadTupleMember
  | OpStoreTupleMember | OpLoadIndex | OpStoreIndex | OpLoadClosure | OpLoadEnv | OpStoreEnv
  | OpAdd | OpSub | OpMul | OpDiv | OpMod | OpPow | OpUAdd | OpUNeg | OpLSh | OpRSh | OpBAnd
  | OpBOr | OpBXor | OpBNot | OpGt | OpGte | OpLt | OpLte | OpEq | OpNEq | OpLNot | OpArray
  | OpTuple | OpSet | OpMap | OpEnv | OpClosure | OpRecord | OpIterator | OpIteratorNext
  | OpFormatter | OpAppendFormat | OpFormatResult | OpCopy | OpSwap | OpPush | OpPop | OpPopTo
  | OpJmp | OpJmpTrue | OpJmpFalse | OpJmpNull | OpJmpNotNull | OpCall | OpLoadMethod
  | OpCallMethod | OpReturn | OpRethrow | OpAssertFail

datatype (plugins only: code) instr =
    LoadNull bytecode_register
  | LoadFalse bytecode_register
  | LoadTrue bytecode_register
  | LoadInt i64 bytecode_register
  | LoadFloat f64 bytecode_register
  | LoadParam bytecode_param bytecode_register
  | StoreParam bytecode_register bytecode_param
  | LoadModule bytecode_member bytecode_register
  | StoreModule bytecode_register bytecode_member
  | LoadMember bytecode_register bytecode_member bytecode_register
  | StoreMember bytecode_register bytecode_register bytecode_member
  | LoadTupleMember bytecode_register u32 bytecode_register
  | StoreTupleMember bytecode_register bytecode_register u32
  | LoadIndex bytecode_register bytecode_register bytecode_register
  | StoreIndex bytecode_register bytecode_register bytecode_register
  | LoadClosure bytecode_register
  | LoadEnv bytecode_register u32 u32 bytecode_register
  | StoreEnv bytecode_register bytecode_register u32 u32
  | Add bytecode_register bytecode_register bytecode_register
  | Sub bytecode_register bytecode_register bytecode_register
  | Mul bytecode_register bytecode_register bytecode_register
  | Div bytecode_register bytecode_register bytecode_register
  | Mod bytecode_register bytecode_register bytecode_register
  | Pow bytecode_register bytecode_register bytecode_register
  | UAdd bytecode_register bytecode_register
  | UNeg bytecode_register bytecode_register
  | LSh bytecode_register bytecode_register bytecode_register
  | RSh bytecode_register bytecode_register bytecode_register
  | BAnd bytecode_register bytecode_register bytecode_register
  | BOr bytecode_register bytecode_register bytecode_register
  | BXor bytecode_register bytecode_register bytecode_register
  | BNot bytecode_register bytecode_register
  | Gt bytecode_register bytecode_register bytecode_register
  | Gte bytecode_register bytecode_register bytecode_register
  | Lt bytecode_register bytecode_register bytecode_register
  | Lte bytecode_register bytecode_register bytecode_register
  | Eq bytecode_register bytecode_register bytecode_register
  | NEq bytecode_register bytecode_register bytecode_register
  | LNot bytecode_register bytecode_register
  | Array u32 bytecode_register
  | Tuple u32 bytecode_register
  | Set u32 bytecode_register
  | Map u32 bytecode_register
  | Env bytecode_register u32 bytecode_register
  | Closure bytecode_member bytecode_register bytecode_register
  | Record bytecode_member bytecode_register
  | Iterator bytecode_register bytecode_register
  | IteratorNext bytecode_register bytecode_register bytecode_register
  | Formatter bytecode_register
  | AppendFormat bytecode_register bytecode_register
  | FormatResult bytecode_register bytecode_register
  | Copy bytecode_register bytecode_register
  | Swap bytecode_register bytecode_register
  | Push bytecode_register
  | Pop
  | PopTo bytecode_register
  | Jmp bytecode_offset
  | JmpTrue bytecode_register bytecode_offset
  | JmpFalse bytecode_register bytecode_offset
  | JmpNull bytecode_register bytecode_offset
  | JmpNotNull bytecode_register bytecode_offset
  | Call bytecode_register u32
  | LoadMethod bytecode_register bytecode_member bytecode_register bytecode_register
  | CallMethod bytecode_register u32
  | Return bytecode_register
  | Rethrow
  | AssertFail bytecode_register bytecode_register

fun op_code :: "bytecode_op \<Rightarrow> u8" where
  "op_code OpLoadNull = 1"
| "op_code OpLoadFalse = 2"
| "op_code OpLoadTrue = 3"
| "op_code OpLoadInt = 4"
| "op_code OpLoadFloat = 5"
| "op_code OpLoadParam = 6"
| "op_code OpStoreParam = 7"
| "op_code OpLoadModule = 8"
| "op_code OpStoreModule = 9"
| "op_code OpLoadMember = 10"
| "op_code OpStoreMember = 11"
| "op_code OpLoadTupleMember = 12"
| "op_code OpStoreTupleMember = 13"
| "op_code OpLoadIndex = 14"
| "op_code OpStoreIndex = 15"
| "op_code OpLoadClosure = 16"
| "op_code OpLoadEnv = 17"
| "op_code OpStoreEnv = 18"
| "op_code OpAdd = 19"
| "op_code OpSub = 20"
| "op_code OpMul = 21"
| "op_code OpDiv = 22"
| "op_code OpMod = 23"
| "op_code OpPow = 24"
| "op_code OpUAdd = 25"
| "op_code OpUNeg = 26"
| "op_code OpLSh = 27"
| "op_code OpRSh = 28"
| "op_code OpBAnd = 29"
| "op_code OpBOr = 30"
| "op_code OpBXor = 31"
| "op_code OpBNot = 32"
| "op_code OpGt = 33"
| "op_code OpGte = 34"
| "op_code OpLt = 35"
| "op_code OpLte = 36"
| "op_code OpEq = 37"
| "op_code OpNEq = 38"
| "op_code OpLNot = 39"
| "op_code OpArray = 40"
| "op_code OpTuple = 41"
| "op_code OpSet = 42"
| "op_code OpMap = 43"
| "op_code OpEnv = 44"
| "op_code OpClosure = 45"
| "op_code OpRecord = 46"
| "op_code OpIterator = 47"
| "op_code OpIteratorNext = 48"
| "op_code OpFormatter = 49"
| "op_code OpAppendFormat = 50"
| "op_code OpFormatResult = 51"
| "op_code OpCopy = 52"
| "op_code OpSwap = 53"
| "op_code OpPush = 54"
| "op_code OpPop = 55"
| "op_code OpPopTo = 56"
| "op_code OpJmp = 57"
| "op_code OpJmpTrue = 58"
| "op_code OpJmpFalse = 59"
| "op_code OpJmpNull = 60"
| "op_code OpJmpNotNull = 61"
| "op_code OpCall = 62"
| "op_code OpLoadMethod = 63"
| "op_code OpCallMethod = 64"
| "op_code OpReturn = 65"
| "op_code OpRethrow = 66"
| "op_code OpAssertFail = 67"

definition bytecode_ops :: "bytecode_op list" where
  "bytecode_ops =
    [OpLoadNull, OpLoadFalse, OpLoadTrue, OpLoadInt, OpLoadFloat, OpLoadParam, OpStoreParam,
     OpLoadModule, OpStoreModule, OpLoadMember, OpStoreMember, OpLoadTupleMember,
     OpStoreTupleMember, OpLoadIndex, OpStoreIndex, OpLoadClosure, OpLoadEnv, OpStoreEnv, OpAdd,
     OpSub, OpMul, OpDiv, OpMod, OpPow, OpUAdd, OpUNeg, OpLSh, OpRSh, OpBAnd, OpBOr, OpBXor,
     OpBNot, OpGt, OpGte, OpLt, OpLte, OpEq, OpNEq, OpLNot, OpArray, OpTuple, OpSet, OpMap,
     OpEnv, OpClosure, OpRecord, OpIterator, OpIteratorNext, OpFormatter, OpAppendFormat,
     OpFormatResult, OpCopy, OpSwap, OpPush, OpPop, OpPopTo, OpJmp, OpJmpTrue, OpJmpFalse,
     OpJmpNull, OpJmpNotNull, OpCall, OpLoadMethod, OpCallMethod, OpReturn, OpRethrow,
     OpAssertFail]"

definition first_opcode :: bytecode_op where
  "first_opcode = OpLoadNull"

definition last_opcode :: bytecode_op where
  "last_opcode = OpAssertFail"

definition valid_opcode :: "u8 \<Rightarrow> bool" where
  "valid_opcode raw_op \<longleftrightarrow> op_code first_opcode \<le> raw_op \<and> raw_op \<le> op_code last_opcode"

text \<open>The cast of a raw opcode to the enumeration.\<close>

definition op_of_code :: "u8 \<Rightarrow> bytecode_op option" where
  "op_of_code raw_op =
     (if valid_opcode raw_op then Some (bytecode_ops ! (unat raw_op - 1)) else None)"

definition references_offset :: "bytecode_op \<Rightarrow> bool" where
  "references_offset op \<longleftrightarrow> op \<in> {OpJmp, OpJmpTrue, OpJmpFalse, OpJmpNull, OpJmpNotNull}"

definition references_module :: "bytecode_op \<Rightarrow> bool" where
  "references_module op \<longleftrightarrow>
     op \<in> {OpLoadModule, OpStoreModule, OpLoadMember, OpStoreMember, OpClosure, OpRecord,
            OpLoadMethod}"

fun instr_op :: "instr \<Rightarrow> bytecode_op" where
  "instr_op (LoadNull _) = OpLoadNull"
| "instr_op (LoadFalse _) = OpLoadFalse"
| "instr_op (LoadTrue _) = OpLoadTrue"
| "instr_op (LoadInt _ _) = OpLoadInt"
| "instr_op (LoadFloat _ _) = OpLoadFloat"
| "instr_op (LoadParam _ _) = OpLoadParam"
| "instr_op (StoreParam _ _) = OpStoreParam"
| "instr_op (LoadModule _ _) = OpLoadModule"
| "instr_op (StoreModule _ _) = OpStoreModule"
| "instr_op (LoadMember _ _ _) = OpLoadMember"
| "instr_op (StoreMember _ _ _) = OpStoreMember"
| "instr_op (LoadTupleMember _ _ _) = OpLoadTupleMember"
| "instr_op (StoreTupleMember _ _ _) = OpStoreTupleMember"
| "instr_op (LoadIndex _ _ _) = OpLoadIndex"
| "instr_op (StoreIndex _ _ _) = OpStoreIndex"
| "instr_op (LoadClosure _) = OpLoadClosure"
| "instr_op (LoadEnv _ _ _ _) = OpLoadEnv"
| "instr_op (StoreEnv _ _ _ _) = OpStoreEnv"
| "instr_op (Add _ _ _) = OpAdd"
| "instr_op (Sub _ _ _) = OpSub"
| "instr_op (Mul _ _ _) = OpMul"
| "instr_op (Div _ _ _) = OpDiv"
| "instr_op (Mod _ _ _) = OpMod"
| "instr_op (Pow _ _ _) = OpPow"
| "instr_op (UAdd _ _) = OpUAdd"
| "instr_op (UNeg _ _) = OpUNeg"
| "instr_op (LSh _ _ _) = OpLSh"
| "instr_op (RSh _ _ _) = OpRSh"
| "instr_op (BAnd _ _ _) = OpBAnd"
| "instr_op (BOr _ _ _) = OpBOr"
| "instr_op (BXor _ _ _) = OpBXor"
| "instr_op (BNot _ _) = OpBNot"
| "instr_op (Gt _ _ _) = OpGt"
| "instr_op (Gte _ _ _) = OpGte"
| "instr_op (Lt _ _ _) = OpLt"
| "instr_op (Lte _ _ _) = OpLte"
| "instr_op (Eq _ _ _) = OpEq"
| "instr_op (NEq _ _ _) = OpNEq"
| "instr_op (LNot _ _) = OpLNot"
| "instr_op (Array _ _) = OpArray"
| "instr_op (Tuple _ _) = OpTuple"
| "instr_op (Set _ _) = OpSet"
| "instr_op (Map _ _) = OpMap"
| "instr_op (Env _ _ _) = OpEnv"
| "instr_op (Closure _ _ _) = OpClosure"
| "instr_op (Record _ _) = OpRecord"
| "instr_op (Iterator _ _) = OpIterator"
| "instr_op (IteratorNext _ _ _) = OpIteratorNext"
| "instr_op (Formatter _) = OpFormatter"
| "instr_op (AppendFormat _ _) = OpAppendFormat"
| "instr_op (FormatResult _ _) = OpFormatResult"
| "instr_op (Copy _ _) = OpCopy"
| "instr_op (Swap _ _) = OpSwap"
| "instr_op (Push _) = OpPush"
| "instr_op Pop = OpPop"
| "instr_op (PopTo _) = OpPopTo"
| "instr_op (Jmp _) = OpJmp"
| "instr_op (JmpTrue _ _) = OpJmpTrue"
| "instr_op (JmpFalse _ _) = OpJmpFalse"
| "instr_op (JmpNull _ _) = OpJmpNull"
| "instr_op (JmpNotNull _ _) = OpJmpNotNull"
| "instr_op (Call _ _) = OpCall"
| "instr_op (LoadMethod _ _ _ _) = OpLoadMethod"
| "instr_op (CallMethod _ _) = OpCallMethod"
| "instr_op (Return _) = OpReturn"
| "instr_op Rethrow = OpRethrow"
| "instr_op (AssertFail _ _) = OpAssertFail"

subsection \<open>Operands\<close>

text \<open>
  The operands of an instruction in the order in which the writer emits them
  (the methods of src/bytecode/writer.hpp), one constructor per overload of its
  \<open>write_impl\<close>.
\<close>

datatype operand =
    RegisterOperand bytecode_register
  | ParamOperand bytecode_param
  | MemberOperand bytecode_member
  | OffsetOperand bytecode_offset
  | ConstantOperand u32
  | IntOperand i64
  | FloatOperand f64

fun instr_operands :: "instr \<Rightarrow> operand list" where
  "instr_operands (LoadNull p_target) = [RegisterOperand p_target]"
| "instr_operands (LoadFalse p_target) = [RegisterOperand p_target]"
| "instr_operands (LoadTrue p_target) = [RegisterOperand p_target]"
| "instr_operands (LoadInt p_constant p_target) =
     [IntOperand p_constant, RegisterOperand p_target]"
| "instr_operands (LoadFloat p_constant p_target) =
     [FloatOperand p_constant, RegisterOperand p_target]"
| "instr_operands (LoadParam p_source p_target) =
     [ParamOperand p_source, RegisterOperand p_target]"
| "instr_operands (StoreParam p_source p_target) =
     [RegisterOperand p_source, ParamOperand p_target]"
| "instr_operands (LoadModule p_source p_target) =
     [MemberOperand p_source, RegisterOperand p_target]"
| "instr_operands (StoreModule p_source p_target) =
     [RegisterOperand p_source, MemberOperand p_target]"
| "instr_operands (LoadMember p_object p_name p_target) =
     [RegisterOperand p_object, MemberOperand p_name, RegisterOperand p_target]"
| "instr_operands (StoreMember p_source p_object p_name) =
     [RegisterOperand p_source, RegisterOperand p_object, MemberOperand p_name]"
| "instr_operands (LoadTupleMember p_tuple p_index p_target) =
     [RegisterOperand p_tuple, ConstantOperand p_index, RegisterOperand p_target]"
| "instr_operands (StoreTupleMember p_source p_tuple p_index) =
     [RegisterOperand p_source, RegisterOperand p_tuple, ConstantOperand p_index]"
| "instr_operands (LoadIndex p_array p_index p_target) =
     [RegisterOperand p_array, RegisterOperand p_index, RegisterOperand p_target]"
| "instr_operands (StoreIndex p_source p_array p_index) =
     [RegisterOperand p_source, RegisterOperand p_array, RegisterOperand p_index]"
| "instr_operands (LoadClosure p_target) = [RegisterOperand p_target]"
| "instr_operands (LoadEnv p_env p_level p_index p_target) =
     [RegisterOperand p_env, ConstantOperand p_level, ConstantOperand p_index, RegisterOperand p_target]"
| "instr_operands (StoreEnv p_source p_env p_level p_index) =
     [RegisterOperand p_source, RegisterOperand p_env, ConstantOperand p_level, ConstantOperand p_index]"
| "instr_operands (Add p_lhs p_rhs p_target) =
     [RegisterOperand p_lhs, RegisterOperand p_rhs, RegisterOperand p_target]"
| "instr_operands (Sub p_lhs p_rhs p_target) =
     [RegisterOperand p_lhs, RegisterOperand p_rhs, RegisterOperand p_target]"
| "instr_operands (Mul p_lhs p_rhs p_target) =
     [RegisterOperand p_lhs, RegisterOperand p_rhs, RegisterOperand p_target]"
| "instr_operands (Div p_lhs p_rhs p_target) =
     [RegisterOperand p_lhs, RegisterOperand p_rhs, RegisterOperand p_target]"
| "instr_operands (Mod p_lhs p_rhs p_target) =
     [RegisterOperand p_lhs, RegisterOperand p_rhs, RegisterOperand p_target]"
| "instr_operands (Pow p_lhs p_rhs p_target) =
     [RegisterOperand p_lhs, RegisterOperand p_rhs, RegisterOperand p_target]"
| "instr_operands (UAdd p_value p_target) = [RegisterOperand p_value, RegisterOperand p_target]"
| "instr_operands (UNeg p_value p_target) = [RegisterOperand p_value, RegisterOperand p_target]"
| "instr_operands (LSh p_lhs p_rhs p_target) =
     [RegisterOperand p_lhs, RegisterOperand p_rhs, RegisterOperand p_target]"
| "instr_operands (RSh p_lhs p_rhs p_target) =
     [RegisterOperand p_lhs, RegisterOperand p_rhs, RegisterOperand p_target]"
| "instr_operands (BAnd p_lhs p_rhs p_target) =
     [RegisterOperand p_lhs, RegisterOperand p_rhs, RegisterOperand p_target]"
| "instr_operands (BOr p_lhs p_rhs p_target) =
     [RegisterOperand p_lhs, RegisterOperand p_rhs, RegisterOperand p_target]"
| "instr_operands (BXor p_lhs p_rhs p_target) =
     [RegisterOperand p_lhs, RegisterOperand p_rhs, RegisterOperand p_target]"
| "instr_operands (BNot p_value p_target) = [RegisterOperand p_value, RegisterOperand p_target]"
| "instr_operands (Gt p_lhs p_rhs p_target) =
     [RegisterOperand p_lhs, RegisterOperand p_rhs, RegisterOperand p_target]"
| "instr_operands (Gte p_lhs p_rhs p_target) =
     [RegisterOperand p_lhs, RegisterOperand p_rhs, RegisterOperand p_target]"
| "instr_operands (Lt p_lhs p_rhs p_target) =
     [RegisterOperand p_lhs, RegisterOperand p_rhs, RegisterOperand p_target]"
| "instr_operands (Lte p_lhs p_rhs p_target) =
     [RegisterOperand p_lhs, RegisterOperand p_rhs, RegisterOperand p_target]"
| "instr_operands (Eq p_lhs p_rhs p_target) =
     [RegisterOperand p_lhs, RegisterOperand p_rhs, RegisterOperand p_target]"
| "instr_operands (NEq p_lhs p_rhs p_target) =
     [RegisterOperand p_lhs, RegisterOperand p_rhs, RegisterOperand p_target]"
| "instr_operands (LNot p_value p_target) = [RegisterOperand p_value, RegisterOperand p_target]"
| "instr_operands (Array p_count p_target) = [ConstantOperand p_count, RegisterOperand p_target]"
| "instr_operands (Tuple p_count p_target) = [ConstantOperand p_count, RegisterOperand p_target]"
| "instr_operands (Set p_count p_target) = [ConstantOperand p_count, RegisterOperand p_target]"
| "instr_operands (Map p_count p_target) = [ConstantOperand p_count, RegisterOperand p_target]"
| "instr_operands (Env p_parent p_size p_target) =
     [RegisterOperand p_parent, ConstantOperand p_size, RegisterOperand p_target]"
| "instr_operands (Closure p_template p_env p_target) =
     [MemberOperand p_template, RegisterOperand p_env, RegisterOperand p_target]"
| "instr_operands (Record p_schema p_target) = [MemberOperand p_schema, RegisterOperand p_target]"
| "instr_operands (Iterator p_container p_target) =
     [RegisterOperand p_container, RegisterOperand p_target]"
| "instr_operands (IteratorNext p_iterator p_valid p_value) =
     [RegisterOperand p_iterator, RegisterOperand p_valid, RegisterOperand p_value]"
| "instr_operands (Formatter p_target) = [RegisterOperand p_target]"
| "instr_operands (AppendFormat p_value p_formatter) =
     [RegisterOperand p_value, RegisterOperand p_formatter]"
| "instr_operands (FormatResult p_formatter p_target) =
     [RegisterOperand p_formatter, RegisterOperand p_target]"
| "instr_operands (Copy p_source p_target) = [RegisterOperand p_source, RegisterOperand p_target]"
| "instr_operands (Swap p_a p_b) = [RegisterOperand p_a, RegisterOperand p_b]"
| "instr_operands (Push p_value) = [RegisterOperand p_value]"
| "instr_operands Pop = []"
| "instr_operands (PopTo p_target) = [RegisterOperand p_target]"
| "instr_operands (Jmp p_offset) = [OffsetOperand p_offset]"
| "instr_operands (JmpTrue p_condition p_offset) =
     [RegisterOperand p_condition, OffsetOperand p_offset]"
| "instr_operands (JmpFalse p_condition p_offset) =
     [RegisterOperand p_condition, OffsetOperand p_offset]"
| "instr_operands (JmpNull p_condition p_offset) =
     [RegisterOperand p_condition, OffsetOperand p_offset]"
| "instr_operands (JmpNotNull p_condition p_offset) =
     [RegisterOperand p_condition, OffsetOperand p_offset]"
| "instr_operands (Call p_function p_count) =
     [RegisterOperand p_function, ConstantOperand p_count]"
| "instr_operands (LoadMethod p_object p_name p_this p_method) =
     [RegisterOperand p_object, MemberOperand p_name, RegisterOperand p_this, RegisterOperand p_method]"
| "instr_operands (CallMethod p_method p_count) =
     [RegisterOperand p_method, ConstantOperand p_count]"
| "instr_operands (Return p_value) = [RegisterOperand p_value]"
| "instr_operands Rethrow = []"
| "instr_operands (AssertFail p_expr p_message) =
     [RegisterOperand p_expr, RegisterOperand p_message]"

lemma length_bytecode_ops: "length bytecode_ops = 67"
  by (simp add: bytecode_ops_def)

lemma op_of_op_code: "op_of_code (op_code op) = Some op"
  by (cases op)
     (simp_all add: op_of_code_def valid_opcode_def first_opcode_def last_opcode_def
       bytecode_ops_def word_le_nat_alt)

lemma op_code_nth:
  "map op_code bytecode_ops = map (\<lambda>i. word_of_nat (Suc i)) [0..<67]"
  by (simp add: bytecode_ops_def upt_rec)

lemma op_code_of_code: "op_of_code c = Some op \<Longrightarrow> op_code op = c"
proof -
  assume "op_of_code c = Some op"
  then have c: "1 \<le> unat c" "unat c \<le> 67" and op: "op = bytecode_ops ! (unat c - 1)"
    by (simp_all add: op_of_code_def valid_opcode_def first_opcode_def last_opcode_def word_le_nat_alt)
  then have i: "unat c - 1 < 67" by simp
  have "op_code op = map op_code bytecode_ops ! (unat c - 1)"
    using i by (simp add: op length_bytecode_ops)
  also have "\<dots> = word_of_nat (Suc (unat c - 1))" using i by (simp add: op_code_nth del: of_nat_Suc)
  also have "\<dots> = c" using c(1) by (simp del: of_nat_Suc)
  finally show "op_code op = c" .
qed

end
