(* ===== verification/Bytecode.thy ===== *)
theory Bytecode
  imports Instruction
begin

text \<open>
  The instruction decoder (src/bytecode/reader.cpp) and the encoding that the writer
  produces (\<open>write\<close> and \<open>write_impl\<close> of src/bytecode/writer.cpp), with the proof that they are
  inverse to each other and that the decoder never reads outside of its input.

  The decoder's state is the input that remains. A result carries that state also when it
  is an error, because the opcode has been consumed by then. \<open>None\<close> would be the exception
  of the checked binary reader; the operand sizes exclude it.
\<close>

datatype reader_error = InvalidOpcode | IncompleteInstruction | EndOfCode

type_synonym read_result = "((reader_error + instr) \<times> bytes) option"

subsection \<open>The decoder\<close>

definition check_operand_size :: "nat \<Rightarrow> bytes \<Rightarrow> read_result \<Rightarrow> read_result" where
  "check_operand_size required rest k =
     (if length rest < required then Some (Inl IncompleteInstruction, rest) else k)"

text \<open>The switch over the operation code, in five parts.\<close>

definition read_control :: "bytecode_op \<Rightarrow> bytes \<Rightarrow> read_result" where
  "read_control op rest = (case op of
      OpJmp \<Rightarrow> check_operand_size 4 rest (do {
          (p_offset, rest) \<leftarrow> read_u32 rest;
          Some (Inr (Jmp (Offset p_offset)), rest) })
    | OpJmpTrue \<Rightarrow> check_operand_size 8 rest (do {
          (p_condition, rest) \<leftarrow> read_u32 rest;
          (p_offset, rest) \<leftarrow> read_u32 rest;
          Some (Inr (JmpTrue (Register p_condition) (Offset p_offset)), rest) })
    | OpJmpFalse \<Rightarrow> check_operand_size 8 rest (do {
          (p_condition, rest) \<leftarrow> read_u32 rest;
          (p_offset, rest) \<leftarrow> read_u32 rest;
          Some (Inr (JmpFalse (Register p_condition) (Offset p_offset)), rest) })
    | OpJmpNull \<Rightarrow> check_operand_size 8 rest (do {
          (p_condition, rest) \<leftarrow> read_u32 rest;
          (p_offset, rest) \<leftarrow> read_u32 rest;
          Some (Inr (JmpNull (Register p_condition) (Offset p_offset)), rest) })
    | OpJmpNotNull \<Rightarrow> check_operand_size 8 rest (do {
          (p_condition, rest) \<leftarrow> read_u32 rest;
          (p_offset, rest) \<leftarrow> read_u32 rest;
          Some (Inr (JmpNotNull (Register p_condition) (Offset p_offset)), rest) })
    | OpCall \<Rightarrow> check_operand_size 8 rest (do {
          (p_function, rest) \<leftarrow> read_u32 rest;
          (p_count, rest) \<leftarrow> read_u32 rest;
          Some (Inr (Call (Register p_function) p_count), rest) })
    | OpLoadMethod \<Rightarrow> check_operand_size 16 rest (do {
          (p_object, rest) \<leftarrow> read_u32 rest;
          (p_name, rest) \<leftarrow> read_u32 rest;
          (p_this, rest) \<leftarrow> read_u32 rest;
          (p_method, rest) \<leftarrow> read_u32 rest;
          Some (Inr (LoadMethod (Register p_object) (MemberId p_name) (Register p_this) (Register p_method)), rest) })
    | OpCallMethod \<Rightarrow> check_operand_size 8 rest (do {
          (p_method, rest) \<leftarrow> read_u32 rest;
          (p_count, rest) \<leftarrow> read_u32 rest;
          Some (Inr (CallMethod (Register p_method) p_count), rest) })
    | OpReturn \<Rightarrow> check_operand_size 4 rest (do {
          (p_value, rest) \<leftarrow> read_u32 rest;
          Some (Inr (Return (Register p_value)), rest) })
    | OpRethrow \<Rightarrow> Some (Inr Rethrow, rest)
    | OpAssertFail \<Rightarrow> check_operand_size 8 rest (do {
          (p_expr, rest) \<leftarrow> read_u32 rest;
          (p_message, rest) \<leftarrow> read_u32 rest;
          Some (Inr (AssertFail (Register p_expr) (Register p_message)), rest) })
    | _ \<Rightarrow> Some (Inl InvalidOpcode, rest))"

definition read_object :: "bytecode_op \<Rightarrow> bytes \<Rightarrow> read_result" where
  "read_object op rest = (case op of
      OpEnv \<Rightarrow> check_operand_size 12 rest (do {
          (p_parent, rest) \<leftarrow> read_u32 rest;
          (p_size, rest) \<leftarrow> read_u32 rest;
          (p_target, rest) \<leftarrow> read_u32 rest;
          Some (Inr (Env (Register p_parent) p_size (Register p_target)), rest) })
    | OpClosure \<Rightarrow> check_operand_size 12 rest (do {
          (p_template, rest) \<leftarrow> read_u32 rest;
          (p_env, rest) \<leftarrow> read_u32 rest;
          (p_target, rest) \<leftarrow> read_u32 rest;
          Some (Inr (Closure (MemberId p_template) (Register p_env) (Register p_target)), rest) })
    | OpRecord \<Rightarrow> check_operand_size 8 rest (do {
          (p_schema, rest) \<leftarrow> read_u32 rest;
          (p_target, rest) \<leftarrow> read_u32 rest;
          Some (Inr (Record (MemberId p_schema) (Register p_target)), rest) })
    | OpIterator \<Rightarrow> check_operand_size 8 rest (do {
          (p_container, rest) \<leftarrow> read_u32 rest;
          (p_target, rest) \<leftarrow> read_u32 rest;
          Some (Inr (Iterator (Register p_container) (Register p_target)), rest) })
    | OpIteratorNext \<Rightarrow> check_operand_size 12 rest (do {
          (p_iterator, rest) \<leftarrow> read_u32 rest;
          (p_valid, rest) \<leftarrow> read_u32 rest;
          (p_value, rest) \<leftarrow> read_u32 rest;
          Some (Inr (IteratorNext (Register p_iterator) (Register p_valid) (Register p_value)), rest) })
    | OpFormatter \<Rightarrow> check_operand_size 4 rest (do {
          (p_target, rest) \<leftarrow> read_u32 rest;
          Some (Inr (Formatter (Register p_target)), rest) })
    | OpAppendFormat \<Rightarrow> check_operand_size 8 rest (do {
          (p_value, rest) \<leftarrow> read_u32 rest;
          (p_formatter, rest) \<leftarrow> read_u32 rest;
          Some (Inr (AppendFormat (Register p_value) (Register p_formatter)), rest) })
    | OpFormatResult \<Rightarrow> check_operand_size 8 rest (do {
          (p_formatter, rest) \<leftarrow> read_u32 rest;
          (p_target, rest) \<leftarrow> read_u32 rest;
          Some (Inr (FormatResult (Register p_formatter) (Register p_target)), rest) })
    | OpCopy \<Rightarrow> check_operand_size 8 rest (do {
          (p_source, rest) \<leftarrow> read_u32 rest;
          (p_target, rest) \<leftarrow> read_u32 rest;
          Some (Inr (Copy (Register p_source) (Register p_target)), rest) })
    | OpSwap \<Rightarrow> check_operand_size 8 rest (do {
          (p_a, rest) \<leftarrow> read_u32 rest;
          (p_b, rest) \<leftarrow> read_u32 rest;
          Some (Inr (Swap (Register p_a) (Register p_b)), rest) })
    | OpPush \<Rightarrow> check_operand_size 4 rest (do {
          (p_value, rest) \<leftarrow> read_u32 rest;
          Some (Inr (Push (Register p_value)), rest) })
    | OpPop \<Rightarrow> Some (Inr Pop, rest)
    | OpPopTo \<Rightarrow> check_operand_size 4 rest (do {
          (p_target, rest) \<leftarrow> read_u32 rest;
          Some (Inr (PopTo (Register p_target)), rest) })
    | _ \<Rightarrow> read_control op rest)"

definition read_comparison :: "bytecode_op \<Rightarrow> bytes \<Rightarrow> read_result" where
  "read_comparison op rest = (case op of
      OpGt \<Rightarrow> check_operand_size 12 rest (do {
          (p_lhs, rest) \<leftarrow> read_u32 rest;
          (p_rhs, rest) \<leftarrow> read_u32 rest;
          (p_target, rest) \<leftarrow> read_u32 rest;
          Some (Inr (Gt (Register p_lhs) (Register p_rhs) (Register p_target)), rest) })
    | OpGte \<Rightarrow> check_operand_size 12 rest (do {
          (p_lhs, rest) \<leftarrow> read_u32 rest;
          (p_rhs, rest) \<leftarrow> read_u32 rest;
          (p_target, rest) \<leftarrow> read_u32 rest;
          Some (Inr (Gte (Register p_lhs) (Register p_rhs) (Register p_target)), rest) })
    | OpLt \<Rightarrow> check_operand_size 12 rest (do {
          (p_lhs, rest) \<leftarrow> read_u32 rest;
          (p_rhs, rest) \<leftarrow> read_u32 rest;
          (p_target, rest) \<leftarrow> read_u32 rest;
          Some (Inr (Lt (Register p_lhs) (Register p_rhs) (Register p_target)), rest) })
    | OpLte \<Rightarrow> check_operand_size 12 rest (do {
          (p_lhs, rest) \<leftarrow> read_u32 rest;
          (p_rhs, rest) \<leftarrow> read_u32 rest;
          (p_target, rest) \<leftarrow> read_u32 rest;
          Some (Inr (Lte (Register p_lhs) (Register p_rhs) (Register p_target)), rest) })
    | OpEq \<Rightarrow> check_operand_size 12 rest (do {
          (p_lhs, rest) \<leftarrow> read_u32 rest;
          (p_rhs, rest) \<leftarrow> read_u32 rest;
          (p_target, rest) \<leftarrow> read_u32 rest;
          Some (Inr (Eq (Register p_lhs) (Register p_rhs) (Register p_target)), rest) })
    | OpNEq \<Rightarrow> check_operand_size 12 rest (do {
          (p_lhs, rest) \<leftarrow> read_u32 rest;
          (p_rhs, rest) \<leftarrow> read_u32 rest;
          (p_target, rest) \<leftarrow> read_u32 rest;
          Some (Inr (NEq (Register p_lhs) (Register p_rhs) (Register p_target)), rest) })
    | OpLNot \<Rightarrow> check_operand_size 8 rest (do {
          (p_value, rest) \<leftarrow> read_u32 rest;
          (p_target, rest) \<leftarrow> read_u32 rest;
          Some (Inr (LNot (Register p_value) (Register p_target)), rest) })
    | OpArray \<Rightarrow> check_operand_size 8 rest (do {
          (p_count, rest) \<leftarrow> read_u32 rest;
          (p_target, rest) \<leftarrow> read_u32 rest;
          Some (Inr (Array p_count (Register p_target)), rest) })
    | OpTuple \<Rightarrow> check_operand_size 8 rest (do {
          (p_count, rest) \<leftarrow> read_u32 rest;
          (p_target, rest) \<leftarrow> read_u32 rest;
          Some (Inr (Tuple p_count (Register p_target)), rest) })
    | OpSet \<Rightarrow> check_operand_size 8 rest (do {
          (p_count, rest) \<leftarrow> read_u32 rest;
          (p_target, rest) \<leftarrow> read_u32 rest;
          Some (Inr (Set p_count (Register p_target)), rest) })
    | OpMap \<Rightarrow> check_operand_size 8 rest (do {
          (p_count, rest) \<leftarrow> read_u32 rest;
          (p_target, rest) \<leftarrow> read_u32 rest;
          Some (Inr (Map p_count (Register p_target)), rest) })
    | _ \<Rightarrow> read_object op rest)"

definition read_arithmetic :: "bytecode_op \<Rightarrow> bytes \<Rightarrow> read_result" where
  "read_arithmetic op rest = (case op of
      OpAdd \<Rightarrow> check_operand_size 12 rest (do {
          (p_lhs, rest) \<leftarrow> read_u32 rest;
          (p_rhs, rest) \<leftarrow> read_u32 rest;
          (p_target, rest) \<leftarrow> read_u32 rest;
          Some (Inr (Add (Register p_lhs) (Register p_rhs) (Register p_target)), rest) })
    | OpSub \<Rightarrow> check_operand_size 12 rest (do {
          (p_lhs, rest) \<leftarrow> read_u32 rest;
          (p_rhs, rest) \<leftarrow> read_u32 rest;
          (p_target, rest) \<leftarrow> read_u32 rest;
          Some (Inr (Sub (Register p_lhs) (Register p_rhs) (Register p_target)), rest) })
    | OpMul \<Rightarrow> check_operand_size 12 rest (do {
          (p_lhs, rest) \<leftarrow> read_u32 rest;
          (p_rhs, rest) \<leftarrow> read_u32 rest;
          (p_target, rest) \<leftarrow> read_u32 rest;
          Some (Inr (Mul (Register p_lhs) (Register p_rhs) (Register p_target)), rest) })
    | OpDiv \<Rightarrow> check_operand_size 12 rest (do {
          (p_lhs, rest) \<leftarrow> read_u32 rest;
          (p_rhs, rest) \<leftarrow> read_u32 rest;
          (p_target, rest) \<leftarrow> read_u32 rest;
          Some (Inr (Div (Register p_lhs) (Register p_rhs) (Register p_target)), rest) })
    | OpMod \<Rightarrow> check_operand_size 12 rest (do {
          (p_lhs, rest) \<leftarrow> read_u32 rest;
          (p_rhs, rest) \<leftarrow> read_u32 rest;
          (p_target, rest) \<leftarrow> read_u32 rest;
          Some (Inr (Mod (Register p_lhs) (Register p_rhs) (Register p_target)), rest) })
    | OpPow \<Rightarrow> check_operand_size 12 rest (do {
          (p_lhs, rest) \<leftarrow> read_u32 rest;
          (p_rhs, rest) \<leftarrow> read_u32 rest;
          (p_target, rest) \<leftarrow> read_u32 rest;
          Some (Inr (Pow (Register p_lhs) (Register p_rhs) (Register p_target)), rest) })
    | OpUAdd \<Rightarrow> check_operand_size 8 rest (do {
          (p_value, rest) \<leftarrow> read_u32 rest;
          (p_target, rest) \<leftarrow> read_u32 rest;
          Some (Inr (UAdd (Register p_value) (Register p_target)), rest) })
    | OpUNeg \<Rightarrow> check_operand_size 8 rest (do {
          (p_value, rest) \<leftarrow> read_u32 rest;
          (p_target, rest) \<leftarrow> read_u32 rest;
          Some (Inr (UNeg (Register p_value) (Register p_target)), rest) })
    | OpLSh \<Rightarrow> check_operand_size 12 rest (do {
          (p_lhs, rest) \<leftarrow> read_u32 rest;
          (p_rhs, rest) \<leftarrow> read_u32 rest;
          (p_target, rest) \<leftarrow> read_u32 rest;
          Some (Inr (LSh (Register p_lhs) (Register p_rhs) (Register p_target)), rest) })
    | OpRSh \<Rightarrow> check_operand_size 12 rest (do {
          (p_lhs, rest) \<leftarrow> read_u32 rest;
          (p_rhs, rest) \<leftarrow> read_u32 rest;
          (p_target, rest) \<leftarrow> read_u32 rest;
          Some (Inr (RSh (Register p_lhs) (Register p_rhs) (Register p_target)), rest) })
    | OpBAnd \<Rightarrow> check_operand_size 12 rest (do {
          (p_lhs, rest) \<leftarrow> read_u32 rest;
          (p_rhs, rest) \<leftarrow> read_u32 rest;
          (p_target, rest) \<leftarrow> read_u32 rest;
          Some (Inr (BAnd (Register p_lhs) (Register p_rhs) (Register p_target)), rest) })
    | OpBOr \<Rightarrow> check_operand_size 12 rest (do {
          (p_lhs, rest) \<leftarrow> read_u32 rest;
          (p_rhs, rest) \<leftarrow> read_u32 rest;
          (p_target, rest) \<leftarrow> read_u32 rest;
          Some (Inr (BOr (Register p_lhs) (Register p_rhs) (Register p_target)), rest) })
    | OpBXor \<Rightarrow> check_operand_size 12 rest (do {
          (p_lhs, rest) \<leftarrow> read_u32 rest;
          (p_rhs, rest) \<leftarrow> read_u32 rest;
          (p_target, rest) \<leftarrow> read_u32 rest;
          Some (Inr (BXor (Register p_lhs) (Register p_rhs) (Register p_target)), rest) })
    | OpBNot \<Rightarrow> check_operand_size 8 rest (do {
          (p_value, rest) \<leftarrow> read_u32 rest;
          (p_target, rest) \<leftarrow> read_u32 rest;
          Some (Inr (BNot (Register p_value) (Register p_target)), rest) })
    | _ \<Rightarrow> read_comparison op rest)"

definition read_load_store :: "bytecode_op \<Rightarrow> bytes \<Rightarrow> read_result" where
  "read_load_store op rest = (case op of
      OpLoadNull \<Rightarrow> check_operand_size 4 rest (do {
          (p_target, rest) \<leftarrow> read_u32 rest;
          Some (Inr (LoadNull (Register p_target)), rest) })
    | OpLoadFalse \<Rightarrow> check_operand_size 4 rest (do {
          (p_target, rest) \<leftarrow> read_u32 rest;
          Some (Inr (LoadFalse (Register p_target)), rest) })
    | OpLoadTrue \<Rightarrow> check_operand_size 4 rest (do {
          (p_target, rest) \<leftarrow> read_u32 rest;
          Some (Inr (LoadTrue (Register p_target)), rest) })
    | OpLoadInt \<Rightarrow> check_operand_size 12 rest (do {
          (p_constant, rest) \<leftarrow> read_i64 rest;
          (p_target, rest) \<leftarrow> read_u32 rest;
          Some (Inr (LoadInt p_constant (Register p_target)), rest) })
    | OpLoadFloat \<Rightarrow> check_operand_size 12 rest (do {
          (p_constant, rest) \<leftarrow> read_f64 rest;
          (p_target, rest) \<leftarrow> read_u32 rest;
          Some (Inr (LoadFloat p_constant (Register p_target)), rest) })
    | OpLoadParam \<Rightarrow> check_operand_size 8 rest (do {
          (p_source, rest) \<leftarrow> read_u32 rest;
          (p_target, rest) \<leftarrow> read_u32 rest;
          Some (Inr (LoadParam (Param p_source) (Register p_target)), rest) })
    | OpStoreParam \<Rightarrow> check_operand_size 8 rest (do {
          (p_source, rest) \<leftarrow> read_u32 rest;
          (p_target, rest) \<leftarrow> read_u32 rest;
          Some (Inr (StoreParam (Register p_source) (Param p_target)), rest) })
    | OpLoadModule \<Rightarrow> check_operand_size 8 rest (do {
          (p_source, rest) \<leftarrow> read_u32 rest;
          (p_target, rest) \<leftarrow> read_u32 rest;
          Some (Inr (LoadModule (MemberId p_source) (Register p_target)), rest) })
    | OpStoreModule \<Rightarrow> check_operand_size 8 rest (do {
          (p_source, rest) \<leftarrow> read_u32 rest;
          (p_target, rest) \<leftarrow> read_u32 rest;
          Some (Inr (StoreModule (Register p_source) (MemberId p_target)), rest) })
    | OpLoadMember \<Rightarrow> check_operand_size 12 rest (do {
          (p_object, rest) \<leftarrow> read_u32 rest;
          (p_name, rest) \<leftarrow> read_u32 rest;
          (p_target, rest) \<leftarrow> read_u32 rest;
          Some (Inr (LoadMember (Register p_object) (MemberId p_name) (Register p_target)), rest) })
    | OpStoreMember \<Rightarrow> check_operand_size 12 rest (do {
          (p_source, rest) \<leftarrow> read_u32 rest;
          (p_object, rest) \<leftarrow> read_u32 rest;
          (p_name, rest) \<leftarrow> read_u32 rest;
          Some (Inr (StoreMember (Register p_source) (Register p_object) (MemberId p_name)), rest) })
    | OpLoadTupleMember \<Rightarrow> check_operand_size 12 rest (do {
          (p_tuple, rest) \<leftarrow> read_u32 rest;
          (p_index, rest) \<leftarrow> read_u32 rest;
          (p_target, rest) \<leftarrow> read_u32 rest;
          Some (Inr (LoadTupleMember (Register p_tuple) p_index (Register p_target)), rest) })
    | OpStoreTupleMember \<Rightarrow> check_operand_size 12 rest (do {
          (p_source, rest) \<leftarrow> read_u32 rest;
          (p_tuple, rest) \<leftarrow> read_u32 rest;
          (p_index, rest) \<leftarrow> read_u32 rest;
          Some (Inr (StoreTupleMember (Register p_source) (Register p_tuple) p_index), rest) })
    | OpLoadIndex \<Rightarrow> check_operand_size 12 rest (do {
          (p_array, rest) \<leftarrow> read_u32 rest;
          (p_index, rest) \<leftarrow> read_u32 rest;
          (p_target, rest) \<leftarrow> read_u32 rest;
          Some (Inr (LoadIndex (Register p_array) (Register p_index) (Register p_target)), rest) })
    | OpStoreIndex \<Rightarrow> check_operand_size 12 rest (do {
          (p_source, rest) \<leftarrow> read_u32 rest;
          (p_array, rest) \<leftarrow> read_u32 rest;
          (p_index, rest) \<leftarrow> read_u32 rest;
          Some (Inr (StoreIndex (Register p_source) (Register p_array) (Register p_index)), rest) })
    | OpLoadClosure \<Rightarrow> check_operand_size 4 rest (do {
          (p_target, rest) \<leftarrow> read_u32 rest;
          Some (Inr (LoadClosure (Register p_target)), rest) })
    | OpLoadEnv \<Rightarrow> check_operand_size 16 rest (do {
          (p_env, rest) \<leftarrow> read_u32 rest;
          (p_level, rest) \<leftarrow> read_u32 rest;
          (p_index, rest) \<leftarrow> read_u32 rest;
          (p_target, rest) \<leftarrow> read_u32 rest;
          Some (Inr (LoadEnv (Register p_env) p_level p_index (Register p_target)), rest) })
    | OpStoreEnv \<Rightarrow> check_operand_size 16 rest (do {
          (p_source, rest) \<leftarrow> read_u32 rest;
          (p_env, rest) \<leftarrow> read_u32 rest;
          (p_level, rest) \<leftarrow> read_u32 rest;
          (p_index, rest) \<leftarrow> read_u32 rest;
          Some (Inr (StoreEnv (Register p_source) (Register p_env) p_level p_index), rest) })
    | _ \<Rightarrow> read_arithmetic op rest)"

definition read_instruction :: "bytes \<Rightarrow> read_result" where
  "read_instruction bs =
     (if bs = [] then Some (Inl EndOfCode, bs)
      else do {
        (raw_op, rest) \<leftarrow> read_u8 bs;
        if valid_opcode raw_op
        then case op_of_code raw_op of
               None \<Rightarrow> Some (Inl InvalidOpcode, rest)
             | Some op \<Rightarrow> read_load_store op rest
        else Some (Inl InvalidOpcode, rest) })"

subsection \<open>The encoder\<close>

fun emit_operand :: "operand \<Rightarrow> bytes" where
  "emit_operand (RegisterOperand r) = emit_u32 (register_id r)"
| "emit_operand (ParamOperand p) = emit_u32 (param_id p)"
| "emit_operand (MemberOperand m) = emit_u32 (member_id m)"
| "emit_operand (OffsetOperand offset) = emit_u32 (offset_value offset)"
| "emit_operand (ConstantOperand v) = emit_u32 v"
| "emit_operand (IntOperand v) = emit_i64 v"
| "emit_operand (FloatOperand v) = emit_f64 v"

definition emit_op :: "bytecode_op \<Rightarrow> bytes" where
  "emit_op op = emit_u8 (op_code op)"

definition emit_instruction :: "instr \<Rightarrow> bytes" where
  "emit_instruction i = emit_op (instr_op i) @ concat (map emit_operand (instr_operands i))"

subsection \<open>Round trips\<close>

lemmas read_emit [simp] =
  codec_u8.dec_enc codec_u32.dec_enc codec_u64.dec_enc

lemmas length_emit [simp] =
  codec_u8.length_enc codec_u32.length_enc codec_u64.length_enc

lemma read_emit_i64 [simp]: "read_i64 (emit_i64 v @ rest) = Some (v, rest)"
  and length_emit_i64 [simp]: "length (emit_i64 v) = 8"
  and read_emit_f64 [simp]: "read_f64 (emit_f64 v @ rest) = Some (v, rest)"
  and length_emit_f64 [simp]: "length (emit_f64 v) = 8"
  by (simp_all add: read_i64_def emit_i64_def read_f64_def emit_f64_def)

lemmas read_switch_defs = read_load_store_def read_arithmetic_def read_comparison_def
  read_object_def read_control_def check_operand_size_def

text \<open>The switch decodes the operands of every instruction.\<close>

lemma read_switch_emit:
  "read_load_store (instr_op i) (concat (map emit_operand (instr_operands i)) @ rest)
   = Some (Inr i, rest)"
proof (cases i)
  case (LoadNull x1)
  then show ?thesis by (cases x1; simp add: read_switch_defs)
next
  case (LoadFalse x1)
  then show ?thesis by (cases x1; simp add: read_switch_defs)
next
  case (LoadTrue x1)
  then show ?thesis by (cases x1; simp add: read_switch_defs)
next
  case (LoadInt x1 x2)
  then show ?thesis by (cases x2; simp add: read_switch_defs)
next
  case (LoadFloat x1 x2)
  then show ?thesis by (cases x2; simp add: read_switch_defs)
next
  case (LoadParam x1 x2)
  then show ?thesis by (cases x1; cases x2; simp add: read_switch_defs)
next
  case (StoreParam x1 x2)
  then show ?thesis by (cases x1; cases x2; simp add: read_switch_defs)
next
  case (LoadModule x1 x2)
  then show ?thesis by (cases x1; cases x2; simp add: read_switch_defs)
next
  case (StoreModule x1 x2)
  then show ?thesis by (cases x1; cases x2; simp add: read_switch_defs)
next
  case (LoadMember x1 x2 x3)
  then show ?thesis by (cases x1; cases x2; cases x3; simp add: read_switch_defs)
next
  case (StoreMember x1 x2 x3)
  then show ?thesis by (cases x1; cases x2; cases x3; simp add: read_switch_defs)
next
  case (LoadTupleMember x1 x2 x3)
  then show ?thesis by (cases x1; cases x3; simp add: read_switch_defs)
next
  case (StoreTupleMember x1 x2 x3)
  then show ?thesis by (cases x1; cases x2; simp add: read_switch_defs)
next
  case (LoadIndex x1 x2 x3)
  then show ?thesis by (cases x1; cases x2; cases x3; simp add: read_switch_defs)
next
  case (StoreIndex x1 x2 x3)
  then show ?thesis by (cases x1; cases x2; cases x3; simp add: read_switch_defs)
next
  case (LoadClosure x1)
  then show ?thesis by (cases x1; simp add: read_switch_defs)
next
  case (LoadEnv x1 x2 x3 x4)
  then show ?thesis by (cases x1; cases x4; simp add: read_switch_defs)
next
  case (StoreEnv x1 x2 x3 x4)
  then show ?thesis by (cases x1; cases x2; simp add: read_switch_defs)
next
  case (Add x1 x2 x3)
  then show ?thesis by (cases x1; cases x2; cases x3; simp add: read_switch_defs)
next
  case (Sub x1 x2 x3)
  then show ?thesis by (cases x1; cases x2; cases x3; simp add: read_switch_defs)
next
  case (Mul x1 x2 x3)
  then show ?thesis by (cases x1; cases x2; cases x3; simp add: read_switch_defs)
next
  case (Div x1 x2 x3)
  then show ?thesis by (cases x1; cases x2; cases x3; simp add: read_switch_defs)
next
  case (Mod x1 x2 x3)
  then show ?thesis by (cases x1; cases x2; cases x3; simp add: read_switch_defs)
next
  case (Pow x1 x2 x3)
  then show ?thesis by (cases x1; cases x2; cases x3; simp add: read_switch_defs)
next
  case (UAdd x1 x2)
  then show ?thesis by (cases x1; cases x2; simp add: read_switch_defs)
next
  case (UNeg x1 x2)
  then show ?thesis by (cases x1; cases x2; simp add: read_switch_defs)
next
  case (LSh x1 x2 x3)
  then show ?thesis by (cases x1; cases x2; cases x3; simp add: read_switch_defs)
next
  case (RSh x1 x2 x3)
  then show ?thesis by (cases x1; cases x2; cases x3; simp add: read_switch_defs)
next
  case (BAnd x1 x2 x3)
  then show ?thesis by (cases x1; cases x2; cases x3; simp add: read_switch_defs)
next
  case (BOr x1 x2 x3)
  then show ?thesis by (cases x1; cases x2; cases x3; simp add: read_switch_defs)
next
  case (BXor x1 x2 x3)
  then show ?thesis by (cases x1; cases x2; cases x3; simp add: read_switch_defs)
next
  case (BNot x1 x2)
  then show ?thesis by (cases x1; cases x2; simp add: read_switch_defs)
next
  case (Gt x1 x2 x3)
  then show ?thesis by (cases x1; cases x2; cases x3; simp add: read_switch_defs)
next
  case (Gte x1 x2 x3)
  then show ?thesis by (cases x1; cases x2; cases x3; simp add: read_switch_defs)
next
  case (Lt x1 x2 x3)
  then show ?thesis by (cases x1; cases x2; cases x3; simp add: read_switch_defs)
next
  case (Lte x1 x2 x3)
  then show ?thesis by (cases x1; cases x2; cases x3; simp add: read_switch_defs)
next
  case (Eq x1 x2 x3)
  then show ?thesis by (cases x1; cases x2; cases x3; simp add: read_switch_defs)
next
  case (NEq x1 x2 x3)
  then show ?thesis by (cases x1; cases x2; cases x3; simp add: read_switch_defs)
next
  case (LNot x1 x2)
  then show ?thesis by (cases x1; cases x2; simp add: read_switch_defs)
next
  case (Array x1 x2)
  then show ?thesis by (cases x2; simp add: read_switch_defs)
next
  case (Tuple x1 x2)
  then show ?thesis by (cases x2; simp add: read_switch_defs)
next
  case (Set x1 x2)
  then show ?thesis by (cases x2; simp add: read_switch_defs)
next
  case (Map x1 x2)
  then show ?thesis by (cases x2; simp add: read_switch_defs)
next
  case (Env x1 x2 x3)
  then show ?thesis by (cases x1; cases x3; simp add: read_switch_defs)
next
  case (Closure x1 x2 x3)
  then show ?thesis by (cases x1; cases x2; cases x3; simp add: read_switch_defs)
next
  case (Record x1 x2)
  then show ?thesis by (cases x1; cases x2; simp add: read_switch_defs)
next
  case (Iterator x1 x2)
  then show ?thesis by (cases x1; cases x2; simp add: read_switch_defs)
next
  case (IteratorNext x1 x2 x3)
  then show ?thesis by (cases x1; cases x2; cases x3; simp add: read_switch_defs)
next
  case (Formatter x1)
  then show ?thesis by (cases x1; simp add: read_switch_defs)
next
  case (AppendFormat x1 x2)
  then show ?thesis by (cases x1; cases x2; simp add: read_switch_defs)
next
  case (FormatResult x1 x2)
  then show ?thesis by (cases x1; cases x2; simp add: read_switch_defs)
next
  case (Copy x1 x2)
  then show ?thesis by (cases x1; cases x2; simp add: read_switch_defs)
next
  case (Swap x1 x2)
  then show ?thesis by (cases x1; cases x2; simp add: read_switch_defs)
next
  case (Push x1)
  then show ?thesis by (cases x1; simp add: read_switch_defs)
next
  case Pop
  then show ?thesis by (simp add: read_switch_defs)
next
  case (PopTo x1)
  then show ?thesis by (cases x1; simp add: read_switch_defs)
next
  case (Jmp x1)
  then show ?thesis by (cases x1; simp add: read_switch_defs)
next
  case (JmpTrue x1 x2)
  then show ?thesis by (cases x1; cases x2; simp add: read_switch_defs)
next
  case (JmpFalse x1 x2)
  then show ?thesis by (cases x1; cases x2; simp add: read_switch_defs)
next
  case (JmpNull x1 x2)
  then show ?thesis by (cases x1; cases x2; simp add: read_switch_defs)
next
  case (JmpNotNull x1 x2)
  then show ?thesis by (cases x1; cases x2; simp add: read_switch_defs)
next
  case (Call x1 x2)
  then show ?thesis by (cases x1; simp add: read_switch_defs)
next
  case (LoadMethod x1 x2 x3 x4)
  then show ?thesis by (cases x1; cases x2; cases x3; cases x4; simp add: read_switch_defs)
next
  case (CallMethod x1 x2)
  then show ?thesis by (cases x1; simp add: read_switch_defs)
next
  case (Return x1)
  then show ?thesis by (cases x1; simp add: read_switch_defs)
next
  case Rethrow
  then show ?thesis by (simp add: read_switch_defs)
next
  case (AssertFail x1 x2)
  then show ?thesis by (cases x1; cases x2; simp add: read_switch_defs)
qed

lemmas read_sound = codec_u32.dec_sound codec_u64.dec_sound

lemma read_i64_sound: "read_i64 bs = Some (v, rest) \<Longrightarrow> bs = emit_i64 v @ rest"
  and read_f64_sound: "read_f64 bs = Some (v, rest) \<Longrightarrow> bs = emit_f64 v @ rest"
  by (auto simp: read_i64_def emit_i64_def read_f64_def emit_f64_def dest: codec_u64.dec_sound)

text \<open>What the switch decodes is the encoding of its result.\<close>

lemma read_switch_sound:
  "read_load_store op rest = Some (Inr i, rest') \<Longrightarrow>
   instr_op i = op \<and> rest = concat (map emit_operand (instr_operands i)) @ rest'"
  by (cases op)
     (auto simp: read_switch_defs split: if_splits
       dest!: read_sound read_i64_sound read_f64_sound)

text \<open>A read of enough bytes succeeds.\<close>

definition first_u32 :: "bytes \<Rightarrow> u32" where "first_u32 bs = fst (the (read_u32 bs))"
definition first_u64 :: "bytes \<Rightarrow> u64" where "first_u64 bs = fst (the (read_u64 bs))"

lemma read_u32_enough: "4 \<le> length bs \<Longrightarrow> read_u32 bs = Some (first_u32 bs, drop 4 bs)"
  by (simp add: first_u32_def read_u32_def read_raw_def byte_count_def Let_def)

lemma read_u64_enough: "8 \<le> length bs \<Longrightarrow> read_u64 bs = Some (first_u64 bs, drop 8 bs)"
  by (simp add: first_u64_def read_u64_def read_raw_def byte_count_def Let_def)

lemma read_u8_Cons: "read_u8 (b # rest) = Some (b, rest)"
  by (simp add: read_u8_def read_raw_def byte_count_def be_to_host_def convert_byte_order_def
      from_memory_def be_to_nat_def split: byte_order.split)

lemmas read_enough = read_u32_enough read_u64_enough read_i64_def read_f64_def

definition operand_size :: "bytecode_op \<Rightarrow> nat" where
  "operand_size op =
     (case op of
        OpPop \<Rightarrow> 0 | OpRethrow \<Rightarrow> 0
      | OpLoadNull \<Rightarrow> 4 | OpLoadFalse \<Rightarrow> 4 | OpLoadTrue \<Rightarrow> 4 | OpLoadClosure \<Rightarrow> 4
      | OpFormatter \<Rightarrow> 4 | OpPush \<Rightarrow> 4 | OpPopTo \<Rightarrow> 4 | OpJmp \<Rightarrow> 4 | OpReturn \<Rightarrow> 4
      | OpLoadParam \<Rightarrow> 8 | OpStoreParam \<Rightarrow> 8 | OpLoadModule \<Rightarrow> 8 | OpStoreModule \<Rightarrow> 8
      | OpUAdd \<Rightarrow> 8 | OpUNeg \<Rightarrow> 8 | OpBNot \<Rightarrow> 8 | OpLNot \<Rightarrow> 8 | OpArray \<Rightarrow> 8 | OpTuple \<Rightarrow> 8
      | OpSet \<Rightarrow> 8 | OpMap \<Rightarrow> 8 | OpRecord \<Rightarrow> 8 | OpIterator \<Rightarrow> 8 | OpAppendFormat \<Rightarrow> 8
      | OpFormatResult \<Rightarrow> 8 | OpCopy \<Rightarrow> 8 | OpSwap \<Rightarrow> 8 | OpJmpTrue \<Rightarrow> 8 | OpJmpFalse \<Rightarrow> 8
      | OpJmpNull \<Rightarrow> 8 | OpJmpNotNull \<Rightarrow> 8 | OpCall \<Rightarrow> 8 | OpCallMethod \<Rightarrow> 8 | OpAssertFail \<Rightarrow> 8
      | OpLoadEnv \<Rightarrow> 16 | OpStoreEnv \<Rightarrow> 16 | OpLoadMethod \<Rightarrow> 16
      | _ \<Rightarrow> 12)"

text \<open>The operand sizes that the switch checks cover what it reads.\<close>

lemma read_switch_total:
  "\<exists>r. read_load_store op rest = Some (r, if length rest < operand_size op then rest
      else drop (operand_size op) rest)
    \<and> (case r of Inl err \<Rightarrow> length rest < operand_size op \<and> err = IncompleteInstruction
       | Inr _ \<Rightarrow> operand_size op \<le> length rest)"
  by (cases op) (simp_all add: read_switch_defs operand_size_def read_enough)

lemma length_operands:
  "length (concat (map emit_operand (instr_operands i))) = operand_size (instr_op i)"
proof (rule ccontr)
  let ?bs = "concat (map emit_operand (instr_operands i))"
  have "read_load_store (instr_op i) ?bs = Some (Inr i, [])"
    using read_switch_emit [of i "[]"] by simp
  moreover obtain r where "read_load_store (instr_op i) ?bs
      = Some (r, if length ?bs < operand_size (instr_op i) then ?bs else drop (operand_size (instr_op i)) ?bs)"
    "case r of Inl err \<Rightarrow> length ?bs < operand_size (instr_op i) \<and> err = IncompleteInstruction
       | Inr _ \<Rightarrow> operand_size (instr_op i) \<le> length ?bs"
    using read_switch_total [of "instr_op i" ?bs] by blast
  moreover assume "length ?bs \<noteq> operand_size (instr_op i)"
  ultimately show False by (auto split: if_splits)
qed

lemma length_emit_instruction: "length (emit_instruction i) = 1 + operand_size (instr_op i)"
  by (simp add: emit_instruction_def emit_op_def length_operands)

lemma read_emit_instruction: "read_instruction (emit_instruction i @ rest) = Some (Inr i, rest)"
proof -
  have "op_of_code (op_code (instr_op i)) = Some (instr_op i)" by (rule op_of_op_code)
  then have "valid_opcode (op_code (instr_op i))"
    by (simp add: op_of_code_def split: if_splits)
  moreover have "emit_instruction i @ rest \<noteq> []" using length_emit_instruction [of i] by auto
  ultimately show ?thesis
    by (simp add: read_instruction_def emit_instruction_def emit_op_def op_of_op_code read_switch_emit)
qed

lemma read_instruction_sound:
  assumes "read_instruction bs = Some (Inr i, rest)"
  shows "bs = emit_instruction i @ rest"
proof -
  from assms obtain raw rest1 op where r: "read_u8 bs = Some (raw, rest1)"
    "op_of_code raw = Some op" "read_load_store op rest1 = Some (Inr i, rest)"
    by (auto simp: read_instruction_def split: if_splits option.splits)
  then have "instr_op i = op" "rest1 = concat (map emit_operand (instr_operands i)) @ rest"
    using read_switch_sound by blast+
  then show ?thesis
    using codec_u8.dec_sound [OF r(1)] op_code_of_code [OF r(2)]
    by (simp add: emit_instruction_def emit_op_def)
qed

lemma read_instruction_total: "\<exists>r rest. read_instruction bs = Some (r, rest)"
proof (cases bs)
  case Nil
  then show ?thesis by (simp add: read_instruction_def)
next
  case (Cons b rest)
  then show ?thesis
    using read_switch_total [where rest = rest]
    by (auto simp: read_instruction_def read_u8_Cons split: option.split) blast
qed

subsection \<open>Properties\<close>

text \<open>
  C14: the decoder inverts the encoder and accepts nothing else. It returns an instruction
  exactly when the input starts with that instruction's encoding, and leaves exactly the
  rest of the input.
\<close>

theorem decode_iff_encoded:
  "read_instruction bs = Some (Inr i, rest) \<longleftrightarrow> bs = emit_instruction i @ rest"
  using read_instruction_sound read_emit_instruction by blast

text \<open>
  The decoder never reads outside of its input, on any byte sequence: the operand sizes
  that it checks before each instruction cover what it reads, and it reports the reason
  when it cannot decode.
\<close>

lemma decode_never_overruns:
  "\<exists>r rest. read_instruction bs = Some (r, rest) \<and> (\<exists>used. bs = used @ rest)
    \<and> (r = Inl EndOfCode \<longleftrightarrow> bs = [])"
proof -
  obtain r rest where r: "read_instruction bs = Some (r, rest)"
    using read_instruction_total by blast
  have "(\<exists>used. bs = used @ rest) \<and> (r = Inl EndOfCode \<longleftrightarrow> bs = [])"
  proof (cases bs)
    case Nil
    with r show ?thesis by (simp add: read_instruction_def)
  next
    case (Cons b tl)
    show ?thesis
    proof (cases "valid_opcode b \<and> op_of_code b \<noteq> None")
      case True
      then obtain op where op: "op_of_code b = Some op" "valid_opcode b" by auto
      obtain r' where r': "read_load_store op tl = Some (r', if length tl < operand_size op then tl
          else drop (operand_size op) tl)"
        "case r' of Inl err \<Rightarrow> length tl < operand_size op \<and> err = IncompleteInstruction
          | Inr _ \<Rightarrow> operand_size op \<le> length tl"
        using read_switch_total by blast
      have "r' = r" "rest = (if length tl < operand_size op then tl else drop (operand_size op) tl)"
        using r r'(1) op Cons by (auto simp: read_instruction_def read_u8_Cons)
      moreover have "\<exists>used. b # tl = used @ drop n tl" for n
        by (rule exI [of _ "b # take n tl"]) simp
      moreover have "\<exists>used. b # tl = used @ tl" by (rule exI [of _ "[b]"]) simp
      ultimately show ?thesis using r'(2) Cons by (cases r') auto
    next
      case False
      with r Cons have "r = Inl InvalidOpcode" "rest = tl"
        by (auto simp: read_instruction_def read_u8_Cons split: option.splits if_splits)
      with Cons show ?thesis by auto
    qed
  qed
  with r show ?thesis by blast
qed

end
