(* ===== verification/BytecodeWriter.thy ===== *)
theory BytecodeWriter
  imports Bytecode
begin

text \<open>
  The assembler (src/bytecode/writer.hpp and writer.cpp): instructions are appended to the
  code of a function, jumps to labels leave a placeholder that \<open>finish\<close> patches, and
  sections of code get an exception handler. The handler table is the one that the machine
  searches (\<open>HandlerTable::find_entry\<close> in src/vm/objects/function.cpp).
  Debug assertions are not part of the model.
\<close>

subsection \<open>State\<close>

datatype bytecode_label = Label (label_id: u32)

definition invalid_label :: bytecode_label where
  "invalid_label = Label invalid_value"

fun valid_label :: "bytecode_label \<Rightarrow> bool" where
  "valid_label (Label i) = (i \<noteq> invalid_value)"

record exception_handler =
  handler_from :: u32
  handler_to :: u32
  handler_target :: u32

record handler_entry =
  entry_from :: u32
  entry_to :: u32
  entry_target :: bytecode_label

record bytecode_writer =
  code :: bytes
  complete_handlers :: "exception_handler list"
  handlers :: "handler_entry list"
  label_defs :: "bytecode_label \<rightharpoonup> u32"
  label_refs :: "(u32 \<times> bytecode_label) list"
  module_refs :: "(u32 \<times> bytecode_member) list"
  handler :: bytecode_label
  handler_start :: u32

datatype writer_error = PositionTooLarge | LabelNotDefined | OverwriteOutOfBounds

type_synonym 'a writing = "writer_error + 'a"

definition new_writer :: bytecode_writer where
  "new_writer = \<lparr>code = [], complete_handlers = [], handlers = [], label_defs = Map.empty,
     label_refs = [], module_refs = [], handler = invalid_label, handler_start = 0\<rparr>"

subsection \<open>Operations\<close>

text \<open>The byte offset of the next instruction, as a 32-bit number.\<close>

definition writer_pos :: "bytecode_writer \<Rightarrow> u32 writing" where
  "writer_pos w =
     (if length (code w) \<le> unat (- 1 :: u32) then Inr (word_of_nat (length (code w)))
      else Inl PositionTooLarge)"

definition define_label :: "bytecode_label \<Rightarrow> bytecode_writer \<Rightarrow> bytecode_writer writing" where
  "define_label label w =
     bind_sum (writer_pos w) (\<lambda>pos. Inr (w\<lparr>label_defs := (label_defs w)(label \<mapsto> pos)\<rparr>))"

definition finish_handler :: "bytecode_writer \<Rightarrow> bytecode_writer writing" where
  "finish_handler w =
     bind_sum (writer_pos w) (\<lambda>current_pos.
       let w = (if valid_label (handler w) \<and> handler_start w \<noteq> current_pos
                then w\<lparr>handlers := handlers w @
                       [\<lparr>entry_from = handler_start w, entry_to = current_pos, entry_target = handler w\<rparr>]\<rparr>
                else w)
       in Inr (w\<lparr>handler := invalid_label, handler_start := 0\<rparr>))"

definition start_handler :: "bytecode_label \<Rightarrow> bytecode_writer \<Rightarrow> bytecode_writer writing" where
  "start_handler h w =
     (if h = handler w then Inr w
      else bind_sum (finish_handler w) (\<lambda>w.
           bind_sum (writer_pos w) (\<lambda>pos. Inr (w\<lparr>handler := h, handler_start := pos\<rparr>))))"

text \<open>The arguments of \<open>write\<close>, one \<open>write_impl\<close> per type.\<close>

datatype write_arg = Arg operand | LabelArg bytecode_label

definition emit :: "bytes \<Rightarrow> bytecode_writer \<Rightarrow> bytecode_writer" where
  "emit bs w = w\<lparr>code := code w @ bs\<rparr>"

fun write_impl :: "write_arg \<Rightarrow> bytecode_writer \<Rightarrow> bytecode_writer writing" where
  "write_impl (Arg (ParamOperand param)) w = Inr (emit (emit_u32 (param_id param)) w)"
| "write_impl (Arg (RegisterOperand local)) w = Inr (emit (emit_u32 (register_id local)) w)"
| "write_impl (Arg (OffsetOperand offset)) w = Inr (emit (emit_u32 (offset_value offset)) w)"
| "write_impl (LabelArg label) w =
     bind_sum (writer_pos w) (\<lambda>pos.
       Inr (emit (emit_u32 invalid_value) (w\<lparr>label_refs := label_refs w @ [(pos, label)]\<rparr>)))"
| "write_impl (Arg (MemberOperand index)) w =
     bind_sum (writer_pos w) (\<lambda>pos.
       Inr (emit (emit_u32 (member_id index)) (w\<lparr>module_refs := module_refs w @ [(pos, index)]\<rparr>)))"
| "write_impl (Arg (ConstantOperand value)) w = Inr (emit (emit_u32 value) w)"
| "write_impl (Arg (IntOperand value)) w = Inr (emit (emit_i64 value) w)"
| "write_impl (Arg (FloatOperand value)) w = Inr (emit (emit_f64 value) w)"

fun write_args :: "write_arg list \<Rightarrow> bytecode_writer \<Rightarrow> bytecode_writer writing" where
  "write_args [] w = Inr w"
| "write_args (arg # args) w = bind_sum (write_impl arg w) (write_args args)"

definition write_op :: "bytecode_op \<Rightarrow> write_arg list \<Rightarrow> bytecode_writer \<Rightarrow> bytecode_writer writing" where
  "write_op op args w = write_args args (emit (emit_op op) w)"

text \<open>The methods for instructions, and those for jumps to labels.\<close>

definition write_instr :: "instr \<Rightarrow> bytecode_writer \<Rightarrow> bytecode_writer writing" where
  "write_instr i = write_op (instr_op i) (map Arg (instr_operands i))"

definition jmp :: "bytecode_label \<Rightarrow> bytecode_writer \<Rightarrow> bytecode_writer writing" where
  "jmp label = write_op OpJmp [LabelArg label]"

definition jmp_true :: "bytecode_register \<Rightarrow> bytecode_label \<Rightarrow> bytecode_writer \<Rightarrow> bytecode_writer writing" where
  "jmp_true condition label = write_op OpJmpTrue [Arg (RegisterOperand condition), LabelArg label]"

definition jmp_false :: "bytecode_register \<Rightarrow> bytecode_label \<Rightarrow> bytecode_writer \<Rightarrow> bytecode_writer writing" where
  "jmp_false condition label = write_op OpJmpFalse [Arg (RegisterOperand condition), LabelArg label]"

definition jmp_null :: "bytecode_register \<Rightarrow> bytecode_label \<Rightarrow> bytecode_writer \<Rightarrow> bytecode_writer writing" where
  "jmp_null condition label = write_op OpJmpNull [Arg (RegisterOperand condition), LabelArg label]"

definition jmp_not_null :: "bytecode_register \<Rightarrow> bytecode_label \<Rightarrow> bytecode_writer \<Rightarrow> bytecode_writer writing" where
  "jmp_not_null condition label = write_op OpJmpNotNull [Arg (RegisterOperand condition), LabelArg label]"

text \<open>\<open>finish\<close> patches the references, resolves the handlers and merges adjacent ones.\<close>

definition overwrite_u32 :: "u32 \<Rightarrow> u32 \<Rightarrow> bytecode_writer \<Rightarrow> bytecode_writer writing" where
  "overwrite_u32 pos v w =
     (case overwrite_raw host (code w) (unat pos) v of
        None \<Rightarrow> Inl OverwriteOutOfBounds
      | Some c \<Rightarrow> Inr (w\<lparr>code := c\<rparr>))"

fun patch_refs :: "(u32 \<times> bytecode_label) list \<Rightarrow> bytecode_writer \<Rightarrow> bytecode_writer writing" where
  "patch_refs [] w = Inr w"
| "patch_refs ((pos, target) # refs) w =
     (case label_defs w target of
        None \<Rightarrow> Inl LabelNotDefined
      | Some def \<Rightarrow> bind_sum (overwrite_u32 pos def w) (patch_refs refs))"

fun resolve_handlers :: "handler_entry list \<Rightarrow> bytecode_writer \<Rightarrow> bytecode_writer writing" where
  "resolve_handlers [] w = Inr w"
| "resolve_handlers (entry # entries) w =
     (case label_defs w (entry_target entry) of
        None \<Rightarrow> Inl LabelNotDefined
      | Some def \<Rightarrow>
          resolve_handlers entries (w\<lparr>complete_handlers := complete_handlers w @
            [\<lparr>handler_from = entry_from entry, handler_to = entry_to entry, handler_target = def\<rparr>]\<rparr>))"

text \<open>The loop holds the last entry of the output; the entries before it are final.\<close>

fun merge_handlers :: "exception_handler \<Rightarrow> exception_handler list \<Rightarrow> exception_handler list" where
  "merge_handlers out [] = [out]"
| "merge_handlers out (entry # rest) =
     (if handler_from entry = handler_to out \<and> handler_target entry = handler_target out
      then merge_handlers (out\<lparr>handler_to := handler_to entry\<rparr>) rest
      else out # merge_handlers entry rest)"

fun simplify_handlers :: "exception_handler list \<Rightarrow> exception_handler list" where
  "simplify_handlers [] = []"
| "simplify_handlers (out # rest) = merge_handlers out rest"

definition finish :: "bytecode_writer \<Rightarrow> bytecode_writer writing" where
  "finish w =
     bind_sum (finish_handler w) (\<lambda>w.
     bind_sum (patch_refs (label_refs w) w) (\<lambda>w.
     bind_sum (resolve_handlers (handlers w) w) (\<lambda>w.
       Inr (w\<lparr>complete_handlers := simplify_handlers (complete_handlers w)\<rparr>))))"

subsection \<open>The search of the handler table\<close>

text \<open>\<open>std::upper_bound\<close>: the first entry that ends to the right of the position.\<close>

definition upper_bound :: "exception_handler list \<Rightarrow> u32 \<Rightarrow> exception_handler list" where
  "upper_bound entries pc = dropWhile (\<lambda>entry. \<not> pc < handler_to entry) entries"

definition find_entry :: "exception_handler list \<Rightarrow> u32 \<Rightarrow> exception_handler option" where
  "find_entry entries pc =
     (case upper_bound entries pc of
        [] \<Rightarrow> None
      | entry # _ \<Rightarrow> if handler_from entry \<le> pc then Some entry else None)"

subsection \<open>Programs for the assembler\<close>

text \<open>A client's sequence of calls.\<close>

datatype asm_command =
    DefineLabel bytecode_label
  | StartHandler bytecode_label
  | Emit instr
  | EmitJmp bytecode_label
  | EmitJmpTrue bytecode_register bytecode_label
  | EmitJmpFalse bytecode_register bytecode_label
  | EmitJmpNull bytecode_register bytecode_label
  | EmitJmpNotNull bytecode_register bytecode_label

fun run_command :: "asm_command \<Rightarrow> bytecode_writer \<Rightarrow> bytecode_writer writing" where
  "run_command (DefineLabel l) = define_label l"
| "run_command (StartHandler l) = start_handler l"
| "run_command (Emit i) = write_instr i"
| "run_command (EmitJmp l) = jmp l"
| "run_command (EmitJmpTrue r l) = jmp_true r l"
| "run_command (EmitJmpFalse r l) = jmp_false r l"
| "run_command (EmitJmpNull r l) = jmp_null r l"
| "run_command (EmitJmpNotNull r l) = jmp_not_null r l"

fun run_commands :: "asm_command list \<Rightarrow> bytecode_writer \<Rightarrow> bytecode_writer writing" where
  "run_commands [] w = Inr w"
| "run_commands (c # cs) w = bind_sum (run_command c w) (run_commands cs)"

definition assemble :: "asm_command list \<Rightarrow> bytecode_writer writing" where
  "assemble cs = bind_sum (run_commands cs new_writer) finish"

text \<open>What the calls mean: the instructions, with a label standing for a position.\<close>

fun resolve_command :: "(bytecode_label \<Rightarrow> u32) \<Rightarrow> asm_command \<Rightarrow> instr list" where
  "resolve_command L (DefineLabel l) = []"
| "resolve_command L (StartHandler l) = []"
| "resolve_command L (Emit i) = [i]"
| "resolve_command L (EmitJmp l) = [Jmp (Offset (L l))]"
| "resolve_command L (EmitJmpTrue r l) = [JmpTrue r (Offset (L l))]"
| "resolve_command L (EmitJmpFalse r l) = [JmpFalse r (Offset (L l))]"
| "resolve_command L (EmitJmpNull r l) = [JmpNull r (Offset (L l))]"
| "resolve_command L (EmitJmpNotNull r l) = [JmpNotNull r (Offset (L l))]"

definition resolve_commands :: "(bytecode_label \<Rightarrow> u32) \<Rightarrow> asm_command list \<Rightarrow> instr list" where
  "resolve_commands L cs = concat (map (resolve_command L) cs)"

definition encode :: "instr list \<Rightarrow> bytes" where
  "encode is = concat (map emit_instruction is)"

definition command_size :: "asm_command \<Rightarrow> nat" where
  "command_size c = length (encode (resolve_command (\<lambda>_. 0) c))"

definition commands_size :: "asm_command list \<Rightarrow> nat" where
  "commands_size cs = sum_list (map command_size cs)"

text \<open>The handler that is in force at a byte of the code.\<close>

fun handler_at :: "bytecode_label \<Rightarrow> asm_command list \<Rightarrow> nat \<Rightarrow> bytecode_label" where
  "handler_at h [] pc = invalid_label"
| "handler_at h (StartHandler l # cs) pc = handler_at l cs pc"
| "handler_at h (c # cs) pc =
     (if pc < command_size c then h else handler_at h cs (pc - command_size c))"

subsection \<open>The code as a list of pieces\<close>

text \<open>
  The bytes of a command are those of its operation code and its arguments, with a label
  standing for a position; the references are at the arguments that are labels.
\<close>

datatype piece = OpPiece bytecode_op | ArgPiece write_arg

fun resolve_arg :: "(bytecode_label \<Rightarrow> u32) \<Rightarrow> write_arg \<Rightarrow> operand" where
  "resolve_arg L (Arg x) = x"
| "resolve_arg L (LabelArg l) = OffsetOperand (Offset (L l))"

fun piece_code :: "(bytecode_label \<Rightarrow> u32) \<Rightarrow> piece \<Rightarrow> bytes" where
  "piece_code L (OpPiece op) = emit_op op"
| "piece_code L (ArgPiece a) = emit_operand (resolve_arg L a)"

definition pieces_code :: "(bytecode_label \<Rightarrow> u32) \<Rightarrow> piece list \<Rightarrow> bytes" where
  "pieces_code L ps = concat (map (piece_code L) ps)"

fun piece_label_ref :: "nat \<Rightarrow> piece \<Rightarrow> (nat \<times> bytecode_label) list" where
  "piece_label_ref pos (ArgPiece (LabelArg l)) = [(pos, l)]"
| "piece_label_ref pos _ = []"

fun piece_module_ref :: "nat \<Rightarrow> piece \<Rightarrow> (nat \<times> bytecode_member) list" where
  "piece_module_ref pos (ArgPiece (Arg (MemberOperand m))) = [(pos, m)]"
| "piece_module_ref pos _ = []"

fun pieces_refs :: "(nat \<Rightarrow> piece \<Rightarrow> (nat \<times> 'b) list) \<Rightarrow> nat \<Rightarrow> piece list \<Rightarrow> (nat \<times> 'b) list" where
  "pieces_refs R pos [] = []"
| "pieces_refs R pos (p # ps) = R pos p @ pieces_refs R (pos + length (piece_code (\<lambda>_. 0) p)) ps"

fun command_pieces :: "asm_command \<Rightarrow> piece list" where
  "command_pieces (DefineLabel l) = []"
| "command_pieces (StartHandler l) = []"
| "command_pieces (Emit i) = OpPiece (instr_op i) # map (ArgPiece \<circ> Arg) (instr_operands i)"
| "command_pieces (EmitJmp l) = [OpPiece OpJmp, ArgPiece (LabelArg l)]"
| "command_pieces (EmitJmpTrue r l) = [OpPiece OpJmpTrue, ArgPiece (Arg (RegisterOperand r)), ArgPiece (LabelArg l)]"
| "command_pieces (EmitJmpFalse r l) = [OpPiece OpJmpFalse, ArgPiece (Arg (RegisterOperand r)), ArgPiece (LabelArg l)]"
| "command_pieces (EmitJmpNull r l) = [OpPiece OpJmpNull, ArgPiece (Arg (RegisterOperand r)), ArgPiece (LabelArg l)]"
| "command_pieces (EmitJmpNotNull r l) = [OpPiece OpJmpNotNull, ArgPiece (Arg (RegisterOperand r)), ArgPiece (LabelArg l)]"

definition commands_pieces :: "asm_command list \<Rightarrow> piece list" where
  "commands_pieces cs = concat (map command_pieces cs)"

lemma pieces_code_simps [simp]:
  "pieces_code L [] = []"
  "pieces_code L (p # ps) = piece_code L p @ pieces_code L ps"
  "pieces_code L (ps @ qs) = pieces_code L ps @ pieces_code L qs"
  by (simp_all add: pieces_code_def)

lemma encode_simps [simp]:
  "encode [] = []" "encode (i # is) = emit_instruction i @ encode is"
  "encode (is @ js) = encode is @ encode js"
  by (simp_all add: encode_def)

lemma pieces_code_args: "pieces_code L (map (ArgPiece \<circ> Arg) xs) = concat (map emit_operand xs)"
  by (simp add: pieces_code_def comp_def)

lemma encode_command: "encode (resolve_command L c) = pieces_code L (command_pieces c)"
  by (cases c) (simp_all add: emit_instruction_def pieces_code_args)

lemma encode_commands: "encode (resolve_commands L cs) = pieces_code L (commands_pieces cs)"
  by (induction cs) (simp_all add: resolve_commands_def commands_pieces_def encode_command)

lemma length_piece_code: "length (piece_code L p) = length (piece_code L' p)"
proof (cases p)
  case (ArgPiece a)
  then show ?thesis by (cases a) auto
qed simp

lemma length_pieces_code: "length (pieces_code L ps) = length (pieces_code L' ps)"
  by (induction ps) (auto simp: length_piece_code [of L _ L'])

lemma pieces_refs_append:
  "pieces_refs R pos (ps @ qs) = pieces_refs R pos ps @ pieces_refs R (pos + length (pieces_code L ps)) qs"
proof (induction ps arbitrary: pos)
  case (Cons p ps)
  then show ?case by (simp add: length_piece_code [of "\<lambda>_. 0" p L] add.assoc)
qed simp

lemma commands_size_pieces: "commands_size cs = length (pieces_code L (commands_pieces cs))"
proof (induction cs)
  case (Cons c cs)
  have "command_size c = length (pieces_code L (command_pieces c))"
    by (simp add: command_size_def encode_command length_pieces_code [of "\<lambda>_. 0" _ L])
  with Cons show ?case by (simp add: commands_size_def commands_pieces_def)
qed (simp add: commands_size_def commands_pieces_def)

subsection \<open>What the operations do\<close>

definition nat_refs :: "(u32 \<times> 'b) list \<Rightarrow> (nat \<times> 'b) list" where
  "nat_refs = map (map_prod unat id)"

lemma nat_refs_append [simp]: "nat_refs (xs @ ys) = nat_refs xs @ nat_refs ys"
  "nat_refs [] = []" "nat_refs [(p, x)] = [(unat p, x)]"
  by (simp_all add: nat_refs_def)

lemma unat_max_u32: "unat (- 1 :: u32) = 2 ^ 32 - 1"
  by (simp add: unsigned_minus_1_eq_mask mask_eq_exp_minus_1)

lemma writer_pos_Inr: "writer_pos w = Inr pos \<longleftrightarrow> length (code w) < 2 ^ 32 \<and> unat pos = length (code w)"
proof -
  show ?thesis
  proof (cases "length (code w) < 2 ^ 32")
    case True
    then have "unat (word_of_nat (length (code w)) :: u32) = length (code w)" by (simp add: unat_of_nat)
    with True show ?thesis unfolding writer_pos_def unat_max_u32 by (auto simp: word_unat_eq_iff)
  qed (simp add: writer_pos_def unat_max_u32)
qed

text \<open>The state that holds the code, the references and the module members, and the rest.\<close>

definition appends :: "piece list \<Rightarrow> bytecode_writer \<Rightarrow> bytecode_writer \<Rightarrow> bool" where
  "appends ps w w' \<longleftrightarrow>
     code w' = code w @ pieces_code (\<lambda>_. invalid_value) ps
     \<and> nat_refs (label_refs w') = nat_refs (label_refs w) @ pieces_refs piece_label_ref (length (code w)) ps
     \<and> nat_refs (module_refs w') = nat_refs (module_refs w) @ pieces_refs piece_module_ref (length (code w)) ps
     \<and> complete_handlers w' = complete_handlers w \<and> handlers w' = handlers w
     \<and> label_defs w' = label_defs w \<and> handler w' = handler w \<and> handler_start w' = handler_start w"

lemma appends_trans: "appends ps w w' \<Longrightarrow> appends qs w' w'' \<Longrightarrow> appends (ps @ qs) w w''"
  unfolding appends_def by (simp add: pieces_refs_append [where L = "\<lambda>_. invalid_value"])

lemma write_impl_appends:
  assumes "write_impl arg w = Inr w'"
  shows "appends [ArgPiece arg] w w'"
proof (cases arg)
  case (Arg x)
  with assms show ?thesis by (cases x) (auto simp: appends_def emit_def writer_pos_Inr)
qed (use assms in \<open>auto simp: appends_def emit_def writer_pos_Inr\<close>)

lemma write_impl_succeeds:
  assumes "length (code w) < 2 ^ 32"
  shows "\<exists>w'. write_impl arg w = Inr w'"
proof -
  obtain p where "writer_pos w = Inr p"
    using assms by (auto simp: writer_pos_def unat_max_u32)
  then show ?thesis
  proof (cases arg)
    case (Arg x)
    with \<open>writer_pos w = Inr p\<close> show ?thesis by (cases x) auto
  qed simp
qed

lemma write_args_appends:
  "write_args args w = Inr w' \<Longrightarrow> appends (map ArgPiece args) w w'"
proof (induction args arbitrary: w)
  case Nil
  then show ?case by (simp add: appends_def)
next
  case (Cons a args)
  then obtain w1 where "write_impl a w = Inr w1" "write_args args w1 = Inr w'" by auto
  with Cons.IH show ?case
    using appends_trans [OF write_impl_appends] by fastforce
qed

lemma appends_length: "appends ps w w' \<Longrightarrow> length (code w') = length (code w) + length (pieces_code L ps)"
  by (simp add: appends_def length_pieces_code [of L _ "\<lambda>_. invalid_value"])

lemma write_args_succeeds:
  "length (code w) + length (pieces_code L (map ArgPiece args)) < 2 ^ 32 \<Longrightarrow> \<exists>w'. write_args args w = Inr w'"
proof (induction args arbitrary: w)
  case (Cons a args)
  then obtain w1 where w1: "write_impl a w = Inr w1" using write_impl_succeeds by fastforce
  with appends_length [OF write_impl_appends [OF w1], of L] Cons show ?case by auto
qed simp

lemma write_op_appends:
  assumes "write_op op args w = Inr w'"
  shows "appends (OpPiece op # map ArgPiece args) w w'"
proof -
  have "appends [OpPiece op] w (emit (emit_op op) w)" by (simp add: appends_def emit_def)
  from appends_trans [OF this write_args_appends] assms show ?thesis by (simp add: write_op_def)
qed

lemma write_op_succeeds:
  "length (code w) + length (pieces_code L (OpPiece op # map ArgPiece args)) < 2 ^ 32
   \<Longrightarrow> \<exists>w'. write_op op args w = Inr w'"
  unfolding write_op_def by (rule write_args_succeeds [where L = L]) (simp add: emit_def)

text \<open>Commands that emit code.\<close>

fun emitting :: "asm_command \<Rightarrow> bool" where
  "emitting (DefineLabel l) = False"
| "emitting (StartHandler l) = False"
| "emitting _ = True"

lemmas write_defs = write_instr_def jmp_def jmp_true_def jmp_false_def jmp_null_def jmp_not_null_def

lemma emitting_write:
  "emitting c \<Longrightarrow> \<exists>op args. run_command c = write_op op args \<and> command_pieces c = OpPiece op # map ArgPiece args"
proof (cases c)
  case (Emit i)
  then have "run_command c = write_op (instr_op i) (map Arg (instr_operands i))"
    "command_pieces c = OpPiece (instr_op i) # map ArgPiece (map Arg (instr_operands i))"
    by (auto simp: write_instr_def)
  then show ?thesis by blast
qed (auto simp: write_defs intro!: exI)

lemma run_command_appends:
  "emitting c \<Longrightarrow> run_command c w = Inr w' \<Longrightarrow> appends (command_pieces c) w w'"
  using emitting_write [of c] write_op_appends by auto

lemma run_command_succeeds:
  "emitting c \<Longrightarrow> length (code w) + command_size c < 2 ^ 32 \<Longrightarrow> \<exists>w'. run_command c w = Inr w'"
  using emitting_write [of c] write_op_succeeds [of w "\<lambda>_. 0"]
  by (auto simp: command_size_def encode_command)

subsection \<open>Patching the references\<close>

definition label_offset :: "(bytecode_label \<rightharpoonup> u32) \<Rightarrow> bytecode_label \<Rightarrow> u32" where
  "label_offset D l = (case D l of None \<Rightarrow> invalid_value | Some d \<Rightarrow> d)"

lemma label_offset_eq: "D l = Some d \<Longrightarrow> label_offset D l = d"
  by (simp add: label_offset_def)

lemma overwrite_u32_middle:
  assumes "code w = pre @ bs @ post" and "length bs = 4" and "unat pos = length pre"
  shows "overwrite_u32 pos v w = Inr (w\<lparr>code := pre @ emit_u32 v @ post\<rparr>)"
proof -
  have "memory_bytes host (host_to_be host v) = emit_u32 v" by (simp add: emit_u32_def emit_raw_def)
  with assms show ?thesis by (simp add: overwrite_u32_def overwrite_raw_def)
qed

lemma nat_refs_Cons:
  "nat_refs refs = (n, x) # xs \<Longrightarrow> \<exists>p refs'. refs = (p, x) # refs' \<and> unat p = n \<and> nat_refs refs' = xs"
  unfolding nat_refs_def by (cases refs) (auto simp: map_prod_def split: prod.split_asm)

lemma nat_refs_Nil: "nat_refs refs = [] \<longleftrightarrow> refs = []"
  by (simp add: nat_refs_def)

lemma patch_refs_pieces:
  assumes "nat_refs refs = pieces_refs piece_label_ref (length pre) ps"
    and "code w = pre @ pieces_code (\<lambda>_. invalid_value) ps"
  shows "patch_refs refs w =
     (if snd ` set refs \<subseteq> dom (label_defs w)
      then Inr (w\<lparr>code := pre @ pieces_code (label_offset (label_defs w)) ps\<rparr>)
      else Inl LabelNotDefined)"
  using assms
proof (induction ps arbitrary: pre refs w)
  case Nil
  then show ?case by (simp add: nat_refs_Nil)
next
  case (Cons p ps)
  show ?case
  proof (cases "\<exists>l. p = ArgPiece (LabelArg l)")
    case False
    then have r: "piece_label_ref pos p = []" for pos by (cases "(pos, p)" rule: piece_label_ref.cases) auto
    have c: "piece_code L p = piece_code L' p" for L L'
    proof (cases p)
      case (ArgPiece a)
      with False show ?thesis by (cases a) auto
    qed simp
    have "nat_refs refs = pieces_refs piece_label_ref (length (pre @ piece_code (\<lambda>_. 0) p)) ps"
      using Cons.prems(1) r by simp
    moreover have "code w = (pre @ piece_code (\<lambda>_. 0) p) @ pieces_code (\<lambda>_. invalid_value) ps"
      using Cons.prems(2) c [of "\<lambda>_. 0" "\<lambda>_. invalid_value"] by simp
    ultimately show ?thesis
      using Cons.IH [of refs "pre @ piece_code (\<lambda>_. 0) p" w] c [of "\<lambda>_. 0" "label_offset (label_defs w)"] by simp
  next
    case True
    then obtain l where p: "p = ArgPiece (LabelArg l)" by blast
    with Cons.prems(1) obtain pos refs' where refs: "refs = (pos, l) # refs'" and pos: "unat pos = length pre"
      and rest: "nat_refs refs' = pieces_refs piece_label_ref (length pre + 4) ps"
      using nat_refs_Cons by fastforce
    show ?thesis
    proof (cases "label_defs w l")
      case None
      then show ?thesis by (auto simp: refs)
    next
      case (Some d)
      let ?w = "w\<lparr>code := pre @ emit_u32 d @ pieces_code (\<lambda>_. invalid_value) ps\<rparr>"
      have "overwrite_u32 pos d w = Inr ?w"
        using Cons.prems(2) pos p overwrite_u32_middle [where bs = "emit_u32 invalid_value"] by simp
      moreover have "patch_refs refs' ?w = (if snd ` set refs' \<subseteq> dom (label_defs w)
          then Inr (w\<lparr>code := pre @ emit_u32 d @ pieces_code (label_offset (label_defs w)) ps\<rparr>)
          else Inl LabelNotDefined)"
        using Cons.IH [of refs' "pre @ emit_u32 d" ?w] rest by simp
      ultimately show ?thesis using Some by (auto simp: refs p label_offset_eq)
    qed
  qed
qed

subsection \<open>Tables of handlers\<close>

definition covers :: "exception_handler \<Rightarrow> u32 \<Rightarrow> bool" where
  "covers e pc \<longleftrightarrow> handler_from e \<le> pc \<and> pc < handler_to e"

text \<open>The entries are not empty and lie one after the other.\<close>

fun ordered_handlers :: "exception_handler list \<Rightarrow> bool" where
  "ordered_handlers [] = True"
| "ordered_handlers [e] = (handler_from e < handler_to e)"
| "ordered_handlers (e # e' # es) =
     (handler_from e < handler_to e \<and> handler_to e \<le> handler_from e' \<and> ordered_handlers (e' # es))"

lemma ordered_handlers_Cons:
  "ordered_handlers (e # es) \<longleftrightarrow>
     handler_from e < handler_to e \<and> ordered_handlers es \<and> (\<forall>e'\<in>set es. handler_to e \<le> handler_from e')"
proof (induction es arbitrary: e)
  case (Cons e' es)
  have "ordered_handlers (e # e' # es) \<longleftrightarrow>
     handler_from e < handler_to e \<and> handler_to e \<le> handler_from e' \<and> ordered_handlers (e' # es)"
    by simp
  moreover have "handler_to e \<le> handler_from x"
    if "handler_to e \<le> handler_from e'" "ordered_handlers (e' # es)" "x \<in> set es" for x
  proof -
    from that(2,3) have "handler_from e' < handler_to e'" "handler_to e' \<le> handler_from x"
      by (simp_all add: Cons.IH)
    with that(1) show ?thesis by (meson less_imp_le order_trans)
  qed
  ultimately show ?case by auto
qed simp

lemma ordered_handlers_snoc:
  "ordered_handlers (es @ [e]) \<longleftrightarrow>
     handler_from e < handler_to e \<and> ordered_handlers es \<and> (\<forall>e'\<in>set es. handler_to e' \<le> handler_from e)"
  by (induction es) (auto simp: ordered_handlers_Cons simp del: ordered_handlers.simps(3))

text \<open>On such a table the binary search finds the entry that covers the position.\<close>

lemma find_entry_covers:
  "ordered_handlers es \<Longrightarrow> find_entry es pc = find (\<lambda>e. covers e pc) es"
proof (induction es)
  case Nil
  then show ?case by (simp add: find_entry_def upper_bound_def)
next
  case (Cons e es)
  then have o: "handler_from e < handler_to e" "ordered_handlers es"
    and after: "\<forall>e'\<in>set es. handler_to e \<le> handler_from e'" by (auto simp: ordered_handlers_Cons)
  show ?case
  proof (cases "pc < handler_to e")
    case True
    with after have "find (\<lambda>e. covers e pc) es = None"
      by (auto simp: find_None_iff covers_def)
    with True show ?thesis by (simp add: find_entry_def upper_bound_def covers_def)
  next
    case False
    then show ?thesis using Cons.IH o
      by (simp add: find_entry_def upper_bound_def covers_def)
  qed
qed

definition target_at :: "exception_handler list \<Rightarrow> u32 \<Rightarrow> u32 option" where
  "target_at es pc = map_option handler_target (find (\<lambda>e. covers e pc) es)"

lemma target_at_simps [simp]:
  "target_at [] pc = None"
  "target_at (e # es) pc = (if covers e pc then Some (handler_target e) else target_at es pc)"
  by (simp_all add: target_at_def)

lemma merge_handlers_correct:
  "ordered_handlers (e # es) \<Longrightarrow>
   ordered_handlers (merge_handlers e es) \<and> target_at (merge_handlers e es) pc = target_at (e # es) pc
   \<and> (\<forall>x\<in>set (merge_handlers e es). handler_from e \<le> handler_from x)"
proof (induction e es rule: merge_handlers.induct)
  case (1 out)
  then show ?case by simp
next
  case (2 out entry rest)
  show ?case
  proof (cases "handler_from entry = handler_to out \<and> handler_target entry = handler_target out")
    case True
    have "ordered_handlers (out\<lparr>handler_to := handler_to entry\<rparr> # rest)"
      using 2(3) True by (auto simp: ordered_handlers_Cons simp del: ordered_handlers.simps(3))
    with 2(1) True show ?thesis using 2(3)
      by (auto simp: covers_def ordered_handlers_Cons simp del: ordered_handlers.simps(3))
  next
    case False
    then have m: "merge_handlers out (entry # rest) = out # merge_handlers entry rest"
      unfolding merge_handlers.simps by (rule if_not_P)
    have o: "handler_from out < handler_to out" "handler_to out \<le> handler_from entry" "ordered_handlers (entry # rest)"
      using 2(3) by (auto simp: ordered_handlers_Cons simp del: ordered_handlers.simps(3))
    with 2(2) False have ih: "ordered_handlers (merge_handlers entry rest)"
      "target_at (merge_handlers entry rest) pc = target_at (entry # rest) pc"
      "\<forall>x\<in>set (merge_handlers entry rest). handler_from entry \<le> handler_from x" by blast+
    then have after: "\<forall>x\<in>set (merge_handlers entry rest). handler_to out \<le> handler_from x"
      using o(2) order_trans by blast
    then have "\<forall>x\<in>set (merge_handlers entry rest). handler_from out \<le> handler_from x"
      using o(1) by (meson less_imp_le order_trans)
    with after ih(1,2) o(1) show ?thesis unfolding m by (simp add: ordered_handlers_Cons)
  qed
qed

lemma simplify_handlers_correct:
  "ordered_handlers es \<Longrightarrow>
   ordered_handlers (simplify_handlers es) \<and> target_at (simplify_handlers es) pc = target_at es pc"
  by (cases es) (simp_all add: merge_handlers_correct)

subsection \<open>The handler state\<close>

definition resolve_entry :: "(bytecode_label \<Rightarrow> u32) \<Rightarrow> handler_entry \<Rightarrow> exception_handler" where
  "resolve_entry L e =
     \<lparr>handler_from = entry_from e, handler_to = entry_to e, handler_target = L (entry_target e)\<rparr>"

definition entry_covers :: "u32 \<Rightarrow> handler_entry \<Rightarrow> bool" where
  "entry_covers pc e \<longleftrightarrow> entry_from e \<le> pc \<and> pc < entry_to e"

definition label_in :: "handler_entry list \<Rightarrow> u32 \<Rightarrow> bytecode_label" where
  "label_in es pc = (case find (entry_covers pc) es of None \<Rightarrow> invalid_label | Some e \<Rightarrow> entry_target e)"

definition in_force :: "bytecode_writer \<Rightarrow> u32 \<Rightarrow> bytecode_label" where
  "in_force w pc =
     (if valid_label (handler w) \<and> handler_start w \<le> pc then handler w else label_in (handlers w) pc)"

definition handlers_ok :: "bytecode_writer \<Rightarrow> bool" where
  "handlers_ok w \<longleftrightarrow>
     ordered_handlers (map (resolve_entry (\<lambda>_. 0)) (handlers w))
     \<and> (valid_label (handler w) \<longrightarrow> unat (handler_start w) \<le> length (code w))
     \<and> (\<forall>e\<in>set (handlers w). valid_label (entry_target e) \<and> unat (entry_to e) \<le> length (code w)
          \<and> (valid_label (handler w) \<longrightarrow> entry_to e \<le> handler_start w))"

definition keeps_code :: "bytecode_writer \<Rightarrow> bytecode_writer \<Rightarrow> bool" where
  "keeps_code w w' \<longleftrightarrow>
     code w' = code w \<and> complete_handlers w' = complete_handlers w \<and> label_defs w' = label_defs w
     \<and> label_refs w' = label_refs w \<and> module_refs w' = module_refs w"

lemma valid_label_iff: "valid_label l \<longleftrightarrow> l \<noteq> invalid_label"
  by (cases l) (simp add: invalid_label_def)

lemma not_valid_invalid_label [simp]: "\<not> valid_label invalid_label"
  by (simp add: valid_label_iff)

lemma resolve_entry_simps [simp]:
  "handler_from (resolve_entry L e) = entry_from e" "handler_to (resolve_entry L e) = entry_to e"
  "handler_target (resolve_entry L e) = L (entry_target e)"
  by (simp_all add: resolve_entry_def)

lemma ordered_resolve: "ordered_handlers (map (resolve_entry L) es) = ordered_handlers (map (resolve_entry L') es)"
  by (induction es) (auto simp: ordered_handlers_Cons)

lemma covers_resolve [simp]: "covers (resolve_entry L e) pc = entry_covers pc e"
  by (simp add: covers_def entry_covers_def)

lemma find_append: "find P (xs @ ys) = (case find P xs of None \<Rightarrow> find P ys | Some x \<Rightarrow> Some x)"
  by (induction xs) auto

lemma label_in_Nil [simp]: "label_in [] pc = invalid_label"
  by (simp add: label_in_def)

lemma label_in_none: "(\<And>e. e \<in> set es \<Longrightarrow> \<not> entry_covers pc e) \<Longrightarrow> label_in es pc = invalid_label"
  by (auto simp: label_in_def find_None_iff split: option.split) (metis find_Some_iff nth_mem)

lemma label_in_snoc:
  assumes "\<forall>x\<in>set es. entry_to x \<le> entry_from e"
  shows "label_in (es @ [e]) pc = (if entry_covers pc e then entry_target e else label_in es pc)"
proof (cases "entry_covers pc e")
  case True
  with assms have "find (entry_covers pc) es = None"
    by (auto simp: find_None_iff entry_covers_def)
  with True show ?thesis by (simp add: label_in_def find_append)
qed (simp add: label_in_def find_append split: option.split)

lemma finish_handler_ok:
  assumes "handlers_ok w" and "finish_handler w = Inr w1"
  shows "handlers_ok w1 \<and> keeps_code w w1 \<and> handler w1 = invalid_label
    \<and> length (code w) < 2 ^ 32
    \<and> (\<forall>pc. unat pc < length (code w) \<longrightarrow> label_in (handlers w1) pc = in_force w pc)"
proof -
  from assms(2) obtain pos where pos: "unat pos = length (code w)" and len: "length (code w) < 2 ^ 32"
    and w1: "w1 = (if valid_label (handler w) \<and> handler_start w \<noteq> pos
      then w\<lparr>handlers := handlers w @ [\<lparr>entry_from = handler_start w, entry_to = pos, entry_target = handler w\<rparr>]\<rparr>
      else w)\<lparr>handler := invalid_label, handler_start := 0\<rparr>"
    by (auto simp: finish_handler_def writer_pos_Inr Let_def)
  have k: "keeps_code w w1" "handler w1 = invalid_label" by (simp_all add: w1 keeps_code_def)
  show ?thesis
  proof (cases "valid_label (handler w) \<and> handler_start w \<noteq> pos")
    case True
    let ?e = "\<lparr>entry_from = handler_start w, entry_to = pos, entry_target = handler w\<rparr>"
    have h: "handlers w1 = handlers w @ [?e]" using True by (simp add: w1)
    have before: "\<forall>x\<in>set (handlers w). entry_to x \<le> entry_from ?e"
      using assms(1) True by (auto simp: handlers_ok_def)
    have start: "handler_start w < pos"
      using assms(1) True pos
      by (metis handlers_ok_def nless_le word_le_nat_alt)
    have "handlers_ok w1"
      using assms(1) before start pos k True
      by (auto simp: handlers_ok_def h ordered_handlers_snoc keeps_code_def)
    moreover have "label_in (handlers w1) pc = in_force w pc" if "unat pc < length (code w)" for pc
      using that pos True unfolding h label_in_snoc [OF before]
      by (auto simp: in_force_def entry_covers_def word_less_nat_alt)
    ultimately show ?thesis using k len by blast
  next
    case False
    then have h: "handlers w1 = handlers w" by (auto simp: w1)
    have "in_force w pc = label_in (handlers w) pc" if "unat pc < length (code w)" for pc
      using that False pos by (auto simp: in_force_def word_le_nat_alt)
    moreover have "handlers_ok w1" using assms(1) k by (auto simp: h handlers_ok_def keeps_code_def)
    ultimately show ?thesis using len k by (simp add: h)
  qed
qed

lemma start_handler_ok:
  assumes "handlers_ok w" and "start_handler h w = Inr w2"
  shows "handlers_ok w2 \<and> keeps_code w w2 \<and> handler w2 = h
    \<and> (\<forall>pc. unat pc < length (code w) \<longrightarrow> in_force w2 pc = in_force w pc)"
proof (cases "h = handler w")
  case True
  then show ?thesis using assms by (simp add: start_handler_def keeps_code_def)
next
  case False
  then obtain w1 pos where f: "finish_handler w = Inr w1" and p: "unat pos = length (code w1)"
    and w2: "w2 = w1\<lparr>handler := h, handler_start := pos\<rparr>"
    using assms(2) by (auto simp: start_handler_def writer_pos_Inr)
  note fin = finish_handler_ok [OF assms(1) f]
  then have c: "code w1 = code w" by (simp add: keeps_code_def)
  have "handlers_ok w2"
    using fin p by (auto simp: w2 handlers_ok_def word_le_nat_alt)
  moreover have "in_force w2 pc = in_force w pc" if "unat pc < length (code w)" for pc
    using fin p that c by (auto simp: w2 in_force_def word_le_nat_alt)
  moreover from fin have "keeps_code w w2" by (simp add: w2 keeps_code_def)
  ultimately show ?thesis by (simp add: w2)
qed

lemma appends_handlers_ok:
  assumes "handlers_ok w" and "appends ps w w'"
  shows "handlers_ok w' \<and> (\<forall>pc. in_force w' pc = in_force w pc)
     \<and> (\<forall>pc. length (code w) \<le> unat pc \<longrightarrow> in_force w pc = handler w)"
proof -
  have "in_force w pc = handler w" if "length (code w) \<le> unat pc" for pc
  proof (cases "valid_label (handler w)")
    case True
    with assms(1) that show ?thesis by (simp add: in_force_def handlers_ok_def word_le_nat_alt)
  next
    case False
    have "label_in (handlers w) pc = invalid_label"
      using assms(1) that by (intro label_in_none) (fastforce simp: handlers_ok_def entry_covers_def word_less_nat_alt)
    with False show ?thesis by (simp add: in_force_def valid_label_iff)
  qed
  moreover have "handlers_ok w'"
    using assms by (auto simp: handlers_ok_def appends_def)
  ultimately show ?thesis using assms(2) by (simp add: in_force_def appends_def)
qed

subsection \<open>The invariant of the assembler\<close>

fun last_handler :: "bytecode_label \<Rightarrow> asm_command list \<Rightarrow> bytecode_label" where
  "last_handler h [] = h"
| "last_handler h (StartHandler l # cs) = last_handler l cs"
| "last_handler h (c # cs) = last_handler h cs"

lemma command_size_zero [simp]: "command_size (DefineLabel l) = 0" "command_size (StartHandler l) = 0"
  by (simp_all add: command_size_def)

lemma last_handler_append: "last_handler h (cs @ ds) = last_handler (last_handler h cs) ds"
  by (induction h cs rule: last_handler.induct) auto

lemma commands_size_simps [simp]:
  "commands_size [] = 0" "commands_size (c # cs) = command_size c + commands_size cs"
  "commands_size (cs @ ds) = commands_size cs + commands_size ds"
  by (simp_all add: commands_size_def)

lemma handler_at_append:
  "handler_at h (cs @ ds) pc =
     (if pc < commands_size cs then handler_at h cs pc
      else handler_at (last_handler h cs) ds (pc - commands_size cs))"
  by (induction h cs pc rule: handler_at.induct) (auto simp: diff_diff_left)

definition label_positions :: "asm_command list \<Rightarrow> (bytecode_label \<rightharpoonup> u32) \<Rightarrow> bool" where
  "label_positions cs D \<longleftrightarrow>
     dom D = {l. DefineLabel l \<in> set cs}
     \<and> (\<forall>pre l post. cs = pre @ DefineLabel l # post \<and> DefineLabel l \<notin> set post \<longrightarrow>
          (\<exists>d. D l = Some d \<and> unat d = commands_size pre))"

lemma label_positions_snoc:
  assumes "label_positions cs D" and "\<And>l. c \<noteq> DefineLabel l"
  shows "label_positions (cs @ [c]) D"
  unfolding label_positions_def
proof (intro conjI allI impI)
  show "dom D = {l. DefineLabel l \<in> set (cs @ [c])}" using assms by (auto simp: label_positions_def)
next
  fix pre l post
  assume a: "cs @ [c] = pre @ DefineLabel l # post \<and> DefineLabel l \<notin> set post"
  with assms(2) obtain post' where "post = post' @ [c]" "cs = pre @ DefineLabel l # post'"
    by (cases post rule: rev_cases) auto
  with assms(1) a show "\<exists>d. D l = Some d \<and> unat d = commands_size pre"
    by (auto simp: label_positions_def)
qed

lemma label_positions_define:
  assumes "label_positions cs D" and "unat pos = commands_size cs"
  shows "label_positions (cs @ [DefineLabel l]) (D(l \<mapsto> pos))"
  unfolding label_positions_def
proof (intro conjI allI impI)
  show "dom (D(l \<mapsto> pos)) = {l'. DefineLabel l' \<in> set (cs @ [DefineLabel l])}"
    using assms by (auto simp: label_positions_def)
next
  fix pre l' post
  assume a: "cs @ [DefineLabel l] = pre @ DefineLabel l' # post \<and> DefineLabel l' \<notin> set post"
  show "\<exists>d. (D(l \<mapsto> pos)) l' = Some d \<and> unat d = commands_size pre"
  proof (cases post rule: rev_cases)
    case Nil
    with a assms(2) show ?thesis by auto
  next
    case (snoc post' c)
    with a have "cs = pre @ DefineLabel l' # post'" "DefineLabel l' \<notin> set post'" "l' \<noteq> l" by auto
    with assms(1) show ?thesis by (auto simp: label_positions_def)
  qed
qed

definition writer_inv :: "asm_command list \<Rightarrow> bytecode_writer \<Rightarrow> bool" where
  "writer_inv cs w \<longleftrightarrow>
     appends (commands_pieces cs) new_writer
       (w\<lparr>handlers := [], label_defs := Map.empty, handler := invalid_label, handler_start := 0\<rparr>)
     \<and> label_positions cs (label_defs w)
     \<and> handlers_ok w \<and> handler w = last_handler invalid_label cs
     \<and> (\<forall>pc. unat pc < commands_size cs \<longrightarrow> in_force w pc = handler_at invalid_label cs (unat pc))"

lemma writer_inv_facts:
  assumes "writer_inv cs w"
  shows "code w = pieces_code (\<lambda>_. invalid_value) (commands_pieces cs)"
    and "nat_refs (label_refs w) = pieces_refs piece_label_ref 0 (commands_pieces cs)"
    and "nat_refs (module_refs w) = pieces_refs piece_module_ref 0 (commands_pieces cs)"
    and "complete_handlers w = []" and "length (code w) = commands_size cs"
  using assms commands_size_pieces [of cs "\<lambda>_. invalid_value"]
  by (auto simp: writer_inv_def appends_def new_writer_def)

lemma writer_inv_new: "writer_inv [] new_writer"
  by (simp add: writer_inv_def commands_pieces_def appends_def new_writer_def label_positions_def
      handlers_ok_def)

lemma writer_inv_keeps:
  assumes "writer_inv cs w" and "keeps_code w w'" and "command_pieces c = []" and "command_size c = 0"
    and "\<And>l. c \<noteq> DefineLabel l"
    and "handlers_ok w'" and "handler w' = last_handler invalid_label (cs @ [c])"
    and "\<forall>pc. unat pc < length (code w) \<longrightarrow> in_force w' pc = in_force w pc"
  shows "writer_inv (cs @ [c]) w'"
proof -
  have p: "commands_pieces (cs @ [c]) = commands_pieces cs" using assms(3) by (simp add: commands_pieces_def)
  have "label_positions (cs @ [c]) (label_defs w')"
    using label_positions_snoc [OF _ assms(5)] assms(1,2) by (simp add: writer_inv_def keeps_code_def)
  moreover have "in_force w' pc = handler_at invalid_label (cs @ [c]) (unat pc)"
    if "unat pc < commands_size (cs @ [c])" for pc
    using that assms(1,4,8) writer_inv_facts(5) [OF assms(1)]
    by (simp add: handler_at_append writer_inv_def)
  moreover have "appends (commands_pieces cs) new_writer
       (w'\<lparr>handlers := [], label_defs := Map.empty, handler := invalid_label, handler_start := 0\<rparr>)"
    using assms(1,2) by (simp add: writer_inv_def appends_def keeps_code_def)
  ultimately show ?thesis using assms(6,7) by (simp add: writer_inv_def p)
qed

lemma handler_at_emitting:
  "emitting c \<Longrightarrow> handler_at h [c] pc = (if pc < command_size c then h else invalid_label)"
  by (cases c) auto

lemma writer_inv_emit:
  assumes "writer_inv cs w" and "emitting c" and "run_command c w = Inr w'"
  shows "writer_inv (cs @ [c]) w'"
proof -
  note a = run_command_appends [OF assms(2,3)]
  have h: "handlers_ok w" "handler w = last_handler invalid_label cs" using assms(1) by (simp_all add: writer_inv_def)
  note f = appends_handlers_ok [OF h(1) a]
  have nd: "c \<noteq> DefineLabel l" for l using assms(2) by auto
  have l: "last_handler x [c] = x" for x using assms(2) by (cases c) auto
  have p: "commands_pieces (cs @ [c]) = commands_pieces cs @ command_pieces c" by (simp add: commands_pieces_def)
  have "label_positions (cs @ [c]) (label_defs w)"
    using label_positions_snoc [OF _ nd] assms(1) by (simp add: writer_inv_def)
  moreover have "in_force w' pc = handler_at invalid_label (cs @ [c]) (unat pc)"
    if "unat pc < commands_size (cs @ [c])" for pc
    using that f assms(1) h(2) writer_inv_facts(5) [OF assms(1)]
    by (auto simp: handler_at_append handler_at_emitting [OF assms(2)] writer_inv_def)
  moreover have "appends (commands_pieces cs @ command_pieces c) new_writer
       (w'\<lparr>handlers := [], label_defs := Map.empty, handler := invalid_label, handler_start := 0\<rparr>)"
  proof (rule appends_trans)
    show "appends (command_pieces c)
       (w\<lparr>handlers := [], label_defs := Map.empty, handler := invalid_label, handler_start := 0\<rparr>)
       (w'\<lparr>handlers := [], label_defs := Map.empty, handler := invalid_label, handler_start := 0\<rparr>)"
      using a by (simp add: appends_def)
  qed (use assms(1) in \<open>simp add: writer_inv_def\<close>)
  moreover have "handler w' = last_handler invalid_label (cs @ [c])" "label_defs w' = label_defs w"
    using a h(2) l by (simp_all add: appends_def last_handler_append)
  ultimately show ?thesis using f by (simp add: writer_inv_def p)
qed

lemma writer_inv_step:
  assumes "writer_inv cs w" and "run_command c w = Inr w'"
  shows "writer_inv (cs @ [c]) w'"
proof (cases "emitting c")
  case True
  with assms show ?thesis by (intro writer_inv_emit)
next
  case False
  then consider l where "c = DefineLabel l" | l where "c = StartHandler l" by (cases c) auto
  then show ?thesis
  proof cases
    case (1 l)
    with assms(2) obtain pos where "unat pos = length (code w)"
      and w': "w' = w\<lparr>label_defs := (label_defs w)(l \<mapsto> pos)\<rparr>"
      by (auto simp: define_label_def writer_pos_Inr)
    with writer_inv_facts(5) [OF assms(1)] have pos: "unat pos = commands_size cs" by simp
    have "label_positions (cs @ [c]) (label_defs w')"
      using label_positions_define [OF _ pos, of "label_defs w" l] assms(1)
      by (simp add: w' 1 writer_inv_def)
    moreover have "in_force w' pc = in_force w pc" for pc by (simp add: w' in_force_def)
    then have "in_force w' pc = handler_at invalid_label (cs @ [c]) (unat pc)"
      if "unat pc < commands_size (cs @ [c])" for pc
      using that assms(1) by (simp add: handler_at_append writer_inv_def 1)
    moreover have "commands_pieces (cs @ [c]) = commands_pieces cs" by (simp add: commands_pieces_def 1)
    ultimately show ?thesis
      using assms(1) by (simp add: writer_inv_def w' handlers_ok_def last_handler_append 1)
  next
    case (2 l)
    have "handlers_ok w" using assms(1) by (simp add: writer_inv_def)
    with start_handler_ok [of w l w'] assms show ?thesis
      by (intro writer_inv_keeps [OF assms(1)]) (auto simp: 2 last_handler_append)
  qed
qed

lemma run_commands_append:
  "run_commands (cs @ ds) w = bind_sum (run_commands cs w) (run_commands ds)"
proof (induction cs arbitrary: w)
  case (Cons c cs)
  then show ?case by (cases "run_command c w") auto
qed simp

lemma run_commands_inv: "run_commands cs new_writer = Inr w \<Longrightarrow> writer_inv cs w"
proof (induction cs arbitrary: w rule: rev_induct)
  case Nil
  then show ?case using writer_inv_new by simp
next
  case (snoc c cs)
  then show ?case using writer_inv_step by (auto simp: run_commands_append)
qed

subsection \<open>The result of the assembler\<close>

lemma resolve_handlers_eq:
  "resolve_handlers es w =
     (if entry_target ` set es \<subseteq> dom (label_defs w)
      then Inr (w\<lparr>complete_handlers := complete_handlers w @ map (resolve_entry (label_offset (label_defs w))) es\<rparr>)
      else Inl LabelNotDefined)"
proof (induction es arbitrary: w)
  case (Cons e es)
  show ?case
  proof (cases "label_defs w (entry_target e)")
    case None
    then show ?thesis by auto
  next
    case (Some d)
    then show ?thesis using Cons.IH by (auto simp: label_offset_eq resolve_entry_def)
  qed
qed simp

fun jump_labels :: "asm_command \<Rightarrow> bytecode_label list" where
  "jump_labels (EmitJmp l) = [l]"
| "jump_labels (EmitJmpTrue r l) = [l]"
| "jump_labels (EmitJmpFalse r l) = [l]"
| "jump_labels (EmitJmpNull r l) = [l]"
| "jump_labels (EmitJmpNotNull r l) = [l]"
| "jump_labels _ = []"

lemma piece_label_ref_Arg [simp]: "piece_label_ref pos (ArgPiece (Arg x)) = []"
  by simp

lemma pieces_refs_args: "pieces_refs piece_label_ref pos (map (ArgPiece \<circ> Arg) xs) = []"
  by (induction xs arbitrary: pos) simp_all

lemma pieces_refs_command: "snd ` set (pieces_refs piece_label_ref pos (command_pieces c)) = set (jump_labels c)"
  by (cases c) (simp_all add: pieces_refs_args)

lemma pieces_refs_commands:
  "snd ` set (pieces_refs piece_label_ref pos (commands_pieces cs)) = (\<Union>c\<in>set cs. set (jump_labels c))"
proof (induction cs arbitrary: pos)
  case (Cons c cs)
  have "commands_pieces (c # cs) = command_pieces c @ commands_pieces cs" by (simp add: commands_pieces_def)
  then show ?case
    using Cons by (simp add: pieces_refs_append [where L = "\<lambda>_. 0"] image_Un pieces_refs_command)
qed (simp add: commands_pieces_def)

lemma snd_nat_refs: "snd ` set (nat_refs refs) = snd ` set refs"
  by (force simp: nat_refs_def)

text \<open>The targets of the entries are the labels that are in force somewhere.\<close>

lemma ordered_find_self:
  assumes "ordered_handlers (map (resolve_entry L) es)" and "e \<in> set es"
  shows "find (entry_covers (entry_from e)) es = Some e"
  using assms
proof (induction es)
  case (Cons x es)
  show ?case
  proof (cases "e = x")
    case True
    then show ?thesis using Cons.prems(1) by (simp add: ordered_handlers_Cons entry_covers_def)
  next
    case False
    with Cons.prems have "entry_to x \<le> entry_from e" "e \<in> set es" "ordered_handlers (map (resolve_entry L) es)"
      by (auto simp: ordered_handlers_Cons)
    moreover from this(1) have "\<not> entry_covers (entry_from e) x" by (simp add: entry_covers_def leD)
    ultimately show ?thesis using Cons.IH by simp
  qed
qed simp

lemma targets_in_force:
  assumes "handlers_ok w"
  shows "entry_target ` set (handlers w)
     = {l. valid_label l \<and> (\<exists>pc. unat pc < length (code w) \<and> label_in (handlers w) pc = l)}"
proof (intro equalityI subsetI)
  fix l assume "l \<in> entry_target ` set (handlers w)"
  then obtain e where e: "e \<in> set (handlers w)" "l = entry_target e" by blast
  with assms have "label_in (handlers w) (entry_from e) = l" "valid_label l"
    using ordered_find_self [of "\<lambda>_. 0" "handlers w" e]
    by (simp_all add: label_in_def handlers_ok_def)
  moreover have "entry_from e < entry_to e" "unat (entry_to e) \<le> length (code w)"
    using assms e(1) ordered_find_self [of "\<lambda>_. 0" "handlers w" e]
    by (auto simp: handlers_ok_def entry_covers_def find_Some_iff)
  ultimately show "l \<in> {l. valid_label l \<and> (\<exists>pc. unat pc < length (code w) \<and> label_in (handlers w) pc = l)}"
    by (auto simp: word_less_nat_alt intro!: exI [of _ "entry_from e"])
next
  fix l assume "l \<in> {l. valid_label l \<and> (\<exists>pc. unat pc < length (code w) \<and> label_in (handlers w) pc = l)}"
  then obtain pc where "valid_label l" "label_in (handlers w) pc = l" by blast
  then show "l \<in> entry_target ` set (handlers w)"
    by (auto simp: label_in_def find_Some_iff split: option.split_asm)
qed

text \<open>What \<open>finish\<close> returns.\<close>

lemma finish_eq:
  assumes "writer_inv cs w" and "finish_handler w = Inr w1"
  shows "finish w =
    (if (\<Union>c\<in>set cs. set (jump_labels c)) \<subseteq> {l. DefineLabel l \<in> set cs}
        \<and> entry_target ` set (handlers w1) \<subseteq> {l. DefineLabel l \<in> set cs}
     then Inr (w1\<lparr>code := encode (resolve_commands (label_offset (label_defs w)) cs),
       complete_handlers := simplify_handlers (map (resolve_entry (label_offset (label_defs w))) (handlers w1))\<rparr>)
     else Inl LabelNotDefined)"
proof -
  have "handlers_ok w" using assms(1) by (simp add: writer_inv_def)
  note fin = finish_handler_ok [OF this assms(2)]
  note facts = writer_inv_facts [OF assms(1)]
  have d: "label_defs w1 = label_defs w" "label_refs w1 = label_refs w"
    "code w1 = [] @ pieces_code (\<lambda>_. invalid_value) (commands_pieces cs)" "complete_handlers w1 = []"
    using fin facts by (simp_all add: keeps_code_def)
  have "dom (label_defs w) = {l. DefineLabel l \<in> set cs}"
    using assms(1) by (simp add: writer_inv_def label_positions_def)
  moreover have "snd ` set (label_refs w) = (\<Union>c\<in>set cs. set (jump_labels c))"
    using snd_nat_refs [of "label_refs w"] facts(2) pieces_refs_commands by metis
  moreover have "patch_refs (label_refs w) w1 =
     (if snd ` set (label_refs w) \<subseteq> dom (label_defs w)
      then Inr (w1\<lparr>code := pieces_code (label_offset (label_defs w)) (commands_pieces cs)\<rparr>)
      else Inl LabelNotDefined)"
    using patch_refs_pieces [of "label_refs w" "[]" "commands_pieces cs" w1] facts(2) d by simp
  ultimately show ?thesis
    by (simp add: finish_def assms(2) d resolve_handlers_eq encode_commands)
qed

lemma finish_handler_succeeds: "length (code w) < 2 ^ 32 \<Longrightarrow> \<exists>w1. finish_handler w = Inr w1"
  by (auto simp: finish_handler_def writer_pos_def unat_max_u32 Let_def)

lemma assemble_facts:
  assumes "assemble cs = Inr w"
  obtains w0 w1 where "writer_inv cs w0" "finish_handler w0 = Inr w1" "finish w0 = Inr w"
    "w = w1\<lparr>code := encode (resolve_commands (label_offset (label_defs w)) cs),
       complete_handlers := simplify_handlers (map (resolve_entry (label_offset (label_defs w))) (handlers w1))\<rparr>"
    "label_defs w = label_defs w0" "module_refs w = module_refs w0"
    "(\<Union>c\<in>set cs. set (jump_labels c)) \<subseteq> {l. DefineLabel l \<in> set cs}"
    "entry_target ` set (handlers w1) \<subseteq> {l. DefineLabel l \<in> set cs}"
proof -
  from assms obtain w0 where w0: "run_commands cs new_writer = Inr w0" "finish w0 = Inr w"
    by (auto simp: assemble_def)
  note inv = run_commands_inv [OF w0(1)]
  from w0(2) obtain w1 where w1: "finish_handler w0 = Inr w1" by (auto simp: finish_def)
  have "handlers_ok w0" using inv by (simp add: writer_inv_def)
  from finish_handler_ok [OF this w1] finish_eq [OF inv w1] w0(2) that inv w1
  show thesis by (simp add: keeps_code_def split: if_splits)
qed

lemma run_commands_succeed:
  "commands_size cs < 2 ^ 32 \<Longrightarrow> \<exists>w. run_commands cs new_writer = Inr w"
proof (induction cs rule: rev_induct)
  case (snoc c cs)
  then obtain w where w: "run_commands cs new_writer = Inr w" by auto
  have len: "length (code w) = commands_size cs"
    using writer_inv_facts(5) [OF run_commands_inv [OF w]] .
  have "\<exists>w'. run_command c w = Inr w'"
  proof (cases "emitting c")
    case True
    then show ?thesis using run_command_succeeds [of c w] snoc.prems len by simp
  next
    case False
    then consider l where "c = DefineLabel l" | l where "c = StartHandler l" by (cases c) auto
    then show ?thesis
    proof cases
      case 1
      then show ?thesis using snoc.prems len by (simp add: define_label_def writer_pos_def unat_max_u32)
    next
      case (2 l)
      obtain w1 where "finish_handler w = Inr w1" using finish_handler_succeeds snoc.prems len by fastforce
      moreover have "code w1 = code w"
        using finish_handler_ok [OF _ \<open>finish_handler w = Inr w1\<close>] run_commands_inv [OF w]
        by (simp add: writer_inv_def keeps_code_def)
      ultimately show ?thesis using snoc.prems len
        by (simp add: 2 start_handler_def writer_pos_def unat_max_u32)
    qed
  qed
  with w show ?case by (simp add: run_commands_append)
qed simp

lemma assemble_iff:
  "(\<exists>w. assemble cs = Inr w) =
     (commands_size cs < 2 ^ 32
      \<and> (\<Union>c\<in>set cs. set (jump_labels c)) \<subseteq> {l. DefineLabel l \<in> set cs}
      \<and> {l. valid_label l \<and> (\<exists>pc < commands_size cs. handler_at invalid_label cs pc = l)}
          \<subseteq> {l. DefineLabel l \<in> set cs})"
proof -
  have targets: "entry_target ` set (handlers w1)
      = {l. valid_label l \<and> (\<exists>pc < commands_size cs. handler_at invalid_label cs pc = l)}"
    if inv: "writer_inv cs w0" and f: "finish_handler w0 = Inr w1" for w0 w1
  proof -
    have ok: "handlers_ok w0" and at: "\<And>pc. unat pc < commands_size cs \<Longrightarrow> in_force w0 pc = handler_at invalid_label cs (unat pc)"
      using inv by (simp_all add: writer_inv_def)
    note len = writer_inv_facts(5) [OF inv]
    note fin = finish_handler_ok [OF ok f]
    have s: "entry_target ` set (handlers w1)
       = {l. valid_label l \<and> (\<exists>pc :: u32. unat pc < commands_size cs \<and> handler_at invalid_label cs (unat pc) = l)}"
      using fin targets_in_force [of w1] len at by (auto simp: keeps_code_def)
    have e: "(\<exists>pc :: u32. unat pc < commands_size cs \<and> handler_at invalid_label cs (unat pc) = l)
        = (\<exists>pc < commands_size cs. handler_at invalid_label cs pc = l)" for l
    proof
      assume "\<exists>pc < commands_size cs. handler_at invalid_label cs pc = l"
      then obtain pc where pc: "pc < commands_size cs" "handler_at invalid_label cs pc = l" by blast
      with fin len have "unat (word_of_nat pc :: u32) = pc" by (simp add: unat_of_nat)
      with pc show "\<exists>pc :: u32. unat pc < commands_size cs \<and> handler_at invalid_label cs (unat pc) = l"
        by (intro exI [of _ "word_of_nat pc"]) simp
    qed auto
    show ?thesis unfolding s e ..
  qed
  show ?thesis (is "_ = ?rhs")
  proof
    assume "\<exists>w. assemble cs = Inr w"
    then obtain w where w: "assemble cs = Inr w" by blast
    obtain w0 w1 where f: "writer_inv cs w0" "finish_handler w0 = Inr w1"
      "(\<Union>c\<in>set cs. set (jump_labels c)) \<subseteq> {l. DefineLabel l \<in> set cs}"
      "entry_target ` set (handlers w1) \<subseteq> {l. DefineLabel l \<in> set cs}"
      using assemble_facts [OF w] by metis
    have "length (code w0) < 2 ^ 32"
      using finish_handler_ok [OF _ f(2)] f(1) by (simp add: writer_inv_def)
    then have "commands_size cs < 2 ^ 32" using writer_inv_facts(5) [OF f(1)] by simp
    with f(3,4) show ?rhs unfolding targets [OF f(1,2)] by blast
  next
    assume r: ?rhs
    note size = r [THEN conjunct1] and jumps = r [THEN conjunct2, THEN conjunct1]
      and used = r [THEN conjunct2, THEN conjunct2]
    from run_commands_succeed [OF size] obtain w0 where w0: "run_commands cs new_writer = Inr w0" ..
    note inv = run_commands_inv [OF w0]
    obtain w1 where w1: "finish_handler w0 = Inr w1"
      using finish_handler_succeeds size writer_inv_facts(5) [OF inv] by metis
    have "entry_target ` set (handlers w1) \<subseteq> {l. DefineLabel l \<in> set cs}"
      unfolding targets [OF inv w1] by (rule used)
    with jumps have "finish w0 \<noteq> Inl err" for err
      unfolding finish_eq [OF inv w1] by (subst if_P) blast+
    then obtain w where "finish w0 = Inr w" by (cases "finish w0") blast+
    with w0 show "\<exists>w. assemble cs = Inr w" by (simp add: assemble_def)
  qed
qed

subsection \<open>Linking\<close>

text \<open>
  The linker (src/compiler/bytecode_gen/module.cpp) renames a function and overwrites its recorded
  references with the final ids. A reference names an item of the object: a definition, whose new id
  is looked up by the old one, or a use of a member of the source module, which is resolved
  through the definitions of that module. The value of a definition is a parameter. The access to an item
  out of range, which the code only asserts, is \<open>NoSuchItem\<close>.
\<close>

datatype ir_member = IrMember (ir_member_id: u32)

datatype 'm link_item = LinkUse ir_member | LinkDefinition ir_member 'm

record 'm linker =
  link_items :: "'m link_item list"
  link_defs :: "ir_member \<rightharpoonup> bytecode_member"
  link_renamed :: "bytecode_member \<rightharpoonup> bytecode_member"

datatype link_error = MemberNotRenamed | MemberNotDefined | NoSuchItem | CodeError writer_error

definition renamed :: "'m linker \<Rightarrow> bytecode_member \<Rightarrow> link_error + bytecode_member" where
  "renamed lk old = (case link_renamed lk old of None \<Rightarrow> Inl MemberNotRenamed | Some m \<Rightarrow> Inr m)"

definition resolved :: "'m linker \<Rightarrow> ir_member \<Rightarrow> link_error + bytecode_member" where
  "resolved lk ir = (case link_defs lk ir of None \<Rightarrow> Inl MemberNotDefined | Some m \<Rightarrow> Inr m)"

definition linked_id :: "'m linker \<Rightarrow> bytecode_member \<Rightarrow> link_error + bytecode_member" where
  "linked_id lk old =
     (if unat (member_id old) < length (link_items lk) then
        case link_items lk ! unat (member_id old) of
          LinkDefinition _ _ \<Rightarrow> renamed lk old
        | LinkUse ir \<Rightarrow> resolved lk ir
      else Inl NoSuchItem)"

fun overwrite_refs ::
  "'m linker \<Rightarrow> (u32 \<times> bytecode_member) list \<Rightarrow> bytecode_writer \<Rightarrow> link_error + bytecode_writer" where
  "overwrite_refs lk [] w = Inr w"
| "overwrite_refs lk ((offset, old_id) # refs) w =
     bind_sum (linked_id lk old_id) (\<lambda>new_id.
     bind_sum (map_sum CodeError id (overwrite_u32 offset (member_id new_id) w)) (overwrite_refs lk refs))"

definition fix_func_references ::
  "'m linker \<Rightarrow> bytecode_member \<Rightarrow> (u32 \<times> bytecode_member) list \<Rightarrow> bytecode_writer
     \<Rightarrow> link_error + bytecode_member \<times> bytecode_writer" where
  "fix_func_references lk name refs w =
     bind_sum (if valid_member name then renamed lk name else Inr name) (\<lambda>name.
     map_sum id (Pair name) (overwrite_refs lk refs w))"

text \<open>The final id of a member, where it has one.\<close>

definition final_id :: "'m linker \<Rightarrow> bytecode_member \<Rightarrow> bytecode_member" where
  "final_id lk m = (case linked_id lk m of Inl _ \<Rightarrow> m | Inr m' \<Rightarrow> m')"

definition linkable :: "'m linker \<Rightarrow> bytecode_member \<Rightarrow> bool" where
  "linkable lk m \<longleftrightarrow> linked_id lk m = Inr (final_id lk m)"

lemma not_linkable: "\<not> linkable lk m \<Longrightarrow> \<exists>e. linked_id lk m = Inl e \<and> (\<forall>c. e \<noteq> CodeError c)"
  by (auto simp: linkable_def final_id_def linked_id_def renamed_def resolved_def
      split: if_splits link_item.splits option.splits)

definition rename_members :: "(bytecode_member \<Rightarrow> bytecode_member) \<Rightarrow> instr \<Rightarrow> instr" where
  "rename_members f i = (case i of
      LoadModule source target \<Rightarrow> LoadModule (f source) target
    | StoreModule source target \<Rightarrow> StoreModule source (f target)
    | LoadMember object name target \<Rightarrow> LoadMember object (f name) target
    | StoreMember source object name \<Rightarrow> StoreMember source object (f name)
    | Closure tmpl env target \<Rightarrow> Closure (f tmpl) env target
    | Record schema target \<Rightarrow> Record (f schema) target
    | LoadMethod object name this method \<Rightarrow> LoadMethod object (f name) this method
    | _ \<Rightarrow> i)"

fun rename_operand :: "(bytecode_member \<Rightarrow> bytecode_member) \<Rightarrow> operand \<Rightarrow> operand" where
  "rename_operand f (MemberOperand m) = MemberOperand (f m)"
| "rename_operand f x = x"

fun rename_piece :: "(bytecode_member \<Rightarrow> bytecode_member) \<Rightarrow> piece \<Rightarrow> piece" where
  "rename_piece f (ArgPiece (Arg x)) = ArgPiece (Arg (rename_operand f x))"
| "rename_piece f p = p"

lemma rename_members_operands:
  "instr_op (rename_members f i) = instr_op i \<and> instr_operands (rename_members f i) = map (rename_operand f) (instr_operands i)"
  by (cases i) (simp_all add: rename_members_def)

lemma rename_command:
  "pieces_code L (map (rename_piece f) (command_pieces c)) = encode (map (rename_members f) (resolve_command L c))"
proof (cases "\<exists>i. c = Emit i")
  case True
  then obtain i where c: "c = Emit i" by blast
  have "map (rename_piece f) (map (ArgPiece \<circ> Arg) xs) = map (ArgPiece \<circ> Arg) (map (rename_operand f) xs)" for xs
    by simp
  then show ?thesis
    using rename_members_operands [of f i] by (simp add: c emit_instruction_def pieces_code_args del: map_map)
next
  case False
  have "map (rename_members f) (resolve_command L c) = resolve_command L c"
    using False by (cases c) (simp_all add: rename_members_def)
  moreover have "map (rename_piece f) (command_pieces c) = command_pieces c"
    using False by (cases c) simp_all
  ultimately show ?thesis by (simp add: encode_command)
qed

lemma rename_commands:
  "pieces_code L (map (rename_piece f) (commands_pieces cs)) = encode (map (rename_members f) (resolve_commands L cs))"
  by (induction cs) (simp_all add: resolve_commands_def commands_pieces_def rename_command)

lemma overwrite_refs_pieces:
  assumes "nat_refs refs = pieces_refs piece_module_ref (length pre) ps"
    and "code w = pre @ pieces_code L ps"
  shows "if \<forall>m \<in> snd ` set refs. linkable lk m
    then overwrite_refs lk refs w = Inr (w\<lparr>code := pre @ pieces_code L (map (rename_piece (final_id lk)) ps)\<rparr>)
    else \<exists>e. overwrite_refs lk refs w = Inl e \<and> (\<forall>c. e \<noteq> CodeError c)"
  using assms
proof (induction ps arbitrary: pre refs w)
  case Nil
  then show ?case by (simp add: nat_refs_Nil)
next
  case (Cons p ps)
  show ?case
  proof (cases "\<exists>m. p = ArgPiece (Arg (MemberOperand m))")
    case False
    then have r: "piece_module_ref pos p = []" for pos by (cases "(pos, p)" rule: piece_module_ref.cases) auto
    have c: "rename_piece f p = p" for f
    proof (cases p)
      case (ArgPiece a)
      show ?thesis
      proof (cases a)
        case (Arg x)
        with False ArgPiece show ?thesis by (cases x) auto
      qed (simp add: ArgPiece)
    qed simp
    have "nat_refs refs = pieces_refs piece_module_ref (length (pre @ piece_code L p)) ps"
      using Cons.prems(1) r by (simp add: length_piece_code [of L p "\<lambda>_. 0"])
    with Cons.IH [of refs "pre @ piece_code L p" w] Cons.prems(2) show ?thesis by (simp add: c split: if_splits)
  next
    case True
    then obtain m where p: "p = ArgPiece (Arg (MemberOperand m))" by blast
    with Cons.prems(1) obtain pos refs' where refs: "refs = (pos, m) # refs'" and pos: "unat pos = length pre"
      and rest: "nat_refs refs' = pieces_refs piece_module_ref (length pre + 4) ps"
      using nat_refs_Cons by fastforce
    show ?thesis
    proof (cases "linkable lk m")
      case False
      then obtain e where "linked_id lk m = Inl e" "\<forall>c. e \<noteq> CodeError c"
        using not_linkable by blast
      then show ?thesis using False by (simp add: refs)
    next
      case True
      let ?m = "emit_u32 (member_id (final_id lk m))"
      let ?w = "w\<lparr>code := pre @ ?m @ pieces_code L ps\<rparr>"
      have "overwrite_u32 pos (member_id (final_id lk m)) w = Inr ?w"
        using Cons.prems(2) pos p overwrite_u32_middle [where bs = "emit_u32 (member_id m)"] by simp
      then have "overwrite_refs lk refs w = overwrite_refs lk refs' ?w"
        using True by (simp add: refs linkable_def)
      then show ?thesis
        using Cons.IH [of refs' "pre @ ?m" ?w] rest True by (simp add: refs p split: if_splits)
    qed
  qed
qed

subsection \<open>Properties\<close>

text \<open>
  C10: the assembler is correct. When the calls of a client followed by \<open>finish\<close> succeed, the
  code is the encoding of the client's instructions in order, with each label replaced by
  its offset, and the offset of a label is the number of bytes of the code before its
  (last) definition.
\<close>

theorem assemble_correct:
  assumes "assemble cs = Inr w"
  shows "code w = encode (resolve_commands (label_offset (label_defs w)) cs)
    \<and> (\<forall>pre l post. cs = pre @ DefineLabel l # post \<and> DefineLabel l \<notin> set post \<longrightarrow>
         unat (label_offset (label_defs w) l) = length (encode (resolve_commands (label_offset (label_defs w)) pre)))"
proof -
  obtain w0 w1 where f: "writer_inv cs w0" "label_defs w = label_defs w0"
    "w = w1\<lparr>code := encode (resolve_commands (label_offset (label_defs w)) cs),
       complete_handlers := simplify_handlers (map (resolve_entry (label_offset (label_defs w))) (handlers w1))\<rparr>"
    using assemble_facts [OF assms] by metis
  have "unat (label_offset (label_defs w) l) = length (encode (resolve_commands (label_offset (label_defs w)) pre))"
    if "cs = pre @ DefineLabel l # post" "DefineLabel l \<notin> set post" for pre l post
  proof -
    have "label_positions cs (label_defs w)" using f(1) by (simp add: writer_inv_def f(2))
    with that obtain d where "label_defs w l = Some d" "unat d = commands_size pre"
      unfolding label_positions_def by blast
    then show ?thesis
      using commands_size_pieces [of pre "label_offset (label_defs w)"]
      by (simp add: encode_commands label_offset_eq)
  qed
  moreover have "code w = encode (resolve_commands (label_offset (label_defs w)) cs)"
    by (subst f(3)) simp
  ultimately show ?thesis by blast
qed

text \<open>A loop with a forward and a backward jump and a handler for its body.\<close>

definition example_commands :: "asm_command list" where
  "example_commands =
     [DefineLabel (Label 0), StartHandler (Label 1), EmitJmpTrue (Register 2) (Label 2),
      Emit (LoadModule (MemberId 5) (Register 0)), EmitJmp (Label 0), StartHandler invalid_label,
      DefineLabel (Label 1), Emit Rethrow, DefineLabel (Label 2), Emit (Return (Register 0))]"

lemma example_size: "commands_size example_commands = 29"
  by (simp add: example_commands_def command_size_def emit_instruction_def emit_op_def)

text \<open>
  C12: the assembler fails only for a reason: it succeeds exactly when the code is shorter
  than 2^32 bytes, every label of a jump is defined, and every label that is in force as
  the handler of some byte is defined.
\<close>

theorem assemble_succeeds_iff:
  "(\<exists>w. assemble cs = Inr w) =
     (commands_size cs < 2 ^ 32
      \<and> (\<Union>c\<in>set cs. set (jump_labels c)) \<subseteq> {l. DefineLabel l \<in> set cs}
      \<and> {l. valid_label l \<and> (\<exists>pc < commands_size cs. handler_at invalid_label cs pc = l)}
          \<subseteq> {l. DefineLabel l \<in> set cs})"
  by (rule assemble_iff)

text \<open>
  C11: the exception handler table is the one that the client described. For every byte of
  the code, the search of the machine in the finished (merged) table finds the offset of
  the handler that was in force when the byte was emitted, and nothing when there was none.
  The entries of the table are not empty and lie one after the other.
\<close>

theorem handler_table_correct:
  assumes "assemble cs = Inr w" and "unat pc < length (code w)"
  shows "map_option handler_target (find_entry (complete_handlers w) pc) =
      (let h = handler_at invalid_label cs (unat pc)
       in if valid_label h then Some (label_offset (label_defs w) h) else None)
    \<and> ordered_handlers (complete_handlers w)"
proof -
  obtain w0 w1 where inv: "writer_inv cs w0" and f: "finish_handler w0 = Inr w1"
    and w: "w = w1\<lparr>code := encode (resolve_commands (label_offset (label_defs w)) cs),
       complete_handlers := simplify_handlers (map (resolve_entry (label_offset (label_defs w))) (handlers w1))\<rparr>"
    using assemble_facts [OF assms(1)] by metis
  have ok: "handlers_ok w0" using inv by (simp add: writer_inv_def)
  note fin = finish_handler_ok [OF ok f]
  let ?L = "label_offset (label_defs w)" and ?es = "handlers w1"
  have "code w = encode (resolve_commands ?L cs)" by (subst w) simp
  then have pc: "unat pc < commands_size cs"
    using assms(2) commands_size_pieces [of cs ?L] by (simp add: encode_commands)
  have table: "complete_handlers w = simplify_handlers (map (resolve_entry ?L) ?es)" by (subst w) simp
  have o: "ordered_handlers (map (resolve_entry ?L) ?es)"
    using fin ordered_resolve [of ?L ?es "\<lambda>_. 0"] by (simp add: handlers_ok_def)
  note simplified = simplify_handlers_correct [OF o, of pc]
  have label: "label_in ?es pc = handler_at invalid_label cs (unat pc)"
    using fin inv pc writer_inv_facts(5) [OF inv] by (simp add: writer_inv_def)
  have "map_option handler_target (find_entry (complete_handlers w) pc) = target_at (map (resolve_entry ?L) ?es) pc"
    using simplified by (simp add: table find_entry_covers target_at_def)
  also have "\<dots> = (if valid_label (label_in ?es pc) then Some (?L (label_in ?es pc)) else None)"
  proof (cases "find (entry_covers pc) ?es")
    case None
    then have "find (\<lambda>e. covers e pc) (map (resolve_entry ?L) ?es) = None"
      by (auto simp: find_None_iff)
    with None show ?thesis by (simp add: target_at_def label_in_def)
  next
    case (Some e)
    have "find (\<lambda>e. covers e pc) (map (resolve_entry ?L) es) = map_option (resolve_entry ?L) (find (entry_covers pc) es)" for es
      by (induction es) auto
    moreover from Some have "e \<in> set ?es" by (metis find_Some_iff nth_mem)
    ultimately show ?thesis
      using Some fin by (simp add: target_at_def label_in_def handlers_ok_def)
  qed
  finally show ?thesis using simplified by (simp add: label table Let_def)
qed

text \<open>
  C13: linking renames exactly the members of the instructions. If the name of the function, when it
  has one, and every recorded reference have a final id, then overwriting the references never fails
  and gives the code of the same instructions with every member operand replaced by its final
  id and nothing else changed. Otherwise a check of the linker fails. An overwrite is never
  out of bounds.
\<close>

theorem linking_renames_members:
  assumes "assemble cs = Inr w"
  shows "if (valid_member name \<longrightarrow> link_renamed lk name \<noteq> None) \<and> (\<forall>m \<in> snd ` set (module_refs w). linkable lk m)
    then \<exists>w'. fix_func_references lk name (module_refs w) w
          = Inr (if valid_member name then the (link_renamed lk name) else name, w')
        \<and> code w' = encode (map (rename_members (final_id lk)) (resolve_commands (label_offset (label_defs w)) cs))
        \<and> complete_handlers w' = complete_handlers w
    else \<exists>e. fix_func_references lk name (module_refs w) w = Inl e \<and> (\<forall>c. e \<noteq> CodeError c)"
proof -
  obtain w0 w1 where f: "writer_inv cs w0" "module_refs w = module_refs w0"
    "w = w1\<lparr>code := encode (resolve_commands (label_offset (label_defs w)) cs),
       complete_handlers := simplify_handlers (map (resolve_entry (label_offset (label_defs w))) (handlers w1))\<rparr>"
    using assemble_facts [OF assms] by metis
  let ?L = "label_offset (label_defs w)"
  have "code w = [] @ pieces_code ?L (commands_pieces cs)"
    by (subst f(3)) (simp add: encode_commands)
  moreover have "nat_refs (module_refs w) = pieces_refs piece_module_ref (length []) (commands_pieces cs)"
    using writer_inv_facts(3) [OF f(1)] f(2) by simp
  ultimately have refs: "if \<forall>m \<in> snd ` set (module_refs w). linkable lk m
    then overwrite_refs lk (module_refs w) w
      = Inr (w\<lparr>code := encode (map (rename_members (final_id lk)) (resolve_commands ?L cs))\<rparr>)
    else \<exists>e. overwrite_refs lk (module_refs w) w = Inl e \<and> (\<forall>c. e \<noteq> CodeError c)"
    using overwrite_refs_pieces [of "module_refs w" "[]" "commands_pieces cs" w ?L lk]
    by (simp add: rename_commands del: ball_simps)
  show ?thesis
  proof (cases "valid_member name \<and> link_renamed lk name = None")
    case True
    then show ?thesis by (simp add: fix_func_references_def renamed_def)
  next
    case False
    then have "(if valid_member name then renamed lk name else Inr name)
        = Inr (if valid_member name then the (link_renamed lk name) else name)"
      by (auto simp: renamed_def)
    then show ?thesis
      using refs False by (auto simp: fix_func_references_def split: if_splits)
  qed
qed

text \<open>The example is assembled; the properties apply to it.\<close>

definition example_writer :: bytecode_writer where
  "example_writer = (case assemble example_commands of Inl _ \<Rightarrow> new_writer | Inr w \<Rightarrow> w)"

lemma handler_at_started:
  "handler_at h cs pc \<in> insert h (insert invalid_label {l. StartHandler l \<in> set cs})"
  by (induction h cs pc rule: handler_at.induct) auto

lemma example_assembles: "assemble example_commands = Inr example_writer"
proof -
  have "{l. valid_label l \<and> (\<exists>pc < commands_size example_commands. handler_at invalid_label example_commands pc = l)}
      \<subseteq> {l. valid_label l \<and> StartHandler l \<in> set example_commands}"
    using handler_at_started [of invalid_label example_commands] by (auto simp: valid_label_iff)
  then have used: "{l. valid_label l \<and> (\<exists>pc < commands_size example_commands. handler_at invalid_label example_commands pc = l)}
      \<subseteq> {l. DefineLabel l \<in> set example_commands}"
    by (rule order_trans) (auto simp: example_commands_def)
  have "\<exists>w. assemble example_commands = Inr w"
    unfolding assemble_iff
  proof (intro conjI used)
    show "commands_size example_commands < 2 ^ 32" by (simp add: example_size)
    show "(\<Union>c\<in>set example_commands. set (jump_labels c)) \<subseteq> {l. DefineLabel l \<in> set example_commands}"
      by (simp add: example_commands_def)
  qed
  then show ?thesis by (auto simp: example_writer_def)
qed

theorem assemble_correct_witness:
  "assemble example_commands = Inr example_writer
   \<and> code example_writer = encode (resolve_commands (label_offset (label_defs example_writer)) example_commands)
   \<and> unat (label_offset (label_defs example_writer) (Label 1)) = 23"
proof -
  note c = assemble_correct [OF example_assembles]
  let ?pre = "[DefineLabel (Label 0), StartHandler (Label 1), EmitJmpTrue (Register 2) (Label 2),
      Emit (LoadModule (MemberId 5) (Register 0)), EmitJmp (Label 0), StartHandler invalid_label]"
  have "example_commands = ?pre @ DefineLabel (Label 1)
      # [Emit Rethrow, DefineLabel (Label 2), Emit (Return (Register 0))]"
    by (simp add: example_commands_def)
  with c have "unat (label_offset (label_defs example_writer) (Label 1))
      = length (encode (resolve_commands (label_offset (label_defs example_writer)) ?pre))"
    by fastforce
  also have "\<dots> = 23"
    by (simp add: resolve_commands_def emit_instruction_def emit_op_def)
  finally show ?thesis using c example_assembles by simp
qed

theorem handler_table_correct_witness:
  "assemble example_commands = Inr example_writer
   \<and> map_option handler_target (find_entry (complete_handlers example_writer) 9)
      = Some (label_offset (label_defs example_writer) (Label 1))
   \<and> map_option handler_target (find_entry (complete_handlers example_writer) 23) = None"
proof -
  have len: "length (code example_writer) = 29"
    using assemble_facts [OF example_assembles] commands_size_pieces [of example_commands] example_size
    by (metis (no_types, lifting) bytecode_writer.simps(1) bytecode_writer.update_convs(1)
        bytecode_writer.update_convs(2) bytecode_writer.surjective encode_commands)
  have "handler_at invalid_label example_commands 9 = Label 1" "handler_at invalid_label example_commands 23 = invalid_label"
    by (simp_all add: example_commands_def command_size_def emit_instruction_def emit_op_def)
  then show ?thesis
    using handler_table_correct [OF example_assembles, of 9] handler_table_correct [OF example_assembles, of 23]
      len example_assembles by (simp add: valid_label_iff invalid_label_def invalid_value_def)
qed

text \<open>The recorded references are the member operands of the instructions.\<close>

lemma assembled_refs:
  assumes "assemble cs = Inr w"
  shows "map snd (module_refs w) = map snd (pieces_refs piece_module_ref 0 (commands_pieces cs))"
proof -
  obtain w0 where "writer_inv cs w0" "module_refs w = module_refs w0"
    using assemble_facts [OF assms] by metis
  then have "map snd (nat_refs (module_refs w)) = map snd (pieces_refs piece_module_ref 0 (commands_pieces cs))"
    using writer_inv_facts(3) by simp
  then show ?thesis by (simp add: nat_refs_def o_def)
qed

lemma example_refs: "snd ` set (module_refs example_writer) = {MemberId 5}"
proof -
  have "map snd (module_refs example_writer) = [MemberId 5]"
    unfolding assembled_refs [OF example_assembles]
    by (simp add: example_commands_def commands_pieces_def emit_instruction_def)
  then have "set (map snd (module_refs example_writer)) = {MemberId 5}" by simp
  then show ?thesis by simp
qed

text \<open>An object whose items are all definitions, which move up by one.\<close>

definition moving_linker :: "unit linker" where
  "moving_linker = \<lparr>link_items = replicate 6 (LinkDefinition (IrMember 0) ()), link_defs = (\<lambda>_. None),
     link_renamed = (\<lambda>m. Some (MemberId (member_id m + 1)))\<rparr>"

theorem linking_renames_members_witness:
  "\<exists>w'. fix_func_references moving_linker (MemberId 2) (module_refs example_writer) example_writer = Inr (MemberId 3, w')
    \<and> code w' = encode (map (rename_members (final_id moving_linker))
        (resolve_commands (label_offset (label_defs example_writer)) example_commands))"
proof -
  have "\<forall>m \<in> snd ` set (module_refs example_writer). linkable moving_linker m"
    using example_refs by (auto simp: linkable_def final_id_def linked_id_def moving_linker_def renamed_def)
  moreover have "valid_member (MemberId 2)" "link_renamed moving_linker (MemberId 2) = Some (MemberId 3)"
    by (simp_all add: invalid_value_def moving_linker_def)
  ultimately show ?thesis
    using linking_renames_members [OF example_assembles, of "MemberId 2" moving_linker] by auto
qed

end
