(* ===== verification/Verify.thy ===== *)
theory Verify
  imports BytecodeWriter
begin

text \<open>
  Compiled modules (src/bytecode/module.hpp, function.hpp) and their verifier
  (src/vm/modules/verify.cpp), which the loader runs before it accepts a module. Every
  \<open>fail\<close> of the source is a reported error; the text of a message and the names it quotes are
  not modelled. An entity storage is a list indexed by id; an access outside of it, which
  the source does not check, is undefined behaviour and the value \<open>UndefinedAccess\<close>.
\<close>

subsection \<open>Modules\<close>

datatype function_type = NormalFunction | ClosureFunction

datatype function_id = FunctionId (function_index: u32)
datatype record_schema_id = RecordSchemaId (schema_index: u32)
datatype interned_string = InternedString (string_index: u32)

fun valid_function_id :: "function_id \<Rightarrow> bool" where
  "valid_function_id (FunctionId i) = (i \<noteq> invalid_value)"

fun valid_schema_id :: "record_schema_id \<Rightarrow> bool" where
  "valid_schema_id (RecordSchemaId i) = (i \<noteq> invalid_value)"

fun valid_string :: "interned_string \<Rightarrow> bool" where
  "valid_string (InternedString i) = (i \<noteq> 0)"

record bytecode_function =
  func_name :: bytecode_member
  func_type :: function_type
  func_params :: u32
  func_locals :: u32
  func_code :: bytes
  func_handlers :: "exception_handler list"

type_synonym record_schema = "bytecode_member list"

datatype member_type =
    IntegerType | FloatType | StringType | SymbolType | ImportType | VariableType | FunctionType
  | RecordSchemaType

datatype module_member =
    IntegerMember i64
  | FloatMember f64
  | StringMember interned_string
  | SymbolMember bytecode_member
  | ImportMember bytecode_member
  | VariableMember bytecode_member bytecode_member
  | FunctionMember function_id
  | RecordSchemaMember record_schema_id

fun member_type_of :: "module_member \<Rightarrow> member_type" where
  "member_type_of (IntegerMember _) = IntegerType"
| "member_type_of (FloatMember _) = FloatType"
| "member_type_of (StringMember _) = StringType"
| "member_type_of (SymbolMember _) = SymbolType"
| "member_type_of (ImportMember _) = ImportType"
| "member_type_of (VariableMember _ _) = VariableType"
| "member_type_of (FunctionMember _) = FunctionType"
| "member_type_of (RecordSchemaMember _) = RecordSchemaType"

record bytecode_module =
  mod_name :: interned_string
  mod_init :: bytecode_member
  mod_exports :: "(bytecode_member \<times> bytecode_member) list"
  mod_members :: "module_member list"
  mod_functions :: "bytecode_function list"
  mod_records :: "record_schema list"

datatype verify_error =
    InvalidModuleName | InvalidString | NotAString | InvalidFunctionReference
  | InvalidSchemaReference | NotASymbol | InvalidMemberId | MemberOutOfBounds
  | MemberNotVisited | InitNotFunction | InitNotNormal | ExportNotSymbol
  | ExportOfInternalType | ExportNotNormal
  | TooManyLocals | BytecodeTooLong | InvalidBytecode reader_error | EmptyBody | NoHaltingInstruction
  | HandlerStart | HandlerOrder | HandlerEnd | HandlerInterval | HandlerTarget
  | InvalidJump | JumpTargetNoInstruction | InvalidParameter | ParameterOutOfBounds
  | InvalidLocal | LocalOutOfBounds | NameNotSymbol | LoadClosureInNormalFunction
  | TooManyArguments | OddMapArguments | NotAClosureFunction | NotARecordSchema

text \<open>
  Verification fails with one of the errors above, or it is undefined because the verifier
  itself leaves the bounds of a storage.
\<close>

datatype verify_failure = Reported verify_error | UndefinedAccess

type_synonym 'a verified = "verify_failure + 'a"

text \<open>
  The index operator of an entity storage. That the id is in bounds is its precondition, a
  debug assertion; the access beyond it is undefined.
\<close>

definition storage_at :: "'a list \<Rightarrow> u32 \<Rightarrow> 'a verified" where
  "storage_at xs i = (if unat i < length xs then Inr (xs ! unat i) else Inl UndefinedAccess)"

text \<open>Checks in sequence: the first failure is the result.\<close>

fun check_all :: "unit verified list \<Rightarrow> unit verified" where
  "check_all [] = Inr ()"
| "check_all (c # cs) = bind_sum c (\<lambda>_. check_all cs)"

lemma check_all_Inr [simp]: "check_all cs = Inr () \<longleftrightarrow> (\<forall>c\<in>set cs. c = Inr ())"
  by (induction cs) auto

subsection \<open>References between members\<close>

definition check_reference :: "bytecode_module \<Rightarrow> u32 \<Rightarrow> bytecode_member \<Rightarrow> module_member verified" where
  "check_reference m seen i =
     (if \<not> valid_member i then Inl (Reported InvalidMemberId)
      else if \<not> unat (member_id i) < length (mod_members m) then Inl (Reported MemberOutOfBounds)
      else if seen \<le> member_id i then Inl (Reported MemberNotVisited)
      else storage_at (mod_members m) (member_id i))"

definition check_reference_type ::
  "bytecode_module \<Rightarrow> u32 \<Rightarrow> bytecode_member \<Rightarrow> member_type \<Rightarrow> verify_error \<Rightarrow> unit verified" where
  "check_reference_type m seen i t err =
     bind_sum (check_reference m seen i) (\<lambda>member. check_that (member_type_of member = t) (Reported err))"

definition visit_function_member :: "bytecode_module \<Rightarrow> u32 \<Rightarrow> function_id \<Rightarrow> unit verified" where
  "visit_function_member m seen i =
     (if \<not> valid_function_id i then Inl (Reported InvalidFunctionReference)
      else bind_sum (storage_at (mod_functions m) (function_index i)) (\<lambda>func.
        if valid_member (func_name func)
        then check_reference_type m seen (func_name func) StringType NotAString
        else Inr ()))"

definition visit_record_schema :: "bytecode_module \<Rightarrow> u32 \<Rightarrow> record_schema_id \<Rightarrow> unit verified" where
  "visit_record_schema m seen i =
     (if \<not> valid_schema_id i then Inl (Reported InvalidSchemaReference)
      else bind_sum (storage_at (mod_records m) (schema_index i)) (\<lambda>keys.
        check_all (map (\<lambda>key. check_reference_type m seen key SymbolType NotASymbol) keys)))"

fun visit_member :: "bytecode_module \<Rightarrow> u32 \<Rightarrow> module_member \<Rightarrow> unit verified" where
  "visit_member m seen (IntegerMember _) = Inr ()"
| "visit_member m seen (FloatMember _) = Inr ()"
| "visit_member m seen (StringMember s) = check_that (valid_string s) (Reported InvalidString)"
| "visit_member m seen (SymbolMember name) = check_reference_type m seen name StringType NotAString"
| "visit_member m seen (ImportMember name) = check_reference_type m seen name StringType NotAString"
| "visit_member m seen (VariableMember _ _) = Inr ()"
| "visit_member m seen (FunctionMember i) = visit_function_member m seen i"
| "visit_member m seen (RecordSchemaMember i) = visit_record_schema m seen i"

text \<open>The loop over the members: each sees the members before it.\<close>

fun visit_members :: "bytecode_module \<Rightarrow> u32 \<Rightarrow> module_member list \<Rightarrow> u32 verified" where
  "visit_members m seen [] = Inr seen"
| "visit_members m seen (member # rest) =
     bind_sum (visit_member m seen member) (\<lambda>_. visit_members m (seen + 1) rest)"

subsection \<open>The code of a function\<close>

definition max_locals :: u32 where
  "max_locals = 2 ^ 14"

definition max_container_args :: u32 where
  "max_container_args = 2 ^ 16"

record function_verifier =
  parent_module :: bytecode_module
  seen_member_ids :: u32
  the_function :: bytecode_function
  parsed_instructions :: "(u32 \<times> instr) list"

text \<open>The loop that decodes the code; an instruction is stored with its offset.\<close>

function read_loop :: "nat \<Rightarrow> bytes \<Rightarrow> (u32 \<times> instr) list verified" where
  "read_loop pos bs =
     (if bs = [] then Inr []
      else case read_instruction bs of
          None \<Rightarrow> Inl UndefinedAccess
        | Some (Inl err, rest) \<Rightarrow> Inl (Reported (InvalidBytecode err))
        | Some (Inr ins, rest) \<Rightarrow>
            bind_sum (read_loop (pos + (length bs - length rest)) rest)
              (\<lambda>entries. Inr ((word_of_nat pos, ins) # entries)))"
  by pat_completeness auto

termination
proof (relation "measure (\<lambda>(pos, bs). length bs)")
  fix pos :: nat and bs :: bytes and x :: "(reader_error + instr) \<times> bytes" and r rest ins
  assume "read_instruction bs = Some x" "(r, rest) = x" "r = Inr ins"
  then have "bs = emit_instruction ins @ rest" using read_instruction_sound by blast
  then show "((pos + (length bs - length rest), rest), pos, bs) \<in> measure (\<lambda>(pos, bs). length bs)"
    by (simp add: length_emit_instruction)
qed simp

declare read_loop.simps [simp del]

definition read_instructions :: "bytecode_function \<Rightarrow> (u32 \<times> instr) list verified" where
  "read_instructions f =
     (if unat (- 1 :: u32) \<le> length (func_code f) then Inl (Reported BytecodeTooLong)
      else read_loop 0 (func_code f))"

text \<open>\<open>std::lower_bound\<close> on the ordered offsets.\<close>

definition lower_bound :: "(u32 \<times> instr) list \<Rightarrow> u32 \<Rightarrow> (u32 \<times> instr) list" where
  "lower_bound entries offset = dropWhile (\<lambda>e. fst e < offset) entries"

definition is_instruction_start :: "function_verifier \<Rightarrow> u32 \<Rightarrow> bool" where
  "is_instruction_start v offset =
     (case lower_bound (parsed_instructions v) offset of
        [] \<Rightarrow> False
      | e # _ \<Rightarrow> fst e = offset)"

definition check_target :: "function_verifier \<Rightarrow> bytecode_offset \<Rightarrow> unit verified" where
  "check_target v target =
     (if \<not> valid_offset target then Inl (Reported InvalidJump)
      else check_that (is_instruction_start v (offset_value target)) (Reported JumpTargetNoInstruction))"

definition check_param :: "function_verifier \<Rightarrow> bytecode_param \<Rightarrow> unit verified" where
  "check_param v param =
     (if param_id param = invalid_value then Inl (Reported InvalidParameter)
      else check_that (param_id param < func_params (the_function v)) (Reported ParameterOutOfBounds))"

definition check_local :: "function_verifier \<Rightarrow> bytecode_register \<Rightarrow> unit verified" where
  "check_local v local =
     (if register_id local = invalid_value then Inl (Reported InvalidLocal)
      else check_that (register_id local < func_locals (the_function v)) (Reported LocalOutOfBounds))"

definition check_member :: "function_verifier \<Rightarrow> bytecode_member \<Rightarrow> member_type verified" where
  "check_member v member =
     bind_sum (check_reference (parent_module v) (seen_member_ids v) member) (\<lambda>x. Inr (member_type_of x))"

definition check_some_member :: "function_verifier \<Rightarrow> bytecode_member \<Rightarrow> unit verified" where
  "check_some_member v member = bind_sum (check_member v member) (\<lambda>_. Inr ())"

definition check_member_type :: "function_verifier \<Rightarrow> bytecode_member \<Rightarrow> member_type \<Rightarrow> verify_error \<Rightarrow> unit verified" where
  "check_member_type v member t err = bind_sum (check_member v member) (\<lambda>t'. check_that (t' = t) (Reported err))"

definition check_closure_template :: "function_verifier \<Rightarrow> bytecode_member \<Rightarrow> unit verified" where
  "check_closure_template v tmpl =
     bind_sum (check_reference (parent_module v) (seen_member_ids v) tmpl) (\<lambda>member.
       case member of
         FunctionMember i \<Rightarrow>
           bind_sum (storage_at (mod_functions (parent_module v)) (function_index i)) (\<lambda>func.
             check_that (func_type func = ClosureFunction) (Reported NotAClosureFunction))
       | _ \<Rightarrow> Inl (Reported NotAClosureFunction))"

text \<open>The visitor over the instructions, in five parts.\<close>

definition visit_control :: "function_verifier \<Rightarrow> instr \<Rightarrow> unit verified" where
  "visit_control v ins = (case ins of
      Push value \<Rightarrow> check_all [check_local v value]
    | Pop \<Rightarrow> Inr ()
    | PopTo target \<Rightarrow> check_all [check_local v target]
    | Jmp offset \<Rightarrow> check_all [check_target v offset]
    | JmpTrue condition offset \<Rightarrow> check_all [check_local v condition, check_target v offset]
    | JmpFalse condition offset \<Rightarrow> check_all [check_local v condition, check_target v offset]
    | JmpNull condition offset \<Rightarrow> check_all [check_local v condition, check_target v offset]
    | JmpNotNull condition offset \<Rightarrow> check_all [check_local v condition, check_target v offset]
    | Call function_reg _ \<Rightarrow> check_all [check_local v function_reg]
    | LoadMethod object name this method \<Rightarrow>
          check_all [check_local v object,
            check_member_type v name SymbolType NameNotSymbol,
            check_local v this,
            check_local v method]
    | CallMethod method _ \<Rightarrow> check_all [check_local v method]
    | Return value \<Rightarrow> check_all [check_local v value]
    | Rethrow \<Rightarrow> Inr ()
    | AssertFail expr message \<Rightarrow> check_all [check_local v expr, check_local v message]
    | _ \<Rightarrow> Inr ())"

definition visit_object :: "function_verifier \<Rightarrow> instr \<Rightarrow> unit verified" where
  "visit_object v ins = (case ins of
      Array count target \<Rightarrow>
          check_all [check_local v target,
            check_that (count \<le> max_container_args) (Reported TooManyArguments)]
    | Tuple count target \<Rightarrow>
          check_all [check_local v target,
            check_that (count \<le> max_container_args) (Reported TooManyArguments)]
    | Set count target \<Rightarrow>
          check_all [check_local v target,
            check_that (count \<le> max_container_args) (Reported TooManyArguments)]
    | Map count target \<Rightarrow>
          check_all [check_local v target,
            check_that (count mod 2 = 0) (Reported OddMapArguments),
            check_that (count \<le> max_container_args) (Reported TooManyArguments)]
    | Env parent _ target \<Rightarrow> check_all [check_local v parent, check_local v target]
    | Closure tmpl env target \<Rightarrow>
          check_all [check_some_member v tmpl,
            check_local v env,
            check_local v target,
            check_closure_template v tmpl]
    | Record schema target \<Rightarrow>
          check_all [check_member_type v schema RecordSchemaType NotARecordSchema,
            check_local v target]
    | Iterator container target \<Rightarrow> check_all [check_local v container, check_local v target]
    | IteratorNext iterator valid value \<Rightarrow>
          check_all [check_local v iterator,
            check_local v valid,
            check_local v value]
    | Formatter target \<Rightarrow> check_all [check_local v target]
    | AppendFormat value formatter \<Rightarrow> check_all [check_local v value, check_local v formatter]
    | FormatResult formatter target \<Rightarrow> check_all [check_local v formatter, check_local v target]
    | Copy source target \<Rightarrow> check_all [check_local v source, check_local v target]
    | Swap a b \<Rightarrow> check_all [check_local v a, check_local v b]
    | _ \<Rightarrow> visit_control v ins)"

definition visit_comparison :: "function_verifier \<Rightarrow> instr \<Rightarrow> unit verified" where
  "visit_comparison v ins = (case ins of
      Gt lhs rhs target \<Rightarrow> check_all [check_local v lhs, check_local v rhs, check_local v target]
    | Gte lhs rhs target \<Rightarrow> check_all [check_local v lhs, check_local v rhs, check_local v target]
    | Lt lhs rhs target \<Rightarrow> check_all [check_local v lhs, check_local v rhs, check_local v target]
    | Lte lhs rhs target \<Rightarrow> check_all [check_local v lhs, check_local v rhs, check_local v target]
    | Eq lhs rhs target \<Rightarrow> check_all [check_local v lhs, check_local v rhs, check_local v target]
    | NEq lhs rhs target \<Rightarrow> check_all [check_local v lhs, check_local v rhs, check_local v target]
    | LNot value target \<Rightarrow> check_all [check_local v value, check_local v target]
    | _ \<Rightarrow> visit_object v ins)"

definition visit_arithmetic :: "function_verifier \<Rightarrow> instr \<Rightarrow> unit verified" where
  "visit_arithmetic v ins = (case ins of
      Add lhs rhs target \<Rightarrow> check_all [check_local v lhs, check_local v rhs, check_local v target]
    | Sub lhs rhs target \<Rightarrow> check_all [check_local v lhs, check_local v rhs, check_local v target]
    | Mul lhs rhs target \<Rightarrow> check_all [check_local v lhs, check_local v rhs, check_local v target]
    | Div lhs rhs target \<Rightarrow> check_all [check_local v lhs, check_local v rhs, check_local v target]
    | Mod lhs rhs target \<Rightarrow> check_all [check_local v lhs, check_local v rhs, check_local v target]
    | Pow lhs rhs target \<Rightarrow> check_all [check_local v lhs, check_local v rhs, check_local v target]
    | UAdd value target \<Rightarrow> check_all [check_local v value, check_local v target]
    | UNeg value target \<Rightarrow> check_all [check_local v value, check_local v target]
    | LSh lhs rhs target \<Rightarrow> check_all [check_local v lhs, check_local v rhs, check_local v target]
    | RSh lhs rhs target \<Rightarrow> check_all [check_local v lhs, check_local v rhs, check_local v target]
    | BAnd lhs rhs target \<Rightarrow> check_all [check_local v lhs, check_local v rhs, check_local v target]
    | BOr lhs rhs target \<Rightarrow> check_all [check_local v lhs, check_local v rhs, check_local v target]
    | BXor lhs rhs target \<Rightarrow> check_all [check_local v lhs, check_local v rhs, check_local v target]
    | BNot value target \<Rightarrow> check_all [check_local v value, check_local v target]
    | _ \<Rightarrow> visit_comparison v ins)"

definition visit_load_store :: "function_verifier \<Rightarrow> instr \<Rightarrow> unit verified" where
  "visit_load_store v ins = (case ins of
      LoadNull target \<Rightarrow> check_all [check_local v target]
    | LoadFalse target \<Rightarrow> check_all [check_local v target]
    | LoadTrue target \<Rightarrow> check_all [check_local v target]
    | LoadInt _ target \<Rightarrow> check_all [check_local v target]
    | LoadFloat _ target \<Rightarrow> check_all [check_local v target]
    | LoadParam source target \<Rightarrow> check_all [check_param v source, check_local v target]
    | StoreParam source target \<Rightarrow> check_all [check_local v source, check_param v target]
    | LoadModule source target \<Rightarrow> check_all [check_some_member v source, check_local v target]
    | StoreModule source target \<Rightarrow> check_all [check_local v source, check_some_member v target]
    | LoadMember object name target \<Rightarrow>
          check_all [check_local v object,
            check_member_type v name SymbolType NameNotSymbol,
            check_local v target]
    | StoreMember source object name \<Rightarrow>
          check_all [check_local v source,
            check_local v object,
            check_member_type v name SymbolType NameNotSymbol]
    | LoadTupleMember tuple _ target \<Rightarrow> check_all [check_local v tuple, check_local v target]
    | StoreTupleMember source tuple _ \<Rightarrow> check_all [check_local v source, check_local v tuple]
    | LoadIndex array _ target \<Rightarrow> check_all [check_local v array, check_local v target]
    | StoreIndex source array _ \<Rightarrow> check_all [check_local v source, check_local v array]
    | LoadClosure target \<Rightarrow>
          check_all [check_that (func_type (the_function v) = ClosureFunction) (Reported LoadClosureInNormalFunction),
            check_local v target]
    | LoadEnv env _ _ target \<Rightarrow> check_all [check_local v env, check_local v target]
    | StoreEnv source env _ _ \<Rightarrow> check_all [check_local v source, check_local v env]
    | _ \<Rightarrow> visit_arithmetic v ins)"

text \<open>The handlers of a function; each looks at the one before it.\<close>

definition visit_handler :: "function_verifier \<Rightarrow> exception_handler option \<Rightarrow> exception_handler \<Rightarrow> unit verified" where
  "visit_handler v prev current = check_all
     [check_that (handler_from current \<noteq> invalid_value \<and> is_instruction_start v (handler_from current)) (Reported HandlerStart),
      (case prev of None \<Rightarrow> Inr ()
       | Some p \<Rightarrow> check_that (handler_to p \<le> handler_from current) (Reported HandlerOrder)),
      check_that (handler_to current \<noteq> invalid_value
        \<and> (is_instruction_start v (handler_to current)
           \<or> unat (handler_to current) = length (func_code (the_function v)))) (Reported HandlerEnd),
      check_that (handler_from current < handler_to current) (Reported HandlerInterval),
      check_that (handler_target current \<noteq> invalid_value
        \<and> is_instruction_start v (handler_target current)) (Reported HandlerTarget)]"

fun visit_handlers :: "function_verifier \<Rightarrow> exception_handler option \<Rightarrow> exception_handler list \<Rightarrow> unit verified" where
  "visit_handlers v prev [] = Inr ()"
| "visit_handlers v prev (current # rest) =
     bind_sum (visit_handler v prev current) (\<lambda>_. visit_handlers v (Some current) rest)"

definition halting_op :: "bytecode_op \<Rightarrow> bool" where
  "halting_op op \<longleftrightarrow> op \<in> {OpReturn, OpRethrow, OpJmp, OpAssertFail}"

definition verify_function :: "bytecode_module \<Rightarrow> u32 \<Rightarrow> bytecode_function \<Rightarrow> unit verified" where
  "verify_function m seen f =
     (if max_locals < func_locals f then Inl (Reported TooManyLocals)
      else bind_sum (read_instructions f) (\<lambda>insts.
        let v = \<lparr>parent_module = m, seen_member_ids = seen, the_function = f, parsed_instructions = insts\<rparr>
        in check_all
          [check_all (map (\<lambda>e. visit_load_store v (snd e)) insts),
           check_that (insts \<noteq> []) (Reported EmptyBody),
           (if insts = [] then Inl (Reported EmptyBody)
            else check_that (halting_op (instr_op (snd (last insts)))) (Reported NoHaltingInstruction)),
           visit_handlers v None (func_handlers f)]))"

subsection \<open>The verification of a module\<close>

fun verify_functions :: "bytecode_module \<Rightarrow> u32 \<Rightarrow> module_member list \<Rightarrow> unit verified" where
  "verify_functions m seen [] = Inr ()"
| "verify_functions m seen (FunctionMember i # rest) =
     bind_sum (storage_at (mod_functions m) (function_index i)) (\<lambda>f.
     bind_sum (verify_function m seen f) (\<lambda>_. verify_functions m seen rest))"
| "verify_functions m seen (_ # rest) = verify_functions m seen rest"

definition check_normal_function :: "bytecode_module \<Rightarrow> function_id \<Rightarrow> verify_error \<Rightarrow> unit verified" where
  "check_normal_function m i err =
     bind_sum (storage_at (mod_functions m) (function_index i)) (\<lambda>f.
       check_that (func_type f = NormalFunction) (Reported err))"

definition verify_init :: "bytecode_module \<Rightarrow> u32 \<Rightarrow> unit verified" where
  "verify_init m seen =
     (if \<not> valid_member (mod_init m) then Inr ()
      else bind_sum (check_reference m seen (mod_init m)) (\<lambda>init.
        case init of
          FunctionMember i \<Rightarrow> check_normal_function m i InitNotNormal
        | _ \<Rightarrow> Inl (Reported InitNotFunction)))"

definition verify_export :: "bytecode_module \<Rightarrow> u32 \<Rightarrow> bytecode_member \<times> bytecode_member \<Rightarrow> unit verified" where
  "verify_export m seen entry = (case entry of (symbol_id, value_id) \<Rightarrow>
     bind_sum (check_reference_type m seen symbol_id SymbolType ExportNotSymbol) (\<lambda>_.
     bind_sum (check_reference m seen value_id) (\<lambda>value.
       case value of
         ImportMember _ \<Rightarrow> Inl (Reported ExportOfInternalType)
       | RecordSchemaMember _ \<Rightarrow> Inl (Reported ExportOfInternalType)
       | FunctionMember i \<Rightarrow> check_normal_function m i ExportNotNormal
       | _ \<Rightarrow> Inr ())))"

definition verify_module :: "bytecode_module \<Rightarrow> unit verified" where
  "verify_module m =
     (if \<not> valid_string (mod_name m) then Inl (Reported InvalidModuleName)
      else bind_sum (visit_members m 0 (mod_members m)) (\<lambda>seen. check_all
        [verify_functions m seen (mod_members m),
         verify_init m seen,
         check_all (map (verify_export m seen) (mod_exports m))]))"

subsection \<open>Decoded code and its instruction starts\<close>

fun offsets :: "nat \<Rightarrow> instr list \<Rightarrow> nat list" where
  "offsets pos [] = []"
| "offsets pos (i # is) = pos # offsets (pos + length (emit_instruction i)) is"

lemma encode_Nil_iff [simp]: "encode is = [] \<longleftrightarrow> is = []"
proof (cases "is")
  case (Cons i js)
  have "emit_instruction i \<noteq> []" using length_emit_instruction [of i] by auto
  with Cons show ?thesis by simp
qed simp

lemma length_offsets [simp]: "length (offsets pos is) = length is"
  by (induction "is" arbitrary: pos) auto

lemma read_loop_encode: "read_loop pos (encode is) = Inr (zip (map word_of_nat (offsets pos is)) is)"
proof (induction "is" arbitrary: pos)
  case Nil
  then show ?case by (simp add: read_loop.simps)
next
  case (Cons i js)
  have "emit_instruction i @ encode js \<noteq> []" using length_emit_instruction [of i] by auto
  then show ?case using Cons by (subst read_loop.simps) (simp add: read_emit_instruction)
qed

lemma read_loop_sound:
  "read_loop pos bs = Inr entries \<Longrightarrow> bs = encode (map snd entries)"
proof (induction pos bs arbitrary: entries rule: read_loop.induct)
  case (1 pos bs)
  show ?case
  proof (cases "bs = []")
    case True
    with 1(2) show ?thesis by (simp add: read_loop.simps)
  next
    case False
    obtain r rest where r: "read_instruction bs = Some (r, rest)" using read_instruction_total by blast
    show ?thesis
    proof (cases r)
      case (Inl err)
      with 1(2) False r show ?thesis by (simp add: read_loop.simps)
    next
      case (Inr ins)
      with 1(2) False r obtain es where es: "read_loop (pos + (length bs - length rest)) rest = Inr es"
        and entries: "entries = (word_of_nat pos, ins) # es" by (subst (asm) read_loop.simps) auto
      from r Inr have "bs = emit_instruction ins @ rest" using read_instruction_sound by blast
      moreover have "rest = encode (map snd es)"
        using 1(1) [OF False r [symmetric, THEN sym] refl Inr es] by simp
      ultimately show ?thesis by (simp add: entries)
    qed
  qed
qed

lemma read_loop_iff:
  "read_loop pos bs = Inr entries \<longleftrightarrow>
     (\<exists>is. bs = encode is \<and> entries = zip (map word_of_nat (offsets pos is)) is)"
  using read_loop_encode read_loop_sound by (metis sum.inject(2))

text \<open>The positions at which an instruction starts.\<close>

definition starts :: "instr list \<Rightarrow> nat set" where
  "starts is = {length (encode pre) |pre i post. is = pre @ i # post}"

lemma offsets_append: "offsets pos (is @ js) = offsets pos is @ offsets (pos + length (encode is)) js"
  by (induction "is" arbitrary: pos) (auto simp: add.assoc)

lemma set_offsets: "set (offsets pos is) = {pos + length (encode pre) |pre i post. is = pre @ i # post}"
proof (intro equalityI subsetI)
  fix x assume "x \<in> set (offsets pos is)"
  then show "x \<in> {pos + length (encode pre) |pre i post. is = pre @ i # post}"
  proof (induction "is" arbitrary: pos)
    case (Cons i js)
    show ?case
    proof (cases "x = pos")
      case True
      then show ?thesis by (auto intro!: exI [of _ "[]"])
    next
      case False
      with Cons.prems have "x \<in> set (offsets (pos + length (emit_instruction i)) js)" by simp
      from Cons.IH [OF this] obtain pre k post where "js = pre @ k # post"
        "x = pos + length (emit_instruction i) + length (encode pre)" by blast
      then show ?thesis by (auto intro!: exI [of _ "i # pre"])
    qed
  qed simp
next
  fix x assume "x \<in> {pos + length (encode pre) |pre i post. is = pre @ i # post}"
  then show "x \<in> set (offsets pos is)" by (auto simp: offsets_append)
qed

lemma starts_offsets: "starts is = set (offsets 0 is)"
  by (simp add: set_offsets starts_def)

lemma starts_less: "x \<in> starts is \<Longrightarrow> x < length (encode is)"
  using length_emit_instruction by (auto simp: starts_def)

lemma sorted_offsets: "sorted_wrt (<) (offsets pos is)"
proof (induction "is" arbitrary: pos)
  case (Cons i js)
  have "pos < x" if "x \<in> set (offsets (pos + length (emit_instruction i)) js)" for x
    using that length_emit_instruction [of i] by (auto simp: set_offsets)
  with Cons show ?case by simp
qed simp

text \<open>The binary search over the offsets decides whether an instruction starts there.\<close>

lemma lower_bound_sorted:
  "sorted_wrt (<) (map fst entries) \<Longrightarrow>
   (case lower_bound entries offset of [] \<Rightarrow> False | e # _ \<Rightarrow> fst e = offset) \<longleftrightarrow> offset \<in> fst ` set entries"
proof (induction entries)
  case Nil
  then show ?case by (simp add: lower_bound_def)
next
  case (Cons e es)
  show ?case
  proof (cases "fst e < offset")
    case True
    with Cons show ?thesis by (auto simp: lower_bound_def)
  next
    case False
    with Cons.prems show ?thesis by (auto simp: lower_bound_def)
  qed
qed

lemma is_instruction_start_iff:
  assumes "parsed_instructions v = zip (map word_of_nat (offsets 0 is)) is" and "length (encode is) < 2 ^ 32"
  shows "is_instruction_start v offset \<longleftrightarrow> unat offset \<in> starts is"
proof -
  have small: "unat (word_of_nat x :: u32) = x" if "x \<in> set (offsets 0 is)" for x
    using that starts_less [of x "is"] assms(2) by (simp add: starts_offsets unat_of_nat)
  have fst: "map fst (parsed_instructions v) = map word_of_nat (offsets 0 is)" by (simp add: assms(1))
  have "sorted_wrt (\<lambda>x y. (word_of_nat x :: u32) < word_of_nat y) (offsets 0 is)"
    by (rule sorted_wrt_mono_rel [OF _ sorted_offsets]) (simp add: word_less_nat_alt small)
  then have "sorted_wrt (<) (map (word_of_nat :: nat \<Rightarrow> u32) (offsets 0 is))"
    by (simp add: sorted_wrt_map)
  then have "is_instruction_start v offset \<longleftrightarrow> offset \<in> fst ` set (parsed_instructions v)"
    unfolding is_instruction_start_def by (intro lower_bound_sorted) (simp add: fst)
  also have "fst ` set (parsed_instructions v) = word_of_nat ` set (offsets 0 is)"
    using fst by (metis list.set_map)
  also have "offset \<in> word_of_nat ` set (offsets 0 is) \<longleftrightarrow> unat offset \<in> set (offsets 0 is)"
    using small by (force simp: image_iff intro: bexI [of _ "unat offset"])
  finally show ?thesis by (simp add: starts_offsets)
qed

subsection \<open>What the verifier accepts\<close>

text \<open>
  The operands that are checked: all but the index registers of \<open>LoadIndex\<close> and
  \<open>StoreIndex\<close>.
\<close>

definition checked_operands :: "instr \<Rightarrow> operand list" where
  "checked_operands i = (case i of
      LoadIndex array index target \<Rightarrow> [RegisterOperand array, RegisterOperand target]
    | StoreIndex source array index \<Rightarrow> [RegisterOperand source, RegisterOperand array]
    | _ \<Rightarrow> instr_operands i)"

definition unchecked_index :: "instr \<Rightarrow> bytecode_register option" where
  "unchecked_index i = (case i of
      LoadIndex _ index _ \<Rightarrow> Some index
    | StoreIndex _ _ index \<Rightarrow> Some index
    | _ \<Rightarrow> None)"

lemma checked_or_index:
  "x \<in> set (instr_operands i) \<Longrightarrow>
     x \<in> set (checked_operands i) \<or> (\<exists>r. x = RegisterOperand r \<and> unchecked_index i = Some r)"
  by (cases i) (auto simp: checked_operands_def unchecked_index_def)

definition reference_ok :: "bytecode_module \<Rightarrow> u32 \<Rightarrow> bytecode_member \<Rightarrow> bool" where
  "reference_ok m seen i \<longleftrightarrow>
     valid_member i \<and> unat (member_id i) < length (mod_members m) \<and> member_id i < seen"

definition member_at :: "bytecode_module \<Rightarrow> bytecode_member \<Rightarrow> module_member" where
  "member_at m i = mod_members m ! unat (member_id i)"

fun operand_ok :: "bytecode_module \<Rightarrow> u32 \<Rightarrow> bytecode_function \<Rightarrow> nat set \<Rightarrow> operand \<Rightarrow> bool" where
  "operand_ok m seen f ss (RegisterOperand r) = (register_id r < func_locals f)"
| "operand_ok m seen f ss (ParamOperand p) = (param_id p < func_params f)"
| "operand_ok m seen f ss (MemberOperand i) = reference_ok m seen i"
| "operand_ok m seen f ss (OffsetOperand x) = (unat (offset_value x) \<in> ss)"
| "operand_ok m seen f ss _ = True"

definition closure_template :: "bytecode_module \<Rightarrow> bytecode_member \<Rightarrow> bool" where
  "closure_template m i = (case member_at m i of
      FunctionMember fid \<Rightarrow> unat (function_index fid) < length (mod_functions m)
        \<and> func_type (mod_functions m ! unat (function_index fid)) = ClosureFunction
    | _ \<Rightarrow> False)"

text \<open>The conditions of an instruction beyond the ranges of its operands.\<close>

definition instr_extra :: "bytecode_module \<Rightarrow> bytecode_function \<Rightarrow> instr \<Rightarrow> bool" where
  "instr_extra m f i = (case i of
      LoadMember _ name _ \<Rightarrow> member_type_of (member_at m name) = SymbolType
    | StoreMember _ _ name \<Rightarrow> member_type_of (member_at m name) = SymbolType
    | LoadMethod _ name _ _ \<Rightarrow> member_type_of (member_at m name) = SymbolType
    | LoadClosure _ \<Rightarrow> func_type f = ClosureFunction
    | Array count _ \<Rightarrow> count \<le> max_container_args
    | Tuple count _ \<Rightarrow> count \<le> max_container_args
    | Set count _ \<Rightarrow> count \<le> max_container_args
    | Map count _ \<Rightarrow> count mod 2 = 0 \<and> count \<le> max_container_args
    | Closure tmpl _ _ \<Rightarrow> closure_template m tmpl
    | Record schema _ \<Rightarrow> member_type_of (member_at m schema) = RecordSchemaType
    | _ \<Rightarrow> True)"

definition instr_ok :: "bytecode_module \<Rightarrow> u32 \<Rightarrow> bytecode_function \<Rightarrow> nat set \<Rightarrow> instr \<Rightarrow> bool" where
  "instr_ok m seen f ss i \<longleftrightarrow> (\<forall>x\<in>set (checked_operands i). operand_ok m seen f ss x) \<and> instr_extra m f i"

definition handlers_valid :: "bytecode_function \<Rightarrow> nat set \<Rightarrow> bool" where
  "handlers_valid f ss \<longleftrightarrow>
     ordered_handlers (func_handlers f)
     \<and> (\<forall>h\<in>set (func_handlers f). unat (handler_from h) \<in> ss
          \<and> unat (handler_to h) \<in> insert (length (func_code f)) ss \<and> unat (handler_target h) \<in> ss)"

text \<open>The specification of an accepted function.\<close>

definition function_ok :: "bytecode_module \<Rightarrow> u32 \<Rightarrow> bytecode_function \<Rightarrow> instr list \<Rightarrow> bool" where
  "function_ok m seen f is \<longleftrightarrow>
     func_locals f \<le> max_locals \<and> func_code f = encode is \<and> length (func_code f) < 2 ^ 32 - 1
     \<and> is \<noteq> [] \<and> halting_op (instr_op (last is))
     \<and> (\<forall>i\<in>set is. instr_ok m seen f (starts is) i) \<and> handlers_valid f (starts is)"

lemma check_reference_Inr:
  "check_reference m seen i = Inr x \<longleftrightarrow> reference_ok m seen i \<and> x = member_at m i"
  by (auto simp: check_reference_def reference_ok_def member_at_def storage_at_def not_le)

lemma check_local_Inr: "check_local v r = Inr u \<longleftrightarrow> register_id r < func_locals (the_function v)"
proof -
  have "register_id r \<noteq> invalid_value" if "register_id r < func_locals (the_function v)"
    using that by (auto simp: invalid_value_def)
  then show ?thesis by (auto simp: check_local_def)
qed

lemma check_param_Inr: "check_param v p = Inr u \<longleftrightarrow> param_id p < func_params (the_function v)"
proof -
  have "param_id p \<noteq> invalid_value" if "param_id p < func_params (the_function v)"
    using that by (auto simp: invalid_value_def)
  then show ?thesis by (auto simp: check_param_def)
qed

lemma check_member_Inr:
  "check_member v i = Inr t \<longleftrightarrow>
     reference_ok (parent_module v) (seen_member_ids v) i \<and> t = member_type_of (member_at (parent_module v) i)"
  by (auto simp: check_member_def check_reference_Inr)

lemma check_closure_template_Inr:
  "check_closure_template v i = Inr u \<longleftrightarrow>
     reference_ok (parent_module v) (seen_member_ids v) i \<and> closure_template (parent_module v) i"
  by (cases "member_at (parent_module v) i")
     (auto simp: check_closure_template_def check_reference_Inr closure_template_def storage_at_def)

lemmas check_Inr = check_local_Inr check_param_Inr check_member_Inr check_closure_template_Inr

lemmas visit_defs = visit_load_store_def visit_arithmetic_def visit_comparison_def visit_object_def
  visit_control_def

lemma visit_instruction_iff:
  assumes "\<And>x. check_target v x = Inr () \<longleftrightarrow> unat (offset_value x) \<in> ss"
  shows "visit_load_store v i = Inr () \<longleftrightarrow>
     instr_ok (parent_module v) (seen_member_ids v) (the_function v) ss i"
  by (cases i)
     (auto simp: visit_defs instr_ok_def checked_operands_def instr_extra_def check_Inr assms
        check_some_member_def check_member_type_def)

lemma visit_handlers_iff:
  assumes ss: "\<And>x. is_instruction_start v x \<longleftrightarrow> unat x \<in> ss"
    and small: "\<And>x :: u32. unat x \<in> insert (length (func_code (the_function v))) ss \<Longrightarrow> x \<noteq> invalid_value"
  shows "visit_handlers v prev hs = Inr () \<longleftrightarrow>
     ordered_handlers hs
     \<and> (\<forall>h\<in>set hs. unat (handler_from h) \<in> ss
          \<and> unat (handler_to h) \<in> insert (length (func_code (the_function v))) ss \<and> unat (handler_target h) \<in> ss)
     \<and> (case (prev, hs) of (Some p, h # _) \<Rightarrow> handler_to p \<le> handler_from h | _ \<Rightarrow> True)"
proof (induction hs arbitrary: prev)
  case Nil
  then show ?case by (cases prev) simp_all
next
  case (Cons h hs)
  have "visit_handler v prev h = Inr () \<longleftrightarrow>
     unat (handler_from h) \<in> ss \<and> (case prev of Some p \<Rightarrow> handler_to p \<le> handler_from h | None \<Rightarrow> True)
     \<and> unat (handler_to h) \<in> insert (length (func_code (the_function v))) ss
     \<and> handler_from h < handler_to h \<and> unat (handler_target h) \<in> ss"
    using small by (cases prev) (auto simp: visit_handler_def ss)
  with Cons show ?case by (cases hs; cases prev) auto
qed

lemma verify_function_iff:
  "verify_function m seen f = Inr () \<longleftrightarrow> (\<exists>is. function_ok m seen f is)"
proof -
  have verified: "verify_function m seen f = Inr () \<longleftrightarrow> function_ok m seen f is"
    if code: "func_code f = encode is" and short: "length (func_code f) < 2 ^ 32 - 1" for "is"
  proof -
    let ?insts = "zip (map (word_of_nat :: nat \<Rightarrow> u32) (offsets 0 is)) is" and ?ss = "starts is"
    let ?v = "\<lparr>parent_module = m, seen_member_ids = seen, the_function = f, parsed_instructions = ?insts\<rparr>"
    have read: "read_instructions f = Inr ?insts"
      using short unat_max_u32 by (simp add: read_instructions_def code read_loop_encode)
    have ss: "is_instruction_start ?v x \<longleftrightarrow> unat x \<in> ?ss" for x
      using short code by (intro is_instruction_start_iff) simp_all
    have small: "x \<noteq> invalid_value" if "unat x \<in> insert (length (func_code (the_function ?v))) ?ss" for x :: u32
    proof -
      have "unat x < 2 ^ 32 - 1" using that short starts_less [of "unat x" "is"] code by auto
      then show ?thesis using unat_max_u32 by (auto simp: invalid_value_def)
    qed
    have target: "check_target ?v x = Inr () \<longleftrightarrow> unat (offset_value x) \<in> ?ss" for x
      using small [of "offset_value x"] by (cases x) (auto simp: check_target_def ss)
    have ins: "visit_load_store ?v i = Inr () \<longleftrightarrow> instr_ok m seen f ?ss i" for i
      using visit_instruction_iff [of ?v ?ss i, OF target] by simp
    have snds: "map snd (zip xs ys) = ys" if "length xs = length ys" for xs :: "u32 list" and ys :: "instr list"
      using that by simp
    have "map (\<lambda>e. visit_load_store ?v (snd e)) ?insts = map (visit_load_store ?v) (map snd ?insts)"
      by (simp only: map_map comp_def)
    also have "map snd ?insts = is" by (rule snds) simp
    finally have visits: "(\<forall>c\<in>set (map (\<lambda>e. visit_load_store ?v (snd e)) ?insts). c = Inr ()) \<longleftrightarrow>
        (\<forall>i\<in>set is. instr_ok m seen f ?ss i)"
      by (simp add: ins)
    have empty: "?insts = [] \<longleftrightarrow> is = []" by (cases "is") simp_all
    have last: "snd (last ?insts) = last is" if "is \<noteq> []"
    proof -
      have "last (map snd ?insts) = snd (last ?insts)" using that empty by (intro last_map) blast
      then show ?thesis using snds [of "map word_of_nat (offsets 0 is)" "is"] by auto
    qed
    have hs: "visit_handlers ?v None (func_handlers f) = Inr () \<longleftrightarrow> handlers_valid f ?ss"
      using visit_handlers_iff [of ?v ?ss None "func_handlers f", OF ss small] by (simp add: handlers_valid_def)
    have "verify_function m seen f = Inr () \<longleftrightarrow>
        func_locals f \<le> max_locals
        \<and> (\<forall>c\<in>set (map (\<lambda>e. visit_load_store ?v (snd e)) ?insts). c = Inr ())
        \<and> ?insts \<noteq> [] \<and> halting_op (instr_op (snd (last ?insts)))
        \<and> visit_handlers ?v None (func_handlers f) = Inr ()"
      by (auto simp: verify_function_def read Let_def not_less)
    then show ?thesis
      unfolding visits hs function_ok_def using code short empty last by (cases "is = []") auto
  qed
  show ?thesis
  proof
    assume ok: "verify_function m seen f = Inr ()"
    then obtain insts where "read_instructions f = Inr insts" by (auto simp: verify_function_def split: if_splits)
    then have "read_loop 0 (func_code f) = Inr insts" and short: "length (func_code f) < 2 ^ 32 - 1"
      using unat_max_u32 by (auto simp: read_instructions_def not_le)
    from read_loop_sound [OF this(1)] obtain "is" where "func_code f = encode is" by blast
    with short verified ok show "\<exists>is. function_ok m seen f is" by blast
  next
    assume "\<exists>is. function_ok m seen f is"
    with verified show "verify_function m seen f = Inr ()" by (auto simp: function_ok_def)
  qed
qed

subsection \<open>Control flow of verified code\<close>

text \<open>
  The positions that the machine can go to from an instruction at \<open>pc\<close>: the next one unless
  the instruction halts, the target of a jump, and the target of the handler that is found
  when an exception is raised; the machine then searches at the last byte it has read of
  the instruction (\<open>BytecodeInterpreter::handle_exception\<close>).
\<close>

inductive pc_step :: "bytecode_function \<Rightarrow> nat \<Rightarrow> nat \<Rightarrow> bool" for f where
  fallthrough:
    "read_instruction (drop pc (func_code f)) = Some (Inr i, rest) \<Longrightarrow> \<not> halting_op (instr_op i)
     \<Longrightarrow> pc_step f pc (length (func_code f) - length rest)"
| jump:
    "read_instruction (drop pc (func_code f)) = Some (Inr i, rest)
     \<Longrightarrow> OffsetOperand x \<in> set (instr_operands i) \<Longrightarrow> pc_step f pc (unat (offset_value x))"
| exception:
    "read_instruction (drop pc (func_code f)) = Some (Inr i, rest)
     \<Longrightarrow> pc < next_byte \<Longrightarrow> next_byte \<le> length (func_code f) - length rest
     \<Longrightarrow> find_entry (func_handlers f) (word_of_nat (next_byte - 1)) = Some e
     \<Longrightarrow> pc_step f pc (unat (handler_target e))"

lemma starts_read:
  assumes "func_code f = encode is" and "pc \<in> starts is"
  obtains pre i post where "is = pre @ i # post" "pc = length (encode pre)"
    "read_instruction (drop pc (func_code f)) = Some (Inr i, encode post)"
proof -
  from assms(2) obtain pre i post where p: "is = pre @ i # post" "pc = length (encode pre)"
    by (auto simp: starts_def)
  then have "drop pc (func_code f) = emit_instruction i @ encode post" by (simp add: assms(1))
  then show thesis using that p read_emit_instruction by metis
qed

lemma find_entry_member: "find_entry es pc = Some e \<Longrightarrow> e \<in> set es"
  by (auto simp: find_entry_def upper_bound_def split: list.splits if_splits)
     (metis list.set_intros(1) set_dropWhileD)

lemma checked_offsets: "OffsetOperand x \<in> set (instr_operands i) \<Longrightarrow> OffsetOperand x \<in> set (checked_operands i)"
  by (cases i) (auto simp: checked_operands_def)

lemma pc_step_starts:
  assumes ok: "function_ok m seen f is" and "pc \<in> starts is" and "pc_step f pc pc'"
  shows "pc' \<in> starts is"
proof -
  have code: "func_code f = encode is" and halt: "halting_op (instr_op (last is))"
    and ins: "\<forall>i\<in>set is. instr_ok m seen f (starts is) i" and hs: "handlers_valid f (starts is)"
    using ok by (auto simp: function_ok_def)
  obtain pre i post where p: "is = pre @ i # post" "pc = length (encode pre)"
    and r: "read_instruction (drop pc (func_code f)) = Some (Inr i, encode post)"
    using starts_read [OF code assms(2)] .
  from assms(3) show ?thesis
  proof cases
    case (fallthrough i' rest)
    with r have "\<not> halting_op (instr_op i)" "rest = encode post" by auto
    with halt p obtain k post' where "post = k # post'" by (cases post) auto
    then have "pc' = length (encode (pre @ [i]))" "is = (pre @ [i]) @ k # post'"
      using fallthrough(1) \<open>rest = _\<close> p by (auto simp: code)
    then show ?thesis unfolding starts_def by blast
  next
    case (jump i' rest x)
    with r have "OffsetOperand x \<in> set (checked_operands i)" using checked_offsets by simp
    with ins p jump(1) show ?thesis by (fastforce simp: instr_ok_def)
  next
    case (exception i' rest next_byte e)
    with find_entry_member hs show ?thesis by (auto simp: handlers_valid_def)
  qed
qed

lemma pc_steps_starts:
  assumes "function_ok m seen f is" and "(pc_step f)\<^sup>*\<^sup>* 0 pc"
  shows "pc \<in> starts is"
  using assms(2)
proof (induction rule: rtranclp_induct)
  case base
  from assms(1) obtain i js where "is = [] @ i # js" by (cases "is") (auto simp: function_ok_def)
  then show ?case by (force simp: starts_def)
next
  case (step pc pc')
  with pc_step_starts [OF assms(1)] show ?case by blast
qed

subsection \<open>Accepted modules\<close>

definition earlier_member :: "bytecode_module \<Rightarrow> nat \<Rightarrow> bytecode_member \<Rightarrow> member_type \<Rightarrow> bool" where
  "earlier_member m k i t \<longleftrightarrow>
     valid_member i \<and> unat (member_id i) < k \<and> unat (member_id i) < length (mod_members m)
     \<and> member_type_of (member_at m i) = t"

text \<open>A member refers to earlier members of the right type only.\<close>

fun member_ok :: "bytecode_module \<Rightarrow> nat \<Rightarrow> module_member \<Rightarrow> bool" where
  "member_ok m k (StringMember s) = valid_string s"
| "member_ok m k (SymbolMember name) = earlier_member m k name StringType"
| "member_ok m k (ImportMember name) = earlier_member m k name StringType"
| "member_ok m k (FunctionMember i) =
     (valid_function_id i \<and> unat (function_index i) < length (mod_functions m)
      \<and> (let name = func_name (mod_functions m ! unat (function_index i))
         in valid_member name \<longrightarrow> earlier_member m k name StringType))"
| "member_ok m k (RecordSchemaMember i) =
     (valid_schema_id i \<and> unat (schema_index i) < length (mod_records m)
      \<and> (\<forall>key\<in>set (mod_records m ! unat (schema_index i)). earlier_member m k key SymbolType))"
| "member_ok m k _ = True"

definition normal_function :: "bytecode_module \<Rightarrow> function_id \<Rightarrow> bool" where
  "normal_function m i \<longleftrightarrow> unat (function_index i) < length (mod_functions m)
     \<and> func_type (mod_functions m ! unat (function_index i)) = NormalFunction"

definition init_ok :: "bytecode_module \<Rightarrow> bool" where
  "init_ok m \<longleftrightarrow>
     (valid_member (mod_init m) \<longrightarrow>
        earlier_member m (length (mod_members m)) (mod_init m) FunctionType
        \<and> (case member_at m (mod_init m) of FunctionMember i \<Rightarrow> normal_function m i | _ \<Rightarrow> False))"

definition export_ok :: "bytecode_module \<Rightarrow> bytecode_member \<times> bytecode_member \<Rightarrow> bool" where
  "export_ok m entry \<longleftrightarrow>
     earlier_member m (length (mod_members m)) (fst entry) SymbolType
     \<and> valid_member (snd entry) \<and> unat (member_id (snd entry)) < length (mod_members m)
     \<and> (case member_at m (snd entry) of
          ImportMember _ \<Rightarrow> False | RecordSchemaMember _ \<Rightarrow> False
        | FunctionMember i \<Rightarrow> normal_function m i | _ \<Rightarrow> True)"

definition functions_ok :: "bytecode_module \<Rightarrow> bool" where
  "functions_ok m \<longleftrightarrow>
     (\<forall>i. FunctionMember i \<in> set (mod_members m) \<longrightarrow>
        unat (function_index i) < length (mod_functions m)
        \<and> (\<exists>is. function_ok m (word_of_nat (length (mod_members m)))
                (mod_functions m ! unat (function_index i)) is))"

definition module_ok :: "bytecode_module \<Rightarrow> bool" where
  "module_ok m \<longleftrightarrow>
     valid_string (mod_name m)
     \<and> (\<forall>k<length (mod_members m). member_ok m k (mod_members m ! k))
     \<and> functions_ok m \<and> init_ok m \<and> (\<forall>entry\<in>set (mod_exports m). export_ok m entry)"

lemma storage_at_Inr: "storage_at xs i = Inr x \<longleftrightarrow> unat i < length xs \<and> x = xs ! unat i"
  by (auto simp: storage_at_def)

lemma reference_ok_nat:
  "k \<le> length (mod_members m) \<Longrightarrow> length (mod_members m) < 2 ^ 32 \<Longrightarrow>
   reference_ok m (word_of_nat k) i \<longleftrightarrow>
     valid_member i \<and> unat (member_id i) < k \<and> unat (member_id i) < length (mod_members m)"
  by (auto simp: reference_ok_def word_less_nat_alt unat_of_nat)

lemma check_reference_type_Inr:
  "k \<le> length (mod_members m) \<Longrightarrow> length (mod_members m) < 2 ^ 32 \<Longrightarrow>
   check_reference_type m (word_of_nat k) i t err = Inr u \<longleftrightarrow> earlier_member m k i t"
  by (auto simp: check_reference_type_def check_reference_Inr reference_ok_nat earlier_member_def)

lemma visit_member_Inr:
  assumes "k \<le> length (mod_members m)" and "length (mod_members m) < 2 ^ 32"
  shows "visit_member m (word_of_nat k) x = Inr () \<longleftrightarrow> member_ok m k x"
  by (cases x)
     (auto simp: check_reference_type_Inr [OF assms] visit_function_member_def visit_record_schema_def
        storage_at_Inr Let_def)

lemma visit_members_Inr:
  assumes "k + length ms = length (mod_members m)" and "length (mod_members m) < 2 ^ 32"
  shows "visit_members m (word_of_nat k) ms = Inr s \<longleftrightarrow>
     s = word_of_nat (length (mod_members m)) \<and> (\<forall>j<length ms. member_ok m (k + j) (ms ! j))"
  using assms(1)
proof (induction ms arbitrary: k)
  case Nil
  then show ?case by auto
next
  case (Cons x ms)
  have "word_of_nat k + 1 = (word_of_nat (Suc k) :: u32)" by simp
  moreover have "visit_member m (word_of_nat k) x = Inr () \<longleftrightarrow> member_ok m k x"
    using Cons.prems assms(2) by (intro visit_member_Inr) simp_all
  ultimately have "visit_members m (word_of_nat k) (x # ms) = Inr s \<longleftrightarrow>
      member_ok m k x \<and> visit_members m (word_of_nat (Suc k)) ms = Inr s"
    by (simp del: of_nat_Suc)
  also have "visit_members m (word_of_nat (Suc k)) ms = Inr s \<longleftrightarrow>
      s = word_of_nat (length (mod_members m)) \<and> (\<forall>j<length ms. member_ok m (Suc k + j) (ms ! j))"
    using Cons by (intro Cons.IH) simp
  finally show ?case
    by (auto simp: All_less_Suc2)
qed

lemma check_normal_function_Inr: "check_normal_function m i err = Inr u \<longleftrightarrow> normal_function m i"
  by (auto simp: check_normal_function_def storage_at_Inr normal_function_def)

lemma verify_functions_Inr:
  "verify_functions m seen ms = Inr () \<longleftrightarrow>
     (\<forall>i. FunctionMember i \<in> set ms \<longrightarrow> unat (function_index i) < length (mod_functions m)
        \<and> (\<exists>is. function_ok m seen (mod_functions m ! unat (function_index i)) is))"
  by (induction m seen ms rule: verify_functions.induct)
     (auto simp: storage_at_Inr verify_function_iff)

lemma verify_init_Inr:
  assumes "length (mod_members m) < 2 ^ 32"
  shows "verify_init m (word_of_nat (length (mod_members m))) = Inr () \<longleftrightarrow> init_ok m"
  by (cases "member_at m (mod_init m)")
     (auto simp: verify_init_def init_ok_def check_reference_Inr reference_ok_nat [OF order.refl assms]
        earlier_member_def check_normal_function_Inr)

lemma verify_export_Inr:
  assumes "length (mod_members m) < 2 ^ 32"
  shows "verify_export m (word_of_nat (length (mod_members m))) entry = Inr () \<longleftrightarrow> export_ok m entry"
  by (cases entry; cases "member_at m (snd entry)")
     (auto simp: verify_export_def export_ok_def check_reference_Inr reference_ok_nat [OF order.refl assms]
        check_reference_type_Inr [OF order.refl assms] check_normal_function_Inr)

lemma verify_module_iff:
  assumes "length (mod_members m) < 2 ^ 32"
  shows "verify_module m = Inr () \<longleftrightarrow> module_ok m"
proof -
  let ?seen = "word_of_nat (length (mod_members m)) :: u32"
  have v: "visit_members m 0 (mod_members m) = Inr s \<longleftrightarrow>
      s = ?seen \<and> (\<forall>k<length (mod_members m). member_ok m k (mod_members m ! k))" for s
    using visit_members_Inr [of 0 "mod_members m" m s] assms by simp
  have "verify_module m = Inr () \<longleftrightarrow>
      valid_string (mod_name m) \<and> (\<exists>s. visit_members m 0 (mod_members m) = Inr s
        \<and> verify_functions m s (mod_members m) = Inr () \<and> verify_init m s = Inr ()
        \<and> (\<forall>entry\<in>set (mod_exports m). verify_export m s entry = Inr ()))"
    by (auto simp: verify_module_def)
  also have "\<dots> \<longleftrightarrow> module_ok m"
    unfolding v module_ok_def functions_ok_def verify_functions_Inr
    using verify_init_Inr [OF assms] verify_export_Inr [OF assms] by auto
  finally show ?thesis .
qed

subsection \<open>Undefined verification\<close>

text \<open>
  The verifier uses the id of a function or of a record schema as an index when it is valid, without
  a test that the storage has such an element.
\<close>

definition function_ids_in_bounds :: "bytecode_module \<Rightarrow> bool" where
  "function_ids_in_bounds m \<longleftrightarrow>
     (\<forall>i. FunctionMember i \<in> set (mod_members m) \<longrightarrow> unat (function_index i) < length (mod_functions m))"

definition ids_in_bounds :: "bytecode_module \<Rightarrow> bool" where
  "ids_in_bounds m \<longleftrightarrow>
     (\<forall>i. FunctionMember i \<in> set (mod_members m) \<longrightarrow> valid_function_id i \<longrightarrow>
        unat (function_index i) < length (mod_functions m)) \<and>
     (\<forall>i. RecordSchemaMember i \<in> set (mod_members m) \<longrightarrow> valid_schema_id i \<longrightarrow>
        unat (schema_index i) < length (mod_records m))"

lemma bind_sum_Inl_iff: "bind_sum x f = Inl e \<longleftrightarrow> x = Inl e \<or> (\<exists>a. x = Inr a \<and> f a = Inl e)"
  by (cases x) auto

lemma check_reported [simp]: "check_that P (Reported err) \<noteq> Inl UndefinedAccess"
  by (simp add: check_that_def)

lemma check_all_defined: "\<forall>c \<in> set cs. c \<noteq> Inl UndefinedAccess \<Longrightarrow> check_all cs \<noteq> Inl UndefinedAccess"
  by (induction cs) (auto simp: bind_sum_Inl_iff)

lemma check_all_map_defined: "(\<And>x. x \<in> set xs \<Longrightarrow> f x \<noteq> Inl UndefinedAccess) \<Longrightarrow> check_all (map f xs) \<noteq> Inl UndefinedAccess"
  by (rule check_all_defined) (metis in_set_conv_nth length_map nth_map)

lemma check_reference_defined [simp]: "check_reference m seen i \<noteq> Inl UndefinedAccess"
  by (simp add: check_reference_def storage_at_def)

lemma check_reference_type_defined [simp]: "check_reference_type m seen i t err \<noteq> Inl UndefinedAccess"
  by (simp add: check_reference_type_def bind_sum_Inl_iff)

lemma checks_defined [simp]:
  "check_local v r \<noteq> Inl UndefinedAccess" "check_param v p \<noteq> Inl UndefinedAccess" "check_target v x \<noteq> Inl UndefinedAccess"
  "check_some_member v i \<noteq> Inl UndefinedAccess" "check_member_type v i t err \<noteq> Inl UndefinedAccess"
  by (simp_all add: check_local_def check_param_def check_target_def check_some_member_def check_member_def
      check_member_type_def bind_sum_Inl_iff)

lemma reference_member: "check_reference m seen i = Inr x \<Longrightarrow> x \<in> set (mod_members m)"
  by (auto simp: check_reference_Inr reference_ok_def member_at_def)

lemma check_closure_template_defined:
  "function_ids_in_bounds (parent_module v) \<Longrightarrow> check_closure_template v i \<noteq> Inl UndefinedAccess"
  by (auto simp: check_closure_template_def bind_sum_Inl_iff storage_at_def function_ids_in_bounds_def
      dest: reference_member split: module_member.splits)

lemma visit_instruction_defined:
  "function_ids_in_bounds (parent_module v) \<Longrightarrow> visit_load_store v i \<noteq> Inl UndefinedAccess"
  by (cases i) (simp_all add: visit_defs check_all_defined check_closure_template_defined del: check_all.simps)

lemma visit_handlers_defined: "visit_handlers v prev hs \<noteq> Inl UndefinedAccess"
  by (induction hs arbitrary: prev)
    (auto simp: bind_sum_Inl_iff visit_handler_def split: option.splits)

lemma read_loop_defined: "read_loop pos bs \<noteq> Inl UndefinedAccess"
proof (induction pos bs rule: read_loop.induct)
  case (1 pos bs)
  obtain r rest where "read_instruction bs = Some (r, rest)"
    using read_instruction_total by blast
  with 1 show ?case
    by (subst read_loop.simps) (cases r; auto simp: bind_sum_Inl_iff)
qed

lemma verify_function_defined:
  assumes "function_ids_in_bounds m"
  shows "verify_function m seen f \<noteq> Inl UndefinedAccess"
proof -
  have read: "read_instructions f \<noteq> Inl UndefinedAccess"
    by (simp add: read_instructions_def read_loop_defined)
  have "check_all (map (\<lambda>e. visit_load_store \<lparr>parent_module = m, seen_member_ids = seen, the_function = f,
      parsed_instructions = insts\<rparr> (snd e)) insts) \<noteq> Inl UndefinedAccess" for insts
    using assms by (intro check_all_map_defined visit_instruction_defined) simp
  then show ?thesis
    using read by (auto simp: verify_function_def Let_def bind_sum_Inl_iff visit_handlers_defined split: if_splits)
qed

lemma visit_member_defined:
  assumes "ids_in_bounds m" "x \<in> set (mod_members m)"
  shows "visit_member m seen x \<noteq> Inl UndefinedAccess"
proof (cases x)
  case (FunctionMember i)
  then show ?thesis
    using assms by (auto simp: visit_function_member_def ids_in_bounds_def storage_at_def)
next
  case (RecordSchemaMember i)
  then show ?thesis
    using assms
    by (auto simp: visit_record_schema_def ids_in_bounds_def storage_at_def intro!: check_all_map_defined)
qed auto

lemma visit_members_defined:
  "ids_in_bounds m \<Longrightarrow> set ms \<subseteq> set (mod_members m) \<Longrightarrow> visit_members m seen ms \<noteq> Inl UndefinedAccess"
  by (induction ms arbitrary: seen) (auto simp: bind_sum_Inl_iff visit_member_defined)

lemma verify_functions_defined:
  "function_ids_in_bounds m \<Longrightarrow> set ms \<subseteq> set (mod_members m) \<Longrightarrow> verify_functions m seen ms \<noteq> Inl UndefinedAccess"
  by (induction m seen ms rule: verify_functions.induct)
    (auto simp: bind_sum_Inl_iff verify_function_defined storage_at_def function_ids_in_bounds_def)

lemma check_normal_function_defined:
  "function_ids_in_bounds m \<Longrightarrow> FunctionMember i \<in> set (mod_members m) \<Longrightarrow>
   check_normal_function m i err \<noteq> Inl UndefinedAccess"
  by (auto simp: check_normal_function_def bind_sum_Inl_iff storage_at_def function_ids_in_bounds_def)

lemma verify_references_defined:
  assumes "function_ids_in_bounds m"
  shows "verify_init m seen \<noteq> Inl UndefinedAccess" "verify_export m seen entry \<noteq> Inl UndefinedAccess"
  using assms
  by (auto simp: verify_init_def verify_export_def bind_sum_Inl_iff check_normal_function_defined
      dest: reference_member split: module_member.splits prod.splits)

lemma verify_module_defined:
  assumes bounds: "ids_in_bounds m" and small: "length (mod_members m) < 2 ^ 32"
  shows "verify_module m \<noteq> Inl UndefinedAccess"
proof
  assume undefined: "verify_module m = Inl UndefinedAccess"
  then obtain seen where seen: "visit_members m 0 (mod_members m) = Inr seen" and
    rest: "check_all
        [verify_functions m seen (mod_members m), verify_init m seen,
         check_all (map (verify_export m seen) (mod_exports m))] = Inl UndefinedAccess"
    using visit_members_defined [OF bounds order.refl]
    by (auto simp: verify_module_def bind_sum_Inl_iff simp del: check_all.simps split: if_splits)
  have "\<forall>j<length (mod_members m). member_ok m j (mod_members m ! j)"
    using visit_members_Inr [of 0 "mod_members m" m seen] small seen by simp
  then have "function_ids_in_bounds m"
    by (metis (no_types, lifting) function_ids_in_bounds_def in_set_conv_nth member_ok.simps(4))
  then have "check_all
        [verify_functions m seen (mod_members m), verify_init m seen,
         check_all (map (verify_export m seen) (mod_exports m))] \<noteq> Inl UndefinedAccess"
    using verify_functions_defined [of m "mod_members m" seen] verify_references_defined [of m seen]
      check_all_map_defined [of "mod_exports m" "verify_export m seen"]
    by (auto simp: bind_sum_Inl_iff)
  then show False
    using rest by blast
qed

subsection \<open>An example\<close>

definition example_code :: "instr list" where
  "example_code =
     [LoadIndex (Register 0) (Register 7) (Register 0), JmpTrue (Register 0) (Offset 0),
      Return (Register 0)]"

definition example_function :: bytecode_function where
  "example_function =
     \<lparr>func_name = MemberId invalid_value, func_type = NormalFunction, func_params = 0, func_locals = 1,
      func_code = encode example_code,
      func_handlers = [\<lparr>handler_from = 0, handler_to = 13, handler_target = 22\<rparr>]\<rparr>"

definition example_module :: bytecode_module where
  "example_module =
     \<lparr>mod_name = InternedString 1, mod_init = MemberId invalid_value,
      mod_exports = [(MemberId 1, MemberId 2)],
      mod_members = [StringMember (InternedString 1), SymbolMember (MemberId 0), FunctionMember (FunctionId 0)],
      mod_functions = [example_function], mod_records = []\<rparr>"

lemma example_starts: "starts example_code = {0, 13, 22}"
  by (simp add: starts_offsets example_code_def length_emit_instruction operand_size_def)

lemma length_example: "length (encode example_code) = 27"
  by (simp add: example_code_def length_emit_instruction operand_size_def)

lemma example_function_ok: "function_ok m seen example_function example_code"
  unfolding function_ok_def
  by (simp add: example_starts length_example example_function_def handlers_valid_def max_locals_def
      word_le_nat_alt word_less_nat_alt)
     (simp add: example_code_def halting_op_def instr_ok_def checked_operands_def instr_extra_def)

lemma example_module_ok: "module_ok example_module"
proof -
  have m: "mod_members example_module ! 0 = StringMember (InternedString 1)"
    "mod_members example_module ! 1 = SymbolMember (MemberId 0)"
    "mod_members example_module ! 2 = FunctionMember (FunctionId 0)" by (simp_all add: example_module_def)
  have "member_ok example_module k (mod_members example_module ! k)"
    if "k < length (mod_members example_module)" for k
  proof -
    have "k = 0 \<or> k = 1 \<or> k = 2" using that by (auto simp: example_module_def)
    then show ?thesis
      by (elim disjE)
         (simp_all add: m, simp_all add: example_module_def earlier_member_def member_at_def
           invalid_value_def example_function_def)
  qed
  moreover have "functions_ok example_module"
    using example_function_ok by (auto simp: functions_ok_def example_module_def)
  moreover have "init_ok example_module" by (simp add: init_ok_def example_module_def)
  moreover have "export_ok example_module (MemberId 1, MemberId 2)"
    by (simp add: export_ok_def earlier_member_def member_at_def example_module_def invalid_value_def
        normal_function_def example_function_def)
  ultimately show ?thesis by (simp add: module_ok_def) (simp add: example_module_def)
qed

subsection \<open>Properties\<close>

text \<open>
  C16: What the verifier accepts in a module. When the ids of the functions and the record schemas
  among the members are in bounds (the verifier uses them as an index without a test), its result is
  defined, and it accepts exactly the modules in which every member refers to earlier members of the
  right type only, every function is accepted, the initializer is a normal function, and every
  export is a symbol with a value of a public type.
\<close>

theorem verify_module_exact:
  assumes "length (mod_members m) < 2 ^ 32" and "ids_in_bounds m"
  shows "verify_module m \<noteq> Inl UndefinedAccess \<and> (verify_module m = Inr () \<longleftrightarrow> module_ok m)"
  using verify_module_defined [OF assms(2,1)] verify_module_iff [OF assms(1)] by blast

theorem verify_module_exact_witness:
  "length (mod_members example_module) < 2 ^ 32 \<and> ids_in_bounds example_module
   \<and> verify_module example_module = Inr ()"
proof -
  have l: "length (mod_members example_module) < 2 ^ 32" "ids_in_bounds example_module"
    by (simp_all add: example_module_def ids_in_bounds_def)
  show ?thesis using verify_module_exact [OF l] example_module_ok l by blast
qed

text \<open>Without the condition the verification is undefined: here a schema id has no schema.\<close>

lemma schema_id_unchecked:
  "verify_module \<lparr>mod_name = InternedString 1, mod_init = MemberId invalid_value, mod_exports = [],
     mod_members = [RecordSchemaMember (RecordSchemaId 5)], mod_functions = [], mod_records = []\<rparr>
   = Inl UndefinedAccess"
  by (simp add: verify_module_def visit_record_schema_def storage_at_def invalid_value_def)

text \<open>
  C17: What the verifier accepts in a function of a module whose function ids are in bounds: its
  result is defined, and it accepts exactly the code that decodes completely into instructions
  whose parameters, members and registers are in range and of the right type, whose jumps and
  exception handlers refer to starts of instructions, and whose last instruction halts. The
  registers that hold the index of \<open>LoadIndex\<close> and \<open>StoreIndex\<close> are not among the operands that it
  checks: code with any register there is accepted.
\<close>

theorem verify_function_exact:
  assumes "function_ids_in_bounds m"
  shows "verify_function m seen f \<noteq> Inl UndefinedAccess
    \<and> (verify_function m seen f = Inr () \<longleftrightarrow> (\<exists>is. function_ok m seen f is))"
  using verify_function_defined [OF assms] verify_function_iff by blast

theorem verify_function_exact_witness: "verify_function example_module 3 example_function = Inr ()"
proof -
  have "function_ids_in_bounds example_module"
    by (simp add: function_ids_in_bounds_def example_module_def)
  from verify_function_exact [OF this] show ?thesis
    using example_function_ok by blast
qed

text \<open>
  C15: Verified code cannot go wrong in its control flow. From the start of an accepted
  function, whatever jumps are taken and exceptions raised, the machine always stands at a
  position where a complete instruction decodes, with its parameters and module members in range,
  and with its registers in range except for the index register of \<open>LoadIndex\<close> and \<open>StoreIndex\<close>,
  which the verifier does not check. It never runs off the end of the code.
\<close>

theorem verified_code_safe:
  assumes "verify_function m seen f = Inr ()" and "(pc_step f)\<^sup>*\<^sup>* 0 pc"
  shows "\<exists>i rest. read_instruction (drop pc (func_code f)) = Some (Inr i, rest)
    \<and> (\<forall>r. RegisterOperand r \<in> set (instr_operands i) \<longrightarrow>
         register_id r < func_locals f \<or> unchecked_index i = Some r)
    \<and> (\<forall>p. ParamOperand p \<in> set (instr_operands i) \<longrightarrow> param_id p < func_params f)
    \<and> (\<forall>x. MemberOperand x \<in> set (instr_operands i) \<longrightarrow> unat (member_id x) < length (mod_members m))"
proof -
  obtain "is" where ok: "function_ok m seen f is" using assms(1) verify_function_iff by blast
  have "func_code f = encode is" using ok by (simp add: function_ok_def)
  from starts_read [OF this pc_steps_starts [OF ok assms(2)]] obtain i rest where
    i: "i \<in> set is" "read_instruction (drop pc (func_code f)) = Some (Inr i, rest)"
    by (metis in_set_conv_decomp)
  have "instr_ok m seen f (starts is) i" using ok i(1) by (simp add: function_ok_def)
  then have all: "operand_ok m seen f (starts is) x" if "x \<in> set (checked_operands i)" for x
    using that by (simp add: instr_ok_def)
  have "param_id p < func_params f" if "ParamOperand p \<in> set (instr_operands i)" for p
    using all checked_or_index [OF that] by fastforce
  moreover have "unat (member_id x) < length (mod_members m)" if "MemberOperand x \<in> set (instr_operands i)" for x
    using all checked_or_index [OF that] by (fastforce simp: reference_ok_def)
  moreover have "register_id r < func_locals f \<or> unchecked_index i = Some r"
    if "RegisterOperand r \<in> set (instr_operands i)" for r
    using all checked_or_index [OF that] by fastforce
  ultimately show ?thesis using i(2) by blast
qed

theorem verified_code_safe_witness:
  "verify_function example_module 3 example_function = Inr () \<and> (pc_step example_function)\<^sup>*\<^sup>* 0 22
   \<and> (\<exists>i rest. read_instruction (drop 22 (func_code example_function)) = Some (Inr i, rest))"
proof -
  have v: "verify_function example_module 3 example_function = Inr ()"
    using verify_function_iff example_function_ok by blast
  have "read_instruction (drop 0 (func_code example_function))
      = Some (Inr (LoadIndex (Register 0) (Register 7) (Register 0)), encode (tl example_code))"
    by (simp add: example_function_def example_code_def read_emit_instruction)
  then have "pc_step example_function 0 (unat (handler_target \<lparr>handler_from = 0, handler_to = 13, handler_target = 22\<rparr>))"
    by (rule pc_step.exception [where next_byte = 1])
       (simp_all add: example_function_def example_code_def length_emit_instruction operand_size_def
         find_entry_def upper_bound_def)
  then have s: "(pc_step example_function)\<^sup>*\<^sup>* 0 22" by simp
  from verified_code_safe [OF v s] v s show ?thesis by blast
qed

text \<open>
  The verifier does not check the index register of \<open>LoadIndex\<close>: it accepts a module
  with a function of one local whose code reads register 7.
\<close>

lemma index_register_unchecked:
  "verify_module example_module = Inr ()
   \<and> mod_functions example_module = [example_function] \<and> func_locals example_function = 1
   \<and> (\<exists>rest. read_instruction (func_code example_function)
        = Some (Inr (LoadIndex (Register 0) (Register 7) (Register 0)), rest))"
proof -
  have "verify_module example_module = Inr ()"
    using verify_module_iff [of example_module] example_module_ok by (simp add: example_module_def)
  moreover have "mod_functions example_module = [example_function]" "func_locals example_function = 1"
    by (simp_all add: example_module_def example_function_def)
  moreover have "read_instruction (func_code example_function)
        = Some (Inr (LoadIndex (Register 0) (Register 7) (Register 0)), encode (tl example_code))"
    by (simp add: example_function_def example_code_def read_emit_instruction)
  ultimately show ?thesis by blast
qed

end
