(* ===== verification/Toolchain.thy ===== *)
theory Toolchain
  imports Verify
begin

text \<open>
  The assembler and the verifier together: what the code generator writes with the
  assembler is accepted by the verifier that the loader runs.
\<close>

subsection \<open>The positions in the handler table\<close>

text \<open>The positions between the commands of a client.\<close>

definition boundary :: "asm_command list \<Rightarrow> u32 \<Rightarrow> bool" where
  "boundary cs x \<longleftrightarrow> (\<exists>pre post. cs = pre @ post \<and> unat x = commands_size pre)"

definition positions_ok :: "asm_command list \<Rightarrow> bytecode_writer \<Rightarrow> bool" where
  "positions_ok cs w \<longleftrightarrow>
     (\<forall>e\<in>set (handlers w). boundary cs (entry_from e) \<and> boundary cs (entry_to e))
     \<and> (valid_label (handler w) \<longrightarrow> boundary cs (handler_start w))"

lemma boundary_append: "boundary cs x \<Longrightarrow> boundary (cs @ ds) x"
  unfolding boundary_def by (metis append.assoc)

lemma boundary_end: "unat x = commands_size cs \<Longrightarrow> boundary cs x"
  unfolding boundary_def by (metis append_Nil2)

lemma positions_append: "positions_ok cs w \<Longrightarrow> positions_ok (cs @ ds) w"
  using boundary_append by (auto simp: positions_ok_def)

lemma finish_handler_positions:
  assumes "positions_ok cs w" and "length (code w) = commands_size cs" and "finish_handler w = Inr w1"
  shows "positions_ok cs w1"
  using assms boundary_end [of _ cs]
  by (auto simp: finish_handler_def writer_pos_Inr Let_def positions_ok_def split: if_splits)

lemma start_handler_positions:
  assumes "positions_ok cs w" and "length (code w) = commands_size cs" and "start_handler h w = Inr w2"
    and "handlers_ok w"
  shows "positions_ok cs w2"
proof (cases "h = handler w")
  case True
  then show ?thesis using assms by (simp add: start_handler_def)
next
  case False
  then obtain w1 pos where w1: "finish_handler w = Inr w1" "unat pos = length (code w1)"
    "w2 = w1\<lparr>handler := h, handler_start := pos\<rparr>"
    using assms(3) by (auto simp: start_handler_def writer_pos_Inr)
  moreover have "code w1 = code w" using finish_handler_ok [OF assms(4) w1(1)] by (simp add: keeps_code_def)
  ultimately show ?thesis
    using finish_handler_positions [OF assms(1,2) w1(1)] boundary_end [of pos cs] assms(2)
    by (simp add: positions_ok_def)
qed

lemma run_command_positions:
  assumes "positions_ok cs w" and "writer_inv cs w" and "run_command c w = Inr w'"
  shows "positions_ok (cs @ [c]) w'"
proof (cases "emitting c")
  case True
  have "handlers w' = handlers w" "handler w' = handler w" "handler_start w' = handler_start w"
    using run_command_appends [OF True assms(3)] by (simp_all add: appends_def)
  then show ?thesis using positions_append [OF assms(1), of "[c]"] by (simp add: positions_ok_def)
next
  case False
  then consider l where "c = DefineLabel l" | l where "c = StartHandler l" by (cases c) auto
  then show ?thesis
  proof cases
    case 1
    then show ?thesis using positions_append [OF assms(1), of "[c]"] assms(3)
      by (auto simp: define_label_def positions_ok_def)
  next
    case (2 l)
    have "handlers_ok w" using assms(2) by (simp add: writer_inv_def)
    with 2 show ?thesis
      using start_handler_positions [OF assms(1) writer_inv_facts(5) [OF assms(2)]] assms(3)
      by (auto intro: positions_append)
  qed
qed

lemma run_commands_positions: "run_commands cs new_writer = Inr w \<Longrightarrow> positions_ok cs w"
proof (induction cs arbitrary: w rule: rev_induct)
  case Nil
  then show ?case by (auto simp: positions_ok_def new_writer_def)
next
  case (snoc c cs)
  then obtain w0 where "run_commands cs new_writer = Inr w0" "run_command c w0 = Inr w"
    by (auto simp: run_commands_append)
  with snoc.IH show ?case using run_command_positions run_commands_inv by blast
qed

text \<open>Merging entries invents no positions.\<close>

lemma merge_handlers_positions:
  "x \<in> set (merge_handlers e es) \<Longrightarrow>
   handler_from x \<in> handler_from ` set (e # es) \<and> handler_to x \<in> handler_to ` set (e # es)
   \<and> handler_target x \<in> handler_target ` set (e # es)"
proof (induction e es rule: merge_handlers.induct)
  case (2 out entry rest)
  show ?case
  proof (cases "handler_from entry = handler_to out \<and> handler_target entry = handler_target out")
    case True
    with 2(1,3) show ?thesis by auto
  next
    case False
    then have "merge_handlers out (entry # rest) = out # merge_handlers entry rest"
      unfolding merge_handlers.simps by (rule if_not_P)
    with 2(2,3) False show ?thesis by auto
  qed
qed simp

lemma simplify_handlers_positions:
  "x \<in> set (simplify_handlers es) \<Longrightarrow>
   handler_from x \<in> handler_from ` set es \<and> handler_to x \<in> handler_to ` set es
   \<and> handler_target x \<in> handler_target ` set es"
  by (cases es) (use merge_handlers_positions in auto)

subsection \<open>Conditions on the client\<close>

text \<open>An instruction follows the (last) definition of the label.\<close>

definition label_followed :: "asm_command list \<Rightarrow> bytecode_label \<Rightarrow> bool" where
  "label_followed cs l \<longleftrightarrow>
     (\<exists>pre post. cs = pre @ DefineLabel l # post \<and> DefineLabel l \<notin> set post
        \<and> resolve_commands (\<lambda>_. 0) post \<noteq> [])"

fun command_ok :: "bytecode_module \<Rightarrow> u32 \<Rightarrow> bytecode_function \<Rightarrow> asm_command \<Rightarrow> bool" where
  "command_ok m seen f (Emit i) = instr_ok m seen f {} i"
| "command_ok m seen f (EmitJmpTrue r l) = (register_id r < func_locals f)"
| "command_ok m seen f (EmitJmpFalse r l) = (register_id r < func_locals f)"
| "command_ok m seen f (EmitJmpNull r l) = (register_id r < func_locals f)"
| "command_ok m seen f (EmitJmpNotNull r l) = (register_id r < func_locals f)"
| "command_ok m seen f _ = True"

text \<open>The labels that the program refers to: by jumps, and as handlers.\<close>

definition used_labels :: "asm_command list \<Rightarrow> bytecode_label set" where
  "used_labels cs = (\<Union>c\<in>set cs. set (jump_labels c)) \<union> {l. valid_label l \<and> StartHandler l \<in> set cs}"

definition halts_at_end :: "asm_command list \<Rightarrow> bool" where
  "halts_at_end cs \<longleftrightarrow>
     resolve_commands (\<lambda>_. 0) cs \<noteq> [] \<and> halting_op (instr_op (last (resolve_commands (\<lambda>_. 0) cs)))"

definition client_ok :: "bytecode_module \<Rightarrow> u32 \<Rightarrow> bytecode_function \<Rightarrow> asm_command list \<Rightarrow> bool" where
  "client_ok m seen f cs \<longleftrightarrow>
     (\<forall>c\<in>set cs. command_ok m seen f c) \<and> (\<forall>l\<in>used_labels cs. label_followed cs l) \<and> halts_at_end cs"

subsection \<open>The assembled function is accepted\<close>

lemma resolve_commands_append:
  "resolve_commands L (cs @ ds) = resolve_commands L cs @ resolve_commands L ds"
  by (simp add: resolve_commands_def)

lemma resolve_command_op: "map instr_op (resolve_command L c) = map instr_op (resolve_command L' c)"
  by (cases c) simp_all

lemma resolve_commands_op: "map instr_op (resolve_commands L cs) = map instr_op (resolve_commands L' cs)"
  by (induction cs) (simp_all add: resolve_commands_def resolve_command_op [of L _ L'])

lemma resolve_commands_Nil: "resolve_commands L cs = [] \<longleftrightarrow> resolve_commands L' cs = []"
  using resolve_commands_op [of L cs L'] by (metis list.map_disc_iff)

lemma label_followed_start:
  assumes "assemble cs = Inr w" and "label_followed cs l"
  shows "unat (label_offset (label_defs w) l) \<in> starts (resolve_commands (label_offset (label_defs w)) cs)"
proof -
  let ?L = "label_offset (label_defs w)"
  obtain w0 where inv: "writer_inv cs w0" "label_defs w = label_defs w0"
    using assemble_facts [OF assms(1)] by metis
  obtain pre post where cs: "cs = pre @ DefineLabel l # post" "DefineLabel l \<notin> set post"
    and post: "resolve_commands ?L post \<noteq> []"
    using assms(2) resolve_commands_Nil unfolding label_followed_def by blast
  have "label_positions cs (label_defs w)" using inv by (simp add: writer_inv_def)
  with cs obtain d where "label_defs w l = Some d" "unat d = commands_size pre"
    unfolding label_positions_def by blast
  then have "unat (?L l) = length (encode (resolve_commands ?L pre))"
    using commands_size_pieces [of pre ?L] by (simp add: encode_commands label_offset_eq)
  moreover have "resolve_commands ?L cs = resolve_commands ?L pre @ resolve_commands ?L post"
    by (simp add: cs(1) resolve_commands_def)
  ultimately show ?thesis using post unfolding starts_def by (cases "resolve_commands ?L post") auto
qed

lemma boundary_start:
  assumes "boundary cs x" and "unat x < commands_size cs"
  shows "unat x \<in> starts (resolve_commands L cs)"
proof -
  obtain pre post where p: "cs = pre @ post" "unat x = commands_size pre"
    using assms(1) by (auto simp: boundary_def)
  then have len: "unat x = length (encode (resolve_commands L pre))"
    using commands_size_pieces [of pre L] by (simp add: encode_commands)
  have "resolve_commands L post \<noteq> []"
  proof
    assume "resolve_commands L post = []"
    then have "commands_size post = 0"
      using commands_size_pieces [of post L] encode_commands [of L post] by simp
    with assms(2) p show False by simp
  qed
  then show ?thesis using len unfolding starts_def p(1) resolve_commands_append
    by (cases "resolve_commands L post") auto
qed

lemma command_instr_ok:
  assumes "command_ok m seen f c" and "i \<in> set (resolve_command L c)"
    and "\<And>l. l \<in> set (jump_labels c) \<Longrightarrow> unat (L l) \<in> ss"
  shows "instr_ok m seen f ss i"
proof (cases c)
  case (Emit j)
  have "operand_ok m seen f {} x \<Longrightarrow> operand_ok m seen f ss x" for x by (cases x) auto
  with Emit assms show ?thesis by (auto simp: instr_ok_def)
qed (use assms in \<open>auto simp: instr_ok_def checked_operands_def instr_extra_def\<close>)

lemma assembled_table:
  assumes "assemble cs = Inr w"
  obtains es where
    "complete_handlers w = simplify_handlers (map (resolve_entry (label_offset (label_defs w))) es)"
    "ordered_handlers (map (resolve_entry (label_offset (label_defs w))) es)"
    "\<And>e. e \<in> set es \<Longrightarrow> boundary cs (entry_from e) \<and> boundary cs (entry_to e)
       \<and> unat (entry_to e) \<le> commands_size cs \<and> entry_target e \<in> used_labels cs"
proof -
  let ?L = "label_offset (label_defs w)"
  from assms obtain w0 where w0: "run_commands cs new_writer = Inr w0" "finish w0 = Inr w"
    by (auto simp: assemble_def)
  note inv = run_commands_inv [OF w0(1)]
  note len = writer_inv_facts(5) [OF inv]
  have ok: "handlers_ok w0" using inv by (simp add: writer_inv_def)
  from w0(2) obtain w1 where w1: "finish_handler w0 = Inr w1" by (auto simp: finish_def)
  note fin = finish_handler_ok [OF ok w1]
  have defs: "label_defs w = label_defs w0"
    using finish_eq [OF inv w1] w0(2) fin by (auto simp: keeps_code_def split: if_splits)
  have "complete_handlers w = simplify_handlers (map (resolve_entry ?L) (handlers w1))"
    using finish_eq [OF inv w1] w0(2) unfolding defs by (auto split: if_splits)
  moreover have "ordered_handlers (map (resolve_entry ?L) (handlers w1))"
    using fin ordered_resolve [of ?L "handlers w1" "\<lambda>_. 0"] by (simp add: handlers_ok_def)
  moreover have "boundary cs (entry_from e) \<and> boundary cs (entry_to e)
      \<and> unat (entry_to e) \<le> commands_size cs \<and> entry_target e \<in> used_labels cs"
    if e: "e \<in> set (handlers w1)" for e
  proof -
    have p: "positions_ok cs w1" using finish_handler_positions [OF run_commands_positions [OF w0(1)] len w1] .
    have code: "code w1 = code w0" using fin by (simp add: keeps_code_def)
    have "handlers_ok w1" using fin by blast
    from targets_in_force [OF this] e obtain pc where l: "valid_label (entry_target e)"
      "unat pc < commands_size cs" "label_in (handlers w1) pc = entry_target e"
      unfolding code len by blast
    then have "handler_at invalid_label cs (unat pc) = entry_target e"
      using fin inv len by (simp add: writer_inv_def)
    with handler_at_started [of invalid_label cs "unat pc"] l(1) have "StartHandler (entry_target e) \<in> set cs"
      by auto
    then show ?thesis
      using p e l(1) fin code len by (auto simp: positions_ok_def handlers_ok_def used_labels_def)
  qed
  ultimately show thesis by (rule that)
qed

lemma assembled_handlers_valid:
  assumes "assemble cs = Inr w" and followed: "\<forall>l\<in>used_labels cs. label_followed cs l"
    and f: "func_code f = code w" "func_handlers f = complete_handlers w"
  shows "handlers_valid f (starts (resolve_commands (label_offset (label_defs w)) cs))"
proof -
  let ?L = "label_offset (label_defs w)"
  let ?ss = "starts (resolve_commands ?L cs)"
  obtain es where t: "complete_handlers w = simplify_handlers (map (resolve_entry ?L) es)"
    and o: "ordered_handlers (map (resolve_entry ?L) es)"
    and es: "\<And>e. e \<in> set es \<Longrightarrow> boundary cs (entry_from e) \<and> boundary cs (entry_to e)
       \<and> unat (entry_to e) \<le> commands_size cs \<and> entry_target e \<in> used_labels cs"
    using assembled_table [OF assms(1)] by metis
  obtain w0 where "code w = encode (resolve_commands ?L cs)"
    using assemble_facts [OF assms(1)]
    by (metis (no_types, lifting) bytecode_writer.select_convs(1) bytecode_writer.surjective
        bytecode_writer.update_convs(1) bytecode_writer.update_convs(2))
  then have size: "length (func_code f) = commands_size cs"
    using commands_size_pieces [of cs ?L] by (simp add: f(1) encode_commands)
  have entry: "unat (entry_from e) \<in> ?ss \<and> unat (entry_to e) \<in> insert (length (func_code f)) ?ss
      \<and> unat (?L (entry_target e)) \<in> ?ss" if "e \<in> set es" for e
  proof -
    have "entry_from e < entry_to e"
      using o that by (induction es) (auto simp: ordered_handlers_Cons)
    with es [OF that] have "unat (entry_from e) < commands_size cs"
      by (simp add: word_less_nat_alt)
    moreover have "unat (entry_to e) < commands_size cs \<or> unat (entry_to e) = commands_size cs"
      using es [OF that] by auto
    ultimately show ?thesis
      using es [OF that] boundary_start [of cs _ ?L] label_followed_start [OF assms(1)] followed size by auto
  qed
  have "unat (handler_from h) \<in> ?ss \<and> unat (handler_to h) \<in> insert (length (func_code f)) ?ss
      \<and> unat (handler_target h) \<in> ?ss" if "h \<in> set (complete_handlers w)" for h
    using simplify_handlers_positions [OF that [unfolded t]] entry by fastforce
  moreover have "ordered_handlers (complete_handlers w)"
    unfolding t using simplify_handlers_correct [OF o] by blast
  ultimately show ?thesis by (simp add: handlers_valid_def f(2))
qed

lemma assembled_function_ok:
  assumes "assemble cs = Inr w" and "client_ok m seen f cs"
    and f: "func_code f = code w" "func_handlers f = complete_handlers w"
    and size: "func_locals f \<le> max_locals" "length (code w) < 2 ^ 32 - 1"
  shows "function_ok m seen f (resolve_commands (label_offset (label_defs w)) cs)"
proof -
  let ?L = "label_offset (label_defs w)"
  let ?is = "resolve_commands ?L cs"
  have client: "\<forall>c\<in>set cs. command_ok m seen f c" "\<forall>l\<in>used_labels cs. label_followed cs l" "halts_at_end cs"
    using assms(2) by (auto simp: client_ok_def)
  have code: "code w = encode ?is"
    using assemble_facts [OF assms(1)]
    by (metis (no_types, lifting) bytecode_writer.select_convs(1) bytecode_writer.surjective
        bytecode_writer.update_convs(1) bytecode_writer.update_convs(2))
  have "instr_ok m seen f (starts ?is) i" if "i \<in> set ?is" for i
  proof -
    from that obtain c where c: "c \<in> set cs" "i \<in> set (resolve_command ?L c)"
      by (auto simp: resolve_commands_def)
    show ?thesis
    proof (rule command_instr_ok [OF _ c(2)])
      show "command_ok m seen f c" using client(1) c(1) by blast
      show "unat (?L l) \<in> starts ?is" if "l \<in> set (jump_labels c)" for l
        using label_followed_start [OF assms(1)] client(2) that c(1) by (auto simp: used_labels_def)
    qed
  qed
  moreover have "?is \<noteq> []" "halting_op (instr_op (last ?is))"
  proof -
    have "resolve_commands (\<lambda>_. 0) cs \<noteq> []" using client(3) by (simp add: halts_at_end_def)
    moreover from this show ne: "?is \<noteq> []" using resolve_commands_Nil by blast
    ultimately have "instr_op (last ?is) = instr_op (last (resolve_commands (\<lambda>_. 0) cs))"
      using resolve_commands_op [of ?L cs "\<lambda>_. 0"] by (metis last_map)
    then show "halting_op (instr_op (last ?is))" using client(3) by (simp add: halts_at_end_def)
  qed
  ultimately show ?thesis
    using size code assembled_handlers_valid [OF assms(1) client(2) f] f by (simp add: function_ok_def)
qed

subsection \<open>Properties\<close>

text \<open>
  C18: the verifier accepts what the assembler produces. If the client's instructions have
  operands in range, every label that is used is defined before an instruction, and the
  program ends with a halting instruction, then the function with the assembled code and
  handler table passes verification.
\<close>

theorem assembled_code_verifies:
  assumes "assemble cs = Inr w" and "client_ok m seen f cs"
    and "func_code f = code w" and "func_handlers f = complete_handlers w"
    and "func_locals f \<le> max_locals" and "length (code w) < 2 ^ 32 - 1"
  shows "verify_function m seen f = Inr ()"
  using assembled_function_ok [OF assms] verify_function_iff by blast

definition assembled_function :: bytecode_function where
  "assembled_function =
     \<lparr>func_name = MemberId invalid_value, func_type = NormalFunction, func_params = 0, func_locals = 3,
      func_code = code example_writer, func_handlers = complete_handlers example_writer\<rparr>"

definition assembled_module :: bytecode_module where
  "assembled_module =
     \<lparr>mod_name = InternedString 1, mod_init = MemberId invalid_value, mod_exports = [],
      mod_members = replicate 6 (IntegerMember 1), mod_functions = [], mod_records = []\<rparr>"

lemma label_followed_I:
  "cs = pre @ DefineLabel l # post \<Longrightarrow> DefineLabel l \<notin> set post \<Longrightarrow> resolve_commands (\<lambda>_. 0) post \<noteq> []
   \<Longrightarrow> label_followed cs l"
  by (auto simp: label_followed_def)

lemma example_client_ok: "client_ok assembled_module 6 assembled_function example_commands"
proof -
  have "label_followed example_commands (Label 0)"
    by (rule label_followed_I [where pre = "[]"]) (auto simp: example_commands_def resolve_commands_def)
  moreover have "label_followed example_commands (Label 1)"
    by (rule label_followed_I [where pre = "take 6 example_commands"
          and post = "drop 7 example_commands"])
       (auto simp: example_commands_def resolve_commands_def)
  moreover have "label_followed example_commands (Label 2)"
    by (rule label_followed_I [where pre = "take 8 example_commands"
          and post = "drop 9 example_commands"])
       (auto simp: example_commands_def resolve_commands_def)
  moreover have "used_labels example_commands = {Label 0, Label 1, Label 2}"
    by (auto simp: used_labels_def example_commands_def invalid_label_def invalid_value_def)
  moreover have "\<forall>c\<in>set example_commands. command_ok assembled_module 6 assembled_function c"
    by (simp add: example_commands_def instr_ok_def checked_operands_def instr_extra_def assembled_function_def
        assembled_module_def reference_ok_def invalid_value_def)
  moreover have "halts_at_end example_commands"
    by (simp add: halts_at_end_def example_commands_def resolve_commands_def halting_op_def)
  ultimately show ?thesis by (simp add: client_ok_def)
qed

theorem assembled_code_verifies_witness:
  "assemble example_commands = Inr example_writer
   \<and> func_code assembled_function = code example_writer
   \<and> verify_function assembled_module 6 assembled_function = Inr ()"
proof -
  have "length (code example_writer) = 29"
    using assemble_facts [OF example_assembles] commands_size_pieces [of example_commands] example_size
    by (metis (no_types, lifting) bytecode_writer.simps(1) bytecode_writer.update_convs(1)
        bytecode_writer.update_convs(2) bytecode_writer.surjective encode_commands)
  then have size: "length (code example_writer) < 2 ^ 32 - 1" by simp
  have "func_code assembled_function = code example_writer"
    "func_handlers assembled_function = complete_handlers example_writer"
    "func_locals assembled_function \<le> max_locals"
    by (simp_all add: assembled_function_def max_locals_def word_le_nat_alt)
  with assembled_code_verifies [OF example_assembles example_client_ok _ _ _ size] example_assembles
  show ?thesis by blast
qed

end
