(* ===== verification/StringTable.thy ===== *)
theory StringTable
  imports Verify
begin

text \<open>
  The string table of the compiler (src/common/text/string_table.hpp and string_table.cpp):
  every distinct string is stored once and is represented by a 32-bit index. A string is its
  list of bytes. The two hash maps of the source are maps here, the memory of the strings is
  not modelled; an allocation fails only when its size computation overflows.
\<close>

record string_table =
  strings_by_index :: "u32 \<rightharpoonup> bytes"
  strings_by_content :: "bytes \<rightharpoonup> u32"
  next_index :: u32
  total_bytes :: size_t

datatype string_error = TooManyStrings | AllocationOverflow | InvalidInternedString

definition new_string_table :: string_table where
  "new_string_table =
     \<lparr>strings_by_index = Map.empty, strings_by_content = Map.empty, next_index = 1, total_bytes = 0\<rparr>"

text \<open>The header of a stored string is its size.\<close>

definition string_header :: nat where
  "string_header = 8"

definition intern_string :: "bytes \<Rightarrow> string_table \<Rightarrow> string_error + (interned_string \<times> string_table)" where
  "intern_string str t =
     (case strings_by_content t str of
        Some index \<Rightarrow> Inr (InternedString index, t)
      | None \<Rightarrow>
          if next_index t = 0 then Inl TooManyStrings
          else if 2 ^ 64 \<le> string_header + length str then Inl AllocationOverflow
          else let index = next_index t
               in Inr (InternedString index,
                    \<lparr>strings_by_index = (strings_by_index t)(index \<mapsto> str),
                     strings_by_content = (strings_by_content t)(str \<mapsto> index),
                     next_index = index + 1,
                     total_bytes = total_bytes t + word_of_nat (length str)\<rparr>))"

definition find_string :: "bytes \<Rightarrow> string_table \<Rightarrow> interned_string option" where
  "find_string str t = map_option InternedString (strings_by_content t str)"

text \<open>The index of a string of another table has no entry; the source asserts that it has.\<close>

definition string_value :: "interned_string \<Rightarrow> string_table \<Rightarrow> string_error + bytes" where
  "string_value str t =
     (if \<not> valid_string str then Inl InvalidInternedString
      else case strings_by_index t (string_index str) of
             None \<Rightarrow> Inl InvalidInternedString
           | Some s \<Rightarrow> Inr s)"

definition string_value_or :: "interned_string \<Rightarrow> bytes \<Rightarrow> string_table \<Rightarrow> string_error + bytes" where
  "string_value_or str def t = (if valid_string str then string_value str t else Inr def)"

fun intern_strings :: "bytes list \<Rightarrow> string_table \<Rightarrow> string_error + (interned_string list \<times> string_table)" where
  "intern_strings [] t = Inr ([], t)"
| "intern_strings (s # ss) t =
     bind_sum (intern_string s t) (\<lambda>(i, t).
     bind_sum (intern_strings ss t) (\<lambda>(is, t). Inr (i # is, t)))"

subsection \<open>Invariant\<close>

text \<open>
  The maps are inverse to each other and the indices in use are those from 1 up to the next
  one; after the last index the next one is 0 and insertion of a new string fails.
\<close>

definition wf_strings :: "string_table \<Rightarrow> bool" where
  "wf_strings t \<longleftrightarrow>
     (\<forall>i s. strings_by_index t i = Some s \<longleftrightarrow> strings_by_content t s = Some i)
     \<and> (\<forall>i. strings_by_index t i \<noteq> None \<longleftrightarrow> i \<noteq> 0 \<and> i \<le> next_index t - 1)"

lemma wf_new_string_table: "wf_strings new_string_table"
  by (simp add: wf_strings_def new_string_table_def word_le_nat_alt unat_eq_0)

lemma word_le_minus_1_iff:
  "x \<noteq> 0 \<Longrightarrow> y \<noteq> 0 \<Longrightarrow> (y :: u32) \<le> x \<longleftrightarrow> y \<le> x - 1 \<or> y = x"
proof -
  assume "x \<noteq> 0" "y \<noteq> 0"
  then have "unat (x - 1) = unat x - 1" by (intro unat_minus_one) simp
  moreover have "0 < unat x" using \<open>x \<noteq> 0\<close> by (simp add: unat_gt_0)
  ultimately show ?thesis by (auto simp: word_le_nat_alt word_unat_eq_iff)
qed

lemma wf_next_free: "wf_strings t \<Longrightarrow> next_index t \<noteq> 0 \<Longrightarrow> strings_by_index t (next_index t) = None"
proof -
  assume wf: "wf_strings t" and n: "next_index t \<noteq> 0"
  have "unat (next_index t - 1) = unat (next_index t) - 1" using n by (intro unat_minus_one) simp
  moreover have "0 < unat (next_index t)" using n by (simp add: unat_gt_0)
  ultimately have "\<not> next_index t \<le> next_index t - 1" by (simp add: word_le_nat_alt)
  with wf show ?thesis unfolding wf_strings_def by blast
qed

lemma intern_string_wf:
  assumes wf: "wf_strings t" and i: "intern_string s t = Inr (i, t')"
  shows "wf_strings t'"
proof (cases "strings_by_content t s")
  case (Some j)
  with i wf show ?thesis by (simp add: intern_string_def)
next
  case None
  then have n: "next_index t \<noteq> 0" and t': "strings_by_index t' = (strings_by_index t)(next_index t \<mapsto> s)"
    "strings_by_content t' = (strings_by_content t)(s \<mapsto> next_index t)" "next_index t' = next_index t + 1"
    using i by (auto simp: intern_string_def Let_def split: if_splits)
  note free = wf_next_free [OF wf n]
  have "strings_by_index t' i = Some r \<longleftrightarrow> strings_by_content t' r = Some i" for i r
  proof -
    have "strings_by_index t i = Some r \<longleftrightarrow> strings_by_content t r = Some i" for i r
      using wf by (simp add: wf_strings_def)
    with None free show ?thesis by (auto simp: t') (metis option.distinct(1))+
  qed
  moreover have "strings_by_index t' i \<noteq> None \<longleftrightarrow> i \<noteq> 0 \<and> i \<le> next_index t' - 1" for i
  proof -
    have "strings_by_index t i \<noteq> None \<longleftrightarrow> i \<noteq> 0 \<and> i \<le> next_index t - 1"
      using wf unfolding wf_strings_def by blast
    moreover have "i \<le> next_index t \<longleftrightarrow> i \<le> next_index t - 1 \<or> i = next_index t" if "i \<noteq> 0"
      using word_le_minus_1_iff [OF n that] .
    ultimately show ?thesis using n by (cases "i = 0"; cases "i = next_index t") (simp_all add: t')
  qed
  ultimately show ?thesis unfolding wf_strings_def by blast
qed

lemma intern_string_value:
  assumes wf: "wf_strings t" and i: "intern_string s t = Inr (i, t')"
  shows "valid_string i \<and> string_value i t' = Inr s \<and> find_string s t' = Some i"
proof (cases "strings_by_content t s")
  case (Some j)
  then have "strings_by_index t j = Some s" "j \<noteq> 0" using wf by (auto simp: wf_strings_def)
  with Some i show ?thesis by (auto simp: intern_string_def string_value_def find_string_def)
next
  case None
  with i show ?thesis
    by (auto simp: intern_string_def string_value_def find_string_def Let_def split: if_splits)
qed

lemma intern_string_keeps:
  assumes wf: "wf_strings t" and i: "intern_string s t = Inr (i, t')" and r: "string_value j t = Inr r"
  shows "string_value j t' = Inr r"
proof (cases "strings_by_content t s")
  case (Some k)
  with i r show ?thesis by (simp add: intern_string_def)
next
  case None
  then have n: "next_index t \<noteq> 0" and t': "strings_by_index t' = (strings_by_index t)(next_index t \<mapsto> s)"
    using i by (auto simp: intern_string_def Let_def split: if_splits)
  from wf_next_free [OF wf n] r have "string_index j \<noteq> next_index t"
    by (auto simp: string_value_def split: if_splits)
  with r show ?thesis by (simp add: string_value_def t')
qed

lemma intern_strings_correct:
  "wf_strings t \<Longrightarrow> intern_strings ss t = Inr (is, t') \<Longrightarrow>
   wf_strings t' \<and> length is = length ss
   \<and> (\<forall>k<length ss. valid_string (is ! k) \<and> string_value (is ! k) t' = Inr (ss ! k))
   \<and> (\<forall>j r. string_value j t = Inr r \<longrightarrow> string_value j t' = Inr r)"
proof (induction ss arbitrary: t "is")
  case Nil
  then show ?case by simp
next
  case (Cons s ss)
  then obtain i t1 js where i: "intern_string s t = Inr (i, t1)" and js: "intern_strings ss t1 = Inr (js, t')"
    and "is": "is = i # js" by (auto split: prod.split_asm)
  note wf1 = intern_string_wf [OF Cons.prems(1) i]
  note ih = Cons.IH [OF wf1 js]
  note v = intern_string_value [OF Cons.prems(1) i]
  have "valid_string (is ! k) \<and> string_value (is ! k) t' = Inr ((s # ss) ! k)" if "k < Suc (length ss)" for k
    using that v ih by (cases k) (auto simp: "is")
  moreover have "string_value j t' = Inr r" if "string_value j t = Inr r" for j r
    using intern_string_keeps [OF Cons.prems(1) i that] ih by blast
  ultimately show ?case using ih by (simp add: "is")
qed

subsection \<open>Properties\<close>

text \<open>
  C21: interning is faithful. In a table made by any sequence of insertions, the index that
  an insertion returned still gives back its string after all later ones, and two insertions
  returned the same index exactly when their strings are equal.
\<close>

theorem interning_faithful:
  assumes "intern_strings ss new_string_table = Inr (is, t)" and "j < length ss" and "k < length ss"
  shows "string_value (is ! j) t = Inr (ss ! j) \<and> (is ! j = is ! k \<longleftrightarrow> ss ! j = ss ! k)"
proof -
  note c = intern_strings_correct [OF wf_new_string_table assms(1)]
  have "is ! j = is ! k" if eq: "ss ! j = ss ! k"
  proof -
    have v: "string_value (is ! j) t = Inr (ss ! j)" "string_value (is ! k) t = Inr (ss ! j)"
      using c assms(2,3) eq by auto
    then have "strings_by_index t (string_index (is ! j)) = Some (ss ! j)"
      "strings_by_index t (string_index (is ! k)) = Some (ss ! j)"
      by (auto simp: string_value_def split: if_splits option.split_asm)
    then have "strings_by_content t (ss ! j) = Some (string_index (is ! j))"
      "strings_by_content t (ss ! j) = Some (string_index (is ! k))"
      using c by (auto simp: wf_strings_def)
    then show ?thesis by (simp add: interned_string.expand)
  qed
  moreover have "ss ! j = ss ! k" if "is ! j = is ! k"
    using c assms(2,3) that by (metis sum.inject(2))
  ultimately show ?thesis using c assms(2) by blast
qed

theorem interning_faithful_witness:
  "\<exists>is t. intern_strings [[97], [98], [97]] new_string_table = Inr (is, t)
     \<and> string_value (is ! 0) t = Inr [97] \<and> is ! 0 = is ! 2"
proof -
  obtain "is" t where r: "intern_strings [[97], [98], [97]] new_string_table = Inr (is, t)"
    by (simp add: intern_string_def new_string_table_def string_header_def Let_def)
  show ?thesis using interning_faithful [OF r, of 0 2] r by auto
qed

end
