(* ===== verification/Loader.thy ===== *)
theory Loader
  imports StringTable TableProps
begin

text \<open>
  The loader of modules (src/vm/modules/load.cpp): it verifies a module, makes the runtime
  values of its members in order, fills the table of exports (the hash table of the virtual
  machine) and finds the initializer. Members are kept in a tuple that is null at first. A
  failed cast (\<open>must_cast\<close>) and an unchecked access out of bounds are the value \<open>None\<close>, a
  thrown error is an \<open>Inl\<close>, also where \<open>must\<close> throws because an export cannot be inserted
  (\<open>TIRO_ERROR\<close> in vm/objects/exception.hpp). The address of a symbol in the heap is a parameter; interned
  symbols are the same exactly when their names are.
\<close>

record code_template =
  tmpl_name :: bytes
  tmpl_params :: u32
  tmpl_locals :: u32
  tmpl_handlers :: "exception_handler list"
  tmpl_code :: bytes

datatype loaded_member =
    LoadedNull
  | LoadedInteger i64
  | LoadedFloat f64
  | LoadedString bytes
  | LoadedSymbol bytes
  | LoadedImport bytes
  | LoadedUndefined
  | LoadedFunction code_template
  | LoadedTemplate code_template
  | LoadedSchema "bytes list"







subsection \<open>Access to members\<close>







subsection \<open>Members\<close>



text \<open>The name \<open><UNNAMED>\<close>.\<close>

definition unnamed :: bytes where
  "unnamed = [60, 85, 78, 78, 65, 77, 69, 68, 62]"






subsection \<open>Exports and the whole module\<close>





subsection \<open>What a module means\<close>

definition text_of :: "string_table \<Rightarrow> interned_string \<Rightarrow> bytes" where
  "text_of strings s = (case string_value s strings of Inl _ \<Rightarrow> [] | Inr str \<Rightarrow> str)"

definition member_text :: "string_table \<Rightarrow> bytecode_module \<Rightarrow> bytecode_member \<Rightarrow> bytes" where
  "member_text strings m i = (case member_at m i of StringMember s \<Rightarrow> text_of strings s | _ \<Rightarrow> [])"

definition symbol_text :: "string_table \<Rightarrow> bytecode_module \<Rightarrow> bytecode_member \<Rightarrow> bytes" where
  "symbol_text strings m i = (case member_at m i of SymbolMember name \<Rightarrow> member_text strings m name | _ \<Rightarrow> [])"

definition template_of :: "string_table \<Rightarrow> bytecode_module \<Rightarrow> bytecode_function \<Rightarrow> code_template" where
  "template_of strings m f =
     \<lparr>tmpl_name = (if valid_member (func_name f) then member_text strings m (func_name f) else unnamed),
      tmpl_params = func_params f, tmpl_locals = func_locals f, tmpl_handlers = func_handlers f,
      tmpl_code = func_code f\<rparr>"

fun denote :: "string_table \<Rightarrow> bytecode_module \<Rightarrow> module_member \<Rightarrow> loaded_member" where
  "denote strings m (IntegerMember i) = LoadedInteger i"
| "denote strings m (FloatMember f) = LoadedFloat f"
| "denote strings m (StringMember s) = LoadedString (text_of strings s)"
| "denote strings m (SymbolMember name) = LoadedSymbol (member_text strings m name)"
| "denote strings m (ImportMember name) = LoadedImport (member_text strings m name)"
| "denote strings m (VariableMember _ _) = LoadedUndefined"
| "denote strings m (FunctionMember i) =
     (let f = mod_functions m ! unat (function_index i)
      in case func_type f of
           NormalFunction \<Rightarrow> LoadedFunction (template_of strings m f)
         | ClosureFunction \<Rightarrow> LoadedTemplate (template_of strings m f))"
| "denote strings m (RecordSchemaMember i) =
     LoadedSchema (map (symbol_text strings m) (mod_records m ! unat (schema_index i)))"


definition loaded_until :: "string_table \<Rightarrow> bytecode_module \<Rightarrow> nat \<Rightarrow> loaded_member list" where
  "loaded_until strings m k =
     map (denote strings m) (take k (mod_members m)) @ replicate (length (mod_members m) - k) LoadedNull"

subsection \<open>Loading verified members\<close>

lemma length_loaded_until [simp]: "k \<le> length (mod_members m) \<Longrightarrow> length (loaded_until strings m k) = length (mod_members m)"
  by (simp add: loaded_until_def)












subsection \<open>Exports\<close>



subsection \<open>Verified modules load\<close>










subsection \<open>Properties\<close>





end
