(* ===== verification/VmMath.thy ===== *)
theory VmMath
  imports Values
begin

text \<open>
  The arithmetic of the virtual machine (src/vm/math.cpp). Integers are checked, a double is
  its bit pattern: comparison and negation are written out, while the rounded operations and
  the library functions \<open>fmod\<close> and \<open>pow\<close> are a parameter. A result is a number that is not yet
  allocated; an exception is described by an error value.
\<close>

record float_ops =
  float_add :: "f64 \<Rightarrow> f64 \<Rightarrow> f64"
  float_sub :: "f64 \<Rightarrow> f64 \<Rightarrow> f64"
  float_mul :: "f64 \<Rightarrow> f64 \<Rightarrow> f64"
  float_div :: "f64 \<Rightarrow> f64 \<Rightarrow> f64"
  float_mod :: "f64 \<Rightarrow> f64 \<Rightarrow> f64"
  float_pow :: "f64 \<Rightarrow> f64 \<Rightarrow> f64"

definition float_neg :: "f64 \<Rightarrow> f64" where
  "float_neg f = f XOR push_bit 63 1"

text \<open>The C++ operator \<open><\<close> on doubles.\<close>

definition f64_rank :: "f64 \<Rightarrow> int" where
  "f64_rank f = (let m = int (unat (f AND mask 63)) in if f64_negative f then - m else m)"

definition float_less :: "f64 \<Rightarrow> f64 \<Rightarrow> bool" where
  "float_less a b \<longleftrightarrow> \<not> f64_isnan a \<and> \<not> f64_isnan b \<and> f64_rank a < f64_rank b"

datatype number = IntNumber i64 | FloatNumber f64

datatype operand_name =
    PlusName | MinusName | TimesName | DivideName | ModName | PowName | UnaryPlusName | UnaryMinusName | NotName

datatype math_error =
    OverflowInAddition | OverflowInSubtraction | OverflowInMultiplication
  | DivisionByZero | OverflowInDivision | ModulusByZero | OverflowInModulus
  | ZeroToNegativePower | OverflowInPow | OverflowInUnaryMinus
  | InvalidOperandType operand_name val | ComparisonNotDefined val val

subsection \<open>Integer operations\<close>

definition add_ints :: "i64 \<Rightarrow> i64 \<Rightarrow> math_error + i64" where
  "add_ints a b = (case checked_add_signed a b of (ok, r) \<Rightarrow> if ok then Inr r else Inl OverflowInAddition)"

definition sub_ints :: "i64 \<Rightarrow> i64 \<Rightarrow> math_error + i64" where
  "sub_ints a b = (case checked_sub_signed a b of (ok, r) \<Rightarrow> if ok then Inr r else Inl OverflowInSubtraction)"

definition mul_ints :: "i64 \<Rightarrow> i64 \<Rightarrow> math_error + i64" where
  "mul_ints a b = (case checked_mul_signed a b of (ok, r) \<Rightarrow> if ok then Inr r else Inl OverflowInMultiplication)"

definition div_ints :: "i64 \<Rightarrow> i64 \<Rightarrow> math_error + i64" where
  "div_ints a b =
     (if b = 0 then Inl DivisionByZero
      else if a = signed_min \<and> b = - 1 then Inl OverflowInDivision
      else Inr (word_of_int (sint a sdiv sint b)))"

definition mod_ints :: "i64 \<Rightarrow> i64 \<Rightarrow> math_error + i64" where
  "mod_ints a b =
     (if b = 0 then Inl ModulusByZero
      else if a = signed_min \<and> b = - 1 then Inl OverflowInModulus
      else Inr (word_of_int (sint a smod sint b)))"

text \<open>
  Fast exponentiation; the exponent is not negative here, so its arithmetic shift is
  \<open>drop_bit\<close>. \<open>None\<close> is the overflow.
\<close>

function pow_loop :: "i64 \<Rightarrow> i64 \<Rightarrow> i64 \<Rightarrow> i64 option" where
  "pow_loop result a b =
     (case (if b AND 1 \<noteq> 0 then checked_mul_signed result a else (True, result)) of
        (ok, result) \<Rightarrow>
          if \<not> ok then None
          else let b = drop_bit 1 b
               in if b = 0 then Some result
                  else case checked_mul_signed a a of
                         (ok, a) \<Rightarrow> if \<not> ok then None else pow_loop result a b)"
  by pat_completeness auto
termination
proof (relation "measure (\<lambda>(result, a, b). unat b)")
  fix b b' :: i64
  assume "b' = drop_bit 1 b" and "b' \<noteq> 0"
  moreover from this have "0 < unat b'" by (simp only: unat_gt_0) simp
  ultimately have "unat b' = unat b div 2" and "0 < unat b'" by (simp_all add: unat_drop_bit)
  then show "((r, a, b'), x, y, b) \<in> measure (\<lambda>(result, a, b). unat b)" for r a :: i64 and x y :: i64
    by simp
qed simp

declare pow_loop.simps [simp del]

definition pow_ints :: "i64 \<Rightarrow> i64 \<Rightarrow> math_error + i64" where
  "pow_ints a b =
     (if a = 0 \<and> sint b < 0 then Inl ZeroToNegativePower
      else if sint b < 0 then Inr (if a = 1 \<or> a = - 1 then a else 0)
      else case pow_loop 1 a b of None \<Rightarrow> Inl OverflowInPow | Some r \<Rightarrow> Inr r)"

subsection \<open>Operations on values\<close>

fun is_number :: "val \<Rightarrow> bool" where
  "is_number (SmallInteger _) = True"
| "is_number (HeapInteger _ _) = True"
| "is_number (Float _ _) = True"
| "is_number _ = False"

fun number_of :: "val \<Rightarrow> number option" where
  "number_of (SmallInteger i) = Some (IntNumber i)"
| "number_of (HeapInteger _ i) = Some (IntNumber i)"
| "number_of (Float _ f) = Some (FloatNumber f)"
| "number_of _ = None"

fun convert_float :: "number \<Rightarrow> f64" where
  "convert_float (IntNumber i) = i64_to_f64 i"
| "convert_float (FloatNumber f) = f"

definition binary_op ::
  "operand_name \<Rightarrow> (i64 \<Rightarrow> i64 \<Rightarrow> math_error + i64) \<Rightarrow> (f64 \<Rightarrow> f64 \<Rightarrow> f64) \<Rightarrow> val \<Rightarrow> val \<Rightarrow> math_error + number" where
  "binary_op name ints floats left right =
     (case number_of left of
        None \<Rightarrow> Inl (InvalidOperandType name left)
      | Some l \<Rightarrow>
          (case number_of right of
             None \<Rightarrow> Inl (InvalidOperandType name right)
           | Some r \<Rightarrow>
               (case (l, r) of
                  (IntNumber a, IntNumber b) \<Rightarrow> map_sum id IntNumber (ints a b)
                | _ \<Rightarrow> Inr (FloatNumber (floats (convert_float l) (convert_float r))))))"

definition math_add :: "float_ops \<Rightarrow> val \<Rightarrow> val \<Rightarrow> math_error + number" where
  "math_add fl = binary_op PlusName add_ints (float_add fl)"

definition math_sub :: "float_ops \<Rightarrow> val \<Rightarrow> val \<Rightarrow> math_error + number" where
  "math_sub fl = binary_op MinusName sub_ints (float_sub fl)"

definition math_mul :: "float_ops \<Rightarrow> val \<Rightarrow> val \<Rightarrow> math_error + number" where
  "math_mul fl = binary_op TimesName mul_ints (float_mul fl)"

definition math_div :: "float_ops \<Rightarrow> val \<Rightarrow> val \<Rightarrow> math_error + number" where
  "math_div fl = binary_op DivideName div_ints (float_div fl)"

definition math_mod :: "float_ops \<Rightarrow> val \<Rightarrow> val \<Rightarrow> math_error + number" where
  "math_mod fl = binary_op ModName mod_ints (float_mod fl)"

definition math_pow :: "float_ops \<Rightarrow> val \<Rightarrow> val \<Rightarrow> math_error + number" where
  "math_pow fl = binary_op PowName pow_ints (float_pow fl)"

text \<open>The unary plus returns its operand, not a copy of it.\<close>

definition unary_plus :: "val \<Rightarrow> math_error + val" where
  "unary_plus v = (if is_number v then Inr v else Inl (InvalidOperandType UnaryPlusName v))"

text \<open>
  The code tests for \<open>- 1\<close>; the negation of the smallest integer is then a signed overflow,
  which is undefined: \<open>None\<close>.
\<close>

definition unary_minus :: "val \<Rightarrow> (math_error + number) option" where
  "unary_minus v =
     (case number_of v of
        None \<Rightarrow> Some (Inl (InvalidOperandType UnaryMinusName v))
      | Some (IntNumber iv) \<Rightarrow>
          if iv = - 1 then Some (Inl OverflowInUnaryMinus)
          else if iv = signed_min then None
          else Some (Inr (IntNumber (- iv)))
      | Some (FloatNumber f) \<Rightarrow> Some (Inr (FloatNumber (float_neg f))))"

definition bitwise_not :: "val \<Rightarrow> math_error + number" where
  "bitwise_not v =
     (case number_of v of
        Some (IntNumber i) \<Rightarrow> Inr (IntNumber (NOT i))
      | _ \<Rightarrow> Inl (InvalidOperandType NotName v))"

fun compare_numbers :: "number \<Rightarrow> number \<Rightarrow> int" where
  "compare_numbers (IntNumber a) (IntNumber b) =
     (if sint b < sint a then 1 else if sint a < sint b then - 1 else 0)"
| "compare_numbers l r =
     (if float_less (convert_float r) (convert_float l) then 1
      else if float_less (convert_float l) (convert_float r) then - 1 else 0)"

definition compare_vals :: "val \<Rightarrow> val \<Rightarrow> math_error + int" where
  "compare_vals a b =
     (if a = Null then Inr (if b = Null then 0 else - 1)
      else if b = Null then Inr 1
      else case (number_of a, number_of b) of
             (Some l, Some r) \<Rightarrow> Inr (compare_numbers l r)
           | _ \<Rightarrow> Inl (ComparisonNotDefined a b))"

text \<open>There is one object \<open>false\<close>, so identity with it is a test of the boolean.\<close>

fun is_truthy :: "val \<Rightarrow> bool" where
  "is_truthy Null = False"
| "is_truthy (Boolean _ b) = b"
| "is_truthy _ = True"

subsection \<open>The integer operations are exact\<close>

lemma checked_mul_cases:
  fixes a b :: "'a::len word"
  shows "checked_mul_signed a b = (ok, r) \<Longrightarrow>
    ok = fits_signed TYPE('a) (sint a * sint b) \<and> (ok \<longrightarrow> sint r = sint a * sint b)"
  using checked_signed_exact(3) [of a b r] by (auto simp: checked_mul_signed_def)

text \<open>A multiple of an integer that is out of range is out of range.\<close>

lemma fits_i64_iff: "fits_signed TYPE(64) x \<longleftrightarrow> - (2 ^ 63) \<le> x \<and> x < 2 ^ 63"
  by (simp add: fits_signed_def)

lemma out_of_range_mult:
  fixes x m :: int
  assumes "\<not> fits_signed TYPE(64) x" and "0 < m"
  shows "\<not> fits_signed TYPE(64) (x * m)"
proof (cases "0 \<le> x")
  case True
  with assms(1) have "2 ^ 63 \<le> x" by (auto simp: fits_i64_iff)
  moreover have "x \<le> x * m" using mult_left_mono [of 1 m x] True assms(2) by simp
  ultimately show ?thesis unfolding fits_i64_iff by linarith
next
  case False
  with assms(1) have "x < - (2 ^ 63)" by (auto simp: fits_i64_iff)
  moreover have "x * m \<le> x" using mult_left_mono_neg [of 1 m x] False assms(2) by simp
  ultimately show ?thesis unfolding fits_i64_iff by linarith
qed

text \<open>The square of an integer is never the magnitude of the smallest integer.\<close>

lemma square_not_limit: "(a :: int) * a \<noteq> 2 ^ 63"
proof
  assume e: "a * a = 2 ^ 63"
  have sq: "\<bar>a\<bar> * \<bar>a\<bar> = 2 ^ 63" using e by simp
  show False
  proof (cases "\<bar>a\<bar> \<le> 3037000499")
    case True
    then have "\<bar>a\<bar> * \<bar>a\<bar> \<le> 3037000499 * 3037000499" by (intro mult_mono) auto
    with sq show False by simp
  next
    case False
    then have "3037000500 * 3037000500 \<le> \<bar>a\<bar> * \<bar>a\<bar>" by (intro mult_mono) auto
    with sq show False by simp
  qed
qed

lemma square_out_of_range:
  fixes a r m :: int
  assumes "\<not> fits_signed TYPE(64) (a * a)" and "r \<noteq> 0" and "0 < m"
  shows "\<not> fits_signed TYPE(64) (r * (a * a * m))"
proof -
  have "0 \<le> a * a" by simp
  with assms(1) square_not_limit [of a] have big: "2 ^ 63 < a * a" by (auto simp: fits_i64_iff)
  have "a * a * 1 \<le> a * a * m" using assms(3) by (intro mult_left_mono) auto
  with big have y: "2 ^ 63 < a * a * m" by simp
  show ?thesis
  proof (cases "0 < r")
    case True
    then have "1 * (a * a * m) \<le> r * (a * a * m)" using y by (intro mult_right_mono) auto
    with y show ?thesis by (simp add: fits_i64_iff)
  next
    case False
    with assms(2) have "r \<le> - 1" by simp
    then have "r * (a * a * m) \<le> - 1 * (a * a * m)" using y by (intro mult_right_mono) auto
    with y show ?thesis by (simp add: fits_i64_iff)
  qed
qed


lemma pow_loop_unfold:
  "pow_loop r a b =
     (if odd (unat b) \<and> \<not> fits_signed TYPE(64) (sint r * sint a) then None
      else let r = (if odd (unat b) then r * a else r); b = drop_bit 1 b in
        if b = 0 then Some r
        else if fits_signed TYPE(64) (sint a * sint a) then pow_loop r (a * a) b else None)"
proof -
  have "b AND 1 \<noteq> 0 \<longleftrightarrow> odd (unat b)"
    using bit_word_nat [of b 0] by (auto simp: and_one_eq bit_0 odd_iff_mod_2_eq_one split: if_splits)
  then show ?thesis
    by (subst pow_loop.simps) (simp add: checked_mul_signed_def Let_def)
qed

lemma sint_mult_fits: "fits_signed TYPE(64) (sint a * sint b) \<Longrightarrow> sint (a * b :: i64) = sint a * sint b"
  using checked_signed_exact(3) [of a b "a * b"] by (simp add: checked_mul_signed_def)

lemma square_power_pos: "x \<noteq> 0 \<Longrightarrow> 0 < (x * x) ^ n" for x :: int
  by (intro zero_less_power) (cases "0 < x"; simp add: zero_less_mult_iff)

lemma pow_loop_exact:
  "(r = 0 \<longrightarrow> a = 0) \<Longrightarrow>
   pow_loop r a b =
     (let p = sint r * sint a ^ unat b
      in if fits_signed TYPE(64) p then Some (word_of_int p) else None)"
proof (induction "unat b" arbitrary: r a b rule: less_induct)
  case less
  let ?b = "drop_bit 1 b" and ?n = "unat b div 2"
  have n: "unat ?b = ?n" by (simp add: unat_drop_bit)
  have b0: "?b = 0 \<longleftrightarrow> ?n = 0" using n by (metis unat_0 unat_eq_zero)
  let ?s = "if odd (unat b) then sint r * sint a else sint r"
  have split: "sint r * sint a ^ unat b = ?s * (sint a * sint a) ^ ?n"
  proof -
    have "sint a ^ unat b = sint a ^ (2 * ?n + unat b mod 2)" by simp
    also have "\<dots> = (sint a * sint a) ^ ?n * sint a ^ (unat b mod 2)"
      by (simp only: power_add power_mult power2_eq_square)
    finally show ?thesis by (simp add: odd_iff_mod_2_eq_one)
  qed
  have nonneg: "0 < (sint a * sint a) ^ ?n" if "a \<noteq> 0"
    using that sint_eq_0 [of a] by (intro square_power_pos) simp
  show ?case
  proof (cases "fits_signed TYPE(64) ?s")
    case False
    then have odd: "odd (unat b)" using fits_sint [of r] by (auto split: if_splits)
    with False have "a \<noteq> 0" by (auto simp: fits_signed_def)
    with out_of_range_mult [OF False nonneg] odd False show ?thesis
      by (subst pow_loop_unfold) (simp add: Let_def split)
  next
    case True
    let ?r = "if odd (unat b) then r * a else r"
    have sr: "sint ?r = ?s" using True sint_mult_fits [of r a] by (simp split: if_splits)
    show ?thesis
    proof (cases "?b = 0")
      case bz: True
      then have "sint r * sint a ^ unat b = ?s" using b0 split by simp
      moreover have "word_of_int ?s = ?r" by (simp only: sr [symmetric] of_int_sint scast_id)
      moreover have "pow_loop r a b = Some ?r"
        using True bz by (subst pow_loop_unfold) (simp add: Let_def split: if_splits)
      ultimately show ?thesis using True by (simp only: Let_def if_True)
    next
      case bz: False
      then have pos: "0 < ?n" using b0 by simp
      have rz: "?r = 0 \<longrightarrow> a * a = 0"
      proof
        assume "?r = 0"
        then have "?s = 0" using sr by simp
        then have "sint r = 0 \<or> sint a = 0" by (simp split: if_splits)
        then have "r = 0 \<or> a = 0" by (simp only: sint_eq_0)
        then have "a = 0" using less.prems by blast
        then show "a * a = 0" by simp
      qed
      show ?thesis
      proof (cases "fits_signed TYPE(64) (sint a * sint a)")
        case sq: True
        have "pow_loop r a b = pow_loop ?r (a * a) ?b"
          using True bz sq by (subst pow_loop_unfold) (simp add: Let_def split: if_splits)
        also have "\<dots> = (let p = sint ?r * sint (a * a) ^ unat ?b
            in if fits_signed TYPE(64) p then Some (word_of_int p) else None)"
          using pos n rz by (intro less.hyps) simp_all
        also have "sint ?r * sint (a * a) ^ unat ?b = sint r * sint a ^ unat b"
          unfolding n sr split sint_mult_fits [OF sq] ..
        finally show ?thesis .
      next
        case sq: False
        then have a: "a \<noteq> 0" by (auto simp: fits_signed_def)
        moreover from a less.prems have "r \<noteq> 0" by blast
        ultimately have "sint a \<noteq> 0" "sint r \<noteq> 0" by (simp_all only: sint_eq_0 not_False_eq_True)
        then have "?s \<noteq> 0" by simp
        moreover have "(sint a * sint a) ^ ?n = sint a * sint a * (sint a * sint a) ^ (?n - 1)"
          using pos by (simp add: power_eq_if)
        moreover have "0 < (sint a * sint a) ^ (?n - 1)"
          using a sint_eq_0 [of a] by (intro square_power_pos) simp
        ultimately have "\<not> fits_signed TYPE(64) (sint r * sint a ^ unat b)"
          using square_out_of_range [OF sq] by (simp only: split)
        with True bz sq show ?thesis
          by (subst pow_loop_unfold) (simp add: Let_def)
      qed
    qed
  qed
qed


lemma pow_ints_exact:
  "0 \<le> sint b \<Longrightarrow>
   pow_ints a b =
     (if fits_signed TYPE(64) (sint a ^ nat (sint b)) then Inr (word_of_int (sint a ^ nat (sint b)))
      else Inl OverflowInPow)"
proof -
  assume b: "0 \<le> sint b"
  have "uint b = take_bit 64 (sint b)" by (simp add: uint_sint)
  also have "\<dots> = sint b" using b sint_less [of b] by (intro take_bit_int_eq_self) simp_all
  finally have "unat b = nat (sint b)" by (simp add: unat_eq_nat_uint)
  then show ?thesis using b by (simp add: pow_ints_def pow_loop_exact Let_def)
qed


subsection \<open>Properties\<close>

text \<open>
  The power operation on integers is exact. For an exponent that is not negative the
  result is the mathematical power, and the overflow exception is raised exactly when that
  power is not representable: no intermediate square overflows on its own.
\<close>

lemma integer_power_exact:
  assumes "0 \<le> sint b"
  shows "pow_ints a b =
    (if fits_signed TYPE(64) (sint a ^ nat (sint b)) then Inr (word_of_int (sint a ^ nat (sint b)))
     else Inl OverflowInPow)"
  using assms by (rule pow_ints_exact)

text \<open>
  Two operations deviate from arithmetic. The power of minus one to a negative even
  exponent is minus one, and the negation of minus one is reported as an overflow while
  the negation of the smallest integer, which does overflow, is not.
\<close>

lemma negative_one_mistakes:
  "pow_ints (- 1) (- 2) = Inr (- 1)
   \<and> unary_minus (SmallInteger (- 1)) = Some (Inl OverflowInUnaryMinus)
   \<and> unary_minus (HeapInteger a signed_min) = None"
proof -
  have "signed_min \<noteq> (- 1 :: i64)" by (simp add: signed_min_def push_bit_of_1)
  then show ?thesis by (simp add: pow_ints_def unary_minus_def)
qed

end
