(* ===== verification/ConstEval.thy ===== *)
theory ConstEval
  imports VmMath Verify
begin

text \<open>
  The evaluation of operations on constants at compile time
  (src/compiler/ir_gen/const_eval.cpp), and its agreement with the arithmetic of the virtual
  machine. The text of a formatted constant is not modelled (\<open>eval_format\<close>).
\<close>

datatype ir_constant =
    IntegerConst i64
  | FloatConst f64
  | StringConst interned_string
  | SymbolConst interned_string
  | NullConst
  | TrueConst
  | FalseConst

datatype eval_error = IntegerOverflow | DivideByZero | NegativeShift | ImaginaryPower | TypeError

type_synonym eval_result = "eval_error + ir_constant"

datatype binary_op_type =
    OpPlus | OpMinus | OpMultiply | OpDivide | OpModulus | OpPower | OpLeftShift | OpRightShift
  | OpBitwiseAnd | OpBitwiseOr | OpBitwiseXor | OpLess | OpLessEquals | OpGreater | OpGreaterEquals
  | OpEquals | OpNotEquals

datatype unary_op_type = OpUnaryPlus | OpUnaryMinus | OpBitwiseNot | OpLogicalNot

subsection \<open>Equality and conversions\<close>

text \<open>Equality of constants treats \<open>nan\<close> as equal to itself.\<close>

fun constant_eq :: "ir_constant \<Rightarrow> ir_constant \<Rightarrow> bool" where
  "constant_eq (IntegerConst a) (IntegerConst b) = (a = b)"
| "constant_eq (FloatConst a) (FloatConst b) =
     (if f64_isnan a \<and> f64_isnan b then True else f64_eq a b)"
| "constant_eq (StringConst a) (StringConst b) = (a = b)"
| "constant_eq (SymbolConst a) (SymbolConst b) = (a = b)"
| "constant_eq NullConst NullConst = True"
| "constant_eq TrueConst TrueConst = True"
| "constant_eq FalseConst FalseConst = True"
| "constant_eq _ _ = False"

definition i64_f64_equal :: "i64 \<Rightarrow> f64 \<Rightarrow> bool" where
  "i64_f64_equal lhs rhs =
     (if \<not> f64_isfinite rhs then False
      else let rhs_int = f64_to_i64 rhs; rhs_roundtrip = i64_to_f64 rhs_int
           in f64_eq rhs_roundtrip rhs \<and> lhs = rhs_int)"

definition constant_is_equal :: "ir_constant \<Rightarrow> ir_constant \<Rightarrow> bool" where
  "constant_is_equal lhs rhs =
     (case (lhs, rhs) of
        (IntegerConst a, FloatConst b) \<Rightarrow> i64_f64_equal a b
      | (FloatConst a, IntegerConst b) \<Rightarrow> i64_f64_equal b a
      | (FloatConst a, FloatConst b) \<Rightarrow>
          if f64_isnan a \<and> f64_isnan b then False else constant_eq lhs rhs
      | _ \<Rightarrow> constant_eq lhs rhs)"

fun constant_number :: "ir_constant \<Rightarrow> number option" where
  "constant_number (IntegerConst i) = Some (IntNumber i)"
| "constant_number (FloatConst f) = Some (FloatNumber f)"
| "constant_number _ = None"

definition to_signed :: "u64 \<Rightarrow> i64" where
  "to_signed v =
     (if v \<le> - 1 - signed_min then v else (v - signed_min) + signed_min)"

definition make_bool :: "bool \<Rightarrow> ir_constant" where
  "make_bool b = (if b then TrueConst else FalseConst)"

definition max_shift :: i64 where
  "max_shift = 63"

subsection \<open>Binary operations\<close>

definition numeric_op ::
  "ir_constant \<Rightarrow> ir_constant \<Rightarrow> (i64 \<Rightarrow> i64 \<Rightarrow> eval_result) \<Rightarrow> (f64 \<Rightarrow> f64 \<Rightarrow> eval_result) \<Rightarrow> eval_result" where
  "numeric_op lhs rhs intop floatop =
     (case (constant_number lhs, constant_number rhs) of
        (Some l, Some r) \<Rightarrow>
          (case (l, r) of
             (IntNumber a, IntNumber b) \<Rightarrow> intop a b
           | _ \<Rightarrow> floatop (convert_float l) (convert_float r))
      | _ \<Rightarrow> Inl TypeError)"

definition integer_op :: "ir_constant \<Rightarrow> ir_constant \<Rightarrow> (i64 \<Rightarrow> i64 \<Rightarrow> eval_result) \<Rightarrow> eval_result" where
  "integer_op lhs rhs op =
     (case (lhs, rhs) of (IntegerConst a, IntegerConst b) \<Rightarrow> op a b | _ \<Rightarrow> Inl TypeError)"

definition eval_plus :: "float_ops \<Rightarrow> ir_constant \<Rightarrow> ir_constant \<Rightarrow> eval_result" where
  "eval_plus fl lhs rhs = numeric_op lhs rhs
     (\<lambda>a b. case try_add a b of (ok, r) \<Rightarrow> if \<not> ok then Inl IntegerOverflow else Inr (IntegerConst r))
     (\<lambda>a b. Inr (FloatConst (float_add fl a b)))"

definition eval_minus :: "float_ops \<Rightarrow> ir_constant \<Rightarrow> ir_constant \<Rightarrow> eval_result" where
  "eval_minus fl lhs rhs = numeric_op lhs rhs
     (\<lambda>a b. case try_sub a b of (ok, r) \<Rightarrow> if \<not> ok then Inl IntegerOverflow else Inr (IntegerConst r))
     (\<lambda>a b. Inr (FloatConst (float_sub fl a b)))"

definition eval_multiply :: "float_ops \<Rightarrow> ir_constant \<Rightarrow> ir_constant \<Rightarrow> eval_result" where
  "eval_multiply fl lhs rhs = numeric_op lhs rhs
     (\<lambda>a b. case try_mul a b of (ok, r) \<Rightarrow> if \<not> ok then Inl IntegerOverflow else Inr (IntegerConst r))
     (\<lambda>a b. Inr (FloatConst (float_mul fl a b)))"

definition eval_divide :: "float_ops \<Rightarrow> ir_constant \<Rightarrow> ir_constant \<Rightarrow> eval_result" where
  "eval_divide fl lhs rhs = numeric_op lhs rhs
     (\<lambda>a b. if b = 0 then Inl DivideByZero
        else case try_div a b of (ok, r) \<Rightarrow> if \<not> ok then Inl IntegerOverflow else Inr (IntegerConst r))
     (\<lambda>a b. Inr (FloatConst (float_div fl a b)))"

definition eval_remainder :: "float_ops \<Rightarrow> ir_constant \<Rightarrow> ir_constant \<Rightarrow> eval_result" where
  "eval_remainder fl lhs rhs = numeric_op lhs rhs
     (\<lambda>a b. if b = 0 then Inl DivideByZero
        else case try_mod a b of (ok, r) \<Rightarrow> if \<not> ok then Inl IntegerOverflow else Inr (IntegerConst r))
     (\<lambda>a b. Inr (FloatConst (float_mod fl a b)))"

function eval_power_loop :: "i64 \<Rightarrow> i64 \<Rightarrow> i64 \<Rightarrow> eval_result" where
  "eval_power_loop result base b =
     (case (if b AND 1 \<noteq> 0 then try_mul result base else (True, result)) of
        (ok, result) \<Rightarrow>
          if \<not> ok then Inl IntegerOverflow
          else let b = drop_bit 1 b
               in if b = 0 then Inr (IntegerConst result)
                  else case try_mul base base of
                         (ok, base) \<Rightarrow>
                           if \<not> ok then Inl IntegerOverflow else eval_power_loop result base b)"
  by pat_completeness auto
termination
proof (relation "measure (\<lambda>(result, base, b). unat b)")
  fix b b' :: i64
  assume "b' = drop_bit 1 b" and "b' \<noteq> 0"
  moreover from this have "0 < unat b'" by (simp only: unat_gt_0) simp
  ultimately have "unat b' = unat b div 2" and "0 < unat b'" by (simp_all add: unat_drop_bit)
  then show "((r, a, b'), x, y, b) \<in> measure (\<lambda>(result, base, b). unat b)" for r a :: i64 and x y :: i64
    by simp
qed simp

declare eval_power_loop.simps [simp del]

definition eval_power :: "float_ops \<Rightarrow> ir_constant \<Rightarrow> ir_constant \<Rightarrow> eval_result" where
  "eval_power fl lhs rhs = numeric_op lhs rhs
     (\<lambda>a b. if a = 0 \<and> sint b < 0 then Inl DivideByZero
        else if sint b < 0 then Inr (IntegerConst (if a = 1 \<or> a = - 1 then a else 0))
        else eval_power_loop 1 a b)
     (\<lambda>a b. Inr (FloatConst (float_pow fl a b)))"

definition eval_left_shift :: "ir_constant \<Rightarrow> ir_constant \<Rightarrow> eval_result" where
  "eval_left_shift lhs rhs = integer_op lhs rhs (\<lambda>a b.
     if sint b < 0 then Inl NegativeShift
     else if sint max_shift < sint b then Inl IntegerOverflow
     else Inr (IntegerConst (to_signed (push_bit (unat b) a))))"

definition eval_right_shift :: "ir_constant \<Rightarrow> ir_constant \<Rightarrow> eval_result" where
  "eval_right_shift lhs rhs = integer_op lhs rhs (\<lambda>a b.
     if sint b < 0 then Inl NegativeShift
     else if sint max_shift < sint b then Inl IntegerOverflow
     else Inr (IntegerConst (to_signed (drop_bit (unat b) a))))"

definition eval_bitwise_and :: "ir_constant \<Rightarrow> ir_constant \<Rightarrow> eval_result" where
  "eval_bitwise_and lhs rhs = integer_op lhs rhs (\<lambda>a b. Inr (IntegerConst (a AND b)))"

definition eval_bitwise_or :: "ir_constant \<Rightarrow> ir_constant \<Rightarrow> eval_result" where
  "eval_bitwise_or lhs rhs = integer_op lhs rhs (\<lambda>a b. Inr (IntegerConst (a OR b)))"

definition eval_bitwise_xor :: "ir_constant \<Rightarrow> ir_constant \<Rightarrow> eval_result" where
  "eval_bitwise_xor lhs rhs = integer_op lhs rhs (\<lambda>a b. Inr (IntegerConst (a XOR b)))"

definition eval_equals :: "ir_constant \<Rightarrow> ir_constant \<Rightarrow> eval_result" where
  "eval_equals lhs rhs = Inr (make_bool (constant_is_equal lhs rhs))"

definition eval_not_equals :: "ir_constant \<Rightarrow> ir_constant \<Rightarrow> eval_result" where
  "eval_not_equals lhs rhs = Inr (make_bool (\<not> constant_is_equal lhs rhs))"

definition numeric_compare :: "ir_constant \<Rightarrow> ir_constant \<Rightarrow> (int \<Rightarrow> bool) \<Rightarrow> eval_result" where
  "numeric_compare lhs rhs test =
     (if constant_number lhs = None \<or> constant_number rhs = None then Inl TypeError
      else if constant_is_equal lhs rhs then Inr (make_bool (test 0))
      else numeric_op lhs rhs
        (\<lambda>a b. Inr (make_bool (test (if sint a < sint b then - 1 else if sint b < sint a then 1 else 0))))
        (\<lambda>a b. Inr (make_bool (test (if float_less a b then - 1 else if float_less b a then 1 else 0)))))"

definition eval_less :: "ir_constant \<Rightarrow> ir_constant \<Rightarrow> eval_result" where
  "eval_less lhs rhs = numeric_compare lhs rhs (\<lambda>cmp. cmp < 0)"

definition eval_less_equals :: "ir_constant \<Rightarrow> ir_constant \<Rightarrow> eval_result" where
  "eval_less_equals lhs rhs = numeric_compare lhs rhs (\<lambda>cmp. cmp \<le> 0)"

definition eval_greater :: "ir_constant \<Rightarrow> ir_constant \<Rightarrow> eval_result" where
  "eval_greater lhs rhs = numeric_compare lhs rhs (\<lambda>cmp. cmp > 0)"

definition eval_greater_equals :: "ir_constant \<Rightarrow> ir_constant \<Rightarrow> eval_result" where
  "eval_greater_equals lhs rhs = numeric_compare lhs rhs (\<lambda>cmp. cmp \<ge> 0)"

fun eval_binary_operation :: "float_ops \<Rightarrow> binary_op_type \<Rightarrow> ir_constant \<Rightarrow> ir_constant \<Rightarrow> eval_result" where
  "eval_binary_operation fl OpPlus = eval_plus fl"
| "eval_binary_operation fl OpMinus = eval_minus fl"
| "eval_binary_operation fl OpMultiply = eval_multiply fl"
| "eval_binary_operation fl OpDivide = eval_divide fl"
| "eval_binary_operation fl OpModulus = eval_remainder fl"
| "eval_binary_operation fl OpPower = eval_power fl"
| "eval_binary_operation fl OpLeftShift = eval_left_shift"
| "eval_binary_operation fl OpRightShift = eval_right_shift"
| "eval_binary_operation fl OpBitwiseAnd = eval_bitwise_and"
| "eval_binary_operation fl OpBitwiseOr = eval_bitwise_or"
| "eval_binary_operation fl OpBitwiseXor = eval_bitwise_xor"
| "eval_binary_operation fl OpEquals = eval_equals"
| "eval_binary_operation fl OpNotEquals = eval_not_equals"
| "eval_binary_operation fl OpLess = eval_less"
| "eval_binary_operation fl OpLessEquals = eval_less_equals"
| "eval_binary_operation fl OpGreater = eval_greater"
| "eval_binary_operation fl OpGreaterEquals = eval_greater_equals"

subsection \<open>Unary operations\<close>

definition eval_unary_plus :: "ir_constant \<Rightarrow> eval_result" where
  "eval_unary_plus value = (if constant_number value = None then Inl TypeError else Inr value)"

definition eval_unary_minus :: "ir_constant \<Rightarrow> eval_result" where
  "eval_unary_minus value =
     (case constant_number value of
        None \<Rightarrow> Inl TypeError
      | Some (IntNumber i) \<Rightarrow>
          (case try_mul i (- 1) of (ok, r) \<Rightarrow> if \<not> ok then Inl IntegerOverflow else Inr (IntegerConst r))
      | Some (FloatNumber f) \<Rightarrow> Inr (FloatConst (float_neg f)))"

definition eval_bitwise_not :: "ir_constant \<Rightarrow> eval_result" where
  "eval_bitwise_not value =
     (case value of IntegerConst i \<Rightarrow> Inr (IntegerConst (NOT i)) | _ \<Rightarrow> Inl TypeError)"

definition eval_logical_not :: "ir_constant \<Rightarrow> eval_result" where
  "eval_logical_not value = Inr (make_bool (value = NullConst \<or> value = FalseConst))"

fun eval_unary_operation :: "unary_op_type \<Rightarrow> ir_constant \<Rightarrow> eval_result" where
  "eval_unary_operation OpUnaryPlus = eval_unary_plus"
| "eval_unary_operation OpUnaryMinus = eval_unary_minus"
| "eval_unary_operation OpBitwiseNot = eval_bitwise_not"
| "eval_unary_operation OpLogicalNot = eval_logical_not"


subsection \<open>What the virtual machine computes for the same operation\<close>

datatype op_outcome = NumberOutcome number | BooleanOutcome bool

text \<open>
  The instruction that is generated for an operation. Shifts and bitwise operations have
  instructions that the interpreter does not implement (\<open>None\<close>).
\<close>

fun run_binary :: "float_ops \<Rightarrow> binary_op_type \<Rightarrow> val \<Rightarrow> val \<Rightarrow> (math_error + op_outcome) option" where
  "run_binary fl OpPlus a b = Some (map_sum id NumberOutcome (math_add fl a b))"
| "run_binary fl OpMinus a b = Some (map_sum id NumberOutcome (math_sub fl a b))"
| "run_binary fl OpMultiply a b = Some (map_sum id NumberOutcome (math_mul fl a b))"
| "run_binary fl OpDivide a b = Some (map_sum id NumberOutcome (math_div fl a b))"
| "run_binary fl OpModulus a b = Some (map_sum id NumberOutcome (math_mod fl a b))"
| "run_binary fl OpPower a b = Some (map_sum id NumberOutcome (math_pow fl a b))"
| "run_binary fl OpLess a b = Some (map_sum id (\<lambda>c. BooleanOutcome (c < 0)) (compare_vals a b))"
| "run_binary fl OpLessEquals a b = Some (map_sum id (\<lambda>c. BooleanOutcome (c \<le> 0)) (compare_vals a b))"
| "run_binary fl OpGreater a b = Some (map_sum id (\<lambda>c. BooleanOutcome (c > 0)) (compare_vals a b))"
| "run_binary fl OpGreaterEquals a b = Some (map_sum id (\<lambda>c. BooleanOutcome (c \<ge> 0)) (compare_vals a b))"
| "run_binary fl OpEquals a b = Some (Inr (BooleanOutcome (equal_val a b)))"
| "run_binary fl OpNotEquals a b = Some (Inr (BooleanOutcome (\<not> equal_val a b)))"
| "run_binary fl _ a b = None"

definition unimplemented_ops :: "binary_op_type set" where
  "unimplemented_ops = {OpLeftShift, OpRightShift, OpBitwiseAnd, OpBitwiseOr, OpBitwiseXor}"

text \<open>
  The unary instructions (\<open>UAdd\<close>, \<open>UNeg\<close>, \<open>BNot\<close>, \<open>LNot\<close>); \<open>None\<close> is the undefined negation of the
  smallest integer.
\<close>

fun run_unary :: "unary_op_type \<Rightarrow> val \<Rightarrow> (math_error + op_outcome) option" where
  "run_unary OpUnaryPlus v = Some (map_sum id (\<lambda>v. NumberOutcome (the (number_of v))) (unary_plus v))"
| "run_unary OpUnaryMinus v = map_option (map_sum id NumberOutcome) (unary_minus v)"
| "run_unary OpBitwiseNot v = Some (map_sum id NumberOutcome (bitwise_not v))"
| "run_unary OpLogicalNot v = Some (Inr (BooleanOutcome (\<not> is_truthy v)))"

text \<open>The runtime values of a constant; strings and symbols are interned.\<close>

fun denotes :: "(interned_string \<Rightarrow> bytes) \<Rightarrow> (interned_string \<Rightarrow> addr) \<Rightarrow> ir_constant \<Rightarrow> val \<Rightarrow> bool" where
  "denotes txt adr (IntegerConst i) v = (v = SmallInteger i \<or> (\<exists>a. v = HeapInteger a i))"
| "denotes txt adr (FloatConst f) v = (\<exists>a. v = Float a f)"
| "denotes txt adr (StringConst s) v = (v = String None (txt s))"
| "denotes txt adr (SymbolConst s) v = (v = Symbol (adr s))"
| "denotes txt adr NullConst v = (v = Null)"
| "denotes txt adr TrueConst v = (\<exists>a. v = Boolean a True)"
| "denotes txt adr FalseConst v = (\<exists>a. v = Boolean a False)"

fun outcome_constant :: "op_outcome \<Rightarrow> ir_constant" where
  "outcome_constant (NumberOutcome (IntNumber i)) = IntegerConst i"
| "outcome_constant (NumberOutcome (FloatNumber f)) = FloatConst f"
| "outcome_constant (BooleanOutcome b) = make_bool b"

lemma denotes_number: "denotes txt adr c v \<Longrightarrow> number_of v = constant_number c"
  by (cases c) auto

lemma eval_power_loop_eq:
  "eval_power_loop r a b = (case pow_loop r a b of None \<Rightarrow> Inl IntegerOverflow | Some p \<Rightarrow> Inr (IntegerConst p))"
proof (induction r a b rule: eval_power_loop.induct)
  case (1 r a b)
  let ?c = "if b AND 1 \<noteq> 0 then checked_mul_signed r a else (True, r)"
  obtain ok r' where c: "?c = (ok, r')" by (cases ?c)
  obtain ok' a' where sq: "checked_mul_signed a a = (ok', a')" by (cases "checked_mul_signed a a")
  have "eval_power_loop r' a' (drop_bit 1 b) =
      (case pow_loop r' a' (drop_bit 1 b) of None \<Rightarrow> Inl IntegerOverflow | Some p \<Rightarrow> Inr (IntegerConst p))"
    if "ok" "drop_bit 1 b \<noteq> 0" "ok'"
    using that c sq by (intro 1 [of ok r' "drop_bit 1 b" ok' a'])
      (auto simp: try_mul_def split: if_splits)
  then show ?case
    unfolding eval_power_loop.simps [of r a b] pow_loop.simps [of r a b] try_mul_def c
    by (auto simp: sq Let_def)
qed

lemma outcome_numbers:
  assumes "numeric_op l r ci (\<lambda>a b. Inr (FloatConst (floats a b))) = Inr c"
    and "number_of u = constant_number l" and "number_of v = constant_number r"
    and "\<And>a b. ci a b = Inr c \<Longrightarrow> \<exists>i. c = IntegerConst i \<and> ints a b = Inr i"
  shows "\<exists>outcome. map_sum id NumberOutcome (binary_op name ints floats u v) = Inr outcome
    \<and> outcome_constant outcome = c"
proof -
  obtain x y where xy: "constant_number l = Some x" "constant_number r = Some y"
    using assms(1) by (auto simp: numeric_op_def split: option.split_asm)
  show ?thesis
  proof (cases x)
    case x: (IntNumber a)
    show ?thesis
    proof (cases y)
      case (IntNumber b)
      with x xy assms(1) have "ci a b = Inr c" by (simp add: numeric_op_def)
      with assms(4) obtain i where "c = IntegerConst i" "ints a b = Inr i" by blast
      with x IntNumber xy assms(2,3) show ?thesis by (simp add: binary_op_def)
    qed (use x xy assms(1-3) in \<open>simp_all add: numeric_op_def binary_op_def\<close>)
  qed (use xy assms(1-3) in \<open>cases y; simp add: numeric_op_def binary_op_def\<close>)
qed

lemmas math_op_defs = math_add_def math_sub_def math_mul_def math_div_def math_mod_def math_pow_def

lemmas eval_op_defs = eval_plus_def eval_minus_def eval_multiply_def eval_divide_def
  eval_remainder_def eval_power_def

lemma ints_agree:
  "(case try_add a b of (ok, r) \<Rightarrow> if \<not> ok then Inl IntegerOverflow else Inr (IntegerConst r)) = Inr c
     \<Longrightarrow> \<exists>i. c = IntegerConst i \<and> add_ints a b = Inr i"
  "(case try_sub a b of (ok, r) \<Rightarrow> if \<not> ok then Inl IntegerOverflow else Inr (IntegerConst r)) = Inr c
     \<Longrightarrow> \<exists>i. c = IntegerConst i \<and> sub_ints a b = Inr i"
  "(case try_mul a b of (ok, r) \<Rightarrow> if \<not> ok then Inl IntegerOverflow else Inr (IntegerConst r)) = Inr c
     \<Longrightarrow> \<exists>i. c = IntegerConst i \<and> mul_ints a b = Inr i"
  "(if b = 0 then Inl DivideByZero
    else case try_div a b of (ok, r) \<Rightarrow> if \<not> ok then Inl IntegerOverflow else Inr (IntegerConst r)) = Inr c
     \<Longrightarrow> \<exists>i. c = IntegerConst i \<and> div_ints a b = Inr i"
  "(if b = 0 then Inl DivideByZero
    else case try_mod a b of (ok, r) \<Rightarrow> if \<not> ok then Inl IntegerOverflow else Inr (IntegerConst r)) = Inr c
     \<Longrightarrow> \<exists>i. c = IntegerConst i \<and> mod_ints a b = Inr i"
  "(if a = 0 \<and> sint b < 0 then Inl DivideByZero
    else if sint b < 0 then Inr (IntegerConst (if a = 1 \<or> a = - 1 then a else 0))
    else eval_power_loop 1 a b) = Inr c
     \<Longrightarrow> \<exists>i. c = IntegerConst i \<and> pow_ints a b = Inr i"
  by (auto simp: add_ints_def sub_ints_def mul_ints_def div_ints_def mod_ints_def pow_ints_def
      try_add_def try_sub_def try_mul_def try_div_def try_mod_def checked_div_signed_def
      checked_mod_signed_def eval_power_loop_eq split: if_splits prod.split_asm option.split_asm)

lemma arithmetic_agrees:
  assumes "op \<in> {OpPlus, OpMinus, OpMultiply, OpDivide, OpModulus, OpPower}"
    and "eval_binary_operation fl op l r = Inr c" and "denotes txt adr l u" and "denotes txt adr r v"
  shows "\<exists>outcome. run_binary fl op u v = Some (Inr outcome) \<and> outcome_constant outcome = c"
proof -
  note agree = outcome_numbers [OF _ denotes_number [OF assms(3)] denotes_number [OF assms(4)]]
  show ?thesis
    using assms(1,2)
    by (elim insertE emptyE; simp only: eval_binary_operation.simps run_binary.simps
        eval_op_defs math_op_defs option.inject)
       (erule agree, erule ints_agree)+
qed


text \<open>Equality and order: the cases of equal numbers come first in the compiler.\<close>

lemma equality_agrees:
  assumes "inj txt" and "inj adr" and "denotes txt adr l u" and "denotes txt adr r v"
  shows "constant_is_equal l r = equal_val u v"
  using assms
  by (cases l; cases r)
     (auto simp: constant_is_equal_def same_def inj_eq i64_f64_equal_def int_float_equal_def f64_eq_def)

lemma f64_eq_not_less: "f64_eq a b \<Longrightarrow> \<not> float_less a b \<and> \<not> float_less b a"
  by (auto simp: f64_eq_def float_less_def f64_rank_def f64_iszero_def split: if_splits)

lemma int_float_equal_not_less:
  "i64_f64_equal i f \<Longrightarrow> \<not> float_less (i64_to_f64 i) f \<and> \<not> float_less f (i64_to_f64 i)"
  by (intro f64_eq_not_less) (auto simp: i64_f64_equal_def Let_def split: if_splits)

lemma float_less_asym: "float_less a b \<Longrightarrow> \<not> float_less b a"
  by (auto simp: float_less_def)

lemma compare_equal_numbers:
  "constant_is_equal l r \<Longrightarrow> constant_number l = Some x \<Longrightarrow> constant_number r = Some y
   \<Longrightarrow> compare_numbers x y = 0"
  by (cases l; cases r)
     (auto simp: constant_is_equal_def dest: f64_eq_not_less int_float_equal_not_less split: if_splits)

lemma comparison_agrees:
  assumes "numeric_compare l r test = Inr c" and "denotes txt adr l u" and "denotes txt adr r v"
  shows "\<exists>cmp. compare_vals u v = Inr cmp \<and> c = make_bool (test cmp)"
proof -
  obtain x y where xy: "constant_number l = Some x" "constant_number r = Some y"
    using assms(1) by (auto simp: numeric_compare_def split: if_splits)
  then have "number_of u = Some x" "number_of v = Some y"
    using denotes_number [OF assms(2)] denotes_number [OF assms(3)] by simp_all
  then have cmp: "compare_vals u v = Inr (compare_numbers x y)"
    by (auto simp: compare_vals_def)
  show ?thesis
  proof (cases "constant_is_equal l r")
    case True
    then show ?thesis
      using assms(1) cmp compare_equal_numbers [OF True xy] xy by (simp add: numeric_compare_def)
  next
    case False
    then show ?thesis
      using assms(1) cmp xy float_less_asym
      by (cases x; cases y) (auto simp: numeric_compare_def numeric_op_def)
  qed
qed

lemmas eval_comparison_defs = eval_less_def eval_less_equals_def eval_greater_def eval_greater_equals_def

lemma comparisons_agree:
  assumes "op \<in> {OpLess, OpLessEquals, OpGreater, OpGreaterEquals}"
    and "eval_binary_operation fl op l r = Inr c" and "denotes txt adr l u" and "denotes txt adr r v"
  shows "\<exists>outcome. run_binary fl op u v = Some (Inr outcome) \<and> outcome_constant outcome = c"
  using assms(1,2) comparison_agrees [OF _ assms(3,4)]
  by (elim insertE emptyE; fastforce simp: eval_comparison_defs)

text \<open>
  Unary operations. The negation of minus one is the exception: the compiler folds it to one and the
  virtual machine rejects it as an overflow.
\<close>

lemma minus_agrees:
  assumes "eval_unary_minus l = Inr c" and "number_of u = constant_number l" and "l \<noteq> IntegerConst (- 1)"
  shows "\<exists>outcome. run_unary OpUnaryMinus u = Some (Inr outcome) \<and> outcome_constant outcome = c"
proof (cases l)
  case (IntegerConst i)
  obtain ok r where r: "checked_mul_signed i (- 1) = (ok, r)" by (cases "checked_mul_signed i (- 1)")
  then have "c = IntegerConst (- i)" and ok: "ok"
    using assms(1) IntegerConst
    by (auto simp: eval_unary_minus_def try_mul_def checked_mul_signed_def split: if_splits)
  moreover have "i \<noteq> signed_min"
    using checked_mul_cases [OF r] ok by (auto simp: fits_signed_def sint_signed_min)
  ultimately show ?thesis
    using assms(2,3) IntegerConst by (simp add: unary_minus_def)
qed (use assms(1,2) in \<open>auto simp: eval_unary_minus_def unary_minus_def\<close>)

lemma unary_agrees:
  assumes "eval_unary_operation op l = Inr c" and "denotes txt adr l u"
    and "\<not> (op = OpUnaryMinus \<and> l = IntegerConst (- 1))"
  shows "\<exists>outcome. run_unary op u = Some (Inr outcome) \<and> outcome_constant outcome = c"
proof (cases op)
  case OpUnaryMinus
  then show ?thesis using assms minus_agrees denotes_number by simp
next
  case OpUnaryPlus
  then show ?thesis
    using assms(1,2) by (cases l) (auto simp: eval_unary_plus_def unary_plus_def)
next
  case OpBitwiseNot
  then show ?thesis
    using assms(1,2) by (cases l) (auto simp: eval_bitwise_not_def bitwise_not_def)
next
  case OpLogicalNot
  then show ?thesis
    using assms(1,2) by (cases l) (auto simp: eval_logical_not_def make_bool_def)
qed

subsection \<open>Properties\<close>

text \<open>
  C22: Constant folding preserves the meaning of programs, for the operations that the virtual
  machine can run. When the compiler evaluates a binary operation on constants to a value, other
  than a shift or a bitwise operation, or a unary operation other than the negation of the integer
  minus one, the virtual machine computes the same value from the runtime representation of
  the operands. The shifts and the binary bitwise operations have no counterpart (the interpreter does
  not implement them), and the negation of minus one differs (\<open>folding_differs\<close>). The rounding of
  floating point operations, \<open>fmod\<close> and \<open>pow\<close> are those of the C++ implementation on both sides.
\<close>

theorem constant_folding_sound:
  assumes "inj txt" and "inj adr" and "denotes txt adr l u" and "denotes txt adr r v"
  shows "(eval_binary_operation fl op l r = Inr c \<and> op \<notin> unimplemented_ops \<longrightarrow>
      (\<exists>outcome. run_binary fl op u v = Some (Inr outcome) \<and> outcome_constant outcome = c))
    \<and> (eval_unary_operation uop l = Inr d \<and> \<not> (uop = OpUnaryMinus \<and> l = IntegerConst (- 1)) \<longrightarrow>
      (\<exists>outcome. run_unary uop u = Some (Inr outcome) \<and> outcome_constant outcome = d))"
proof -
  have "\<exists>outcome. run_binary fl op u v = Some (Inr outcome) \<and> outcome_constant outcome = c"
    if c: "eval_binary_operation fl op l r = Inr c" and op: "op \<notin> unimplemented_ops"
  proof -
    consider "op \<in> {OpPlus, OpMinus, OpMultiply, OpDivide, OpModulus, OpPower}"
      | "op \<in> {OpLess, OpLessEquals, OpGreater, OpGreaterEquals}" | "op = OpEquals" | "op = OpNotEquals"
      using op by (cases op) (auto simp: unimplemented_ops_def)
    then show ?thesis
    proof cases
      case 1
      then show ?thesis using arithmetic_agrees c assms(3,4) by blast
    next
      case 2
      then show ?thesis using comparisons_agree c assms(3,4) by blast
    qed (use c equality_agrees [OF assms] in \<open>auto simp: eval_equals_def eval_not_equals_def\<close>)
  qed
  then show ?thesis using unary_agrees assms(3) by blast
qed

theorem constant_folding_sound_witness:
  "\<forall>fl. eval_binary_operation fl OpPower (IntegerConst 3) (IntegerConst 4) = Inr (IntegerConst 81)
   \<and> (\<exists>outcome. run_binary fl OpPower (SmallInteger 3) (SmallInteger 4) = Some (Inr outcome)
        \<and> outcome_constant outcome = IntegerConst 81)
   \<and> (\<exists>outcome. run_unary OpUnaryMinus (SmallInteger 3) = Some (Inr outcome)
        \<and> outcome_constant outcome = IntegerConst (- 3))"
proof
  fix fl :: float_ops
  have c: "eval_binary_operation fl OpPower (IntegerConst 3) (IntegerConst 4) = Inr (IntegerConst 81)"
    by (simp add: eval_power_def numeric_op_def eval_power_loop_eq pow_loop_exact fits_signed_def)
  have texts: "inj (\<lambda>s. replicate (unat (string_index s)) 0 :: bytes)"
    by (rule injI) (metis length_replicate word_unat_eq_iff interned_string.expand)
  have addresses: "inj (\<lambda>s. word_of_nat (unat (string_index s)) :: addr)"
  proof (rule injI)
    have widen: "unat (word_of_nat (unat i) :: addr) = unat i" for i :: u32
      by (simp only: unat_of_nat) (rule mod_less, rule less_le_trans [OF unsigned_less], simp)
    fix s t
    assume "word_of_nat (unat (string_index s)) = (word_of_nat (unat (string_index t)) :: addr)"
    then have "unat (string_index s) = unat (string_index t)"
      by (metis widen)
    then show "s = t" by (metis word_unat_eq_iff interned_string.expand)
  qed
  have d: "eval_unary_operation OpUnaryMinus (IntegerConst 3) = Inr (IntegerConst (- 3))"
    by (simp add: eval_unary_minus_def try_mul_def checked_mul_signed_def fits_signed_def)
  from constant_folding_sound [OF texts addresses, of "IntegerConst 3" "SmallInteger 3"
      "IntegerConst 4" "SmallInteger 4" fl OpPower "IntegerConst 81" OpUnaryMinus "IntegerConst (- 3)"] c d
  show "eval_binary_operation fl OpPower (IntegerConst 3) (IntegerConst 4) = Inr (IntegerConst 81)
   \<and> (\<exists>outcome. run_binary fl OpPower (SmallInteger 3) (SmallInteger 4) = Some (Inr outcome)
        \<and> outcome_constant outcome = IntegerConst 81)
   \<and> (\<exists>outcome. run_unary OpUnaryMinus (SmallInteger 3) = Some (Inr outcome)
        \<and> outcome_constant outcome = IntegerConst (- 3))"
    by (simp add: unimplemented_ops_def)
qed

text \<open>
  The compiler and the virtual machine disagree on the negation of minus one, which the
  compiler folds to one and the virtual machine rejects as an overflow; and the right shift
  of a negative constant is folded without its sign.
\<close>

lemma folding_differs:
  "eval_unary_operation OpUnaryMinus (IntegerConst (- 1)) = Inr (IntegerConst 1)
   \<and> unary_minus (SmallInteger (- 1)) = Some (Inl OverflowInUnaryMinus)
   \<and> eval_binary_operation fl OpRightShift (IntegerConst (- 2)) (IntegerConst 1)
       = Inr (IntegerConst (2 ^ 63 - 1))"
proof -
  have "(drop_bit 1 (- 2) :: i64) = 2 ^ 63 - 1" by (rule word_unat_eq_iff [THEN iffD2]) (simp add: unat_drop_bit)
  then show ?thesis
    by (simp add: eval_unary_minus_def try_mul_def checked_mul_signed_def fits_signed_def unary_minus_def
        eval_right_shift_def integer_op_def max_shift_def to_signed_def)
qed

end
