(* ===== verification/CoroutineStack.thy ===== *)
theory CoroutineStack
  imports Loader
begin

text \<open>
  The stack of a coroutine (src/vm/objects/coroutine_stack.hpp and coroutine_stack.cpp): frames
  and values share one contiguous memory that grows upwards.

  The first part is the code. The memory between the start of the data and the top pointer is
  a list of cells of eight bytes; a frame occupies as many cells as its C++ structure, the
  first of which holds its fields. Pointers are indices into the list. A failed assertion is
  \<open>None\<close>; the memory above the top is garbage and has no counterpart.

  The second part is the abstract stack, a list of frames that own their local variables and
  values, with the operations that the interpreter uses; the third shows that the code
  implements it.
\<close>

subsection \<open>Frames\<close>

text \<open>A template that the loader made, with the identity of its module.\<close>

record function_template = code_template +
  tmpl_module :: addr

record native_function =
  native_name :: bytes
  native_params :: u32
  native_locals :: u32
  native_id :: nat

datatype frame_data =
    CodeFrame (frame_tmpl: function_template) (frame_closure: val) (frame_exception: val) (frame_pc: nat)
  | ResumableFrame (frame_func: native_function) (frame_state: int)
  | CatchFrame (caught_exception: val)

definition frame_pop_one_more :: u8 where "frame_pop_one_more = 1"

definition frame_unwinding :: u8 where "frame_unwinding = 2"

definition frame_catch_started :: u8 where "frame_catch_started = 4"

record frame =
  frame_data :: frame_data
  flags :: u8
  argc :: u32
  locals_count :: u32
  caller_offset :: u32

datatype cell = ValueCell val | FrameCell frame | FrameRest

record coroutine_stack =
  undef :: val
  top_frame_at :: "nat option"
  stack_cells :: "cell list"
  stack_end :: nat

text \<open>The sizes of the frame structures and of a value in cells.\<close>

fun frame_size :: "frame_data \<Rightarrow> nat" where
  "frame_size (CodeFrame _ _ _ _) = 6"
| "frame_size (ResumableFrame _ _) = 4"
| "frame_size (CatchFrame _) = 3"

definition frame_at :: "coroutine_stack \<Rightarrow> nat \<Rightarrow> frame option" where
  "frame_at s i =
     (if i < length (stack_cells s) then (case stack_cells s ! i of FrameCell f \<Rightarrow> Some f | _ \<Rightarrow> None) else None)"

text \<open>The caller of the frame at an index: its offset is in bytes and zero for the first frame.\<close>

definition frame_caller :: "nat \<Rightarrow> frame \<Rightarrow> nat option" where
  "frame_caller i f =
     (if caller_offset f = 0 then None else Some (i - unat (caller_offset f) div 8))"

subsection \<open>The code\<close>

definition new_stack :: "val \<Rightarrow> nat \<Rightarrow> coroutine_stack" where
  "new_stack undefined_value bytes_size =
     \<lparr>undef = undefined_value, top_frame_at = None, stack_cells = [], stack_end = bytes_size\<rparr>"

definition stack_used :: "coroutine_stack \<Rightarrow> nat" where
  "stack_used s = 8 * length (stack_cells s)"

definition stack_available :: "coroutine_stack \<Rightarrow> nat" where
  "stack_available s = stack_end s - stack_used s"

definition value_capacity_remaining :: "coroutine_stack \<Rightarrow> nat" where
  "value_capacity_remaining s = stack_available s div 8"

definition locals_begin :: "coroutine_stack \<Rightarrow> nat \<Rightarrow> nat option" where
  "locals_begin s i = map_option (\<lambda>f. i + frame_size (frame_data f)) (frame_at s i)"

definition values_begin :: "coroutine_stack \<Rightarrow> nat option \<Rightarrow> nat option" where
  "values_begin s fr =
     (case fr of
        None \<Rightarrow> Some 0
      | Some i \<Rightarrow> map_option (\<lambda>f. i + frame_size (frame_data f) + unat (locals_count f)) (frame_at s i))"

text \<open>The number of values of the top frame.\<close>

definition top_value_count :: "coroutine_stack \<Rightarrow> nat option" where
  "top_value_count s =
     (case values_begin s (top_frame_at s) of
        None \<Rightarrow> None
      | Some b \<Rightarrow> if b \<le> length (stack_cells s) then Some (length (stack_cells s) - b) else None)"

definition value_at :: "coroutine_stack \<Rightarrow> nat \<Rightarrow> val option" where
  "value_at s i =
     (if i < length (stack_cells s) then (case stack_cells s ! i of ValueCell v \<Rightarrow> Some v | _ \<Rightarrow> None) else None)"

definition set_value_at :: "coroutine_stack \<Rightarrow> nat \<Rightarrow> val \<Rightarrow> coroutine_stack option" where
  "set_value_at s i v =
     (if i < length (stack_cells s) then Some (s\<lparr>stack_cells := (stack_cells s)[i := ValueCell v]\<rparr>) else None)"

definition push_value :: "val \<Rightarrow> coroutine_stack \<Rightarrow> bool \<times> coroutine_stack" where
  "push_value v s =
     (if stack_available s < 8 then (False, s) else (True, s\<lparr>stack_cells := stack_cells s @ [ValueCell v]\<rparr>))"

definition top_value :: "coroutine_stack \<Rightarrow> nat \<Rightarrow> val option" where
  "top_value s n =
     (case top_value_count s of
        None \<Rightarrow> None
      | Some k \<Rightarrow> if n < k then value_at s (length (stack_cells s) - n - 1) else None)"

definition top_values :: "coroutine_stack \<Rightarrow> nat \<Rightarrow> val list option" where
  "top_values s n =
     (case top_value_count s of
        None \<Rightarrow> None
      | Some k \<Rightarrow>
          if n \<le> k then those (map (value_at s) [length (stack_cells s) - n ..< length (stack_cells s)]) else None)"

definition pop_values :: "nat \<Rightarrow> coroutine_stack \<Rightarrow> coroutine_stack option" where
  "pop_values n s =
     (case top_value_count s of
        None \<Rightarrow> None
      | Some k \<Rightarrow> if n \<le> k then Some (s\<lparr>stack_cells := take (length (stack_cells s) - n) (stack_cells s)\<rparr>) else None)"

definition pop_value :: "coroutine_stack \<Rightarrow> coroutine_stack option" where
  "pop_value s =
     (case values_begin s (top_frame_at s) of
        None \<Rightarrow> None
      | Some b \<Rightarrow>
          if length (stack_cells s) \<noteq> b then Some (s\<lparr>stack_cells := take (length (stack_cells s) - 1) (stack_cells s)\<rparr>) else None)"

definition arg_at :: "coroutine_stack \<Rightarrow> nat \<Rightarrow> u32 \<Rightarrow> nat option" where
  "arg_at s i index =
     (case frame_at s i of
        None \<Rightarrow> None
      | Some f \<Rightarrow> if index < argc f \<and> unat (argc f) \<le> i then Some (i - unat (argc f) + unat index) else None)"

definition local_at :: "coroutine_stack \<Rightarrow> nat \<Rightarrow> u32 \<Rightarrow> nat option" where
  "local_at s i index =
     (case frame_at s i of
        None \<Rightarrow> None
      | Some f \<Rightarrow>
          if index < locals_count f then Some (i + frame_size (frame_data f) + unat index) else None)"

text \<open>
  The limit of the assertion on the number of locals excludes an overflow in the computation
  of the size. The result is \<open>None\<close> for a failed assertion, otherwise it may be the null
  pointer.
\<close>

definition allocate_frame :: "coroutine_stack \<Rightarrow> nat \<Rightarrow> u32 \<Rightarrow> nat option option" where
  "allocate_frame s n nlocals =
     (if \<not> nlocals < max_locals then None
      else if stack_available s < 8 * n + 8 * unat nlocals then Some None
      else Some (Some (length (stack_cells s))))"

definition push_frame :: "frame_data \<Rightarrow> u8 \<Rightarrow> u32 \<Rightarrow> u32 \<Rightarrow> val \<Rightarrow> coroutine_stack \<Rightarrow> (bool \<times> coroutine_stack) option" where
  "push_frame d fl nargs nlocals init s =
     (case allocate_frame s (frame_size d) nlocals of
        None \<Rightarrow> None
      | Some None \<Rightarrow> Some (False, s)
      | Some (Some storage) \<Rightarrow>
          let off = (case top_frame_at s of None \<Rightarrow> 0 | Some caller \<Rightarrow> word_of_nat (8 * (storage - caller)));
              f = \<lparr>frame_data = d, flags = fl, argc = nargs, locals_count = nlocals, caller_offset = off\<rparr>
          in Some (True,
               s\<lparr>stack_cells := stack_cells s @ FrameCell f # replicate (frame_size d - 1) FrameRest
                            @ replicate (unat nlocals) (ValueCell init),
                 top_frame_at := Some storage\<rparr>))"

definition push_user_frame :: "function_template \<Rightarrow> val \<Rightarrow> u8 \<Rightarrow> coroutine_stack \<Rightarrow> (bool \<times> coroutine_stack) option" where
  "push_user_frame tmpl closure fl s =
     (case top_value_count s of
        None \<Rightarrow> None
      | Some k \<Rightarrow>
          if k < unat (tmpl_params tmpl) then None
          else push_frame (CodeFrame tmpl closure Null 0) fl (tmpl_params tmpl) (tmpl_locals tmpl) (undef s) s)"

definition push_resumable_frame :: "native_function \<Rightarrow> u32 \<Rightarrow> u8 \<Rightarrow> coroutine_stack \<Rightarrow> (bool \<times> coroutine_stack) option" where
  "push_resumable_frame func nargs fl s =
     (case top_value_count s of
        None \<Rightarrow> None
      | Some k \<Rightarrow>
          if k < unat nargs \<or> nargs < native_params func then None
          else push_frame (ResumableFrame func 0) fl nargs (native_locals func) Null s)"

definition push_catch_frame :: "u32 \<Rightarrow> u8 \<Rightarrow> coroutine_stack \<Rightarrow> (bool \<times> coroutine_stack) option" where
  "push_catch_frame nargs fl s =
     (case top_value_count s of
        None \<Rightarrow> None
      | Some k \<Rightarrow> if k < unat nargs then None else push_frame (CatchFrame Null) fl nargs 0 Null s)"

definition pop_frame :: "coroutine_stack \<Rightarrow> coroutine_stack option" where
  "pop_frame s =
     (case top_frame_at s of
        None \<Rightarrow> None
      | Some i \<Rightarrow>
          (case frame_at s i of
             None \<Rightarrow> None
           | Some f \<Rightarrow> Some (s\<lparr>stack_cells := take i (stack_cells s), top_frame_at := frame_caller i f\<rparr>)))"

text \<open>The fields of a frame are written in place.\<close>

definition set_frame :: "nat \<Rightarrow> (frame \<Rightarrow> frame) \<Rightarrow> coroutine_stack \<Rightarrow> coroutine_stack option" where
  "set_frame i upd s = map_option (\<lambda>f. s\<lparr>stack_cells := (stack_cells s)[i := FrameCell (upd f)]\<rparr>) (frame_at s i)"

text \<open>A larger stack with the same contents; the new size excludes the header of the object.\<close>

definition grow_stack :: "nat \<Rightarrow> coroutine_stack \<Rightarrow> coroutine_stack" where
  "grow_stack new_size s =
     (new_stack (undef s) new_size)\<lparr>stack_cells := stack_cells s, top_frame_at := top_frame_at s\<rparr>"


subsection \<open>The abstract stack\<close>

record stack_frame =
  sf_data :: frame_data
  sf_flags :: u8
  sf_argc :: u32
  sf_locals :: "val list"
  sf_values :: "val list"

record call_stack =
  cs_undef :: val
  cs_base :: "val list"
  cs_frames :: "stack_frame list"
  cs_end :: nat

text \<open>The values of the top frame, or those below the first one; the top is last.\<close>

definition top_vals :: "call_stack \<Rightarrow> val list" where
  "top_vals s = (case cs_frames s of [] \<Rightarrow> cs_base s | f # fs \<Rightarrow> sf_values f)"

definition set_top_vals :: "val list \<Rightarrow> call_stack \<Rightarrow> call_stack" where
  "set_top_vals vs s =
     (case cs_frames s of
        [] \<Rightarrow> s\<lparr>cs_base := vs\<rparr>
      | f # fs \<Rightarrow> s\<lparr>cs_frames := f\<lparr>sf_values := vs\<rparr> # fs\<rparr>)"

definition frame_cost :: "stack_frame \<Rightarrow> nat" where
  "frame_cost f = frame_size (sf_data f) + length (sf_locals f) + length (sf_values f)"

definition cs_used :: "call_stack \<Rightarrow> nat" where
  "cs_used s = 8 * (length (cs_base s) + sum_list (map frame_cost (cs_frames s)))"

definition cs_available :: "call_stack \<Rightarrow> nat" where
  "cs_available s = cs_end s - cs_used s"

definition cs_push_value :: "val \<Rightarrow> call_stack \<Rightarrow> bool \<times> call_stack" where
  "cs_push_value v s =
     (if cs_available s < 8 then (False, s) else (True, set_top_vals (top_vals s @ [v]) s))"

definition cs_top_values :: "nat \<Rightarrow> call_stack \<Rightarrow> val list option" where
  "cs_top_values n s =
     (let vs = top_vals s in if n \<le> length vs then Some (drop (length vs - n) vs) else None)"

definition cs_top_value :: "nat \<Rightarrow> call_stack \<Rightarrow> val option" where
  "cs_top_value n s =
     (let vs = top_vals s in if n < length vs then Some (vs ! (length vs - n - 1)) else None)"

definition cs_pop_values :: "nat \<Rightarrow> call_stack \<Rightarrow> call_stack option" where
  "cs_pop_values n s =
     (let vs = top_vals s in if n \<le> length vs then Some (set_top_vals (take (length vs - n) vs) s) else None)"

definition cs_push_frame :: "frame_data \<Rightarrow> u8 \<Rightarrow> u32 \<Rightarrow> u32 \<Rightarrow> val \<Rightarrow> call_stack \<Rightarrow> (bool \<times> call_stack) option" where
  "cs_push_frame d fl nargs nlocals init s =
     (if \<not> nlocals < max_locals then None
      else if cs_available s < 8 * (frame_size d + unat nlocals) then Some (False, s)
      else Some (True,
        s\<lparr>cs_frames := \<lparr>sf_data = d, sf_flags = fl, sf_argc = nargs,
             sf_locals = replicate (unat nlocals) init, sf_values = []\<rparr> # cs_frames s\<rparr>))"

definition cs_pop_frame :: "call_stack \<Rightarrow> call_stack option" where
  "cs_pop_frame s = (case cs_frames s of [] \<Rightarrow> None | f # fs \<Rightarrow> Some (s\<lparr>cs_frames := fs\<rparr>))"

definition cs_local :: "u32 \<Rightarrow> call_stack \<Rightarrow> val option" where
  "cs_local i s =
     (case cs_frames s of
        [] \<Rightarrow> None
      | f # fs \<Rightarrow> if unat i < length (sf_locals f) then Some (sf_locals f ! unat i) else None)"

definition cs_set_local :: "u32 \<Rightarrow> val \<Rightarrow> call_stack \<Rightarrow> call_stack option" where
  "cs_set_local i v s =
     (case cs_frames s of
        [] \<Rightarrow> None
      | f # fs \<Rightarrow>
          if unat i < length (sf_locals f)
          then Some (s\<lparr>cs_frames := f\<lparr>sf_locals := (sf_locals f)[unat i := v]\<rparr> # fs\<rparr>) else None)"

text \<open>The arguments of the top frame are the last values of its caller.\<close>

definition caller_vals :: "call_stack \<Rightarrow> val list" where
  "caller_vals s = (case cs_frames s of [] \<Rightarrow> [] | [f] \<Rightarrow> cs_base s | f # g # fs \<Rightarrow> sf_values g)"

definition cs_arg_index :: "u32 \<Rightarrow> call_stack \<Rightarrow> nat option" where
  "cs_arg_index i s =
     (case cs_frames s of
        [] \<Rightarrow> None
      | f # fs \<Rightarrow>
          if i < sf_argc f \<and> unat (sf_argc f) \<le> length (caller_vals s)
          then Some (length (caller_vals s) - unat (sf_argc f) + unat i) else None)"

definition cs_arg :: "u32 \<Rightarrow> call_stack \<Rightarrow> val option" where
  "cs_arg i s = map_option (\<lambda>k. caller_vals s ! k) (cs_arg_index i s)"

definition cs_set_arg :: "u32 \<Rightarrow> val \<Rightarrow> call_stack \<Rightarrow> call_stack option" where
  "cs_set_arg i v s =
     map_option (\<lambda>k. case cs_frames s of
          f # g # fs \<Rightarrow> s\<lparr>cs_frames := f # g\<lparr>sf_values := (sf_values g)[k := v]\<rparr> # fs\<rparr>
        | _ \<Rightarrow> s\<lparr>cs_base := (cs_base s)[k := v]\<rparr>) (cs_arg_index i s)"

definition cs_set_frame :: "(frame_data \<Rightarrow> frame_data) \<Rightarrow> (u8 \<Rightarrow> u8) \<Rightarrow> call_stack \<Rightarrow> call_stack option" where
  "cs_set_frame updd updf s =
     (case cs_frames s of
        [] \<Rightarrow> None
      | f # fs \<Rightarrow> Some (s\<lparr>cs_frames := f\<lparr>sf_data := updd (sf_data f), sf_flags := updf (sf_flags f)\<rparr> # fs\<rparr>))"

subsection \<open>How the abstract stack is laid out\<close>

definition value_cells :: "val list \<Rightarrow> cell list" where
  "value_cells vs = map ValueCell vs"

text \<open>A frame starts where its caller ends.\<close>

fun caller_distance :: "stack_frame list \<Rightarrow> u32" where
  "caller_distance [] = 0"
| "caller_distance (g # gs) = word_of_nat (8 * frame_cost g)"

definition frame_header :: "stack_frame \<Rightarrow> stack_frame list \<Rightarrow> frame" where
  "frame_header f fs =
     \<lparr>frame_data = sf_data f, flags = sf_flags f, argc = sf_argc f,
      locals_count = word_of_nat (length (sf_locals f)), caller_offset = caller_distance fs\<rparr>"

definition frame_cells :: "stack_frame \<Rightarrow> stack_frame list \<Rightarrow> cell list" where
  "frame_cells f fs = FrameCell (frame_header f fs) # replicate (frame_size (sf_data f) - 1) FrameRest @ value_cells (sf_locals f)"

fun layout :: "val list \<Rightarrow> stack_frame list \<Rightarrow> cell list" where
  "layout base [] = value_cells base"
| "layout base (f # fs) = layout base fs @ frame_cells f fs @ value_cells (sf_values f)"

fun top_index :: "val list \<Rightarrow> stack_frame list \<Rightarrow> nat option" where
  "top_index base [] = None"
| "top_index base (f # fs) = Some (length (layout base fs))"

definition concrete :: "call_stack \<Rightarrow> coroutine_stack" where
  "concrete s =
     \<lparr>undef = cs_undef s, top_frame_at = top_index (cs_base s) (cs_frames s),
      stack_cells = layout (cs_base s) (cs_frames s), stack_end = cs_end s\<rparr>"


subsection \<open>Lengths and positions\<close>

lemma frame_size_pos [simp]: "0 < frame_size d"
  by (cases d) simp_all

lemma length_value_cells [simp]: "length (value_cells vs) = length vs"
  by (simp add: value_cells_def)

lemma value_cells_append [simp]: "value_cells (xs @ ys) = value_cells xs @ value_cells ys"
  by (simp add: value_cells_def)

lemma value_cells_nth [simp]: "i < length vs \<Longrightarrow> value_cells vs ! i = ValueCell (vs ! i)"
  by (simp add: value_cells_def)

lemma value_cells_update: "i < length vs \<Longrightarrow> (value_cells vs)[i := ValueCell v] = value_cells (vs[i := v])"
  by (simp add: value_cells_def map_update)

lemma take_value_cells: "take n (value_cells vs) = value_cells (take n vs)"
  by (simp add: value_cells_def take_map)

lemma length_frame_cells: "length (frame_cells f fs) = frame_size (sf_data f) + length (sf_locals f)"
  using frame_size_pos [of "sf_data f"] by (simp add: frame_cells_def)

lemma length_layout: "length (layout base fs) = length base + sum_list (map frame_cost fs)"
  by (induction fs) (simp_all add: length_frame_cells frame_cost_def)

lemma concrete_used [simp]: "stack_used (concrete s) = cs_used s"
  by (simp add: stack_used_def cs_used_def concrete_def length_layout)

lemma concrete_available [simp]: "stack_available (concrete s) = cs_available s"
  by (simp add: stack_available_def cs_available_def) (simp add: concrete_def)

text \<open>Everything below the values of the top frame.\<close>

definition below_vals :: "call_stack \<Rightarrow> cell list" where
  "below_vals s = (case cs_frames s of [] \<Rightarrow> [] | f # fs \<Rightarrow> layout (cs_base s) fs @ frame_cells f fs)"

lemma cells_split: "stack_cells (concrete s) = below_vals s @ value_cells (top_vals s)"
  by (simp add: concrete_def below_vals_def top_vals_def split: list.split)

lemma below_set_top_vals [simp]: "below_vals (set_top_vals vs s) = below_vals s"
  by (simp add: below_vals_def set_top_vals_def frame_cells_def frame_header_def split: list.split)

lemma top_set_top_vals [simp]: "top_vals (set_top_vals vs s) = vs"
  by (simp add: top_vals_def set_top_vals_def split: list.split)

lemma concrete_eqI:
  "undef x = cs_undef s \<Longrightarrow> top_frame_at x = top_index (cs_base s) (cs_frames s)
   \<Longrightarrow> stack_cells x = below_vals s @ value_cells (top_vals s) \<Longrightarrow> stack_end x = cs_end s \<Longrightarrow> x = concrete s"
  using cells_split [of s] by (simp add: concrete_def)

text \<open>The sizes of a stack that the interpreter allows fit in 32 bits, and callers hold the arguments.\<close>

fun vals_of :: "val list \<Rightarrow> stack_frame list \<Rightarrow> val list" where
  "vals_of base [] = base"
| "vals_of base (f # fs) = sf_values f"

fun args_present :: "val list \<Rightarrow> stack_frame list \<Rightarrow> bool" where
  "args_present base [] = True"
| "args_present base (f # fs) = (unat (sf_argc f) \<le> length (vals_of base fs) \<and> args_present base fs)"

definition wf_stack :: "call_stack \<Rightarrow> bool" where
  "wf_stack s \<longleftrightarrow> cs_used s \<le> cs_end s \<and> cs_end s \<le> 2 ^ 24 \<and> args_present (cs_base s) (cs_frames s)"

lemma frame_cost_bound: "wf_stack s \<Longrightarrow> f \<in> set (cs_frames s) \<Longrightarrow> 8 * frame_cost f \<le> 2 ^ 24"
proof -
  assume wf: "wf_stack s" and f: "f \<in> set (cs_frames s)"
  have "frame_cost f \<le> sum_list (map frame_cost (cs_frames s))"
    using f by (intro member_le_sum_list) auto
  with wf show ?thesis by (simp add: wf_stack_def cs_used_def)
qed

lemma unat_locals_count:
  assumes "wf_stack s" and "f \<in> set (cs_frames s)"
  shows "unat (locals_count (frame_header f fs)) = length (sf_locals f)"
proof -
  have "length (sf_locals f) < 2 ^ 32"
    using frame_cost_bound [OF assms] by (simp add: frame_cost_def)
  then show ?thesis by (simp add: frame_header_def unat_of_nat)
qed

lemma frame_at_top:
  "cs_frames s = f # fs \<Longrightarrow>
   frame_at (concrete s) (length (layout (cs_base s) fs)) = Some (frame_header f fs)"
  by (simp add: frame_at_def concrete_def frame_cells_def)

lemma values_begin_top:
  assumes "wf_stack s"
  shows "values_begin (concrete s) (top_frame_at (concrete s)) = Some (length (below_vals s))"
proof (cases "cs_frames s")
  case Nil
  then show ?thesis by (simp add: values_begin_def concrete_def below_vals_def)
next
  case (Cons f fs)
  have "top_frame_at (concrete s) = Some (length (layout (cs_base s) fs))"
    by (simp add: concrete_def Cons)
  then show ?thesis
    using frame_at_top [OF Cons] unat_locals_count [OF assms, of f fs] Cons
    by (simp add: values_begin_def below_vals_def length_frame_cells) (simp add: frame_header_def)
qed

lemma top_value_count_top:
  "wf_stack s \<Longrightarrow> top_value_count (concrete s) = Some (length (top_vals s))"
  by (simp add: top_value_count_def values_begin_top cells_split)

subsection \<open>Values\<close>

lemma concrete_set_top_vals:
  "(concrete s)\<lparr>stack_cells := below_vals s @ value_cells vs\<rparr> = concrete (set_top_vals vs s)"
  by (rule concrete_eqI)
     (simp_all add: concrete_def set_top_vals_def below_vals_def top_vals_def frame_cells_def frame_header_def
       split: list.split)

lemma push_value_concrete:
  "push_value v (concrete s) = (case cs_push_value v s of (ok, s') \<Rightarrow> (ok, concrete s'))"
  using concrete_set_top_vals [of s "top_vals s @ [v]"]
  by (simp add: push_value_def cs_push_value_def cells_split) (simp add: value_cells_def)

lemma value_at_below:
  "value_at (concrete s) (length (below_vals s) + i) = (if i < length (top_vals s) then Some (top_vals s ! i) else None)"
  by (simp add: value_at_def cells_split nth_append)

lemma top_value_concrete: "wf_stack s \<Longrightarrow> top_value (concrete s) n = cs_top_value n s"
proof -
  assume wf: "wf_stack s"
  have "value_at (concrete s) (length (stack_cells (concrete s)) - n - 1) = Some (top_vals s ! (length (top_vals s) - n - 1))"
    if "n < length (top_vals s)"
    using that value_at_below [of s "length (top_vals s) - n - 1"] by (simp add: cells_split)
  then show ?thesis by (simp add: top_value_def top_value_count_top [OF wf] cs_top_value_def Let_def)
qed

lemma those_map_Some: "those (map (\<lambda>x. Some (f x)) xs) = Some (map f xs)"
  by (induction xs) simp_all

lemma top_values_concrete: "wf_stack s \<Longrightarrow> top_values (concrete s) n = cs_top_values n s"
proof -
  assume wf: "wf_stack s"
  let ?b = "length (below_vals s)" and ?vs = "top_vals s"
  have "those (map (value_at (concrete s)) [?b + length ?vs - n ..< ?b + length ?vs]) = Some (drop (length ?vs - n) ?vs)"
    if n: "n \<le> length ?vs"
  proof -
    have "[?b + length ?vs - n ..< ?b + length ?vs] = map (\<lambda>i. ?b + i) [length ?vs - n ..< length ?vs]"
      using n map_add_upt [of ?b] by (intro nth_equalityI) auto
    moreover have "map (value_at (concrete s)) (map (\<lambda>i. ?b + i) [length ?vs - n ..< length ?vs])
        = map (\<lambda>i. Some (?vs ! i)) [length ?vs - n ..< length ?vs]"
      by (simp add: value_at_below)
    moreover have "map (\<lambda>i. ?vs ! i) [length ?vs - n ..< length ?vs] = drop (length ?vs - n) ?vs"
      by (intro nth_equalityI) auto
    ultimately show ?thesis by (simp only: those_map_Some)
  qed
  then show ?thesis
    by (simp add: top_values_def top_value_count_top [OF wf] cs_top_values_def Let_def cells_split)
qed

lemma pop_values_concrete: "wf_stack s \<Longrightarrow> pop_values n (concrete s) = map_option concrete (cs_pop_values n s)"
  using concrete_set_top_vals [of s]
  by (simp add: pop_values_def top_value_count_top cs_pop_values_def Let_def cells_split take_value_cells)

lemma pop_value_concrete: "wf_stack s \<Longrightarrow> pop_value (concrete s) = map_option concrete (cs_pop_values 1 s)"
  using concrete_set_top_vals [of s]
  by (cases "top_vals s")
     (simp_all add: pop_value_def values_begin_top cs_pop_values_def Let_def cells_split take_value_cells)


subsection \<open>Frames\<close>

lemma push_frame_concrete:
  assumes "wf_stack s"
  shows "push_frame d fl nargs nlocals init (concrete s)
    = map_option (map_prod id concrete) (cs_push_frame d fl nargs nlocals init s)"
proof -
  have off: "(case top_frame_at (concrete s) of None \<Rightarrow> 0
      | Some caller \<Rightarrow> word_of_nat (8 * (length (stack_cells (concrete s)) - caller))) = caller_distance (cs_frames s)"
    by (cases "cs_frames s") (simp_all add: concrete_def length_frame_cells frame_cost_def)
  have vals: "replicate (unat nlocals) (ValueCell init) = value_cells (replicate (unat nlocals) init)"
    by (simp add: value_cells_def)
  have empty: "value_cells [] = []" by (simp add: value_cells_def)
  show ?thesis
    by (simp add: push_frame_def allocate_frame_def cs_push_frame_def off Let_def vals distrib_left)
       (simp add: concrete_def frame_cells_def frame_header_def empty)
qed

lemma push_user_frame_concrete:
  "wf_stack s \<Longrightarrow> push_user_frame tmpl closure fl (concrete s) =
     (if length (top_vals s) < unat (tmpl_params tmpl) then None
      else map_option (map_prod id concrete)
        (cs_push_frame (CodeFrame tmpl closure Null 0) fl (tmpl_params tmpl) (tmpl_locals tmpl) (cs_undef s) s))"
  by (simp add: push_user_frame_def top_value_count_top push_frame_concrete) (simp add: concrete_def)

lemma push_resumable_frame_concrete:
  "wf_stack s \<Longrightarrow> push_resumable_frame func nargs fl (concrete s) =
     (if length (top_vals s) < unat nargs \<or> nargs < native_params func then None
      else map_option (map_prod id concrete)
        (cs_push_frame (ResumableFrame func 0) fl nargs (native_locals func) Null s))"
  by (simp add: push_resumable_frame_def top_value_count_top push_frame_concrete)

lemma push_catch_frame_concrete:
  "wf_stack s \<Longrightarrow> push_catch_frame nargs fl (concrete s) =
     (if length (top_vals s) < unat nargs then None
      else map_option (map_prod id concrete) (cs_push_frame (CatchFrame Null) fl nargs 0 Null s))"
  by (simp add: push_catch_frame_def top_value_count_top push_frame_concrete)

lemma caller_distance_bound:
  assumes "wf_stack s" and "g \<in> set (cs_frames s)"
  shows "unat (caller_distance (g # gs)) = 8 * frame_cost g" and "caller_distance (g # gs) \<noteq> 0"
proof -
  have "8 * frame_cost g < 2 ^ 32" using frame_cost_bound [OF assms] by simp
  then show u: "unat (caller_distance (g # gs)) = 8 * frame_cost g"
    by (simp add: unat_of_nat del: of_nat_mult)
  have "0 < frame_cost g" using frame_size_pos [of "sf_data g"] by (simp add: frame_cost_def)
  with u show "caller_distance (g # gs) \<noteq> 0" by (metis less_numeral_extra(3) mult_is_0 unat_0 zero_neq_numeral)
qed

lemma pop_frame_concrete: "wf_stack s \<Longrightarrow> pop_frame (concrete s) = map_option concrete (cs_pop_frame s)"
proof (cases "cs_frames s")
  case Nil
  then show ?thesis by (simp add: pop_frame_def cs_pop_frame_def concrete_def)
next
  case (Cons f fs)
  assume wf: "wf_stack s"
  have top: "top_frame_at (concrete s) = Some (length (layout (cs_base s) fs))"
    by (simp add: concrete_def Cons)
  have "frame_caller (length (layout (cs_base s) fs)) (frame_header f fs) = top_index (cs_base s) fs"
  proof (cases fs)
    case Nil
    then show ?thesis by (simp add: frame_caller_def frame_header_def)
  next
    case (Cons g gs)
    with \<open>cs_frames s = f # fs\<close> caller_distance_bound [OF wf, of g gs] show ?thesis
      by (simp add: frame_caller_def frame_header_def length_layout length_frame_cells frame_cost_def)
  qed
  then show ?thesis
    using frame_at_top [OF Cons] top
    by (simp add: pop_frame_def cs_pop_frame_def Cons) (simp add: concrete_def Cons)
qed

lemma set_frame_concrete:
  assumes "\<And>d. frame_size (updd d) = frame_size d"
  shows "Option.bind (top_frame_at (concrete s))
      (\<lambda>i. set_frame i (\<lambda>f. f\<lparr>frame_data := updd (frame_data f), flags := updf (flags f)\<rparr>) (concrete s))
    = map_option concrete (cs_set_frame updd updf s)"
proof (cases "cs_frames s")
  case Nil
  then show ?thesis by (simp add: cs_set_frame_def concrete_def)
next
  case (Cons f fs)
  have top: "top_frame_at (concrete s) = Some (length (layout (cs_base s) fs))"
    by (simp add: concrete_def Cons)
  show ?thesis
    using frame_at_top [OF Cons]
    by (simp add: top set_frame_def cs_set_frame_def Cons)
       (simp add: concrete_def Cons list_update_append frame_cells_def frame_header_def assms)
qed

subsection \<open>Local variables and arguments\<close>

lemma local_position:
  assumes "wf_stack s" and "cs_frames s = f # fs"
  shows "local_at (concrete s) (length (layout (cs_base s) fs)) i =
    (if unat i < length (sf_locals f)
     then Some (length (layout (cs_base s) fs) + frame_size (sf_data f) + unat i) else None)"
proof -
  have "unat (locals_count (frame_header f fs)) = length (sf_locals f)"
    using unat_locals_count [OF assms(1)] assms(2) by simp
  then have "i < locals_count (frame_header f fs) \<longleftrightarrow> unat i < length (sf_locals f)"
    by (simp add: word_less_nat_alt)
  then show ?thesis
    using frame_at_top [OF assms(2)] by (simp add: local_at_def) (simp add: frame_header_def)
qed

text \<open>The cells of a frame before its local variables.\<close>

definition before_locals :: "call_stack \<Rightarrow> stack_frame \<Rightarrow> stack_frame list \<Rightarrow> cell list" where
  "before_locals s f fs =
     layout (cs_base s) fs @ FrameCell (frame_header f fs) # replicate (frame_size (sf_data f) - 1) FrameRest"

lemma length_before_locals: "length (before_locals s f fs) = length (layout (cs_base s) fs) + frame_size (sf_data f)"
  using frame_size_pos [of "sf_data f"] by (simp add: before_locals_def)

lemma cells_around_locals:
  "cs_frames s = f # fs \<Longrightarrow>
   stack_cells (concrete s) = before_locals s f fs @ value_cells (sf_locals f) @ value_cells (sf_values f)"
  by (simp add: concrete_def before_locals_def frame_cells_def)

lemma local_concrete:
  assumes "wf_stack s"
  shows "Option.bind (Option.bind (top_frame_at (concrete s)) (\<lambda>fr. local_at (concrete s) fr i)) (value_at (concrete s))
    = cs_local i s"
proof (cases "cs_frames s")
  case Nil
  then show ?thesis by (simp add: cs_local_def concrete_def)
next
  case (Cons f fs)
  have top: "top_frame_at (concrete s) = Some (length (layout (cs_base s) fs))"
    by (simp add: concrete_def Cons)
  have "value_at (concrete s) (length (before_locals s f fs) + unat i) = Some (sf_locals f ! unat i)"
    if "unat i < length (sf_locals f)"
    using that by (simp add: value_at_def cells_around_locals [OF Cons] nth_append)
  then show ?thesis
    by (simp add: top local_position [OF assms Cons] cs_local_def Cons length_before_locals)
qed

lemma set_local_concrete:
  assumes "wf_stack s"
  shows "Option.bind (Option.bind (top_frame_at (concrete s)) (\<lambda>fr. local_at (concrete s) fr i))
      (\<lambda>k. set_value_at (concrete s) k v)
    = map_option concrete (cs_set_local i v s)"
proof (cases "cs_frames s")
  case Nil
  then show ?thesis by (simp add: cs_set_local_def concrete_def)
next
  case (Cons f fs)
  have top: "top_frame_at (concrete s) = Some (length (layout (cs_base s) fs))"
    by (simp add: concrete_def Cons)
  show ?thesis
  proof (cases "unat i < length (sf_locals f)")
    case True
    let ?s = "s\<lparr>cs_frames := f\<lparr>sf_locals := (sf_locals f)[unat i := v]\<rparr> # fs\<rparr>"
    have "(stack_cells (concrete s))[length (before_locals s f fs) + unat i := ValueCell v] = stack_cells (concrete ?s)"
      unfolding cells_around_locals [OF Cons] list_update_append
      using True
      by (simp add: concrete_def before_locals_def frame_cells_def frame_header_def value_cells_update list_update_append)
    then have "set_value_at (concrete s) (length (before_locals s f fs) + unat i) v = Some (concrete ?s)"
      unfolding set_value_at_def
      using True by (simp add: cells_around_locals [OF Cons] length_before_locals length_frame_cells) (simp add: concrete_def Cons)
    with True show ?thesis
      by (simp add: top local_position [OF assms Cons] cs_set_local_def Cons length_before_locals)
  qed (simp add: top local_position [OF assms Cons] cs_set_local_def Cons)
qed


lemma arg_count_present: "wf_stack s \<Longrightarrow> cs_frames s = f # fs \<Longrightarrow> unat (sf_argc f) \<le> length (caller_vals s)"
  by (cases fs) (simp_all add: wf_stack_def caller_vals_def)

text \<open>The frame below the top one ends with the values of the caller.\<close>

definition below_caller_vals :: "call_stack \<Rightarrow> cell list" where
  "below_caller_vals s =
     (case cs_frames s of f # g # fs \<Rightarrow> layout (cs_base s) fs @ frame_cells g fs | _ \<Rightarrow> [])"

lemma layout_caller:
  "cs_frames s = f # fs \<Longrightarrow> layout (cs_base s) fs = below_caller_vals s @ value_cells (caller_vals s)"
  by (cases fs) (simp_all add: below_caller_vals_def caller_vals_def)

lemma arg_position:
  assumes "wf_stack s" and "cs_frames s = f # fs"
  shows "arg_at (concrete s) (length (layout (cs_base s) fs)) i
    = map_option (\<lambda>k. length (below_caller_vals s) + k) (cs_arg_index i s)"
proof -
  have "argc (frame_header f fs) = sf_argc f" by (simp add: frame_header_def)
  then show ?thesis
    using frame_at_top [OF assms(2)] arg_count_present [OF assms]
    by (simp add: arg_at_def cs_arg_index_def assms(2) layout_caller [OF assms(2)] add.assoc)
qed

lemma cs_arg_index_bound: "cs_arg_index i s = Some k \<Longrightarrow> k < length (caller_vals s)"
proof -
  assume k: "cs_arg_index i s = Some k"
  then obtain f fs where "cs_frames s = f # fs" "i < sf_argc f" "unat (sf_argc f) \<le> length (caller_vals s)"
    "k = length (caller_vals s) - unat (sf_argc f) + unat i"
    by (auto simp: cs_arg_index_def split: list.split_asm if_splits)
  then show ?thesis by (simp add: word_less_nat_alt)
qed

lemma arg_concrete:
  assumes "wf_stack s"
  shows "Option.bind (Option.bind (top_frame_at (concrete s)) (\<lambda>fr. arg_at (concrete s) fr i)) (value_at (concrete s))
    = cs_arg i s"
proof (cases "cs_frames s")
  case Nil
  then show ?thesis by (simp add: cs_arg_def cs_arg_index_def concrete_def)
next
  case (Cons f fs)
  have top: "top_frame_at (concrete s) = Some (length (layout (cs_base s) fs))"
    by (simp add: concrete_def Cons)
  have "value_at (concrete s) (length (below_caller_vals s) + k) = Some (caller_vals s ! k)"
    if "k < length (caller_vals s)" for k
    using that by (simp add: value_at_def concrete_def Cons layout_caller [OF Cons] nth_append)
  then show ?thesis
    by (cases "cs_arg_index i s")
       (simp_all add: top arg_position [OF assms Cons] cs_arg_def cs_arg_index_bound)
qed

lemma set_arg_concrete:
  assumes "wf_stack s"
  shows "Option.bind (Option.bind (top_frame_at (concrete s)) (\<lambda>fr. arg_at (concrete s) fr i))
      (\<lambda>k. set_value_at (concrete s) k v)
    = map_option concrete (cs_set_arg i v s)"
proof (cases "cs_arg_index i s")
  case None
  show ?thesis
  proof (cases "cs_frames s")
    case Nil
    then show ?thesis by (simp add: None cs_set_arg_def concrete_def)
  next
    case (Cons f fs)
    have "top_frame_at (concrete s) = Some (length (layout (cs_base s) fs))"
      by (simp add: concrete_def Cons)
    then show ?thesis by (simp add: None cs_set_arg_def arg_position [OF assms Cons])
  qed
next
  case (Some k)
  then obtain f fs where Cons: "cs_frames s = f # fs"
    by (auto simp: cs_arg_index_def split: list.split_asm)
  have top: "top_frame_at (concrete s) = Some (length (layout (cs_base s) fs))"
    by (simp add: concrete_def Cons)
  note k = cs_arg_index_bound [OF Some]
  have "set_value_at (concrete s) (length (below_caller_vals s) + k) v = map_option concrete (cs_set_arg i v s)"
  proof (cases fs)
    case Nil
    then show ?thesis
      using k Cons Some
      by (simp add: set_value_at_def cs_set_arg_def concrete_def below_caller_vals_def caller_vals_def
          list_update_append value_cells_update frame_cells_def frame_header_def)
  next
    case (Cons g gs)
    with \<open>cs_frames s = f # fs\<close> show ?thesis
      using k Some
      by (simp add: set_value_at_def cs_set_arg_def concrete_def below_caller_vals_def caller_vals_def
          list_update_append value_cells_update frame_cells_def frame_header_def frame_cost_def)
  qed
  then show ?thesis by (simp add: top arg_position [OF assms Cons] Some)
qed

lemma grow_concrete: "grow_stack n (concrete s) = concrete (s\<lparr>cs_end := n\<rparr>)"
  by (simp add: grow_stack_def new_stack_def concrete_def)


subsection \<open>The operations keep the stack well formed\<close>

lemma wf_new: "n \<le> 2 ^ 24 \<Longrightarrow> wf_stack \<lparr>cs_undef = u, cs_base = [], cs_frames = [], cs_end = n\<rparr>"
  by (simp add: wf_stack_def cs_used_def)

lemma wf_set_top_vals:
  assumes "wf_stack s" and "length vs \<le> length (top_vals s) \<or> 8 * (length vs - length (top_vals s)) \<le> cs_available s"
  shows "wf_stack (set_top_vals vs s)"
  using assms
  by (cases "cs_frames s")
     (auto simp: wf_stack_def set_top_vals_def top_vals_def cs_used_def cs_available_def frame_cost_def)

lemma wf_push_value: "wf_stack s \<Longrightarrow> cs_push_value v s = (ok, s') \<Longrightarrow> wf_stack s'"
  using wf_set_top_vals [of s "top_vals s @ [v]"] by (auto simp: cs_push_value_def split: if_splits)

lemma wf_pop_values: "wf_stack s \<Longrightarrow> cs_pop_values n s = Some s' \<Longrightarrow> wf_stack s'"
  using wf_set_top_vals [of s "take (length (top_vals s) - n) (top_vals s)"]
  by (auto simp: cs_pop_values_def Let_def)

lemma top_vals_of: "top_vals s = vals_of (cs_base s) (cs_frames s)"
  by (cases "cs_frames s") (simp_all add: top_vals_def)

lemma wf_push_frame:
  "wf_stack s \<Longrightarrow> unat nargs \<le> length (top_vals s)
   \<Longrightarrow> cs_push_frame d fl nargs nlocals init s = Some (ok, s') \<Longrightarrow> wf_stack s'"
  by (auto simp: cs_push_frame_def wf_stack_def cs_used_def cs_available_def frame_cost_def top_vals_of
      split: if_splits)

lemma wf_pop_frame: "wf_stack s \<Longrightarrow> cs_pop_frame s = Some s' \<Longrightarrow> wf_stack s'"
  by (cases "cs_frames s") (auto simp: cs_pop_frame_def wf_stack_def cs_used_def)

lemma wf_set_local: "wf_stack s \<Longrightarrow> cs_set_local i v s = Some s' \<Longrightarrow> wf_stack s'"
  by (cases "cs_frames s")
     (auto simp: cs_set_local_def wf_stack_def cs_used_def frame_cost_def split: if_splits)

lemma args_present_base: "length base = length base' \<Longrightarrow> args_present base fs = args_present base' fs"
proof (induction fs)
  case (Cons f fs)
  then show ?case by (cases fs) simp_all
qed simp

lemma wf_set_arg:
  assumes "wf_stack s" and "cs_set_arg i v s = Some s'"
  shows "wf_stack s'"
proof (cases "cs_frames s")
  case Nil
  with assms(2) show ?thesis by (simp add: cs_set_arg_def cs_arg_index_def)
next
  case (Cons f fs)
  with assms show ?thesis
    using args_present_base [of "(cs_base s)[k := v]" "cs_base s" for k]
    by (cases fs) (auto simp: cs_set_arg_def wf_stack_def cs_used_def frame_cost_def)
qed

lemma wf_set_frame:
  "wf_stack s \<Longrightarrow> (\<And>d. frame_size (updd d) = frame_size d) \<Longrightarrow> cs_set_frame updd updf s = Some s' \<Longrightarrow> wf_stack s'"
  by (cases "cs_frames s") (auto simp: cs_set_frame_def wf_stack_def cs_used_def frame_cost_def)

lemma wf_grow: "wf_stack s \<Longrightarrow> cs_end s \<le> n \<Longrightarrow> n \<le> 2 ^ 24 \<Longrightarrow> wf_stack (s\<lparr>cs_end := n\<rparr>)"
  by (simp add: wf_stack_def cs_used_def)

lemmas wf_stack_ops = wf_push_value wf_pop_values wf_push_frame wf_pop_frame wf_set_local wf_set_arg
  wf_set_frame

subsection \<open>Properties\<close>

text \<open>
  C20: the contiguous memory of a coroutine stack implements a list of frames. On the layout
  of every well-formed stack, the operations of the code compute the layout of what the
  operations on the list of frames compute, fail exactly when those fail, and read the same
  values: pushing and popping of values and frames, access to the local variables and
  arguments of the top frame by pointer arithmetic, and growth.
\<close>

theorem coroutine_stack_refines:
  assumes "wf_stack s"
  shows "push_value v (concrete s) = (case cs_push_value v s of (ok, s') \<Rightarrow> (ok, concrete s'))
    \<and> pop_values n (concrete s) = map_option concrete (cs_pop_values n s)
    \<and> top_values (concrete s) n = cs_top_values n s
    \<and> push_user_frame tmpl closure fl (concrete s) =
        (if length (top_vals s) < unat (tmpl_params tmpl) then None
         else map_option (map_prod id concrete)
           (cs_push_frame (CodeFrame tmpl closure Null 0) fl (tmpl_params tmpl) (tmpl_locals tmpl) (cs_undef s) s))
    \<and> pop_frame (concrete s) = map_option concrete (cs_pop_frame s)
    \<and> Option.bind (Option.bind (top_frame_at (concrete s)) (\<lambda>fr. local_at (concrete s) fr i)) (value_at (concrete s))
        = cs_local i s
    \<and> Option.bind (Option.bind (top_frame_at (concrete s)) (\<lambda>fr. local_at (concrete s) fr i))
        (\<lambda>k. set_value_at (concrete s) k v) = map_option concrete (cs_set_local i v s)
    \<and> Option.bind (Option.bind (top_frame_at (concrete s)) (\<lambda>fr. arg_at (concrete s) fr i)) (value_at (concrete s))
        = cs_arg i s
    \<and> grow_stack n (concrete s) = concrete (s\<lparr>cs_end := n\<rparr>)"
  using push_value_concrete pop_values_concrete [OF assms] top_values_concrete [OF assms]
    push_user_frame_concrete [OF assms] pop_frame_concrete [OF assms] local_concrete [OF assms]
    set_local_concrete [OF assms] arg_concrete [OF assms] grow_concrete
  by (intro conjI) blast+

definition example_stack :: call_stack where
  "example_stack =
     \<lparr>cs_undef = Undefined 8, cs_base = [SmallInteger 1],
      cs_frames = [\<lparr>sf_data = CatchFrame Null, sf_flags = 4, sf_argc = 1, sf_locals = [],
                    sf_values = [SmallInteger 2, SmallInteger 3]\<rparr>],
      cs_end = 472\<rparr>"

theorem coroutine_stack_refines_witness:
  "wf_stack example_stack
   \<and> stack_cells (concrete example_stack) =
       [ValueCell (SmallInteger 1),
        FrameCell \<lparr>frame_data = CatchFrame Null, flags = 4, argc = 1, locals_count = 0, caller_offset = 0\<rparr>,
        FrameRest, FrameRest, ValueCell (SmallInteger 2), ValueCell (SmallInteger 3)]
   \<and> top_values (concrete example_stack) 2 = Some [SmallInteger 2, SmallInteger 3]
   \<and> map_option stack_cells (pop_frame (concrete example_stack)) = Some [ValueCell (SmallInteger 1)]"
proof -
  have wf: "wf_stack example_stack"
    by (simp add: wf_stack_def example_stack_def cs_used_def frame_cost_def)
  from coroutine_stack_refines [OF wf, of Null 2] wf show ?thesis
    by (simp add: example_stack_def cs_top_values_def top_vals_def cs_pop_frame_def)
       (simp add: concrete_def value_cells_def frame_cells_def frame_header_def numeral_2_eq_2)
qed

end
