(* ===== verification/Interpreter.thy ===== *)
theory Interpreter
  imports CoroutineStack VmMath
begin

text \<open>
  The bytecode interpreter (src/vm/interpreter.hpp and interpreter.cpp) on the abstract stack
  of a coroutine. A step executes one instruction of the top frame, or resumes a native
  function, or continues a frame that catches exceptions; the loop of the code repeats steps
  while the coroutine is running.

  The heap holds the objects that the interpreter looks into. What the type system
  (src/vm/type_system.cpp), the other object classes and native functions compute is a
  parameter, the record \<open>runtime\<close>: its functions take and return the world. An operation that
  may throw returns an exception object on the left. The registers that keep temporary values
  alive for the garbage collector have no counterpart.

  A fault is a failed assertion, undefined behaviour, or a fatal error (\<open>TIRO_ERROR\<close>), the
  latter with names that start with \<open>Fatal\<close>.
\<close>

subsection \<open>State\<close>

datatype heap_object =
    TupleObject "val list"
  | EnvironmentObject val "val list"
  | TemplateObject function_template
  | CodeFunctionObject function_template val
  | BoundMethodObject val val
  | NativeFunctionObject native_function
  | CatchFunctionObject
  | MethodObject val
  | RecordSchemaObject "bytes list"
  | StringBuilderObject
  | MapObject hash_table
  | ResultObject bool val
  | ExceptionObject
  | NumberObject
  | OtherObject nat

record world =
  heap :: "addr \<rightharpoonup> heap_object"
  modules :: "addr \<rightharpoonup> val list"
  secondary :: "addr \<Rightarrow> val list"

datatype exception_message =
    MathMessage math_error
  | ExpectedTuple val | InvalidTupleIndex u32 | ExpectedEnvironment val | TooManyLevels u32
  | EnvironmentIndexTooLarge u32 | VariableUndefined u32 | ParentNotEnvironment
  | ExpectedBuilder val | CannotPop | AssertionNotString val | AssertionMessageNotString val
  | AssertionFailed val val | MissingArguments u32 u32 | CallNotSupported val
  | TableMessage table_error

datatype native_action = NoAction | InvokeAction val "val list option" | YieldAction | ReturnAction val | PanicAction val

datatype coroutine_state = New | Started | Ready | Running | Waiting | Done

text \<open>What a native function did: its next state and locals, the state of the coroutine, the action.\<close>

record native_result =
  nr_state :: int
  nr_locals :: "nat \<Rightarrow> val"
  nr_coroutine :: coroutine_state
  nr_action :: native_action
  nr_world :: world

record runtime =
  rt_address :: "world \<Rightarrow> addr"
  rt_message :: "exception_message \<Rightarrow> world \<Rightarrow> world"
  rt_boolean :: "bool \<Rightarrow> addr"
  rt_float :: float_ops
  rt_load_member :: "val \<Rightarrow> addr \<Rightarrow> world \<Rightarrow> (val + val) \<times> world"
  rt_store_member :: "val \<Rightarrow> addr \<Rightarrow> val \<Rightarrow> world \<Rightarrow> (val + unit) \<times> world"
  rt_load_index :: "val \<Rightarrow> val \<Rightarrow> world \<Rightarrow> (val + val) \<times> world"
  rt_store_index :: "val \<Rightarrow> val \<Rightarrow> val \<Rightarrow> world \<Rightarrow> (val + unit) \<times> world"
  rt_load_method :: "val \<Rightarrow> addr \<Rightarrow> world \<Rightarrow> (val + val) \<times> world"
  rt_iterator :: "val \<Rightarrow> world \<Rightarrow> (val + val) \<times> world"
  rt_iterator_next :: "val \<Rightarrow> world \<Rightarrow> (val + val option) \<times> world"
  rt_make_array :: "val list \<Rightarrow> world \<Rightarrow> val \<times> world"
  rt_make_set :: "val list \<Rightarrow> world \<Rightarrow> (val + val) \<times> world"
  rt_make_record :: "bytes list \<Rightarrow> world \<Rightarrow> val \<times> world"
  rt_append_format :: "val \<Rightarrow> val \<Rightarrow> world \<Rightarrow> world"
  rt_format_result :: "val \<Rightarrow> world \<Rightarrow> val \<times> world"
  rt_invoke :: "native_function \<Rightarrow> int \<Rightarrow> val list \<Rightarrow> val list \<Rightarrow> val list \<Rightarrow> world \<Rightarrow> native_result"

record machine =
  the_world :: world
  co_stack :: "call_stack option"
  co_state :: coroutine_state
  co_function :: val
  co_arguments :: "val list option"
  co_result :: val

datatype fault =
    NoActiveStack | NoActiveFrame | BadInstruction | LocalRange | ParamRange | MemberRange | JumpRange
  | ValuesMissing | ClosureMissing | ExceptionMissing | EnvironmentMissing | EnvironmentEmpty | BadCast | NestedMethod
  | CatchNotStarted | CatchArguments | LocalsLimit | IllegalState | NegationUndefined | MapFailed
  | FatalStackOverflow | FatalStackFull | FatalUndefinedMember | FatalNotImplemented

type_synonym 'a exec = "machine \<Rightarrow> fault + 'a \<times> machine"

definition ret :: "'a \<Rightarrow> 'a exec" where
  "ret x m = Inr (x, m)"

definition fail :: "fault \<Rightarrow> 'a exec" where
  "fail err m = Inl err"

definition bind_exec :: "'a exec \<Rightarrow> ('a \<Rightarrow> 'b exec) \<Rightarrow> 'b exec" where
  "bind_exec x f m = (case x m of Inl err \<Rightarrow> Inl err | Inr (a, m') \<Rightarrow> f a m')"

definition query :: "(machine \<Rightarrow> fault + 'a) \<Rightarrow> 'a exec" where
  "query f m = (case f m of Inl err \<Rightarrow> Inl err | Inr a \<Rightarrow> Inr (a, m))"

definition on_world :: "(world \<Rightarrow> 'a \<times> world) \<Rightarrow> 'a exec" where
  "on_world f m = (case f (the_world m) of (a, w) \<Rightarrow> Inr (a, m\<lparr>the_world := w\<rparr>))"

definition read_world :: "(world \<Rightarrow> 'a) \<Rightarrow> 'a exec" where
  "read_world f m = Inr (f (the_world m), m)"

definition query_stack :: "(call_stack \<Rightarrow> 'a option) \<Rightarrow> fault \<Rightarrow> 'a exec" where
  "query_stack f err m =
     (case co_stack m of
        None \<Rightarrow> Inl NoActiveStack
      | Some s \<Rightarrow> (case f s of None \<Rightarrow> Inl err | Some a \<Rightarrow> Inr (a, m)))"

definition change_stack :: "(call_stack \<Rightarrow> call_stack option) \<Rightarrow> fault \<Rightarrow> unit exec" where
  "change_stack f err m =
     (case co_stack m of
        None \<Rightarrow> Inl NoActiveStack
      | Some s \<Rightarrow> (case f s of None \<Rightarrow> Inl err | Some s' \<Rightarrow> Inr ((), m\<lparr>co_stack := Some s'\<rparr>)))"

definition change_coroutine :: "(machine \<Rightarrow> machine) \<Rightarrow> unit exec" where
  "change_coroutine f m = Inr ((), f m)"

subsection \<open>Growth of the stack\<close>

text \<open>The size of a stack object includes a header of 40 bytes.\<close>

definition stack_header :: nat where
  "stack_header = 40"

definition max_stack_size :: nat where
  "max_stack_size = 2 ^ 24"

definition initial_stack_size :: nat where
  "initial_stack_size = 2 ^ 9"

text \<open>
  The loop that doubles the stack until the condition holds. The condition changes the stack
  when it holds (it pushes a frame); sizes are below the limit, so the doubling of the source
  in 32 bits does not overflow.
\<close>

function grow_loop :: "(call_stack \<Rightarrow> (bool \<times> call_stack) option) \<Rightarrow> call_stack \<Rightarrow> fault + call_stack" where
  "grow_loop cond s =
     (let next_size = 2 * (cs_end s + stack_header)
      in if max_stack_size < next_size then Inl FatalStackOverflow
         else let s = s\<lparr>cs_end := next_size - stack_header\<rparr>
              in case cond s of
                   None \<Rightarrow> Inl LocalsLimit
                 | Some (ok, s') \<Rightarrow> if ok then Inr s' else grow_loop cond s)"
  by pat_completeness auto
termination
  by (relation "measure (\<lambda>(cond, s). max_stack_size - cs_end s)") (auto simp: stack_header_def)

declare grow_loop.simps [simp del]

definition grow_stack_impl :: "(call_stack \<Rightarrow> (bool \<times> call_stack) option) \<Rightarrow> unit exec" where
  "grow_stack_impl cond m =
     (case co_stack m of
        None \<Rightarrow> Inl NoActiveStack
      | Some s \<Rightarrow>
          (case cond s of
             None \<Rightarrow> Inl LocalsLimit
           | Some (ok, s') \<Rightarrow>
               if ok then Inr ((), m\<lparr>co_stack := Some s'\<rparr>)
               else case grow_loop cond s of
                      Inl err \<Rightarrow> Inl err
                    | Inr s'' \<Rightarrow> Inr ((), m\<lparr>co_stack := Some s''\<rparr>)))"

definition reserve_values :: "nat \<Rightarrow> unit exec" where
  "reserve_values n = grow_stack_impl (\<lambda>s. Some (n \<le> cs_available s div 8, s))"

definition must_push_value :: "val \<Rightarrow> unit exec" where
  "must_push_value v =
     change_stack (\<lambda>s. case cs_push_value v s of (ok, s') \<Rightarrow> if ok then Some s' else None) FatalStackFull"

definition check_values :: "nat \<Rightarrow> unit exec" where
  "check_values n = query_stack (\<lambda>s. if n \<le> length (top_vals s) then Some () else None) ValuesMissing"

definition enter_user_frame :: "function_template \<Rightarrow> val \<Rightarrow> u8 \<Rightarrow> unit exec" where
  "enter_user_frame tmpl closure fl =
     bind_exec (check_values (unat (tmpl_params tmpl))) (\<lambda>_.
       grow_stack_impl (\<lambda>s. cs_push_frame (CodeFrame tmpl closure Null 0) fl
         (tmpl_params tmpl) (tmpl_locals tmpl) (cs_undef s) s))"

definition enter_resumable_frame :: "native_function \<Rightarrow> u32 \<Rightarrow> u8 \<Rightarrow> unit exec" where
  "enter_resumable_frame func nargs fl =
     bind_exec (check_values (unat nargs)) (\<lambda>_.
       grow_stack_impl (cs_push_frame (ResumableFrame func 0) fl nargs (native_locals func) Null))"

definition enter_catch_frame :: "u32 \<Rightarrow> u8 \<Rightarrow> unit exec" where
  "enter_catch_frame nargs fl =
     bind_exec (check_values (unat nargs)) (\<lambda>_.
       grow_stack_impl (cs_push_frame (CatchFrame Null) fl nargs 0 Null))"

fun push_all :: "val list \<Rightarrow> unit exec" where
  "push_all [] = ret ()"
| "push_all (v # vs) = bind_exec (must_push_value v) (\<lambda>_. push_all vs)"

definition push_function_args :: "val list option \<Rightarrow> u32 exec" where
  "push_function_args args =
     (case args of
        None \<Rightarrow> ret 0
      | Some vs \<Rightarrow>
          if vs = [] then ret 0
          else bind_exec (reserve_values (length vs)) (\<lambda>_.
               bind_exec (push_all vs) (\<lambda>_. ret (word_of_nat (length vs)))))"

subsection \<open>Objects\<close>

fun type_tag :: "heap_object \<Rightarrow> nat" where
  "type_tag (TupleObject _) = 1"
| "type_tag (EnvironmentObject _ _) = 2"
| "type_tag (TemplateObject _) = 3"
| "type_tag (CodeFunctionObject _ _) = 4"
| "type_tag (BoundMethodObject _ _) = 5"
| "type_tag (NativeFunctionObject _) = 6"
| "type_tag CatchFunctionObject = 7"
| "type_tag (MethodObject _) = 8"
| "type_tag (RecordSchemaObject _) = 9"
| "type_tag StringBuilderObject = 10"
| "type_tag (MapObject _) = 11"
| "type_tag (ResultObject _ _) = 12"
| "type_tag ExceptionObject = 13"
| "type_tag NumberObject = 14"
| "type_tag (OtherObject n) = 15 + n"

definition alloc :: "runtime \<Rightarrow> heap_object \<Rightarrow> val exec" where
  "alloc rt obj = on_world (\<lambda>w.
     (Object (rt_address rt w) (type_tag obj), w\<lparr>heap := (heap w)(rt_address rt w \<mapsto> obj)\<rparr>))"

fun object_at :: "world \<Rightarrow> val \<Rightarrow> heap_object option" where
  "object_at w (Object a _) = heap w a"
| "object_at w _ = None"

definition store_object :: "val \<Rightarrow> heap_object \<Rightarrow> unit exec" where
  "store_object v obj = on_world (\<lambda>w.
     ((), case v of Object a _ \<Rightarrow> w\<lparr>heap := (heap w)(a \<mapsto> obj)\<rparr> | _ \<Rightarrow> w))"

definition get_integer :: "runtime \<Rightarrow> i64 \<Rightarrow> val exec" where
  "get_integer rt i =
     (if small_integer_fits i then ret (SmallInteger i)
      else bind_exec (alloc rt NumberObject) (\<lambda>v. case v of Object a _ \<Rightarrow> ret (HeapInteger a i) | _ \<Rightarrow> ret v))"

definition make_float :: "runtime \<Rightarrow> f64 \<Rightarrow> val exec" where
  "make_float rt f =
     bind_exec (alloc rt NumberObject) (\<lambda>v. case v of Object a _ \<Rightarrow> ret (Float a f) | _ \<Rightarrow> ret v)"

fun make_number :: "runtime \<Rightarrow> number \<Rightarrow> val exec" where
  "make_number rt (IntNumber i) = get_integer rt i"
| "make_number rt (FloatNumber f) = make_float rt f"

definition get_boolean :: "runtime \<Rightarrow> bool \<Rightarrow> val" where
  "get_boolean rt b = Boolean (rt_boolean rt b) b"

fun is_undefined :: "val \<Rightarrow> bool" where
  "is_undefined (Undefined _) = True"
| "is_undefined _ = False"

definition make_exception :: "runtime \<Rightarrow> exception_message \<Rightarrow> val exec" where
  "make_exception rt msg =
     bind_exec (on_world (\<lambda>w. ((), rt_message rt msg w))) (\<lambda>_. alloc rt ExceptionObject)"

text \<open>The secondary exceptions of an exception object; the array of the source grows as needed.\<close>

definition add_secondary :: "val \<Rightarrow> val \<Rightarrow> world \<Rightarrow> world" where
  "add_secondary ex sec w =
     (case ex of
        Object a _ \<Rightarrow> w\<lparr>secondary := (secondary w)(a := secondary w a @ [sec])\<rparr>
      | _ \<Rightarrow> w)"

text \<open>The parent of an environment a number of levels up; null when there are not as many.\<close>

fun environment_parent :: "world \<Rightarrow> nat \<Rightarrow> val \<Rightarrow> val option" where
  "environment_parent w 0 env = Some env"
| "environment_parent w (Suc level) env =
     (case object_at w env of
        Some (EnvironmentObject parent _) \<Rightarrow>
          if parent = Null then Some Null else environment_parent w level parent
      | _ \<Rightarrow> None)"


subsection \<open>Calls, returns and exceptions\<close>

text \<open>Removal of the top frame with its arguments, and the unused \<open>this\<close> of a function call.\<close>

definition pop_frame_args :: "call_stack \<Rightarrow> call_stack option" where
  "pop_frame_args s =
     (case cs_frames s of
        [] \<Rightarrow> None
      | f # fs \<Rightarrow>
          let pop_args = sf_argc f + (if sf_flags f AND frame_pop_one_more \<noteq> 0 then 1 else 0)
          in Option.bind (cs_pop_frame s) (cs_pop_values (unat pop_args)))"

text \<open>The jump to an exception handler of the top frame, a frame of code.\<close>

definition handle_exception ::
  "function_template \<Rightarrow> val \<Rightarrow> val \<Rightarrow> nat \<Rightarrow> u8 \<Rightarrow> val \<Rightarrow> world \<Rightarrow> call_stack \<Rightarrow>
   fault + bool \<times> val \<times> world \<times> call_stack" where
  "handle_exception tmpl closure current pc fl ex w s =
     (if fl AND frame_unwinding \<noteq> 0 \<and> current = Null then Inl ExceptionMissing
      else
        let unwinding = (fl AND frame_unwinding \<noteq> 0);
            w = (if unwinding then add_secondary current ex w else w);
            ex = (if unwinding then current else ex);
            pc = (if 0 < pc then pc - 1 else pc)
        in case find_entry (tmpl_handlers tmpl) (word_of_nat pc) of
             None \<Rightarrow> Inr (False, ex, w, s)
           | Some entry \<Rightarrow>
               if length (tmpl_code tmpl) \<le> unat (handler_target entry) then Inl JumpRange
               else case cs_set_frame (\<lambda>_. CodeFrame tmpl closure ex (unat (handler_target entry)))
                           (\<lambda>fl. fl OR frame_unwinding) s of
                      None \<Rightarrow> Inl NoActiveFrame
                    | Some s' \<Rightarrow> Inr (True, ex, w, s'))"

definition unwind_into :: "stack_frame \<Rightarrow> val \<Rightarrow> world \<Rightarrow> call_stack \<Rightarrow> fault + bool \<times> val \<times> world \<times> call_stack" where
  "unwind_into f ex w s =
     (case sf_data f of
        ResumableFrame _ _ \<Rightarrow> Inr (False, ex, w, s)
      | CodeFrame tmpl closure current pc \<Rightarrow> handle_exception tmpl closure current pc (sf_flags f) ex w s
      | CatchFrame _ \<Rightarrow>
          if sf_flags f AND frame_catch_started = 0 then Inl CatchNotStarted
          else case cs_set_frame (\<lambda>_. CatchFrame ex) (\<lambda>fl. fl OR frame_unwinding) s of
                 None \<Rightarrow> Inl NoActiveFrame
               | Some s' \<Rightarrow> Inr (True, ex, w, s'))"

lemma length_set_top_vals [simp]: "length (cs_frames (set_top_vals vs s)) = length (cs_frames s)"
  by (simp add: set_top_vals_def split: list.split)

lemma length_set_frame: "cs_set_frame d fl s = Some s' \<Longrightarrow> length (cs_frames s') = length (cs_frames s)"
  by (auto simp: cs_set_frame_def split: list.split_asm)

lemma pop_frame_args_shrinks:
  "pop_frame_args s = Some s' \<Longrightarrow> length (cs_frames s) = Suc (length (cs_frames s'))"
  by (auto simp: pop_frame_args_def cs_pop_frame_def cs_pop_values_def Let_def split: list.split_asm if_splits)

lemma unwind_into_length:
  "unwind_into f ex w s = Inr (caught, ex', w', s') \<Longrightarrow> length (cs_frames s') = length (cs_frames s)"
  by (auto simp: unwind_into_def handle_exception_def Let_def dest: length_set_frame
      split: frame_data.split_asm if_splits option.split_asm)

function unwind_loop :: "val \<Rightarrow> world \<Rightarrow> call_stack \<Rightarrow> fault + bool \<times> val \<times> world \<times> call_stack" where
  "unwind_loop ex w s =
     (case cs_frames s of
        [] \<Rightarrow> Inr (False, ex, w, s)
      | f # fs \<Rightarrow>
          (case unwind_into f ex w s of
             Inl err \<Rightarrow> Inl err
           | Inr (caught, ex, w, s) \<Rightarrow>
               if caught then Inr (True, ex, w, s)
               else case pop_frame_args s of
                      None \<Rightarrow> Inl ValuesMissing
                    | Some s \<Rightarrow> unwind_loop ex w s))"
  by pat_completeness auto
termination
  by (relation "measure (\<lambda>(ex, w, s). length (cs_frames s))")
     (auto dest!: pop_frame_args_shrinks unwind_into_length)

declare unwind_loop.simps [simp del]

definition finish_coroutine :: "runtime \<Rightarrow> bool \<Rightarrow> val \<Rightarrow> unit exec" where
  "finish_coroutine rt ok v =
     bind_exec (alloc rt (ResultObject ok v)) (\<lambda>r.
       change_coroutine (\<lambda>m. m\<lparr>co_result := r, co_state := Done\<rparr>))"

definition unwind :: "runtime \<Rightarrow> val \<Rightarrow> unit exec" where
  "unwind rt ex m =
     (case co_stack m of
        None \<Rightarrow> Inl NoActiveStack
      | Some s \<Rightarrow>
          (case unwind_loop ex (the_world m) s of
             Inl err \<Rightarrow> Inl err
           | Inr (caught, ex, w, s) \<Rightarrow>
               let m = m\<lparr>the_world := w, co_stack := Some s\<rparr>
               in if caught then Inr ((), m) else finish_coroutine rt False ex m))"

definition throw :: "runtime \<Rightarrow> exception_message \<Rightarrow> unit exec" where
  "throw rt msg = bind_exec (make_exception rt msg) (unwind rt)"

definition return_function :: "runtime \<Rightarrow> val \<Rightarrow> unit exec" where
  "return_function rt v =
     bind_exec (query_stack (\<lambda>s. Some (cs_frames s)) NoActiveFrame) (\<lambda>frames.
     bind_exec (change_stack pop_frame_args (if frames = [] then NoActiveFrame else ValuesMissing)) (\<lambda>_.
     bind_exec (query_stack (\<lambda>s. Some (cs_frames s \<noteq> [])) NoActiveFrame) (\<lambda>more.
       if more then must_push_value v else finish_coroutine rt True v)))"

text \<open>The call of a function object that is not a bound method.\<close>

definition enter_object :: "runtime \<Rightarrow> val \<Rightarrow> heap_object option \<Rightarrow> u32 \<Rightarrow> u8 \<Rightarrow> unit exec" where
  "enter_object rt f obj nargs fl =
     (case obj of
        Some (CodeFunctionObject tmpl closure) \<Rightarrow>
          if tmpl_params tmpl \<noteq> nargs then throw rt (MissingArguments (tmpl_params tmpl) nargs)
          else enter_user_frame tmpl closure fl
      | Some (NativeFunctionObject func) \<Rightarrow>
          if nargs < native_params func then throw rt (MissingArguments (native_params func) nargs)
          else enter_resumable_frame func nargs fl
      | Some CatchFunctionObject \<Rightarrow>
          if nargs < 1 then throw rt (MissingArguments 1 nargs) else enter_catch_frame nargs fl
      | _ \<Rightarrow> throw rt (CallNotSupported f))"

text \<open>
  A bound method shifts the arguments by one value and inserts its object before them; bound
  methods are not nested.
\<close>

definition shift_args :: "val \<Rightarrow> nat \<Rightarrow> call_stack \<Rightarrow> call_stack option" where
  "shift_args object nargs s =
     (let vs = top_vals s
      in if Suc nargs \<le> length vs
         then let below = take (length vs - Suc nargs) vs;
                  args = drop (length vs - Suc nargs) vs
              in Some (set_top_vals (below @ object # take nargs args) s)
         else None)"

definition enter_function :: "runtime \<Rightarrow> val \<Rightarrow> u32 \<Rightarrow> bool \<Rightarrow> unit exec" where
  "enter_function rt f nargs pop_one_more =
     bind_exec (read_world (\<lambda>w. object_at w f)) (\<lambda>obj.
       let fl = (if pop_one_more then frame_pop_one_more else 0)
       in case obj of
            Some (BoundMethodObject func object) \<Rightarrow>
              bind_exec (read_world (\<lambda>w. object_at w func)) (\<lambda>inner.
                case inner of
                  Some (BoundMethodObject _ _) \<Rightarrow> fail NestedMethod
                | _ \<Rightarrow>
                    bind_exec (reserve_values 1) (\<lambda>_.
                    bind_exec (must_push_value Null) (\<lambda>_.
                    bind_exec (change_stack (shift_args object (unat nargs)) ValuesMissing) (\<lambda>_.
                      enter_object rt func inner (nargs + 1) fl))))
          | _ \<Rightarrow> enter_object rt f obj nargs fl)"

definition call_function :: "runtime \<Rightarrow> val \<Rightarrow> u32 \<Rightarrow> unit exec" where
  "call_function rt f nargs =
     bind_exec (check_values (unat nargs)) (\<lambda>_. enter_function rt f nargs False)"

definition call_method :: "runtime \<Rightarrow> val \<Rightarrow> u32 \<Rightarrow> unit exec" where
  "call_method rt f nargs =
     bind_exec (query_stack (cs_top_value (unat nargs)) ValuesMissing) (\<lambda>this.
       let is_method = (this \<noteq> Null)
       in enter_function rt f (nargs + (if is_method then 1 else 0)) (\<not> is_method))"


subsection \<open>Instructions\<close>

text \<open>The fields of the top frame, which is a frame of code.\<close>

record code_frame =
  cf_tmpl :: function_template
  cf_closure :: val
  cf_exception :: val
  cf_pc :: nat
  cf_flags :: u8

definition top_code_frame :: "call_stack \<Rightarrow> code_frame option" where
  "top_code_frame s =
     (case cs_frames s of
        f # fs \<Rightarrow>
          (case sf_data f of
             CodeFrame tmpl closure ex pc \<Rightarrow>
               Some \<lparr>cf_tmpl = tmpl, cf_closure = closure, cf_exception = ex, cf_pc = pc, cf_flags = sf_flags f\<rparr>
           | _ \<Rightarrow> None)
      | [] \<Rightarrow> None)"

fun with_pc :: "nat \<Rightarrow> frame_data \<Rightarrow> frame_data" where
  "with_pc pc (CodeFrame tmpl closure ex _) = CodeFrame tmpl closure ex pc"
| "with_pc pc d = d"

definition set_pc :: "nat \<Rightarrow> unit exec" where
  "set_pc pc = change_stack (cs_set_frame (with_pc pc) id) NoActiveFrame"

definition jump :: "code_frame \<Rightarrow> bytecode_offset \<Rightarrow> unit exec" where
  "jump cf target =
     (if unat (offset_value target) < length (tmpl_code (cf_tmpl cf)) then set_pc (unat (offset_value target))
      else fail JumpRange)"

definition get_local :: "bytecode_register \<Rightarrow> val exec" where
  "get_local r = query_stack (cs_local (register_id r)) LocalRange"

definition set_local :: "bytecode_register \<Rightarrow> val \<Rightarrow> unit exec" where
  "set_local r v = change_stack (cs_set_local (register_id r) v) LocalRange"

definition read_local :: "bytecode_register \<Rightarrow> unit exec" where
  "read_local r = bind_exec (get_local r) (\<lambda>_. ret ())"

definition get_member :: "code_frame \<Rightarrow> bytecode_member \<Rightarrow> val exec" where
  "get_member cf i m =
     (case modules (the_world m) (tmpl_module (cf_tmpl cf)) of
        None \<Rightarrow> Inl MemberRange
      | Some members \<Rightarrow>
          if unat (member_id i) < length members
          then let member = members ! unat (member_id i)
               in if is_undefined member then Inl FatalUndefinedMember else Inr (member, m)
          else Inl MemberRange)"

definition set_member :: "code_frame \<Rightarrow> bytecode_member \<Rightarrow> val \<Rightarrow> unit exec" where
  "set_member cf i v m =
     (let a = tmpl_module (cf_tmpl cf)
      in case modules (the_world m) a of
           None \<Rightarrow> Inl MemberRange
         | Some members \<Rightarrow>
             if unat (member_id i) < length members
             then Inr ((), m\<lparr>the_world := (the_world m)\<lparr>modules :=
                    (modules (the_world m))(a \<mapsto> members[unat (member_id i) := v])\<rparr>\<rparr>)
             else Inl MemberRange)"

definition get_symbol :: "code_frame \<Rightarrow> bytecode_member \<Rightarrow> addr exec" where
  "get_symbol cf i =
     bind_exec (get_member cf i) (\<lambda>v. case v of Symbol a \<Rightarrow> ret a | _ \<Rightarrow> fail BadCast)"

definition settle :: "runtime \<Rightarrow> val + 'a \<Rightarrow> ('a \<Rightarrow> unit exec) \<Rightarrow> unit exec" where
  "settle rt r f = (case r of Inl ex \<Rightarrow> unwind rt ex | Inr a \<Rightarrow> f a)"

definition exec_binop :: "runtime \<Rightarrow> (val \<Rightarrow> val \<Rightarrow> math_error + number)
    \<Rightarrow> bytecode_register \<Rightarrow> bytecode_register \<Rightarrow> bytecode_register \<Rightarrow> unit exec" where
  "exec_binop rt op lhs rhs target =
     bind_exec (get_local lhs) (\<lambda>l.
     bind_exec (get_local rhs) (\<lambda>r.
     bind_exec (read_local target) (\<lambda>_.
       case op l r of
         Inl err \<Rightarrow> throw rt (MathMessage err)
       | Inr n \<Rightarrow> bind_exec (make_number rt n) (set_local target))))"

definition exec_unop :: "runtime \<Rightarrow> (val \<Rightarrow> (math_error + number) option) \<Rightarrow> bytecode_register \<Rightarrow> bytecode_register \<Rightarrow> unit exec" where
  "exec_unop rt op value target =
     bind_exec (get_local value) (\<lambda>v.
     bind_exec (read_local target) (\<lambda>_.
       case op v of
         None \<Rightarrow> fail NegationUndefined
       | Some (Inl err) \<Rightarrow> throw rt (MathMessage err)
       | Some (Inr n) \<Rightarrow> bind_exec (make_number rt n) (set_local target)))"

definition exec_cmp :: "runtime \<Rightarrow> (int \<Rightarrow> bool) \<Rightarrow> bytecode_register \<Rightarrow> bytecode_register \<Rightarrow> bytecode_register \<Rightarrow> unit exec" where
  "exec_cmp rt test lhs rhs target =
     bind_exec (get_local lhs) (\<lambda>l.
     bind_exec (get_local rhs) (\<lambda>r.
     bind_exec (read_local target) (\<lambda>_.
       case compare_vals l r of
         Inl err \<Rightarrow> throw rt (MathMessage err)
       | Inr cmp \<Rightarrow> set_local target (get_boolean rt (test cmp)))))"

definition exec_equal :: "runtime \<Rightarrow> (bool \<Rightarrow> bool) \<Rightarrow> bytecode_register \<Rightarrow> bytecode_register \<Rightarrow> bytecode_register \<Rightarrow> unit exec" where
  "exec_equal rt test lhs rhs target =
     bind_exec (get_local lhs) (\<lambda>l.
     bind_exec (get_local rhs) (\<lambda>r. set_local target (get_boolean rt (test (equal_val l r)))))"

text \<open>The values that a container instruction takes from the stack.\<close>

definition top_args :: "u32 \<Rightarrow> val list exec" where
  "top_args n = query_stack (cs_top_values (unat n)) ValuesMissing"

definition pop_args :: "nat \<Rightarrow> unit exec" where
  "pop_args n = change_stack (cs_pop_values n) ValuesMissing"

text \<open>The conditional jumps.\<close>

definition jump_if :: "code_frame \<Rightarrow> (val \<Rightarrow> bool) \<Rightarrow> bytecode_register \<Rightarrow> bytecode_offset \<Rightarrow> unit exec" where
  "jump_if cf test value target =
     bind_exec (get_local value) (\<lambda>v. if test v then jump cf target else ret ())"

definition exec_control :: "runtime \<Rightarrow> code_frame \<Rightarrow> instr \<Rightarrow> unit exec" where
  "exec_control rt cf ins = (case ins of
      Push value \<Rightarrow>
        bind_exec (reserve_values 1) (\<lambda>_. bind_exec (get_local value) must_push_value)
    | Pop \<Rightarrow>
        bind_exec (query_stack (\<lambda>s. Some (top_vals s = [])) NoActiveFrame) (\<lambda>empty.
          if empty then throw rt CannotPop else pop_args 1)
    | PopTo target \<Rightarrow>
        bind_exec (query_stack (\<lambda>s. Some (top_vals s = [])) NoActiveFrame) (\<lambda>empty.
          if empty then bind_exec (set_pc (cf_pc cf + 1)) (\<lambda>_. throw rt CannotPop)
          else bind_exec (query_stack (cs_top_value 0) ValuesMissing) (\<lambda>v.
               bind_exec (set_local target v) (\<lambda>_. pop_args 1)))
    | Jmp target \<Rightarrow> jump cf target
    | JmpTrue value target \<Rightarrow> jump_if cf is_truthy value target
    | JmpFalse value target \<Rightarrow> jump_if cf (\<lambda>v. \<not> is_truthy v) value target
    | JmpNull value target \<Rightarrow> jump_if cf (\<lambda>v. v = Null) value target
    | JmpNotNull value target \<Rightarrow> jump_if cf (\<lambda>v. v \<noteq> Null) value target
    | Call func n \<Rightarrow> bind_exec (get_local func) (\<lambda>f. call_function rt f n)
    | LoadMethod object name this method \<Rightarrow>
        bind_exec (get_local object) (\<lambda>obj.
        bind_exec (read_local this) (\<lambda>_.
        bind_exec (read_local method) (\<lambda>_.
        bind_exec (get_symbol cf name) (\<lambda>symbol.
        bind_exec (on_world (rt_load_method rt obj symbol)) (\<lambda>res. settle rt res (\<lambda>func.
        bind_exec (read_world (\<lambda>w. object_at w func)) (\<lambda>target.
          case target of
            Some (MethodObject f) \<Rightarrow>
              bind_exec (set_local this obj) (\<lambda>_. set_local method f)
          | _ \<Rightarrow> bind_exec (set_local this Null) (\<lambda>_. set_local method func))))))))
    | CallMethod method n \<Rightarrow> bind_exec (get_local method) (\<lambda>f. call_method rt f n)
    | Return value \<Rightarrow> bind_exec (get_local value) (return_function rt)
    | Rethrow \<Rightarrow>
        if cf_flags cf AND frame_unwinding = 0 \<or> cf_exception cf = Null then fail ExceptionMissing
        else unwind rt (cf_exception cf)
    | AssertFail expr message \<Rightarrow>
        bind_exec (get_local expr) (\<lambda>e.
        bind_exec (get_local message) (\<lambda>msg.
          case e of
            String _ _ \<Rightarrow>
              (case msg of
                 String _ _ \<Rightarrow> throw rt (AssertionFailed e msg)
               | Null \<Rightarrow> throw rt (AssertionFailed e Null)
               | _ \<Rightarrow> throw rt (AssertionMessageNotString msg))
          | _ \<Rightarrow> throw rt (AssertionNotString e)))
    | _ \<Rightarrow> fail FatalNotImplemented)"

definition exec_object :: "runtime \<Rightarrow> code_frame \<Rightarrow> instr \<Rightarrow> unit exec" where
  "exec_object rt cf ins = (case ins of
      Array n target \<Rightarrow>
        bind_exec (read_local target) (\<lambda>_.
        bind_exec (top_args n) (\<lambda>vs.
        bind_exec (on_world (rt_make_array rt vs)) (\<lambda>v.
        bind_exec (set_local target v) (\<lambda>_. pop_args (unat n)))))
    | Tuple n target \<Rightarrow>
        bind_exec (read_local target) (\<lambda>_.
        bind_exec (top_args n) (\<lambda>vs.
        bind_exec (alloc rt (TupleObject vs)) (\<lambda>v.
        bind_exec (set_local target v) (\<lambda>_. pop_args (unat n)))))
    | Set n target \<Rightarrow>
        bind_exec (read_local target) (\<lambda>_.
        bind_exec (top_args n) (\<lambda>vs.
        bind_exec (on_world (rt_make_set rt vs)) (\<lambda>res. settle rt res (\<lambda>v.
        bind_exec (set_local target v) (\<lambda>_. pop_args (unat n))))))
    | Map n target \<Rightarrow>
        bind_exec (read_local target) (\<lambda>_.
        bind_exec (top_args n) (\<lambda>vs.
          case interpret_map vs of
            None \<Rightarrow> fail MapFailed
          | Some (Inl err) \<Rightarrow> throw rt (TableMessage err)
          | Some (Inr table) \<Rightarrow>
              bind_exec (alloc rt (MapObject table)) (\<lambda>v.
              bind_exec (set_local target v) (\<lambda>_. pop_args (unat n)))))
    | Env parent n target \<Rightarrow>
        bind_exec (get_local parent) (\<lambda>p.
        bind_exec (read_local target) (\<lambda>_.
        bind_exec (read_world (\<lambda>w. object_at w p)) (\<lambda>obj.
        bind_exec (query_stack (\<lambda>s. Some (cs_undef s)) NoActiveFrame) (\<lambda>undefined_value.
          if p = Null \<or> (case obj of Some (EnvironmentObject _ _) \<Rightarrow> True | _ \<Rightarrow> False)
          then if n = 0 then fail EnvironmentEmpty
               else bind_exec (alloc rt (EnvironmentObject p (replicate (unat n) undefined_value))) (set_local target)
          else throw rt ParentNotEnvironment))))
    | Closure tmpl env target \<Rightarrow>
        bind_exec (get_local env) (\<lambda>e.
        bind_exec (read_local target) (\<lambda>_.
        bind_exec (get_member cf tmpl) (\<lambda>t.
        bind_exec (read_world (\<lambda>w. (object_at w t, object_at w e))) (\<lambda>objs.
          case objs of
            (Some (TemplateObject ft), obj) \<Rightarrow>
              if e = Null \<or> (case obj of Some (EnvironmentObject _ _) \<Rightarrow> True | _ \<Rightarrow> False)
              then bind_exec (alloc rt (CodeFunctionObject ft e)) (set_local target)
              else throw rt (ExpectedEnvironment e)
          | _ \<Rightarrow> fail BadCast))))
    | Record schema target \<Rightarrow>
        bind_exec (read_local target) (\<lambda>_.
        bind_exec (get_member cf schema) (\<lambda>t.
        bind_exec (read_world (\<lambda>w. object_at w t)) (\<lambda>obj.
          case obj of
            Some (RecordSchemaObject keys) \<Rightarrow> bind_exec (on_world (rt_make_record rt keys)) (set_local target)
          | _ \<Rightarrow> fail BadCast)))
    | Iterator container target \<Rightarrow>
        bind_exec (get_local container) (\<lambda>c.
        bind_exec (read_local target) (\<lambda>_.
        bind_exec (on_world (rt_iterator rt c)) (\<lambda>res. settle rt res (set_local target))))
    | IteratorNext iterator valid value \<Rightarrow>
        bind_exec (get_local iterator) (\<lambda>i.
        bind_exec (read_local valid) (\<lambda>_.
        bind_exec (read_local value) (\<lambda>_.
        bind_exec (on_world (rt_iterator_next rt i)) (\<lambda>res. settle rt res (\<lambda>next.
        bind_exec (set_local valid (get_boolean rt (next \<noteq> None))) (\<lambda>_.
          set_local value (case next of None \<Rightarrow> Null | Some v \<Rightarrow> v)))))))
    | Formatter target \<Rightarrow> bind_exec (read_local target) (\<lambda>_. bind_exec (alloc rt StringBuilderObject) (set_local target))
    | AppendFormat value formatter \<Rightarrow>
        bind_exec (get_local value) (\<lambda>v.
        bind_exec (get_local formatter) (\<lambda>b.
        bind_exec (read_world (\<lambda>w. object_at w b)) (\<lambda>obj.
          if obj = Some StringBuilderObject then on_world (\<lambda>w. ((), rt_append_format rt b v w))
          else throw rt (ExpectedBuilder b))))
    | FormatResult formatter target \<Rightarrow>
        bind_exec (get_local formatter) (\<lambda>b.
        bind_exec (read_local target) (\<lambda>_.
        bind_exec (read_world (\<lambda>w. object_at w b)) (\<lambda>obj.
          if obj = Some StringBuilderObject then bind_exec (on_world (rt_format_result rt b)) (set_local target)
          else throw rt (ExpectedBuilder b))))
    | Copy source target \<Rightarrow> bind_exec (get_local source) (set_local target)
    | Swap a b \<Rightarrow>
        bind_exec (get_local a) (\<lambda>t.
        bind_exec (get_local b) (\<lambda>v.
        bind_exec (set_local a v) (\<lambda>_. set_local b t)))
    | _ \<Rightarrow> exec_control rt cf ins)"


definition exec_comparison :: "runtime \<Rightarrow> code_frame \<Rightarrow> instr \<Rightarrow> unit exec" where
  "exec_comparison rt cf ins = (case ins of
      Gt lhs rhs target \<Rightarrow> exec_cmp rt (\<lambda>cmp. cmp > 0) lhs rhs target
    | Gte lhs rhs target \<Rightarrow> exec_cmp rt (\<lambda>cmp. cmp \<ge> 0) lhs rhs target
    | Lt lhs rhs target \<Rightarrow> exec_cmp rt (\<lambda>cmp. cmp < 0) lhs rhs target
    | Lte lhs rhs target \<Rightarrow> exec_cmp rt (\<lambda>cmp. cmp \<le> 0) lhs rhs target
    | Eq lhs rhs target \<Rightarrow> exec_equal rt id lhs rhs target
    | NEq lhs rhs target \<Rightarrow> exec_equal rt Not lhs rhs target
    | LNot value target \<Rightarrow>
        bind_exec (get_local value) (\<lambda>v. set_local target (get_boolean rt (\<not> is_truthy v)))
    | _ \<Rightarrow> exec_object rt cf ins)"

definition exec_arithmetic :: "runtime \<Rightarrow> code_frame \<Rightarrow> instr \<Rightarrow> unit exec" where
  "exec_arithmetic rt cf ins = (case ins of
      Add lhs rhs target \<Rightarrow> exec_binop rt (math_add (rt_float rt)) lhs rhs target
    | Sub lhs rhs target \<Rightarrow> exec_binop rt (math_sub (rt_float rt)) lhs rhs target
    | Mul lhs rhs target \<Rightarrow> exec_binop rt (math_mul (rt_float rt)) lhs rhs target
    | Div lhs rhs target \<Rightarrow> exec_binop rt (math_div (rt_float rt)) lhs rhs target
    | Mod lhs rhs target \<Rightarrow> exec_binop rt (math_mod (rt_float rt)) lhs rhs target
    | Pow lhs rhs target \<Rightarrow> exec_binop rt (math_pow (rt_float rt)) lhs rhs target
    | UAdd value target \<Rightarrow>
        bind_exec (get_local value) (\<lambda>v.
        bind_exec (read_local target) (\<lambda>_.
          case unary_plus v of Inl err \<Rightarrow> throw rt (MathMessage err) | Inr v \<Rightarrow> set_local target v))
    | UNeg value target \<Rightarrow> exec_unop rt unary_minus value target
    | LSh _ _ _ \<Rightarrow> fail FatalNotImplemented
    | RSh _ _ _ \<Rightarrow> fail FatalNotImplemented
    | BAnd _ _ _ \<Rightarrow> fail FatalNotImplemented
    | BOr _ _ _ \<Rightarrow> fail FatalNotImplemented
    | BXor _ _ _ \<Rightarrow> fail FatalNotImplemented
    | BNot value target \<Rightarrow> exec_unop rt (\<lambda>v. Some (bitwise_not v)) value target
    | _ \<Rightarrow> exec_comparison rt cf ins)"

text \<open>
  Loading from and storing into a closure environment; the store tests the size of the
  environment before it tests that there is one.
\<close>

definition exec_load_env :: "runtime \<Rightarrow> bytecode_register \<Rightarrow> u32 \<Rightarrow> u32 \<Rightarrow> bytecode_register \<Rightarrow> unit exec" where
  "exec_load_env rt env level index target =
     bind_exec (get_local env) (\<lambda>e.
     bind_exec (read_local target) (\<lambda>_.
     bind_exec (read_world (\<lambda>w. object_at w e)) (\<lambda>obj.
       case obj of
         Some (EnvironmentObject _ _) \<Rightarrow>
           bind_exec (read_world (\<lambda>w. environment_parent w (unat level) e)) (\<lambda>current.
             case current of
               None \<Rightarrow> fail BadCast
             | Some current \<Rightarrow>
                 if current = Null then throw rt (TooManyLevels level)
                 else bind_exec (read_world (\<lambda>w. object_at w current)) (\<lambda>obj.
                   case obj of
                     Some (EnvironmentObject _ values) \<Rightarrow>
                       if length values \<le> unat index then throw rt (EnvironmentIndexTooLarge index)
                       else if is_undefined (values ! unat index) then throw rt (VariableUndefined index)
                       else set_local target (values ! unat index)
                   | _ \<Rightarrow> fail BadCast))
       | _ \<Rightarrow> throw rt (ExpectedEnvironment e))))"

definition exec_store_env :: "runtime \<Rightarrow> bytecode_register \<Rightarrow> bytecode_register \<Rightarrow> u32 \<Rightarrow> u32 \<Rightarrow> unit exec" where
  "exec_store_env rt source env level index =
     bind_exec (get_local source) (\<lambda>v.
     bind_exec (get_local env) (\<lambda>e.
     bind_exec (read_world (\<lambda>w. object_at w e)) (\<lambda>obj.
       case obj of
         Some (EnvironmentObject _ _) \<Rightarrow>
           bind_exec (read_world (\<lambda>w. environment_parent w (unat level) e)) (\<lambda>current.
             case current of
               None \<Rightarrow> fail BadCast
             | Some current \<Rightarrow>
                 if current = Null then fail EnvironmentMissing
                 else bind_exec (read_world (\<lambda>w. object_at w current)) (\<lambda>obj.
                   case obj of
                     Some (EnvironmentObject parent values) \<Rightarrow>
                       if length values \<le> unat index then throw rt (EnvironmentIndexTooLarge index)
                       else store_object current (EnvironmentObject parent (values[unat index := v]))
                   | _ \<Rightarrow> fail BadCast))
       | _ \<Rightarrow> throw rt (ExpectedEnvironment e))))"

definition exec_load_store :: "runtime \<Rightarrow> code_frame \<Rightarrow> instr \<Rightarrow> unit exec" where
  "exec_load_store rt cf ins = (case ins of
      LoadNull target \<Rightarrow> set_local target Null
    | LoadFalse target \<Rightarrow> set_local target (get_boolean rt False)
    | LoadTrue target \<Rightarrow> set_local target (get_boolean rt True)
    | LoadInt i target \<Rightarrow> bind_exec (read_local target) (\<lambda>_. bind_exec (get_integer rt i) (set_local target))
    | LoadFloat f target \<Rightarrow> bind_exec (read_local target) (\<lambda>_. bind_exec (make_float rt f) (set_local target))
    | LoadParam source target \<Rightarrow>
        bind_exec (read_local target) (\<lambda>_.
        bind_exec (query_stack (cs_arg (param_id source)) ParamRange) (set_local target))
    | StoreParam source target \<Rightarrow>
        bind_exec (get_local source) (\<lambda>v. change_stack (cs_set_arg (param_id target) v) ParamRange)
    | LoadModule source target \<Rightarrow>
        bind_exec (read_local target) (\<lambda>_. bind_exec (get_member cf source) (set_local target))
    | StoreModule source target \<Rightarrow> bind_exec (get_local source) (set_member cf target)
    | LoadMember object name target \<Rightarrow>
        bind_exec (get_local object) (\<lambda>obj.
        bind_exec (read_local target) (\<lambda>_.
        bind_exec (get_symbol cf name) (\<lambda>symbol.
        bind_exec (on_world (rt_load_member rt obj symbol)) (\<lambda>res. settle rt res (set_local target)))))
    | StoreMember source object name \<Rightarrow>
        bind_exec (get_local source) (\<lambda>v.
        bind_exec (get_local object) (\<lambda>obj.
        bind_exec (get_symbol cf name) (\<lambda>symbol.
        bind_exec (on_world (rt_store_member rt obj symbol v)) (\<lambda>res. settle rt res ret))))
    | LoadTupleMember object index target \<Rightarrow>
        bind_exec (get_local object) (\<lambda>obj.
        bind_exec (read_local target) (\<lambda>_.
        bind_exec (read_world (\<lambda>w. object_at w obj)) (\<lambda>tuple.
          case tuple of
            Some (TupleObject values) \<Rightarrow>
              if length values \<le> unat index then throw rt (InvalidTupleIndex index)
              else set_local target (values ! unat index)
          | _ \<Rightarrow> throw rt (ExpectedTuple obj))))
    | StoreTupleMember source object index \<Rightarrow>
        bind_exec (get_local source) (\<lambda>v.
        bind_exec (get_local object) (\<lambda>obj.
        bind_exec (read_world (\<lambda>w. object_at w obj)) (\<lambda>tuple.
          case tuple of
            Some (TupleObject values) \<Rightarrow>
              if length values \<le> unat index then throw rt (InvalidTupleIndex index)
              else store_object obj (TupleObject (values[unat index := v]))
          | _ \<Rightarrow> throw rt (ExpectedTuple obj))))
    | LoadIndex array index target \<Rightarrow>
        bind_exec (get_local array) (\<lambda>a.
        bind_exec (get_local index) (\<lambda>i.
        bind_exec (read_local target) (\<lambda>_.
        bind_exec (on_world (rt_load_index rt a i)) (\<lambda>res. settle rt res (set_local target)))))
    | StoreIndex source array index \<Rightarrow>
        bind_exec (get_local source) (\<lambda>v.
        bind_exec (get_local array) (\<lambda>a.
        bind_exec (get_local index) (\<lambda>i.
        bind_exec (on_world (rt_store_index rt a i v)) (\<lambda>res. settle rt res ret))))
    | LoadClosure target \<Rightarrow>
        bind_exec (read_local target) (\<lambda>_.
          if cf_closure cf = Null then fail ClosureMissing else set_local target (cf_closure cf))
    | LoadEnv env level index target \<Rightarrow> exec_load_env rt env level index target
    | StoreEnv source env level index \<Rightarrow> exec_store_env rt source env level index
    | _ \<Rightarrow> exec_arithmetic rt cf ins)"

text \<open>
  One round of the loop: the instruction is decoded at the program counter, which moves
  behind it before the instruction executes.
\<close>

definition step_code :: "runtime \<Rightarrow> unit exec" where
  "step_code rt =
     bind_exec (query_stack top_code_frame NoActiveFrame) (\<lambda>cf.
       let code = tmpl_code (cf_tmpl cf)
       in case read_instruction (drop (cf_pc cf) code) of
            Some (Inr ins, rest) \<Rightarrow>
              bind_exec (set_pc (length code - length rest)) (\<lambda>_. exec_load_store rt cf ins)
          | _ \<Rightarrow> fail BadInstruction)"

subsection \<open>Native functions and catching frames\<close>

fun is_code_frame :: "frame_data \<Rightarrow> bool" where
  "is_code_frame (CodeFrame _ _ _ _) = True"
| "is_code_frame _ = False"

definition resumable_end :: int where
  "resumable_end = - 1"

definition frame_args :: "call_stack \<Rightarrow> val list" where
  "frame_args s =
     (case cs_frames s of
        [] \<Rightarrow> []
      | f # fs \<Rightarrow> drop (length (caller_vals s) - unat (sf_argc f)) (caller_vals s))"

text \<open>The state and the local variables that a native function leaves in its frame.\<close>

definition update_native_frame :: "native_function \<Rightarrow> native_result \<Rightarrow> call_stack \<Rightarrow> call_stack option" where
  "update_native_frame func r s =
     (case cs_frames s of
        [] \<Rightarrow> None
      | f # fs \<Rightarrow>
          Some (s\<lparr>cs_frames := f\<lparr>sf_data := ResumableFrame func (nr_state r),
                   sf_locals := map (nr_locals r) [0..<length (sf_locals f)]\<rparr> # fs\<rparr>))"

definition run_resumable :: "runtime \<Rightarrow> stack_frame \<Rightarrow> native_function \<Rightarrow> int \<Rightarrow> unit exec" where
  "run_resumable rt f func state =
     (if state = resumable_end then return_function rt Null
      else
        bind_exec (query_stack (\<lambda>s. Some (frame_args s)) NoActiveFrame) (\<lambda>args.
        bind_exec (read_world (rt_invoke rt func state args (sf_locals f) (sf_values f))) (\<lambda>r.
        bind_exec (change_coroutine (\<lambda>m. m\<lparr>the_world := nr_world r, co_state := nr_coroutine r\<rparr>)) (\<lambda>_.
        bind_exec (change_stack (update_native_frame func r) NoActiveFrame) (\<lambda>_.
          if nr_coroutine r \<notin> {Running, Ready, Waiting} then fail IllegalState
          else
            bind_exec (change_stack (\<lambda>s. Some (set_top_vals [] s)) NoActiveFrame) (\<lambda>_.
              case nr_action r of
                NoAction \<Rightarrow> ret ()
              | InvokeAction g args \<Rightarrow> bind_exec (push_function_args args) (call_function rt g)
              | YieldAction \<Rightarrow> change_coroutine (\<lambda>m. m\<lparr>co_state := Waiting\<rparr>)
              | ReturnAction v \<Rightarrow> return_function rt v
              | PanicAction ex \<Rightarrow> unwind rt ex))))))"

definition run_catch :: "runtime \<Rightarrow> stack_frame \<Rightarrow> val \<Rightarrow> unit exec" where
  "run_catch rt f ex =
     (if sf_argc f \<noteq> 1 then fail CatchArguments
      else if sf_flags f AND frame_catch_started = 0 then
        (if sf_flags f AND frame_unwinding \<noteq> 0 then fail IllegalState
         else bind_exec (change_stack (cs_set_frame id (\<lambda>fl. fl OR frame_catch_started)) NoActiveFrame) (\<lambda>_.
              bind_exec (query_stack (cs_arg 0) ParamRange) (\<lambda>func. call_function rt func 0)))
      else if sf_flags f AND frame_unwinding \<noteq> 0 then
        (if ex = Null then fail ExceptionMissing
         else bind_exec (alloc rt (ResultObject False ex)) (return_function rt))
      else
        bind_exec (query_stack (cs_top_value 0) ValuesMissing) (\<lambda>v.
        bind_exec (alloc rt (ResultObject True v)) (return_function rt)))"

subsection \<open>Running a coroutine\<close>

definition run_frame :: "runtime \<Rightarrow> unit exec" where
  "run_frame rt =
     bind_exec (query_stack (\<lambda>s. case cs_frames s of [] \<Rightarrow> None | f # fs \<Rightarrow> Some f) NoActiveFrame) (\<lambda>f.
       case sf_data f of
         CodeFrame _ _ _ _ \<Rightarrow> step_code rt
       | ResumableFrame func state \<Rightarrow> run_resumable rt f func state
       | CatchFrame ex \<Rightarrow> run_catch rt f ex)"

partial_function (option) run_loop :: "runtime \<Rightarrow> machine \<Rightarrow> (fault + machine) option" where
  "run_loop rt m =
     (if co_state m \<noteq> Running then Some (Inr m)
      else case run_frame rt m of
             Inl err \<Rightarrow> Some (Inl err)
           | Inr (u, m') \<Rightarrow> run_loop rt m')"

definition start_coroutine :: "runtime \<Rightarrow> unit exec" where
  "start_coroutine rt m =
     (case co_state m of
        Started \<Rightarrow>
          bind_exec (push_function_args (co_arguments m)) (\<lambda>n.
          bind_exec (change_coroutine (\<lambda>m. m\<lparr>co_state := Running\<rparr>)) (\<lambda>_.
            call_function rt (co_function m) n)) m
      | Ready \<Rightarrow> Inr ((), m\<lparr>co_state := Running\<rparr>)
      | _ \<Rightarrow> Inl IllegalState)"

definition run_until_block :: "runtime \<Rightarrow> machine \<Rightarrow> (fault + machine) option" where
  "run_until_block rt m =
     (case start_coroutine rt m of
        Inl err \<Rightarrow> Some (Inl err)
      | Inr (u, m') \<Rightarrow> run_loop rt m')"

text \<open>A finished coroutine gives up its stack.\<close>

definition run_coroutine :: "runtime \<Rightarrow> machine \<Rightarrow> (fault + machine) option" where
  "run_coroutine rt m =
     (if co_stack m = None then Some (Inl NoActiveStack)
      else case run_until_block rt m of
             Some (Inr m') \<Rightarrow>
               Some (if co_state m' \<notin> {Ready, Waiting, Done} then Inl IllegalState
                     else Inr (if co_state m' = Done then m'\<lparr>co_stack := None\<rparr> else m'))
           | r \<Rightarrow> r)"

definition make_coroutine :: "val \<Rightarrow> val list option \<Rightarrow> val \<Rightarrow> world \<Rightarrow> machine" where
  "make_coroutine func args undefined_value w =
     \<lparr>the_world = w,
      co_stack = Some \<lparr>cs_undef = undefined_value, cs_base = [], cs_frames = [],
                       cs_end = initial_stack_size - stack_header\<rparr>,
      co_state = New, co_function = func, co_arguments = args, co_result = Null\<rparr>"

end
