(* ===== verification/InterpreterSafety.thy ===== *)
theory InterpreterSafety
  imports Interpreter
begin

text \<open>
  The interpreter on verified code. A template whose code, handlers and limits the verifier
  accepted, and that meets the conditions \<open>beyond_verifier\<close>, keeps the machine in a state
  where the next instruction decodes and its operands are in range. What the verifier does not
  exclude are the faults of \<open>unchecked_faults\<close>: too few values on the stack, a missing closure or
  exception, a missing or empty environment, a member of the wrong type, and the fatal errors
  of the code itself.
\<close>

subsection \<open>Good states\<close>

definition unchecked_faults :: "fault set" where
  "unchecked_faults =
     {ValuesMissing, ClosureMissing, ExceptionMissing, EnvironmentMissing, EnvironmentEmpty, BadCast,
      NestedMethod, CatchArguments, NegationUndefined, FatalStackOverflow, FatalUndefinedMember,
      FatalNotImplemented}"

definition verified_template ::
  "world \<Rightarrow> function_template \<Rightarrow> bytecode_module \<Rightarrow> u32 \<Rightarrow> bytecode_function \<Rightarrow> instr list \<Rightarrow> bool" where
  "verified_template w t m seen f is \<longleftrightarrow>
     function_ok m seen f is
     \<and> tmpl_code t = func_code f \<and> tmpl_handlers t = func_handlers f
     \<and> tmpl_params t = func_params f \<and> tmpl_locals t = func_locals f
     \<and> (\<exists>vs. modules w (tmpl_module t) = Some vs \<and> length vs = length (mod_members m))"

text \<open>
  What the interpreter needs and the verifier does not check: the index registers of \<open>LoadIndex\<close> and
  \<open>StoreIndex\<close> are in the range of the locals, and the number of locals is below the limit (the
  verifier lets the limit itself pass, the stack does not).
\<close>

definition beyond_verifier :: "function_template \<Rightarrow> instr list \<Rightarrow> bool" where
  "beyond_verifier t is \<longleftrightarrow>
     tmpl_locals t < max_locals
     \<and> (\<forall>i\<in>set is. \<forall>r. unchecked_index i = Some r \<longrightarrow> register_id r < tmpl_locals t)"

definition template_ok :: "world \<Rightarrow> function_template \<Rightarrow> bool" where
  "template_ok w t \<longleftrightarrow> (\<exists>m seen f is. verified_template w t m seen f is \<and> beyond_verifier t is)"

definition position_ok :: "function_template \<Rightarrow> nat \<Rightarrow> bool" where
  "position_ok t pc \<longleftrightarrow> (\<exists>is. tmpl_code t = encode is \<and> pc \<in> starts is)"

fun object_ok :: "world \<Rightarrow> heap_object \<Rightarrow> bool" where
  "object_ok w (TemplateObject t) = template_ok w t"
| "object_ok w (CodeFunctionObject t c) = template_ok w t"
| "object_ok w (NativeFunctionObject f) = (native_locals f < max_locals)"
| "object_ok w _ = True"

definition world_ok :: "world \<Rightarrow> bool" where
  "world_ok w \<longleftrightarrow> (\<forall>a obj. heap w a = Some obj \<longrightarrow> object_ok w obj)"

text \<open>What the rest of the virtual machine may do to the world.\<close>

definition world_step :: "world \<Rightarrow> world \<Rightarrow> bool" where
  "world_step w w' \<longleftrightarrow>
     (\<forall>a vs. modules w a = Some vs \<longrightarrow> (\<exists>vs'. modules w' a = Some vs' \<and> length vs' = length vs))
     \<and> (world_ok w \<longrightarrow> world_ok w')"

text \<open>A frame whose locals and arguments are those of its template; the position is separate.\<close>

fun frame_fits :: "world \<Rightarrow> frame_data \<Rightarrow> stack_frame \<Rightarrow> bool" where
  "frame_fits w (CodeFrame t c e pc) f =
     (template_ok w t \<and> length (sf_locals f) = unat (tmpl_locals t) \<and> sf_argc f = tmpl_params t)"
| "frame_fits w (ResumableFrame _ _) f = True"
| "frame_fits w (CatchFrame _) f =
     (sf_flags f AND frame_unwinding \<noteq> 0 \<longrightarrow> sf_flags f AND frame_catch_started \<noteq> 0)"

fun frame_resumes :: "frame_data \<Rightarrow> bool" where
  "frame_resumes (CodeFrame t c e pc) = position_ok t pc"
| "frame_resumes _ = True"

fun catch_started :: "frame_data \<Rightarrow> stack_frame \<Rightarrow> bool" where
  "catch_started (CatchFrame _) f = (sf_flags f AND frame_catch_started \<noteq> 0)"
| "catch_started _ f = True"

definition frame_ok :: "world \<Rightarrow> stack_frame \<Rightarrow> bool" where
  "frame_ok w f \<longleftrightarrow> frame_fits w (sf_data f) f \<and> frame_resumes (sf_data f)"

definition suspended :: "world \<Rightarrow> stack_frame list \<Rightarrow> bool" where
  "suspended w fs \<longleftrightarrow> (\<forall>f\<in>set fs. frame_ok w f \<and> catch_started (sf_data f) f)"

definition entered :: "machine \<Rightarrow> bool" where
  "entered m \<longleftrightarrow> co_state m \<notin> {New, Started}"

text \<open>The invariant between two steps.\<close>

definition machine_ok :: "machine \<Rightarrow> bool" where
  "machine_ok m \<longleftrightarrow>
     world_ok (the_world m) \<and> entered m
     \<and> (\<exists>s. co_stack m = Some s \<and> wf_stack s
          \<and> (case cs_frames s of
               [] \<Rightarrow> co_state m = Done
             | f # fs \<Rightarrow> frame_ok (the_world m) f \<and> suspended (the_world m) fs))"

text \<open>During an instruction of a template, with the program counter already behind it.\<close>

definition at_code :: "function_template \<Rightarrow> nat \<Rightarrow> machine \<Rightarrow> bool" where
  "at_code t k m \<longleftrightarrow>
     world_ok (the_world m) \<and> entered m
     \<and> (\<exists>s f fs c e. co_stack m = Some s \<and> wf_stack s \<and> cs_frames s = f # fs
          \<and> sf_data f = CodeFrame t c e k \<and> frame_fits (the_world m) (sf_data f) f
          \<and> suspended (the_world m) fs)"

text \<open>A state in which the top frame may call: it is fit to be suspended.\<close>

definition can_call :: "machine \<Rightarrow> bool" where
  "can_call m \<longleftrightarrow>
     world_ok (the_world m)
     \<and> (\<exists>s. co_stack m = Some s \<and> wf_stack s \<and> suspended (the_world m) (cs_frames s))"

subsection \<open>Worlds\<close>

lemma world_step_refl [simp]: "world_step w w"
  by (simp add: world_step_def)

lemma world_step_modules:
  assumes "world_step w w'" and "modules w a = Some vs"
  obtains vs' where "modules w' a = Some vs'" "length vs' = length vs"
  using assms by (auto simp: world_step_def)

lemma world_step_ok: "world_step w w' \<Longrightarrow> world_ok w \<Longrightarrow> world_ok w'"
  by (simp add: world_step_def)

lemma world_stepI:
  "(\<And>a vs. modules w a = Some vs \<Longrightarrow> \<exists>vs'. modules w' a = Some vs' \<and> length vs' = length vs)
   \<Longrightarrow> (world_ok w \<Longrightarrow> world_ok w') \<Longrightarrow> world_step w w'"
  by (simp add: world_step_def)

lemma world_step_trans: "world_step w w' \<Longrightarrow> world_step w' w'' \<Longrightarrow> world_step w w''"
proof (rule world_stepI)
  assume s: "world_step w w'" "world_step w' w''"
  fix a vs assume "modules w a = Some vs"
  from world_step_modules [OF s(1) this] obtain us where us: "modules w' a = Some us" "length us = length vs" .
  from world_step_modules [OF s(2) us(1)] us(2) show "\<exists>vs'. modules w'' a = Some vs' \<and> length vs' = length vs"
    by metis
qed (blast intro: world_step_ok)

lemma template_ok_step:
  assumes "world_step w w'" and "template_ok w t"
  shows "template_ok w' t"
proof -
  obtain m seen f "is" where v: "verified_template w t m seen f is" "beyond_verifier t is"
    using assms(2) by (auto simp: template_ok_def)
  then obtain vs where "modules w (tmpl_module t) = Some vs" "length vs = length (mod_members m)"
    by (auto simp: verified_template_def)
  with world_step_modules [OF assms(1)] obtain vs' where
    "modules w' (tmpl_module t) = Some vs'" "length vs' = length (mod_members m)" by metis
  with v(1) have "verified_template w' t m seen f is" by (auto simp: verified_template_def)
  then show ?thesis using v(2) by (auto simp: template_ok_def)
qed

lemma frame_fits_step: "world_step w w' \<Longrightarrow> frame_fits w d f \<Longrightarrow> frame_fits w' d f"
  by (cases d) (auto intro: template_ok_step)

lemma suspended_step: "world_step w w' \<Longrightarrow> suspended w fs \<Longrightarrow> suspended w' fs"
  by (auto simp: suspended_def frame_ok_def intro: frame_fits_step)

lemma frame_ok_step: "world_step w w' \<Longrightarrow> frame_ok w f \<Longrightarrow> frame_ok w' f"
  by (auto simp: frame_ok_def intro: frame_fits_step)

lemma template_ok_modules: "modules w' = modules w \<Longrightarrow> template_ok w' t = template_ok w t"
  by (simp add: template_ok_def verified_template_def)

lemma object_ok_modules: "modules w' = modules w \<Longrightarrow> object_ok w' obj = object_ok w obj"
  by (cases obj) (simp_all add: template_ok_modules [of w' w])

lemma world_step_store:
  "object_ok w obj \<Longrightarrow> world_step w (w\<lparr>heap := (heap w)(a \<mapsto> obj)\<rparr>)"
  using object_ok_modules [of "w\<lparr>heap := (heap w)(a \<mapsto> obj)\<rparr>" w]
  by (auto simp: world_step_def world_ok_def)

lemma world_step_secondary: "world_step w (add_secondary ex sec w)"
proof -
  have "object_ok (add_secondary ex sec w) obj = object_ok w obj" for obj
    by (rule object_ok_modules) (simp add: add_secondary_def split: val.split)
  then show ?thesis by (auto simp: world_step_def world_ok_def add_secondary_def split: val.split)
qed

lemma world_step_member:
  assumes "modules w a = Some vs"
  shows "world_step w (w\<lparr>modules := (modules w)(a \<mapsto> vs[i := v])\<rparr>)" (is "world_step w ?w")
proof (rule world_stepI)
  show modules: "\<exists>vs'. modules ?w b = Some vs' \<and> length vs' = length us" if "modules w b = Some us" for b us
    using that assms by auto
  have t: "template_ok ?w t" if t: "template_ok w t" for t
  proof -
    obtain m seen f "is" where v: "verified_template w t m seen f is" "beyond_verifier t is"
      using t by (auto simp: template_ok_def)
    then obtain us where "modules w (tmpl_module t) = Some us" "length us = length (mod_members m)"
      by (auto simp: verified_template_def)
    with modules obtain vs' where "modules ?w (tmpl_module t) = Some vs'" "length vs' = length (mod_members m)"
      by metis
    with v(1) have "verified_template ?w t m seen f is" by (auto simp: verified_template_def)
    then show ?thesis using v(2) by (auto simp: template_ok_def)
  qed
  have "object_ok ?w obj" if "object_ok w obj" for obj
    using that t by (cases obj) auto
  then show "world_ok ?w" if "world_ok w" using that by (auto simp: world_ok_def)
qed

subsection \<open>Safe execution\<close>

definition safe :: "'a exec \<Rightarrow> machine \<Rightarrow> ('a \<Rightarrow> machine \<Rightarrow> bool) \<Rightarrow> bool" where
  "safe x m Q \<longleftrightarrow> (case x m of Inl err \<Rightarrow> err \<in> unchecked_faults | Inr (a, m') \<Rightarrow> Q a m')"

lemma safe_bind: "safe x m (\<lambda>a m'. safe (f a) m' Q) \<Longrightarrow> safe (bind_exec x f) m Q"
  by (auto simp: safe_def bind_exec_def split: sum.splits)

lemma safe_ret: "Q a m \<Longrightarrow> safe (ret a) m Q"
  by (simp add: safe_def ret_def)

lemma safe_fail: "err \<in> unchecked_faults \<Longrightarrow> safe (fail err) m Q"
  by (simp add: safe_def fail_def)

lemma safe_eq: "x m = y m \<Longrightarrow> safe y m Q \<Longrightarrow> safe x m Q"
  by (simp add: safe_def)

lemma safe_read_world: "Q (f (the_world m)) m \<Longrightarrow> safe (read_world f) m Q"
  by (simp add: safe_def read_world_def)

lemma safe_if: "(b \<Longrightarrow> safe x m Q) \<Longrightarrow> (\<not> b \<Longrightarrow> safe y m Q) \<Longrightarrow> safe (if b then x else y) m Q"
  by simp

lemma entered_update [simp]:
  "entered (m\<lparr>the_world := w\<rparr>) = entered m" "entered (m\<lparr>co_stack := s\<rparr>) = entered m"
  "entered (m\<lparr>co_state := st\<rparr>) = (st \<notin> {New, Started})"
  by (simp_all add: entered_def)

lemma at_code_world:
  assumes "at_code t k m" and "world_step (the_world m) w"
  shows "at_code t k (m\<lparr>the_world := w\<rparr>)"
proof -
  obtain s f fs c e where s: "world_ok (the_world m)" "co_stack m = Some s" "wf_stack s" "cs_frames s = f # fs"
    "sf_data f = CodeFrame t c e k" "frame_fits (the_world m) (sf_data f) f" "suspended (the_world m) fs" "entered m"
    using assms(1) by (auto simp: at_code_def)
  with frame_fits_step [OF assms(2)] suspended_step [OF assms(2)] world_step_ok [OF assms(2)]
  have "world_ok w" "frame_fits w (sf_data f) f" "suspended w fs" by blast+
  with s(2-5,8) show ?thesis unfolding at_code_def by auto
qed

lemma safe_on_world:
  assumes "at_code t k m" and "world_step (the_world m) (snd (f (the_world m)))"
    and "\<And>a m'. at_code t k m' \<Longrightarrow> Q a m'"
  shows "safe (on_world f) m Q"
  using at_code_world [OF assms(1,2)] assms(3)
  by (auto simp: safe_def on_world_def split: prod.split)

lemma safe_alloc:
  assumes "at_code t k m" and "object_ok (the_world m) obj" and "\<And>a m'. at_code t k m' \<Longrightarrow> Q a m'"
  shows "safe (alloc rt obj) m Q"
  unfolding alloc_def using assms world_step_store [OF assms(2)] by (intro safe_on_world) auto

lemma safe_store_object:
  assumes "at_code t k m" and "object_ok (the_world m) obj" and "\<And>m'. at_code t k m' \<Longrightarrow> Q () m'"
  shows "safe (store_object v obj) m Q"
  unfolding store_object_def using assms world_step_store [OF assms(2)]
  by (intro safe_on_world) (auto split: val.split)

text \<open>Operations on the stack that keep the top frame.\<close>

definition same_shape :: "stack_frame \<Rightarrow> stack_frame \<Rightarrow> bool" where
  "same_shape g g' \<longleftrightarrow>
     sf_data g' = sf_data g \<and> sf_flags g' = sf_flags g \<and> sf_argc g' = sf_argc g
     \<and> length (sf_locals g') = length (sf_locals g)"

definition same_frames :: "call_stack \<Rightarrow> call_stack \<Rightarrow> bool" where
  "same_frames s s' \<longleftrightarrow> list_all2 same_shape (cs_frames s) (cs_frames s')"

lemma same_shape_refl [simp]: "same_shape g g"
  by (simp add: same_shape_def)

lemma same_shapes_refl [simp]: "list_all2 same_shape fs fs"
  by (simp add: list.rel_refl)

lemma frame_fits_same: "same_shape g g' \<Longrightarrow> frame_fits w d g' = frame_fits w d g"
  by (cases d) (simp_all add: same_shape_def)

lemma catch_started_same: "same_shape g g' \<Longrightarrow> catch_started d g' = catch_started d g"
  by (cases d) (simp_all add: same_shape_def)

lemma frame_ok_same: "same_shape g g' \<Longrightarrow> frame_ok w g' = frame_ok w g"
  using frame_fits_same [of g g'] by (simp add: frame_ok_def same_shape_def)

lemma suspended_same: "list_all2 same_shape fs fs' \<Longrightarrow> suspended w fs' = suspended w fs"
proof (induction fs fs' rule: list_all2_induct)
  case (Cons g gs g' gs')
  then have "sf_data g' = sf_data g" by (simp add: same_shape_def)
  with Cons frame_ok_same [OF Cons(1)] catch_started_same [OF Cons(1)] show ?case by (simp add: suspended_def)
qed simp

lemma at_code_stack:
  assumes "at_code t k m" and "co_stack m = Some s" and "same_frames s s'" and "wf_stack s'"
  shows "at_code t k (m\<lparr>co_stack := Some s'\<rparr>)"
proof -
  obtain f fs c e where f: "world_ok (the_world m)" "cs_frames s = f # fs" "sf_data f = CodeFrame t c e k"
      "frame_fits (the_world m) (sf_data f) f" "suspended (the_world m) fs" "entered m"
    using assms(1,2) by (auto simp: at_code_def)
  then obtain f' fs' where f': "cs_frames s' = f' # fs'" "same_shape f f'" "list_all2 same_shape fs fs'"
    using assms(3) by (auto simp: same_frames_def list_all2_Cons1)
  have "sf_data f' = sf_data f" using f'(2) by (simp add: same_shape_def)
  with f f'(1) suspended_same [OF f'(3)] frame_fits_same [OF f'(2)] assms(4) show ?thesis
    by (simp add: at_code_def)
qed

text \<open>
  A condition on machines that does not depend on the values of the frames: the condition that
  an instruction runs, or that a function can be called.
\<close>

definition room :: "nat \<Rightarrow> machine \<Rightarrow> bool" where
  "room n m \<longleftrightarrow> (\<exists>s. co_stack m = Some s \<and> 8 * n \<le> cs_available s)"

lemma same_frames_refl [simp]: "cs_frames s' = cs_frames s \<Longrightarrow> same_frames s s'"
  by (simp add: same_frames_def)

lemma same_frames_top_vals [simp]: "same_frames s (set_top_vals vs s)"
  by (cases "cs_frames s") (simp_all add: same_frames_def set_top_vals_def same_shape_def)

lemma used_set_top_vals:
  "length vs = Suc (length (top_vals s)) \<Longrightarrow> cs_used (set_top_vals vs s) = cs_used s + 8"
  by (cases "cs_frames s") (simp_all add: cs_used_def set_top_vals_def top_vals_def frame_cost_def)

lemma end_set_top_vals [simp]: "cs_end (set_top_vals vs s) = cs_end s"
  by (simp add: set_top_vals_def split: list.split)

text \<open>Growth either fails with a stack overflow or reaches a size at which the condition holds.\<close>

lemma grow_loop_result:
  assumes "\<And>n. cs_end s \<le> n \<Longrightarrow> n \<le> 2 ^ 24 \<Longrightarrow> \<exists>ok s'. cond (s\<lparr>cs_end := n\<rparr>) = Some (ok, s') \<and> (ok \<longrightarrow> R s')"
  shows "case grow_loop cond s of Inl err \<Rightarrow> err = FatalStackOverflow | Inr s' \<Rightarrow> R s'"
  using assms
proof (induction cond s rule: grow_loop.induct)
  case (1 cond s)
  let ?n = "2 * (cs_end s + stack_header)"
  let ?s = "s\<lparr>cs_end := ?n - stack_header\<rparr>"
  show ?case
  proof (cases "max_stack_size < ?n")
    case True
    then show ?thesis by (simp add: grow_loop.simps [of cond s] Let_def)
  next
    case False
    then have n: "cs_end s \<le> ?n - stack_header" "?n - stack_header \<le> 2 ^ 24"
      by (simp_all add: max_stack_size_def stack_header_def)
    from 1(2) [OF this] obtain ok s' where c: "cond ?s = Some (ok, s')" "ok \<Longrightarrow> R s'" by blast
    show ?thesis
    proof (cases ok)
      case True
      then show ?thesis using c False by (simp add: grow_loop.simps [of cond s] Let_def)
    next
      case nok: False
      have "case grow_loop cond ?s of Inl err \<Rightarrow> err = FatalStackOverflow | Inr s' \<Rightarrow> R s'"
      proof (rule 1(1) [OF refl False refl])
        show "cond ?s = Some (ok, s')" by (rule c(1))
        show "(ok, s') = (ok, s')" ..
        show "\<not> ok" by (rule nok)
        show "\<exists>ok s'. cond (?s\<lparr>cs_end := k\<rparr>) = Some (ok, s') \<and> (ok \<longrightarrow> R s')"
          if "cs_end ?s \<le> k" "k \<le> 2 ^ 24" for k
          using 1(2) [of k] that n by simp
      qed
      then show ?thesis using c(1) nok False by (simp add: grow_loop.simps [of cond s] Let_def)
    qed
  qed
qed

lemma safe_grow:
  assumes "co_stack m = Some s" and "wf_stack s"
    and "\<And>n. cs_end s \<le> n \<Longrightarrow> n \<le> 2 ^ 24 \<Longrightarrow> \<exists>ok s'. cond (s\<lparr>cs_end := n\<rparr>) = Some (ok, s') \<and> (ok \<longrightarrow> R s')"
    and "\<And>s'. R s' \<Longrightarrow> Q () (m\<lparr>co_stack := Some s'\<rparr>)"
  shows "safe (grow_stack_impl cond) m Q"
proof -
  have "cs_end s \<le> 2 ^ 24" using assms(2) by (simp add: wf_stack_def)
  from assms(3) [OF le_refl this] obtain ok s' where c: "cond s = Some (ok, s')" "ok \<Longrightarrow> R s'" by auto
  show ?thesis
  proof (cases ok)
    case True
    then show ?thesis using c assms(1,4) by (simp add: safe_def grow_stack_impl_def)
  next
    case False
    have "case grow_loop cond s of Inl err \<Rightarrow> err = FatalStackOverflow | Inr s' \<Rightarrow> R s'"
      using assms(3) by (rule grow_loop_result)
    then show ?thesis using False c(1) assms(1,4)
      by (auto simp: safe_def grow_stack_impl_def unchecked_faults_def split: sum.split sum.split_asm)
  qed
qed

locale stack_condition =
  fixes holds :: "machine \<Rightarrow> bool"
  assumes has_stack: "holds m \<Longrightarrow> \<exists>s. co_stack m = Some s \<and> wf_stack s"
    and stable: "holds m \<Longrightarrow> co_stack m = Some s \<Longrightarrow> same_frames s s' \<Longrightarrow> wf_stack s'
      \<Longrightarrow> holds (m\<lparr>co_stack := Some s'\<rparr>)"
begin

lemma change:
  assumes "holds m"
    and "\<And>s. co_stack m = Some s \<Longrightarrow> wf_stack s \<Longrightarrow> (case f s of None \<Rightarrow> err \<in> unchecked_faults
           | Some s' \<Rightarrow> same_frames s s' \<and> wf_stack s')"
    and "\<And>m'. holds m' \<Longrightarrow> the_world m' = the_world m \<Longrightarrow> Q () m'"
  shows "safe (change_stack f err) m Q"
proof -
  obtain s where s: "co_stack m = Some s" "wf_stack s" using has_stack [OF assms(1)] by blast
  from assms(2) [OF s] show ?thesis
    using s stable [OF assms(1) s(1)] assms(3)
    by (auto simp: safe_def change_stack_def split: option.split_asm)
qed

lemma query:
  assumes "holds m"
    and "\<And>s. co_stack m = Some s \<Longrightarrow> wf_stack s \<Longrightarrow> (case f s of None \<Rightarrow> err \<in> unchecked_faults | Some a \<Rightarrow> Q a m)"
  shows "safe (query_stack f err) m Q"
proof -
  obtain s where s: "co_stack m = Some s" "wf_stack s" using has_stack [OF assms(1)] by blast
  from assms(2) [OF s] show ?thesis
    using s by (auto simp: safe_def query_stack_def split: option.split)
qed

lemma reserve:
  assumes "holds m" and "\<And>m'. holds m' \<Longrightarrow> room n m' \<Longrightarrow> the_world m' = the_world m \<Longrightarrow> Q () m'"
  shows "safe (reserve_values n) m Q"
proof -
  obtain s where s: "co_stack m = Some s" "wf_stack s" using has_stack [OF assms(1)] by blast
  show ?thesis
    unfolding reserve_values_def
  proof (rule safe_grow [OF s])
    show "\<exists>ok s'. Some (n \<le> cs_available (s\<lparr>cs_end := k\<rparr>) div 8, s\<lparr>cs_end := k\<rparr>) = Some (ok, s')
        \<and> (ok \<longrightarrow> n \<le> cs_available s' div 8 \<and> wf_stack s' \<and> same_frames s s')"
      if "cs_end s \<le> k" "k \<le> 2 ^ 24" for k
      using wf_grow [OF s(2) that] by simp
    show "Q () (m\<lparr>co_stack := Some s'\<rparr>)"
      if "n \<le> cs_available s' div 8 \<and> wf_stack s' \<and> same_frames s s'" for s'
    proof -
      have "8 * n \<le> cs_available s'" using that by linarith
      then have "room n (m\<lparr>co_stack := Some s'\<rparr>)" by (simp add: room_def)
      then show ?thesis using assms(2) stable [OF assms(1) s(1)] that by simp
    qed
  qed
qed

lemma push:
  assumes "holds m" and "room (Suc n) m"
    and "\<And>m'. holds m' \<Longrightarrow> room n m' \<Longrightarrow> the_world m' = the_world m \<Longrightarrow> Q () m'"
  shows "safe (must_push_value v) m Q"
proof -
  obtain s where s: "co_stack m = Some s" "wf_stack s" using has_stack [OF assms(1)] by blast
  then have av: "8 * Suc n \<le> cs_available s" using assms(2) by (simp add: room_def)
  let ?s = "set_top_vals (top_vals s @ [v]) s"
  have push: "cs_push_value v s = (True, ?s)" using av by (simp add: cs_push_value_def)
  have "8 * n \<le> cs_available ?s"
    using av by (simp add: cs_available_def used_set_top_vals)
  then have "room n (m\<lparr>co_stack := Some ?s\<rparr>)" by (simp add: room_def)
  moreover have "holds (m\<lparr>co_stack := Some ?s\<rparr>)"
    using stable [OF assms(1) s(1) same_frames_top_vals wf_push_value [OF s(2) push]] .
  ultimately show ?thesis
    using assms(3) push s(1) by (simp add: safe_def must_push_value_def change_stack_def)
qed

lemma push_all:
  assumes "holds m" and "room (length vs) m"
    and "\<And>m'. holds m' \<Longrightarrow> the_world m' = the_world m \<Longrightarrow> Q () m'"
  shows "safe (push_all vs) m Q"
  using assms
proof (induction vs arbitrary: m)
  case Nil
  then show ?case by (auto intro: safe_ret)
next
  case (Cons v vs)
  show ?case
    unfolding push_all.simps
  proof (intro safe_bind push [OF Cons(2)])
    show "room (Suc (length vs)) m" using Cons(3) by simp
    show "safe (push_all vs) m' Q" if "holds m'" "room (length vs) m'" "the_world m' = the_world m" for m'
      using Cons(1) [OF that(1,2)] Cons(4) that(3) by simp
  qed
qed

lemma push_args:
  assumes "holds m" and "\<And>n m'. holds m' \<Longrightarrow> the_world m' = the_world m \<Longrightarrow> Q n m'"
  shows "safe (push_function_args args) m Q"
proof (cases args)
  case None
  then show ?thesis using assms by (auto simp: push_function_args_def intro: safe_ret)
next
  case (Some vs)
  have "safe (bind_exec (reserve_values (length vs)) (\<lambda>_. bind_exec (push_all vs) (\<lambda>_. ret (word_of_nat (length vs))))) m Q"
  proof (intro safe_bind reserve [OF assms(1)])
    fix m' assume m': "holds m'" "room (length vs) m'" "the_world m' = the_world m"
    show "safe (push_all vs) m' (\<lambda>a m'. safe (ret (word_of_nat (length vs))) m' Q)"
    proof (rule push_all [OF m'(1,2)])
      show "safe (ret (word_of_nat (length vs))) m'' Q" if "holds m''" "the_world m'' = the_world m'" for m''
        using assms(2) [OF that(1)] that(2) m'(3) by (intro safe_ret) simp
    qed
  qed
  then show ?thesis using Some assms by (auto simp: push_function_args_def intro: safe_ret)
qed

end

interpretation code: stack_condition "at_code t k" for t k
proof
  show "\<exists>s. co_stack m = Some s \<and> wf_stack s" if "at_code t k m" for m
    using that by (auto simp: at_code_def)
qed (rule at_code_stack)

definition calling :: "world \<Rightarrow> machine \<Rightarrow> bool" where
  "calling w m \<longleftrightarrow> the_world m = w \<and> can_call m \<and> entered m"

lemma calling_stack:
  assumes "calling w m" and "co_stack m = Some s" and "same_frames s s'" and "wf_stack s'"
  shows "calling w (m\<lparr>co_stack := Some s'\<rparr>)"
  using assms suspended_same [of "cs_frames s" "cs_frames s'" w]
  by (auto simp: calling_def can_call_def same_frames_def)

interpretation calls: stack_condition "calling w" for w
proof
  show "\<exists>s. co_stack m = Some s \<and> wf_stack s" if "calling w m" for m
    using that by (auto simp: calling_def can_call_def)
qed (rule calling_stack)

text \<open>Local variables and parameters in the range of the template.\<close>

lemma at_code_locals:
  assumes "at_code t k m" and "co_stack m = Some s"
  obtains f fs where "cs_frames s = f # fs" "length (sf_locals f) = unat (tmpl_locals t)" "sf_argc f = tmpl_params t"
  using assms by (auto simp: at_code_def)

lemma safe_get_local:
  assumes "at_code t k m" and "register_id r < tmpl_locals t" and "\<And>v. Q v m"
  shows "safe (get_local r) m Q"
  unfolding get_local_def
proof (rule code.query [OF assms(1)])
  fix s assume "co_stack m = Some s"
  from at_code_locals [OF assms(1) this] obtain f fs where
    "cs_frames s = f # fs" "length (sf_locals f) = unat (tmpl_locals t)" .
  with assms(2,3) show "case cs_local (register_id r) s of None \<Rightarrow> LocalRange \<in> unchecked_faults | Some a \<Rightarrow> Q a m"
    by (simp add: cs_local_def word_less_nat_alt)
qed

lemma safe_set_local:
  assumes "at_code t k m" and "register_id r < tmpl_locals t" and "\<And>m'. at_code t k m' \<Longrightarrow> Q () m'"
  shows "safe (set_local r v) m Q"
  unfolding set_local_def
proof (rule code.change [OF assms(1)])
  show "Q () m'" if "at_code t k m'" for m' using assms(3) that .
  fix s assume s: "co_stack m = Some s" "wf_stack s"
  from at_code_locals [OF assms(1) s(1)] obtain f fs where
    f: "cs_frames s = f # fs" "length (sf_locals f) = unat (tmpl_locals t)" .
  with assms(2) obtain s' where s': "cs_set_local (register_id r) v s = Some s'"
    by (simp add: cs_set_local_def word_less_nat_alt)
  then have "same_frames s s'" using f
    by (auto simp: cs_set_local_def same_frames_def same_shape_def split: if_splits)
  with s' wf_set_local [OF s(2) s'] show "case cs_set_local (register_id r) v s of None \<Rightarrow> LocalRange \<in> unchecked_faults
      | Some s' \<Rightarrow> same_frames s s' \<and> wf_stack s'" by simp
qed

lemma safe_read_local:
  "at_code t k m \<Longrightarrow> register_id r < tmpl_locals t \<Longrightarrow> Q () m \<Longrightarrow> safe (read_local r) m Q"
  unfolding read_local_def by (intro safe_bind safe_get_local safe_ret) auto

lemma safe_get_arg:
  assumes "at_code t k m" and "param_id p < tmpl_params t" and "\<And>v. Q v m"
  shows "safe (query_stack (cs_arg (param_id p)) ParamRange) m Q"
proof (rule code.query [OF assms(1)])
  fix s assume s: "co_stack m = Some s" "wf_stack s"
  from at_code_locals [OF assms(1) s(1)] obtain f fs where
    f: "cs_frames s = f # fs" "sf_argc f = tmpl_params t" .
  with arg_count_present [OF s(2) f(1)] assms(2)
  show "case cs_arg (param_id p) s of None \<Rightarrow> ParamRange \<in> unchecked_faults | Some a \<Rightarrow> Q a m"
    using assms(3) by (simp add: cs_arg_def cs_arg_index_def)
qed

lemma safe_set_arg:
  assumes "at_code t k m" and "param_id p < tmpl_params t" and "\<And>m'. at_code t k m' \<Longrightarrow> Q () m'"
  shows "safe (change_stack (cs_set_arg (param_id p) v) ParamRange) m Q"
proof (rule code.change [OF assms(1)])
  show "Q () m'" if "at_code t k m'" for m' using assms(3) that .
  fix s assume s: "co_stack m = Some s" "wf_stack s"
  from at_code_locals [OF assms(1) s(1)] obtain f fs where
    f: "cs_frames s = f # fs" "sf_argc f = tmpl_params t" .
  with arg_count_present [OF s(2) f(1)] assms(2) obtain s' where s': "cs_set_arg (param_id p) v s = Some s'"
    by (simp add: cs_set_arg_def cs_arg_index_def)
  then have "same_frames s s'" using f
    by (cases fs) (auto simp: cs_set_arg_def same_frames_def same_shape_def)
  with s' wf_set_arg [OF s(2) s'] show "case cs_set_arg (param_id p) v s of None \<Rightarrow> ParamRange \<in> unchecked_faults
      | Some s' \<Rightarrow> same_frames s s' \<and> wf_stack s'" by simp
qed

subsection \<open>What a template provides\<close>

text \<open>The operands of an instruction in range, for a module with a number of members.\<close>

fun operand_fits :: "function_template \<Rightarrow> nat \<Rightarrow> nat set \<Rightarrow> operand \<Rightarrow> bool" where
  "operand_fits t n ss (RegisterOperand r) = (register_id r < tmpl_locals t)"
| "operand_fits t n ss (ParamOperand p) = (param_id p < tmpl_params t)"
| "operand_fits t n ss (MemberOperand i) = (unat (member_id i) < n)"
| "operand_fits t n ss (OffsetOperand x) = (unat (offset_value x) \<in> ss)"
| "operand_fits t n ss _ = True"

definition instr_fits :: "function_template \<Rightarrow> nat \<Rightarrow> nat set \<Rightarrow> instr \<Rightarrow> bool" where
  "instr_fits t n ss i \<longleftrightarrow>
     (\<forall>x\<in>set (instr_operands i). operand_fits t n ss x)
     \<and> (\<forall>k r. i = Map k r \<longrightarrow> k mod 2 = 0 \<and> k \<le> max_container_args)"

lemma encode_inj: "encode is = encode js \<Longrightarrow> is = js"
proof -
  assume "encode is = encode js"
  then have "read_loop 0 (encode is) = read_loop 0 (encode js)" by simp
  then have z: "zip (map word_of_nat (offsets 0 is) :: u32 list) is = zip (map word_of_nat (offsets 0 js)) js"
    by (simp only: read_loop_encode sum.inject)
  have "map snd (zip (map word_of_nat (offsets 0 xs) :: u32 list) xs) = xs" for xs by simp
  with z show "is = js" by metis
qed

lemma template_code:
  assumes "template_ok w t"
  obtains "is" vs where "tmpl_code t = encode is" "is \<noteq> []" "modules w (tmpl_module t) = Some vs"
    "\<And>i. i \<in> set is \<Longrightarrow> instr_fits t (length vs) (starts is) i" "halting_op (instr_op (last is))"
    "\<And>h. h \<in> set (tmpl_handlers t) \<Longrightarrow> unat (handler_target h) \<in> starts is"
    "tmpl_locals t < max_locals"
proof -
  obtain m seen f "is" where v: "verified_template w t m seen f is" "beyond_verifier t is"
    using assms by (auto simp: template_ok_def)
  then obtain vs where vs: "modules w (tmpl_module t) = Some vs" "length vs = length (mod_members m)"
    by (auto simp: verified_template_def)
  have ok: "function_ok m seen f is" and code: "tmpl_code t = func_code f"
    and sizes: "tmpl_params t = func_params f" "tmpl_locals t = func_locals f" "tmpl_locals t < max_locals"
    and hs: "tmpl_handlers t = func_handlers f"
    using v unfolding verified_template_def beyond_verifier_def by blast+
  have operands: "operand_ok m seen f (starts is) x" if "i \<in> set is" "x \<in> set (instr_operands i)" for i x
  proof (cases "x \<in> set (checked_operands i)")
    case True
    then show ?thesis
      using ok that(1) by (simp add: function_ok_def instr_ok_def)
  next
    case False
    then obtain r where "x = RegisterOperand r" "unchecked_index i = Some r"
      using checked_or_index [OF \<open>x \<in> set (instr_operands i)\<close>] by blast
    then show ?thesis
      using v(2) that(1) sizes(2) by (simp add: beyond_verifier_def)
  qed
  have "operand_fits t (length vs) (starts is) x" if "i \<in> set is" "x \<in> set (instr_operands i)" for i x
    using operands [OF that] sizes vs(2) by (cases x) (auto simp: reference_ok_def)
  moreover have "k mod 2 = 0 \<and> k \<le> max_container_args" if "Map k r \<in> set is" for k r
    using ok that by (auto simp: function_ok_def instr_ok_def instr_extra_def)
  ultimately have "instr_fits t (length vs) (starts is) i" if "i \<in> set is" for i
    using that unfolding instr_fits_def by blast
  moreover have "func_code f = encode is" "is \<noteq> []" "halting_op (instr_op (last is))"
    "\<And>h. h \<in> set (func_handlers f) \<Longrightarrow> unat (handler_target h) \<in> starts is"
    using ok unfolding function_ok_def handlers_valid_def by blast+
  ultimately show thesis using code hs vs(1) sizes(3) by (intro that) simp_all
qed

lemma position_start:
  assumes "template_ok w t"
  shows "position_ok t 0"
proof -
  obtain "is" where "tmpl_code t = encode is" "is \<noteq> []" using template_code [OF assms] by metis
  moreover have "0 \<in> starts is" using calculation(2) by (cases "is") (auto simp: starts_def)
  ultimately show ?thesis by (auto simp: position_ok_def)
qed

lemma position_handler:
  assumes "template_ok w t" and "h \<in> set (tmpl_handlers t)"
  shows "position_ok t (unat (handler_target h))" "unat (handler_target h) < length (tmpl_code t)"
proof -
  obtain "is" where i: "tmpl_code t = encode is"
    "\<And>h. h \<in> set (tmpl_handlers t) \<Longrightarrow> unat (handler_target h) \<in> starts is"
    using template_code [OF assms(1)] by metis
  then show "position_ok t (unat (handler_target h))" using assms(2) by (auto simp: position_ok_def)
  show "unat (handler_target h) < length (tmpl_code t)"
    using i(2) [OF assms(2)] i(1) by (simp add: starts_less)
qed

subsection \<open>Exceptions\<close>

text \<open>A stack that can be unwound: the position of the top frame does not matter.\<close>

definition frames_unwindable :: "world \<Rightarrow> stack_frame list \<Rightarrow> bool" where
  "frames_unwindable w fs \<longleftrightarrow>
     (case fs of [] \<Rightarrow> True
      | f # gs \<Rightarrow> frame_fits w (sf_data f) f \<and> catch_started (sf_data f) f \<and> suspended w gs)"

definition frames_ok :: "world \<Rightarrow> stack_frame list \<Rightarrow> bool" where
  "frames_ok w fs \<longleftrightarrow> (case fs of [] \<Rightarrow> False | f # gs \<Rightarrow> frame_ok w f \<and> suspended w gs)"

definition throwable :: "machine \<Rightarrow> bool" where
  "throwable m \<longleftrightarrow>
     world_ok (the_world m) \<and> entered m
     \<and> (\<exists>s. co_stack m = Some s \<and> wf_stack s \<and> frames_unwindable (the_world m) (cs_frames s))"

lemma suspended_unwindable: "suspended w fs \<Longrightarrow> frames_unwindable w fs"
  by (cases fs) (auto simp: suspended_def frames_unwindable_def frame_ok_def)

lemma can_call_throwable: "can_call m \<Longrightarrow> entered m \<Longrightarrow> throwable m"
  by (auto simp: can_call_def throwable_def intro: suspended_unwindable)

lemma at_code_throwable: "at_code t k m \<Longrightarrow> throwable m"
  by (auto simp: at_code_def throwable_def frames_unwindable_def)

lemma at_code_can_call: "at_code t k m \<Longrightarrow> position_ok t k \<Longrightarrow> can_call m"
  by (auto simp: at_code_def can_call_def suspended_def frame_ok_def)

lemma at_code_machine_ok: "at_code t k m \<Longrightarrow> position_ok t k \<Longrightarrow> machine_ok m"
  by (auto simp: at_code_def machine_ok_def frame_ok_def)

lemma pop_frame_args_frames:
  "pop_frame_args s = Some s' \<Longrightarrow> cs_frames s = f # fs \<Longrightarrow> list_all2 same_shape fs (cs_frames s')"
  by (cases fs)
     (auto simp: pop_frame_args_def cs_pop_frame_def cs_pop_values_def Let_def set_top_vals_def same_shape_def
        split: if_splits)

lemma wf_pop_frame_args: "wf_stack s \<Longrightarrow> pop_frame_args s = Some s' \<Longrightarrow> wf_stack s'"
  by (auto simp: pop_frame_args_def Let_def bind_eq_Some_conv split: list.split_asm intro: wf_pop_frame wf_pop_values)

lemma suspended_tail: "suspended w (f # fs) \<Longrightarrow> suspended w fs"
  by (simp add: suspended_def)

lemma frames_unwindable_tail: "frames_unwindable w (f # fs) \<Longrightarrow> suspended w fs"
  by (simp add: frames_unwindable_def)

lemma unwind_into_safe:
  assumes wf: "wf_stack s" and fs: "cs_frames s = f # fs" and ok: "frames_unwindable w (f # fs)"
  shows "case unwind_into f ex w s of
      Inl err \<Rightarrow> err \<in> unchecked_faults
    | Inr (caught, ex', w', s') \<Rightarrow>
        world_step w w' \<and> wf_stack s' \<and> (if caught then frames_ok w' (cs_frames s') else s' = s)"
proof (cases "sf_data f")
  case (CodeFrame t c current pc)
  obtain sec where sec_def: "sec = (sf_flags f AND frame_unwinding \<noteq> 0)" by simp
  obtain w' where w'_def: "w' = (if sec then add_secondary current ex w else w)" by simp
  obtain ex' where ex'_def: "ex' = (if sec then current else ex)" by simp
  obtain pc' where pc'_def: "pc' = (if 0 < pc then pc - 1 else pc)" by simp
  have step: "world_step w w'" by (simp add: w'_def world_step_secondary)
  have fits: "template_ok w t" "length (sf_locals f) = unat (tmpl_locals t)" "sf_argc f = tmpl_params t"
    and susp: "suspended w fs"
    using ok CodeFrame by (simp_all add: frames_unwindable_def)
  have u: "unwind_into f ex w s =
     (if sec \<and> current = Null then Inl ExceptionMissing
      else case find_entry (tmpl_handlers t) (word_of_nat pc') of
             None \<Rightarrow> Inr (False, ex', w', s)
           | Some entry \<Rightarrow>
               if length (tmpl_code t) \<le> unat (handler_target entry) then Inl JumpRange
               else case cs_set_frame (\<lambda>_. CodeFrame t c ex' (unat (handler_target entry)))
                           (\<lambda>fl. fl OR frame_unwinding) s of
                      None \<Rightarrow> Inl NoActiveFrame | Some s' \<Rightarrow> Inr (True, ex', w', s'))"
    by (simp only: unwind_into_def CodeFrame frame_data.case handle_exception_def Let_def sec_def w'_def
        ex'_def pc'_def)
  show ?thesis
  proof (cases "sec \<and> current = Null")
    case True
    then show ?thesis by (simp add: u unchecked_faults_def)
  next
    case False
    show ?thesis
    proof (cases "find_entry (tmpl_handlers t) (word_of_nat pc')")
      case None
      with False show ?thesis using step wf by (auto simp: u)
    next
      case (Some h)
      let ?s = "s\<lparr>cs_frames := f\<lparr>sf_data := CodeFrame t c ex' (unat (handler_target h)),
                    sf_flags := sf_flags f OR frame_unwinding\<rparr> # fs\<rparr>"
      note h = position_handler [OF fits(1) find_entry_member [OF Some]]
      have set: "cs_set_frame (\<lambda>_. CodeFrame t c ex' (unat (handler_target h))) (\<lambda>fl. fl OR frame_unwinding) s = Some ?s"
        by (simp add: cs_set_frame_def fs)
      have "wf_stack ?s"
        using wf fs CodeFrame by (auto simp: wf_stack_def cs_used_def frame_cost_def)
      moreover have "frames_ok w' (cs_frames ?s)"
        using fits h(1) template_ok_step [OF step fits(1)] suspended_step [OF step susp]
        by (simp add: frames_ok_def frame_ok_def)
      ultimately show ?thesis using False Some h(2) set step by (auto simp: u)
    qed
  qed
next
  case (ResumableFrame func st)
  then show ?thesis using wf by (simp add: unwind_into_def)
next
  case (CatchFrame e)
  let ?s = "s\<lparr>cs_frames := f\<lparr>sf_data := CatchFrame ex, sf_flags := sf_flags f OR frame_unwinding\<rparr> # fs\<rparr>"
  have started: "sf_flags f AND frame_catch_started \<noteq> 0" and susp: "suspended w fs"
    using ok CatchFrame by (simp_all add: frames_unwindable_def)
  have "(sf_flags f OR frame_unwinding) AND frame_catch_started = sf_flags f AND frame_catch_started"
    by (simp add: frame_unwinding_def frame_catch_started_def bit.conj_disj_distrib2)
  with started have "frame_ok w (f\<lparr>sf_data := CatchFrame ex, sf_flags := sf_flags f OR frame_unwinding\<rparr>)"
    by (simp add: frame_ok_def)
  moreover have "wf_stack ?s"
    using wf fs CatchFrame by (auto simp: wf_stack_def cs_used_def frame_cost_def)
  ultimately show ?thesis
    using started susp by (simp add: unwind_into_def CatchFrame cs_set_frame_def fs frames_ok_def)
qed

definition unwound :: "world \<Rightarrow> fault + bool \<times> val \<times> world \<times> call_stack \<Rightarrow> bool" where
  "unwound w r \<longleftrightarrow> (case r of
      Inl err \<Rightarrow> err \<in> unchecked_faults
    | Inr (caught, ex', w', s') \<Rightarrow>
        world_step w w' \<and> wf_stack s' \<and> (if caught then frames_ok w' (cs_frames s') else cs_frames s' = []))"

lemma unwound_step: "world_step w w' \<Longrightarrow> unwound w' r \<Longrightarrow> unwound w r"
  by (auto simp: unwound_def split: sum.splits intro: world_step_trans)

lemma unwind_loop_safe:
  assumes "wf_stack s" and "frames_unwindable w (cs_frames s)"
  shows "unwound w (unwind_loop ex w s)"
  using assms
proof (induction ex w s rule: unwind_loop.induct)
  case (1 ex w s)
  show ?case
  proof (cases "cs_frames s")
    case Nil
    then show ?thesis using 1(2) by (simp add: unwind_loop.simps unwound_def)
  next
    case (Cons f fs)
    then have un: "frames_unwindable w (f # fs)" using 1(3) by simp
    note into = unwind_into_safe [OF 1(2) Cons un, of ex]
    show ?thesis
    proof (cases "unwind_into f ex w s")
      case (Inl err)
      then show ?thesis using into Cons by (simp add: unwind_loop.simps unwound_def)
    next
      case (Inr r)
      obtain caught ex' w' s' where r: "r = (caught, ex', w', s')" by (cases r)
      show ?thesis
      proof (cases caught)
        case True
        then show ?thesis using into Inr r Cons by (simp add: unwind_loop.simps unwound_def)
      next
        case False
        then have step: "world_step w w'" and s': "s' = s" using into Inr r by simp_all
        show ?thesis
        proof (cases "pop_frame_args s")
          case None
          then show ?thesis using Inr r Cons False s' by (simp add: unwind_loop.simps unwound_def unchecked_faults_def)
        next
          case (Some s'')
          have "suspended w (cs_frames s'')"
            using suspended_same [OF pop_frame_args_frames [OF Some Cons]] frames_unwindable_tail [OF un] by simp
          with step have "frames_unwindable w' (cs_frames s'')"
            by (intro suspended_unwindable suspended_step [OF step])
          then have "unwound w' (unwind_loop ex' w' s'')"
            using 1(1) [OF Cons Inr r [symmetric] refl refl False] s' Some wf_pop_frame_args [OF 1(2) Some] by simp
          moreover have "unwind_loop ex w s = unwind_loop ex' w' s''"
            using Inr r Cons False s' Some by (simp add: unwind_loop.simps [of ex w s])
          ultimately show ?thesis using unwound_step [OF step] by simp
        qed
      qed
    qed
  qed
qed

subsection \<open>Exceptions, calls and returns in a running machine\<close>

text \<open>What the interpreter relies on in the rest of the virtual machine.\<close>

definition runtime_ok :: "runtime \<Rightarrow> bool" where
  "runtime_ok rt \<longleftrightarrow>
     (\<forall>msg w. world_step w (rt_message rt msg w))
     \<and> (\<forall>v a w. world_step w (snd (rt_load_member rt v a w)))
     \<and> (\<forall>v a x w. world_step w (snd (rt_store_member rt v a x w)))
     \<and> (\<forall>v i w. world_step w (snd (rt_load_index rt v i w)))
     \<and> (\<forall>v i x w. world_step w (snd (rt_store_index rt v i x w)))
     \<and> (\<forall>v a w. world_step w (snd (rt_load_method rt v a w)))
     \<and> (\<forall>v w. world_step w (snd (rt_iterator rt v w)))
     \<and> (\<forall>v w. world_step w (snd (rt_iterator_next rt v w)))
     \<and> (\<forall>vs w. world_step w (snd (rt_make_array rt vs w)))
     \<and> (\<forall>vs w. world_step w (snd (rt_make_set rt vs w)))
     \<and> (\<forall>ks w. world_step w (snd (rt_make_record rt ks w)))
     \<and> (\<forall>b v w. world_step w (rt_append_format rt b v w))
     \<and> (\<forall>b w. world_step w (snd (rt_format_result rt b w)))
     \<and> (\<forall>f st as ls vs w. world_step w (nr_world (rt_invoke rt f st as ls vs w))
          \<and> nr_coroutine (rt_invoke rt f st as ls vs w) \<in> {Running, Ready, Waiting})"

lemma throwable_world:
  assumes "throwable m" and "world_step (the_world m) w"
  shows "throwable (m\<lparr>the_world := w\<rparr>)"
proof -
  obtain s where s: "co_stack m = Some s" "wf_stack s" "frames_unwindable (the_world m) (cs_frames s)"
    "world_ok (the_world m)" "entered m"
    using assms(1) by (auto simp: throwable_def)
  have "frames_unwindable w (cs_frames s)"
    using s(3) suspended_step [OF assms(2)] frame_fits_step [OF assms(2)]
    by (auto simp: frames_unwindable_def split: list.splits)
  with s world_step_ok [OF assms(2) s(4)] show ?thesis by (auto simp: throwable_def)
qed

lemma safe_step: "the_world m = w \<Longrightarrow> world_step w (snd (f w))
  \<Longrightarrow> (\<And>a w'. world_step w w' \<Longrightarrow> Q a (m\<lparr>the_world := w'\<rparr>)) \<Longrightarrow> safe (on_world f) m Q"
  by (cases "f w") (auto simp: safe_def on_world_def)

lemma safe_alloc_step: "object_ok (the_world m) obj
  \<Longrightarrow> (\<And>a w'. world_step (the_world m) w' \<Longrightarrow> Q a (m\<lparr>the_world := w'\<rparr>)) \<Longrightarrow> safe (alloc rt obj) m Q"
  unfolding alloc_def by (rule safe_step [OF refl]) (auto intro: world_step_store)

lemma safe_finish:
  assumes "world_ok (the_world m)" and "co_stack m = Some s" and "wf_stack s" and "cs_frames s = []"
  shows "safe (finish_coroutine rt ok v) m (\<lambda>_. machine_ok)"
  unfolding finish_coroutine_def
  using assms world_step_ok
  by (intro safe_bind safe_alloc_step) (auto simp: safe_def change_coroutine_def machine_ok_def)

lemma safe_unwind:
  assumes "throwable m"
  shows "safe (unwind rt ex) m (\<lambda>_. machine_ok)"
proof -
  obtain s where s: "co_stack m = Some s" "wf_stack s" "frames_unwindable (the_world m) (cs_frames s)"
    "world_ok (the_world m)" "entered m"
    using assms(1) by (auto simp: throwable_def)
  note u = unwind_loop_safe [OF s(2,3), of ex]
  show ?thesis
  proof (cases "unwind_loop ex (the_world m) s")
    case (Inl err)
    with u s(1) show ?thesis by (simp add: safe_def unwind_def unwound_def)
  next
    case (Inr r)
    obtain caught ex' w' s' where r: "r = (caught, ex', w', s')" by (cases r)
    have step: "world_step (the_world m) w'" and wf: "wf_stack s'"
      and fr: "if caught then frames_ok w' (cs_frames s') else cs_frames s' = []"
      using u Inr r by (simp_all add: unwound_def)
    have w: "world_ok w'" using world_step_ok [OF step s(4)] .
    show ?thesis
    proof (cases caught)
      case True
      then have "machine_ok (m\<lparr>the_world := w', co_stack := Some s'\<rparr>)"
        using w wf fr s(5) by (auto simp: machine_ok_def frames_ok_def split: list.splits)
      then show ?thesis using Inr r True s(1) by (simp add: safe_def unwind_def)
    next
      case False
      let ?m = "m\<lparr>the_world := w', co_stack := Some s'\<rparr>"
      have "safe (finish_coroutine rt False ex') ?m (\<lambda>_. machine_ok)"
        using False fr w wf by (intro safe_finish) auto
      then show ?thesis using Inr r False s(1) by (simp add: safe_def unwind_def)
    qed
  qed
qed

lemma safe_throw:
  assumes "runtime_ok rt" and "throwable m"
  shows "safe (throw rt msg) m (\<lambda>_. machine_ok)"
  unfolding throw_def make_exception_def
  using assms
  by (intro safe_bind safe_step [OF refl] safe_alloc_step safe_unwind throwable_world)
     (auto simp: runtime_ok_def)

text \<open>Calls: a new frame that is fit to run is pushed on a stack that is fit to be suspended.\<close>

lemma calling_throwable: "calling w m \<Longrightarrow> throwable m"
  by (simp add: calling_def can_call_throwable)

lemma push_frame_result:
  assumes "wf_stack s" and "unat nargs \<le> length (top_vals s)" and "nlocals < max_locals" and "suspended w (cs_frames s)"
    and "frame_ok w \<lparr>sf_data = d, sf_flags = fl, sf_argc = nargs,
           sf_locals = replicate (unat nlocals) init, sf_values = []\<rparr>"
  shows "\<exists>ok s'. cs_push_frame d fl nargs nlocals init s = Some (ok, s') \<and> (ok \<longrightarrow> wf_stack s' \<and> frames_ok w (cs_frames s'))"
proof -
  obtain ok s' where p: "cs_push_frame d fl nargs nlocals init s = Some (ok, s')"
    using assms(3) that by (cases "cs_available s < 8 * (frame_size d + unat nlocals)") (auto simp add: cs_push_frame_def)
  have "wf_stack s'" by (rule wf_push_frame [OF assms(1,2) p])
  moreover have "frames_ok w (cs_frames s')" if ok
    using p that assms(3-5) by (auto simp: cs_push_frame_def frames_ok_def split: if_splits)
  ultimately show ?thesis using p by blast
qed

lemma safe_enter_frame:
  assumes "calling w m" and "nlocals < max_locals"
    and "\<And>init. frame_ok w \<lparr>sf_data = d, sf_flags = fl, sf_argc = nargs,
           sf_locals = replicate (unat nlocals) init, sf_values = []\<rparr>"
  shows "safe (bind_exec (check_values (unat nargs)) (\<lambda>_.
     grow_stack_impl (\<lambda>s. cs_push_frame d fl nargs nlocals (init s) s))) m (\<lambda>_. machine_ok)"
  unfolding check_values_def
proof (intro safe_bind calls.query [OF assms(1)])
  fix s assume s: "co_stack m = Some s" "wf_stack s"
  have w: "the_world m = w" "world_ok w" "suspended w (cs_frames s)" "entered m"
    using assms(1) s(1) by (auto simp: calling_def can_call_def)
  have "safe (grow_stack_impl (\<lambda>s. cs_push_frame d fl nargs nlocals (init s) s)) m (\<lambda>_. machine_ok)"
    if len: "unat nargs \<le> length (top_vals s)"
  proof (rule safe_grow [OF s])
    show "\<exists>ok s'. cs_push_frame d fl nargs nlocals (init (s\<lparr>cs_end := k\<rparr>)) (s\<lparr>cs_end := k\<rparr>) = Some (ok, s')
        \<and> (ok \<longrightarrow> wf_stack s' \<and> frames_ok w (cs_frames s'))" if "cs_end s \<le> k" "k \<le> 2 ^ 24" for k
    proof (rule push_frame_result [OF wf_grow [OF s(2) that] _ assms(2) ])
      show "unat nargs \<le> length (top_vals (s\<lparr>cs_end := k\<rparr>))" using len by (simp add: top_vals_of)
    qed (use w assms(3) in auto)
    show "machine_ok (m\<lparr>co_stack := Some s'\<rparr>)" if "wf_stack s' \<and> frames_ok w (cs_frames s')" for s'
      using that w by (auto simp: machine_ok_def frames_ok_def split: list.splits)
  qed
  then show "case if unat nargs \<le> length (top_vals s) then Some () else None of
      None \<Rightarrow> ValuesMissing \<in> unchecked_faults
    | Some a \<Rightarrow> safe (grow_stack_impl (\<lambda>s. cs_push_frame d fl nargs nlocals (init s) s)) m (\<lambda>_. machine_ok)"
    by (simp add: unchecked_faults_def)
qed

lemma safe_enter_user_frame:
  assumes "calling w m" and "template_ok w t"
  shows "safe (enter_user_frame t c fl) m (\<lambda>_. machine_ok)"
  unfolding enter_user_frame_def
proof (rule safe_enter_frame [OF assms(1)])
  show "tmpl_locals t < max_locals" using template_code [OF assms(2)] by metis
  show "frame_ok w \<lparr>sf_data = CodeFrame t c Null 0, sf_flags = fl, sf_argc = tmpl_params t,
      sf_locals = replicate (unat (tmpl_locals t)) init, sf_values = []\<rparr>" for init
    using assms(2) position_start [OF assms(2)] by (simp add: frame_ok_def)
qed

lemma safe_enter_resumable_frame:
  assumes "calling w m" and "native_locals func < max_locals"
  shows "safe (enter_resumable_frame func nargs fl) m (\<lambda>_. machine_ok)"
  unfolding enter_resumable_frame_def
  by (rule safe_enter_frame [OF assms(1,2) ]) (simp add: frame_ok_def)

lemma safe_enter_catch_frame:
  assumes "calling w m" and "fl AND frame_unwinding = 0"
  shows "safe (enter_catch_frame nargs fl) m (\<lambda>_. machine_ok)"
  unfolding enter_catch_frame_def
  by (rule safe_enter_frame [OF assms(1)]) (simp_all add: frame_ok_def assms(2) max_locals_def)

lemma safe_enter_object:
  assumes "runtime_ok rt" and "calling w m" and "\<And>obj. f = Some obj \<Longrightarrow> object_ok w obj"
    and "fl AND frame_unwinding = 0"
  shows "safe (enter_object rt v f nargs fl) m (\<lambda>_. machine_ok)"
proof -
  have throws: "safe (throw rt msg) m (\<lambda>_. machine_ok)" for msg
    using safe_throw [OF assms(1) calling_throwable [OF assms(2)]] .
  show ?thesis
  proof (cases f)
    case (Some obj)
    show ?thesis
    proof (cases obj)
      case (CodeFunctionObject t c)
      then have "template_ok w t" using assms(3) [OF Some] by simp
      then show ?thesis
        using Some CodeFunctionObject throws safe_enter_user_frame [OF assms(2)] by (simp add: enter_object_def)
    next
      case (NativeFunctionObject func)
      then have "native_locals func < max_locals" using assms(3) [OF Some] by simp
      then show ?thesis
        using Some NativeFunctionObject throws safe_enter_resumable_frame [OF assms(2)]
        by (simp add: enter_object_def)
    next
      case CatchFunctionObject
      then show ?thesis
        using Some throws safe_enter_catch_frame [OF assms(2,4)] by (simp add: enter_object_def)
    qed (use Some throws in \<open>simp_all add: enter_object_def\<close>)
  qed (use throws in \<open>simp add: enter_object_def\<close>)
qed

lemma object_at_ok: "world_ok w \<Longrightarrow> object_at w v = Some obj \<Longrightarrow> object_ok w obj"
  by (cases v) (auto simp: world_ok_def)

lemma calling_world: "calling w m \<Longrightarrow> the_world m = w"
  by (simp add: calling_def)

lemma calling_ok: "calling w m \<Longrightarrow> world_ok w"
  by (auto simp: calling_def can_call_def)

lemma safe_shift_args:
  assumes "calling w m" and "\<And>m'. calling w m' \<Longrightarrow> Q () m'"
  shows "safe (change_stack (shift_args v n) ValuesMissing) m Q"
proof (rule calls.change [OF assms(1)])
  fix s assume "co_stack m = Some s" "wf_stack s"
  then show "case shift_args v n s of None \<Rightarrow> ValuesMissing \<in> unchecked_faults
      | Some s' \<Rightarrow> same_frames s s' \<and> wf_stack s'"
    using wf_set_top_vals [of s "take (length (top_vals s) - Suc n) (top_vals s)
        @ v # take n (drop (length (top_vals s) - Suc n) (top_vals s))"]
    by (simp add: shift_args_def Let_def unchecked_faults_def)
qed (rule assms(2))

lemma safe_enter_function:
  assumes "runtime_ok rt" and "calling w m"
  shows "safe (enter_function rt f nargs pop) m (\<lambda>_. machine_ok)"
proof -
  let ?fl = "if pop then frame_pop_one_more else 0"
  have fl: "?fl AND frame_unwinding = 0" by (simp add: frame_pop_one_more_def frame_unwinding_def)
  have direct: "safe (enter_object rt v (object_at w u) n ?fl) m' (\<lambda>_. machine_ok)" if "calling w m'" for v u n m'
    using safe_enter_object [OF assms(1) that object_at_ok [OF calling_ok [OF assms(2)]] fl] .
  have bound: "safe (bind_exec (reserve_values 1) (\<lambda>_. bind_exec (must_push_value Null) (\<lambda>_.
      bind_exec (change_stack (shift_args object (unat nargs)) ValuesMissing) (\<lambda>_.
        enter_object rt func (object_at w func) (nargs + 1) ?fl)))) m (\<lambda>_. machine_ok)" for object func
  proof (rule safe_bind, rule calls.reserve [OF assms(2)])
    fix m1 assume m1: "calling w m1" "room 1 m1"
    show "safe (bind_exec (must_push_value Null) (\<lambda>_. bind_exec (change_stack (shift_args object (unat nargs)) ValuesMissing)
        (\<lambda>_. enter_object rt func (object_at w func) (nargs + 1) ?fl))) m1 (\<lambda>_. machine_ok)"
      using m1 by (intro safe_bind calls.push [of w m1 0] safe_shift_args [of w] direct) simp_all
  qed
  note unfold = enter_function_def bind_exec_def read_world_def calling_world [OF assms(2)] Let_def
  show ?thesis
  proof (cases "\<exists>func object. object_at w f = Some (BoundMethodObject func object)")
    case False
    then have "enter_function rt f nargs pop m = enter_object rt f (object_at w f) nargs ?fl m"
      by (auto simp: unfold split: option.split heap_object.split)
    then show ?thesis by (rule safe_eq [OF _ direct [OF assms(2)]])
  next
    case True
    then obtain func object where f: "object_at w f = Some (BoundMethodObject func object)" by blast
    show ?thesis
    proof (cases "\<exists>g x. object_at w func = Some (BoundMethodObject g x)")
      case True
      then have "enter_function rt f nargs pop m = fail NestedMethod m" using f by (auto simp: unfold)
      then show ?thesis by (rule safe_eq [OF _ safe_fail]) (simp add: unchecked_faults_def)
    next
      case False
      obtain inner where inner: "object_at w func = inner" by simp
      have "enter_function rt f nargs pop m = bind_exec (reserve_values 1) (\<lambda>_. bind_exec (must_push_value Null) (\<lambda>_.
          bind_exec (change_stack (shift_args object (unat nargs)) ValuesMissing) (\<lambda>_.
            enter_object rt func inner (nargs + 1) ?fl))) m"
      proof (cases inner)
        case None
        then show ?thesis using f inner by (simp add: unfold)
      next
        case (Some obj)
        then show ?thesis using f inner False by (cases obj) (simp_all add: unfold)
      qed
      then show ?thesis using safe_eq [OF _ bound] inner by metis
    qed
  qed
qed

lemma safe_call_function:
  assumes "runtime_ok rt" and "calling w m"
  shows "safe (call_function rt f nargs) m (\<lambda>_. machine_ok)"
  unfolding call_function_def check_values_def
  using safe_enter_function [OF assms]
  by (intro safe_bind calls.query [OF assms(2)]) (simp add: unchecked_faults_def)

lemma safe_call_method:
  assumes "runtime_ok rt" and "calling w m"
  shows "safe (call_method rt f nargs) m (\<lambda>_. machine_ok)"
  unfolding call_method_def Let_def
  using safe_enter_function [OF assms]
  by (intro safe_bind calls.query [OF assms(2)]) (simp add: unchecked_faults_def split: option.split)

text \<open>The frame that a return removes makes room for the returned value.\<close>

lemma pop_frame_args_room:
  assumes "wf_stack s" and "pop_frame_args s = Some s'"
  shows "8 \<le> cs_available s'"
proof -
  obtain f fs where fs: "cs_frames s = f # fs"
    using assms(2) by (cases "cs_frames s") (simp_all add: pop_frame_args_def)
  let ?s = "s\<lparr>cs_frames := fs\<rparr>"
  obtain n where "cs_pop_values n ?s = Some s'"
    using assms(2) fs by (auto simp: pop_frame_args_def cs_pop_frame_def Let_def)
  then have s': "s' = set_top_vals (take (length (top_vals ?s) - n) (top_vals ?s)) ?s"
    by (simp add: cs_pop_values_def Let_def split: if_splits)
  then have "cs_used s' \<le> cs_used ?s"
    by (cases fs) (simp_all add: cs_used_def set_top_vals_def top_vals_def frame_cost_def)
  moreover have "cs_used s = cs_used ?s + 8 * frame_cost f" using fs by (simp add: cs_used_def)
  moreover have "0 < frame_cost f" using frame_size_pos [of "sf_data f"] by (simp add: frame_cost_def)
  moreover have "cs_used s \<le> cs_end s" using assms(1) by (simp add: wf_stack_def)
  moreover have "cs_end s' = cs_end s" using s' by simp
  ultimately show ?thesis unfolding cs_available_def by linarith
qed

lemma safe_return:
  assumes "throwable m" and "co_stack m = Some s" and "cs_frames s = f # fs"
  shows "safe (return_function rt v) m (\<lambda>_. machine_ok)"
proof (cases "pop_frame_args s")
  case None
  then show ?thesis
    using assms(2,3)
    by (simp add: safe_def return_function_def bind_exec_def query_stack_def change_stack_def unchecked_faults_def)
next
  case (Some s')
  have w: "world_ok (the_world m)" "wf_stack s" "frames_unwindable (the_world m) (f # fs)" "entered m"
    using assms(1-3) by (auto simp: throwable_def)
  have wf: "wf_stack s'" by (rule wf_pop_frame_args [OF w(2) Some])
  have susp: "suspended (the_world m) (cs_frames s')"
    using suspended_same [OF pop_frame_args_frames [OF Some assms(3)]] frames_unwindable_tail [OF w(3)] by simp
  let ?m = "m\<lparr>co_stack := Some s'\<rparr>"
  let ?s = "set_top_vals (top_vals s' @ [v]) s'"
  have push: "cs_push_value v s' = (True, ?s)"
    using pop_frame_args_room [OF w(2) Some] by (simp add: cs_push_value_def)
  have "suspended (the_world m) (cs_frames ?s)"
    using suspended_same [of "cs_frames s'" "cs_frames ?s"] susp same_frames_top_vals [of s']
    by (simp add: same_frames_def)
  then have pushed: "machine_ok (m\<lparr>co_stack := Some ?s\<rparr>)" if "cs_frames s' \<noteq> []"
    using that w(1,4) wf_push_value [OF wf push] by (auto simp: machine_ok_def suspended_def split: list.split) (metis length_set_top_vals length_0_conv)
  have "safe (must_push_value v) ?m (\<lambda>_. machine_ok)" if "cs_frames s' \<noteq> []"
    using pushed [OF that] push by (simp add: safe_def must_push_value_def change_stack_def)
  moreover have "safe (finish_coroutine rt True v) ?m (\<lambda>_. machine_ok)" if "cs_frames s' = []"
    using that w(1) wf by (intro safe_finish) auto
  ultimately show ?thesis
    using Some assms(2) by (auto simp: safe_def return_function_def bind_exec_def query_stack_def change_stack_def)
qed

subsection \<open>Instructions\<close>

lemma at_code_ok: "at_code t k m \<Longrightarrow> world_ok (the_world m)"
  by (simp add: at_code_def)

lemma at_code_calling: "at_code t k m \<Longrightarrow> position_ok t k \<Longrightarrow> calling (the_world m) m"
  by (simp add: calling_def at_code_can_call) (simp add: at_code_def)

lemma safe_return_code: "at_code t k m \<Longrightarrow> safe (return_function rt v) m (\<lambda>_. machine_ok)"
  using at_code_throwable [of t k m] safe_return [of m] by (auto simp: at_code_def)

lemma safe_throw_code: "runtime_ok rt \<Longrightarrow> at_code t k m \<Longrightarrow> safe (throw rt msg) m (\<lambda>_. machine_ok)"
  by (rule safe_throw [OF _ at_code_throwable])

lemma safe_unwind_code: "at_code t k m \<Longrightarrow> safe (unwind rt ex) m (\<lambda>_. machine_ok)"
  by (rule safe_unwind [OF at_code_throwable])

lemma safe_settle:
  "at_code t k m \<Longrightarrow> (\<And>a. safe (f a) m (\<lambda>_. machine_ok)) \<Longrightarrow> safe (settle rt r f) m (\<lambda>_. machine_ok)"
  by (auto simp: settle_def split: sum.split intro: safe_unwind_code)

lemma safe_set_pc:
  assumes "at_code t k m" and "\<And>m'. at_code t pc m' \<Longrightarrow> Q () m'"
  shows "safe (set_pc pc) m Q"
proof -
  obtain s f fs c e where s: "world_ok (the_world m)" "co_stack m = Some s" "wf_stack s" "cs_frames s = f # fs"
    "sf_data f = CodeFrame t c e k" "frame_fits (the_world m) (sf_data f) f" "suspended (the_world m) fs" "entered m"
    using assms(1) by (auto simp: at_code_def)
  let ?s = "s\<lparr>cs_frames := f\<lparr>sf_data := CodeFrame t c e pc, sf_flags := sf_flags f\<rparr> # fs\<rparr>"
  have "cs_set_frame (with_pc pc) id s = Some ?s" using s(4,5) by (simp add: cs_set_frame_def)
  moreover have "wf_stack ?s" using s(3-5) by (auto simp: wf_stack_def cs_used_def frame_cost_def)
  then have "at_code t pc (m\<lparr>co_stack := Some ?s\<rparr>)" using s by (simp add: at_code_def)
  ultimately show ?thesis using s(2) assms(2) by (simp add: safe_def set_pc_def change_stack_def)
qed

lemma safe_jump:
  assumes "at_code t k m" and "cf_tmpl cf = t" and "tmpl_code t = encode is" and "unat (offset_value x) \<in> starts is"
  shows "safe (jump cf x) m (\<lambda>_. machine_ok)"
proof -
  have "position_ok t (unat (offset_value x))" using assms(3,4) by (auto simp: position_ok_def)
  moreover have "unat (offset_value x) < length (tmpl_code t)" using assms(3,4) by (simp add: starts_less)
  ultimately show ?thesis
    unfolding jump_def using assms(1,2) by (auto intro: safe_set_pc at_code_machine_ok)
qed

lemma safe_jump_if:
  assumes "at_code t k m" and "position_ok t k" and "register_id r < tmpl_locals t"
    and "cf_tmpl cf = t" and "tmpl_code t = encode is" and "unat (offset_value x) \<in> starts is"
  shows "safe (jump_if cf test r x) m (\<lambda>_. machine_ok)"
  unfolding jump_if_def using assms
  by (intro safe_bind safe_get_local) (auto intro: safe_jump safe_ret at_code_machine_ok)

lemma safe_get_member:
  assumes "cf_tmpl cf = t" and "modules (the_world m) (tmpl_module t) = Some vs" and "unat (member_id i) < length vs"
    and "\<And>v. Q v m"
  shows "safe (get_member cf i) m Q"
  using assms by (simp add: safe_def get_member_def Let_def unchecked_faults_def)

lemma safe_get_symbol:
  assumes "cf_tmpl cf = t" and "modules (the_world m) (tmpl_module t) = Some vs" and "unat (member_id i) < length vs"
    and "\<And>v. Q v m"
  shows "safe (get_symbol cf i) m Q"
  unfolding get_symbol_def using assms
  by (intro safe_bind safe_get_member) (auto intro: safe_ret safe_fail simp: unchecked_faults_def split: val.split)

lemma safe_set_member:
  assumes "at_code t k m" and "cf_tmpl cf = t" and "modules (the_world m) (tmpl_module t) = Some vs"
    and "unat (member_id i) < length vs" and "\<And>m'. at_code t k m' \<Longrightarrow> Q () m'"
  shows "safe (set_member cf i v) m Q"
proof -
  have "at_code t k (m\<lparr>the_world := (the_world m)\<lparr>modules :=
      (modules (the_world m))(tmpl_module t \<mapsto> vs[unat (member_id i) := v])\<rparr>\<rparr>)"
    by (rule at_code_world [OF assms(1) world_step_member [OF assms(3)]])
  then show ?thesis using assms(2-5) by (simp add: safe_def set_member_def Let_def)
qed

lemma safe_query_some:
  assumes "at_code t k m" and "\<And>s. co_stack m = Some s \<Longrightarrow> Q (f s) m"
  shows "safe (query_stack (\<lambda>s. Some (f s)) err) m Q"
  by (rule code.query [OF assms(1)]) (simp add: assms(2))

lemma safe_top_value:
  assumes "at_code t k m" and "\<And>v. Q v m"
  shows "safe (query_stack (cs_top_value n) ValuesMissing) m Q"
  by (rule code.query [OF assms(1)]) (simp add: assms(2) cs_top_value_def Let_def unchecked_faults_def)

lemma safe_top_args:
  assumes "at_code t k m" and "\<And>vs. length vs = unat n \<Longrightarrow> Q vs m"
  shows "safe (top_args n) m Q"
  unfolding top_args_def
  by (rule code.query [OF assms(1)]) (simp add: assms(2) cs_top_values_def Let_def unchecked_faults_def)

lemma safe_pop_args:
  assumes "at_code t k m" and "\<And>m'. at_code t k m' \<Longrightarrow> Q () m'"
  shows "safe (pop_args n) m Q"
  unfolding pop_args_def
proof (rule code.change [OF assms(1)])
  show "case cs_pop_values n s of None \<Rightarrow> ValuesMissing \<in> unchecked_faults | Some s' \<Rightarrow> same_frames s s' \<and> wf_stack s'"
    if "wf_stack s" for s
    using wf_pop_values [OF that, of n] by (simp add: cs_pop_values_def Let_def unchecked_faults_def)
qed (rule assms(2))

lemma safe_get_integer:
  assumes "at_code t k m" and "\<And>v m'. at_code t k m' \<Longrightarrow> Q v m'"
  shows "safe (get_integer rt i) m Q"
  using assms
  by (auto simp: get_integer_def intro!: safe_bind safe_ret safe_alloc [of t k] split: val.split)

lemma safe_make_float:
  assumes "at_code t k m" and "\<And>v m'. at_code t k m' \<Longrightarrow> Q v m'"
  shows "safe (make_float rt f) m Q"
  using assms
  by (auto simp: make_float_def intro!: safe_bind safe_ret safe_alloc [of t k] split: val.split)

lemma safe_make_number:
  assumes "at_code t k m" and "\<And>v m'. at_code t k m' \<Longrightarrow> Q v m'"
  shows "safe (make_number rt n) m Q"
  using assms by (cases n) (simp_all add: safe_get_integer safe_make_float)

lemma runtime_steps:
  assumes "runtime_ok rt"
  shows "world_step w (snd (rt_load_member rt v a w))" "world_step w (snd (rt_store_member rt v a x w))"
    "world_step w (snd (rt_load_index rt v i w))" "world_step w (snd (rt_store_index rt v i x w))"
    "world_step w (snd (rt_load_method rt v a w))" "world_step w (snd (rt_iterator rt v w))"
    "world_step w (snd (rt_iterator_next rt v w))" "world_step w (snd (rt_make_array rt vs w))"
    "world_step w (snd (rt_make_set rt vs w))" "world_step w (snd (rt_make_record rt ks w))"
    "world_step w (rt_append_format rt b v w)" "world_step w (snd (rt_format_result rt b w))"
  using assms by (simp_all add: runtime_ok_def)

lemma pair_up_even: "even (length vs) \<Longrightarrow> \<exists>kvs. pair_up vs = Some kvs"
  by (induction vs rule: pair_up.induct) auto

lemma map_built:
  assumes "length vs = unat (n :: u32)" and "n mod 2 = 0" and "n \<le> max_container_args"
  shows "\<exists>table. interpret_map vs = Some (Inr table)"
proof -
  have "unat (n mod 2) = 0" using assms(2) by simp
  then have "even (length vs)" using assms(1) by (simp add: unat_mod even_iff_mod_2_eq_zero)
  then obtain kvs where "pair_up vs = Some kvs" using pair_up_even by blast
  moreover have "length vs < 2 ^ 32" using assms(1) unsigned_less [of n] by simp
  ultimately show ?thesis using interpret_map_correct by blast
qed

text \<open>Every instruction with operands in range is safe, group by group.\<close>

lemma exec_control_safe:
  assumes rt: "runtime_ok rt" and at: "at_code t k m" and cf: "cf_tmpl cf = t"
    and code: "tmpl_code t = encode is" and vs: "modules (the_world m) (tmpl_module t) = Some vs"
    and fits: "instr_fits t (length vs) (starts is) ins" and pos: "\<not> halting_op (instr_op ins) \<Longrightarrow> position_ok t k"
  shows "safe (exec_control rt cf ins) m (\<lambda>_. machine_ok)"
proof -
  note throws = safe_throw_code [OF rt, of t] and ok = at_code_machine_ok [of t k]
  note locals = safe_get_local [of t k] safe_set_local [of t k] safe_read_local [of t k]
  show ?thesis
  proof (cases ins)
    case (Push r)
    have "safe (get_local r) m' (\<lambda>a m'. safe (must_push_value a) m' (\<lambda>_. machine_ok))"
      if "at_code t k m'" "room (Suc 0) m'" for m'
      using that Push fits pos by (intro locals code.push [of t k _ 0] ok) (auto simp: instr_fits_def halting_op_def)
    then show ?thesis
      using at Push by (simp add: exec_control_def) (intro safe_bind code.reserve [of t k], auto)
  next
    case Pop
    then show ?thesis
      using at pos throws [of k]
      by (auto simp: exec_control_def halting_op_def intro!: safe_bind safe_query_some [of t k] safe_pop_args [of t k] ok)
  next
    case (PopTo r)
    then show ?thesis
      using at pos fits throws [of "cf_pc cf + 1"]
      by (auto simp: exec_control_def halting_op_def instr_fits_def intro!: safe_bind safe_query_some [of t k]
          safe_pop_args [of t k] safe_top_value [of t k] locals safe_set_pc [of t k] ok)
  next
    case (Jmp x)
    then show ?thesis using fits safe_jump [OF at cf code] by (simp add: exec_control_def instr_fits_def)
  next
    case (Call func n)
    then show ?thesis
      using at fits at_code_calling [OF at pos] safe_call_function [OF rt]
      by (auto simp: exec_control_def halting_op_def instr_fits_def intro!: safe_bind locals)
  next
    case (CallMethod func n)
    then show ?thesis
      using at fits at_code_calling [OF at pos] safe_call_method [OF rt]
      by (auto simp: exec_control_def halting_op_def instr_fits_def intro!: safe_bind locals)
  next
    case (Return r)
    then show ?thesis
      using at fits safe_return_code [OF at] by (auto simp: exec_control_def instr_fits_def intro!: safe_bind locals)
  next
    case Rethrow
    then show ?thesis
      using safe_unwind_code [OF at] by (auto simp: exec_control_def unchecked_faults_def intro!: safe_fail)
  next
    case (AssertFail cond msg)
    then show ?thesis
      using at fits throws [OF at]
      by (auto simp: exec_control_def instr_fits_def intro!: safe_bind locals split: val.split)
  next
    case (LoadMethod obj symbol self target)
    then show ?thesis
      using at fits pos vs cf runtime_steps [OF rt]
      by (auto simp: exec_control_def instr_fits_def halting_op_def intro!: safe_bind locals ok safe_get_symbol
          safe_on_world [of t k] safe_settle [of t k] safe_read_world split: option.split heap_object.split)
  qed (use at fits pos cf code in \<open>auto simp: exec_control_def instr_fits_def halting_op_def unchecked_faults_def
        intro!: safe_jump_if [of t k] safe_fail\<close>)
qed

lemma safe_alloc_function:
  assumes "at_code t k m" and "object_at (the_world m) v = Some (TemplateObject ft)"
    and "\<And>a m'. at_code t k m' \<Longrightarrow> Q a m'"
  shows "safe (alloc rt (CodeFunctionObject ft c)) m Q"
  using object_at_ok [OF at_code_ok [OF assms(1)] assms(2)] assms by (intro safe_alloc [of t k]) auto

lemma exec_object_safe:
  assumes rt: "runtime_ok rt" and at: "at_code t k m" and cf: "cf_tmpl cf = t"
    and code: "tmpl_code t = encode is" and vs: "modules (the_world m) (tmpl_module t) = Some vs"
    and fits: "instr_fits t (length vs) (starts is) ins" and pos: "\<not> halting_op (instr_op ins) \<Longrightarrow> position_ok t k"
  shows "safe (exec_object rt cf ins) m (\<lambda>_. machine_ok)"
proof -
  note throws = safe_throw_code [OF rt, of t k] and ok = at_code_machine_ok [of t k] and steps = runtime_steps [OF rt]
  note locals = safe_get_local [of t k] safe_set_local [of t k] safe_read_local [of t k]
  note args = safe_top_args [of t k] safe_pop_args [of t k]
  note worlds = safe_on_world [of t k] safe_alloc [of t k] safe_settle [of t k] safe_read_world
  have pos: "position_ok t k" if "instr_op ins \<notin> {OpReturn, OpRethrow, OpJmp, OpAssertFail}"
    using pos that by (simp add: halting_op_def)
  show ?thesis
  proof (cases ins)
    case (Array n r)
    then show ?thesis
      using at fits pos steps by (auto simp: exec_object_def instr_fits_def intro!: safe_bind locals args worlds ok)
  next
    case (Tuple n r)
    then show ?thesis
      using at fits pos by (auto simp: exec_object_def instr_fits_def intro!: safe_bind locals args worlds ok)
  next
    case (Set n r)
    then show ?thesis
      using at fits pos steps by (auto simp: exec_object_def instr_fits_def intro!: safe_bind locals args worlds ok)
  next
    case (Map n r)
    have built: "safe (case interpret_map xs of None \<Rightarrow> fail MapFailed | Some (Inl err) \<Rightarrow> throw rt (TableMessage err)
        | Some (Inr table) \<Rightarrow> bind_exec (alloc rt (MapObject table)) (\<lambda>v. bind_exec (set_local r v) (\<lambda>_. pop_args (unat n))))
      m (\<lambda>_. machine_ok)" if len: "length xs = unat n" for xs
    proof -
      have "n mod 2 = 0" "n \<le> max_container_args" using fits Map by (simp_all add: instr_fits_def)
      from map_built [OF len this] obtain table where "interpret_map xs = Some (Inr table)" by blast
      then show ?thesis
        using at fits pos Map by (auto simp: instr_fits_def intro!: safe_bind locals args worlds ok)
    qed
    show ?thesis
      using at fits pos Map built by (auto simp: exec_object_def instr_fits_def intro!: safe_bind locals args)
  next
    case (Env p n r)
    then show ?thesis
      using at fits pos throws
      by (auto simp: exec_object_def instr_fits_def unchecked_faults_def
          intro!: safe_bind locals worlds ok safe_query_some [of t k] safe_fail)
  next
    case (Closure tmpl env r)
    then show ?thesis
      using at fits pos throws vs cf
      by (auto simp: exec_object_def instr_fits_def unchecked_faults_def
          intro!: safe_bind locals safe_read_world ok safe_get_member safe_alloc_function [of t k] safe_fail
          split: option.split heap_object.split)
  next
    case (Record schema r)
    then show ?thesis
      using at fits pos vs cf steps
      by (auto simp: exec_object_def instr_fits_def unchecked_faults_def
          intro!: safe_bind locals worlds ok safe_get_member safe_fail split: option.split heap_object.split)
  next
    case (Iterator c r)
    then show ?thesis
      using at fits pos steps by (auto simp: exec_object_def instr_fits_def intro!: safe_bind locals worlds ok)
  next
    case (IteratorNext i valid r)
    then show ?thesis
      using at fits pos steps by (auto simp: exec_object_def instr_fits_def intro!: safe_bind locals worlds ok)
  next
    case (Formatter r)
    then show ?thesis
      using at fits pos by (auto simp: exec_object_def instr_fits_def intro!: safe_bind locals worlds ok)
  next
    case (AppendFormat v r)
    then show ?thesis
      using at fits pos steps throws by (auto simp: exec_object_def instr_fits_def intro!: safe_bind locals worlds ok)
  next
    case (FormatResult r v)
    then show ?thesis
      using at fits pos steps throws by (auto simp: exec_object_def instr_fits_def intro!: safe_bind locals worlds ok)
  next
    case (Copy r v)
    then show ?thesis
      using at fits pos by (auto simp: exec_object_def instr_fits_def intro!: safe_bind locals ok)
  next
    case (Swap r v)
    then show ?thesis
      using at fits pos by (auto simp: exec_object_def instr_fits_def intro!: safe_bind locals ok)
  qed (use exec_control_safe [OF assms] in \<open>simp_all add: exec_object_def\<close>)
qed

lemma safe_binop:
  assumes "runtime_ok rt" and "at_code t k m" and "position_ok t k" and "register_id lhs < tmpl_locals t"
    and "register_id rhs < tmpl_locals t" and "register_id target < tmpl_locals t"
  shows "safe (exec_binop rt op lhs rhs target) m (\<lambda>_. machine_ok)"
    and "safe (exec_cmp rt test lhs rhs target) m (\<lambda>_. machine_ok)"
    and "safe (exec_equal rt eq lhs rhs target) m (\<lambda>_. machine_ok)"
  unfolding exec_binop_def exec_cmp_def exec_equal_def using assms
  by (auto intro!: safe_bind safe_get_local [of t k] safe_set_local [of t k] safe_read_local [of t k]
      safe_throw_code [of rt t k] safe_make_number [of t k] at_code_machine_ok [of t k] split: sum.split)

lemma safe_unop:
  assumes "runtime_ok rt" and "at_code t k m" and "position_ok t k" and "register_id r < tmpl_locals t"
    and "register_id target < tmpl_locals t"
  shows "safe (exec_unop rt op r target) m (\<lambda>_. machine_ok)"
  unfolding exec_unop_def using assms
  by (auto simp: unchecked_faults_def intro!: safe_bind safe_get_local [of t k] safe_set_local [of t k]
      safe_read_local [of t k] safe_throw_code [of rt t k] safe_make_number [of t k] at_code_machine_ok [of t k]
      safe_fail split: sum.split option.split)

lemma exec_comparison_safe:
  assumes rt: "runtime_ok rt" and at: "at_code t k m" and cf: "cf_tmpl cf = t"
    and code: "tmpl_code t = encode is" and vs: "modules (the_world m) (tmpl_module t) = Some vs"
    and fits: "instr_fits t (length vs) (starts is) ins" and pos: "\<not> halting_op (instr_op ins) \<Longrightarrow> position_ok t k"
  shows "safe (exec_comparison rt cf ins) m (\<lambda>_. machine_ok)"
proof (cases "instr_op ins \<in> {OpGt, OpGte, OpLt, OpLte, OpEq, OpNEq, OpLNot}")
  case True
  then show ?thesis
    using at fits pos
    by (cases ins) (auto simp: exec_comparison_def instr_fits_def halting_op_def
        intro!: safe_binop [OF rt at] safe_bind safe_get_local [of t k] safe_set_local [of t k] at_code_machine_ok [of t k])
next
  case False
  then show ?thesis using exec_object_safe [OF assms] by (cases ins) (simp_all add: exec_comparison_def)
qed

lemma exec_arithmetic_safe:
  assumes rt: "runtime_ok rt" and at: "at_code t k m" and cf: "cf_tmpl cf = t"
    and code: "tmpl_code t = encode is" and vs: "modules (the_world m) (tmpl_module t) = Some vs"
    and fits: "instr_fits t (length vs) (starts is) ins" and pos: "\<not> halting_op (instr_op ins) \<Longrightarrow> position_ok t k"
  shows "safe (exec_arithmetic rt cf ins) m (\<lambda>_. machine_ok)"
proof (cases "instr_op ins \<in> {OpAdd, OpSub, OpMul, OpDiv, OpMod, OpPow, OpUAdd, OpUNeg, OpLSh, OpRSh, OpBAnd,
    OpBOr, OpBXor, OpBNot}")
  case True
  have plus: "safe (case unary_plus v of Inl err \<Rightarrow> throw rt (MathMessage err) | Inr v \<Rightarrow> set_local r v) m (\<lambda>_. machine_ok)"
    if "register_id r < tmpl_locals t" "position_ok t k" for v r
    using at that by (auto intro!: safe_throw_code [OF rt, of t k] safe_set_local [of t k] at_code_machine_ok [of t k]
        split: sum.split)
  show ?thesis
    using True at fits pos plus
    by (cases ins) (auto simp: exec_arithmetic_def instr_fits_def halting_op_def unchecked_faults_def
        intro!: safe_binop [OF rt at] safe_unop [OF rt at] safe_bind safe_get_local [of t k] safe_read_local [of t k]
          safe_fail)
next
  case False
  then show ?thesis using exec_comparison_safe [OF assms] by (cases ins) (simp_all add: exec_arithmetic_def)
qed

lemma safe_environment:
  assumes rt: "runtime_ok rt" and at: "at_code t k m" and pos: "position_ok t k"
    and regs: "register_id env < tmpl_locals t" "register_id r < tmpl_locals t"
  shows "safe (exec_load_env rt env level index r) m (\<lambda>_. machine_ok)"
    and "safe (exec_store_env rt r env level index) m (\<lambda>_. machine_ok)"
  unfolding exec_load_env_def exec_store_env_def using assms safe_throw_code [OF rt at]
  by (auto simp: unchecked_faults_def intro!: safe_bind safe_get_local [of t k] safe_set_local [of t k]
      safe_read_local [of t k] safe_read_world safe_store_object [of t k] at_code_machine_ok [of t k] safe_fail
      split: option.split heap_object.split)

lemma exec_load_store_safe:
  assumes rt: "runtime_ok rt" and at: "at_code t k m" and cf: "cf_tmpl cf = t"
    and code: "tmpl_code t = encode is" and vs: "modules (the_world m) (tmpl_module t) = Some vs"
    and fits: "instr_fits t (length vs) (starts is) ins" and pos: "\<not> halting_op (instr_op ins) \<Longrightarrow> position_ok t k"
  shows "safe (exec_load_store rt cf ins) m (\<lambda>_. machine_ok)"
proof -
  note throws = safe_throw_code [OF rt, of t k] and ok = at_code_machine_ok [of t k] and steps = runtime_steps [OF rt]
  note locals = safe_get_local [of t k] safe_set_local [of t k] safe_read_local [of t k]
  note worlds = safe_on_world [of t k] safe_store_object [of t k] safe_settle [of t k] safe_read_world
  note loads = safe_get_integer [of t k] safe_make_float [of t k] safe_get_arg [of t k] safe_set_arg [of t k]
    safe_get_member safe_get_symbol safe_set_member [of t k _ cf vs]
  have pos: "position_ok t k" if "instr_op ins \<notin> {OpReturn, OpRethrow, OpJmp, OpAssertFail}"
    using pos that by (simp add: halting_op_def)
  note defs = exec_load_store_def instr_fits_def
  show ?thesis
  proof (cases ins)
    case (LoadTupleMember obj index r)
    then show ?thesis
      using at fits pos throws
      by (auto simp: defs intro!: safe_bind locals worlds ok split: option.split heap_object.split)
  next
    case (StoreTupleMember r obj index)
    then show ?thesis
      using at fits pos throws
      by (auto simp: defs intro!: safe_bind locals worlds ok split: option.split heap_object.split)
  next
    case (LoadEnv env level index r)
    then show ?thesis using fits pos safe_environment [OF rt at] by (simp add: defs)
  next
    case (StoreEnv r env level index)
    then show ?thesis using fits pos safe_environment [OF rt at] by (simp add: defs)
  next
    case (LoadMember obj name r)
    then show ?thesis
      using at fits pos vs cf steps by (auto simp: defs intro!: safe_bind locals loads worlds ok)
  next
    case (StoreMember r obj name)
    then show ?thesis
      using at fits pos vs cf steps by (auto simp: defs intro!: safe_bind locals loads worlds ok safe_ret)
  next
    case (LoadIndex a i r)
    then show ?thesis using at fits pos steps by (auto simp: defs intro!: safe_bind locals worlds ok)
  next
    case (StoreIndex r a i)
    then show ?thesis using at fits pos steps by (auto simp: defs intro!: safe_bind locals worlds ok safe_ret)
  next
    case (LoadClosure r)
    then show ?thesis
      using at fits pos by (auto simp: defs unchecked_faults_def intro!: safe_bind locals ok safe_fail)
  next
    case (LoadModule i r)
    then show ?thesis using at fits pos vs cf by (auto simp: defs intro!: safe_bind locals loads ok)
  next
    case (StoreModule r i)
    then show ?thesis using at fits pos vs cf by (auto simp: defs intro!: safe_bind locals loads ok)
  next
    case (LoadInt i r)
    then show ?thesis using at fits pos by (auto simp: defs intro!: safe_bind locals loads ok)
  next
    case (LoadFloat i r)
    then show ?thesis using at fits pos by (auto simp: defs intro!: safe_bind locals loads ok)
  next
    case (LoadParam i r)
    then show ?thesis using at fits pos by (auto simp: defs intro!: safe_bind locals loads ok)
  next
    case (StoreParam r i)
    then show ?thesis using at fits pos by (auto simp: defs intro!: safe_bind locals loads ok)
  next
    case (LoadNull r)
    then show ?thesis using at fits pos by (auto simp: defs intro!: locals ok)
  next
    case (LoadFalse r)
    then show ?thesis using at fits pos by (auto simp: defs intro!: locals ok)
  next
    case (LoadTrue r)
    then show ?thesis using at fits pos by (auto simp: defs intro!: locals ok)
  qed (use exec_arithmetic_safe [OF assms] in \<open>simp_all add: exec_load_store_def\<close>)
qed

subsection \<open>Steps\<close>

lemma at_code_template: "at_code t k m \<Longrightarrow> template_ok (the_world m) t"
  by (auto simp: at_code_def)

text \<open>An instruction that does not halt is followed by another one.\<close>

lemma position_after:
  assumes "is = pre @ i # post" and "halting_op (instr_op (last is))" and "tmpl_code t = encode is"
    and "\<not> halting_op (instr_op i)"
  shows "position_ok t (length (tmpl_code t) - length (encode post))"
proof -
  have "post \<noteq> []" using assms(1,2,4) by auto
  then obtain j js where post: "post = j # js" by (cases post) auto
  have "length (tmpl_code t) - length (encode post) = length (encode (pre @ [i]))"
    using assms(1,3) by simp
  moreover have "length (encode (pre @ [i])) \<in> starts is"
    using assms(1) post by (auto simp: starts_def intro!: exI [of _ "pre @ [i]"])
  ultimately show ?thesis using assms(3) by (auto simp: position_ok_def)
qed

lemma step_code_safe:
  assumes rt: "runtime_ok rt" and m: "at_code t pc m" "position_ok t pc"
  shows "safe (step_code rt) m (\<lambda>_. machine_ok)"
proof -
  obtain "is" vs0 where code: "tmpl_code t = encode is" and halt: "halting_op (instr_op (last is))"
    using template_code [OF at_code_template [OF m(1)]] by metis
  have "pc \<in> starts is" using m(2) code encode_inj by (auto simp: position_ok_def)
  then obtain pre i post where i: "is = pre @ i # post" "pc = length (encode pre)" by (auto simp: starts_def)
  then have read: "read_instruction (drop pc (tmpl_code t)) = Some (Inr i, encode post)"
    using read_emit_instruction by (simp add: code)
  let ?k = "length (tmpl_code t) - length (encode post)"
  show ?thesis
    unfolding step_code_def
  proof (rule safe_bind, rule code.query [OF m(1)])
    fix s assume s: "co_stack m = Some s"
    then obtain f fs c e where f: "cs_frames s = f # fs" "sf_data f = CodeFrame t c e pc"
      using m(1) by (auto simp: at_code_def)
    let ?cf = "\<lparr>cf_tmpl = t, cf_closure = c, cf_exception = e, cf_pc = pc, cf_flags = sf_flags f\<rparr>"
    have exec: "safe (exec_load_store rt ?cf i) m' (\<lambda>_. machine_ok)" if m': "at_code t ?k m'" for m'
    proof -
      obtain is' vs where w: "tmpl_code t = encode is'" "modules (the_world m') (tmpl_module t) = Some vs"
        "\<And>i. i \<in> set is' \<Longrightarrow> instr_fits t (length vs) (starts is') i"
        using template_code [OF at_code_template [OF m']] by metis
      then have "is' = is" using code encode_inj by metis
      with w(3) have fits: "instr_fits t (length vs) (starts is) i" using i(1) by simp
      show ?thesis
        by (rule exec_load_store_safe [OF rt m' _ code w(2) fits position_after [OF i(1) halt code]]) simp_all
    qed
    then have "safe (bind_exec (set_pc ?k) (\<lambda>_. exec_load_store rt ?cf i)) m (\<lambda>_. machine_ok)"
      by (intro safe_bind safe_set_pc [OF m(1)])
    then show "case top_code_frame s of None \<Rightarrow> NoActiveFrame \<in> unchecked_faults
      | Some cf \<Rightarrow> safe (let code = tmpl_code (cf_tmpl cf) in case read_instruction (drop (cf_pc cf) code) of
            Some (Inr ins, rest) \<Rightarrow> bind_exec (set_pc (length code - length rest)) (\<lambda>_. exec_load_store rt cf ins)
          | _ \<Rightarrow> fail BadInstruction) m (\<lambda>_. machine_ok)"
      using f by (simp add: top_code_frame_def Let_def read)
  qed
qed

text \<open>A machine whose top frame is a native function or catches exceptions can call and be unwound.\<close>

lemma can_call_return:
  assumes "can_call m" and "co_stack m = Some s" and "cs_frames s \<noteq> []" and "entered m"
  shows "safe (return_function rt v) m (\<lambda>_. machine_ok)"
  using assms safe_return [OF can_call_throwable [OF assms(1,4)] assms(2)] by (cases "cs_frames s") auto

lemma calling_machine_ok:
  assumes "calling w m" and "co_stack m = Some s" and "cs_frames s \<noteq> []"
  shows "machine_ok m"
  using assms by (auto simp: calling_def can_call_def machine_ok_def suspended_def split: list.split)

definition calling_frames :: "world \<Rightarrow> machine \<Rightarrow> bool" where
  "calling_frames w m \<longleftrightarrow> calling w m \<and> (\<exists>s. co_stack m = Some s \<and> cs_frames s \<noteq> [])"

interpretation frames: stack_condition "calling_frames w" for w
proof
  show "\<exists>s. co_stack m = Some s \<and> wf_stack s" if "calling_frames w m" for m
    using that by (auto simp: calling_frames_def calling_def can_call_def)
  show "calling_frames w (m\<lparr>co_stack := Some s'\<rparr>)"
    if "calling_frames w m" "co_stack m = Some s" "same_frames s s'" "wf_stack s'" for m s s'
    using that calling_stack [of w m s s'] by (auto simp: calling_frames_def same_frames_def list_all2_Cons1 neq_Nil_conv)
qed

lemma frames_rules:
  assumes "calling_frames w m"
  shows "machine_ok m" "safe (return_function rt v) m (\<lambda>_. machine_ok)" "safe (unwind rt v) m (\<lambda>_. machine_ok)"
    "runtime_ok rt \<Longrightarrow> safe (call_function rt v n) m (\<lambda>_. machine_ok)"
proof -
  obtain s where s: "calling w m" "co_stack m = Some s" "cs_frames s \<noteq> []"
    using assms by (auto simp: calling_frames_def)
  show "machine_ok m" by (rule calling_machine_ok [OF s])
  show "safe (return_function rt v) m (\<lambda>_. machine_ok)"
    using can_call_return [of m s] s by (simp add: calling_def)
  show "safe (unwind rt v) m (\<lambda>_. machine_ok)" by (rule safe_unwind [OF calling_throwable [OF s(1)]])
  show "safe (call_function rt v n) m (\<lambda>_. machine_ok)" if "runtime_ok rt"
    by (rule safe_call_function [OF that s(1)])
qed

lemma frames_world:
  assumes "calling_frames w m" and "world_step w w'" and "st \<notin> {New, Started}"
  shows "calling_frames w' (m\<lparr>the_world := w', co_state := st\<rparr>)"
  using assms(1,3) suspended_step [OF assms(2)] world_step_ok [OF assms(2)]
  by (auto simp: calling_frames_def calling_def can_call_def)

lemma frames_alloc:
  assumes "calling_frames w m" and "object_ok w obj" and "\<And>v w' m'. calling_frames w' m' \<Longrightarrow> Q v m'"
  shows "safe (alloc rt obj) m Q"
proof (rule safe_alloc_step)
  have w: "the_world m = w" using assms(1) by (simp add: calling_frames_def calling_def)
  show "object_ok (the_world m) obj" using assms(2) w by simp
  show "Q v (m\<lparr>the_world := w'\<rparr>)" if "world_step (the_world m) w'" for v w'
    using frames_world [of w m w' "co_state m"] assms(1,3) that w
    by (simp add: calling_frames_def calling_def entered_def)
qed

text \<open>Changes of the top frame itself.\<close>

lemma frames_change_top:
  assumes "calling_frames w m" and "co_stack m = Some s" and "cs_frames s = f # fs"
    and "upd s = Some (s\<lparr>cs_frames := g # fs\<rparr>)" and "frame_cost g = frame_cost f" and "sf_argc g = sf_argc f"
    and "sf_values g = sf_values f" and "frame_ok w g" and "catch_started (sf_data g) g"
    and "calling_frames w (m\<lparr>co_stack := Some (s\<lparr>cs_frames := g # fs\<rparr>)\<rparr>) \<Longrightarrow>
      Q () (m\<lparr>co_stack := Some (s\<lparr>cs_frames := g # fs\<rparr>)\<rparr>)"
  shows "safe (change_stack upd err) m Q"
proof -
  let ?s = "s\<lparr>cs_frames := g # fs\<rparr>"
  have w: "world_ok w" "wf_stack s" "suspended w (f # fs)" "the_world m = w" "entered m"
    using assms(1-3) by (auto simp: calling_frames_def calling_def can_call_def)
  have "args_present (cs_base s) (g # fs)"
    using w(2) assms(3,6,7) by (cases fs) (auto simp: wf_stack_def)
  then have "wf_stack ?s" using w(2) assms(3,5) by (simp add: wf_stack_def cs_used_def)
  moreover have "suspended w (g # fs)" using w(3) assms(8,9) by (simp add: suspended_def)
  ultimately have "calling_frames w (m\<lparr>co_stack := Some ?s\<rparr>)"
    using w by (simp add: calling_frames_def calling_def can_call_def)
  then show ?thesis using assms(2,4,10) by (simp add: safe_def change_stack_def)
qed

lemma run_resumable_safe:
  assumes rt: "runtime_ok rt" and m: "calling_frames w m" and s: "co_stack m = Some s"
    and f: "cs_frames s = f # fs" "sf_data f = ResumableFrame func state"
  shows "safe (run_resumable rt f func state) m (\<lambda>_. machine_ok)"
proof (cases "state = resumable_end")
  case True
  then show ?thesis using frames_rules(2) [OF m] by (simp add: run_resumable_def)
next
  case False
  obtain r where r: "rt_invoke rt func state (frame_args s) (sf_locals f) (sf_values f) (the_world m) = r" by simp
  have w: "the_world m = w" using m by (simp add: calling_frames_def calling_def)
  have inv: "world_step w (nr_world r)" "nr_coroutine r \<in> {Running, Ready, Waiting}"
    using rt r w unfolding runtime_ok_def by blast+
  let ?m = "m\<lparr>the_world := nr_world r, co_state := nr_coroutine r\<rparr>"
  let ?act = "case nr_action r of
                NoAction \<Rightarrow> ret ()
              | InvokeAction g args \<Rightarrow> bind_exec (push_function_args args) (call_function rt g)
              | YieldAction \<Rightarrow> change_coroutine (\<lambda>m. m\<lparr>co_state := Waiting\<rparr>)
              | ReturnAction v \<Rightarrow> return_function rt v
              | PanicAction ex \<Rightarrow> unwind rt ex"
  have act: "safe ?act m' (\<lambda>_. machine_ok)" if m': "calling_frames w' m'" for w' m'
  proof (cases "nr_action r")
    case NoAction
    then show ?thesis using frames_rules(1) [OF m'] by (auto intro: safe_ret)
  next
    case (InvokeAction g args)
    have "safe (bind_exec (push_function_args args) (call_function rt g)) m' (\<lambda>_. machine_ok)"
      using frames_rules(4) [OF _ rt] by (intro safe_bind frames.push_args [OF m'])
    then show ?thesis using InvokeAction by simp
  next
    case YieldAction
    have "machine_ok (m'\<lparr>co_state := Waiting\<rparr>)"
      using m' frames_rules(1) [OF m'] by (auto simp: calling_frames_def machine_ok_def split: list.splits)
    then show ?thesis using YieldAction by (simp add: safe_def change_coroutine_def)
  qed (use frames_rules(2,3) [OF m'] in simp_all)
  have m1: "calling_frames (nr_world r) ?m" using inv(2) by (intro frames_world [OF m inv(1)]) auto
  let ?g = "f\<lparr>sf_data := ResumableFrame func (nr_state r),
              sf_locals := map (nr_locals r) [0..<length (sf_locals f)]\<rparr>"
  have "safe (bind_exec (change_stack (update_native_frame func r) NoActiveFrame) (\<lambda>_.
      bind_exec (change_stack (\<lambda>s. Some (set_top_vals [] s)) NoActiveFrame) (\<lambda>_. ?act))) ?m (\<lambda>_. machine_ok)"
  proof (rule safe_bind, rule frames_change_top [OF m1 _ f(1), where g = ?g])
    show "co_stack ?m = Some s" using s by simp
    show "update_native_frame func r s = Some (s\<lparr>cs_frames := ?g # fs\<rparr>)" using f by (simp add: update_native_frame_def)
    show "safe (bind_exec (change_stack (\<lambda>s. Some (set_top_vals [] s)) NoActiveFrame) (\<lambda>_. ?act)) m2 (\<lambda>_. machine_ok)"
      if "calling_frames (nr_world r) m2" for m2
      using that act by (intro safe_bind frames.change [OF that]) (auto intro: wf_set_top_vals)
  qed (use f in \<open>simp_all add: frame_cost_def frame_ok_def\<close>)
  then show ?thesis
    using False s inv(2)
    by (auto simp: run_resumable_def safe_def bind_exec_def query_stack_def read_world_def change_coroutine_def r)
qed

lemma run_catch_safe:
  assumes rt: "runtime_ok rt" and m: "machine_ok m" and s: "co_stack m = Some s"
    and f: "cs_frames s = f # fs" "sf_data f = CatchFrame ex"
  shows "safe (run_catch rt f ex) m (\<lambda>_. machine_ok)"
proof (cases "sf_argc f = 1")
  case False
  then show ?thesis by (simp add: run_catch_def) (rule safe_fail, simp add: unchecked_faults_def)
next
  case argc: True
  have ok: "world_ok (the_world m)" "wf_stack s" "frame_ok (the_world m) f" "suspended (the_world m) fs" "entered m"
    using m s f by (auto simp: machine_ok_def)
  show ?thesis
  proof (cases "sf_flags f AND frame_catch_started = 0")
    case True
    then have quiet: "sf_flags f AND frame_unwinding = 0" using ok(3) f(2) by (auto simp: frame_ok_def)
    let ?g = "f\<lparr>sf_data := CatchFrame ex, sf_flags := sf_flags f OR frame_catch_started\<rparr>"
    let ?s = "s\<lparr>cs_frames := ?g # fs\<rparr>"
    have "(sf_flags f OR frame_catch_started) AND frame_catch_started = frame_catch_started"
      by (simp add: bit.conj_disj_distrib2)
    then have started: "(sf_flags f OR frame_catch_started) AND frame_catch_started \<noteq> 0"
      by (simp add: frame_catch_started_def)
    have set: "cs_set_frame id (\<lambda>fl. fl OR frame_catch_started) s = Some ?s"
      using f by (simp add: cs_set_frame_def)
    have wf: "wf_stack ?s" by (rule wf_set_frame [OF ok(2) _ set]) simp
    have "suspended (the_world m) (?g # fs)" using ok(4) started by (simp add: suspended_def frame_ok_def)
    then have m1: "calling_frames (the_world m) (m\<lparr>co_stack := Some ?s\<rparr>)"
      using ok(1,5) wf by (simp add: calling_frames_def calling_def can_call_def)
    have "cs_arg_index 0 ?s \<noteq> None"
      using arg_count_present [OF wf] argc by (simp add: cs_arg_index_def)
    then obtain func where "cs_arg 0 ?s = Some func" by (auto simp: cs_arg_def)
    then show ?thesis
      using frames_rules(4) [OF m1 rt, of func 0] argc True quiet s set
      by (simp add: run_catch_def safe_def bind_exec_def change_stack_def query_stack_def)
  next
    case False
    then have m1: "calling_frames (the_world m) m"
      using ok s f by (simp add: calling_frames_def calling_def can_call_def suspended_def)
    have result: "safe (bind_exec (alloc rt (ResultObject b v)) (return_function rt)) m (\<lambda>_. machine_ok)" for b v
      using frames_rules(2) by (intro safe_bind frames_alloc [OF m1]) auto
    have normal: "safe (bind_exec (query_stack (cs_top_value 0) ValuesMissing) (\<lambda>v.
        bind_exec (alloc rt (ResultObject True v)) (return_function rt))) m (\<lambda>_. machine_ok)"
      using result by (intro safe_bind frames.query [OF m1]) (simp add: cs_top_value_def Let_def unchecked_faults_def)
    show ?thesis
    proof (cases "sf_flags f AND frame_unwinding \<noteq> 0 \<and> ex = Null")
      case True
      then show ?thesis
        using argc False by (simp add: run_catch_def) (rule safe_fail, simp add: unchecked_faults_def)
    next
      case nothrow: False
      then show ?thesis using argc False result normal by (auto simp: run_catch_def)
    qed
  qed
qed

lemma run_frame_safe:
  assumes rt: "runtime_ok rt" and m: "machine_ok m" and run: "co_state m = Running"
  shows "safe (run_frame rt) m (\<lambda>_. machine_ok)"
proof -
  obtain s f fs where s: "co_stack m = Some s" "cs_frames s = f # fs"
    using m run by (auto simp: machine_ok_def split: list.splits) (metis neq_Nil_conv)
  have ok: "world_ok (the_world m)" "wf_stack s" "frame_ok (the_world m) f" "suspended (the_world m) fs" "entered m"
    using m s by (auto simp: machine_ok_def)
  have "safe (case sf_data f of CodeFrame _ _ _ _ \<Rightarrow> step_code rt
         | ResumableFrame func state \<Rightarrow> run_resumable rt f func state
         | CatchFrame ex \<Rightarrow> run_catch rt f ex) m (\<lambda>_. machine_ok)"
  proof (cases "sf_data f")
    case (CodeFrame t c e pc)
    then have "at_code t pc m" "position_ok t pc" using s ok by (auto simp: at_code_def frame_ok_def)
    then show ?thesis using CodeFrame step_code_safe [OF rt] by simp
  next
    case (ResumableFrame func state)
    then have "calling_frames (the_world m) m"
      using s ok by (auto simp: calling_frames_def calling_def can_call_def suspended_def)
    then show ?thesis using ResumableFrame run_resumable_safe [OF rt _ s] by simp
  next
    case (CatchFrame ex)
    then show ?thesis using run_catch_safe [OF rt m s] by simp
  qed
  then show ?thesis using s by (simp add: run_frame_def safe_def bind_exec_def query_stack_def)
qed

subsection \<open>The life of a coroutine\<close>

text \<open>
  What happens to a coroutine: it is started once, resumed when it waits, run by the
  interpreter, and the world changes while other coroutines run.
\<close>

inductive coroutine_step :: "runtime \<Rightarrow> machine \<Rightarrow> machine \<Rightarrow> bool" for rt where
  start: "co_state m = New \<Longrightarrow> coroutine_step rt m (m\<lparr>co_state := Started\<rparr>)"
| resume: "co_state m = Waiting \<Longrightarrow> coroutine_step rt m (m\<lparr>co_state := Ready\<rparr>)"
| others: "co_state m \<noteq> Running \<Longrightarrow> world_step (the_world m) w \<Longrightarrow> coroutine_step rt m (m\<lparr>the_world := w\<rparr>)"
| enter: "co_state m \<in> {Started, Ready} \<Longrightarrow> start_coroutine rt m = Inr ((), m') \<Longrightarrow> coroutine_step rt m m'"
| run: "co_state m = Running \<Longrightarrow> run_frame rt m = Inr ((), m') \<Longrightarrow> coroutine_step rt m m'"

inductive_cases coroutine_stepE: "coroutine_step rt m m'"

definition coroutine_ok :: "machine \<Rightarrow> bool" where
  "coroutine_ok m \<longleftrightarrow> (if co_state m \<in> {New, Started} then can_call m else machine_ok m)"

lemma machine_ok_world:
  assumes "machine_ok m" and "world_step (the_world m) w"
  shows "machine_ok (m\<lparr>the_world := w\<rparr>)"
  using assms frame_ok_step [OF assms(2)] suspended_step [OF assms(2)] world_step_ok [OF assms(2)]
  by (auto simp: machine_ok_def split: list.splits)

lemma can_call_world: "can_call m \<Longrightarrow> world_step (the_world m) w \<Longrightarrow> can_call (m\<lparr>the_world := w\<rparr>)"
  using suspended_step world_step_ok by (auto simp: can_call_def)

lemma machine_ok_state: "machine_ok m \<Longrightarrow> co_state m \<noteq> Done \<Longrightarrow> st \<notin> {New, Started} \<Longrightarrow> machine_ok (m\<lparr>co_state := st\<rparr>)"
  by (auto simp: machine_ok_def split: list.splits)

lemma can_call_state: "can_call (m\<lparr>co_state := st\<rparr>) = can_call m"
  by (simp add: can_call_def)

text \<open>While the arguments of the first call are pushed, there are no frames yet.\<close>

definition starting :: "machine \<Rightarrow> bool" where
  "starting m \<longleftrightarrow> can_call m"

interpretation starts: stack_condition starting
proof
  show "\<exists>s. co_stack m = Some s \<and> wf_stack s" if "starting m" for m
    using that by (auto simp: starting_def can_call_def)
  show "starting (m\<lparr>co_stack := Some s'\<rparr>)"
    if "starting m" "co_stack m = Some s" "same_frames s s'" "wf_stack s'" for m s s'
    using that suspended_same [of "cs_frames s" "cs_frames s'" "the_world m"]
    by (auto simp: starting_def can_call_def same_frames_def)
qed

lemma start_coroutine_safe:
  assumes rt: "runtime_ok rt" and m: "coroutine_ok m" and st: "co_state m \<in> {Started, Ready}"
  shows "safe (start_coroutine rt) m (\<lambda>_. machine_ok)"
proof (cases "co_state m = Started")
  case True
  then have call: "starting m" using m by (simp add: coroutine_ok_def starting_def)
  have "safe (bind_exec (push_function_args (co_arguments m)) (\<lambda>n.
          bind_exec (change_coroutine (\<lambda>m. m\<lparr>co_state := Running\<rparr>)) (\<lambda>_.
            call_function rt (co_function m) n))) m (\<lambda>_. machine_ok)"
  proof (rule safe_bind, rule starts.push_args [OF call])
    fix n m' assume m': "starting m'"
    have "safe (call_function rt (co_function m) n) (m'\<lparr>co_state := Running\<rparr>) (\<lambda>_. machine_ok)"
      by (rule safe_call_function [OF rt]) (use m' in \<open>simp add: calling_def starting_def can_call_state\<close>)
    then show "safe (bind_exec (change_coroutine (\<lambda>m. m\<lparr>co_state := Running\<rparr>)) (\<lambda>_. call_function rt (co_function m) n)) m'
        (\<lambda>_. machine_ok)"
      by (simp add: safe_def bind_exec_def change_coroutine_def)
  qed
  then show ?thesis using True by (simp add: safe_def start_coroutine_def)
next
  case False
  then have "co_state m = Ready" using st by simp
  then show ?thesis using m machine_ok_state [of m Running] by (simp add: safe_def start_coroutine_def coroutine_ok_def)
qed

lemma machine_ok_coroutine: "machine_ok m \<Longrightarrow> coroutine_ok m"
  by (auto simp: machine_ok_def coroutine_ok_def entered_def)

end
