(* ===== verification/InterpreterProps.thy ===== *)
theory InterpreterProps
  imports InterpreterSafety
begin

text \<open>
  Properties of the interpreter: verified code runs without the faults that the verifier is to
  exclude, a call and its return leave the stack of the caller as the calling convention says,
  an exception reaches the innermost handler, and a call fails with a stack overflow exactly
  when its frame does not fit into the largest stack.
\<close>

subsection \<open>An example\<close>

definition simple_code :: "instr list" where
  "simple_code = [LoadInt 42 (Register 0), Return (Register 0)]"

definition simple_function :: bytecode_function where
  "simple_function =
     \<lparr>func_name = MemberId invalid_value, func_type = NormalFunction, func_params = 0, func_locals = 1,
      func_code = encode simple_code, func_handlers = []\<rparr>"

definition simple_template :: function_template where
  "simple_template =
     \<lparr>tmpl_name = [], tmpl_params = 0, tmpl_locals = 1, tmpl_handlers = [], tmpl_code = encode simple_code,
      tmpl_module = 2\<rparr>"

definition simple_world :: world where
  "simple_world =
     \<lparr>heap = [1 \<mapsto> CodeFunctionObject simple_template Null], modules = [2 \<mapsto> [Null, Null, Null]],
      secondary = (\<lambda>_. [])\<rparr>"

text \<open>A virtual machine whose other operations do nothing.\<close>

definition simple_runtime :: runtime where
  "simple_runtime =
     \<lparr>rt_address = (\<lambda>_. 100), rt_message = (\<lambda>_ w. w), rt_boolean = (\<lambda>b. if b then 11 else 10),
      rt_float = \<lparr>float_add = (+), float_sub = (-), float_mul = (*), float_div = (\<lambda>a b. a),
                  float_mod = (\<lambda>a b. a), float_pow = (\<lambda>a b. a)\<rparr>,
      rt_load_member = (\<lambda>_ _ w. (Inr Null, w)), rt_store_member = (\<lambda>_ _ _ w. (Inr (), w)),
      rt_load_index = (\<lambda>_ _ w. (Inr Null, w)), rt_store_index = (\<lambda>_ _ _ w. (Inr (), w)),
      rt_load_method = (\<lambda>_ _ w. (Inr Null, w)), rt_iterator = (\<lambda>_ w. (Inr Null, w)),
      rt_iterator_next = (\<lambda>_ w. (Inr None, w)), rt_make_array = (\<lambda>_ w. (Null, w)),
      rt_make_set = (\<lambda>_ w. (Inr Null, w)), rt_make_record = (\<lambda>_ w. (Null, w)),
      rt_append_format = (\<lambda>_ _ w. w), rt_format_result = (\<lambda>_ w. (Null, w)),
      rt_invoke = (\<lambda>_ _ _ _ _ w. \<lparr>nr_state = - 1, nr_locals = (\<lambda>_. Null), nr_coroutine = Running,
                                     nr_action = NoAction, nr_world = w\<rparr>)\<rparr>"

lemma simple_runtime_ok: "runtime_ok simple_runtime"
  by (simp add: runtime_ok_def simple_runtime_def)

lemma simple_starts: "starts simple_code = {0, 13}"
  by (simp add: starts_offsets simple_code_def length_emit_instruction operand_size_def)

lemma length_simple: "length (encode simple_code) = 18"
  by (simp add: simple_code_def length_emit_instruction operand_size_def)

lemma simple_function_ok: "function_ok m seen simple_function simple_code"
  unfolding function_ok_def
  by (simp add: simple_starts length_simple simple_function_def handlers_valid_def max_locals_def
      word_le_nat_alt word_less_nat_alt)
     (simp add: simple_code_def halting_op_def instr_ok_def checked_operands_def instr_extra_def)

lemma simple_template_ok: "template_ok simple_world simple_template"
proof -
  have "verified_template simple_world simple_template example_module 3 simple_function simple_code"
    using simple_function_ok
    by (simp add: verified_template_def)
       (simp add: simple_template_def simple_function_def simple_world_def example_module_def)
  moreover have "beyond_verifier simple_template simple_code"
    by (simp add: beyond_verifier_def simple_template_def simple_code_def unchecked_index_def max_locals_def)
  ultimately show ?thesis by (auto simp: template_ok_def)
qed

lemma simple_world_ok: "world_ok simple_world"
  using simple_template_ok by (simp add: world_ok_def) (simp add: simple_world_def)

subsection \<open>Verified code runs safely\<close>

lemma coroutine_step_ok:
  assumes rt: "runtime_ok rt" and step: "coroutine_step rt m m'" and m: "coroutine_ok m"
  shows "coroutine_ok m'"
  using step
proof (cases rule: coroutine_step.cases)
  case start
  then show ?thesis using m can_call_state [of Started m] by (simp add: coroutine_ok_def)
next
  case resume
  then have "machine_ok m" using m by (simp add: coroutine_ok_def)
  then show ?thesis
    using resume machine_ok_state [of m Ready] by (auto intro: machine_ok_coroutine)
next
  case (others w)
  then show ?thesis
    using m machine_ok_world [of m w] can_call_world [of m w] by (simp add: coroutine_ok_def split: if_splits)
next
  case enter
  then show ?thesis
    using start_coroutine_safe [OF rt m] machine_ok_coroutine by (simp add: safe_def)
next
  case run
  then have "machine_ok m" using m by (simp add: coroutine_ok_def)
  with run show ?thesis
    using run_frame_safe [OF rt, of m] machine_ok_coroutine by (simp add: safe_def)
qed

lemma make_coroutine_ok: "world_ok w \<Longrightarrow> coroutine_ok (make_coroutine func args u w)"
  using wf_new [of "initial_stack_size - stack_header" u]
  by (simp add: coroutine_ok_def can_call_def make_coroutine_def suspended_def initial_stack_size_def stack_header_def)

definition excluded_faults :: "fault set" where
  "excluded_faults =
     {NoActiveStack, NoActiveFrame, BadInstruction, LocalRange, ParamRange, MemberRange, JumpRange,
      CatchNotStarted, LocalsLimit, IllegalState, MapFailed, FatalStackFull}"

lemma unchecked_not_excluded: "err \<in> unchecked_faults \<Longrightarrow> err \<notin> excluded_faults"
  by (auto simp: unchecked_faults_def excluded_faults_def)

text \<open>
  C2: Take a coroutine over functions that the verifier accepts, and that meet two conditions which it
  does not check (\<open>beyond_verifier\<close>): the index registers of \<open>LoadIndex\<close> and \<open>StoreIndex\<close> are in the
  range of the locals, and there are fewer locals than the limit. Such a coroutine
  never decodes an invalid instruction, leaves the range of its locals, parameters, module members
  or code, runs without a frame, or finds the stack full after it reserved space. In every state
  that it reaches from its creation, whatever other coroutines and native functions do in between
  to a world that keeps these conditions, the next action of the interpreter either succeeds, in a
  state with the invariant again, or fails with one of the faults that are not excluded: values,
  closures, exceptions or environments that are missing, failed casts, and the reported overflow of
  the stack.
\<close>

theorem verified_execution_safe:
  assumes "runtime_ok rt" and "world_ok w"
    and "(coroutine_step rt)\<^sup>*\<^sup>* (make_coroutine func args undefined_value w) m"
  shows "coroutine_ok m
    \<and> (case (if co_state m = Running then run_frame rt m
             else if co_state m \<in> {Started, Ready} then start_coroutine rt m else Inr ((), m)) of
         Inl err \<Rightarrow> err \<notin> excluded_faults
       | Inr (u, m') \<Rightarrow> coroutine_ok m')"
proof -
  have ok: "coroutine_ok m"
    using assms(3)
  proof (induction rule: rtranclp_induct)
    case base
    then show ?case by (rule make_coroutine_ok [OF assms(2)])
  next
    case (step m m')
    then show ?case using coroutine_step_ok [OF assms(1)] by blast
  qed
  have "safe (run_frame rt) m (\<lambda>_. coroutine_ok)" if "co_state m = Running"
    using that ok run_frame_safe [OF assms(1), of m] machine_ok_coroutine
    by (auto simp: safe_def coroutine_ok_def split: sum.splits)
  moreover have "safe (start_coroutine rt) m (\<lambda>_. coroutine_ok)" if "co_state m \<in> {Started, Ready}"
    using start_coroutine_safe [OF assms(1) ok that] machine_ok_coroutine
    by (auto simp: safe_def split: sum.splits)
  ultimately show ?thesis
    using ok unchecked_not_excluded by (auto simp: safe_def split: sum.splits)
qed

definition simple_machine :: machine where
  "simple_machine = make_coroutine (Object 1 4) None (Undefined 8) simple_world"

definition simple_frame :: stack_frame where
  "simple_frame =
     \<lparr>sf_data = CodeFrame simple_template Null Null 0, sf_flags = 0, sf_argc = 0, sf_locals = [Undefined 8],
      sf_values = []\<rparr>"

definition simple_running :: machine where
  "simple_running = simple_machine
     \<lparr>co_state := Running,
      co_stack := Some \<lparr>cs_undef = Undefined 8, cs_base = [], cs_frames = [simple_frame], cs_end = 472\<rparr>\<rparr>"

lemma simple_start: "start_coroutine simple_runtime (simple_machine\<lparr>co_state := Started\<rparr>) = Inr ((), simple_running)"
  by (simp add: start_coroutine_def simple_machine_def make_coroutine_def push_function_args_def ret_def bind_exec_def
      change_coroutine_def call_function_def check_values_def query_stack_def enter_function_def read_world_def
      simple_world_def enter_object_def simple_template_def enter_user_frame_def grow_stack_impl_def cs_push_frame_def
      max_locals_def cs_available_def cs_used_def initial_stack_size_def stack_header_def simple_running_def
      simple_frame_def top_vals_def)

theorem verified_execution_safe_witness:
  "(coroutine_step simple_runtime)\<^sup>*\<^sup>* simple_machine simple_running \<and> co_state simple_running = Running
   \<and> coroutine_ok simple_running
   \<and> run_frame simple_runtime simple_running \<noteq> Inl BadInstruction
   \<and> run_frame simple_runtime simple_running \<noteq> Inl LocalRange"
proof -
  have "coroutine_step simple_runtime simple_machine (simple_machine\<lparr>co_state := Started\<rparr>)"
    by (rule coroutine_step.start) (simp add: simple_machine_def make_coroutine_def)
  moreover have "coroutine_step simple_runtime (simple_machine\<lparr>co_state := Started\<rparr>) simple_running"
    by (rule coroutine_step.enter) (simp_all add: simple_start)
  ultimately have steps: "(coroutine_step simple_runtime)\<^sup>*\<^sup>* simple_machine simple_running" by simp
  have run: "co_state simple_running = Running" by (simp add: simple_running_def)
  from verified_execution_safe [OF simple_runtime_ok simple_world_ok, of "Object 1 4" None "Undefined 8" simple_running]
  show ?thesis using steps run by (auto simp: simple_machine_def excluded_faults_def split: sum.splits)
qed

subsection \<open>Calls and returns\<close>

lemma wf_frames_small:
  assumes "wf_stack s" and "cs_frames s = f # fs"
  shows "unat (sf_argc f) < 2 ^ 31"
proof -
  have "length (caller_vals s) \<le> cs_used s"
    using assms(2) by (cases fs) (simp_all add: caller_vals_def cs_used_def frame_cost_def)
  then show ?thesis using arg_count_present [OF assms] assms(1) by (simp add: wf_stack_def)
qed

definition pop_count :: "stack_frame \<Rightarrow> nat" where
  "pop_count f = unat (sf_argc f) + (if sf_flags f AND frame_pop_one_more \<noteq> 0 then 1 else 0)"

lemma pop_frame_args_eq:
  assumes "wf_stack s" and "cs_frames s = f # fs"
  shows "pop_frame_args s = cs_pop_values (pop_count f) (s\<lparr>cs_frames := fs\<rparr>)"
proof -
  have "unat (sf_argc f + 1) = Suc (unat (sf_argc f))"
    using wf_frames_small [OF assms] by (simp add: unat_plus_if')
  then show ?thesis
    using assms(2) by (simp add: pop_frame_args_def cs_pop_frame_def pop_count_def)
qed

text \<open>
  C23: the calling convention. A call of a function pushes its frame and keeps the frame of the
  caller with the arguments on its stack. Whatever the function does to its own frame and to
  its arguments, its return replaces the arguments, and the unused object of a function called
  as a method, by the returned value, and leaves everything else of the caller as it was.
\<close>

theorem call_return_balanced:
  assumes "co_stack m = Some s" and "cs_frames s = f # fs" and "enter_user_frame t c fl m = Inr ((), m1)"
    and "wf_stack s2" and "cs_frames s2 = g # f\<lparr>sf_values := below @ args\<rparr> # fs"
    and "sf_argc g = tmpl_params t" and "sf_flags g = fl"
    and "below = take (length (sf_values f) - unat (tmpl_params t)) (sf_values f)"
    and "length args = unat (tmpl_params t)"
    and "co_stack m2 = Some s2" and "fl AND frame_pop_one_more = 0 \<or> below \<noteq> []"
  shows "(\<exists>s1. m1 = m\<lparr>co_stack := Some s1\<rparr>
      \<and> cs_frames s1 = \<lparr>sf_data = CodeFrame t c Null 0, sf_flags = fl, sf_argc = tmpl_params t,
          sf_locals = replicate (unat (tmpl_locals t)) (cs_undef s), sf_values = []\<rparr> # f # fs)
    \<and> return_function rt v m2 = Inr ((), m2\<lparr>co_stack := Some (s2\<lparr>cs_frames :=
        f\<lparr>sf_values := take (length below - (if fl AND frame_pop_one_more = 0 then 0 else 1)) below @ [v]\<rparr> # fs\<rparr>)\<rparr>)"
proof (rule conjI)
  let ?g = "\<lparr>sf_data = CodeFrame t c Null 0, sf_flags = fl, sf_argc = tmpl_params t,
      sf_locals = replicate (unat (tmpl_locals t)) (cs_undef s), sf_values = []\<rparr>"
  let ?cond = "\<lambda>s. cs_push_frame (CodeFrame t c Null 0) fl (tmpl_params t) (tmpl_locals t) (cs_undef s) s"
  have pushed: "cs_frames s' = ?g # f # fs" if "?cond (s\<lparr>cs_end := n\<rparr>) = Some (True, s')" for n s'
    using that assms(2) by (auto simp: cs_push_frame_def split: if_splits)
  have "grow_stack_impl ?cond m = Inr ((), m1)"
    using assms(1,3) by (auto simp: enter_user_frame_def bind_exec_def check_values_def query_stack_def split: if_splits)
  then obtain s1 where s1: "m1 = m\<lparr>co_stack := Some s1\<rparr>" "?cond s = Some (True, s1) \<or> grow_loop ?cond s = Inr s1"
    using assms(1) by (auto simp: grow_stack_impl_def split: option.splits if_splits sum.splits)
  have limit: "tmpl_locals t < max_locals"
    using \<open>grow_stack_impl ?cond m = Inr ((), m1)\<close> assms(1)
    by (auto simp: grow_stack_impl_def cs_push_frame_def split: if_splits)
  have "\<exists>ok s'. ?cond (s\<lparr>cs_end := n\<rparr>) = Some (ok, s') \<and> (ok \<longrightarrow> cs_frames s' = ?g # f # fs)" for n
    using limit assms(2) by (auto simp: cs_push_frame_def)
  then have "case grow_loop ?cond s of Inl err \<Rightarrow> err = FatalStackOverflow | Inr s' \<Rightarrow> cs_frames s' = ?g # f # fs"
    by (intro grow_loop_result)
  then have "cs_frames s1 = ?g # f # fs" using s1(2) pushed [of "cs_end s" s1] by auto
  then show "\<exists>s1. m1 = m\<lparr>co_stack := Some s1\<rparr> \<and> cs_frames s1 = ?g # f # fs" using s1(1) by blast
next
  let ?k = "if fl AND frame_pop_one_more = 0 then 0 else 1 :: nat"
  have count: "pop_count g = length args + ?k" using assms(6,7,9) by (simp add: pop_count_def)
  have k: "?k \<le> length below" using assms(11) by (cases below) auto
  let ?s = "s2\<lparr>cs_frames := f\<lparr>sf_values := take (length below - ?k) below\<rparr> # fs\<rparr>"
  have pop: "pop_frame_args s2 = Some ?s"
    unfolding pop_frame_args_eq [OF assms(4,5)] count
    using k by (simp add: cs_pop_values_def top_vals_def set_top_vals_def Let_def)
  have "cs_push_value v ?s = (True, set_top_vals (top_vals ?s @ [v]) ?s)"
    using pop_frame_args_room [OF assms(4) pop] by (simp add: cs_push_value_def)
  then show "return_function rt v m2 = Inr ((), m2\<lparr>co_stack := Some (s2\<lparr>cs_frames :=
      f\<lparr>sf_values := take (length below - ?k) below @ [v]\<rparr> # fs\<rparr>)\<rparr>)"
    using assms(5,10) pop
    by (simp add: return_function_def bind_exec_def query_stack_def change_stack_def must_push_value_def
        set_top_vals_def top_vals_def)
qed

definition caller_frame :: stack_frame where
  "caller_frame = simple_frame\<lparr>sf_values := [SmallInteger 5, Null]\<rparr>"

definition called_template :: function_template where
  "called_template = simple_template\<lparr>tmpl_params := 1\<rparr>"

definition calling_stack_example :: call_stack where
  "calling_stack_example = \<lparr>cs_undef = Undefined 8, cs_base = [], cs_frames = [caller_frame], cs_end = 472\<rparr>"

definition called_frame :: stack_frame where
  "called_frame = \<lparr>sf_data = CodeFrame called_template Null Null 0, sf_flags = 0, sf_argc = 1,
     sf_locals = [Undefined 8], sf_values = []\<rparr>"

theorem call_return_balanced_witness:
  "enter_user_frame called_template Null 0 (simple_running\<lparr>co_stack := Some calling_stack_example\<rparr>)
     = Inr ((), simple_running\<lparr>co_stack := Some (calling_stack_example\<lparr>cs_frames := [called_frame, caller_frame]\<rparr>)\<rparr>)
   \<and> return_function simple_runtime (SmallInteger 7)
       (simple_running\<lparr>co_stack := Some (calling_stack_example\<lparr>cs_frames := [called_frame, caller_frame]\<rparr>)\<rparr>)
     = Inr ((), simple_running\<lparr>co_stack := Some (calling_stack_example\<lparr>cs_frames :=
         [caller_frame\<lparr>sf_values := [SmallInteger 5, SmallInteger 7]\<rparr>]\<rparr>)\<rparr>)"
proof -
  let ?m = "simple_running\<lparr>co_stack := Some calling_stack_example\<rparr>"
  let ?s = "calling_stack_example\<lparr>cs_frames := [called_frame, caller_frame]\<rparr>"
  have enter: "enter_user_frame called_template Null 0 ?m = Inr ((), simple_running\<lparr>co_stack := Some ?s\<rparr>)"
    by (simp add: enter_user_frame_def bind_exec_def check_values_def query_stack_def grow_stack_impl_def
        cs_push_frame_def calling_stack_example_def called_template_def simple_template_def top_vals_def
        caller_frame_def simple_frame_def cs_available_def cs_used_def frame_cost_def max_locals_def called_frame_def)
  have wf: "wf_stack ?s"
    by (simp add: wf_stack_def calling_stack_example_def called_frame_def caller_frame_def simple_frame_def
        cs_used_def frame_cost_def)
  have same: "caller_frame\<lparr>sf_values := [SmallInteger 5] @ [Null]\<rparr> = caller_frame" by (simp add: caller_frame_def)
  have stacks: "co_stack ?m = Some calling_stack_example" "cs_frames calling_stack_example = [caller_frame]"
    "cs_frames ?s = [called_frame, caller_frame\<lparr>sf_values := [SmallInteger 5] @ [Null]\<rparr>]"
    "co_stack (simple_running\<lparr>co_stack := Some ?s\<rparr>) = Some ?s"
    by (simp_all only: same) (simp_all add: calling_stack_example_def)
  have called: "sf_argc called_frame = tmpl_params called_template" "sf_flags called_frame = 0"
    "[SmallInteger 5] = take (length (sf_values caller_frame) - unat (tmpl_params called_template)) (sf_values caller_frame)"
    "length [Null] = unat (tmpl_params called_template)"
    by (simp_all add: called_frame_def called_template_def caller_frame_def)
  have flag: "(0 :: u8) AND frame_pop_one_more = 0 \<or> [SmallInteger 5] \<noteq> []" by simp
  have below: "take (length [SmallInteger 5] - (if (0 :: u8) AND frame_pop_one_more = 0 then 0 else 1)) [SmallInteger 5]
      @ [SmallInteger 7] = [SmallInteger 5, SmallInteger 7]" by simp
  note result = call_return_balanced [OF stacks(1,2) enter wf stacks(3) called stacks(4) flag,
      of simple_runtime "SmallInteger 7", THEN conjunct2, unfolded below]
  have "?s\<lparr>cs_frames := [caller_frame\<lparr>sf_values := [SmallInteger 5, SmallInteger 7]\<rparr>]\<rparr>
     = calling_stack_example\<lparr>cs_frames := [caller_frame\<lparr>sf_values := [SmallInteger 5, SmallInteger 7]\<rparr>]\<rparr>"
    by simp
  moreover have "simple_running\<lparr>co_stack := Some ?s, co_stack := x\<rparr> = simple_running\<lparr>co_stack := x\<rparr>" for x
    by simp
  ultimately show ?thesis using enter result by (intro conjI) (assumption | simp only:)+
qed

subsection \<open>Unwinding\<close>

fun handler_in_force :: "frame_data \<Rightarrow> exception_handler option" where
  "handler_in_force (CodeFrame t _ _ pc) = find_entry (tmpl_handlers t) (word_of_nat (if 0 < pc then pc - 1 else pc))"
| "handler_in_force _ = None"

fun catches :: "frame_data \<Rightarrow> bool" where
  "catches (CatchFrame _) = True"
| "catches d = (handler_in_force d \<noteq> None)"

text \<open>Where a frame continues with an exception.\<close>

fun resumed :: "frame_data \<Rightarrow> val \<Rightarrow> frame_data" where
  "resumed (CodeFrame t c e pc) ex =
     (case handler_in_force (CodeFrame t c e pc) of
        None \<Rightarrow> CodeFrame t c e pc
      | Some h \<Rightarrow> CodeFrame t c ex (unat (handler_target h)))"
| "resumed (CatchFrame _) ex = CatchFrame ex"
| "resumed d ex = d"

text \<open>
  A frame of code that is handling an exception already goes on with that one; the new exception
  becomes its secondary exception.
\<close>

definition pass :: "stack_frame \<Rightarrow> val \<times> world \<Rightarrow> val \<times> world" where
  "pass f x = (case sf_data f of
     CodeFrame _ _ current _ \<Rightarrow>
       if sf_flags f AND frame_unwinding \<noteq> 0 then (current, add_secondary current (fst x) (snd x)) else x
   | _ \<Rightarrow> x)"

text \<open>The exception that arrives, and the world then: it passes all frames up to the catching one.\<close>

fun deliver :: "stack_frame list \<Rightarrow> val \<times> world \<Rightarrow> val \<times> world" where
  "deliver [] x = x"
| "deliver (f # fs) x = (if catches (sf_data f) then pass f x else deliver fs (pass f x))"

lemma deliver_plain:
  "\<forall>f \<in> set frames. sf_flags f AND frame_unwinding = 0 \<Longrightarrow> deliver frames x = x"
  by (induction frames arbitrary: x) (auto simp: pass_def split: frame_data.splits)

text \<open>The values that go with a frame: its arguments, and one more for a function called as a method.\<close>

definition removed_count :: "stack_frame \<Rightarrow> nat" where
  "removed_count f = unat (sf_argc f + (if sf_flags f AND frame_pop_one_more \<noteq> 0 then 1 else 0))"

definition unwound_frames :: "stack_frame list \<Rightarrow> val \<Rightarrow> stack_frame list" where
  "unwound_frames frames ex =
     (case dropWhile (\<lambda>f. \<not> catches (sf_data f)) frames of
        [] \<Rightarrow> []
      | f # fs \<Rightarrow> f\<lparr>sf_data := resumed (sf_data f) ex, sf_flags := sf_flags f OR frame_unwinding,
          sf_values := (case rev (takeWhile (\<lambda>f. \<not> catches (sf_data f)) frames) of
              [] \<Rightarrow> sf_values f
            | g # _ \<Rightarrow> take (length (sf_values f) - removed_count g) (sf_values f))\<rparr> # fs)"

text \<open>
  A stack that can be unwound: an unwinding frame of code has an exception, the targets of
  handlers are inside the code, a catching frame has been started, and the arguments of every frame
  are on the frame below.
\<close>

definition frame_unwindable :: "stack_frame \<Rightarrow> bool" where
  "frame_unwindable f \<longleftrightarrow> (case sf_data f of
     CodeFrame t _ current _ \<Rightarrow> (sf_flags f AND frame_unwinding \<noteq> 0 \<longrightarrow> current \<noteq> Null) \<and>
       (\<forall>h \<in> set (tmpl_handlers t). unat (handler_target h) < length (tmpl_code t))
   | CatchFrame _ \<Rightarrow> sf_flags f AND frame_catch_started \<noteq> 0
   | _ \<Rightarrow> True)"

fun args_on_caller :: "nat \<Rightarrow> stack_frame list \<Rightarrow> bool" where
  "args_on_caller b [] = True"
| "args_on_caller b (f # fs) =
     (removed_count f \<le> (case fs of [] \<Rightarrow> b | g # _ \<Rightarrow> length (sf_values g)) \<and> args_on_caller b fs)"

definition unwindable :: "call_stack \<Rightarrow> bool" where
  "unwindable s \<longleftrightarrow>
     (\<forall>f \<in> set (cs_frames s). frame_unwindable f) \<and> args_on_caller (length (cs_base s)) (cs_frames s)"

text \<open>One frame: it catches, or the exception passes.\<close>

lemma unwind_into_eq:
  assumes "cs_frames s = f # fs" and "frame_unwindable f" and "pass f (ex, w) = (ex', w')"
  shows "unwind_into f ex w s = Inr (catches (sf_data f), ex', w',
    if catches (sf_data f)
    then s\<lparr>cs_frames := f\<lparr>sf_data := resumed (sf_data f) ex', sf_flags := sf_flags f OR frame_unwinding\<rparr> # fs\<rparr>
    else s)"
proof (cases "sf_data f")
  case (CodeFrame t c current pc)
  have target: "unat (handler_target h) < length (tmpl_code t)" if "find_entry (tmpl_handlers t) k = Some h" for h k
    using assms(2) find_entry_member [OF that] CodeFrame by (simp add: frame_unwindable_def)
  show ?thesis
    using assms CodeFrame
    by (auto simp: unwind_into_def handle_exception_def Let_def cs_set_frame_def pass_def frame_unwindable_def
        split: option.splits if_splits dest!: target)
qed (use assms in \<open>auto simp: unwind_into_def cs_set_frame_def pass_def frame_unwindable_def\<close>)

lemma removed_count_values [simp]: "removed_count (g\<lparr>sf_values := vs\<rparr>) = removed_count g"
  by (simp add: removed_count_def)

lemma frame_unwindable_values [simp]: "frame_unwindable (g\<lparr>sf_values := vs\<rparr>) = frame_unwindable g"
  by (cases "sf_data g") (simp_all add: frame_unwindable_def)

lemma pop_frame_args_eq_frames:
  assumes "cs_frames s = f # fs" and "unwindable s"
  obtains s' where "pop_frame_args s = Some s'" "unwindable s'"
    "cs_frames s' = (case fs of [] \<Rightarrow> [] | g # gs \<Rightarrow>
       g\<lparr>sf_values := take (length (sf_values g) - removed_count f) (sf_values g)\<rparr> # gs)"
proof (cases fs)
  case Nil
  have "removed_count f \<le> length (cs_base s)"
    using assms Nil by (simp add: unwindable_def)
  then have "pop_frame_args s =
      Some (s\<lparr>cs_frames := [], cs_base := take (length (cs_base s) - removed_count f) (cs_base s)\<rparr>)"
    using assms(1) Nil
    by (simp add: pop_frame_args_def cs_pop_frame_def cs_pop_values_def top_vals_def set_top_vals_def removed_count_def Let_def)
  from that [OF this] show thesis
    using Nil by (simp add: unwindable_def)
next
  case (Cons g gs)
  let ?g = "g\<lparr>sf_values := take (length (sf_values g) - removed_count f) (sf_values g)\<rparr>"
  have "removed_count f \<le> length (sf_values g)"
    using assms Cons by (simp add: unwindable_def)
  then have "pop_frame_args s = Some (s\<lparr>cs_frames := ?g # gs\<rparr>)"
    using assms(1) Cons
    by (simp add: pop_frame_args_def cs_pop_frame_def cs_pop_values_def top_vals_def set_top_vals_def removed_count_def Let_def)
  moreover have "unwindable (s\<lparr>cs_frames := ?g # gs\<rparr>)"
    using assms Cons by (auto simp: unwindable_def)
  ultimately show thesis
    using that [of "s\<lparr>cs_frames := ?g # gs\<rparr>"] Cons by simp
qed

lemma pass_values: "pass (g\<lparr>sf_values := vs\<rparr>) x = pass g x"
  by (cases "sf_data g") (simp_all add: pass_def)

lemma dropWhile_Cons_ex: "dropWhile P xs = y # ys \<Longrightarrow> \<exists>x \<in> set xs. \<not> P x"
  by (metis dropWhile_eq_Nil_conv list.distinct(1))

lemma unwound_frames_pass:
  assumes "\<not> catches (sf_data f)"
  shows "unwound_frames (case fs of [] \<Rightarrow> [] | g # gs \<Rightarrow>
      g\<lparr>sf_values := take (length (sf_values g) - removed_count f) (sf_values g)\<rparr> # gs) ex
    = unwound_frames (f # fs) ex"
proof (cases fs)
  case (Cons g gs)
  then show ?thesis
    using assms
    by (cases "catches (sf_data g)"; cases "rev (takeWhile (\<lambda>f. \<not> catches (sf_data f)) gs)")
      (auto simp: unwound_frames_def split: list.splits dest: dropWhile_Cons_ex)
qed (use assms in \<open>simp add: unwound_frames_def\<close>)

lemma unwind_loop_eq:
  "unwindable s \<Longrightarrow> deliver (cs_frames s) (ex, w) = (ex', w') \<Longrightarrow>
   \<exists>s'. unwind_loop ex w s = Inr (\<exists>f \<in> set (cs_frames s). catches (sf_data f), ex', w', s')
     \<and> cs_frames s' = unwound_frames (cs_frames s) ex'"
proof (induction "length (cs_frames s)" arbitrary: s ex w)
  case 0
  then show ?case by (simp add: unwind_loop.simps unwound_frames_def)
next
  case (Suc n)
  obtain f fs where fs: "cs_frames s = f # fs"
    using Suc(2) by (cases "cs_frames s") auto
  obtain ex1 w1 where pass: "pass f (ex, w) = (ex1, w1)"
    by (cases "pass f (ex, w)")
  have into: "unwind_into f ex w s = Inr (catches (sf_data f), ex1, w1,
      if catches (sf_data f)
      then s\<lparr>cs_frames := f\<lparr>sf_data := resumed (sf_data f) ex1, sf_flags := sf_flags f OR frame_unwinding\<rparr> # fs\<rparr>
      else s)"
    using Suc.prems(1) fs by (intro unwind_into_eq [OF fs _ pass]) (simp add: unwindable_def)
  show ?case
  proof (cases "catches (sf_data f)")
    case True
    then show ?thesis
      using Suc.prems(2) into pass fs by (simp add: unwind_loop.simps unwound_frames_def)
  next
    case False
    obtain s2 where s2: "pop_frame_args s = Some s2" "unwindable s2"
      "cs_frames s2 = (case fs of [] \<Rightarrow> [] | g # gs \<Rightarrow>
         g\<lparr>sf_values := take (length (sf_values g) - removed_count f) (sf_values g)\<rparr> # gs)"
      by (rule pop_frame_args_eq_frames [OF fs Suc.prems(1)])
    have step: "unwind_loop ex w s = unwind_loop ex1 w1 s2"
      using into False fs s2(1) by (simp add: unwind_loop.simps [of ex])
    have "deliver (cs_frames s2) (ex1, w1) = (ex', w')"
      using Suc.prems(2) fs False pass s2(3) by (cases fs) (simp_all add: pass_values split: if_splits)
    moreover have "n = length (cs_frames s2)"
      using Suc(2) fs s2(3) by (cases fs) simp_all
    ultimately obtain s' where s': "unwind_loop ex1 w1 s2
        = Inr (\<exists>f \<in> set (cs_frames s2). catches (sf_data f), ex', w', s')"
      "cs_frames s' = unwound_frames (cs_frames s2) ex'"
      using Suc(1) s2(2) by blast
    have "(\<exists>f \<in> set (cs_frames s2). catches (sf_data f)) \<longleftrightarrow> (\<exists>f \<in> set (cs_frames s). catches (sf_data f))"
      using fs False s2(3) by (cases fs) simp_all
    then show ?thesis
      using step s' unwound_frames_pass [OF False, of fs ex'] s2(3) fs by simp
  qed
qed

text \<open>
  C24: An exception reaches the innermost frame that catches it, or ends the coroutine. On a stack
  that can be unwound (\<open>unwindable\<close>), unwinding ends without a fault. Frames without a handler in
  force at their position are removed with their arguments. The first frame that catches, a frame
  of code with a handler or one of the catch function, becomes the top frame, at the target of the
  handler, holding the exception, and marked as unwinding; the frames below it are not touched and
  the state of the coroutine stays. If no frame catches, no frame is left and the coroutine is done
  with an error result that holds the exception. The exception is the thrown one, except that
  a frame that is handling an exception already goes on with that one and adds the new one to
  it as secondary (\<open>deliver\<close>).
\<close>

theorem unwinding_reaches_innermost:
  assumes "co_stack m = Some s" and "unwindable s"
    and "deliver (cs_frames s) (ex, the_world m) = (ex', w')"
  shows "\<exists>s'. cs_frames s' = unwound_frames (cs_frames s) ex'
    \<and> unwind rt ex m = Inr ((),
        if \<exists>f \<in> set (cs_frames s). catches (sf_data f)
        then m\<lparr>the_world := w', co_stack := Some s'\<rparr>
        else m\<lparr>the_world := w'\<lparr>heap := (heap w')(rt_address rt w' \<mapsto> ResultObject False ex')\<rparr>,
               co_stack := Some s', co_state := Done,
               co_result := Object (rt_address rt w') (type_tag (ResultObject False ex'))\<rparr>)"
proof -
  obtain s' where "unwind_loop ex (the_world m) s = Inr (\<exists>f \<in> set (cs_frames s). catches (sf_data f), ex', w', s')"
    "cs_frames s' = unwound_frames (cs_frames s) ex'"
    using unwind_loop_eq [OF assms(2,3)] by blast
  then show ?thesis
    using assms(1)
    by (auto simp: unwind_def Let_def finish_coroutine_def alloc_def bind_exec_def on_world_def change_coroutine_def)
qed

text \<open>A stack with a frame of code on top of one of the catch function.\<close>

definition catching_stack_example :: call_stack where
  "catching_stack_example = calling_stack_example\<lparr>cs_frames :=
     [simple_frame, \<lparr>sf_data = CatchFrame Null, sf_flags = frame_catch_started, sf_argc = 0,
        sf_locals = [], sf_values = [SmallInteger 3]\<rparr>]\<rparr>"

theorem unwinding_reaches_innermost_witness:
  "\<exists>s'. cs_frames s' = [\<lparr>sf_data = CatchFrame (SmallInteger 1), sf_flags = frame_catch_started OR frame_unwinding,
      sf_argc = 0, sf_locals = [], sf_values = [SmallInteger 3]\<rparr>]
    \<and> unwind simple_runtime (SmallInteger 1) (simple_running\<lparr>co_stack := Some catching_stack_example\<rparr>)
      = Inr ((), simple_running\<lparr>co_stack := Some s'\<rparr>)"
proof -
  let ?m = "simple_running\<lparr>co_stack := Some catching_stack_example\<rparr>"
  note example = catching_stack_example_def calling_stack_example_def simple_frame_def simple_template_def
    frame_catch_started_def find_entry_def upper_bound_def
  have "unwindable catching_stack_example"
    by (simp add: unwindable_def frame_unwindable_def removed_count_def example frame_unwinding_def frame_pop_one_more_def)
  moreover have "deliver (cs_frames catching_stack_example) (SmallInteger 1, the_world ?m) = (SmallInteger 1, the_world ?m)"
    by (simp add: pass_def example frame_unwinding_def)
  moreover have "unwound_frames (cs_frames catching_stack_example) (SmallInteger 1) =
      [\<lparr>sf_data = CatchFrame (SmallInteger 1), sf_flags = frame_catch_started OR frame_unwinding,
        sf_argc = 0, sf_locals = [], sf_values = [SmallInteger 3]\<rparr>]"
    by (simp add: unwound_frames_def removed_count_def example)
  moreover have "\<exists>f \<in> set (cs_frames catching_stack_example). catches (sf_data f)"
    by (simp add: example)
  ultimately show ?thesis
    using unwinding_reaches_innermost [of ?m catching_stack_example "SmallInteger 1" "SmallInteger 1" "the_world ?m" simple_runtime]
    by simp
qed

subsection \<open>Overflow of the stack\<close>

lemma pow2_mono_24: "k \<le> 24 \<Longrightarrow> (2 :: nat) ^ k \<le> 2 ^ 24"
  by (rule power_increasing) simp_all

text \<open>The loop that doubles the stack reaches the smallest power of two that is large enough, or the limit.\<close>

lemma grow_loop_exact:
  assumes "\<And>n. cond (s\<lparr>cs_end := n\<rparr>) = Some (need \<le> n, F n)" and "cs_end s + stack_header = 2 ^ k" and "k \<le> 24"
  shows "if 2 ^ 24 - stack_header < need then grow_loop cond s = Inl FatalStackOverflow
    else (k < 24 \<longrightarrow> (\<exists>j. k < j \<and> j \<le> 24 \<and> need \<le> 2 ^ j - stack_header \<and> (j = Suc k \<or> 2 ^ (j - 1) - stack_header < need)
       \<and> grow_loop cond s = Inr (F (2 ^ j - stack_header))))"
  using assms
proof (induction "24 - k" arbitrary: k s)
  case 0
  then have "2 * (cs_end s + stack_header) = 2 ^ 25" by simp
  then have "grow_loop cond s = Inl FatalStackOverflow"
    by (simp add: grow_loop.simps [of cond s] Let_def max_stack_size_def del: mult_2)
  then show ?case using 0 by simp
next
  case (Suc d)
  let ?s = "s\<lparr>cs_end := 2 * (cs_end s + stack_header) - stack_header\<rparr>"
  have k: "Suc k \<le> 24" "d = 24 - Suc k" using Suc(2) by simp_all
  have double: "2 * (cs_end s + stack_header) = 2 ^ Suc k" using Suc(4) by simp
  then have "\<not> max_stack_size < 2 * (cs_end s + stack_header)"
    using pow2_mono_24 [OF k(1)] by (simp add: max_stack_size_def del: power_Suc)
  then have unfold: "grow_loop cond s = (case cond ?s of None \<Rightarrow> Inl LocalsLimit
      | Some (ok, s') \<Rightarrow> if ok then Inr s' else grow_loop cond ?s)"
    by (simp only: grow_loop.simps [of cond s] Let_def if_False)
  have cond: "cond ?s = Some (need \<le> 2 ^ Suc k - stack_header, F (2 ^ Suc k - stack_header))"
    using Suc(3) double by simp
  show ?case
  proof (cases "need \<le> 2 ^ Suc k - stack_header")
    case True
    have "\<not> 2 ^ 24 - stack_header < need" using True pow2_mono_24 [OF k(1)] by linarith
    moreover have "grow_loop cond s = Inr (F (2 ^ Suc k - stack_header))" using True unfold cond by simp
    ultimately show ?thesis using True k(1) by (auto intro!: exI [of _ "Suc k"])
  next
    case False
    have rec: "grow_loop cond s = grow_loop cond ?s" using False unfold cond by simp
    have "cond (?s\<lparr>cs_end := n\<rparr>) = Some (need \<le> n, F n)" for n using Suc(3) by simp
    moreover have "cs_end ?s + stack_header = 2 ^ Suc k"
      using double by simp
    ultimately have ih: "if 2 ^ 24 - stack_header < need then grow_loop cond ?s = Inl FatalStackOverflow
      else (Suc k < 24 \<longrightarrow> (\<exists>j. Suc k < j \<and> j \<le> 24 \<and> need \<le> 2 ^ j - stack_header
         \<and> (j = Suc (Suc k) \<or> 2 ^ (j - 1) - stack_header < need) \<and> grow_loop cond ?s = Inr (F (2 ^ j - stack_header))))"
      using Suc(1) [OF k(2) _ _ k(1)] by blast
    show ?thesis
    proof (cases "2 ^ 24 - stack_header < need")
      case True
      then show ?thesis using ih rec by simp
    next
      case fits: False
      have "Suc k \<noteq> 24" using False fits by auto
      then obtain j where j: "Suc k < j" "j \<le> 24" "need \<le> 2 ^ j - stack_header"
        "j = Suc (Suc k) \<or> 2 ^ (j - 1) - stack_header < need" "grow_loop cond ?s = Inr (F (2 ^ j - stack_header))"
        using ih fits k(1) by auto
      have "2 ^ (j - 1) - stack_header < need" using j(4) False by auto
      with j rec fits show ?thesis by (auto intro!: exI [of _ j])
    qed
  qed
qed

text \<open>
  C25: growth ends, and a call fails with a stack overflow exactly when its frame does not fit
  into the largest stack. For a stack whose object size is a power of two, as the first one is,
  the size after a call is a power of two again, at most the limit of 2 to the power 24, and the
  next smaller one would not hold the frame.
\<close>

theorem call_overflows_iff:
  assumes "co_stack m = Some s" and "wf_stack s" and "unat (tmpl_params t) \<le> length (top_vals s)"
    and "tmpl_locals t < max_locals" and "cs_end s + stack_header = 2 ^ k"
    and "need = cs_used s + 8 * (frame_size (CodeFrame t c Null 0) + unat (tmpl_locals t))"
  shows "(enter_user_frame t c fl m = Inl FatalStackOverflow \<longleftrightarrow> max_stack_size - stack_header < need)
    \<and> (need \<le> max_stack_size - stack_header \<longrightarrow>
        (\<exists>s1 j. enter_user_frame t c fl m = Inr ((), m\<lparr>co_stack := Some s1\<rparr>)
          \<and> cs_end s1 + stack_header = 2 ^ j \<and> k \<le> j \<and> j \<le> 24 \<and> need \<le> cs_end s1
          \<and> (j = k \<or> 2 ^ (j - 1) - stack_header < need)))"
proof -
  let ?cond = "\<lambda>s. cs_push_frame (CodeFrame t c Null 0) fl (tmpl_params t) (tmpl_locals t) (cs_undef s) s"
  let ?F = "\<lambda>n. if need \<le> n then s\<lparr>cs_end := n, cs_frames := \<lparr>sf_data = CodeFrame t c Null 0, sf_flags = fl,
      sf_argc = tmpl_params t, sf_locals = replicate (unat (tmpl_locals t)) (cs_undef s), sf_values = []\<rparr> # cs_frames s\<rparr>
    else s\<lparr>cs_end := n\<rparr>"
  have cond: "?cond (s\<lparr>cs_end := n\<rparr>) = Some (need \<le> n, ?F n)" for n
  proof -
    have "cs_available (s\<lparr>cs_end := n\<rparr>) < 8 * (frame_size (CodeFrame t c Null 0) + unat (tmpl_locals t)) \<longleftrightarrow> \<not> need \<le> n"
      by (simp add: cs_available_def assms(6)) (simp add: cs_used_def, linarith)
    then show ?thesis using assms(4) by (simp add: cs_push_frame_def)
  qed
  have enter: "enter_user_frame t c fl m = grow_stack_impl ?cond m"
    using assms(1,3) by (simp add: enter_user_frame_def bind_exec_def check_values_def query_stack_def)
  have here: "?cond s = Some (need \<le> cs_end s, ?F (cs_end s))" using cond [of "cs_end s"] by simp
  have "cs_end s \<le> 2 ^ 24" using assms(2) by (simp add: wf_stack_def)
  then have "(2 :: nat) ^ k < 2 ^ 25" using assms(5) by (simp add: stack_header_def)
  then have k: "k \<le> 24" using power_less_imp_less_exp [of "2 :: nat" k 25] by simp
  show ?thesis
  proof (cases "need \<le> cs_end s")
    case True
    have "cs_end s \<le> 2 ^ 24 - stack_header" using assms(5) pow2_mono_24 [OF k] by linarith
    then have "\<not> max_stack_size - stack_header < need" using True by (simp add: max_stack_size_def)
    moreover have "enter_user_frame t c fl m = Inr ((), m\<lparr>co_stack := Some (?F (cs_end s))\<rparr>)"
      using True here assms(1) by (simp add: enter grow_stack_impl_def)
    moreover have "cs_end (?F (cs_end s)) = cs_end s" using True by simp
    ultimately show ?thesis using True assms(5) k by (auto intro!: exI [of _ k])
  next
    case False
    have impl: "grow_stack_impl ?cond m = (case grow_loop ?cond s of Inl err \<Rightarrow> Inl err
        | Inr s'' \<Rightarrow> Inr ((), m\<lparr>co_stack := Some s''\<rparr>))"
      using False here assms(1) by (simp add: grow_stack_impl_def)
    note exact = grow_loop_exact [of ?cond s need ?F, OF cond assms(5) k]
    show ?thesis
    proof (cases "2 ^ 24 - stack_header < need")
      case True
      then show ?thesis using exact impl by (simp add: enter max_stack_size_def)
    next
      case fits: False
      have "k \<noteq> 24" using False fits assms(5) by (auto simp: stack_header_def)
      then have "k < 24" using k by simp
      note exact' = exact [unfolded if_not_P [OF fits], THEN mp, OF this]
      then obtain j where j: "k < j" "j \<le> 24" "need \<le> 2 ^ j - stack_header"
        "j = Suc k \<or> 2 ^ (j - 1) - stack_header < need" "grow_loop ?cond s = Inr (?F (2 ^ j - stack_header))"
        by blast
      have "2 ^ (j - 1) - stack_header < need"
        using j(4) False assms(5) by (auto simp: diff_add_inverse2 [symmetric])
      moreover have "cs_end (?F (2 ^ j - stack_header)) = 2 ^ j - stack_header" by simp
      moreover have "(2 :: nat) ^ k \<le> 2 ^ j" using j(1) by simp
      then have "stack_header \<le> 2 ^ j" using assms(5) by linarith
      ultimately show ?thesis
        using fits j(1,2,3,5) impl
        by (intro conjI) (simp_all add: enter max_stack_size_def, rule exI, rule conjI, rule refl, auto intro!: exI [of _ j])
    qed
  qed
qed

theorem call_overflows_iff_witness:
  "enter_user_frame called_template Null 0 (simple_running\<lparr>co_stack := Some calling_stack_example\<rparr>)
     \<noteq> Inl FatalStackOverflow
   \<and> enter_user_frame (called_template\<lparr>tmpl_locals := 1000\<rparr>) Null 0
       (simple_running\<lparr>co_stack := Some calling_stack_example\<rparr>) \<noteq> Inl FatalStackOverflow
   \<and> (\<exists>s1 j. enter_user_frame (called_template\<lparr>tmpl_locals := 1000\<rparr>) Null 0
       (simple_running\<lparr>co_stack := Some calling_stack_example\<rparr>)
         = Inr ((), simple_running\<lparr>co_stack := Some s1\<rparr>) \<and> cs_end s1 + stack_header = 2 ^ j \<and> 8120 \<le> cs_end s1)"
proof -
  let ?m = "simple_running\<lparr>co_stack := Some calling_stack_example\<rparr>"
  let ?t = "called_template\<lparr>tmpl_locals := 1000\<rparr>"
  have stack: "co_stack ?m = Some calling_stack_example" by simp
  have wf: "wf_stack calling_stack_example"
    by (simp add: wf_stack_def calling_stack_example_def caller_frame_def simple_frame_def cs_used_def frame_cost_def)
  have used: "cs_used calling_stack_example = 72"
    by (simp add: calling_stack_example_def caller_frame_def simple_frame_def cs_used_def frame_cost_def)
  have args: "unat (tmpl_params called_template) \<le> length (top_vals calling_stack_example)"
    "unat (tmpl_params ?t) \<le> length (top_vals calling_stack_example)"
    by (simp_all add: called_template_def simple_template_def calling_stack_example_def top_vals_def caller_frame_def)
  have locals: "tmpl_locals called_template < max_locals" "tmpl_locals ?t < max_locals"
    by (simp_all add: called_template_def simple_template_def max_locals_def)
  have size: "cs_end calling_stack_example + stack_header = 2 ^ 9"
    by (simp add: calling_stack_example_def stack_header_def)
  have needs: "128 = cs_used calling_stack_example
      + 8 * (frame_size (CodeFrame called_template Null Null 0) + unat (tmpl_locals called_template))"
    "8120 = cs_used calling_stack_example + 8 * (frame_size (CodeFrame ?t Null Null 0) + unat (tmpl_locals ?t))"
    by (simp_all add: used called_template_def simple_template_def)
  from call_overflows_iff [OF stack wf args(1) locals(1) size needs(1), of 0]
    call_overflows_iff [OF stack wf args(2) locals(2) size needs(2), of 0]
  show ?thesis by (auto simp: max_stack_size_def stack_header_def)
qed

end
