(* ===== verification/Scheduler.thy ===== *)
theory Scheduler
  imports Interpreter
begin

text \<open>
  The scheduling of coroutines (src/vm/context.cpp, src/vm/objects/coroutine.cpp): coroutines
  that can run form a queue, linked through the coroutines themselves; a waiting coroutine is
  resumed by a token, which is valid for one use.

  A coroutine is represented by its state, its link in the queue and its current token; its
  stack belongs to the interpreter. Addresses identify coroutines and tokens. A failed
  assertion is \<open>None\<close>.
\<close>

subsection \<open>State\<close>

record coroutine =
  coro_state :: coroutine_state
  coro_next :: "addr option"
  coro_token :: "addr option"

record scheduler =
  coroutines :: "addr \<rightharpoonup> coroutine"
  token_target :: "addr \<rightharpoonup> addr"
  first_ready :: "addr option"
  last_ready :: "addr option"

datatype scheduler_error = NotInitial

definition no_coroutines :: scheduler where
  "no_coroutines =
     \<lparr>coroutines = (\<lambda>_. None), token_target = (\<lambda>_. None), first_ready = None, last_ready = None\<rparr>"

definition new_coroutine :: coroutine where
  "new_coroutine = \<lparr>coro_state = New, coro_next = None, coro_token = None\<rparr>"

definition set_coroutine :: "addr \<Rightarrow> (coroutine \<Rightarrow> coroutine) \<Rightarrow> scheduler \<Rightarrow> scheduler option" where
  "set_coroutine c upd s =
     map_option (\<lambda>co. s\<lparr>coroutines := (coroutines s)(c \<mapsto> upd co)\<rparr>) (coroutines s c)"

definition is_runnable :: "coroutine_state \<Rightarrow> bool" where
  "is_runnable st \<longleftrightarrow> st = Started \<or> st = Ready"

subsection \<open>Operations\<close>

definition schedule_coroutine :: "addr \<Rightarrow> scheduler \<Rightarrow> scheduler option" where
  "schedule_coroutine c s =
     (case coroutines s c of
        None \<Rightarrow> None
      | Some co \<Rightarrow>
          if \<not> is_runnable (coro_state co) \<or> coro_next co \<noteq> None then None
          else (case last_ready s of
                  Some l \<Rightarrow>
                    map_option (\<lambda>s. s\<lparr>last_ready := Some c\<rparr>) (set_coroutine l (\<lambda>x. x\<lparr>coro_next := Some c\<rparr>) s)
                | None \<Rightarrow> Some (s\<lparr>first_ready := Some c, last_ready := Some c\<rparr>)))"

definition dequeue_coroutine :: "scheduler \<Rightarrow> (addr option \<times> scheduler) option" where
  "dequeue_coroutine s =
     (case first_ready s of
        None \<Rightarrow> Some (None, s)
      | Some c \<Rightarrow>
          (case coroutines s c of
             None \<Rightarrow> None
           | Some co \<Rightarrow>
               let s = s\<lparr>first_ready := coro_next co, coroutines := (coroutines s)(c \<mapsto> co\<lparr>coro_next := None\<rparr>)\<rparr>
               in Some (Some c, if first_ready s = None then s\<lparr>last_ready := None\<rparr> else s)))"

definition start_new :: "addr \<Rightarrow> scheduler \<Rightarrow> (scheduler_error + scheduler) option" where
  "start_new c s =
     (case coroutines s c of
        None \<Rightarrow> None
      | Some co \<Rightarrow>
          if coro_state co \<noteq> New then Some (Inl NotInitial)
          else map_option Inr (Option.bind (set_coroutine c (\<lambda>x. x\<lparr>coro_state := Started\<rparr>) s) (schedule_coroutine c)))"

definition resume_coroutine :: "addr \<Rightarrow> scheduler \<Rightarrow> scheduler option" where
  "resume_coroutine c s =
     (case coroutines s c of
        None \<Rightarrow> None
      | Some co \<Rightarrow>
          if coro_state co \<noteq> Running \<and> coro_state co \<noteq> Waiting then None
          else Option.bind (set_coroutine c (\<lambda>x. x\<lparr>coro_token := None, coro_state := Ready\<rparr>) s) (schedule_coroutine c))"

definition create_token :: "addr \<Rightarrow> addr \<Rightarrow> scheduler \<Rightarrow> (addr \<times> scheduler) option" where
  "create_token fresh c s =
     (case coroutines s c of
        None \<Rightarrow> None
      | Some co \<Rightarrow>
          (case coro_token co of
             Some t \<Rightarrow> Some (t, s)
           | None \<Rightarrow>
               map_option (\<lambda>s. (fresh, s\<lparr>token_target := (token_target s)(fresh \<mapsto> c)\<rparr>))
                 (set_coroutine c (\<lambda>x. x\<lparr>coro_token := Some fresh\<rparr>) s)))"

definition token_valid :: "addr \<Rightarrow> scheduler \<Rightarrow> bool" where
  "token_valid t s =
     (case token_target s t of
        None \<Rightarrow> False
      | Some c \<Rightarrow> (case coroutines s c of None \<Rightarrow> False | Some co \<Rightarrow> coro_token co = Some t))"

definition token_resume :: "addr \<Rightarrow> scheduler \<Rightarrow> (bool \<times> scheduler) option" where
  "token_resume t s =
     (if \<not> token_valid t s then Some (False, s)
      else case token_target s t of
             None \<Rightarrow> None
           | Some c \<Rightarrow>
               (case coroutines s c of
                  None \<Rightarrow> None
                | Some co \<Rightarrow>
                    if coro_state co \<noteq> Waiting then Some (False, s)
                    else map_option (\<lambda>s. (True, s)) (resume_coroutine c s)))"

text \<open>\<open>std.dispatch\<close>: the running coroutine goes to the end of the queue.\<close>

definition dispatch_coroutine :: "addr \<Rightarrow> scheduler \<Rightarrow> scheduler option" where
  "dispatch_coroutine c s =
     (case coroutines s c of
        None \<Rightarrow> None
      | Some co \<Rightarrow> if coro_state co \<noteq> Running then None else resume_coroutine c s)"

text \<open>
  The loop over the queue. The interpreter, and the callbacks of a finished coroutine, are
  parameters; \<open>run\<close> fails its assertions on a coroutine that is done.
\<close>

partial_function (option) run_ready ::
  "(addr \<Rightarrow> scheduler \<Rightarrow> scheduler option) \<Rightarrow> (addr \<Rightarrow> scheduler \<Rightarrow> scheduler option) \<Rightarrow> scheduler \<Rightarrow> scheduler option" where
  "run_ready run callbacks s =
     (case dequeue_coroutine s of
        None \<Rightarrow> None
      | Some (None, s) \<Rightarrow> Some s
      | Some (Some c, s) \<Rightarrow>
          (case coroutines s c of
             None \<Rightarrow> None
           | Some co \<Rightarrow>
               if \<not> is_runnable (coro_state co) then None
               else
                 Option.bind (run c s) (\<lambda>s.
                   case coroutines s c of
                     None \<Rightarrow> None
                   | Some co \<Rightarrow>
                       if coro_state co = Done
                       then Option.bind (set_coroutine c (\<lambda>x. x\<lparr>coro_token := None\<rparr>) s) (\<lambda>s.
                            Option.bind (callbacks c s) (run_ready run callbacks))
                       else run_ready run callbacks s)))"

subsection \<open>The queue\<close>

fun ready_path :: "(addr \<rightharpoonup> coroutine) \<Rightarrow> addr option \<Rightarrow> addr list \<Rightarrow> bool" where
  "ready_path cs p [] = (p = None)"
| "ready_path cs p (c # q) = (p = Some c \<and> (\<exists>co. cs c = Some co \<and> ready_path cs (coro_next co) q))"

definition ready_list :: "scheduler \<Rightarrow> addr list \<Rightarrow> bool" where
  "ready_list s q \<longleftrightarrow>
     ready_path (coroutines s) (first_ready s) q \<and> distinct q
     \<and> last_ready s = (if q = [] then None else Some (last q))
     \<and> (\<forall>c co. c \<notin> set q \<longrightarrow> coroutines s c = Some co \<longrightarrow> coro_next co = None)"

lemma ready_path_present: "ready_path cs p q \<Longrightarrow> c \<in> set q \<Longrightarrow> cs c \<noteq> None"
  by (induction q arbitrary: p) auto

lemma ready_path_unique: "ready_path cs p q \<Longrightarrow> ready_path cs p q' \<Longrightarrow> q = q'"
proof (induction q arbitrary: p q')
  case Nil
  then show ?case by (cases q') auto
next
  case (Cons c q)
  then show ?case by (cases q') auto
qed

lemma ready_list_unique: "ready_list s q \<Longrightarrow> ready_list s q' \<Longrightarrow> q = q'"
  using ready_path_unique by (auto simp: ready_list_def)

text \<open>Changes that keep the links of the queue keep its path.\<close>

lemma ready_path_cong:
  assumes "ready_path cs p q" and "\<And>c. c \<in> set q \<Longrightarrow> map_option coro_next (cs' c) = map_option coro_next (cs c)"
  shows "ready_path cs' p q"
  using assms
proof (induction q arbitrary: p)
  case (Cons c q)
  then obtain co where co: "p = Some c" "cs c = Some co" "ready_path cs (coro_next co) q" by auto
  have "map_option coro_next (cs' c) = Some (coro_next co)" using Cons(3) [of c] co(2) by simp
  then obtain co' where "cs' c = Some co'" "coro_next co' = coro_next co" by auto
  with co Cons show ?case by auto
qed simp

lemma ready_path_append:
  assumes "ready_path cs p q" and "q \<noteq> []" and "distinct q" and "c \<notin> set q" and "cs c = Some co" and "coro_next co = None"
    and "cs (last q) = Some l"
  shows "ready_path (cs(last q \<mapsto> l\<lparr>coro_next := Some c\<rparr>)) p (q @ [c])"
  using assms
proof (induction q arbitrary: p)
  case (Cons a q)
  show ?case
  proof (cases "q = []")
    case True
    then show ?thesis using Cons by auto
  next
    case False
    then have "last q \<noteq> a" using Cons(4) last_in_set [OF False] by auto
    then show ?thesis using Cons False by auto
  qed
qed simp

lemma ready_list_last:
  assumes "ready_list s q" and "q \<noteq> []"
  obtains l where "last_ready s = Some (last q)" "coroutines s (last q) = Some l" "coro_next l = None"
proof -
  have path: "ready_path (coroutines s) (first_ready s) q" using assms by (simp add: ready_list_def)
  have "\<exists>l. cs (last q) = Some l \<and> coro_next l = None" if "ready_path cs p q" "q \<noteq> []" for cs p
    using that by (induction q arbitrary: p) auto
  from this [OF path assms(2)] obtain l where "coroutines s (last q) = Some l" "coro_next l = None" by blast
  moreover have "last_ready s = Some (last q)" using assms by (simp add: ready_list_def)
  ultimately show thesis by (rule that [rotated])
qed

text \<open>Scheduling appends to the queue, and changes nothing but links.\<close>

lemma schedule_appends:
  assumes q: "ready_list s q" and c: "coroutines s c = Some co" "is_runnable (coro_state co)" "c \<notin> set q"
  obtains s' where "schedule_coroutine c s = Some s'" "ready_list s' (q @ [c])"
    "\<And>x. map_option coro_state (coroutines s' x) = map_option coro_state (coroutines s x)"
    "\<And>x. map_option coro_token (coroutines s' x) = map_option coro_token (coroutines s x)"
    "token_target s' = token_target s"
proof (cases "q = []")
  case True
  let ?s = "s\<lparr>first_ready := Some c, last_ready := Some c\<rparr>"
  have next_none: "coro_next co = None" using q c by (auto simp: ready_list_def)
  have "schedule_coroutine c s = Some ?s"
    using q c True next_none by (simp add: schedule_coroutine_def ready_list_def)
  moreover have "ready_list ?s (q @ [c])"
    using q c True next_none by (auto simp: ready_list_def)
  ultimately show thesis by (intro that [of ?s]) simp_all
next
  case False
  then obtain l where l: "last_ready s = Some (last q)" "coroutines s (last q) = Some l" "coro_next l = None"
    using ready_list_last [OF q] by blast
  have next_none: "coro_next co = None" using q c by (auto simp: ready_list_def)
  let ?s = "s\<lparr>coroutines := (coroutines s)(last q \<mapsto> l\<lparr>coro_next := Some c\<rparr>), last_ready := Some c\<rparr>"
  have "schedule_coroutine c s = Some ?s"
    using l c next_none by (simp add: schedule_coroutine_def set_coroutine_def)
  moreover have "ready_path (coroutines ?s) (first_ready ?s) (q @ [c])"
    using ready_path_append [of "coroutines s" "first_ready s" q c co l] q c False next_none l
    by (simp add: ready_list_def)
  then have "ready_list ?s (q @ [c])"
    using q c False last_in_set [OF False] by (auto simp: ready_list_def)
  ultimately show thesis using l by (intro that [of ?s]) auto
qed

lemma ready_list_dequeue:
  assumes q: "ready_list s q"
  shows "case q of
      [] \<Rightarrow> dequeue_coroutine s = Some (None, s)
    | c # q' \<Rightarrow> \<exists>co s'. coroutines s c = Some co \<and> dequeue_coroutine s = Some (Some c, s') \<and> ready_list s' q'
        \<and> coroutines s' = (coroutines s)(c \<mapsto> co\<lparr>coro_next := None\<rparr>) \<and> token_target s' = token_target s"
proof (cases q)
  case Nil
  then show ?thesis using q by (simp add: dequeue_coroutine_def ready_list_def)
next
  case (Cons c q')
  then obtain co where co: "first_ready s = Some c" "coroutines s c = Some co" "ready_path (coroutines s) (coro_next co) q'"
    using q by (auto simp: ready_list_def)
  let ?cs = "(coroutines s)(c \<mapsto> co\<lparr>coro_next := None\<rparr>)"
  have notin: "c \<notin> set q'" "distinct q'" using q Cons by (auto simp: ready_list_def)
  have path: "ready_path ?cs (coro_next co) q'"
    by (rule ready_path_cong [OF co(3)]) (use notin in auto)
  have empty: "coro_next co = None \<longleftrightarrow> q' = []" using co(3) by (cases q') auto
  let ?s = "s\<lparr>first_ready := coro_next co, coroutines := ?cs\<rparr>"
  let ?s' = "if coro_next co = None then ?s\<lparr>last_ready := None\<rparr> else ?s"
  have "dequeue_coroutine s = Some (Some c, ?s')" using co by (simp add: dequeue_coroutine_def Let_def)
  moreover have "ready_list ?s' q'"
    using q Cons path notin empty by (auto simp: ready_list_def)
  ultimately show ?thesis using Cons co by auto
qed

text \<open>Changes of the state and the token of a coroutine.\<close>

lemma ready_list_set:
  assumes q: "ready_list s q" and c: "coroutines s c = Some co" and same: "coro_next (upd co) = coro_next co"
  shows "set_coroutine c upd s = Some (s\<lparr>coroutines := (coroutines s)(c \<mapsto> upd co)\<rparr>)"
    and "ready_list (s\<lparr>coroutines := (coroutines s)(c \<mapsto> upd co)\<rparr>) q"
proof -
  show "set_coroutine c upd s = Some (s\<lparr>coroutines := (coroutines s)(c \<mapsto> upd co)\<rparr>)"
    using c by (simp add: set_coroutine_def)
  have path: "ready_path (coroutines s) (first_ready s) q"
    and unlinked: "\<And>x y. x \<notin> set q \<Longrightarrow> coroutines s x = Some y \<Longrightarrow> coro_next y = None"
    and rest: "distinct q" "last_ready s = (if q = [] then None else Some (last q))"
    using q by (simp_all add: ready_list_def)
  have "ready_path ((coroutines s)(c \<mapsto> upd co)) (first_ready s) q"
    by (rule ready_path_cong [OF path]) (simp add: c same)
  moreover have "coro_next y = None" if "x \<notin> set q" "((coroutines s)(c \<mapsto> upd co)) x = Some y" for x y
    using that unlinked [OF that(1)] c same by (cases "x = c") auto
  ultimately show "ready_list (s\<lparr>coroutines := (coroutines s)(c \<mapsto> upd co)\<rparr>) q"
    using rest by (simp add: ready_list_def)
qed

lemma resume_appends:
  assumes q: "ready_list s q" and c: "coroutines s c = Some co" "coro_state co \<in> {Running, Waiting}" "c \<notin> set q"
  obtains s' where "resume_coroutine c s = Some s'" "ready_list s' (q @ [c])"
    "\<And>x. map_option coro_state (coroutines s' x) = (if x = c then Some Ready else map_option coro_state (coroutines s x))"
    "\<And>x. map_option coro_token (coroutines s' x) = (if x = c then Some None else map_option coro_token (coroutines s x))"
    "token_target s' = token_target s"
proof -
  let ?upd = "\<lambda>x. x\<lparr>coro_token := None, coro_state := Ready\<rparr>"
  let ?s = "s\<lparr>coroutines := (coroutines s)(c \<mapsto> ?upd co)\<rparr>"
  note set = ready_list_set [OF q c(1), of ?upd]
  obtain s' where s': "schedule_coroutine c ?s = Some s'" "ready_list s' (q @ [c])"
    "\<And>x. map_option coro_state (coroutines s' x) = map_option coro_state (coroutines ?s x)"
    "\<And>x. map_option coro_token (coroutines s' x) = map_option coro_token (coroutines ?s x)"
    "token_target s' = token_target ?s"
    using schedule_appends [of ?s q c "?upd co"] set c by (auto simp: is_runnable_def)
  have "resume_coroutine c s = Some s'"
    using c set s'(1) by (auto simp: resume_coroutine_def)
  then show thesis using s' by (intro that [of s']) auto
qed

subsection \<open>The life of coroutines\<close>

text \<open>
  What can happen: a coroutine is created or started, the interpreter takes the first one of
  the queue, which it asserts to be runnable, the running coroutine makes a token for itself,
  waits, moves to the end of the queue or finishes, and anybody uses a token. The second component
  is the coroutine that runs. Addresses of new objects are fresh.

  The functions \<open>std.yield_coroutine\<close> and \<open>std.dispatch\<close> change the state of the running coroutine
  and then return. If they return into a frame, the interpreter stops at the new state
  (\<open>wait\<close>, \<open>dispatch\<close>). If they return from the bottom frame, the coroutine is done: for
  \<open>std.yield_coroutine\<close> this is \<open>finish\<close>, for \<open>std.dispatch\<close> the coroutine is in the queue then
  (\<open>dispatch_last\<close>, src/vm/builtins/std.cpp:157 and \<open>Interpreter::return_function\<close>). The
  parameter says whether that last case, which breaks the queue, occurs.
\<close>

inductive sched_step :: "bool \<Rightarrow> scheduler \<times> addr option \<Rightarrow> scheduler \<times> addr option \<Rightarrow> bool" for bottom where
  create: "coroutines s c = None
    \<Longrightarrow> sched_step bottom (s, cur) (s\<lparr>coroutines := (coroutines s)(c \<mapsto> new_coroutine)\<rparr>, cur)"
| launch: "start_new c s = Some (Inr s') \<Longrightarrow> sched_step bottom (s, cur) (s', cur)"
| take: "dequeue_coroutine s = Some (Some c, s1) \<Longrightarrow> coroutines s1 c = Some co \<Longrightarrow> is_runnable (coro_state co)
    \<Longrightarrow> set_coroutine c (\<lambda>x. x\<lparr>coro_state := Running\<rparr>) s1 = Some s'
    \<Longrightarrow> sched_step bottom (s, None) (s', Some c)"
| token: "fresh \<notin> dom (token_target s) \<Longrightarrow> create_token fresh c s = Some (t, s')
    \<Longrightarrow> sched_step bottom (s, Some c) (s', Some c)"
| resume: "token_resume t s = Some (b, s') \<Longrightarrow> sched_step bottom (s, cur) (s', cur)"
| wait: "set_coroutine c (\<lambda>x. x\<lparr>coro_state := Waiting\<rparr>) s = Some s'
    \<Longrightarrow> sched_step bottom (s, Some c) (s', None)"
| dispatch: "dispatch_coroutine c s = Some s' \<Longrightarrow> sched_step bottom (s, Some c) (s', None)"
| dispatch_last: "bottom \<Longrightarrow> dispatch_coroutine c s = Some s1
    \<Longrightarrow> set_coroutine c (\<lambda>x. x\<lparr>coro_state := Done, coro_token := None\<rparr>) s1 = Some s'
    \<Longrightarrow> sched_step bottom (s, Some c) (s', None)"
| finish: "set_coroutine c (\<lambda>x. x\<lparr>coro_state := Done, coro_token := None\<rparr>) s = Some s'
    \<Longrightarrow> sched_step bottom (s, Some c) (s', None)"

definition state_of :: "scheduler \<Rightarrow> addr \<Rightarrow> coroutine_state option" where
  "state_of s c = map_option coro_state (coroutines s c)"

definition token_of :: "scheduler \<Rightarrow> addr \<Rightarrow> addr option" where
  "token_of s c = Option.bind (coroutines s c) coro_token"

definition runnable_coros :: "scheduler \<Rightarrow> addr set" where
  "runnable_coros s = {c. state_of s c \<in> {Some Started, Some Ready}}"

definition tokens_ok :: "scheduler \<Rightarrow> bool" where
  "tokens_ok s \<longleftrightarrow> (\<forall>c t. token_of s c = Some t \<longrightarrow> token_target s t = Some c)
     \<and> (\<forall>t c. token_target s t = Some c \<longrightarrow> coroutines s c \<noteq> None)"

definition queue_ok :: "bool \<Rightarrow> scheduler \<Rightarrow> addr list \<Rightarrow> bool" where
  "queue_ok bottom s q \<longleftrightarrow> runnable_coros s \<subseteq> set q
     \<and> (\<forall>c \<in> set q. c \<in> runnable_coros s \<or> (bottom \<and> state_of s c = Some Done))"

definition sched_ok :: "bool \<Rightarrow> scheduler \<times> addr option \<Rightarrow> bool" where
  "sched_ok bottom x \<longleftrightarrow> (case x of (s, cur) \<Rightarrow>
     (\<exists>q. ready_list s q \<and> queue_ok bottom s q)
     \<and> (\<forall>c. cur = Some c \<longleftrightarrow> state_of s c = Some Running) \<and> tokens_ok s)"

lemma state_of_eq: "map_option coro_state (coroutines s c) = state_of s c"
  by (simp add: state_of_def)

lemma token_of_eq: "map_option coro_token (coroutines s' c) = map_option coro_token (coroutines s c) \<Longrightarrow> token_of s' c = token_of s c"
  by (cases "coroutines s c"; cases "coroutines s' c") (simp_all add: token_of_def)

lemma present_eq: "map_option f (coroutines s' c) = map_option f (coroutines s c) \<Longrightarrow> (coroutines s' c = None) = (coroutines s c = None)"
  by (cases "coroutines s c"; cases "coroutines s' c") simp_all

lemma state_of_set [simp]:
  "state_of (s\<lparr>coroutines := (coroutines s)(c \<mapsto> co)\<rparr>) x = (if x = c then Some (coro_state co) else state_of s x)"
  "token_of (s\<lparr>coroutines := (coroutines s)(c \<mapsto> co)\<rparr>) x = (if x = c then coro_token co else token_of s x)"
  by (simp_all add: state_of_def token_of_def)

lemma set_coroutine_Some:
  assumes "set_coroutine c upd s = Some s'"
  obtains co where "coroutines s c = Some co" "s' = s\<lparr>coroutines := (coroutines s)(c \<mapsto> upd co)\<rparr>"
  using assms by (auto simp: set_coroutine_def)

lemma runnable_iff: "coroutines s c = Some co \<Longrightarrow> c \<in> runnable_coros s \<longleftrightarrow> is_runnable (coro_state co)"
  by (auto simp: runnable_coros_def state_of_def is_runnable_def)

text \<open>A change of a coroutine that is neither in the queue nor to be queued.\<close>

lemma sched_ok_set:
  assumes ok: "sched_ok bottom (s, cur)" and c: "coroutines s c = Some co" "\<not> is_runnable (coro_state co)"
    and new: "coro_next (upd co) = coro_next co" "\<not> is_runnable (coro_state (upd co))" "coro_state co \<noteq> Done"
    and tk: "coro_token (upd co) \<in> {None, coro_token co}"
    and cur: "\<And>x. cur' = Some x \<longleftrightarrow> (if x = c then coro_state (upd co) = Running else cur = Some x)"
  shows "sched_ok bottom (s\<lparr>coroutines := (coroutines s)(c \<mapsto> upd co)\<rparr>, cur')"
proof -
  obtain q where q: "ready_list s q" "queue_ok bottom s q" and run: "\<And>x. cur = Some x \<longleftrightarrow> state_of s x = Some Running"
    and tok: "tokens_ok s"
    using ok by (auto simp: sched_ok_def)
  let ?s = "s\<lparr>coroutines := (coroutines s)(c \<mapsto> upd co)\<rparr>"
  have notin: "c \<notin> set q"
    using q(2) c new(3) by (auto simp: queue_ok_def runnable_iff state_of_def)
  have "runnable_coros ?s = runnable_coros s"
    using new(2) c by (auto simp: runnable_coros_def is_runnable_def state_of_def)
  then have "queue_ok bottom ?s q"
    using q(2) notin by (auto simp: queue_ok_def)
  moreover have "ready_list ?s q" using ready_list_set(2) [OF q(1) c(1), of upd] new(1) by blast
  moreover have "cur' = Some x \<longleftrightarrow> state_of ?s x = Some Running" for x
    using cur [of x] run [of x] by simp
  moreover have "tokens_ok ?s"
    using tok tk c(1) by (auto simp: tokens_ok_def token_of_def)
  ultimately show ?thesis using q by (auto simp: sched_ok_def)
qed


text \<open>A coroutine that joins the queue.\<close>

lemma sched_ok_append:
  assumes q: "ready_list s q" "queue_ok bottom s q" and tok: "tokens_ok s"
    and q': "ready_list s' (q @ [c])" and c: "state_of s c \<noteq> None" "c \<notin> set q"
    and st: "\<And>x. state_of s' x = (if x = c then Some st else state_of s x)" "is_runnable st"
    and tk: "\<And>x. token_of s' x = (if x = c then tk else token_of s x)" "tk \<in> {None, token_of s c}"
    and target: "token_target s' = token_target s"
    and cur: "\<And>x. cur' = Some x \<longleftrightarrow> x \<noteq> c \<and> state_of s x = Some Running"
  shows "sched_ok bottom (s', cur')"
proof -
  have "queue_ok bottom s' (q @ [c])"
    using q(2) c(2) st by (auto simp: queue_ok_def runnable_coros_def is_runnable_def)
  moreover have "cur' = Some x \<longleftrightarrow> state_of s' x = Some Running" for x
    using cur [of x] st(1) [of x] st(2) by (auto simp: is_runnable_def)
  moreover have "tokens_ok s'"
  proof -
    have "token_target s' t = Some x" if "token_of s' x = Some t" for x t
      using that tk(1) [of x] tk(2) tok target by (auto simp: tokens_ok_def split: if_splits)
    moreover have "coroutines s' x \<noteq> None" if "token_target s' t = Some x" for x t
    proof -
      have "coroutines s x \<noteq> None" using that target tok by (auto simp: tokens_ok_def)
      then have "state_of s x \<noteq> None" by (simp add: state_of_def)
      then have "state_of s' x \<noteq> None" using st(1) [of x] by simp
      then show ?thesis by (simp add: state_of_def)
    qed
    ultimately show ?thesis by (simp add: tokens_ok_def)
  qed
  ultimately show ?thesis using q' by (auto simp: sched_ok_def)
qed


lemma sched_okE:
  assumes "sched_ok bottom (s, cur)"
  obtains q where "ready_list s q" "queue_ok bottom s q" "tokens_ok s" "\<And>x. cur = Some x \<longleftrightarrow> state_of s x = Some Running"
  using assms by (auto simp: sched_ok_def)

lemma not_queued:
  assumes "queue_ok bottom s q" and "coroutines s c = Some co" and "\<not> is_runnable (coro_state co)"
    and "coro_state co \<noteq> Done"
  shows "c \<notin> set q"
  using assms by (auto simp: queue_ok_def runnable_iff state_of_def)

lemma sched_ok_create:
  assumes ok: "sched_ok bottom (s, cur)" and fresh: "coroutines s c = None"
  shows "sched_ok bottom (s\<lparr>coroutines := (coroutines s)(c \<mapsto> new_coroutine)\<rparr>, cur)"
proof -
  let ?s = "s\<lparr>coroutines := (coroutines s)(c \<mapsto> new_coroutine)\<rparr>"
  obtain q where q: "ready_list s q" "queue_ok bottom s q" "tokens_ok s" "\<And>x. cur = Some x \<longleftrightarrow> state_of s x = Some Running"
    using sched_okE [OF ok] by blast
  have notin: "c \<notin> set q" using q(2) fresh by (auto simp: queue_ok_def runnable_coros_def state_of_def)
  have "ready_path (coroutines ?s) (first_ready s) q"
    by (rule ready_path_cong [of "coroutines s"]) (use q(1) notin in \<open>auto simp: ready_list_def\<close>)
  then have "ready_list ?s q" using q(1) by (auto simp: ready_list_def new_coroutine_def)
  moreover have "queue_ok bottom ?s q"
    using q(2) notin by (auto simp: queue_ok_def runnable_coros_def new_coroutine_def)
  moreover have "cur = Some x \<longleftrightarrow> state_of ?s x = Some Running" for x
    using q(4) [of x] fresh by (auto simp: new_coroutine_def state_of_def)
  moreover have "tokens_ok ?s"
    using q(3) fresh by (auto simp: tokens_ok_def new_coroutine_def token_of_def)
  ultimately show ?thesis by (auto simp: sched_ok_def)
qed

lemma start_new_ok:
  assumes ok: "sched_ok bottom (s, cur)" and co: "coroutines s c = Some co" "coro_state co = New"
  obtains s' where "start_new c s = Some (Inr s')" "sched_ok bottom (s', cur)"
    "\<And>q. ready_list s q \<Longrightarrow> ready_list s' (q @ [c])"
    "\<And>x. token_of s' x = token_of s x" "token_target s' = token_target s"
    "\<And>x. coroutines s x \<noteq> None \<Longrightarrow> coroutines s' x \<noteq> None"
proof -
  obtain q where q: "ready_list s q" "queue_ok bottom s q" "tokens_ok s" "\<And>x. cur = Some x \<longleftrightarrow> state_of s x = Some Running"
    using sched_okE [OF ok] by blast
  let ?upd = "\<lambda>x. x\<lparr>coro_state := Started\<rparr>"
  let ?s = "s\<lparr>coroutines := (coroutines s)(c \<mapsto> ?upd co)\<rparr>"
  have notin: "c \<notin> set q" by (rule not_queued [OF q(2) co(1)]) (simp_all add: co(2) is_runnable_def)
  note set = ready_list_set [OF q(1) co(1), of ?upd]
  obtain s' where s': "schedule_coroutine c ?s = Some s'" "ready_list s' (q @ [c])"
    "\<And>x. map_option coro_state (coroutines s' x) = map_option coro_state (coroutines ?s x)"
    "\<And>x. map_option coro_token (coroutines s' x) = map_option coro_token (coroutines ?s x)"
    "token_target s' = token_target ?s"
    using schedule_appends [of ?s q c "?upd co"] set notin by (auto simp: is_runnable_def)
  have st: "state_of s' x = (if x = c then Some Started else state_of s x)" for x
    using s'(3) [of x] by (simp add: state_of_def)
  have tk: "token_of s' x = token_of s x" for x
    using token_of_eq [OF s'(4)] co(1) by (simp add: token_of_def)
  have "start_new c s = Some (Inr s')"
    using co set(1) s'(1) by (simp add: start_new_def)
  moreover have "sched_ok bottom (s', cur)"
    by (rule sched_ok_append [OF q(1,2,3) s'(2) _ notin, where st = Started and tk = "token_of s c"])
      (use co q(4) st tk s'(5) in \<open>auto simp: state_of_def is_runnable_def\<close>)
  moreover have "ready_list s' (q' @ [c])" if "ready_list s q'" for q'
    using s'(2) ready_list_unique [OF q(1) that] by simp
  moreover have "coroutines s' x \<noteq> None" if "coroutines s x \<noteq> None" for x
    using st [of x] that by (auto simp: state_of_def split: if_splits)
  ultimately show thesis using tk s'(5) by (intro that [of s']) auto
qed


lemma resume_ok:
  assumes ok: "sched_ok bottom (s, cur)" and co: "coroutines s c = Some co" "coro_state co \<in> {Running, Waiting}"
  obtains s' where "resume_coroutine c s = Some s'" "sched_ok bottom (s', if cur = Some c then None else cur)"
    "\<And>q. ready_list s q \<Longrightarrow> ready_list s' (q @ [c])"
    "\<And>x. token_of s' x = (if x = c then None else token_of s x)" "token_target s' = token_target s"
    "\<And>x. coroutines s x \<noteq> None \<Longrightarrow> coroutines s' x \<noteq> None"
proof -
  obtain q where q: "ready_list s q" "queue_ok bottom s q" "tokens_ok s" "\<And>x. cur = Some x \<longleftrightarrow> state_of s x = Some Running"
    using sched_okE [OF ok] by blast
  have notin: "c \<notin> set q" by (rule not_queued [OF q(2) co(1)]) (use co(2) in \<open>auto simp: is_runnable_def\<close>)
  obtain s' where s': "resume_coroutine c s = Some s'" "ready_list s' (q @ [c])"
    "\<And>x. map_option coro_state (coroutines s' x) = (if x = c then Some Ready else map_option coro_state (coroutines s x))"
    "\<And>x. map_option coro_token (coroutines s' x) = (if x = c then Some None else map_option coro_token (coroutines s x))"
    "token_target s' = token_target s"
    using resume_appends [OF q(1) co notin] by blast
  have st: "state_of s' x = (if x = c then Some Ready else state_of s x)" for x
    using s'(3) [of x] by (simp add: state_of_def)
  have tk: "token_of s' x = (if x = c then None else token_of s x)" for x
    using s'(4) [of x] token_of_eq [of s' x s] by (cases "x = c") (auto simp: token_of_def)
  have run: "(if cur = Some c then None else cur) = Some x \<longleftrightarrow> x \<noteq> c \<and> state_of s x = Some Running" for x
    using q(4) [of c] q(4) [of x] by (cases "cur = Some c") auto
  have known: "state_of s c \<noteq> None" using co by (simp add: state_of_def)
  have "sched_ok bottom (s', if cur = Some c then None else cur)"
    by (rule sched_ok_append [OF q(1,2,3) s'(2) known notin st _ tk _ s'(5) run]) (simp_all add: is_runnable_def)
  moreover have "ready_list s' (q' @ [c])" if "ready_list s q'" for q'
    using s'(2) ready_list_unique [OF q(1) that] by simp
  moreover have "coroutines s' x \<noteq> None" if "coroutines s x \<noteq> None" for x
    using st [of x] that by (auto simp: state_of_def split: if_splits)
  ultimately show thesis using s'(1,5) tk by (intro that [of s']) auto
qed

lemma take_ok:
  assumes ok: "sched_ok bottom (s, None)" and q: "ready_list s (c # q)"
  obtains s1 s' where "dequeue_coroutine s = Some (Some c, s1)"
    "set_coroutine c (\<lambda>x. x\<lparr>coro_state := Running\<rparr>) s1 = Some s'" "sched_ok bottom (s', Some c)" "ready_list s' q"
    "\<And>x. token_of s' x = token_of s x" "token_target s' = token_target s"
    "\<And>x. coroutines s x \<noteq> None \<Longrightarrow> coroutines s' x \<noteq> None"
proof -
  have facts: "queue_ok bottom s (c # q)" "tokens_ok s" "\<And>x. state_of s x \<noteq> Some Running"
    using sched_okE [OF ok] ready_list_unique [OF q] by (metis option.distinct(1))+
  obtain co s1 where s1: "coroutines s c = Some co" "dequeue_coroutine s = Some (Some c, s1)" "ready_list s1 q"
    "coroutines s1 = (coroutines s)(c \<mapsto> co\<lparr>coro_next := None\<rparr>)" "token_target s1 = token_target s"
    using ready_list_dequeue [OF q] by auto
  let ?upd = "\<lambda>x. x\<lparr>coro_state := Running\<rparr>"
  let ?s = "s1\<lparr>coroutines := (coroutines s1)(c \<mapsto> ?upd (co\<lparr>coro_next := None\<rparr>))\<rparr>"
  have c1: "coroutines s1 c = Some (co\<lparr>coro_next := None\<rparr>)" using s1(4) by simp
  note set = ready_list_set [OF s1(3) c1, of ?upd]
  have notin: "c \<notin> set q" using q by (simp add: ready_list_def)
  have st: "state_of ?s x = (if x = c then Some Running else state_of s x)"
    and tk: "token_of ?s x = token_of s x" for x
    using s1(1,4) by (simp_all add: state_of_def token_of_def)
  have "queue_ok bottom ?s q"
    using facts(1) st notin by (auto simp: queue_ok_def runnable_coros_def)
  moreover have "tokens_ok ?s"
    using facts(2) tk s1(5,4) by (auto simp: tokens_ok_def)
  ultimately have "sched_ok bottom (?s, Some c)"
    using set(2) st facts(3) by (auto simp: sched_ok_def)
  then show thesis using s1 set tk by (intro that [of s1 ?s]) auto
qed

lemma running_known:
  assumes "sched_ok bottom (s, Some c)"
  obtains co where "coroutines s c = Some co" "coro_state co = Running"
  using assms by (auto simp: sched_ok_def state_of_def)

lemma create_token_ok:
  assumes ok: "sched_ok bottom (s, cur)" and co: "coroutines s c = Some co" and fresh: "fresh \<notin> dom (token_target s)"
  obtains t s' where "create_token fresh c s = Some (t, s')" "sched_ok bottom (s', cur)" "token_valid t s'"
proof (cases "coro_token co")
  case (Some t)
  then have "token_target s t = Some c"
    using ok co by (auto simp: sched_ok_def tokens_ok_def token_of_def)
  then have "token_valid t s"
    using co Some by (simp add: token_valid_def)
  then show thesis using Some co ok by (intro that [of t s]) (auto simp: create_token_def)
next
  case None
  let ?upd = "\<lambda>x. x\<lparr>coro_token := Some fresh\<rparr>"
  let ?s = "s\<lparr>coroutines := (coroutines s)(c \<mapsto> ?upd co)\<rparr>"
  let ?s' = "?s\<lparr>token_target := (token_target s)(fresh \<mapsto> c)\<rparr>"
  obtain q where q: "ready_list s q" "queue_ok bottom s q" "tokens_ok s" "\<And>x. cur = Some x \<longleftrightarrow> state_of s x = Some Running"
    using sched_okE [OF ok] by blast
  have made: "create_token fresh c s = Some (fresh, ?s')"
    using None co by (simp add: create_token_def set_coroutine_def)
  have "ready_list ?s q" using ready_list_set(2) [OF q(1) co, of ?upd] by simp
  then have "ready_list ?s' q" by (simp add: ready_list_def)
  moreover have st: "state_of ?s' x = state_of s x" for x using co by (simp add: state_of_def)
  moreover have tk: "token_of ?s' x = (if x = c then Some fresh else token_of s x)" for x
    by (simp add: token_of_def)
  have "tokens_ok ?s'"
    using q(3) tk fresh co by (auto simp: tokens_ok_def)
  ultimately have "sched_ok bottom (?s', cur)"
    using q st by (auto simp: sched_ok_def queue_ok_def runnable_coros_def)
  moreover have "token_valid fresh ?s'" using co by (simp add: token_valid_def)
  ultimately show thesis using made that by blast
qed


text \<open>The coroutine that dispatches itself from its bottom frame is done in the queue.\<close>

lemma dispatch_runs:
  assumes ok: "sched_ok bottom (s, Some c)" and "dispatch_coroutine c s = Some s'"
  obtains co where "coroutines s c = Some co" "coro_state co \<in> {Running, Waiting}"
    "resume_coroutine c s = Some s'" "sched_ok bottom (s', None)"
proof -
  obtain co where co: "coroutines s c = Some co" "coro_state co = Running"
    by (rule running_known [OF ok]) (rule that)
  then have res: "resume_coroutine c s = Some s'" and runs: "coro_state co \<in> {Running, Waiting}"
    using assms(2) by (simp_all add: dispatch_coroutine_def)
  obtain s'' where "resume_coroutine c s = Some s''" "sched_ok bottom (s'', if Some c = Some c then None else Some c)"
    by (rule resume_ok [OF ok co(1) runs]) (rule that)
  with res show thesis by (intro that [OF co(1) runs res]) simp
qed

lemma sched_ok_done:
  assumes ok: "sched_ok bottom (s, None)" and bottom and c: "coroutines s c = Some co"
  shows "sched_ok bottom (s\<lparr>coroutines := (coroutines s)(c \<mapsto> co\<lparr>coro_state := Done, coro_token := None\<rparr>)\<rparr>, None)"
proof -
  let ?upd = "\<lambda>co. co\<lparr>coro_state := Done, coro_token := None\<rparr>"
  let ?s = "s\<lparr>coroutines := (coroutines s)(c \<mapsto> ?upd co)\<rparr>"
  obtain q where q: "ready_list s q" "queue_ok bottom s q" "tokens_ok s" "\<And>x. state_of s x \<noteq> Some Running"
    using sched_okE [OF ok] by (metis option.distinct(1))
  have "ready_list ?s q"
    by (rule ready_list_set(2) [OF q(1) c, of ?upd]) simp
  moreover have "queue_ok bottom ?s q"
    using q(2) \<open>bottom\<close> by (auto simp: queue_ok_def runnable_coros_def)
  moreover have "tokens_ok ?s"
    using q(3) c by (auto simp: tokens_ok_def)
  ultimately show ?thesis
    using q(4) by (auto simp: sched_ok_def)
qed

text \<open>Every step keeps the invariant.\<close>

lemma sched_ok_step:
  assumes "sched_step bottom x y" and "sched_ok bottom x"
  shows "sched_ok bottom y"
  using assms
proof (induction rule: sched_step.induct)
  case (create s c cur)
  then show ?case using sched_ok_create by blast
next
  case (launch c s s' cur)
  then obtain co where co: "coroutines s c = Some co" "coro_state co = New"
    by (auto simp: start_new_def split: option.splits if_splits)
  obtain s'' where "start_new c s = Some (Inr s'')" "sched_ok bottom (s'', cur)"
    by (rule start_new_ok [OF launch(2) co]) (rule that)
  with launch(1) show ?case by simp
next
  case (take s c s1 co s')
  obtain q where q: "ready_list s q" by (rule sched_okE [OF take(5)]) (rule that)
  obtain q' where first: "ready_list s (c # q')"
  proof (cases q)
    case Nil
    then show thesis using take(1) ready_list_dequeue [OF q] by simp
  next
    case (Cons d q')
    then obtain s2 where "dequeue_coroutine s = Some (Some d, s2)" using ready_list_dequeue [OF q] by auto
    then show thesis using take(1) q Cons by (intro that) simp
  qed
  obtain s1' s'' where "dequeue_coroutine s = Some (Some c, s1')"
    "set_coroutine c (\<lambda>x. x\<lparr>coro_state := Running\<rparr>) s1' = Some s''" "sched_ok bottom (s'', Some c)"
    by (rule take_ok [OF take(5) first]) (rule that)
  with take(1,4) show ?case by simp
next
  case (token fresh s c t s')
  obtain co where co: "coroutines s c = Some co" by (rule running_known [OF token(3)]) (rule that)
  obtain t' s'' where "create_token fresh c s = Some (t', s'')" "sched_ok bottom (s'', Some c)"
    by (rule create_token_ok [OF token(3) co token(1)]) (rule that)
  with token(2) show ?case by simp
next
  case (resume t s b s' cur)
  show ?case
  proof (cases "s' = s")
    case False
    then obtain c co where co: "coroutines s c = Some co" "coro_state co = Waiting" "resume_coroutine c s = Some s'"
      using resume by (auto simp: token_resume_def split: option.splits if_splits)
    have "cur \<noteq> Some c" using co resume(2) by (auto simp: sched_ok_def state_of_def)
    moreover have waits: "coro_state co \<in> {Running, Waiting}" using co(2) by simp
    obtain s'' where "resume_coroutine c s = Some s''" "sched_ok bottom (s'', if cur = Some c then None else cur)"
      by (rule resume_ok [OF resume(2) co(1) waits]) (rule that)
    ultimately show ?thesis using co(3) by simp
  qed (use resume in simp)
next
  case (wait c s s')
  obtain co where co: "coroutines s c = Some co" "coro_state co = Running" by (rule running_known [OF wait(2)]) (rule that)
  then have "sched_ok bottom (s\<lparr>coroutines := (coroutines s)(c \<mapsto> co\<lparr>coro_state := Waiting\<rparr>)\<rparr>, None)"
    using sched_ok_set [OF wait(2), of c co "\<lambda>x. x\<lparr>coro_state := Waiting\<rparr>" None] by (auto simp: is_runnable_def)
  with wait(1) co show ?case by (simp add: set_coroutine_def)
next
  case (dispatch c s s')
  then show ?case by (elim dispatch_runs)
next
  case (dispatch_last c s s1 s')
  have ok: "sched_ok bottom (s1, None)"
    by (rule dispatch_runs [OF dispatch_last(4,2)])
  obtain co where "coroutines s1 c = Some co"
    "s' = s1\<lparr>coroutines := (coroutines s1)(c \<mapsto> co\<lparr>coro_state := Done, coro_token := None\<rparr>)\<rparr>"
    by (rule set_coroutine_Some [OF dispatch_last(3)]) (rule that)
  then show ?case using sched_ok_done [OF ok dispatch_last(1)] by simp
next
  case (finish c s s')
  obtain co where co: "coroutines s c = Some co" "coro_state co = Running" by (rule running_known [OF finish(2)]) (rule that)
  then have "sched_ok bottom (s\<lparr>coroutines := (coroutines s)(c \<mapsto> co\<lparr>coro_state := Done, coro_token := None\<rparr>)\<rparr>, None)"
    using sched_ok_set [OF finish(2), of c co "\<lambda>x. x\<lparr>coro_state := Done, coro_token := None\<rparr>" None] by (auto simp: is_runnable_def)
  with finish(1) co show ?case by (simp add: set_coroutine_def)
qed


lemma sched_ok_reached: "(sched_step bottom)\<^sup>*\<^sup>* x y \<Longrightarrow> sched_ok bottom x \<Longrightarrow> sched_ok bottom y"
  by (induction rule: rtranclp_induct) (auto intro: sched_ok_step)

lemma sched_ok_initial: "sched_ok bottom (no_coroutines, None)"
  by (auto simp: sched_ok_def no_coroutines_def ready_list_def queue_ok_def runnable_coros_def state_of_def tokens_ok_def token_of_def)

subsection \<open>Tokens\<close>

text \<open>A token that was made for a coroutine and is no longer its current one.\<close>

definition token_spent :: "addr \<Rightarrow> scheduler \<Rightarrow> bool" where
  "token_spent t s \<longleftrightarrow>
     (\<exists>c. token_target s t = Some c \<and> coroutines s c \<noteq> None \<and> token_of s c \<noteq> Some t)"

lemma token_spent_invalid: "token_spent t s \<Longrightarrow> \<not> token_valid t s"
  by (auto simp: token_spent_def token_valid_def token_of_def split: option.splits)

lemma token_spent_mono:
  assumes "token_spent t s"
    and "\<And>c. token_target s t = Some c \<Longrightarrow> token_target s' t = Some c"
    and "\<And>c. coroutines s c \<noteq> None \<Longrightarrow> coroutines s' c \<noteq> None"
    and "\<And>c. token_of s' c = Some t \<Longrightarrow> token_target s t \<noteq> None \<Longrightarrow> token_of s c = Some t"
  shows "token_spent t s'"
  using assms unfolding token_spent_def by blast

lemma token_spent_set:
  assumes "token_spent t s" and "set_coroutine c upd s = Some s'" and "\<And>co. coro_token (upd co) \<in> {None, coro_token co}"
  shows "token_spent t s'"
proof -
  obtain co where co: "coroutines s c = Some co" "s' = s\<lparr>coroutines := (coroutines s)(c \<mapsto> upd co)\<rparr>"
    using set_coroutine_Some [OF assms(2)] by blast
  show ?thesis
    by (rule token_spent_mono [OF assms(1)])
      (use co assms(3) [of co] in \<open>auto simp: token_of_def split: if_splits\<close>)
qed

lemma token_spent_resume:
  assumes "sched_ok bottom (s, cur)" and "coroutines s c = Some co" "coro_state co \<in> {Running, Waiting}"
    and "resume_coroutine c s = Some s'" and "token_spent t s"
  shows "token_spent t s'"
proof -
  obtain s'' where s'': "resume_coroutine c s = Some s''"
    "\<And>x. token_of s'' x = (if x = c then None else token_of s x)" "token_target s'' = token_target s"
    "\<And>x. coroutines s x \<noteq> None \<Longrightarrow> coroutines s'' x \<noteq> None"
    by (rule resume_ok [OF assms(1-3)]) (rule that)
  then have "s'' = s'" using assms(4) by simp
  with s'' show ?thesis by (intro token_spent_mono [OF assms(5)]) (auto split: if_splits)
qed

lemma token_spent_create:
  assumes "create_token fresh c s = Some (u, s')" and "fresh \<notin> dom (token_target s)" and "token_spent t s"
  shows "token_spent t s'"
proof (cases "Option.bind (coroutines s c) coro_token")
  case None
  then obtain co where "coroutines s c = Some co"
    "s' = s\<lparr>coroutines := (coroutines s)(c \<mapsto> co\<lparr>coro_token := Some fresh\<rparr>), token_target := (token_target s)(fresh \<mapsto> c)\<rparr>"
    using assms(1) by (auto simp: create_token_def set_coroutine_def split: option.splits)
  then show ?thesis using assms(2)
    by (intro token_spent_mono [OF assms(3)]) (auto simp: token_of_def split: if_splits)
next
  case (Some v)
  then have "s' = s" using assms(1) by (cases "coroutines s c") (auto simp: create_token_def)
  then show ?thesis using assms(3) by simp
qed

lemma token_spent_step:
  assumes "sched_step bottom x y" and "sched_ok bottom x" and "token_spent t (fst x)"
  shows "token_spent t (fst y)"
  using assms
proof (induction rule: sched_step.induct)
  case (create s c cur)
  then show ?case
    by (intro token_spent_mono [OF create(3) [simplified]]) (auto simp: token_of_def new_coroutine_def split: if_splits)
next
  case (launch c s s' cur)
  then obtain co where co: "coroutines s c = Some co" "coro_state co = New"
    by (auto simp: start_new_def split: option.splits if_splits)
  obtain s'' where s'': "start_new c s = Some (Inr s'')" "\<And>x. token_of s'' x = token_of s x"
    "token_target s'' = token_target s" "\<And>x. coroutines s x \<noteq> None \<Longrightarrow> coroutines s'' x \<noteq> None"
    by (rule start_new_ok [OF launch(2) co]) (rule that)
  then have "s'' = s'" using launch(1) by simp
  with s'' show ?case by (intro token_spent_mono [OF launch(3)]) auto
next
  case (take s c s1 co s')
  have "token_spent t s1"
    using take(1) by (intro token_spent_mono [OF take(6)])
      (auto simp: dequeue_coroutine_def Let_def token_of_def split: option.splits if_splits)
  then show ?case using token_spent_set [OF _ take(4)] by simp
next
  case (token fresh s c u s')
  then show ?case using token_spent_create by auto
next
  case (resume u s b s' cur)
  show ?case
  proof (cases "s' = s")
    case False
    then obtain c co where co: "coroutines s c = Some co" "coro_state co = Waiting" "resume_coroutine c s = Some s'"
      using resume(1) by (auto simp: token_resume_def split: option.splits if_splits)
    then show ?thesis using token_spent_resume [OF resume(2)] resume(3) by auto
  qed (use resume in simp)
next
  case (wait c s s')
  then show ?case using token_spent_set [OF _ wait(1)] by simp
next
  case (dispatch c s s')
  obtain co where "coroutines s c = Some co" "coro_state co \<in> {Running, Waiting}" "resume_coroutine c s = Some s'"
    by (rule dispatch_runs [OF dispatch(2,1)]) (rule that)
  then show ?case using token_spent_resume [OF dispatch(2)] dispatch(3) by simp
next
  case (dispatch_last c s s1 s')
  obtain co where "coroutines s c = Some co" "coro_state co \<in> {Running, Waiting}" "resume_coroutine c s = Some s1"
    by (rule dispatch_runs [OF dispatch_last(4,2)]) (rule that)
  then have "token_spent t s1" using token_spent_resume [OF dispatch_last(4)] dispatch_last(5) by simp
  then show ?case using token_spent_set [OF _ dispatch_last(3)] by simp
next
  case (finish c s s')
  then show ?case using token_spent_set [OF _ finish(1)] by simp
qed

lemma token_spent_reached:
  assumes "(sched_step bottom)\<^sup>*\<^sup>* x y" and "sched_ok bottom x" and "token_spent t (fst x)"
  shows "token_spent t (fst y)"
  using assms(1)
proof (induction rule: rtranclp_induct)
  case (step y z)
  then show ?case using token_spent_step sched_ok_reached [OF step(1) assms(2)] by blast
qed (rule assms(3))


text \<open>A finished coroutine at the head of the queue fails the assertion of the interpreter.\<close>

lemma done_first_fails:
  assumes "ready_list s (c # q)" and "state_of s c = Some Done"
  shows "run_ready run callbacks s = None"
proof -
  obtain co s' where "coroutines s c = Some co" "dequeue_coroutine s = Some (Some c, s')"
    "coroutines s' = (coroutines s)(c \<mapsto> co\<lparr>coro_next := None\<rparr>)"
    using ready_list_dequeue [OF assms(1)] by auto
  then show ?thesis
    using assms(2) by (subst run_ready.simps) (simp add: is_runnable_def state_of_def)
qed

subsection \<open>Properties\<close>

text \<open>A small run: coroutine 1 is started, makes token 7 and waits for it.\<close>

definition waiting_example :: scheduler where
  "waiting_example = \<lparr>coroutines = [1 \<mapsto> \<lparr>coro_state = Waiting, coro_next = None, coro_token = Some 7\<rparr>],
     token_target = [7 \<mapsto> 1], first_ready = None, last_ready = None\<rparr>"

definition started_example :: scheduler where
  "started_example = \<lparr>coroutines = [1 \<mapsto> \<lparr>coro_state = Started, coro_next = None, coro_token = None\<rparr>],
     token_target = (\<lambda>_. None), first_ready = Some 1, last_ready = Some 1\<rparr>"

definition running_example :: scheduler where
  "running_example = \<lparr>coroutines = [1 \<mapsto> \<lparr>coro_state = Running, coro_next = None, coro_token = None\<rparr>],
     token_target = (\<lambda>_. None), first_ready = None, last_ready = None\<rparr>"

lemma started_reachable: "(sched_step bottom)\<^sup>*\<^sup>* (no_coroutines, None) (started_example, None)"
proof -
  let ?s = "no_coroutines\<lparr>coroutines := (coroutines no_coroutines)(1 \<mapsto> new_coroutine)\<rparr>"
  have "sched_step bottom (no_coroutines, None) (?s, None)" by (rule sched_step.create) (simp add: no_coroutines_def)
  moreover have "sched_step bottom (?s, None) (started_example, None)"
    by (rule sched_step.launch [of 1])
      (simp add: start_new_def set_coroutine_def schedule_coroutine_def is_runnable_def no_coroutines_def
        new_coroutine_def started_example_def)
  ultimately show ?thesis by (meson converse_rtranclp_into_rtranclp rtranclp.rtrancl_refl)
qed

lemma running_reachable: "(sched_step bottom)\<^sup>*\<^sup>* (no_coroutines, None) (running_example, Some 1)"
proof -
  have "sched_step bottom (started_example, None) (running_example, Some 1)"
    by (rule sched_step.take [of _ _ "started_example\<lparr>first_ready := None, last_ready := None\<rparr>"
        "\<lparr>coro_state = Started, coro_next = None, coro_token = None\<rparr>"])
      (simp_all add: is_runnable_def started_example_def running_example_def dequeue_coroutine_def set_coroutine_def Let_def)
  with started_reachable show ?thesis by (rule rtranclp.rtrancl_into_rtrancl)
qed

lemma waiting_reachable: "(sched_step bottom)\<^sup>*\<^sup>* (no_coroutines, None) (waiting_example, None)"
proof -
  let ?s = "running_example\<lparr>coroutines := [1 \<mapsto> \<lparr>coro_state = Running, coro_next = None, coro_token = Some 7\<rparr>],
    token_target := [7 \<mapsto> 1]\<rparr>"
  have "sched_step bottom (running_example, Some 1) (?s, Some 1)"
    by (rule sched_step.token [of 7 _ _ 7]) (simp_all add: running_example_def create_token_def set_coroutine_def)
  moreover have "sched_step bottom (?s, Some 1) (waiting_example, None)"
    by (rule sched_step.wait) (simp add: running_example_def waiting_example_def set_coroutine_def)
  ultimately show ?thesis using running_reachable by (meson rtranclp.rtrancl_into_rtrancl)
qed

text \<open>
  C26: The queue of the scheduler is first in, first out and free of repetitions. In every
  state that can be reached, the links of the coroutines form a list that holds every runnable
  coroutine once; the next coroutine to run is the first of the list; a coroutine that is started,
  moves to the end of the queue with \<open>std.dispatch\<close>, or is resumed by a token joins at the end of
  the list without a failed assertion, and using a token that has no effect leaves the list as it is.
  As long as no coroutine calls \<open>std.dispatch\<close> from its bottom frame, the list holds nothing else,
  so that the coroutine that is taken can be run. If that happens, finished coroutines stay in
  the list, and the assertion that the coroutine can be run fails when one of them is taken.
\<close>

theorem ready_queue_fifo:
  assumes "(sched_step bottom)\<^sup>*\<^sup>* (no_coroutines, None) (s, cur)"
  shows "\<exists>q. ready_list s q \<and> distinct q \<and> runnable_coros s \<subseteq> set q
    \<and> (\<forall>c \<in> set q. c \<in> runnable_coros s \<or> state_of s c = Some Done)
    \<and> (\<not> bottom \<longrightarrow> set q = runnable_coros s)
    \<and> (case q of
         [] \<Rightarrow> dequeue_coroutine s = Some (None, s)
       | c # q' \<Rightarrow> (\<exists>s'. dequeue_coroutine s = Some (Some c, s') \<and> ready_list s' q')
           \<and> (state_of s c = Some Done \<longrightarrow> run_ready run callbacks s = None))
    \<and> (\<forall>c. state_of s c = Some New \<longrightarrow> (\<exists>s'. start_new c s = Some (Inr s') \<and> ready_list s' (q @ [c])))
    \<and> (\<forall>c. cur = Some c \<longrightarrow> (\<exists>s'. dispatch_coroutine c s = Some s' \<and> ready_list s' (q @ [c])))
    \<and> (\<forall>t. \<exists>b s'. token_resume t s = Some (b, s')
         \<and> (if b then \<exists>c. token_target s t = Some c \<and> state_of s c = Some Waiting \<and> ready_list s' (q @ [c]) else s' = s))"
proof -
  have ok: "sched_ok bottom (s, cur)" by (rule sched_ok_reached [OF assms sched_ok_initial])
  obtain q where q: "ready_list s q" "queue_ok bottom s q" by (rule sched_okE [OF ok]) (rule that)
  have "distinct q" using q(1) by (simp add: ready_list_def)
  moreover have "case q of
         [] \<Rightarrow> dequeue_coroutine s = Some (None, s)
       | c # q' \<Rightarrow> (\<exists>s'. dequeue_coroutine s = Some (Some c, s') \<and> ready_list s' q')
           \<and> (state_of s c = Some Done \<longrightarrow> run_ready run callbacks s = None)"
    using ready_list_dequeue [OF q(1)] done_first_fails q(1) by (auto split: list.splits)
  moreover have "runnable_coros s \<subseteq> set q" "\<forall>c \<in> set q. c \<in> runnable_coros s \<or> state_of s c = Some Done"
    "\<not> bottom \<longrightarrow> set q = runnable_coros s"
    using q(2) by (auto simp: queue_ok_def)
  moreover have "\<exists>s'. start_new c s = Some (Inr s') \<and> ready_list s' (q @ [c])" if new: "state_of s c = Some New" for c
  proof -
    obtain co where co: "coroutines s c = Some co" "coro_state co = New" using new by (auto simp: state_of_def)
    show ?thesis by (rule start_new_ok [OF ok co]) (use q in blast)
  qed
  moreover have "\<exists>s'. dispatch_coroutine c s = Some s' \<and> ready_list s' (q @ [c])" if cur: "cur = Some c" for c
  proof -
    obtain co where co: "coroutines s c = Some co" "coro_state co = Running"
      by (rule running_known [OF ok [unfolded cur]]) (rule that)
    then have "coro_state co \<in> {Running, Waiting}" by simp
    from resume_ok [OF ok co(1) this] q obtain s' where "resume_coroutine c s = Some s'" "ready_list s' (q @ [c])" by metis
    then show ?thesis using co by (simp add: dispatch_coroutine_def)
  qed
  moreover have "\<exists>b s'. token_resume t s = Some (b, s')
         \<and> (if b then \<exists>c. token_target s t = Some c \<and> state_of s c = Some Waiting \<and> ready_list s' (q @ [c]) else s' = s)" for t
  proof (cases "token_valid t s \<and> state_of s (the (token_target s t)) = Some Waiting")
    case True
    then obtain c co where co: "token_target s t = Some c" "coroutines s c = Some co" "coro_state co = Waiting"
      by (auto simp: token_valid_def state_of_def split: option.splits)
    then have "coro_state co \<in> {Running, Waiting}" by simp
    from resume_ok [OF ok co(2) this] q obtain s' where "resume_coroutine c s = Some s'" "ready_list s' (q @ [c])" by metis
    then have "token_resume t s = Some (True, s')" using True co by (simp add: token_resume_def)
    then show ?thesis using co \<open>ready_list s' (q @ [c])\<close> by (auto simp: state_of_def)
  next
    case False
    then have "token_resume t s = Some (False, s)"
      by (auto simp: token_resume_def token_valid_def state_of_def split: option.splits)
    then show ?thesis by (intro exI [of _ False]) simp
  qed
  ultimately show ?thesis using q(1) by blast
qed

theorem ready_queue_fifo_witness:
  "\<exists>q. ready_list waiting_example q \<and> set q = runnable_coros waiting_example"
  using ready_queue_fifo [OF waiting_reachable [of False]] by blast

text \<open>
  C27: A token resumes its coroutine at most once. After a token has been used with success,
  whatever happens later, using it again has no effect: the coroutine may wait again, but
  only for a new token.
\<close>

theorem token_single_use:
  assumes "(sched_step bottom)\<^sup>*\<^sup>* (no_coroutines, None) (s, cur)"
    and "token_resume t s = Some (True, s1)"
    and "(sched_step bottom)\<^sup>*\<^sup>* (s1, cur) (s2, cur2)"
  shows "\<not> token_valid t s2 \<and> token_resume t s2 = Some (False, s2)"
proof -
  have ok: "sched_ok bottom (s, cur)" by (rule sched_ok_reached [OF assms(1) sched_ok_initial])
  obtain c co where co: "token_target s t = Some c" "coroutines s c = Some co" "coro_state co = Waiting"
    "resume_coroutine c s = Some s1"
    using assms(2) by (auto simp: token_resume_def split: option.splits if_splits)
  then have waits: "coro_state co \<in> {Running, Waiting}" by simp
  obtain s' where "resume_coroutine c s = Some s'" "token_target s' = token_target s"
    "\<And>x. token_of s' x = (if x = c then None else token_of s x)"
    "\<And>x. coroutines s x \<noteq> None \<Longrightarrow> coroutines s' x \<noteq> None"
    by (rule resume_ok [OF ok co(2) waits]) (rule that)
  then have "token_spent t (fst (s1, cur))" using co by (auto simp: token_spent_def)
  moreover have "sched_ok bottom (s1, cur)" by (rule sched_ok_step [OF sched_step.resume [OF assms(2)] ok])
  ultimately have "token_spent t s2" using token_spent_reached [OF assms(3)] by simp
  then show ?thesis using token_spent_invalid by (auto simp: token_resume_def)
qed

theorem token_single_use_witness:
  "\<exists>s1. token_resume 7 waiting_example = Some (True, s1) \<and> token_resume 7 s1 = Some (False, s1)"
proof -
  obtain s1 where s1: "token_resume 7 waiting_example = Some (True, s1)"
    by (simp add: token_resume_def token_valid_def waiting_example_def resume_coroutine_def set_coroutine_def
        schedule_coroutine_def is_runnable_def)
  show ?thesis
    using token_single_use [OF waiting_reachable s1 rtranclp.rtrancl_refl] s1 by blast
qed

text \<open>
  A coroutine whose only function is \<open>std.dispatch\<close> breaks the scheduler: it is done and still in
  the queue, so that the next turn of the loop fails the assertion that it can be run.
\<close>

lemma dispatch_at_bottom_fails:
  assumes "(sched_step bottom)\<^sup>*\<^sup>* (no_coroutines, None) (s, Some c)" and "ready_list s []"
    and "dispatch_coroutine c s = Some s1"
    and "set_coroutine c (\<lambda>x. x\<lparr>coro_state := Done, coro_token := None\<rparr>) s1 = Some s2"
  shows "ready_list s2 [c] \<and> run_ready run callbacks s2 = None"
proof -
  have ok: "sched_ok bottom (s, Some c)" by (rule sched_ok_reached [OF assms(1) sched_ok_initial])
  obtain co where co: "coroutines s c = Some co" "coro_state co \<in> {Running, Waiting}" "resume_coroutine c s = Some s1"
    by (rule dispatch_runs [OF ok assms(3)]) (rule that)
  have "ready_list s1 [c]"
    using resume_ok [OF ok co(1,2)] co(3) assms(2) by (metis append_Nil option.inject)
  moreover obtain co1 where co1: "coroutines s1 c = Some co1"
    "s2 = s1\<lparr>coroutines := (coroutines s1)(c \<mapsto> co1\<lparr>coro_state := Done, coro_token := None\<rparr>)\<rparr>"
    by (rule set_coroutine_Some [OF assms(4)]) (rule that)
  ultimately have "ready_list s2 [c]" by (auto simp: ready_list_def)
  moreover have "state_of s2 c = Some Done" using co1(2) by simp
  ultimately show ?thesis using done_first_fails by blast
qed

end
