(* ===== verification/ParallelCopy.thy ===== *)
theory ParallelCopy
  imports Instruction
begin

text \<open>
  Sequentialization of parallel copies (src/compiler/bytecode_gen/parallel_copy.cpp): a set of
  register copies that happen at once becomes a list of copies to be executed in order, with
  one spare register to break cycles.

  The two vectors that are used as stacks (\<open>ready\<close> and \<open>todo\<close>) are lists whose head is the
  back of the vector. The hash maps are maps; the invalid register that a lookup
  of a missing key returns is \<open>None\<close>. The register that \<open>alloc_spare\<close> would return is a
  parameter, and the state records whether it has been allocated.
\<close>

subsection \<open>The algorithm\<close>

record register_copy =
  copy_src :: bytecode_register
  copy_dest :: bytecode_register

record copier =
  copy_ready :: "bytecode_register list"
  copy_todo :: "bytecode_register list"
  copy_loc :: "bytecode_register \<rightharpoonup> bytecode_register"
  copy_pred :: "bytecode_register \<rightharpoonup> bytecode_register"
  copies_out :: "register_copy list"
  copy_spare :: "bytecode_register option"

definition copy_of :: "bytecode_register \<Rightarrow> bytecode_register \<Rightarrow> register_copy" where
  "copy_of a b = \<lparr>copy_src = a, copy_dest = b\<rparr>"

definition no_self_copies :: "register_copy list \<Rightarrow> register_copy list" where
  "no_self_copies copies = filter (\<lambda>c. copy_src c \<noteq> copy_dest c) copies"

text \<open>The largest id is the invalid register, which the code asserts not to meet.\<close>

fun valid_register :: "bytecode_register \<Rightarrow> bool" where
  "valid_register (Register i) = (i \<noteq> invalid_value)"

definition enter_copy :: "register_copy \<Rightarrow> copier \<Rightarrow> copier" where
  "enter_copy c st =
     st\<lparr>copy_loc := (copy_loc st)(copy_src c \<mapsto> copy_src c),
        copy_pred := (copy_pred st)(copy_dest c \<mapsto> copy_src c),
        copy_todo := copy_dest c # copy_todo st\<rparr>"

primrec enter_copies :: "register_copy list \<Rightarrow> copier \<Rightarrow> copier option" where
  "enter_copies [] st = Some st"
| "enter_copies (c # copies) st =
     (if \<not> valid_register (copy_src c) then None
      else if \<not> valid_register (copy_dest c) then None
      else enter_copies copies (enter_copy c st))"

definition enter_ready :: "register_copy list \<Rightarrow> copier \<Rightarrow> copier" where
  "enter_ready copies st =
     fold (\<lambda>c st. if copy_loc st (copy_dest c) = None
                  then st\<lparr>copy_ready := copy_dest c # copy_ready st\<rparr> else st) copies st"

text \<open>The inner loop copies into registers that are free.\<close>

partial_function (option) copy_ready_loop :: "copier \<Rightarrow> copier option" where
  "copy_ready_loop st =
     (case copy_ready st of
        [] \<Rightarrow> Some st
      | b # ready \<Rightarrow>
          Option.bind (copy_pred st b) (\<lambda>a.
          Option.bind (copy_loc st a) (\<lambda>c.
            copy_ready_loop
              (st\<lparr>copies_out := copies_out st @ [copy_of c b],
                  copy_loc := (copy_loc st)(a \<mapsto> b),
                  copy_ready := (if a = c \<and> copy_pred st a \<noteq> None then a # ready else ready)\<rparr>))))"

partial_function (option) copy_todo_loop :: "bytecode_register \<Rightarrow> copier \<Rightarrow> copier option" where
  "copy_todo_loop alloc st =
     (case copy_todo st of
        [] \<Rightarrow> Some st
      | _ \<Rightarrow>
          Option.bind (copy_ready_loop st) (\<lambda>st.
          Option.bind (copy_pred st (hd (copy_todo st))) (\<lambda>a.
            let b = hd (copy_todo st); st = st\<lparr>copy_todo := tl (copy_todo st)\<rparr> in
            if copy_loc st a \<noteq> Some b
            then let spare = (case copy_spare st of None \<Rightarrow> alloc | Some s \<Rightarrow> s) in
              copy_todo_loop alloc
                (st\<lparr>copy_spare := Some spare,
                    copies_out := copies_out st @ [copy_of b spare],
                    copy_loc := (copy_loc st)(b \<mapsto> spare),
                    copy_ready := b # copy_ready st\<rparr>)
            else copy_todo_loop alloc st)))"

definition empty_copier :: copier where
  "empty_copier = \<lparr>copy_ready = [], copy_todo = [], copy_loc = (\<lambda>_. None), copy_pred = (\<lambda>_. None),
     copies_out = [], copy_spare = None\<rparr>"

definition sequentialize ::
  "bytecode_register \<Rightarrow> register_copy list \<Rightarrow> (register_copy list \<times> bytecode_register option) option" where
  "sequentialize alloc copies =
     (let copies = no_self_copies copies in
      Option.bind (enter_copies copies empty_copier) (\<lambda>st.
        map_option (\<lambda>st. (copies_out st, copy_spare st)) (copy_todo_loop alloc (enter_ready copies st))))"

subsection \<open>What copies do to the registers\<close>

primrec run_copies :: "register_copy list \<Rightarrow> (bytecode_register \<Rightarrow> 'v) \<Rightarrow> bytecode_register \<Rightarrow> 'v" where
  "run_copies [] v = v"
| "run_copies (c # cs) v = run_copies cs (v(copy_dest c := v (copy_src c)))"

definition copy_at_once :: "register_copy list \<Rightarrow> (bytecode_register \<Rightarrow> 'v) \<Rightarrow> bytecode_register \<Rightarrow> 'v" where
  "copy_at_once copies v r =
     (case map_of (map (\<lambda>c. (copy_dest c, copy_src c)) copies) r of None \<Rightarrow> v r | Some a \<Rightarrow> v a)"

lemma run_copies_append [simp]: "run_copies (cs @ ds) v = run_copies ds (run_copies cs v)"
  by (induction cs arbitrary: v) simp_all

lemma copy_of_simps [simp]: "copy_src (copy_of a b) = a" "copy_dest (copy_of a b) = b"
  "copy_of (copy_src c) (copy_dest c) = c"
  by (simp_all add: copy_of_def)


subsection \<open>The invariant\<close>

text \<open>
  \<open>P\<close> is the predecessor map, \<open>sp\<close> the spare register, \<open>v0\<close> the contents of the registers
  before the copies and \<open>D\<close> the destinations that have been written. A destination that is
  done keeps its final value; what a register \<open>a\<close> had is found at \<open>copy_loc a\<close> as long as
  it is needed; a destination that is not done either is ready or still holds a value that is
  needed.
\<close>

definition pred_ok :: "(bytecode_register \<rightharpoonup> bytecode_register) \<Rightarrow> bytecode_register \<Rightarrow> bool" where
  "pred_ok P sp \<longleftrightarrow> finite (dom P) \<and> (\<forall>b a. P b = Some a \<longrightarrow> a \<noteq> b \<and> a \<noteq> sp \<and> b \<noteq> sp)"

definition values_ok ::
  "(bytecode_register \<rightharpoonup> bytecode_register) \<Rightarrow> bytecode_register \<Rightarrow> (bytecode_register \<Rightarrow> 'v) \<Rightarrow> bytecode_register set
    \<Rightarrow> (bytecode_register \<Rightarrow> 'v) \<Rightarrow> bool" where
  "values_ok P sp v0 D v \<longleftrightarrow> D \<subseteq> dom P
     \<and> (\<forall>b a. b \<in> D \<longrightarrow> P b = Some a \<longrightarrow> v b = v0 a) \<and> (\<forall>r. r \<notin> D \<longrightarrow> r \<noteq> sp \<longrightarrow> v r = v0 r)"

definition loc_ok ::
  "(bytecode_register \<rightharpoonup> bytecode_register) \<Rightarrow> bytecode_register \<Rightarrow> (bytecode_register \<Rightarrow> 'v) \<Rightarrow> bytecode_register set
    \<Rightarrow> (bytecode_register \<Rightarrow> 'v) \<Rightarrow> bytecode_register set \<Rightarrow> bytecode_register \<Rightarrow> bytecode_register \<Rightarrow> bool" where
  "loc_ok P sp v0 D v R a c \<longleftrightarrow>
     c = a \<and> a \<in> ran P \<and> a \<notin> D \<and> (\<forall>b. P b = Some a \<longrightarrow> b \<notin> D)
     \<or> c \<in> D \<and> P c = Some a
     \<or> c = sp \<and> ((\<exists>b. P b = Some a \<and> (b \<notin> D \<or> b \<in> R)) \<longrightarrow> v sp = v0 a)"

definition queues_ok ::
  "(bytecode_register \<rightharpoonup> bytecode_register) \<Rightarrow> bytecode_register set
    \<Rightarrow> (bytecode_register \<rightharpoonup> bytecode_register) \<Rightarrow> bytecode_register set \<Rightarrow> bytecode_register set \<Rightarrow> bool" where
  "queues_ok P D loc R T \<longleftrightarrow> R \<subseteq> dom P \<and> T \<subseteq> dom P \<and> (\<forall>b. b \<in> R \<longrightarrow> loc b \<noteq> Some b)
     \<and> (\<forall>d. d \<in> dom P \<longrightarrow> d \<notin> D \<longrightarrow> d \<in> R \<or> loc d = Some d) \<and> dom P - D \<subseteq> T \<union> R"

definition copier_ok ::
  "(bytecode_register \<rightharpoonup> bytecode_register) \<Rightarrow> bytecode_register \<Rightarrow> (bytecode_register \<Rightarrow> 'v) \<Rightarrow> bytecode_register set \<Rightarrow> copier \<Rightarrow> bool" where
  "copier_ok P sp v0 D st \<longleftrightarrow> copy_pred st = P \<and> copy_spare st \<in> {None, Some sp}
     \<and> (\<forall>b a. P b = Some a \<longrightarrow> copy_loc st a \<noteq> None)
     \<and> values_ok P sp v0 D (run_copies (copies_out st) v0)
     \<and> (\<forall>a c. copy_loc st a = Some c \<longrightarrow> loc_ok P sp v0 D (run_copies (copies_out st) v0) (set (copy_ready st)) a c)
     \<and> queues_ok P D (copy_loc st) (set (copy_ready st)) (set (copy_todo st))"

text \<open>The value that a ready destination needs is where it is looked up.\<close>

lemma loc_ok_value:
  assumes "pred_ok P sp" and "values_ok P sp v0 D v" and "loc_ok P sp v0 D v R a c" and "P b = Some a" and "b \<in> R"
  shows "v c = v0 a"
  using assms unfolding loc_ok_def values_ok_def pred_ok_def by blast

lemma values_ok_write:
  assumes "pred_ok P sp" and "values_ok P sp v0 D v" and "P b = Some a" and "x = v0 a"
  shows "values_ok P sp v0 (insert b D) (v(b := x))"
  using assms by (auto simp: values_ok_def)

lemma loc_ok_write:
  assumes P: "pred_ok P sp" and ok: "loc_ok P sp v0 D v R a' c'"
    and b: "P b = Some a" "a' \<noteq> a" "\<not> (a' = b \<and> c' = b)"
    and R: "R' \<subseteq> insert a R" "a \<in> R' - R \<Longrightarrow> a \<notin> D"
  shows "loc_ok P sp v0 (insert b D) (v(b := x)) R' a' c'"
proof -
  have sp: "b \<noteq> sp" using P b(1) by (auto simp: pred_ok_def)
  show ?thesis
    using ok b R sp unfolding loc_ok_def by auto
qed

lemma copy_step_ok:
  assumes P: "pred_ok P sp" and ok: "copier_ok P sp v0 D st" and ready: "copy_ready st = b # ready"
  obtains a c where "copy_pred st b = Some a" "copy_loc st a = Some c" "P b = Some a"
    "copier_ok P sp v0 (insert b D)
       (st\<lparr>copies_out := copies_out st @ [copy_of c b], copy_loc := (copy_loc st)(a \<mapsto> b),
           copy_ready := (if a = c \<and> copy_pred st a \<noteq> None then a # ready else ready)\<rparr>)"
proof -
  let ?v = "run_copies (copies_out st) v0"
  have pred: "copy_pred st = P" and spare: "copy_spare st \<in> {None, Some sp}"
    and locs: "\<And>b a. P b = Some a \<Longrightarrow> copy_loc st a \<noteq> None"
    and vals: "values_ok P sp v0 D ?v"
    and loc: "\<And>a c. copy_loc st a = Some c \<Longrightarrow> loc_ok P sp v0 D ?v (set (b # ready)) a c"
    and queues: "queues_ok P D (copy_loc st) (set (b # ready)) (set (copy_todo st))"
    using ok ready unfolding copier_ok_def by auto
  obtain a where a: "P b = Some a" using queues by (auto simp: queues_ok_def)
  obtain c where c: "copy_loc st a = Some c" using locs [OF a] by blast
  have ne: "a \<noteq> b" "a \<noteq> sp" "b \<noteq> sp" using P a by (auto simp: pred_ok_def)
  have val: "?v c = v0 a" by (rule loc_ok_value [OF P vals loc [OF c] a]) simp
  let ?ready = "if a = c \<and> P a \<noteq> None then a # ready else ready"
  let ?loc = "(copy_loc st)(a \<mapsto> b)"
  let ?D = "insert b D"
  have fresh: "a \<notin> D" if "c = a"
    using loc [OF c] that ne P by (auto simp: loc_ok_def pred_ok_def)
  have "values_ok P sp v0 ?D (?v(b := ?v c))" by (rule values_ok_write [OF P vals a val])
  moreover have "loc_ok P sp v0 ?D (?v(b := ?v c)) (set ?ready) x y" if "?loc x = Some y" for x y
  proof (cases "x = a")
    case True
    then show ?thesis using that a by (simp add: loc_ok_def)
  next
    case False
    then have "copy_loc st x = Some y" using that by simp
    moreover have "\<not> (x = b \<and> y = b)" using queues calculation by (auto simp: queues_ok_def)
    ultimately show ?thesis
      using False fresh by (intro loc_ok_write [OF P loc a]) (auto split: if_splits)
  qed
  moreover have "queues_ok P ?D ?loc (set ?ready) (set (copy_todo st))"
  proof -
    have "d \<in> set ?ready \<or> ?loc d = Some d" if d: "d \<in> dom P" "d \<notin> ?D" for d
    proof (cases "d = a")
      case True
      then have "d \<in> set ready \<or> c = a" using queues d c ne by (auto simp: queues_ok_def)
      then show ?thesis using d True by auto
    qed (use queues d in \<open>auto simp: queues_ok_def\<close>)
    moreover have "?loc r \<noteq> Some r" if "r \<in> set ?ready" for r
      using that queues ne by (cases "r = a") (auto simp: queues_ok_def split: if_splits)
    ultimately show ?thesis using queues unfolding queues_ok_def by (auto split: if_splits)
  qed
  ultimately have "copier_ok P sp v0 ?D
      (st\<lparr>copies_out := copies_out st @ [copy_of c b], copy_loc := ?loc, copy_ready := ?ready\<rparr>)"
    using pred spare locs by (simp add: copier_ok_def)
  then show thesis using a c pred by (intro that [of a c]) simp_all
qed


text \<open>
  The inner loop ends: a register becomes ready again only when its own value has just been
  moved away.
\<close>

definition unmoved :: "(bytecode_register \<rightharpoonup> bytecode_register) \<Rightarrow> (bytecode_register \<rightharpoonup> bytecode_register) \<Rightarrow> bytecode_register set" where
  "unmoved P loc = {d \<in> dom P. loc d = Some d}"

lemma copy_ready_loop_ok:
  assumes P: "pred_ok P sp" and ok: "copier_ok P sp v0 D st"
  shows "\<exists>st' D'. copy_ready_loop st = Some st' \<and> D \<subseteq> D' \<and> copier_ok P sp v0 D' st' \<and> copy_ready st' = []
    \<and> copy_todo st' = copy_todo st"
  using ok
proof (induction "2 * card (unmoved P (copy_loc st)) + length (copy_ready st)" arbitrary: st D rule: less_induct)
  case less
  show ?case
  proof (cases "copy_ready st")
    case Nil
    then have "copy_ready_loop st = Some st" by (subst copy_ready_loop.simps) simp
    then show ?thesis using less(2) Nil by blast
  next
    case (Cons b ready)
    obtain a c where ac: "copy_pred st b = Some a" "copy_loc st a = Some c" "P b = Some a"
      and ok': "copier_ok P sp v0 (insert b D)
       (st\<lparr>copies_out := copies_out st @ [copy_of c b], copy_loc := (copy_loc st)(a \<mapsto> b),
           copy_ready := (if a = c \<and> copy_pred st a \<noteq> None then a # ready else ready)\<rparr>)"
      by (rule copy_step_ok [OF P less(2) Cons]) (rule that)
    let ?st = "st\<lparr>copies_out := copies_out st @ [copy_of c b], copy_loc := (copy_loc st)(a \<mapsto> b),
           copy_ready := (if a = c \<and> copy_pred st a \<noteq> None then a # ready else ready)\<rparr>"
    have fin: "finite (unmoved P loc)" for loc using P by (auto simp: unmoved_def pred_ok_def)
    have ne: "a \<noteq> b" using P ac(3) by (auto simp: pred_ok_def)
    have sub: "unmoved P ((copy_loc st)(a \<mapsto> b)) \<subseteq> unmoved P (copy_loc st) - {a}" using ne by (auto simp: unmoved_def)
    have pred: "copy_pred st = P" using less(2) by (simp add: copier_ok_def)
    have "2 * card (unmoved P (copy_loc ?st)) + length (copy_ready ?st) < 2 * card (unmoved P (copy_loc st)) + length (copy_ready st)"
    proof (cases "a = c \<and> copy_pred st a \<noteq> None")
      case True
      then have "a \<in> unmoved P (copy_loc st)" using ac(2) pred by (auto simp: unmoved_def)
      then have "card (unmoved P (copy_loc ?st)) < card (unmoved P (copy_loc st))"
        using sub by (intro psubset_card_mono [OF fin]) auto
      then show ?thesis using True Cons by simp
    next
      case False
      have "card (unmoved P (copy_loc ?st)) \<le> card (unmoved P (copy_loc st))"
        using sub by (intro card_mono [OF fin]) auto
      then show ?thesis using False Cons by auto
    qed
    from less(1) [OF this ok'] obtain st' D' where
      "copy_ready_loop ?st = Some st'" "insert b D \<subseteq> D'" "copier_ok P sp v0 D' st'" "copy_ready st' = []"
      "copy_todo st' = copy_todo st"
      by auto
    moreover have "copy_ready_loop st = copy_ready_loop ?st"
      by (subst copy_ready_loop.simps) (simp add: Cons ac(1,2))
    ultimately show ?thesis by auto
  qed
qed

text \<open>When nothing is ready, the destinations that remain form cycles.\<close>

lemma remaining_cycles:
  assumes P: "pred_ok P sp" and ok: "copier_ok P sp v0 D st" and ready: "copy_ready st = []"
    and d: "d \<in> dom P - D"
  shows "\<exists>a. P d = Some a \<and> a \<in> dom P - D"
proof -
  let ?U = "dom P - D" and ?f = "\<lambda>d. the (P d)"
  have fin: "finite ?U" using P by (simp add: pred_ok_def)
  have "?U \<subseteq> ?f ` ?U"
  proof
    fix u assume u: "u \<in> ?U"
    then have "copy_loc st u = Some u" using ok ready by (auto simp: copier_ok_def queues_ok_def)
    then have "loc_ok P sp v0 D (run_copies (copies_out st) v0) {} u u" using ok ready by (auto simp: copier_ok_def)
    then have "u \<in> ran P \<and> (\<forall>b. P b = Some u \<longrightarrow> b \<notin> D)"
      using u P by (auto simp: loc_ok_def pred_ok_def)
    then obtain b where "P b = Some u" "b \<notin> D" by (auto simp: ran_def)
    then show "u \<in> ?f ` ?U" by (intro image_eqI [of _ _ b]) auto
  qed
  moreover have "card (?f ` ?U) \<le> card ?U" by (rule card_image_le [OF fin])
  ultimately have "?f ` ?U = ?U" using fin by (metis card_mono card_subset_eq finite_imageI le_antisym)
  then show ?thesis using d by force
qed

lemma copy_break_ok:
  assumes P: "pred_ok P sp" and ok: "copier_ok P sp v0 D st" and ready: "copy_ready st = []"
    and todo: "copy_todo st = b # todo" and a: "P b = Some a" and s: "s = sp"
  shows "copier_ok P sp v0 D
    (st\<lparr>copy_todo := todo, copy_spare := Some s, copies_out := copies_out st @ [copy_of b s],
        copy_loc := (copy_loc st)(b \<mapsto> s), copy_ready := [b]\<rparr>)" (is "copier_ok _ _ _ _ ?st")
proof -
  let ?v = "run_copies (copies_out st) v0"
  have pred: "copy_pred st = P"
    and locs: "\<And>b a. P b = Some a \<Longrightarrow> copy_loc st a \<noteq> None"
    and vals: "values_ok P sp v0 D ?v"
    and loc: "\<And>a c. copy_loc st a = Some c \<Longrightarrow> loc_ok P sp v0 D ?v {} a c"
    and queues: "queues_ok P D (copy_loc st) {} (set (b # todo))"
    using ok ready todo unfolding copier_ok_def by auto
  have ne: "b \<noteq> a" "b \<noteq> sp" "a \<noteq> sp" using P a by (auto simp: pred_ok_def)
  have here: "copy_loc st d = Some d" if "d \<in> dom P - D" for d
    using that queues by (auto simp: queues_ok_def)
  have home: "copy_loc st x = Some x" if "P d = Some x" "d \<notin> D" for d x
    using remaining_cycles [OF P ok ready, of d] that here by auto
  have alone: "d \<notin> D" if "P d = Some x" "x \<in> dom P - D" for d x
    using loc [OF here [OF that(2)]] that P by (auto simp: loc_ok_def pred_ok_def)
  let ?v' = "?v(sp := ?v b)"
  have "values_ok P sp v0 D ?v'" using vals P by (auto simp: values_ok_def pred_ok_def)
  moreover have "loc_ok P sp v0 D ?v' {b} x y" if xy: "((copy_loc st)(b \<mapsto> sp)) x = Some y" for x y
  proof (cases "x = b")
    case True
    have "?v b = v0 b" if "P d = Some b" "d \<notin> D" for d
    proof -
      have "b \<notin> D" using loc [OF home [OF that]] P a by (auto simp: loc_ok_def pred_ok_def)
      then show ?thesis using vals ne by (simp add: values_ok_def)
    qed
    moreover have "P b \<noteq> Some b" using P by (auto simp: pred_ok_def)
    ultimately show ?thesis using True xy by (auto simp: loc_ok_def)
  next
    case False
    then have x: "copy_loc st x = Some y" using xy by simp
    show ?thesis
    proof (cases "y = sp")
      case True
      have "?v b = v0 x" if "P d = Some x" "d \<notin> D \<or> d = b" for d
      proof (cases "d \<in> D")
        case False
        then have "copy_loc st x = Some x" using home that by blast
        then have "x = sp" using x True by simp
        then show ?thesis using P that by (auto simp: pred_ok_def)
      next
        case True
        then show ?thesis using that vals by (auto simp: values_ok_def)
      qed
      then show ?thesis using True by (auto simp: loc_ok_def)
    next
      case False
      then show ?thesis using loc [OF x] by (auto simp: loc_ok_def)
    qed
  qed
  moreover have "queues_ok P D ((copy_loc st)(b \<mapsto> sp)) {b} (set todo)"
    using queues a ne by (auto simp: queues_ok_def)
  ultimately show ?thesis
    using pred locs by (auto simp: copier_ok_def s)
qed


lemma copy_todo_loop_ok:
  assumes P: "pred_ok P sp" and ok: "copier_ok P sp v0 D st" and empty: "copy_todo st = [] \<Longrightarrow> dom P \<subseteq> D"
  shows "\<exists>st' D'. copy_todo_loop sp st = Some st' \<and> copier_ok P sp v0 D' st' \<and> dom P \<subseteq> D'"
  using ok empty
proof (induction "copy_todo st" arbitrary: st D)
  case Nil
  have "copy_todo_loop sp st = Some st" by (subst copy_todo_loop.simps) (simp add: Nil(1) [symmetric])
  then show ?case using Nil by auto
next
  case (Cons b todo)
  obtain st1 D1 where st1: "copy_ready_loop st = Some st1" "copier_ok P sp v0 D1 st1" "copy_ready st1 = []"
    "copy_todo st1 = b # todo"
    using copy_ready_loop_ok [OF P Cons(3)] Cons(2) by metis
  then obtain a where a: "P b = Some a" by (auto simp: copier_ok_def queues_ok_def)
  then have "copy_loc st1 a \<noteq> None" using st1(2) unfolding copier_ok_def by blast
  then obtain c where c: "copy_loc st1 a = Some c" by blast
  have pred: "copy_pred st1 = P" and queues: "queues_ok P D1 (copy_loc st1) {} (set (b # todo))"
    using st1 by (simp_all add: copier_ok_def)
  have last: "dom P \<subseteq> D1" if "todo = []"
  proof (rule ccontr)
    assume "\<not> dom P \<subseteq> D1"
    then obtain d where d: "d \<in> dom P - D1" by blast
    then obtain a' where "P d = Some a'" "a' \<in> dom P - D1" using remaining_cycles [OF P st1(2,3)] by blast
    then have "d = b" "a' = b" using d queues that by (auto simp: queues_ok_def)
    then show False using \<open>P d = Some a'\<close> P by (auto simp: pred_ok_def)
  qed
  show ?case
  proof (cases "c = b")
    case True
    have "loc_ok P sp v0 D1 (run_copies (copies_out st1) v0) (set (copy_ready st1)) a b"
      using st1(2) c True unfolding copier_ok_def by blast
    then have "b \<in> D1" using a P by (auto simp: loc_ok_def pred_ok_def)
    then have "queues_ok P D1 (copy_loc st1) {} (set todo)" using queues by (auto simp: queues_ok_def)
    then have ok2: "copier_ok P sp v0 D1 (st1\<lparr>copy_todo := todo\<rparr>)" using st1(2,3) by (simp add: copier_ok_def)
    have "copy_todo_loop sp st = copy_todo_loop sp (st1\<lparr>copy_todo := todo\<rparr>)"
      by (subst copy_todo_loop.simps) (simp add: Cons(2) [symmetric] st1 pred a c True Let_def)
    then show ?thesis using Cons(1) [OF _ ok2] last by auto
  next
    case False
    let ?s = "case copy_spare st1 of None \<Rightarrow> sp | Some s \<Rightarrow> s"
    have s: "?s = sp" using st1(2) by (auto simp: copier_ok_def)
    let ?st = "st1\<lparr>copy_todo := todo, copy_spare := Some ?s, copies_out := copies_out st1 @ [copy_of b ?s],
        copy_loc := (copy_loc st1)(b \<mapsto> ?s), copy_ready := [b]\<rparr>"
    have ok2: "copier_ok P sp v0 D1 ?st" by (rule copy_break_ok [OF P st1(2,3,4) a s])
    have "copy_todo_loop sp st = copy_todo_loop sp ?st"
      by (subst copy_todo_loop.simps) (simp add: Cons(2) [symmetric] st1 pred a c False Let_def)
    then show ?thesis using Cons(1) [OF _ ok2] last by auto
  qed
qed

subsection \<open>The initial state\<close>

lemma enter_copies_eq:
  "enter_copies copies st =
     (if \<forall>c \<in> set copies. valid_register (copy_src c) \<and> valid_register (copy_dest c)
      then Some (fold enter_copy copies st) else None)"
  by (induction copies arbitrary: st) auto

lemma enter_copies_fields:
  "copy_ready (fold enter_copy copies st) = copy_ready st \<and> copies_out (fold enter_copy copies st) = copies_out st
   \<and> copy_spare (fold enter_copy copies st) = copy_spare st
   \<and> copy_todo (fold enter_copy copies st) = rev (map copy_dest copies) @ copy_todo st
   \<and> copy_loc (fold enter_copy copies st) = (\<lambda>a. if a \<in> copy_src ` set copies then Some a else copy_loc st a)
   \<and> copy_pred (fold enter_copy copies st) = copy_pred st ++ map_of (rev (map (\<lambda>c. (copy_dest c, copy_src c)) copies))"
proof (induction copies arbitrary: st)
  case (Cons c copies)
  show ?case
    using Cons [of "enter_copy c st"] by (simp add: enter_copy_def map_add_def fun_eq_iff split: option.split)
qed simp

lemma enter_ready_fields:
  "copies_out (enter_ready copies st) = copies_out st \<and> copy_spare (enter_ready copies st) = copy_spare st
   \<and> copy_todo (enter_ready copies st) = copy_todo st \<and> copy_loc (enter_ready copies st) = copy_loc st
   \<and> copy_pred (enter_ready copies st) = copy_pred st
   \<and> set (copy_ready (enter_ready copies st))
     = set (copy_ready st) \<union> {b \<in> copy_dest ` set copies. copy_loc st b = None}"
proof (induction copies arbitrary: st)
  case (Cons c copies)
  show ?case
    unfolding enter_ready_def fold.simps o_apply
    unfolding enter_ready_def [symmetric]
    using Cons [of "if copy_loc st (copy_dest c) = None then st\<lparr>copy_ready := copy_dest c # copy_ready st\<rparr> else st"]
    by auto
qed (simp add: enter_ready_def)

definition pred_map :: "register_copy list \<Rightarrow> bytecode_register \<rightharpoonup> bytecode_register" where
  "pred_map copies = map_of (map (\<lambda>c. (copy_dest c, copy_src c)) copies)"

lemma pred_map_Some:
  assumes "distinct (map copy_dest copies)"
  shows "pred_map copies b = Some a \<longleftrightarrow> copy_of a b \<in> set copies"
proof -
  have pairs: "distinct (map fst (map (\<lambda>c. (copy_dest c, copy_src c)) copies))" using assms by (simp add: o_def)
  show ?thesis unfolding pred_map_def map_of_eq_Some_iff [OF pairs] by (force simp: image_iff)
qed

lemma initial_copier_ok:
  assumes distinct: "distinct (map copy_dest copies)" and noself: "\<And>c. c \<in> set copies \<Longrightarrow> copy_src c \<noteq> copy_dest c"
    and spare: "\<And>c. c \<in> set copies \<Longrightarrow> copy_src c \<noteq> sp \<and> copy_dest c \<noteq> sp"
  shows "pred_ok (pred_map copies) sp"
    and "copier_ok (pred_map copies) sp v0 {} (enter_ready copies (fold enter_copy copies empty_copier))"
proof -
  let ?P = "pred_map copies" and ?st = "enter_ready copies (fold enter_copy copies empty_copier)"
  note some = pred_map_Some [OF distinct]
  have dom: "dom ?P = copy_dest ` set copies" by (simp add: pred_map_def dom_map_of_conv_image_fst image_image)
  have "copy_src c \<in> ran ?P" if "c \<in> set copies" for c
    using that by (intro ranI [of _ "copy_dest c"]) (simp add: some)
  then have ran: "ran ?P = copy_src ` set copies" by (force simp: ran_def some)
  show "pred_ok ?P sp"
    unfolding pred_ok_def using noself spare by (fastforce simp: dom some copy_of_def)
  have same: "map_of (rev (map (\<lambda>c. (copy_dest c, copy_src c)) copies)) = ?P"
    unfolding pred_map_def
    by (subst map_of_inject_set) (use distinct in \<open>simp_all add: rev_map [symmetric] o_def\<close>)
  have fields: "copies_out ?st = []" "copy_spare ?st = None" "set (copy_todo ?st) = dom ?P" "copy_pred ?st = ?P"
    "copy_loc ?st = (\<lambda>a. if a \<in> ran ?P then Some a else None)"
    "set (copy_ready ?st) = {b \<in> dom ?P. b \<notin> ran ?P}"
    using enter_ready_fields [of copies "fold enter_copy copies empty_copier"] enter_copies_fields [of copies empty_copier]
    by (auto simp: empty_copier_def same dom ran)
  have "values_ok ?P sp v0 {} v0" by (simp add: values_ok_def)
  then show "copier_ok ?P sp v0 {} ?st"
    unfolding copier_ok_def fields by (auto simp: loc_ok_def queues_ok_def ranI)
qed


subsection \<open>Properties\<close>

lemma no_self_copies_facts:
  "distinct (map copy_dest copies) \<Longrightarrow> distinct (map copy_dest (no_self_copies copies))"
  "set (no_self_copies copies) = {c \<in> set copies. copy_src c \<noteq> copy_dest c}"
  by (auto simp: no_self_copies_def distinct_map intro: inj_on_subset)

lemma copy_at_once_self:
  assumes "distinct (map copy_dest copies)"
  shows "copy_at_once copies v = copy_at_once (no_self_copies copies) v"
proof
  fix r
  note some = pred_map_Some [OF assms] pred_map_Some [OF no_self_copies_facts(1) [OF assms]]
  have once: "copy_at_once cs v r = (case pred_map cs r of None \<Rightarrow> v r | Some a \<Rightarrow> v a)" for cs
    by (simp add: copy_at_once_def pred_map_def)
  have keep: "pred_map (no_self_copies copies) r = Some a \<longleftrightarrow> pred_map copies r = Some a \<and> a \<noteq> r" for a
    using some by (auto simp: no_self_copies_facts(2))
  show "copy_at_once copies v r = copy_at_once (no_self_copies copies) v r"
  proof (cases "pred_map (no_self_copies copies) r")
    case None
    then have "pred_map copies r = None \<or> pred_map copies r = Some r"
      using keep [of "the (pred_map copies r)"] by (cases "pred_map copies r") auto
    then show ?thesis unfolding once None by (elim disjE) simp_all
  next
    case (Some a)
    then have "pred_map copies r = Some a" using keep [of a] by blast
    then show ?thesis unfolding once Some by simp
  qed
qed

text \<open>
  C28: Sequentialization implements the parallel copies. For copies with distinct destinations
  and a spare register that they do not use, the algorithm ends, its lookups always find a
  register, it asks for at most one spare register, and executing the resulting list in
  order gives every other register exactly the value that copying all
  sources at once gives. The copies have to be of valid registers, apart from copies of a register to
  itself, which are dropped first; otherwise the assertions of the code fail.
\<close>

theorem sequentialize_correct:
  assumes "distinct (map copy_dest copies)"
    and "\<And>c. c \<in> set copies \<Longrightarrow> copy_src c \<noteq> sp \<and> copy_dest c \<noteq> sp"
  shows "if \<exists>c \<in> set copies. copy_src c \<noteq> copy_dest c \<and> \<not> (valid_register (copy_src c) \<and> valid_register (copy_dest c))
    then sequentialize sp copies = None
    else \<exists>out spare. sequentialize sp copies = Some (out, spare) \<and> spare \<in> {None, Some sp}
      \<and> (\<forall>v r. r \<noteq> sp \<longrightarrow> run_copies out v r = copy_at_once copies v r)"
proof -
  let ?cs = "no_self_copies copies"
  let ?P = "pred_map ?cs" and ?st = "enter_ready ?cs (fold enter_copy ?cs empty_copier)"
  have distinct: "distinct (map copy_dest ?cs)" by (rule no_self_copies_facts(1) [OF assms(1)])
  have P: "pred_ok ?P sp" and ok: "\<And>v. copier_ok ?P sp v {} ?st"
    by (rule initial_copier_ok; use assms distinct in \<open>simp add: no_self_copies_facts\<close>)+
  have empty: "dom ?P \<subseteq> {}" if "copy_todo ?st = []"
    using that enter_ready_fields [of ?cs "fold enter_copy ?cs empty_copier"] enter_copies_fields [of ?cs empty_copier]
    by (simp add: pred_map_def)
  have all: "\<exists>st D. copy_todo_loop sp ?st = Some st \<and> copier_ok ?P sp v D st \<and> dom ?P \<subseteq> D" for v
    by (rule copy_todo_loop_ok [OF P ok empty])
  then obtain st where st: "copy_todo_loop sp ?st = Some st" by blast
  have result: "run_copies (copies_out st) v r = copy_at_once copies v r" if r: "r \<noteq> sp" for v r
  proof -
    obtain D where D: "copier_ok ?P sp v D st" "dom ?P \<subseteq> D" using all [of v] st by auto
    then have vals: "values_ok ?P sp v D (run_copies (copies_out st) v)" by (simp add: copier_ok_def)
    have once: "copy_at_once copies v r = (case ?P r of None \<Rightarrow> v r | Some a \<Rightarrow> v a)"
      unfolding copy_at_once_self [OF assms(1)] by (simp add: copy_at_once_def pred_map_def)
    show ?thesis
      using vals D(2) r unfolding once by (cases "?P r") (auto simp: values_ok_def)
  qed
  have spare: "copy_spare st \<in> {None, Some sp}" using all [of "\<lambda>_. ()"] st by (auto simp: copier_ok_def)
  show ?thesis
  proof (cases "\<exists>c \<in> set copies. copy_src c \<noteq> copy_dest c \<and> \<not> (valid_register (copy_src c) \<and> valid_register (copy_dest c))")
    case True
    then have "sequentialize sp copies = None"
      by (auto simp: sequentialize_def Let_def enter_copies_eq no_self_copies_facts(2))
    with True show ?thesis by simp
  next
    case False
    then have "enter_copies ?cs empty_copier = Some (fold enter_copy ?cs empty_copier)"
      by (auto simp: enter_copies_eq no_self_copies_facts(2))
    then have "sequentialize sp copies = Some (copies_out st, copy_spare st)"
      using st by (simp add: sequentialize_def Let_def)
    then show ?thesis using spare unfolding if_not_P [OF False] by (simp add: result)
  qed
qed

theorem sequentialize_correct_witness:
  "\<exists>out spare. sequentialize (Register 9) [copy_of (Register 0) (Register 1), copy_of (Register 1) (Register 0)] = Some (out, spare)
    \<and> run_copies out (\<lambda>r. r) (Register 0) = Register 1 \<and> run_copies out (\<lambda>r. r) (Register 1) = Register 0"
proof -
  let ?cs = "[copy_of (Register 0) (Register 1), copy_of (Register 1) (Register 0)]"
  have use: "distinct (map copy_dest ?cs)" "\<And>c. c \<in> set ?cs \<Longrightarrow> copy_src c \<noteq> Register 9 \<and> copy_dest c \<noteq> Register 9"
    and valid: "\<not> (\<exists>c \<in> set ?cs. copy_src c \<noteq> copy_dest c \<and> \<not> (valid_register (copy_src c) \<and> valid_register (copy_dest c)))"
    by (auto simp: invalid_value_def)
  from sequentialize_correct [OF use, unfolded if_not_P [OF valid]] obtain out spare where
    out: "sequentialize (Register 9) ?cs = Some (out, spare)"
    "\<And>(v :: bytecode_register \<Rightarrow> bytecode_register) r. r \<noteq> Register 9 \<Longrightarrow> run_copies out v r = copy_at_once ?cs v r" by blast
  then show ?thesis by (auto simp: copy_at_once_def)
qed

text \<open>
  Copies of one register to two others, which form no cycle, are sequentialized with a
  spare register and three copies more than needed: when the queue of destinations is
  worked off, a destination that is done is taken for a part of a cycle because the last copy
  of its source went to the other destination.
\<close>

lemma fan_out_takes_spare:
  "sequentialize (Register 9) [copy_of (Register 0) (Register 1), copy_of (Register 0) (Register 2)]
   = Some ([copy_of (Register 0) (Register 2), copy_of (Register 2) (Register 1),
            copy_of (Register 2) (Register 9), copy_of (Register 1) (Register 2),
            copy_of (Register 1) (Register 9)], Some (Register 9))"
  by (simp add: sequentialize_def no_self_copies_def enter_ready_def enter_copy_def empty_copier_def invalid_value_def Let_def
      copy_todo_loop.simps copy_ready_loop.simps)

end
