(* ===== verification/Bitset.thy ===== *)
theory Bitset
  imports Prelude
begin

text \<open>
  Bit sets over blocks of machine words (src/common/adt/bitset.hpp), with the two builtins of
  src/common/bitops.hpp that they use. A view is the list of its blocks and the number of its
  bits; the operations that write return the new blocks. Positions are natural numbers: the
  range checks bound every position by the number of bits, which is below the largest
  \<open>size_t\<close>. The number of bits in a block is a power of two, so shifting by its logarithm
  is division. \<open>npos\<close> is \<open>None\<close> and a failed range check is \<open>None\<close> one level further out.
\<close>

subsection \<open>Operations\<close>

definition find_first_set :: "'b::len word \<Rightarrow> nat" where
  "find_first_set w = (case List.find (bit w) [0..<LENGTH('b)] of None \<Rightarrow> 0 | Some i \<Rightarrow> Suc i)"

definition popcount :: "'b::len word \<Rightarrow> nat" where
  "popcount w = length (filter (bit w) [0..<LENGTH('b)])"

definition bitset_view :: "'b::len word list \<Rightarrow> nat \<Rightarrow> bool" where
  "bitset_view blocks bits \<longleftrightarrow> bits \<le> LENGTH('b) * length blocks"

definition bitset_block_count :: "'b::len itself \<Rightarrow> nat \<Rightarrow> nat" where
  "bitset_block_count _ bits =
     (let blocks = bits div LENGTH('b) in if bits mod LENGTH('b) \<noteq> 0 then blocks + 1 else blocks)"

definition range_fails :: "nat \<Rightarrow> nat \<Rightarrow> nat \<Rightarrow> bool" where
  "range_fails bits start n \<longleftrightarrow> start > bits \<or> n > bits - start"

definition bitset_test :: "'b::len word list \<Rightarrow> nat \<Rightarrow> nat \<Rightarrow> bool option" where
  "bitset_test blocks bits i =
     (if i < bits then Some ((blocks ! (i div LENGTH('b))) AND (push_bit (i mod LENGTH('b)) 1) \<noteq> 0) else None)"

definition bitset_set_bit :: "'b::len word list \<Rightarrow> nat \<Rightarrow> nat \<Rightarrow> 'b word list option" where
  "bitset_set_bit blocks bits i =
     (if i < bits
      then Some (blocks[i div LENGTH('b) := (blocks ! (i div LENGTH('b))) OR push_bit (i mod LENGTH('b)) 1])
      else None)"

definition bitset_clear_bit :: "'b::len word list \<Rightarrow> nat \<Rightarrow> nat \<Rightarrow> 'b word list option" where
  "bitset_clear_bit blocks bits i =
     (if i < bits
      then Some (blocks[i div LENGTH('b) := (blocks ! (i div LENGTH('b))) AND NOT (push_bit (i mod LENGTH('b)) 1)])
      else None)"

definition bitset_set :: "'b::len word list \<Rightarrow> nat \<Rightarrow> nat \<Rightarrow> bool \<Rightarrow> 'b word list option" where
  "bitset_set blocks bits i b = (if b then bitset_set_bit blocks bits i else bitset_clear_bit blocks bits i)"

definition bitset_flip_bit :: "'b::len word list \<Rightarrow> nat \<Rightarrow> nat \<Rightarrow> 'b word list option" where
  "bitset_flip_bit blocks bits i = Option.bind (bitset_test blocks bits i) (\<lambda>b. bitset_set blocks bits i (\<not> b))"

definition bitset_clear :: "'b::len word list \<Rightarrow> nat \<Rightarrow> 'b word list" where
  "bitset_clear blocks bits =
     replicate (bitset_block_count TYPE('b) bits) 0 @ drop (bitset_block_count TYPE('b) bits) blocks"

definition bitset_flip :: "'b::len word list \<Rightarrow> nat \<Rightarrow> 'b word list" where
  "bitset_flip blocks bits =
     map (\<lambda>b. NOT b) (take (bitset_block_count TYPE('b) bits) blocks) @ drop (bitset_block_count TYPE('b) bits) blocks"

function find_set_loop :: "'b::len word list \<Rightarrow> nat \<Rightarrow> nat \<Rightarrow> nat option" where
  "find_set_loop blocks current limit =
     (if current < limit
      then (let s = find_first_set (blocks ! current) in
            if s \<noteq> 0 then Some (current * LENGTH('b) + s - 1) else find_set_loop blocks (current + 1) limit)
      else None)"
  by auto
termination by (relation "measure (\<lambda>(_, current, limit). limit - current)") auto

definition find_set :: "'b::len word list \<Rightarrow> nat \<Rightarrow> nat \<Rightarrow> nat option option" where
  "find_set blocks bits start =
     (if range_fails bits start 0 then None
      else if start \<ge> bits then Some None
      else
        let current = start div LENGTH('b); i = start mod LENGTH('b); limit = bitset_block_count TYPE('b) bits in
        Some (if i \<noteq> 0
              then (let s = find_first_set (drop_bit i (blocks ! current)) in
                    if s \<noteq> 0 then Some (start + s - 1) else find_set_loop blocks (current + 1) limit)
              else find_set_loop blocks current limit))"

definition find_unset :: "'b::len word list \<Rightarrow> nat \<Rightarrow> nat \<Rightarrow> nat option option" where
  "find_unset blocks bits start =
     (if range_fails bits start 0 then None
      else if start \<ge> bits then Some None
      else
        let current = start div LENGTH('b); i = start mod LENGTH('b); limit = bitset_block_count TYPE('b) bits;
            found =
              (if i \<noteq> 0
               then (let s = find_first_set (drop_bit i (NOT (blocks ! current))) in
                     if s \<noteq> 0 then Some (start + s - 1)
                     else find_set_loop (map (\<lambda>b. NOT b) blocks) (current + 1) limit)
               else find_set_loop (map (\<lambda>b. NOT b) blocks) current limit)
        in Some (case found of None \<Rightarrow> None | Some r \<Rightarrow> if r < bits then Some r else None))"

definition mask_front :: "'b::len word \<Rightarrow> nat \<Rightarrow> 'b word" where
  "mask_front b i = push_bit i (drop_bit i b)"

definition mask_back :: "'b::len word \<Rightarrow> nat \<Rightarrow> 'b word" where
  "mask_back b i = drop_bit (LENGTH('b) - i) (push_bit (LENGTH('b) - i) b)"

definition bitset_count :: "'b::len word list \<Rightarrow> nat \<Rightarrow> nat \<Rightarrow> nat \<Rightarrow> nat option" where
  "bitset_count blocks bits start n =
     (if range_fails bits start n then None
      else if start \<ge> bits \<or> n = 0 then Some 0
      else
        let e = start + n; current = start div LENGTH('b); stop = e div LENGTH('b);
            i = start mod LENGTH('b); j = e mod LENGTH('b)
        in if i \<noteq> 0 \<and> stop = current
           then Some (popcount (mask_back (mask_front (blocks ! current) i) j))
           else
             let (result, current) =
               (if i \<noteq> 0 then (popcount (mask_front (blocks ! current) i), current + 1) else (0, current));
               result = result + sum_list (map (\<lambda>k. popcount (blocks ! k)) [current..<stop])
             in Some (if j \<noteq> 0 then result + popcount (mask_back (blocks ! stop) j) else result))"

definition keep_before :: "nat \<Rightarrow> 'b::len word" where
  "keep_before i = push_bit i 1 - 1"

definition keep_after :: "nat \<Rightarrow> 'b::len word" where
  "keep_after i = NOT (push_bit i 1 - 1)"

definition bitset_clear_range :: "'b::len word list \<Rightarrow> nat \<Rightarrow> nat \<Rightarrow> nat \<Rightarrow> 'b word list option" where
  "bitset_clear_range blocks bits start n =
     (if range_fails bits start n then None
      else if start \<ge> bits \<or> n = 0 then Some blocks
      else
        let e = start + n; current = start div LENGTH('b); stop = e div LENGTH('b);
            i = start mod LENGTH('b); j = e mod LENGTH('b)
        in if i \<noteq> 0 \<and> current = stop
           then Some (blocks[current := (blocks ! current) AND (keep_before i OR keep_after j)])
           else
             let (blocks, current) =
               (if i \<noteq> 0 then (blocks[current := (blocks ! current) AND keep_before i], current + 1)
                else (blocks, current));
               blocks = fold (\<lambda>k blocks. blocks[k := 0]) [current..<stop] blocks
             in Some (if j \<noteq> 0 then blocks[stop := (blocks ! stop) AND keep_after j] else blocks))"

subsection \<open>The set of bits\<close>

definition bit_at :: "'b::len word list \<Rightarrow> nat \<Rightarrow> bool" where
  "bit_at blocks i = bit (blocks ! (i div LENGTH('b))) (i mod LENGTH('b))"

text \<open>The bits of the stop block that do not belong to the set are clear.\<close>

definition tail_clear :: "'b::len word list \<Rightarrow> nat \<Rightarrow> bool" where
  "tail_clear blocks bits \<longleftrightarrow> (\<forall>i. bits \<le> i \<and> i < LENGTH('b) * bitset_block_count TYPE('b) bits \<longrightarrow> \<not> bit_at blocks i)"

lemma tail_clear_list [code]:
  fixes blocks :: "'b::len word list"
  shows "tail_clear blocks bits \<longleftrightarrow> list_all (\<lambda>i. \<not> bit_at blocks i) [bits..<LENGTH('b) * bitset_block_count TYPE('b) bits]"
  by (auto simp: tail_clear_def list_all_iff)

lemma test_bit_at [simp]: "i < bits \<Longrightarrow> bitset_test blocks bits i = Some (bit_at blocks i)"
  by (simp add: bitset_test_def bit_at_def push_bit_of_1 and_exp_eq_0_iff_not_bit)

lemma block_lt: "bitset_view blocks bits \<Longrightarrow> i < bits \<Longrightarrow> i div LENGTH('b::len) < length (blocks :: 'b word list)"
  by (simp add: bitset_view_def less_mult_imp_div_less mult.commute)

lemma same_bit: "i div n = j div n \<Longrightarrow> i mod n = j mod n \<Longrightarrow> i = (j::nat)"
  by (metis div_mult_mod_eq)

lemma set_bit_at:
  fixes blocks :: "'b::len word list"
  assumes "bitset_view blocks bits" and "i < bits"
  obtains blocks' where "bitset_set_bit blocks bits i = Some blocks'" "length blocks' = length blocks"
    "\<And>j. bit_at blocks' j \<longleftrightarrow> j = i \<or> bit_at blocks j"
proof -
  let ?L = "LENGTH('b)"
  let ?b' = "blocks[i div ?L := (blocks ! (i div ?L)) OR push_bit (i mod ?L) 1]"
  have "bit_at ?b' j \<longleftrightarrow> j = i \<or> bit_at blocks j" for j
  proof (cases "j div ?L = i div ?L")
    case True
    then show ?thesis
      using block_lt [OF assms] same_bit [of j ?L i]
      by (auto simp: bit_at_def bit_simps)
  qed (auto simp: bit_at_def)
  then show thesis using assms by (intro that [of ?b']) (simp_all add: bitset_set_bit_def)
qed

lemma clear_bit_at:
  fixes blocks :: "'b::len word list"
  assumes "bitset_view blocks bits" and "i < bits"
  obtains blocks' where "bitset_clear_bit blocks bits i = Some blocks'" "length blocks' = length blocks"
    "\<And>j. bit_at blocks' j \<longleftrightarrow> j \<noteq> i \<and> bit_at blocks j"
proof -
  let ?L = "LENGTH('b)"
  let ?b' = "blocks[i div ?L := (blocks ! (i div ?L)) AND NOT (push_bit (i mod ?L) 1)]"
  have "bit_at ?b' j \<longleftrightarrow> j \<noteq> i \<and> bit_at blocks j" for j
  proof (cases "j div ?L = i div ?L")
    case True
    then show ?thesis
      using block_lt [OF assms] same_bit [of j ?L i]
      by (auto simp: bit_at_def bit_simps)
  qed (auto simp: bit_at_def)
  then show thesis using assms by (intro that [of ?b']) (simp_all add: bitset_clear_bit_def)
qed


subsection \<open>Search\<close>

lemma find_over_append: "List.find P (xs @ ys) = (case List.find P xs of None \<Rightarrow> List.find P ys | Some x \<Rightarrow> Some x)"
  by (induction xs) auto

lemma find_map: "List.find P (map f xs) = map_option f (List.find (P \<circ> f) xs)"
  by (induction xs) auto

lemma find_none: "(\<And>x. x \<in> set xs \<Longrightarrow> \<not> P x) \<Longrightarrow> List.find P xs = None"
  by (induction xs) auto

lemma find_upt_split: "a \<le> b \<Longrightarrow> b \<le> c \<Longrightarrow>
  List.find P [a..<c] = (case List.find P [a..<b] of None \<Rightarrow> List.find P [b..<c] | Some x \<Rightarrow> Some x)"
  using find_over_append [of P "[a..<b]" "[b..<c]"] by (metis upt_add_eq_append le_add_diff_inverse)

lemma find_upt_shift: "List.find P [a..<a + n] = map_option ((+) a) (List.find (\<lambda>k. P (a + k)) [0..<n])"
proof -
  have "[a..<a + n] = map ((+) a) [0..<n]" by (rule nth_equalityI) simp_all
  then show ?thesis by (simp add: find_map o_def)
qed

text \<open>The rest of the current block.\<close>

lemma find_in_block:
  fixes blocks :: "'b::len word list"
  assumes i: "i = start mod LENGTH('b)" and c: "current = start div LENGTH('b)"
  shows "List.find (bit_at blocks) [start..<(current + 1) * LENGTH('b)]
    = (let s = find_first_set (drop_bit i (blocks ! current)) in if s \<noteq> 0 then Some (start + s - 1) else None)"
proof -
  let ?L = "LENGTH('b)" and ?w = "drop_bit i (blocks ! current)"
  have lt: "i < ?L" by (simp add: i)
  have start: "start = current * ?L + i" by (simp add: i c)
  have range: "[start..<(current + 1) * ?L] = [start..<start + (?L - i)]" using lt by (simp add: start add.commute)
  have at: "bit_at blocks (start + k) = bit ?w k" if "k < ?L - i" for k
  proof -
    have "(start + k) div ?L = current" "(start + k) mod ?L = i + k" using that by (simp_all add: start add.assoc)
    then show ?thesis by (simp add: bit_at_def bit_drop_bit_eq)
  qed
  have "List.find (bit ?w) [0..<?L] = List.find (bit ?w) [0..<?L - i]"
  proof -
    have "List.find (bit ?w) [?L - i..<?L] = None"
      by (rule find_none) (use bit_imp_le_length in \<open>force simp: bit_drop_bit_eq\<close>)
    then show ?thesis using find_upt_split [of 0 "?L - i" ?L "bit ?w"] by (auto split: option.splits)
  qed
  also have "\<dots> = List.find (\<lambda>k. bit_at blocks (start + k)) [0..<?L - i]"
    by (rule find_cong) (simp_all add: at)
  finally show ?thesis
    unfolding range find_upt_shift
    by (auto simp: find_first_set_def Let_def split: option.split)
qed

lemma find_set_loop_eq:
  fixes blocks :: "'b::len word list"
  shows "find_set_loop blocks current limit = List.find (bit_at blocks) [current * LENGTH('b)..<limit * LENGTH('b)]"
proof (induction blocks current limit rule: find_set_loop.induct)
  case (1 blocks current limit)
  show ?case
  proof (cases "current < limit")
    case True
    have here: "List.find (bit_at blocks) [current * LENGTH('b)..<(current + 1) * LENGTH('b)]
      = (let s = find_first_set (blocks ! current) in if s \<noteq> 0 then Some (current * LENGTH('b) + s - 1) else None)"
      using find_in_block [of 0 "current * LENGTH('b)" current blocks] by simp
    have "(current + 1) * LENGTH('b) \<le> limit * LENGTH('b)" using True by (intro mult_le_mono1) simp
    then have split: "List.find (bit_at blocks) [current * LENGTH('b)..<limit * LENGTH('b)]
      = (case List.find (bit_at blocks) [current * LENGTH('b)..<(current + 1) * LENGTH('b)] of
           None \<Rightarrow> List.find (bit_at blocks) [(current + 1) * LENGTH('b)..<limit * LENGTH('b)] | Some x \<Rightarrow> Some x)"
      by (intro find_upt_split) simp_all
    show ?thesis
      unfolding split here using True 1
      by (subst find_set_loop.simps) (simp add: Let_def)
  next
    case False
    then show ?thesis by (subst find_set_loop.simps) (simp add: mult_le_mono1)
  qed
qed

declare find_set_loop.simps [simp del]

lemma block_count_bounds:
  "bits \<le> LENGTH('b::len) * bitset_block_count TYPE('b) bits"
  "i < bits \<Longrightarrow> i div LENGTH('b) < bitset_block_count TYPE('b) bits"
proof -
  have "bits \<le> LENGTH('b) * (bits div LENGTH('b)) + LENGTH('b)"
    using mod_less_divisor [OF len_gt_0 [where 'a = 'b], of bits] mult_div_mod_eq [of "LENGTH('b)" bits] by linarith
  moreover have "bits = LENGTH('b) * (bits div LENGTH('b))" if "bits mod LENGTH('b) = 0"
    using that mult_div_mod_eq [of "LENGTH('b)" bits] by linarith
  ultimately show le: "bits \<le> LENGTH('b) * bitset_block_count TYPE('b) bits"
    by (cases "bits mod LENGTH('b) = 0") (simp_all add: bitset_block_count_def Let_def)
  show "i div LENGTH('b) < bitset_block_count TYPE('b) bits" if "i < bits"
    using le that by (metis less_mult_imp_div_less mult.commute order.strict_trans2)
qed

lemma find_set_raw:
  fixes blocks :: "'b::len word list"
  assumes "start < bits"
  shows "find_set blocks bits start
    = Some (List.find (bit_at blocks) [start..<LENGTH('b) * bitset_block_count TYPE('b) bits])"
proof -
  let ?L = "LENGTH('b)" and ?n = "bitset_block_count TYPE('b) bits"
  have lt: "start div ?L < ?n" by (rule block_count_bounds(2) [OF assms])
  show ?thesis
  proof (cases "start mod ?L = 0")
    case True
    then have "start div ?L * ?L = start" by (metis add_0_right div_mult_mod_eq)
    then show ?thesis using assms True
      by (simp add: find_set_def range_fails_def find_set_loop_eq mult.commute [of _ ?L] Let_def)
  next
    case False
    have "(start div ?L + 1) * ?L \<le> ?n * ?L" using lt by (intro mult_le_mono1) simp
    moreover have "start \<le> (start div ?L + 1) * ?L"
      by (metis Suc_eq_plus1 dividend_less_div_times len_gt_0 less_imp_le mult.commute mult_Suc_right add.commute)
    ultimately have split: "List.find (bit_at blocks) [start..<?n * ?L]
      = (case List.find (bit_at blocks) [start..<(start div ?L + 1) * ?L] of
           None \<Rightarrow> List.find (bit_at blocks) [(start div ?L + 1) * ?L..<?n * ?L] | Some x \<Rightarrow> Some x)"
      by (intro find_upt_split)
    show ?thesis
      unfolding mult.commute [of ?L] split find_in_block [OF refl refl]
      using assms False by (simp add: find_set_def range_fails_def find_set_loop_eq Let_def)
  qed
qed


lemma find_set_exact:
  fixes blocks :: "'b::len word list"
  assumes "start \<le> bits" and "tail_clear blocks bits"
  shows "find_set blocks bits start = Some (List.find (bit_at blocks) [start..<bits])"
proof (cases "start < bits")
  case True
  let ?n = "LENGTH('b) * bitset_block_count TYPE('b) bits"
  have le: "bits \<le> ?n" by (rule block_count_bounds(1))
  have "List.find (bit_at blocks) [bits..<?n] = None"
    by (rule find_none) (use assms(2) in \<open>auto simp: tail_clear_def\<close>)
  then have "List.find (bit_at blocks) [start..<?n] = List.find (bit_at blocks) [start..<bits]"
    using find_upt_split [of start bits ?n "bit_at blocks"] True le by (auto split: option.splits)
  with find_set_raw [OF True, of blocks] show ?thesis by simp
qed (use assms in \<open>simp add: find_set_def range_fails_def\<close>)

lemma bit_at_not:
  fixes blocks :: "'b::len word list"
  shows "i div LENGTH('b) < length blocks \<Longrightarrow> bit_at (map (\<lambda>b. NOT b) blocks) i \<longleftrightarrow> \<not> bit_at blocks i"
  by (simp add: bit_at_def bit_not_iff)

lemma find_cut:
  assumes "b \<le> c"
  shows "(case List.find P [a..<c] of None \<Rightarrow> None | Some r \<Rightarrow> if r < b then Some r else None) = List.find P [a..<b]"
proof (cases "a \<le> b")
  case True
  have "b \<le> x" if "List.find P [b..<c] = Some x" for x
    using that by (auto simp: find_Some_iff)
  moreover have "x < b" if "List.find P [a..<b] = Some x" for x
    using that by (auto simp: find_Some_iff)
  ultimately show ?thesis
    using find_upt_split [OF True assms, of P] by (auto split: option.split)
next
  case False
  have "a \<le> x" if "List.find P [a..<c] = Some x" for x
    using that by (auto simp: find_Some_iff)
  then show ?thesis using False by (fastforce split: option.split)
qed

lemma find_unset_exact:
  fixes blocks :: "'b::len word list"
  assumes "start \<le> bits" and view: "bitset_view blocks bits"
  shows "find_unset blocks bits start = Some (List.find (\<lambda>i. \<not> bit_at blocks i) [start..<bits])"
proof (cases "start < bits")
  case True
  let ?not = "map (\<lambda>b. NOT b) blocks" and ?L = "LENGTH('b)"
  let ?n = "LENGTH('b) * bitset_block_count TYPE('b) bits"
  have le: "bits \<le> ?n" by (rule block_count_bounds(1))
  have "find_set ?not bits start = Some (List.find (bit_at ?not) [start..<?n])" by (rule find_set_raw [OF True])
  moreover have "find_unset blocks bits start
    = map_option (\<lambda>r. case r of None \<Rightarrow> None | Some r \<Rightarrow> if r < bits then Some r else None) (find_set ?not bits start)"
    using True block_lt [OF view True]
    by (simp add: find_unset_def find_set_def range_fails_def Let_def)
  moreover have "List.find (bit_at ?not) [start..<bits] = List.find (\<lambda>i. \<not> bit_at blocks i) [start..<bits]"
    by (rule find_cong) (use block_lt [OF view] in \<open>simp_all add: bit_at_not\<close>)
  ultimately show ?thesis by (simp add: find_cut [OF le])
qed (use assms in \<open>simp add: find_unset_def range_fails_def\<close>)

subsection \<open>Ranges\<close>

lemma popcount_block:
  fixes blocks :: "'b::len word list"
  shows "popcount (blocks ! k) = length (filter (bit_at blocks) [k * LENGTH('b)..<(k + 1) * LENGTH('b)])"
proof -
  have "[k * LENGTH('b)..<(k + 1) * LENGTH('b)] = map ((+) (k * LENGTH('b))) [0..<LENGTH('b)]"
    by (rule nth_equalityI) simp_all
  moreover have "bit_at blocks (k * LENGTH('b) + m) = bit (blocks ! k) m" if "m < LENGTH('b)" for m
    using that by (simp add: bit_at_def)
  then have "filter (\<lambda>m. bit_at blocks (k * LENGTH('b) + m)) [0..<LENGTH('b)] = filter (bit (blocks ! k)) [0..<LENGTH('b)]"
    by (intro filter_cong) simp_all
  ultimately show ?thesis by (simp add: popcount_def filter_map o_def)
qed

lemma bit_mask_front [simp]: "bit (mask_front b i) n \<longleftrightarrow> i \<le> n \<and> bit b n" for b :: "'b::len word"
  by (auto simp: mask_front_def bit_simps dest: bit_imp_le_length)

lemma bit_mask_back [simp]: "0 < i \<Longrightarrow> bit (mask_back b i) n \<longleftrightarrow> n < i \<and> bit b n" for b :: "'b::len word"
  by (auto simp: mask_back_def bit_simps dest: bit_imp_le_length)

lemma bit_keep_before [simp]:
  "i < LENGTH('b::len) \<Longrightarrow> bit (keep_before i :: 'b word) n \<longleftrightarrow> n < i"
  by (auto simp: keep_before_def push_bit_of_1 bit_mask_iff mask_eq_exp_minus_1 [symmetric])

lemma bit_keep_after [simp]:
  "i < LENGTH('b::len) \<Longrightarrow> bit (keep_after i :: 'b word) n \<longleftrightarrow> i \<le> n \<and> n < LENGTH('b)"
  by (auto simp: keep_after_def push_bit_of_1 bit_simps mask_eq_exp_minus_1 [symmetric])


lemma le_by_blocks: "0 < n \<Longrightarrow> (a::nat) \<le> p \<longleftrightarrow> a div n < p div n \<or> a div n = p div n \<and> a mod n \<le> p mod n"
proof -
  assume n: "0 < n"
  have "a \<le> p" if "a div n < p div n"
    using that by (metis div_le_mono leD le_cases)
  moreover have "a div n \<le> p div n" if "a \<le> p" using that by (rule div_le_mono)
  moreover have "a \<le> p \<longleftrightarrow> a mod n \<le> p mod n" if "a div n = p div n"
    using that mult_div_mod_eq [of n a] mult_div_mod_eq [of n p] by (metis nat_add_left_cancel_le)
  ultimately show ?thesis by (metis le_neq_implies_less)
qed

lemma less_by_blocks:
  assumes "0 < n"
  shows "(p::nat) < a \<longleftrightarrow> p div n < a div n \<or> p div n = a div n \<and> p mod n < a mod n"
proof -
  have "p < a \<longleftrightarrow> \<not> a \<le> p" by linarith
  also have "\<dots> \<longleftrightarrow> p div n < a div n \<or> p div n = a div n \<and> p mod n < a mod n"
    unfolding le_by_blocks [OF assms, of a p] by linarith
  finally show ?thesis .
qed

lemma outside_range_iff:
  fixes c s i j x y :: nat
  assumes "c \<le> s" and "i \<noteq> 0 \<Longrightarrow> c \<noteq> s"
  shows "((b \<and> (x = c \<longrightarrow> i \<noteq> 0 \<longrightarrow> y < i)) \<and> \<not> ((if i \<noteq> 0 then c + 1 else c) \<le> x \<and> x < s))
      \<and> (x = s \<longrightarrow> j \<noteq> 0 \<longrightarrow> j \<le> y)
    \<longleftrightarrow> b \<and> \<not> ((c < x \<or> c = x \<and> i \<le> y) \<and> (x < s \<or> x = s \<and> y < j))"
proof (cases b)
  case True
  then show ?thesis using assms by (cases "i = 0"; simp; presburger)
qed simp

lemma outside_part_iff:
  fixes c s i j x y :: nat
  assumes "c = s" and "y < l"
  shows "b \<and> (x = c \<longrightarrow> y < i \<or> j \<le> y \<and> y < l) \<longleftrightarrow> b \<and> \<not> ((c < x \<or> c = x \<and> i \<le> y) \<and> (x < s \<or> x = s \<and> y < j))"
  using assms by (cases b) (auto simp: not_less)

lemma bit_at_and:
  fixes blocks :: "'b::len word list"
  assumes "k < length blocks"
  shows "bit_at (blocks[k := (blocks ! k) AND m]) p \<longleftrightarrow> bit_at blocks p \<and> (p div LENGTH('b) = k \<longrightarrow> bit m (p mod LENGTH('b)))"
  using assms by (auto simp: bit_at_def bit_and_iff nth_list_update)

lemma bit_at_zeroed:
  fixes blocks :: "'b::len word list"
  assumes "b \<le> length blocks"
  shows "bit_at (fold (\<lambda>k blocks. blocks[k := 0]) [a..<b] blocks) p \<longleftrightarrow> bit_at blocks p \<and> \<not> (a \<le> p div LENGTH('b) \<and> p div LENGTH('b) < b)
    \<and> length (fold (\<lambda>k blocks. blocks[k := 0]) [a..<b] blocks) = length blocks"
  using assms
proof (induction "b - a" arbitrary: a blocks)
  case (Suc d)
  then have "[a..<b] = a # [Suc a..<b]" by (simp add: upt_conv_Cons)
  moreover have "a < length blocks" using Suc by simp
  ultimately show ?case
    using Suc(1) [of "Suc a" "blocks[a := 0]"] Suc(2,3) by (auto simp: bit_at_def nth_list_update)
qed simp

lemma length_zeroed [simp]: "length (fold (\<lambda>k blocks. blocks[k := x]) ks blocks) = length blocks"
  by (induction ks arbitrary: blocks) simp_all

lemma clear_range_at:
  fixes blocks :: "'b::len word list"
  assumes view: "bitset_view blocks bits" and range: "start + n \<le> bits"
  obtains blocks' where "bitset_clear_range blocks bits start n = Some blocks'" "length blocks' = length blocks"
    "\<And>p. bit_at blocks' p \<longleftrightarrow> bit_at blocks p \<and> \<not> (start \<le> p \<and> p < start + n)"
proof (cases "start \<ge> bits \<or> n = 0")
  case True
  then show thesis using range by (intro that [of blocks]) (auto simp: bitset_clear_range_def range_fails_def)
next
  case False
  let ?L = "LENGTH('b)"
  let ?c = "start div ?L" and ?i = "start mod ?L" and ?s = "(start + n) div ?L" and ?j = "(start + n) mod ?L"
  have bound: "bits \<le> ?L * length blocks" using view by (simp add: bitset_view_def)
  have lt: "?c < length blocks" using block_lt [OF view] False by simp
  have stop: "?s \<le> length blocks"
    using range bound div_le_mono [of "start + n" "?L * length blocks" ?L] by simp
  have stop': "?s < length blocks" if "?j \<noteq> 0"
  proof (rule ccontr)
    assume "\<not> ?s < length blocks"
    then have "?L * length blocks \<le> ?L * ?s" by simp
    then show False using that range bound mult_div_mod_eq [of ?L "start + n"] by linarith
  qed
  have cs: "?c \<le> ?s" by (rule div_le_mono) simp
  note order = le_by_blocks [OF len_gt_0 [where 'a = 'b], of start] less_by_blocks [OF len_gt_0 [where 'a = 'b], of _ "start + n"]
  have lts: "?i < ?L" "?j < ?L" "\<And>p. p mod ?L < ?L" by simp_all
  show thesis
  proof (cases "?i \<noteq> 0 \<and> ?c = ?s")
    case True
    let ?b = "blocks[?c := (blocks ! ?c) AND (keep_before ?i OR keep_after ?j)]"
    have "bitset_clear_range blocks bits start n = Some ?b"
      using False range True by (simp add: bitset_clear_range_def range_fails_def Let_def)
    moreover have "bit_at ?b p \<longleftrightarrow> bit_at blocks p \<and> \<not> (start \<le> p \<and> p < start + n)" for p
      unfolding bit_at_and [OF lt] order bit_or_iff bit_keep_before [OF lts(1)] bit_keep_after [OF lts(2)]
      by (rule outside_part_iff) (use True in simp_all)
    ultimately show thesis by (intro that [of ?b]) simp_all
  next
    case other: False
    let ?b1 = "if ?i \<noteq> 0 then blocks[?c := (blocks ! ?c) AND keep_before ?i] else blocks"
    let ?c1 = "if ?i \<noteq> 0 then ?c + 1 else ?c"
    let ?b2 = "fold (\<lambda>k blocks. blocks[k := 0]) [?c1..<?s] ?b1"
    let ?b3 = "if ?j \<noteq> 0 then ?b2[?s := (?b2 ! ?s) AND keep_after ?j] else ?b2"
    have run: "bitset_clear_range blocks bits start n = Some ?b3"
      using False range other by (cases "?i = 0"; cases "?j = 0") (simp_all add: bitset_clear_range_def range_fails_def Let_def)
    have len: "length ?b1 = length blocks" by simp
    have one: "bit_at ?b1 p \<longleftrightarrow> bit_at blocks p \<and> (p div ?L = ?c \<longrightarrow> ?i \<noteq> 0 \<longrightarrow> p mod ?L < ?i)" for p
      using bit_at_and [OF lt, of "keep_before ?i" p] lts by auto
    have two: "bit_at ?b2 p \<longleftrightarrow> bit_at ?b1 p \<and> \<not> (?c1 \<le> p div ?L \<and> p div ?L < ?s)" for p
      using bit_at_zeroed [of ?s ?b1 ?c1 p] stop len by simp
    have three: "bit_at ?b3 p \<longleftrightarrow> bit_at ?b2 p \<and> (p div ?L = ?s \<longrightarrow> ?j \<noteq> 0 \<longrightarrow> ?j \<le> p mod ?L)" for p
      using bit_at_and [of ?s ?b2 "keep_after ?j" p] stop' len lts by auto
    have "bit_at ?b3 p \<longleftrightarrow> bit_at blocks p \<and> \<not> (start \<le> p \<and> p < start + n)" for p
      unfolding three two one order by (rule outside_range_iff [OF cs]) (use other in blast)
    then show thesis using run len by (intro that [of ?b3]) simp_all
  qed
qed


lemma filter_upt_split: "a \<le> b \<Longrightarrow> b \<le> c \<Longrightarrow>
  length (filter P [a..<c]) = length (filter P [a..<b]) + length (filter P [b..<c])"
  using upt_add_eq_append [of a b "c - b"] by simp

lemma filter_upt_split3:
  assumes "a \<le> b" and "b \<le> c" and "c \<le> d"
  shows "length (filter P [a..<d]) = length (filter P [a..<b]) + length (filter P [b..<c]) + length (filter P [c..<d])"
  using filter_upt_split [of a b d P] filter_upt_split [of b c d P] assms by simp

lemma popcount_part:
  fixes blocks :: "'b::len word list" and w :: "'b word"
  assumes w: "\<And>k. bit w k \<longleftrightarrow> a \<le> k \<and> k < b \<and> bit (blocks ! c) k" and "a \<le> b" and "b \<le> LENGTH('b)"
  shows "popcount w = length (filter (bit_at blocks) [c * LENGTH('b) + a..<c * LENGTH('b) + b])"
proof -
  let ?L = "LENGTH('b)"
  have at: "bit_at blocks (c * ?L + k) = bit w k" if "a \<le> k" "k < b" for k
    using that assms by (simp add: bit_at_def)
  have none: "filter (bit w) [0..<a] = []" "filter (bit w) [b..<?L] = []" using w by (auto simp: filter_empty_conv)
  have "popcount w = length (filter (bit w) [a..<b])"
    unfolding popcount_def using filter_upt_split [of 0 a ?L "bit w"] filter_upt_split [of a b ?L "bit w"] assms none by simp
  also have "\<dots> = length (filter (\<lambda>k. bit_at blocks (c * ?L + k)) [a..<b])"
    by (rule arg_cong [where f = length], rule filter_cong) (simp_all add: at)
  also have "\<dots> = length (filter (bit_at blocks) (map ((+) (c * ?L)) [a..<b]))" by (simp add: filter_map o_def)
  also have "map ((+) (c * ?L)) [a..<b] = [c * ?L + a..<c * ?L + b]" by (rule nth_equalityI) simp_all
  finally show ?thesis .
qed

lemma popcount_blocks:
  fixes blocks :: "'b::len word list"
  assumes "c \<le> s"
  shows "sum_list (map (\<lambda>k. popcount (blocks ! k)) [c..<s]) = length (filter (bit_at blocks) [c * LENGTH('b)..<s * LENGTH('b)])"
  using assms
proof (induction rule: dec_induct)
  case (step s)
  have "c * LENGTH('b) \<le> s * LENGTH('b)" using step by (intro mult_le_mono1) simp
  then show ?case
    using step popcount_block [of blocks s] filter_upt_split [of "c * LENGTH('b)" "s * LENGTH('b)" "Suc s * LENGTH('b)" "bit_at blocks"]
    by (simp add: add.commute)
qed simp

lemma bitset_count_exact:
  fixes blocks :: "'b::len word list"
  assumes range: "start + n \<le> bits"
  shows "bitset_count blocks bits start n = Some (length (filter (bit_at blocks) [start..<start + n]))"
proof (cases "start \<ge> bits \<or> n = 0")
  case True
  then show ?thesis using range by (auto simp: bitset_count_def range_fails_def)
next
  case False
  let ?L = "LENGTH('b)"
  let ?c = "start div ?L" and ?i = "start mod ?L" and ?s = "(start + n) div ?L" and ?j = "(start + n) mod ?L"
  have start: "start = ?c * ?L + ?i" and stop: "start + n = ?s * ?L + ?j" by simp_all
  have cs: "?c \<le> ?s" by (rule div_le_mono) simp
  have lts: "?i < ?L" "?j < ?L" by simp_all
  let ?P = "bit_at blocks"
  have tail: "popcount (mask_back (blocks ! ?s) ?j) = length (filter ?P [?s * ?L..<start + n])" if "?j \<noteq> 0"
    using popcount_part [of "mask_back (blocks ! ?s) ?j" 0 ?j blocks ?s] that lts(2) stop by simp
  show ?thesis
  proof (cases "?i \<noteq> 0 \<and> ?s = ?c")
    case True
    have "?i \<le> ?j" using True start stop by (metis nat_add_left_cancel_le le_add1)
    then have "popcount (mask_back (mask_front (blocks ! ?c) ?i) ?j) = length (filter ?P [?c * ?L + ?i..<?c * ?L + ?j])"
      using True lts by (intro popcount_part) auto
    then show ?thesis
      using False range True start stop by (simp add: bitset_count_def range_fails_def Let_def)
  next
    case other: False
    let ?c1 = "if ?i \<noteq> 0 then ?c + 1 else ?c"
    have c1: "?c1 \<le> ?s" using other cs by auto
    have head: "(if ?i \<noteq> 0 then popcount (mask_front (blocks ! ?c) ?i) else 0) = length (filter ?P [start..<?c1 * ?L])"
    proof (cases "?i = 0")
      case False
      have "popcount (mask_front (blocks ! ?c) ?i) = length (filter ?P [?c * ?L + ?i..<?c * ?L + ?L])"
        using lts by (intro popcount_part) (auto dest: bit_imp_le_length)
      then show ?thesis using False start by (simp add: add.commute)
    qed (use start in simp)
    have "(?c + 1) * ?L = ?c * ?L + ?L" by simp
    then have "start \<le> (?c + 1) * ?L" using start lts(1) by linarith
    then have "start \<le> ?c1 * ?L" using start
      by (cases "?i \<noteq> 0"; simp only: if_True if_False simp_thms; linarith)
    moreover have "?c1 * ?L \<le> ?s * ?L" by (rule mult_le_mono1 [OF c1])
    moreover have "?s * ?L \<le> start + n" using stop by linarith
    ultimately have le: "start \<le> ?c1 * ?L" "?c1 * ?L \<le> ?s * ?L" "?s * ?L \<le> start + n" .
    have "length (filter ?P [start..<start + n])
      = length (filter ?P [start..<?c1 * ?L]) + length (filter ?P [?c1 * ?L..<?s * ?L]) + length (filter ?P [?s * ?L..<start + n])"
      by (rule filter_upt_split3 [OF le])
    moreover have "length (filter ?P [?s * ?L..<start + n]) = (if ?j \<noteq> 0 then popcount (mask_back (blocks ! ?s) ?j) else 0)"
    proof (cases "?j = 0")
      case True
      then have "?s * ?L = start + n" using stop by linarith
      with True show ?thesis by simp
    qed (use tail in simp)
    ultimately show ?thesis
      using False range other popcount_blocks [OF c1, of blocks] head
      by (cases "?i = 0"; cases "?j = 0") (simp_all add: bitset_count_def range_fails_def Let_def)
  qed
qed


subsection \<open>Whole sets\<close>

lemma block_count_le:
  fixes blocks :: "'b::len word list"
  assumes "bitset_view blocks bits"
  shows "bitset_block_count TYPE('b) bits \<le> length blocks"
proof (rule ccontr)
  assume less: "\<not> ?thesis"
  then have n: "length blocks < bitset_block_count TYPE('b) bits" by simp
  have bound: "bits \<le> LENGTH('b) * length blocks" using assms by (simp add: bitset_view_def)
  have "bits div LENGTH('b) \<le> length blocks" using div_le_mono [OF bound, of "LENGTH('b)"] by simp
  then have "bits div LENGTH('b) = length blocks" "bits mod LENGTH('b) \<noteq> 0"
    using n by (auto simp: bitset_block_count_def Let_def split: if_splits)
  then show False using bound mult_div_mod_eq [of "LENGTH('b)" bits] by (metis less_add_same_cancel1 mod_greater_zero_iff_not_dvd mod_eq_0_iff_dvd not_le)
qed

lemma bitset_clear_at:
  fixes blocks :: "'b::len word list"
  assumes "bitset_view blocks bits" and "i < bits"
  shows "\<not> bit_at (bitset_clear blocks bits) i"
  using block_count_bounds(2) [OF assms(2), where 'b = 'b]
  by (simp add: bit_at_def bitset_clear_def nth_append)

lemma bitset_flip_at:
  fixes blocks :: "'b::len word list"
  assumes "bitset_view blocks bits" and "i < LENGTH('b) * bitset_block_count TYPE('b) bits"
  shows "bit_at (bitset_flip blocks bits) i \<longleftrightarrow> \<not> bit_at blocks i"
proof -
  have lt: "i div LENGTH('b) < bitset_block_count TYPE('b) bits"
    using assms(2) by (simp add: less_mult_imp_div_less mult.commute)
  then show ?thesis using block_count_le [OF assms(1)]
    by (simp add: bit_at_def bitset_flip_def nth_append bit_not_iff)
qed

subsection \<open>Properties\<close>

lemma find_set_blocks:
  fixes blocks :: "'b::len word list"
  assumes "start \<le> bits"
  shows "find_set blocks bits start = Some (if start = bits then None
    else List.find (bit_at blocks) [start..<LENGTH('b) * bitset_block_count TYPE('b) bits])"
  using assms find_set_raw [of start bits blocks] by (auto simp: find_set_def range_fails_def)

lemma bitset_set_at:
  fixes blocks :: "'b::len word list"
  assumes "bitset_view blocks bits" "i < bits"
  shows "\<exists>blocks'. bitset_set blocks bits i v = Some blocks' \<and> length blocks' = length blocks
    \<and> (\<forall>p. bit_at blocks' p \<longleftrightarrow> (if p = i then v else bit_at blocks p))"
proof (cases v)
  case True
  show ?thesis
    by (rule set_bit_at [OF assms]) (simp add: bitset_set_def True)
next
  case False
  show ?thesis
    by (rule clear_bit_at [OF assms]) (simp add: bitset_set_def False)
qed

lemma bitset_flip_bit_at:
  fixes blocks :: "'b::len word list"
  assumes "bitset_view blocks bits" "i < bits"
  shows "\<exists>blocks'. bitset_flip_bit blocks bits i = Some blocks' \<and> length blocks' = length blocks
    \<and> (\<forall>p. bit_at blocks' p \<longleftrightarrow> (p = i) \<noteq> bit_at blocks p)"
  using bitset_set_at [OF assms, of "\<not> bit_at blocks i"] assms(2)
  by (simp add: bitset_flip_bit_def) metis

text \<open>
  C32: The word-wise algorithms on bit sets, in terms of single bits. On every view, every range
  and every index in it: testing, setting, clearing and flipping an index concern exactly that bit;
  counting (with masks and builtins) returns the number of set bits of the range; clearing a range
  clears exactly its bits; clearing everything clears every bit; searching for an unset bit returns
  the first one in the set. Inverting everything and searching for a set bit do not stop at the size
  of the set but at the end of its last block: inversion flips the bits behind the size too, and
  the search returns the first set bit of the blocks, which is the first one of the set when the
  bits behind the size are clear.
\<close>

theorem bitset_exact:
  fixes blocks :: "'b::len word list"
  assumes view: "bitset_view blocks bits" and range: "start + n \<le> bits"
  shows "(i < bits \<longrightarrow> bitset_test blocks bits i = Some (bit_at blocks i)
    \<and> (\<exists>blocks'. bitset_set blocks bits i v = Some blocks' \<and> length blocks' = length blocks
      \<and> (\<forall>p. bit_at blocks' p \<longleftrightarrow> (if p = i then v else bit_at blocks p)))
    \<and> (\<exists>blocks'. bitset_flip_bit blocks bits i = Some blocks' \<and> length blocks' = length blocks
      \<and> (\<forall>p. bit_at blocks' p \<longleftrightarrow> (p = i) \<noteq> bit_at blocks p))
    \<and> \<not> bit_at (bitset_clear blocks bits) i)
    \<and> bitset_count blocks bits start n = Some (length (filter (bit_at blocks) [start..<start + n]))
    \<and> (\<exists>blocks'. bitset_clear_range blocks bits start n = Some blocks' \<and> length blocks' = length blocks
      \<and> (\<forall>p. bit_at blocks' p \<longleftrightarrow> bit_at blocks p \<and> \<not> (start \<le> p \<and> p < start + n)))
    \<and> find_unset blocks bits start = Some (List.find (\<lambda>i. \<not> bit_at blocks i) [start..<bits])
    \<and> (p < LENGTH('b) * bitset_block_count TYPE('b) bits \<longrightarrow> (bit_at (bitset_flip blocks bits) p \<longleftrightarrow> \<not> bit_at blocks p))
    \<and> find_set blocks bits start
        = Some (if start = bits then None else List.find (bit_at blocks) [start..<LENGTH('b) * bitset_block_count TYPE('b) bits])
    \<and> (tail_clear blocks bits \<longrightarrow> find_set blocks bits start = Some (List.find (bit_at blocks) [start..<bits]))"
proof (intro conjI impI)
  have start: "start \<le> bits" using range by simp
  show "bitset_test blocks bits i = Some (bit_at blocks i)" if "i < bits"
    using that by simp
  show "\<exists>blocks'. bitset_set blocks bits i v = Some blocks' \<and> length blocks' = length blocks
      \<and> (\<forall>p. bit_at blocks' p \<longleftrightarrow> (if p = i then v else bit_at blocks p))" if "i < bits"
    by (rule bitset_set_at [OF view that])
  show "\<exists>blocks'. bitset_flip_bit blocks bits i = Some blocks' \<and> length blocks' = length blocks
      \<and> (\<forall>p. bit_at blocks' p \<longleftrightarrow> (p = i) \<noteq> bit_at blocks p)" if "i < bits"
    by (rule bitset_flip_bit_at [OF view that])
  show "bitset_count blocks bits start n = Some (length (filter (bit_at blocks) [start..<start + n]))"
    by (rule bitset_count_exact [OF range])
  show "\<exists>blocks'. bitset_clear_range blocks bits start n = Some blocks' \<and> length blocks' = length blocks
      \<and> (\<forall>p. bit_at blocks' p \<longleftrightarrow> bit_at blocks p \<and> \<not> (start \<le> p \<and> p < start + n))"
    by (rule clear_range_at [OF view range]) blast
  show "\<not> bit_at (bitset_clear blocks bits) i" if "i < bits"
    by (rule bitset_clear_at [OF view that])
  show "find_unset blocks bits start = Some (List.find (\<lambda>i. \<not> bit_at blocks i) [start..<bits])"
    by (rule find_unset_exact [OF start view])
  show "bit_at (bitset_flip blocks bits) p \<longleftrightarrow> \<not> bit_at blocks p" if "p < LENGTH('b) * bitset_block_count TYPE('b) bits"
    by (rule bitset_flip_at [OF view that])
  show "find_set blocks bits start
      = Some (if start = bits then None else List.find (bit_at blocks) [start..<LENGTH('b) * bitset_block_count TYPE('b) bits])"
    by (rule find_set_blocks [OF start])
  show "find_set blocks bits start = Some (List.find (bit_at blocks) [start..<bits])" if "tail_clear blocks bits"
    by (rule find_set_exact [OF start that])
qed

theorem bitset_exact_witness:
  "bitset_test [0xF0F0 :: 32 word, 0x3] 40 7 = Some True
   \<and> bitset_count [0xF0F0 :: 32 word, 0x3] 40 4 30 = Some 10
   \<and> (\<exists>blocks'. bitset_clear_range [0xF0F0 :: 32 word, 0x3] 40 4 30 = Some blocks')"
proof -
  let ?b = "[0xF0F0 :: 32 word, 0x3]"
  have view: "bitset_view ?b 40" and range: "4 + 30 \<le> (40::nat)" and index: "7 < (40::nat)"
    by (simp_all add: bitset_view_def)
  note all = bitset_exact [OF view range, of 7]
  have "length (filter (bit_at ?b) [4..<4 + 30]) = 10" "bit_at ?b 7"
    by code_simp+
  then have "bitset_test ?b 40 7 = Some True" "bitset_count ?b 40 4 30 = Some 10"
    using all [THEN conjunct1] index all [THEN conjunct2, THEN conjunct1]
    by simp_all
  then show ?thesis
    using all [THEN conjunct2, THEN conjunct2, THEN conjunct1] by blast
qed

text \<open>
  Inverting a set leaves its search in a wrong state: the inversion also sets the bits of
  the last block that do not belong to the set, and a search in a set of three bits, all of
  which are clear after the inversion, returns position 3.
\<close>

lemma flip_breaks_search:
  "bitset_flip [7 :: 64 word] 3 = [- 8] \<and> find_set (bitset_flip [7 :: 64 word] 3) 3 0 = Some (Some 3)
   \<and> bitset_count (bitset_flip [7 :: 64 word] 3) 3 0 3 = Some 0"
proof -
  have flip: "bitset_flip [7 :: 64 word] 3 = [- 8]" by (simp add: bitset_flip_def bitset_block_count_def)
  have "find_set [- 8 :: 64 word] 3 0 = Some (Some 3)" by code_simp
  moreover have "bitset_count [- 8 :: 64 word] 3 0 3 = Some 0" by code_simp
  ultimately show ?thesis by (simp add: flip)
qed

end
