(* ===== verification/HeapPage.thy ===== *)
theory HeapPage
  imports Bitset Numerics
begin

text \<open>
  Pages of the heap (src/vm/heap/chunks.hpp, chunks.cpp, memory.hpp): the layout of a page, its
  block and mark bitmaps, and the part of the sweep that works on one page.

  A page is the pair of its bitmaps with the indices of the cells whose objects have a
  finalizer; a cell of the heap is the pair of the address of its page and an index. Reads of
  the bitmaps in assertions are part of the model, a failed assertion is \<open>None\<close>. The number of cells of
  a page, which the code reads from the layout of the heap, is the parameter \<open>n\<close>.
\<close>

subsection \<open>The layout of a page\<close>

datatype heap_error = BadArgument | AllocError | MemoryLimit

record page_layout =
  page_size :: u32
  page_size_log :: u32
  block_bitmap_offset :: u32
  mark_bitmap_offset :: u32
  bitmap_items :: u32
  cells_offset :: u32
  cells_size :: u32
  large_object_cells :: u32

definition cell_size :: size_t where
  "cell_size = 16"

definition min_page_size :: size_t where
  "min_page_size = push_bit 16 1"

definition max_page_size :: size_t where
  "max_page_size = push_bit 24 1"

text \<open>\<open>header\<close> is the size of the class Page, a multiple of the size of a cell.\<close>

definition compute_layout :: "size_t \<Rightarrow> size_t \<Rightarrow> heap_error + page_layout" where
  "compute_layout header psize =
     (if psize < min_page_size \<or> psize > max_page_size then Inl BadArgument
      else if \<not> is_pow2 psize then Inl BadArgument
      else
        let cells = (4 * (psize - header - 2 * cell_size) + 1) div (1 + 4 * cell_size);
            bitmap = ((cells + 8 * cell_size - 1) div (8 * cell_size)) * cell_size
        in Inr \<lparr>page_size = ucast psize, page_size_log = ucast (log2_fast psize),
                block_bitmap_offset = ucast header, mark_bitmap_offset = ucast header + ucast bitmap,
                bitmap_items = ucast (bitmap div 4), cells_offset = (ucast header + ucast bitmap) + ucast bitmap,
                cells_size = ucast cells, large_object_cells = ucast (cells div 4)\<rparr>)"

definition aligned_container_mask :: "size_t \<Rightarrow> size_t" where
  "aligned_container_mask align = NOT (align - 1)"

definition aligned_container_from_member :: "size_t \<Rightarrow> size_t \<Rightarrow> size_t" where
  "aligned_container_from_member member container_mask = member AND container_mask"

subsection \<open>Bitmaps\<close>

record heap_page =
  block_bits :: "u32 list"
  mark_bits :: "u32 list"
  finalizers :: "nat list"

definition new_page :: "nat \<Rightarrow> heap_page" where
  "new_page items = \<lparr>block_bits = replicate items 0, mark_bits = replicate items 0, finalizers = []\<rparr>"

definition is_allocated_block_start :: "nat \<Rightarrow> heap_page \<Rightarrow> nat \<Rightarrow> bool option" where
  "is_allocated_block_start n p i = bitset_test (block_bits p) n i"

definition is_free_block_start :: "nat \<Rightarrow> heap_page \<Rightarrow> nat \<Rightarrow> bool option" where
  "is_free_block_start n p i =
     Option.bind (bitset_test (mark_bits p) n i) (\<lambda>m. if m then map_option Not (bitset_test (block_bits p) n i) else Some False)"

definition is_cell_block_extent :: "nat \<Rightarrow> heap_page \<Rightarrow> nat \<Rightarrow> bool option" where
  "is_cell_block_extent n p i =
     Option.bind (bitset_test (mark_bits p) n i) (\<lambda>m. if m then Some False else map_option Not (bitset_test (block_bits p) n i))"

definition assert_that :: "bool option \<Rightarrow> unit option" where
  "assert_that b = (if b = Some True then Some () else None)"

definition is_cell_marked :: "nat \<Rightarrow> heap_page \<Rightarrow> nat \<Rightarrow> bool option" where
  "is_cell_marked n p i =
     Option.bind (assert_that (is_allocated_block_start n p i)) (\<lambda>_. bitset_test (mark_bits p) n i)"

definition set_cell_marked :: "nat \<Rightarrow> nat \<Rightarrow> bool \<Rightarrow> heap_page \<Rightarrow> heap_page option" where
  "set_cell_marked n i marked p =
     Option.bind (assert_that (is_allocated_block_start n p i)) (\<lambda>_.
       map_option (\<lambda>m. p\<lparr>mark_bits := m\<rparr>) (bitset_set (mark_bits p) n i marked))"

definition set_allocated :: "nat \<Rightarrow> nat \<Rightarrow> nat \<Rightarrow> heap_page \<Rightarrow> heap_page option" where
  "set_allocated n i s p =
     (if i > n \<or> s > n - i \<or> s = 0 then None
      else Option.bind (bitset_set (block_bits p) n i True) (\<lambda>b.
             map_option (\<lambda>m. p\<lparr>block_bits := b, mark_bits := m\<rparr>) (bitset_set (mark_bits p) n i False)))"

definition set_free :: "nat \<Rightarrow> nat \<Rightarrow> nat \<Rightarrow> heap_page \<Rightarrow> heap_page option" where
  "set_free n i s p =
     (if i > n \<or> s > n - i \<or> s = 0 then None
      else Option.bind (bitset_set (block_bits p) n i False) (\<lambda>b.
             map_option (\<lambda>m. p\<lparr>block_bits := b, mark_bits := m\<rparr>) (bitset_set (mark_bits p) n i True)))"

definition mark_finalizer :: "nat \<Rightarrow> nat \<Rightarrow> heap_page \<Rightarrow> heap_page option" where
  "mark_finalizer n i p =
     Option.bind (assert_that (is_allocated_block_start n p i)) (\<lambda>_.
       if i \<in> set (finalizers p) then None else Some (p\<lparr>finalizers := i # finalizers p\<rparr>))"

definition min_pos :: "nat \<Rightarrow> nat option \<Rightarrow> nat" where
  "min_pos a b = (case b of None \<Rightarrow> a | Some x \<Rightarrow> min a x)"

definition get_block_extent :: "nat \<Rightarrow> heap_page \<Rightarrow> nat \<Rightarrow> nat option" where
  "get_block_extent n p index =
     (if index < n
      then let i = index + 1 in
        Option.bind (find_set (mark_bits p) n i) (\<lambda>m.
        Option.bind (find_set (block_bits p) n i) (\<lambda>b.
          Some (min_pos (min_pos n m) b - i + 1)))
      else None)"

text \<open>The finalizers of unmarked objects run; the first component lists them.\<close>

fun invoke_finalizers_loop :: "nat \<Rightarrow> heap_page \<Rightarrow> nat list \<Rightarrow> (nat list \<times> nat list) option" where
  "invoke_finalizers_loop n p [] = Some ([], [])"
| "invoke_finalizers_loop n p (i # is) =
     Option.bind (is_cell_marked n p i) (\<lambda>m.
       map_option (\<lambda>(run, kept). if m then (run, i # kept) else (i # run, kept)) (invoke_finalizers_loop n p is))"

definition invoke_finalizers :: "nat \<Rightarrow> heap_page \<Rightarrow> (nat list \<times> heap_page) option" where
  "invoke_finalizers n p =
     map_option (\<lambda>(run, kept). (run, p\<lparr>finalizers := kept\<rparr>)) (invoke_finalizers_loop n p (finalizers p))"

text \<open>
  The rest of a sweep: the words of the bitmaps are combined, then the free blocks are joined.
  \<open>register\<close> registers a free range of cells with the free space, which checks that the range starts a
  free block of the page.
\<close>

definition sweep_bitmaps :: "heap_page \<Rightarrow> heap_page option" where
  "sweep_bitmaps p =
     (if length (block_bits p) \<noteq> length (mark_bits p) then None
      else Some (p\<lparr>block_bits := map2 (AND) (block_bits p) (mark_bits p),
                   mark_bits := map2 (XOR) (block_bits p) (mark_bits p)\<rparr>))"

partial_function (option) sweep_free_loop ::
  "(heap_page \<Rightarrow> nat \<Rightarrow> nat \<Rightarrow> 's \<Rightarrow> 's option) \<Rightarrow> nat \<Rightarrow> nat option \<Rightarrow> nat \<Rightarrow> heap_page \<Rightarrow> 's \<Rightarrow> (nat \<times> heap_page \<times> 's) option" where
  "sweep_free_loop register n current free_cells p s =
     (case current of
        None \<Rightarrow> Some (free_cells, p, s)
      | Some current_free \<Rightarrow>
          Option.bind (find_set (block_bits p) n current_free) (\<lambda>next_live.
            let free_size = (case next_live of Some l \<Rightarrow> l - current_free | None \<Rightarrow> n - current_free) in
            if free_size = 0 then None
            else
              Option.bind (register p current_free free_size s) (\<lambda>s.
              Option.bind (bitset_clear_range (mark_bits p) n (current_free + 1) (free_size - 1)) (\<lambda>m.
                let p = p\<lparr>mark_bits := m\<rparr>; free_cells = free_cells + free_size in
                case next_live of
                  None \<Rightarrow> Some (free_cells, p, s)
                | Some l \<Rightarrow>
                    Option.bind (find_set (mark_bits p) n l) (\<lambda>current.
                      sweep_free_loop register n current free_cells p s)))))"

record sweep_stats =
  allocated_cells :: nat
  free_cells :: nat

definition sweep_page ::
  "(heap_page \<Rightarrow> nat \<Rightarrow> nat \<Rightarrow> 's \<Rightarrow> 's option) \<Rightarrow> nat \<Rightarrow> heap_page \<Rightarrow> 's \<Rightarrow> (nat list \<times> sweep_stats \<times> heap_page \<times> 's) option" where
  "sweep_page register n p s =
     Option.bind (invoke_finalizers n p) (\<lambda>(run, p).
     Option.bind (sweep_bitmaps p) (\<lambda>p.
     Option.bind (find_set (mark_bits p) n 0) (\<lambda>current.
     Option.bind (sweep_free_loop register n current 0 p s) (\<lambda>(free, p, s).
       if free > n then None
       else Some (run, \<lparr>allocated_cells = n - free, free_cells = free\<rparr>, p, s)))))"


subsection \<open>The layout fits\<close>

lemma unat_ucast_32: "unat (x :: size_t) < 2 ^ 32 \<Longrightarrow> unat (ucast x :: u32) = unat x"
  by (simp add: unsigned_ucast_eq take_bit_nat_eq_self)

lemma unat_ops_64:
  fixes x y :: size_t
  shows "unat x + unat y < 2 ^ 64 \<Longrightarrow> unat (x + y) = unat x + unat y"
    and "unat x * unat y < 2 ^ 64 \<Longrightarrow> unat (x * y) = unat x * unat y"
    and "unat y \<le> unat x \<Longrightarrow> unat (x - y) = unat x - unat y"
    and "unat (x div y) = unat x div unat y"
  by (simp add: unat_word_ariths, simp add: unat_word_ariths, simp add: unat_sub word_le_nat_alt, rule unat_div_distrib)

lemma layout_numbers:
  assumes p: "2 ^ 16 \<le> p" "p \<le> 2 ^ 24" and h: "(h::nat) \<le> 2 ^ 15"
    and N: "N = (4 * (p - h - 32) + 1) div 65" and B: "B = ((N + 127) div 128) * 16"
  shows "h + 2 * B + 16 * N \<le> p" "N \<le> 8 * B" "16 \<le> N div 4" "N \<le> 2 ^ 20"
proof -
  have "65 * N \<le> 4 * (p - h - 32) + 1" unfolding N by simp
  moreover have "128 * ((N + 127) div 128) \<le> N + 127" by simp
  then have "8 * B \<le> N + 127" unfolding B by simp
  ultimately show "h + 2 * B + 16 * N \<le> p" using p h by simp
  have "N + 127 < 128 * ((N + 127) div 128) + 128"
    using mod_less_divisor [of 128 "N + 127"] mult_div_mod_eq [of 128 "N + 127"] by linarith
  then show "N \<le> 8 * B" unfolding B by simp
  have "4 * (2 ^ 16 - 2 ^ 15 - 32) + 1 \<le> 4 * (p - h - 32) + 1" using p h by simp
  then have "(4 * (2 ^ 16 - 2 ^ 15 - 32) + 1) div 65 \<le> N" unfolding N by (rule div_le_mono)
  then show "16 \<le> N div 4" by simp
  have "4 * (p - h - 32) + 1 \<le> 4 * 2 ^ 24" using p(2) p(1) h by simp
  then have "N \<le> (4 * 2 ^ 24) div 65" unfolding N by (rule div_le_mono)
  then show "N \<le> 2 ^ 20" by simp
qed

lemma page_layout_parts:
  assumes layout: "compute_layout header psize = Inr l" and header: "header \<le> push_bit 15 1" "16 dvd unat header"
  shows "unat (block_bitmap_offset l) = unat header
    \<and> unat (mark_bitmap_offset l) = unat (block_bitmap_offset l) + 4 * unat (bitmap_items l)
    \<and> unat (cells_offset l) = unat (mark_bitmap_offset l) + 4 * unat (bitmap_items l)
    \<and> unat (cells_offset l) + 16 * unat (cells_size l) \<le> unat (page_size l)
    \<and> unat (page_size l) = unat psize \<and> unat (page_size l) = 2 ^ unat (page_size_log l)
    \<and> unat (cells_size l) \<le> 32 * unat (bitmap_items l)
    \<and> 16 dvd unat (mark_bitmap_offset l) \<and> 16 dvd unat (cells_offset l)
    \<and> 16 \<le> unat (large_object_cells l) \<and> unat (large_object_cells l) = unat (cells_size l) div 4
    \<and> unat (cells_size l) \<le> 2 ^ 20"
proof -
  have p: "2 ^ 16 \<le> unat psize" "unat psize \<le> 2 ^ 24" and pow: "is_pow2 psize"
    using layout by (auto simp: compute_layout_def min_page_size_def max_page_size_def word_less_nat_alt split: if_splits)
  have h: "unat header \<le> 2 ^ 15" using header(1) by (simp add: word_le_nat_alt)
  let ?cells = "(4 * (psize - header - 2 * cell_size) + 1) div (1 + 4 * cell_size)"
  let ?bitmap = "((?cells + 8 * cell_size - 1) div (8 * cell_size)) * cell_size"
  have l: "l = \<lparr>page_size = ucast psize, page_size_log = ucast (log2_fast psize),
                block_bitmap_offset = ucast header, mark_bitmap_offset = ucast header + ucast ?bitmap,
                bitmap_items = ucast (?bitmap div 4), cells_offset = (ucast header + ucast ?bitmap) + ucast ?bitmap,
                cells_size = ucast ?cells, large_object_cells = ucast (?cells div 4)\<rparr>"
    using layout by (auto simp: compute_layout_def Let_def split: if_splits)
  obtain N B where N: "N = (4 * (unat psize - unat header - 32) + 1) div 65" and B: "B = ((N + 127) div 128) * 16" by blast
  note numbers = layout_numbers [OF p h N B]
  have "unat (psize - header - 32) = unat psize - unat header - 32"
    using p h unat_ops_64(3) [of header psize] unat_ops_64(3) [of 32 "psize - header"] by simp
  then have "unat (4 * (psize - header - 32)) = 4 * (unat psize - unat header - 32)"
    using p unat_ops_64(2) [of 4 "psize - header - 32"] by simp
  then have "unat (4 * (psize - header - 32) + 1) = 4 * (unat psize - unat header - 32) + 1"
    using p unat_ops_64(1) [of "4 * (psize - header - 32)" 1] by simp
  then have cells: "unat ?cells = N" using unat_ops_64(4) [of "4 * (psize - header - 32) + 1" 65] by (simp add: cell_size_def N)
  have "unat (?cells + 127) = N + 127" using cells numbers(4) unat_ops_64(1) [of ?cells 127] by simp
  then have "unat ((?cells + 127) div 128) = (N + 127) div 128" using unat_ops_64(4) [of "?cells + 127" 128] by simp
  moreover have small: "(N + 127) div 128 \<le> 2 ^ 20" using numbers(4) by simp
  ultimately have "unat (((?cells + 127) div 128) * 16) = (N + 127) div 128 * 16"
    using unat_ops_64(2) [of "(?cells + 127) div 128" 16] by simp
  moreover have "((c + 8 * cell_size - 1) div (8 * cell_size)) * cell_size = ((c + 127) div 128) * 16" for c
    by (simp add: cell_size_def add.commute)
  ultimately have bitmap: "unat ?bitmap = B" unfolding B by presburger
  have B20: "B \<le> 2 ^ 24" using numbers(1) p by linarith
  have "B mod 4 = 0" unfolding B by simp
  then have items: "4 * (B div 4) = B" using mult_div_mod_eq [of 4 B] by linarith
  have u: "unat (ucast ?cells :: u32) = N" "unat (ucast ?bitmap :: u32) = B" "unat (ucast header :: u32) = unat header"
    "unat (ucast psize :: u32) = unat psize" "unat (ucast (?bitmap div 4) :: u32) = B div 4"
    "unat (ucast (?cells div 4) :: u32) = N div 4"
    using cells bitmap numbers(4) B20 h p unat_ops_64(4) [of ?bitmap 4] unat_ops_64(4) [of ?cells 4]
    by (simp_all add: unat_ucast_32)
  have plus: "unat (x + y) = unat x + unat y" if "unat x + unat y < 2 ^ 32" for x y :: u32
    using that by (simp add: unat_word_ariths)
  have hB: "unat header + B < 2 ^ 32" "unat header + B + B < 2 ^ 32" using h B20 by simp_all
  have off: "unat ((ucast header :: u32) + ucast ?bitmap) = unat header + B"
    using plus [of "ucast header" "ucast ?bitmap"] hB(1) unfolding u(2,3) by blast
  have off2: "unat (((ucast header :: u32) + ucast ?bitmap) + ucast ?bitmap) = unat header + B + B"
    using plus [of "(ucast header :: u32) + ucast ?bitmap" "ucast ?bitmap"] hB(2) unfolding off u(2) by blast
  have log: "unat psize = 2 ^ unat (ucast (log2_fast psize) :: u32)"
  proof -
    obtain k where k: "k < 64" "psize = 2 ^ k" using pow by (auto simp: is_pow2_iff)
    have nz: "psize \<noteq> 0" using pow by (simp add: is_pow2_def)
    have e: "unat psize = 2 ^ k" using k by (simp add: unat_2p_word)
    have b: "2 ^ unat (log2_fast psize) \<le> unat psize" "unat psize < 2 ^ Suc (unat (log2_fast psize))" "unat (log2_fast psize) < 64"
      using log2_bounds [OF nz] log2_fast_eq [OF nz] by simp_all
    then have "unat (log2_fast psize) = k" unfolding e
      by (metis less_Suc_eq_le one_less_numeral_iff order_antisym power_increasing_iff power_strict_increasing_iff semiring_norm(76))
    then show ?thesis using e b(3) by (simp add: unat_ucast_32)
  qed
  have "16 dvd B" unfolding B by simp
  then show ?thesis
    using u off off2 numbers items log header(2) by (simp add: l)
qed

text \<open>The page of an address.\<close>

lemma page_of_address:
  assumes pow: "is_pow2 (psize :: size_t)" and page: "unat psize dvd unat page" and off: "unat off < unat psize"
  shows "aligned_container_from_member (page + off) (aligned_container_mask psize) = page"
proof -
  obtain k where k: "k < 64" "psize = 2 ^ k" using pow by (auto simp: is_pow2_iff)
  then have us: "unat psize = 2 ^ k" by (simp add: unat_2p_word)
  have high: "k \<le> i" if "bit page i" for i
  proof (rule ccontr)
    assume "\<not> k \<le> i"
    then obtain j where j: "k = i + Suc j" using less_imp_Suc_add by (metis add_Suc_right not_le)
    obtain m where "unat page = 2 ^ k * m" using page us by (auto simp: dvd_def)
    then have "unat page div 2 ^ i = 2 * (2 ^ j * m)" by (simp add: j power_add)
    then show False using that by (simp add: bit_word_nat)
  qed
  have low: "i < k" if "bit off i" for i
  proof (rule ccontr)
    assume "\<not> i < k"
    then have "unat off div 2 ^ i = 0" using off us by (metis div_less le_less_trans not_less one_le_numeral power_increasing)
    then show False using that by (simp add: bit_word_nat)
  qed
  have sum: "page + off = page OR off" by (rule disjunctive_add) (use high low in \<open>meson leD\<close>)
  have container_mask: "aligned_container_mask psize = NOT (mask k)" by (simp add: aligned_container_mask_def k mask_eq_exp_minus_1)
  show ?thesis
    unfolding aligned_container_from_member_def container_mask sum
    by (rule bit_word_eqI) (auto simp: bit_simps dest: high low)
qed

end
