(* ===== verification/PageTiles.thy ===== *)
theory PageTiles
  imports HeapPage
begin

text \<open>
  What the bitmaps of a page mean: the cells are divided into blocks, each of which is free, used, or
  used and marked. The operations on bitmaps in HeapPage are operations on this list of blocks; the
  sweep frees the blocks that are not marked and joins neighbouring free blocks.
\<close>

subsection \<open>Blocks\<close>

datatype block_kind = Free | Used | Live

type_synonym tiles = "(block_kind \<times> nat) list"

abbreviation cells_of :: "tiles \<Rightarrow> nat" where
  "cells_of ts \<equiv> sum_list (map snd ts)"

fun tile_bits :: "(block_kind \<Rightarrow> bool) \<Rightarrow> tiles \<Rightarrow> bool list" where
  "tile_bits f [] = []"
| "tile_bits f ((k, l) # ts) = f k # replicate (l - 1) False @ tile_bits f ts"

definition tiles_ok :: "nat \<Rightarrow> tiles \<Rightarrow> bool" where
  "tiles_ok n ts \<longleftrightarrow> (\<forall>t \<in> set ts. 0 < snd t) \<and> cells_of ts = n"

definition bits_list :: "u32 list \<Rightarrow> nat \<Rightarrow> bool list" where
  "bits_list blocks n = map (bit_at blocks) [0..<n]"

definition bitmap_ok :: "u32 list \<Rightarrow> nat \<Rightarrow> bool" where
  "bitmap_ok blocks n \<longleftrightarrow> bitset_view blocks n \<and> tail_clear blocks n"

definition page_rep :: "nat \<Rightarrow> heap_page \<Rightarrow> tiles \<Rightarrow> bool" where
  "page_rep n p ts \<longleftrightarrow> tiles_ok n ts \<and> bitmap_ok (block_bits p) n \<and> bitmap_ok (mark_bits p) n
     \<and> length (block_bits p) = length (mark_bits p)
     \<and> bits_list (block_bits p) n = tile_bits (\<lambda>k. k \<noteq> Free) ts
     \<and> bits_list (mark_bits p) n = tile_bits (\<lambda>k. k \<noteq> Used) ts"

lemma tile_bits_append [simp]: "tile_bits f (a @ b) = tile_bits f a @ tile_bits f b"
  by (induction f a rule: tile_bits.induct) simp_all

lemma length_tile_bits: "\<forall>t \<in> set ts. 0 < snd t \<Longrightarrow> length (tile_bits f ts) = cells_of ts"
  by (induction f ts rule: tile_bits.induct) auto

lemma tiles_ok_append: "tiles_ok n (a @ b) \<longleftrightarrow> (\<forall>t \<in> set a. 0 < snd t) \<and> (\<forall>t \<in> set b. 0 < snd t) \<and> cells_of a + cells_of b = n"
  by (auto simp: tiles_ok_def)

lemma bits_list_nth: "i < n \<Longrightarrow> bits_list blocks n ! i = bit_at blocks i"
  by (simp add: bits_list_def)

lemma length_bits_list [simp]: "length (bits_list blocks n) = n"
  by (simp add: bits_list_def)

text \<open>The bit of a block is at its first cell.\<close>

lemma tile_bits_at:
  assumes "tiles_ok n (a @ (k, l) # b)"
  shows "tile_bits f (a @ (k, l) # b) ! cells_of a = f k"
proof -
  have "length (tile_bits f a) = cells_of a" using assms by (intro length_tile_bits) (auto simp: tiles_ok_append)
  then show ?thesis by (simp add: nth_append)
qed

lemma tile_bits_retag:
  assumes "tiles_ok n (a @ (k, l) # b)"
  shows "(tile_bits f (a @ (k, l) # b))[cells_of a := f k'] = tile_bits f (a @ (k', l) # b)"
proof -
  have "length (tile_bits f a) = cells_of a" using assms by (intro length_tile_bits) (auto simp: tiles_ok_append)
  then show ?thesis by (simp add: list_update_append)
qed

lemma tile_bits_split:
  assumes "tiles_ok n (a @ (k, l) # b)" and "0 < r" and "r < l"
  shows "(tile_bits f (a @ (k, l) # b))[cells_of a + r := f k'] = tile_bits f (a @ (k, r) # (k', l - r) # b)"
proof -
  have len: "length (tile_bits f a) = cells_of a" using assms by (intro length_tile_bits) (auto simp: tiles_ok_append)
  obtain m where r: "r = Suc m" using assms(2) by (cases r) auto
  have split: "replicate (l - 1) False = replicate m False @ False # replicate (l - r - 1) False"
  proof -
    have "l - 1 = m + Suc (l - r - 1)" using assms(3) r by simp
    then show ?thesis by (simp only: replicate_add replicate_Suc)
  qed
  have "(replicate (l - 1) False @ tile_bits f b)[m := f k']
    = (replicate m False @ False # (replicate (l - r - 1) False @ tile_bits f b))[m := f k']"
    unfolding split append_assoc append_Cons ..
  also have "\<dots> = replicate m False @ f k' # (replicate (l - r - 1) False @ tile_bits f b)"
    by (metis length_replicate list_update_length)
  finally have rest: "(replicate (l - 1) False @ tile_bits f b)[m := f k']
    = replicate m False @ f k' # (replicate (l - r - 1) False @ tile_bits f b)" .
  have "(tile_bits f a @ f k # replicate (l - 1) False @ tile_bits f b)[cells_of a + r := f k']
    = tile_bits f a @ f k # (replicate (l - 1) False @ tile_bits f b)[m := f k']"
    by (simp add: list_update_append len r del: append_assoc)
  then show ?thesis unfolding rest using r by (simp add: numeral_2_eq_2)
qed

subsection \<open>Single bits\<close>

lemma bitmap_set:
  assumes ok: "bitmap_ok blocks n" and i: "i < n"
  obtains blocks' where "bitset_set blocks n i v = Some blocks'" "bitmap_ok blocks' n" "length blocks' = length blocks"
    "bits_list blocks' n = (bits_list blocks n)[i := v]"
proof -
  have view: "bitset_view blocks n" using ok by (simp add: bitmap_ok_def)
  obtain blocks' where b: "bitset_set blocks n i v = Some blocks'" "length blocks' = length blocks"
    "\<And>j. bit_at blocks' j \<longleftrightarrow> (if j = i then v else bit_at blocks j)"
  proof (cases v)
    case True
    obtain bs where "bitset_set_bit blocks n i = Some bs" "length bs = length blocks"
      "\<And>j. bit_at bs j \<longleftrightarrow> j = i \<or> bit_at blocks j"
      by (rule set_bit_at [OF view i]) (rule that)
    then show thesis by (intro that [of bs]) (simp_all add: bitset_set_def True)
  next
    case False
    obtain bs where "bitset_clear_bit blocks n i = Some bs" "length bs = length blocks"
      "\<And>j. bit_at bs j \<longleftrightarrow> j \<noteq> i \<and> bit_at blocks j"
      by (rule clear_bit_at [OF view i]) (rule that)
    then show thesis by (intro that [of bs]) (simp_all add: bitset_set_def False)
  qed
  have "bitmap_ok blocks' n" using ok i b(2,3) by (auto simp: bitmap_ok_def bitset_view_def tail_clear_def)
  moreover have "bits_list blocks' n = (bits_list blocks n)[i := v]"
    by (rule nth_equalityI) (simp_all add: bits_list_nth b(3) nth_list_update)
  ultimately show thesis using b that by blast
qed

lemma page_rep_bits:
  assumes "page_rep n p ts"
  shows "tiles_ok n ts" "bitmap_ok (block_bits p) n" "bitmap_ok (mark_bits p) n" "length (block_bits p) = length (mark_bits p)"
    "bits_list (block_bits p) n = tile_bits (\<lambda>k. k \<noteq> Free) ts" "bits_list (mark_bits p) n = tile_bits (\<lambda>k. k \<noteq> Used) ts"
  using assms by (simp_all add: page_rep_def)

lemma tile_start_less: "tiles_ok n (a @ (k, l) # b) \<Longrightarrow> cells_of a < n \<and> 0 < l \<and> cells_of a + l \<le> n"
  by (auto simp: tiles_ok_append)

lemma page_tests:
  assumes rep: "page_rep n p (a @ (k, l) # b)"
  shows "is_allocated_block_start n p (cells_of a) = Some (k \<noteq> Free)"
    and "is_free_block_start n p (cells_of a) = Some (k = Free)"
    and "k \<noteq> Free \<Longrightarrow> is_cell_marked n p (cells_of a) = Some (k = Live)"
proof -
  note bits = page_rep_bits [OF rep]
  have lt: "cells_of a < n" using tile_start_less [OF bits(1)] by simp
  have at: "bit_at (block_bits p) (cells_of a) = (k \<noteq> Free)" "bit_at (mark_bits p) (cells_of a) = (k \<noteq> Used)"
    using tile_bits_at [OF bits(1)] bits(5,6) bits_list_nth [OF lt] by metis+
  show "is_allocated_block_start n p (cells_of a) = Some (k \<noteq> Free)"
    using lt at by (simp add: is_allocated_block_start_def)
  show "is_free_block_start n p (cells_of a) = Some (k = Free)"
    using lt at by (cases k) (simp_all add: is_free_block_start_def)
  show "is_cell_marked n p (cells_of a) = Some (k = Live)" if "k \<noteq> Free"
    using lt at that by (cases k) (simp_all add: is_cell_marked_def is_allocated_block_start_def assert_that_def)
qed

lemma page_rep_set:
  assumes rep: "page_rep n p ts" and i: "i < n" and ts': "tiles_ok n ts'"
    and "(tile_bits (\<lambda>k. k \<noteq> Free) ts)[i := x] = tile_bits (\<lambda>k. k \<noteq> Free) ts'"
    and "(tile_bits (\<lambda>k. k \<noteq> Used) ts)[i := y] = tile_bits (\<lambda>k. k \<noteq> Used) ts'"
  obtains b m where "bitset_set (block_bits p) n i x = Some b" "bitset_set (mark_bits p) n i y = Some m"
    "page_rep n (p\<lparr>block_bits := b, mark_bits := m\<rparr>) ts'"
proof -
  note bits = page_rep_bits [OF rep]
  obtain b where b: "bitset_set (block_bits p) n i x = Some b" "bitmap_ok b n" "length b = length (block_bits p)"
    "bits_list b n = (bits_list (block_bits p) n)[i := x]" using bitmap_set [OF bits(2) i] by blast
  obtain m where m: "bitset_set (mark_bits p) n i y = Some m" "bitmap_ok m n" "length m = length (mark_bits p)"
    "bits_list m n = (bits_list (mark_bits p) n)[i := y]" using bitmap_set [OF bits(3) i] by blast
  have "page_rep n (p\<lparr>block_bits := b, mark_bits := m\<rparr>) ts'"
    using b m bits assms by (simp add: page_rep_def)
  then show thesis using that b(1) m(1) by blast
qed

lemma set_allocated_rep:
  assumes rep: "page_rep n p (a @ (k, l) # b)" and r: "0 < r" "r \<le> l"
  obtains p' where "set_allocated n (cells_of a) r p = Some p'" "page_rep n p' (a @ (Used, l) # b)" "finalizers p' = finalizers p"
proof -
  note ok = page_rep_bits(1) [OF rep]
  have ok': "tiles_ok n (a @ (Used, l) # b)" using ok by (simp add: tiles_ok_def)
  have lt: "cells_of a < n" "cells_of a + l \<le> n" using tile_start_less [OF ok] by simp_all
  obtain bb m where "bitset_set (block_bits p) n (cells_of a) (Used \<noteq> Free) = Some bb"
    "bitset_set (mark_bits p) n (cells_of a) (Used \<noteq> Used) = Some m"
    "page_rep n (p\<lparr>block_bits := bb, mark_bits := m\<rparr>) (a @ (Used, l) # b)"
    by (rule page_rep_set [OF rep lt(1) ok' tile_bits_retag [OF ok] tile_bits_retag [OF ok]])
  then show thesis using r lt
    by (intro that [of "p\<lparr>block_bits := bb, mark_bits := m\<rparr>"]) (simp_all add: set_allocated_def)
qed

lemma set_free_rest:
  assumes rep: "page_rep n p (a @ (k, l) # b)" and r: "0 < r" "r < l"
  obtains p' where "set_free n (cells_of a + r) (l - r) p = Some p'" "page_rep n p' (a @ (k, r) # (Free, l - r) # b)"
    "finalizers p' = finalizers p"
proof -
  note ok = page_rep_bits(1) [OF rep]
  have ok': "tiles_ok n (a @ (k, r) # (Free, l - r) # b)" using ok r by (auto simp: tiles_ok_def)
  have lt: "cells_of a + r < n" "cells_of a + l \<le> n" using tile_start_less [OF ok] r by simp_all
  obtain bb m where "bitset_set (block_bits p) n (cells_of a + r) (Free \<noteq> Free) = Some bb"
    "bitset_set (mark_bits p) n (cells_of a + r) (Free \<noteq> Used) = Some m"
    "page_rep n (p\<lparr>block_bits := bb, mark_bits := m\<rparr>) (a @ (k, r) # (Free, l - r) # b)"
    by (rule page_rep_set [OF rep lt(1) ok' tile_bits_split [OF ok r] tile_bits_split [OF ok r]])
  then show thesis using r lt
    by (intro that [of "p\<lparr>block_bits := bb, mark_bits := m\<rparr>"]) (simp_all add: set_free_def)
qed

lemma set_marked_rep:
  assumes rep: "page_rep n p (a @ (k, l) # b)" and k: "k \<noteq> Free"
  obtains p' where "set_cell_marked n (cells_of a) True p = Some p'" "page_rep n p' (a @ (Live, l) # b)" "finalizers p' = finalizers p"
proof -
  note bits = page_rep_bits [OF rep]
  have lt: "cells_of a < n" using tile_start_less [OF bits(1)] by simp
  obtain m where m: "bitset_set (mark_bits p) n (cells_of a) True = Some m" "bitmap_ok m n" "length m = length (mark_bits p)"
    "bits_list m n = (bits_list (mark_bits p) n)[cells_of a := True]" using bitmap_set [OF bits(3) lt] by blast
  have "tile_bits (\<lambda>k. k \<noteq> Free) (a @ (Live, l) # b) = tile_bits (\<lambda>k. k \<noteq> Free) (a @ (k, l) # b)" using k by simp
  moreover have "(tile_bits (\<lambda>k. k \<noteq> Used) (a @ (k, l) # b))[cells_of a := True] = tile_bits (\<lambda>k. k \<noteq> Used) (a @ (Live, l) # b)"
    using tile_bits_retag [OF bits(1), of "\<lambda>k. k \<noteq> Used" Live] by simp
  moreover have "tiles_ok n (a @ (Live, l) # b)" using bits(1) by (simp add: tiles_ok_def)
  ultimately have "page_rep n (p\<lparr>mark_bits := m\<rparr>) (a @ (Live, l) # b)"
    using bits m by (simp add: page_rep_def del: tile_bits_append)
  then show thesis using page_tests(1) [OF rep] k m(1)
    by (intro that [of "p\<lparr>mark_bits := m\<rparr>"]) (simp_all add: set_cell_marked_def assert_that_def)
qed


subsection \<open>Searching for blocks\<close>

fun first_tile :: "(block_kind \<Rightarrow> bool) \<Rightarrow> nat \<Rightarrow> tiles \<Rightarrow> nat option" where
  "first_tile f off [] = None"
| "first_tile f off ((k, l) # ts) = (if f k then Some off else first_tile f (off + l) ts)"

lemma tile_bits_inside:
  assumes "tiles_ok n (a @ (k, l) # b)" and "cells_of a < i" and "i < cells_of a + l"
  shows "\<not> tile_bits f (a @ (k, l) # b) ! i"
proof -
  have len: "length (tile_bits f a) = cells_of a" using assms by (intro length_tile_bits) (auto simp: tiles_ok_append)
  have "tile_bits f (a @ (k, l) # b) ! i = (replicate (l - 1) False @ tile_bits f b) ! (i - cells_of a - 1)"
    using assms(2) by (simp add: nth_append len nth_Cons')
  also have "\<not> \<dots>"
  proof -
    have "i - cells_of a - 1 < l - 1" using assms(2,3) by linarith
    then show ?thesis by (simp add: nth_append)
  qed
  finally show ?thesis .
qed

lemma find_first_tile:
  assumes "tiles_ok n (a @ ts)" and "bits_list blocks n = tile_bits f (a @ ts)"
  shows "List.find (bit_at blocks) [cells_of a..<n] = first_tile f (cells_of a) ts"
  using assms
proof (induction ts arbitrary: a)
  case Nil
  then show ?case by (simp add: tiles_ok_def)
next
  case (Cons t ts)
  obtain k l where t: "t = (k, l)" by fastforce
  note ok = Cons(2) [unfolded t]
  have lt: "cells_of a < n" "0 < l" "cells_of a + l \<le> n" using tile_start_less [OF ok] by simp_all
  have head: "bit_at blocks (cells_of a) = f k"
    using bits_list_nth [OF lt(1), of blocks] Cons(3) tile_bits_at [OF ok, of f] t by metis
  have upt: "[cells_of a..<n] = cells_of a # [Suc (cells_of a)..<n]" using lt by (simp add: upt_conv_Cons)
  show ?case
  proof (cases "f k")
    case True
    then show ?thesis using upt head t by simp
  next
    case False
    have "List.find (bit_at blocks) [cells_of a..<cells_of a + l] = None"
    proof (rule find_none)
      fix i assume i: "i \<in> set [cells_of a..<cells_of a + l]"
      show "\<not> bit_at blocks i"
      proof (cases "i = cells_of a")
        case True
        then show ?thesis using head False by simp
      next
        case other: False
        then have "\<not> tile_bits f (a @ (k, l) # ts) ! i" using i by (intro tile_bits_inside [OF ok]) auto
        then show ?thesis using bits_list_nth [of i n blocks] i lt Cons(3) t by auto
      qed
    qed
    then have "List.find (bit_at blocks) [cells_of a..<n] = List.find (bit_at blocks) [cells_of a + l..<n]"
      using find_upt_split [of "cells_of a" "cells_of a + l" n "bit_at blocks"] lt by simp
    also have "\<dots> = first_tile f (cells_of a + l) ts"
      using Cons(1) [of "a @ [t]"] Cons(2,3) t by simp
    finally show ?thesis using False t by simp
  qed
qed

lemma find_set_tile:
  assumes "bitmap_ok blocks n" and "tiles_ok n (a @ ts)" and "bits_list blocks n = tile_bits f (a @ ts)"
  shows "find_set blocks n (cells_of a) = Some (first_tile f (cells_of a) ts)"
proof -
  have "cells_of a \<le> n" using assms(2) by (auto simp: tiles_ok_append)
  then show ?thesis using find_set_exact [of "cells_of a" n blocks] find_first_tile [OF assms(2,3)] assms(1)
    by (simp add: bitmap_ok_def)
qed

lemma first_tile_None: "first_tile f off ts = None \<longleftrightarrow> (\<forall>t \<in> set ts. \<not> f (fst t))"
  by (induction f off ts rule: first_tile.induct) auto

lemma first_tile_ge: "first_tile f off ts = Some x \<Longrightarrow> off \<le> x"
  by (induction f off ts rule: first_tile.induct) (auto split: if_splits)

lemma first_tile_skip: "\<forall>t \<in> set a. \<not> f (fst t) \<Longrightarrow> first_tile f off (a @ ts) = first_tile f (off + cells_of a) ts"
  by (induction f off a rule: first_tile.induct) (auto simp: add.assoc)

subsection \<open>The sweep of a page\<close>

fun age_block :: "block_kind \<Rightarrow> block_kind" where
  "age_block Free = Free"
| "age_block Used = Free"
| "age_block Live = Used"

abbreviation age_tiles :: "tiles \<Rightarrow> tiles" where
  "age_tiles \<equiv> map (map_prod age_block id)"

definition is_free_tile :: "block_kind \<times> nat \<Rightarrow> bool" where
  "is_free_tile t \<longleftrightarrow> fst t = Free"

function coalesce :: "tiles \<Rightarrow> tiles" where
  "coalesce [] = []"
| "coalesce ((k, l) # ts) =
     (if k = Free then (Free, l + cells_of (takeWhile is_free_tile ts)) # coalesce (dropWhile is_free_tile ts)
      else (k, l) # coalesce ts)"
  by pat_completeness auto
termination by (relation "measure length") (auto simp: le_imp_less_Suc length_dropWhile_le)

fun free_spans :: "nat \<Rightarrow> tiles \<Rightarrow> (nat \<times> nat) list" where
  "free_spans off [] = []"
| "free_spans off ((k, l) # ts) = (if k = Free then [(off, l)] else []) @ free_spans (off + l) ts"

definition free_total :: "tiles \<Rightarrow> nat" where
  "free_total ts = cells_of (filter is_free_tile ts)"

lemma cells_of_take_drop: "cells_of (takeWhile P ts) + cells_of (dropWhile P ts) = cells_of ts"
  by (metis map_append sum_list_append takeWhile_dropWhile_id)

lemma cells_of_coalesce [simp]: "cells_of (coalesce ts) = cells_of ts"
proof (induction ts rule: coalesce.induct)
  case (2 k l ts)
  then show ?case using cells_of_take_drop [of is_free_tile ts] by auto
qed simp

lemma coalesce_positive: "\<forall>t \<in> set ts. 0 < snd t \<Longrightarrow> \<forall>t \<in> set (coalesce ts). 0 < snd t"
proof (induction ts rule: coalesce.induct)
  case (2 k l ts)
  then show ?case by (auto dest: set_dropWhileD)
qed simp

lemma free_total_coalesce: "free_total (coalesce ts) = free_total ts"
proof (induction ts rule: coalesce.induct)
  case (2 k l ts)
  have "filter is_free_tile ts = takeWhile is_free_tile ts @ filter is_free_tile (dropWhile is_free_tile ts)"
    by (metis filter_append filter_True set_takeWhileD takeWhile_dropWhile_id)
  then show ?case using 2 by (auto simp: free_total_def is_free_tile_def)
qed (simp add: free_total_def)

lemma free_spans_append: "free_spans off (a @ b) = free_spans off a @ free_spans (off + cells_of a) b"
  by (induction off a rule: free_spans.induct) (auto simp: add.assoc)

lemma tile_bits_age:
  "map2 (\<and>) (tile_bits (\<lambda>k. k \<noteq> Free) ts) (tile_bits (\<lambda>k. k \<noteq> Used) ts) = tile_bits (\<lambda>k. k \<noteq> Free) (age_tiles ts)"
  "map2 (\<noteq>) (tile_bits (\<lambda>k. k \<noteq> Free) ts) (tile_bits (\<lambda>k. k \<noteq> Used) ts) = tile_bits (\<lambda>k. k \<noteq> Used) (age_tiles ts)"
proof (induction ts)
  case (Cons t ts)
  obtain k l where t: "t = (k, l)" by fastforce
  case 1
  then show ?case using Cons(1) by (cases k) (simp_all add: t zip_append zip_replicate)
  case 2
  then show ?case using Cons(2) by (cases k) (simp_all add: t zip_append zip_replicate)
qed simp_all

lemma bit_at_map2:
  fixes xs ys :: "u32 list"
  assumes "i div 32 < length xs" and "length xs = length ys"
  shows "bit_at (map2 (AND) xs ys) i \<longleftrightarrow> bit_at xs i \<and> bit_at ys i"
    and "bit_at (map2 (XOR) xs ys) i \<longleftrightarrow> bit_at xs i \<noteq> bit_at ys i"
  using assms by (simp_all add: bit_at_def bit_and_iff bit_xor_iff)

lemma bitmap_map2:
  assumes x: "bitmap_ok xs n" and y: "bitmap_ok ys n" and len: "length xs = length ys"
  shows "bitmap_ok (map2 (AND) xs ys) n" "bitmap_ok (map2 (XOR) xs ys) n"
    "bits_list (map2 (AND) xs ys) n = map2 (\<and>) (bits_list xs n) (bits_list ys n)"
    "bits_list (map2 (XOR) xs ys) n = map2 (\<noteq>) (bits_list xs n) (bits_list ys n)"
proof -
  have view: "bitset_view xs n" using x by (simp add: bitmap_ok_def)
  have in_range: "i div 32 < length xs" if "i < 32 * bitset_block_count TYPE(32) n" for i
    using that block_count_le [OF view] less_mult_imp_div_less [of i "bitset_block_count TYPE(32) n" 32] by (simp add: mult.commute)
  have at: "bit_at (map2 (AND) xs ys) i \<longleftrightarrow> bit_at xs i \<and> bit_at ys i"
    "bit_at (map2 (XOR) xs ys) i \<longleftrightarrow> bit_at xs i \<noteq> bit_at ys i" if "i < 32 * bitset_block_count TYPE(32) n" for i
    using bit_at_map2 [OF in_range [OF that] len] by simp_all
  have small: "i < 32 * bitset_block_count TYPE(32) n" if "i < n" for i
    using that block_count_bounds(1) [of n, where 'b = 32] by simp
  show "bitmap_ok (map2 (AND) xs ys) n" "bitmap_ok (map2 (XOR) xs ys) n"
    using x y len at by (simp_all add: bitmap_ok_def bitset_view_def tail_clear_def)
  show "bits_list (map2 (AND) xs ys) n = map2 (\<and>) (bits_list xs n) (bits_list ys n)"
    "bits_list (map2 (XOR) xs ys) n = map2 (\<noteq>) (bits_list xs n) (bits_list ys n)"
    by (rule nth_equalityI; simp add: bits_list_nth at small)+
qed

lemma sweep_bitmaps_rep:
  assumes rep: "page_rep n p ts"
  obtains p' where "sweep_bitmaps p = Some p'" "page_rep n p' (age_tiles ts)" "finalizers p' = finalizers p"
proof -
  note bits = page_rep_bits [OF rep]
  let ?p = "p\<lparr>block_bits := map2 (AND) (block_bits p) (mark_bits p), mark_bits := map2 (XOR) (block_bits p) (mark_bits p)\<rparr>"
  have "tiles_ok n (age_tiles ts)" using bits(1) by (auto simp: tiles_ok_def o_def map_prod_def split_beta)
  then have "page_rep n ?p (age_tiles ts)"
    using bitmap_map2 [OF bits(2,3,4)] bits tile_bits_age [of ts] by (simp add: page_rep_def)
  then show thesis using bits(4) by (intro that [of ?p]) (simp_all add: sweep_bitmaps_def)
qed


text \<open>Clearing the marks behind the first cell joins a run of free blocks.\<close>

lemma tile_bits_join:
  assumes ok: "tiles_ok n (a @ (Free, l) # fs @ b)" and F: "F = l + cells_of fs"
    and fs: "\<forall>t \<in> set fs. fst t = Free" and i: "i < n"
  shows "tile_bits f (a @ (Free, F) # b) ! i
    \<longleftrightarrow> tile_bits f (a @ (Free, l) # fs @ b) ! i \<and> \<not> (cells_of a + 1 \<le> i \<and> i < cells_of a + F)"
proof -
  let ?old = "tile_bits f (a @ (Free, l) # fs @ b)" and ?new = "tile_bits f (a @ (Free, F) # b)"
  have la: "length (tile_bits f a) = cells_of a" and lf: "length (tile_bits f fs) = cells_of fs" and l: "0 < l"
    using ok by (auto intro!: length_tile_bits simp: tiles_ok_append)
  have lr: "length (replicate (l - 1) False @ tile_bits f fs) = F - 1" using lf l F by simp
  consider "i < cells_of a" | "i = cells_of a" | "cells_of a < i" "i < cells_of a + F" | "cells_of a + F \<le> i" by linarith
  then show ?thesis
  proof cases
    case 1
    then show ?thesis by (simp add: nth_append la)
  next
    case 2
    then show ?thesis by (simp add: nth_append la)
  next
    case 3
    have "i - cells_of a - 1 < F - 1" using 3 by linarith
    then have "\<not> ?new ! i" using 3 by (simp add: nth_append la nth_Cons')
    then show ?thesis using 3 by simp
  next
    case 4
    have F1: "0 < F" using F l by simp
    have drop: "(xs @ ys) ! (i - cells_of a - 1) = ys ! (i - cells_of a - F)" if "length xs = F - 1" for xs ys :: "bool list"
    proof -
      have "\<not> i - cells_of a - 1 < F - 1" "i - cells_of a - 1 - (F - 1) = i - cells_of a - F" using 4 F1 by linarith+
      then show ?thesis unfolding nth_append that by (simp only: if_False)
    qed
    have "?new ! i = (replicate (F - 1) False @ tile_bits f b) ! (i - cells_of a - 1)"
      using 4 F1 by (simp add: nth_append la nth_Cons')
    moreover have "?old ! i = ((replicate (l - 1) False @ tile_bits f fs) @ tile_bits f b) ! (i - cells_of a - 1)"
      using 4 F1 by (simp add: nth_append la nth_Cons')
    ultimately have "?new ! i = ?old ! i" using drop [OF lr, of "tile_bits f b"] drop [of "replicate (F - 1) False" "tile_bits f b"] by simp
    then show ?thesis using 4 by simp
  qed
qed

lemma join_rep:
  assumes rep: "page_rep n p (a @ (Free, l) # fs @ b)" and fs: "\<forall>t \<in> set fs. fst t = Free" and F: "F = l + cells_of fs"
  obtains m where "bitset_clear_range (mark_bits p) n (cells_of a + 1) (F - 1) = Some m"
    "page_rep n (p\<lparr>mark_bits := m\<rparr>) (a @ (Free, F) # b)"
proof -
  note bits = page_rep_bits [OF rep]
  have l: "0 < l" "cells_of a + F \<le> n" using bits(1) F by (auto simp: tiles_ok_append)
  have view: "bitset_view (mark_bits p) n" using bits(3) by (simp add: bitmap_ok_def)
  obtain m where m: "bitset_clear_range (mark_bits p) n (cells_of a + 1) (F - 1) = Some m" "length m = length (mark_bits p)"
    "\<And>i. bit_at m i \<longleftrightarrow> bit_at (mark_bits p) i \<and> \<not> (cells_of a + 1 \<le> i \<and> i < cells_of a + 1 + (F - 1))"
    by (rule clear_range_at [OF view, of "cells_of a + 1" "F - 1"]) (use l F in \<open>simp, blast\<close>)
  have e: "cells_of a + 1 + (F - 1) = cells_of a + F" using l F by simp
  have m3: "bit_at m i \<longleftrightarrow> bit_at (mark_bits p) i \<and> \<not> (cells_of a + 1 \<le> i \<and> i < cells_of a + F)" for i
    unfolding m(3) e ..
  have ok: "tiles_ok n (a @ (Free, F) # b)" using bits(1) F by (auto simp: tiles_ok_append)
  have len: "length (tile_bits f (a @ (Free, F) # b)) = n" for f
    using length_tile_bits [of "a @ (Free, F) # b" f] ok by (simp add: tiles_ok_def del: tile_bits_append)
  have len': "length (tile_bits f (a @ (Free, l) # fs @ b)) = n" for f
    using length_tile_bits [of "a @ (Free, l) # fs @ b" f] bits(1) by (simp add: tiles_ok_def del: tile_bits_append)
  have marks: "bits_list m n = tile_bits (\<lambda>k. k \<noteq> Used) (a @ (Free, F) # b)"
  proof (rule nth_equalityI)
    fix i assume "i < length (bits_list m n)"
    then have i: "i < n" by simp
    then show "bits_list m n ! i = tile_bits (\<lambda>k. k \<noteq> Used) (a @ (Free, F) # b) ! i"
      using tile_bits_join [OF bits(1) F fs i, of "\<lambda>k. k \<noteq> Used"] bits_list_nth [OF i, of "mark_bits p"] bits(6)
      by (simp add: bits_list_nth m3 del: tile_bits_append)
  qed (simp add: len del: tile_bits_append)
  have starts: "tile_bits (\<lambda>k. k \<noteq> Free) (a @ (Free, l) # fs @ b) = tile_bits (\<lambda>k. k \<noteq> Free) (a @ (Free, F) # b)"
  proof (rule nth_equalityI)
    fix i assume "i < length (tile_bits (\<lambda>k. k \<noteq> Free) (a @ (Free, l) # fs @ b))"
    then have i: "i < n" using len' by simp
    have none: "first_tile (\<lambda>k. k \<noteq> Free) (cells_of a) ((Free, l) # fs @ b) = first_tile (\<lambda>k. k \<noteq> Free) (cells_of a + F) b"
      using first_tile_skip [of "(Free, l) # fs" "\<lambda>k. k \<noteq> Free" "cells_of a" b] fs F by simp
    have "List.find (bit_at (block_bits p)) [cells_of a..<n] = first_tile (\<lambda>k. k \<noteq> Free) (cells_of a + F) b"
      using find_first_tile [OF bits(1,5)] none by simp
    then have "\<not> bit_at (block_bits p) i" if "cells_of a \<le> i" "i < cells_of a + F"
      using that i first_tile_ge [of "\<lambda>k. k \<noteq> Free" "cells_of a + F" b]
      by (cases "first_tile (\<lambda>k. k \<noteq> Free) (cells_of a + F) b") (auto simp: find_None_iff find_Some_iff dest: spec [of _ "i - cells_of a"])
    then have "\<not> tile_bits (\<lambda>k. k \<noteq> Free) (a @ (Free, l) # fs @ b) ! i" if "cells_of a + 1 \<le> i" "i < cells_of a + F"
      using that bits(5) bits_list_nth [OF i, of "block_bits p"] by simp
    then show "tile_bits (\<lambda>k. k \<noteq> Free) (a @ (Free, l) # fs @ b) ! i = tile_bits (\<lambda>k. k \<noteq> Free) (a @ (Free, F) # b) ! i"
      using tile_bits_join [OF bits(1) F fs i, of "\<lambda>k. k \<noteq> Free"] by blast
  qed (simp only: len len')
  have tail: "bitmap_ok m n" using bits(3) m(2,3) by (auto simp: bitmap_ok_def bitset_view_def tail_clear_def)
  have "page_rep n (p\<lparr>mark_bits := m\<rparr>) (a @ (Free, F) # b)"
    unfolding page_rep_def using bits ok marks starts tail m(2) by (simp del: tile_bits_append)
  with m(1) show thesis by (rule that)
qed


text \<open>A registration that cannot fail on a free block.\<close>

definition registers :: "nat \<Rightarrow> (heap_page \<Rightarrow> nat \<Rightarrow> nat \<Rightarrow> 's \<Rightarrow> 's option) \<Rightarrow> (nat \<times> nat \<Rightarrow> 's \<Rightarrow> 's) \<Rightarrow> ('s \<Rightarrow> bool) \<Rightarrow> bool" where
  "registers n register reg I \<longleftrightarrow>
     (\<forall>p pos len s. is_free_block_start n p pos = Some True \<longrightarrow> 0 < len \<longrightarrow> pos + len \<le> n \<longrightarrow> I s
        \<longrightarrow> register p pos len s = Some (reg (pos, len) s) \<and> I (reg (pos, len) s))"

lemma registersD:
  "registers n register reg I \<Longrightarrow> is_free_block_start n p pos = Some True \<Longrightarrow> 0 < len \<Longrightarrow> pos + len \<le> n \<Longrightarrow> I s
    \<Longrightarrow> register p pos len s = Some (reg (pos, len) s) \<and> I (reg (pos, len) s)"
  unfolding registers_def by blast

lemma sweep_free_loop_correct:
  assumes reg: "registers n register reg I" and rep: "page_rep n p (a @ ts)" and kinds: "\<forall>t \<in> set ts. fst t \<noteq> Live" and inv: "I s"
  shows "\<exists>p'. sweep_free_loop register n (first_tile (\<lambda>k. k \<noteq> Used) (cells_of a) ts) fc p s
      = Some (fc + free_total ts, p', fold reg (free_spans (cells_of a) (coalesce ts)) s)
    \<and> page_rep n p' (a @ coalesce ts) \<and> finalizers p' = finalizers p \<and> I (fold reg (free_spans (cells_of a) (coalesce ts)) s)"
  using rep kinds inv
proof (induction "length ts" arbitrary: a ts p s fc rule: less_induct)
  case less
  show ?case
  proof (cases ts)
    case Nil
    then show ?thesis using less(2,4) by (subst sweep_free_loop.simps) (simp add: free_total_def)
  next
    case (Cons t r)
    obtain k l where t: "t = (k, l)" by fastforce
    show ?thesis
    proof (cases "k = Free")
      case False
      then have k: "k = Used" using less(3) Cons t by (cases k) auto
      then show ?thesis
        using less(1) [of r p "a @ [(Used, l)]" s fc] less(2-4) Cons t
        by (simp add: free_total_def is_free_tile_def)
    next
      case True
      obtain fs b where fb: "takeWhile is_free_tile r = fs" "dropWhile is_free_tile r = b" by blast
      then have r: "r = fs @ b" by (metis takeWhile_dropWhile_id)
      let ?F = "l + cells_of fs" and ?c = "cells_of a"
      have fs: "\<forall>t \<in> set fs. fst t = Free" using fb(1) by (auto simp: is_free_tile_def dest: set_takeWhileD)
      have rep: "page_rep n p (a @ (Free, l) # fs @ b)" using less(2) Cons t True r by simp
      note bits = page_rep_bits [OF rep]
      have sizes: "0 < l" "?c + ?F \<le> n" "?c + ?F + cells_of b = n" using bits(1) by (auto simp: tiles_ok_append)
      have start: "is_free_block_start n p ?c = Some True" using page_tests(2) [OF rep] by simp
      have live: "find_set (block_bits p) n ?c = Some (first_tile (\<lambda>k. k \<noteq> Free) (?c + ?F) b)"
        using find_set_tile [OF bits(2) bits(1) bits(5)] first_tile_skip [of "(Free, l) # fs" "\<lambda>k. k \<noteq> Free" ?c b] fs by simp
      have next_live: "first_tile (\<lambda>k. k \<noteq> Free) (?c + ?F) b = (if b = [] then None else Some (?c + ?F))"
      proof (cases b)
        case b: (Cons u us)
        then have "\<not> is_free_tile u" using fb(2) by (metis dropWhile_eq_Cons_conv)
        then show ?thesis using b by (cases u) (simp add: is_free_tile_def)
      next
        case Nil
        show ?thesis unfolding Nil by simp
      qed
      have size: "(case first_tile (\<lambda>k. k \<noteq> Free) (?c + ?F) b of Some x \<Rightarrow> x - ?c | None \<Rightarrow> n - ?c) = ?F"
        using next_live sizes by auto
      have reg': "register p ?c ?F s = Some (reg (?c, ?F) s) \<and> I (reg (?c, ?F) s)"
        by (rule registersD [OF reg start _ sizes(2) less(4)]) (use sizes in simp)
      obtain m where m: "bitset_clear_range (mark_bits p) n (?c + 1) (?F - 1) = Some m"
        "page_rep n (p\<lparr>mark_bits := m\<rparr>) (a @ (Free, ?F) # b)"
        by (rule join_rep [OF rep fs refl]) (rule that)
      have current: "first_tile (\<lambda>k. k \<noteq> Used) ?c ts = Some ?c" using Cons t True by simp
      have total: "free_total ts = ?F + free_total b"
      proof -
        have "filter is_free_tile fs = fs" using fs by (simp add: is_free_tile_def)
        then have "free_total r = cells_of fs + free_total b" by (simp add: r free_total_def)
        then show ?thesis using Cons t True by (simp add: free_total_def is_free_tile_def)
      qed
      have join: "coalesce ts = (Free, ?F) # coalesce b" using Cons t True fb by simp
      let ?p = "p\<lparr>mark_bits := m\<rparr>" and ?s = "reg (?c, ?F) s"
      show ?thesis
      proof (cases "b = []")
        case end_reached: True
        have "sweep_free_loop register n (Some ?c) fc p s = Some (fc + ?F, ?p, ?s)"
          using live next_live size reg' m(1) sizes end_reached by (subst sweep_free_loop.simps) (simp add: Let_def)
        then show ?thesis
          using current total join m(2) end_reached reg' by (auto simp: free_total_def)
      next
        case more: False
        have marks: "find_set (mark_bits ?p) n (?c + ?F) = Some (first_tile (\<lambda>k. k \<noteq> Used) (?c + ?F) b)"
          using find_set_tile [of "mark_bits ?p" n "a @ [(Free, ?F)]" b "\<lambda>k. k \<noteq> Used"] page_rep_bits [OF m(2)] by simp
        have step: "sweep_free_loop register n (Some ?c) fc p s
          = sweep_free_loop register n (first_tile (\<lambda>k. k \<noteq> Used) (?c + ?F) b) (fc + ?F) ?p ?s"
          using live next_live size reg' m(1) sizes more marks by (subst sweep_free_loop.simps) (simp add: Let_def)
        have "length b < length ts" using Cons r by simp
        moreover have "\<forall>t \<in> set b. fst t \<noteq> Live" using less(3) Cons r by auto
        ultimately obtain p' where "sweep_free_loop register n (first_tile (\<lambda>k. k \<noteq> Used) (cells_of (a @ [(Free, ?F)])) b) (fc + ?F) ?p ?s
            = Some (fc + ?F + free_total b, p', fold reg (free_spans (cells_of (a @ [(Free, ?F)])) (coalesce b)) ?s)"
          "page_rep n p' ((a @ [(Free, ?F)]) @ coalesce b)" "finalizers p' = finalizers ?p"
          "I (fold reg (free_spans (cells_of (a @ [(Free, ?F)])) (coalesce b)) ?s)"
          using less(1) [of b ?p "a @ [(Free, ?F)]" ?s "fc + ?F"] m(2) reg' by auto
        then show ?thesis using current step total join by (simp add: add.assoc)
      qed
    qed
  qed
qed


text \<open>Finalizers.\<close>

definition unmarked_blocks :: "tiles \<Rightarrow> nat set" where
  "unmarked_blocks ts = {cells_of a |a l b. ts = a @ (Used, l) # b}"

definition used_starts :: "tiles \<Rightarrow> nat set" where
  "used_starts ts = {cells_of a |a k l b. ts = a @ (k, l) # b \<and> k \<noteq> Free}"

definition marked_blocks :: "tiles \<Rightarrow> nat set" where
  "marked_blocks ts = {cells_of a |a l b. ts = a @ (Live, l) # b}"

lemma is_cell_marked_start:
  assumes "page_rep n p ts" and "i \<in> used_starts ts"
  shows "is_cell_marked n p i = Some (i \<in> marked_blocks ts)"
proof -
  obtain a k l b where i: "i = cells_of a" "ts = a @ (k, l) # b" "k \<noteq> Free" using assms(2) by (auto simp: used_starts_def)
  have m: "is_cell_marked n p i = Some (k = Live)" using page_tests(3) assms(1) i by blast
  have "k = Live" if marked: "i \<in> marked_blocks ts"
  proof -
    obtain a' l' b' where "i = cells_of a'" "ts = a' @ (Live, l') # b'" using marked by (auto simp: marked_blocks_def)
    then have "is_cell_marked n p i = Some True" using page_tests(3) [of n p a' Live l' b'] assms(1) by simp
    then show ?thesis using m by simp
  qed
  moreover have "i \<in> marked_blocks ts" if "k = Live" using that i by (auto simp: marked_blocks_def)
  ultimately show ?thesis using m by auto
qed

lemma invoke_finalizers_rep:
  assumes rep: "page_rep n p ts" and fin: "set (finalizers p) \<subseteq> used_starts ts"
  shows "invoke_finalizers n p =
    Some (filter (\<lambda>i. i \<notin> marked_blocks ts) (finalizers p), p\<lparr>finalizers := filter (\<lambda>i. i \<in> marked_blocks ts) (finalizers p)\<rparr>)"
proof -
  have "invoke_finalizers_loop n p is = Some (filter (\<lambda>i. i \<notin> marked_blocks ts) is, filter (\<lambda>i. i \<in> marked_blocks ts) is)"
    if "set is \<subseteq> used_starts ts" for "is"
    using that is_cell_marked_start [OF rep] by (induction "is") auto
  then show ?thesis using fin by (simp add: invoke_finalizers_def)
qed

text \<open>Sweeping a page.\<close>

definition swept :: "tiles \<Rightarrow> tiles" where
  "swept ts = coalesce (age_tiles ts)"

lemma page_rep_finalizers [simp]: "page_rep n (p\<lparr>finalizers := fs\<rparr>) ts = page_rep n p ts"
  by (simp add: page_rep_def)

lemma free_total_le: "free_total ts \<le> cells_of ts"
  by (induction ts) (auto simp: free_total_def)

lemma sweep_page_rep:
  assumes reg: "registers n register reg I" and rep: "page_rep n p ts" and fin: "set (finalizers p) \<subseteq> used_starts ts" and inv: "I s"
  obtains p' where "sweep_page register n p s = Some (filter (\<lambda>i. i \<notin> marked_blocks ts) (finalizers p),
      \<lparr>allocated_cells = n - free_total (swept ts), free_cells = free_total (swept ts)\<rparr>, p', fold reg (free_spans 0 (swept ts)) s)"
    "page_rep n p' (swept ts)" "finalizers p' = filter (\<lambda>i. i \<in> marked_blocks ts) (finalizers p)"
    "I (fold reg (free_spans 0 (swept ts)) s)"
proof -
  let ?p1 = "p\<lparr>finalizers := filter (\<lambda>i. i \<in> marked_blocks ts) (finalizers p)\<rparr>"
  have rep1: "page_rep n ?p1 ts" using rep by simp
  obtain p2 where p2: "sweep_bitmaps ?p1 = Some p2" "page_rep n p2 (age_tiles ts)" "finalizers p2 = finalizers ?p1"
    by (rule sweep_bitmaps_rep [OF rep1]) (rule that)
  note bits = page_rep_bits [OF p2(2)]
  have kinds: "\<forall>t \<in> set (age_tiles ts). fst t \<noteq> Live"
  proof -
    have "age_block k \<noteq> Live" for k by (cases k) simp_all
    then show ?thesis by auto
  qed
  have current: "find_set (mark_bits p2) n 0 = Some (first_tile (\<lambda>k. k \<noteq> Used) 0 (age_tiles ts))"
    using find_set_tile [of "mark_bits p2" n "[]" "age_tiles ts" "\<lambda>k. k \<noteq> Used"] bits by simp
  have "\<exists>p'. sweep_free_loop register n (first_tile (\<lambda>k. k \<noteq> Used) (cells_of []) (age_tiles ts)) 0 p2 s
      = Some (0 + free_total (age_tiles ts), p', fold reg (free_spans (cells_of []) (coalesce (age_tiles ts))) s)
    \<and> page_rep n p' ([] @ coalesce (age_tiles ts)) \<and> finalizers p' = finalizers p2
    \<and> I (fold reg (free_spans (cells_of []) (coalesce (age_tiles ts))) s)"
    by (rule sweep_free_loop_correct [OF reg _ kinds inv]) (simp add: p2(2))
  then obtain p' where p': "sweep_free_loop register n (first_tile (\<lambda>k. k \<noteq> Used) 0 (age_tiles ts)) 0 p2 s
      = Some (free_total (swept ts), p', fold reg (free_spans 0 (swept ts)) s)" "page_rep n p' (swept ts)" "finalizers p' = finalizers p2"
    "I (fold reg (free_spans 0 (swept ts)) s)"
    by (auto simp: swept_def free_total_coalesce)
  have "\<not> free_total (swept ts) > n"
    using free_total_le [of "swept ts"] page_rep_bits(1) [OF p'(2)] by (simp add: tiles_ok_def)
  then have "sweep_page register n p s = Some (filter (\<lambda>i. i \<notin> marked_blocks ts) (finalizers p),
      \<lparr>allocated_cells = n - free_total (swept ts), free_cells = free_total (swept ts)\<rparr>, p', fold reg (free_spans 0 (swept ts)) s)"
    using invoke_finalizers_rep [OF rep fin] p2(1) current p'(1) by (simp add: sweep_page_def)
  then show thesis using p' p2(3) by (intro that [of p']) simp_all
qed

text \<open>The size of a block.\<close>

lemma get_block_extent_rep:
  assumes rep: "page_rep n p (a @ (k, l) # b)"
  shows "get_block_extent n p (cells_of a) = Some l"
proof -
  note bits = page_rep_bits [OF rep]
  let ?c = "cells_of a"
  have lt: "?c < n" "0 < l" "?c + l \<le> n" using tile_start_less [OF bits(1)] by simp_all
  have search: "find_set blocks n (?c + 1) = Some (first_tile f (?c + l) b)"
    if blocks: "bitmap_ok blocks n" "bits_list blocks n = tile_bits f (a @ (k, l) # b)" for blocks f
  proof -
    have "List.find (bit_at blocks) [?c + 1..<?c + l] = None"
    proof (rule find_none)
      fix i assume "i \<in> set [?c + 1..<?c + l]"
      then have "i < n" "?c < i" "i < ?c + l" using lt by auto
      then show "\<not> bit_at blocks i"
        using tile_bits_inside [OF bits(1), of i f] bits_list_nth [of i n blocks] blocks(2) by simp
    qed
    moreover have "List.find (bit_at blocks) [?c + l..<n] = first_tile f (?c + l) b"
      using find_first_tile [of n "a @ [(k, l)]" b blocks f] bits(1) blocks(2) by simp
    ultimately have "List.find (bit_at blocks) [?c + 1..<n] = first_tile f (?c + l) b"
      using find_upt_split [of "?c + 1" "?c + l" n "bit_at blocks"] lt by simp
    then show ?thesis using find_set_exact [of "?c + 1" n blocks] blocks(1) lt by (simp add: bitmap_ok_def)
  qed
  let ?m = "first_tile (\<lambda>k. k \<noteq> Used) (?c + l) b" and ?f = "first_tile (\<lambda>k. k \<noteq> Free) (?c + l) b"
  have "min_pos (min_pos n ?m) ?f = ?c + l"
  proof (cases b)
    case Nil
    then show ?thesis using bits(1) by (simp add: min_pos_def tiles_ok_def)
  next
    case (Cons t ts)
    obtain k' l' where t: "t = (k', l')" by fastforce
    have "?m = Some (?c + l) \<or> ?f = Some (?c + l)" using Cons t by (cases k') auto
    then show ?thesis
      using lt first_tile_ge [of "\<lambda>k. k \<noteq> Used" "?c + l" b] first_tile_ge [of "\<lambda>k. k \<noteq> Free" "?c + l" b]
      by (auto simp: min_pos_def min_def split: option.split)
  qed
  then show ?thesis
    using lt search [OF bits(3,6)] search [OF bits(2,5)] by (simp add: get_block_extent_def Let_def)
qed


lemma coalesce_no_neighbours: "successively (\<lambda>s t. \<not> (is_free_tile s \<and> is_free_tile t)) (coalesce ts)"
proof (induction ts rule: coalesce.induct)
  case (2 k l ts)
  show ?case
  proof (cases "k = Free")
    case True
    have "\<not> is_free_tile (hd (coalesce (dropWhile is_free_tile ts)))" if "coalesce (dropWhile is_free_tile ts) \<noteq> []"
    proof (cases "dropWhile is_free_tile ts")
      case (Cons u us)
      then have "\<not> is_free_tile u" by (metis dropWhile_eq_Cons_conv)
      then show ?thesis using Cons by (cases u) (simp add: is_free_tile_def)
    next
      case Nil
      show ?thesis using that [unfolded Nil] by simp
    qed
    then show ?thesis using 2(1) [OF True] True by (cases "coalesce (dropWhile is_free_tile ts)") auto
  next
    case False
    then show ?thesis using 2(2) [OF False] by (cases "coalesce ts") (auto simp: is_free_tile_def)
  qed
qed simp

subsection \<open>Properties\<close>

text \<open>
  C31: The sweep of a page does what its table of bit patterns promises. For a page whose bitmaps
  stand for a division of the cells into free, unmarked and marked blocks, the sweep
  finalizes exactly the unmarked objects that have a finalizer, leaves every marked
  block in use and unmarked, turns every other block into free space, joins neighbouring free
  blocks completely, registers exactly the resulting free blocks in the order of their
  positions, and counts the cells; no check of the code fails.
\<close>

theorem sweep_page_exact:
  assumes "page_rep n p ts" and "set (finalizers p) \<subseteq> used_starts ts"
  shows "\<exists>p'. sweep_page (\<lambda>p pos len spans. Some (spans @ [(pos, len)])) n p []
      = Some (filter (\<lambda>i. i \<notin> marked_blocks ts) (finalizers p),
              \<lparr>allocated_cells = n - free_total (swept ts), free_cells = free_total (swept ts)\<rparr>, p', free_spans 0 (swept ts))
    \<and> page_rep n p' (swept ts) \<and> finalizers p' = filter (\<lambda>i. i \<in> marked_blocks ts) (finalizers p)
    \<and> successively (\<lambda>s t. \<not> (is_free_tile s \<and> is_free_tile t)) (swept ts)"
proof -
  let ?reg = "\<lambda>span spans. spans @ [span]"
  have reg: "registers n (\<lambda>p pos len spans. Some (spans @ [(pos, len)])) ?reg (\<lambda>_. True)" by (simp add: registers_def)
  have "fold ?reg xs ys = ys @ xs" for xs ys :: "(nat \<times> nat) list" by (induction xs arbitrary: ys) simp_all
  then obtain p' where "sweep_page (\<lambda>p pos len spans. Some (spans @ [(pos, len)])) n p []
      = Some (filter (\<lambda>i. i \<notin> marked_blocks ts) (finalizers p),
              \<lparr>allocated_cells = n - free_total (swept ts), free_cells = free_total (swept ts)\<rparr>, p', free_spans 0 (swept ts))"
    "page_rep n p' (swept ts)" "finalizers p' = filter (\<lambda>i. i \<in> marked_blocks ts) (finalizers p)"
    using sweep_page_rep [OF reg assms, of "[]"] by (metis append_Nil)
  moreover have "successively (\<lambda>s t. \<not> (is_free_tile s \<and> is_free_tile t)) (swept ts)"
    unfolding swept_def by (rule coalesce_no_neighbours)
  ultimately show ?thesis by blast
qed

theorem sweep_page_exact_witness:
  "\<exists>p'. sweep_page (\<lambda>p pos len spans. Some (spans @ [(pos, len)])) 4 \<lparr>block_bits = [0b0011], mark_bits = [0b0101], finalizers = [1]\<rparr> []
      = Some ([1], \<lparr>allocated_cells = 1, free_cells = 3\<rparr>, p', [(1, 3)])"
proof -
  let ?p = "\<lparr>block_bits = [0b0011], mark_bits = [0b0101], finalizers = [1]\<rparr>" and ?ts = "[(Live, 1), (Used, 1), (Free, 2)]"
  have rep: "page_rep 4 ?p ?ts" by code_simp
  have used: "set (finalizers ?p) \<subseteq> used_starts ?ts"
    by (auto simp: used_starts_def intro!: exI [of _ "[(Live, 1)]"])
  have notin: "1 \<notin> marked_blocks ?ts"
    by (auto simp: marked_blocks_def Cons_eq_append_conv)
  from sweep_page_exact [OF rep used] notin show ?thesis
    by (auto simp: swept_def is_free_tile_def free_total_def)
qed

end
