(* ===== verification/FreeSpace.thy ===== *)
theory FreeSpace
  imports PageTiles
begin

text \<open>
  The free space of the heap (class FreeSpace in src/vm/heap/heap.hpp, heap.cpp): free blocks on
  lists by size class, first fit within a class.

  A span of cells is the address of its page, the index of its first cell and its length. The
  links of a free list lie in the free cells themselves, which nobody else reads or writes; a list of
  the model is the list of the spans that the links visit.
\<close>

subsection \<open>Size classes\<close>

type_synonym cell_span = "nat \<times> nat \<times> nat"

record free_space =
  exp_size_classes :: u32
  free_lists :: "cell_span list list"

definition exact_size_classes :: u32 where
  "exact_size_classes = 15"

definition first_exp_size_class :: u32 where
  "first_exp_size_class = exact_size_classes + 1"

definition first_exp_size_class_log :: u32 where
  "first_exp_size_class_log = 4"

definition class_count :: "free_space \<Rightarrow> u32" where
  "class_count fs = exact_size_classes + exp_size_classes fs + 1"

definition new_free_space :: "u32 \<Rightarrow> free_space option" where
  "new_free_space cells =
     (let largest = drop_bit 2 (ceil_pow2_fast cells) in
      if largest < first_exp_size_class then None
      else let fs = \<lparr>exp_size_classes = (log2_fast largest - first_exp_size_class_log) * 2, free_lists = []\<rparr>
           in Some (fs\<lparr>free_lists := replicate (unat (class_count fs)) []\<rparr>))"

definition class_index :: "free_space \<Rightarrow> u32 \<Rightarrow> u32" where
  "class_index fs alloc =
     (if alloc \<le> exact_size_classes then alloc - 1
      else
        let log = log2_fast alloc; index = (log - first_exp_size_class_log) * 2;
            index = (if alloc - push_bit (unat log) 1 \<ge> push_bit (unat (log - 1)) 1 then index + 1 else index)
        in min (index + exact_size_classes) (class_count fs - 1))"

definition class_size :: "u32 \<Rightarrow> u32" where
  "class_size index =
     (if index < exact_size_classes then index + 1
      else
        let exp_index = first_exp_size_class_log + drop_bit 1 (index - exact_size_classes)
        in push_bit (unat exp_index) 1 OR push_bit (unat (exp_index - 1)) (1 AND (index + 1)))"

subsection \<open>Operations\<close>

fun first_fit :: "cell_span list \<Rightarrow> nat \<Rightarrow> (cell_span \<times> cell_span list) option" where
  "first_fit [] request = None"
| "first_fit ((pg, pos, len) # rest) request =
     (if len \<ge> request then Some ((pg, pos, len), rest)
      else map_option (\<lambda>(s, rest). (s, (pg, pos, len) # rest)) (first_fit rest request))"

definition insert_free :: "nat \<Rightarrow> nat \<Rightarrow> heap_page \<Rightarrow> nat \<Rightarrow> nat \<Rightarrow> free_space \<Rightarrow> free_space option" where
  "insert_free n pg p pos len fs =
     (if len = 0 then None
      else Option.bind (assert_that (is_free_block_start n p pos)) (\<lambda>_.
        let index = unat (class_index fs (of_nat len)) in
        if index < length (free_lists fs)
        then Some (fs\<lparr>free_lists := (free_lists fs)[index := (pg, pos, len) # free_lists fs ! index]\<rparr>)
        else None))"

definition insert_free_with_metadata ::
  "nat \<Rightarrow> nat \<Rightarrow> heap_page \<Rightarrow> nat \<Rightarrow> nat \<Rightarrow> free_space \<Rightarrow> (heap_page \<times> free_space) option" where
  "insert_free_with_metadata n pg p pos len fs =
     (if len = 0 then None
      else Option.bind (set_free n pos len p) (\<lambda>p. map_option (Pair p) (insert_free n pg p pos len fs)))"

definition reset_free_space :: "free_space \<Rightarrow> free_space" where
  "reset_free_space fs = fs\<lparr>free_lists := map (\<lambda>_. []) (free_lists fs)\<rparr>"

type_synonym page_map = "nat \<rightharpoonup> heap_page"

definition take_exact ::
  "nat \<Rightarrow> nat \<Rightarrow> cell_span \<Rightarrow> page_map \<times> free_space \<Rightarrow> ((nat \<times> nat) option \<times> page_map \<times> free_space) option" where
  "take_exact n request span st =
     (case (span, st) of ((pg, pos, len), (pages, fs)) \<Rightarrow>
        Option.bind (pages pg) (\<lambda>p.
        Option.bind (set_allocated n pos request p) (\<lambda>p.
          if len > request
          then Option.bind (insert_free_with_metadata n pg p (pos + request) (len - request) fs) (\<lambda>(p, fs).
                 Some (Some (pg, pos), pages(pg \<mapsto> p), fs))
          else Some (Some (pg, pos), pages(pg \<mapsto> p), fs))))"

function allocate_from ::
  "nat \<Rightarrow> nat \<Rightarrow> nat \<Rightarrow> page_map \<times> free_space \<Rightarrow> ((nat \<times> nat) option \<times> page_map \<times> free_space) option" where
  "allocate_from n request index (pages, fs) =
     (if index < length (free_lists fs)
      then (case first_fit (free_lists fs ! index) request of
              None \<Rightarrow> allocate_from n request (index + 1) (pages, fs)
            | Some (span, rest) \<Rightarrow>
                take_exact n request span (pages, fs\<lparr>free_lists := (free_lists fs)[index := rest]\<rparr>))
      else Some (None, pages, fs))"
  by pat_completeness auto
termination by (relation "measure (\<lambda>(n, request, index, pages, fs). length (free_lists fs) - index)") auto

definition allocate_exact ::
  "nat \<Rightarrow> nat \<Rightarrow> page_map \<times> free_space \<Rightarrow> ((nat \<times> nat) option \<times> page_map \<times> free_space) option" where
  "allocate_exact n request st =
     (if request = 0 then None
      else allocate_from n request (unat (class_index (snd st) (of_nat request))) st)"

fun chunk_from ::
  "nat \<Rightarrow> nat \<Rightarrow> nat \<Rightarrow> nat \<Rightarrow> page_map \<times> free_space \<Rightarrow> (cell_span option \<times> page_map \<times> free_space) option" where
  "chunk_from n request min_class 0 st = Some (None, st)"
| "chunk_from n request min_class (Suc index) (pages, fs) =
     (if index < min_class then Some (None, pages, fs)
      else (case first_fit (free_lists fs ! index) request of
              None \<Rightarrow> chunk_from n request min_class index (pages, fs)
            | Some ((pg, pos, len), rest) \<Rightarrow>
                Option.bind (pages pg) (\<lambda>p. Option.bind (set_allocated n pos len p) (\<lambda>p.
                  Some (Some (pg, pos, len), pages(pg \<mapsto> p), fs\<lparr>free_lists := (free_lists fs)[index := rest]\<rparr>)))))"

definition allocate_chunk ::
  "nat \<Rightarrow> nat \<Rightarrow> page_map \<times> free_space \<Rightarrow> (cell_span option \<times> page_map \<times> free_space) option" where
  "allocate_chunk n request st =
     (if request = 0 then None
      else chunk_from n request (unat (class_index (snd st) (of_nat request))) (length (free_lists (snd st))) st)"

subsection \<open>Size classes as numbers\<close>

definition classes_ok :: "free_space \<Rightarrow> bool" where
  "classes_ok fs \<longleftrightarrow> unat (exp_size_classes fs) \<le> 54 \<and> length (free_lists fs) = unat (class_count fs)"

lemma unat_class_count: "unat (exp_size_classes fs) \<le> 54 \<Longrightarrow> unat (class_count fs) = 16 + unat (exp_size_classes fs)"
  by (simp add: class_count_def exact_size_classes_def unat_word_ariths)

definition raw_class :: "nat \<Rightarrow> nat \<Rightarrow> nat" where
  "raw_class a l = (if a \<le> 15 then a - 1 else 15 + 2 * (l - 4) + (if 2 ^ l + 2 ^ (l - 1) \<le> a then 1 else 0))"

lemma log2_fast_32:
  assumes "(a :: u32) \<noteq> 0"
  shows "2 ^ unat (log2_fast a) \<le> unat a" "unat a < 2 ^ Suc (unat (log2_fast a))" "unat (log2_fast a) < 32"
  using log2_bounds [OF assms] log2_fast_eq [OF assms] by simp_all

lemma log_unique: "2 ^ l \<le> a \<Longrightarrow> a < 2 ^ Suc l \<Longrightarrow> 2 ^ k \<le> b \<Longrightarrow> b < 2 ^ Suc k \<Longrightarrow> a \<le> b \<Longrightarrow> l \<le> (k::nat)" for a b :: nat
  by (metis le_less_trans less_Suc_eq_le one_less_numeral_iff order_trans power_less_imp_less_exp semiring_norm(76))

lemma class_index_nat:
  assumes fs: "unat (exp_size_classes fs) \<le> 54" and a: "(a :: u32) \<noteq> 0"
  shows "unat (class_index fs a) = (if unat a \<le> 15 then unat a - 1 else min (raw_class (unat a) (unat (log2_fast a))) (unat (class_count fs) - 1))"
proof (cases "unat a \<le> 15")
  case True
  then have "a \<le> 15" by (simp add: word_le_nat_alt)
  then show ?thesis using True a by (simp add: class_index_def exact_size_classes_def unat_minus_one_word)
next
  case False
  let ?l = "unat (log2_fast a)"
  note log = log2_fast_32 [OF a]
  have "(2::nat) ^ 4 < 2 ^ Suc ?l" using log(2) False by simp
  then have l4: "4 \<le> ?l" by (metis less_Suc_eq_le one_less_numeral_iff power_less_imp_less_exp semiring_norm(76))
  have sub: "unat (log2_fast a - 4) = ?l - 4" "unat (log2_fast a - 1) = ?l - 1"
    using l4 by (simp_all add: unat_sub word_le_nat_alt)
  have p: "unat (push_bit ?l (1 :: u32)) = 2 ^ ?l" "unat (push_bit (?l - 1) (1 :: u32)) = 2 ^ (?l - 1)"
    using log(3) by (simp_all add: push_bit_of_1 unat_2p_word)
  have flag: "a - push_bit ?l 1 \<ge> push_bit (?l - 1) 1 \<longleftrightarrow> 2 ^ ?l + 2 ^ (?l - 1) \<le> unat a"
  proof -
    have "push_bit ?l 1 \<le> a" using p log(1) by (simp add: word_le_nat_alt)
    then show ?thesis using p log(1) by (auto simp: word_le_nat_alt unat_sub)
  qed
  have twice: "unat (x * 2) = 2 * unat x" if "unat x < 32" for x :: u32 using that by (simp add: unat_word_ariths)
  have idx: "unat ((log2_fast a - 4) * 2) = 2 * (?l - 4)" using twice [of "log2_fast a - 4"] sub(1) log(3) by simp
  have plus: "unat ((if Q then x + 1 else x) + 15) = 15 + unat x + (if Q then 1 else 0)" if "unat x < 64" for x :: u32 and Q
    using that by (simp add: unat_word_ariths)
  have "\<not> a \<le> 15" using False by (simp add: word_le_nat_alt)
  moreover have "unat ((if 2 ^ ?l + 2 ^ (?l - 1) \<le> unat a then (log2_fast a - 4) * 2 + 1 else (log2_fast a - 4) * 2) + 15)
    = raw_class (unat a) ?l"
    using plus [of "(log2_fast a - 4) * 2" "2 ^ ?l + 2 ^ (?l - 1) \<le> unat a"] idx log(3) False by (simp add: raw_class_def)
  moreover have "unat (class_count fs - 1) = unat (class_count fs) - 1"
    using unat_class_count [OF fs] by (intro unat_minus_one_word) (metis add_is_0 unsigned_0 zero_neq_numeral)
  moreover have "class_index fs a = min ((if 2 ^ ?l + 2 ^ (?l - 1) \<le> unat a then (log2_fast a - 4) * 2 + 1 else (log2_fast a - 4) * 2) + 15) (class_count fs - 1)"
    using calculation(1)
    by (simp only: class_index_def exact_size_classes_def first_exp_size_class_log_def flag [symmetric] sub(2) Let_def if_False)
  moreover have "unat (min x y) = min (unat x) (unat y)" for x y :: u32 by (simp add: min_def word_le_nat_alt)
  ultimately show ?thesis using False by (simp only: if_False)
qed


lemma raw_class_mono:
  assumes "0 < a" and "a \<le> b" and "15 < a \<Longrightarrow> 2 ^ l \<le> a \<and> a < 2 ^ Suc l" and "15 < b \<Longrightarrow> 2 ^ k \<le> b \<and> b < 2 ^ Suc k"
  shows "raw_class a l \<le> raw_class b k"
proof (cases "15 < a")
  case True
  then have b: "15 < b" using assms(2) by simp
  have le: "l \<le> k" using log_unique [of l a k b] assms True b by blast
  have "(2::nat) ^ 4 < 2 ^ Suc l" using assms(3) True by simp
  then have l4: "4 \<le> l" by (metis less_Suc_eq_le one_less_numeral_iff power_less_imp_less_exp semiring_norm(76))
  show ?thesis
  proof (cases "l = k")
    case True
    then show ?thesis using assms(2) \<open>15 < a\<close> b by (simp add: raw_class_def)
  next
    case False
    then have "Suc l \<le> k" using le by simp
    then have "Suc (2 * (l - 4)) \<le> 2 * (k - 4)" "l - 4 \<le> k - 4" using l4 by linarith+
    then show ?thesis using \<open>15 < a\<close> b by (simp add: raw_class_def)
  qed
next
  case False
  then have "a - 1 \<le> b - 1" "a - 1 \<le> 15" using assms(2) by linarith+
  then show ?thesis using False by (auto simp: raw_class_def)
qed

lemma class_index_mono:
  assumes fs: "unat (exp_size_classes fs) \<le> 54" and a: "(a :: u32) \<noteq> 0" and ab: "a \<le> b"
  shows "unat (class_index fs a) \<le> unat (class_index fs b)"
proof -
  have b: "b \<noteq> 0" using a ab by auto
  have pos: "0 < unat a" using a by (simp add: unat_gt_0)
  have le: "unat a \<le> unat b" using ab by (simp add: word_le_nat_alt)
  have raw: "raw_class (unat a) (unat (log2_fast a)) \<le> raw_class (unat b) (unat (log2_fast b))"
    using log2_fast_32 [OF a] log2_fast_32 [OF b] by (intro raw_class_mono pos le) simp_all
  have cc: "16 \<le> unat (class_count fs)" using unat_class_count [OF fs] by simp
  have low: "15 \<le> raw_class (unat b) (unat (log2_fast b))" if "15 < unat b" using that by (simp add: raw_class_def)
  show ?thesis
    unfolding class_index_nat [OF fs a] class_index_nat [OF fs b]
    using le raw cc low by (auto simp: min_def)
qed

lemma class_index_less:
  assumes fs: "unat (exp_size_classes fs) \<le> 54" and a: "(a :: u32) \<noteq> 0"
  shows "unat (class_index fs a) < unat (class_count fs)"
  unfolding class_index_nat [OF fs a] using unat_class_count [OF fs] by (auto simp: min_def)

lemma unat_class_size:
  assumes "unat i < 70"
  shows "unat (class_size i) = (if unat i < 15 then unat i + 1
    else let e = 4 + (unat i - 15) div 2 in 2 ^ e + (if even (unat i) then 2 ^ (e - 1) else 0))"
proof (cases "unat i < 15")
  case True
  then show ?thesis by (simp add: class_size_def exact_size_classes_def word_less_nat_alt unat_word_ariths)
next
  case False
  let ?e = "4 + (unat i - 15) div 2"
  have lt: "\<not> i < 15" using False by (simp add: word_less_nat_alt)
  have e: "unat (4 + drop_bit 1 (i - 15)) = ?e"
    using False assms by (simp add: unat_word_ariths unat_drop_bit unat_sub word_le_nat_alt)
  then have e1: "unat (4 + drop_bit 1 (i - 15) - 1) = ?e - 1"
    by (metis add_is_0 unat_minus_one_word unsigned_0 zero_neq_numeral)
  have e32: "?e < 32" using assms by (simp add: div_less_iff_less_mult)
  have odd: "1 AND (i + 1) = (if even (unat i) then 1 else 0)"
  proof -
    have "odd i \<longleftrightarrow> odd (unat i)" using bit_word_nat [of i 0] by (simp add: bit_0)
    then show ?thesis by (simp add: one_and_eq mod_2_eq_odd)
  qed
  have "push_bit ?e 1 OR push_bit (?e - 1) (1 :: u32) = push_bit ?e 1 + push_bit (?e - 1) 1"
    by (rule disjunctive_add [symmetric]) (auto simp: bit_simps)
  moreover have "unat (push_bit ?e (1 :: u32) + push_bit (?e - 1) 1) = 2 ^ ?e + 2 ^ (?e - 1)"
  proof -
    have "(2::nat) ^ ?e \<le> 2 ^ 32 div 2" using assms by (intro order_trans [OF power_increasing [of ?e 31]]) simp_all
    moreover have "(2::nat) ^ (?e - 1) < 2 ^ ?e" by simp
    ultimately have "(2::nat) ^ ?e + 2 ^ (?e - 1) < 2 ^ 32" by linarith
    then show ?thesis using e32 by (simp add: push_bit_of_1 unat_word_ariths unat_2p_word)
  qed
  ultimately show ?thesis
    using lt False e e1 odd e32
    by (simp add: class_size_def exact_size_classes_def first_exp_size_class_log_def Let_def push_bit_of_1 unat_2p_word)
qed


definition size_of_class :: "nat \<Rightarrow> nat" where
  "size_of_class i = (if i < 15 then i + 1
     else let e = 4 + (i - 15) div 2 in 2 ^ e + (if even i then 2 ^ (e - 1) else 0))"

lemma size_of_class_exp: "size_of_class (15 + 2 * m) = 2 ^ (4 + m)" "size_of_class (15 + 2 * m + 1) = 2 ^ (4 + m) + 2 ^ (3 + m)"
  by (simp_all add: size_of_class_def Let_def)

lemma class_cases: obtains "i < 15" | m where "i = 15 + 2 * m" | m where "i = 15 + 2 * m + (1::nat)"
proof -
  consider "i < 15" | "even (i - 15)" "15 \<le> i" | "odd (i - 15)" "15 \<le> i" by linarith
  then show thesis
  proof cases
    case 2
    then have "i = 15 + 2 * ((i - 15) div 2)" by simp
    then show thesis by (rule that(2))
  next
    case 3
    then have "i = 15 + 2 * ((i - 15) div 2) + 1" using odd_two_times_div_two_succ [of "i - 15"] by linarith
    then show thesis by (rule that(3))
  qed (rule that(1))
qed

lemma size_of_class_step: "size_of_class i < size_of_class (Suc i)"
proof (rule class_cases [of i])
  assume "i < 15"
  then show ?thesis by (cases "i = 14") (simp_all add: size_of_class_def)
next
  fix m assume "i = 15 + 2 * m"
  then show ?thesis using size_of_class_exp [of m] by simp
next
  fix m assume i: "i = 15 + 2 * m + 1"
  then have "Suc i = 15 + 2 * Suc m" by simp
  then show ?thesis using size_of_class_exp(1) [of "Suc m"] size_of_class_exp(2) [of m] i by (simp add: power_add)
qed

lemma size_of_class_mono: "i \<le> j \<Longrightarrow> size_of_class i \<le> size_of_class j"
  by (rule lift_Suc_mono_le) (rule less_imp_le [OF size_of_class_step])

lemma size_of_raw_class:
  assumes "0 < a" and "15 < a \<Longrightarrow> 2 ^ l \<le> a \<and> a < 2 ^ Suc l"
  shows "size_of_class (raw_class a l) \<le> a \<and> a < size_of_class (raw_class a l + 1)"
proof (cases "15 < a")
  case True
  have "(2::nat) ^ 4 < 2 ^ Suc l" using assms(2) True by simp
  then have "4 \<le> l" by (metis less_Suc_eq_le one_less_numeral_iff power_less_imp_less_exp semiring_norm(76))
  then obtain m where m: "l = 4 + m" by (metis le_iff_add)
  show ?thesis
  proof (cases "2 ^ l + 2 ^ (l - 1) \<le> a")
    case high: True
    then have "raw_class a l = 15 + 2 * m + 1" using True by (simp add: raw_class_def m)
    moreover have "15 + 2 * m + 1 + 1 = 15 + 2 * Suc m" by simp
    ultimately show ?thesis using size_of_class_exp(2) [of m] size_of_class_exp(1) [of "Suc m"] high assms(2) True
      by (simp add: m)
  next
    case low: False
    then have "raw_class a l = 15 + 2 * m" using True by (simp add: raw_class_def m)
    then show ?thesis using size_of_class_exp [of m] low assms(2) True by (simp add: m)
  qed
qed (use assms(1) in \<open>auto simp: raw_class_def size_of_class_def\<close>)

lemma unat_class_size_nat: "unat i < 70 \<Longrightarrow> unat (class_size i) = size_of_class (unat i)"
  using unat_class_size [of i] by (simp add: size_of_class_def)

subsection \<open>The free lists\<close>

text \<open>
  \<open>T\<close> gives the blocks of every page. The free lists hold every free block of every page
  once, in the list of its class.
\<close>

definition free_span_set :: "page_map \<Rightarrow> (nat \<Rightarrow> tiles) \<Rightarrow> cell_span set" where
  "free_span_set pages T = {(pg, pos, len). pages pg \<noteq> None \<and> (pos, len) \<in> set (free_spans 0 (T pg))}"

definition pages_rep :: "nat \<Rightarrow> page_map \<Rightarrow> (nat \<Rightarrow> tiles) \<Rightarrow> bool" where
  "pages_rep n pages T \<longleftrightarrow> (\<forall>pg p. pages pg = Some p \<longrightarrow> page_rep n p (T pg))"

definition lists_sorted :: "free_space \<Rightarrow> bool" where
  "lists_sorted fs \<longleftrightarrow> (\<forall>i < length (free_lists fs). \<forall>(pg, pos, len) \<in> set (free_lists fs ! i).
     0 < len \<and> len < 2 ^ 32 \<and> unat (class_index fs (of_nat len)) = i)"

definition space_ok :: "nat \<Rightarrow> page_map \<Rightarrow> (nat \<Rightarrow> tiles) \<Rightarrow> free_space \<Rightarrow> bool" where
  "space_ok n pages T fs \<longleftrightarrow> classes_ok fs \<and> pages_rep n pages T \<and> lists_sorted fs
     \<and> distinct (concat (free_lists fs)) \<and> set (concat (free_lists fs)) = free_span_set pages T"

lemma free_spans_bounds:
  "\<forall>t \<in> set ts. 0 < snd t \<Longrightarrow> (pos, len) \<in> set (free_spans off ts) \<Longrightarrow> off \<le> pos \<and> 0 < len \<and> pos + len \<le> off + cells_of ts"
  by (induction off ts rule: free_spans.induct) (auto split: if_splits)

lemma free_spans_tile:
  "(pos, len) \<in> set (free_spans off ts) \<Longrightarrow> \<exists>a b. ts = a @ (Free, len) # b \<and> pos = off + cells_of a"
proof (induction off ts rule: free_spans.induct)
  case (2 off k l ts)
  show ?case
  proof (cases "k = Free \<and> (pos, len) = (off, l)")
    case True
    then show ?thesis by (intro exI [of _ "[]"] exI [of _ ts]) auto
  next
    case False
    then have "(pos, len) \<in> set (free_spans (off + l) ts)" using 2(2) by (auto split: if_splits)
    from 2(1) [OF this] obtain a b where "ts = a @ (Free, len) # b" "pos = off + l + cells_of a" by blast
    then show ?thesis by (intro exI [of _ "(k, l) # a"] exI [of _ b]) simp
  qed
qed simp

lemma distinct_free_spans: "\<forall>t \<in> set ts. 0 < snd t \<Longrightarrow> distinct (free_spans off ts)"
proof (induction off ts rule: free_spans.induct)
  case (2 off k l ts)
  then show ?case using free_spans_bounds [of ts off l "off + l"] by auto
qed simp

text \<open>Replacing one free block.\<close>

lemma free_spans_replace:
  assumes ok: "tiles_ok n (a @ (Free, l) # b)" and new: "cells_of ts = l" "\<forall>t \<in> set ts. 0 < snd t"
  shows "set (free_spans 0 (a @ ts @ b))
    = (set (free_spans 0 (a @ (Free, l) # b)) - {(cells_of a, l)}) \<union> set (free_spans (cells_of a) ts)"
proof -
  have pos: "\<forall>t \<in> set a. 0 < snd t" "\<forall>t \<in> set b. 0 < snd t" "0 < l" using ok by (auto simp: tiles_ok_append)
  have "(cells_of a, l) \<notin> set (free_spans 0 a)" using free_spans_bounds [OF pos(1), of "cells_of a" l 0] pos(3) by auto
  moreover have "(cells_of a, l) \<notin> set (free_spans (cells_of a + l) b)"
    using free_spans_bounds [OF pos(2), of "cells_of a" l "cells_of a + l"] pos(3) by auto
  ultimately show ?thesis using new(1) by (auto simp: free_spans_append)
qed

lemma first_fit_None: "first_fit l r = None \<Longrightarrow> (pg, pos, len) \<in> set l \<Longrightarrow> len < r"
  by (induction l r rule: first_fit.induct) (auto split: if_splits)

lemma first_fit_Some:
  "first_fit l r = Some ((pg, pos, len), rest) \<Longrightarrow>
    \<exists>xs ys. l = xs @ (pg, pos, len) # ys \<and> rest = xs @ ys \<and> r \<le> len"
proof (induction l r arbitrary: rest rule: first_fit.induct)
  case (2 pg' pos' len' l r)
  show ?case
  proof (cases "r \<le> len'")
    case True
    then show ?thesis using 2(2) by (intro exI [of _ "[]"] exI [of _ l]) auto
  next
    case False
    then obtain rest' where "first_fit l r = Some ((pg, pos, len), rest')" "rest = (pg', pos', len') # rest'"
      using 2(2) by auto
    then show ?thesis using 2(1) [OF False] by (metis append_Cons)
  qed
qed simp

text \<open>Changes of one list.\<close>

lemma concat_update:
  assumes "i < length ls"
  shows "\<exists>A B. concat ls = A @ ls ! i @ B \<and> (\<forall>x. concat (ls[i := x]) = A @ x @ B)"
proof -
  have "ls = take i ls @ ls ! i # drop (Suc i) ls" by (rule id_take_nth_drop [OF assms])
  then have "concat ls = concat (take i ls) @ ls ! i @ concat (drop (Suc i) ls)" by (metis concat.simps(2) concat_append)
  moreover have "concat (ls[i := x]) = concat (take i ls) @ x @ concat (drop (Suc i) ls)" for x
    using assms by (simp add: upd_conv_take_nth_drop)
  ultimately show ?thesis by blast
qed

lemma remove_span:
  assumes "i < length ls" and "ls ! i = xs @ s # ys" and "distinct (concat ls)"
  shows "distinct (concat (ls[i := xs @ ys]))" "set (concat (ls[i := xs @ ys])) = set (concat ls) - {s}"
proof -
  obtain A B where AB: "concat ls = A @ (xs @ s # ys) @ B" "concat (ls[i := xs @ ys]) = A @ (xs @ ys) @ B"
    using concat_update [OF assms(1)] assms(2) by metis
  then show "distinct (concat (ls[i := xs @ ys]))" using assms(3) by auto
  show "set (concat (ls[i := xs @ ys])) = set (concat ls) - {s}" using AB assms(3) by auto
qed

lemma add_span:
  assumes "i < length ls" and "distinct (concat ls)" and "s \<notin> set (concat ls)"
  shows "distinct (concat (ls[i := s # ls ! i]))" "set (concat (ls[i := s # ls ! i])) = insert s (set (concat ls))"
proof -
  obtain A B where AB: "concat ls = A @ ls ! i @ B" "concat (ls[i := s # ls ! i]) = A @ (s # ls ! i) @ B"
    using concat_update [OF assms(1)] by metis
  then show "distinct (concat (ls[i := s # ls ! i]))" using assms(2,3) by auto
  show "set (concat (ls[i := s # ls ! i])) = insert s (set (concat ls))" using AB by auto
qed

lemma class_index_lists [simp]: "class_index (fs\<lparr>free_lists := ls\<rparr>) a = class_index fs a"
  by (simp add: class_index_def class_count_def)

lemma class_count_lists [simp]: "class_count (fs\<lparr>free_lists := ls\<rparr>) = class_count fs"
  by (simp add: class_count_def)

lemma of_nat_u32: "0 < len \<Longrightarrow> len < 2 ^ 32 \<Longrightarrow> (of_nat len :: u32) \<noteq> 0 \<and> unat (of_nat len :: u32) = len"
proof -
  assume len: "0 < len" "len < 2 ^ 32"
  then have "unat (of_nat len :: u32) = len" by (simp add: unat_of_nat)
  then show ?thesis using len(1) by (metis less_numeral_extra(3) unsigned_0)
qed

text \<open>Registering a free block.\<close>

lemma insert_free_ok:
  assumes classes: "classes_ok fs" and sorted: "lists_sorted fs" and distinct: "distinct (concat (free_lists fs))"
    and new: "(pg, pos, len) \<notin> set (concat (free_lists fs))" and start: "is_free_block_start n p pos = Some True"
    and len: "0 < len" "len < 2 ^ 32"
  obtains fs' where "insert_free n pg p pos len fs = Some fs'" "classes_ok fs'" "lists_sorted fs'"
    "distinct (concat (free_lists fs'))" "set (concat (free_lists fs')) = insert (pg, pos, len) (set (concat (free_lists fs)))"
proof -
  note u = of_nat_u32 [OF len]
  let ?i = "unat (class_index fs (of_nat len))"
  let ?fs = "fs\<lparr>free_lists := (free_lists fs)[?i := (pg, pos, len) # free_lists fs ! ?i]\<rparr>"
  have i: "?i < length (free_lists fs)"
    using class_index_less [of fs "of_nat len"] u classes by (simp add: classes_ok_def)
  have "lists_sorted ?fs"
    unfolding lists_sorted_def
  proof (intro allI impI)
    fix j assume j: "j < length (free_lists ?fs)"
    then have "\<forall>(pg, pos, len) \<in> set (free_lists fs ! j). 0 < len \<and> len < 2 ^ 32 \<and> unat (class_index fs (of_nat len)) = j"
      using sorted by (auto simp: lists_sorted_def)
    then show "\<forall>(pg, pos, len) \<in> set (free_lists ?fs ! j). 0 < len \<and> len < 2 ^ 32 \<and> unat (class_index ?fs (of_nat len)) = j"
      using i len j by (cases "j = ?i") auto
  qed
  moreover have "insert_free n pg p pos len fs = Some ?fs"
    using len i start by (simp add: insert_free_def assert_that_def Let_def)
  moreover have "classes_ok ?fs" using classes by (simp add: classes_ok_def)
  ultimately show thesis using add_span [OF i distinct new] by (intro that [of ?fs]) simp_all
qed

lemma pages_rep_update: "pages_rep n pages T \<Longrightarrow> page_rep n p ts \<Longrightarrow> pages_rep n (pages(pg \<mapsto> p)) (T(pg := ts))"
  by (simp add: pages_rep_def)

lemma free_span_set_update:
  "free_span_set (pages(pg \<mapsto> p)) (T(pg := ts)) = (free_span_set pages T - {s. fst s = pg}) \<union> {(pg, pos, len) |pos len. (pos, len) \<in> set (free_spans 0 ts)}"
  by (auto simp: free_span_set_def split: if_splits)

text \<open>The blocks of a page after an allocation.\<close>

definition carve :: "tiles \<Rightarrow> nat \<Rightarrow> nat \<Rightarrow> tiles \<Rightarrow> tiles" where
  "carve a request l b = a @ (Used, request) # (if request < l then (Free, l - request) # b else b)"

lemma take_exact_ok:
  assumes ok: "space_ok n pages T fs" and i: "i < length (free_lists fs)" and l: "free_lists fs ! i = xs @ (pg, pos, len) # ys"
    and request: "0 < request" "request \<le> len" and n: "n < 2 ^ 32"
  obtains a b p p' fs' where "T pg = a @ (Free, len) # b" "cells_of a = pos" "pages pg = Some p"
    "take_exact n request (pg, pos, len) (pages, fs\<lparr>free_lists := (free_lists fs)[i := xs @ ys]\<rparr>) = Some (Some (pg, pos), pages(pg \<mapsto> p'), fs')"
    "finalizers p' = finalizers p" "space_ok n (pages(pg \<mapsto> p')) (T(pg := carve a request len b)) fs'"
proof -
  have classes: "classes_ok fs" and pages: "pages_rep n pages T" and sorted: "lists_sorted fs"
    and distinct: "distinct (concat (free_lists fs))" and all: "set (concat (free_lists fs)) = free_span_set pages T"
    using ok by (auto simp: space_ok_def)
  have "free_lists fs ! i \<in> set (free_lists fs)" using i by simp
  then have "(pg, pos, len) \<in> set (concat (free_lists fs))" using l by (metis UN_I in_set_conv_decomp set_concat)
  then have "pages pg \<noteq> None" "(pos, len) \<in> set (free_spans 0 (T pg))" unfolding all by (auto simp: free_span_set_def)
  then obtain p a b where p: "pages pg = Some p" and ab: "T pg = a @ (Free, len) # b" "pos = cells_of a"
    using free_spans_tile by (metis add_0 not_Some_eq)
  have "page_rep n p (T pg)" using pages p by (simp add: pages_rep_def)
  then have rep: "page_rep n p (a @ (Free, len) # b)" using ab(1) by simp
  note tiles = page_rep_bits(1) [OF rep]
  have small: "cells_of a + len \<le> n" "0 < len" using tile_start_less [OF tiles] by simp_all
  let ?fs1 = "fs\<lparr>free_lists := (free_lists fs)[i := xs @ ys]\<rparr>"
  note removed = remove_span [OF i l distinct]
  have classes1: "classes_ok ?fs1" using classes by (simp add: classes_ok_def)
  have sorted1: "lists_sorted ?fs1"
    unfolding lists_sorted_def
  proof (intro allI impI)
    fix j assume j: "j < length (free_lists ?fs1)"
    then have "\<forall>(pg, pos, len) \<in> set (free_lists fs ! j). 0 < len \<and> len < 2 ^ 32 \<and> unat (class_index fs (of_nat len)) = j"
      using sorted by (auto simp: lists_sorted_def)
    then show "\<forall>(pg, pos, len) \<in> set (free_lists ?fs1 ! j). 0 < len \<and> len < 2 ^ 32 \<and> unat (class_index ?fs1 (of_nat len)) = j"
      using l j by (cases "j = i") auto
  qed
  obtain p1 where p1: "set_allocated n pos request p = Some p1" "page_rep n p1 (a @ (Used, len) # b)" "finalizers p1 = finalizers p"
    using set_allocated_rep [OF rep request] ab(2) by metis
  have replaced: "free_span_set (pages(pg \<mapsto> q)) (T(pg := a @ ts @ b))
      = (free_span_set pages T - {(pg, pos, len)}) \<union> {(pg, x, y) |x y. (x, y) \<in> set (free_spans pos ts)}"
    if "cells_of ts = len" "\<forall>t \<in> set ts. 0 < snd t" for ts q
    unfolding free_span_set_update free_spans_replace [OF tiles that] using p ab by (auto simp: free_span_set_def)
  show thesis
  proof (cases "request < len")
    case True
    obtain p2 where p2: "set_free n (pos + request) (len - request) p1 = Some p2"
      "page_rep n p2 (a @ (Used, request) # (Free, len - request) # b)" "finalizers p2 = finalizers p1"
      using set_free_rest [OF p1(2) request(1) True] ab(2) by metis
    have start: "is_free_block_start n p2 (pos + request) = Some True"
      using page_tests(2) [of n p2 "a @ [(Used, request)]" Free "len - request" b] p2(2) ab(2) by simp
    have spans: "{(pg, x, y) |x y. (x, y) \<in> set (free_spans pos [(Used, request), (Free, len - request)])} = {(pg, pos + request, len - request)}"
      by auto
    have "(pos + request, len - request) \<notin> set (free_spans 0 (T pg))"
    proof
      assume "(pos + request, len - request) \<in> set (free_spans 0 (T pg))"
      then consider "(pos + request, len - request) \<in> set (free_spans 0 a)"
        | "(pos + request, len - request) \<in> set (free_spans (cells_of a + len) b)"
        using request(1) ab by (auto simp: free_spans_append)
      then show False
        using free_spans_bounds [of a "pos + request" "len - request" 0] free_spans_bounds [of b "pos + request" "len - request" "cells_of a + len"]
          tiles True ab(2) request by cases (auto simp: tiles_ok_append)
    qed
    then have new: "(pg, pos + request, len - request) \<notin> set (concat (free_lists ?fs1))"
      using removed(2) all by (auto simp: free_span_set_def)
    obtain fs' where fs': "insert_free n pg p2 (pos + request) (len - request) ?fs1 = Some fs'" "classes_ok fs'" "lists_sorted fs'"
      "distinct (concat (free_lists fs'))"
      "set (concat (free_lists fs')) = insert (pg, pos + request, len - request) (set (concat (free_lists ?fs1)))"
      by (rule insert_free_ok [OF classes1 sorted1 _ new start]) (use removed(1) True small n in auto)
    have "free_span_set (pages(pg \<mapsto> p2)) (T(pg := a @ [(Used, request), (Free, len - request)] @ b))
      = insert (pg, pos + request, len - request) (free_span_set pages T - {(pg, pos, len)})"
      using replaced [of "[(Used, request), (Free, len - request)]" p2] True request(1) spans by auto
    then have "space_ok n (pages(pg \<mapsto> p2)) (T(pg := carve a request len b)) fs'"
      using fs' pages_rep_update [OF pages p2(2)] removed(2) all True by (simp add: space_ok_def carve_def)
    moreover have "take_exact n request (pg, pos, len) (pages, ?fs1) = Some (Some (pg, pos), pages(pg \<mapsto> p2), fs')"
      using p p1(1) p2(1) fs'(1) True by (simp add: take_exact_def insert_free_with_metadata_def)
    ultimately show thesis using that ab p p1(3) p2(3) by metis
  next
    case False
    then have eq: "request = len" using request by simp
    have "free_span_set (pages(pg \<mapsto> p1)) (T(pg := a @ [(Used, len)] @ b)) = free_span_set pages T - {(pg, pos, len)}"
      using replaced [of "[(Used, len)]" p1] small(2) by auto
    then have "space_ok n (pages(pg \<mapsto> p1)) (T(pg := carve a request len b)) ?fs1"
      using classes1 sorted1 pages_rep_update [OF pages p1(2)] removed all eq by (simp add: space_ok_def carve_def)
    moreover have "take_exact n request (pg, pos, len) (pages, ?fs1) = Some (Some (pg, pos), pages(pg \<mapsto> p1), ?fs1)"
      using p p1(1) eq by (simp add: take_exact_def)
    ultimately show thesis using that ab p p1(3) by metis
  qed
qed

text \<open>What a successful allocation does.\<close>

definition allocation_ok ::
  "nat \<Rightarrow> nat \<Rightarrow> page_map \<Rightarrow> (nat \<Rightarrow> tiles) \<Rightarrow> nat \<Rightarrow> nat \<Rightarrow> page_map \<Rightarrow> (nat \<Rightarrow> tiles) \<Rightarrow> free_space \<Rightarrow> bool" where
  "allocation_ok n request pages T pg pos pages' T' fs' \<longleftrightarrow>
     (\<exists>a len b p p'. T pg = a @ (Free, len) # b \<and> cells_of a = pos \<and> request \<le> len \<and> T' = T(pg := carve a request len b)
        \<and> pages pg = Some p \<and> pages' = pages(pg \<mapsto> p') \<and> finalizers p' = finalizers p \<and> space_ok n pages' T' fs')"

lemma allocate_from_ok:
  assumes ok: "space_ok n pages T fs" and request: "0 < request" and n: "n < 2 ^ 32"
  shows "(allocate_from n request i (pages, fs) = Some (None, pages, fs)
      \<and> (\<forall>j < length (free_lists fs). i \<le> j \<longrightarrow> (\<forall>(pg, pos, len) \<in> set (free_lists fs ! j). len < request)))
    \<or> (\<exists>pg pos pages' T' fs'. allocate_from n request i (pages, fs) = Some (Some (pg, pos), pages', fs')
      \<and> allocation_ok n request pages T pg pos pages' T' fs')"
proof (induction "length (free_lists fs) - i" arbitrary: i rule: less_induct)
  case less
  show ?case
  proof (cases "i < length (free_lists fs)")
    case False
    then show ?thesis by (intro disjI1) (subst allocate_from.simps, auto)
  next
    case i: True
    show ?thesis
    proof (cases "first_fit (free_lists fs ! i) request")
      case None
      then have step: "allocate_from n request i (pages, fs) = allocate_from n request (i + 1) (pages, fs)"
        using i by (subst allocate_from.simps) simp
      have small: "\<forall>(pg, pos, len) \<in> set (free_lists fs ! i). len < request" using first_fit_None [OF None] by auto
      have "length (free_lists fs) - (i + 1) < length (free_lists fs) - i" using i by simp
      from less [OF this] show ?thesis
      proof (elim disjE conjE)
        assume "allocate_from n request (i + 1) (pages, fs) = Some (None, pages, fs)"
          and rest: "\<forall>j < length (free_lists fs). i + 1 \<le> j \<longrightarrow> (\<forall>(pg, pos, len) \<in> set (free_lists fs ! j). len < request)"
        moreover have "\<forall>(pg, pos, len) \<in> set (free_lists fs ! j). len < request" if "j < length (free_lists fs)" "i \<le> j" for j
          using rest small that by (cases "j = i") auto
        ultimately show ?thesis using step by simp
      qed (simp only: step, blast)
    next
      case (Some r)
      obtain pg pos len rest where r: "r = ((pg, pos, len), rest)" by (metis prod.collapse)
      then obtain xs ys where l: "free_lists fs ! i = xs @ (pg, pos, len) # ys" "rest = xs @ ys" "request \<le> len"
        using first_fit_Some Some by blast
      obtain a b p p' fs' where taken: "T pg = a @ (Free, len) # b" "cells_of a = pos" "pages pg = Some p"
        "take_exact n request (pg, pos, len) (pages, fs\<lparr>free_lists := (free_lists fs)[i := xs @ ys]\<rparr>) = Some (Some (pg, pos), pages(pg \<mapsto> p'), fs')"
        "finalizers p' = finalizers p" "space_ok n (pages(pg \<mapsto> p')) (T(pg := carve a request len b)) fs'"
        by (rule take_exact_ok [OF ok i l(1) request l(3) n]) (rule that)
      then have "allocation_ok n request pages T pg pos (pages(pg \<mapsto> p')) (T(pg := carve a request len b)) fs'"
        unfolding allocation_ok_def using l(3) by blast
      moreover have "allocate_from n request i (pages, fs) = Some (Some (pg, pos), pages(pg \<mapsto> p'), fs')"
        using i Some r l(2) taken(4) by (subst allocate_from.simps) simp
      ultimately show ?thesis by blast
    qed
  qed
qed

lemma allocate_exact_ok:
  assumes ok: "space_ok n pages T fs" and request: "0 < request" "request < 2 ^ 32" and n: "n < 2 ^ 32"
  shows "(allocate_exact n request (pages, fs) = Some (None, pages, fs)
      \<and> (\<forall>(pg, pos, len) \<in> free_span_set pages T. len < request))
    \<or> (\<exists>pg pos pages' T' fs'. allocate_exact n request (pages, fs) = Some (Some (pg, pos), pages', fs')
      \<and> allocation_ok n request pages T pg pos pages' T' fs')"
proof -
  let ?i = "unat (class_index fs (of_nat request))"
  have exp: "unat (exp_size_classes fs) \<le> 54" using ok by (simp add: space_ok_def classes_ok_def)
  have large: "len < request"
    if small: "\<forall>j < length (free_lists fs). ?i \<le> j \<longrightarrow> (\<forall>(pg, pos, len) \<in> set (free_lists fs ! j). len < request)"
      and s: "(pg, pos, len) \<in> free_span_set pages T" for pg pos len
  proof (rule ccontr)
    assume "\<not> len < request"
    then have ge: "request \<le> len" by simp
    obtain l where "l \<in> set (free_lists fs)" "(pg, pos, len) \<in> set l" using ok s by (auto simp: space_ok_def)
    then obtain j where j: "j < length (free_lists fs)" "(pg, pos, len) \<in> set (free_lists fs ! j)" by (metis in_set_conv_nth)
    then have cls: "0 < len" "len < 2 ^ 32" "unat (class_index fs (of_nat len)) = j"
      using ok by (fastforce simp: space_ok_def lists_sorted_def)+
    have "(of_nat request :: u32) \<le> of_nat len"
      using of_nat_u32 [OF request] of_nat_u32 [OF cls(1,2)] ge by (simp add: word_le_nat_alt)
    then have "?i \<le> j" using class_index_mono [OF exp _, of "of_nat request" "of_nat len"] of_nat_u32 [OF request] cls(3) by simp
    then show False using small j ge by fastforce
  qed
  have run: "allocate_exact n request (pages, fs) = allocate_from n request ?i (pages, fs)"
    using request by (simp add: allocate_exact_def)
  from allocate_from_ok [OF ok request(1) n, of ?i] show ?thesis
    unfolding run using large by blast
qed

text \<open>
  The size classes of the free space partition the block sizes. A block of any size goes to the
  class with the largest size that does not exceed it, so that every block of a class is
  at least as large as the size of the class and, except in the last class, smaller than
  the size of the next one; a larger block never goes to a smaller class.
\<close>

lemma size_classes_exact:
  assumes "unat (exp_size_classes fs) \<le> 54" and "(a :: u32) \<noteq> 0"
  shows "class_index fs a < class_count fs
    \<and> class_size (class_index fs a) \<le> a
    \<and> (class_index fs a + 1 < class_count fs \<longrightarrow> a < class_size (class_index fs a + 1))
    \<and> (\<forall>b. a \<le> b \<longrightarrow> class_index fs a \<le> class_index fs b)"
proof -
  let ?i = "unat (class_index fs a)" and ?raw = "raw_class (unat a) (unat (log2_fast a))"
  note less = class_index_less [OF assms] and cc = unat_class_count [OF assms(1)]
  have small: "unat (class_count fs) \<le> 70" using cc assms(1) by simp
  have pos: "0 < unat a" using assms(2) by (simp add: unat_gt_0)
  have raw: "size_of_class ?raw \<le> unat a" "unat a < size_of_class (?raw + 1)"
    using size_of_raw_class [OF pos] log2_fast_32 [OF assms(2)] by blast+
  have i: "?i = min ?raw (unat (class_count fs) - 1)"
    unfolding class_index_nat [OF assms] using cc by (auto simp: raw_class_def)
  have "size_of_class ?i \<le> unat a"
    using raw(1) size_of_class_mono [of ?i ?raw] i by simp
  moreover have "unat a < size_of_class (?i + 1)" if "?i + 1 < unat (class_count fs)"
    using raw(2) i that by (simp add: min_def split: if_splits)
  moreover have "unat (class_index fs a + 1) = ?i + 1"
    using less small by (simp add: unat_word_ariths)
  moreover have "class_index fs a \<le> class_index fs b" if "a \<le> b" for b
    using class_index_mono [OF assms that] by (simp add: word_le_nat_alt)
  ultimately show ?thesis
    using less small unat_class_size_nat [of "class_index fs a"] unat_class_size_nat [of "class_index fs a + 1"]
    by (auto simp: word_le_nat_alt word_less_nat_alt)
qed

end
