(* ===== verification/Heap.thy ===== *)
theory Heap
  imports FreeSpace
begin

text \<open>
  The heap and its garbage collector (src/vm/heap/heap.hpp, heap.cpp, chunks.hpp, chunks.cpp,
  collector.hpp, collector.cpp): allocation from pages and of large objects, marking, sweeping and
  the choice of the next threshold.

  An object is a cell of a page or a large object. The two hash sets of chunks are lists in
  the order of their iteration, which nothing depends on. What the objects refer to is a
  parameter, the result of the tracing functions of the object layouts; the
  addresses of new chunks come from a parameter, too. The finalizers of dead objects run code of
  the embedding application, which is not part of the heap. \<open>None\<close> is a failed assertion.
\<close>

subsection \<open>State\<close>

datatype object_ref = PageObject nat nat | LargeObject nat

record large_object =
  lob_marked :: bool
  lob_finalizer :: bool
  lob_cells :: u32

record heap_stats =
  total_bytes :: u64
  allocated_bytes :: u64
  free_bytes :: u64
  allocated_objects :: u64

record heap =
  heap_layout :: page_layout
  lob_header :: u64
  heap_free :: free_space
  heap_pages :: page_map
  page_list :: "nat list"
  heap_lobs :: "nat \<rightharpoonup> large_object"
  lob_list :: "nat list"
  stats :: heap_stats
  max_size :: u64
  next_threshold :: u64

definition cells_per_page :: "heap \<Rightarrow> nat" where
  "cells_per_page h = unat (cells_size (heap_layout h))"

subsection \<open>Marking\<close>

fun mark_object :: "object_ref \<Rightarrow> heap \<times> object_ref list \<Rightarrow> (heap \<times> object_ref list) option" where
  "mark_object (LargeObject a) (h, to_trace) =
     (case heap_lobs h a of
        None \<Rightarrow> None
      | Some lob \<Rightarrow>
          if lob_marked lob then Some (h, to_trace)
          else Some (h\<lparr>heap_lobs := (heap_lobs h)(a \<mapsto> lob\<lparr>lob_marked := True\<rparr>)\<rparr>, LargeObject a # to_trace))"
| "mark_object (PageObject pg i) (h, to_trace) =
     (case heap_pages h pg of
        None \<Rightarrow> None
      | Some p \<Rightarrow>
          Option.bind (is_cell_marked (cells_per_page h) p i) (\<lambda>marked.
            if marked then Some (h, to_trace)
            else map_option (\<lambda>p. (h\<lparr>heap_pages := (heap_pages h)(pg \<mapsto> p)\<rparr>, PageObject pg i # to_trace))
                   (set_cell_marked (cells_per_page h) i True p)))"

fun mark_all :: "object_ref list \<Rightarrow> heap \<times> object_ref list \<Rightarrow> (heap \<times> object_ref list) option" where
  "mark_all [] st = Some st"
| "mark_all (x # xs) st = Option.bind (mark_object x st) (mark_all xs)"

text \<open>The vector of objects to trace is a stack whose head is the back of the vector.\<close>

partial_function (option) trace_loop ::
  "(object_ref \<Rightarrow> object_ref list) \<Rightarrow> nat \<Rightarrow> heap \<times> object_ref list \<Rightarrow> (nat \<times> heap) option" where
  "trace_loop refs n st =
     (case st of
        (h, []) \<Rightarrow> Some (n, h)
      | (h, x # to_trace) \<Rightarrow> Option.bind (mark_all (refs x) (h, to_trace)) (trace_loop refs (n + 1)))"

definition trace_heap :: "(object_ref \<Rightarrow> object_ref list) \<Rightarrow> object_ref list \<Rightarrow> heap \<Rightarrow> heap option" where
  "trace_heap refs roots h =
     Option.bind (mark_all roots (h, [])) (\<lambda>st.
       map_option (\<lambda>(n, h). h\<lparr>stats := (stats h)\<lparr>allocated_objects := of_nat n\<rparr>\<rparr>) (trace_loop refs 0 st))"

subsection \<open>Sweeping\<close>

definition lob_dynamic_size :: "heap \<Rightarrow> u32 \<Rightarrow> u64" where
  "lob_dynamic_size h n = lob_header h + ucast n * cell_size"

definition free_raw :: "u64 \<Rightarrow> heap \<Rightarrow> heap option" where
  "free_raw s h =
     (if s \<le> total_bytes (stats h) then Some (h\<lparr>stats := (stats h)\<lparr>total_bytes := total_bytes (stats h) - s\<rparr>\<rparr>) else None)"

fun sweep_lobs :: "nat list \<Rightarrow> heap \<Rightarrow> heap option" where
  "sweep_lobs [] h = Some h"
| "sweep_lobs (a # as) h =
     (case heap_lobs h a of
        None \<Rightarrow> None
      | Some lob \<Rightarrow>
          if \<not> lob_marked lob
          then Option.bind (free_raw (lob_dynamic_size h (lob_cells lob))
                 (h\<lparr>heap_lobs := (heap_lobs h)(a := None), lob_list := remove1 a (lob_list h)\<rparr>)) (sweep_lobs as)
          else sweep_lobs as
                 (h\<lparr>heap_lobs := (heap_lobs h)(a \<mapsto> lob\<lparr>lob_marked := False\<rparr>),
                    stats := (stats h)\<lparr>allocated_bytes := allocated_bytes (stats h) + ucast (lob_cells lob) * cell_size\<rparr>\<rparr>))"

fun sweep_pages :: "nat list \<Rightarrow> heap \<Rightarrow> heap option" where
  "sweep_pages [] h = Some h"
| "sweep_pages (pg # pgs) h =
     Option.bind (heap_pages h pg) (\<lambda>p.
     Option.bind (sweep_page (insert_free (cells_per_page h) pg) (cells_per_page h) p (heap_free h)) (\<lambda>(run, st, p, fs).
       sweep_pages pgs
         (h\<lparr>heap_pages := (heap_pages h)(pg \<mapsto> p), heap_free := fs,
            stats := (stats h)\<lparr>allocated_bytes := allocated_bytes (stats h) + of_nat (allocated_cells st) * cell_size,
                              free_bytes := free_bytes (stats h) + of_nat (free_cells st) * cell_size\<rparr>\<rparr>)))"

definition sweep_heap :: "heap \<Rightarrow> heap option" where
  "sweep_heap h =
     (let h = h\<lparr>stats := (stats h)\<lparr>free_bytes := 0, allocated_bytes := 0\<rparr>, heap_free := reset_free_space (heap_free h)\<rparr> in
      Option.bind (sweep_lobs (lob_list h) h) (\<lambda>h. sweep_pages (page_list h) h))"

definition compute_next_threshold :: "u64 \<Rightarrow> u64 \<Rightarrow> u64" where
  "compute_next_threshold last_threshold current =
     (if current \<le> (last_threshold div 3) * 2 then last_threshold
      else if current > max_pow2 then - 1
      else ceil_pow2_fast current)"

definition collect :: "(object_ref \<Rightarrow> object_ref list) \<Rightarrow> object_ref list option \<Rightarrow> heap \<Rightarrow> heap option" where
  "collect refs roots h =
     Option.bind (case roots of None \<Rightarrow> Some h | Some r \<Rightarrow> trace_heap refs r h) (\<lambda>h.
       map_option (\<lambda>h. h\<lparr>next_threshold := compute_next_threshold (next_threshold h) (allocated_bytes (stats h))\<rparr>) (sweep_heap h))"

subsection \<open>Allocation\<close>

text \<open>An exception leaves the heap as it is at that moment.\<close>

definition allocate_raw :: "(heap \<Rightarrow> nat option) \<Rightarrow> u64 \<Rightarrow> heap \<Rightarrow> ((heap_error + nat) \<times> heap) option" where
  "allocate_raw alloc s h =
     (if total_bytes (stats h) > max_size h then None
      else if s > max_size h - total_bytes (stats h) then Some (Inl MemoryLimit, h)
      else
        let h = h\<lparr>stats := (stats h)\<lparr>total_bytes := total_bytes (stats h) + s\<rparr>\<rparr> in
        Some (case alloc h of None \<Rightarrow> Inl AllocError | Some a \<Rightarrow> Inr a, h))"

definition add_page :: "(heap \<Rightarrow> nat option) \<Rightarrow> heap \<Rightarrow> ((heap_error + nat) \<times> heap) option" where
  "add_page alloc h =
     Option.bind (allocate_raw alloc (ucast (page_size (heap_layout h))) h) (\<lambda>(r, h).
       case r of
         Inl err \<Rightarrow> Some (Inl err, h)
       | Inr a \<Rightarrow>
           let p = new_page (unat (bitmap_items (heap_layout h))); n = cells_per_page h in
           map_option (\<lambda>(p, fs).
               (Inr a, h\<lparr>heap_pages := (heap_pages h)(a \<mapsto> p), page_list := page_list h @ [a], heap_free := fs,
                         stats := (stats h)\<lparr>free_bytes := free_bytes (stats h) + ucast (cells_size (heap_layout h)) * cell_size\<rparr>\<rparr>))
             (insert_free_with_metadata n a p 0 n (heap_free h)))"

definition add_lob :: "(heap \<Rightarrow> nat option) \<Rightarrow> u32 \<Rightarrow> heap \<Rightarrow> ((heap_error + nat) \<times> heap) option" where
  "add_lob alloc n h =
     (if n = 0 then None
      else Option.bind (allocate_raw alloc (lob_dynamic_size h n) h) (\<lambda>(r, h).
        Some (case r of
          Inl err \<Rightarrow> (Inl err, h)
        | Inr a \<Rightarrow> (Inr a, h\<lparr>heap_lobs := (heap_lobs h)(a \<mapsto> \<lparr>lob_marked = False, lob_finalizer = False, lob_cells = n\<rparr>),
                              lob_list := lob_list h @ [a]\<rparr>))))"

definition try_allocate :: "nat \<Rightarrow> heap \<Rightarrow> (object_ref option \<times> heap) option" where
  "try_allocate request h =
     map_option (\<lambda>(r, pages, fs). (map_option (\<lambda>(pg, i). PageObject pg i) r, h\<lparr>heap_pages := pages, heap_free := fs\<rparr>))
       (allocate_exact (cells_per_page h) request (heap_pages h, heap_free h))"

definition count_object :: "u64 \<Rightarrow> heap \<Rightarrow> heap" where
  "count_object bytes h = h\<lparr>stats := (stats h)\<lparr>allocated_objects := allocated_objects (stats h) + 1,
     allocated_bytes := allocated_bytes (stats h) + bytes\<rparr>\<rparr>"

definition use_free_bytes :: "u64 \<Rightarrow> heap \<Rightarrow> heap" where
  "use_free_bytes bytes h = h\<lparr>stats := (stats h)\<lparr>free_bytes := free_bytes (stats h) - bytes\<rparr>\<rparr>"

definition allocate_large :: "(heap \<Rightarrow> nat option) \<Rightarrow> u32 \<Rightarrow> u64 \<Rightarrow> heap \<Rightarrow> ((heap_error + object_ref) \<times> heap) option" where
  "allocate_large alloc n bytes h =
     map_option (\<lambda>(r, h). case r of Inl err \<Rightarrow> (Inl err, h) | Inr a \<Rightarrow> (Inr (LargeObject a), count_object bytes h)) (add_lob alloc n h)"

definition allocate_small ::
  "(heap \<Rightarrow> heap option) \<Rightarrow> (heap \<Rightarrow> nat option) \<Rightarrow> bool \<Rightarrow> nat \<Rightarrow> u64 \<Rightarrow> heap \<Rightarrow> ((heap_error + object_ref) \<times> heap) option" where
  "allocate_small gc alloc collector_ran request bytes h =
     (let finished = (\<lambda>x h. Some (Inr x, use_free_bytes bytes (count_object bytes h))) in
      Option.bind (try_allocate request h) (\<lambda>(result, h).
      Option.bind
        (if page_list h \<noteq> [] \<and> result = None \<and> \<not> collector_ran
         then Option.bind (gc h) (try_allocate request)
         else Some (result, h)) (\<lambda>(result, h).
      case result of
        Some x \<Rightarrow> finished x h
      | None \<Rightarrow>
          Option.bind (add_page alloc h) (\<lambda>(r, h).
            case r of
              Inl err \<Rightarrow> Some (Inl err, h)
            | Inr _ \<Rightarrow>
                Option.bind (try_allocate request h) (\<lambda>(result, h).
                  case result of Some x \<Rightarrow> finished x h | None \<Rightarrow> Some (Inl AllocError, h))))))"

definition allocate ::
  "(heap \<Rightarrow> heap option) \<Rightarrow> (heap \<Rightarrow> nat option) \<Rightarrow> size_t \<Rightarrow> heap \<Rightarrow> ((heap_error + object_ref) \<times> heap) option" where
  "allocate gc alloc bytes h =
     (if bytes = 0 then None
      else
        let collector_ran = allocated_bytes (stats h) \<ge> next_threshold h in
        Option.bind (if collector_ran then gc h else Some h) (\<lambda>h.
          let request = ucast (ceil_div bytes cell_size) :: u32 in
          if request \<ge> large_object_cells (heap_layout h) then allocate_large alloc request bytes h
          else allocate_small gc alloc collector_ran (unat request) bytes h))"

definition mark_heap_finalizer :: "object_ref \<Rightarrow> heap \<Rightarrow> heap option" where
  "mark_heap_finalizer x h =
     (case x of
        LargeObject a \<Rightarrow>
          map_option (\<lambda>lob. h\<lparr>heap_lobs := (heap_lobs h)(a \<mapsto> lob\<lparr>lob_finalizer := True\<rparr>)\<rparr>) (heap_lobs h a)
      | PageObject pg i \<Rightarrow>
          Option.bind (heap_pages h pg) (\<lambda>p.
            map_option (\<lambda>p. h\<lparr>heap_pages := (heap_pages h)(pg \<mapsto> p)\<rparr>) (mark_finalizer (cells_per_page h) i p)))"

definition new_heap :: "page_layout \<Rightarrow> u64 \<Rightarrow> heap option" where
  "new_heap layout header =
     map_option (\<lambda>fs. \<lparr>heap_layout = layout, lob_header = header, heap_free = fs, heap_pages = (\<lambda>_. None), page_list = [],
         heap_lobs = (\<lambda>_. None), lob_list = [],
         stats = \<lparr>total_bytes = 0, allocated_bytes = 0, free_bytes = 0, allocated_objects = 0\<rparr>,
         max_size = - 1, next_threshold = push_bit 20 1\<rparr>)
       (new_free_space (cells_size layout))"

definition set_max_size :: "u64 \<Rightarrow> heap \<Rightarrow> heap" where
  "set_max_size s h = h\<lparr>max_size := s\<rparr>"

subsection \<open>The end of a heap\<close>

fun destroy_pages :: "nat list \<Rightarrow> heap \<Rightarrow> heap option" where
  "destroy_pages [] h = Some h"
| "destroy_pages (pg # pgs) h =
     Option.bind (heap_pages h pg) (\<lambda>p.
     Option.bind (invoke_finalizers (cells_per_page h) p) (\<lambda>_.
     Option.bind (free_raw (ucast (page_size (heap_layout h))) (h\<lparr>heap_pages := (heap_pages h)(pg := None)\<rparr>)) (destroy_pages pgs)))"

fun destroy_lobs :: "nat list \<Rightarrow> heap \<Rightarrow> heap option" where
  "destroy_lobs [] h = Some h"
| "destroy_lobs (a # as) h =
     Option.bind (heap_lobs h a) (\<lambda>lob.
     Option.bind (free_raw (lob_dynamic_size h (lob_cells lob)) (h\<lparr>heap_lobs := (heap_lobs h)(a := None)\<rparr>)) (destroy_lobs as))"

definition destroy_heap :: "heap \<Rightarrow> heap option" where
  "destroy_heap h =
     Option.bind (destroy_pages (page_list h) h) (\<lambda>h.
     map_option (\<lambda>h. h\<lparr>lob_list := []\<rparr>) (destroy_lobs (lob_list h) (h\<lparr>page_list := []\<rparr>)))"

end
