(* ===== verification/HeapMark.thy ===== *)
theory HeapMark
  imports Heap
begin

text \<open>
  The marking phase of the collector finds exactly the reachable objects. The blocks of the pages
  are given by a function \<open>T\<close> that does not change while the collector marks; what changes is
  the set \<open>M\<close> of marked objects, of which the bitmaps and the flags of the large objects are a
  representation.
\<close>

subsection \<open>The objects of a heap\<close>

fun used_blocks :: "nat \<Rightarrow> tiles \<Rightarrow> (nat \<times> nat) list" where
  "used_blocks off [] = []"
| "used_blocks off ((k, l) # ts) = (if k = Free then [] else [(off, l)]) @ used_blocks (off + l) ts"

definition heap_contents :: "heap \<Rightarrow> (nat \<Rightarrow> tiles) \<Rightarrow> (object_ref \<times> nat) set" where
  "heap_contents h T = {(PageObject pg i, l) |pg i l. heap_pages h pg \<noteq> None \<and> (i, l) \<in> set (used_blocks 0 (T pg))}
     \<union> {(LargeObject a, unat (lob_cells lob)) |a lob. heap_lobs h a = Some lob}"

definition heap_objects :: "heap \<Rightarrow> (nat \<Rightarrow> tiles) \<Rightarrow> object_ref set" where
  "heap_objects h T = fst ` heap_contents h T"

lemma used_blocks_append: "used_blocks off (a @ b) = used_blocks off a @ used_blocks (off + cells_of a) b"
  by (induction off a rule: used_blocks.induct) (auto simp: add.assoc)

lemma used_blocks_tile:
  "(i, l) \<in> set (used_blocks off ts) \<longleftrightarrow> (\<exists>a k b. ts = a @ (k, l) # b \<and> k \<noteq> Free \<and> i = off + cells_of a)"
proof
  show "(i, l) \<in> set (used_blocks off ts) \<Longrightarrow> \<exists>a k b. ts = a @ (k, l) # b \<and> k \<noteq> Free \<and> i = off + cells_of a"
  proof (induction off ts rule: used_blocks.induct)
    case (2 off k' l' ts)
    show ?case
    proof (cases "k' \<noteq> Free \<and> (i, l) = (off, l')")
      case True
      then show ?thesis by (intro exI [of _ "[]"] exI [of _ k'] exI [of _ ts]) auto
    next
      case False
      then have "(i, l) \<in> set (used_blocks (off + l') ts)" using 2(2) by (auto split: if_splits)
      from 2(1) [OF this] obtain a k b where "ts = a @ (k, l) # b" "k \<noteq> Free" "i = off + l' + cells_of a" by blast
      then show ?thesis by (intro exI [of _ "(k', l') # a"] exI [of _ k] exI [of _ b]) simp
    qed
  qed simp
qed (auto simp: used_blocks_append)

lemma used_starts_blocks: "used_starts ts = fst ` set (used_blocks 0 ts)"
proof -
  have "i \<in> used_starts ts \<longleftrightarrow> (\<exists>l. (i, l) \<in> set (used_blocks 0 ts))" for i
    unfolding used_blocks_tile used_starts_def by auto
  then show ?thesis by force
qed

lemma used_blocks_bounds:
  "\<forall>t \<in> set ts. 0 < snd t \<Longrightarrow> (i, l) \<in> set (used_blocks off ts) \<Longrightarrow> off \<le> i \<and> 0 < l \<and> i + l \<le> off + cells_of ts"
  by (induction off ts rule: used_blocks.induct) (auto split: if_splits)

lemma heap_objects_page: "PageObject pg i \<in> heap_objects h T \<longleftrightarrow> heap_pages h pg \<noteq> None \<and> i \<in> used_starts (T pg)"
  unfolding heap_objects_def heap_contents_def used_starts_blocks by force

lemma heap_objects_large: "LargeObject a \<in> heap_objects h T \<longleftrightarrow> heap_lobs h a \<noteq> None"
  unfolding heap_objects_def heap_contents_def by force

subsection \<open>Marked blocks\<close>

fun mark_tiles :: "(nat \<Rightarrow> bool) \<Rightarrow> nat \<Rightarrow> tiles \<Rightarrow> tiles" where
  "mark_tiles f off [] = []"
| "mark_tiles f off ((k, l) # ts) = ((if k = Free then Free else if f off then Live else Used), l) # mark_tiles f (off + l) ts"

lemma mark_tiles_append: "mark_tiles f off (a @ b) = mark_tiles f off a @ mark_tiles f (off + cells_of a) b"
  by (induction f off a rule: mark_tiles.induct) (auto simp: add.assoc)

lemma cells_of_mark_tiles [simp]: "cells_of (mark_tiles f off ts) = cells_of ts"
  by (induction f off ts rule: mark_tiles.induct) auto

lemma map_snd_mark_tiles [simp]: "map snd (mark_tiles f off ts) = map snd ts"
  by (induction f off ts rule: mark_tiles.induct) auto

lemma tiles_ok_mark_tiles: "tiles_ok n (mark_tiles f off ts) = tiles_ok n ts"
proof -
  have "snd ` set (mark_tiles f off ts) = snd ` set ts" by (metis map_snd_mark_tiles set_map)
  moreover have "(\<forall>t \<in> set us. 0 < snd t) \<longleftrightarrow> (\<forall>l \<in> snd ` set us. 0 < l)" for us :: tiles by simp
  ultimately have "(\<forall>t \<in> set (mark_tiles f off ts). 0 < snd t) \<longleftrightarrow> (\<forall>t \<in> set ts. 0 < snd t)" by metis
  then show ?thesis by (simp add: tiles_ok_def)
qed

lemma mark_tiles_cong:
  "\<forall>t \<in> set ts. 0 < snd t \<Longrightarrow> (\<And>i. off \<le> i \<Longrightarrow> i < off + cells_of ts \<Longrightarrow> f i = g i) \<Longrightarrow> mark_tiles f off ts = mark_tiles g off ts"
proof (induction g off ts rule: mark_tiles.induct)
  case (2 g off k l ts)
  have "f off = g off" using 2(2,3) by simp
  moreover have "mark_tiles f (off + l) ts = mark_tiles g (off + l) ts" using 2(2,3) by (intro 2(1)) auto
  ultimately show ?case by simp
qed simp

lemma mark_tiles_none: "\<forall>t \<in> set ts. fst t \<noteq> Live \<Longrightarrow> mark_tiles (\<lambda>_. False) off ts = ts"
proof (induction "\<lambda>_::nat. False" off ts rule: mark_tiles.induct)
  case (2 off k l ts)
  then show ?case by (cases k) auto
qed simp

lemma mark_tiles_at:
  assumes "tiles_ok n (a @ (k, l) # b)" and "k \<noteq> Free"
  shows "mark_tiles (\<lambda>i. i = cells_of a \<or> f i) 0 (a @ (k, l) # b) = mark_tiles f 0 a @ (Live, l) # mark_tiles f (cells_of a + l) b"
proof -
  have pos: "\<forall>t \<in> set a. 0 < snd t" "\<forall>t \<in> set b. 0 < snd t" "0 < l" using assms(1) by (auto simp: tiles_ok_append)
  have "mark_tiles (\<lambda>i. i = cells_of a \<or> f i) 0 a = mark_tiles f 0 a" by (rule mark_tiles_cong [OF pos(1)]) auto
  moreover have "mark_tiles (\<lambda>i. i = cells_of a \<or> f i) (cells_of a + l) b = mark_tiles f (cells_of a + l) b"
    by (rule mark_tiles_cong [OF pos(2)]) (use pos(3) in auto)
  ultimately show ?thesis using assms(2) by (simp add: mark_tiles_append)
qed

subsection \<open>Marking an object\<close>

definition page_marks :: "object_ref set \<Rightarrow> nat \<Rightarrow> tiles \<Rightarrow> tiles" where
  "page_marks M pg ts = mark_tiles (\<lambda>i. PageObject pg i \<in> M) 0 ts"

definition marked_rep :: "heap \<Rightarrow> (nat \<Rightarrow> tiles) \<Rightarrow> object_ref set \<Rightarrow> heap \<Rightarrow> bool" where
  "marked_rep h0 T M h \<longleftrightarrow>
     (\<exists>pages. h = h0\<lparr>heap_pages := pages, heap_lobs := \<lambda>a. map_option (\<lambda>l. l\<lparr>lob_marked := LargeObject a \<in> M\<rparr>) (heap_lobs h0 a)\<rparr>
        \<and> (\<forall>pg. (case heap_pages h0 pg of
             None \<Rightarrow> pages pg = None
           | Some p0 \<Rightarrow> \<exists>p. pages pg = Some p \<and> page_rep (cells_per_page h0) p (page_marks M pg (T pg)) \<and> finalizers p = finalizers p0)))"

lemma mark_object_large:
  assumes rep: "marked_rep h0 T M h" and x: "heap_lobs h0 a \<noteq> None"
  shows "\<exists>h'. mark_object (LargeObject a) (h, st) = Some (h', if LargeObject a \<in> M then st else LargeObject a # st)
    \<and> marked_rep h0 T (insert (LargeObject a) M) h'"
proof -
  obtain pages where pages: "h = h0\<lparr>heap_pages := pages, heap_lobs := \<lambda>a. map_option (\<lambda>l. l\<lparr>lob_marked := LargeObject a \<in> M\<rparr>) (heap_lobs h0 a)\<rparr>"
    and rest: "\<forall>pg. (case heap_pages h0 pg of
             None \<Rightarrow> pages pg = None
           | Some p0 \<Rightarrow> \<exists>p. pages pg = Some p \<and> page_rep (cells_per_page h0) p (page_marks M pg (T pg)) \<and> finalizers p = finalizers p0)"
    using rep by (auto simp: marked_rep_def)
  obtain l where l: "heap_lobs h0 a = Some l" using x by blast
  have marks: "page_marks (insert (LargeObject a) M) pg ts = page_marks M pg ts" for pg ts by (simp add: page_marks_def)
  have same: "\<forall>pg. (case heap_pages h0 pg of
             None \<Rightarrow> pages pg = None
           | Some p0 \<Rightarrow> \<exists>p. pages pg = Some p \<and> page_rep (cells_per_page h0) p (page_marks (insert (LargeObject a) M) pg (T pg)) \<and> finalizers p = finalizers p0)"
    unfolding marks by (rule rest)
  show ?thesis
  proof (cases "LargeObject a \<in> M")
    case True
    then show ?thesis using pages l rep by (simp add: insert_absorb)
  next
    case False
    let ?h = "h\<lparr>heap_lobs := (heap_lobs h)(a \<mapsto> l\<lparr>lob_marked := True\<rparr>)\<rparr>"
    have "(\<lambda>b. map_option (\<lambda>l. l\<lparr>lob_marked := LargeObject b \<in> insert (LargeObject a) M\<rparr>) (heap_lobs h0 b))
      = (heap_lobs h)(a \<mapsto> l\<lparr>lob_marked := True\<rparr>)"
      using l by (auto simp: pages fun_eq_iff)
    then have "marked_rep h0 T (insert (LargeObject a) M) ?h"
      unfolding marked_rep_def using same pages by (intro exI [of _ pages]) simp
    moreover have "mark_object (LargeObject a) (h, st) = Some (?h, LargeObject a # st)"
      using pages l False by simp
    ultimately show ?thesis using False by simp
  qed
qed

lemma mark_object_page:
  assumes rep: "marked_rep h0 T M h" and x: "heap_pages h0 pg \<noteq> None" "i \<in> used_starts (T pg)"
  shows "\<exists>h'. mark_object (PageObject pg i) (h, st) = Some (h', if PageObject pg i \<in> M then st else PageObject pg i # st)
    \<and> marked_rep h0 T (insert (PageObject pg i) M) h'"
proof -
  let ?n = "cells_per_page h0" and ?lobs = "\<lambda>M a. map_option (\<lambda>l. l\<lparr>lob_marked := LargeObject a \<in> M\<rparr>) (heap_lobs h0 a)"
  let ?x = "PageObject pg i"
  obtain pages where pages: "h = h0\<lparr>heap_pages := pages, heap_lobs := ?lobs M\<rparr>"
    and rest: "\<And>q. (case heap_pages h0 q of
             None \<Rightarrow> pages q = None
           | Some p0 \<Rightarrow> \<exists>p. pages q = Some p \<and> page_rep ?n p (page_marks M q (T q)) \<and> finalizers p = finalizers p0)"
    using rep by (auto simp: marked_rep_def)
  obtain p0 p where p: "heap_pages h0 pg = Some p0" "pages pg = Some p" "page_rep ?n p (page_marks M pg (T pg))" "finalizers p = finalizers p0"
    using rest [of pg] x(1) by auto
  obtain a k l b where ab: "i = cells_of a" "T pg = a @ (k, l) # b" "k \<noteq> Free" using x(2) by (auto simp: used_starts_def)
  let ?f = "\<lambda>i. PageObject pg i \<in> M"
  let ?k = "if ?x \<in> M then Live else Used"
  have split: "page_marks M pg (T pg) = mark_tiles ?f 0 a @ (?k, l) # mark_tiles ?f (cells_of a + l) b"
    using ab by (simp add: page_marks_def mark_tiles_append)
  have rep': "page_rep ?n p (mark_tiles ?f 0 a @ (?k, l) # mark_tiles ?f (cells_of a + l) b)" using p(3) split by simp
  have tiles: "tiles_ok ?n (a @ (k, l) # b)"
    using page_rep_bits(1) [OF p(3)] unfolding page_marks_def tiles_ok_mark_tiles ab(2) .
  have lobs: "?lobs (insert ?x M) = ?lobs M" by simp
  have test: "is_cell_marked ?n p i = Some (?x \<in> M)"
    using page_tests(3) [OF rep'] ab(1) by simp
  show ?thesis
  proof (cases "?x \<in> M")
    case True
    then show ?thesis using pages p test rep by (simp add: insert_absorb cells_per_page_def)
  next
    case False
    obtain p' where p': "set_cell_marked ?n i True p = Some p'"
      "page_rep ?n p' (mark_tiles ?f 0 a @ (Live, l) # mark_tiles ?f (cells_of a + l) b)" "finalizers p' = finalizers p"
      using set_marked_rep [OF rep'] False ab(1) by auto
    have marks: "page_marks (insert ?x M) pg (T pg) = mark_tiles ?f 0 a @ (Live, l) # mark_tiles ?f (cells_of a + l) b"
      using mark_tiles_at [OF tiles ab(3), of ?f] ab by (simp add: page_marks_def)
    let ?pages = "pages(pg \<mapsto> p')"
    let ?h = "h\<lparr>heap_pages := ?pages\<rparr>"
    have "case heap_pages h0 q of
             None \<Rightarrow> ?pages q = None
           | Some p0 \<Rightarrow> \<exists>p. ?pages q = Some p \<and> page_rep ?n p (page_marks (insert ?x M) q (T q)) \<and> finalizers p = finalizers p0" for q
    proof (cases "q = pg")
      case True
      then show ?thesis using p p' marks by simp
    next
      case other: False
      then have marks: "page_marks (insert ?x M) q ts = page_marks M q ts" for ts by (simp add: page_marks_def)
      have at: "?pages q = pages q" using other by simp
      show ?thesis unfolding marks at by (rule rest)
    qed
    then have "marked_rep h0 T (insert ?x M) ?h"
      unfolding marked_rep_def using pages lobs by (intro exI [of _ ?pages]) simp
    moreover have "mark_object ?x (h, st) = Some (?h, ?x # st)"
      using pages p test p'(1) False by (simp add: cells_per_page_def)
    ultimately show ?thesis using False by auto
  qed
qed

lemma mark_object_rep:
  assumes "marked_rep h0 T M h" and "x \<in> heap_objects h0 T"
  shows "\<exists>h'. mark_object x (h, st) = Some (h', if x \<in> M then st else x # st) \<and> marked_rep h0 T (insert x M) h'"
proof (cases x)
  case (PageObject pg i)
  have "heap_pages h0 pg \<noteq> None \<and> i \<in> used_starts (T pg)" using assms(2) unfolding PageObject heap_objects_page .
  then have "heap_pages h0 pg \<noteq> None" "i \<in> used_starts (T pg)" by blast+
  from mark_object_page [OF assms(1) this] show ?thesis unfolding PageObject .
next
  case (LargeObject a)
  have "heap_lobs h0 a \<noteq> None" using assms(2) unfolding LargeObject heap_objects_large .
  from mark_object_large [OF assms(1) this] show ?thesis unfolding LargeObject .
qed

subsection \<open>Marking what can be reached\<close>

inductive reachable :: "(object_ref \<Rightarrow> object_ref list) \<Rightarrow> object_ref list \<Rightarrow> object_ref \<Rightarrow> bool"
  for refs :: "object_ref \<Rightarrow> object_ref list" and roots :: "object_ref list" where
  root: "x \<in> set roots \<Longrightarrow> reachable refs roots x"
| member: "reachable refs roots x \<Longrightarrow> y \<in> set (refs x) \<Longrightarrow> reachable refs roots y"

lemma reachable_least:
  assumes "set roots \<subseteq> M" and "\<forall>x \<in> M. set (refs x) \<subseteq> M"
  shows "{x. reachable refs roots x} \<subseteq> M"
proof
  fix y
  assume "y \<in> {x. reachable refs roots x}"
  then have "reachable refs roots y" by simp
  then show "y \<in> M" by induction (use assms in auto)
qed

lemma mark_all_rep:
  "marked_rep h0 T M h \<Longrightarrow> set xs \<subseteq> heap_objects h0 T \<Longrightarrow>
   \<exists>h' new. mark_all xs (h, st) = Some (h', new @ st) \<and> marked_rep h0 T (M \<union> set xs) h' \<and> distinct new \<and> set new = set xs - M"
proof (induction xs arbitrary: M h st)
  case (Cons x xs)
  obtain h1 where h1: "mark_object x (h, st) = Some (h1, if x \<in> M then st else x # st)" "marked_rep h0 T (insert x M) h1"
    using mark_object_rep [OF Cons.prems(1), of x st] Cons.prems(2) by auto
  have xs: "set xs \<subseteq> heap_objects h0 T" using Cons.prems(2) by simp
  obtain h2 new where h2: "mark_all xs (h1, if x \<in> M then st else x # st) = Some (h2, new @ (if x \<in> M then st else x # st))"
    "marked_rep h0 T (insert x M \<union> set xs) h2" "distinct new" "set new = set xs - insert x M"
    using Cons.IH [OF h1(2) xs, of "if x \<in> M then st else x # st"] by blast
  show ?case
  proof (cases "x \<in> M")
    case True
    then show ?thesis using h1(1) h2 by (intro exI [of _ h2] exI [of _ new]) (auto simp: insert_absorb)
  next
    case False
    then show ?thesis using h1(1) h2 by (intro exI [of _ h2] exI [of _ "new @ [x]"]) auto
  qed
qed simp

lemma trace_loop_rep:
  fixes refs :: "object_ref \<Rightarrow> object_ref list" and roots :: "object_ref list"
  defines "R \<equiv> {x. reachable refs roots x}"
  assumes fin: "finite R" and sub: "R \<subseteq> heap_objects h0 T"
    and "marked_rep h0 T M h" and "M \<subseteq> R" and "set roots \<subseteq> M" and "set st \<subseteq> M" and "distinct st"
    and "\<forall>x \<in> M - set st. set (refs x) \<subseteq> M"
  shows "\<exists>h'. trace_loop refs n (h, st) = Some (n + card (R - (M - set st)), h') \<and> marked_rep h0 T R h'"
  using assms(4-)
proof (induction "card (R - (M - set st))" arbitrary: M h st n)
  case 0
  have "R - (M - set st) = {}" using 0(1) fin by simp
  then have st: "st = []" using 0(3,5) by (cases st) auto
  then have "R \<subseteq> M" using 0(1) fin by simp
  then have "M = R" using 0(3) by simp
  then show ?case using 0(2) st by (simp add: trace_loop.simps)
next
  case (Suc k)
  show ?case
  proof (cases st)
    case Nil
    then have "R \<subseteq> M" using Suc.prems(3,6) unfolding R_def by (intro reachable_least) auto
    then have "M = R" using Suc.prems(2) by simp
    then show ?thesis using Suc.hyps(2) Nil by simp
  next
    case (Cons x st')
    have x: "x \<in> R" "x \<in> M" "x \<notin> set st'" using Suc.prems(2,4,5) Cons by auto
    have refs: "set (refs x) \<subseteq> R" using x(1) reachable.member unfolding R_def by blast
    then have "set (refs x) \<subseteq> heap_objects h0 T" using sub by blast
    from mark_all_rep [OF Suc.prems(1) this, of st']
    obtain h' new where mark: "mark_all (refs x) (h, st') = Some (h', new @ st')" "marked_rep h0 T (M \<union> set (refs x)) h'"
      "distinct new" "set new = set (refs x) - M" by blast
    let ?M = "M \<union> set (refs x)"
    have step: "?M - set (new @ st') = insert x (M - set st)" using mark(4) x Suc.prems(4) Cons by auto
    have rest: "R - (?M - set (new @ st')) = R - (M - set st) - {x}" unfolding step by blast
    have "x \<in> R - (M - set st)" using x Cons by simp
    then have card: "k = card (R - (?M - set (new @ st')))" "card (R - (M - set st)) = Suc k"
      using Suc.hyps(2) fin unfolding rest by simp_all
    have dist: "distinct (new @ st')" using mark(3,4) Suc.prems(4,5) Cons by auto
    have closed: "\<forall>y \<in> ?M - set (new @ st'). set (refs y) \<subseteq> ?M" unfolding step using Suc.prems(6) by auto
    have M: "?M \<subseteq> R" "set roots \<subseteq> ?M" "set (new @ st') \<subseteq> ?M"
      using Suc.prems(2,3,4) refs mark(4) Cons by auto
    obtain h2 where "trace_loop refs (n + 1) (h', new @ st') = Some (n + 1 + card (R - (?M - set (new @ st'))), h2)" "marked_rep h0 T R h2"
      using Suc.hyps(1) [OF card(1) mark(2) M dist closed, of "n + 1"] by blast
    then show ?thesis using mark(1) card Cons by (simp add: trace_loop.simps)
  qed
qed

lemma trace_heap_rep:
  assumes rep: "marked_rep h T {} h" and fin: "finite (heap_objects h T)" and roots: "set roots \<subseteq> heap_objects h T"
    and closed: "\<forall>x \<in> heap_objects h T. set (refs x) \<subseteq> heap_objects h T"
  obtains h' where
    "trace_heap refs roots h = Some (h'\<lparr>stats := (stats h)\<lparr>allocated_objects := of_nat (card {x. reachable refs roots x})\<rparr>\<rparr>)"
    "marked_rep h T {x. reachable refs roots x} h'"
proof -
  let ?R = "{x. reachable refs roots x}"
  have sub: "?R \<subseteq> heap_objects h T" by (rule reachable_least [OF roots closed])
  then have "finite ?R" using fin by (rule finite_subset)
  obtain h1 new where h1: "mark_all roots (h, []) = Some (h1, new @ [])" "marked_rep h T ({} \<union> set roots) h1" "distinct new" "set new = set roots - {}"
    using mark_all_rep [OF rep roots, of "[]"] by blast
  have "marked_rep h T (set roots) h1" "set new = set roots" using h1(2,4) by simp_all
  moreover have "set roots \<subseteq> ?R" using reachable.root by blast
  ultimately obtain h2 where h2: "trace_loop refs 0 (h1, new) = Some (0 + card (?R - (set roots - set new)), h2)" "marked_rep h T ?R h2"
    using trace_loop_rep [OF \<open>finite ?R\<close> sub, of "set roots" h1 new 0] h1(3) by auto
  have "stats h2 = stats h" using h2(2) by (auto simp: marked_rep_def)
  then show ?thesis using h1(1) h2 \<open>set new = set roots\<close> by (intro that [of h2]) (simp_all add: trace_heap_def)
qed

end
