(* ===== verification/HeapSweep.thy ===== *)
theory HeapSweep
  imports HeapMark "HOL-Library.Multiset"
begin

text \<open>
  A whole collection: the sweep of the large objects and of the pages after the marking phase keeps
  exactly the reachable objects and gives everything else back. The invariant of a heap, \<open>heap_ok\<close>,
  relates its bitmaps, free lists and statistics to the blocks of its pages.
\<close>

subsection \<open>Blocks after a sweep\<close>

lemma used_blocks_skip_free: "\<forall>t \<in> set a. is_free_tile t \<Longrightarrow> used_blocks off (a @ b) = used_blocks (off + cells_of a) b"
  by (induction off a rule: used_blocks.induct) (auto simp: is_free_tile_def add.assoc)

lemma used_blocks_coalesce: "used_blocks off (coalesce ts) = used_blocks off ts"
proof (induction ts arbitrary: off rule: coalesce.induct)
  case (2 k l ts)
  obtain fs b where fb: "takeWhile is_free_tile ts = fs" "dropWhile is_free_tile ts = b" by blast
  then have ts: "ts = fs @ b" by (metis takeWhile_dropWhile_id)
  have "\<forall>t \<in> set fs. is_free_tile t" using fb(1) by (auto dest: set_takeWhileD)
  from used_blocks_skip_free [OF this, of "off + l" b] have "used_blocks (off + l) ts = used_blocks (off + (l + cells_of fs)) b"
    by (simp add: ts add.assoc)
  then show ?case using 2 fb by auto
qed simp

lemma used_blocks_age: "used_blocks off (age_tiles (mark_tiles f off ts)) = filter (\<lambda>(i, l). f i) (used_blocks off ts)"
proof (induction f off ts rule: mark_tiles.induct)
  case (2 f off k l ts)
  then show ?case by (cases k) auto
qed simp

lemma used_blocks_swept: "used_blocks 0 (swept (page_marks M pg ts)) = filter (\<lambda>(i, l). PageObject pg i \<in> M) (used_blocks 0 ts)"
  by (simp add: swept_def page_marks_def used_blocks_coalesce used_blocks_age)

lemma used_blocks_mark_tiles: "used_blocks off (mark_tiles f off ts) = used_blocks off ts"
  by (induction f off ts rule: mark_tiles.induct) auto

lemma used_starts_marks: "used_starts (page_marks M pg ts) = used_starts ts"
  by (simp add: used_starts_blocks page_marks_def used_blocks_mark_tiles)

lemma set_coalesce_kinds: "fst ` set (coalesce ts) \<subseteq> fst ` set ts"
proof (induction ts rule: coalesce.induct)
  case (2 k l ts)
  have "fst ` set (dropWhile is_free_tile ts) \<subseteq> fst ` set ts" by (auto dest: set_dropWhileD)
  then show ?case using 2 by (cases "k = Free") (simp_all, blast+)
qed simp

lemma swept_not_live: "t \<in> set (swept ts) \<Longrightarrow> fst t \<noteq> Live"
proof -
  assume "t \<in> set (swept ts)"
  then have "fst t \<in> fst ` set (age_tiles ts)" using set_coalesce_kinds unfolding swept_def by blast
  moreover have "age_block k \<noteq> Live" for k by (cases k) simp_all
  moreover have "fst ` set (age_tiles ts) = age_block ` fst ` set ts" by (simp add: image_image)
  ultimately show ?thesis by (metis imageE)
qed

lemma marked_blocks_marks: "marked_blocks (page_marks M pg ts) \<subseteq> {i \<in> used_starts ts. PageObject pg i \<in> M}"
proof -
  have "f (off + cells_of a)" if "mark_tiles f off us = a @ (Live, l) # b" for f off us a l b
    using that
  proof (induction f off us arbitrary: a rule: mark_tiles.induct)
    case (2 f off k l' ts)
    show ?case
    proof (cases a)
      case Nil
      then show ?thesis using 2(2) by (simp split: if_splits)
    next
      case (Cons t a')
      then have "mark_tiles f (off + l') ts = a' @ (Live, l) # b" "snd t = l'" using 2(2) by auto
      then show ?thesis using 2(1) [of a'] Cons by (simp add: add.assoc)
    qed
  qed simp
  from this [of "\<lambda>i. PageObject pg i \<in> M" 0 ts] have "i \<in> marked_blocks (page_marks M pg ts) \<Longrightarrow> PageObject pg i \<in> M" for i
    by (auto simp: marked_blocks_def page_marks_def)
  moreover have "marked_blocks (page_marks M pg ts) \<subseteq> used_starts (page_marks M pg ts)"
    by (auto simp: marked_blocks_def used_starts_def)
  ultimately show ?thesis using used_starts_marks by blast
qed

lemma cells_used_free: "free_total ts + sum_list (map snd (used_blocks off ts)) = cells_of ts"
  by (induction off ts rule: used_blocks.induct) (auto simp: free_total_def is_free_tile_def)

subsection \<open>Registering the free blocks\<close>

definition put_free :: "nat \<Rightarrow> nat \<times> nat \<Rightarrow> free_space \<Rightarrow> free_space" where
  "put_free pg s fs = (let i = unat (class_index fs (of_nat (snd s))) in
     fs\<lparr>free_lists := (free_lists fs)[i := (pg, s) # free_lists fs ! i]\<rparr>)"

definition lists_ok :: "free_space \<Rightarrow> bool" where
  "lists_ok fs \<longleftrightarrow> classes_ok fs \<and> lists_sorted fs"

lemma mset_concat_add:
  assumes "i < length ls"
  shows "mset (concat (ls[i := x # ls ! i])) = add_mset x (mset (concat ls))"
proof -
  obtain A B where AB: "concat ls = A @ ls ! i @ B" "concat (ls[i := x # ls ! i]) = A @ (x # ls ! i) @ B"
    using concat_update [OF assms] by metis
  then show ?thesis by simp
qed

lemma put_free_ok:
  assumes ok: "lists_ok fs" and len: "0 < len" "len < 2 ^ 32"
  shows "unat (class_index fs (of_nat len)) < length (free_lists fs)" "lists_ok (put_free pg (pos, len) fs)"
    "mset (concat (free_lists (put_free pg (pos, len) fs))) = add_mset (pg, pos, len) (mset (concat (free_lists fs)))"
proof -
  note u = of_nat_u32 [OF len]
  have classes: "classes_ok fs" and sorted: "lists_sorted fs" using ok by (auto simp: lists_ok_def)
  let ?i = "unat (class_index fs (of_nat len))"
  show i: "?i < length (free_lists fs)" using class_index_less [of fs "of_nat len"] u classes by (simp add: classes_ok_def)
  let ?fs = "put_free pg (pos, len) fs"
  have fs: "?fs = fs\<lparr>free_lists := (free_lists fs)[?i := (pg, pos, len) # free_lists fs ! ?i]\<rparr>"
    by (simp add: put_free_def Let_def)
  have "lists_sorted ?fs"
    unfolding lists_sorted_def
  proof (intro allI impI)
    fix j assume j: "j < length (free_lists ?fs)"
    then have "\<forall>(pg, pos, len) \<in> set (free_lists fs ! j). 0 < len \<and> len < 2 ^ 32 \<and> unat (class_index fs (of_nat len)) = j"
      using sorted by (auto simp: lists_sorted_def fs)
    then show "\<forall>(pg, pos, len) \<in> set (free_lists ?fs ! j). 0 < len \<and> len < 2 ^ 32 \<and> unat (class_index ?fs (of_nat len)) = j"
      using i len j by (cases "j = ?i") (auto simp: fs)
  qed
  then show "lists_ok ?fs" using classes by (simp add: lists_ok_def classes_ok_def fs)
  show "mset (concat (free_lists ?fs)) = add_mset (pg, pos, len) (mset (concat (free_lists fs)))"
    using mset_concat_add [OF i] by (simp add: fs)
qed

lemma registers_insert_free: "n < 2 ^ 32 \<Longrightarrow> registers n (insert_free n pg) (put_free pg) lists_ok"
  unfolding registers_def
  using put_free_ok by (simp add: insert_free_def assert_that_def put_free_def Let_def)

lemma mset_fold_put_free:
  "lists_ok fs \<Longrightarrow> \<forall>(pos, len) \<in> set spans. 0 < len \<and> len < 2 ^ 32 \<Longrightarrow>
    mset (concat (free_lists (fold (put_free pg) spans fs))) = mset (concat (free_lists fs)) + mset (map (Pair pg) spans)"
proof (induction spans arbitrary: fs)
  case (Cons s spans)
  obtain pos len where s: "s = (pos, len)" by fastforce
  then have "0 < len" "len < 2 ^ 32" using Cons.prems(2) by auto
  note ok = put_free_ok [OF Cons.prems(1) this]
  show ?case using Cons.IH [OF ok(2) [of pg pos]] Cons.prems(2) ok(3) [of pg pos] s by simp
qed simp

subsection \<open>The sweep of the pages\<close>

lemma free_spans_small:
  assumes "tiles_ok n ts" and "n < 2 ^ 32"
  shows "\<forall>(pos, len) \<in> set (free_spans 0 ts). 0 < len \<and> len < 2 ^ 32"
  using free_spans_bounds [of ts _ _ 0] assms by (fastforce simp: tiles_ok_def)

lemma cells_per_page_updates [simp]:
  "cells_per_page (h\<lparr>heap_free := a\<rparr>) = cells_per_page h" "cells_per_page (h\<lparr>heap_pages := b\<rparr>) = cells_per_page h"
  "cells_per_page (h\<lparr>page_list := c\<rparr>) = cells_per_page h" "cells_per_page (h\<lparr>heap_lobs := d\<rparr>) = cells_per_page h"
  "cells_per_page (h\<lparr>lob_list := e\<rparr>) = cells_per_page h" "cells_per_page (h\<lparr>stats := s\<rparr>) = cells_per_page h"
  "cells_per_page (h\<lparr>next_threshold := t\<rparr>) = cells_per_page h"
  by (simp_all add: cells_per_page_def)

definition page_swept :: "nat \<Rightarrow> tiles \<Rightarrow> heap_page \<Rightarrow> heap_page \<Rightarrow> bool" where
  "page_swept n ts p p' \<longleftrightarrow> page_rep n p' (swept ts) \<and> finalizers p' = filter (\<lambda>i. i \<in> marked_blocks ts) (finalizers p)"

definition sweepable :: "nat \<Rightarrow> tiles \<Rightarrow> heap_page \<Rightarrow> bool" where
  "sweepable n ts p \<longleftrightarrow> page_rep n p ts \<and> set (finalizers p) \<subseteq> used_starts ts"

abbreviation used_cells :: "tiles \<Rightarrow> nat" where
  "used_cells ts \<equiv> sum_list (map snd (used_blocks 0 ts))"

lemma sweep_pages_rep:
  assumes "distinct pgs" and "\<forall>pg \<in> set pgs. \<exists>p. heap_pages h pg = Some p \<and> sweepable (cells_per_page h) (S pg) p"
    and "lists_ok (heap_free h)" and "cells_per_page h < 2 ^ 32"
  shows "\<exists>pages fs. sweep_pages pgs h = Some (h\<lparr>heap_pages := pages, heap_free := fs, stats := (stats h)\<lparr>
        allocated_bytes := allocated_bytes (stats h) + of_nat (\<Sum>pg \<leftarrow> pgs. used_cells (swept (S pg))) * cell_size,
        free_bytes := free_bytes (stats h) + of_nat (\<Sum>pg \<leftarrow> pgs. free_total (swept (S pg))) * cell_size\<rparr>\<rparr>)
    \<and> (\<forall>pg \<in> set pgs. \<exists>p'. pages pg = Some p' \<and> page_swept (cells_per_page h) (S pg) (the (heap_pages h pg)) p')
    \<and> (\<forall>pg. pg \<notin> set pgs \<longrightarrow> pages pg = heap_pages h pg) \<and> lists_ok fs
    \<and> mset (concat (free_lists fs)) = mset (concat (free_lists (heap_free h)))
        + mset (concat (map (\<lambda>pg. map (Pair pg) (free_spans 0 (swept (S pg)))) pgs))"
  using assms
proof (induction pgs arbitrary: h)
  case Nil
  show ?case using Nil(3) by (intro exI [of _ "heap_pages h"] exI [of _ "heap_free h"]) simp
next
  case (Cons pg pgs)
  let ?n = "cells_per_page h" and ?ts = "swept (S pg)"
  obtain p where p: "heap_pages h pg = Some p" "page_rep ?n p (S pg)" "set (finalizers p) \<subseteq> used_starts (S pg)"
    using Cons.prems(2) by (auto simp: sweepable_def)
  let ?fs = "fold (put_free pg) (free_spans 0 ?ts) (heap_free h)"
  obtain p' where p': "sweep_page (insert_free ?n pg) ?n p (heap_free h) = Some (filter (\<lambda>i. i \<notin> marked_blocks (S pg)) (finalizers p),
      \<lparr>allocated_cells = ?n - free_total ?ts, free_cells = free_total ?ts\<rparr>, p', ?fs)"
    "page_rep ?n p' ?ts" "finalizers p' = filter (\<lambda>i. i \<in> marked_blocks (S pg)) (finalizers p)" "lists_ok ?fs"
    by (rule sweep_page_rep [OF registers_insert_free [OF Cons.prems(4)] p(2,3) Cons.prems(3)]) (rule that)
  note tiles = page_rep_bits(1) [OF p'(2)]
  have msets: "mset (concat (free_lists ?fs)) = mset (concat (free_lists (heap_free h))) + mset (map (Pair pg) (free_spans 0 ?ts))"
    by (rule mset_fold_put_free [OF Cons.prems(3) free_spans_small [OF tiles Cons.prems(4)]])
  have used: "?n - free_total ?ts = used_cells ?ts" using cells_used_free [of ?ts 0] tiles by (simp add: tiles_ok_def)
  let ?h = "h\<lparr>heap_pages := (heap_pages h)(pg \<mapsto> p'), heap_free := ?fs,
            stats := (stats h)\<lparr>allocated_bytes := allocated_bytes (stats h) + of_nat (used_cells ?ts) * cell_size,
                              free_bytes := free_bytes (stats h) + of_nat (free_total ?ts) * cell_size\<rparr>\<rparr>"
  have step: "sweep_pages (pg # pgs) h = sweep_pages pgs ?h" using p(1) p'(1) used by simp
  have rest: "\<forall>q \<in> set pgs. \<exists>p. heap_pages ?h q = Some p \<and> sweepable (cells_per_page ?h) (S q) p"
    using Cons.prems(1,2) by auto
  have other: "\<forall>q \<in> set pgs. heap_pages ?h q = heap_pages h q" using Cons.prems(1) by auto
  obtain pages fs where IH: "sweep_pages pgs ?h = Some (?h\<lparr>heap_pages := pages, heap_free := fs, stats := (stats ?h)\<lparr>
        allocated_bytes := allocated_bytes (stats ?h) + of_nat (\<Sum>pg \<leftarrow> pgs. used_cells (swept (S pg))) * cell_size,
        free_bytes := free_bytes (stats ?h) + of_nat (\<Sum>pg \<leftarrow> pgs. free_total (swept (S pg))) * cell_size\<rparr>\<rparr>)"
    "\<forall>pg \<in> set pgs. \<exists>p'. pages pg = Some p' \<and> page_swept (cells_per_page ?h) (S pg) (the (heap_pages ?h pg)) p'"
    "\<forall>pg. pg \<notin> set pgs \<longrightarrow> pages pg = heap_pages ?h pg" "lists_ok fs"
    "mset (concat (free_lists fs)) = mset (concat (free_lists (heap_free ?h)))
        + mset (concat (map (\<lambda>pg. map (Pair pg) (free_spans 0 (swept (S pg)))) pgs))"
    using Cons.IH [of ?h] Cons.prems(1,4) rest p'(4) by auto
  have "pages pg = Some p'" using IH(3) Cons.prems(1) by simp
  then have now: "\<exists>p'. pages pg = Some p' \<and> page_swept ?n (S pg) (the (heap_pages h pg)) p'"
    using p p' by (simp add: page_swept_def)
  have later: "\<forall>q \<in> set pgs. \<exists>p'. pages q = Some p' \<and> page_swept ?n (S q) (the (heap_pages h q)) p'"
    using IH(2) other by auto
  show ?case
  proof (intro exI [of _ pages] exI [of _ fs] conjI)
    show "sweep_pages (pg # pgs) h = Some (h\<lparr>heap_pages := pages, heap_free := fs, stats := (stats h)\<lparr>
        allocated_bytes := allocated_bytes (stats h) + of_nat (\<Sum>pg \<leftarrow> pg # pgs. used_cells (swept (S pg))) * cell_size,
        free_bytes := free_bytes (stats h) + of_nat (\<Sum>pg \<leftarrow> pg # pgs. free_total (swept (S pg))) * cell_size\<rparr>\<rparr>)"
      unfolding step IH(1) by (simp add: algebra_simps)
    show "mset (concat (free_lists fs)) = mset (concat (free_lists (heap_free h)))
        + mset (concat (map (\<lambda>pg. map (Pair pg) (free_spans 0 (swept (S pg)))) (pg # pgs)))"
      using IH(5) msets by simp
  qed (use now later IH(3,4) in auto)
qed

subsection \<open>The sweep of the large objects\<close>

definition swept_lob :: "heap \<Rightarrow> nat set \<Rightarrow> nat \<Rightarrow> large_object option" where
  "swept_lob h A a = (case heap_lobs h a of
     None \<Rightarrow> None
   | Some lob \<Rightarrow> if a \<notin> A then Some lob else if lob_marked lob then Some (lob\<lparr>lob_marked := False\<rparr>) else None)"

definition lob_bytes :: "heap \<Rightarrow> nat \<Rightarrow> nat" where
  "lob_bytes h a = (case heap_lobs h a of None \<Rightarrow> 0 | Some lob \<Rightarrow> unat (lob_dynamic_size h (lob_cells lob)))"

definition lob_size :: "heap \<Rightarrow> nat \<Rightarrow> nat" where
  "lob_size h a = (case heap_lobs h a of None \<Rightarrow> 0 | Some lob \<Rightarrow> unat (lob_cells lob))"

definition lob_is_marked :: "heap \<Rightarrow> nat \<Rightarrow> bool" where
  "lob_is_marked h a \<longleftrightarrow> (\<exists>lob. heap_lobs h a = Some lob \<and> lob_marked lob)"

lemma free_raw_sum: "unat s \<le> unat t \<Longrightarrow> unat (t - s) = unat t - unat (s :: u64)"
  by (simp add: unat_sub word_le_nat_alt)

lemma unat_sub_of_nat: "d \<le> unat t \<Longrightarrow> unat (t - of_nat d) = unat t - d" for t :: u64
proof -
  assume d: "d \<le> unat t"
  moreover have "unat t < 2 ^ LENGTH(64)" by (rule unsigned_less)
  ultimately have "d < 2 ^ LENGTH(64)" by (rule le_less_trans)
  then have "unat (of_nat d :: u64) = d" by (simp add: unat_of_nat)
  then show ?thesis using d free_raw_sum [of "of_nat d" t] by simp
qed

lemma sweep_lobs_rep:
  assumes "distinct as" and "set as \<subseteq> dom (heap_lobs h)" and "distinct (lob_list h)"
    and "(\<Sum>a \<leftarrow> filter (\<lambda>a. \<not> lob_is_marked h a) as. lob_bytes h a) \<le> unat (total_bytes (stats h))"
  shows "sweep_lobs as h = Some (h\<lparr>heap_lobs := swept_lob h (set as), lob_list := filter (\<lambda>a. a \<in> set as \<longrightarrow> lob_is_marked h a) (lob_list h),
    stats := (stats h)\<lparr>
      total_bytes := total_bytes (stats h) - of_nat (\<Sum>a \<leftarrow> filter (\<lambda>a. \<not> lob_is_marked h a) as. lob_bytes h a),
      allocated_bytes := allocated_bytes (stats h) + of_nat (\<Sum>a \<leftarrow> filter (lob_is_marked h) as. lob_size h a) * cell_size\<rparr>\<rparr>)"
  using assms
proof (induction "as" arbitrary: h)
  case Nil
  have "swept_lob h {} = heap_lobs h" by (simp add: swept_lob_def fun_eq_iff split: option.split)
  then show ?case by simp
next
  case (Cons a as')
  obtain lob where lob: "heap_lobs h a = Some lob" using Cons.prems(2) by auto
  have a: "a \<notin> set as'" using Cons.prems(1) by simp
  obtain g where g: "g = (if lob_marked lob
    then h\<lparr>heap_lobs := (heap_lobs h)(a \<mapsto> lob\<lparr>lob_marked := False\<rparr>),
           stats := (stats h)\<lparr>allocated_bytes := allocated_bytes (stats h) + ucast (lob_cells lob) * cell_size\<rparr>\<rparr>
    else h\<lparr>heap_lobs := (heap_lobs h)(a := None), lob_list := remove1 a (lob_list h),
           stats := (stats h)\<lparr>total_bytes := total_bytes (stats h) - lob_dynamic_size h (lob_cells lob)\<rparr>\<rparr>)" by blast
  have same: "heap_lobs g b = heap_lobs h b" if "b \<noteq> a" for b using that by (simp add: g)
  have header: "lob_header g = lob_header h" by (simp add: g)
  have not_a: "b \<noteq> a" if "b \<in> set as'" for b using that a by blast
  have same': "lob_is_marked g b = lob_is_marked h b" "lob_bytes g b = lob_bytes h b" "lob_size g b = lob_size h b" if "b \<noteq> a" for b
    using same [OF that] by (simp_all add: lob_is_marked_def lob_bytes_def lob_size_def lob_dynamic_size_def header split: option.split)
  have filters: "filter (lob_is_marked g) as' = filter (lob_is_marked h) as'"
    "filter (\<lambda>a. \<not> lob_is_marked g a) as' = filter (\<lambda>a. \<not> lob_is_marked h a) as'"
    using same'(1) not_a by (auto intro!: filter_cong)
  have sums: "(\<Sum>a \<leftarrow> filter P as'. lob_bytes g a) = (\<Sum>a \<leftarrow> filter P as'. lob_bytes h a)"
    "(\<Sum>a \<leftarrow> filter P as'. lob_size g a) = (\<Sum>a \<leftarrow> filter P as'. lob_size h a)" for P
    using same'(2,3) not_a by (auto intro!: arg_cong [where f = sum_list])
  have m: "lob_is_marked h a = lob_marked lob" "lob_bytes h a = unat (lob_dynamic_size h (lob_cells lob))"
    "lob_size h a = unat (lob_cells lob)" using lob by (simp_all add: lob_is_marked_def lob_bytes_def lob_size_def)
  have room: "lob_dynamic_size h (lob_cells lob) \<le> total_bytes (stats h)" if "\<not> lob_marked lob"
    using Cons.prems(4) that m by (simp add: word_le_nat_alt)
  have step: "sweep_lobs (a # as') h = sweep_lobs as' g"
    using lob room by (simp add: free_raw_def g)
  have room': "(\<Sum>a \<leftarrow> filter (\<lambda>a. \<not> lob_is_marked g a) as'. lob_bytes g a) \<le> unat (total_bytes (stats g))"
    unfolding filters sums using Cons.prems(4) m room by (cases "lob_marked lob") (simp_all add: free_raw_sum word_le_nat_alt g)
  have dom: "set as' \<subseteq> dom (heap_lobs g)" using Cons.prems(1,2) by (auto simp: domIff g)
  have dist: "distinct as'" "distinct (lob_list g)" using Cons.prems(1,3) by (simp_all add: g)
  have lobs: "swept_lob g (set as') = swept_lob h (set (a # as'))"
  proof
    fix b
    show "swept_lob g (set as') b = swept_lob h (set (a # as')) b"
    proof (cases "b = a")
      case True
      then show ?thesis using lob a by (simp add: swept_lob_def g)
    next
      case False
      then show ?thesis using same [of b] by (simp add: swept_lob_def split: option.split)
    qed
  qed
  have list: "filter (\<lambda>b. b \<in> set as' \<longrightarrow> lob_is_marked g b) (lob_list g)
    = filter (\<lambda>b. b \<in> set (a # as') \<longrightarrow> lob_is_marked h b) (lob_list h)"
  proof (cases "lob_marked lob")
    case True
    have "filter (\<lambda>b. b \<in> set as' \<longrightarrow> lob_is_marked g b) (lob_list h)
      = filter (\<lambda>b. b \<in> set (a # as') \<longrightarrow> lob_is_marked h b) (lob_list h)"
      by (rule filter_cong) (use same'(1) not_a m(1) True in \<open>auto\<close>)
    then show ?thesis using True by (simp add: g)
  next
    case False
    have "filter (\<lambda>b. b \<in> set as' \<longrightarrow> lob_is_marked g b) (remove1 a (lob_list h))
      = filter (\<lambda>b. b \<in> set as' \<longrightarrow> lob_is_marked g b) (filter (\<lambda>b. a \<noteq> b) (lob_list h))"
      using Cons.prems(3) by (simp add: distinct_remove1_removeAll removeAll_filter_not_eq)
    also have "\<dots> = filter (\<lambda>b. b \<in> set (a # as') \<longrightarrow> lob_is_marked h b) (lob_list h)"
      unfolding filter_filter by (rule filter_cong) (use same'(1) not_a m(1) False in \<open>auto\<close>)
    finally show ?thesis using False by (simp add: g)
  qed
  show ?case
    unfolding step Cons.IH [OF dist(1) dom dist(2) room'] filters sums lobs list
    using m by (simp add: g algebra_simps)
qed

subsection \<open>The invariant of a heap\<close>

definition held_bytes :: "heap \<Rightarrow> nat" where
  "held_bytes h = length (page_list h) * unat (page_size (heap_layout h)) + (\<Sum>a \<leftarrow> lob_list h. lob_bytes h a)"

definition page_ok :: "nat \<Rightarrow> tiles \<Rightarrow> heap_page \<Rightarrow> bool" where
  "page_ok n ts p \<longleftrightarrow> page_rep n p ts \<and> (\<forall>t \<in> set ts. fst t \<noteq> Live) \<and> set (finalizers p) \<subseteq> used_starts ts"

definition heap_ok :: "heap \<Rightarrow> (nat \<Rightarrow> tiles) \<Rightarrow> bool" where
  "heap_ok h T \<longleftrightarrow> cells_per_page h < 2 ^ 32 \<and> space_ok (cells_per_page h) (heap_pages h) T (heap_free h)
     \<and> (\<forall>pg p. heap_pages h pg = Some p \<longrightarrow> page_ok (cells_per_page h) (T pg) p)
     \<and> distinct (page_list h) \<and> set (page_list h) = dom (heap_pages h)
     \<and> distinct (lob_list h) \<and> set (lob_list h) = dom (heap_lobs h)
     \<and> (\<forall>a lob. heap_lobs h a = Some lob \<longrightarrow> \<not> lob_marked lob)
     \<and> held_bytes h \<le> unat (total_bytes (stats h)) \<and> total_bytes (stats h) \<le> max_size h"

definition live_cells :: "heap \<Rightarrow> (nat \<Rightarrow> tiles) \<Rightarrow> nat" where
  "live_cells h T = (\<Sum>pg \<leftarrow> page_list h. used_cells (T pg)) + (\<Sum>a \<leftarrow> lob_list h. lob_size h a)"

lemma heap_objects_finite:
  assumes "heap_ok h T"
  shows "finite (heap_objects h T)"
proof -
  have "heap_objects h T \<subseteq> (\<lambda>(pg, i). PageObject pg i) ` (SIGMA pg : set (page_list h). used_starts (T pg)) \<union> LargeObject ` set (lob_list h)"
  proof
    fix x assume x: "x \<in> heap_objects h T"
    show "x \<in> (\<lambda>(pg, i). PageObject pg i) ` (SIGMA pg : set (page_list h). used_starts (T pg)) \<union> LargeObject ` set (lob_list h)"
    proof (cases x)
      case (PageObject pg i)
      then show ?thesis using x assms heap_objects_page by (auto simp: heap_ok_def domIff image_iff)
    next
      case (LargeObject a)
      then show ?thesis using x assms heap_objects_large by (auto simp: heap_ok_def domIff)
    qed
  qed
  moreover have "finite (used_starts ts)" for ts by (simp add: used_starts_blocks)
  ultimately show ?thesis by (rule_tac finite_subset) auto
qed

lemma marked_rep_start:
  assumes "heap_ok h T"
  shows "marked_rep h T {} h"
proof -
  have lobs: "(\<lambda>a. map_option (\<lambda>l. l\<lparr>lob_marked := LargeObject a \<in> {}\<rparr>) (heap_lobs h a)) = heap_lobs h"
  proof
    fix a
    show "map_option (\<lambda>l. l\<lparr>lob_marked := LargeObject a \<in> {}\<rparr>) (heap_lobs h a) = heap_lobs h a"
      using assms by (cases "heap_lobs h a") (auto simp: heap_ok_def)
  qed
  have "page_marks {} pg ts = ts" if "\<forall>t \<in> set ts. fst t \<noteq> Live" for pg ts
    using mark_tiles_none [OF that, of 0] by (simp add: page_marks_def)
  then have "case heap_pages h pg of
             None \<Rightarrow> heap_pages h pg = None
           | Some p0 \<Rightarrow> \<exists>p. heap_pages h pg = Some p \<and> page_rep (cells_per_page h) p (page_marks {} pg (T pg)) \<and> finalizers p = finalizers p0" for pg
    using assms by (auto simp: heap_ok_def page_ok_def split: option.split)
  then show ?thesis unfolding marked_rep_def lobs by (intro exI [of _ "heap_pages h"]) simp
qed

subsection \<open>The sweep of a marked heap\<close>

lemma reset_lists_ok: "classes_ok fs \<Longrightarrow> lists_ok (reset_free_space fs) \<and> concat (free_lists (reset_free_space fs)) = []"
  by (auto simp: lists_ok_def classes_ok_def lists_sorted_def reset_free_space_def)

lemma distinct_spans:
  assumes "distinct pgs" and "\<forall>pg \<in> set pgs. tiles_ok n (S pg)"
  shows "distinct (concat (map (\<lambda>pg. map (Pair pg) (free_spans 0 (S pg))) pgs))"
  using assms
proof (induction pgs)
  case (Cons pg pgs)
  have "distinct (free_spans 0 (S pg))" using Cons.prems(2) by (intro distinct_free_spans) (simp add: tiles_ok_def)
  then show ?case using Cons by (auto simp: distinct_map inj_on_def)
qed simp

lemma swept_page_ok:
  assumes "page_swept n (page_marks M pg ts) p p'" and "set (finalizers p) \<subseteq> used_starts ts"
  shows "page_ok n (swept (page_marks M pg ts)) p'"
proof -
  have "set (finalizers p') \<subseteq> marked_blocks (page_marks M pg ts)" using assms(1) by (auto simp: page_swept_def)
  also have "\<dots> \<subseteq> {i \<in> used_starts ts. PageObject pg i \<in> M}" by (rule marked_blocks_marks)
  also have "\<dots> \<subseteq> used_starts (swept (page_marks M pg ts))"
    unfolding used_starts_blocks used_blocks_swept by force
  finally show ?thesis using assms(1) swept_not_live by (auto simp: page_ok_def page_swept_def)
qed

lemma lobs_after_sweep:
  assumes ok: "heap_ok h T" and list: "set (lob_list h) = dom (heap_lobs h)"
    and g: "heap_lobs g = (\<lambda>a. map_option (\<lambda>l. l\<lparr>lob_marked := LargeObject a \<in> M\<rparr>) (heap_lobs h a))"
  shows "swept_lob g (set (lob_list h)) = (\<lambda>a. if LargeObject a \<in> M then heap_lobs h a else None)"
    and "a \<in> set (lob_list h) \<Longrightarrow> lob_is_marked g a \<longleftrightarrow> LargeObject a \<in> M"
proof -
  show "swept_lob g (set (lob_list h)) = (\<lambda>a. if LargeObject a \<in> M then heap_lobs h a else None)"
  proof
    fix a
    show "swept_lob g (set (lob_list h)) a = (if LargeObject a \<in> M then heap_lobs h a else None)"
      using ok list by (cases "heap_lobs h a") (auto simp: swept_lob_def g heap_ok_def)
  qed
  show "lob_is_marked g a \<longleftrightarrow> LargeObject a \<in> M" if "a \<in> set (lob_list h)"
    using that list by (auto simp: lob_is_marked_def g)
qed

lemma sum_list_filter_split: "sum_list (map f xs) = sum_list (map f (filter P xs)) + sum_list (map f (filter (\<lambda>x. \<not> P x) xs))"
  for f :: "'a \<Rightarrow> nat"
  by (induction xs) auto

lemma sum_list_cong: "(\<And>x. x \<in> set xs \<Longrightarrow> f x = g x) \<Longrightarrow> sum_list (map f xs) = sum_list (map g xs)"
  by (metis map_eq_conv)

lemma sweep_heap_run:
  assumes ok: "heap_ok h T" and rep: "marked_rep h T M g0" and g: "g = g0\<lparr>stats := s\<rparr>" and tot: "total_bytes s = total_bytes (stats h)"
  defines "L \<equiv> filter (\<lambda>a. LargeObject a \<in> M) (lob_list h)" and "S \<equiv> \<lambda>pg. swept (page_marks M pg (T pg))"
    and "dead \<equiv> (\<Sum>a \<leftarrow> filter (\<lambda>a. LargeObject a \<notin> M) (lob_list h). lob_bytes h a)"
  obtains pages fs where "sweep_heap g = Some (h\<lparr>heap_pages := pages, heap_free := fs,
      heap_lobs := (\<lambda>a. if LargeObject a \<in> M then heap_lobs h a else None), lob_list := L,
      stats := \<lparr>total_bytes = total_bytes (stats h) - of_nat dead,
        allocated_bytes = of_nat ((\<Sum>pg \<leftarrow> page_list h. used_cells (S pg)) + (\<Sum>a \<leftarrow> L. lob_size h a)) * cell_size,
        free_bytes = of_nat (\<Sum>pg \<leftarrow> page_list h. free_total (S pg)) * cell_size,
        allocated_objects = allocated_objects s\<rparr>\<rparr>)"
    "\<And>pg. pg \<in> dom (heap_pages h) \<Longrightarrow> \<exists>p'. pages pg = Some p' \<and> page_ok (cells_per_page h) (S pg) p'"
    "dom pages = dom (heap_pages h)" "lists_ok fs"
    "mset (concat (free_lists fs)) = mset (concat (map (\<lambda>pg. map (Pair pg) (free_spans 0 (S pg))) (page_list h)))"
proof -
  let ?n = "cells_per_page h"
  obtain pages where g0: "g0 = h\<lparr>heap_pages := pages, heap_lobs := \<lambda>a. map_option (\<lambda>l. l\<lparr>lob_marked := LargeObject a \<in> M\<rparr>) (heap_lobs h a)\<rparr>"
    and rest: "\<And>pg. case heap_pages h pg of
             None \<Rightarrow> pages pg = None
           | Some p0 \<Rightarrow> \<exists>p. pages pg = Some p \<and> page_rep ?n p (page_marks M pg (T pg)) \<and> finalizers p = finalizers p0"
    using rep by (auto simp: marked_rep_def)
  have lists: "distinct (page_list h)" "set (page_list h) = dom (heap_pages h)" "distinct (lob_list h)" "set (lob_list h) = dom (heap_lobs h)"
    and n: "?n < 2 ^ 32" and space: "space_ok ?n (heap_pages h) T (heap_free h)" and held: "held_bytes h \<le> unat (total_bytes (stats h))"
    using ok by (auto simp: heap_ok_def)
  have pages_ok: "page_ok ?n (T pg) p" if "heap_pages h pg = Some p" for pg p using ok that by (auto simp: heap_ok_def)
  have classes: "classes_ok (heap_free h)" using space by (simp add: space_ok_def)
  obtain g1 where g1: "g1 = g\<lparr>stats := (stats g)\<lparr>free_bytes := 0, allocated_bytes := 0\<rparr>, heap_free := reset_free_space (heap_free g)\<rparr>" by blast
  have g1_lobs: "heap_lobs g1 = (\<lambda>a. map_option (\<lambda>l. l\<lparr>lob_marked := LargeObject a \<in> M\<rparr>) (heap_lobs h a))" by (simp add: g1 g g0)
  have g1_list: "lob_list g1 = lob_list h" by (simp add: g1 g g0)
  note after = lobs_after_sweep [OF ok lists(4) g1_lobs]
  have same: "lob_bytes g1 a = lob_bytes h a" "lob_size g1 a = lob_size h a" for a
    by (cases "heap_lobs h a"; simp add: lob_bytes_def lob_size_def g1_lobs lob_dynamic_size_def; simp add: g1 g g0)+
  have filters: "filter (lob_is_marked g1) (lob_list h) = L" "filter (\<lambda>a. \<not> lob_is_marked g1 a) (lob_list h) = filter (\<lambda>a. LargeObject a \<notin> M) (lob_list h)"
    unfolding L_def using after(2) by (auto intro: filter_cong)
  have kept: "filter (\<lambda>a. a \<in> set (lob_list h) \<longrightarrow> lob_is_marked g1 a) (lob_list h) = L"
    unfolding filters(1) [symmetric] by (rule filter_cong) auto
  have "dead \<le> held_bytes h"
    unfolding dead_def held_bytes_def using sum_list_filter_split [of "lob_bytes h" "lob_list h" "\<lambda>a. LargeObject a \<in> M"] by simp
  moreover have "total_bytes (stats g1) = total_bytes (stats h)" by (simp add: g1 g tot)
  ultimately have room: "(\<Sum>a \<leftarrow> filter (\<lambda>a. \<not> lob_is_marked g1 a) (lob_list h). lob_bytes g1 a) \<le> unat (total_bytes (stats g1))"
    unfolding filters same using held by (simp add: dead_def)
  have dom1: "set (lob_list h) \<subseteq> dom (heap_lobs g1)" using lists(4) by (auto simp: g1_lobs)
  have dist1: "distinct (lob_list g1)" using lists(3) by (simp add: g1_list)
  obtain g2 where g2: "g2 = g1\<lparr>heap_lobs := (\<lambda>a. if LargeObject a \<in> M then heap_lobs h a else None), lob_list := L,
    stats := (stats g1)\<lparr>total_bytes := total_bytes (stats g1) - of_nat dead,
      allocated_bytes := allocated_bytes (stats g1) + of_nat (\<Sum>a \<leftarrow> L. lob_size h a) * cell_size\<rparr>\<rparr>" by blast
  have lobs_run: "sweep_lobs (lob_list h) g1 = Some g2"
    using sweep_lobs_rep [OF lists(3) dom1 dist1 room] unfolding g1_list after(1) filters kept same g2 dead_def by simp
  have g2_n: "cells_per_page g2 = ?n" by (simp add: g2 g1 g g0)
  have g2_pages: "heap_pages g2 = pages" and g2_free: "heap_free g2 = reset_free_space (heap_free h)" by (simp_all add: g2 g1 g g0)
  have page_at: "\<exists>p p0. heap_pages h pg = Some p0 \<and> pages pg = Some p \<and> page_rep ?n p (page_marks M pg (T pg)) \<and> finalizers p = finalizers p0
      \<and> set (finalizers p) \<subseteq> used_starts (T pg)" if "pg \<in> set (page_list h)" for pg
    using that lists(2) rest [of pg] pages_ok [of pg] by (auto simp: page_ok_def)
  have sweepables: "\<forall>pg \<in> set (page_list h). \<exists>p. heap_pages g2 pg = Some p \<and> sweepable (cells_per_page g2) (page_marks M pg (T pg)) p"
    using page_at unfolding g2_n g2_pages sweepable_def used_starts_marks by metis
  have free_ok: "lists_ok (heap_free g2)" using reset_lists_ok [OF classes] by (simp add: g2_free)
  have n2: "cells_per_page g2 < 2 ^ 32" using n by (simp add: g2_n)
  obtain pages' fs where run: "sweep_pages (page_list h) g2 = Some (g2\<lparr>heap_pages := pages', heap_free := fs, stats := (stats g2)\<lparr>
        allocated_bytes := allocated_bytes (stats g2) + of_nat (\<Sum>pg \<leftarrow> page_list h. used_cells (S pg)) * cell_size,
        free_bytes := free_bytes (stats g2) + of_nat (\<Sum>pg \<leftarrow> page_list h. free_total (S pg)) * cell_size\<rparr>\<rparr>)"
    "\<forall>pg \<in> set (page_list h). \<exists>p'. pages' pg = Some p' \<and> page_swept (cells_per_page g2) (page_marks M pg (T pg)) (the (heap_pages g2 pg)) p'"
    "\<forall>pg. pg \<notin> set (page_list h) \<longrightarrow> pages' pg = heap_pages g2 pg" "lists_ok fs"
    "mset (concat (free_lists fs)) = mset (concat (free_lists (heap_free g2)))
        + mset (concat (map (\<lambda>pg. map (Pair pg) (free_spans 0 (S pg))) (page_list h)))"
    using sweep_pages_rep [OF lists(1) sweepables free_ok n2] unfolding S_def by blast
  have pg_ok: "\<exists>p'. pages' pg = Some p' \<and> page_ok ?n (S pg) p'" if "pg \<in> dom (heap_pages h)" for pg
  proof -
    have pg: "pg \<in> set (page_list h)" using that lists(2) by simp
    from page_at [OF pg] obtain p where p: "pages pg = Some p" "set (finalizers p) \<subseteq> used_starts (T pg)" by blast
    from run(2) pg obtain p' where p': "pages' pg = Some p'" "page_swept ?n (page_marks M pg (T pg)) p p'"
      by (auto simp: g2_n g2_pages p(1))
    show ?thesis unfolding S_def using p'(1) swept_page_ok [OF p'(2) p(2)] by blast
  qed
  have dom: "dom pages' = dom (heap_pages h)"
  proof -
    have "pages' pg = None" if none: "heap_pages h pg = None" for pg
    proof -
      have "pg \<notin> set (page_list h)" using none lists(2) by (simp add: domIff)
      with run(3) have "pages' pg = heap_pages g2 pg" by blast
      moreover have "pages pg = None" using rest [of pg] none by simp
      ultimately show ?thesis by (simp add: g2_pages)
    qed
    moreover have "pages' pg \<noteq> None" if "heap_pages h pg \<noteq> None" for pg using pg_ok [of pg] that by (auto simp: domIff)
    ultimately have "(pages' pg \<noteq> None) = (heap_pages h pg \<noteq> None)" for pg by metis
    then show ?thesis unfolding dom_def by simp
  qed
  have "sweep_heap g = Option.bind (sweep_lobs (lob_list h) g1) (\<lambda>h. sweep_pages (page_list h) h)"
    by (simp add: sweep_heap_def g1 g g0 Let_def)
  also have "\<dots> = sweep_pages (page_list h) g2" unfolding lobs_run by (simp add: g2 g1 g g0)
  finally have sweep: "sweep_heap g = sweep_pages (page_list h) g2" .
  show thesis
  proof (rule that [OF _ pg_ok dom run(4)])
    show "mset (concat (free_lists fs)) = mset (concat (map (\<lambda>pg. map (Pair pg) (free_spans 0 (S pg))) (page_list h)))"
      using run(5) reset_lists_ok [OF classes] by (simp add: g2_free)
    show "sweep_heap g = Some (h\<lparr>heap_pages := pages', heap_free := fs,
      heap_lobs := (\<lambda>a. if LargeObject a \<in> M then heap_lobs h a else None), lob_list := L,
      stats := \<lparr>total_bytes = total_bytes (stats h) - of_nat dead,
        allocated_bytes = of_nat ((\<Sum>pg \<leftarrow> page_list h. used_cells (S pg)) + (\<Sum>a \<leftarrow> L. lob_size h a)) * cell_size,
        free_bytes = of_nat (\<Sum>pg \<leftarrow> page_list h. free_total (S pg)) * cell_size,
        allocated_objects = allocated_objects s\<rparr>\<rparr>)"
      unfolding sweep run(1) by (simp add: g2 g1 g g0 tot algebra_simps)
  qed
qed

lemma swept_heap_ok:
  assumes ok: "heap_ok h T" and rep: "marked_rep h T M g0" and g: "g = g0\<lparr>stats := s\<rparr>" and tot: "total_bytes s = total_bytes (stats h)"
  obtains h' T' where "sweep_heap g = Some h'" "heap_ok h' T'" "heap_contents h' T' = {(x, l) \<in> heap_contents h T. x \<in> M}"
    "allocated_objects (stats h') = allocated_objects s" "allocated_bytes (stats h') = of_nat (live_cells h' T') * cell_size"
    "total_bytes (stats h') \<le> total_bytes (stats h)" "heap_layout h' = heap_layout h" "max_size h' = max_size h" "lob_header h' = lob_header h"
    "page_list h' = page_list h"
proof -
  let ?n = "cells_per_page h" and ?L = "filter (\<lambda>a. LargeObject a \<in> M) (lob_list h)"
  let ?S = "\<lambda>pg. swept (page_marks M pg (T pg))"
  let ?dead = "\<Sum>a \<leftarrow> filter (\<lambda>a. LargeObject a \<notin> M) (lob_list h). lob_bytes h a"
  obtain pages fs where run: "sweep_heap g = Some (h\<lparr>heap_pages := pages, heap_free := fs,
      heap_lobs := (\<lambda>a. if LargeObject a \<in> M then heap_lobs h a else None), lob_list := ?L,
      stats := \<lparr>total_bytes = total_bytes (stats h) - of_nat ?dead,
        allocated_bytes = of_nat ((\<Sum>pg \<leftarrow> page_list h. used_cells (?S pg)) + (\<Sum>a \<leftarrow> ?L. lob_size h a)) * cell_size,
        free_bytes = of_nat (\<Sum>pg \<leftarrow> page_list h. free_total (?S pg)) * cell_size,
        allocated_objects = allocated_objects s\<rparr>\<rparr>)" (is "_ = Some ?h")
    and pages: "\<And>pg. pg \<in> dom (heap_pages h) \<Longrightarrow> \<exists>p'. pages pg = Some p' \<and> page_ok ?n (?S pg) p'"
    and dom: "dom pages = dom (heap_pages h)" and fs: "lists_ok fs"
    and msets: "mset (concat (free_lists fs)) = mset (concat (map (\<lambda>pg. map (Pair pg) (free_spans 0 (?S pg))) (page_list h)))"
    by (rule sweep_heap_run [OF ok rep g tot]) (rule that)
  have lists: "distinct (page_list h)" "set (page_list h) = dom (heap_pages h)" "distinct (lob_list h)" "set (lob_list h) = dom (heap_lobs h)"
    and held: "held_bytes h \<le> unat (total_bytes (stats h))" and max: "total_bytes (stats h) \<le> max_size h"
    using ok by (auto simp: heap_ok_def)
  have lob: "lob_bytes ?h a = (if LargeObject a \<in> M then lob_bytes h a else 0)"
    "lob_size ?h a = (if LargeObject a \<in> M then lob_size h a else 0)" for a
    by (simp_all add: lob_bytes_def lob_size_def lob_dynamic_size_def split: option.split)
  have sums: "(\<Sum>a \<leftarrow> ?L. lob_bytes ?h a) = (\<Sum>a \<leftarrow> ?L. lob_bytes h a)" "(\<Sum>a \<leftarrow> ?L. lob_size ?h a) = (\<Sum>a \<leftarrow> ?L. lob_size h a)"
    by (rule sum_list_cong; simp only: lob set_filter mem_Collect_eq simp_thms if_True)+
  have split: "held_bytes h = length (page_list h) * unat (page_size (heap_layout h)) + ((\<Sum>a \<leftarrow> ?L. lob_bytes h a) + ?dead)"
    unfolding held_bytes_def by (subst sum_list_filter_split [of "lob_bytes h" "lob_list h" "\<lambda>a. LargeObject a \<in> M"]) (rule refl)
  have "?dead \<le> held_bytes h" unfolding split by (intro trans_le_add2 le_refl)
  then have dead: "?dead \<le> unat (total_bytes (stats h))" by (rule le_trans [OF _ held])
  then have tot': "unat (total_bytes (stats h) - of_nat ?dead) = unat (total_bytes (stats h)) - ?dead"
    by (rule unat_sub_of_nat)
  have held': "held_bytes ?h \<le> unat (total_bytes (stats ?h))"
  proof -
    have arith: "P + A \<le> t - D" if "H = P + (A + D)" "H \<le> t" for H P A D t :: nat using that by simp
    have "held_bytes ?h = length (page_list h) * unat (page_size (heap_layout h)) + (\<Sum>a \<leftarrow> ?L. lob_bytes h a)"
      unfolding held_bytes_def using sums(1) by simp
    moreover have "unat (total_bytes (stats ?h)) = unat (total_bytes (stats h)) - ?dead" using tot' by simp
    ultimately show ?thesis using arith [OF split held] by (simp only:)
  qed
  have le: "total_bytes (stats ?h) \<le> total_bytes (stats h)" using tot' by (simp add: word_le_nat_alt)
  have page_at: "page_ok ?n (?S pg) p" if "pages pg = Some p" for pg p
    using pages [of pg] that dom by (metis domI option.inject)
  have space: "space_ok ?n pages ?S fs"
  proof -
    have "tiles_ok ?n (?S pg)" if "pg \<in> set (page_list h)" for pg
      using pages [of pg] that lists(2) page_rep_bits(1) by (auto simp: page_ok_def)
    then have d: "distinct (concat (free_lists fs))" using distinct_spans [OF lists(1), of ?n ?S] msets mset_eq_imp_distinct_iff by blast
    have "set (concat (free_lists fs)) = set (concat (map (\<lambda>pg. map (Pair pg) (free_spans 0 (?S pg))) (page_list h)))"
      using msets by (metis set_mset_mset)
    also have "\<dots> = {(pg, pos, len). pg \<in> dom pages \<and> (pos, len) \<in> set (free_spans 0 (?S pg))}"
      using lists(2) dom by auto
    also have "\<dots> = free_span_set pages ?S" unfolding free_span_set_def by (simp add: domIff)
    finally show ?thesis using d fs page_at by (simp add: space_ok_def lists_ok_def pages_rep_def page_ok_def)
  qed
  have ok': "heap_ok ?h ?S"
    unfolding heap_ok_def
  proof (intro conjI)
    show "cells_per_page ?h < 2 ^ 32" "space_ok (cells_per_page ?h) (heap_pages ?h) ?S (heap_free ?h)"
      "distinct (page_list ?h)" "set (page_list ?h) = dom (heap_pages ?h)" "distinct (lob_list ?h)"
      "\<forall>pg p. heap_pages ?h pg = Some p \<longrightarrow> page_ok (cells_per_page ?h) (?S pg) p"
      using ok space lists dom page_at by (simp_all add: heap_ok_def)
    show "set (lob_list ?h) = dom (heap_lobs ?h)" using lists(4) by (auto simp: domIff)
    have "\<forall>a lob. heap_lobs h a = Some lob \<longrightarrow> \<not> lob_marked lob" using ok by (simp add: heap_ok_def)
    then show "\<forall>a lob. heap_lobs ?h a = Some lob \<longrightarrow> \<not> lob_marked lob" by (simp split: if_splits) blast
    show "total_bytes (stats ?h) \<le> max_size ?h" using le max by simp
  qed (rule held')
  have contents: "heap_contents ?h ?S = {(x, l) \<in> heap_contents h T. x \<in> M}"
  proof -
    have "(\<exists>p. pages pg = Some p) \<longleftrightarrow> (\<exists>p. heap_pages h pg = Some p)" for pg using dom by (metis domIff option.exhaust)
    then show ?thesis unfolding heap_contents_def used_blocks_swept by auto
  qed
  have "live_cells ?h ?S = (\<Sum>pg \<leftarrow> page_list h. used_cells (?S pg)) + (\<Sum>a \<leftarrow> ?L. lob_size h a)"
    unfolding live_cells_def using sums(2) by simp
  then show thesis by (intro that [OF run ok' contents]) (use le in simp_all)
qed

lemma threshold_bound: "current \<le> compute_next_threshold prev current"
proof -
  have "(prev div 3) * 2 \<le> prev"
  proof -
    have u: "unat (prev div 3) = unat prev div 3" by (simp add: unat_div)
    have "unat prev div 3 * 2 \<le> unat prev" by simp
    moreover have "unat prev < 2 ^ 64" using unsigned_less [of prev] by simp
    ultimately have "unat ((prev div 3) * 2) = unat prev div 3 * 2" using u by (simp add: unat_word_ariths)
    then show ?thesis by (simp add: word_le_nat_alt)
  qed
  moreover have "current \<le> ceil_pow2_fast current" if "\<not> current > max_pow2"
  proof (cases "current = 0")
    case False
    have "current \<le> max_pow2" using that by simp
    moreover have "0 < current" using False by (simp add: word_gt_0)
    ultimately show ?thesis using ceil_pow2_least by metis
  qed simp
  ultimately show ?thesis by (auto simp: compute_next_threshold_def)
qed

subsection \<open>A collection\<close>

definition same_config :: "heap \<Rightarrow> heap \<Rightarrow> bool" where
  "same_config h h' \<longleftrightarrow> heap_layout h' = heap_layout h \<and> lob_header h' = lob_header h \<and> max_size h' = max_size h"

lemma collect_ok:
  assumes ok: "heap_ok h T" and roots: "set roots \<subseteq> heap_objects h T"
    and closed: "\<forall>x \<in> heap_objects h T. set (refs x) \<subseteq> heap_objects h T"
  obtains h' T' where "collect refs (Some roots) h = Some h'" "heap_ok h' T'"
    "heap_contents h' T' = {(x, l) \<in> heap_contents h T. reachable refs roots x}"
    "allocated_objects (stats h') = of_nat (card {x. reachable refs roots x})"
    "allocated_bytes (stats h') = of_nat (live_cells h' T') * 16"
    "total_bytes (stats h') \<le> total_bytes (stats h)" "allocated_bytes (stats h') \<le> next_threshold h'" "same_config h h'"
proof -
  let ?R = "{x. reachable refs roots x}"
  obtain s where s: "s = (stats h)\<lparr>allocated_objects := of_nat (card ?R)\<rparr>" by blast
  obtain g where g: "trace_heap refs roots h = Some (g\<lparr>stats := s\<rparr>)" "marked_rep h T ?R g"
    by (rule trace_heap_rep [OF marked_rep_start [OF ok] heap_objects_finite [OF ok] roots closed, folded s]) (rule that)
  have "total_bytes s = total_bytes (stats h)" by (simp add: s)
  then obtain h' T' where h': "sweep_heap (g\<lparr>stats := s\<rparr>) = Some h'" "heap_ok h' T'"
    "heap_contents h' T' = {(x, l) \<in> heap_contents h T. x \<in> ?R}" "allocated_objects (stats h') = allocated_objects s"
    "allocated_bytes (stats h') = of_nat (live_cells h' T') * cell_size" "total_bytes (stats h') \<le> total_bytes (stats h)"
    "heap_layout h' = heap_layout h" "max_size h' = max_size h" "lob_header h' = lob_header h"
    by (rule swept_heap_ok [OF ok g(2) refl]) (rule that)
  let ?h = "h'\<lparr>next_threshold := compute_next_threshold (next_threshold h') (allocated_bytes (stats h'))\<rparr>"
  have "collect refs (Some roots) h = Some ?h" using g(1) h'(1) by (simp add: collect_def)
  moreover have "lob_bytes ?h = lob_bytes h'" "lob_size ?h = lob_size h'"
    by (simp_all add: fun_eq_iff lob_bytes_def lob_size_def lob_dynamic_size_def split: option.split)
  then have "heap_ok ?h T'" "live_cells ?h T' = live_cells h' T'"
    using h'(2) by (simp_all add: heap_ok_def held_bytes_def live_cells_def)
  moreover have "heap_contents ?h T' = heap_contents h' T'" by (simp add: heap_contents_def)
  ultimately show thesis
    using h'(3-) threshold_bound by (intro that [of ?h T']) (simp_all add: cell_size_def s same_config_def)
qed

subsection \<open>Properties\<close>

text \<open>
  C29: A collection keeps exactly what can be reached. In a heap that satisfies its invariant, from roots
  that are objects of the heap and with objects that refer to objects of the heap only, the collection
  runs to its end without a failed check. Afterwards the objects of the heap are exactly the reachable
  ones, at their old places and with their old sizes; all other cells are on the free lists, joined
  and in the list of their class; the statistics count the objects and their bytes; the memory
  of dead large objects is returned; and the next threshold is not below what is in use.
\<close>

theorem collect_exact:
  assumes ok: "heap_ok h T" and roots: "set roots \<subseteq> heap_objects h T"
    and closed: "\<forall>x \<in> heap_objects h T. set (refs x) \<subseteq> heap_objects h T"
  shows "\<exists>h' T'. collect refs (Some roots) h = Some h' \<and> heap_ok h' T'
    \<and> heap_contents h' T' = {(x, l) \<in> heap_contents h T. reachable refs roots x}
    \<and> allocated_objects (stats h') = of_nat (card {x. reachable refs roots x})
    \<and> allocated_bytes (stats h') = of_nat (live_cells h' T') * 16
    \<and> total_bytes (stats h') \<le> total_bytes (stats h) \<and> allocated_bytes (stats h') \<le> next_threshold h'"
  by (rule collect_ok [OF assms]) blast

text \<open>A page of four cells with two objects, of which the first is a root and refers to a large object.\<close>

definition sample_heap :: heap where
  "sample_heap = \<lparr>
     heap_layout = \<lparr>page_size = 65536, page_size_log = 16, block_bitmap_offset = 64, mark_bitmap_offset = 80, bitmap_items = 1,
       cells_offset = 96, cells_size = 4, large_object_cells = 16\<rparr>,
     lob_header = 64,
     heap_free = \<lparr>exp_size_classes = 0, free_lists = [[], [(5, 2, 2)]] @ replicate 14 []\<rparr>,
     heap_pages = [5 \<mapsto> \<lparr>block_bits = [0b0011], mark_bits = [0b0100], finalizers = [1]\<rparr>], page_list = [5],
     heap_lobs = [7 \<mapsto> \<lparr>lob_marked = False, lob_finalizer = False, lob_cells = 20\<rparr>,
                  8 \<mapsto> \<lparr>lob_marked = False, lob_finalizer = True, lob_cells = 30\<rparr>], lob_list = [8, 7],
     stats = \<lparr>total_bytes = 100000, allocated_bytes = 832, free_bytes = 32, allocated_objects = 4\<rparr>,
     max_size = - 1, next_threshold = 1048576\<rparr>"

definition sample_tiles :: "nat \<Rightarrow> tiles" where
  "sample_tiles pg = [(Used, 1), (Used, 1), (Free, 2)]"

definition sample_refs :: "object_ref \<Rightarrow> object_ref list" where
  "sample_refs x = (case x of PageObject pg 0 \<Rightarrow> [LargeObject 7] | _ \<Rightarrow> [])"

lemma sample_heap_ok: "heap_ok sample_heap sample_tiles"
proof -
  have rep: "page_rep 4 \<lparr>block_bits = [0b0011], mark_bits = [0b0100], finalizers = [1]\<rparr> [(Used, 1), (Used, 1), (Free, 2)]" by code_simp
  have used: "used_starts [(Used, 1), (Used, 1), (Free, 2)] = {0, 1}" by (simp add: used_starts_blocks)
  have sorted: "lists_sorted \<lparr>exp_size_classes = 0, free_lists = [[], [(5, 2, 2)]] @ replicate 14 []\<rparr>"
    by (auto simp: lists_sorted_def nth_append nth_Cons' class_index_def exact_size_classes_def split: if_splits)
  have "classes_ok (heap_free sample_heap)"
    by (simp add: sample_heap_def classes_ok_def class_count_def exact_size_classes_def)
  moreover have "distinct (concat (free_lists (heap_free sample_heap)))"
    "set (concat (free_lists (heap_free sample_heap))) = free_span_set (heap_pages sample_heap) sample_tiles"
    by (auto simp: sample_heap_def sample_tiles_def free_span_set_def split: if_splits)
  ultimately have "space_ok 4 (heap_pages sample_heap) sample_tiles (heap_free sample_heap)"
    using rep sorted by (simp add: space_ok_def pages_rep_def) (simp add: sample_heap_def sample_tiles_def)
  moreover have "held_bytes sample_heap \<le> 100000"
    by (simp add: held_bytes_def sample_heap_def lob_bytes_def lob_dynamic_size_def cell_size_def)
  ultimately show ?thesis
    using rep used by (auto simp: heap_ok_def page_ok_def sample_heap_def cells_per_page_def sample_tiles_def split: if_splits)
qed

theorem collect_exact_witness:
  "\<exists>h'. collect sample_refs (Some [PageObject 5 0]) sample_heap = Some h' \<and> allocated_objects (stats h') = 2"
proof -
  have objects: "heap_objects sample_heap sample_tiles = {PageObject 5 0, PageObject 5 1, LargeObject 7, LargeObject 8}"
  proof -
    have "x \<in> heap_objects sample_heap sample_tiles \<longleftrightarrow> x \<in> {PageObject 5 0, PageObject 5 1, LargeObject 7, LargeObject 8}" for x
      by (cases x) (auto simp: heap_objects_page heap_objects_large used_starts_blocks sample_heap_def sample_tiles_def split: if_splits)
    then show ?thesis by blast
  qed
  have reach: "{x. reachable sample_refs [PageObject 5 0] x} = {PageObject 5 0, LargeObject 7}"
  proof
    show "{x. reachable sample_refs [PageObject 5 0] x} \<subseteq> {PageObject 5 0, LargeObject 7}"
      by (rule reachable_least) (auto simp: sample_refs_def)
    have "reachable sample_refs [PageObject 5 0] (PageObject 5 0)" by (rule root) simp
    moreover from this have "reachable sample_refs [PageObject 5 0] (LargeObject 7)" by (rule member) (simp add: sample_refs_def)
    ultimately show "{PageObject 5 0, LargeObject 7} \<subseteq> {x. reachable sample_refs [PageObject 5 0] x}" by simp
  qed
  have "\<forall>x \<in> heap_objects sample_heap sample_tiles. set (sample_refs x) \<subseteq> heap_objects sample_heap sample_tiles"
    by (simp add: objects sample_refs_def)
  from collect_exact [OF sample_heap_ok _ this, of "[PageObject 5 0]"] show ?thesis by (auto simp: objects reach)
qed

end
