(* ===== verification/HeapAlloc.thy ===== *)
theory HeapAlloc
  imports HeapSweep
begin

text \<open>
  Allocation on the heap keeps the invariant: a new object gets cells that nobody else uses, all
  other objects stay where they are, and running out of memory is the only error.
\<close>

subsection \<open>Pages with room\<close>

definition layout_ok :: "page_layout \<Rightarrow> bool" where
  "layout_ok l \<longleftrightarrow> unat (cells_size l) \<le> 32 * unat (bitmap_items l) \<and> 0 < unat (large_object_cells l)
     \<and> unat (large_object_cells l) \<le> unat (cells_size l)"

lemma same_config_trans: "same_config a b \<Longrightarrow> same_config b c \<Longrightarrow> same_config a c"
  by (simp add: same_config_def)

lemma same_config_refl [simp]: "same_config h h"
  by (simp add: same_config_def)

lemma same_config_cells: "same_config h h' \<Longrightarrow> cells_per_page h' = cells_per_page h"
  by (simp add: same_config_def cells_per_page_def)

lemma lob_size_updates [simp]:
  "lob_size (h\<lparr>heap_pages := a\<rparr>) = lob_size h" "lob_size (h\<lparr>heap_free := b\<rparr>) = lob_size h" "lob_size (h\<lparr>stats := c\<rparr>) = lob_size h"
  "lob_bytes (h\<lparr>heap_pages := a\<rparr>) = lob_bytes h" "lob_bytes (h\<lparr>heap_free := b\<rparr>) = lob_bytes h" "lob_bytes (h\<lparr>stats := c\<rparr>) = lob_bytes h"
  "lob_bytes (h\<lparr>page_list := d\<rparr>) = lob_bytes h"
  by (simp_all add: fun_eq_iff lob_size_def lob_bytes_def lob_dynamic_size_def split: option.split)

lemma heap_ok_stats:
  assumes "heap_ok h T" and "unat (total_bytes (stats h)) \<le> unat (total_bytes s)" and "total_bytes s \<le> max_size h"
  shows "heap_ok (h\<lparr>stats := s\<rparr>) T"
  using assms by (simp add: heap_ok_def held_bytes_def)

lemma heap_contents_stats [simp]: "heap_contents (h\<lparr>stats := s\<rparr>) T = heap_contents h T"
  by (simp add: heap_contents_def)

subsection \<open>Allocation in a free block\<close>

lemma used_blocks_carve:
  assumes "r \<le> l"
  shows "set (used_blocks 0 (carve a r l b)) = insert (cells_of a, r) (set (used_blocks 0 (a @ (Free, l) # b)))"
  using assms by (auto simp: carve_def used_blocks_append)

lemma free_start_unused:
  assumes "tiles_ok n (a @ (Free, l) # b)"
  shows "cells_of a \<notin> used_starts (a @ (Free, l) # b)"
proof
  assume "cells_of a \<in> used_starts (a @ (Free, l) # b)"
  then obtain m where "(cells_of a, m) \<in> set (used_blocks 0 (a @ (Free, l) # b))" by (auto simp: used_starts_blocks)
  then consider "(cells_of a, m) \<in> set (used_blocks 0 a)" | "(cells_of a, m) \<in> set (used_blocks (cells_of a + l) b)"
    by (auto simp: used_blocks_append)
  then show False
  proof cases
    case 1
    have "\<forall>t \<in> set a. 0 < snd t" using assms by (auto simp: tiles_ok_append)
    from used_blocks_bounds [OF this 1] show ?thesis by auto
  next
    case 2
    have "\<forall>t \<in> set b. 0 < snd t" "0 < l" using assms by (auto simp: tiles_ok_append)
    from used_blocks_bounds [OF this(1) 2] this(2) show ?thesis by simp
  qed
qed

lemma carve_page_ok:
  assumes "page_ok n (a @ (Free, l) # b) p" and "page_rep n p' (carve a r l b)" and "finalizers p' = finalizers p" and "r \<le> l"
  shows "page_ok n (carve a r l b) p'"
proof -
  have "used_starts (a @ (Free, l) # b) \<subseteq> used_starts (carve a r l b)"
    unfolding used_starts_blocks used_blocks_carve [OF assms(4)] by auto
  then show ?thesis using assms by (auto simp: page_ok_def carve_def)
qed

lemma contents_page: "(PageObject pg i, l) \<in> heap_contents h T \<longleftrightarrow> heap_pages h pg \<noteq> None \<and> (i, l) \<in> set (used_blocks 0 (T pg))"
  unfolding heap_contents_def by auto

lemma contents_large: "(LargeObject a, l) \<in> heap_contents h T \<longleftrightarrow> (\<exists>lob. heap_lobs h a = Some lob \<and> l = unat (lob_cells lob))"
  unfolding heap_contents_def by auto

definition allocated_in :: "heap \<Rightarrow> (nat \<Rightarrow> tiles) \<Rightarrow> object_ref \<Rightarrow> nat \<Rightarrow> heap \<Rightarrow> (nat \<Rightarrow> tiles) \<Rightarrow> bool" where
  "allocated_in h T x n h' T' \<longleftrightarrow> heap_ok h' T' \<and> same_config h h' \<and> x \<notin> heap_objects h T
     \<and> heap_contents h' T' = insert (x, n) (heap_contents h T)"

lemma try_allocate_ok:
  assumes ok: "heap_ok h T" and request: "0 < request" "request < 2 ^ 32"
  shows "(try_allocate request h = Some (None, h) \<and> (\<forall>(pg, pos, len) \<in> free_span_set (heap_pages h) T. len < request))
    \<or> (\<exists>x h' T'. try_allocate request h = Some (Some x, h') \<and> allocated_in h T x request h' T')"
proof -
  let ?n = "cells_per_page h"
  have n: "?n < 2 ^ 32" and space: "space_ok ?n (heap_pages h) T (heap_free h)" using ok by (auto simp: heap_ok_def)
  show ?thesis
    using allocate_exact_ok [OF space request n]
  proof (elim disjE conjE exE)
    assume "allocate_exact ?n request (heap_pages h, heap_free h) = Some (None, heap_pages h, heap_free h)"
      and "\<forall>(pg, pos, len) \<in> free_span_set (heap_pages h) T. len < request"
    then show ?thesis by (simp add: try_allocate_def)
  next
    fix pg pos pages T' fs'
    assume run: "allocate_exact ?n request (heap_pages h, heap_free h) = Some (Some (pg, pos), pages, fs')"
      and "allocation_ok ?n request (heap_pages h) T pg pos pages T' fs'"
    then obtain a len b p p' where A: "T pg = a @ (Free, len) # b" "cells_of a = pos" "request \<le> len" "T' = T(pg := carve a request len b)"
      "heap_pages h pg = Some p" "pages = (heap_pages h)(pg \<mapsto> p')" "finalizers p' = finalizers p" "space_ok ?n pages T' fs'"
      by (auto simp: allocation_ok_def)
    let ?h = "h\<lparr>heap_pages := pages, heap_free := fs'\<rparr>" and ?x = "PageObject pg pos"
    have p: "page_ok ?n (a @ (Free, len) # b) p" using ok A(1,5) by (simp add: heap_ok_def flip: A(1))
    then have tiles: "tiles_ok ?n (a @ (Free, len) # b)" using page_rep_bits(1) by (auto simp: page_ok_def)
    have "pages_rep ?n pages T'" "pages pg = Some p'" using A(6,8) by (auto simp: space_ok_def)
    then have "page_rep ?n p' (T' pg)" unfolding pages_rep_def by blast
    then have "page_rep ?n p' (carve a request len b)" by (simp add: A(4))
    then have p': "page_ok ?n (carve a request len b) p'" by (rule carve_page_ok [OF p _ A(7,3)])
    have "heap_ok ?h T'"
      using ok A p' by (auto simp: heap_ok_def held_bytes_def)
    moreover have "?x \<notin> heap_objects h T"
      using free_start_unused [OF tiles] A by (simp add: heap_objects_page)
    moreover have "heap_contents ?h T' = insert (?x, request) (heap_contents h T)"
    proof (rule set_eqI)
      fix y :: "object_ref \<times> nat"
      obtain x l where y: "y = (x, l)" by fastforce
      show "y \<in> heap_contents ?h T' \<longleftrightarrow> y \<in> insert (?x, request) (heap_contents h T)"
      proof (cases x)
        case (PageObject q i)
        then show ?thesis
          using A(1,2,4,5,6) used_blocks_carve [OF A(3), of a b] by (cases "q = pg") (auto simp: y contents_page)
      qed (simp add: y contents_large)
    qed
    ultimately have "allocated_in h T ?x request ?h T'" by (simp add: allocated_in_def same_config_def)
    then show ?thesis using run by (intro disjI2 exI [of _ ?x] exI [of _ ?h] exI [of _ T']) (simp add: try_allocate_def)
  qed
qed

subsection \<open>New chunks\<close>

lemma allocate_raw_cases:
  fixes h :: heap and n :: u64
  assumes "total_bytes (stats h) \<le> max_size h"
  defines "g \<equiv> h\<lparr>stats := (stats h)\<lparr>total_bytes := total_bytes (stats h) + n\<rparr>\<rparr>"
  shows "(allocate_raw alloc n h = Some (Inl MemoryLimit, h) \<and> unat (max_size h) < unat (total_bytes (stats h)) + unat n)
    \<or> (allocate_raw alloc n h = Some (case alloc g of None \<Rightarrow> Inl AllocError | Some a \<Rightarrow> Inr a, g)
      \<and> unat (total_bytes (stats g)) = unat (total_bytes (stats h)) + unat n \<and> total_bytes (stats g) \<le> max_size h)"
proof (cases "n > max_size h - total_bytes (stats h)")
  case True
  have le: "unat (total_bytes (stats h)) \<le> unat (max_size h)" using assms(1) by (simp add: word_le_nat_alt)
  have "unat (max_size h) - unat (total_bytes (stats h)) < unat n"
    using True free_raw_sum [OF le] by (simp add: word_less_nat_alt)
  then have "unat (max_size h) < unat (total_bytes (stats h)) + unat n" by linarith
  then show ?thesis using True assms(1) by (simp add: allocate_raw_def not_less)
next
  case False
  have "unat (total_bytes (stats h)) \<le> unat (max_size h)" using assms(1) by (simp add: word_le_nat_alt)
  moreover have "unat n \<le> unat (max_size h) - unat (total_bytes (stats h))"
    using False free_raw_sum [OF calculation] by (simp add: word_le_nat_alt not_less)
  ultimately have le: "unat (total_bytes (stats h)) + unat n \<le> unat (max_size h)" by linarith
  moreover have "unat (max_size h) < 2 ^ LENGTH(64)" by (rule unsigned_less)
  ultimately have "unat (total_bytes (stats h)) + unat n < 2 ^ LENGTH(64)" by (rule le_less_trans)
  then have sum: "unat (total_bytes (stats h) + n) = unat (total_bytes (stats h)) + unat n" by (simp add: unat_word_ariths)
  moreover have "total_bytes (stats h) + n \<le> max_size h" using le sum by (simp add: word_le_nat_alt)
  ultimately show ?thesis using False assms(1) by (intro disjI2) (simp add: allocate_raw_def g_def Let_def)
qed

text \<open>
  Why an allocation of a chunk of \<open>s\<close> bytes failed: it would exceed the limit, or the allocator has
  no chunk. The code counts the bytes before it calls the allocator.
\<close>

definition out_of_memory :: "(heap \<Rightarrow> nat option) \<Rightarrow> u64 \<Rightarrow> heap \<Rightarrow> heap_error \<Rightarrow> bool" where
  "out_of_memory alloc s h e \<longleftrightarrow>
     (e = MemoryLimit \<and> unat (max_size h) < unat (total_bytes (stats h)) + unat s) \<or> (e = AllocError \<and> alloc h = None)"

lemma new_page_rep:
  assumes "0 < n" and "n \<le> 32 * items"
  obtains p where "set_free n 0 n (new_page items) = Some p" "page_rep n p [(Free, n)]" "finalizers p = []"
proof -
  have view: "bitset_view (replicate items (0 :: u32)) n" using assms(2) by (simp add: bitset_view_def)
  have zero: "bit_at (replicate items (0 :: u32)) i = False" if "i < 32 * items" for i
    using that less_mult_imp_div_less [of i items 32] by (simp add: bit_at_def mult.commute)
  have ok: "bitmap_ok (replicate items (0 :: u32)) n"
    using view zero block_count_le [OF view] by (auto simp: bitmap_ok_def tail_clear_def)
  have list: "bits_list (replicate items (0 :: u32)) n = replicate n False"
    using zero assms(2) by (intro nth_equalityI) (simp_all add: bits_list_nth)
  let ?zeros = "replicate items (0 :: u32)"
  obtain b where b: "bitset_set ?zeros n 0 False = Some b" "bitmap_ok b n" "length b = length ?zeros" "bits_list b n = (bits_list ?zeros n)[0 := False]"
    by (rule bitmap_set [OF ok assms(1)]) (rule that)
  obtain m where m: "bitset_set ?zeros n 0 True = Some m" "bitmap_ok m n" "length m = length ?zeros" "bits_list m n = (bits_list ?zeros n)[0 := True]"
    by (rule bitmap_set [OF ok assms(1)]) (rule that)
  let ?p = "\<lparr>block_bits = b, mark_bits = m, finalizers = []\<rparr>"
  obtain k where k: "n = Suc k" using assms(1) gr0_implies_Suc by blast
  have "page_rep n ?p [(Free, n)]"
    using b(2-4) m(2-4) list by (simp add: page_rep_def tiles_ok_def k)
  moreover have "set_free n 0 n (new_page items) = Some ?p"
    using b(1) m(1) assms(1) by (simp add: set_free_def new_page_def)
  ultimately show thesis by (intro that [of ?p]) simp_all
qed

definition fresh_chunks :: "(heap \<Rightarrow> nat option) \<Rightarrow> bool" where
  "fresh_chunks alloc \<longleftrightarrow> (\<forall>g a. alloc g = Some a \<longrightarrow> heap_pages g a = None \<and> heap_lobs g a = None)"

lemma unat_page_size: "unat (ucast (x :: u32) :: u64) = unat x"
  by (simp add: unsigned_ucast_eq take_bit_nat_eq_self order_less_trans [OF unsigned_less])

lemma add_page_ok:
  assumes ok: "heap_ok h T" and layout: "layout_ok (heap_layout h)" and fresh: "fresh_chunks alloc"
  obtains r h' T' where "add_page alloc h = Some (r, h')" "heap_ok h' T'" "same_config h h'" "heap_contents h' T' = heap_contents h T"
    "case r of Inl err \<Rightarrow> out_of_memory alloc (ucast (page_size (heap_layout h))) h' err \<and> heap_pages h' = heap_pages h \<and> T' = T
      | Inr a \<Rightarrow> (a, 0, cells_per_page h) \<in> free_span_set (heap_pages h') T'"
proof -
  let ?n = "cells_per_page h" and ?size = "ucast (page_size (heap_layout h)) :: u64"
  let ?g = "h\<lparr>stats := (stats h)\<lparr>total_bytes := total_bytes (stats h) + ?size\<rparr>\<rparr>"
  have n32: "?n < 2 ^ 32" and space: "space_ok ?n (heap_pages h) T (heap_free h)" and lim: "total_bytes (stats h) \<le> max_size h"
    using ok by (auto simp: heap_ok_def)
  consider (limit) "allocate_raw alloc ?size h = Some (Inl MemoryLimit, h)"
      "unat (max_size h) < unat (total_bytes (stats h)) + unat ?size"
    | (raw) "allocate_raw alloc ?size h = Some (case alloc ?g of None \<Rightarrow> Inl AllocError | Some a \<Rightarrow> Inr a, ?g)"
      "unat (total_bytes (stats ?g)) = unat (total_bytes (stats h)) + unat ?size" "total_bytes (stats ?g) \<le> max_size h"
    using allocate_raw_cases [OF lim, of alloc ?size] by blast
  then show thesis
  proof cases
    case limit
    then show thesis by (intro that [of "Inl MemoryLimit" h T]) (simp_all add: add_page_def ok out_of_memory_def)
  next
    case raw
    have g_ok: "heap_ok ?g T" using heap_ok_stats [OF ok] raw(2,3) by simp
    show thesis
    proof (cases "alloc ?g")
      case None
      then show thesis using raw(1) g_ok
        by (intro that [of "Inl AllocError" ?g T]) (auto simp: add_page_def same_config_def out_of_memory_def)
    next
      case (Some a)
      have none: "heap_pages h a = None" using fresh Some by (fastforce simp: fresh_chunks_def)
      have n: "0 < ?n" "?n \<le> 32 * unat (bitmap_items (heap_layout h))"
        using layout by (auto simp: layout_ok_def cells_per_page_def)
      obtain p where p: "set_free ?n 0 ?n (new_page (unat (bitmap_items (heap_layout h)))) = Some p" "page_rep ?n p [(Free, ?n)]" "finalizers p = []"
        by (rule new_page_rep [OF n]) (rule that)
      have start: "is_free_block_start ?n p 0 = Some True" using page_tests(2) [of ?n p "[]" Free ?n "[]"] p(2) by simp
      have S: "classes_ok (heap_free h)" "lists_sorted (heap_free h)" "distinct (concat (free_lists (heap_free h)))"
        "set (concat (free_lists (heap_free h))) = free_span_set (heap_pages h) T" using space by (simp_all add: space_ok_def)
      have new: "(a, 0, ?n) \<notin> set (concat (free_lists (heap_free h)))" unfolding S(4) using none by (simp add: free_span_set_def)
      obtain fs where fs: "insert_free ?n a p 0 ?n (heap_free h) = Some fs" "classes_ok fs" "lists_sorted fs" "distinct (concat (free_lists fs))"
        "set (concat (free_lists fs)) = insert (a, 0, ?n) (set (concat (free_lists (heap_free h))))"
        by (rule insert_free_ok [OF S(1-3) new start n(1) n32]) (rule that)
      let ?T = "T(a := [(Free, ?n)])" and ?pages = "(heap_pages h)(a \<mapsto> p)"
      let ?h = "?g\<lparr>heap_pages := ?pages, page_list := page_list h @ [a], heap_free := fs,
         stats := (stats ?g)\<lparr>free_bytes := free_bytes (stats h) + ucast (cells_size (heap_layout h)) * cell_size\<rparr>\<rparr>"
      have run: "add_page alloc h = Some (Inr a, ?h)"
        using raw(1) Some p(1) fs(1) n(1) by (simp add: add_page_def insert_free_with_metadata_def)
      have spans: "free_span_set ?pages ?T = insert (a, 0, ?n) (free_span_set (heap_pages h) T)"
        unfolding free_span_set_update using none by (auto simp: free_span_set_def)
      have "pages_rep ?n ?pages ?T" using pages_rep_update [OF _ p(2)] space by (simp add: space_ok_def)
      then have space': "space_ok ?n ?pages ?T fs" using fs(2-5) S(4) spans by (simp add: space_ok_def)
      have pages': "page_ok ?n (?T pg) q" if "?pages pg = Some q" for pg q
        using that ok p by (auto simp: heap_ok_def page_ok_def split: if_splits)
      have "heap_ok ?h ?T"
        using ok space' pages' none raw(2,3) by (auto simp: heap_ok_def held_bytes_def unat_page_size)
      moreover have "heap_contents ?h ?T = heap_contents h T"
      proof (rule set_eqI)
        fix y :: "object_ref \<times> nat"
        obtain x l where y: "y = (x, l)" by fastforce
        show "y \<in> heap_contents ?h ?T \<longleftrightarrow> y \<in> heap_contents h T"
          using none by (cases x) (auto simp: y contents_page contents_large)
      qed
      ultimately show thesis using run spans
        by (intro that [of "Inr a" ?h ?T]) (simp_all add: same_config_def)
    qed
  qed
qed

lemma add_lob_ok:
  assumes ok: "heap_ok h T" and n: "n \<noteq> 0" and fresh: "fresh_chunks alloc"
  obtains r h' where "add_lob alloc n h = Some (r, h')"
    "case r of Inl err \<Rightarrow> out_of_memory alloc (lob_dynamic_size h n) h' err \<and> heap_ok h' T \<and> same_config h h' \<and> heap_contents h' T = heap_contents h T
      | Inr a \<Rightarrow> allocated_in h T (LargeObject a) (unat n) h' T"
proof -
  let ?size = "lob_dynamic_size h n"
  let ?g = "h\<lparr>stats := (stats h)\<lparr>total_bytes := total_bytes (stats h) + ?size\<rparr>\<rparr>"
  have lim: "total_bytes (stats h) \<le> max_size h" using ok by (auto simp: heap_ok_def)
  consider (limit) "allocate_raw alloc ?size h = Some (Inl MemoryLimit, h)"
      "unat (max_size h) < unat (total_bytes (stats h)) + unat ?size"
    | (raw) "allocate_raw alloc ?size h = Some (case alloc ?g of None \<Rightarrow> Inl AllocError | Some a \<Rightarrow> Inr a, ?g)"
      "unat (total_bytes (stats ?g)) = unat (total_bytes (stats h)) + unat ?size" "total_bytes (stats ?g) \<le> max_size h"
    using allocate_raw_cases [OF lim, of alloc ?size] by blast
  then show thesis
  proof cases
    case limit
    then show thesis by (intro that [of "Inl MemoryLimit" h]) (simp_all add: add_lob_def ok n out_of_memory_def)
  next
    case raw
    have g_ok: "heap_ok ?g T" using heap_ok_stats [OF ok] raw(2,3) by simp
    show thesis
    proof (cases "alloc ?g")
      case None
      then show thesis using raw(1) g_ok n
        by (intro that [of "Inl AllocError" ?g]) (auto simp: add_lob_def same_config_def out_of_memory_def)
    next
      case (Some a)
      have none: "heap_lobs h a = None" using fresh Some by (fastforce simp: fresh_chunks_def)
      let ?lob = "\<lparr>lob_marked = False, lob_finalizer = False, lob_cells = n\<rparr>"
      let ?h = "?g\<lparr>heap_lobs := (heap_lobs h)(a \<mapsto> ?lob), lob_list := lob_list h @ [a]\<rparr>"
      have run: "add_lob alloc n h = Some (Inr a, ?h)" using raw(1) Some n by (simp add: add_lob_def)
      have lists: "set (lob_list h) = dom (heap_lobs h)" using ok by (simp add: heap_ok_def)
      have bytes: "lob_bytes ?h b = (if b = a then unat ?size else lob_bytes h b)" for b
        by (simp add: lob_bytes_def lob_dynamic_size_def split: option.split)
      have "a \<notin> set (lob_list h)" using lists none by auto
      then have "(\<Sum>b \<leftarrow> lob_list h. lob_bytes ?h b) = (\<Sum>b \<leftarrow> lob_list h. lob_bytes h b)"
        unfolding bytes by (intro sum_list_cong) auto
      then have held: "held_bytes ?h = held_bytes h + unat ?size" using bytes [of a] by (simp add: held_bytes_def)
      have "heap_ok ?h T"
        using ok raw(2,3) none held by (auto simp: heap_ok_def)
      moreover have "LargeObject a \<notin> heap_objects h T" using none by (simp add: heap_objects_large)
      moreover have "heap_contents ?h T = insert (LargeObject a, unat n) (heap_contents h T)"
      proof (rule set_eqI)
        fix y :: "object_ref \<times> nat"
        obtain x l where y: "y = (x, l)" by fastforce
        show "y \<in> heap_contents ?h T \<longleftrightarrow> y \<in> insert (LargeObject a, unat n) (heap_contents h T)"
          using none by (cases x) (auto simp: y contents_page contents_large)
      qed
      ultimately have "allocated_in h T (LargeObject a) (unat n) ?h T" by (simp add: allocated_in_def same_config_def)
      then show thesis using run by (intro that [of "Inr a" ?h]) simp_all
    qed
  qed
qed

subsection \<open>Allocation\<close>

lemma allocated_in_stats:
  assumes "allocated_in h T x n h' T'" and "total_bytes s = total_bytes (stats h')"
  shows "allocated_in h T x n (h'\<lparr>stats := s\<rparr>) T'"
proof -
  have "heap_ok (h'\<lparr>stats := s\<rparr>) T'"
    using assms by (intro heap_ok_stats) (auto simp: allocated_in_def heap_ok_def)
  then show ?thesis using assms(1) by (simp add: allocated_in_def same_config_def)
qed

lemma finished_stats:
  assumes "allocated_in h T x n h' T'"
  shows "allocated_in h T x n (count_object b h') T'" "allocated_in h T x n (use_free_bytes b (count_object b h')) T'"
  unfolding count_object_def use_free_bytes_def by (auto intro!: allocated_in_stats assms)

text \<open>How an allocation may change the objects: unreachable objects may go, the new object is added.\<close>

definition served :: "(object_ref \<Rightarrow> object_ref list) \<Rightarrow> object_ref list \<Rightarrow> heap \<Rightarrow> (nat \<Rightarrow> tiles) \<Rightarrow> nat
    \<Rightarrow> heap_error + object_ref \<Rightarrow> heap \<Rightarrow> (nat \<Rightarrow> tiles) \<Rightarrow> bool" where
  "served refs roots h T n r h' T' \<longleftrightarrow> heap_ok h' T' \<and> same_config h h'
     \<and> (\<exists>C. {(x, l) \<in> heap_contents h T. reachable refs roots x} \<subseteq> C \<and> C \<subseteq> heap_contents h T
        \<and> (case r of Inl _ \<Rightarrow> heap_contents h' T' = C | Inr x \<Rightarrow> x \<notin> fst ` C \<and> heap_contents h' T' = insert (x, n) C))"

lemma served_after:
  assumes "served refs roots h T n (Inl e) h1 T1" and "allocated_in h1 T1 x n h' T'"
  shows "served refs roots h T n (Inr x) h' T'"
proof -
  obtain C where C: "{(x, l) \<in> heap_contents h T. reachable refs roots x} \<subseteq> C" "C \<subseteq> heap_contents h T" "heap_contents h1 T1 = C"
    "same_config h h1" using assms(1) by (auto simp: served_def)
  have x: "heap_ok h' T'" "x \<notin> fst ` C" "heap_contents h' T' = insert (x, n) C" "same_config h1 h'"
    using assms(2) C(3) by (simp_all add: allocated_in_def heap_objects_def)
  show ?thesis
    unfolding served_def using C(1,2) x same_config_trans [OF C(4) x(4)] by (intro conjI exI [of _ C]) simp_all
qed

lemma served_trans:
  assumes "served refs roots h T n (Inl e) h1 T1" and "heap_ok h' T'" and "same_config h1 h'" and "heap_contents h' T' = heap_contents h1 T1"
  shows "served refs roots h T n (Inl e') h' T'"
proof -
  have "same_config h h'" using assms(1,3) same_config_trans by (auto simp: served_def)
  then show ?thesis using assms(1,2,4) by (simp add: served_def)
qed

lemma served_start: "heap_ok h T \<Longrightarrow> served refs roots h T n (Inl e) h T"
  unfolding served_def by auto

text \<open>
  When a request of \<open>n\<close> cells may fail: the chunk that it needs, a page or a large object of its own,
  cannot be had. A request that fits into a page has no free block that is large enough, and garbage
  was collected before, if there was a page.
\<close>

definition chunk_size :: "heap \<Rightarrow> nat \<Rightarrow> u64" where
  "chunk_size h n = (if unat (large_object_cells (heap_layout h)) \<le> n then lob_dynamic_size h (word_of_nat n)
     else ucast (page_size (heap_layout h)))"

definition live_contents :: "(object_ref \<Rightarrow> object_ref list) \<Rightarrow> object_ref list \<Rightarrow> heap \<Rightarrow> (nat \<Rightarrow> tiles) \<Rightarrow> (object_ref \<times> nat) set" where
  "live_contents refs roots h T = {(x, l) \<in> heap_contents h T. reachable refs roots x}"

definition refused :: "(object_ref \<Rightarrow> object_ref list) \<Rightarrow> object_ref list \<Rightarrow> (heap \<Rightarrow> nat option) \<Rightarrow> heap \<Rightarrow> (nat \<Rightarrow> tiles) \<Rightarrow> nat
    \<Rightarrow> heap_error \<Rightarrow> heap \<Rightarrow> (nat \<Rightarrow> tiles) \<Rightarrow> bool" where
  "refused refs roots alloc h T n e h' T' \<longleftrightarrow> out_of_memory alloc (chunk_size h n) h' e
     \<and> (n < unat (large_object_cells (heap_layout h)) \<longrightarrow>
          (\<forall>(pg, pos, len) \<in> free_span_set (heap_pages h') T'. len < n)
          \<and> (page_list h \<noteq> [] \<longrightarrow> heap_contents h' T' = live_contents refs roots h T))"

definition allocation_outcome :: "(object_ref \<Rightarrow> object_ref list) \<Rightarrow> object_ref list \<Rightarrow> (heap \<Rightarrow> nat option) \<Rightarrow> heap \<Rightarrow> (nat \<Rightarrow> tiles) \<Rightarrow> nat
    \<Rightarrow> ((heap_error + object_ref) \<times> heap) option \<Rightarrow> bool" where
  "allocation_outcome refs roots alloc h T n res \<longleftrightarrow> (\<exists>r h' T'. res = Some (r, h') \<and> served refs roots h T n r h' T'
     \<and> (\<forall>e. r = Inl e \<longrightarrow> refused refs roots alloc h T n e h' T'))"

lemma outcome_error:
  "served refs roots h T n (Inl e) h' T' \<Longrightarrow> refused refs roots alloc h T n e h' T' \<Longrightarrow>
    allocation_outcome refs roots alloc h T n (Some (Inl e, h'))"
  unfolding allocation_outcome_def by blast

lemma outcome_done:
  "served refs roots h T n (Inl e) h1 T1 \<Longrightarrow> allocated_in h1 T1 x n h' T' \<Longrightarrow>
    allocation_outcome refs roots alloc h T n (Some (Inr x, h'))"
  unfolding allocation_outcome_def using served_after by blast

lemma collect_served:
  assumes "heap_ok h T" and "set roots \<subseteq> heap_objects h T" and "\<forall>x \<in> heap_objects h T. set (refs x) \<subseteq> heap_objects h T"
  obtains h' T' where "collect refs (Some roots) h = Some h'" "served refs roots h T n (Inl e) h' T'"
    "heap_contents h' T' = live_contents refs roots h T"
proof -
  obtain h' T' where h': "collect refs (Some roots) h = Some h'" "heap_ok h' T'"
    "heap_contents h' T' = {(x, l) \<in> heap_contents h T. reachable refs roots x}" "same_config h h'"
    by (rule collect_ok [OF assms]) (rule that)
  then have "served refs roots h T n (Inl e) h' T'" unfolding served_def by auto
  with h'(1) show thesis using h'(3) by (intro that) (simp_all add: live_contents_def)
qed

lemma grow_and_allocate:
  assumes prior: "served refs roots h T request (Inl e) h1 T1" and layout: "layout_ok (heap_layout h)" and fresh: "fresh_chunks alloc"
    and request: "0 < request" "request < unat (large_object_cells (heap_layout h))"
    and full: "\<forall>(pg, pos, len) \<in> free_span_set (heap_pages h1) T1. len < request"
    and gone: "page_list h \<noteq> [] \<Longrightarrow> heap_contents h1 T1 = live_contents refs roots h T"
  shows "allocation_outcome refs roots alloc h T request
    (Option.bind (add_page alloc h1) (\<lambda>(r, h). case r of
        Inl err \<Rightarrow> Some (Inl err, h)
      | Inr _ \<Rightarrow> Option.bind (try_allocate request h) (\<lambda>(result, h). case result of
            Some x \<Rightarrow> Some (Inr x, use_free_bytes bytes (count_object bytes h))
          | None \<Rightarrow> Some (Inl AllocError, h))))"
proof -
  have h1: "heap_ok h1 T1" "heap_layout h1 = heap_layout h" using prior by (simp_all add: served_def same_config_def)
  have layout1: "layout_ok (heap_layout h1)" using layout h1(2) by simp
  have small: "request \<le> cells_per_page h1" "request < 2 ^ 32"
    using request(2) layout1 h1 by (auto simp: layout_ok_def cells_per_page_def heap_ok_def)
  obtain r h2 T2 where r: "add_page alloc h1 = Some (r, h2)" "heap_ok h2 T2" "same_config h1 h2" "heap_contents h2 T2 = heap_contents h1 T1"
    "case r of Inl err \<Rightarrow> out_of_memory alloc (ucast (page_size (heap_layout h1))) h2 err \<and> heap_pages h2 = heap_pages h1 \<and> T2 = T1
      | Inr a \<Rightarrow> (a, 0, cells_per_page h1) \<in> free_span_set (heap_pages h2) T2"
    by (rule add_page_ok [OF h1(1) layout1 fresh]) (rule that)
  have now: "served refs roots h T request (Inl e') h2 T2" for e' by (rule served_trans [OF prior r(2-4)])
  show ?thesis
  proof (cases r)
    case (Inl err)
    have no: "refused refs roots alloc h T request err h2 T2"
      using r(4,5) Inl request(2) full gone h1(2) by (simp add: refused_def chunk_size_def)
    show ?thesis using r(1) Inl outcome_error [OF now no] by simp
  next
    case (Inr a)
    then have "\<not> (\<forall>(pg, pos, len) \<in> free_span_set (heap_pages h2) T2. len < request)" using r(5) small(1) by fastforce
    then obtain x h3 T3 where x: "try_allocate request h2 = Some (Some x, h3)" "allocated_in h2 T2 x request h3 T3"
      using try_allocate_ok [OF r(2) request(1) small(2)] by blast
    show ?thesis using r(1) Inr x(1) outcome_done [OF now finished_stats(2) [OF x(2)], of alloc bytes] by simp
  qed
qed

lemma allocate_small_outcome:
  assumes prior: "served refs roots h T request (Inl e) h1 T1" and first: "\<not> already \<Longrightarrow> h1 = h \<and> T1 = T"
    and ran: "already \<Longrightarrow> heap_contents h1 T1 = live_contents refs roots h T"
    and roots: "set roots \<subseteq> heap_objects h T" and closed: "\<forall>x \<in> heap_objects h T. set (refs x) \<subseteq> heap_objects h T"
    and layout: "layout_ok (heap_layout h)" and fresh: "fresh_chunks alloc"
    and request: "0 < request" "request < unat (large_object_cells (heap_layout h))"
  shows "allocation_outcome refs roots alloc h T request (allocate_small (collect refs (Some roots)) alloc already request bytes h1)"
proof -
  have h1: "heap_ok h1 T1" using prior by (simp add: served_def)
  have "unat (large_object_cells (heap_layout h)) < 2 ^ LENGTH(32)" by (rule unsigned_less)
  then have small: "request < 2 ^ 32" using request(2) by simp
  consider (fit) x h' T' where "try_allocate request h1 = Some (Some x, h')" "allocated_in h1 T1 x request h' T'"
    | (full) "try_allocate request h1 = Some (None, h1)" "\<forall>(pg, pos, len) \<in> free_span_set (heap_pages h1) T1. len < request"
    using try_allocate_ok [OF h1 request(1) small] by blast
  then show ?thesis
  proof cases
    case fit
    then show ?thesis using outcome_done [OF prior finished_stats(2) [OF fit(2)], of alloc bytes] by (simp add: allocate_small_def)
  next
    case full
    show ?thesis
    proof (cases "page_list h1 \<noteq> [] \<and> \<not> already")
      case False
      have "heap_contents h1 T1 = live_contents refs roots h T" if "page_list h \<noteq> []"
        using that False first ran by (cases already) simp_all
      then show ?thesis using full False grow_and_allocate [OF prior layout fresh request full(2), of bytes]
        by (auto simp: allocate_small_def cong: option.case_cong sum.case_cong)
    next
      case True
      then have same: "h1 = h" "T1 = T" using first by simp_all
      obtain h2 T2 where gc: "collect refs (Some roots) h = Some h2" "served refs roots h T request (Inl e) h2 T2"
        "heap_contents h2 T2 = live_contents refs roots h T"
        by (rule collect_served [OF h1 [unfolded same] roots closed]) (rule that)
      have h2: "heap_ok h2 T2" using gc(2) by (simp add: served_def)
      consider (fit) x h' T' where "try_allocate request h2 = Some (Some x, h')" "allocated_in h2 T2 x request h' T'"
        | (full) "try_allocate request h2 = Some (None, h2)" "\<forall>(pg, pos, len) \<in> free_span_set (heap_pages h2) T2. len < request"
        using try_allocate_ok [OF h2 request(1) small] by blast
      then show ?thesis
      proof cases
        case fit
        then show ?thesis using outcome_done [OF gc(2) finished_stats(2) [OF fit(2)], of alloc bytes] full True gc(1) same
          by (simp add: allocate_small_def)
      next
        case again: full
        then show ?thesis using full True gc(1) same grow_and_allocate [OF gc(2) layout fresh request again(2) gc(3), of bytes]
          by (simp add: allocate_small_def)
      qed
    qed
  qed
qed

lemma allocate_large_outcome:
  assumes prior: "served refs roots h T (unat n) (Inl e) h1 T1" and n: "n \<noteq> 0" and fresh: "fresh_chunks alloc"
    and large: "large_object_cells (heap_layout h) \<le> n"
  shows "allocation_outcome refs roots alloc h T (unat n) (allocate_large alloc n bytes h1)"
proof -
  have h1: "heap_ok h1 T1" using prior by (simp add: served_def)
  obtain r h2 where r: "add_lob alloc n h1 = Some (r, h2)"
    "case r of Inl err \<Rightarrow> out_of_memory alloc (lob_dynamic_size h1 n) h2 err \<and> heap_ok h2 T1 \<and> same_config h1 h2 \<and> heap_contents h2 T1 = heap_contents h1 T1
      | Inr a \<Rightarrow> allocated_in h1 T1 (LargeObject a) (unat n) h2 T1"
    by (rule add_lob_ok [OF h1 n fresh]) (rule that)
  show ?thesis
  proof (cases r)
    case (Inl err)
    then have err: "out_of_memory alloc (lob_dynamic_size h1 n) h2 err" "heap_ok h2 T1" "same_config h1 h2" "heap_contents h2 T1 = heap_contents h1 T1"
      using r(2) by simp_all
    have "lob_dynamic_size h1 n = lob_dynamic_size h n"
      using prior by (simp add: lob_dynamic_size_def served_def same_config_def)
    then have no: "refused refs roots alloc h T (unat n) err h2 T1"
      using err(1) large by (simp add: refused_def chunk_size_def word_le_nat_alt)
    show ?thesis using r(1) Inl outcome_error [OF served_trans [OF prior err(2-4)] no] by (simp add: allocate_large_def)
  next
    case (Inr a)
    then have "allocated_in h1 T1 (LargeObject a) (unat n) h2 T1" using r(2) by simp
    from outcome_done [OF prior finished_stats(1) [OF this], of alloc bytes] show ?thesis
      using r(1) Inr by (simp add: allocate_large_def)
  qed
qed

lemma cells_request:
  assumes "(bytes :: size_t) \<noteq> 0" and "unat bytes \<le> 16 * (2 ^ 32 - 1)"
  shows "unat (ucast (ceil_div bytes cell_size) :: u32) = (unat bytes + 15) div 16" "0 < (unat bytes + 15) div 16"
proof -
  have b: "0 < unat bytes" using assms(1) by (simp add: unat_gt_0)
  have q: "unat (ceil_div bytes cell_size) = (unat bytes + 15) div 16"
    using ceil_div_eq [of "cell_size :: size_t" bytes] assms(2) by (simp add: cell_size_def)
  have "(unat bytes + 15) div 16 < 2 ^ 32" using assms(2) by simp
  then show "unat (ucast (ceil_div bytes cell_size) :: u32) = (unat bytes + 15) div 16" using q by (simp add: unat_ucast_32)
  show "0 < (unat bytes + 15) div 16" using b by simp
qed

subsection \<open>A new heap\<close>

lemma new_free_space_ok:
  assumes "64 \<le> unat c" and "unat c \<le> 2 ^ 20"
  obtains fs where "new_free_space c = Some fs" "classes_ok fs" "\<And>l. l \<in> set (free_lists fs) \<Longrightarrow> l = []"
proof -
  have c: "0 < c" "c \<le> max_pow2" using assms by (simp_all add: word_gt_0 unat_gt_0 [symmetric] word_le_nat_alt unat_max_pow2)
  obtain n where n: "unat (ceil_pow2 c) = 2 ^ n" "unat c \<le> 2 ^ n" "n = 0 \<or> 2 ^ (n - 1) < unat c"
    by (rule ceil_pow2_exponent [OF c]) (rule that)
  have n6: "6 \<le> n"
  proof (rule ccontr)
    assume "\<not> 6 \<le> n"
    then have "(2::nat) ^ n \<le> 2 ^ 5" by (intro power_increasing) simp_all
    then show False using assms(1) n(2) by simp
  qed
  have n20: "n \<le> 20"
  proof (rule ccontr)
    assume "\<not> n \<le> 20"
    then have "(2::nat) ^ 20 \<le> 2 ^ (n - 1)" by (intro power_increasing) simp_all
    then show False using assms(2) n(3) n6 by simp
  qed
  let ?a = "drop_bit 2 (ceil_pow2_fast c)" and ?l = "unat (log2_fast (drop_bit 2 (ceil_pow2_fast c)))"
  obtain k where k: "n = k + 2" "4 \<le> k" "k \<le> 18" using n6 n20 by (intro that [of "n - 2"]) simp_all
  have a: "unat ?a = 2 ^ k" using n(1) by (simp add: ceil_pow2_fast_eq unat_drop_bit k(1))
  have a0: "?a \<noteq> 0" using a by (metis power_not_zero unsigned_0 zero_neq_numeral)
  note log = log2_fast_32 [OF a0]
  have "(2::nat) ^ ?l \<le> 2 ^ k" "(2::nat) ^ k < 2 ^ Suc ?l" using log(1,2) unfolding a .
  then have "?l \<le> k" "k < Suc ?l" by (simp_all del: power_Suc)
  then have l: "?l \<le> 18" "4 \<le> ?l" using k(2,3) by simp_all
  have sub: "unat (log2_fast ?a - 4) = ?l - 4" using l by (simp add: unat_sub word_le_nat_alt)
  have twice: "unat (x * 2) = 2 * unat x" if "unat x < 32" for x :: u32 using that by (simp add: unat_word_ariths)
  have exp: "unat ((log2_fast ?a - 4) * 2) \<le> 54" using twice [of "log2_fast ?a - 4"] sub l by simp
  have "(2::nat) ^ 4 \<le> 2 ^ k" using k(2) by (intro power_increasing) simp_all
  then have "\<not> ?a < first_exp_size_class"
    using a by (simp add: first_exp_size_class_def exact_size_classes_def word_less_nat_alt)
  then show thesis
    using exp by (intro that) (auto simp: new_free_space_def Let_def first_exp_size_class_log_def classes_ok_def class_count_def)
qed

lemma new_heap_ok:
  assumes layout: "compute_layout header psize = Inr l" "header \<le> push_bit 15 1" "16 dvd unat header"
  obtains h where "new_heap l lob = Some h" "heap_ok h T" "layout_ok (heap_layout h)" "heap_contents h T = {}"
proof -
  note parts = page_layout_parts [OF layout]
  have c: "64 \<le> unat (cells_size l)" "unat (cells_size l) \<le> 2 ^ 20" using parts by linarith+
  obtain fs where fs: "new_free_space (cells_size l) = Some fs" "classes_ok fs" "\<And>l. l \<in> set (free_lists fs) \<Longrightarrow> l = []"
    by (rule new_free_space_ok [OF c]) (rule that)
  then have lists: "lists_sorted fs" "concat (free_lists fs) = []"
    using nth_mem by (fastforce simp: lists_sorted_def)+
  have space: "space_ok (unat (cells_size l)) (\<lambda>_. None) T fs"
    unfolding space_ok_def lists(2) using fs(2) lists(1) by (simp add: pages_rep_def free_span_set_def)
  let ?h = "\<lparr>heap_layout = l, lob_header = lob, heap_free = fs, heap_pages = (\<lambda>_. None), page_list = [],
         heap_lobs = (\<lambda>_. None), lob_list = [],
         stats = \<lparr>total_bytes = 0, allocated_bytes = 0, free_bytes = 0, allocated_objects = 0\<rparr>,
         max_size = - 1, next_threshold = push_bit 20 1\<rparr>"
  have "new_heap l lob = Some ?h" using fs(1) by (simp add: new_heap_def)
  moreover have "heap_ok ?h T"
    using space c(2) by (simp add: heap_ok_def cells_per_page_def held_bytes_def)
  moreover have "layout_ok (heap_layout ?h)" using parts by (simp add: layout_ok_def)
  moreover have "heap_contents ?h T = {}" by (simp add: heap_contents_def)
  ultimately show thesis by (rule that)
qed

subsection \<open>The end of a heap\<close>

lemma destroy_pages_ok:
  assumes "distinct pgs" and "\<forall>pg \<in> set pgs. \<exists>p. heap_pages h pg = Some p \<and> page_ok (cells_per_page h) (T pg) p"
    and "length pgs * unat (page_size (heap_layout h)) \<le> unat (total_bytes (stats h))"
  shows "\<exists>h'. destroy_pages pgs h = Some h' \<and> heap_pages h' = (\<lambda>pg. if pg \<in> set pgs then None else heap_pages h pg)
    \<and> unat (total_bytes (stats h')) = unat (total_bytes (stats h)) - length pgs * unat (page_size (heap_layout h))
    \<and> heap_lobs h' = heap_lobs h \<and> lob_list h' = lob_list h \<and> lob_header h' = lob_header h"
  using assms
proof (induction pgs arbitrary: h)
  case (Cons pg pgs)
  obtain p where p: "heap_pages h pg = Some p" "page_ok (cells_per_page h) (T pg) p" using Cons.prems(2) by auto
  let ?s = "ucast (page_size (heap_layout h)) :: u64"
  have fin: "invoke_finalizers (cells_per_page h) p \<noteq> None" using p(2) invoke_finalizers_rep by (fastforce simp: page_ok_def)
  have le: "?s \<le> total_bytes (stats h)" using Cons.prems(3) by (simp add: word_le_nat_alt unat_page_size)
  let ?h = "h\<lparr>heap_pages := (heap_pages h)(pg := None), stats := (stats h)\<lparr>total_bytes := total_bytes (stats h) - ?s\<rparr>\<rparr>"
  have run: "destroy_pages (pg # pgs) h = destroy_pages pgs ?h" using p(1) fin le by (auto simp: free_raw_def)
  have tot: "unat (total_bytes (stats ?h)) = unat (total_bytes (stats h)) - unat (page_size (heap_layout h))"
    using free_raw_sum [of ?s "total_bytes (stats h)"] le by (simp add: word_le_nat_alt unat_page_size)
  have "\<forall>q \<in> set pgs. \<exists>p. heap_pages ?h q = Some p \<and> page_ok (cells_per_page ?h) (T q) p" using Cons.prems(1,2) by auto
  moreover have "length pgs * unat (page_size (heap_layout ?h)) \<le> unat (total_bytes (stats ?h))" using Cons.prems(3) tot by simp
  ultimately obtain h' where h': "destroy_pages pgs ?h = Some h'" "heap_pages h' = (\<lambda>q. if q \<in> set pgs then None else heap_pages ?h q)"
    "unat (total_bytes (stats h')) = unat (total_bytes (stats ?h)) - length pgs * unat (page_size (heap_layout ?h))"
    "heap_lobs h' = heap_lobs ?h" "lob_list h' = lob_list ?h" "lob_header h' = lob_header ?h"
    using Cons.IH [of ?h] Cons.prems(1) by auto
  have "heap_pages h' = (\<lambda>q. if q \<in> set (pg # pgs) then None else heap_pages h q)" unfolding h'(2) by auto
  then show ?case using run h' tot by (intro exI [of _ h']) simp
qed auto

lemma destroy_lobs_ok:
  assumes "distinct as" and "set as \<subseteq> dom (heap_lobs h)" and "(\<Sum>a \<leftarrow> as. lob_bytes h a) \<le> unat (total_bytes (stats h))"
  shows "\<exists>h'. destroy_lobs as h = Some h' \<and> heap_lobs h' = (\<lambda>a. if a \<in> set as then None else heap_lobs h a)
    \<and> unat (total_bytes (stats h')) = unat (total_bytes (stats h)) - (\<Sum>a \<leftarrow> as. lob_bytes h a) \<and> heap_pages h' = heap_pages h"
  using assms
proof (induction "as" arbitrary: h)
  case (Cons a as')
  obtain lob where lob: "heap_lobs h a = Some lob" using Cons.prems(2) by auto
  let ?s = "lob_dynamic_size h (lob_cells lob)"
  let ?h = "h\<lparr>heap_lobs := (heap_lobs h)(a := None), stats := (stats h)\<lparr>total_bytes := total_bytes (stats h) - ?s\<rparr>\<rparr>"
  have s: "unat ?s = lob_bytes h a" using lob by (simp add: lob_bytes_def)
  have le: "?s \<le> total_bytes (stats h)" using Cons.prems(3) s by (simp add: word_le_nat_alt)
  have run: "destroy_lobs (a # as') h = destroy_lobs as' ?h" using lob le by (simp add: free_raw_def lob_dynamic_size_def)
  have tot: "unat (total_bytes (stats ?h)) = unat (total_bytes (stats h)) - lob_bytes h a"
    using free_raw_sum [of ?s "total_bytes (stats h)"] le s by (simp add: word_le_nat_alt)
  have "lob_bytes ?h b = lob_bytes h b" if "b \<in> set as'" for b
    using that Cons.prems(1) by (auto simp: lob_bytes_def lob_dynamic_size_def split: option.split)
  then have sums: "(\<Sum>b \<leftarrow> as'. lob_bytes ?h b) = (\<Sum>b \<leftarrow> as'. lob_bytes h b)"
    by (rule sum_list_cong)
  have dist: "distinct as'" using Cons.prems(1) by simp
  have dom: "set as' \<subseteq> dom (heap_lobs ?h)" using Cons.prems(1,2) by auto
  have room: "(\<Sum>b \<leftarrow> as'. lob_bytes ?h b) \<le> unat (total_bytes (stats ?h))" unfolding sums tot using Cons.prems(3) by simp
  obtain h' where h': "destroy_lobs as' ?h = Some h'" "heap_lobs h' = (\<lambda>b. if b \<in> set as' then None else heap_lobs ?h b)"
    "unat (total_bytes (stats h')) = unat (total_bytes (stats ?h)) - (\<Sum>b \<leftarrow> as'. lob_bytes ?h b)" "heap_pages h' = heap_pages ?h"
    using Cons.IH [OF dist dom room] by blast
  have "heap_lobs h' = (\<lambda>b. if b \<in> set (a # as') then None else heap_lobs h b)" unfolding h'(2) by auto
  then show ?case using run h'(1,3,4) sums tot by (intro exI [of _ h']) simp
qed auto

lemma destroy_heap_returns_all:
  assumes ok: "heap_ok h T"
  obtains h' where "destroy_heap h = Some h'" "heap_contents h' T = {}"
    "unat (total_bytes (stats h')) = unat (total_bytes (stats h)) - held_bytes h"
proof -
  let ?P = "length (page_list h) * unat (page_size (heap_layout h))" and ?L = "\<Sum>a \<leftarrow> lob_list h. lob_bytes h a"
  have lists: "distinct (page_list h)" "set (page_list h) = dom (heap_pages h)" "distinct (lob_list h)" "set (lob_list h) = dom (heap_lobs h)"
    and held: "?P + ?L \<le> unat (total_bytes (stats h))" using ok by (auto simp: heap_ok_def held_bytes_def)
  have "\<forall>pg \<in> set (page_list h). \<exists>p. heap_pages h pg = Some p \<and> page_ok (cells_per_page h) (T pg) p"
    using ok lists(2) by (auto simp: heap_ok_def)
  moreover have "?P \<le> unat (total_bytes (stats h))" using held by simp
  ultimately obtain h1 where h1: "destroy_pages (page_list h) h = Some h1"
    "heap_pages h1 = (\<lambda>pg. if pg \<in> set (page_list h) then None else heap_pages h pg)"
    "unat (total_bytes (stats h1)) = unat (total_bytes (stats h)) - ?P" "heap_lobs h1 = heap_lobs h" "lob_list h1 = lob_list h" "lob_header h1 = lob_header h"
    using destroy_pages_ok [OF lists(1)] by blast
  let ?h1 = "h1\<lparr>page_list := []\<rparr>"
  have bytes: "lob_bytes ?h1 = lob_bytes h" using h1(4,6) by (simp add: fun_eq_iff lob_bytes_def lob_dynamic_size_def split: option.split)
  have pre: "set (lob_list h) \<subseteq> dom (heap_lobs ?h1)" "(\<Sum>a \<leftarrow> lob_list h. lob_bytes ?h1 a) \<le> unat (total_bytes (stats ?h1))"
    unfolding bytes using lists(4) h1(3,4) held by simp_all
  obtain h2 where h2: "destroy_lobs (lob_list h) ?h1 = Some h2"
    "heap_lobs h2 = (\<lambda>a. if a \<in> set (lob_list h) then None else heap_lobs ?h1 a)"
    "unat (total_bytes (stats h2)) = unat (total_bytes (stats ?h1)) - (\<Sum>a \<leftarrow> lob_list h. lob_bytes ?h1 a)" "heap_pages h2 = heap_pages ?h1"
    using destroy_lobs_ok [OF lists(3) pre] by blast
  let ?h2 = "h2\<lparr>lob_list := []\<rparr>"
  have "heap_pages ?h2 pg = None" for pg using h2(4) h1(2) lists(2) by (auto simp: domIff)
  moreover have "heap_lobs ?h2 a = None" for a using h2(2) h1(4) lists(4) by (auto simp: domIff)
  ultimately have "heap_contents ?h2 T = {}" by (simp add: heap_contents_def)
  moreover have "destroy_heap h = Some ?h2" using h1(1,5) h2(1) by (simp add: destroy_heap_def)
  ultimately show thesis using h2(3) [unfolded bytes] h1(3) by (intro that [of ?h2]) (simp_all add: held_bytes_def)
qed

subsection \<open>Properties\<close>

text \<open>
  C30: Allocation serves every request of up to 16 * (2^32 - 1) bytes, just below 64 GiB, or reports
  why memory is exhausted (a larger request is truncated, see C33). From a heap that satisfies its
  invariant, such a request ends without a failed check, with or without a collection on the
  way. The heap still satisfies its invariant; every reachable object is still there with its
  place and size; a returned object is new, has enough cells for the request and no more, and is the
  only addition. An error occurs only if the page or the large object that the request needs would
  exceed the memory limit, or the allocator of chunks returned nothing for it (\<open>refused\<close>); if the
  request fits into a page, then also no free block is large enough, and if the heap had a page,
  all unreachable objects were collected before.
\<close>

theorem allocate_correct:
  assumes ok: "heap_ok h T" and layout: "layout_ok (heap_layout h)" and fresh: "fresh_chunks alloc"
    and roots: "set roots \<subseteq> heap_objects h T" and closed: "\<forall>x \<in> heap_objects h T. set (refs x) \<subseteq> heap_objects h T"
    and bytes: "bytes \<noteq> 0" "unat bytes \<le> 16 * (2 ^ 32 - 1)"
  shows "\<exists>r h' T'. allocate (collect refs (Some roots)) alloc bytes h = Some (r, h') \<and> heap_ok h' T'
    \<and> (\<exists>C. {(x, l) \<in> heap_contents h T. reachable refs roots x} \<subseteq> C \<and> C \<subseteq> heap_contents h T
        \<and> (case r of Inl _ \<Rightarrow> heap_contents h' T' = C
           | Inr x \<Rightarrow> x \<notin> fst ` C \<and> heap_contents h' T' = insert (x, (unat bytes + 15) div 16) C))
    \<and> (\<forall>e. r = Inl e \<longrightarrow> refused refs roots alloc h T ((unat bytes + 15) div 16) e h' T')"
proof -
  let ?gc = "collect refs (Some roots)" and ?already = "allocated_bytes (stats h) \<ge> next_threshold h"
  let ?request = "ucast (ceil_div bytes cell_size) :: u32"
  note request = cells_request [OF bytes]
  obtain h1 T1 where h1: "(if ?already then ?gc h else Some h) = Some h1" "served refs roots h T (unat ?request) (Inl MemoryLimit) h1 T1"
    "\<not> ?already \<Longrightarrow> h1 = h \<and> T1 = T" "?already \<Longrightarrow> heap_contents h1 T1 = live_contents refs roots h T"
  proof (cases ?already)
    case True
    obtain h' T' where "?gc h = Some h'" "served refs roots h T (unat ?request) (Inl MemoryLimit) h' T'"
      "heap_contents h' T' = live_contents refs roots h T"
      by (rule collect_served [OF ok roots closed]) (rule that)
    then show thesis using True by (intro that [of h' T']) simp_all
  next
    case False
    then show thesis using served_start [OF ok] by (intro that [of h T]) simp_all
  qed
  have same: "heap_layout h1 = heap_layout h" using h1(2) by (simp add: served_def same_config_def)
  have nz: "?request \<noteq> 0" using request by (metis less_irrefl unsigned_0)
  have run: "allocate ?gc alloc bytes h = (if ?request \<ge> large_object_cells (heap_layout h) then allocate_large alloc ?request bytes h1
    else allocate_small ?gc alloc ?already (unat ?request) bytes h1)"
    using h1(1) bytes(1) same by (simp add: allocate_def Let_def)
  have "allocation_outcome refs roots alloc h T (unat ?request) (allocate ?gc alloc bytes h)"
  proof (cases "?request \<ge> large_object_cells (heap_layout h)")
    case True
    then show ?thesis unfolding run using allocate_large_outcome [OF h1(2) nz fresh True, where bytes = bytes] by simp
  next
    case False
    then have "unat ?request < unat (large_object_cells (heap_layout h))" by (simp add: word_less_nat_alt not_le)
    then show ?thesis
      unfolding run using allocate_small_outcome [OF h1(2-4) roots closed layout fresh, where bytes = bytes] False request by simp
  qed
  then obtain r h' T' where "allocate ?gc alloc bytes h = Some (r, h')" "served refs roots h T (unat ?request) r h' T'"
    "\<forall>e. r = Inl e \<longrightarrow> refused refs roots alloc h T (unat ?request) e h' T'" unfolding allocation_outcome_def by blast
  then show ?thesis unfolding served_def request(1) by blast
qed

definition chunk_at :: "nat \<Rightarrow> heap \<Rightarrow> nat option" where
  "chunk_at a g = (if heap_pages g a = None \<and> heap_lobs g a = None then Some a else None)"

theorem allocate_correct_witness:
  "\<exists>l h r h' T'. compute_layout 64 (push_bit 16 1) = Inr l \<and> new_heap l 64 = Some h
    \<and> allocate (collect (\<lambda>_. []) (Some [])) (chunk_at 5) 100 h = Some (r, h')
    \<and> (case r of Inl _ \<Rightarrow> heap_contents h' T' = {} | Inr x \<Rightarrow> heap_contents h' T' = {(x, 7)})"
proof -
  obtain l where l: "compute_layout 64 (push_bit 16 1) = Inr l"
    by (simp add: compute_layout_def min_page_size_def max_page_size_def is_pow2_def Let_def)
  have header: "(64 :: size_t) \<le> push_bit 15 1" "16 dvd unat (64 :: size_t)" by (simp_all add: push_bit_of_1)
  obtain h where h: "new_heap l 64 = Some h" "heap_ok h (\<lambda>_. [])" "layout_ok (heap_layout h)" "heap_contents h (\<lambda>_. []) = {}"
    by (rule new_heap_ok [OF l header]) (rule that)
  have fresh: "fresh_chunks (chunk_at 5)" by (simp add: fresh_chunks_def chunk_at_def)
  have closed: "\<forall>x \<in> heap_objects h (\<lambda>_. []). set ((\<lambda>_. []) x) \<subseteq> heap_objects h (\<lambda>_. [])" by simp
  have cells: "(unat (100 :: size_t) + 15) div 16 = 7" by simp
  have pre: "set [] \<subseteq> heap_objects h (\<lambda>_. [])" "(100 :: size_t) \<noteq> 0" "unat (100 :: size_t) \<le> 16 * (2 ^ 32 - 1)" by simp_all
  from allocate_correct [OF h(2,3) fresh pre(1) closed pre(2,3), unfolded cells]
  obtain r h' T' C where run: "allocate (collect (\<lambda>_. []) (Some [])) (chunk_at 5) 100 h = Some (r, h')" "C \<subseteq> heap_contents h (\<lambda>_. [])"
    "case r of Inl _ \<Rightarrow> heap_contents h' T' = C | Inr x \<Rightarrow> x \<notin> fst ` C \<and> heap_contents h' T' = insert (x, 7) C"
    by blast
  then have "case r of Inl _ \<Rightarrow> heap_contents h' T' = {} | Inr x \<Rightarrow> heap_contents h' T' = {(x, 7)}"
    using h(4) by (cases r) auto
  with l h(1) run(1) show ?thesis by blast
qed

text \<open>
  C33: A request of 64 GiB and 16 bytes gets one cell of 16 bytes. The number of cells is
  computed with 64 bits and stored in 32, so that the result and the pages after the request
  are those of a request of 16 bytes; only the statistics count the full size. A script reaches this
  with \<open>std.new_buffer(1 << 36)\<close>, after which the initialization of the buffer overwrites the heap.
\<close>

theorem huge_request_truncated:
  "map_option (\<lambda>(r, g). (r, heap_pages g, heap_free g, heap_lobs g)) (allocate gc alloc (push_bit 36 1 + 16) h)
    = map_option (\<lambda>(r, g). (r, heap_pages g, heap_free g, heap_lobs g)) (allocate gc alloc 16 h)"
proof -
  have request: "ucast (ceil_div (push_bit 36 1 + 16) cell_size :: size_t) = (1 :: u32)" "ucast (ceil_div 16 cell_size :: size_t) = (1 :: u32)"
    by (simp_all add: ceil_div_def cell_size_def)
  have large: "map_option (\<lambda>(r, g). (r, heap_pages g, heap_free g, heap_lobs g)) (allocate_large alloc n b g)
    = map_option (\<lambda>(r, g). (r, heap_pages g, heap_free g, heap_lobs g)) (allocate_large alloc n b' g)" for n b b' g
    by (cases "add_lob alloc n g") (auto simp: allocate_large_def count_object_def split: sum.split)
  have small: "map_option (\<lambda>(r, g). (r, heap_pages g, heap_free g, heap_lobs g)) (allocate_small gc alloc c n b g)
    = map_option (\<lambda>(r, g). (r, heap_pages g, heap_free g, heap_lobs g)) (allocate_small gc alloc c n b' g)" for c n b b' g
    unfolding allocate_small_def Let_def
    by (auto simp: count_object_def use_free_bytes_def map_option_bind split: option.split sum.split intro!: bind_option_cong)
  show ?thesis
    unfolding allocate_def request Let_def
    using large small by (auto simp: map_option_bind intro!: bind_option_cong)
qed

end
