(* ===== verification/CodePoints.thy ===== *)
theory CodePoints
  imports Prelude
begin

text \<open>
  Unicode text: src/common/text/unicode.cpp (the tables of code point classes) and
  src/common/text/code_point_range.hpp (iteration over a UTF-8 string).

  A string is a list of bytes (characters). The library that decodes and encodes UTF-8
  (utfcpp) and the two generated tables of identifier characters are the record \<open>unicode\<close>;
  what the code relies on is \<open>decodes_forward\<close> and, for round trips, \<open>encodes\<close>. \<open>None\<close> stands
  for a failed assertion or for the exception on invalid UTF-8.
\<close>

type_synonym code_point = u32

definition cp :: "char \<Rightarrow> code_point" where
  "cp c = of_char c"

record unicode =
  utf8_next :: "string \<Rightarrow> (code_point \<times> nat) option"
  utf8_encode :: "code_point \<Rightarrow> string"
  utf8_valid :: "code_point \<Rightarrow> bool"
  xid_start_table :: "(code_point \<times> code_point) list"
  xid_continue_table :: "(code_point \<times> code_point) list"

definition debug_assert :: "bool \<Rightarrow> unit option" where
  "debug_assert b = (if b then Some () else None)"

lemma debug_assert_iff [simp]: "debug_assert b = Some u \<longleftrightarrow> b"
  by (simp add: debug_assert_def)

lemma debug_assert_bind [simp]:
  "Option.bind (debug_assert True) f = f ()" "Option.bind (debug_assert False) f = None"
  by (simp_all add: debug_assert_def)

subsection \<open>Classes of code points\<close>

text \<open>\<open>std::lower_bound\<close>: the first interval that does not end to the left of the key.\<close>

definition sparse_set_contains :: "(code_point \<times> code_point) list \<Rightarrow> code_point \<Rightarrow> bool" where
  "sparse_set_contains intervals key =
     (case dropWhile (\<lambda>(first, final). final < key) intervals of
        [] \<Rightarrow> False
      | (first, final) # _ \<Rightarrow> first \<le> key)"

definition whitespace_table :: "(code_point \<times> code_point) list" where
  "whitespace_table = [(0x9, 0xd), (0x20, 0x20), (0x85, 0x85), (0x200e, 0x200f), (0x2028, 0x2029)]"

definition is_whitespace :: "code_point \<Rightarrow> bool" where
  "is_whitespace c = sparse_set_contains whitespace_table c"

definition is_xid_start :: "unicode \<Rightarrow> code_point \<Rightarrow> bool" where
  "is_xid_start u c = sparse_set_contains (xid_start_table u) c"

definition is_xid_continue :: "unicode \<Rightarrow> code_point \<Rightarrow> bool" where
  "is_xid_continue u c = (is_xid_start u c \<or> sparse_set_contains (xid_continue_table u) c)"

text \<open>The search is membership in the union when the intervals are in order.\<close>

fun intervals_ordered :: "(code_point \<times> code_point) list \<Rightarrow> bool" where
  "intervals_ordered ((a, b) # (c, d) # rest) \<longleftrightarrow> a \<le> b \<and> b < c \<and> intervals_ordered ((c, d) # rest)"
| "intervals_ordered [(a, b)] \<longleftrightarrow> a \<le> b"
| "intervals_ordered [] \<longleftrightarrow> True"

lemma intervals_ordered_head: "intervals_ordered ((a, b) # rest) \<Longrightarrow> a \<le> b"
  by (cases "((a, b) # rest)" rule: intervals_ordered.cases) auto

lemma intervals_ordered_later:
  "intervals_ordered ((a, b) # rest) \<Longrightarrow> (c, d) \<in> set rest \<Longrightarrow> b < c"
proof (induction rest arbitrary: a b)
  case (Cons x rest)
  obtain a' b' where x: "x = (a', b')"
    by force
  have "b < a'" "a' \<le> b'" "intervals_ordered ((a', b') # rest)"
    using Cons.prems(1) intervals_ordered_head by (auto simp: x)
  then show ?case
    using Cons.IH [of a' b'] Cons.prems(2) by (fastforce simp: x)
qed simp

lemma intervals_ordered_tl: "intervals_ordered (x # rest) \<Longrightarrow> intervals_ordered rest"
  by (cases "(x # rest)" rule: intervals_ordered.cases) auto

lemma sparse_set_contains_iff:
  "intervals_ordered table \<Longrightarrow>
    sparse_set_contains table key \<longleftrightarrow> (\<exists>(first, final) \<in> set table. first \<le> key \<and> key \<le> final)"
proof (induction table)
  case (Cons x rest)
  obtain a b where x: "x = (a, b)"
    by force
  show ?case
  proof (cases "b < key")
    case True
    then show ?thesis
      using Cons intervals_ordered_tl by (auto simp: x sparse_set_contains_def)
  next
    case False
    then show ?thesis
      using intervals_ordered_later [of a b rest] Cons.prems
      by (fastforce simp: x sparse_set_contains_def)
  qed
qed (simp add: sparse_set_contains_def)

subsection \<open>Ranges of code points\<close>

text \<open>
  The range keeps the decoded code point; here it is decoded where it is read, which is the
  same for valid UTF-8.
\<close>

record code_range =
  range_bytes :: string
  range_pos :: nat

definition code_range :: "string \<Rightarrow> code_range" where
  "code_range str = \<lparr>range_bytes = str, range_pos = 0\<rparr>"

definition rest_bytes :: "code_range \<Rightarrow> string" where
  "rest_bytes r = drop (range_pos r) (range_bytes r)"

definition at_end :: "code_range \<Rightarrow> bool" where
  "at_end r \<longleftrightarrow> rest_bytes r = []"

definition range_get :: "unicode \<Rightarrow> code_range \<Rightarrow> code_point option" where
  "range_get u r = (if at_end r then None else map_option fst (utf8_next u (rest_bytes r)))"

definition range_advance :: "unicode \<Rightarrow> code_range \<Rightarrow> code_range option" where
  "range_advance u r =
     (if at_end r then None
      else map_option (\<lambda>(c, w). r\<lparr>range_pos := range_pos r + w\<rparr>) (utf8_next u (rest_bytes r)))"

primrec range_advance_by :: "unicode \<Rightarrow> nat \<Rightarrow> code_range \<Rightarrow> code_range option" where
  "range_advance_by u 0 r = Some r"
| "range_advance_by u (Suc n) r = Option.bind (range_advance u r) (range_advance_by u n)"

text \<open>The inner option is the result: there may be no code point that far.\<close>

primrec range_peek :: "unicode \<Rightarrow> nat \<Rightarrow> code_range \<Rightarrow> code_point option option" where
  "range_peek u 0 r = (if at_end r then Some None else map_option Some (range_get u r))"
| "range_peek u (Suc n) r =
     (if at_end r then Some None else Option.bind (range_advance u r) (range_peek u n))"

definition range_seek :: "nat \<Rightarrow> code_range \<Rightarrow> code_range option" where
  "range_seek pos r =
     (if pos \<le> length (range_bytes r) then Some (r\<lparr>range_pos := pos\<rparr>) else None)"

subsection \<open>Valid strings\<close>

text \<open>What the decoder documents: it moves forward and stays inside the string.\<close>

definition decodes_forward :: "unicode \<Rightarrow> bool" where
  "decodes_forward u \<longleftrightarrow>
     (\<forall>s c w. utf8_next u s = Some (c, w) \<longrightarrow> 0 < w \<and> w \<le> length s)"

text \<open>The code points of a string, \<open>None\<close> where it is not valid UTF-8.\<close>

partial_function (option) code_points :: "unicode \<Rightarrow> string \<Rightarrow> code_point list option" where
  "code_points u s =
     (if s = [] then Some []
      else Option.bind (utf8_next u s) (\<lambda>(c, w).
        Option.bind (code_points u (drop w s)) (\<lambda>cs. Some (c # cs))))"

declare code_points.simps [code]

lemma code_points_Nil [simp]: "code_points u [] = Some []"
  by (simp add: code_points.simps)

definition ahead_points :: "unicode \<Rightarrow> code_range \<Rightarrow> code_point list option" where
  "ahead_points u r = (if range_pos r \<le> length (range_bytes r) then code_points u (rest_bytes r) else None)"

lemma code_points_Nil_iff [simp]: "code_points u s = Some [] \<longleftrightarrow> s = []"
  by (subst code_points.simps) auto

lemma code_points_ConsE:
  assumes "code_points u s = Some (c # cs)"
  obtains w where "utf8_next u s = Some (c, w)" "code_points u (drop w s) = Some cs" "s \<noteq> []"
  using assms by (subst (asm) code_points.simps) (auto split: if_splits)

lemma at_end_iff: "ahead_points u r = Some cs \<Longrightarrow> at_end r \<longleftrightarrow> cs = []"
  by (auto simp: ahead_points_def at_end_def)

lemma range_get_Cons [simp]: "ahead_points u r = Some (c # cs) \<Longrightarrow> range_get u r = Some c"
  by (auto simp: ahead_points_def range_get_def at_end_def elim: code_points_ConsE)

lemma range_advance_Cons:
  assumes "decodes_forward u" "ahead_points u r = Some (c # cs)"
  shows "\<exists>r'. range_advance u r = Some r' \<and> range_bytes r' = range_bytes r \<and>
    range_pos r < range_pos r' \<and> ahead_points u r' = Some cs"
proof -
  obtain w where w: "utf8_next u (rest_bytes r) = Some (c, w)"
      "code_points u (drop w (rest_bytes r)) = Some cs" "rest_bytes r \<noteq> []"
    using assms(2) by (auto simp: ahead_points_def elim: code_points_ConsE)
  have "0 < w" "w \<le> length (rest_bytes r)"
    using assms(1) w(1) by (auto simp: decodes_forward_def)
  then show ?thesis
    using w assms(2)
    by (auto simp: range_advance_def at_end_def ahead_points_def rest_bytes_def add.commute)
qed

lemma range_peek_points:
  assumes "decodes_forward u" "ahead_points u r = Some cs"
  shows "range_peek u n r = Some (if n < length cs then Some (cs ! n) else None)"
  using assms(2)
proof (induction n arbitrary: r cs)
  case 0
  then show ?case
    using at_end_iff [OF 0] by (cases cs) auto
next
  case (Suc n)
  show ?case
  proof (cases cs)
    case Nil
    then show ?thesis
      using at_end_iff [OF Suc.prems] by simp
  next
    case (Cons c cs')
    then show ?thesis
      using range_advance_Cons [OF assms(1), of r c cs'] Suc at_end_iff [OF Suc.prems] by auto
  qed
qed

end
