(* ===== verification/Literals.thy ===== *)
theory Literals
  imports CodePoints Numerics
begin

text \<open>
  The values of literals (src/compiler/syntax/grammar/literals.cpp): integers, tuple fields,
  symbols and strings with escape sequences. An error is the message passed to the error
  sink. Floating point literals are not modelled. The counters of digits are natural
  numbers (an \<open>int\<close> in the code).
\<close>

subsection \<open>Characters\<close>

definition is_identifier_start :: "unicode \<Rightarrow> code_point \<Rightarrow> bool" where
  "is_identifier_start u c = (c = cp (CHR ''_'') \<or> is_xid_start u c)"

definition is_identifier_continue :: "unicode \<Rightarrow> code_point \<Rightarrow> bool" where
  "is_identifier_continue u c = is_xid_continue u c"

text \<open>The base is 2, 8, 10 or 16.\<close>

definition to_digit :: "code_point \<Rightarrow> nat \<Rightarrow> nat option" where
  "to_digit c base =
     (if base = 2 then
        if cp (CHR ''0'') \<le> c \<and> c \<le> cp (CHR ''1'') then Some (unat (c - cp (CHR ''0''))) else None
      else if base = 8 then
        if cp (CHR ''0'') \<le> c \<and> c \<le> cp (CHR ''7'') then Some (unat (c - cp (CHR ''0''))) else None
      else if base = 10 then
        if cp (CHR ''0'') \<le> c \<and> c \<le> cp (CHR ''9'') then Some (unat (c - cp (CHR ''0''))) else None
      else if base = 16 then
        if cp (CHR ''0'') \<le> c \<and> c \<le> cp (CHR ''9'') then Some (unat (c - cp (CHR ''0'')))
        else if cp (CHR ''a'') \<le> c \<and> c \<le> cp (CHR ''f'') then Some (unat (c - cp (CHR ''a'') + 10))
        else if cp (CHR ''A'') \<le> c \<and> c \<le> cp (CHR ''F'') then Some (unat (c - cp (CHR ''A'') + 10))
        else None
      else None)"

subsection \<open>Integers\<close>

definition has_prefix :: "string \<Rightarrow> string \<Rightarrow> bool" where
  "has_prefix str prefix \<longleftrightarrow>
     length prefix \<le> length str \<and> take (length prefix) str = prefix"

text \<open>The base, whether it is explicit, and the rest of the source.\<close>

definition read_base :: "string \<Rightarrow> nat \<times> bool \<times> string" where
  "read_base source =
     (if has_prefix source ''0x'' then (16, True, drop 2 source)
      else if has_prefix source ''0o'' then (8, True, drop 2 source)
      else if has_prefix source ''0b'' then (2, True, drop 2 source)
      else (10, False, source))"

record integer_info =
  info_value :: i64
  info_explicit_base :: bool
  info_leading_zero :: bool

record integer_state =
  int_value :: i64
  int_digits :: nat
  int_leading_zeroes :: nat

fun integer_loop :: "nat \<Rightarrow> string \<Rightarrow> integer_state \<Rightarrow> string + integer_state" where
  "integer_loop base [] st = Inr st"
| "integer_loop base (c # cs) st =
     (if c = CHR ''_'' then integer_loop base cs st
      else case to_digit (cp c) base of
        None \<Rightarrow> Inl ''invalid digit for this base''
      | Some digit \<Rightarrow>
          let zeroes = (if int_value st = 0 \<and> digit = 0 then Suc (int_leading_zeroes st)
                        else int_leading_zeroes st);
              (mul_ok, scaled) = try_mul (int_value st) (of_nat base);
              (add_ok, value) = try_add scaled (of_nat digit)
          in if \<not> mul_ok \<or> \<not> add_ok then Inl ''number is too large (integer overflow)''
             else integer_loop base cs
               \<lparr>int_value = value, int_digits = Suc (int_digits st), int_leading_zeroes = zeroes\<rparr>)"

definition parse_integer_impl :: "string \<Rightarrow> string + integer_info" where
  "parse_integer_impl source =
     (let (base, explicit_base, body) = read_base source
      in bind_sum (integer_loop base body \<lparr>int_value = 0, int_digits = 0, int_leading_zeroes = 0\<rparr>)
        (\<lambda>st. if int_digits st = 0 then Inl ''expected at least one digit''
          else Inr \<lparr>info_value = int_value st, info_explicit_base = explicit_base,
            info_leading_zero = (if int_value st = 0 then 1 < int_leading_zeroes st
                                 else 0 < int_leading_zeroes st)\<rparr>))"

definition parse_integer_value :: "string \<Rightarrow> string + i64" where
  "parse_integer_value source =
     bind_sum (parse_integer_impl source) (\<lambda>info. Inr (info_value info))"

definition parse_tuple_field :: "string \<Rightarrow> string + u32" where
  "parse_tuple_field source =
     bind_sum (parse_integer_impl source) (\<lambda>info.
       if info_explicit_base info then Inl ''tuple fields must use base 10 digits''
       else if info_leading_zero info then Inl ''tuple fields must not use leading zeroes''
       else if sint (info_value info) < 0 then Inl ''tuple fields must not be negative''
       else if 2 ^ 32 - 1 < sint (info_value info) then Inl ''tuple field is too large''
       else Inr (ucast (info_value info)))"

subsection \<open>Symbols\<close>

definition parse_symbol_name :: "unicode \<Rightarrow> string \<Rightarrow> (string + string) option" where
  "parse_symbol_name u source =
     (let input = code_range source in
      if at_end input then Some (Inl (''symbols must start with '' @ [CHR 0x27, CHR ''#'', CHR 0x27]))
      else do {
        c \<leftarrow> range_get u input;
        if c \<noteq> cp (CHR ''#'')
        then Some (Inl (''symbols must start with '' @ [CHR 0x27, CHR ''#'', CHR 0x27]))
        else do {
          input \<leftarrow> range_advance u input;
          if at_end input then Some (Inl ''symbols must have a name'')
          else do {
            c \<leftarrow> range_get u input;
            Some (if \<not> is_identifier_start u c then Inl ''symbols must start with a letter''
                  else Inr (drop (range_pos input) source))
          }
        }
      })"

subsection \<open>Strings\<close>

definition append_utf8 :: "unicode \<Rightarrow> string \<Rightarrow> code_point \<Rightarrow> string option" where
  "append_utf8 u buffer c = (if utf8_valid u c then Some (buffer @ utf8_encode u c) else None)"

definition try_append_utf8 :: "unicode \<Rightarrow> string \<Rightarrow> code_point \<Rightarrow> bool \<times> string" where
  "try_append_utf8 u buffer c =
     (if utf8_valid u c then (True, buffer @ utf8_encode u c) else (False, buffer))"

text \<open>The two digits after \<open>\\x\<close>; at a failure the range stays where it is.\<close>

primrec ascii_hex_loop ::
    "unicode \<Rightarrow> nat \<Rightarrow> code_point \<Rightarrow> code_range \<Rightarrow> ((string + code_point) \<times> code_range) option" where
  "ascii_hex_loop u 0 value r = Some (Inr value, r)"
| "ascii_hex_loop u (Suc n) value r = do {
     digit \<leftarrow> (if at_end r then Some None
               else Option.bind (range_get u r) (\<lambda>c. Some (to_digit c 16)));
     case digit of
       None \<Rightarrow> Some (Inl (''expected two hex digits after '' @ [CHR 0x27, CHR 0x5C] @ ''x'' @ [CHR 0x27]), r)
     | Some d \<Rightarrow> do {
         r \<leftarrow> range_advance u r;
         ascii_hex_loop u n (value * 16 + of_nat d) r
       }
   }"

definition parse_ascii_hex ::
    "unicode \<Rightarrow> code_range \<Rightarrow> ((string + code_point) \<times> code_range) option" where
  "parse_ascii_hex u r = ascii_hex_loop u 2 0 r"

partial_function (option) unicode_hex_loop ::
    "unicode \<Rightarrow> code_point \<Rightarrow> nat \<Rightarrow> code_range \<Rightarrow>
     ((string + code_point \<times> nat) \<times> code_range) option" where
  "unicode_hex_loop u value digits r =
     (if at_end r
      then Some (Inl (''unexpected end of unicode escape sequence before an '' @
             [CHR 0x27, CHR 0x7D, CHR 0x27] @ '' was encountered''), r)
      else Option.bind (range_get u r) (\<lambda>c.
        if c = cp (CHR 0x7D)
        then Option.bind (range_advance u r) (\<lambda>r. Some (Inr (value, digits), r))
        else case to_digit c 16 of
          None \<Rightarrow> Some (Inl ''expected a hex digit in unicode escape sequence'', r)
        | Some d \<Rightarrow>
            Option.bind (range_advance u r) (\<lambda>r.
              let (mul_ok, scaled) = checked_mul_unsigned value 16;
                  (add_ok, value) = checked_add_unsigned scaled (of_nat d)
              in if \<not> mul_ok \<or> \<not> add_ok
                 then Some (Inl ''unicode code point constant is too large'', r)
                 else unicode_hex_loop u value (Suc digits) r)))"

declare unicode_hex_loop.simps [code]

definition parse_unicode_hex ::
    "unicode \<Rightarrow> code_range \<Rightarrow> ((string + code_point) \<times> code_range) option" where
  "parse_unicode_hex u r = do {
     c \<leftarrow> range_peek u 0 r;
     if c \<noteq> Some (cp (CHR 0x7B))
     then Some (Inl (''expected '' @ [CHR 0x27, CHR 0x7B, CHR 0x27] @ '' after '' @
            [CHR 0x27, CHR 0x5C] @ ''u'' @ [CHR 0x27]), r)
     else do {
       r \<leftarrow> range_advance u r;
       (result, r) \<leftarrow> unicode_hex_loop u 0 0 r;
       Some (case result of
           Inl msg \<Rightarrow> Inl msg
         | Inr (value, digits) \<Rightarrow>
             if digits = 0 then Inl ''expected at least one digit in unicode escape sequence''
             else Inr value, r)
     }
   }"

text \<open>The state of \<open>string_literal_value\<close> (\<open>parse_string_literal\<close> in the code): the output, the reported errors and the success.\<close>

record literal_state =
  str_output :: string
  str_errors :: "string list"
  str_success :: bool

definition str_fail :: "string \<Rightarrow> literal_state \<Rightarrow> literal_state" where
  "str_fail msg st = st\<lparr>str_errors := str_errors st @ [msg], str_success := False\<rparr>"

text \<open>The cases \<open>x\<close> and \<open>u\<close>: append the code point or report the error.\<close>

definition append_code :: "unicode \<Rightarrow> string + code_point \<Rightarrow> literal_state \<Rightarrow> literal_state" where
  "append_code u result st =
     (case result of
        Inl msg \<Rightarrow> str_fail msg st
      | Inr c \<Rightarrow>
          (let (ok, output) = try_append_utf8 u (str_output st) c
           in if ok then st\<lparr>str_output := output\<rparr> else str_fail ''invalid unicode code point'' st))"

definition escape_step ::
    "unicode \<Rightarrow> code_point \<Rightarrow> code_range \<Rightarrow> literal_state \<Rightarrow> (code_range \<times> literal_state) option" where
  "escape_step u c r st =
     (if c = cp (CHR ''n'') then Some (r, st\<lparr>str_output := str_output st @ [CHR 0x0A]\<rparr>)
      else if c = cp (CHR ''r'') then Some (r, st\<lparr>str_output := str_output st @ [CHR 0x0D]\<rparr>)
      else if c = cp (CHR ''t'') then Some (r, st\<lparr>str_output := str_output st @ [CHR 0x09]\<rparr>)
      else if c \<in> {cp (CHR 0x22), cp (CHR 0x27), cp (CHR 0x5C), cp (CHR ''$'')} then do {
        output \<leftarrow> append_utf8 u (str_output st) c;
        Some (r, st\<lparr>str_output := output\<rparr>)
      }
      else if c = cp (CHR ''x'') then do {
        (result, r) \<leftarrow> parse_ascii_hex u r;
        Some (r, append_code u result st)
      }
      else if c = cp (CHR ''u'') then do {
        (result, r) \<leftarrow> parse_unicode_hex u r;
        Some (r, append_code u result st)
      }
      else do {
        shown \<leftarrow> append_utf8 u [] c;
        Some (r, str_fail (''invalid escape character '' @ [CHR 0x27] @ shown @ [CHR 0x27]) st)
      })"

partial_function (option) string_loop :: "unicode \<Rightarrow> code_range \<Rightarrow> literal_state \<Rightarrow> literal_state option" where
  "string_loop u r st =
     (if at_end r then Some st
      else Option.bind (range_get u r) (\<lambda>c.
        Option.bind (range_advance u r) (\<lambda>r.
          if c \<noteq> cp (CHR 0x5C)
          then Option.bind (append_utf8 u (str_output st) c) (\<lambda>output.
                 string_loop u r (st\<lparr>str_output := output\<rparr>))
          else if at_end r
          then Some (str_fail ''incomplete escape sequence at the end of the string'' st)
          else Option.bind (range_get u r) (\<lambda>c.
                 Option.bind (range_advance u r) (\<lambda>r.
                   Option.bind (escape_step u c r st) (\<lambda>(r, st). string_loop u r st))))))"

declare string_loop.simps [code]

definition string_literal_value :: "unicode \<Rightarrow> string \<Rightarrow> literal_state option" where
  "string_literal_value u source =
     string_loop u (code_range source) \<lparr>str_output = [], str_errors = [], str_success = True\<rparr>"

subsection \<open>The value of an integer literal\<close>

text \<open>The digits of the body, without underscores, and the number that they stand for.\<close>

definition digits_of :: "nat \<Rightarrow> string \<Rightarrow> nat list option" where
  "digits_of base body = those (map (\<lambda>c. to_digit (cp c) base) (filter (\<lambda>c. c \<noteq> CHR ''_'') body))"

definition number_from :: "nat \<Rightarrow> nat \<Rightarrow> nat list \<Rightarrow> nat" where
  "number_from base n ds = foldl (\<lambda>v d. v * base + d) n ds"

lemma number_from_simps [simp]:
  "number_from base n [] = n"
  "number_from base n (d # ds) = number_from base (n * base + d) ds"
  by (simp_all add: number_from_def)

lemma number_from_ge: "0 < base \<Longrightarrow> n \<le> number_from base n ds"
proof (induction ds arbitrary: n)
  case (Cons d ds)
  have "n \<le> n * base + d"
    using Cons.prems by (simp add: trans_le_add1)
  then show ?case
    using Cons.IH [OF Cons.prems, of "n * base + d"] by simp
qed simp

lemma digits_of_simps [simp]:
  "digits_of base [] = Some []"
  "digits_of base (CHR ''_'' # cs) = digits_of base cs"
  "c \<noteq> CHR ''_'' \<Longrightarrow> digits_of base (c # cs) =
    (case to_digit (cp c) base of None \<Rightarrow> None | Some d \<Rightarrow> map_option ((#) d) (digits_of base cs))"
  by (auto simp: digits_of_def split: option.splits)

lemma sub_word_bound: "(a :: u32) \<le> c \<Longrightarrow> c \<le> b \<Longrightarrow> unat (c - a) \<le> unat b - unat a"
  by (simp add: unat_sub word_le_nat_alt diff_le_mono)

lemma to_digit_less:
  assumes "to_digit c base = Some d"
  shows "d < 16"
proof -
  have numeral: "unat (c - 48) < 16" if "48 \<le> c" "c \<le> 57"
    using sub_word_bound [OF that] by simp
  have letter: "unat (c - a + 10) < 16" if "a \<le> c" "c \<le> b" "unat b - unat a < 6" for a b
  proof -
    have "unat (c - a) < 6"
      using sub_word_bound [OF that(1,2)] that(3) by linarith
    then show ?thesis
      by (simp add: unat_word_ariths)
  qed
  have small: "c \<le> 57" if "c \<le> 49 \<or> c \<le> 55"
    using that by (auto intro: order_trans)
  show ?thesis
    using assms numeral small letter [of 97 102] letter [of 65 70]
    by (auto simp: to_digit_def cp_def split: if_splits)
qed

lemma sint_of_nat_small: "n < 2 ^ 63 \<Longrightarrow> sint (of_nat n :: i64) = int n"
  by (simp add: signed_of_nat signed_take_bit_int_eq_self)

lemma digit_step:
  assumes "n < 2 ^ 63" "0 < base" "base \<le> 16" "d < 16"
  shows "fst (try_mul (of_nat n :: i64) (of_nat base)) \<and>
      fst (try_add (snd (try_mul (of_nat n :: i64) (of_nat base))) (of_nat d))
      \<longleftrightarrow> n * base + d < 2 ^ 63"
    and "snd (try_add (snd (try_mul (of_nat n :: i64) (of_nat base))) (of_nat d))
      = of_nat (n * base + d)"
proof -
  have sints: "sint (of_nat base :: i64) = int base" "sint (of_nat d :: i64) = int d"
      "sint (of_nat n :: i64) = int n"
    using assms by (auto intro!: sint_of_nat_small)
  have mul: "fst (try_mul (of_nat n :: i64) (of_nat base)) \<longleftrightarrow> n * base < 2 ^ 63"
    using sints by (simp add: try_mul_def checked_mul_signed_def fits_signed_def
        flip: of_nat_mult of_nat_less_iff)
  have snd_mul: "snd (try_mul (of_nat n :: i64) (of_nat base)) = of_nat (n * base)"
    by (simp add: try_mul_def checked_mul_signed_def)
  have add: "fst (try_add (of_nat (n * base) :: i64) (of_nat d)) \<longleftrightarrow> n * base + d < 2 ^ 63"
    if "n * base < 2 ^ 63"
  proof -
    have "int (n * base) + int d < 2 ^ 63 \<longleftrightarrow> n * base + d < 2 ^ 63"
      using of_nat_less_iff [of "n * base + d" "2 ^ 63", where 'a = int] by simp
    then show ?thesis
      using sint_of_nat_small [OF that] sints
      by (simp add: try_add_def checked_add_signed_def fits_signed_def flip: of_nat_mult)
  qed
  show "fst (try_mul (of_nat n :: i64) (of_nat base)) \<and>
      fst (try_add (snd (try_mul (of_nat n :: i64) (of_nat base))) (of_nat d))
      \<longleftrightarrow> n * base + d < 2 ^ 63"
    unfolding mul snd_mul using add by auto
  show "snd (try_add (snd (try_mul (of_nat n :: i64) (of_nat base))) (of_nat d))
      = of_nat (n * base + d)"
    unfolding snd_mul by (simp add: try_add_def checked_add_signed_def)
qed

text \<open>The number of zeroes in front, which count only while the value is still zero.\<close>

definition leading_zeroes :: "nat \<Rightarrow> nat list \<Rightarrow> nat" where
  "leading_zeroes n ds = (if n = 0 then length (takeWhile (\<lambda>d. d = 0) ds) else 0)"

lemma leading_zeroes_simps [simp]:
  "leading_zeroes n [] = 0"
  "leading_zeroes 0 (0 # ds) = Suc (leading_zeroes 0 ds)"
  "0 < d \<Longrightarrow> leading_zeroes n (d # ds) = 0"
  "0 < n \<Longrightarrow> leading_zeroes n ds = 0"
  by (auto simp: leading_zeroes_def)

lemma of_nat_zero_iff: "n < 2 ^ 63 \<Longrightarrow> (of_nat n :: i64) = 0 \<longleftrightarrow> n = 0"
  by (auto simp: word_of_nat_eq_0_iff dest: dvd_imp_le)

lemma integer_loop_iff:
  assumes "0 < base" "base \<le> 16"
  shows "n < 2 ^ 63 \<Longrightarrow>
    integer_loop base cs \<lparr>int_value = of_nat n, int_digits = k, int_leading_zeroes = z\<rparr> = Inr st \<longleftrightarrow>
    (\<exists>ds. digits_of base cs = Some ds \<and> number_from base n ds < 2 ^ 63 \<and>
       st = \<lparr>int_value = of_nat (number_from base n ds), int_digits = k + length ds,
         int_leading_zeroes = z + leading_zeroes n ds\<rparr>)"
proof (induction cs arbitrary: n k z)
  case (Cons c cs)
  show ?case
  proof (cases "c = CHR ''_''")
    case False
    show ?thesis
    proof (cases "to_digit (cp c) base")
      case (Some d)
      let ?m = "n * base + d"
      have d: "d < 16"
        using Some by (rule to_digit_less)
      note step = digit_step [OF Cons.prems assms d]
      have zero: "(of_nat n :: i64) = 0 \<longleftrightarrow> n = 0"
        using Cons.prems by (rule of_nat_zero_iff)
      have over: "\<not> number_from base n (d # ds) < 2 ^ 63" if "\<not> ?m < 2 ^ 63" for ds
        using number_from_ge [OF assms(1), of ?m ds] that by simp
      show ?thesis
      proof (cases "?m < 2 ^ 63")
        case True
        then show ?thesis
          using Cons.IH [OF True] step False Some zero assms(1)
          by (cases "n = 0"; cases "d = 0")
            (auto simp: Let_def split_beta simp del: of_nat_add of_nat_mult)
      next
        case False
        then show ?thesis
          using step \<open>c \<noteq> CHR ''_''\<close> Some over
          by (auto simp: Let_def split_beta simp del: number_from_simps)
      qed
    qed (use False in simp)
  qed (use Cons in simp)
qed auto

lemma read_base_base: "read_base source = (base, explicit_base, body) \<Longrightarrow> 0 < base \<and> base \<le> 16"
  by (auto simp: read_base_def split: if_splits)

text \<open>The digits of an accepted literal, and what the parser returns for them.\<close>

definition literal_digits :: "nat \<Rightarrow> string \<Rightarrow> nat list \<Rightarrow> bool" where
  "literal_digits base body ds \<longleftrightarrow>
     digits_of base body = Some ds \<and> ds \<noteq> [] \<and> number_from base 0 ds < 2 ^ 63"

definition info_of :: "nat \<Rightarrow> bool \<Rightarrow> nat list \<Rightarrow> integer_info" where
  "info_of base explicit_base ds =
     \<lparr>info_value = of_nat (number_from base 0 ds), info_explicit_base = explicit_base,
      info_leading_zero = (if number_from base 0 ds = 0 then 1 < leading_zeroes 0 ds
                           else 0 < leading_zeroes 0 ds)\<rparr>"

lemma info_of_simps [simp]:
  "info_value (info_of base explicit_base ds) = of_nat (number_from base 0 ds)"
  "info_explicit_base (info_of base explicit_base ds) = explicit_base"
  "info_leading_zero (info_of base explicit_base ds) \<longleftrightarrow>
    \<not> leading_zeroes 0 ds \<le> (if number_from base 0 ds = 0 then 1 else 0)"
  by (auto simp: info_of_def)

lemma parse_integer_impl_iff:
  assumes "read_base source = (base, explicit_base, body)"
  shows "parse_integer_impl source = Inr info \<longleftrightarrow>
    (\<exists>ds. literal_digits base body ds \<and> info = info_of base explicit_base ds)"
proof -
  have base: "0 < base" "base \<le> 16"
    using read_base_base [OF assms] by auto
  have loop: "integer_loop base body \<lparr>int_value = 0, int_digits = 0, int_leading_zeroes = 0\<rparr> = Inr st
      \<longleftrightarrow> (\<exists>ds. digits_of base body = Some ds \<and> number_from base 0 ds < 2 ^ 63 \<and>
        st = \<lparr>int_value = of_nat (number_from base 0 ds), int_digits = length ds,
          int_leading_zeroes = leading_zeroes 0 ds\<rparr>)" for st
    using integer_loop_iff [OF base, of 0 body 0 0 st] by simp
  have "parse_integer_impl source = Inr info \<longleftrightarrow>
      (\<exists>st. integer_loop base body \<lparr>int_value = 0, int_digits = 0, int_leading_zeroes = 0\<rparr> = Inr st \<and>
       int_digits st \<noteq> 0 \<and>
       info = \<lparr>info_value = int_value st, info_explicit_base = explicit_base,
         info_leading_zero = (if int_value st = 0 then 1 < int_leading_zeroes st
                              else 0 < int_leading_zeroes st)\<rparr>)"
    unfolding parse_integer_impl_def assms Let_def prod.case bind_sum_Inr_iff sum_if_Inr
    by (metis sum.inject(2))
  also have "\<dots> \<longleftrightarrow> (\<exists>ds. digits_of base body = Some ds \<and> number_from base 0 ds < 2 ^ 63 \<and>
       length ds \<noteq> 0 \<and>
       info = \<lparr>info_value = of_nat (number_from base 0 ds), info_explicit_base = explicit_base,
         info_leading_zero = (if (of_nat (number_from base 0 ds) :: i64) = 0
           then 1 < leading_zeroes 0 ds else 0 < leading_zeroes 0 ds)\<rparr>)"
    unfolding loop by (metis (no_types, lifting) integer_state.select_convs)
  also have "\<dots> \<longleftrightarrow> (\<exists>ds. literal_digits base body ds \<and> info = info_of base explicit_base ds)"
    by (intro arg_cong [of _ _ Ex] ext) (auto simp: of_nat_zero_iff literal_digits_def info_of_def)
  finally show ?thesis .
qed

lemma parse_integer_value_iff:
  "parse_integer_value source = Inr v \<longleftrightarrow>
    (\<exists>base explicit_base body ds. read_base source = (base, explicit_base, body) \<and>
       literal_digits base body ds \<and> v = of_nat (number_from base 0 ds))"
proof -
  obtain base explicit_base body where base: "read_base source = (base, explicit_base, body)"
    by (metis prod_cases3)
  show ?thesis
    unfolding parse_integer_value_def bind_sum_Inr_iff parse_integer_impl_iff [OF base]
    by (auto simp: base)
qed

lemma parse_tuple_field_iff:
  "parse_tuple_field source = Inr v \<longleftrightarrow>
    (\<exists>ds. read_base source = (10, False, source) \<and> literal_digits 10 source ds \<and>
       number_from 10 0 ds < 2 ^ 32 \<and> v = of_nat (number_from 10 0 ds) \<and>
       leading_zeroes 0 ds \<le> (if number_from 10 0 ds = 0 then 1 else 0))"
proof -
  obtain base explicit_base body where base: "read_base source = (base, explicit_base, body)"
    by (metis prod_cases3)
  have plain: "base = 10 \<and> body = source" if "\<not> explicit_base"
    using base that by (auto simp: read_base_def split: if_splits)
  have sint: "sint (of_nat (number_from base 0 ds) :: i64) = int (number_from base 0 ds)"
    if "literal_digits base body ds" for ds
    using that sint_of_nat_small by (auto simp: literal_digits_def)
  have ucast: "(ucast (of_nat n :: i64) :: u32) = of_nat n" if "\<not> 4294967295 < n" for n
    using that by (simp add: unsigned_of_nat take_bit_nat_eq_self)
  have field: "(if info_explicit_base info then Inl ''tuple fields must use base 10 digits''
       else if info_leading_zero info then Inl ''tuple fields must not use leading zeroes''
       else if sint (info_value info) < 0 then Inl ''tuple fields must not be negative''
       else if 2 ^ 32 - 1 < sint (info_value info) then Inl ''tuple field is too large''
       else Inr (ucast (info_value info))) = (Inr v :: string + u32) \<longleftrightarrow>
     \<not> explicit_base \<and> number_from base 0 ds < 2 ^ 32 \<and> v = of_nat (number_from base 0 ds) \<and>
       leading_zeroes 0 ds \<le> (if number_from base 0 ds = 0 then 1 else 0)"
    if "literal_digits base body ds" "info = info_of base explicit_base ds" for ds info
    using sint [OF that(1)] ucast by (auto simp: that(2))
  have "parse_tuple_field source = Inr v \<longleftrightarrow> (\<exists>ds. literal_digits base body ds \<and>
      \<not> explicit_base \<and> number_from base 0 ds < 2 ^ 32 \<and> v = of_nat (number_from base 0 ds) \<and>
      leading_zeroes 0 ds \<le> (if number_from base 0 ds = 0 then 1 else 0))"
    unfolding parse_tuple_field_def bind_sum_Inr_iff parse_integer_impl_iff [OF base]
    using field by blast
  then show ?thesis
    using plain by (cases explicit_base) (auto simp: base)
qed

subsection \<open>String literals\<close>

text \<open>What the encoder and the decoder of UTF-8 document.\<close>

definition encodes :: "unicode \<Rightarrow> bool" where
  "encodes u \<longleftrightarrow>
     (\<forall>c s. utf8_valid u c \<longrightarrow>
        utf8_encode u c \<noteq> [] \<and> utf8_next u (utf8_encode u c @ s) = Some (c, length (utf8_encode u c))) \<and>
     (\<forall>c. c < 128 \<longrightarrow> utf8_valid u c \<and> utf8_encode u c = [char_of (unat c)])"

definition encode_all :: "unicode \<Rightarrow> code_point list \<Rightarrow> string" where
  "encode_all u cs = concat (map (utf8_encode u) cs)"

lemma code_points_encode_all:
  "encodes u \<Longrightarrow> \<forall>c \<in> set cs. utf8_valid u c \<Longrightarrow> code_points u (encode_all u cs) = Some cs"
proof (induction cs)
  case (Cons c cs)
  then show ?case
    by (subst code_points.simps) (auto simp: encode_all_def encodes_def)
qed (simp add: encode_all_def)

text \<open>A string literal for a text: special characters are escaped, with \<open>n\<close>, \<open>r\<close>, \<open>t\<close> for the three controls.\<close>

definition escape_points :: "code_point \<Rightarrow> code_point list" where
  "escape_points c =
     (if c = 10 then [cp (CHR 0x5C), cp (CHR ''n'')]
      else if c = 13 then [cp (CHR 0x5C), cp (CHR ''r'')]
      else if c = 9 then [cp (CHR 0x5C), cp (CHR ''t'')]
      else if c \<in> {cp (CHR 0x22), cp (CHR 0x27), cp (CHR 0x5C), cp (CHR ''$'')}
      then [cp (CHR 0x5C), c]
      else [c])"

definition escape_text :: "code_point list \<Rightarrow> code_point list" where
  "escape_text cs = concat (map escape_points cs)"

lemma string_loop_plain:
  assumes "decodes_forward u" "encodes u" "ahead_points u r = Some (c # cs)"
    "c \<noteq> cp (CHR 0x5C)" "utf8_valid u c"
  obtains r' where "ahead_points u r' = Some cs"
    "string_loop u r st = string_loop u r' (st\<lparr>str_output := str_output st @ utf8_encode u c\<rparr>)"
proof -
  obtain r' where r': "range_advance u r = Some r'" "ahead_points u r' = Some cs"
    using range_advance_Cons [OF assms(1,3)] by auto
  have "string_loop u r st = string_loop u r' (st\<lparr>str_output := str_output st @ utf8_encode u c\<rparr>)"
    using r' assms at_end_iff [OF assms(3)] by (subst string_loop.simps) (simp add: append_utf8_def)
  then show ?thesis
    using that r'(2) by blast
qed

lemma string_loop_escape:
  assumes "decodes_forward u" "ahead_points u r = Some (cp (CHR 0x5C) # c # cs)"
    "\<And>r. escape_step u c r st = Some (r, st')"
  obtains r' where "ahead_points u r' = Some cs" "string_loop u r st = string_loop u r' st'"
proof -
  obtain r1 where r1: "range_advance u r = Some r1" "ahead_points u r1 = Some (c # cs)"
    using range_advance_Cons [OF assms(1,2)] by auto
  obtain r2 where r2: "range_advance u r1 = Some r2" "ahead_points u r2 = Some cs"
    using range_advance_Cons [OF assms(1) r1(2)] by auto
  have "string_loop u r st = string_loop u r2 st'"
    using r1 r2 assms(2,3) at_end_iff [OF assms(2)] at_end_iff [OF r1(2)]
    by (subst string_loop.simps) simp
  then show ?thesis
    using that r2(2) by blast
qed

lemma string_loop_escape_points:
  assumes "decodes_forward u" "encodes u" "ahead_points u r = Some (escape_points c @ cs)"
    "utf8_valid u c"
  obtains r' where "ahead_points u r' = Some cs"
    "string_loop u r st = string_loop u r' (st\<lparr>str_output := str_output st @ utf8_encode u c\<rparr>)"
proof (cases "escape_points c = [c]")
  case True
  then have "c \<noteq> cp (CHR 0x5C)"
    by (auto simp: escape_points_def split: if_splits)
  then show ?thesis
    using string_loop_plain [OF assms(1,2) _ _ assms(4)] assms(3) True that by auto
next
  case False
  have ascii: "utf8_valid u 10" "utf8_encode u 10 = [CHR 0x0A]" "utf8_encode u 13 = [CHR 0x0D]"
      "utf8_encode u 9 = [CHR 0x09]"
    using assms(2) by (auto simp: encodes_def char_of_def bit_iff_odd)
  obtain e where e: "escape_points c = [cp (CHR 0x5C), e]"
      "\<And>r. escape_step u e r st = Some (r, st\<lparr>str_output := str_output st @ utf8_encode u c\<rparr>)"
    using False assms(4) ascii
    by (auto simp: escape_points_def escape_step_def append_utf8_def cp_def split: if_splits)
  show ?thesis
    using string_loop_escape [OF assms(1) _ e(2)] assms(3) e(1) that by auto
qed

lemma string_loop_escape_text:
  assumes "decodes_forward u" "encodes u"
  shows "ahead_points u r = Some (escape_text cs) \<Longrightarrow> \<forall>c \<in> set cs. utf8_valid u c \<Longrightarrow>
    string_loop u r st = Some (st\<lparr>str_output := str_output st @ encode_all u cs\<rparr>)"
proof (induction cs arbitrary: r st)
  case Nil
  then show ?case
    using at_end_iff [OF Nil(1)] by (subst string_loop.simps) (simp add: escape_text_def encode_all_def)
next
  case (Cons c cs)
  have "ahead_points u r = Some (escape_points c @ escape_text cs)"
    using Cons.prems by (simp add: escape_text_def)
  then obtain r' where "ahead_points u r' = Some (escape_text cs)"
      "string_loop u r st = string_loop u r' (st\<lparr>str_output := str_output st @ utf8_encode u c\<rparr>)"
    using string_loop_escape_points [OF assms] Cons.prems(2) by (metis list.set_intros(1))
  then show ?case
    using Cons.IH Cons.prems(2) by (simp add: encode_all_def)
qed

subsection \<open>Every valid string literal is read to its end\<close>

text \<open>The range has moved to some suffix of the code points in front of it.\<close>

definition moved :: "unicode \<Rightarrow> code_point list \<Rightarrow> code_range \<Rightarrow> bool" where
  "moved u cs r \<longleftrightarrow> (\<exists>k. ahead_points u r = Some (drop k cs))"

lemma moved_refl: "ahead_points u r = Some cs \<Longrightarrow> moved u cs r"
  unfolding moved_def by (rule exI [of _ 0]) simp

lemma moved_Cons: "moved u cs r \<Longrightarrow> moved u (c # cs) r"
  unfolding moved_def by (metis drop_Suc_Cons)

lemma ascii_hex_loop_moves:
  assumes "decodes_forward u"
  shows "ahead_points u r = Some cs \<Longrightarrow> \<exists>res r'. ascii_hex_loop u n value r = Some (res, r') \<and> moved u cs r'"
proof (induction n arbitrary: r cs "value")
  case (Suc n)
  show ?case
  proof (cases cs)
    case Nil
    then show ?thesis
      using at_end_iff [OF Suc.prems] moved_refl [OF Suc.prems] by auto
  next
    case (Cons c cs')
    then obtain r' where "range_advance u r = Some r'" "ahead_points u r' = Some cs'"
      using range_advance_Cons [OF assms] Suc.prems by blast
    moreover from this have "\<exists>res r''. ascii_hex_loop u n v r' = Some (res, r'') \<and> moved u cs r''" for v
      using Suc.IH [of r' cs'] moved_Cons Cons by blast
    ultimately show ?thesis
      using moved_refl [OF Suc.prems] Cons at_end_iff [OF Suc.prems] Suc.prems
      by (auto split: option.splits)
  qed
qed (auto intro: moved_refl)

lemma unicode_hex_loop_moves:
  assumes "decodes_forward u"
  shows "ahead_points u r = Some cs \<Longrightarrow>
    \<exists>res r'. unicode_hex_loop u value digits r = Some (res, r') \<and> moved u cs r'"
proof (induction cs arbitrary: r "value" digits)
  case Nil
  then show ?case
    using at_end_iff [OF Nil] moved_refl [OF Nil] by (subst unicode_hex_loop.simps) auto
next
  case (Cons c cs)
  obtain r' where r': "range_advance u r = Some r'" "ahead_points u r' = Some cs"
    using range_advance_Cons [OF assms Cons.prems] by blast
  have later: "\<exists>res r''. unicode_hex_loop u v k r' = Some (res, r'') \<and> moved u (c # cs) r''" for v k
    using Cons.IH [OF r'(2)] moved_Cons by blast
  have "moved u (c # cs) r'"
    using moved_refl [OF r'(2)] by (rule moved_Cons)
  then show ?case
    using later r'(1) moved_refl [OF Cons.prems] at_end_iff [OF Cons.prems] Cons.prems
    by (subst unicode_hex_loop.simps) (auto simp: Let_def split_beta split: option.splits)
qed

lemma parse_unicode_hex_moves:
  assumes "decodes_forward u" "ahead_points u r = Some cs"
  shows "\<exists>res r'. parse_unicode_hex u r = Some (res, r') \<and> moved u cs r'"
proof (cases cs)
  case Nil
  then show ?thesis
    using range_peek_points [OF assms, of 0] moved_refl [OF assms(2)]
    by (auto simp: parse_unicode_hex_def)
next
  case (Cons c cs')
  then obtain r' where r': "range_advance u r = Some r'" "ahead_points u r' = Some cs'"
    using range_advance_Cons [OF assms(1)] assms(2) by blast
  show ?thesis
    using range_peek_points [OF assms, of 0] unicode_hex_loop_moves [OF assms(1) r'(2), of 0 0] r'
      moved_Cons [of u cs' _ c] moved_refl [OF assms(2)] Cons
    by (fastforce simp: parse_unicode_hex_def)
qed

definition honest :: "literal_state \<Rightarrow> bool" where
  "honest st \<longleftrightarrow> (str_success st \<longleftrightarrow> str_errors st = [])"

lemma honest_fail [simp]: "honest (str_fail msg st)"
  by (simp add: honest_def str_fail_def)

lemma honest_output [simp]: "honest (st\<lparr>str_output := output\<rparr>) \<longleftrightarrow> honest st"
  by (simp add: honest_def)

lemma honest_append_code [simp]: "honest st \<Longrightarrow> honest (append_code u result st)"
  by (auto simp: append_code_def Let_def split_beta split: sum.split)

lemma escape_step_moves:
  assumes "decodes_forward u" "ahead_points u r = Some cs" "utf8_valid u c" "honest st"
  shows "\<exists>r' st'. escape_step u c r st = Some (r', st') \<and> moved u cs r' \<and> honest st'"
proof -
  obtain res r' where ascii: "parse_ascii_hex u r = Some (res, r')" "moved u cs r'"
    using ascii_hex_loop_moves [OF assms(1,2)] by (fastforce simp: parse_ascii_hex_def)
  obtain res' r'' where unicode: "parse_unicode_hex u r = Some (res', r'')" "moved u cs r''"
    using parse_unicode_hex_moves [OF assms(1,2)] by blast
  show ?thesis
    using ascii unicode moved_refl [OF assms(2)] assms(3,4)
    by (simp add: escape_step_def append_utf8_def)
qed

lemma string_loop_total:
  assumes "decodes_forward u"
  shows "ahead_points u r = Some cs \<Longrightarrow> \<forall>c \<in> set cs. utf8_valid u c \<Longrightarrow> honest st \<Longrightarrow>
    \<exists>st'. string_loop u r st = Some st' \<and> honest st'"
proof (induction cs arbitrary: r st rule: length_induct)
  case (1 cs)
  show ?case
  proof (cases cs)
    case Nil
    then show ?thesis
      using at_end_iff [OF 1(2)] 1(4) by (subst string_loop.simps) auto
  next
    case (Cons c cs')
    then obtain r1 where r1: "range_advance u r = Some r1" "ahead_points u r1 = Some cs'"
      using range_advance_Cons [OF assms] 1(2) by blast
    note IH = 1(1) [rule_format]
    have get: "range_get u r = Some c" "\<not> at_end r"
      using 1(2) Cons at_end_iff [OF 1(2)] by auto
    show ?thesis
    proof (cases "c = cp (CHR 0x5C)")
      case False
      have "\<exists>st'. string_loop u r1 (st\<lparr>str_output := str_output st @ utf8_encode u c\<rparr>) = Some st' \<and>
          honest st'"
        using r1(2) 1(3,4) Cons by (intro IH) auto
      then show ?thesis
        using get r1 False 1(3) Cons by (subst string_loop.simps) (simp add: append_utf8_def)
    next
      case True
      show ?thesis
      proof (cases cs')
        case Nil
        then show ?thesis
          using get r1 True at_end_iff [OF r1(2)] by (subst string_loop.simps) simp
      next
        case (Cons e cs'')
        then obtain r2 where r2: "range_advance u r1 = Some r2" "ahead_points u r2 = Some cs''"
          using range_advance_Cons [OF assms] r1(2) by blast
        obtain r3 st3 k where r3: "escape_step u e r2 st = Some (r3, st3)"
            "ahead_points u r3 = Some (drop k cs'')" "honest st3"
          using escape_step_moves [OF assms r2(2) _ 1(4), of e] 1(3) Cons \<open>cs = c # cs'\<close>
          by (auto simp: moved_def)
        have "\<exists>st'. string_loop u r3 st3 = Some st' \<and> honest st'"
          using r3 1(3) Cons \<open>cs = c # cs'\<close> by (intro IH) (auto dest: in_set_dropD)
        then show ?thesis
          using get r1 r2 r3 True Cons at_end_iff [OF r1(2)] by (subst string_loop.simps) simp
      qed
    qed
  qed
qed

subsection \<open>Properties\<close>

text \<open>
  C39: An integer literal is accepted exactly when what remains after the prefix of its base
  consists of at least one digit of that base and underscores, and the number fits into 63 bits;
  its value is that number.
\<close>

theorem integer_literal_exact:
  "parse_integer_value source = Inr v \<longleftrightarrow>
    (\<exists>base explicit_base body ds. read_base source = (base, explicit_base, body) \<and>
       literal_digits base body ds \<and> v = of_nat (number_from base 0 ds))"
  by (rule parse_integer_value_iff)

lemma escape_text_valid:
  "encodes u \<Longrightarrow> \<forall>c \<in> set cs. utf8_valid u c \<Longrightarrow> \<forall>c \<in> set (escape_text cs). utf8_valid u c"
  by (auto simp: escape_text_def escape_points_def encodes_def cp_def)

lemma parse_escaped_text:
  assumes "decodes_forward u" "encodes u" "\<forall>c \<in> set cs. utf8_valid u c"
  shows "string_literal_value u (encode_all u (escape_text cs)) =
    Some \<lparr>str_output = encode_all u cs, str_errors = [], str_success = True\<rparr>"
proof -
  have "ahead_points u (code_range (encode_all u (escape_text cs))) = Some (escape_text cs)"
    using code_points_encode_all [OF assms(2) escape_text_valid [OF assms(2,3)]]
    by (simp add: ahead_points_def code_range_def rest_bytes_def)
  then show ?thesis
    unfolding string_literal_value_def by (subst string_loop_escape_text [OF assms(1,2)]) (use assms(3) in auto)
qed

text \<open>
  C40: A string literal in which the special characters of a text are escaped has that text as
  its value, without an error.
\<close>

theorem string_literal_roundtrip:
  assumes "decodes_forward u" "encodes u" "\<forall>c \<in> set cs. utf8_valid u c"
  shows "string_literal_value u (encode_all u (escape_text cs)) =
    Some \<lparr>str_output = encode_all u cs, str_errors = [], str_success = True\<rparr>"
  using assms by (rule parse_escaped_text)

text \<open>An instance of the parameters: seven-bit text and identifiers of letters and digits.\<close>

definition ascii :: unicode where
  "ascii = \<lparr>
     utf8_next = (\<lambda>s. case s of [] \<Rightarrow> None | c # _ \<Rightarrow> if cp c < 128 then Some (cp c, 1) else None),
     utf8_encode = (\<lambda>c. [char_of (unat c)]),
     utf8_valid = (\<lambda>c. c < 128),
     xid_start_table = [(0x41, 0x5A), (0x61, 0x7A)],
     xid_continue_table = [(0x30, 0x39), (0x5F, 0x5F)]\<rparr>"

lemma ascii_simps:
  "utf8_next ascii s = (case s of [] \<Rightarrow> None | c # _ \<Rightarrow> if cp c < 128 then Some (cp c, 1) else None)"
  "xid_start_table ascii = [(0x41, 0x5A), (0x61, 0x7A)]"
  by (simp_all add: ascii_def)

lemma ascii_forward: "decodes_forward ascii"
  by (auto simp: decodes_forward_def ascii_def split: list.splits if_splits)

lemma cp_char_of: "c < 128 \<Longrightarrow> cp (char_of (unat c)) = c"
proof -
  assume "c < 128"
  then have "unat c < 256"
    by (simp add: word_less_nat_alt)
  then have "of_char (char_of (unat c)) = unat c"
    by simp
  then have "of_nat (of_char (char_of (unat c))) = c"
    by simp
  then show ?thesis
    by (simp only: cp_def of_nat_of_char)
qed

lemma ascii_encodes: "encodes ascii"
  by (auto simp: encodes_def ascii_def cp_char_of)

lemma string_literal_roundtrip_witness:
  "string_literal_value ascii (encode_all ascii (escape_text [97, 34, 10, 36])) =
    Some \<lparr>str_output = encode_all ascii [97, 34, 10, 36], str_errors = [], str_success = True\<rparr>"
  by (rule string_literal_roundtrip [OF ascii_forward ascii_encodes]) (simp add: ascii_def)

end
