(* ===== verification/Token.thy ===== *)
theory Token
  imports Prelude
begin

text \<open>
  The vocabulary of the front end: token types, syntax node types and source ranges
  (src/compiler/syntax/token.hpp, syntax_type.hpp, src/compiler/source_range.cpp), the sets
  of token types (token_set.hpp, a bit set over the enumeration, here a set) and the table
  of infix operators (grammar/operators.cpp).

  The prefixes \<open>T_\<close> and \<open>S_\<close> stand for \<open>TokenType::\<close> and \<open>SyntaxType::\<close>. The source text is
  a list of characters, one for each byte.
\<close>

subsection \<open>Types of tokens and of syntax nodes\<close>

datatype keyword =
    K_Assert | K_Break | K_Const | K_Continue | K_Defer | K_Else | K_Export | K_False |
    K_For | K_Func | K_If | K_Import | K_In | K_Null | K_Return | K_True | K_Var |
    K_While | K_Map | K_Set | K_As | K_Catch | K_Class | K_Interface | K_Is | K_Package |
    K_Protocol | K_Scope | K_Struct | K_Switch | K_Throw | K_Try | K_Yield

datatype operator_token =
    O_Dot | O_Comma | O_Colon | O_Semicolon | O_Question | O_QuestionDot |
    O_QuestionLeftParen | O_QuestionLeftBracket | O_QuestionQuestion | O_Plus | O_Minus |
    O_Star | O_StarStar | O_Slash | O_Percent | O_PlusEquals | O_MinusEquals |
    O_StarEquals | O_StarStarEquals | O_SlashEquals | O_PercentEquals | O_PlusPlus |
    O_MinusMinus | O_BitwiseNot | O_BitwiseOr | O_BitwiseXor | O_BitwiseAnd | O_LeftShift |
    O_RightShift | O_LogicalNot | O_LogicalOr | O_LogicalAnd | O_Equals | O_EqualsEquals |
    O_NotEquals | O_Less | O_Greater | O_LessEquals | O_GreaterEquals

datatype token_type =
    T_Unexpected | T_Eof | T_Comment | T_Identifier | T_Symbol | T_Integer | T_Float |
    T_TupleField | T_StringStart | T_StringContent | T_StringVar | T_StringBlockStart |
    T_StringBlockEnd | T_StringEnd | Keyword keyword | T_LeftParen | T_RightParen |
    T_LeftBracket | T_RightBracket | T_LeftBrace | T_RightBrace | Operator operator_token

text \<open>The constants of the enumeration.\<close>

abbreviation "T_KwAssert \<equiv> Keyword K_Assert"
abbreviation "T_KwBreak \<equiv> Keyword K_Break"
abbreviation "T_KwConst \<equiv> Keyword K_Const"
abbreviation "T_KwContinue \<equiv> Keyword K_Continue"
abbreviation "T_KwDefer \<equiv> Keyword K_Defer"
abbreviation "T_KwElse \<equiv> Keyword K_Else"
abbreviation "T_KwExport \<equiv> Keyword K_Export"
abbreviation "T_KwFalse \<equiv> Keyword K_False"
abbreviation "T_KwFor \<equiv> Keyword K_For"
abbreviation "T_KwFunc \<equiv> Keyword K_Func"
abbreviation "T_KwIf \<equiv> Keyword K_If"
abbreviation "T_KwImport \<equiv> Keyword K_Import"
abbreviation "T_KwIn \<equiv> Keyword K_In"
abbreviation "T_KwNull \<equiv> Keyword K_Null"
abbreviation "T_KwReturn \<equiv> Keyword K_Return"
abbreviation "T_KwTrue \<equiv> Keyword K_True"
abbreviation "T_KwVar \<equiv> Keyword K_Var"
abbreviation "T_KwWhile \<equiv> Keyword K_While"
abbreviation "T_KwMap \<equiv> Keyword K_Map"
abbreviation "T_KwSet \<equiv> Keyword K_Set"
abbreviation "T_KwAs \<equiv> Keyword K_As"
abbreviation "T_KwCatch \<equiv> Keyword K_Catch"
abbreviation "T_KwClass \<equiv> Keyword K_Class"
abbreviation "T_KwInterface \<equiv> Keyword K_Interface"
abbreviation "T_KwIs \<equiv> Keyword K_Is"
abbreviation "T_KwPackage \<equiv> Keyword K_Package"
abbreviation "T_KwProtocol \<equiv> Keyword K_Protocol"
abbreviation "T_KwScope \<equiv> Keyword K_Scope"
abbreviation "T_KwStruct \<equiv> Keyword K_Struct"
abbreviation "T_KwSwitch \<equiv> Keyword K_Switch"
abbreviation "T_KwThrow \<equiv> Keyword K_Throw"
abbreviation "T_KwTry \<equiv> Keyword K_Try"
abbreviation "T_KwYield \<equiv> Keyword K_Yield"
abbreviation "T_Dot \<equiv> Operator O_Dot"
abbreviation "T_Comma \<equiv> Operator O_Comma"
abbreviation "T_Colon \<equiv> Operator O_Colon"
abbreviation "T_Semicolon \<equiv> Operator O_Semicolon"
abbreviation "T_Question \<equiv> Operator O_Question"
abbreviation "T_QuestionDot \<equiv> Operator O_QuestionDot"
abbreviation "T_QuestionLeftParen \<equiv> Operator O_QuestionLeftParen"
abbreviation "T_QuestionLeftBracket \<equiv> Operator O_QuestionLeftBracket"
abbreviation "T_QuestionQuestion \<equiv> Operator O_QuestionQuestion"
abbreviation "T_Plus \<equiv> Operator O_Plus"
abbreviation "T_Minus \<equiv> Operator O_Minus"
abbreviation "T_Star \<equiv> Operator O_Star"
abbreviation "T_StarStar \<equiv> Operator O_StarStar"
abbreviation "T_Slash \<equiv> Operator O_Slash"
abbreviation "T_Percent \<equiv> Operator O_Percent"
abbreviation "T_PlusEquals \<equiv> Operator O_PlusEquals"
abbreviation "T_MinusEquals \<equiv> Operator O_MinusEquals"
abbreviation "T_StarEquals \<equiv> Operator O_StarEquals"
abbreviation "T_StarStarEquals \<equiv> Operator O_StarStarEquals"
abbreviation "T_SlashEquals \<equiv> Operator O_SlashEquals"
abbreviation "T_PercentEquals \<equiv> Operator O_PercentEquals"
abbreviation "T_PlusPlus \<equiv> Operator O_PlusPlus"
abbreviation "T_MinusMinus \<equiv> Operator O_MinusMinus"
abbreviation "T_BitwiseNot \<equiv> Operator O_BitwiseNot"
abbreviation "T_BitwiseOr \<equiv> Operator O_BitwiseOr"
abbreviation "T_BitwiseXor \<equiv> Operator O_BitwiseXor"
abbreviation "T_BitwiseAnd \<equiv> Operator O_BitwiseAnd"
abbreviation "T_LeftShift \<equiv> Operator O_LeftShift"
abbreviation "T_RightShift \<equiv> Operator O_RightShift"
abbreviation "T_LogicalNot \<equiv> Operator O_LogicalNot"
abbreviation "T_LogicalOr \<equiv> Operator O_LogicalOr"
abbreviation "T_LogicalAnd \<equiv> Operator O_LogicalAnd"
abbreviation "T_Equals \<equiv> Operator O_Equals"
abbreviation "T_EqualsEquals \<equiv> Operator O_EqualsEquals"
abbreviation "T_NotEquals \<equiv> Operator O_NotEquals"
abbreviation "T_Less \<equiv> Operator O_Less"
abbreviation "T_Greater \<equiv> Operator O_Greater"
abbreviation "T_LessEquals \<equiv> Operator O_LessEquals"
abbreviation "T_GreaterEquals \<equiv> Operator O_GreaterEquals"

datatype expression_type =
    X_Literal | X_ReturnExpr | X_ContinueExpr | X_BreakExpr | X_VarExpr | X_UnaryExpr |
    X_BinaryExpr | X_FieldExpr | X_TupleFieldExpr | X_IndexExpr | X_CallExpr |
    X_GroupedExpr | X_TupleExpr | X_RecordExpr | X_ArrayExpr | X_SetExpr | X_MapExpr |
    X_IfExpr | X_BlockExpr | X_FuncExpr | X_StringExpr | X_StringFormatItem |
    X_StringFormatBlock | X_StringGroup

datatype syntax_type =
    S_Root | S_Error | S_File | S_Name | S_Condition | S_ImportPath | S_Modifiers |
    S_RecordItem | S_MapItem | S_Var | S_Binding | S_BindingName | S_BindingTuple |
    S_Func | S_ArgList | S_ParamList | Expression expression_type | S_DeferStmt |
    S_AssertStmt | S_ExprStmt | S_VarStmt | S_WhileStmt | S_ForStmt | S_ForStmtHeader |
    S_ForEachStmt | S_ForEachStmtHeader | S_ImportItem | S_VarItem | S_FuncItem

abbreviation "S_Literal \<equiv> Expression X_Literal"
abbreviation "S_ReturnExpr \<equiv> Expression X_ReturnExpr"
abbreviation "S_ContinueExpr \<equiv> Expression X_ContinueExpr"
abbreviation "S_BreakExpr \<equiv> Expression X_BreakExpr"
abbreviation "S_VarExpr \<equiv> Expression X_VarExpr"
abbreviation "S_UnaryExpr \<equiv> Expression X_UnaryExpr"
abbreviation "S_BinaryExpr \<equiv> Expression X_BinaryExpr"
abbreviation "S_FieldExpr \<equiv> Expression X_FieldExpr"
abbreviation "S_TupleFieldExpr \<equiv> Expression X_TupleFieldExpr"
abbreviation "S_IndexExpr \<equiv> Expression X_IndexExpr"
abbreviation "S_CallExpr \<equiv> Expression X_CallExpr"
abbreviation "S_GroupedExpr \<equiv> Expression X_GroupedExpr"
abbreviation "S_TupleExpr \<equiv> Expression X_TupleExpr"
abbreviation "S_RecordExpr \<equiv> Expression X_RecordExpr"
abbreviation "S_ArrayExpr \<equiv> Expression X_ArrayExpr"
abbreviation "S_SetExpr \<equiv> Expression X_SetExpr"
abbreviation "S_MapExpr \<equiv> Expression X_MapExpr"
abbreviation "S_IfExpr \<equiv> Expression X_IfExpr"
abbreviation "S_BlockExpr \<equiv> Expression X_BlockExpr"
abbreviation "S_FuncExpr \<equiv> Expression X_FuncExpr"
abbreviation "S_StringExpr \<equiv> Expression X_StringExpr"
abbreviation "S_StringFormatItem \<equiv> Expression X_StringFormatItem"
abbreviation "S_StringFormatBlock \<equiv> Expression X_StringFormatBlock"
abbreviation "S_StringGroup \<equiv> Expression X_StringGroup"

type_synonym token_set = "token_type set"

subsection \<open>Source ranges and tokens\<close>

record source_range =
  range_begin :: u32
  range_end :: u32

text \<open>The constructor checks that the bounds are in order.\<close>

definition source_range :: "u32 \<Rightarrow> u32 \<Rightarrow> source_range option" where
  "source_range b e = (if b \<le> e then Some \<lparr>range_begin = b, range_end = e\<rparr> else None)"

definition from_offset :: "u32 \<Rightarrow> source_range" where
  "from_offset n = \<lparr>range_begin = n, range_end = n\<rparr>"

definition from_std_offsets :: "nat \<Rightarrow> nat \<Rightarrow> source_range option" where
  "from_std_offsets b e =
     (if b < 2 ^ 32 \<and> e < 2 ^ 32 then source_range (of_nat b) (of_nat e) else None)"

definition substring :: "string \<Rightarrow> source_range \<Rightarrow> string option" where
  "substring file r =
     (if unat (range_end r) \<le> length file
      then Some (take (unat (range_end r - range_begin r)) (drop (unat (range_begin r)) file))
      else None)"

record token =
  token_kind :: token_type
  token_range :: source_range

subsection \<open>Names and descriptions of tokens\<close>

primrec keyword_name :: "keyword \<Rightarrow> string" where
  "keyword_name K_Assert = ''KwAssert''"
| "keyword_name K_Break = ''KwBreak''"
| "keyword_name K_Const = ''KwConst''"
| "keyword_name K_Continue = ''KwContinue''"
| "keyword_name K_Defer = ''KwDefer''"
| "keyword_name K_Else = ''KwElse''"
| "keyword_name K_Export = ''KwExport''"
| "keyword_name K_False = ''KwFalse''"
| "keyword_name K_For = ''KwFor''"
| "keyword_name K_Func = ''KwFunc''"
| "keyword_name K_If = ''KwIf''"
| "keyword_name K_Import = ''KwImport''"
| "keyword_name K_In = ''KwIn''"
| "keyword_name K_Null = ''KwNull''"
| "keyword_name K_Return = ''KwReturn''"
| "keyword_name K_True = ''KwTrue''"
| "keyword_name K_Var = ''KwVar''"
| "keyword_name K_While = ''KwWhile''"
| "keyword_name K_Map = ''KwMap''"
| "keyword_name K_Set = ''KwSet''"
| "keyword_name K_As = ''KwAs''"
| "keyword_name K_Catch = ''KwCatch''"
| "keyword_name K_Class = ''KwClass''"
| "keyword_name K_Interface = ''KwInterface''"
| "keyword_name K_Is = ''KwIs''"
| "keyword_name K_Package = ''KwPackage''"
| "keyword_name K_Protocol = ''KwProtocol''"
| "keyword_name K_Scope = ''KwScope''"
| "keyword_name K_Struct = ''KwStruct''"
| "keyword_name K_Switch = ''KwSwitch''"
| "keyword_name K_Throw = ''KwThrow''"
| "keyword_name K_Try = ''KwTry''"
| "keyword_name K_Yield = ''KwYield''"

primrec operator_name :: "operator_token \<Rightarrow> string" where
  "operator_name O_Dot = ''Dot''"
| "operator_name O_Comma = ''Comma''"
| "operator_name O_Colon = ''Colon''"
| "operator_name O_Semicolon = ''Semicolon''"
| "operator_name O_Question = ''Question''"
| "operator_name O_QuestionDot = ''QuestionDot''"
| "operator_name O_QuestionLeftParen = ''QuestionLeftParen''"
| "operator_name O_QuestionLeftBracket = ''QuestionLeftBracket''"
| "operator_name O_QuestionQuestion = ''QuestionQuestion''"
| "operator_name O_Plus = ''Plus''"
| "operator_name O_Minus = ''Minus''"
| "operator_name O_Star = ''Star''"
| "operator_name O_StarStar = ''StarStar''"
| "operator_name O_Slash = ''Slash''"
| "operator_name O_Percent = ''Percent''"
| "operator_name O_PlusEquals = ''PlusEquals''"
| "operator_name O_MinusEquals = ''MinusEquals''"
| "operator_name O_StarEquals = ''StarEquals''"
| "operator_name O_StarStarEquals = ''StarStarEquals''"
| "operator_name O_SlashEquals = ''SlashEquals''"
| "operator_name O_PercentEquals = ''PercentEquals''"
| "operator_name O_PlusPlus = ''PlusPlus''"
| "operator_name O_MinusMinus = ''MinusMinus''"
| "operator_name O_BitwiseNot = ''BitwiseNot''"
| "operator_name O_BitwiseOr = ''BitwiseOr''"
| "operator_name O_BitwiseXor = ''BitwiseXor''"
| "operator_name O_BitwiseAnd = ''BitwiseAnd''"
| "operator_name O_LeftShift = ''LeftShift''"
| "operator_name O_RightShift = ''RightShift''"
| "operator_name O_LogicalNot = ''LogicalNot''"
| "operator_name O_LogicalOr = ''LogicalOr''"
| "operator_name O_LogicalAnd = ''LogicalAnd''"
| "operator_name O_Equals = ''Equals''"
| "operator_name O_EqualsEquals = ''EqualsEquals''"
| "operator_name O_NotEquals = ''NotEquals''"
| "operator_name O_Less = ''Less''"
| "operator_name O_Greater = ''Greater''"
| "operator_name O_LessEquals = ''LessEquals''"
| "operator_name O_GreaterEquals = ''GreaterEquals''"

primrec to_string :: "token_type \<Rightarrow> string" where
  "to_string T_Unexpected = ''Unexpected''"
| "to_string T_Eof = ''Eof''"
| "to_string T_Comment = ''Comment''"
| "to_string T_Identifier = ''Identifier''"
| "to_string T_Symbol = ''Symbol''"
| "to_string T_Integer = ''Integer''"
| "to_string T_Float = ''Float''"
| "to_string T_TupleField = ''TupleField''"
| "to_string T_StringStart = ''StringStart''"
| "to_string T_StringContent = ''StringContent''"
| "to_string T_StringVar = ''StringVar''"
| "to_string T_StringBlockStart = ''StringBlockStart''"
| "to_string T_StringBlockEnd = ''StringBlockEnd''"
| "to_string T_StringEnd = ''StringEnd''"
| "to_string (Keyword k) = keyword_name k"
| "to_string T_LeftParen = ''LeftParen''"
| "to_string T_RightParen = ''RightParen''"
| "to_string T_LeftBracket = ''LeftBracket''"
| "to_string T_RightBracket = ''RightBracket''"
| "to_string T_LeftBrace = ''LeftBrace''"
| "to_string T_RightBrace = ''RightBrace''"
| "to_string (Operator k) = operator_name k"

definition quoted :: "string \<Rightarrow> string" where
  "quoted s = CHR 0x27 # s @ [CHR 0x27]"

primrec keyword_text :: "keyword \<Rightarrow> string" where
  "keyword_text K_Assert = ''assert''"
| "keyword_text K_Break = ''break''"
| "keyword_text K_Const = ''const''"
| "keyword_text K_Continue = ''continue''"
| "keyword_text K_Defer = ''defer''"
| "keyword_text K_Else = ''else''"
| "keyword_text K_Export = ''export''"
| "keyword_text K_False = ''false''"
| "keyword_text K_For = ''for''"
| "keyword_text K_Func = ''func''"
| "keyword_text K_If = ''if''"
| "keyword_text K_Import = ''import''"
| "keyword_text K_In = ''in''"
| "keyword_text K_Null = ''null''"
| "keyword_text K_Return = ''return''"
| "keyword_text K_True = ''true''"
| "keyword_text K_Var = ''var''"
| "keyword_text K_While = ''while''"
| "keyword_text K_Map = ''map''"
| "keyword_text K_Set = ''set''"
| "keyword_text K_As = ''as''"
| "keyword_text K_Catch = ''catch''"
| "keyword_text K_Class = ''class''"
| "keyword_text K_Interface = ''interface''"
| "keyword_text K_Is = ''is''"
| "keyword_text K_Package = ''package''"
| "keyword_text K_Protocol = ''protocol''"
| "keyword_text K_Scope = ''scope''"
| "keyword_text K_Struct = ''struct''"
| "keyword_text K_Switch = ''switch''"
| "keyword_text K_Throw = ''throw''"
| "keyword_text K_Try = ''try''"
| "keyword_text K_Yield = ''yield''"

primrec operator_text :: "operator_token \<Rightarrow> string" where
  "operator_text O_Dot = ''.''"
| "operator_text O_Comma = '',''"
| "operator_text O_Colon = '':''"
| "operator_text O_Semicolon = '';''"
| "operator_text O_Question = ''?''"
| "operator_text O_QuestionDot = ''?.''"
| "operator_text O_QuestionLeftParen = ''?(''"
| "operator_text O_QuestionLeftBracket = ''?[''"
| "operator_text O_QuestionQuestion = ''??''"
| "operator_text O_Plus = ''+''"
| "operator_text O_Minus = ''-''"
| "operator_text O_Star = ''*''"
| "operator_text O_StarStar = ''**''"
| "operator_text O_Slash = ''/''"
| "operator_text O_Percent = ''%''"
| "operator_text O_PlusEquals = ''+=''"
| "operator_text O_MinusEquals = ''-=''"
| "operator_text O_StarEquals = ''*=''"
| "operator_text O_StarStarEquals = ''**=''"
| "operator_text O_SlashEquals = ''/=''"
| "operator_text O_PercentEquals = ''%=''"
| "operator_text O_PlusPlus = ''++''"
| "operator_text O_MinusMinus = ''--''"
| "operator_text O_BitwiseNot = ''~''"
| "operator_text O_BitwiseOr = ''|''"
| "operator_text O_BitwiseXor = ''^''"
| "operator_text O_BitwiseAnd = ''&''"
| "operator_text O_LeftShift = ''<<''"
| "operator_text O_RightShift = ''>>''"
| "operator_text O_LogicalNot = ''!''"
| "operator_text O_LogicalOr = ''||''"
| "operator_text O_LogicalAnd = ''&&''"
| "operator_text O_Equals = ''=''"
| "operator_text O_EqualsEquals = ''==''"
| "operator_text O_NotEquals = ''!=''"
| "operator_text O_Less = ''<''"
| "operator_text O_Greater = ''>''"
| "operator_text O_LessEquals = ''<=''"
| "operator_text O_GreaterEquals = ''>=''"

primrec to_description :: "token_type \<Rightarrow> string" where
  "to_description T_Unexpected = ''<unexpected>''"
| "to_description T_Eof = ''<end of file>''"
| "to_description T_Comment = ''<comment>''"
| "to_description T_Identifier = ''<identifier>''"
| "to_description T_Symbol = ''<symbol>''"
| "to_description T_Integer = ''<integer>''"
| "to_description T_Float = ''<float>''"
| "to_description T_TupleField = ''<tuple field>''"
| "to_description T_StringStart = ''<string start>''"
| "to_description T_StringContent = ''<string content>''"
| "to_description T_StringVar = quoted ''$''"
| "to_description T_StringBlockStart = quoted ''${''"
| "to_description T_StringBlockEnd = quoted ''}''"
| "to_description T_StringEnd = ''<string end>''"
| "to_description (Keyword k) = quoted (keyword_text k)"
| "to_description T_LeftParen = quoted ''(''"
| "to_description T_RightParen = quoted '')''"
| "to_description T_LeftBracket = quoted ''[''"
| "to_description T_RightBracket = quoted '']''"
| "to_description T_LeftBrace = quoted ''{''"
| "to_description T_RightBrace = quoted ''}''"
| "to_description (Operator k) = quoted (operator_text k)"

subsection \<open>Infix operators\<close>

record infix_operator =
  op_precedence :: int
  op_right_assoc :: bool

definition operator :: "int \<Rightarrow> bool \<Rightarrow> infix_operator" where
  "operator n r = \<lparr>op_precedence = n, op_right_assoc = r\<rparr>"

definition unary_precedence :: int where
  "unary_precedence = 13"

definition infix_operator_precedence :: "token_type \<Rightarrow> infix_operator option" where
  "infix_operator_precedence t =
     (if t \<in> {T_Equals, T_PlusEquals, T_MinusEquals, T_StarEquals, T_StarStarEquals,
              T_SlashEquals, T_PercentEquals} then Some (operator 0 True)
      else if t = T_LogicalOr then Some (operator 1 False)
      else if t = T_LogicalAnd then Some (operator 2 False)
      else if t = T_QuestionQuestion then Some (operator 3 False)
      else if t = T_BitwiseOr then Some (operator 4 False)
      else if t = T_BitwiseXor then Some (operator 5 False)
      else if t = T_BitwiseAnd then Some (operator 6 False)
      else if t \<in> {T_EqualsEquals, T_NotEquals} then Some (operator 7 False)
      else if t \<in> {T_Less, T_LessEquals, T_Greater, T_GreaterEquals}
        then Some (operator 8 False)
      else if t \<in> {T_LeftShift, T_RightShift} then Some (operator 9 False)
      else if t \<in> {T_Plus, T_Minus} then Some (operator 10 False)
      else if t \<in> {T_Star, T_Slash, T_Percent} then Some (operator 11 False)
      else if t = T_StarStar then Some (operator 12 True)
      else if t \<in> {T_LeftParen, T_LeftBracket, T_Dot, T_QuestionLeftParen,
                   T_QuestionLeftBracket, T_QuestionDot} then Some (operator 14 False)
      else None)"

end
