(* ===== verification/Lexer.thy ===== *)
theory Lexer
  imports Literals Token
begin

text \<open>
  The lexer (src/compiler/syntax/lexer.cpp). The position in the source is the \<open>code_range\<close>
  \<open>lx_input\<close>. An operation returns \<open>None\<close> where an assertion fails, such as reading the
  current code point at the end of the file; loops are partial functions. The assertions at the start of
  the functions for comments repeat the test of their caller and are left out. The operators are
  tables of the code points that follow each other; the source spells them out with a macro.
\<close>

subsection \<open>State\<close>

datatype state_type = Normal_state | String_state

record lexer_state =
  st_type :: state_type
  st_open_braces :: u32
  st_delim :: code_point
  st_needs_identifier :: bool

definition normal_state :: lexer_state where
  "normal_state =
     \<lparr>st_type = Normal_state, st_open_braces = 0, st_delim = 0, st_needs_identifier = False\<rparr>"

definition string_state :: "code_point \<Rightarrow> lexer_state" where
  "string_state delim =
     \<lparr>st_type = String_state, st_open_braces = 0, st_delim = delim, st_needs_identifier = False\<rparr>"

record lexer =
  lx_input :: code_range
  lx_ignore_comments :: bool
  lx_start :: nat
  lx_last_non_ws :: token_type
  lx_states :: "lexer_state list"
  lx_state :: lexer_state

definition new_lexer :: "string \<Rightarrow> bool \<Rightarrow> lexer" where
  "new_lexer content ignore_comments =
     \<lparr>lx_input = code_range content, lx_ignore_comments = ignore_comments, lx_start = 0,
      lx_last_non_ws = T_Eof, lx_states = [], lx_state = normal_state\<rparr>"

definition push_state :: "lexer \<Rightarrow> lexer" where
  "push_state l = l\<lparr>lx_states := lx_state l # lx_states l\<rparr>"

definition pop_state :: "lexer \<Rightarrow> bool \<times> lexer" where
  "pop_state l =
     (case lx_states l of
        [] \<Rightarrow> (False, l)
      | s # rest \<Rightarrow> (True, l\<lparr>lx_state := s, lx_states := rest\<rparr>))"

subsection \<open>Reading the input\<close>

abbreviation lx_pos :: "lexer \<Rightarrow> nat" where
  "lx_pos l \<equiv> range_pos (lx_input l)"

abbreviation lx_eof :: "lexer \<Rightarrow> bool" where
  "lx_eof l \<equiv> at_end (lx_input l)"

abbreviation lx_current :: "unicode \<Rightarrow> lexer \<Rightarrow> code_point option" where
  "lx_current u l \<equiv> range_get u (lx_input l)"

abbreviation lx_ahead :: "unicode \<Rightarrow> nat \<Rightarrow> lexer \<Rightarrow> code_point option option" where
  "lx_ahead u n l \<equiv> range_peek u n (lx_input l)"

definition lx_advance :: "unicode \<Rightarrow> lexer \<Rightarrow> lexer option" where
  "lx_advance u l = map_option (\<lambda>r. l\<lparr>lx_input := r\<rparr>) (range_advance u (lx_input l))"

definition lx_advance_by :: "unicode \<Rightarrow> nat \<Rightarrow> lexer \<Rightarrow> lexer option" where
  "lx_advance_by u n l = map_option (\<lambda>r. l\<lparr>lx_input := r\<rparr>) (range_advance_by u n (lx_input l))"

definition lx_accept :: "unicode \<Rightarrow> code_point \<Rightarrow> lexer \<Rightarrow> (bool \<times> lexer) option" where
  "lx_accept u c l =
     (if lx_eof l then Some (False, l)
      else do {
        c' \<leftarrow> lx_current u l;
        if c' = c then do { l \<leftarrow> lx_advance u l; Some (True, l) } else Some (False, l)
      })"

definition lx_accept_any ::
    "unicode \<Rightarrow> code_point list \<Rightarrow> lexer \<Rightarrow> (code_point option \<times> lexer) option" where
  "lx_accept_any u candidates l =
     (if lx_eof l then Some (None, l)
      else do {
        c \<leftarrow> lx_current u l;
        if c \<in> set candidates then do { l \<leftarrow> lx_advance u l; Some (Some c, l) } else Some (None, l)
      })"

partial_function (option) accept_while_loop ::
    "unicode \<Rightarrow> (code_point \<Rightarrow> bool) \<Rightarrow> code_range \<Rightarrow> code_range option" where
  "accept_while_loop u p r =
     (if at_end r then Some r
      else Option.bind (range_get u r) (\<lambda>c.
        if p c then Option.bind (range_advance u r) (\<lambda>r. accept_while_loop u p r) else Some r))"

declare accept_while_loop.simps [code]

definition lx_accept_while :: "unicode \<Rightarrow> (code_point \<Rightarrow> bool) \<Rightarrow> lexer \<Rightarrow> lexer option" where
  "lx_accept_while u p l =
     map_option (\<lambda>r. l\<lparr>lx_input := r\<rparr>) (accept_while_loop u p (lx_input l))"

text \<open>The text of the current token; \<open>substr\<close> throws beyond the end.\<close>

definition lx_value :: "lexer \<Rightarrow> string option" where
  "lx_value l =
     (if lx_start l \<le> lx_pos l \<and> lx_start l \<le> length (range_bytes (lx_input l))
      then Some (take (lx_pos l - lx_start l) (drop (lx_start l) (range_bytes (lx_input l))))
      else None)"

subsection \<open>Words, numbers and operators\<close>

definition KEYWORDS :: "(string \<times> token_type) list" where
  "KEYWORDS = map (\<lambda>k. (keyword_text k, Keyword k))
     [K_As, K_Assert, K_Break, K_Catch, K_Class, K_Const, K_Continue, K_Defer, K_Else, K_Export,
      K_False, K_For, K_Func, K_If, K_Import, K_In, K_Interface, K_Is, K_Null, K_Package,
      K_Protocol, K_Return, K_Scope, K_Struct, K_Switch, K_Throw, K_True, K_Try, K_Var, K_While,
      K_Yield]"

definition TUPLE_FIELD_FIRST :: token_set where
  "TUPLE_FIELD_FIRST = {T_Dot, T_QuestionDot}"

definition is_decimal_digit :: "code_point \<Rightarrow> bool" where
  "is_decimal_digit c \<longleftrightarrow> cp (CHR ''0'') \<le> c \<and> c \<le> cp (CHR ''9'')"

definition lex_identifier :: "unicode \<Rightarrow> lexer \<Rightarrow> (token_type \<times> lexer) option" where
  "lex_identifier u l = do {
     c \<leftarrow> lx_current u l;
     debug_assert (is_identifier_start u c);
     l \<leftarrow> lx_advance u l;
     l \<leftarrow> lx_accept_while u (is_identifier_continue u) l;
     word \<leftarrow> lx_value l;
     Some (case map_of KEYWORDS word of Some k \<Rightarrow> k | None \<Rightarrow> T_Identifier, l)
   }"

definition is_digit_char :: "nat \<Rightarrow> code_point \<Rightarrow> bool" where
  "is_digit_char base c \<longleftrightarrow> c = cp (CHR ''_'') \<or> to_digit c base \<noteq> None"

definition lex_number :: "unicode \<Rightarrow> lexer \<Rightarrow> (token_type \<times> lexer) option" where
  "lex_number u l = do {
     c \<leftarrow> lx_current u l;
     debug_assert (is_decimal_digit c);
     (zero, l) \<leftarrow> lx_accept u (cp (CHR ''0'')) l;
     (prefix, l) \<leftarrow>
       (if zero then lx_accept_any u [cp (CHR ''b''), cp (CHR ''o''), cp (CHR ''x'')] l
        else Some (None, l));
     let parse_base = (if prefix = Some (cp (CHR ''x'')) then 16 else 10);
     l \<leftarrow> lx_accept_while u (is_digit_char parse_base) l;
     (dot, l) \<leftarrow> lx_accept u (cp (CHR ''.'')) l;
     if dot then do {
       l \<leftarrow> lx_accept_while u (is_digit_char parse_base) l;
       Some (T_Float, l)
     } else Some (T_Integer, l)
   }"

definition lex_tuple_field :: "unicode \<Rightarrow> lexer \<Rightarrow> (token_type \<times> lexer) option" where
  "lex_tuple_field u l = do {
     c \<leftarrow> lx_current u l;
     debug_assert (is_decimal_digit c);
     l \<leftarrow> lx_accept_while u is_decimal_digit l;
     Some (T_TupleField, l)
   }"

definition lex_symbol :: "unicode \<Rightarrow> lexer \<Rightarrow> (token_type \<times> lexer) option" where
  "lex_symbol u l = do {
     c \<leftarrow> lx_current u l;
     debug_assert (c = cp (CHR ''#''));
     l \<leftarrow> lx_advance u l;
     l \<leftarrow> lx_accept_while u (is_identifier_continue u) l;
     Some (T_Symbol, l)
   }"

text \<open>Operators of one code point.\<close>

definition single_operators :: "(code_point \<times> token_type) list" where
  "single_operators =
     [(cp (CHR 0x28), T_LeftParen), (cp (CHR 0x29), T_RightParen), (cp (CHR 0x5B), T_LeftBracket),
      (cp (CHR 0x5D), T_RightBracket), (cp (CHR 0x7B), T_LeftBrace), (cp (CHR 0x7D), T_RightBrace),
      (cp (CHR ''.''), T_Dot), (cp (CHR '',''), T_Comma), (cp (CHR '':''), T_Colon),
      (cp (CHR '';''), T_Semicolon), (cp (CHR ''~''), T_BitwiseNot), (cp (CHR 0x5E), T_BitwiseXor)]"

text \<open>Operators that accept a second code point: the code point, the long and the short operator.\<close>

definition accept_operators :: "(code_point \<times> (code_point \<times> token_type \<times> token_type)) list" where
  "accept_operators =
     [(cp (CHR ''/''), (cp (CHR ''=''), T_SlashEquals, T_Slash)),
      (cp (CHR ''%''), (cp (CHR ''=''), T_PercentEquals, T_Percent)),
      (cp (CHR ''!''), (cp (CHR ''=''), T_NotEquals, T_LogicalNot)),
      (cp (CHR ''|''), (cp (CHR ''|''), T_LogicalOr, T_BitwiseOr)),
      (cp (CHR ''&''), (cp (CHR ''&''), T_LogicalAnd, T_BitwiseAnd)),
      (cp (CHR ''=''), (cp (CHR ''=''), T_EqualsEquals, T_Equals))]"

text \<open>Operators that switch on the current code point, without a test for the end of the file.\<close>

definition switch_operators :: "(code_point \<times> ((code_point \<times> token_type) list \<times> token_type)) list" where
  "switch_operators =
     [(cp (CHR ''?''), ([(cp (CHR ''.''), T_QuestionDot), (cp (CHR 0x28), T_QuestionLeftParen),
         (cp (CHR 0x5B), T_QuestionLeftBracket), (cp (CHR ''?''), T_QuestionQuestion)], T_Question)),
      (cp (CHR ''+''), ([(cp (CHR ''+''), T_PlusPlus), (cp (CHR ''=''), T_PlusEquals)], T_Plus)),
      (cp (CHR ''-''), ([(cp (CHR ''-''), T_MinusMinus), (cp (CHR ''=''), T_MinusEquals)], T_Minus)),
      (cp (CHR ''*''), ([(cp (CHR ''*''), T_StarStar), (cp (CHR ''=''), T_StarEquals)], T_Star)),
      (cp (CHR ''<''), ([(cp (CHR ''=''), T_LessEquals), (cp (CHR ''<''), T_LeftShift)], T_Less)),
      (cp (CHR ''>''), ([(cp (CHR ''=''), T_GreaterEquals), (cp (CHR ''>''), T_RightShift)], T_Greater))]"

definition lex_operator :: "unicode \<Rightarrow> lexer \<Rightarrow> (token_type option \<times> lexer) option" where
  "lex_operator u l = do {
     c \<leftarrow> lx_current u l;
     case map_of single_operators c of
       Some op \<Rightarrow> do { l \<leftarrow> lx_advance u l; Some (Some op, l) }
     | None \<Rightarrow> (case map_of accept_operators c of
         Some (second, long, short) \<Rightarrow> do {
           l \<leftarrow> lx_advance u l;
           (found, l) \<leftarrow> lx_accept u second l;
           Some (Some (if found then long else short), l)
         }
       | None \<Rightarrow> (case map_of switch_operators c of
           Some (continuations, short) \<Rightarrow> do {
             l \<leftarrow> lx_advance u l;
             c \<leftarrow> lx_current u l;
             case map_of continuations c of
               None \<Rightarrow> Some (Some short, l)
             | Some op \<Rightarrow> do {
                 l \<leftarrow> lx_advance u l;
                 if op = T_StarStar then do {
                   (found, l) \<leftarrow> lx_accept u (cp (CHR ''='')) l;
                   Some (Some (if found then T_StarStarEquals else T_StarStar), l)
                 } else Some (Some op, l)
               }
           }
         | None \<Rightarrow> Some (None, l)))
   }"

subsection \<open>Comments\<close>

definition lex_line_comment :: "unicode \<Rightarrow> lexer \<Rightarrow> lexer option" where
  "lex_line_comment u l = do {
     l \<leftarrow> lx_advance_by u 2 l;
     lx_accept_while u (\<lambda>c. c \<noteq> cp (CHR 0x0A)) l
   }"

partial_function (option) block_comment_loop ::
    "unicode \<Rightarrow> nat \<Rightarrow> code_range \<Rightarrow> code_range option" where
  "block_comment_loop u depth r =
     (if at_end r then Some r
      else Option.bind (range_get u r) (\<lambda>c.
        Option.bind (range_peek u 1 r) (\<lambda>next_point.
          if c = cp (CHR ''/'') \<and> next_point = Some (cp (CHR ''*''))
          then Option.bind (range_advance_by u 2 r) (\<lambda>r. block_comment_loop u (Suc depth) r)
          else if c = cp (CHR ''*'') \<and> next_point = Some (cp (CHR ''/''))
          then if depth = 0 then None
               else Option.bind (range_advance_by u 2 r) (\<lambda>r.
                 if depth = 1 then Some r else block_comment_loop u (depth - 1) r)
          else Option.bind (range_advance u r) (\<lambda>r. block_comment_loop u depth r))))"

declare block_comment_loop.simps [code]

definition lex_block_comment :: "unicode \<Rightarrow> lexer \<Rightarrow> lexer option" where
  "lex_block_comment u l =
     map_option (\<lambda>r. l\<lparr>lx_input := r\<rparr>) (block_comment_loop u 0 (lx_input l))"

subsection \<open>Strings\<close>

partial_function (option) string_content_loop ::
    "unicode \<Rightarrow> code_point \<Rightarrow> code_range \<Rightarrow> code_range option" where
  "string_content_loop u delim r =
     (if at_end r then Some r
      else Option.bind (range_get u r) (\<lambda>c.
        if c = delim \<or> c = cp (CHR ''$'') then Some r
        else if c = cp (CHR 0x5C)
        then Option.bind (range_advance u r) (\<lambda>r.
               if at_end r then Some r
               else Option.bind (range_advance u r) (\<lambda>r. string_content_loop u delim r))
        else Option.bind (range_advance u r) (\<lambda>r. string_content_loop u delim r)))"

declare string_content_loop.simps [code]

definition lex_string_content :: "unicode \<Rightarrow> lexer \<Rightarrow> lexer option" where
  "lex_string_content u l = do {
     debug_assert (st_type (lx_state l) = String_state);
     map_option (\<lambda>r. l\<lparr>lx_input := r\<rparr>) (string_content_loop u (st_delim (lx_state l)) (lx_input l))
   }"

definition needs_identifier :: "bool \<Rightarrow> lexer \<Rightarrow> lexer" where
  "needs_identifier b l = l\<lparr>lx_state := (lx_state l)\<lparr>st_needs_identifier := b\<rparr>\<rparr>"

text \<open>The rest of \<open>lex_string\<close>, behind the identifier that may follow a dollar sign.\<close>

definition lex_string_rest :: "unicode \<Rightarrow> lexer \<Rightarrow> (token_type \<times> lexer) option" where
  "lex_string_rest u l = do {
     (dollar, l) \<leftarrow> lx_accept u (cp (CHR ''$'')) l;
     if dollar then do {
       (brace, l) \<leftarrow> lx_accept u (cp (CHR 0x7B)) l;
       if brace then Some (T_StringBlockStart, (push_state l)\<lparr>lx_state := normal_state\<rparr>)
       else Some (T_StringVar, needs_identifier True l)
     } else do {
       l \<leftarrow> lex_string_content u l;
       (if lx_eof l then Some ()
        else do {
          c \<leftarrow> lx_current u l;
          debug_assert (c = st_delim (lx_state l) \<or> c = cp (CHR ''$''))
        });
       Some (T_StringContent, l)
     }
   }"

definition lex_string :: "unicode \<Rightarrow> lexer \<Rightarrow> (token_type \<times> lexer) option" where
  "lex_string u l = do {
     debug_assert (st_type (lx_state l) = String_state);
     if lx_eof l then Some (T_Eof, l)
     else do {
       (closed, l) \<leftarrow> lx_accept u (st_delim (lx_state l)) l;
       if closed then Some (T_StringEnd, snd (pop_state l))
       else if st_needs_identifier (lx_state l) then do {
         c \<leftarrow> lx_current u l;
         if is_identifier_start u c then do {
           (ty, l) \<leftarrow> lex_identifier u l;
           Some (ty, needs_identifier False l)
         } else lex_string_rest u (needs_identifier False l)
       } else lex_string_rest u l
     }
   }"

subsection \<open>The normal state\<close>

definition set_open_braces :: "u32 \<Rightarrow> lexer \<Rightarrow> lexer" where
  "set_open_braces n l = l\<lparr>lx_state := (lx_state l)\<lparr>st_open_braces := n\<rparr>\<rparr>"

text \<open>What a brace does to the state; the closing brace of a block inside a string ends it.\<close>

definition count_braces :: "token_type \<Rightarrow> lexer \<Rightarrow> token_type \<times> lexer" where
  "count_braces op l =
     (if op = T_LeftBrace then (op, set_open_braces (st_open_braces (lx_state l) + 1) l)
      else if op = T_RightBrace then
        if st_open_braces (lx_state l) = 0
        then (let (popped, l) = pop_state l in (if popped then T_StringBlockEnd else op, l))
        else (op, set_open_braces (st_open_braces (lx_state l) - 1) l)
      else (op, l))"

text \<open>The part of \<open>lex_normal\<close> behind white space and comments, at the code point \<open>c\<close>.\<close>

definition lex_token :: "unicode \<Rightarrow> code_point \<Rightarrow> lexer \<Rightarrow> (token_type \<times> lexer) option" where
  "lex_token u c l =
     (if c = cp (CHR 0x27) \<or> c = cp (CHR 0x22) then do {
        l \<leftarrow> lx_advance u l;
        Some (T_StringStart, (push_state l)\<lparr>lx_state := string_state c\<rparr>)
      }
      else if is_decimal_digit c then
        if lx_last_non_ws l \<in> TUPLE_FIELD_FIRST then lex_tuple_field u l else lex_number u l
      else if c = cp (CHR ''#'') then lex_symbol u l
      else if is_identifier_start u c then lex_identifier u l
      else do {
        (op, l) \<leftarrow> lex_operator u l;
        case op of
          Some op \<Rightarrow> Some (count_braces op l)
        | None \<Rightarrow> do { l \<leftarrow> lx_advance u l; Some (T_Unexpected, l) }
      })"

partial_function (option) lex_normal :: "unicode \<Rightarrow> lexer \<Rightarrow> (token_type \<times> lexer) option" where
  "lex_normal u l =
     Option.bind (debug_assert (st_type (lx_state l) = Normal_state)) (\<lambda>_.
     Option.bind (lx_accept_while u is_whitespace l) (\<lambda>l.
     let l = l\<lparr>lx_start := lx_pos l\<rparr> in
     if lx_eof l then Some (T_Eof, l)
     else
       Option.bind (lx_current u l) (\<lambda>c.
       Option.bind (lx_ahead u 1 l) (\<lambda>next_point.
         if c = cp (CHR ''/'') \<and> next_point = Some (cp (CHR ''/''))
         then Option.bind (lex_line_comment u l) (\<lambda>l.
                if lx_ignore_comments l then lex_normal u l else Some (T_Comment, l))
         else if c = cp (CHR ''/'') \<and> next_point = Some (cp (CHR ''*''))
         then Option.bind (lex_block_comment u l) (\<lambda>l.
                if lx_ignore_comments l then lex_normal u l else Some (T_Comment, l))
         else lex_token u c l))))"

declare lex_normal.simps [code]

subsection \<open>Tokens\<close>

definition lexer_next :: "unicode \<Rightarrow> lexer \<Rightarrow> (token \<times> lexer) option" where
  "lexer_next u l = do {
     let l = l\<lparr>lx_start := lx_pos l\<rparr>;
     (ty, l) \<leftarrow> (case st_type (lx_state l) of
         Normal_state \<Rightarrow> lex_normal u l
       | String_state \<Rightarrow> lex_string u l);
     let l = (if ty \<noteq> T_Comment then l\<lparr>lx_last_non_ws := ty\<rparr> else l);
     r \<leftarrow> source_range (of_nat (lx_start l)) (of_nat (lx_pos l));
     Some (\<lparr>token_kind = ty, token_range = r\<rparr>, l)
   }"

text \<open>The loop of \<open>Compiler::parse_file\<close> over the tokens.\<close>

partial_function (option) lex_loop :: "unicode \<Rightarrow> lexer \<Rightarrow> token list option" where
  "lex_loop u l =
     Option.bind (lexer_next u l) (\<lambda>(t, l).
       if token_kind t = T_Eof then Some [t]
       else Option.bind (lex_loop u l) (\<lambda>ts. Some (t # ts)))"

declare lex_loop.simps [code]

definition lex_tokens :: "unicode \<Rightarrow> string \<Rightarrow> token list option" where
  "lex_tokens u source = lex_loop u (new_lexer source True)"

end
