(* ===== verification/LexerSafe.thy ===== *)
theory LexerSafe
  imports Lexer "HOL-Library.Sublist"
begin

text \<open>
  Every operation of the lexer succeeds on valid text and moves forward. The premise on the
  end of the text excludes the operators that read the code point behind them without a test
  for the end of the file.
\<close>

subsection \<open>Moving forward\<close>

text \<open>From one range to a later one of the same text; \<open>consumes\<close> takes at least one code point.\<close>

definition moves :: "unicode \<Rightarrow> code_range \<Rightarrow> code_range \<Rightarrow> bool" where
  "moves u r r' \<longleftrightarrow> range_bytes r' = range_bytes r \<and> range_pos r \<le> range_pos r' \<and>
     (\<exists>cs cs'. ahead_points u r = Some cs \<and> ahead_points u r' = Some cs' \<and> suffix cs' cs)"

definition consumes :: "unicode \<Rightarrow> code_range \<Rightarrow> code_range \<Rightarrow> bool" where
  "consumes u r r' \<longleftrightarrow> moves u r r' \<and> range_pos r < range_pos r' \<and>
     length (the (ahead_points u r')) < length (the (ahead_points u r))"

lemma moves_refl: "ahead_points u r = Some cs \<Longrightarrow> moves u r r"
  by (auto simp: moves_def)

lemma moves_trans: "moves u r r' \<Longrightarrow> moves u r' r'' \<Longrightarrow> moves u r r''"
  by (auto simp: moves_def intro: suffix_order.trans)

lemma consumes_moves: "consumes u r r' \<Longrightarrow> moves u r r'"
  by (simp add: consumes_def)

lemma consumes_moves_trans: "consumes u r r' \<Longrightarrow> moves u r' r'' \<Longrightarrow> consumes u r r''"
  unfolding consumes_def using moves_trans by (fastforce simp: moves_def dest: suffix_length_le)

lemma moves_consumes_trans: "moves u r r' \<Longrightarrow> consumes u r' r'' \<Longrightarrow> consumes u r r''"
  unfolding consumes_def using moves_trans by (fastforce simp: moves_def dest: suffix_length_le)

lemma moves_points:
  assumes "moves u r r'" "ahead_points u r = Some cs"
  obtains cs' where "ahead_points u r' = Some cs'" "suffix cs' cs"
  using assms by (auto simp: moves_def)

lemma advance_consumes:
  assumes "decodes_forward u" "ahead_points u r = Some (c # cs)"
  obtains r' where "range_advance u r = Some r'" "ahead_points u r' = Some cs" "consumes u r r'"
proof -
  obtain r' where r': "range_advance u r = Some r'" "range_bytes r' = range_bytes r"
      "range_pos r < range_pos r'" "ahead_points u r' = Some cs"
    using range_advance_Cons [OF assms] by blast
  then have "consumes u r r'"
    using assms(2) by (auto simp: consumes_def moves_def suffix_ConsI)
  then show ?thesis
    using that r' by blast
qed

lemma accept_while_moves:
  assumes "decodes_forward u"
  shows "ahead_points u r = Some cs \<Longrightarrow>
    \<exists>r'. accept_while_loop u p r = Some r' \<and> moves u r r' \<and>
      (cs \<noteq> [] \<longrightarrow> p (hd cs) \<longrightarrow> consumes u r r')"
proof (induction cs arbitrary: r)
  case Nil
  then show ?case
    using at_end_iff [OF Nil] moves_refl [OF Nil] by (subst accept_while_loop.simps) auto
next
  case (Cons c cs)
  obtain r1 where r1: "range_advance u r = Some r1" "ahead_points u r1 = Some cs" "consumes u r r1"
    using advance_consumes [OF assms Cons.prems] by blast
  obtain r2 where r2: "accept_while_loop u p r1 = Some r2" "moves u r1 r2"
    using Cons.IH [OF r1(2)] by blast
  have "accept_while_loop u p r = Some (if p c then r2 else r)"
    using at_end_iff [OF Cons.prems] Cons.prems r1(1) r2(1) by (subst accept_while_loop.simps) auto
  moreover have "consumes u r r2"
    using r1(3) r2(2) by (rule consumes_moves_trans)
  ultimately show ?case
    using consumes_moves moves_refl [OF Cons.prems] by auto
qed

lemma advance_two:
  assumes "decodes_forward u" "ahead_points u r = Some (c # d # cs)"
  obtains r' where "range_advance_by u 2 r = Some r'" "ahead_points u r' = Some cs" "consumes u r r'"
proof -
  obtain r1 where r1: "range_advance u r = Some r1" "ahead_points u r1 = Some (d # cs)" "consumes u r r1"
    using advance_consumes [OF assms] by blast
  obtain r2 where r2: "range_advance u r1 = Some r2" "ahead_points u r2 = Some cs" "consumes u r1 r2"
    using advance_consumes [OF assms(1) r1(2)] by blast
  show ?thesis
    using that [of r2] r1 r2 consumes_moves_trans [OF r1(3) consumes_moves [OF r2(3)]]
    by (simp add: eval_nat_numeral)
qed

lemma string_content_moves:
  assumes "decodes_forward u"
  shows "ahead_points u r = Some cs \<Longrightarrow>
    \<exists>r' cs'. string_content_loop u delim r = Some r' \<and> moves u r r' \<and>
      ahead_points u r' = Some cs' \<and> (cs' \<noteq> [] \<longrightarrow> hd cs' \<in> {delim, cp (CHR ''$'')}) \<and>
      (cs \<noteq> [] \<longrightarrow> hd cs \<notin> {delim, cp (CHR ''$'')} \<longrightarrow> consumes u r r')"
proof (induction cs arbitrary: r rule: length_induct)
  case (1 cs)
  show ?case
  proof (cases cs)
    case Nil
    then show ?thesis
      using at_end_iff [OF 1(2)] moves_refl [OF 1(2)] 1(2)
      by (subst string_content_loop.simps) auto
  next
    case (Cons c cs1)
    obtain r1 where r1: "range_advance u r = Some r1" "ahead_points u r1 = Some cs1" "consumes u r r1"
      using advance_consumes [OF assms] 1(2) Cons by blast
    have get: "range_get u r = Some c" "\<not> at_end r"
      using 1(2) Cons at_end_iff [OF 1(2)] by auto
    note IH = 1(1) [rule_format]
    have later: "\<exists>r' cs'. string_content_loop u delim s = Some r' \<and> consumes u r r' \<and>
        ahead_points u r' = Some cs' \<and> (cs' \<noteq> [] \<longrightarrow> hd cs' \<in> {delim, cp (CHR ''$'')})"
      if "consumes u r s" "ahead_points u s = Some cs2" "length cs2 < length cs" for s cs2
      using IH [OF that(3,2)] consumes_moves_trans [OF that(1)] by blast
    consider "c \<in> {delim, cp (CHR ''$'')}" | "c \<notin> {delim, cp (CHR ''$'')}" "c = cp (CHR 0x5C)"
      | "c \<notin> {delim, cp (CHR ''$'')}" "c \<noteq> cp (CHR 0x5C)"
      by blast
    then show ?thesis
    proof cases
      case 1
      then show ?thesis
        using get moves_refl [OF \<open>ahead_points u r = Some cs\<close>] \<open>ahead_points u r = Some cs\<close> Cons
        by (subst string_content_loop.simps) auto
    next
      case 3
      then have "string_content_loop u delim r = string_content_loop u delim r1"
        using get r1(1) by (subst string_content_loop.simps) auto
      then show ?thesis
        using later [OF r1(3,2)] Cons consumes_moves by fastforce
    next
      case 2
      show ?thesis
      proof (cases cs1)
        case Nil
        then have "string_content_loop u delim r = Some r1"
          using 2 get r1 at_end_iff [OF r1(2)] by (subst string_content_loop.simps) auto
        then show ?thesis
          using r1 Nil consumes_moves by auto
      next
        case (Cons d cs2)
        obtain r2 where r2: "range_advance u r1 = Some r2" "ahead_points u r2 = Some cs2"
            "consumes u r1 r2"
          using advance_consumes [OF assms] r1(2) Cons by blast
        have "string_content_loop u delim r = string_content_loop u delim r2"
          using 2 get r1 r2 Cons at_end_iff [OF r1(2)] by (subst string_content_loop.simps) auto
        then show ?thesis
          using later [OF consumes_moves_trans [OF r1(3) consumes_moves [OF r2(3)]] r2(2)]
            Cons \<open>cs = c # cs1\<close> consumes_moves by fastforce
      qed
    qed
  qed
qed

lemma block_comment_moves:
  assumes "decodes_forward u"
  shows "ahead_points u r = Some cs \<Longrightarrow>
    0 < depth \<or> take 2 cs = [cp (CHR ''/''), cp (CHR ''*'')] \<Longrightarrow>
    \<exists>r'. block_comment_loop u depth r = Some r' \<and> moves u r r' \<and>
      (cs \<noteq> [] \<longrightarrow> consumes u r r')"
proof (induction cs arbitrary: r depth rule: length_induct)
  case (1 cs)
  show ?case
  proof (cases cs)
    case Nil
    then show ?thesis
      using at_end_iff [OF 1(2)] moves_refl [OF 1(2)] by (subst block_comment_loop.simps) auto
  next
    case (Cons c cs1)
    have get: "range_get u r = Some c" "\<not> at_end r"
      using 1(2) Cons at_end_iff [OF 1(2)] by auto
    have peek: "range_peek u 1 r = Some (if cs1 = [] then None else Some (hd cs1))"
      unfolding range_peek_points [OF assms 1(2), of 1] using Cons by (simp add: hd_conv_nth)
    note IH = 1(1) [rule_format]
    have later: "\<exists>r'. block_comment_loop u k s = Some r' \<and> consumes u r r'"
      if "consumes u r s" "ahead_points u s = Some cs2" "length cs2 < length cs" "0 < k" for s cs2 k
      using IH [OF that(3,2)] that(4) consumes_moves_trans [OF that(1)] by blast
    obtain r1 where r1: "range_advance u r = Some r1" "ahead_points u r1 = Some cs1" "consumes u r r1"
      using advance_consumes [OF assms] 1(2) Cons by blast
    show ?thesis
    proof (cases "\<exists>cs2. cs1 = cp (CHR ''*'') # cs2 \<and> c = cp (CHR ''/'') \<or>
        cs1 = cp (CHR ''/'') # cs2 \<and> c = cp (CHR ''*'') \<and> 0 < depth")
      case True
      then obtain d cs2 where d: "cs1 = d # cs2"
        by blast
      obtain r2 where r2: "range_advance_by u 2 r = Some r2" "ahead_points u r2 = Some cs2"
          "consumes u r r2"
        using advance_two [OF assms, of r c d cs2] 1(2) Cons d by blast
      have "block_comment_loop u depth r =
          (if c = cp (CHR ''/'') then block_comment_loop u (Suc depth) r2
           else if depth = 1 then Some r2 else block_comment_loop u (depth - 1) r2)"
        using True get peek r2(1) d by (subst block_comment_loop.simps) (auto simp: cp_def)
      moreover have "c \<noteq> cp (CHR ''/'') \<Longrightarrow> 0 < depth"
        using True by auto
      moreover have "\<exists>r'. block_comment_loop u k r2 = Some r' \<and> consumes u r r'" if "0 < k" for k
        using later [OF r2(3,2) _ that] d Cons by simp
      ultimately have "\<exists>r'. block_comment_loop u depth r = Some r' \<and> consumes u r r'"
        using r2(3) by (cases "c = cp (CHR ''/'')"; cases "depth = 1"; force)
      then show ?thesis
        using consumes_moves by blast
    next
      case False
      then have "0 < depth"
        using 1(3) Cons by (cases cs1) auto
      then have "block_comment_loop u depth r = block_comment_loop u depth r1"
        using False get peek r1(1) by (subst block_comment_loop.simps) (cases cs1; auto)
      then have "\<exists>r'. block_comment_loop u depth r = Some r' \<and> consumes u r r'"
        using later [OF r1(3,2) _ \<open>0 < depth\<close>] Cons by simp
      then show ?thesis
        using consumes_moves by blast
    qed
  qed
qed

subsection \<open>The operations of the lexer\<close>

text \<open>\<open>goes\<close> and \<open>takes\<close> change nothing but the input.\<close>

definition points :: "unicode \<Rightarrow> lexer \<Rightarrow> code_point list option" where
  "points u l = ahead_points u (lx_input l)"

definition goes :: "unicode \<Rightarrow> lexer \<Rightarrow> lexer \<Rightarrow> bool" where
  "goes u l l' \<longleftrightarrow> l' = l\<lparr>lx_input := lx_input l'\<rparr> \<and> moves u (lx_input l) (lx_input l')"

definition takes :: "unicode \<Rightarrow> lexer \<Rightarrow> lexer \<Rightarrow> bool" where
  "takes u l l' \<longleftrightarrow> l' = l\<lparr>lx_input := lx_input l'\<rparr> \<and> consumes u (lx_input l) (lx_input l')"

lemma goes_input: "moves u (lx_input l) r \<Longrightarrow> goes u l (l\<lparr>lx_input := r\<rparr>)"
  by (simp add: goes_def)

lemma takes_input: "consumes u (lx_input l) r \<Longrightarrow> takes u l (l\<lparr>lx_input := r\<rparr>)"
  by (simp add: takes_def)

lemma goes_refl: "points u l = Some cs \<Longrightarrow> goes u l l"
  by (simp add: goes_def points_def moves_refl)

lemma takes_goes: "takes u l l' \<Longrightarrow> goes u l l'"
  by (simp add: takes_def goes_def consumes_moves)

lemma input_update_trans:
  "l' = l\<lparr>lx_input := lx_input l'\<rparr> \<Longrightarrow> l'' = l'\<lparr>lx_input := lx_input l''\<rparr> \<Longrightarrow>
    l'' = l\<lparr>lx_input := lx_input l''\<rparr>"
  by (cases l; cases l'; cases l'') simp

lemma goes_trans [trans]: "goes u l l' \<Longrightarrow> goes u l' l'' \<Longrightarrow> goes u l l''"
  unfolding goes_def using input_update_trans moves_trans by blast

lemma takes_goes_trans [trans]: "takes u l l' \<Longrightarrow> goes u l' l'' \<Longrightarrow> takes u l l''"
  unfolding goes_def takes_def using input_update_trans consumes_moves_trans by blast

lemma goes_takes_trans [trans]: "goes u l l' \<Longrightarrow> takes u l' l'' \<Longrightarrow> takes u l l''"
  unfolding goes_def takes_def using input_update_trans moves_consumes_trans by blast

lemma goes_points:
  assumes "goes u l l'" "points u l = Some cs"
  obtains cs' where "points u l' = Some cs'" "suffix cs' cs"
  using assms by (auto simp: goes_def points_def elim: moves_points)

lemma goes_fields:
  assumes "goes u l l'"
  shows "lx_start l' = lx_start l" "lx_state l' = lx_state l" "lx_states l' = lx_states l"
    "lx_ignore_comments l' = lx_ignore_comments l" "lx_last_non_ws l' = lx_last_non_ws l"
    "lx_pos l \<le> lx_pos l'"
  using assms by (auto simp: goes_def moves_def intro: arg_cong) (metis lexer.select_convs lexer.surjective lexer.update_convs(1))+

lemma points_eof: "points u l = Some cs \<Longrightarrow> lx_eof l \<longleftrightarrow> cs = []"
  unfolding points_def by (rule at_end_iff)

lemma points_current: "points u l = Some (c # cs) \<Longrightarrow> lx_current u l = Some c"
  by (simp add: points_def)

lemma points_current_Nil: "points u l = Some [] \<Longrightarrow> lx_current u l = None"
  using at_end_iff [of u "lx_input l" "[]"] by (simp add: points_def range_get_def)

lemma lx_advance_ok:
  assumes "decodes_forward u" "points u l = Some (c # cs)"
  obtains l' where "lx_advance u l = Some l'" "points u l' = Some cs" "takes u l l'"
proof -
  obtain r where "range_advance u (lx_input l) = Some r" "ahead_points u r = Some cs"
      "consumes u (lx_input l) r"
    using advance_consumes [OF assms(1) assms(2) [unfolded points_def]] by blast
  then show ?thesis
    using that [of "l\<lparr>lx_input := r\<rparr>"] by (simp add: lx_advance_def points_def takes_input)
qed

lemma lx_accept_ok:
  assumes "decodes_forward u" "points u l = Some cs"
  shows "lx_accept u c l = Some (False, l) \<and> (cs = [] \<or> hd cs \<noteq> c) \<or>
    (\<exists>l'. lx_accept u c l = Some (True, l') \<and> takes u l l' \<and> cs \<noteq> [] \<and> hd cs = c)"
proof (cases cs)
  case (Cons d cs')
  obtain l' where "lx_advance u l = Some l'" "takes u l l'"
    using lx_advance_ok [OF assms(1)] assms(2) Cons by blast
  then show ?thesis
    using points_eof [OF assms(2)] points_current assms(2) Cons by (auto simp: lx_accept_def)
qed (use points_eof [OF assms(2)] in \<open>simp add: lx_accept_def\<close>)

lemma lx_accept_any_ok:
  assumes "decodes_forward u" "points u l = Some cs"
  shows "\<exists>b l'. lx_accept_any u candidates l = Some (b, l') \<and> goes u l l'"
proof (cases cs)
  case (Cons d cs')
  obtain l' where "lx_advance u l = Some l'" "takes u l l'"
    using lx_advance_ok [OF assms(1)] assms(2) Cons by blast
  then show ?thesis
    using points_eof [OF assms(2)] points_current assms(2) Cons takes_goes goes_refl
    by (auto simp: lx_accept_any_def)
qed (use points_eof [OF assms(2)] goes_refl [OF assms(2)] in \<open>simp add: lx_accept_any_def\<close>)

lemma lx_accept_while_ok:
  assumes "decodes_forward u" "points u l = Some cs"
  obtains l' where "lx_accept_while u p l = Some l'" "goes u l l'"
    "cs \<noteq> [] \<Longrightarrow> p (hd cs) \<Longrightarrow> takes u l l'"
proof -
  obtain r where "accept_while_loop u p (lx_input l) = Some r" "moves u (lx_input l) r"
      "cs \<noteq> [] \<longrightarrow> p (hd cs) \<longrightarrow> consumes u (lx_input l) r"
    using accept_while_moves [OF assms(1) assms(2) [unfolded points_def]] by blast
  then show ?thesis
    using that [of "l\<lparr>lx_input := r\<rparr>"] by (simp add: lx_accept_while_def goes_input takes_input)
qed

lemma lex_identifier_ok:
  assumes "decodes_forward u" "points u l = Some (c # cs)" "is_identifier_start u c"
    "lx_start l \<le> lx_pos l"
  obtains ty l' where "lex_identifier u l = Some (ty, l')" "takes u l l'" "ty \<noteq> T_Eof"
proof -
  obtain l1 where l1: "lx_advance u l = Some l1" "points u l1 = Some cs" "takes u l l1"
    using lx_advance_ok [OF assms(1,2)] by blast
  obtain l2 where l2: "lx_accept_while u (is_identifier_continue u) l1 = Some l2" "goes u l1 l2"
    using lx_accept_while_ok [OF assms(1) l1(2)] by blast
  have l: "takes u l l2"
    using l1(3) l2(2) by (rule takes_goes_trans)
  note fields = goes_fields [OF takes_goes [OF l]]
  obtain cs' where "points u l2 = Some cs'"
    using goes_points [OF l2(2) l1(2)] by blast
  then have "lx_pos l2 \<le> length (range_bytes (lx_input l2))"
    by (auto simp: points_def ahead_points_def split: if_splits)
  then obtain w where w: "lx_value l2 = Some w"
    using assms(4) fields by (auto simp: lx_value_def)
  have "map_of KEYWORDS w \<noteq> Some T_Eof"
    by (auto simp: KEYWORDS_def dest: map_of_SomeD)
  then have "(case map_of KEYWORDS w of Some k \<Rightarrow> k | None \<Rightarrow> T_Identifier) \<noteq> T_Eof"
    by (auto split: option.splits)
  then show ?thesis
    using that [OF _ l] l1 l2 w assms(3) points_current [OF assms(2)]
    by (simp add: lex_identifier_def)
qed

lemma lex_symbol_ok:
  assumes "decodes_forward u" "points u l = Some (cp (CHR ''#'') # cs)"
  obtains l' where "lex_symbol u l = Some (T_Symbol, l')" "takes u l l'"
proof -
  obtain l1 where l1: "lx_advance u l = Some l1" "points u l1 = Some cs" "takes u l l1"
    using lx_advance_ok [OF assms] by blast
  obtain l2 where l2: "lx_accept_while u (is_identifier_continue u) l1 = Some l2" "goes u l1 l2"
    using lx_accept_while_ok [OF assms(1) l1(2)] by blast
  show ?thesis
    using that [of l2] l1 l2 takes_goes_trans points_current [OF assms(2)]
    by (simp add: lex_symbol_def)
qed

lemma lex_tuple_field_ok:
  assumes "decodes_forward u" "points u l = Some (c # cs)" "is_decimal_digit c"
  obtains l' where "lex_tuple_field u l = Some (T_TupleField, l')" "takes u l l'"
  using lx_accept_while_ok [OF assms(1,2), of is_decimal_digit] assms(3) points_current [OF assms(2)]
  by (force simp: lex_tuple_field_def)

lemma is_digit_char_decimal: "is_decimal_digit c \<Longrightarrow> is_digit_char 10 c"
  by (simp add: is_decimal_digit_def is_digit_char_def to_digit_def)

lemma lex_number_ok:
  assumes "decodes_forward u" "points u l = Some (c # cs)" "is_decimal_digit c"
  obtains ty l' where "lex_number u l = Some (ty, l')" "takes u l l'" "ty \<in> {T_Integer, T_Float}"
proof -
  obtain zero l1 where l1: "lx_accept u (cp (CHR ''0'')) l = Some (zero, l1)" "goes u l l1"
      "zero \<Longrightarrow> takes u l l1" "\<not> zero \<Longrightarrow> l1 = l"
    using lx_accept_ok [OF assms(1,2), of "cp (CHR ''0'')"] goes_refl [OF assms(2)] takes_goes by blast
  obtain cs1 where cs1: "points u l1 = Some cs1"
    using goes_points [OF l1(2) assms(2)] by blast
  obtain prefix l2 where l2: "(if zero then lx_accept_any u [cp (CHR ''b''), cp (CHR ''o''), cp (CHR ''x'')] l1
        else Some (None, l1)) = Some (prefix, l2)" "goes u l1 l2" "\<not> zero \<Longrightarrow> prefix = None \<and> l2 = l1"
    using lx_accept_any_ok [OF assms(1) cs1, of "[cp (CHR ''b''), cp (CHR ''o''), cp (CHR ''x'')]"]
      goes_refl [OF cs1] by (cases zero) auto
  obtain cs2 where cs2: "points u l2 = Some cs2"
    using goes_points [OF l2(2) cs1] by blast
  obtain base where base: "base = (if prefix = Some (cp (CHR ''x'')) then 16 else 10 :: nat)"
    by blast
  obtain l3 where l3: "lx_accept_while u (is_digit_char base) l2 = Some l3" "goes u l2 l3"
      "cs2 \<noteq> [] \<Longrightarrow> is_digit_char base (hd cs2) \<Longrightarrow> takes u l2 l3"
    using lx_accept_while_ok [OF assms(1) cs2, of "is_digit_char base"] by blast
  have takes3: "takes u l l3"
  proof (cases zero)
    case True
    then show ?thesis
      using l1(3) goes_trans [OF l2(2) l3(2)] takes_goes_trans by blast
  next
    case False
    then have "l2 = l" "base = 10"
      using l1(4) l2(3) base by auto
    moreover have "cs2 = c # cs"
      using cs2 assms(2) \<open>l2 = l\<close> by simp
    ultimately show ?thesis
      using l3(3) is_digit_char_decimal [OF assms(3)] by simp
  qed
  obtain cs3 where cs3: "points u l3 = Some cs3"
    using goes_points [OF l3(2) cs2] by blast
  obtain dot l4 where l4: "lx_accept u (cp (CHR ''.'')) l3 = Some (dot, l4)" "goes u l3 l4"
    using lx_accept_ok [OF assms(1) cs3, of "cp (CHR ''.'')"] goes_refl [OF cs3] takes_goes by blast
  obtain cs4 where cs4: "points u l4 = Some cs4"
    using goes_points [OF l4(2) cs3] by blast
  obtain l5 where l5: "lx_accept_while u (is_digit_char base) l4 = Some l5" "goes u l4 l5"
    using lx_accept_while_ok [OF assms(1) cs4] by blast
  have "lex_number u l = (if dot then Some (T_Float, l5) else Some (T_Integer, l4))"
    using assms(3) points_current [OF assms(2)] l1(1) l2(1) l3(1) l4(1) l5(1)
    by (simp add: lex_number_def Let_def flip: base)
  then show ?thesis
    using that takes_goes_trans [OF takes3 l4(2)] takes_goes_trans [OF takes3 goes_trans [OF l4(2) l5(2)]]
    by (cases dot) auto
qed

text \<open>
  The end of a text, behind which no operator reads on. The lexer reads the code point behind some
  operators without a test for the end, which fails an assertion; the lemmas that follow show that
  this is its only failure, and that the text does not end well then.
\<close>

definition ends_well :: "code_point list \<Rightarrow> bool" where
  "ends_well cs \<longleftrightarrow> (cs \<noteq> [] \<longrightarrow> last cs \<notin> fst ` set switch_operators)"

lemma ends_well_suffix: "ends_well cs \<Longrightarrow> suffix cs' cs \<Longrightarrow> ends_well cs'"
  by (cases "cs' = []") (simp_all add: ends_well_def suffix_def, force)

lemma operator_tables:
  "map_of single_operators c = Some op \<Longrightarrow> op \<noteq> T_Eof"
  "map_of accept_operators c = Some (second, long, short) \<Longrightarrow> long \<noteq> T_Eof \<and> short \<noteq> T_Eof"
  "map_of switch_operators c = Some (continuations, short) \<Longrightarrow>
    short \<noteq> T_Eof \<and> T_Eof \<notin> snd ` set continuations \<and> c \<in> fst ` set switch_operators"
  by (drule map_of_SomeD, force simp: single_operators_def accept_operators_def switch_operators_def)+

lemma lex_operator_ok:
  assumes "decodes_forward u" "points u l = Some (c # cs)"
  shows "(lex_operator u l = None \<and> \<not> ends_well (c # cs)) \<or> lex_operator u l = Some (None, l) \<or>
    (\<exists>op l'. lex_operator u l = Some (Some op, l') \<and> takes u l l' \<and> op \<noteq> T_Eof)"
proof -
  obtain l1 where l1: "lx_advance u l = Some l1" "points u l1 = Some cs" "takes u l l1"
    using lx_advance_ok [OF assms(1,2)] by blast
  have accept: "\<exists>b l'. lx_accept u d k = Some (b, l') \<and> takes u l l'"
    if "takes u l k" "points u k = Some ds" for d k ds
    using lx_accept_ok [OF assms(1) that(2), of d] that(1) takes_goes takes_goes_trans by blast
  note current = points_current [OF assms(2)]
  show ?thesis
  proof (cases "map_of single_operators c")
    case single: None
    show ?thesis
    proof (cases "map_of accept_operators c")
      case accepts: None
      show ?thesis
      proof (cases "map_of switch_operators c")
        case None
        then show ?thesis
          using single accepts current by (simp add: lex_operator_def)
      next
        case (Some entry)
        obtain continuations short where entry: "entry = (continuations, short)"
          by force
        note table = operator_tables(3) [OF Some [unfolded entry]]
        show ?thesis
        proof (cases cs)
          case Nil
          then have "lx_current u l1 = None"
            using l1(2) points_current_Nil by simp
          then have "lex_operator u l = None"
            using single accepts Some entry current l1(1) by (simp add: lex_operator_def)
          then show ?thesis
            using Nil table by (auto simp: ends_well_def)
        next
        case cs: (Cons d ds)
        obtain l2 where l2: "lx_advance u l1 = Some l2" "points u l2 = Some ds" "takes u l1 l2"
          using lx_advance_ok [OF assms(1)] l1(2) cs by blast
        have takes2: "takes u l l2"
          using l1(3) takes_goes [OF l2(3)] by (rule takes_goes_trans)
        have next_current: "lx_current u l1 = Some d"
          using l1(2) cs points_current by simp
        show ?thesis
        proof (cases "map_of continuations d")
          case None
          then show ?thesis
            using single accepts Some entry current next_current l1 table
            by (simp add: lex_operator_def)
        next
          case (Some op)
          then have "op \<noteq> T_Eof"
            using table by (force dest: map_of_SomeD)
          obtain b l3 where l3: "lx_accept u (cp (CHR ''='')) l2 = Some (b, l3)" "takes u l l3"
            using accept [OF takes2 l2(2)] by blast
          have "lex_operator u l = (if op = T_StarStar
              then Some (Some (if b then T_StarStarEquals else T_StarStar), l3) else Some (Some op, l2))"
            using single accepts \<open>map_of switch_operators c = Some entry\<close> entry Some current
              next_current l1(1) l2(1) l3(1)
            by (simp add: lex_operator_def)
          then show ?thesis
            using \<open>op \<noteq> T_Eof\<close> takes2 l3(2) by auto
        qed
        qed
      qed
    next
      case (Some entry)
      obtain second long short where entry: "entry = (second, long, short)"
        using prod_cases3 by blast
      obtain b l2 where l2: "lx_accept u second l1 = Some (b, l2)" "takes u l l2"
        using accept [OF l1(3,2)] by blast
      have "lex_operator u l = Some (Some (if b then long else short), l2)"
        using single Some entry current l1(1) l2(1) by (simp add: lex_operator_def)
      then show ?thesis
        using l2(2) operator_tables(2) [of c second long short] Some entry by auto
    qed
  next
    case (Some op)
    then show ?thesis
      using current l1 operator_tables(1) by (auto simp: lex_operator_def)
  qed
qed

subsection \<open>Tokens\<close>

text \<open>A token that is not the end of the file takes at least one code point.\<close>

definition lexed :: "unicode \<Rightarrow> lexer \<Rightarrow> token_type \<Rightarrow> lexer \<Rightarrow> bool" where
  "lexed u l ty l' \<longleftrightarrow> consumes u (lx_input l) (lx_input l') \<and> lx_start l' = lx_start l \<and>
     lx_ignore_comments l' = lx_ignore_comments l \<and> ty \<noteq> T_Eof"

lemma takes_lexed: "takes u l l' \<Longrightarrow> ty \<noteq> T_Eof \<Longrightarrow> lexed u l ty l'"
  using goes_fields [OF takes_goes, of u l l'] by (simp add: lexed_def takes_def)

lemma lexed_update [simp]:
  "lexed u l ty (l'\<lparr>lx_state := st\<rparr>) = lexed u l ty l'"
  "lexed u l ty (l'\<lparr>lx_states := sts\<rparr>) = lexed u l ty l'"
  "lexed u (l\<lparr>lx_state := st\<rparr>) ty l' = lexed u l ty l'"
  "lexed u l ty (push_state l') = lexed u l ty l'"
  "lexed u l ty (needs_identifier b l') = lexed u l ty l'"
  "lexed u (needs_identifier b l) ty l' = lexed u l ty l'"
  "lexed u l ty (set_open_braces n l') = lexed u l ty l'"
  by (simp_all add: lexed_def push_state_def needs_identifier_def set_open_braces_def)

lemma lexed_pop_state [simp]: "lexed u l ty (snd (pop_state l')) = lexed u l ty l'"
  by (auto simp: lexed_def pop_state_def split: list.splits)

lemma pop_state_fields:
  "pop_state l = (b, l') \<Longrightarrow> lx_input l' = lx_input l \<and> lx_start l' = lx_start l \<and>
    lx_ignore_comments l' = lx_ignore_comments l"
  by (auto simp: pop_state_def split: list.splits)

lemma lexed_count_braces:
  assumes "lexed u l op l'" "count_braces op l' = (ty, l'')"
  shows "lexed u l ty l''"
  using assms by (auto simp: count_braces_def lexed_def set_open_braces_def
      split: prod.splits if_splits dest!: pop_state_fields)

lemma points_update [simp]:
  "points u (l\<lparr>lx_state := st\<rparr>) = points u l" "points u (l\<lparr>lx_start := n\<rparr>) = points u l"
  "points u (needs_identifier b l) = points u l" "points u (l\<lparr>lx_last_non_ws := ty\<rparr>) = points u l"
  by (simp_all add: points_def needs_identifier_def)

lemma lex_token_ok:
  assumes "decodes_forward u" "points u l = Some (c # cs)" "lx_start l = lx_pos l"
  shows "(lex_token u c l = None \<and> \<not> ends_well (c # cs)) \<or>
    (\<exists>ty l'. lex_token u c l = Some (ty, l') \<and> lexed u l ty l')"
proof -
  obtain l1 where l1: "lx_advance u l = Some l1" "takes u l l1"
    using lx_advance_ok [OF assms(1,2)] by blast
  consider "c = cp (CHR 0x27) \<or> c = cp (CHR 0x22)"
    | "\<not> (c = cp (CHR 0x27) \<or> c = cp (CHR 0x22))" "is_decimal_digit c"
    | "\<not> (c = cp (CHR 0x27) \<or> c = cp (CHR 0x22))" "\<not> is_decimal_digit c" "c = cp (CHR ''#'')"
    | "\<not> (c = cp (CHR 0x27) \<or> c = cp (CHR 0x22))" "\<not> is_decimal_digit c" "c \<noteq> cp (CHR ''#'')"
      "is_identifier_start u c"
    | "\<not> (c = cp (CHR 0x27) \<or> c = cp (CHR 0x22))" "\<not> is_decimal_digit c" "c \<noteq> cp (CHR ''#'')"
      "\<not> is_identifier_start u c"
    by blast
  then show ?thesis
  proof cases
    case 1
    then show ?thesis
      using l1 takes_lexed by (simp add: lex_token_def)
  next
    case 2
    obtain l2 where "lex_tuple_field u l = Some (T_TupleField, l2)" "takes u l l2"
      using lex_tuple_field_ok [OF assms(1,2) 2(2)] by blast
    moreover obtain ty l3 where "lex_number u l = Some (ty, l3)" "takes u l l3" "ty \<noteq> T_Eof"
      using lex_number_ok [OF assms(1,2) 2(2)] by (metis insert_iff singletonD token_type.distinct(1) token_type.simps)
    ultimately show ?thesis
      using 2 takes_lexed by (simp add: lex_token_def)
  next
    case 3
    then show ?thesis
      using lex_symbol_ok [OF assms(1)] assms(2) takes_lexed
      by (simp add: lex_token_def) (metis token_type.distinct(1) token_type.simps)
  next
    case 4
    then show ?thesis
      using lex_identifier_ok [OF assms(1,2) 4(4)] assms(3) takes_lexed
      by (simp add: lex_token_def) (metis order_refl)
  next
    case 5
    then show ?thesis
      using lex_operator_ok [OF assms(1,2)]
    proof (elim disjE exE conjE)
      assume "lex_operator u l = None" "\<not> ends_well (c # cs)"
      then show ?thesis
        using 5 by (simp add: lex_token_def)
    next
      assume "lex_operator u l = Some (None, l)"
      then show ?thesis
        using 5 l1 takes_lexed by (simp add: lex_token_def)
    next
      fix op l'
      assume op: "lex_operator u l = Some (Some op, l')" "takes u l l'" "op \<noteq> T_Eof"
      obtain ty l'' where braces: "count_braces op l' = (ty, l'')"
        by force
      then have "lexed u l ty l''"
        using lexed_count_braces [OF takes_lexed [OF op(2,3)]] by blast
      then show ?thesis
        using 5 op(1) braces by (simp add: lex_token_def)
    qed
  qed
qed

lemma lex_string_rest_ok:
  assumes "decodes_forward u" "points u l = Some (c # cs)" "c \<noteq> st_delim (lx_state l)"
    "st_type (lx_state l) = String_state"
  shows "\<exists>ty l'. lex_string_rest u l = Some (ty, l') \<and> lexed u l ty l'"
proof (cases "c = cp (CHR ''$'')")
  case True
  then obtain l1 where l1: "lx_accept u (cp (CHR ''$'')) l = Some (True, l1)" "takes u l l1"
    using lx_accept_ok [OF assms(1,2), of "cp (CHR ''$'')"] by auto
  obtain cs1 where cs1: "points u l1 = Some cs1"
    using goes_points [OF takes_goes [OF l1(2)] assms(2)] by blast
  obtain b l2 where l2: "lx_accept u (cp (CHR 0x7B)) l1 = Some (b, l2)" "goes u l1 l2"
    using lx_accept_ok [OF assms(1) cs1, of "cp (CHR 0x7B)"] takes_goes goes_refl [OF cs1] by blast
  show ?thesis
    using l1 l2 takes_goes_trans [OF l1(2) l2(2)] takes_lexed
    by (cases b) (simp_all add: lex_string_rest_def)
next
  case False
  have accept: "lx_accept u (cp (CHR ''$'')) l = Some (False, l)"
    using lx_accept_ok [OF assms(1,2), of "cp (CHR ''$'')"] False by auto
  obtain r cs' where r: "string_content_loop u (st_delim (lx_state l)) (lx_input l) = Some r"
      "ahead_points u r = Some cs'" "cs' \<noteq> [] \<longrightarrow> hd cs' \<in> {st_delim (lx_state l), cp (CHR ''$'')}"
      "consumes u (lx_input l) r"
    using string_content_moves [OF assms(1) assms(2) [unfolded points_def], of "st_delim (lx_state l)"]
      assms(3) False by auto
  have "lexed u l T_StringContent (l\<lparr>lx_input := r\<rparr>)"
    using takes_lexed [OF takes_input [OF r(4)]] by simp
  moreover have "at_end r \<or> (\<exists>d. range_get u r = Some d \<and> (d = st_delim (lx_state l) \<or> d = cp (CHR ''$'')))"
    using r(2,3) at_end_iff [OF r(2)] by (cases cs') auto
  ultimately show ?thesis
    using accept r(1) assms(4) by (auto simp: lex_string_rest_def lex_string_content_def)
qed

lemma lex_string_ok:
  assumes "decodes_forward u" "points u l = Some cs" "st_type (lx_state l) = String_state"
    "lx_start l = lx_pos l"
  shows "cs = [] \<and> lex_string u l = Some (T_Eof, l) \<or>
    (\<exists>ty l'. lex_string u l = Some (ty, l') \<and> lexed u l ty l')"
proof (cases cs)
  case Nil
  then show ?thesis
    using points_eof [OF assms(2)] assms(3) by (simp add: lex_string_def)
next
  case (Cons c cs1)
  note pts = assms(2) [unfolded Cons]
  have eof: "\<not> lx_eof l"
    using points_eof [OF pts] by simp
  from lx_accept_ok [OF assms(1) pts, of "st_delim (lx_state l)"] show ?thesis
  proof (elim disjE exE conjE)
    fix l'
    assume "lx_accept u (st_delim (lx_state l)) l = Some (True, l')" "takes u l l'"
    then show ?thesis
      using eof assms(3) takes_lexed [of u l l' T_StringEnd] by (simp add: lex_string_def)
  next
    assume no: "lx_accept u (st_delim (lx_state l)) l = Some (False, l)"
      and "hd (c # cs1) \<noteq> st_delim (lx_state l)"
    then have rest: "\<exists>ty l'. lex_string_rest u (needs_identifier b l) = Some (ty, l') \<and> lexed u l ty l'" for b
      using lex_string_rest_ok [OF assms(1), of "needs_identifier b l" c cs1] pts assms(3)
      by (simp add: needs_identifier_def)
    have same: "needs_identifier (st_needs_identifier (lx_state l)) l = l"
      by (simp add: needs_identifier_def)
    show ?thesis
    proof (cases "st_needs_identifier (lx_state l) \<and> is_identifier_start u c")
      case True
      obtain ty l' where "lex_identifier u l = Some (ty, l')" "takes u l l'" "ty \<noteq> T_Eof"
        using lex_identifier_ok [OF assms(1) pts] True assms(4) by (metis order_refl)
      then show ?thesis
        using True no eof assms(3) points_current [OF pts] takes_lexed by (simp add: lex_string_def)
    next
      case False
      then show ?thesis
        using rest [of False] rest [of "st_needs_identifier (lx_state l)"] same no eof assms(3)
          points_current [OF pts]
        by (cases "st_needs_identifier (lx_state l)") (simp_all add: lex_string_def)
    qed
  qed simp
qed

lemma lex_line_comment_ok:
  assumes "decodes_forward u" "points u l = Some (c # d # cs)"
  obtains l' where "lex_line_comment u l = Some l'" "takes u l l'"
proof -
  obtain r where r: "range_advance_by u 2 (lx_input l) = Some r" "ahead_points u r = Some cs"
      "consumes u (lx_input l) r"
    using advance_two [OF assms(1) assms(2) [unfolded points_def]] by blast
  have l1: "lx_advance_by u 2 l = Some (l\<lparr>lx_input := r\<rparr>)" "takes u l (l\<lparr>lx_input := r\<rparr>)"
    using r takes_input by (simp_all add: lx_advance_by_def)
  have "points u (l\<lparr>lx_input := r\<rparr>) = Some cs"
    using r(2) by (simp add: points_def)
  then obtain l' where "lx_accept_while u (\<lambda>c. c \<noteq> cp (CHR 0x0A)) (l\<lparr>lx_input := r\<rparr>) = Some l'"
      "goes u (l\<lparr>lx_input := r\<rparr>) l'"
    using lx_accept_while_ok [OF assms(1)] by blast
  then show ?thesis
    using that l1 takes_goes_trans by (simp add: lex_line_comment_def)
qed

lemma lex_block_comment_ok:
  assumes "decodes_forward u" "points u l = Some (cp (CHR ''/'') # cp (CHR ''*'') # cs)"
  obtains l' where "lex_block_comment u l = Some l'" "takes u l l'"
proof -
  obtain r where "block_comment_loop u 0 (lx_input l) = Some r" "consumes u (lx_input l) r"
    using block_comment_moves [OF assms(1) assms(2) [unfolded points_def], of 0] by auto
  then show ?thesis
    using that [of "l\<lparr>lx_input := r\<rparr>"] takes_input by (simp add: lex_block_comment_def)
qed

text \<open>What a token leaves behind: its start lies between the old and the new position.\<close>

definition next_ok :: "unicode \<Rightarrow> lexer \<Rightarrow> token_type \<Rightarrow> lexer \<Rightarrow> bool" where
  "next_ok u l ty l' \<longleftrightarrow>
     moves u (lx_input l) (lx_input l') \<and> lx_pos l \<le> lx_start l' \<and>
     lx_ignore_comments l' = lx_ignore_comments l \<and>
     (if ty = T_Eof then points u l' = Some [] \<and> lx_start l' = lx_pos l'
      else consumes u (lx_input l) (lx_input l') \<and> lx_start l' < lx_pos l')"

lemma next_ok_update [simp]:
  "next_ok u (l\<lparr>lx_start := n\<rparr>) ty l' = next_ok u l ty l'"
  "next_ok u l ty (l'\<lparr>lx_last_non_ws := ty'\<rparr>) = next_ok u l ty l'"
  by (auto simp: next_ok_def)

lemma goes_next_ok:
  assumes "goes u l k" "next_ok u k ty l'"
  shows "next_ok u l ty l'"
  using assms goes_fields [OF assms(1)] moves_trans moves_consumes_trans
  unfolding next_ok_def goes_def by (metis order.trans)

lemma lexed_next_ok:
  assumes "goes u l k" "lexed u (k\<lparr>lx_start := lx_pos k\<rparr>) ty l'"
  shows "next_ok u l ty l'"
proof -
  have "next_ok u k ty l'"
    using assms(2) by (auto simp: next_ok_def lexed_def consumes_def)
  then show ?thesis
    by (rule goes_next_ok [OF assms(1)])
qed

lemma lex_normal_ok:
  assumes "decodes_forward u"
  shows "points u l = Some cs \<Longrightarrow> st_type (lx_state l) = Normal_state \<Longrightarrow>
    (lex_normal u l = None \<and> \<not> ends_well cs) \<or> (\<exists>ty l'. lex_normal u l = Some (ty, l') \<and> next_ok u l ty l')"
proof (induction cs arbitrary: l rule: length_induct)
  case (1 cs)
  obtain k where k: "lx_accept_while u is_whitespace l = Some k" "goes u l k"
    using lx_accept_while_ok [OF assms 1(2)] by blast
  obtain cs1 where cs1: "points u k = Some cs1" "suffix cs1 cs"
    using goes_points [OF k(2) 1(2)] by blast
  obtain m where m: "m = k\<lparr>lx_start := lx_pos k\<rparr>"
    by blast
  have pm: "points u m = Some cs1"
    using cs1(1) by (simp add: m)
  have ends: "\<not> ends_well ds \<Longrightarrow> \<not> ends_well cs" if "suffix ds cs1" for ds
    using suffix_order.trans [OF that cs1(2)] ends_well_suffix by blast
  show ?case
  proof (cases cs1)
    case Nil
    then have "lex_normal u l = Some (T_Eof, m)"
      using k(1) 1(3) points_eof [OF pm] by (subst lex_normal.simps) (simp add: m)
    moreover have "next_ok u l T_Eof m"
      using k(2) pm Nil goes_fields [OF k(2)] by (simp add: next_ok_def m goes_def)
    ultimately show ?thesis
      by blast
  next
    case (Cons c cs2)
    note pc = pm [unfolded Cons]
    have peek: "lx_ahead u 1 m = Some (if cs2 = [] then None else Some (hd cs2))"
      unfolding range_peek_points [OF assms pm [unfolded points_def], of 1] using Cons
      by (simp add: hd_conv_nth)
    have step: "lex_normal u l =
        (if c = cp (CHR ''/'') \<and> cs2 \<noteq> [] \<and> hd cs2 = cp (CHR ''/'')
         then Option.bind (lex_line_comment u m) (\<lambda>l.
           if lx_ignore_comments l then lex_normal u l else Some (T_Comment, l))
         else if c = cp (CHR ''/'') \<and> cs2 \<noteq> [] \<and> hd cs2 = cp (CHR ''*'')
         then Option.bind (lex_block_comment u m) (\<lambda>l.
           if lx_ignore_comments l then lex_normal u l else Some (T_Comment, l))
         else lex_token u c m)"
      using k(1) 1(3) points_eof [OF pc] points_current [OF pc] peek
      by (subst lex_normal.simps) (simp add: m Let_def del: range_peek.simps)
    have comment: "((if lx_ignore_comments n then lex_normal u n else Some (T_Comment, n)) = None \<and> \<not> ends_well cs) \<or>
        (\<exists>ty l'. (if lx_ignore_comments n then lex_normal u n else Some (T_Comment, n))
          = Some (ty, l') \<and> next_ok u l ty l')" if n: "takes u m n" for n
    proof (cases "lx_ignore_comments n")
      case False
      then show ?thesis
        using lexed_next_ok [OF k(2)] takes_lexed [OF n, of T_Comment] by (simp add: m)
    next
      case True
      obtain ds where ds: "points u n = Some ds" "suffix ds cs1"
        using goes_points [OF takes_goes [OF n] pm] by blast
      have "length ds < length cs1"
        using n ds(1) pm by (simp add: takes_def consumes_def points_def)
      then have shorter: "length ds < length cs"
        using suffix_length_le [OF cs1(2)] by simp
      have normal: "st_type (lx_state n) = Normal_state"
        using goes_fields(2) [OF takes_goes [OF n]] goes_fields(2) [OF k(2)] 1(3) by (simp add: m)
      from 1(1) [rule_format, OF shorter ds(1) normal] show ?thesis
      proof (elim disjE exE conjE)
        assume "lex_normal u n = None" "\<not> ends_well ds"
        then show ?thesis using True ends [OF ds(2)] by simp
      next
        fix ty l'
        assume run: "lex_normal u n = Some (ty, l')" and "next_ok u n ty l'"
        then have "next_ok u m ty l'"
          using goes_next_ok [OF takes_goes [OF n]] by blast
        then have "next_ok u k ty l'"
          by (simp add: m)
        then show ?thesis
          using True run goes_next_ok [OF k(2)] by auto
      qed
    qed
    consider (line) "c = cp (CHR ''/'')" "cs2 \<noteq> []" "hd cs2 = cp (CHR ''/'')"
      | (block) "c = cp (CHR ''/'')" "cs2 \<noteq> []" "hd cs2 = cp (CHR ''*'')" "hd cs2 \<noteq> cp (CHR ''/'')"
      | (other) "\<not> (c = cp (CHR ''/'') \<and> cs2 \<noteq> [] \<and> hd cs2 = cp (CHR ''/''))"
        "\<not> (c = cp (CHR ''/'') \<and> cs2 \<noteq> [] \<and> hd cs2 = cp (CHR ''*''))"
      by blast
    then show ?thesis
    proof cases
      case line
      obtain n where "lex_line_comment u m = Some n" "takes u m n"
        using lex_line_comment_ok [OF assms, of m c "hd cs2" "tl cs2"] pc line(2) by auto
      then show ?thesis
        using comment step line by simp
    next
      case block
      obtain n where "lex_block_comment u m = Some n" "takes u m n"
        using lex_block_comment_ok [OF assms, of m "tl cs2"] pc block list.collapse [OF block(2)]
        by metis
      then show ?thesis
        using comment step block by simp
    next
      case other
      have "lx_start m = lx_pos m"
        by (simp add: m)
      from lex_token_ok [OF assms pc this] show ?thesis
      proof (elim disjE exE conjE)
        assume "lex_token u c m = None" "\<not> ends_well (c # cs2)"
        then show ?thesis
          using step other ends [of cs1] Cons by auto
      next
        fix ty l'
        assume "lex_token u c m = Some (ty, l')" "lexed u m ty l'"
        then show ?thesis
          using step other lexed_next_ok [OF k(2)] by (simp add: m)
      qed
    qed
  qed
qed

lemma points_bounds:
  "points u l = Some cs \<Longrightarrow> lx_pos l \<le> length (range_bytes (lx_input l))"
  by (auto simp: points_def ahead_points_def split: if_splits)

lemma lexer_next_ok:
  assumes "decodes_forward u" "points u l = Some cs" "length (range_bytes (lx_input l)) < 2 ^ 32"
  shows "(lexer_next u l = None \<and> \<not> ends_well cs) \<or>
    (\<exists>t l'. lexer_next u l = Some (t, l') \<and> next_ok u l (token_kind t) l' \<and>
      unat (range_begin (token_range t)) = lx_start l' \<and> unat (range_end (token_range t)) = lx_pos l')"
proof -
  obtain k where k: "k = l\<lparr>lx_start := lx_pos l\<rparr>"
    by blast
  have pk: "points u k = Some cs"
    using assms(2) by (simp add: k)
  let ?run = "case st_type (lx_state k) of Normal_state \<Rightarrow> lex_normal u k | String_state \<Rightarrow> lex_string u k"
  have "(?run = None \<and> \<not> ends_well cs) \<or> (\<exists>ty l'. ?run = Some (ty, l') \<and> next_ok u l ty l')"
  proof (cases "st_type (lx_state k)")
    case Normal_state
    moreover have "next_ok u k ty l' \<Longrightarrow> next_ok u l ty l'" for ty l'
      by (simp add: k)
    ultimately show ?thesis
      using lex_normal_ok [OF assms(1) pk Normal_state] by auto
  next
    case String_state
    have "lx_start k = lx_pos k"
      by (simp add: k)
    from lex_string_ok [OF assms(1) pk String_state this] show ?thesis
    proof (elim disjE exE conjE)
      assume "cs = []" "lex_string u k = Some (T_Eof, k)"
      then show ?thesis
        using String_state pk assms(2) by (auto simp: next_ok_def k points_def moves_refl)
    next
      fix ty l'
      assume "lex_string u k = Some (ty, l')" "lexed u k ty l'"
      then show ?thesis
        using String_state lexed_next_ok [OF goes_refl [OF assms(2)]] by (auto simp: k)
    qed
  qed
  then show ?thesis
  proof (elim disjE exE conjE)
    assume "?run = None" "\<not> ends_well cs"
    then show ?thesis
      by (simp add: lexer_next_def Let_def flip: k)
  next
  fix ty l'
  assume l': "?run = Some (ty, l')" "next_ok u l ty l'"
  obtain m where m: "m = (if ty \<noteq> T_Comment then l'\<lparr>lx_last_non_ws := ty\<rparr> else l')"
    by blast
  have nm: "next_ok u l ty m"
    using l'(2) by (cases "ty = T_Comment") (simp_all add: m)
  have "lx_start m \<le> lx_pos m"
    using nm by (auto simp: next_ok_def split: if_splits)
  moreover obtain ds where "points u m = Some ds" "range_bytes (lx_input m) = range_bytes (lx_input l)"
    using nm by (auto simp: next_ok_def moves_def points_def)
  ultimately have bounds: "lx_start m < 2 ^ 32" "lx_pos m < 2 ^ 32" "lx_start m \<le> lx_pos m"
    using points_bounds assms(3) by fastforce+
  then have unats: "unat (of_nat (lx_start m) :: u32) = lx_start m" "unat (of_nat (lx_pos m) :: u32) = lx_pos m"
    by (simp_all add: unat_of_nat)
  then have "(of_nat (lx_start m) :: u32) \<le> of_nat (lx_pos m)"
    using bounds(3) by (simp add: word_le_nat_alt)
  then have "lexer_next u l = Some (\<lparr>token_kind = ty, token_range =
      \<lparr>range_begin = of_nat (lx_start m), range_end = of_nat (lx_pos m)\<rparr>\<rparr>, m)"
    using l'(1) by (simp add: lexer_next_def Let_def source_range_def flip: k m)
  then show ?thesis
    using nm unats by auto
  qed
qed

end
