(* ===== verification/ParserEvents.thy ===== *)
theory ParserEvents
  imports Token
begin

text \<open>
  The events of the parser and their consumer (src/compiler/syntax/parser_event.hpp and
  \<open>consume_events\<close> of parser_event.cpp). The parser records the syntax tree as a flat list of
  events; a start event may point forward to the start event of a node that was created
  later but is its parent.

  \<open>consume_events\<close> yields the calls that the consumer receives, in order. \<open>None\<close> stands for a
  failed assertion, an index outside the list, or a walk along forward parents that never
  ends.

  \<open>represents\<close> says which event lists stand for which forests. It is the invariant
  of the parser, and the precondition under which the consumer sees the forest.
\<close>

subsection \<open>Events and calls\<close>

datatype parser_event =
    E_Tombstone
  | E_Start syntax_type nat
  | E_Finish
  | E_Token token
  | E_Error string

datatype consumer_call =
    Start_node syntax_type
  | Token_call token
  | Error_call string
  | Finish_node

text \<open>The inner loop of \<open>visit_start\<close>: collect the types of the parents, clear their events.\<close>

partial_function (option) walk_parents ::
    "parser_event list \<Rightarrow> nat \<Rightarrow> syntax_type list \<Rightarrow> (parser_event list \<times> syntax_type list) option"
  where
  "walk_parents events parent parents =
     (if parent = 0 then Some (events, parents)
      else if length events \<le> parent then None
      else case events ! parent of
             E_Start ty next_parent \<Rightarrow>
               walk_parents (events[parent := E_Tombstone]) next_parent (parents @ [ty])
           | E_Tombstone \<Rightarrow> walk_parents events parent parents
           | _ \<Rightarrow> None)"

definition visit_start ::
    "parser_event list \<Rightarrow> syntax_type \<Rightarrow> nat \<Rightarrow> (parser_event list \<times> consumer_call list) option"
  where
  "visit_start events ty forward_parent =
     (if forward_parent = 0 then Some (events, [Start_node ty])
      else map_option (\<lambda>(events', parents). (events', map Start_node (rev parents)))
             (walk_parents events forward_parent [ty]))"

definition visit_event ::
    "parser_event list \<Rightarrow> parser_event \<Rightarrow> (parser_event list \<times> consumer_call list) option" where
  "visit_event events ev =
     (case ev of
        E_Tombstone \<Rightarrow> Some (events, [])
      | E_Start ty forward_parent \<Rightarrow> visit_start events ty forward_parent
      | E_Token t \<Rightarrow> Some (events, [Token_call t])
      | E_Error msg \<Rightarrow> Some (events, [Error_call msg])
      | E_Finish \<Rightarrow> Some (events, [Finish_node]))"

text \<open>The loop over the events, from index \<open>i\<close>, with \<open>n\<close> events left.\<close>

primrec consume_loop :: "nat \<Rightarrow> nat \<Rightarrow> parser_event list \<Rightarrow> consumer_call list option" where
  "consume_loop 0 i events = Some []"
| "consume_loop (Suc n) i events =
     Option.bind (visit_event events (events ! i)) (\<lambda>(events', calls).
       map_option ((@) calls) (consume_loop n (Suc i) events'))"

definition consume_events :: "parser_event list \<Rightarrow> consumer_call list option" where
  "consume_events events = consume_loop (length events) 0 events"

subsection \<open>Forests and the event lists that stand for them\<close>

datatype item =
    Tok token
  | Err string
  | Node syntax_type "item list"

primrec calls :: "item \<Rightarrow> consumer_call list" where
  "calls (Tok t) = [Token_call t]"
| "calls (Err msg) = [Error_call msg]"
| "calls (Node ty children) = Start_node ty # concat (map calls children) @ [Finish_node]"

abbreviation forest_calls :: "item list \<Rightarrow> consumer_call list" where
  "forest_calls f \<equiv> concat (map calls f)"

primrec leaves :: "item \<Rightarrow> token list" where
  "leaves (Tok t) = [t]"
| "leaves (Err msg) = []"
| "leaves (Node ty children) = concat (map leaves children)"

primrec event_tokens :: "parser_event \<Rightarrow> token list" where
  "event_tokens E_Tombstone = []"
| "event_tokens (E_Start ty fp) = []"
| "event_tokens E_Finish = []"
| "event_tokens (E_Token t) = [t]"
| "event_tokens (E_Error msg) = []"

abbreviation events_tokens :: "parser_event list \<Rightarrow> token list" where
  "events_tokens events \<equiv> concat (map event_tokens events)"

text \<open>
  \<open>represents b es f\<close>: the events \<open>es\<close>, the first of which has index \<open>b\<close>, stand for the forest
  \<open>f\<close>. \<open>links b acc es c n\<close>: they are a completed node followed by the parents that were
  put around it, each start pointing to the next; \<open>c\<close> is the index of the outermost start,
  \<open>n\<close> the outermost node and \<open>acc\<close> what the innermost node already contains.
\<close>

inductive represents :: "nat \<Rightarrow> parser_event list \<Rightarrow> item list \<Rightarrow> bool"
  and links :: "nat \<Rightarrow> item list \<Rightarrow> parser_event list \<Rightarrow> nat \<Rightarrow> item \<Rightarrow> bool" where
  represents_Nil: "represents b [] []"
| represents_Tombstone: "represents (Suc b) es f \<Longrightarrow> represents b (E_Tombstone # es) f"
| represents_Token: "represents (Suc b) es f \<Longrightarrow> represents b (E_Token t # es) (Tok t # f)"
| represents_Error: "represents (Suc b) es f \<Longrightarrow> represents b (E_Error msg # es) (Err msg # f)"
| represents_Node: "links b [] es c n \<Longrightarrow> represents (b + length es) es' f \<Longrightarrow>
    represents b (es @ es') (n # f)"
| links_last: "represents (Suc b) es f \<Longrightarrow>
    links b acc (E_Start ty 0 # es @ [E_Finish]) b (Node ty (acc @ f))"
| links_next: "represents (Suc b) es f \<Longrightarrow> fp = b + length es + 2 \<Longrightarrow>
    links fp [Node ty (acc @ f)] rest c n \<Longrightarrow>
    links b acc (E_Start ty fp # es @ E_Finish # rest) c n"

text \<open>A node under construction: as \<open>links\<close>, the last start still being a tombstone at \<open>m\<close>.\<close>

inductive open_links :: "nat \<Rightarrow> item list \<Rightarrow> parser_event list \<Rightarrow> nat \<Rightarrow> item list \<Rightarrow> bool" where
  open_last: "represents (Suc b) es f \<Longrightarrow> open_links b acc (E_Tombstone # es) b (acc @ f)"
| open_next: "represents (Suc b) es f \<Longrightarrow> fp = b + length es + 2 \<Longrightarrow>
    open_links fp [Node ty (acc @ f)] rest m g \<Longrightarrow>
    open_links b acc (E_Start ty fp # es @ E_Finish # rest) m g"

lemma represents_append:
  "represents b es f \<Longrightarrow> represents (b + length es) es' f' \<Longrightarrow> represents b (es @ es') (f @ f')"
proof (induction es f rule: represents_links.inducts(1) [where ?P2.0 = "\<lambda>_ _ _ _ _. True"])
  case (represents_Node b es c n es'' f)
  then show ?case
    using represents_links.represents_Node [of b es c n "es'' @ es'" "f @ f'"]
    by (simp add: add.assoc)
qed (auto intro: represents_links.intros)

lemma represents_link: "links b [] es c n \<Longrightarrow> represents b es [n]"
  using represents_Node [of b es c n "[]" "[]"] represents_Nil by simp

lemma leaves_of_events:
  "represents b es f \<Longrightarrow> events_tokens es = concat (map leaves f)"
  "links b acc es c n \<Longrightarrow> leaves n = concat (map leaves acc) @ events_tokens es"
  by (induction rule: represents_links.inducts) auto

subsection \<open>Marker operations on event lists\<close>

lemma links_nonempty: "links b acc es c n \<Longrightarrow> es \<noteq> []"
  by (cases rule: links.cases) auto

lemma links_start:
  assumes "links b acc es c n"
  shows "b \<le> c \<and> c < b + length es \<and> (\<exists>ty. es ! (c - b) = E_Start ty 0)"
  using assms
proof (induction rule: represents_links.inducts(2) [where ?P1.0 = "\<lambda>_ _ _. True"])
  case (links_next b es f fp ty acc rest c n)
  from links_next.IH have "c - b = Suc (Suc (length es + (c - fp)))" "fp \<le> c"
    using links_next.hyps by auto
  then show ?case
    using links_next.IH links_next.hyps by (auto simp: nth_append)
qed auto

lemma links_precede:
  assumes "links b acc es c n"
  shows "\<exists>ty. es ! (c - b) = E_Start ty 0 \<and>
    open_links b acc (es[c - b := E_Start ty (b + length es)] @ [E_Tombstone]) (b + length es) [n]"
  using assms
proof (induction rule: represents_links.inducts(2) [where ?P1.0 = "\<lambda>_ _ _. True"])
  case (links_last b es f acc ty)
  have "open_links b acc (E_Start ty (b + length es + 2) # es @ E_Finish # [E_Tombstone])
      (b + length es + 2) [Node ty (acc @ f)]"
    using open_next [OF links_last.hyps(1) refl
        open_last [OF represents_Nil, of "b + length es + 2" "[Node ty (acc @ f)]"]]
    by simp
  then show ?case
    by simp
  next
  case (links_next b es f fp ty acc rest c n)
  from links_start [OF links_next.hyps(4)] have fp: "fp \<le> c"
    by simp
  obtain t where t: "rest ! (c - fp) = E_Start t 0"
    and o: "open_links fp [Node ty (acc @ f)]
      (rest[c - fp := E_Start t (fp + length rest)] @ [E_Tombstone]) (fp + length rest) [n]"
    using links_next.IH by blast
  have i: "c - b = Suc (Suc (length es + (c - fp)))"
    using fp links_next.hyps(3) by simp
  have "open_links b acc (E_Start ty fp # es @ E_Finish #
      (rest[c - fp := E_Start t (fp + length rest)] @ [E_Tombstone])) (fp + length rest) [n]"
    using open_next [OF links_next.hyps(1,3) o] by simp
  then show ?case
    using t links_next.hyps(3) by (simp add: i nth_append list_update_append add.assoc)
qed auto

lemma open_links_start:
  "open_links b acc es m f \<Longrightarrow> b \<le> m \<and> m < b + length es \<and> es ! (m - b) = E_Tombstone"
proof (induction rule: open_links.induct)
  case (open_next b es f fp ty acc rest m g)
  from open_next.IH open_next.hyps(2)
  have "m - b = Suc (Suc (length es + (m - fp)))" "fp \<le> m"
    by auto
  then show ?case
    using open_next.IH open_next.hyps(2) by (auto simp: nth_append)
qed auto

lemma open_links_complete:
  "open_links b acc es m f \<Longrightarrow>
   links b acc (es[m - b := E_Start ty 0] @ [E_Finish]) m (Node ty f)"
proof (induction rule: open_links.induct)
  case (open_last b es f acc)
  then show ?case
    by (simp add: links_last)
next
  case (open_next b es f fp ty' acc rest m g)
  from open_links_start [OF open_next.hyps(3)] open_next.hyps(2)
  have i: "m - b = Suc (Suc (length es + (m - fp)))"
    by auto
  show ?case
    using links_next [OF open_next.hyps(1,2) open_next.IH]
    by (simp add: i list_update_append)
qed

lemma open_links_append:
  "open_links b acc es m f \<Longrightarrow> represents (b + length es) es' f' \<Longrightarrow>
   open_links b acc (es @ es') m (f @ f')"
proof (induction rule: open_links.induct)
  case (open_last b es f acc)
  then show ?case
    using open_links.open_last [OF represents_append [OF open_last.hyps, of es' f'], of acc] by simp
next
  case (open_next b es f fp ty acc rest m g)
  then show ?case
    using open_links.open_next [OF open_next.hyps(1,2) open_next.IH] by (simp add: add.assoc)
qed

subsection \<open>What the consumer sees\<close>

text \<open>The events \<open>es\<close> at index \<open>b\<close> make the loop emit \<open>out\<close>, and touch no other event after them.\<close>

definition emits :: "nat \<Rightarrow> parser_event list \<Rightarrow> consumer_call list \<Rightarrow> bool" where
  "emits b es out \<longleftrightarrow> (\<forall>pre post k. length pre = b \<longrightarrow>
     (\<exists>pre'. length pre' = b + length es \<and>
        consume_loop (length es + k) b (pre @ es @ post)
          = map_option ((@) out) (consume_loop k (b + length es) (pre' @ post))))"

lemma emitsD:
  assumes "emits b es out" "length pre = b"
  obtains pre' where "length pre' = b + length es"
    "consume_loop (length es + k) b (pre @ es @ post)
       = map_option ((@) out) (consume_loop k (b + length es) (pre' @ post))"
  using assms unfolding emits_def by blast

lemma map_option_append [simp]:
  "map_option ((@) []) x = x"
  "map_option ((@) a) (map_option ((@) b) x) = map_option ((@) (a @ b)) x"
  by (cases x; simp)+

lemma emits_Nil: "emits b [] []"
  by (auto simp: emits_def)

lemma emits_append:
  assumes "emits b es out" "emits (b + length es) es' out'"
  shows "emits b (es @ es') (out @ out')"
  unfolding emits_def
proof (intro allI impI)
  fix pre post :: "parser_event list" and k
  assume pre: "length pre = b"
  obtain pre' where pre': "length pre' = b + length es"
    and run: "consume_loop (length es + (length es' + k)) b (pre @ es @ (es' @ post))
      = map_option ((@) out) (consume_loop (length es' + k) (b + length es) (pre' @ es' @ post))"
    by (rule emitsD [OF assms(1) pre])
  obtain pre'' where pre'': "length pre'' = b + length es + length es'"
    and run': "consume_loop (length es' + k) (b + length es) (pre' @ es' @ post)
      = map_option ((@) out') (consume_loop k (b + length es + length es') (pre'' @ post))"
    by (rule emitsD [OF assms(2) pre'])
  show "\<exists>pre'. length pre' = b + length (es @ es') \<and>
      consume_loop (length (es @ es') + k) b (pre @ (es @ es') @ post)
        = map_option ((@) (out @ out'))
            (consume_loop k (b + length (es @ es')) (pre' @ post))"
    using run run' pre''
    by (intro exI [of _ pre'']) (simp add: add.assoc)
qed

lemma emits_simple:
  assumes "\<And>events. visit_event events ev = Some (events, out)"
  shows "emits b [ev] out"
  unfolding emits_def
proof (intro allI impI)
  fix pre post :: "parser_event list" and k
  assume "length pre = b"
  then show "\<exists>pre'. length pre' = b + length [ev] \<and>
      consume_loop (length [ev] + k) b (pre @ [ev] @ post)
        = map_option ((@) out) (consume_loop k (b + length [ev]) (pre' @ post))"
    by (intro exI [of _ "pre @ [ev]"]) (auto simp: assms)
qed

lemma emits_Cons:
  assumes "\<And>events. visit_event events ev = Some (events, out)" "emits (Suc b) es out'"
  shows "emits b (ev # es) (out @ out')"
  using emits_append [OF emits_simple [OF assms(1)], of b es out'] assms(2) by simp

lemma emits_event:
  assumes "emits (Suc b) es out"
  shows "emits b (E_Tombstone # es) out" "emits b (E_Token t # es) (Token_call t # out)"
    "emits b (E_Error msg # es) (Error_call msg # out)"
    "emits b (E_Finish # es) (Finish_node # out)"
  using emits_Cons [of _ "[]", OF _ assms] emits_Cons [of _ "[_]", OF _ assms]
  by (simp_all add: visit_event_def)

text \<open>
  A chain of links: the walk collects the types \<open>tys\<close> and leaves the events \<open>cleared\<close>;
  visiting these emits the calls \<open>tail\<close> after the node's starts.
\<close>

definition chain_seen ::
    "nat \<Rightarrow> item list \<Rightarrow> parser_event list \<Rightarrow> item \<Rightarrow> syntax_type list \<Rightarrow> parser_event list \<Rightarrow>
     consumer_call list \<Rightarrow> bool" where
  "chain_seen b acc es n tys cleared tail \<longleftrightarrow>
     length cleared = length es \<and> emits b cleared tail \<and>
     emits b es (map Start_node (rev tys) @ tail) \<and>
     calls n = map Start_node (rev tys) @ forest_calls acc @ tail \<and>
     (0 < b \<longrightarrow> (\<forall>pre post parents. length pre = b \<longrightarrow>
        walk_parents (pre @ es @ post) b parents
          = Some (pre @ cleared @ post, parents @ tys)))"

lemma emits_link:
  assumes "emits (Suc b) es out" "emits (b + length es + 2) rest rest_out"
  shows "emits (Suc b) (es @ E_Finish # rest) (out @ Finish_node # rest_out)" (is ?body)
    and "emits b (E_Tombstone # es @ E_Finish # rest) (out @ Finish_node # rest_out)"
proof -
  have "emits (Suc (b + length es)) (E_Finish # rest) (Finish_node # rest_out)"
    using emits_event(4) assms(2) by simp
  then show ?body
    using emits_append [OF assms(1)] by simp
  then show "emits b (E_Tombstone # es @ E_Finish # rest) (out @ Finish_node # rest_out)"
    by (rule emits_event)
qed

lemma emits_start:
  assumes "\<And>pre post. length pre = b \<Longrightarrow>
      visit_start (pre @ E_Start ty fp # es @ post) ty fp
        = Some (pre @ E_Start ty fp # es' @ post, starts)"
    and "length es' = length es" "emits (Suc b) es' out"
  shows "emits b (E_Start ty fp # es) (starts @ out)"
  unfolding emits_def
proof (intro allI impI)
  fix pre post :: "parser_event list" and k
  assume pre: "length pre = b"
  obtain pre' where "length pre' = Suc b + length es'"
    and "consume_loop (length es' + k) (Suc b) ((pre @ [E_Start ty fp]) @ es' @ post)
       = map_option ((@) out) (consume_loop k (Suc b + length es') (pre' @ post))"
    by (rule emitsD [OF assms(3), where pre = "pre @ [E_Start ty fp]" and post = post and k = k]) (use pre in auto)
  then show "\<exists>pre'. length pre' = b + length (E_Start ty fp # es) \<and>
      consume_loop (length (E_Start ty fp # es) + k) b (pre @ (E_Start ty fp # es) @ post)
        = map_option ((@) (starts @ out))
            (consume_loop k (b + length (E_Start ty fp # es)) (pre' @ post))"
    using assms(1) [OF pre, of post] pre assms(2)
    by (intro exI [of _ pre']) (auto simp: visit_event_def)
qed

lemma walk_parents_start:
  assumes "length pre = b" "0 < b"
  shows "walk_parents (pre @ E_Start ty fp # es) b parents
    = walk_parents (pre @ E_Tombstone # es) fp (parents @ [ty])"
  using assms by (subst walk_parents.simps) (auto simp: nth_append)

lemma chain_last:
  assumes "emits (Suc b) es (forest_calls f)"
  shows "chain_seen b acc (E_Start ty 0 # es @ [E_Finish]) (Node ty (acc @ f)) [ty]
    (E_Tombstone # es @ [E_Finish]) (forest_calls f @ [Finish_node])"
proof -
  note body = emits_link [OF assms emits_Nil]
  have "emits b (E_Start ty 0 # es @ [E_Finish])
      ([Start_node ty] @ forest_calls f @ [Finish_node])"
    by (rule emits_start [where es' = "es @ [E_Finish]"]) (use body in \<open>auto simp: visit_start_def\<close>)
  moreover have "walk_parents (pre @ (E_Start ty 0 # es @ [E_Finish]) @ post) b parents
      = Some (pre @ (E_Tombstone # es @ [E_Finish]) @ post, parents @ [ty])"
    if "length pre = b" "0 < b" for pre post parents
    using walk_parents_start [OF that, of ty 0 "es @ E_Finish # post" parents]
    by (simp add: walk_parents.simps)
  ultimately show ?thesis
    using body by (simp add: chain_seen_def)
qed

lemma chain_next:
  assumes "emits (Suc b) es (forest_calls f)" "fp = b + length es + 2"
    and chain: "chain_seen fp [Node ty (acc @ f)] rest n tys cleared tail"
  shows "chain_seen b acc (E_Start ty fp # es @ E_Finish # rest) n (ty # tys)
    (E_Tombstone # es @ E_Finish # cleared) (forest_calls f @ Finish_node # tail)"
proof -
  have walk: "walk_parents (pre @ rest @ post) fp parents
      = Some (pre @ cleared @ post, parents @ tys)" if "length pre = fp" for pre post parents
    using chain assms(2) that by (simp add: chain_seen_def)
  have tail: "emits (b + length es + 2) cleared tail" and len: "length cleared = length rest"
    using chain assms(2) by (simp_all add: chain_seen_def)
  note body = emits_link [OF assms(1) tail]
  have "emits b (E_Start ty fp # es @ E_Finish # rest)
      (map Start_node (rev (ty # tys)) @ forest_calls f @ Finish_node # tail)"
  proof (rule emits_start [where es' = "es @ E_Finish # cleared"])
    fix pre post :: "parser_event list"
    assume "length pre = b"
    then show "visit_start (pre @ E_Start ty fp # (es @ E_Finish # rest) @ post) ty fp
        = Some (pre @ E_Start ty fp # (es @ E_Finish # cleared) @ post,
            map Start_node (rev (ty # tys)))"
      using walk [of "pre @ E_Start ty fp # es @ [E_Finish]" post "[ty]"] assms(2)
      by (simp add: visit_start_def)
  qed (use body len in auto)
  moreover have "walk_parents (pre @ (E_Start ty fp # es @ E_Finish # rest) @ post) b parents
      = Some (pre @ (E_Tombstone # es @ E_Finish # cleared) @ post, parents @ ty # tys)"
    if "length pre = b" "0 < b" for pre post parents
    using walk_parents_start [OF that, of ty fp "es @ E_Finish # rest @ post" parents]
      walk [of "pre @ E_Tombstone # es @ [E_Finish]" post "parents @ [ty]"] that assms(2)
    by simp
  ultimately show ?thesis
    using body len chain by (simp add: chain_seen_def)
qed

lemma emits_represents:
  "represents b es f \<Longrightarrow> emits b es (forest_calls f)"
  "links b acc es c n \<Longrightarrow> \<exists>tys cleared tail. chain_seen b acc es n tys cleared tail"
proof (induction rule: represents_links.inducts)
  case (represents_Node b es c n es' f)
  then have "emits b es (calls n)"
    by (auto simp: chain_seen_def)
  with represents_Node show ?case
    using emits_append by fastforce
next
  case (links_last b es f acc ty)
  then show ?case
    using chain_last by blast
next
  case (links_next b es f fp ty acc rest c n)
  then show ?case
    using chain_next by blast
next
  case (represents_Nil b)
  then show ?case
    by (simp add: emits_Nil)
qed (simp_all add: emits_event)

lemma consume_represented:
  assumes "represents 0 es f"
  shows "consume_events es = Some (forest_calls f)"
proof -
  obtain pre' where "consume_loop (length es + 0) 0 ([] @ es @ [])
      = map_option ((@) (forest_calls f)) (consume_loop 0 (0 + length es) (pre' @ []))"
    by (rule emitsD [OF emits_represents(1) [OF assms],
          where pre = "[]" and post = "[]" and k = 0]) auto
  then show ?thesis
    by (simp add: consume_events_def)
qed

end
