(* ===== verification/Parser.thy ===== *)
theory Parser
  imports ParserEvents
begin

text \<open>
  The parser state and its primitive operations (src/compiler/syntax/parser.cpp), which the
  grammar functions are composed of.

  An operation is a function of the parser state that fails or returns a value and the next
  state. The failures are the exception of \<open>on_inspection\<close> (\<open>Stuck\<close>), a failed assertion or
  check (debug builds, where the conditions of the assertions inspect tokens too), and
  \<open>Out_of_fuel\<close>, which stands for a loop or recursion beyond the bound \<open>budget\<close>; the theory
  GrammarSafe proves that it is never reached. A marker is the index of its start event.
\<close>

subsection \<open>State and results\<close>

record parser =
  parser_source :: string
  parser_tokens :: "token list"
  parser_pos :: nat
  inspections :: nat
  parser_events :: "parser_event list"

datatype parse_failure = Stuck | Check_failed | Out_of_fuel

type_synonym 'a parse = "parser \<Rightarrow> parse_failure + 'a \<times> parser"
type_synonym marker = nat
type_synonym completed_marker = nat

definition new_parser :: "string \<Rightarrow> token list \<Rightarrow> parser" where
  "new_parser source tokens =
     \<lparr>parser_source = source, parser_tokens = tokens, parser_pos = 0, inspections = 0,
      parser_events = []\<rparr>"

definition preturn :: "'a \<Rightarrow> 'a parse" where
  "preturn x p = Inr (x, p)"

definition pfail :: "parse_failure \<Rightarrow> 'a parse" where
  "pfail e p = Inl e"

definition pbind :: "'a parse \<Rightarrow> ('a \<Rightarrow> 'b parse) \<Rightarrow> 'b parse" where
  "pbind m f p = bind_sum (m p) (\<lambda>(x, p'). f x p')"

text \<open>Run the first and ignore its value.\<close>

definition pseq :: "'a parse \<Rightarrow> 'b parse \<Rightarrow> 'b parse" where
  "pseq m k = pbind m (\<lambda>_. k)"

definition passert :: "bool parse \<Rightarrow> unit parse" where
  "passert c = pbind c (\<lambda>b. if b then preturn () else pfail Check_failed)"

text \<open>The conditional operators, which evaluate the second operand on demand.\<close>

definition por :: "bool parse \<Rightarrow> bool parse \<Rightarrow> bool parse" where
  "por a b = pbind a (\<lambda>x. if x then preturn True else b)"

definition pand :: "bool parse \<Rightarrow> bool parse \<Rightarrow> bool parse" where
  "pand a b = pbind a (\<lambda>x. if x then b else preturn False)"

definition pnot :: "bool parse \<Rightarrow> bool parse" where
  "pnot a = pbind a (\<lambda>x. preturn (\<not> x))"

text \<open>
  Every inspection uses up one of the 1023 that the current token allows, and an advance
  one token: this bounds the steps of any loop that inspects a token in each iteration.
\<close>

definition budget :: "parser \<Rightarrow> nat" where
  "budget p = 1024 * (length (parser_tokens p) - parser_pos p) + (1024 - inspections p)"

text \<open>A loop with a state: the body tells whether to go on, and yields the next state.\<close>

primrec loop_fuel :: "nat \<Rightarrow> ('s \<Rightarrow> (bool \<times> 's) parse) \<Rightarrow> 's \<Rightarrow> 's parse" where
  "loop_fuel 0 body s = pfail Out_of_fuel"
| "loop_fuel (Suc n) body s =
     pbind (body s) (\<lambda>(go, s'). if go then loop_fuel n body s' else preturn s')"

definition ploop :: "('s \<Rightarrow> (bool \<times> 's) parse) \<Rightarrow> 's \<Rightarrow> 's parse" where
  "ploop body s p = loop_fuel (budget p) body s p"

text \<open>\<open>while (!cond) body\<close>; the body returns \<open>False\<close> to break.\<close>

definition until_step :: "bool parse \<Rightarrow> bool parse \<Rightarrow> unit \<Rightarrow> (bool \<times> unit) parse" where
  "until_step cond body s p =
     pbind cond (\<lambda>stop. if stop then preturn (False, ())
       else pbind body (\<lambda>go. preturn (go, ()))) p"

definition puntil :: "bool parse \<Rightarrow> bool parse \<Rightarrow> unit parse" where
  "puntil cond body = ploop (until_step cond body) ()"

subsection \<open>Looking at tokens\<close>

definition on_inspection :: "unit parse" where
  "on_inspection p =
     (let i = Suc (inspections p)
      in if 1024 \<le> i then Inl Stuck else Inr ((), p\<lparr>inspections := i\<rparr>))"

definition ahead :: "nat \<Rightarrow> token_type parse" where
  "ahead n =
     pseq on_inspection (\<lambda>p.
       if length (parser_tokens p) - parser_pos p \<le> n then Inr (T_Eof, p)
       else Inr (token_kind (parser_tokens p ! (parser_pos p + n)), p))"

definition current :: "token_type parse" where
  "current = ahead 0"

definition at :: "token_type \<Rightarrow> bool parse" where
  "at ty = pbind current (\<lambda>t. preturn (t = ty))"

definition at_any :: "token_set \<Rightarrow> bool parse" where
  "at_any ts = pbind current (\<lambda>t. preturn (t \<in> ts))"

definition at_source :: "string \<Rightarrow> bool parse" where
  "at_source txt =
     pseq on_inspection (\<lambda>p.
       let r = (if parser_pos p < length (parser_tokens p)
                then token_range (parser_tokens p ! parser_pos p) else from_offset 0)
       in case substring (parser_source p) r of
            None \<Rightarrow> Inl Check_failed
          | Some s \<Rightarrow> Inr (s = txt, p))"

subsection \<open>Consuming tokens\<close>

definition advance :: "unit parse" where
  "advance p =
     (if length (parser_tokens p) \<le> parser_pos p then Inr ((), p)
      else Inr ((), p\<lparr>inspections := 0, parser_pos := Suc (parser_pos p),
        parser_events := parser_events p @ [E_Token (parser_tokens p ! parser_pos p)]\<rparr>))"

definition advance_with_type :: "token_type \<Rightarrow> unit parse" where
  "advance_with_type ty p =
     (if length (parser_tokens p) \<le> parser_pos p then Inr ((), p)
      else Inr ((), p\<lparr>inspections := 0, parser_pos := Suc (parser_pos p),
        parser_events := parser_events p
          @ [E_Token \<lparr>token_kind = ty,
               token_range = token_range (parser_tokens p ! parser_pos p)\<rparr>]\<rparr>))"

definition accept :: "token_type \<Rightarrow> bool parse" where
  "accept ty = pbind (at ty) (\<lambda>b. if b then pseq advance (preturn True) else preturn False)"

definition accept_any :: "token_set \<Rightarrow> token_type option parse" where
  "accept_any ts =
     pbind current (\<lambda>t. if t \<in> ts then pseq advance (preturn (Some t)) else preturn None)"

subsection \<open>Markers\<close>

definition start :: "marker parse" where
  "start p = Inr (length (parser_events p),
     p\<lparr>parser_events := parser_events p @ [E_Tombstone]\<rparr>)"

definition complete :: "marker \<Rightarrow> syntax_type \<Rightarrow> completed_marker parse" where
  "complete m ty p =
     (if m < length (parser_events p) \<and> parser_events p ! m = E_Tombstone
      then Inr (m, p\<lparr>parser_events := (parser_events p)[m := E_Start ty 0] @ [E_Finish]\<rparr>)
      else Inl Check_failed)"

definition abandon :: "marker \<Rightarrow> unit parse" where
  "abandon m p =
     (if parser_events p \<noteq> [] \<and> m = length (parser_events p) - 1
      then if parser_events p ! m = E_Tombstone
           then Inr ((), p\<lparr>parser_events := butlast (parser_events p)\<rparr>)
           else Inl Check_failed
      else Inr ((), p))"

text \<open>The new node's start becomes the forward parent of the completed one.\<close>

definition precede :: "completed_marker \<Rightarrow> marker parse" where
  "precede c =
     pbind start (\<lambda>m p.
       if c < length (parser_events p) then
         case parser_events p ! c of
           E_Start ty fp \<Rightarrow>
             if fp = 0 then Inr (m, p\<lparr>parser_events := (parser_events p)[c := E_Start ty m]\<rparr>)
             else Inl Check_failed
         | _ \<Rightarrow> Inl Check_failed
       else Inl Check_failed)"

subsection \<open>Errors\<close>

definition error :: "string \<Rightarrow> unit parse" where
  "error msg p = Inr ((), p\<lparr>parser_events := parser_events p @ [E_Error msg]\<rparr>)"

definition expect :: "token_type \<Rightarrow> bool parse" where
  "expect ty =
     pbind (accept ty) (\<lambda>b. if b then preturn True
       else pseq (error (''expected '' @ to_description ty)) (preturn False))"

definition SKIP_CONSUME_ON_ERROR :: token_set where
  "SKIP_CONSUME_ON_ERROR = {T_LeftBrace, T_RightBrace, T_StringBlockStart, T_StringBlockEnd}"

definition error_recover :: "string \<Rightarrow> token_set \<Rightarrow> unit parse" where
  "error_recover msg recovery =
     pbind (por (at_any SKIP_CONSUME_ON_ERROR) (at_any recovery)) (\<lambda>skip.
       if skip then error msg
       else pbind start (\<lambda>m.
         pseq advance (pseq (error msg)
         (pbind (complete m S_Error) (\<lambda>_. preturn ())))))"

end
