(* ===== verification/Grammar.thy ===== *)
theory Grammar
  imports Parser
begin

text \<open>
  The grammar (src/compiler/syntax/grammar/: errors.cpp, misc.cpp, expr.cpp, stmt.cpp,
  item.cpp), one definition per function, and the driver of src/compiler/compiler.cpp.

  The functions of the source call each other recursively, and every cycle of calls goes
  through the overload of \<open>parse_expr\<close> with a binding power, through the call of
  \<open>parse_if_expr\<close> in itself, or through the call of \<open>parse_stmt\<close> in a block.
  These calls go through the parameter \<open>rec\<close>; \<open>parse_call\<close> ties the knot, with a
  bound on the depth. The functions take the parser as the state of their result.
\<close>

subsection \<open>Error recovery (errors.cpp)\<close>

definition NESTING_START :: token_set where
  "NESTING_START = {T_LeftBrace, T_StringBlockStart, T_StringStart}"

definition NESTING_END :: token_set where
  "NESTING_END = {T_LeftBrace, T_StringBlockEnd, T_StringEnd}"

definition unexpected_message :: "token_type \<Rightarrow> string option" where
  "unexpected_message ty =
     (if ty \<in> {T_LeftBrace, T_StringBlockStart} then Some ''unexpected block''
      else if ty = T_StringStart then Some ''unexpected string''
      else None)"

definition closing_token :: "token_type \<Rightarrow> token_type option" where
  "closing_token ty =
     (if ty = T_LeftBrace then Some T_RightBrace
      else if ty = T_StringBlockStart then Some T_StringBlockEnd
      else if ty = T_StringStart then Some T_StringEnd
      else None)"

text \<open>The stack is a list whose head is the back of the vector.\<close>

definition discard_block_impl :: "unit parse" where
  "discard_block_impl =
     pbind current (\<lambda>t. case closing_token t of None \<Rightarrow> pfail Check_failed | Some closing \<Rightarrow>
       pseq advance
      (pseq (ploop (\<lambda>stack.
         pbind (at T_Eof) (\<lambda>eof. if eof \<or> stack = [] then preturn (False, stack)
         else pbind (accept_any NESTING_START) (\<lambda>nested. case nested of
                Some start_token \<Rightarrow> preturn (True, start_token # stack)
              | None \<Rightarrow>
                  pbind (at (hd stack)) (\<lambda>close.
                  pseq advance
                  (preturn (True, if close then tl stack else stack)))))) [closing])
       (preturn ())))"

definition discard_nested :: "unit parse" where
  "discard_nested =
     pseq (passert (at_any NESTING_START))
    (pbind start (\<lambda>m.
     pbind current (\<lambda>t. case unexpected_message t of None \<Rightarrow> pfail Check_failed | Some msg \<Rightarrow>
     pseq (error msg)
    (pseq discard_block_impl
    (pbind (complete m S_Error) (\<lambda>_. preturn ()))))))"

definition discard_input :: "token_set \<Rightarrow> unit parse" where
  "discard_input recovery =
     puntil (at T_Eof)
       (pbind (at_any NESTING_START) (\<lambda>nested.
        if nested then pseq discard_block_impl (preturn True)
        else pbind (at_any recovery) (\<lambda>found.
          if found then preturn False else pseq advance (preturn True))))"

subsection \<open>The recursive calls\<close>

datatype expr_flags = Default_expr | NoBlock_expr

datatype call =
    Call_expr int expr_flags token_set
  | Call_if token_set
  | Call_stmt token_set

type_synonym grammar = "call \<Rightarrow> completed_marker option parse"

definition parse_expr :: "grammar \<Rightarrow> token_set \<Rightarrow> completed_marker option parse" where
  "parse_expr rec recovery = rec (Call_expr 0 Default_expr recovery)"

definition parse_expr_no_block :: "grammar \<Rightarrow> token_set \<Rightarrow> completed_marker option parse" where
  "parse_expr_no_block rec recovery = rec (Call_expr 0 NoBlock_expr recovery)"

text \<open>Whether an expression was parsed, where the source only tests the optional.\<close>

definition has_value :: "completed_marker option parse \<Rightarrow> bool parse" where
  "has_value k = pbind k (\<lambda>e. preturn (e \<noteq> None))"

subsection \<open>First sets\<close>

definition VAR_FIRST :: token_set where
  "VAR_FIRST = {T_KwConst, T_KwVar}"

definition BINDING_PATTERN_FIRST :: token_set where
  "BINDING_PATTERN_FIRST = {T_LeftParen, T_Identifier}"

definition LITERAL_FIRST :: token_set where
  "LITERAL_FIRST = {T_KwTrue, T_KwFalse, T_KwNull, T_Symbol, T_Float, T_Integer}"

definition UNARY_OP_FIRST :: token_set where
  "UNARY_OP_FIRST = {T_Plus, T_Minus, T_BitwiseNot, T_LogicalNot}"

definition EXPR_FIRST :: token_set where
  "EXPR_FIRST = LITERAL_FIRST \<union> UNARY_OP_FIRST
     \<union> {T_KwFunc, T_KwContinue, T_KwBreak, T_KwReturn, T_KwIf, T_Identifier, T_StringStart,
        T_LeftParen, T_LeftBracket, T_LeftBrace}"

definition EXPR_STMT_OPTIONAL_SEMI :: token_set where
  "EXPR_STMT_OPTIONAL_SEMI = {T_KwFunc, T_KwIf, T_LeftBrace}"

definition STMT_FIRST :: token_set where
  "STMT_FIRST = EXPR_FIRST \<union> VAR_FIRST \<union> {T_KwDefer, T_KwAssert, T_KwWhile, T_KwFor}"

definition MODIFIERS :: token_set where
  "MODIFIERS = {T_KwExport}"

definition ITEM_FIRST :: token_set where
  "ITEM_FIRST = MODIFIERS \<union> VAR_FIRST \<union> {T_KwImport, T_KwFunc}"

definition CLOSING_BRACES :: token_set where
  "CLOSING_BRACES = {T_RightParen, T_RightBracket, T_RightBrace}"

subsection \<open>Names, arguments, parameters and blocks\<close>

definition parse_name :: "token_set \<Rightarrow> unit parse" where
  "parse_name recovery =
     pbind (at T_Identifier) (\<lambda>ident.
       if \<not> ident then error_recover ''expected a name'' recovery
       else pbind start (\<lambda>m.
         pseq (expect T_Identifier)
        (pbind (complete m S_Name) (\<lambda>_. preturn ()))))"

definition parse_arg_list :: "grammar \<Rightarrow> token_set \<Rightarrow> unit parse" where
  "parse_arg_list rec recovery =
     pbind (at_any {T_LeftParen, T_QuestionLeftParen}) (\<lambda>paren.
       if \<not> paren then error ''expected an argument list''
       else pbind start (\<lambda>args.
         pseq advance
        (pseq (puntil (at_any {T_RightParen, T_Eof})
           (pbind (has_value (parse_expr rec (recovery \<union> {T_Comma, T_RightParen}))) (\<lambda>ok.
            if \<not> ok then preturn False
            else pbind (pand (pnot (at T_RightParen)) (pnot (expect T_Comma))) (\<lambda>stop.
              preturn (\<not> stop)))))
        (pseq (expect T_RightParen)
        (pbind (complete args S_ArgList) (\<lambda>_. preturn ()))))))"

definition parse_param_list :: "token_set \<Rightarrow> unit parse" where
  "parse_param_list recovery =
     pbind (at_any {T_LeftParen, T_QuestionLeftParen}) (\<lambda>paren.
       if \<not> paren then error ''expected a parameter list''
       else pbind start (\<lambda>args.
         pseq advance
        (pseq (puntil (at_any {T_RightParen, T_Eof})
           (pbind (accept T_Identifier) (\<lambda>ident.
            if \<not> ident then pseq (error ''expected a function parameter name'') (preturn False)
            else pbind (at T_RightParen) (\<lambda>close.
              if close then preturn True else pseq (expect T_Comma) (preturn True)))))
        (pseq (expect T_RightParen)
        (pbind (complete args S_ParamList) (\<lambda>_. preturn ()))))))"

definition parse_block_item :: "grammar \<Rightarrow> bool parse" where
  "parse_block_item rec p =
     pbind (accept T_Semicolon) (\<lambda>semi.
       if semi then preturn True
       else pseq (rec (Call_stmt (STMT_FIRST \<union> {T_RightBrace}))) (preturn True)) p"

definition parse_block_expr_unchecked :: "grammar \<Rightarrow> token_set \<Rightarrow> completed_marker parse" where
  "parse_block_expr_unchecked rec recovery =
     pseq (passert (at T_LeftBrace))
    (pbind start (\<lambda>m.
     pseq advance
    (pseq (puntil (at_any {T_Eof, T_RightBrace}) (parse_block_item rec))
    (pseq (expect T_RightBrace)
    (complete m S_BlockExpr)))))"

definition parse_block_expr :: "grammar \<Rightarrow> token_set \<Rightarrow> unit parse" where
  "parse_block_expr rec recovery =
     pbind (at T_LeftBrace) (\<lambda>brace.
       if \<not> brace then error ''expected a block expression''
       else pseq (parse_block_expr_unchecked rec recovery) (preturn ()))"

subsection \<open>Functions, variables and conditions (misc.cpp)\<close>

datatype function_kind = Error_function | BlockBody | ShortExprBody

datatype var_kind = Default_var | NoBlock_var

text \<open>\<open>modifiers ? modifiers->precede() : p.start()\<close>\<close>

definition start_after :: "completed_marker option \<Rightarrow> marker parse" where
  "start_after modifiers = (case modifiers of Some c \<Rightarrow> precede c | None \<Rightarrow> start)"

text \<open>The two error exits of \<open>parse_func\<close> and \<open>parse_var\<close>.\<close>

definition missing_declaration :: "string \<Rightarrow> completed_marker option \<Rightarrow> unit parse" where
  "missing_declaration msg modifiers =
     (case modifiers of
        Some c \<Rightarrow> pbind (precede c) (\<lambda>m. pseq (error msg)
          (pbind (complete m S_Error) (\<lambda>_. preturn ())))
      | None \<Rightarrow> error msg)"

definition parse_func ::
    "grammar \<Rightarrow> token_set \<Rightarrow> completed_marker option \<Rightarrow> function_kind parse" where
  "parse_func rec recovery modifiers =
     pbind (at T_KwFunc) (\<lambda>func.
       if \<not> func then
         pbind (missing_declaration ''expected a function declaration'' modifiers)
               (\<lambda>_. preturn Error_function)
       else pbind (start_after modifiers) (\<lambda>m.
         pseq advance
        (pseq (pbind (at T_Identifier) (\<lambda>ident.
           if ident then parse_name (recovery \<union> {T_LeftParen}) else preturn ()))
        (pseq (parse_param_list (recovery \<union> {T_LeftBrace}))
        (pbind (pand (accept T_Equals) (pnot (at T_LeftBrace))) (\<lambda>short.
           if short then
             pseq (parse_expr rec recovery)
            (pbind (complete m S_Func) (\<lambda>_. preturn ShortExprBody))
           else
             pseq (parse_block_expr rec recovery)
            (pbind (complete m S_Func) (\<lambda>_. preturn BlockBody))))))))"

definition parse_binding_pattern :: "token_set \<Rightarrow> unit parse" where
  "parse_binding_pattern recovery =
     pbind current (\<lambda>t.
       if t = T_LeftParen then
         pbind start (\<lambda>lhs.
           pseq advance
          (pseq (puntil (at_any {T_Eof, T_RightParen})
             (pbind (accept T_Identifier) (\<lambda>ident.
              if \<not> ident then pseq (error ''expected a variable name'') (preturn False)
              else pbind (pand (pnot (at T_RightParen)) (pnot (expect T_Comma))) (\<lambda>stop.
                preturn (\<not> stop)))))
          (pseq (expect T_RightParen)
          (pbind (complete lhs S_BindingTuple) (\<lambda>_. preturn ())))))
       else if t = T_Identifier then
         pbind start (\<lambda>lhs.
           pseq advance
          (pbind (complete lhs S_BindingName) (\<lambda>_. preturn ())))
       else error_recover ''expected a variable name or a tuple pattern'' recovery)"

definition parse_binding :: "grammar \<Rightarrow> var_kind \<Rightarrow> token_set \<Rightarrow> unit parse" where
  "parse_binding rec kind recovery =
     pbind start (\<lambda>m.
       pseq (parse_binding_pattern (recovery \<union> {T_Equals}))
      (pseq (pbind (accept T_Equals) (\<lambda>init.
         if init then
           case kind of
             Default_var \<Rightarrow> pseq (parse_expr rec recovery) (preturn ())
           | NoBlock_var \<Rightarrow> pseq (parse_expr_no_block rec recovery) (preturn ())
         else preturn ()))
      (pbind (complete m S_Binding) (\<lambda>_. preturn ()))))"

definition parse_var_decl_unchecked ::
    "grammar \<Rightarrow> var_kind \<Rightarrow> token_set \<Rightarrow> completed_marker option \<Rightarrow> unit parse" where
  "parse_var_decl_unchecked rec kind recovery modifiers =
     pseq (passert (at_any VAR_FIRST))
    (pbind (start_after modifiers) (\<lambda>m.
     pseq advance
    (pseq (puntil (at T_Eof)
       (pseq (parse_binding rec kind (recovery \<union> {T_Comma}))
             (accept T_Comma)))
    (pbind (complete m S_Var) (\<lambda>_. preturn ())))))"

definition parse_var ::
    "grammar \<Rightarrow> var_kind \<Rightarrow> token_set \<Rightarrow> completed_marker option \<Rightarrow> unit parse" where
  "parse_var rec kind recovery modifiers =
     pbind (at_any VAR_FIRST) (\<lambda>var.
       if \<not> var then missing_declaration ''expected a variable declaration'' modifiers
       else parse_var_decl_unchecked rec kind recovery modifiers)"

definition parse_condition :: "grammar \<Rightarrow> token_set \<Rightarrow> unit parse" where
  "parse_condition rec recovery =
     pbind start (\<lambda>cond.
       pseq (parse_expr_no_block rec recovery)
      (pbind (complete cond S_Condition) (\<lambda>_. preturn ())))"

subsection \<open>Expressions (expr.cpp)\<close>

definition parse_literal :: "completed_marker option parse" where
  "parse_literal =
     pbind (at_any LITERAL_FIRST) (\<lambda>literal.
       if literal then pbind start (\<lambda>m. pseq advance
         (pbind (complete m S_Literal) (\<lambda>c. preturn (Some c))))
       else preturn None)"

text \<open>The loop over the items of a record: an item is completed before the loop can end.\<close>

definition parse_record_items :: "grammar \<Rightarrow> token_set \<Rightarrow> unit parse" where
  "parse_record_items rec recovery =
     puntil (at_any {T_Eof, T_RightParen})
       (pbind (pbind start (\<lambda>item.
          pseq (parse_name (recovery \<union> {T_Colon}))
         (pseq (expect T_Colon)
         (pbind (has_value (parse_expr rec (recovery \<union> {T_Comma, T_RightParen}))) (\<lambda>ok.
          pbind (complete item S_RecordItem) (\<lambda>_. preturn ok))))))
        (\<lambda>expr_ok.
          if \<not> expr_ok then preturn False
          else pbind (at T_RightParen) (\<lambda>close.
            if close then preturn True else pseq (expect T_Comma) (preturn True))))"

text \<open>The loop over the items of a tuple, with the flags \<open>is_empty\<close> and \<open>has_comma\<close>.\<close>

definition parse_tuple_items :: "grammar \<Rightarrow> token_set \<Rightarrow> (bool \<times> bool) parse" where
  "parse_tuple_items rec recovery =
     ploop (\<lambda>(is_empty, has_comma).
       pbind (at_any {T_Eof, T_RightParen}) (\<lambda>stop.
         if stop then preturn (False, (is_empty, has_comma))
         else pbind (has_value (parse_expr rec (recovery \<union> {T_Comma, T_RightParen}))) (\<lambda>ok.
           if \<not> ok then preturn (False, (False, has_comma))
           else pbind (pand (pnot (at T_RightParen)) (expect T_Comma)) (\<lambda>comma.
             preturn (True, (False, has_comma \<or> comma)))))) (True, False)"

definition parse_paren_expr :: "grammar \<Rightarrow> token_set \<Rightarrow> completed_marker parse" where
  "parse_paren_expr rec recovery =
     pseq (passert (at T_LeftParen))
    (pbind start (\<lambda>m.
     pseq advance
    (pbind (accept T_RightParen) (\<lambda>empty_tuple.
     if empty_tuple then complete m S_TupleExpr
     else pbind (accept T_Colon) (\<lambda>empty_record.
       if empty_record then pseq (expect T_RightParen) (complete m S_RecordExpr)
       else pbind (pand (at T_Identifier)
                        (pbind (ahead 1) (\<lambda>t. preturn (t = T_Colon)))) (\<lambda>is_record.
         if is_record then
           pseq (parse_record_items rec recovery)
          (pseq (expect T_RightParen)
          (complete m S_RecordExpr))
         else pbind (parse_tuple_items rec recovery) (\<lambda>(is_empty, has_comma).
           pseq (expect T_RightParen)
          (complete m (if \<not> is_empty \<and> \<not> has_comma then S_GroupedExpr
                       else S_TupleExpr)))))))))"

definition parse_if_expr :: "grammar \<Rightarrow> token_set \<Rightarrow> completed_marker parse" where
  "parse_if_expr rec recovery =
     pseq (passert (at T_KwIf))
    (pbind start (\<lambda>m.
     pseq advance
    (pseq (parse_condition rec (recovery \<union> {T_LeftBrace}))
    (pseq (parse_block_expr rec (recovery \<union> {T_KwElse}))
    (pseq (pbind (accept T_KwElse) (\<lambda>has_else.
       if has_else then
         pbind (at T_KwIf) (\<lambda>nested_if.
           if nested_if then pseq (rec (Call_if recovery)) (preturn ())
           else parse_block_expr rec recovery)
       else preturn ()))
    (complete m S_IfExpr))))))"

text \<open>Items that are separated by commas, up to a closing token: arrays and sets.\<close>

definition parse_items :: "grammar \<Rightarrow> token_type \<Rightarrow> token_set \<Rightarrow> unit parse" where
  "parse_items rec closing recovery =
     puntil (at_any {T_Eof, closing})
       (pbind (has_value (parse_expr rec (recovery \<union> {T_Comma, closing}))) (\<lambda>ok.
        if \<not> ok then preturn False
        else pbind (pand (pnot (at closing)) (pnot (expect T_Comma))) (\<lambda>stop.
          preturn (\<not> stop))))"

definition parse_array_expr :: "grammar \<Rightarrow> token_set \<Rightarrow> completed_marker parse" where
  "parse_array_expr rec recovery =
     pseq (passert (at T_LeftBracket))
    (pbind start (\<lambda>m.
     pseq advance
    (pseq (parse_items rec T_RightBracket recovery)
    (pseq (expect T_RightBracket)
    (complete m S_ArrayExpr)))))"

text \<open>The guard completes the item whether or not the loop is left from inside it.\<close>

definition parse_map_item :: "grammar \<Rightarrow> token_set \<Rightarrow> bool parse" where
  "parse_map_item rec recovery =
     pbind start (\<lambda>item.
       pbind (pand (has_value (parse_expr rec (recovery \<union> {T_Colon})))
             (pand (expect T_Colon)
                   (has_value (parse_expr rec (recovery \<union> {T_Colon})))))
       (\<lambda>ok. pbind (complete item S_MapItem) (\<lambda>_. preturn ok)))"

definition parse_map_expr :: "grammar \<Rightarrow> token_set \<Rightarrow> completed_marker parse" where
  "parse_map_expr rec recovery =
     pseq (passert (pand (at T_Identifier) (at_source ''map'')))
    (pbind start (\<lambda>m.
     pseq (advance_with_type T_KwMap)
    (pseq (expect T_LeftBrace)
    (pseq (puntil (at_any {T_Eof, T_RightBrace})
       (pbind (parse_map_item rec recovery) (\<lambda>ok.
        if \<not> ok then preturn False
        else pbind (pand (pnot (at T_RightBrace)) (pnot (expect T_Comma))) (\<lambda>stop.
          preturn (\<not> stop)))))
    (pseq (expect T_RightBrace)
    (complete m S_MapExpr))))))"

definition parse_set_expr :: "grammar \<Rightarrow> token_set \<Rightarrow> completed_marker parse" where
  "parse_set_expr rec recovery =
     pseq (passert (pand (at T_Identifier) (at_source ''set'')))
    (pbind start (\<lambda>m.
     pseq (advance_with_type T_KwSet)
    (pseq (expect T_LeftBrace)
    (pseq (parse_items rec T_RightBrace recovery)
    (pseq (expect T_RightBrace)
    (complete m S_SetExpr))))))"

definition parse_string_var :: "unit parse" where
  "parse_string_var =
     pbind start (\<lambda>item.
       pseq advance
      (pseq (pbind start (\<lambda>name.
         pseq (expect T_Identifier)
        (pbind (complete name S_VarExpr) (\<lambda>_. preturn ()))))
      (pbind (complete item S_StringFormatItem) (\<lambda>_. preturn ()))))"

definition parse_string_block :: "grammar \<Rightarrow> unit parse" where
  "parse_string_block rec =
     pbind start (\<lambda>block.
       pseq advance
      (pseq (parse_expr rec {T_StringBlockEnd})
      (pseq (pbind (at T_StringBlockEnd) (\<lambda>close.
         if close then preturn ()
         else pbind start (\<lambda>err.
           pseq (error (''expected '' @ to_description T_StringBlockEnd))
          (pseq (discard_input {T_StringBlockEnd})
          (pbind (complete err S_Error) (\<lambda>_. preturn ()))))))
      (pseq (accept T_StringBlockEnd)
      (pbind (complete block S_StringFormatBlock) (\<lambda>_. preturn ()))))))"

definition parse_string_literal :: "grammar \<Rightarrow> completed_marker parse" where
  "parse_string_literal rec =
     pbind start (\<lambda>str.
       pseq advance
      (pseq (puntil (at_any {T_Eof, T_StringEnd})
         (pbind current (\<lambda>t.
            pseq (if t = T_StringContent then advance
                  else if t = T_StringVar then parse_string_var
                  else if t = T_StringBlockStart then parse_string_block rec
                  else pseq (error ''expected string content'')
                    (discard_input
                       {T_StringContent, T_StringVar, T_StringBlockStart, T_StringEnd}))
                 (preturn True))))
      (pseq (pbind (accept T_StringEnd) (\<lambda>closed.
         if closed then preturn () else error ''unterminated string''))
      (complete str S_StringExpr))))"

definition parse_string_expr :: "grammar \<Rightarrow> token_set \<Rightarrow> completed_marker parse" where
  "parse_string_expr rec recovery =
     pseq (passert (at T_StringStart))
    (pbind (parse_string_literal rec) (\<lambda>initial_string.
     pbind (at T_StringStart) (\<lambda>more.
       if \<not> more then preturn initial_string
       else pbind (precede initial_string) (\<lambda>group.
         pseq (puntil (pnot (at T_StringStart))
           (pseq (parse_string_literal rec) (preturn True)))
        (complete group S_StringGroup)))))"

text \<open>The case of an identifier: a variable, or a map or set where a block may follow.\<close>

definition parse_unknown_block :: "completed_marker parse" where
  "parse_unknown_block =
     pbind start (\<lambda>m.
       pseq (error (''expected '' @ to_string T_KwMap @ '' or '' @ to_string T_KwSet))
      (pseq advance
      (pseq discard_nested
      (complete m S_Error))))"

definition block_ahead :: "expr_flags \<Rightarrow> bool parse" where
  "block_ahead fl =
     (if fl = NoBlock_expr then preturn False
      else pbind (ahead 1) (\<lambda>t. preturn (t = T_LeftBrace)))"

definition parse_identifier_expr ::
    "grammar \<Rightarrow> expr_flags \<Rightarrow> token_set \<Rightarrow> completed_marker parse" where
  "parse_identifier_expr rec fl recovery =
     pbind (block_ahead fl) (\<lambda>block.
       if block then
         pbind (at_source ''map'') (\<lambda>is_map.
           if is_map then parse_map_expr rec recovery
           else pbind (at_source ''set'') (\<lambda>is_set.
             if is_set then parse_set_expr rec recovery
             else parse_unknown_block))
       else pbind start (\<lambda>m. pseq advance (complete m S_VarExpr)))"

definition some_marker :: "completed_marker parse \<Rightarrow> completed_marker option parse" where
  "some_marker k = pbind k (\<lambda>c. preturn (Some c))"

text \<open>\<open>return\<close>, \<open>continue\<close>, \<open>break\<close> and a nested function.\<close>

definition parse_keyword_expr ::
    "grammar \<Rightarrow> token_type \<Rightarrow> token_set \<Rightarrow> completed_marker parse" where
  "parse_keyword_expr rec t recovery =
     pbind start (\<lambda>m.
       if t = T_KwReturn then
         pseq advance
        (pseq (pbind (at_any EXPR_FIRST) (\<lambda>more.
           if more then pseq (parse_expr rec recovery) (preturn ()) else preturn ()))
        (complete m S_ReturnExpr))
       else if t = T_KwContinue then pseq advance (complete m S_ContinueExpr)
       else if t = T_KwBreak then pseq advance (complete m S_BreakExpr)
       else pseq (parse_func rec recovery None) (complete m S_FuncExpr))"

definition parse_primary_expr ::
    "grammar \<Rightarrow> expr_flags \<Rightarrow> token_set \<Rightarrow> completed_marker option parse" where
  "parse_primary_expr rec fl recovery =
     pbind parse_literal (\<lambda>literal. case literal of Some c \<Rightarrow> preturn (Some c) | None \<Rightarrow>
       pbind current (\<lambda>t.
         if t = T_LeftBrace then some_marker (parse_block_expr_unchecked rec recovery)
         else if t = T_LeftParen then some_marker (parse_paren_expr rec recovery)
         else if t = T_KwIf then some_marker (parse_if_expr rec recovery)
         else if t \<in> {T_KwReturn, T_KwContinue, T_KwBreak, T_KwFunc}
           then some_marker (parse_keyword_expr rec t recovery)
         else if t = T_Identifier then some_marker (parse_identifier_expr rec fl recovery)
         else if t = T_LeftBracket then some_marker (parse_array_expr rec recovery)
         else if t = T_StringStart then some_marker (parse_string_expr rec recovery)
         else pseq (error_recover ''expected an expression'' recovery) (preturn None)))"

definition parse_prefix_expr ::
    "grammar \<Rightarrow> expr_flags \<Rightarrow> token_set \<Rightarrow> completed_marker option parse" where
  "parse_prefix_expr rec fl recovery =
     pbind (at_any UNARY_OP_FIRST) (\<lambda>unary.
       if \<not> unary then parse_primary_expr rec fl recovery
       else pbind start (\<lambda>m.
         pseq advance
        (pseq (rec (Call_expr unary_precedence fl recovery))
        (pbind (complete m S_UnaryExpr) (\<lambda>c. preturn (Some c))))))"

definition parse_infix_expr ::
    "grammar \<Rightarrow> completed_marker \<Rightarrow> infix_operator \<Rightarrow> expr_flags \<Rightarrow> token_set \<Rightarrow>
     completed_marker parse" where
  "parse_infix_expr rec c op fl recovery =
     pbind (precede c) (\<lambda>m.
     pbind current (\<lambda>t.
       if t \<in> {T_Dot, T_QuestionDot} then
         pseq advance
        (pbind (accept T_Identifier) (\<lambda>field.
         if field then complete m S_FieldExpr
         else pbind (accept T_TupleField) (\<lambda>index.
           if index then complete m S_TupleFieldExpr
           else pseq (error ''expected a member name or a tuple index'')
                     (complete m S_FieldExpr))))
       else if t \<in> {T_LeftBracket, T_QuestionLeftBracket} then
         pseq advance
        (pseq (parse_expr rec {T_RightBracket})
        (pseq (expect T_RightBracket)
        (complete m S_IndexExpr)))
       else if t \<in> {T_LeftParen, T_QuestionLeftParen} then
         pseq (parse_arg_list rec recovery) (complete m S_CallExpr)
       else
         pseq advance
        (pseq (rec (Call_expr (if op_right_assoc op then op_precedence op
                               else op_precedence op + 1) fl recovery))
        (complete m S_BinaryExpr))))"

text \<open>The loop of the pratt parser: one iteration takes the next infix operator, if it binds.\<close>

definition infix_step ::
    "grammar \<Rightarrow> int \<Rightarrow> expr_flags \<Rightarrow> token_set \<Rightarrow> completed_marker \<Rightarrow> (bool \<times> completed_marker) parse"
  where
  "infix_step rec bp fl recovery c =
     pbind current (\<lambda>t. case infix_operator_precedence t of
         None \<Rightarrow> preturn (False, c)
       | Some op \<Rightarrow>
           if op_precedence op < bp then preturn (False, c)
           else pbind (parse_infix_expr rec c op fl recovery) (\<lambda>c'. preturn (True, c')))"

definition parse_expr_bp ::
    "grammar \<Rightarrow> int \<Rightarrow> expr_flags \<Rightarrow> token_set \<Rightarrow> completed_marker option parse" where
  "parse_expr_bp rec bp fl recovery =
     pbind (parse_prefix_expr rec fl recovery) (\<lambda>lhs. case lhs of
       None \<Rightarrow> preturn None
     | Some c \<Rightarrow> some_marker (ploop (infix_step rec bp fl recovery) c))"

subsection \<open>Statements (stmt.cpp)\<close>

definition parse_while_stmt :: "grammar \<Rightarrow> token_set \<Rightarrow> unit parse" where
  "parse_while_stmt rec recovery =
     pseq (passert (at T_KwWhile))
    (pbind start (\<lambda>m.
     pseq advance
    (pseq (parse_condition rec (recovery \<union> {T_LeftBrace}))
    (pseq (parse_block_expr rec recovery)
    (pbind (complete m S_WhileStmt) (\<lambda>_. preturn ()))))))"

text \<open>The header of a classic loop.\<close>

definition parse_for_header :: "grammar \<Rightarrow> token_set \<Rightarrow> unit parse" where
  "parse_for_header rec recovery =
     pbind start (\<lambda>h.
       pseq (pbind (accept T_Semicolon) (\<lambda>no_decl.
         if no_decl then preturn ()
         else pseq (parse_var rec NoBlock_var (recovery \<union> {T_Semicolon}) None)
             (pseq (expect T_Semicolon) (preturn ()))))
      (pseq (pbind (accept T_Semicolon) (\<lambda>no_cond.
         if no_cond then preturn ()
         else pseq (pbind start (\<lambda>cond.
               pseq (parse_expr rec (recovery \<union> {T_Semicolon}))
              (pbind (complete cond S_Condition) (\<lambda>_. preturn ()))))
             (pseq (expect T_Semicolon) (preturn ()))))
      (pseq (pbind (at T_LeftBrace) (\<lambda>no_step.
         if no_step then preturn ()
         else pseq (parse_expr_no_block rec (recovery \<union> {T_LeftBrace})) (preturn ())))
      (pbind (complete h S_ForStmtHeader) (\<lambda>_. preturn ())))))"

definition parse_foreach_header :: "grammar \<Rightarrow> token_set \<Rightarrow> unit parse" where
  "parse_foreach_header rec recovery =
     pbind start (\<lambda>h.
       pseq (parse_binding_pattern (recovery \<union> {T_KwIn}))
      (pseq (expect T_KwIn)
      (pseq (parse_expr_no_block rec (recovery \<union> {T_LeftBrace}))
      (pbind (complete h S_ForEachStmtHeader) (\<lambda>_. preturn ())))))"

text \<open>The last exit leaves the marker \<open>m\<close> incomplete.\<close>

definition parse_for_stmt :: "grammar \<Rightarrow> token_set \<Rightarrow> unit parse" where
  "parse_for_stmt rec recovery =
     pseq (passert (at T_KwFor))
    (pbind start (\<lambda>m.
     pseq advance
    (pseq (pbind (pand (pbind (ahead 0) (\<lambda>t. preturn (t = T_LeftParen)))
                       (pbind (ahead 1) (\<lambda>t. preturn (t \<in> VAR_FIRST)))) (\<lambda>paren.
       if paren then error (''classic for loops do not start with ''
         @ to_description T_LeftParen)
       else preturn ()))
    (pbind (por (at T_Semicolon) (at_any VAR_FIRST)) (\<lambda>classic.
     if classic then
       pseq (parse_for_header rec recovery)
      (pseq (parse_block_expr rec recovery)
      (pbind (complete m S_ForStmt) (\<lambda>_. preturn ())))
     else pbind (at_any BINDING_PATTERN_FIRST) (\<lambda>foreach.
       if foreach then
         pseq (parse_foreach_header rec recovery)
        (pseq (parse_block_expr rec recovery)
        (pbind (complete m S_ForEachStmt) (\<lambda>_. preturn ())))
       else error_recover ''expected a for each loop or a classic for loop'' recovery))))))"

definition parse_var_stmt :: "grammar \<Rightarrow> token_set \<Rightarrow> unit parse" where
  "parse_var_stmt rec recovery =
     pseq (passert (at_any VAR_FIRST))
    (pbind start (\<lambda>m.
     pseq (parse_var rec Default_var (recovery \<union> {T_Semicolon}) None)
    (pseq (expect T_Semicolon)
    (pbind (complete m S_VarStmt) (\<lambda>_. preturn ())))))"

definition parse_expr_stmt :: "grammar \<Rightarrow> token_set \<Rightarrow> unit parse" where
  "parse_expr_stmt rec recovery =
     pseq (passert (at_any EXPR_FIRST))
    (pbind (pnot (at_any EXPR_STMT_OPTIONAL_SEMI)) (\<lambda>need_semi.
     pbind start (\<lambda>m.
     pseq (parse_expr rec (recovery \<union> {T_Semicolon}))
    (pseq (if need_semi then expect T_Semicolon else accept T_Semicolon)
    (pbind (complete m S_ExprStmt) (\<lambda>_. preturn ()))))))"

definition parse_stmt :: "grammar \<Rightarrow> token_set \<Rightarrow> unit parse" where
  "parse_stmt rec recovery =
     pbind current (\<lambda>t.
       if t = T_KwDefer then
         pbind start (\<lambda>m.
           pseq advance
          (pseq (parse_expr rec (recovery \<union> {T_Semicolon}))
          (pseq (expect T_Semicolon)
          (pbind (complete m S_DeferStmt) (\<lambda>_. preturn ())))))
       else if t = T_KwAssert then
         pbind start (\<lambda>m.
           pseq advance
          (pseq (parse_arg_list rec recovery)
          (pseq (expect T_Semicolon)
          (pbind (complete m S_AssertStmt) (\<lambda>_. preturn ())))))
       else if t = T_KwWhile then parse_while_stmt rec recovery
       else if t = T_KwFor then parse_for_stmt rec recovery
       else pbind (at_any VAR_FIRST) (\<lambda>var.
         if var then parse_var_stmt rec recovery
         else pbind (at_any EXPR_FIRST) (\<lambda>expr.
           if expr then parse_expr_stmt rec recovery
           else error_recover ''expected a statement'' recovery)))"

subsection \<open>The recursion\<close>

primrec parse_call :: "nat \<Rightarrow> grammar" where
  "parse_call 0 c = pfail Out_of_fuel"
| "parse_call (Suc n) c =
     (case c of
        Call_expr bp fl recovery \<Rightarrow> parse_expr_bp (parse_call n) bp fl recovery
      | Call_if recovery \<Rightarrow> some_marker (parse_if_expr (parse_call n) recovery)
      | Call_stmt recovery \<Rightarrow> pseq (parse_stmt (parse_call n) recovery) (preturn None))"

subsection \<open>Items and files (item.cpp)\<close>

definition modifiers_step :: "marker option \<Rightarrow> (bool \<times> marker option) parse" where
  "modifiers_step modifiers =
     pbind (at_any MODIFIERS) (\<lambda>more.
       if \<not> more then preturn (False, modifiers)
       else case modifiers of
           None \<Rightarrow> pbind start (\<lambda>m. pseq advance (preturn (True, Some m)))
         | Some m \<Rightarrow> pseq advance (preturn (True, Some m)))"

definition try_parse_modifiers :: "completed_marker option parse" where
  "try_parse_modifiers =
     pbind (ploop modifiers_step None) (\<lambda>modifiers. case modifiers of
        None \<Rightarrow> preturn None
      | Some m \<Rightarrow> some_marker (complete m S_Modifiers))"

definition parse_import_path :: "token_set \<Rightarrow> unit parse" where
  "parse_import_path recovery =
     pbind start (\<lambda>m.
       pseq (puntil (at T_Eof)
         (pseq (pbind (accept T_Identifier) (\<lambda>segment.
            if segment then preturn ()
            else error_recover ''expected an import path segment'' (recovery \<union> {T_Dot})))
         (accept T_Dot)))
      (pbind (complete m S_ImportPath) (\<lambda>_. preturn ())))"

definition parse_import :: "unit parse" where
  "parse_import =
     pseq (passert (at T_KwImport))
    (pbind start (\<lambda>m.
     pseq advance
    (pseq (parse_import_path (ITEM_FIRST \<union> {T_KwAs, T_Semicolon}))
    (pseq (pbind (accept T_KwAs) (\<lambda>alias.
       if alias then pseq (expect T_Identifier) (preturn ()) else preturn ()))
    (pseq (expect T_Semicolon)
    (pbind (complete m S_ImportItem) (\<lambda>_. preturn ())))))))"

definition parse_item :: "grammar \<Rightarrow> token_set \<Rightarrow> unit parse" where
  "parse_item rec recovery =
     pbind (at T_KwImport) (\<lambda>import.
       if import then parse_import
       else pbind start (\<lambda>item.
         pbind try_parse_modifiers (\<lambda>modifiers.
         pbind (at_any VAR_FIRST) (\<lambda>var.
           if var then
             pbind (parse_var rec Default_var (recovery \<union> {T_Semicolon}) modifiers) (\<lambda>_.
             pseq (expect T_Semicolon)
            (pbind (complete item S_VarItem) (\<lambda>_. preturn ())))
           else pbind (at T_KwFunc) (\<lambda>func.
             if func then
               pbind (parse_func rec recovery modifiers) (\<lambda>kind.
               pseq (if kind = ShortExprBody then pseq (expect T_Semicolon) (preturn ())
                     else preturn ())
              (pbind (complete item S_FuncItem) (\<lambda>_. preturn ())))
             else
               pbind (error_recover (if modifiers \<noteq> None
                 then ''expected a function or a variable declaration''
                 else ''expected a top level item'') recovery) (\<lambda>_.
               pbind (complete item S_Error) (\<lambda>_. preturn ())))))))"

text \<open>The advance after a closing brace skips the token after it: \<open>accept_any\<close> took the brace.\<close>

definition parse_file_item :: "grammar \<Rightarrow> unit parse" where
  "parse_file_item rec =
     pbind (accept T_Semicolon) (\<lambda>semi.
       if semi then preturn ()
       else pbind (accept_any CLOSING_BRACES) (\<lambda>brace.
         if brace \<noteq> None then
           pbind start (\<lambda>err.
             pseq advance
            (pseq (error ''unmatched brace'')
            (pbind (complete err S_Error) (\<lambda>_. preturn ()))))
         else pbind (at_any NESTING_START) (\<lambda>nested.
           if nested then discard_nested
           else parse_item rec ITEM_FIRST)))"

definition parse_file_node :: "grammar \<Rightarrow> completed_marker parse" where
  "parse_file_node rec =
     pbind start (\<lambda>m.
       pseq (puntil (at T_Eof) (pseq (parse_file_item rec) (preturn True)))
            (complete m S_File))"

definition parse_file :: "unit parse" where
  "parse_file p = pseq (parse_file_node (parse_call (budget p))) (preturn ()) p"

text \<open>The parsing step of \<open>Compiler::parse_file\<close>, up to the events.\<close>

definition parse_tokens :: "string \<Rightarrow> token list \<Rightarrow> parse_failure + parser_event list" where
  "parse_tokens source tokens =
     bind_sum (pseq parse_file (pbind (at T_Eof) (\<lambda>eof.
         if eof then preturn () else error ''giving up before the end of file''))
       (new_parser source tokens))
     (\<lambda>(_, p). Inr (parser_events p))"

end
