(* ===== verification/ParserLogic.thy ===== *)
theory ParserLogic
  imports Grammar
begin

text \<open>
  A program logic for the operations of the parser: total correctness up to the exception of
  \<open>on_inspection\<close>, with the shape of the events that an operation adds.

  \<open>runs i A ss k A' ss' o\<close>: from a state with a budget of at most \<open>i\<close>, in which the tokens
  ahead satisfy \<open>A\<close> and whose last events have the shapes \<open>ss\<close> (the last first), \<open>k\<close> either
  raises \<open>Stuck\<close> or yields \<open>x\<close> and a state with a budget of at most \<open>o\<close>, tokens ahead that
  satisfy \<open>A' x\<close> and the events replaced by ones of shapes \<open>ss' x\<close>. So no assertion
  fails, and neither a loop nor the recursion exceeds its bound.
\<close>

named_theorems parse_rules

subsection \<open>The invariant of the state\<close>

definition range_ok :: "string \<Rightarrow> source_range \<Rightarrow> bool" where
  "range_ok src r \<longleftrightarrow> range_begin r \<le> range_end r \<and> unat (range_end r) \<le> length src"

text \<open>An event's token is the source's token, except for contextual keywords.\<close>

definition same_token :: "string \<Rightarrow> token \<Rightarrow> token \<Rightarrow> bool" where
  "same_token src t t' \<longleftrightarrow> token_range t' = token_range t \<and>
     (token_kind t' = token_kind t \<or>
      token_kind t = T_Identifier \<and>
        (token_kind t', substring src (token_range t))
          \<in> {(T_KwMap, Some ''map''), (T_KwSet, Some ''set'')})"

definition parser_ok :: "parser \<Rightarrow> bool" where
  "parser_ok p \<longleftrightarrow>
     parser_pos p \<le> length (parser_tokens p) \<and> inspections p < 1024 \<and>
     (\<forall>t \<in> set (parser_tokens p). range_ok (parser_source p) (token_range t)) \<and>
     list_all2 (same_token (parser_source p)) (take (parser_pos p) (parser_tokens p))
       (events_tokens (parser_events p))"

definition same_input :: "parser \<Rightarrow> parser \<Rightarrow> bool" where
  "same_input p p' \<longleftrightarrow>
     parser_source p' = parser_source p \<and> parser_tokens p' = parser_tokens p"

text \<open>What an operation sees of the input: the source and the tokens ahead.\<close>

type_synonym look = "string \<times> token list"

definition look :: "parser \<Rightarrow> look" where
  "look p = (parser_source p, drop (parser_pos p) (parser_tokens p))"

fun kind_at :: "nat \<Rightarrow> look \<Rightarrow> token_type" where
  "kind_at n (src, toks) = (if n < length toks then token_kind (toks ! n) else T_Eof)"

abbreviation kind :: "look \<Rightarrow> token_type" where
  "kind \<equiv> kind_at 0"

fun text_at :: "look \<Rightarrow> string option" where
  "text_at (src, toks) =
     substring src (if toks = [] then from_offset 0 else token_range (hd toks))"

subsection \<open>The shapes of events\<close>

datatype shape =
    Plain
  | Fresh marker
  | Opened marker
  | Done completed_marker

fun seg :: "shape \<Rightarrow> nat \<Rightarrow> parser_event list \<Rightarrow> bool" where
  "seg Plain b es = (\<exists>f. represents b es f)"
| "seg (Fresh m) b es = (\<exists>es' f. es = E_Tombstone # es' \<and> m = b \<and> represents (Suc b) es' f)"
| "seg (Opened m) b es = (\<exists>f. open_links b [] es m f)"
| "seg (Done c) b es = (\<exists>n. links b [] es c n)"

fun segs :: "shape list \<Rightarrow> nat \<Rightarrow> parser_event list \<Rightarrow> bool" where
  "segs [] b es = (es = [])"
| "segs (s # ss) b es =
     (\<exists>es1 es2. es = es1 @ es2 \<and> segs ss b es1 \<and> seg s (b + length es1) es2)"

fun growing :: "shape list \<Rightarrow> bool" where
  "growing (Plain # ss) = True"
| "growing (Fresh m # ss) = True"
| "growing (Opened m # ss) = True"
| "growing ss = False"

definition covers :: "shape list \<Rightarrow> shape list \<Rightarrow> bool" where
  "covers ss ss' \<longleftrightarrow> (\<forall>b es. segs ss b es \<longrightarrow> segs ss' b es)"

lemma seg_append:
  assumes "seg s b es" "growing (s # ss)" "represents (b + length es) es' f"
  shows "seg s b (es @ es')"
proof (cases s)
  case Plain
  then obtain f1 where "represents b es f1"
    using assms(1) by auto
  then show ?thesis
    using represents_append [OF _ assms(3)] Plain by auto
next
  case (Fresh m)
  then obtain es1 f1 where "es = E_Tombstone # es1" "m = b" "represents (Suc b) es1 f1"
    using assms by auto
  then show ?thesis
    using represents_append [of "Suc b" es1 f1 es' f] assms(3) Fresh by auto
next
  case (Opened m)
  then show ?thesis
    using assms open_links_append by fastforce
qed (use assms in auto)

lemma segs_append:
  assumes "segs ss b es" "growing ss" "represents (b + length es) es' f"
  shows "segs ss b (es @ es')"
proof (cases ss)
  case (Cons s ss')
  then obtain es1 es2 where "es = es1 @ es2" "segs ss' b es1" "seg s (b + length es1) es2"
    using assms(1) by auto
  then show ?thesis
    using seg_append [of s "b + length es1" es2 ss' es' f] assms(2,3) Cons
    by (auto simp: add.assoc)
qed (use assms in auto)

lemma covers_refl [parse_rules]: "covers ss ss"
  by (simp add: covers_def)

lemma covers_fresh_opened: "covers (Fresh m # ss) (Opened m # ss)"
proof -
  have "seg (Fresh m) b es \<Longrightarrow> seg (Opened m) b es" for b es
    using open_last [of b _ _ "[]"] by fastforce
  then show ?thesis
    by (fastforce simp: covers_def simp del: seg.simps)
qed

lemma covers_drop:
  assumes "growing ss" "s = Plain \<or> s = Fresh m \<or> s = Done c"
  shows "covers (s # ss) ss"
  unfolding covers_def
proof (intro allI impI)
  fix b es
  assume "segs (s # ss) b es"
  then obtain es1 es2 where es: "es = es1 @ es2" "segs ss b es1" "seg s (b + length es1) es2"
    by auto
  have "\<exists>f. represents (b + length es1) es2 f"
    using es(3) assms(2) represents_link represents_Tombstone by fastforce
  then show "segs ss b es"
    using segs_append [OF es(2) assms(1)] es(1) by blast
qed

lemma covers_done [parse_rules]: "growing ss \<Longrightarrow> covers (Done c # ss) ss"
  and covers_fresh [parse_rules]: "growing ss \<Longrightarrow> covers (Fresh m # ss) ss"
  by (rule covers_drop; blast)+

lemma growing_simps [simp]:
  "growing (Plain # ss)" "growing (Fresh m # ss)" "growing (Opened m # ss)"
  by simp_all

subsection \<open>The judgement\<close>

definition runs ::
    "nat \<Rightarrow> (look \<Rightarrow> bool) \<Rightarrow> shape list \<Rightarrow> 'a parse \<Rightarrow> ('a \<Rightarrow> look \<Rightarrow> bool) \<Rightarrow> ('a \<Rightarrow> shape list) \<Rightarrow>
     nat \<Rightarrow> bool" where
  "runs i A ss k A' ss' j \<longleftrightarrow> (\<forall>p pre es.
     parser_ok p \<longrightarrow> budget p \<le> i \<longrightarrow> A (look p) \<longrightarrow> parser_events p = pre @ es \<longrightarrow>
     segs ss (length pre) es \<longrightarrow>
     (case k p of
        Inl e \<Rightarrow> e = Stuck
      | Inr (x, p') \<Rightarrow> parser_ok p' \<and> same_input p p' \<and> budget p' \<le> j \<and> A' x (look p') \<and>
          (\<exists>es'. parser_events p' = pre @ es' \<and> segs (ss' x) (length pre) es')))"

lemma runsI:
  assumes "\<And>p pre es. parser_ok p \<Longrightarrow> budget p \<le> i \<Longrightarrow> A (look p) \<Longrightarrow>
      parser_events p = pre @ es \<Longrightarrow> segs ss (length pre) es \<Longrightarrow>
      k p = Inl Stuck \<or> (\<exists>x p' es'. k p = Inr (x, p') \<and> parser_ok p' \<and> same_input p p' \<and>
        budget p' \<le> j \<and> A' x (look p') \<and> parser_events p' = pre @ es' \<and>
        segs (ss' x) (length pre) es')"
  shows "runs i A ss k A' ss' j"
  unfolding runs_def using assms by fastforce

lemma runsE:
  assumes "runs i A ss k A' ss' j" "parser_ok p" "budget p \<le> i" "A (look p)"
    "parser_events p = pre @ es" "segs ss (length pre) es"
  obtains "k p = Inl Stuck"
  | x p' es' where "k p = Inr (x, p')" "parser_ok p'" "same_input p p'" "budget p' \<le> j"
      "A' x (look p')" "parser_events p' = pre @ es'" "segs (ss' x) (length pre) es'"
proof -
  note run = assms(1) [unfolded runs_def, rule_format, OF assms(2-6)]
  show ?thesis
  proof (cases "k p")
    case (Inl e)
    then show ?thesis
      using run that(1) by simp
  next
    case (Inr r)
    obtain x p' where r: "r = (x, p')"
      by fastforce
    show ?thesis
      using run by (auto simp: Inr r intro: that(2))
  qed
qed

lemma same_input_trans: "same_input p p' \<Longrightarrow> same_input p' p'' \<Longrightarrow> same_input p p''"
  by (simp add: same_input_def)

lemma budget_pos: "parser_ok p \<Longrightarrow> 0 < budget p"
  by (simp add: parser_ok_def budget_def)

lemma runs_zero: "runs 0 A ss k A' ss' j"
  by (rule runsI) (use budget_pos in fastforce)

lemma runs_conseq:
  assumes "runs i A ss k A' ss' j" "i' \<le> i" "j \<le> j'"
    "\<And>l. B l \<Longrightarrow> A l" "\<And>x l. A' x l \<Longrightarrow> B' x l" "covers tt ss" "\<And>x. covers (ss' x) (tt' x)"
  shows "runs i' B tt k B' tt' j'"
proof (rule runsI)
  fix p pre es
  assume p: "parser_ok p" "budget p \<le> i'" "B (look p)" "parser_events p = pre @ es"
    and es: "segs tt (length pre) es"
  have start: "budget p \<le> i" "segs ss (length pre) es"
    using p(2) assms(2,6) es by (auto simp: covers_def)
  show "k p = Inl Stuck \<or>
      (\<exists>x p' es'. k p = Inr (x, p') \<and> parser_ok p' \<and> same_input p p' \<and> budget p' \<le> j' \<and>
        B' x (look p') \<and> parser_events p' = pre @ es' \<and> segs (tt' x) (length pre) es')"
  proof (rule runsE [OF assms(1) p(1) start(1) assms(4) [OF p(3)] p(4) start(2)])
    fix x p' es'
    assume run: "k p = Inr (x, p')" "parser_ok p'" "same_input p p'" "budget p' \<le> j"
      "A' x (look p')" "parser_events p' = pre @ es'" "segs (ss' x) (length pre) es'"
    show ?thesis
      using run(1-4,6) assms(3) assms(5) [OF run(5)] assms(7) [unfolded covers_def, rule_format, OF run(7)]
      by (intro disjI2 exI) auto
  qed simp
qed

lemma runs_bind:
  assumes "runs i A ss k B tt j" "\<And>x. runs j (B x) (tt x) (f x) A' ss' n"
  shows "runs i A ss (pbind k f) A' ss' n"
proof (rule runsI)
  fix p pre es
  assume p: "parser_ok p" "budget p \<le> i" "A (look p)" "parser_events p = pre @ es"
    "segs ss (length pre) es"
  show "pbind k f p = Inl Stuck \<or> (\<exists>x p' es'. pbind k f p = Inr (x, p') \<and> parser_ok p' \<and>
      same_input p p' \<and> budget p' \<le> n \<and> A' x (look p') \<and> parser_events p' = pre @ es' \<and>
      segs (ss' x) (length pre) es')"
  proof (rule runsE [OF assms(1) p])
    fix x p' es'
    assume k: "k p = Inr (x, p')" "same_input p p'"
      and p': "parser_ok p'" "budget p' \<le> j" "B x (look p')" "parser_events p' = pre @ es'"
        "segs (tt x) (length pre) es'"
    show ?thesis
      by (rule runsE [OF assms(2) p'])
        (use k same_input_trans in \<open>auto simp: pbind_def\<close>)
  qed (simp add: pbind_def)
qed

subsection \<open>Rules for the primitive operations\<close>

lemma runs_return:
  assumes "i \<le> j" "\<And>l. A l \<Longrightarrow> A' x l" "covers ss (ss' x)"
  shows "runs i A ss (preturn x) A' ss' j"
  by (rule runsI) (use assms in \<open>auto simp: preturn_def same_input_def covers_def\<close>)

lemma runs_seq:
  assumes "runs i A ss k B tt j" "\<And>x. covers (tt x) ss"
    "\<And>x. runs j (B x) ss f A' ss' n"
  shows "runs i A ss (pseq k f) A' ss' n"
proof -
  have "runs i A ss k B (\<lambda>_. ss) j"
    by (rule runs_conseq [OF assms(1) order_refl order_refl _ _ covers_refl assms(2)]; assumption)
  then show ?thesis
    unfolding pseq_def by (rule runs_bind) (rule assms(3))
qed

lemma runs_inspection:
  "runs i A ss on_inspection (\<lambda>_. A) (\<lambda>_. ss) (i - 1)"
  by (rule runsI)
    (auto simp: on_inspection_def Let_def parser_ok_def budget_def same_input_def look_def)

lemma drop_nth_kind:
  "parser_pos p \<le> length (parser_tokens p) \<Longrightarrow>
   (if length (parser_tokens p) - parser_pos p \<le> n then T_Eof
    else token_kind (parser_tokens p ! (parser_pos p + n))) = kind_at n (look p)"
  by (auto simp: look_def)

lemma runs_read:
  assumes "\<And>p. parser_ok p \<Longrightarrow> k p = Inr (f (look p), p)"
  shows "runs i A ss (pseq on_inspection k) (\<lambda>x l. A l \<and> x = f l) (\<lambda>_. ss) (i - 1)"
  unfolding pseq_def
  by (rule runs_bind [OF runs_inspection], rule runsI)
    (use assms in \<open>auto simp: same_input_def\<close>)

lemma runs_ahead:
  "runs i A ss (ahead n) (\<lambda>t l. A l \<and> t = kind_at n l) (\<lambda>_. ss) (i - 1)"
  unfolding ahead_def
proof (rule runs_read)
  fix p
  assume "parser_ok p"
  then show "(if length (parser_tokens p) - parser_pos p \<le> n then Inr (T_Eof, p)
      else Inr (token_kind (parser_tokens p ! (parser_pos p + n)), p)) = Inr (kind_at n (look p), p)"
    using drop_nth_kind [of p n] by (auto simp: parser_ok_def)
qed

lemma runs_current:
  "runs i A ss current (\<lambda>t l. A l \<and> t = kind l) (\<lambda>_. ss) (i - 1)"
  unfolding current_def by (rule runs_ahead)

lemma runs_at:
  "runs i A ss (at ty) (\<lambda>b l. A l \<and> b = (kind l = ty)) (\<lambda>_. ss) (i - 1)"
  unfolding at_def by (rule runs_bind [OF runs_current runs_return]) (auto intro: covers_refl)

lemma runs_at_any:
  "runs i A ss (at_any ts) (\<lambda>b l. A l \<and> b = (kind l \<in> ts)) (\<lambda>_. ss) (i - 1)"
  unfolding at_any_def by (rule runs_bind [OF runs_current runs_return]) (auto intro: covers_refl)

lemma runs_at_source:
  "runs i A ss (at_source txt) (\<lambda>b l. A l \<and> b = (text_at l = Some txt)) (\<lambda>_. ss) (i - 1)"
  unfolding at_source_def
proof (rule runs_read)
  fix p
  assume p: "parser_ok p"
  let ?r = "if parser_pos p < length (parser_tokens p)
    then token_range (parser_tokens p ! parser_pos p) else from_offset 0"
  have looked: "text_at (look p) = substring (parser_source p) ?r"
    using p by (auto simp: look_def parser_ok_def hd_drop_conv_nth)
  have "range_ok (parser_source p) ?r"
    using p by (auto simp: parser_ok_def range_ok_def from_offset_def)
  then obtain s where "substring (parser_source p) ?r = Some s"
    by (auto simp: substring_def range_ok_def)
  then show "(let r = ?r in case substring (parser_source p) r of None \<Rightarrow> Inl Check_failed
      | Some s \<Rightarrow> Inr (s = txt, p)) = Inr (text_at (look p) = Some txt, p)"
    using looked by (simp add: Let_def)
qed

lemma segs_snoc:
  assumes "segs ss b es" "growing ss" "represents (b + length es) [ev] f"
  shows "segs ss b (es @ [ev])"
  using segs_append [OF assms(1,2), of "[ev]" f] assms(3) by simp

lemma runs_error:
  assumes "growing ss"
  shows "runs i A ss (error msg) (\<lambda>_. A) (\<lambda>_. ss) i"
proof (rule runsI)
  fix p pre es
  assume p: "parser_ok p" "budget p \<le> i" "A (look p)" "parser_events p = pre @ es"
    "segs ss (length pre) es"
  have "segs ss (length pre) (es @ [E_Error msg])"
    using segs_snoc [OF p(5) assms] represents_Error [OF represents_Nil] by blast
  then show "error msg p = Inl Stuck \<or> (\<exists>x p' es'. error msg p = Inr (x, p') \<and> parser_ok p' \<and>
      same_input p p' \<and> budget p' \<le> i \<and> A (look p') \<and> parser_events p' = pre @ es' \<and>
      segs ss (length pre) es')"
    using p by (auto simp: error_def parser_ok_def same_input_def budget_def look_def)
qed

lemma runs_take_token:
  assumes "growing ss"
    and token: "\<And>src t toks. A (src, t # toks) \<Longrightarrow> same_token src t (f t)"
    and k: "\<And>p. k p = (if length (parser_tokens p) \<le> parser_pos p then Inr ((), p)
      else Inr ((), p\<lparr>inspections := 0, parser_pos := Suc (parser_pos p),
        parser_events := parser_events p @ [E_Token (f (parser_tokens p ! parser_pos p))]\<rparr>))"
  shows "runs i A ss k (\<lambda>_ l. \<exists>l0. A l0 \<and> l = (fst l0, tl (snd l0))) (\<lambda>_. ss) i"
    (is "runs i A ss k (\<lambda>_. ?next) _ i")
proof (rule runsI)
  fix p pre es
  assume p: "parser_ok p" "budget p \<le> i" "A (look p)" "parser_events p = pre @ es"
    "segs ss (length pre) es"
  show "k p = Inl Stuck \<or> (\<exists>x p' es'. k p = Inr (x, p') \<and> parser_ok p' \<and>
      same_input p p' \<and> budget p' \<le> i \<and> ?next (look p') \<and> parser_events p' = pre @ es' \<and>
      segs ss (length pre) es')"
  proof (cases "length (parser_tokens p) \<le> parser_pos p")
    case True
    then have "?next (look p)"
      using p(3) by (intro exI [of _ "look p"]) (simp add: look_def)
    then show ?thesis
      using p True by (simp add: k same_input_def)
  next
    case False
    let ?t = "parser_tokens p ! parser_pos p"
    have "look p = (parser_source p, ?t # drop (Suc (parser_pos p)) (parser_tokens p))"
      using False by (simp add: look_def Cons_nth_drop_Suc)
    then have "same_token (parser_source p) ?t (f ?t)"
      using token p(3) by auto
    moreover have "segs ss (length pre) (es @ [E_Token (f ?t)])"
      using segs_snoc [OF p(5) assms(1)] represents_Token [OF represents_Nil] by blast
    moreover have "list_all2 (same_token (parser_source p))
        (take (Suc (parser_pos p)) (parser_tokens p)) (events_tokens (parser_events p) @ [f ?t])"
      using p(1) False \<open>same_token _ _ _\<close>
      by (auto simp: parser_ok_def take_Suc_conv_app_nth intro!: list_all2_appendI)
    moreover have "?next (parser_source p, drop (Suc (parser_pos p)) (parser_tokens p))"
      using p(3) by (intro exI [of _ "look p"]) (simp add: look_def drop_Suc tl_drop)
    moreover have "1024 * (length (parser_tokens p) - Suc (parser_pos p)) + 1024 \<le> i"
      using p(1,2) False by (auto simp: parser_ok_def budget_def)
    ultimately show ?thesis
      using p False by (simp add: k parser_ok_def same_input_def budget_def look_def)
  qed
qed

lemma runs_advance_next:
  assumes "growing ss"
  shows "runs i A ss advance (\<lambda>_ l. \<exists>l0. A l0 \<and> l = (fst l0, tl (snd l0))) (\<lambda>_. ss) i"
  by (rule runs_take_token [OF assms, where f = "\<lambda>t. t"]) (auto simp: advance_def same_token_def)

lemma runs_advance:
  assumes "growing ss"
  shows "runs i A ss advance (\<lambda>_ _. True) (\<lambda>_. ss) i"
  by (rule runs_conseq [OF runs_advance_next [OF assms] order_refl order_refl])
    (auto intro: covers_refl)

text \<open>The token after the current one becomes the current one.\<close>

lemma runs_advance_to:
  assumes "growing ss" "\<And>l. A l \<Longrightarrow> kind_at 1 l = ty"
  shows "runs i A ss advance (\<lambda>_ l. kind l = ty) (\<lambda>_. ss) i"
proof (rule runs_conseq [OF runs_advance_next [OF assms(1)] order_refl order_refl])
  fix l
  assume "\<exists>l0. A l0 \<and> l = (fst l0, tl (snd l0))"
  then obtain l0 where "A l0" "l = (fst l0, tl (snd l0))"
    by blast
  then show "kind l = ty"
    using assms(2) [of l0] by (cases l0) (auto simp: nth_tl)
qed (rule covers_refl | assumption)+

lemma runs_advance_with_type:
  assumes "growing ss" "\<And>l. A l \<Longrightarrow> kind l = T_Identifier"
    "\<And>l. A l \<Longrightarrow> (ty, text_at l) \<in> {(T_KwMap, Some ''map''), (T_KwSet, Some ''set'')}"
  shows "runs i A ss (advance_with_type ty) (\<lambda>_ _. True) (\<lambda>_. ss) i"
proof -
  have "runs i A ss (advance_with_type ty)
      (\<lambda>_ l. \<exists>l0. A l0 \<and> l = (fst l0, tl (snd l0))) (\<lambda>_. ss) i"
    by (rule runs_take_token [OF assms(1),
          where f = "\<lambda>t. \<lparr>token_kind = ty, token_range = token_range t\<rparr>"])
      (use assms(2,3) in \<open>fastforce simp: advance_with_type_def same_token_def\<close>)+
  then show ?thesis
    by (rule runs_conseq) (auto intro: covers_refl)
qed

subsection \<open>Rules for markers\<close>

lemma runs_start:
  "runs i A ss start (\<lambda>_. A) (\<lambda>m. Fresh m # ss) i"
proof (rule runsI)
  fix p pre es
  assume p: "parser_ok p" "budget p \<le> i" "A (look p)" "parser_events p = pre @ es"
    "segs ss (length pre) es"
  have "segs (Fresh (length pre + length es) # ss) (length pre) (es @ [E_Tombstone])"
    unfolding segs.simps
    by (rule exI [of _ es], rule exI [of _ "[E_Tombstone]"]) (use p(5) represents_Nil in auto)
  then show "start p = Inl Stuck \<or> (\<exists>x p' es'. start p = Inr (x, p') \<and> parser_ok p' \<and>
      same_input p p' \<and> budget p' \<le> i \<and> A (look p') \<and> parser_events p' = pre @ es' \<and>
      segs (Fresh x # ss) (length pre) es')"
    using p by (auto simp: start_def parser_ok_def same_input_def budget_def look_def)
qed

lemma events_tokens_update:
  "m < length es \<Longrightarrow> event_tokens (es ! m) = [] \<Longrightarrow> event_tokens ev = [] \<Longrightarrow>
   events_tokens (es[m := ev]) = events_tokens es"
  by (induction es arbitrary: m) (auto split: nat.splits simp: nth_Cons)

lemma runs_complete_opened:
  "runs i A (Opened m # ss) (complete m ty) (\<lambda>_. A) (\<lambda>c. Done c # ss) i"
proof (rule runsI)
  fix p pre es
  assume p: "parser_ok p" "budget p \<le> i" "A (look p)" "parser_events p = pre @ es"
    and es: "segs (Opened m # ss) (length pre) es"
  obtain es1 es2 f where e: "es = es1 @ es2" "segs ss (length pre) es1"
    and o: "open_links (length (pre @ es1)) [] es2 m f"
    using es by auto
  let ?b = "length (pre @ es1)"
  note m = open_links_start [OF o]
  have upd: "(parser_events p)[m := E_Start ty 0] = pre @ es1 @ es2[m - ?b := E_Start ty 0]"
    using m by (auto simp: p(4) e(1) list_update_append)
  have at_m: "m < length (parser_events p)" "parser_events p ! m = E_Tombstone"
    using m by (auto simp: p(4) e(1) nth_append)
  have toks: "events_tokens ((parser_events p)[m := E_Start ty 0]) = events_tokens (parser_events p)"
    by (rule events_tokens_update) (use at_m in auto)
  have "segs (Done m # ss) (length pre) (es1 @ es2[m - ?b := E_Start ty 0] @ [E_Finish])"
    using e(2) open_links_complete [OF o, of ty] by auto
  then show "complete m ty p = Inl Stuck \<or> (\<exists>x p' es'. complete m ty p = Inr (x, p') \<and>
      parser_ok p' \<and> same_input p p' \<and> budget p' \<le> i \<and> A (look p') \<and>
      parser_events p' = pre @ es' \<and> segs (Done x # ss) (length pre) es')"
    using p(1-3) at_m upd toks
    by (auto simp: complete_def parser_ok_def same_input_def budget_def look_def
        simp del: segs.simps)
qed

lemma runs_complete:
  "runs i A (Fresh m # ss) (complete m ty) (\<lambda>_. A) (\<lambda>c. Done c # ss) i"
  "runs i A (Opened m # ss) (complete m ty) (\<lambda>_. A) (\<lambda>c. Done c # ss) i"
proof -
  show "runs i A (Fresh m # ss) (complete m ty) (\<lambda>_. A) (\<lambda>c. Done c # ss) i"
    by (rule runs_conseq [OF runs_complete_opened order_refl order_refl _ _
          covers_fresh_opened covers_refl]; assumption)
qed (rule runs_complete_opened)

lemma runs_precede:
  "runs i A (Done c # ss) (precede c) (\<lambda>_. A) (\<lambda>m. Opened m # ss) i"
proof (rule runsI)
  fix p pre es
  assume p: "parser_ok p" "budget p \<le> i" "A (look p)" "parser_events p = pre @ es"
    and es: "segs (Done c # ss) (length pre) es"
  obtain es1 es2 n where e: "es = es1 @ es2" "segs ss (length pre) es1"
    and l: "links (length (pre @ es1)) [] es2 c n"
    using es by auto
  let ?b = "length (pre @ es1)" and ?m = "length (parser_events p)"
  have m: "?m = ?b + length es2"
    by (simp add: p(4) e(1))
  note c = links_start [OF l]
  obtain ty where ty: "es2 ! (c - ?b) = E_Start ty 0"
    and o: "open_links ?b [] (es2[c - ?b := E_Start ty ?m] @ [E_Tombstone]) ?m [n]"
    using links_precede [OF l] m by auto
  let ?es = "parser_events p @ [E_Tombstone]"
  have upd: "?es[c := E_Start ty ?m] = pre @ es1 @ es2[c - ?b := E_Start ty ?m] @ [E_Tombstone]"
    using c by (auto simp: p(4) e(1) list_update_append)
  have at_c: "c < length ?es" "?es ! c = E_Start ty 0"
    using c ty by (auto simp: p(4) e(1) nth_append)
  have toks: "events_tokens (?es[c := E_Start ty ?m]) = events_tokens (parser_events p)"
    by (subst events_tokens_update) (use at_c in auto)
  have "segs (Opened ?m # ss) (length pre) (es1 @ es2[c - ?b := E_Start ty ?m] @ [E_Tombstone])"
    using e(2) o by auto
  moreover have "precede c p = Inr (?m, p\<lparr>parser_events := ?es[c := E_Start ty ?m]\<rparr>)"
    using at_c by (simp add: precede_def pbind_def start_def)
  ultimately show "precede c p = Inl Stuck \<or> (\<exists>x p' es'. precede c p = Inr (x, p') \<and>
      parser_ok p' \<and> same_input p p' \<and> budget p' \<le> i \<and> A (look p') \<and>
      parser_events p' = pre @ es' \<and> segs (Opened x # ss) (length pre) es')"
    using p(1-3) upd toks
    by (auto simp: parser_ok_def same_input_def budget_def look_def simp del: segs.simps)
qed

subsection \<open>Checking and synthesis\<close>

text \<open>
  The rules work in two modes. \<open>runs\<close> checks against a given postcondition; \<open>gives\<close>, the
  same relation, yields the postcondition of the first part of a sequence.
\<close>

definition gives ::
    "nat \<Rightarrow> (look \<Rightarrow> bool) \<Rightarrow> shape list \<Rightarrow> 'a parse \<Rightarrow> ('a \<Rightarrow> look \<Rightarrow> bool) \<Rightarrow> ('a \<Rightarrow> shape list) \<Rightarrow>
     nat \<Rightarrow> bool" where
  "gives = runs"

lemmas gives_primitive [parse_rules] =
  runs_ahead [folded gives_def] runs_current [folded gives_def] runs_at [folded gives_def]
  runs_at_any [folded gives_def] runs_at_source [folded gives_def] runs_error [folded gives_def]
  runs_advance [folded gives_def] runs_advance_with_type [folded gives_def]
  runs_start [folded gives_def] runs_complete [folded gives_def] runs_precede [folded gives_def]

lemma runs_gives:
  assumes "gives i A ss k B tt j" "j \<le> n" "\<And>x l. B x l \<Longrightarrow> A' x l" "\<And>x. covers (tt x) (ss' x)"
  shows "runs i A ss k A' ss' n"
  by (rule runs_conseq [OF assms(1) [unfolded gives_def] order_refl assms(2) _ assms(3)
        covers_refl assms(4)]; assumption)

lemma check_bind [parse_rules]:
  assumes "gives i A ss k B tt j" "\<And>x. runs j (B x) (tt x) (f x) A' ss' n"
  shows "runs i A ss (pbind k f) A' ss' n"
  by (rule runs_bind [OF assms(1) [unfolded gives_def] assms(2)])

lemma check_seq [parse_rules]:
  assumes "gives i A ss k B tt j" "\<And>x. covers (tt x) ss"
    "\<And>x. runs j (B x) ss f A' ss' n"
  shows "runs i A ss (pseq k f) A' ss' n"
  by (rule runs_seq [OF assms(1) [unfolded gives_def] assms(2,3)])

lemmas check_return [parse_rules] = runs_return

lemma check_if [parse_rules]:
  assumes "b \<Longrightarrow> runs i A ss k A' ss' j" "\<not> b \<Longrightarrow> runs i A ss k' A' ss' j"
  shows "runs i A ss (if b then k else k') A' ss' j"
  using assms by simp

lemma check_option [parse_rules]:
  assumes "x = None \<Longrightarrow> runs i A ss k A' ss' j"
    "\<And>c. x = Some c \<Longrightarrow> runs i A ss (f c) A' ss' j"
  shows "runs i A ss (case x of None \<Rightarrow> k | Some c \<Rightarrow> f c) A' ss' j"
  using assms by (cases x) auto

lemma check_prod [parse_rules]:
  assumes "\<And>a b. x = (a, b) \<Longrightarrow> runs i A ss (f a b) A' ss' j"
  shows "runs i A ss (case x of (a, b) \<Rightarrow> f a b) A' ss' j"
  using assms by (cases x) auto

text \<open>A block within a sequence leaves the shapes as they are.\<close>

lemma gives_block [parse_rules]:
  "runs i A ss (pbind k f) (\<lambda>_ _. True) (\<lambda>_. ss) i \<Longrightarrow>
   gives i A ss (pbind k f) (\<lambda>_ _. True) (\<lambda>_. ss) i"
  "runs i A ss (pseq k g) (\<lambda>_ _. True) (\<lambda>_. ss) i \<Longrightarrow>
   gives i A ss (pseq k g) (\<lambda>_ _. True) (\<lambda>_. ss) i"
  "runs i A ss (if b then k1 else k2) (\<lambda>_ _. True) (\<lambda>_. ss) i \<Longrightarrow>
   gives i A ss (if b then k1 else k2) (\<lambda>_ _. True) (\<lambda>_. ss) i"
  by (simp_all add: gives_def)

lemma check_fail [parse_rules]:
  "(\<And>l. \<not> A l) \<Longrightarrow> runs i A ss (pfail e) A' ss' j"
  by (simp add: runs_def)

text \<open>The shapes after an operation that may have completed a node.\<close>

primrec with_done :: "completed_marker option \<Rightarrow> shape list \<Rightarrow> shape list" where
  "with_done None ss = ss"
| "with_done (Some c) ss = Done c # ss"

lemma covers_with_done [parse_rules]:
  "growing ss \<Longrightarrow> covers (with_done r ss) ss"
  "covers ss (with_done None ss)"
  "covers (Done c # ss) (with_done (Some c) ss)"
  by (cases r; simp add: covers_refl covers_done) (simp_all add: covers_refl)

lemma check_done_option [parse_rules]:
  assumes "x = None \<Longrightarrow> runs i A ss k A' ss' j"
    "\<And>c. x = Some c \<Longrightarrow> runs i A (Done c # ss) (f c) A' ss' j"
  shows "runs i A (with_done x ss) (case x of None \<Rightarrow> k | Some c \<Rightarrow> f c) A' ss' j"
  using assms by (cases x) auto

lemma gives_has_value [parse_rules]:
  assumes "gives i A ss k B (\<lambda>r. with_done r ss) j" "growing ss"
  shows "gives i A ss (has_value k) (\<lambda>_ _. True) (\<lambda>_. ss) j"
  unfolding has_value_def gives_def
  by (rule check_bind [OF assms(1) check_return]) (simp_all add: covers_with_done assms(2))

lemma gives_some_marker [parse_rules]:
  assumes "gives i A tt k B (\<lambda>c. Done c # ss) j"
  shows "gives i A tt (some_marker k) (\<lambda>_ _. True) (\<lambda>r. with_done r ss) j"
  unfolding some_marker_def gives_def
  by (rule check_bind [OF assms(1) check_return]) (simp_all add: covers_refl)

lemma gives_and [parse_rules]:
  assumes "gives i A ss a B (\<lambda>_. ss) j" "gives j (B True) ss b C (\<lambda>_. ss) n" "n \<le> j"
  shows "gives i A ss (pand a b) (\<lambda>x l. if x then C True l else B False l \<or> C False l) (\<lambda>_. ss) j"
  unfolding pand_def gives_def
proof (rule check_bind [OF assms(1)])
  fix x
  show "runs j (B x) ss (if x then b else preturn False)
      (\<lambda>x l. if x then C True l else B False l \<or> C False l) (\<lambda>_. ss) j"
    by (rule check_if)
      (auto intro!: runs_gives [OF assms(2) assms(3)] check_return covers_refl split: if_split)
qed

lemma gives_or [parse_rules]:
  assumes "gives i A ss a B (\<lambda>_. ss) j" "gives j (B False) ss b C (\<lambda>_. ss) n" "n \<le> j"
  shows "gives i A ss (por a b) (\<lambda>x l. if x then B True l \<or> C True l else C False l) (\<lambda>_. ss) j"
  unfolding por_def gives_def
proof (rule check_bind [OF assms(1)])
  fix x
  show "runs j (B x) ss (if x then preturn True else b)
      (\<lambda>x l. if x then B True l \<or> C True l else C False l) (\<lambda>_. ss) j"
    by (rule check_if)
      (auto intro!: runs_gives [OF assms(2) assms(3)] check_return covers_refl split: if_split)
qed

lemma gives_not [parse_rules]:
  assumes "gives i A ss a B (\<lambda>_. ss) j"
  shows "gives i A ss (pnot a) (\<lambda>x. B (\<not> x)) (\<lambda>_. ss) j"
  unfolding pnot_def gives_def
  by (rule check_bind [OF assms check_return]) (simp_all add: covers_refl)

lemma gives_assert [parse_rules]:
  assumes "gives i A ss c B (\<lambda>_. ss) j" "\<And>l. \<not> B False l"
  shows "gives i A ss (passert c) (\<lambda>_. B True) (\<lambda>_. ss) j"
  unfolding passert_def gives_def
  by (rule check_bind [OF assms(1)], rule check_if)
    (auto intro!: check_return check_fail covers_refl simp: assms(2))

subsection \<open>Loops and recursion\<close>

text \<open>A body that inspects a token lowers the budget: the fuel of a loop is enough.\<close>

lemma runs_loop_fuel:
  assumes "\<And>i s. i \<le> n \<Longrightarrow> runs i (I s) (T s) (body s)
      (\<lambda>(go, s') l. if go then I s' l else Q s' l) (\<lambda>(go, s'). T s') (i - 1)"
  shows "i \<le> m \<Longrightarrow> i \<le> n \<Longrightarrow> runs i (I s) (T s) (loop_fuel m body s) Q T n"
proof (induction m arbitrary: i s)
  case 0
  then show ?case
    by (simp add: runs_zero)
next
  case (Suc m)
  have "runs (i - 1) ((\<lambda>(go, s') l. if go then I s' l else Q s' l) x) ((\<lambda>(go, s'). T s') x)
      (case x of (go, s') \<Rightarrow> if go then loop_fuel m body s' else preturn s') Q T n" for x
    by (cases x) (use Suc in \<open>auto intro!: Suc.IH runs_return covers_refl split: if_split\<close>)
  then show ?case
    unfolding loop_fuel.simps by (rule runs_bind [OF assms [OF Suc.prems(2)]])
qed

lemma runs_loop:
  assumes "\<And>i s. i \<le> n \<Longrightarrow> runs i (I s) (T s) (body s)
      (\<lambda>(go, s') l. if go then I s' l else Q s' l) (\<lambda>(go, s'). T s') (i - 1)"
  shows "gives n (I s) (T s) (ploop body s) Q T n"
  unfolding gives_def
proof (rule runsI)
  fix p pre es
  assume p: "parser_ok p" "budget p \<le> n" "I s (look p)" "parser_events p = pre @ es"
    "segs (T s) (length pre) es"
  have "runs (budget p) (I s) (T s) (loop_fuel (budget p) body s) Q T n"
    by (rule runs_loop_fuel [OF assms order_refl p(2)])
  from runsE [OF this p(1) order_refl p(3-5)]
  show "ploop body s p = Inl Stuck \<or> (\<exists>x p' es'. ploop body s p = Inr (x, p') \<and>
      parser_ok p' \<and> same_input p p' \<and> budget p' \<le> n \<and> Q x (look p') \<and>
      parser_events p' = pre @ es' \<and> segs (T x) (length pre) es')"
    unfolding ploop_def by metis
qed

lemma gives_loop [parse_rules]:
  assumes "\<And>i s. i \<le> n \<Longrightarrow> runs i (\<lambda>_. True) ss (body s) (\<lambda>_ _. True) (\<lambda>_. ss) (i - 1)"
  shows "gives n A ss (ploop body s) (\<lambda>_ _. True) (\<lambda>_. ss) n"
proof -
  have "gives n (\<lambda>_. True) ss (ploop body s) (\<lambda>_ _. True) (\<lambda>_. ss) n"
    by (rule runs_loop) (use assms in \<open>simp add: case_prod_unfold\<close>)
  then show ?thesis
    unfolding gives_def by (rule runs_conseq) (auto intro: covers_refl)
qed

lemma runs_until_step:
  assumes "gives i I ss c B (\<lambda>_. ss) (i - 1)" "\<And>l. B True l \<Longrightarrow> Q l"
    "runs (i - 1) (B False) ss b (\<lambda>go l. if go then I l else Q l) (\<lambda>_. ss) (i - 1)"
  shows "runs i I ss (until_step c b s) (\<lambda>(go, s') l. if go then I l else Q l)
    (\<lambda>(go, s'). ss) (i - 1)"
proof -
  have "until_step c b s = pbind c (\<lambda>stop. if stop then preturn (False, ())
      else pbind b (\<lambda>go. preturn (go, ())))"
    by (rule ext) (simp add: until_step_def)
  moreover have "runs i I ss (pbind c (\<lambda>stop. if stop then preturn (False, ())
      else pbind b (\<lambda>go. preturn (go, ()))))
    (\<lambda>(go, s') l. if go then I l else Q l) (\<lambda>(go, s'). ss) (i - 1)"
  proof (rule check_bind [OF assms(1)], rule check_if)
    fix stop
    assume "\<not> stop"
    then have "gives (i - 1) (B stop) ss b (\<lambda>go l. if go then I l else Q l) (\<lambda>_. ss) (i - 1)"
      using assms(3) by (simp add: gives_def)
    then show "runs (i - 1) (B stop) ss (pbind b (\<lambda>go. preturn (go, ())))
        (\<lambda>(go, s') l. if go then I l else Q l) (\<lambda>(go, s'). ss) (i - 1)"
      by (rule check_bind) (rule check_return; simp add: covers_refl split: if_splits)
  qed (use assms(2) in \<open>auto intro!: check_return covers_refl\<close>)
  ultimately show ?thesis
    by simp
qed

lemma gives_until_inv:
  assumes "\<And>i. gives i I ss c B (\<lambda>_. ss) (i - 1)" "\<And>l. B True l \<Longrightarrow> Q l"
    "\<And>i. i \<le> n - 1 \<Longrightarrow> runs i (B False) ss b (\<lambda>go l. if go then I l else Q l) (\<lambda>_. ss) i"
  shows "gives n I ss (puntil c b) (\<lambda>_. Q) (\<lambda>_. ss) n"
  unfolding puntil_def
  by (rule runs_loop, rule runs_until_step [OF assms(1,2)], assumption, rule assms(3)) simp

lemma gives_until [parse_rules]:
  assumes "\<And>i. gives i (\<lambda>_. True) ss c B (\<lambda>_. ss) (i - 1)"
    "\<And>i. i \<le> n - 1 \<Longrightarrow> runs i (B False) ss b (\<lambda>_ _. True) (\<lambda>_. ss) i"
  shows "gives n A ss (puntil c b) (\<lambda>_ _. True) (\<lambda>_. ss) n"
proof -
  have "gives n (\<lambda>_. True) ss (puntil c b) (\<lambda>_ _. True) (\<lambda>_. ss) n"
    by (rule gives_until_inv [OF assms(1)]) (use assms(2) in simp_all)
  then show ?thesis
    unfolding gives_def by (rule runs_conseq) (auto intro: covers_refl)
qed

text \<open>What is assumed of the recursive calls, up to a budget.\<close>

primrec call_pre :: "call \<Rightarrow> look \<Rightarrow> bool" where
  "call_pre (Call_expr bp fl recovery) l = True"
| "call_pre (Call_if recovery) l = (kind l = T_KwIf)"
| "call_pre (Call_stmt recovery) l = True"

definition rec_ok :: "nat \<Rightarrow> grammar \<Rightarrow> bool" where
  "rec_ok n rec \<longleftrightarrow> (\<forall>i A ss c. i \<le> n \<longrightarrow> growing ss \<longrightarrow> (\<forall>l. A l \<longrightarrow> call_pre c l) \<longrightarrow>
     runs i A ss (rec c) (\<lambda>_ _. True) (\<lambda>r. with_done r ss) i)"

lemma rec_ok_mono: "rec_ok n rec \<Longrightarrow> i \<le> n \<Longrightarrow> rec_ok i rec"
  by (auto simp: rec_ok_def)

lemma gives_rec:
  assumes "rec_ok i rec" "growing ss" "\<And>l. A l \<Longrightarrow> call_pre c l"
  shows "gives i A ss (rec c) (\<lambda>_ _. True) (\<lambda>r. with_done r ss) i"
  using assms by (simp add: rec_ok_def gives_def)

lemma growing_intros [parse_rules]:
  "growing (Plain # ss)" "growing (Fresh m # ss)" "growing (Opened m # ss)"
  by simp_all

end
