(* ===== verification/GrammarSafe.thy ===== *)
theory GrammarSafe
  imports ParserLogic
begin

text \<open>
  The parser neither fails an assertion nor exceeds the bounds on its loops and its recursion,
  and the events it emits are those of a forest whose leaves are the tokens consumed: each
  function of the grammar, checked with the rules of ParserLogic.
\<close>

subsection \<open>Derived operations\<close>

lemma gives_accept [parse_rules]:
  assumes "growing ss"
  shows "gives i A ss (accept ty) (\<lambda>_ _. True) (\<lambda>_. ss) (i - 1)"
  unfolding accept_def gives_def
  by (rule parse_rules assms TrueI | simp | (rule runs_gives, rule parse_rules))+

lemma gives_accept_any [parse_rules]:
  assumes "growing ss"
  shows "gives i A ss (accept_any ts) (\<lambda>_ _. True) (\<lambda>_. ss) (i - 1)"
  unfolding accept_any_def gives_def
  by (rule parse_rules assms TrueI | simp | (rule runs_gives, rule parse_rules))+

lemma gives_expect [parse_rules]:
  assumes "growing ss"
  shows "gives i A ss (expect ty) (\<lambda>_ _. True) (\<lambda>_. ss) (i - 1)"
  unfolding expect_def gives_def
  by (rule parse_rules assms TrueI | simp | (rule runs_gives, rule parse_rules))+

lemma gives_error_recover [parse_rules]:
  assumes "growing ss"
  shows "gives i A ss (error_recover msg recovery) (\<lambda>_ _. True) (\<lambda>_. ss) (i - 1)"
  unfolding error_recover_def gives_def
  by (rule parse_rules assms TrueI | simp | (rule runs_gives, rule parse_rules))+

subsection \<open>Error recovery\<close>

lemma gives_discard_block_impl [parse_rules]:
  assumes "growing ss" "\<And>l. A l \<Longrightarrow> kind l \<in> NESTING_START"
  shows "gives i A ss (discard_block_impl) (\<lambda>_ _. True) (\<lambda>_. ss) (i - 1)"
  unfolding discard_block_impl_def gives_def
  by (rule parse_rules assms(1) TrueI | (rule runs_gives, rule parse_rules assms(1)) | simp | (use assms(2) in \<open>fastforce simp: NESTING_START_def closing_token_def\<close>)[1])+

lemma gives_discard_nested [parse_rules]:
  assumes "growing ss" "\<And>l. A l \<Longrightarrow> kind l \<in> NESTING_START"
  shows "gives i A ss (discard_nested) (\<lambda>_ _. True) (\<lambda>_. ss) i"
  unfolding discard_nested_def gives_def
  by (rule parse_rules assms(1) TrueI | (rule runs_gives, rule parse_rules assms(1)) | simp | (use assms(2) in \<open>fastforce simp: NESTING_START_def unexpected_message_def\<close>)[1])+

lemma gives_discard_input [parse_rules]:
  assumes "growing ss"
  shows "gives i A ss (discard_input recovery) (\<lambda>_ _. True) (\<lambda>_. ss) i"
  unfolding discard_input_def gives_def
  by (rule parse_rules assms(1) TrueI | (rule runs_gives, rule parse_rules assms(1)) | simp)+

subsection \<open>Names, arguments, functions and variables\<close>

lemma gives_parse_name [parse_rules]:
  assumes "growing ss"
  shows "gives i A ss (parse_name recovery) (\<lambda>_ _. True) (\<lambda>_. ss) i"
  unfolding parse_name_def gives_def
  by (rule parse_rules assms(1) TrueI | (rule runs_gives, rule parse_rules assms(1)) | simp)+

lemma gives_parse_expr [parse_rules]:
  assumes "rec_ok i rec" "growing ss"
  shows "gives i A ss (parse_expr rec recovery) (\<lambda>_ _. True) (\<lambda>r. with_done r ss) i"
  unfolding parse_expr_def gives_def
  by (rule parse_rules rec_ok_mono [OF assms(1)] gives_rec [OF rec_ok_mono [OF assms(1)]] assms(2) TrueI | (rule runs_gives, rule parse_rules rec_ok_mono [OF assms(1)] gives_rec [OF rec_ok_mono [OF assms(1)]] assms(2)) | simp)+

lemma gives_parse_expr_no_block [parse_rules]:
  assumes "rec_ok i rec" "growing ss"
  shows "gives i A ss (parse_expr_no_block rec recovery) (\<lambda>_ _. True) (\<lambda>r. with_done r ss) i"
  unfolding parse_expr_no_block_def gives_def
  by (rule parse_rules rec_ok_mono [OF assms(1)] gives_rec [OF rec_ok_mono [OF assms(1)]] assms(2) TrueI | (rule runs_gives, rule parse_rules rec_ok_mono [OF assms(1)] gives_rec [OF rec_ok_mono [OF assms(1)]] assms(2)) | simp)+

lemma gives_parse_arg_list [parse_rules]:
  assumes "rec_ok i rec" "growing ss"
  shows "gives i A ss (parse_arg_list rec recovery) (\<lambda>_ _. True) (\<lambda>_. ss) i"
  unfolding parse_arg_list_def gives_def
  by (rule parse_rules rec_ok_mono [OF assms(1)] gives_rec [OF rec_ok_mono [OF assms(1)]] assms(2) TrueI | (rule runs_gives, rule parse_rules rec_ok_mono [OF assms(1)] gives_rec [OF rec_ok_mono [OF assms(1)]] assms(2)) | simp)+

lemma gives_parse_param_list [parse_rules]:
  assumes "growing ss"
  shows "gives i A ss (parse_param_list recovery) (\<lambda>_ _. True) (\<lambda>_. ss) i"
  unfolding parse_param_list_def gives_def
  by (rule parse_rules assms(1) TrueI | (rule runs_gives, rule parse_rules assms(1)) | simp)+

lemma gives_parse_block_item [parse_rules]:
  assumes "rec_ok i rec" "growing ss"
  shows "gives i A ss (parse_block_item rec) (\<lambda>_ _. True) (\<lambda>_. ss) i"
  unfolding parse_block_item_def [abs_def] gives_def
  by (rule parse_rules rec_ok_mono [OF assms(1)] gives_rec [OF rec_ok_mono [OF assms(1)]] assms(2)
      | simp)+

lemma gives_parse_block_expr_unchecked [parse_rules]:
  assumes "rec_ok i rec" "growing ss" "\<And>l. A l \<Longrightarrow> kind l = T_LeftBrace"
  shows "gives i A ss (parse_block_expr_unchecked rec recovery) (\<lambda>_ _. True) (\<lambda>c. Done c # ss) i"
  unfolding parse_block_expr_unchecked_def gives_def
  by (rule parse_rules rec_ok_mono [OF assms(1)] gives_rec [OF rec_ok_mono [OF assms(1)]] assms(2) TrueI | (rule runs_gives, rule parse_rules rec_ok_mono [OF assms(1)] gives_rec [OF rec_ok_mono [OF assms(1)]] assms(2)) | simp add: assms(3))+

lemma gives_parse_block_expr [parse_rules]:
  assumes "rec_ok i rec" "growing ss"
  shows "gives i A ss (parse_block_expr rec recovery) (\<lambda>_ _. True) (\<lambda>_. ss) i"
  unfolding parse_block_expr_def gives_def
  by (rule parse_rules rec_ok_mono [OF assms(1)] gives_rec [OF rec_ok_mono [OF assms(1)]] assms(2) TrueI | (rule runs_gives, rule parse_rules rec_ok_mono [OF assms(1)] gives_rec [OF rec_ok_mono [OF assms(1)]] assms(2)) | simp)+

lemma gives_start_after [parse_rules]:
  "gives i A (with_done modifiers ss) (start_after modifiers) (\<lambda>_. A) (\<lambda>m. Opened m # ss) i"
proof (cases modifiers)
  case None
  have "runs i A ss start (\<lambda>_. A) (\<lambda>m. Opened m # ss) i"
    by (rule runs_conseq [OF runs_start order_refl order_refl _ _ covers_refl covers_fresh_opened])
  then show ?thesis
    by (simp add: None start_after_def gives_def)
qed (simp add: start_after_def gives_def runs_precede)

lemma gives_missing_declaration [parse_rules]:
  assumes "growing ss"
  shows "gives i A (with_done modifiers ss) (missing_declaration msg modifiers)
    (\<lambda>_ _. True) (\<lambda>_. ss) i"
  unfolding missing_declaration_def gives_def
  by (cases modifiers; simp)
    (rule parse_rules assms TrueI | (rule runs_gives, rule parse_rules assms) | simp)+

lemma gives_parse_func [parse_rules]:
  assumes "rec_ok i rec" "growing ss"
  shows "gives i A (with_done modifiers ss) (parse_func rec recovery modifiers) (\<lambda>_ _. True) (\<lambda>_. ss) i"
  unfolding parse_func_def gives_def
  by (rule parse_rules rec_ok_mono [OF assms(1)] gives_rec [OF rec_ok_mono [OF assms(1)]] assms(2) TrueI
      | (rule runs_gives, rule parse_rules rec_ok_mono [OF assms(1)] gives_rec [OF rec_ok_mono [OF assms(1)]] assms(2)) | simp)+

lemma gives_parse_func_none [parse_rules]:
  assumes "rec_ok i rec" "growing ss"
  shows "gives i A ss (parse_func rec recovery None) (\<lambda>_ _. True) (\<lambda>_. ss) i"
  using gives_parse_func [OF assms, of A None] by simp

lemma gives_parse_binding_pattern [parse_rules]:
  assumes "growing ss"
  shows "gives i A ss (parse_binding_pattern recovery) (\<lambda>_ _. True) (\<lambda>_. ss) i"
  unfolding parse_binding_pattern_def gives_def
  by (rule parse_rules assms(1) TrueI | (rule runs_gives, rule parse_rules assms(1)) | simp)+

lemma gives_parse_binding [parse_rules]:
  assumes "rec_ok i rec" "growing ss"
  shows "gives i A ss (parse_binding rec knd recovery) (\<lambda>_ _. True) (\<lambda>_. ss) i"
  unfolding parse_binding_def gives_def
  by (cases knd; simp only: var_kind.case)
    (rule parse_rules rec_ok_mono [OF assms(1)] gives_rec [OF rec_ok_mono [OF assms(1)]] assms(2) TrueI
      | (rule runs_gives, rule parse_rules rec_ok_mono [OF assms(1)] gives_rec [OF rec_ok_mono [OF assms(1)]] assms(2)) | simp)+

lemma gives_parse_var_decl_unchecked [parse_rules]:
  assumes "rec_ok i rec" "growing ss" "\<And>l. A l \<Longrightarrow> kind l \<in> VAR_FIRST"
  shows "gives i A (with_done modifiers ss)
    (parse_var_decl_unchecked rec knd recovery modifiers) (\<lambda>_ _. True) (\<lambda>_. ss) i"
  unfolding parse_var_decl_unchecked_def gives_def
  by (rule parse_rules rec_ok_mono [OF assms(1)] gives_rec [OF rec_ok_mono [OF assms(1)]] assms(2) TrueI
      | (rule runs_gives, rule parse_rules rec_ok_mono [OF assms(1)] gives_rec [OF rec_ok_mono [OF assms(1)]] assms(2)) | simp add: assms(3))+

lemma gives_parse_var [parse_rules]:
  assumes "rec_ok i rec" "growing ss"
  shows "gives i A (with_done modifiers ss) (parse_var rec knd recovery modifiers)
    (\<lambda>_ _. True) (\<lambda>_. ss) i"
  unfolding parse_var_def gives_def
  by (rule parse_rules rec_ok_mono [OF assms(1)] gives_rec [OF rec_ok_mono [OF assms(1)]] assms(2) TrueI
      | (rule runs_gives, rule parse_rules rec_ok_mono [OF assms(1)] gives_rec [OF rec_ok_mono [OF assms(1)]] assms(2)) | simp)+

lemma gives_parse_var_none [parse_rules]:
  assumes "rec_ok i rec" "growing ss"
  shows "gives i A ss (parse_var rec knd recovery None) (\<lambda>_ _. True) (\<lambda>_. ss) i"
  using gives_parse_var [OF assms, of A None] by simp

lemma gives_parse_condition [parse_rules]:
  assumes "rec_ok i rec" "growing ss"
  shows "gives i A ss (parse_condition rec recovery) (\<lambda>_ _. True) (\<lambda>_. ss) i"
  unfolding parse_condition_def gives_def
  by (rule parse_rules rec_ok_mono [OF assms(1)] gives_rec [OF rec_ok_mono [OF assms(1)]] assms(2) TrueI | (rule runs_gives, rule parse_rules rec_ok_mono [OF assms(1)] gives_rec [OF rec_ok_mono [OF assms(1)]] assms(2)) | simp)+

subsection \<open>Expressions\<close>

lemma gives_parse_literal [parse_rules]:
  assumes "growing ss"
  shows "gives i A ss (parse_literal) (\<lambda>_ _. True) (\<lambda>r. with_done r ss) (i - 1)"
  unfolding parse_literal_def gives_def
  by (rule parse_rules assms(1) TrueI | (rule runs_gives, rule parse_rules assms(1)) | simp)+

lemma gives_parse_record_items [parse_rules]:
  assumes "rec_ok i rec" "growing ss"
  shows "gives i A ss (parse_record_items rec recovery) (\<lambda>_ _. True) (\<lambda>_. ss) i"
  unfolding parse_record_items_def gives_def
  by (rule parse_rules rec_ok_mono [OF assms(1)] gives_rec [OF rec_ok_mono [OF assms(1)]] assms(2) TrueI | (rule runs_gives, rule parse_rules rec_ok_mono [OF assms(1)] gives_rec [OF rec_ok_mono [OF assms(1)]] assms(2)) | simp)+

lemma gives_parse_tuple_items [parse_rules]:
  assumes "rec_ok i rec" "growing ss"
  shows "gives i A ss (parse_tuple_items rec recovery) (\<lambda>_ _. True) (\<lambda>_. ss) i"
  unfolding parse_tuple_items_def gives_def
  by (rule parse_rules rec_ok_mono [OF assms(1)] gives_rec [OF rec_ok_mono [OF assms(1)]] assms(2) TrueI | (rule runs_gives, rule parse_rules rec_ok_mono [OF assms(1)] gives_rec [OF rec_ok_mono [OF assms(1)]] assms(2)) | simp)+

lemma gives_parse_paren_expr [parse_rules]:
  assumes "rec_ok i rec" "growing ss" "\<And>l. A l \<Longrightarrow> kind l = T_LeftParen"
  shows "gives i A ss (parse_paren_expr rec recovery) (\<lambda>_ _. True) (\<lambda>c. Done c # ss) i"
  unfolding parse_paren_expr_def gives_def
  by (rule parse_rules rec_ok_mono [OF assms(1)] gives_rec [OF rec_ok_mono [OF assms(1)]] assms(2) TrueI | (rule runs_gives, rule parse_rules rec_ok_mono [OF assms(1)] gives_rec [OF rec_ok_mono [OF assms(1)]] assms(2)) | simp add: assms(3))+

lemma gives_parse_if_expr [parse_rules]:
  assumes "rec_ok (i - 1) rec" "growing ss" "\<And>l. A l \<Longrightarrow> kind l = T_KwIf"
  shows "gives i A ss (parse_if_expr rec recovery) (\<lambda>_ _. True) (\<lambda>c. Done c # ss) (i - 1)"
  unfolding parse_if_expr_def gives_def
  by (rule parse_rules rec_ok_mono [OF assms(1)] gives_rec [OF rec_ok_mono [OF assms(1)]] assms(2) TrueI | (rule runs_gives, rule parse_rules rec_ok_mono [OF assms(1)] gives_rec [OF rec_ok_mono [OF assms(1)]] assms(2)) | simp add: assms(3))+

lemma gives_parse_items [parse_rules]:
  assumes "rec_ok i rec" "growing ss"
  shows "gives i A ss (parse_items rec closing recovery) (\<lambda>_ _. True) (\<lambda>_. ss) i"
  unfolding parse_items_def gives_def
  by (rule parse_rules rec_ok_mono [OF assms(1)] gives_rec [OF rec_ok_mono [OF assms(1)]] assms(2) TrueI | (rule runs_gives, rule parse_rules rec_ok_mono [OF assms(1)] gives_rec [OF rec_ok_mono [OF assms(1)]] assms(2)) | simp)+

lemma gives_parse_array_expr [parse_rules]:
  assumes "rec_ok i rec" "growing ss" "\<And>l. A l \<Longrightarrow> kind l = T_LeftBracket"
  shows "gives i A ss (parse_array_expr rec recovery) (\<lambda>_ _. True) (\<lambda>c. Done c # ss) i"
  unfolding parse_array_expr_def gives_def
  by (rule parse_rules rec_ok_mono [OF assms(1)] gives_rec [OF rec_ok_mono [OF assms(1)]] assms(2) TrueI | (rule runs_gives, rule parse_rules rec_ok_mono [OF assms(1)] gives_rec [OF rec_ok_mono [OF assms(1)]] assms(2)) | simp add: assms(3))+

lemma gives_parse_map_item [parse_rules]:
  assumes "rec_ok i rec" "growing ss"
  shows "gives i A ss (parse_map_item rec recovery) (\<lambda>_ _. True) (\<lambda>_. ss) i"
  unfolding parse_map_item_def gives_def
  by (rule parse_rules rec_ok_mono [OF assms(1)] gives_rec [OF rec_ok_mono [OF assms(1)]] assms(2) TrueI | (rule runs_gives, rule parse_rules rec_ok_mono [OF assms(1)] gives_rec [OF rec_ok_mono [OF assms(1)]] assms(2)) | simp)+

lemma gives_parse_map_expr [parse_rules]:
  assumes "rec_ok i rec" "growing ss" "\<And>l. A l \<Longrightarrow> kind l = T_Identifier \<and> text_at l = Some ''map''"
  shows "gives i A ss (parse_map_expr rec recovery) (\<lambda>_ _. True) (\<lambda>c. Done c # ss) i"
  unfolding parse_map_expr_def gives_def
  by (rule parse_rules rec_ok_mono [OF assms(1)] gives_rec [OF rec_ok_mono [OF assms(1)]] assms(2) TrueI | (rule runs_gives, rule parse_rules rec_ok_mono [OF assms(1)] gives_rec [OF rec_ok_mono [OF assms(1)]] assms(2)) | simp | (use assms(3) in \<open>fastforce simp: split_beta\<close>)[1])+

lemma gives_parse_set_expr [parse_rules]:
  assumes "rec_ok i rec" "growing ss" "\<And>l. A l \<Longrightarrow> kind l = T_Identifier \<and> text_at l = Some ''set''"
  shows "gives i A ss (parse_set_expr rec recovery) (\<lambda>_ _. True) (\<lambda>c. Done c # ss) i"
  unfolding parse_set_expr_def gives_def
  by (rule parse_rules rec_ok_mono [OF assms(1)] gives_rec [OF rec_ok_mono [OF assms(1)]] assms(2) TrueI | (rule runs_gives, rule parse_rules rec_ok_mono [OF assms(1)] gives_rec [OF rec_ok_mono [OF assms(1)]] assms(2)) | simp | (use assms(3) in \<open>fastforce simp: split_beta\<close>)[1])+

lemma gives_parse_string_var [parse_rules]:
  assumes "growing ss"
  shows "gives i A ss (parse_string_var) (\<lambda>_ _. True) (\<lambda>_. ss) i"
  unfolding parse_string_var_def gives_def
  by (rule parse_rules assms(1) TrueI | (rule runs_gives, rule parse_rules assms(1)) | simp)+

lemma gives_parse_string_block [parse_rules]:
  assumes "rec_ok i rec" "growing ss"
  shows "gives i A ss (parse_string_block rec) (\<lambda>_ _. True) (\<lambda>_. ss) i"
  unfolding parse_string_block_def gives_def
  by (rule parse_rules rec_ok_mono [OF assms(1)] gives_rec [OF rec_ok_mono [OF assms(1)]] assms(2) TrueI | (rule runs_gives, rule parse_rules rec_ok_mono [OF assms(1)] gives_rec [OF rec_ok_mono [OF assms(1)]] assms(2)) | simp)+

lemma gives_parse_string_literal [parse_rules]:
  assumes "rec_ok i rec" "growing ss"
  shows "gives i A ss (parse_string_literal rec) (\<lambda>_ _. True) (\<lambda>c. Done c # ss) i"
  unfolding parse_string_literal_def gives_def
  by (rule parse_rules rec_ok_mono [OF assms(1)] gives_rec [OF rec_ok_mono [OF assms(1)]] assms(2) TrueI | (rule runs_gives, rule parse_rules rec_ok_mono [OF assms(1)] gives_rec [OF rec_ok_mono [OF assms(1)]] assms(2)) | simp)+

lemma gives_parse_string_expr [parse_rules]:
  assumes "rec_ok i rec" "growing ss" "\<And>l. A l \<Longrightarrow> kind l = T_StringStart"
  shows "gives i A ss (parse_string_expr rec recovery) (\<lambda>_ _. True) (\<lambda>c. Done c # ss) i"
  unfolding parse_string_expr_def gives_def
  by (rule parse_rules rec_ok_mono [OF assms(1)] gives_rec [OF rec_ok_mono [OF assms(1)]] assms(2) TrueI | (rule runs_gives, rule parse_rules rec_ok_mono [OF assms(1)] gives_rec [OF rec_ok_mono [OF assms(1)]] assms(2)) | simp add: assms(3))+

lemma gives_parse_unknown_block [parse_rules]:
  assumes "growing ss" "\<And>l. A l \<Longrightarrow> kind_at 1 l = T_LeftBrace"
  shows "gives i A ss parse_unknown_block (\<lambda>_ _. True) (\<lambda>c. Done c # ss) i"
  unfolding parse_unknown_block_def gives_def
  by (rule runs_advance_to [folded gives_def, OF _ assms(2)] parse_rules assms(1) TrueI
      | (rule runs_gives, rule parse_rules assms(1)) | simp add: NESTING_START_def)+

lemma gives_block_ahead [parse_rules]:
  "gives i A ss (block_ahead fl) (\<lambda>b l. A l \<and> (b \<longrightarrow> kind_at 1 l = T_LeftBrace)) (\<lambda>_. ss) i"
  unfolding block_ahead_def gives_def
  by (rule parse_rules | simp)+

lemma gives_parse_identifier_expr [parse_rules]:
  assumes "rec_ok i rec" "growing ss" "\<And>l. A l \<Longrightarrow> kind l = T_Identifier"
  shows "gives i A ss (parse_identifier_expr rec fl recovery) (\<lambda>_ _. True) (\<lambda>c. Done c # ss) i"
  unfolding parse_identifier_expr_def gives_def
  by (rule parse_rules rec_ok_mono [OF assms(1)] gives_rec [OF rec_ok_mono [OF assms(1)]] assms(2) TrueI | (rule runs_gives, rule parse_rules rec_ok_mono [OF assms(1)] gives_rec [OF rec_ok_mono [OF assms(1)]] assms(2)) | simp add: assms(3))+

lemma gives_parse_keyword_expr [parse_rules]:
  assumes "rec_ok i rec" "growing ss"
  shows "gives i A ss (parse_keyword_expr rec t recovery) (\<lambda>_ _. True) (\<lambda>c. Done c # ss) i"
  unfolding parse_keyword_expr_def gives_def
  by (rule parse_rules rec_ok_mono [OF assms(1)] gives_rec [OF rec_ok_mono [OF assms(1)]] assms(2) TrueI | (rule runs_gives, rule parse_rules rec_ok_mono [OF assms(1)] gives_rec [OF rec_ok_mono [OF assms(1)]] assms(2)) | simp)+

lemma gives_parse_primary_expr [parse_rules]:
  assumes "rec_ok i rec" "growing ss"
  shows "gives i A ss (parse_primary_expr rec fl recovery) (\<lambda>_ _. True) (\<lambda>r. with_done r ss) i"
  unfolding parse_primary_expr_def gives_def
  by (rule parse_rules rec_ok_mono [OF assms(1)] gives_rec [OF rec_ok_mono [OF assms(1)]] assms(2) TrueI | (rule runs_gives, rule parse_rules rec_ok_mono [OF assms(1)] gives_rec [OF rec_ok_mono [OF assms(1)]] assms(2)) | simp)+

lemma gives_parse_prefix_expr [parse_rules]:
  assumes "rec_ok (i - 1) rec" "growing ss"
  shows "gives i A ss (parse_prefix_expr rec fl recovery) (\<lambda>_ _. True) (\<lambda>r. with_done r ss) (i - 1)"
  unfolding parse_prefix_expr_def gives_def
  by (rule parse_rules rec_ok_mono [OF assms(1)] gives_rec [OF rec_ok_mono [OF assms(1)]] assms(2) TrueI | (rule runs_gives, rule parse_rules rec_ok_mono [OF assms(1)] gives_rec [OF rec_ok_mono [OF assms(1)]] assms(2)) | simp)+

lemma gives_parse_infix_expr [parse_rules]:
  assumes "rec_ok i rec" "growing ss"
  shows "gives i A (Done c # ss) (parse_infix_expr rec c op fl recovery)
    (\<lambda>_ _. True) (\<lambda>c. Done c # ss) i"
  unfolding parse_infix_expr_def gives_def
  by (rule parse_rules rec_ok_mono [OF assms(1)] gives_rec [OF rec_ok_mono [OF assms(1)]] assms(2) TrueI
      | (rule runs_gives, rule parse_rules rec_ok_mono [OF assms(1)] gives_rec [OF rec_ok_mono [OF assms(1)]] assms(2)) | simp)+

lemma gives_infix_loop [parse_rules]:
  assumes "rec_ok n rec" "growing ss"
  shows "gives n A (Done c # ss) (ploop (infix_step rec bp fl recovery) c)
    (\<lambda>_ _. True) (\<lambda>c. Done c # ss) n"
proof -
  have "gives n (\<lambda>_. True) (Done c # ss) (ploop (infix_step rec bp fl recovery) c)
    (\<lambda>_ _. True) (\<lambda>c. Done c # ss) n"
  proof (rule runs_loop [where I = "\<lambda>_ _. True"])
    fix i c
    assume i: "i \<le> n"
    show "runs i (\<lambda>_. True) (Done c # ss) (infix_step rec bp fl recovery c)
        (\<lambda>(go, s') l. if go then True else True) (\<lambda>(go, c). Done c # ss) (i - 1)"
      unfolding infix_step_def
      by (rule parse_rules rec_ok_mono [OF assms(1)] gives_rec [OF rec_ok_mono [OF assms(1)]] assms(2) TrueI
          | simp add: i [THEN le_trans [OF diff_le_self]] covers_refl)+
  qed
  then show ?thesis
    unfolding gives_def by (rule runs_conseq) (auto intro: covers_refl)
qed

lemma runs_parse_expr_bp:
  assumes "rec_ok (i - 1) rec" "growing ss"
  shows "runs i A ss (parse_expr_bp rec bp fl recovery) (\<lambda>_ _. True)
    (\<lambda>r. with_done r ss) (i - 1)"
  unfolding parse_expr_bp_def
proof (rule check_bind [OF gives_parse_prefix_expr [OF assms]], rule check_done_option)
  fix lhs :: "completed_marker option" and c
  show "runs (i - 1) (\<lambda>_. True) (Done c # ss)
      (some_marker (ploop (infix_step rec bp fl recovery) c)) (\<lambda>_ _. True)
      (\<lambda>r. with_done r ss) (i - 1)"
    unfolding some_marker_def
    by (rule check_bind [OF gives_infix_loop [OF assms]]) (simp add: check_return covers_refl)
qed (rule check_return; simp add: covers_refl)

subsection \<open>Statements\<close>

lemma gives_parse_while_stmt [parse_rules]:
  assumes "rec_ok i rec" "growing ss" "\<And>l. A l \<Longrightarrow> kind l = T_KwWhile"
  shows "gives i A ss (parse_while_stmt rec recovery) (\<lambda>_ _. True) (\<lambda>_. ss) i"
  unfolding parse_while_stmt_def gives_def
  by (rule parse_rules rec_ok_mono [OF assms(1)] gives_rec [OF rec_ok_mono [OF assms(1)]] assms(2) TrueI | (rule runs_gives, rule parse_rules rec_ok_mono [OF assms(1)] gives_rec [OF rec_ok_mono [OF assms(1)]] assms(2)) | simp add: assms(3))+

lemma gives_parse_for_header [parse_rules]:
  assumes "rec_ok i rec" "growing ss"
  shows "gives i A ss (parse_for_header rec recovery) (\<lambda>_ _. True) (\<lambda>_. ss) i"
  unfolding parse_for_header_def gives_def
  by (rule parse_rules rec_ok_mono [OF assms(1)] gives_rec [OF rec_ok_mono [OF assms(1)]] assms(2) TrueI | (rule runs_gives, rule parse_rules rec_ok_mono [OF assms(1)] gives_rec [OF rec_ok_mono [OF assms(1)]] assms(2)) | simp)+

lemma gives_parse_foreach_header [parse_rules]:
  assumes "rec_ok i rec" "growing ss"
  shows "gives i A ss (parse_foreach_header rec recovery) (\<lambda>_ _. True) (\<lambda>_. ss) i"
  unfolding parse_foreach_header_def gives_def
  by (rule parse_rules rec_ok_mono [OF assms(1)] gives_rec [OF rec_ok_mono [OF assms(1)]] assms(2) TrueI | (rule runs_gives, rule parse_rules rec_ok_mono [OF assms(1)] gives_rec [OF rec_ok_mono [OF assms(1)]] assms(2)) | simp)+

lemma gives_parse_for_stmt [parse_rules]:
  assumes "rec_ok i rec" "growing ss" "\<And>l. A l \<Longrightarrow> kind l = T_KwFor"
  shows "gives i A ss (parse_for_stmt rec recovery) (\<lambda>_ _. True) (\<lambda>_. ss) i"
  unfolding parse_for_stmt_def gives_def
  by (rule parse_rules rec_ok_mono [OF assms(1)] gives_rec [OF rec_ok_mono [OF assms(1)]] assms(2) TrueI | (rule runs_gives, rule parse_rules rec_ok_mono [OF assms(1)] gives_rec [OF rec_ok_mono [OF assms(1)]] assms(2)) | simp add: assms(3))+

lemma gives_parse_var_stmt [parse_rules]:
  assumes "rec_ok i rec" "growing ss" "\<And>l. A l \<Longrightarrow> kind l \<in> VAR_FIRST"
  shows "gives i A ss (parse_var_stmt rec recovery) (\<lambda>_ _. True) (\<lambda>_. ss) i"
  unfolding parse_var_stmt_def gives_def
  by (rule parse_rules rec_ok_mono [OF assms(1)] gives_rec [OF rec_ok_mono [OF assms(1)]] assms(2) TrueI | (rule runs_gives, rule parse_rules rec_ok_mono [OF assms(1)] gives_rec [OF rec_ok_mono [OF assms(1)]] assms(2)) | simp add: assms(3))+

lemma gives_parse_expr_stmt [parse_rules]:
  assumes "rec_ok i rec" "growing ss" "\<And>l. A l \<Longrightarrow> kind l \<in> EXPR_FIRST"
  shows "gives i A ss (parse_expr_stmt rec recovery) (\<lambda>_ _. True) (\<lambda>_. ss) i"
  unfolding parse_expr_stmt_def gives_def
  by (rule parse_rules rec_ok_mono [OF assms(1)] gives_rec [OF rec_ok_mono [OF assms(1)]] assms(2) TrueI | (rule runs_gives, rule parse_rules rec_ok_mono [OF assms(1)] gives_rec [OF rec_ok_mono [OF assms(1)]] assms(2)) | simp add: assms(3))+

lemma gives_parse_stmt [parse_rules]:
  assumes "rec_ok (i - 1) rec" "growing ss"
  shows "gives i A ss (parse_stmt rec recovery) (\<lambda>_ _. True) (\<lambda>_. ss) (i - 1)"
  unfolding parse_stmt_def gives_def
  by (rule parse_rules rec_ok_mono [OF assms(1)] gives_rec [OF rec_ok_mono [OF assms(1)]] assms(2) TrueI | (rule runs_gives, rule parse_rules rec_ok_mono [OF assms(1)] gives_rec [OF rec_ok_mono [OF assms(1)]] assms(2)) | simp)+

text \<open>A budget of \<open>n\<close> is used up after at most \<open>n\<close> nested calls.\<close>

lemma parse_call_ok: "rec_ok n (parse_call n)"
proof (induction n)
  case 0
  then show ?case
    by (simp add: rec_ok_def runs_zero)
next
  case (Suc n)
  show ?case
    unfolding rec_ok_def
  proof (intro allI impI)
    fix i A ss c
    assume i: "i \<le> Suc n" and ss: "growing ss" and c: "\<forall>l. A l \<longrightarrow> call_pre c l"
    have rec: "rec_ok (i - 1) (parse_call n)"
      using Suc by (rule rec_ok_mono) (use i in simp)
    have "runs i A ss (parse_call (Suc n) c) (\<lambda>_ _. True) (\<lambda>r. with_done r ss) (i - 1)"
    proof (cases c)
      case (Call_expr bp fl recovery)
      then show ?thesis
        using runs_parse_expr_bp [OF rec ss] by simp
    next
      case (Call_if recovery)
      have "gives i A ss (some_marker (parse_if_expr (parse_call n) recovery))
          (\<lambda>_ _. True) (\<lambda>r. with_done r ss) (i - 1)"
        by (rule gives_some_marker [OF gives_parse_if_expr [OF rec ss]]) (use c in \<open>unfold Call_if call_pre.simps, blast\<close>)
      then show ?thesis
        by (simp add: Call_if gives_def)
    next
      case (Call_stmt recovery)
      show ?thesis
        unfolding Call_stmt parse_call.simps call.case
        by (rule check_seq [OF gives_parse_stmt [OF rec ss] covers_refl check_return])
          (simp_all add: covers_with_done covers_refl)
    qed
    then show "runs i A ss (parse_call (Suc n) c) (\<lambda>_ _. True) (\<lambda>r. with_done r ss) i"
      by (rule runs_conseq) (auto intro: covers_refl)
  qed
qed

subsection \<open>Items and files\<close>

primrec modifiers_shape :: "marker option \<Rightarrow> shape list \<Rightarrow> shape list" where
  "modifiers_shape None ss = ss"
| "modifiers_shape (Some m) ss = Fresh m # ss"

lemma gives_modifiers_loop:
  assumes "growing ss"
  shows "gives n A ss (ploop modifiers_step None) (\<lambda>_ _. True)
    (\<lambda>ms. modifiers_shape ms ss) n"
proof -
  have "gives n (\<lambda>_. True) (modifiers_shape None ss) (ploop modifiers_step None) (\<lambda>_ _. True)
    (\<lambda>ms. modifiers_shape ms ss) n"
  proof (rule runs_loop [where I = "\<lambda>_ _. True"])
    fix i ms
    show "runs i (\<lambda>_. True) (modifiers_shape ms ss) (modifiers_step ms)
        (\<lambda>(go, s') l. if go then True else True) (\<lambda>(go, ms). modifiers_shape ms ss) (i - 1)"
      unfolding modifiers_step_def
      by (cases ms; simp only: option.case modifiers_shape.simps)
        (rule parse_rules assms | simp add: covers_refl)+
  qed
  then show ?thesis
    unfolding gives_def by (rule runs_conseq) (auto intro: covers_refl)
qed

lemma gives_try_parse_modifiers [parse_rules]:
  assumes "growing ss"
  shows "gives i A ss try_parse_modifiers (\<lambda>_ _. True) (\<lambda>r. with_done r ss) i"
  unfolding try_parse_modifiers_def gives_def
proof (rule check_bind [OF gives_modifiers_loop [OF assms]])
  fix ms
  show "runs i (\<lambda>_. True) (modifiers_shape ms ss)
      (case ms of None \<Rightarrow> preturn None | Some m \<Rightarrow> some_marker (complete m S_Modifiers))
      (\<lambda>_ _. True) (\<lambda>r. with_done r ss) i"
    by (cases ms; simp only: option.case modifiers_shape.simps)
      (rule parse_rules | (rule runs_gives, rule parse_rules) | simp)+
qed

lemma gives_error_recover_done [parse_rules]:
  assumes "growing ss"
  shows "gives i A (with_done r ss) (error_recover msg recovery) (\<lambda>_ _. True) (\<lambda>_. ss) (i - 1)"
  unfolding gives_def
  by (rule runs_conseq [OF gives_error_recover [OF assms, unfolded gives_def]])
    (auto intro: covers_refl covers_with_done assms)

lemma gives_parse_import_path [parse_rules]:
  assumes "growing ss"
  shows "gives i A ss (parse_import_path recovery) (\<lambda>_ _. True) (\<lambda>_. ss) i"
  unfolding parse_import_path_def gives_def
  by (rule parse_rules assms(1) TrueI | (rule runs_gives, rule parse_rules assms(1)) | simp)+

lemma gives_parse_import [parse_rules]:
  assumes "growing ss" "\<And>l. A l \<Longrightarrow> kind l = T_KwImport"
  shows "gives i A ss (parse_import) (\<lambda>_ _. True) (\<lambda>_. ss) i"
  unfolding parse_import_def gives_def
  by (rule parse_rules assms(1) TrueI | (rule runs_gives, rule parse_rules assms(1)) | simp add: assms(2))+

lemma gives_parse_item [parse_rules]:
  assumes "rec_ok i rec" "growing ss"
  shows "gives i A ss (parse_item rec recovery) (\<lambda>_ _. True) (\<lambda>_. ss) i"
  unfolding parse_item_def gives_def
  by (rule parse_rules rec_ok_mono [OF assms(1)] gives_rec [OF rec_ok_mono [OF assms(1)]] assms(2) TrueI | (rule runs_gives, rule parse_rules rec_ok_mono [OF assms(1)] gives_rec [OF rec_ok_mono [OF assms(1)]] assms(2)) | simp)+

lemma gives_parse_file_item [parse_rules]:
  assumes "rec_ok i rec" "growing ss"
  shows "gives i A ss (parse_file_item rec) (\<lambda>_ _. True) (\<lambda>_. ss) i"
  unfolding parse_file_item_def gives_def
  by (rule parse_rules rec_ok_mono [OF assms(1)] gives_rec [OF rec_ok_mono [OF assms(1)]] assms(2) TrueI | (rule runs_gives, rule parse_rules rec_ok_mono [OF assms(1)] gives_rec [OF rec_ok_mono [OF assms(1)]] assms(2)) | simp)+

lemma runs_parse_file_node:
  assumes "rec_ok n rec"
  shows "runs n (\<lambda>_. True) [] (parse_file_node rec) (\<lambda>_ l. kind l = T_Eof) (\<lambda>c. [Done c]) n"
  unfolding parse_file_node_def
proof (rule check_bind [OF runs_start [folded gives_def]])
  fix m
  have "gives n (\<lambda>_. True) [Fresh m] (puntil (at T_Eof) (pseq (parse_file_item rec) (preturn True)))
      (\<lambda>_ l. kind l = T_Eof) (\<lambda>_. [Fresh m]) n"
    by (rule gives_until_inv, rule parse_rules, simp)
      (rule parse_rules rec_ok_mono [OF assms] | simp)+
  then show "runs n (\<lambda>_. True) [Fresh m]
      (pseq (puntil (at T_Eof) (pseq (parse_file_item rec) (preturn True))) (complete m S_File))
      (\<lambda>_ l. kind l = T_Eof) (\<lambda>c. [Done c]) n"
    by (rule check_seq) (rule parse_rules | (rule runs_gives, rule parse_rules) | simp)+
qed

subsection \<open>The whole parser\<close>

lemma new_parser_ok:
  "\<forall>t \<in> set tokens. range_ok source (token_range t) \<Longrightarrow> parser_ok (new_parser source tokens)"
  by (simp add: parser_ok_def new_parser_def)

lemma pseq_Inr: "pseq k f p = Inr r \<longleftrightarrow> (\<exists>x p'. k p = Inr (x, p') \<and> f p' = Inr r)"
  by (auto simp: pseq_def pbind_def)

lemma pseq_step: "k p = Inr (x, p') \<Longrightarrow> pseq k f p = f p'"
  by (simp add: pseq_def pbind_def)

text \<open>The first event of the whole parser is the start of the file node.\<close>

lemma parse_file_node_start:
  assumes "parse_file_node rec p = Inr (c, p')" "parser_events p = []"
  shows "parser_events p' \<noteq> [] \<and> parser_events p' ! 0 = E_Start S_File 0"
proof -
  let ?loop = "puntil (at T_Eof) (pseq (parse_file_item rec) (preturn True))"
  have "pseq ?loop (complete 0 S_File) (p\<lparr>parser_events := [E_Tombstone]\<rparr>) = Inr (c, p')"
    using assms by (simp add: parse_file_node_def pbind_def start_def)
  then obtain x q where "complete 0 S_File q = Inr (c, p')"
    unfolding pseq_Inr by blast
  then show ?thesis
    by (auto simp: complete_def nth_append split: if_splits)
qed

lemma links_single_node:
  assumes "links b [] es c n" "es ! 0 = E_Start ty 0"
  shows "\<exists>f. n = Node ty f"
  using assms by (cases rule: links.cases) auto

definition tree_of :: "string \<Rightarrow> token list \<Rightarrow> parser_event list \<Rightarrow> item list \<Rightarrow> bool" where
  "tree_of source consumed events children \<longleftrightarrow>
     represents 0 events [Node S_File children] \<and>
     list_all2 (same_token source) consumed (concat (map leaves children))"

text \<open>The parser stopped after \<open>k\<close> tokens: all of them, or the next is the end of the file.\<close>

definition stopped_after :: "token list \<Rightarrow> nat \<Rightarrow> bool" where
  "stopped_after tokens k \<longleftrightarrow>
     k = length tokens \<or> k < length tokens \<and> token_kind (tokens ! k) = T_Eof"

lemma parse_file_total:
  assumes "\<forall>t \<in> set tokens. range_ok source (token_range t)"
  shows "parse_file (new_parser source tokens) = Inl Stuck \<or>
    (\<exists>p children. parse_file (new_parser source tokens) = Inr ((), p) \<and> parser_ok p \<and>
       kind (look p) = T_Eof \<and> stopped_after tokens (parser_pos p) \<and>
       tree_of source (take (parser_pos p) tokens) (parser_events p) children)"
proof -
  let ?p = "new_parser source tokens" and ?n = "budget (new_parser source tokens)"
  note run = runs_parse_file_node [OF parse_call_ok, of ?n]
  show ?thesis
  proof (rule runsE [OF run new_parser_ok [OF assms] order_refl TrueI, of "[]" "[]"])
    assume "parse_file_node (parse_call ?n) ?p = Inl Stuck"
    then show ?thesis
      by (simp add: parse_file_def pseq_def pbind_def)
  next
    fix c p es
    assume k: "parse_file_node (parse_call ?n) ?p = Inr (c, p)" and ok: "parser_ok p"
      and input: "same_input ?p p" and stop: "kind (look p) = T_Eof"
      and es: "parser_events p = [] @ es" "segs [Done c] (length []) es"
    obtain n where n: "links 0 [] es c n"
      using es(2) by auto
    obtain children where node: "n = Node S_File children"
      using parse_file_node_start [OF k] links_single_node [OF n] es(1)
      by (auto simp: new_parser_def)
    have toks: "parser_tokens p = tokens" "parser_source p = source"
      using input by (simp_all add: same_input_def new_parser_def)
    have "tree_of source (take (parser_pos p) tokens) (parser_events p) children"
      using ok n leaves_of_events(2) [OF n]
      by (simp add: tree_of_def represents_link es(1) node parser_ok_def toks)
    moreover have "stopped_after tokens (parser_pos p)"
      using ok stop by (auto simp: stopped_after_def parser_ok_def look_def toks split: if_splits)
    moreover have "parse_file ?p = Inr ((), p)"
      using k by (simp add: parse_file_def pseq_Inr preturn_def)
    ultimately show ?thesis
      using ok stop by blast
  qed (simp_all add: new_parser_def)
qed

lemma parse_tokens_total:
  assumes "\<forall>t \<in> set tokens. range_ok source (token_range t)"
  shows "parse_tokens source tokens = Inl Stuck \<or>
    (\<exists>events children k. parse_tokens source tokens = Inr events \<and> stopped_after tokens k \<and>
       tree_of source (take k tokens) events children)"
proof -
  let ?p = "new_parser source tokens"
  let ?check = "pbind (at T_Eof) (\<lambda>eof. if eof then preturn ()
    else error ''giving up before the end of file'')"
  show ?thesis
  proof (cases "parse_file ?p = Inl Stuck")
    case True
    then show ?thesis
      by (simp add: parse_tokens_def pseq_def pbind_def)
  next
    case False
    then obtain p children where p: "parse_file ?p = Inr ((), p)" "parser_ok p"
      "kind (look p) = T_Eof" "stopped_after tokens (parser_pos p)"
      "tree_of source (take (parser_pos p) tokens) (parser_events p) children"
      using parse_file_total [OF assms] by blast
    have "runs (budget p) (\<lambda>l. kind l = T_Eof) [] ?check (\<lambda>_ _. True) (\<lambda>_. []) (budget p)"
      by (rule parse_rules | simp add: runs_def)+
    then have "?check p = Inl Stuck \<or> (\<exists>q. ?check p = Inr ((), q) \<and> parser_events q = parser_events p)"
      by (rule runsE [OF _ p(2) order_refl, where pre = "parser_events p" and es = "[]"])
        (use p(3) in auto)
    moreover have "pseq parse_file ?check ?p = ?check p"
      by (rule pseq_step) (rule p(1))
    then have "parse_tokens source tokens = bind_sum (?check p) (\<lambda>(_, p). Inr (parser_events p))"
      unfolding parse_tokens_def by (simp only:)
    ultimately show ?thesis
      using p(4,5) by (elim disjE exE conjE) auto
  qed
qed

end
