(* ===== verification/SyntaxTree.thy ===== *)
theory SyntaxTree
  imports ParserEvents
begin

text \<open>
  The syntax tree (src/compiler/syntax/syntax_tree.hpp) and its construction from the events
  of the parser (src/compiler/syntax/build_syntax_tree.cpp).

  Nodes live in a vector and refer to each other by index (a 32-bit entity id whose largest
  value is invalid). The stack of open nodes is a list whose head is the back of the vector.
  \<open>None\<close> stands for a failed assertion or check. The loop of \<open>link_parents\<close> is a partial
  function, so that a loop that does not end is \<open>None\<close> as well.
\<close>

subsection \<open>Trees\<close>

datatype syntax_child =
    Child_token token
  | Child_node nat

record syntax_node =
  node_type :: syntax_type
  node_parent :: "nat option"
  node_range :: source_range
  node_has_error :: bool
  node_children :: "syntax_child list"

record syntax_tree =
  tree_source :: string
  tree_root :: "nat option"
  tree_nodes :: "syntax_node list"
  tree_errors :: "(string \<times> source_range) list"

definition tree_make :: "syntax_node \<Rightarrow> syntax_tree \<Rightarrow> (nat \<times> syntax_tree) option" where
  "tree_make n tree =
     (if length (tree_nodes tree) < 2 ^ 32 - 1
      then Some (length (tree_nodes tree), tree\<lparr>tree_nodes := tree_nodes tree @ [n]\<rparr>)
      else None)"

definition child_range :: "syntax_child \<Rightarrow> syntax_tree \<Rightarrow> source_range option" where
  "child_range c tree =
     (case c of
        Child_token t \<Rightarrow> Some (token_range t)
      | Child_node i \<Rightarrow>
          if i < length (tree_nodes tree) then Some (node_range (tree_nodes tree ! i)) else None)"

subsection \<open>Builders\<close>

record node_builder =
  nb_type :: syntax_type
  nb_has_error :: bool
  nb_children :: "syntax_child list"
  nb_pos :: u32

definition new_node_builder :: "syntax_type \<Rightarrow> u32 \<Rightarrow> node_builder" where
  "new_node_builder ty pos =
     \<lparr>nb_type = ty, nb_has_error = False, nb_children = [], nb_pos = pos\<rparr>"

definition add_child :: "syntax_child \<Rightarrow> node_builder \<Rightarrow> node_builder" where
  "add_child c nb = nb\<lparr>nb_children := nb_children nb @ [c]\<rparr>"

definition build_node :: "node_builder \<Rightarrow> syntax_tree \<Rightarrow> syntax_node option" where
  "build_node nb tree =
     Option.bind
       (if nb_children nb \<noteq> [] then
          Option.bind (child_range (hd (nb_children nb)) tree) (\<lambda>first.
          Option.bind (child_range (last (nb_children nb)) tree) (\<lambda>final.
            source_range (range_begin first) (range_end final)))
        else source_range (nb_pos nb) (nb_pos nb))
       (\<lambda>r. Some \<lparr>node_type = nb_type nb, node_parent = None, node_range = r,
          node_has_error = nb_has_error nb, node_children = nb_children nb\<rparr>)"

record tree_builder =
  tb_tree :: syntax_tree
  tb_last :: source_range
  tb_nodes :: "node_builder list"

definition new_tree_builder :: "string \<Rightarrow> tree_builder" where
  "new_tree_builder source =
     \<lparr>tb_tree = \<lparr>tree_source = source, tree_root = None, tree_nodes = [], tree_errors = []\<rparr>,
      tb_last = from_offset 0, tb_nodes = []\<rparr>"

definition start_root :: "tree_builder \<Rightarrow> tree_builder option" where
  "start_root tb =
     (if tb_nodes tb = [] then Some (tb\<lparr>tb_nodes := [new_node_builder S_Root 0]\<rparr>) else None)"

definition start_node :: "syntax_type \<Rightarrow> tree_builder \<Rightarrow> tree_builder option" where
  "start_node ty tb =
     (let nb = new_node_builder ty (range_end (tb_last tb));
          nb' = (if ty = S_Error then nb\<lparr>nb_has_error := True\<rparr> else nb)
      in Some (tb\<lparr>tb_nodes := nb' # tb_nodes tb\<rparr>))"

definition add_token :: "token \<Rightarrow> tree_builder \<Rightarrow> tree_builder option" where
  "add_token t tb =
     (case tb_nodes tb of
        [] \<Rightarrow> None
      | nb # nbs \<Rightarrow>
          Some (tb\<lparr>tb_last := token_range t, tb_nodes := add_child (Child_token t) nb # nbs\<rparr>))"

definition add_error :: "string \<Rightarrow> tree_builder \<Rightarrow> tree_builder option" where
  "add_error msg tb =
     (case tb_nodes tb of
        [] \<Rightarrow> None
      | nb # nbs \<Rightarrow>
          Some (tb\<lparr>tb_nodes := nb\<lparr>nb_has_error := True\<rparr> # nbs,
            tb_tree := (tb_tree tb)\<lparr>tree_errors := tree_errors (tb_tree tb)
              @ [(msg, from_offset (range_end (tb_last tb)))]\<rparr>\<rparr>))"

definition finish_node :: "tree_builder \<Rightarrow> tree_builder option" where
  "finish_node tb =
     (case tb_nodes tb of
        nb # outer # nbs \<Rightarrow>
          Option.bind (build_node nb (tb_tree tb)) (\<lambda>n.
          Option.bind (tree_make n (tb_tree tb)) (\<lambda>(i, tree).
            Some (tb\<lparr>tb_tree := tree, tb_nodes := add_child (Child_node i) outer # nbs\<rparr>)))
      | _ \<Rightarrow> None)"

primrec consumer_step :: "consumer_call \<Rightarrow> tree_builder \<Rightarrow> tree_builder option" where
  "consumer_step (Start_node ty) = start_node ty"
| "consumer_step (Token_call t) = add_token t"
| "consumer_step (Error_call msg) = add_error msg"
| "consumer_step Finish_node = finish_node"

primrec consumer_run :: "consumer_call list \<Rightarrow> tree_builder \<Rightarrow> tree_builder option" where
  "consumer_run [] tb = Some tb"
| "consumer_run (c # cs) tb = Option.bind (consumer_step c tb) (consumer_run cs)"

subsection \<open>Parents\<close>

fun push_children :: "nat \<Rightarrow> syntax_child list \<Rightarrow> (nat option \<times> nat) list \<Rightarrow> (nat option \<times> nat) list"
  where
  "push_children i [] stack = stack"
| "push_children i (Child_token t # cs) stack = push_children i cs stack"
| "push_children i (Child_node j # cs) stack = push_children i cs ((Some i, j) # stack)"

partial_function (option) link_loop ::
    "(nat option \<times> nat) list \<Rightarrow> syntax_node list \<Rightarrow> syntax_node list option" where
  "link_loop stack nodes =
     (case stack of
        [] \<Rightarrow> Some nodes
      | (parent, i) # rest \<Rightarrow>
          if i < length nodes
          then link_loop (push_children i (node_children (nodes ! i)) rest)
                 (nodes[i := (nodes ! i)\<lparr>node_parent := parent\<rparr>])
          else None)"

definition link_parents :: "syntax_tree \<Rightarrow> syntax_tree option" where
  "link_parents tree =
     Option.bind (tree_root tree) (\<lambda>root.
       map_option (\<lambda>nodes. tree\<lparr>tree_nodes := nodes\<rparr>)
         (link_loop [(None, root)] (tree_nodes tree)))"

subsection \<open>The whole construction\<close>

text \<open>\<open>while (nodes_.size() > 1) finish_node();\<close>\<close>

primrec finish_open :: "nat \<Rightarrow> tree_builder \<Rightarrow> tree_builder option" where
  "finish_open 0 tb = Some tb"
| "finish_open (Suc n) tb = Option.bind (finish_node tb) (finish_open n)"

definition finish_root :: "tree_builder \<Rightarrow> syntax_tree option" where
  "finish_root tb =
     (if tb_nodes tb = [] then None
      else Option.bind (finish_open (length (tb_nodes tb) - 1) tb) (\<lambda>tb'.
        Option.bind (build_node (hd (tb_nodes tb')) (tb_tree tb')) (\<lambda>n.
        Option.bind (tree_make n (tb_tree tb')) (\<lambda>(root, tree).
          link_parents (tree\<lparr>tree_root := Some root\<rparr>)))))"

definition build_syntax_tree :: "string \<Rightarrow> parser_event list \<Rightarrow> syntax_tree option" where
  "build_syntax_tree source events =
     Option.bind (start_root (new_tree_builder source)) (\<lambda>tb.
     Option.bind (consume_events events) (\<lambda>cs.
     Option.bind (consumer_run cs tb) finish_root))"

subsection \<open>Ordered ranges\<close>

primrec ordered_from :: "u32 \<Rightarrow> source_range list \<Rightarrow> bool" where
  "ordered_from e [] = True"
| "ordered_from e (r # rs) =
     (e \<le> range_begin r \<and> range_begin r \<le> range_end r \<and> ordered_from (range_end r) rs)"

primrec end_from :: "u32 \<Rightarrow> source_range list \<Rightarrow> u32" where
  "end_from e [] = e"
| "end_from e (r # rs) = end_from (range_end r) rs"

lemma end_from_append: "end_from e (rs @ rs') = end_from (end_from e rs) rs'"
  by (induction rs arbitrary: e) auto

lemma ordered_from_append:
  "ordered_from e (rs @ rs') \<longleftrightarrow> ordered_from e rs \<and> ordered_from (end_from e rs) rs'"
  by (induction rs arbitrary: e) auto

lemma ordered_from_end: "ordered_from e rs \<Longrightarrow> e \<le> end_from e rs"
  by (induction rs arbitrary: e) (auto intro: order_trans)

lemma ordered_from_weaken: "ordered_from e rs \<Longrightarrow> e' \<le> e \<Longrightarrow> ordered_from e' rs"
  by (cases rs) (auto intro: order_trans)

lemma end_from_nonempty: "rs \<noteq> [] \<Longrightarrow> end_from e rs = range_end (last rs)"
  by (induction rs arbitrary: e) auto

lemma ordered_from_ends:
  assumes "ordered_from e rs" "rs \<noteq> []"
  shows "range_begin (hd rs) \<le> range_end (last rs)"
  using assms ordered_from_end [of "range_end (hd rs)" "tl rs"] end_from_nonempty [OF assms(2), of e]
  by (cases rs) (auto intro: order_trans)

subsection \<open>Forests stored in the tree\<close>

abbreviation forest_leaves :: "item list \<Rightarrow> token list" where
  "forest_leaves f \<equiv> concat (map leaves f)"

fun forest_nodes :: "item list \<Rightarrow> nat" where
  "forest_nodes [] = 0"
| "forest_nodes (Tok t # f) = forest_nodes f"
| "forest_nodes (Err msg # f) = forest_nodes f"
| "forest_nodes (Node ty g # f) = Suc (forest_nodes g + forest_nodes f)"

abbreviation forest_end :: "u32 \<Rightarrow> item list \<Rightarrow> u32" where
  "forest_end e f \<equiv> end_from e (map token_range (forest_leaves f))"

text \<open>The errors of a forest that starts after the position \<open>e\<close>, each at the end of the token before it.\<close>

fun located_errors :: "u32 \<Rightarrow> item list \<Rightarrow> (string \<times> source_range) list" where
  "located_errors e [] = []"
| "located_errors e (Tok t # f) = located_errors (range_end (token_range t)) f"
| "located_errors e (Err msg # f) = (msg, from_offset e) # located_errors e f"
| "located_errors e (Node ty g # f) = located_errors e g @ located_errors (forest_end e g) f"

fun has_err :: "item list \<Rightarrow> bool" where
  "has_err [] = False"
| "has_err (Err msg # f) = True"
| "has_err (x # f) = has_err f"

primrec range_in :: "syntax_node list \<Rightarrow> syntax_child \<Rightarrow> source_range" where
  "range_in ns (Child_token t) = token_range t"
| "range_in ns (Child_node i) = node_range (ns ! i)"

abbreviation ranges_in :: "syntax_node list \<Rightarrow> syntax_child list \<Rightarrow> source_range list" where
  "ranges_in ns cs \<equiv> map (range_in ns) cs"

text \<open>
  The range of a node whose preceding token ends at \<open>e\<close>: from the begin of its first child to
  the end of its last child, and empty at \<open>e\<close> if it has no child. The children are in order.
\<close>

definition hull :: "u32 \<Rightarrow> source_range list \<Rightarrow> source_range" where
  "hull e rs = (if rs = [] then \<lparr>range_begin = e, range_end = e\<rparr>
     else \<lparr>range_begin = range_begin (hd rs), range_end = range_end (last rs)\<rparr>)"

definition hull_ok :: "syntax_node list \<Rightarrow> u32 \<Rightarrow> syntax_node \<Rightarrow> bool" where
  "hull_ok ns e n \<longleftrightarrow> ordered_from e (ranges_in ns (node_children n))
     \<and> node_range n = hull e (ranges_in ns (node_children n))"

text \<open>
  \<open>placed ns e lo cs f hi\<close>: the children \<open>cs\<close> are the forest \<open>f\<close>, whose nodes are stored at the
  indices from \<open>lo\<close> to \<open>hi\<close>, each after its descendants; the token before the forest ends at \<open>e\<close>.
\<close>

inductive placed :: "syntax_node list \<Rightarrow> u32 \<Rightarrow> nat \<Rightarrow> syntax_child list \<Rightarrow> item list \<Rightarrow> nat \<Rightarrow> bool"
  for ns where
  placed_Nil: "placed ns e lo [] [] lo"
| placed_Tok: "placed ns (range_end (token_range t)) lo cs f hi \<Longrightarrow>
    placed ns e lo (Child_token t # cs) (Tok t # f) hi"
| placed_Err: "placed ns e lo cs f hi \<Longrightarrow> placed ns e lo cs (Err msg # f) hi"
| placed_Node: "placed ns e lo (node_children (ns ! i)) g i \<Longrightarrow> i < length ns \<Longrightarrow>
    node_type (ns ! i) = ty \<Longrightarrow> node_has_error (ns ! i) = (ty = S_Error \<or> has_err g) \<Longrightarrow>
    hull_ok ns e (ns ! i) \<Longrightarrow> placed ns (forest_end e g) (Suc i) cs f hi \<Longrightarrow>
    placed ns e lo (Child_node i # cs) (Node ty g # f) hi"

lemma placed_append:
  "placed ns e lo cs f mid \<Longrightarrow> placed ns (forest_end e f) mid cs' f' hi \<Longrightarrow> placed ns e lo (cs @ cs') (f @ f') hi"
  by (induction rule: placed.induct) (auto simp: end_from_append intro: placed.intros)

lemma placed_bounds:
  "placed ns e lo cs f hi \<Longrightarrow> lo \<le> hi \<and> hi = lo + forest_nodes f \<and>
     (\<forall>i. Child_node i \<in> set cs \<longrightarrow> lo \<le> i \<and> i < hi)"
  by (induction rule: placed.induct) auto

text \<open>Only the stored nodes matter, and of them everything but the parents.\<close>

definition same_node :: "syntax_node \<Rightarrow> syntax_node \<Rightarrow> bool" where
  "same_node n n' \<longleftrightarrow> n\<lparr>node_parent := None\<rparr> = n'\<lparr>node_parent := None\<rparr>"

lemma same_nodeD:
  assumes "same_node n n'"
  shows "node_type n' = node_type n" "node_range n' = node_range n"
    "node_has_error n' = node_has_error n" "node_children n' = node_children n"
  using assms by (cases n; cases n'; simp add: same_node_def)+

lemma ranges_in_cong:
  assumes "\<forall>i. Child_node i \<in> set cs \<longrightarrow> same_node (ns ! i) (ns' ! i)"
  shows "ranges_in ns' cs = ranges_in ns cs"
proof (rule map_cong [OF refl])
  fix c
  assume c: "c \<in> set cs"
  show "range_in ns' c = range_in ns c"
    by (cases c; use assms c in \<open>auto simp: same_nodeD(2)\<close>)
qed

lemma placed_cong:
  assumes "placed ns e lo cs f hi" "length ns \<le> length ns'"
    "\<forall>i. lo \<le> i \<and> i < hi \<longrightarrow> same_node (ns ! i) (ns' ! i)"
  shows "placed ns' e lo cs f hi"
  using assms
proof (induction rule: placed.induct)
  case (placed_Node e lo i g ty cs f hi)
  note b = placed_bounds [OF placed_Node.hyps(1)] placed_bounds [OF placed_Node.hyps(6)]
  have n: "same_node (ns ! i) (ns' ! i)"
    using placed_Node.prems(2) b by auto
  have "ranges_in ns' (node_children (ns ! i)) = ranges_in ns (node_children (ns ! i))"
    by (rule ranges_in_cong) (use placed_Node.prems(2) b in auto)
  then have "hull_ok ns' e (ns' ! i)"
    using placed_Node.hyps(5) unfolding hull_ok_def same_nodeD [OF n] by (simp only:)
  moreover have "placed ns' e lo (node_children (ns ! i)) g i" "placed ns' (forest_end e g) (Suc i) cs f hi"
    using placed_Node.IH placed_Node.prems b by auto
  then have "placed ns' e lo (node_children (ns' ! i)) g i" "placed ns' (forest_end e g) (Suc i) cs f hi"
    by (simp_all only: same_nodeD [OF n])
  ultimately show ?case
    using placed_Node.hyps(2-4) placed_Node.prems(1)
    by (intro placed.placed_Node) (assumption | simp add: same_nodeD [OF n])+
qed (auto intro: placed.intros)

subsection \<open>The consumer stores the forest\<close>

text \<open>What the calls of a forest do to the builder whose innermost open node is \<open>nb\<close>.\<close>

definition adds :: "item list \<Rightarrow> tree_builder \<Rightarrow> tree_builder \<Rightarrow> bool" where
  "adds f tb tb' \<longleftrightarrow> (\<exists>nb nbs cs ns'.
     tb_nodes tb = nb # nbs \<and>
     tb_nodes tb' = nb\<lparr>nb_children := nb_children nb @ cs,
       nb_has_error := nb_has_error nb \<or> has_err f\<rparr> # nbs \<and>
     tree_nodes (tb_tree tb') = tree_nodes (tb_tree tb) @ ns' \<and>
     tree_source (tb_tree tb') = tree_source (tb_tree tb) \<and>
     tree_errors (tb_tree tb') = tree_errors (tb_tree tb) @ located_errors (range_end (tb_last tb)) f \<and>
     range_end (tb_last tb') = forest_end (range_end (tb_last tb)) f \<and>
     placed (tree_nodes (tb_tree tb')) (range_end (tb_last tb)) (length (tree_nodes (tb_tree tb))) cs f
       (length (tree_nodes (tb_tree tb'))) \<and>
     ordered_from (range_end (tb_last tb)) (ranges_in (tree_nodes (tb_tree tb')) cs) \<and>
     end_from (range_end (tb_last tb)) (ranges_in (tree_nodes (tb_tree tb')) cs)
       \<le> range_end (tb_last tb'))"

lemma same_node_refl: "same_node n n"
  by (simp add: same_node_def)

lemma has_err_append: "has_err (f @ f') \<longleftrightarrow> has_err f \<or> has_err f'"
  by (induction f rule: has_err.induct) auto

lemma located_errors_append:
  "located_errors e (f @ f') = located_errors e f @ located_errors (forest_end e f) f'"
  by (induction e f rule: located_errors.induct) (auto simp: end_from_append)

lemma adds_Nil: "tb_nodes tb \<noteq> [] \<Longrightarrow> adds [] tb tb"
  by (cases "tb_nodes tb")
    (auto simp: adds_def intro!: exI [of _ "[] :: syntax_child list"] placed_Nil)

lemma adds_trans:
  assumes "adds f tb tb'" "adds f' tb' tb''"
  shows "adds (f @ f') tb tb''"
proof -
  obtain nb nbs cs ns1 where one: "tb_nodes tb = nb # nbs"
    "tb_nodes tb' = nb\<lparr>nb_children := nb_children nb @ cs,
       nb_has_error := nb_has_error nb \<or> has_err f\<rparr> # nbs"
    "tree_nodes (tb_tree tb') = tree_nodes (tb_tree tb) @ ns1"
    "placed (tree_nodes (tb_tree tb')) (range_end (tb_last tb)) (length (tree_nodes (tb_tree tb))) cs f
       (length (tree_nodes (tb_tree tb')))"
    "ordered_from (range_end (tb_last tb)) (ranges_in (tree_nodes (tb_tree tb')) cs)"
    "end_from (range_end (tb_last tb)) (ranges_in (tree_nodes (tb_tree tb')) cs)
       \<le> range_end (tb_last tb')"
    and one': "tree_source (tb_tree tb') = tree_source (tb_tree tb)"
    "tree_errors (tb_tree tb') = tree_errors (tb_tree tb) @ located_errors (range_end (tb_last tb)) f"
    "range_end (tb_last tb') = forest_end (range_end (tb_last tb)) f"
    using assms(1) unfolding adds_def by auto
  obtain cs' ns2 where two: "tb_nodes tb'' = nb\<lparr>nb_children := (nb_children nb @ cs) @ cs',
       nb_has_error := (nb_has_error nb \<or> has_err f) \<or> has_err f'\<rparr> # nbs"
    "tree_nodes (tb_tree tb'') = tree_nodes (tb_tree tb') @ ns2"
    "placed (tree_nodes (tb_tree tb'')) (range_end (tb_last tb')) (length (tree_nodes (tb_tree tb'))) cs' f'
       (length (tree_nodes (tb_tree tb'')))"
    "ordered_from (range_end (tb_last tb')) (ranges_in (tree_nodes (tb_tree tb'')) cs')"
    "end_from (range_end (tb_last tb')) (ranges_in (tree_nodes (tb_tree tb'')) cs')
       \<le> range_end (tb_last tb'')"
    and two': "tree_source (tb_tree tb'') = tree_source (tb_tree tb')"
    "tree_errors (tb_tree tb'') = tree_errors (tb_tree tb') @ located_errors (range_end (tb_last tb')) f'"
    "range_end (tb_last tb'') = forest_end (range_end (tb_last tb')) f'"
    using assms(2) one(2) unfolding adds_def by auto
  have old: "same_node (tree_nodes (tb_tree tb') ! i) (tree_nodes (tb_tree tb'') ! i)"
    if "i < length (tree_nodes (tb_tree tb'))" for i
    using that by (simp add: two(2) nth_append same_node_refl)
  have "placed (tree_nodes (tb_tree tb'')) (range_end (tb_last tb)) (length (tree_nodes (tb_tree tb))) cs f
      (length (tree_nodes (tb_tree tb')))"
    by (rule placed_cong [OF one(4)]) (use old in \<open>simp_all add: two(2)\<close>)
  then have placed: "placed (tree_nodes (tb_tree tb'')) (range_end (tb_last tb)) (length (tree_nodes (tb_tree tb))) (cs @ cs')
      (f @ f') (length (tree_nodes (tb_tree tb'')))"
    using two(3) one'(3) by (intro placed_append) simp_all
  have r: "ranges_in (tree_nodes (tb_tree tb'')) cs = ranges_in (tree_nodes (tb_tree tb')) cs"
    by (rule ranges_in_cong) (use placed_bounds [OF one(4)] old in auto)
  have o: "ordered_from (end_from (range_end (tb_last tb)) (ranges_in (tree_nodes (tb_tree tb')) cs))
      (ranges_in (tree_nodes (tb_tree tb'')) cs')"
    by (rule ordered_from_weaken [OF two(4) one(6)])
  have "end_from (end_from (range_end (tb_last tb)) (ranges_in (tree_nodes (tb_tree tb')) cs))
      (ranges_in (tree_nodes (tb_tree tb'')) cs') \<le> range_end (tb_last tb'')"
    using one(6) two(5) by (cases "cs' = []") (simp_all add: end_from_nonempty)
  then have o': "ordered_from (range_end (tb_last tb))
        (ranges_in (tree_nodes (tb_tree tb'')) (cs @ cs'))"
    and e': "end_from (range_end (tb_last tb)) (ranges_in (tree_nodes (tb_tree tb'')) (cs @ cs'))
        \<le> range_end (tb_last tb'')"
    using one(5) o by (simp_all add: ordered_from_append end_from_append r)
  show ?thesis
    unfolding adds_def
    by (rule exI [of _ nb], rule exI [of _ nbs], rule exI [of _ "cs @ cs'"],
        rule exI [of _ "ns1 @ ns2"])
      (intro conjI one(1) placed o' e',
        simp_all add: one(3) one' two(1,2) two' has_err_append located_errors_append end_from_append
          disj_assoc)
qed

lemma adds_Tok:
  assumes "tb_nodes tb = nb # nbs"
    "range_end (tb_last tb) \<le> range_begin (token_range t)"
    "range_begin (token_range t) \<le> range_end (token_range t)"
  shows "\<exists>tb'. add_token t tb = Some tb' \<and> adds [Tok t] tb tb'"
  using assms
  by (auto simp: add_token_def adds_def add_child_def
      intro!: exI [of _ "[Child_token t]"] placed_Tok placed_Nil)

lemma adds_Err:
  assumes "tb_nodes tb = nb # nbs"
  shows "\<exists>tb'. add_error msg tb = Some tb' \<and> adds [Err msg] tb tb'"
  using assms
  by (auto simp: add_error_def adds_def
      intro!: exI [of _ "[] :: syntax_child list"] placed_Err placed_Nil)

text \<open>A node is built from the children that its builder collected.\<close>

lemma child_range_in:
  assumes "c \<in> set cs" "placed (tree_nodes tree) e lo cs f (length (tree_nodes tree))"
  shows "child_range c tree = Some (range_in (tree_nodes tree) c)"
  by (cases c; use assms(1) placed_bounds [OF assms(2)] in \<open>auto simp: child_range_def\<close>)

lemma build_node_ok:
  assumes "ordered_from e (ranges_in (tree_nodes tree) cs)"
    and p: "placed (tree_nodes tree) e' lo cs f (length (tree_nodes tree))"
  shows "\<exists>n. build_node \<lparr>nb_type = ty, nb_has_error = err, nb_children = cs, nb_pos = e\<rparr> tree
      = Some n \<and> node_type n = ty \<and> node_has_error n = err \<and> node_children n = cs \<and>
    hull_ok (tree_nodes tree) e n \<and> e \<le> range_begin (node_range n) \<and>
    range_begin (node_range n) \<le> range_end (node_range n) \<and>
    range_end (node_range n) = end_from e (ranges_in (tree_nodes tree) cs)"
proof (cases "cs = []")
  case True
  then show ?thesis
    by (simp add: build_node_def source_range_def hull_ok_def hull_def)
next
  case False
  let ?rs = "ranges_in (tree_nodes tree) cs"
  have ends: "child_range (hd cs) tree = Some (hd ?rs)" "child_range (last cs) tree = Some (last ?rs)"
    using False child_range_in [OF _ p] by (simp_all add: hd_map last_map)
  have le: "range_begin (hd ?rs) \<le> range_end (last ?rs)"
    using ordered_from_ends [OF assms(1)] False by simp
  have first: "e \<le> range_begin (hd ?rs)" "ordered_from e ?rs"
    using assms(1) False by (cases cs; simp)+
  have final: "end_from a ?rs = range_end (last ?rs)" for a
    using False by (simp add: end_from_nonempty)
  show ?thesis
    using False ends le first final
    by (simp add: build_node_def source_range_def hull_ok_def hull_def)
qed

lemma adds_Node:
  assumes tb: "tb_nodes tb = nb # nbs" and start: "start_node ty tb = Some tb0"
    and inner: "adds g tb0 tb1" and room: "length (tree_nodes (tb_tree tb1)) < 2 ^ 32 - 1"
  shows "\<exists>tb2. finish_node tb1 = Some tb2 \<and> adds [Node ty g] tb tb2 \<and>
    length (tree_nodes (tb_tree tb2)) = Suc (length (tree_nodes (tb_tree tb1)))"
proof -
  let ?e = "range_end (tb_last tb)" and ?ns = "tree_nodes (tb_tree tb)"
  let ?ns1 = "tree_nodes (tb_tree tb1)"
  have tb0: "tb_tree tb0 = tb_tree tb" "tb_last tb0 = tb_last tb"
    "tb_nodes tb0 = \<lparr>nb_type = ty, nb_has_error = (ty = S_Error), nb_children = [], nb_pos = ?e\<rparr>
       # nb # nbs"
    using start tb by (auto simp: start_node_def Let_def new_node_builder_def)
  obtain cs ns' where one: "tb_nodes tb1 = \<lparr>nb_type = ty,
        nb_has_error = (ty = S_Error \<or> has_err g), nb_children = cs, nb_pos = ?e\<rparr> # nb # nbs"
    "?ns1 = ?ns @ ns'" "placed ?ns1 ?e (length ?ns) cs g (length ?ns1)"
    "ordered_from ?e (ranges_in ?ns1 cs)"
    "end_from ?e (ranges_in ?ns1 cs) \<le> range_end (tb_last tb1)"
    and one': "tree_source (tb_tree tb1) = tree_source (tb_tree tb)"
    "tree_errors (tb_tree tb1) = tree_errors (tb_tree tb) @ located_errors ?e g"
    "range_end (tb_last tb1) = forest_end ?e g"
    using inner tb0 unfolding adds_def by auto
  obtain n where n: "build_node \<lparr>nb_type = ty, nb_has_error = (ty = S_Error \<or> has_err g),
       nb_children = cs, nb_pos = ?e\<rparr> (tb_tree tb1) = Some n"
    "node_type n = ty" "node_has_error n = (ty = S_Error \<or> has_err g)" "node_children n = cs"
    "hull_ok ?ns1 ?e n" "?e \<le> range_begin (node_range n)"
    "range_begin (node_range n) \<le> range_end (node_range n)"
    "range_end (node_range n) = end_from ?e (ranges_in ?ns1 cs)"
    using build_node_ok [OF one(4,3), where ty = ty and err = "ty = S_Error \<or> has_err g"]
    by blast
  let ?i = "length ?ns1" and ?ns2 = "?ns1 @ [n]"
  obtain tb2 where tb2: "finish_node tb1 = Some tb2"
    "tb2 = tb1\<lparr>tb_tree := (tb_tree tb1)\<lparr>tree_nodes := ?ns2\<rparr>,
       tb_nodes := add_child (Child_node ?i) nb # nbs\<rparr>"
    using n(1) one(1) room by (auto simp: finish_node_def tree_make_def)
  have old: "same_node (?ns1 ! j) (?ns2 ! j)" if "j < ?i" for j
    using that by (simp add: nth_append same_node_refl)
  have "placed ?ns2 ?e (length ?ns) cs g ?i"
    by (rule placed_cong [OF one(3)]) (use old in simp_all)
  moreover have "ranges_in ?ns2 cs = ranges_in ?ns1 cs"
    by (rule ranges_in_cong) (use placed_bounds [OF one(3)] old in auto)
  then have "hull_ok ?ns2 ?e n"
    using n(4,5) unfolding hull_ok_def by (simp only:)
  ultimately have "placed ?ns2 ?e (length ?ns) [Child_node ?i] [Node ty g] (Suc ?i)"
    using n(2-4) by (intro placed_Node placed_Nil) simp_all
  then have "adds [Node ty g] tb tb2"
    using one(2,5) one' n(6-8) tb
    unfolding adds_def tb2(2)
    by (intro exI [of _ nb] exI [of _ nbs] exI [of _ "[Child_node ?i]"] exI [of _ "ns' @ [n]"])
      (simp add: add_child_def)
  then show ?thesis
    using tb2 by simp
qed

lemma consumer_run_append:
  "consumer_run (cs @ cs') tb = Option.bind (consumer_run cs tb) (consumer_run cs')"
  by (induction cs arbitrary: tb) (auto split: Option.bind_splits)

lemma forest_nodes_length:
  "adds f tb tb' \<Longrightarrow>
   length (tree_nodes (tb_tree tb')) = length (tree_nodes (tb_tree tb)) + forest_nodes f"
  unfolding adds_def by (auto dest!: placed_bounds)

lemma adds_nonempty: "adds f tb tb' \<Longrightarrow> tb_nodes tb' \<noteq> []"
  by (auto simp: adds_def)

lemma consumer_run_forest:
  assumes "tb_nodes tb \<noteq> []"
    "ordered_from (range_end (tb_last tb)) (map token_range (forest_leaves f))"
    "length (tree_nodes (tb_tree tb)) + forest_nodes f < 2 ^ 32"
  shows "\<exists>tb'. consumer_run (forest_calls f) tb = Some tb' \<and> adds f tb tb'"
  using assms
proof (induction f arbitrary: tb rule: forest_nodes.induct)
  case 1
  then show ?case
    using adds_Nil by simp
next
  case (2 t f)
  obtain nb nbs where tb: "tb_nodes tb = nb # nbs"
    using "2.prems"(1) by (cases "tb_nodes tb") auto
  obtain tb1 where tb1: "add_token t tb = Some tb1" "adds [Tok t] tb tb1"
    using adds_Tok [OF tb, of t] "2.prems"(2) by auto
  have last: "range_end (tb_last tb1) = range_end (token_range t)"
    using tb1(1) tb by (auto simp: add_token_def)
  obtain tb2 where "consumer_run (forest_calls f) tb1 = Some tb2" "adds f tb1 tb2"
    using "2.IH" [OF adds_nonempty [OF tb1(2)]] "2.prems"(2,3) forest_nodes_length [OF tb1(2)] last
    by auto
  then show ?case
    using adds_trans [OF tb1(2)] tb1(1) by auto
next
  case (3 msg f)
  obtain nb nbs where tb: "tb_nodes tb = nb # nbs"
    using "3.prems"(1) by (cases "tb_nodes tb") auto
  obtain tb1 where tb1: "add_error msg tb = Some tb1" "adds [Err msg] tb tb1"
    using adds_Err [OF tb, of msg] by auto
  have last: "tb_last tb1 = tb_last tb"
    using tb1(1) tb by (auto simp: add_error_def)
  obtain tb2 where "consumer_run (forest_calls f) tb1 = Some tb2" "adds f tb1 tb2"
    using "3.IH" [OF adds_nonempty [OF tb1(2)]] "3.prems"(2,3) forest_nodes_length [OF tb1(2)] last
    by auto
  then show ?case
    using adds_trans [OF tb1(2)] tb1(1) by auto
next
  case (4 ty g f)
  obtain nb nbs where tb: "tb_nodes tb = nb # nbs"
    using "4.prems"(1) by (cases "tb_nodes tb") auto
  obtain tb0 where tb0: "start_node ty tb = Some tb0" "tb_nodes tb0 \<noteq> []"
    "tb_tree tb0 = tb_tree tb" "tb_last tb0 = tb_last tb"
    by (auto simp: start_node_def Let_def)
  obtain tb1 where tb1: "consumer_run (forest_calls g) tb0 = Some tb1" "adds g tb0 tb1"
    using "4.IH"(1) [OF tb0(2)] "4.prems"(2,3) tb0(3,4) by (auto simp: ordered_from_append)
  obtain tb2 where tb2: "finish_node tb1 = Some tb2" "adds [Node ty g] tb tb2"
    using adds_Node [OF tb tb0(1) tb1(2)] forest_nodes_length [OF tb1(2)] "4.prems"(3) tb0(3)
    by auto
  have last: "range_end (tb_last tb2) = forest_end (range_end (tb_last tb)) g"
    using tb2(2) by (auto simp: adds_def)
  obtain tb3 where "consumer_run (forest_calls f) tb2 = Some tb3" "adds f tb2 tb3"
    using "4.IH"(2) [OF adds_nonempty [OF tb2(2)]] "4.prems"(2,3) forest_nodes_length [OF tb2(2)]
      last by (auto simp: ordered_from_append)
  then show ?case
    using adds_trans [OF tb2(2)] tb0(1) tb1(1) tb2(1) by (auto simp: consumer_run_append)
qed

subsection \<open>Parents\<close>

definition linked :: "syntax_node list \<Rightarrow> nat \<Rightarrow> nat \<Rightarrow> bool" where
  "linked ns lo hi \<longleftrightarrow> (\<forall>i j. lo \<le> i \<and> i < hi \<and> Child_node j \<in> set (node_children (ns ! i)) \<longrightarrow>
     node_parent (ns ! j) = Some i)"

definition parents_are :: "syntax_node list \<Rightarrow> nat option \<Rightarrow> syntax_child list \<Rightarrow> bool" where
  "parents_are ns q cs \<longleftrightarrow> (\<forall>i. Child_node i \<in> set cs \<longrightarrow> node_parent (ns ! i) = q)"

text \<open>Only parents within \<open>lo\<close> and \<open>hi\<close> have changed.\<close>

definition relinked :: "nat \<Rightarrow> nat \<Rightarrow> syntax_node list \<Rightarrow> syntax_node list \<Rightarrow> bool" where
  "relinked lo hi ns ns' \<longleftrightarrow> length ns' = length ns \<and> (\<forall>i. same_node (ns ! i) (ns' ! i)) \<and>
     (\<forall>i. i < lo \<or> hi \<le> i \<longrightarrow> ns' ! i = ns ! i)"

lemma same_node_trans: "same_node a b \<Longrightarrow> same_node b c \<Longrightarrow> same_node a c"
  by (simp add: same_node_def)

lemma relinked_trans: "relinked lo hi a b \<Longrightarrow> relinked lo hi b c \<Longrightarrow> relinked lo hi a c"
  by (auto simp: relinked_def intro: same_node_trans)

lemma relinked_mono: "relinked lo hi a b \<Longrightarrow> lo' \<le> lo \<Longrightarrow> hi \<le> hi' \<Longrightarrow> relinked lo' hi' a b"
  by (auto simp: relinked_def)

lemma relinked_update:
  "i < length ns \<Longrightarrow> relinked i (Suc i) ns (ns[i := (ns ! i)\<lparr>node_parent := q\<rparr>])"
  by (auto simp: relinked_def same_node_def nth_list_update)

lemma placed_children:
  "placed ns e lo cs f hi \<Longrightarrow> lo \<le> k \<Longrightarrow> k < hi \<Longrightarrow> Child_node j \<in> set (node_children (ns ! k)) \<Longrightarrow>
   lo \<le> j \<and> j < k"
proof (induction arbitrary: k rule: placed.induct)
  case (placed_Node e lo i g ty cs f hi)
  note b = placed_bounds [OF placed_Node.hyps(1)] placed_bounds [OF placed_Node.hyps(6)]
  consider "k < i" | "k = i" | "i < k"
    by linarith
  then show ?case
  proof cases
    case 1
    then show ?thesis
      using placed_Node.IH(1) placed_Node.prems by blast
  next
    case 2
    then show ?thesis
      using b placed_Node.prems by blast
  next
    case 3
    then have "Suc i \<le> j \<and> j < k"
      by (intro placed_Node.IH(2) placed_Node.prems) simp
    then show ?thesis
      using b by linarith
  qed
qed auto

lemma link_step:
  "i < length ns \<Longrightarrow> link_loop ((q, i) # stack) ns
    = link_loop (push_children i (node_children (ns ! i)) stack) (ns[i := (ns ! i)\<lparr>node_parent := q\<rparr>])"
  by (subst link_loop.simps) simp

lemma link_forest:
  assumes "placed ns0 e lo cs f hi" "length ns = length ns0" "\<forall>i. same_node (ns0 ! i) (ns ! i)"
  shows "\<exists>ns'. link_loop (push_children q cs stack) ns = link_loop stack ns' \<and>
    relinked lo hi ns ns' \<and> parents_are ns' (Some q) cs \<and> linked ns' lo hi"
  using assms
proof (induction arbitrary: q stack ns rule: placed.induct)
  case (placed_Nil e lo)
  then show ?case
    by (auto simp: relinked_def same_node_refl parents_are_def linked_def intro!: exI [of _ ns])
next
  case (placed_Tok t lo cs f hi e)
  then show ?case
    by (simp add: parents_are_def)
next
  case (placed_Err e lo cs f hi msg)
  then show ?case
    by simp
next
  case (placed_Node e lo i g ty cs f hi)
  note b = placed_bounds [OF placed_Node.hyps(1)] placed_bounds [OF placed_Node.hyps(6)]
  obtain ns1 where one: "link_loop (push_children q cs ((Some q, i) # stack)) ns
      = link_loop ((Some q, i) # stack) ns1"
    "relinked (Suc i) hi ns ns1" "parents_are ns1 (Some q) cs" "linked ns1 (Suc i) hi"
    using placed_Node.IH(2) [OF placed_Node.prems] by blast
  let ?ns2 = "ns1[i := (ns1 ! i)\<lparr>node_parent := Some q\<rparr>]"
  have len: "length ns1 = length ns0" and same1: "\<And>j. same_node (ns0 ! j) (ns1 ! j)"
    using placed_Node.prems one(2) same_node_trans by (auto simp: relinked_def) blast
  have i: "i < length ns1"
    using placed_Node.hyps(2) len by simp
  have r2: "relinked i (Suc i) ns1 ?ns2"
    by (rule relinked_update [OF i])
  then have "length ?ns2 = length ns0" "\<forall>i. same_node (ns0 ! i) (?ns2 ! i)"
    using len same1 same_node_trans by (auto simp: relinked_def) blast
  from placed_Node.IH(1) [OF this, of i stack]
  obtain ns3 where three: "link_loop (push_children i (node_children (ns0 ! i)) stack) ?ns2
      = link_loop stack ns3"
    "relinked lo i ?ns2 ns3" "parents_are ns3 (Some i) (node_children (ns0 ! i))"
    "linked ns3 lo i"
    by auto
  have kids: "node_children (ns1 ! j) = node_children (ns0 ! j)" for j
    by (rule same_nodeD(4) [OF same1])
  have run: "link_loop (push_children q (Child_node i # cs) stack) ns = link_loop stack ns3"
    using one(1) link_step [OF i] three(1) kids by simp
  have rel: "relinked lo hi ns ns3"
    using relinked_mono [OF one(2), of lo hi] relinked_mono [OF r2, of lo hi]
      relinked_mono [OF three(2), of lo hi] b
    by (auto intro: relinked_trans)
  have above: "ns3 ! j = ns1 ! j" if "i < j" for j
    using that three(2) r2 by (auto simp: relinked_def)
  have at_i: "ns3 ! i = (ns1 ! i)\<lparr>node_parent := Some q\<rparr>"
    using three(2) i by (auto simp: relinked_def)
  have "parents_are ns3 (Some q) (Child_node i # cs)"
    using one(3) at_i above b by (auto simp: parents_are_def)
  moreover have "linked ns3 lo hi"
    unfolding linked_def
  proof (intro allI impI, elim conjE)
    fix k j
    assume k: "lo \<le> k" "k < hi" "Child_node j \<in> set (node_children (ns3 ! k))"
    consider "k < i" | "k = i" | "i < k"
      by linarith
    then show "node_parent (ns3 ! j) = Some k"
    proof cases
      case 1
      then show ?thesis
        using three(4) k by (auto simp: linked_def)
    next
      case 2
      then show ?thesis
        using three(3) k(3) by (auto simp: parents_are_def at_i kids)
    next
      case 3
      then have j: "Child_node j \<in> set (node_children (ns1 ! k))"
        using k(3) above by simp
      then have "Suc i \<le> j"
        using placed_children [OF placed_Node.hyps(6), of k j] 3 k(2) kids by simp
      then show ?thesis
        using one(4) 3 k(2) j above by (auto simp: linked_def)
    qed
  qed
  ultimately show ?case
    using run rel by blast
qed

subsection \<open>The tree of a forest\<close>

text \<open>
  The tree holds the forest under its root: the nodes and tokens in order, the errors flagged,
  each with the range of its children; and every child points to its parent.
\<close>

definition stores :: "string \<Rightarrow> item list \<Rightarrow> syntax_tree \<Rightarrow> bool" where
  "stores source f tree \<longleftrightarrow> tree_source tree = source \<and>
     tree_errors tree = located_errors 0 f \<and>
     (\<exists>root. tree_root tree = Some root \<and> node_parent (tree_nodes tree ! root) = None \<and>
        placed (tree_nodes tree) 0 0 [Child_node root] [Node S_Root f] (length (tree_nodes tree))) \<and>
     linked (tree_nodes tree) 0 (length (tree_nodes tree))"

lemma linked_extend:
  assumes "linked ns lo hi" "parents_are ns (Some hi) (node_children (ns ! hi))"
  shows "linked ns lo (Suc hi)"
  using assms by (auto simp: linked_def parents_are_def less_Suc_eq)

lemma link_parents_ok:
  assumes p: "placed (tree_nodes tree) 0 0 [Child_node root] [Node S_Root f] (length (tree_nodes tree))"
    and root: "tree_root tree = Some root" and source: "tree_source tree = source"
    and errors: "tree_errors tree = located_errors 0 f"
  shows "\<exists>tree'. link_parents tree = Some tree' \<and> stores source f tree'"
proof -
  let ?ns = "tree_nodes tree"
  from p have p': "placed ?ns 0 0 (node_children (?ns ! root)) f root" and len: "length ?ns = Suc root"
    by (auto elim: placed.cases)
  let ?ns1 = "?ns[root := (?ns ! root)\<lparr>node_parent := None\<rparr>]"
  have r1: "relinked root (Suc root) ?ns ?ns1"
    by (rule relinked_update) (use len in simp)
  then have same1: "length ?ns1 = length ?ns" "\<forall>i. same_node (?ns ! i) (?ns1 ! i)"
    by (auto simp: relinked_def)
  obtain ns2 where two: "link_loop (push_children root (node_children (?ns ! root)) []) ?ns1
      = link_loop [] ns2" "relinked 0 root ?ns1 ns2"
    "parents_are ns2 (Some root) (node_children (?ns ! root))" "linked ns2 0 root"
    using link_forest [OF p' same1, of root "[]"] by auto
  have run: "link_parents tree = Some (tree\<lparr>tree_nodes := ns2\<rparr>)"
    using link_step [of root ?ns None "[]"] len two(1)
    by (simp add: link_parents_def root link_loop.simps)
  have same2: "\<forall>i. same_node (?ns ! i) (ns2 ! i)"
    using same1(2) two(2) same_node_trans by (auto simp: relinked_def) blast
  have "placed ns2 0 0 [Child_node root] [Node S_Root f] (length ns2)"
    using placed_cong [OF p, of ns2] same2 two(2) by (auto simp: relinked_def)
  moreover have "node_parent (ns2 ! root) = None"
    using two(2) len by (simp add: relinked_def)
  moreover have "linked ns2 0 (length ns2)"
    using linked_extend [OF two(4)] two(2,3) same_nodeD(4) [of "?ns ! root" "ns2 ! root"] same2 len
    by (simp add: relinked_def)
  ultimately show ?thesis
    using run source errors root by (simp add: stores_def)
qed

lemma adds_root:
  assumes "adds f tb tb'" "start_root (new_tree_builder source) = Some tb"
    and room: "length (tree_nodes (tb_tree tb')) < 2 ^ 32 - 1"
  shows "\<exists>tree. finish_root tb' = Some tree \<and> stores source f tree"
proof -
  have tb: "tb_nodes tb = [new_node_builder S_Root 0]" "tree_nodes (tb_tree tb) = []"
    "range_end (tb_last tb) = 0" "tree_errors (tb_tree tb) = []" "tree_source (tb_tree tb) = source"
    using assms(2) by (auto simp: start_root_def new_tree_builder_def from_offset_def)
  let ?ns = "tree_nodes (tb_tree tb')"
  obtain cs where cs: "tb_nodes tb' = [\<lparr>nb_type = S_Root, nb_has_error = has_err f,
       nb_children = cs, nb_pos = 0\<rparr>]"
    "placed ?ns 0 0 cs f (length ?ns)" "ordered_from 0 (ranges_in ?ns cs)"
    "tree_errors (tb_tree tb') = located_errors 0 f" "tree_source (tb_tree tb') = source"
    using assms(1) tb unfolding adds_def by (auto simp: new_node_builder_def)
  obtain n where n: "build_node \<lparr>nb_type = S_Root, nb_has_error = has_err f,
       nb_children = cs, nb_pos = 0\<rparr> (tb_tree tb') = Some n"
    "node_type n = S_Root" "node_has_error n = has_err f" "node_children n = cs" "hull_ok ?ns 0 n"
    using build_node_ok [OF cs(3,2), where ty = S_Root and err = "has_err f"] by blast
  let ?root = "length ?ns" and ?ns1 = "?ns @ [n]"
  let ?tree = "(tb_tree tb')\<lparr>tree_nodes := ?ns1, tree_root := Some ?root\<rparr>"
  have old: "same_node (?ns ! j) (?ns1 ! j)" if "j < ?root" for j
    using that by (simp add: nth_append same_node_refl)
  have "placed ?ns1 0 0 cs f ?root"
    by (rule placed_cong [OF cs(2)]) (use old in simp_all)
  moreover have "ranges_in ?ns1 cs = ranges_in ?ns cs"
    by (rule ranges_in_cong) (use placed_bounds [OF cs(2)] old in auto)
  then have "hull_ok ?ns1 0 n"
    using n(4,5) unfolding hull_ok_def by (simp only:)
  ultimately have "placed ?ns1 0 0 [Child_node ?root] [Node S_Root f] (Suc ?root)"
    using n(2-4) by (intro placed_Node placed_Nil) simp_all
  then obtain tree where "link_parents ?tree = Some tree" "stores source f tree"
    using link_parents_ok [of ?tree ?root f source] cs(4,5) by auto
  then show ?thesis
    using cs(1) n(1) room by (simp add: finish_root_def tree_make_def)
qed

lemma build_syntax_tree_ok:
  assumes "represents 0 events f"
    and "ordered_from 0 (map token_range (forest_leaves f))"
    and "forest_nodes f < 2 ^ 32 - 1"
  shows "\<exists>tree. build_syntax_tree source events = Some tree \<and> stores source f tree"
proof -
  obtain tb where tb: "start_root (new_tree_builder source) = Some tb"
    by (simp add: start_root_def new_tree_builder_def)
  then have tb0: "tb_nodes tb \<noteq> []" "tree_nodes (tb_tree tb) = []" "range_end (tb_last tb) = 0"
    by (auto simp: start_root_def new_tree_builder_def from_offset_def)
  obtain tb' where run: "consumer_run (forest_calls f) tb = Some tb'" and a: "adds f tb tb'"
    using consumer_run_forest [OF tb0(1), of f] tb0(2,3) assms(2,3) by auto
  have "length (tree_nodes (tb_tree tb')) < 2 ^ 32 - 1"
    using forest_nodes_length [OF a] tb0(2) assms(3) by simp
  then obtain tree where "finish_root tb' = Some tree" "stores source f tree"
    using adds_root [OF a tb] by blast
  then show ?thesis
    using tb run consume_represented [OF assms(1)] by (simp add: build_syntax_tree_def)
qed

end
