(* ===== verification/FrontEnd.thy ===== *)
theory FrontEnd
  imports GrammarSafe SyntaxTree
begin

text \<open>
  The properties of the parser and of the syntax tree: the parser is total, the events it
  emits become a tree that holds the tokens in order, and a block that the parser cannot
  leave.
\<close>

subsection \<open>From tokens to the tree\<close>

lemma forest_nodes_append: "forest_nodes (f @ g) = forest_nodes f + forest_nodes g"
  by (induction f rule: forest_nodes.induct) auto

lemma forest_nodes_events:
  "represents b es f \<Longrightarrow> forest_nodes f \<le> length es"
  "links b acc es c n \<Longrightarrow> forest_nodes [n] \<le> forest_nodes acc + length es"
proof (induction rule: represents_links.inducts)
  case (represents_Node b es c n es' f)
  then show ?case
    using forest_nodes_append [of "[n]" f] by simp
qed (auto simp: forest_nodes_append)

lemma same_token_ranges:
  "list_all2 (same_token src) ts ts' \<Longrightarrow> map token_range ts' = map token_range ts"
  by (induction rule: list_all2_induct) (auto simp: same_token_def)

lemma ordered_from_take: "ordered_from e rs \<Longrightarrow> ordered_from e (take k rs)"
  by (metis append_take_drop_id ordered_from_append)

definition tree_holds :: "string \<Rightarrow> token list \<Rightarrow> syntax_tree \<Rightarrow> bool" where
  "tree_holds source tokens tree \<longleftrightarrow> (\<exists>children k.
     stores source [Node S_File children] tree \<and> stopped_after tokens k \<and>
     list_all2 (same_token source) (take k tokens) (forest_leaves children))"

lemma tree_of_events:
  assumes ranges: "\<forall>t \<in> set tokens. range_ok source (token_range t)"
    and ordered: "ordered_from 0 (map token_range tokens)"
    and events: "parse_tokens source tokens = Inr events" "length events < 2 ^ 32 - 1"
  shows "\<exists>tree. build_syntax_tree source events = Some tree \<and> tree_holds source tokens tree"
proof -
  obtain children k where k: "stopped_after tokens k"
    "tree_of source (take k tokens) events children"
    using parse_tokens_total [OF ranges] events(1) by auto
  then have rep: "represents 0 events [Node S_File children]"
    and toks: "list_all2 (same_token source) (take k tokens) (forest_leaves children)"
    by (simp_all add: tree_of_def)
  have "ordered_from 0 (map token_range (forest_leaves [Node S_File children]))"
    using same_token_ranges [OF toks] ordered_from_take [OF ordered, of k] by (simp add: take_map)
  moreover have "forest_nodes [Node S_File children] < 2 ^ 32 - 1"
    using forest_nodes_events(1) [OF rep] events(2) by simp
  ultimately obtain tree where "build_syntax_tree source events = Some tree"
    "stores source [Node S_File children] tree"
    using build_syntax_tree_ok [OF rep] by blast
  then show ?thesis
    using k(1) toks by (auto simp: tree_holds_def)
qed

subsection \<open>A block that the parser cannot leave\<close>

lemma runs_never: "(\<And>l. \<not> A l) \<Longrightarrow> runs i A ss k A' ss' j"
  by (simp add: runs_def)

lemma gives_skip:
  assumes "\<And>l. A l \<Longrightarrow> kind l \<in> SKIP_CONSUME_ON_ERROR"
  shows "gives i A ss (por (at_any SKIP_CONSUME_ON_ERROR) b) (\<lambda>x l. A l \<and> x) (\<lambda>_. ss) (i - 1)"
  unfolding por_def gives_def
proof (rule check_bind [OF runs_at_any [folded gives_def]], rule check_if)
  fix x
  assume "\<not> x"
  then show "runs (i - 1) (\<lambda>l. A l \<and> x = (kind l \<in> SKIP_CONSUME_ON_ERROR)) ss b
      (\<lambda>x l. A l \<and> x) (\<lambda>_. ss) (i - 1)"
    using assms by (intro runs_never) auto
qed (auto intro!: check_return covers_refl)

lemma gives_error_recover_skip:
  assumes "growing ss" "\<And>l. A l \<Longrightarrow> kind l \<in> SKIP_CONSUME_ON_ERROR"
  shows "gives i A ss (error_recover msg recovery) (\<lambda>_. A) (\<lambda>_. ss) (i - 1)"
  unfolding error_recover_def gives_def
proof (rule check_bind [OF gives_skip [OF assms(2)]], assumption, rule check_if)
  fix x
  show "runs (i - 1) (\<lambda>l. A l \<and> x) ss (error msg) (\<lambda>_. A) (\<lambda>_. ss) (i - 1)" if x
    by (rule runs_gives, rule runs_error [folded gives_def])
      (use assms(1) in \<open>auto intro: covers_refl\<close>)
qed (auto intro!: runs_never)

text \<open>A token at which no statement starts, and that error recovery does not skip.\<close>

definition block_trap :: "token_type \<Rightarrow> bool" where
  "block_trap ty \<longleftrightarrow> ty \<in> {T_StringBlockStart, T_StringBlockEnd}"

lemma gives_stmt_trap:
  assumes "growing ss" "block_trap ty"
  shows "gives i (\<lambda>l. kind l = ty) ss (parse_stmt rec recovery) (\<lambda>_ l. kind l = ty) (\<lambda>_. ss) (i - 1)"
proof -
  note trap = assms(2) [unfolded block_trap_def]
  have recover: "runs n (\<lambda>l. ((kind l = ty \<and> t = kind l) \<and> a = (kind l \<in> VAR_FIRST)) \<and>
        b = (kind l \<in> EXPR_FIRST)) ss (error_recover msg recovery) (\<lambda>_ l. kind l = ty) (\<lambda>_. ss) m"
    if "n - 1 \<le> m" for n m t a b msg
    by (rule runs_gives, rule gives_error_recover_skip [OF assms(1)])
      (use trap that in \<open>auto simp: SKIP_CONSUME_ON_ERROR_def intro: covers_refl\<close>)
  show ?thesis
    unfolding parse_stmt_def gives_def
    by (rule check_bind check_if gives_primitive recover | simp | (rule runs_never,
        use trap in \<open>auto simp: VAR_FIRST_def EXPR_FIRST_def LITERAL_FIRST_def UNARY_OP_FIRST_def\<close>; fail)[1])+
qed

lemma gives_accept_other:
  assumes "\<And>l. A l \<Longrightarrow> kind l \<noteq> ty"
  shows "gives i A ss (accept ty) (\<lambda>b l. A l \<and> \<not> b) (\<lambda>_. ss) (i - 1)"
  unfolding accept_def gives_def
proof (rule check_bind [OF runs_at [folded gives_def]], rule check_if)
  fix x
  assume x
  then show "runs (i - 1) (\<lambda>l. A l \<and> x = (kind l = ty)) ss (pseq advance (preturn True))
      (\<lambda>b l. A l \<and> \<not> b) (\<lambda>_. ss) (i - 1)"
    using assms by (intro runs_never) auto
qed (auto intro!: check_return covers_refl)

lemma runs_block_item_trap:
  assumes "growing ss" "block_trap ty"
  shows "runs i (\<lambda>l. kind l = ty) ss (parse_block_item (parse_call (Suc n)))
    (\<lambda>go l. go \<and> kind l = ty) (\<lambda>_. ss) i"
proof -
  let ?stmt = "parse_call (Suc n) (Call_stmt (STMT_FIRST \<union> {T_RightBrace}))"
  have semi: "gives i (\<lambda>l. kind l = ty) ss (accept T_Semicolon) (\<lambda>b l. kind l = ty \<and> \<not> b)
      (\<lambda>_. ss) (i - 1)"
    by (rule gives_accept_other) (use assms(2) in \<open>auto simp: block_trap_def\<close>)
  have stmt: "gives (i - 1) (\<lambda>l. kind l = ty \<and> \<not> b) ss ?stmt (\<lambda>_ l. kind l = ty) (\<lambda>_. ss)
      (i - 1 - 1)" for b
  proof -
    have "gives (i - 1) (\<lambda>l. kind l = ty \<and> \<not> b) ss
        (parse_stmt (parse_call n) (STMT_FIRST \<union> {T_RightBrace})) (\<lambda>_ l. kind l = ty) (\<lambda>_. ss)
        (i - 1 - 1)"
      unfolding gives_def
      by (rule runs_conseq [OF gives_stmt_trap [OF assms, unfolded gives_def]])
        (auto intro: covers_refl)
    then show ?thesis
      unfolding parse_call.simps call.case gives_def
      by (rule check_seq [OF _ covers_refl, folded gives_def, unfolded gives_def])
        (rule check_return; simp add: covers_refl)
  qed
  have "parse_block_item (parse_call (Suc n)) = pbind (accept T_Semicolon) (\<lambda>semi.
      if semi then preturn True else pseq ?stmt (preturn True))"
    by (rule ext) (simp only: parse_block_item_def)
  moreover have "runs i (\<lambda>l. kind l = ty) ss (pbind (accept T_Semicolon) (\<lambda>semi.
      if semi then preturn True else pseq ?stmt (preturn True)))
      (\<lambda>go l. go \<and> kind l = ty) (\<lambda>_. ss) i"
  proof (rule check_bind [OF semi], rule check_if)
    fix b
    show "runs (i - 1) (\<lambda>l. kind l = ty \<and> \<not> b) ss (pseq ?stmt (preturn True))
        (\<lambda>go l. go \<and> kind l = ty) (\<lambda>_. ss) i"
      by (rule check_seq [OF stmt covers_refl]) (rule check_return; simp add: covers_refl)
  qed (rule runs_never; simp)
  ultimately show ?thesis
    by simp
qed

text \<open>The loop over the statements of a block has no way out.\<close>

lemma block_loop_stuck:
  assumes p: "parser_ok p" "block_trap (kind (look p))" "budget p \<le> m" "0 < n"
  shows "loop_fuel m (until_step (at_any {T_Eof, T_RightBrace}) (parse_block_item (parse_call n)))
    () p = Inl Stuck"
proof -
  let ?ty = "kind (look p)" and ?stop = "at_any {T_Eof, T_RightBrace}"
  let ?body = "parse_block_item (parse_call n)"
  have step: "runs i (\<lambda>l. kind l = ?ty) [Plain] (until_step ?stop ?body s)
      (\<lambda>(go, s') l. if go then kind l = ?ty else False) (\<lambda>(go, s'). [Plain]) (i - 1)" for i s
  proof (rule runs_until_step [OF runs_at_any [folded gives_def]])
    show "False" if "kind l = ?ty \<and> True = (kind l \<in> {T_Eof, T_RightBrace})" for l
      using that p(2) by (auto simp: block_trap_def)
    show "runs (i - 1) (\<lambda>l. kind l = ?ty \<and> False = (kind l \<in> {T_Eof, T_RightBrace})) [Plain] ?body
        (\<lambda>go l. if go then kind l = ?ty else False) (\<lambda>_. [Plain]) (i - 1)"
    proof (rule runs_conseq)
      show "runs (i - 1) (\<lambda>l. kind l = ?ty) [Plain] ?body (\<lambda>go l. go \<and> kind l = ?ty)
          (\<lambda>_. [Plain]) (i - 1)"
        using runs_block_item_trap [OF _ p(2), of "[Plain]" "i - 1" "n - 1"] p(4) by simp
    qed (auto simp: covers_refl)
  qed
  have "runs (budget p) (\<lambda>l. kind l = ?ty) [Plain] (loop_fuel m (until_step ?stop ?body) ())
      (\<lambda>_ _. False) (\<lambda>_. [Plain]) (budget p)"
    by (rule runs_loop_fuel [where I = "\<lambda>_ l. kind l = ?ty" and T = "\<lambda>_. [Plain]"])
      (use step p(3) in auto)
  then show ?thesis
  proof (rule runsE [OF _ p(1) order_refl, where pre = "parser_events p" and es = "[]"])
    show "segs [Plain] (length (parser_events p)) []"
      using represents_Nil by auto
  qed auto
qed

subsection \<open>Evaluation on concrete tokens\<close>

text \<open>Evaluation of the parser: a continuation is rewritten only when its argument is a value.\<close>

definition sample_token :: "token_type \<Rightarrow> u32 \<Rightarrow> u32 \<Rightarrow> token" where
  "sample_token ty b e = \<lparr>token_kind = ty, token_range = \<lparr>range_begin = b, range_end = e\<rparr>\<rparr>"

lemma bind_sum_step: "x = y \<Longrightarrow> bind_sum x f = bind_sum y f"
  by simp

lemma loop_fuel_step:
  "0 < n \<Longrightarrow> loop_fuel n body s p =
    bind_sum (body s p) (\<lambda>((go, s'), p'). if go then loop_fuel (n - 1) body s' p' else Inr (s', p'))"
  by (cases n) (auto simp: pbind_def preturn_def intro!: arg_cong [of _ _ "bind_sum (body s p)"])

lemmas parser_eval = parse_tokens_def parse_file_def parse_file_node_def parse_file_item_def
  pseq_def pbind_def puntil_def until_step_def ploop_def budget_def new_parser_def start_def at_def
  current_def ahead_def on_inspection_def accept_def advance_def complete_def preturn_def Let_def
  sample_token_def

lemma at_any_step: "at_any ts p = pbind current (\<lambda>t. preturn (t \<in> ts)) p"
  by (simp add: at_any_def)

lemma parse_call_step:
  "0 < n \<Longrightarrow> parse_call n c p =
     (case c of
        Call_expr bp fl recovery \<Rightarrow> parse_expr_bp (parse_call (n - 1)) bp fl recovery p
      | Call_if recovery \<Rightarrow> some_marker (parse_if_expr (parse_call (n - 1)) recovery) p
      | Call_stmt recovery \<Rightarrow> pseq (parse_stmt (parse_call (n - 1)) recovery) (preturn None) p)"
  by (cases n) (auto split: call.split)

lemmas grammar_eval = discard_nested_def error_recover_def expect_def error_def precede_def
  at_source_def accept_any_def por_def pand_def pnot_def passert_def pfail_def parse_item_def
  try_parse_modifiers_def modifiers_step_def parse_func_def start_after_def parse_param_list_def
  parse_name_def parse_block_expr_def parse_block_expr_unchecked_def parse_block_item_def
  parse_stmt_def parse_expr_stmt_def parse_expr_def parse_expr_bp_def parse_prefix_expr_def
  parse_primary_expr_def parse_literal_def some_marker_def infix_step_def parse_infix_expr_def
  parse_paren_expr_def parse_record_items_def parse_identifier_expr_def block_ahead_def
  parse_keyword_expr_def has_value_def parse_call_step infix_operator_precedence_def operator_def

lemmas token_set_eval = CLOSING_BRACES_def NESTING_START_def MODIFIERS_def VAR_FIRST_def
  EXPR_FIRST_def LITERAL_FIRST_def UNARY_OP_FIRST_def SKIP_CONSUME_ON_ERROR_def ITEM_FIRST_def
  STMT_FIRST_def EXPR_STMT_OPTIONAL_SEMI_def

text \<open>
  The loop over a block is decided by \<open>block_loop_stuck\<close> where its first token is a trap, all
  other loops are unrolled.
\<close>

lemma block_loop_eval:
  "block_trap (kind (look p)) \<Longrightarrow> 0 < n \<Longrightarrow> budget p \<le> m \<Longrightarrow> parser_ok p \<Longrightarrow>
    loop_fuel m (until_step (at_any {T_Eof, T_RightBrace}) (parse_block_item (parse_call n))) () p
      = Inl Stuck"
  by (rule block_loop_stuck)

lemma loop_eval:
  "\<not> block_trap (kind (look p)) \<Longrightarrow> 0 < n \<Longrightarrow> loop_fuel n body s p =
    bind_sum (body s p) (\<lambda>((go, s'), p'). if go then loop_fuel (n - 1) body s' p' else Inr (s', p'))"
  by (rule loop_fuel_step)

lemma infix_loop_eval:
  "0 < n \<Longrightarrow> loop_fuel n (infix_step rec bp fl recovery) s p =
    bind_sum (infix_step rec bp fl recovery s p) (\<lambda>((go, s'), p').
      if go then loop_fuel (n - 1) (infix_step rec bp fl recovery) s' p' else Inr (s', p'))"
  by (rule loop_fuel_step)

subsection \<open>Properties\<close>

text \<open>
  C34: The parser is total. For every source and every list of tokens with ranges inside
  the source, well-formed program or not, no assertion fails and no loop or recursion exceeds
  its bound: the parser raises its "stuck" exception, or it stops at the end of the file with
  events that represent a single file node, whose leaves are exactly the tokens consumed, in
  order, with \<open>map\<close> and \<open>set\<close> retyped to keywords.
\<close>

theorem parser_total:
  assumes "\<forall>t \<in> set tokens. range_ok source (token_range t)"
  shows "parse_tokens source tokens = Inl Stuck \<or>
    (\<exists>events children k. parse_tokens source tokens = Inr events \<and> stopped_after tokens k \<and>
       tree_of source (take k tokens) events children)"
  using assms by (rule parse_tokens_total)

lemma parser_total_witness:
  "parse_tokens ''a)'' [sample_token T_Identifier 0 1, sample_token T_RightParen 1 2] = Inl Stuck \<or>
    (\<exists>events children k.
       parse_tokens ''a)'' [sample_token T_Identifier 0 1, sample_token T_RightParen 1 2]
         = Inr events \<and>
       stopped_after [sample_token T_Identifier 0 1, sample_token T_RightParen 1 2] k \<and>
       tree_of ''a)'' (take k [sample_token T_Identifier 0 1, sample_token T_RightParen 1 2])
         events children)"
  by (rule parser_total) (simp add: sample_token_def range_ok_def)

text \<open>
  C35: The consumer of the events sees the forest they represent: the nodes that were put around
  an already completed node (forward parents) are started before it, outermost first, and
  every start is matched by its finish.
\<close>

theorem consume_events_nested:
  assumes "represents 0 events f"
  shows "consume_events events = Some (forest_calls f)"
  using assms by (rule consume_represented)

text \<open>The events of \<open>a + b\<close>: the binary expression is created after its left operand.\<close>

definition sample_events :: "parser_event list" where
  "sample_events =
     [E_Start S_VarExpr 3, E_Token (sample_token T_Identifier 0 1), E_Finish,
      E_Start S_BinaryExpr 0, E_Token (sample_token T_Plus 2 3),
      E_Start S_VarExpr 0, E_Token (sample_token T_Identifier 4 5), E_Finish, E_Finish]"

definition sample_forest :: "item list" where
  "sample_forest =
     [Node S_BinaryExpr
        [Node S_VarExpr [Tok (sample_token T_Identifier 0 1)], Tok (sample_token T_Plus 2 3),
         Node S_VarExpr [Tok (sample_token T_Identifier 4 5)]]]"

lemma sample_represents: "represents 0 sample_events sample_forest"
proof -
  note tok = represents_Token [OF represents_Nil]
  have right: "represents 5 [E_Start S_VarExpr 0, E_Token (sample_token T_Identifier 4 5), E_Finish]
      [Node S_VarExpr [Tok (sample_token T_Identifier 4 5)]]"
    using represents_link [OF links_last [OF tok, of 5 "[]"]] by simp
  have "represents (Suc 3) [E_Token (sample_token T_Plus 2 3),
       E_Start S_VarExpr 0, E_Token (sample_token T_Identifier 4 5), E_Finish]
      [Tok (sample_token T_Plus 2 3), Node S_VarExpr [Tok (sample_token T_Identifier 4 5)]]"
    by (rule represents_Token) (use right in \<open>simp add: eval_nat_numeral\<close>)
  from links_last [OF this, of "[Node S_VarExpr [Tok (sample_token T_Identifier 0 1)]]" S_BinaryExpr]
  have "links 0 [] sample_events 3 (hd sample_forest)"
    using links_next [OF tok [of "Suc 0" "sample_token T_Identifier 0 1"], of 3 S_VarExpr "[]"]
    by (simp add: sample_events_def sample_forest_def eval_nat_numeral)
  then show ?thesis
    using represents_link by (simp add: sample_forest_def)
qed

lemma consume_events_nested_witness:
  "consume_events sample_events = Some (forest_calls sample_forest) \<and>
   forest_calls sample_forest =
     [Start_node S_BinaryExpr, Start_node S_VarExpr, Token_call (sample_token T_Identifier 0 1),
      Finish_node, Token_call (sample_token T_Plus 2 3), Start_node S_VarExpr,
      Token_call (sample_token T_Identifier 4 5), Finish_node, Finish_node]"
  using consume_events_nested [OF sample_represents] by (simp add: sample_forest_def)

text \<open>
  C36: Building the syntax tree succeeds on the events of any forest whose tokens are in order, if
  it has fewer than 2^32 - 1 nodes. The tree holds exactly that forest under its root. Every node's
  range goes from the begin of its first child to the end of its last child, and is empty at the end
  of the preceding token if the node has no child. Nodes with an error are flagged, the error
  messages are kept in order, each at the end of the token before it, and every child's parent is
  the node it is a child of.
\<close>

theorem syntax_tree_stores_forest:
  assumes "represents 0 events f"
    and "ordered_from 0 (map token_range (forest_leaves f))"
    and "forest_nodes f < 2 ^ 32 - 1"
  shows "\<exists>tree. build_syntax_tree source events = Some tree \<and> stores source f tree"
  using assms by (rule build_syntax_tree_ok)

lemma syntax_tree_stores_forest_witness:
  "\<exists>tree. build_syntax_tree ''a + b'' sample_events = Some tree \<and>
     stores ''a + b'' sample_forest tree"
  by (rule syntax_tree_stores_forest [OF sample_represents])
    (simp_all add: sample_forest_def sample_token_def)

text \<open>
  C37: A small mistake can stop the parser instead of being reported. These are the tokens of
  \<open>func f() { a[(b: 1, "${x}")]; }\<close>, where the second item of the record lacks its name.
  Recovery goes on in the middle of the string, and the loop over the statements of the block
  meets the start of the block inside the string: no statement starts there and error recovery does
  not skip it, so the loop turns until the exception of \<open>on_inspection\<close>, whatever the source.
\<close>

theorem string_block_stuck:
  "parse_tokens source (map (\<lambda>ty. sample_token ty 0 0)
     [T_KwFunc, T_Identifier, T_LeftParen, T_RightParen, T_LeftBrace, T_Identifier, T_LeftBracket,
      T_LeftParen, T_Identifier, T_Colon, T_Integer, T_Comma, T_StringStart, T_StringBlockStart,
      T_Identifier, T_StringBlockEnd, T_StringEnd, T_RightParen, T_RightBracket, T_Semicolon,
      T_RightBrace, T_Eof]) = Inl Stuck"
  by (simp add: parser_eval grammar_eval token_set_eval at_any_step block_loop_eval loop_eval
      infix_loop_eval block_trap_def look_def parser_ok_def range_ok_def same_token_def
      del: parse_call.simps loop_fuel.simps
      cong: bind_sum_step if_weak_cong option.case_cong_weak call.case_cong_weak)

end
