(* ===== verification/SourceFile.thy ===== *)
theory SourceFile
  imports LexerSafe FrontEnd
begin

text \<open>
  From the source text to the syntax tree (Compiler::parse_file of src/compiler/compiler.cpp):
  validation, lexer, parser and construction of the tree, and the properties of the whole.
\<close>

subsection \<open>The first stage of the compiler\<close>

text \<open>
  The offset of the first byte that is not valid UTF-8, if there is one. The library documents its
  \<open>find_invalid\<close> as the first position where the decoder fails.
\<close>

partial_function (option) find_invalid :: "unicode \<Rightarrow> code_range \<Rightarrow> nat option option" where
  "find_invalid u r =
     (if at_end r then Some None
      else case range_advance u r of
        None \<Rightarrow> Some (Some (range_pos r))
      | Some r \<Rightarrow> find_invalid u r)"

declare find_invalid.simps [code]

definition from_std_offset :: "nat \<Rightarrow> source_range option" where
  "from_std_offset offset = from_std_offsets offset offset"

definition parse_source :: "unicode \<Rightarrow> string \<Rightarrow> (parse_failure + syntax_tree) option" where
  "parse_source u source =
     Option.bind (find_invalid u (code_range source)) (\<lambda>invalid. case invalid of
       Some offset \<Rightarrow>
         Option.bind (from_std_offset offset) (\<lambda>r.
           Some (Inr \<lparr>tree_source = source, tree_root = None, tree_nodes = [],
             tree_errors = [(''The file contains invalid utf8.'', r)]\<rparr>))
     | None \<Rightarrow>
         Option.bind (lex_tokens u source) (\<lambda>tokens.
           case parse_tokens source tokens of
             Inl failure \<Rightarrow> Some (Inl failure)
           | Inr events \<Rightarrow> map_option Inr (build_syntax_tree source events)))"

subsection \<open>The lexer reads the whole source\<close>

lemma find_invalid_valid:
  assumes "decodes_forward u"
  shows "ahead_points u r = Some cs \<Longrightarrow> find_invalid u r = Some None"
proof (induction cs arbitrary: r)
  case Nil
  then show ?case
    using at_end_iff [OF Nil] by (subst find_invalid.simps) simp
next
  case (Cons c cs)
  then show ?case
    using range_advance_Cons [OF assms Cons.prems] at_end_iff [OF Cons.prems]
    by (subst find_invalid.simps) auto
qed

text \<open>A list of tokens ends with the only token for the end of the file, at the end of the source.\<close>

definition tokens_cover :: "string \<Rightarrow> u32 \<Rightarrow> token list \<Rightarrow> bool" where
  "tokens_cover source pos tokens \<longleftrightarrow>
     ordered_from pos (map token_range tokens) \<and>
     (\<forall>t \<in> set tokens. range_ok source (token_range t)) \<and>
     (\<exists>ts t. tokens = ts @ [t] \<and> token_kind t = T_Eof \<and>
        unat (range_begin (token_range t)) = length source \<and>
        (\<forall>t \<in> set ts. token_kind t \<noteq> T_Eof \<and> range_begin (token_range t) < range_end (token_range t)))"

lemma tokens_cover_Cons:
  assumes "tokens_cover source (range_end (token_range t)) ts" "token_kind t \<noteq> T_Eof"
    "pos \<le> range_begin (token_range t)" "range_begin (token_range t) < range_end (token_range t)"
    "unat (range_end (token_range t)) \<le> length source"
  shows "tokens_cover source pos (t # ts)"
proof -
  obtain us eof where us: "ts = us @ [eof]" "token_kind eof = T_Eof"
      "unat (range_begin (token_range eof)) = length source"
      "\<forall>t \<in> set us. token_kind t \<noteq> T_Eof \<and> range_begin (token_range t) < range_end (token_range t)"
    using assms(1) by (auto simp: tokens_cover_def)
  then have "t # ts = (t # us) @ [eof]"
    by simp
  then show ?thesis
    using assms us unfolding tokens_cover_def
    by (intro conjI exI [of _ "t # us"] exI [of _ eof]) (auto simp: range_ok_def)
qed

lemma lex_loop_ok:
  assumes "decodes_forward u" "length source < 2 ^ 32"
  shows "points u l = Some cs \<Longrightarrow> range_bytes (lx_input l) = source \<Longrightarrow> unat pos = lx_pos l \<Longrightarrow>
    (lex_loop u l = None \<and> \<not> ends_well cs) \<or>
    (\<exists>tokens. lex_loop u l = Some tokens \<and> tokens_cover source pos tokens)"
proof (induction cs arbitrary: l pos rule: length_induct)
  case (1 cs)
  have "length (range_bytes (lx_input l)) < 2 ^ 32"
    using 1(3) assms(2) by simp
  from lexer_next_ok [OF assms(1) 1(2) this] show ?case
  proof (elim disjE exE conjE)
    assume "lexer_next u l = None" "\<not> ends_well cs"
    then have "lex_loop u l = None"
      by (subst lex_loop.simps) simp
    with \<open>\<not> ends_well cs\<close> show ?thesis
      by blast
  next
  fix t l'
  assume l': "lexer_next u l = Some (t, l')" "next_ok u l (token_kind t) l'"
      "unat (range_begin (token_range t)) = lx_start l'" "unat (range_end (token_range t)) = lx_pos l'"
  have bytes: "range_bytes (lx_input l') = source" and from_pos: "lx_pos l \<le> lx_start l'"
    using l'(2) 1(3) by (auto simp: next_ok_def moves_def)
  obtain cs' where cs': "points u l' = Some cs'" "suffix cs' cs"
    using l'(2) 1(2) by (auto simp: next_ok_def points_def elim: moves_points)
  have inside: "lx_pos l' \<le> length source"
    using points_bounds [OF cs'(1)] bytes by simp
  show ?thesis
  proof (cases "token_kind t = T_Eof")
    case True
    then have "lx_start l' = lx_pos l'" "points u l' = Some []"
      using l'(2) by (auto simp: next_ok_def)
    moreover from this(2) have "length source \<le> lx_pos l'"
      using bytes by (auto simp: points_def ahead_points_def rest_bytes_def split: if_splits)
    ultimately have "tokens_cover source pos [t]"
      using True l'(3,4) inside from_pos 1(4)
      by (auto simp: tokens_cover_def range_ok_def word_le_nat_alt)
    moreover have "lex_loop u l = Some [t]"
      using True l'(1) by (subst lex_loop.simps) simp
    ultimately show ?thesis
      by blast
  next
    case False
    then have progress: "consumes u (lx_input l) (lx_input l')" "lx_start l' < lx_pos l'"
      using l'(2) by (auto simp: next_ok_def)
    then have "length cs' < length cs"
      using cs'(1) 1(2) by (simp add: consumes_def points_def)
    from 1(1) [rule_format, OF this cs'(1) bytes l'(4)] show ?thesis
    proof (elim disjE exE conjE)
      assume fail: "lex_loop u l' = None" "\<not> ends_well cs'"
      then have "\<not> ends_well cs"
        using cs'(2) ends_well_suffix by blast
      moreover have "lex_loop u l = None"
        using False l'(1) fail(1) by (subst lex_loop.simps) simp
      ultimately show ?thesis
        by blast
    next
      fix ts
      assume ts: "lex_loop u l' = Some ts" "tokens_cover source (range_end (token_range t)) ts"
      have "tokens_cover source pos (t # ts)"
        using ts(2) False l'(3,4) progress(2) from_pos 1(4) inside
        by (intro tokens_cover_Cons) (auto simp: word_le_nat_alt word_less_nat_alt)
      moreover have "lex_loop u l = Some (t # ts)"
        using False l'(1) ts(1) by (subst lex_loop.simps) simp
      ultimately show ?thesis
        by blast
    qed
  qed
  qed
qed

text \<open>A source that the lexer handles: valid, and of less than 4 GiB.\<close>

definition source_ok :: "unicode \<Rightarrow> string \<Rightarrow> bool" where
  "source_ok u source \<longleftrightarrow> length source < 2 ^ 32 \<and> code_points u source \<noteq> None"

definition source_ends_well :: "unicode \<Rightarrow> string \<Rightarrow> bool" where
  "source_ends_well u source \<longleftrightarrow> (case code_points u source of None \<Rightarrow> False | Some cs \<Rightarrow> ends_well cs)"

lemma source_okE:
  assumes "source_ok u source"
  obtains cs where "length source < 2 ^ 32" "ahead_points u (code_range source) = Some cs"
    "source_ends_well u source = ends_well cs"
  using assms
  by (auto simp: source_ok_def source_ends_well_def ahead_points_def code_range_def rest_bytes_def)

lemma lex_tokens_ok:
  assumes "decodes_forward u" "source_ok u source"
  shows "(lex_tokens u source = None \<and> \<not> source_ends_well u source) \<or>
    (\<exists>tokens. lex_tokens u source = Some tokens \<and> tokens_cover source 0 tokens)"
proof -
  obtain cs where cs: "length source < 2 ^ 32" "ahead_points u (code_range source) = Some cs"
      "source_ends_well u source = ends_well cs"
    using assms(2) by (rule source_okE)
  show ?thesis
    unfolding lex_tokens_def cs(3)
    by (rule lex_loop_ok [OF assms(1) cs(1)])
      (use cs(2) in \<open>simp_all add: points_def new_lexer_def code_range_def\<close>)
qed

lemma parse_source_ok:
  assumes "decodes_forward u" "source_ok u source" "lex_tokens u source = Some tokens"
    "tokens_cover source 0 tokens"
  shows "parse_source u source = Some (Inl Stuck) \<or>
    (\<exists>events. parse_tokens source tokens = Inr events \<and> 2 ^ 32 - 1 \<le> length events) \<or>
    (\<exists>tree. parse_source u source = Some (Inr tree) \<and> tree_holds source tokens tree)"
proof -
  obtain cs where "ahead_points u (code_range source) = Some cs"
    using assms(2) by (rule source_okE)
  then have source: "parse_source u source = (case parse_tokens source tokens of
      Inl failure \<Rightarrow> Some (Inl failure)
    | Inr events \<Rightarrow> map_option Inr (build_syntax_tree source events))"
    using find_invalid_valid [OF assms(1)] assms(3) by (simp add: parse_source_def)
  have ranges: "\<forall>t \<in> set tokens. range_ok source (token_range t)"
      "ordered_from 0 (map token_range tokens)"
    using assms(4) by (auto simp: tokens_cover_def)
  from parse_tokens_total [OF ranges(1)] show ?thesis
  proof (elim disjE exE conjE)
    assume "parse_tokens source tokens = Inl Stuck"
    then show ?thesis
      using source by simp
  next
    fix events children k
    assume events: "parse_tokens source tokens = Inr events"
    show ?thesis
    proof (cases "length events < 2 ^ 32 - 1")
      case True
      then show ?thesis
        using tree_of_events [OF ranges events] source events by auto
    next
      case False
      then show ?thesis
        using events by (simp add: not_less)
    qed
  qed
qed

lemma parse_source_fails:
  assumes "decodes_forward u" "source_ok u source" "lex_tokens u source = None"
  shows "parse_source u source = None"
proof -
  obtain cs where "ahead_points u (code_range source) = Some cs"
    using assms(2) by (rule source_okE)
  then show ?thesis
    using find_invalid_valid [OF assms(1)] assms(3) by (simp add: parse_source_def)
qed

text \<open>
  An operator that is continued by a second code point reads it without a test for the end:
  a source that ends with such an operator fails an assertion in the lexer.
\<close>

lemma operator_at_end: "lex_tokens ascii ''+'' = None"
proof -
  let ?l = "new_lexer ''+'' True"
  note eval = new_lexer_def code_range_def at_end_def rest_bytes_def range_get_def ascii_simps cp_def
  have spaces: "lx_accept_while ascii is_whitespace ?l = Some ?l"
    by (simp add: lx_accept_while_def accept_while_loop.simps eval is_whitespace_def
        whitespace_table_def sparse_set_contains_def)
  have "lex_operator ascii ?l = None"
    by (simp add: lex_operator_def single_operators_def accept_operators_def switch_operators_def
        lx_advance_def range_advance_def eval)
  then have "lex_token ascii (cp (CHR ''+'')) ?l = None"
    by (simp add: lex_token_def is_decimal_digit_def is_identifier_start_def is_xid_start_def
        sparse_set_contains_def ascii_simps cp_def)
  then have "lex_normal ascii ?l = None"
    using spaces by (subst lex_normal.simps) (simp add: eval range_advance_def normal_state_def)
  moreover have "?l\<lparr>lx_start := range_pos (lx_input ?l)\<rparr> = ?l"
    by (simp add: new_lexer_def code_range_def)
  ultimately show ?thesis
    by (simp add: lex_tokens_def lex_loop.simps lexer_next_def new_lexer_def normal_state_def
        code_range_def)
qed

subsection \<open>Properties\<close>

text \<open>
  C38: From source to tree nothing is lost. For a valid source of less than 4 GiB there are four
  cases. The lexer fails its assertion, which happens only if the last code point of the source is
  one of \<open>? + - * < >\<close>. Otherwise the lexer reads the source to its end, with tokens that have
  increasing ranges inside the source, take at least one byte each and end with the only token for
  the end of the file, and the first stage of the compiler raises the "stuck" exception of the parser;
  or the parser produced at least 2^32 - 1 events, too many to number the nodes; or the compiler
  builds a tree with one file node whose leaves are these tokens up to the end of the file.
\<close>

theorem source_to_tree:
  assumes "decodes_forward u" "source_ok u source"
  shows "(parse_source u source = None \<and> lex_tokens u source = None \<and> \<not> source_ends_well u source) \<or>
    (\<exists>tokens. lex_tokens u source = Some tokens \<and> tokens_cover source 0 tokens \<and>
      (parse_source u source = Some (Inl Stuck) \<or>
       (\<exists>events. parse_tokens source tokens = Inr events \<and> 2 ^ 32 - 1 \<le> length events) \<or>
       (\<exists>tree. parse_source u source = Some (Inr tree) \<and> tree_holds source tokens tree)))"
  using lex_tokens_ok [OF assms] parse_source_ok [OF assms] parse_source_fails [OF assms] by blast

text \<open>The source \<open>a "$b"\<close>, with a string that contains a variable.\<close>

definition sample_text :: string where
  "sample_text = [CHR ''a'', CHR '' '', CHR 0x22, CHR ''$'', CHR ''b'', CHR 0x22]"

lemma sample_text_ok: "source_ok ascii sample_text" "source_ends_well ascii sample_text"
proof -
  have "code_points ascii sample_text = Some (map cp sample_text)"
    by (simp add: ascii_def cp_def code_points.simps sample_text_def)
  then show "source_ok ascii sample_text" "source_ends_well ascii sample_text"
    by (simp_all add: source_ok_def source_ends_well_def ends_well_def switch_operators_def cp_def sample_text_def)
qed

lemma source_to_tree_witness:
  "\<exists>tokens. lex_tokens ascii sample_text = Some tokens \<and> tokens_cover sample_text 0 tokens \<and>
    (parse_source ascii sample_text = Some (Inl Stuck) \<or>
     (\<exists>events. parse_tokens sample_text tokens = Inr events \<and> 2 ^ 32 - 1 \<le> length events) \<or>
     (\<exists>tree. parse_source ascii sample_text = Some (Inr tree) \<and> tree_holds sample_text tokens tree))"
  using source_to_tree [OF ascii_forward sample_text_ok(1)] sample_text_ok(2) by blast

end
