(* ===== verification/Spec2Isabelle.thy ===== *)
theory Spec2Isabelle
  imports Numerics Values TableProps Toolchain Loader ConstEval InterpreterProps Scheduler ParallelCopy HeapAlloc
    SourceFile
begin

text \<open>
  This library models parts of tiro, an embeddable scripting language: the lexer and the parser of
  its compiler, the compiler's back end (assembler, string table), the binary format of compiled code,
  and the virtual machine that verifies, loads and runs it. File names are relative to src/src/ of
  the repository.

  How the parts interact. The compiler (compiler/compiler.cpp) validates the text of a file as UTF-8,
  reads its tokens (compiler/syntax/lexer.cpp), and parses them (parser.cpp and grammar/) into a list
  of events (parser_event.cpp), from which it builds the syntax tree (build_syntax_tree.cpp). From the
  passes over the tree it emits instructions through the assembler
  (bytecode/writer.cpp); the linker (compiler/bytecode_gen/module.cpp) patches the member
  references of the code. The result is a compiled module. The virtual machine verifies a module
  (vm/modules/verify.cpp) with the instruction decoder (bytecode/reader.cpp) before it loads it
  (vm/modules/load.cpp), and its interpreter (vm/interpreter.cpp) runs the functions on the stack
  of a coroutine (vm/objects/coroutine_stack.cpp); the exports of a module, and all maps and sets of scripts, are hash
  tables (vm/objects/hash_table.cpp).

  Conventions. Machine integers are words of their width (size_t has 64 bits); a value of
  type \<open>X option\<close> is \<open>None\<close> where the code has undefined behaviour, a failed assertion or a
  loop that does not end (\<open>partial_function (option)\<close>), so that a theorem with \<open>Some\<close> on its
  right-hand side says that none of them happens; a reported error is the left side of a sum.
  Bytes are words of 8 bits, floats are bit patterns of 64 bits whose arithmetic is a
  parameter.

  The theories.
    \<^item> Prelude: names of the machine types, checked lookups, monadic binds and the lemmas on
      words and lists that the components share.
    \<^item> Numerics: common/math.hpp, common/bitops.hpp and common/safe_int.hpp. The helpers on
      powers of two agree with their specification and with the variants for hardware
      instructions; checked integers return exactly the representable results, over signed and
      unsigned types, except for one remainder.
    \<^item> Values: vm/hash.cpp, vm/objects/value.cpp and the tagged integers of
      vm/objects/primitives.cpp. Equal values have equal hashes except for integers and floats.
    \<^item> RobinHood, HashTable, TableLoops, TableInvariant, TableOps, TableSpec, TableRemove,
      TableProps: vm/objects/hash_table.cpp. The first two hold the code (entries, index buffer
      in three widths, probing loops), TableLoops the behaviour of the loops, TableInvariant the
      representation invariants \<open>wf_table\<close> (structure) and \<open>ordered_table\<close> (with the Robin Hood
      order of the probe sequences), TableOps that all operations preserve them, TableSpec the
      abstract map (a list of pairs in insertion order) and the refinement, TableRemove the
      removal, whose backward shift moves one entry only, and TableProps the locale of finite
      maps, its interpretation on the table, and the properties.
    \<^item> Binary: common/memory/byte_order.hpp and binary.hpp, a big endian encoding of integers
      that does not depend on the byte order of the host.
    \<^item> Instruction, Bytecode: bytecode/op.hpp, instruction.hpp and reader.cpp: the 67
      instructions, their encoding, and the decoder, which inverts it and never leaves its input.
    \<^item> BytecodeWriter: bytecode/writer.cpp, the search of a handler table in
      vm/objects/function.cpp, and the linking of a function in
      compiler/bytecode_gen/module.cpp, which replaces the ids of members by the final ones. A program is a list of commands (emit, jump to a label,
      define a label, start a handler).
    \<^item> Verify: bytecode/module.hpp and vm/modules/verify.cpp. The verifier is characterised
      exactly (\<open>function_ok\<close>, \<open>module_ok\<close>), and verified code is shown safe to step through: the
      relation \<open>pc_step\<close> of possible successors stays on decodable instructions. Where the verifier
      uses an unchecked id as an index, its result is \<open>UndefinedAccess\<close>; the ids in bounds
      (\<open>ids_in_bounds\<close>) exclude this. The index registers of LoadIndex and StoreIndex, which it does
      not check, are \<open>unchecked_index\<close>.
    \<^item> Toolchain: what the assembler makes from a sensible program is what the verifier accepts.
    \<^item> StringTable: common/text/string_table.cpp.
    \<^item> Loader: vm/modules/load.cpp on top of the verifier, the string table and the hash table.
    \<^item> VmMath: vm/math.cpp, the arithmetic and comparison of scripts.
    \<^item> ConstEval: compiler/ir_gen/const_eval.cpp. The compiler folds constants to the values that
      the virtual machine computes, except for the negation of minus one (\<open>folding_differs\<close>) and
      operations that the machine does not implement.
    \<^item> CoroutineStack: vm/objects/coroutine_stack.cpp, the contiguous memory of a coroutine with
      frames found by pointer arithmetic, refines a list of frames.
    \<^item> Interpreter: vm/interpreter.cpp on the list of frames: all instructions, calls of code,
      bound methods, native and catching functions, returns, exceptions, growth of the stack and
      the loop over the frames. The type system and native functions are the record \<open>runtime\<close>.
    \<^item> InterpreterSafety, InterpreterProps: rules for safe execution, a locale for conditions that
      changes of values keep, with its interpretations for a running instruction and for calls,
      and the safety of verified code in every state that a coroutine reaches, under two conditions
      that the verifier does not check (\<open>beyond_verifier\<close>). The unwinding of an exception is
      described exactly, frame by frame (\<open>unwound_frames\<close>, \<open>deliver\<close>).
    \<^item> Scheduler: the scheduling part of vm/context.cpp and vm/objects/coroutine.cpp: the queue of
      ready coroutines, linked through the coroutines, and the tokens that resume them, as a
      step relation whose reachable states keep the queue exact. A call of std.dispatch from the
      bottom frame, which leaves a finished coroutine in the queue, is a step of its own.
    \<^item> ParallelCopy: compiler/bytecode_gen/parallel_copy.cpp, the order in which register copies that
      happen at once are executed, with the effect of the copies on all registers.
    \<^item> Token: compiler/syntax/token.hpp, syntax_type.hpp and compiler/source_range.cpp.
    \<^item> ParserEvents: compiler/syntax/parser_event.cpp. A list of events stands for a forest
      (\<open>represents\<close>), also where a node was put around one that was complete already; the
      consumer of the events sees the forest in order.
    \<^item> Parser, Grammar: compiler/syntax/parser.cpp and all functions of compiler/syntax/grammar/
      that parse, as functions of the parser's state that fail or return a value. The recursion
      of the grammar goes through the parameter \<open>rec\<close> and is tied by \<open>parse_call\<close>.
    \<^item> ParserLogic, GrammarSafe: rules for total correctness of parser code with a budget that
      every step uses up, and one lemma per function of the grammar: no assertion fails, every
      marker is completed at most once and in the right place, and every loop and recursion ends.
    \<^item> SyntaxTree: compiler/syntax/syntax_tree.hpp and build_syntax_tree.cpp. The tree holds the
      forest of the events, with the exact range of every node and place of every error.
    \<^item> FrontEnd: the properties of the parser and the tree, from the tokens to the tree.
    \<^item> CodePoints: common/text/unicode.cpp and code_point_range.hpp, the iteration over a string
      of UTF-8. The decoder and encoder (a third-party library) and the generated tables of
      identifier characters are the record \<open>unicode\<close>.
    \<^item> Literals: compiler/syntax/grammar/literals.cpp. Integer literals and tuple fields are
      characterised exactly, and the escape sequences of strings undo the escaping of any text.
    \<^item> Lexer, LexerSafe: compiler/syntax/lexer.cpp with its stack of states for strings in blocks in
      strings. \<open>lexer_next_ok\<close> shows that every loop ends, that a token consumes at least one code
      point, and that no assertion fails but one, at the end of a text that does not end well
      (\<open>ends_well\<close>).
    \<^item> SourceFile: Compiler::parse_file, from the source text to the syntax tree. Its theorem composes
      the lexer, the parser, the events and the tree.
    \<^item> Bitset: common/adt/bitset.hpp. The blockwise operations are operations on single bits.
    \<^item> HeapPage, PageTiles: the pages of vm/heap/chunks.cpp. A page's two bitmaps stand for a division of
      its cells into blocks (\<open>page_rep\<close>), on which the sweep is a simple function.
    \<^item> FreeSpace: the free lists by size class of vm/heap/heap.cpp, which hold every free block of
      every page once (\<open>space_ok\<close>).
    \<^item> Heap, HeapMark, HeapSweep, HeapAlloc: vm/heap/heap.cpp and collector.cpp. Heap holds the code;
      HeapMark shows that marking finds exactly the reachable objects, HeapSweep that a collection
      keeps exactly them, HeapAlloc that allocation adds exactly one new object, or fails because
      no memory can be had (\<open>refused\<close>). The invariant of all operations is \<open>heap_ok\<close>.

  Bounds. The loops that are not structurally recursive are partial functions or have a measure,
  except in the parser, whose loops and recursion take fuel: the parser allows 1023 inspections of
  a token before it raises an exception, so \<open>budget\<close> (1024 for every token that is left, plus the
  inspections left for the current one) bounds all of them, and \<open>parser_total\<close> shows that the fuel
  never runs out. The assertions of the parser inspect tokens as they do in debug builds; in
  other builds there are fewer inspections. A syntax tree has less than 2 to the power 32 minus 1
  nodes. The size of an array in cells is bounded by what its allocation in bytes
  can hold (\<open>safe_array_size\<close>), and the hash table by 2 to the power 60 entries or so; these
  limits are errors of the model as of the code.

  Not modelled: formatting and debug output, the C and C++ bindings, floating point literals, the
  abstract syntax tree and the passes over it (large visitors over generated classes), the texts of
  error messages outside of the lexer's literals and the parser. The lexer reads the code point
  behind the operators ? + - * < > without a test for the end of the file (\<open>operator_at_end\<close>); the
  property of the whole source names this failure. A marker of the parser is the index of its
  event; that a marker is not used twice is an assertion of the model, its invalidation is not. The
  depth of the C++ stack has no counterpart. Outside of the theories on the heap, objects are values
  and the lifetime of handles is not visible.
\<close>

end
